(* ===== verification/Akita_Prelude.thy ===== *)
theory Akita_Prelude
  imports Main "HOL-Library.Word"
begin

unbundle bit_operations_syntax

text \<open>
  Shared vocabulary of the development: the error enumeration of the crate
  \<^verbatim>\<open>akita-error\<close>, the \<^verbatim>\<open>Result\<close> type with the \<^verbatim>\<open>?\<close> operator, machine integers, byte
  strings and the generic lemmas on lists, words and arithmetic that several
  components use.

  Integers.  \<^verbatim>\<open>usize\<close> is 64 bits wide; sizes, offsets and counters are natural numbers
  with the checked and saturating operations of the standard library bounded by
  \<open>usize_max\<close>.  Values that the code treats bit by bit are machine words.
\<close>

section \<open>Errors and results\<close>

datatype akita_error =
    InvalidProof
  | InvalidSize nat nat
  | InvalidPointDimension nat nat
  | InvalidInput string
  | UnsupportedSchedule string
  | InvalidSetup string
  | Internal string

type_synonym 'a result = "akita_error + 'a"

abbreviation Ok :: "'a \<Rightarrow> 'a result" where
  "Ok \<equiv> Inr"

abbreviation Err :: "akita_error \<Rightarrow> 'a result" where
  "Err \<equiv> Inl"

text \<open>The \<^verbatim>\<open>?\<close> operator: continue with the value, or return the error.\<close>

definition try_r :: "'e + 'a \<Rightarrow> ('a \<Rightarrow> 'e + 'b) \<Rightarrow> 'e + 'b" where
  "try_r r f = (case r of Inl e \<Rightarrow> Inl e | Inr x \<Rightarrow> f x)"

text \<open>\<^verbatim>\<open>Option::ok_or\<close>, \<^verbatim>\<open>Result::map_err\<close> and \<^verbatim>\<open>Result::is_ok\<close>.\<close>

definition ok_or :: "'a option \<Rightarrow> 'e \<Rightarrow> 'e + 'a" where
  "ok_or o' e = (case o' of None \<Rightarrow> Inl e | Some x \<Rightarrow> Inr x)"

definition map_err :: "('e \<Rightarrow> 'f) \<Rightarrow> 'e + 'a \<Rightarrow> 'f + 'a" where
  "map_err f r = (case r of Inl e \<Rightarrow> Inl (f e) | Inr x \<Rightarrow> Inr x)"

fun is_ok :: "'e + 'a \<Rightarrow> bool" where
  "is_ok (Inl e) = False"
| "is_ok (Inr x) = True"

named_theorems result_simps \<open>rewriting of the result operators on known outcomes\<close>
named_theorems checked_simps \<open>characterisations of checked machine arithmetic\<close>
named_theorems bits_simps \<open>bit-level characterisations of readers, writers and words\<close>

lemma try_r_simps [simp, result_simps]:
  "try_r (Inl e) f = Inl e"
  "try_r (Inr x) f = f x"
  by (simp_all add: try_r_def)

lemma ok_or_simps [simp, result_simps]:
  "ok_or None e = Inl e"
  "ok_or (Some x) e = Inr x"
  by (simp_all add: ok_or_def)

lemma map_err_simps [simp, result_simps]:
  "map_err f (Inl e) = Inl (f e)"
  "map_err f (Inr x) = Inr x"
  by (simp_all add: map_err_def)

lemma try_r_eq_Inr: "try_r r f = Inr y \<longleftrightarrow> (\<exists>x. r = Inr x \<and> f x = Inr y)"
  by (cases r) auto

lemma ok_or_eq_Inr [simp]: "ok_or o' e = Inr x \<longleftrightarrow> o' = Some x"
  by (cases o') auto

lemma map_err_eq_Inr [simp]: "map_err f r = Inr x \<longleftrightarrow> r = Inr x"
  by (cases r) auto

lemma try_r_assoc: "try_r (try_r r f) g = try_r r (\<lambda>x. try_r (f x) g)"
  by (cases r) auto

text \<open>
  Fallible code that also updates a state: the result is paired with the state it leaves,
  on the error path too.  \<open>st_bind\<close> is the \<^verbatim>\<open>?\<close> operator there.
\<close>

type_synonym ('a, 's) outcome = "'a result \<times> 's"

definition st_bind :: "('a, 's) outcome \<Rightarrow> ('a \<Rightarrow> 's \<Rightarrow> ('b, 's) outcome) \<Rightarrow> ('b, 's) outcome" where
  "st_bind m f = (case m of (Inl e, s) \<Rightarrow> (Inl e, s) | (Inr x, s) \<Rightarrow> f x s)"

lemma st_bind_simps [simp, result_simps]:
  "st_bind (Inl e, s) f = (Inl e, s)"
  "st_bind (Inr x, s) f = f x s"
  by (simp_all add: st_bind_def)

lemma st_bind_eq_Inr:
  "st_bind m f = (Inr y, t) \<longleftrightarrow> (\<exists>x s. m = (Inr x, s) \<and> f x s = (Inr y, t))"
  by (cases m; cases "fst m") auto

lemma st_bind_eq_Inl:
  "st_bind m f = (Inl e, t) \<longleftrightarrow> m = (Inl e, t) \<or> (\<exists>x s. m = (Inr x, s) \<and> f x s = (Inl e, t))"
  by (cases m; cases "fst m") auto

text \<open>A computation that returns a value satisfying \<open>Q\<close> or ends in one of the errors \<open>E\<close>.\<close>

definition ends_in :: "akita_error set \<Rightarrow> ('a \<Rightarrow> 's \<Rightarrow> bool) \<Rightarrow> ('a, 's) outcome \<Rightarrow> bool" where
  "ends_in E Q out \<longleftrightarrow> (case fst out of Inl e \<Rightarrow> e \<in> E | Inr v \<Rightarrow> Q v (snd out))"

lemma ends_in_simps [simp]: "ends_in E Q (Inl e, s) \<longleftrightarrow> e \<in> E" "ends_in E Q (Inr v, s) \<longleftrightarrow> Q v s"
  by (simp_all add: ends_in_def)

lemma ends_in_bind:
  "ends_in E Q m \<Longrightarrow> (\<And>v s. Q v s \<Longrightarrow> ends_in E R (f v s)) \<Longrightarrow> ends_in E R (st_bind m f)"
  by (cases m; cases "fst m") auto

lemma ends_in_mono: "ends_in E Q m \<Longrightarrow> (\<And>v s. Q v s \<Longrightarrow> R v s) \<Longrightarrow> ends_in E R m"
  by (cases m; cases "fst m") auto

lemma ends_in_cases:
  assumes "ends_in E Q m"
  obtains e s where "m = (Inl e, s)" "e \<in> E" | v s where "m = (Inr v, s)" "Q v s"
  using assms by (cases m; cases "fst m") auto

text \<open>A loop that pushes one fallible result per element, stopping at the first error.\<close>

fun collect_results :: "('a \<Rightarrow> 'e + 'b) \<Rightarrow> 'a list \<Rightarrow> 'e + 'b list" where
  "collect_results f [] = Inr []"
| "collect_results f (x # xs) = try_r (f x) (\<lambda>y. try_r (collect_results f xs) (\<lambda>ys. Inr (y # ys)))"

lemma collect_results_Inr_iff:
  "collect_results f xs = Inr ys \<longleftrightarrow>
     length ys = length xs \<and> (\<forall>i < length xs. f (xs ! i) = Inr (ys ! i))"
proof (induction xs arbitrary: ys)
  case Nil
  show ?case by auto
next
  case (Cons x xs)
  show ?case
    by (cases ys) (auto simp: try_r_eq_Inr Cons.IH nth_Cons' less_Suc_eq_0_disj split: if_splits)
qed

lemma collect_results_map: "(\<And>x. x \<in> set xs \<Longrightarrow> f x = Inr (g x)) \<Longrightarrow> collect_results f xs = Inr (map g xs)"
  by (induction xs) auto

section \<open>Machine integers\<close>

type_synonym u8 = "8 word"
type_synonym u16 = "16 word"
type_synonym u32 = "32 word"
type_synonym u64 = "64 word"
type_synonym i64 = "64 word"
type_synonym u128 = "128 word"

definition usize_max :: nat where
  "usize_max = 2 ^ 64 - 1"

definition u64_max :: nat where
  "u64_max = 2 ^ 64 - 1"

definition u32_max :: nat where
  "u32_max = 2 ^ 32 - 1"

definition u8_max :: nat where
  "u8_max = 2 ^ 8 - 1"

definition u128_max :: nat where
  "u128_max = 2 ^ 128 - 1"

text \<open>The operations of the standard library on an unsigned type with maximum \<open>m\<close>.\<close>

definition checked_add_max :: "nat \<Rightarrow> nat \<Rightarrow> nat \<Rightarrow> nat option" where
  "checked_add_max m a b = (if a + b \<le> m then Some (a + b) else None)"

definition checked_mul_max :: "nat \<Rightarrow> nat \<Rightarrow> nat \<Rightarrow> nat option" where
  "checked_mul_max m a b = (if a * b \<le> m then Some (a * b) else None)"

definition checked_add :: "nat \<Rightarrow> nat \<Rightarrow> nat option" where
  "checked_add = checked_add_max usize_max"

definition checked_mul :: "nat \<Rightarrow> nat \<Rightarrow> nat option" where
  "checked_mul = checked_mul_max usize_max"

definition checked_sub :: "nat \<Rightarrow> nat \<Rightarrow> nat option" where
  "checked_sub a b = (if b \<le> a then Some (a - b) else None)"

definition checked_div :: "nat \<Rightarrow> nat \<Rightarrow> nat option" where
  "checked_div a b = (if b = 0 then None else Some (a div b))"

definition saturating_mul :: "nat \<Rightarrow> nat \<Rightarrow> nat" where
  "saturating_mul a b = min usize_max (a * b)"

definition saturating_add :: "nat \<Rightarrow> nat \<Rightarrow> nat" where
  "saturating_add a b = min usize_max (a + b)"

text \<open>\<^verbatim>\<open>usize::is_power_of_two\<close>, \<^verbatim>\<open>is_multiple_of\<close> and \<^verbatim>\<open>div_ceil\<close>.\<close>

fun is_power_of_two :: "nat \<Rightarrow> bool" where
  "is_power_of_two n = (if n = 0 then False else if n = 1 then True
     else even n \<and> is_power_of_two (n div 2))"

declare is_power_of_two.simps [simp del]

definition is_multiple_of :: "nat \<Rightarrow> nat \<Rightarrow> bool" where
  "is_multiple_of a b = (if b = 0 then a = 0 else a mod b = 0)"

definition ceil_div :: "nat \<Rightarrow> nat \<Rightarrow> nat" where
  "ceil_div a b = a div b + (if a mod b = 0 then 0 else 1)"

lemma checked_add_if: "checked_add a b = (if a + b \<le> usize_max then Some (a + b) else None)"
  by (simp add: checked_add_def checked_add_max_def)

lemma checked_mul_if: "checked_mul a b = (if a * b \<le> usize_max then Some (a * b) else None)"
  by (simp add: checked_mul_def checked_mul_max_def)

lemma checked_add_eq_Some [simp, checked_simps]:
  "checked_add a b = Some c \<longleftrightarrow> a + b \<le> usize_max \<and> c = a + b"
  by (auto simp: checked_add_if)

lemma checked_add_eq_None [simp, checked_simps]: "checked_add a b = None \<longleftrightarrow> usize_max < a + b"
  by (auto simp: checked_add_if)

lemma checked_mul_eq_Some [simp, checked_simps]:
  "checked_mul a b = Some c \<longleftrightarrow> a * b \<le> usize_max \<and> c = a * b"
  by (auto simp: checked_mul_if)

lemma checked_mul_eq_None [simp, checked_simps]: "checked_mul a b = None \<longleftrightarrow> usize_max < a * b"
  by (auto simp: checked_mul_if)

lemma checked_sub_eq_Some [simp, checked_simps]: "checked_sub a b = Some c \<longleftrightarrow> b \<le> a \<and> c = a - b"
  by (auto simp: checked_sub_def)

lemma is_power_of_two_iff: "is_power_of_two n \<longleftrightarrow> (\<exists>k. n = 2 ^ k)"
proof (induction n rule: is_power_of_two.induct)
  case (1 n)
  show ?case
  proof (cases "n = 0 \<or> n = 1")
    case True
    have "(0::nat) \<noteq> 2 ^ k" for k by simp
    moreover have "\<exists>k. (1::nat) = 2 ^ k" by (rule exI [of _ 0]) simp
    ultimately show ?thesis using True by (auto simp: is_power_of_two.simps [of n])
  next
    case False
    then have step: "is_power_of_two n \<longleftrightarrow> even n \<and> (\<exists>k. n div 2 = 2 ^ k)"
      using "1.IH" by (auto simp: is_power_of_two.simps [of n])
    show ?thesis
    proof
      assume "is_power_of_two n"
      then obtain k where "even n" "n div 2 = 2 ^ k" using step by blast
      then have "n = 2 ^ Suc k" by auto
      then show "\<exists>k. n = 2 ^ k" by blast
    next
      assume "\<exists>k. n = 2 ^ k"
      then obtain k where k: "n = 2 ^ k" by blast
      with False have "k \<noteq> 0" by (cases k) auto
      then obtain j where "k = Suc j" by (cases k) auto
      with k step show "is_power_of_two n" by auto
    qed
  qed
qed

lemma is_power_of_two_pos: "is_power_of_two n \<Longrightarrow> 0 < n"
  by (auto simp: is_power_of_two_iff)

lemma is_power_of_two_power [simp]: "is_power_of_two (2 ^ k)"
  by (auto simp: is_power_of_two_iff)

lemma is_multiple_of_dvd: "is_multiple_of a b \<longleftrightarrow> b dvd a"
  by (auto simp: is_multiple_of_def mod_eq_0_iff_dvd)

lemma ceil_div_mult_ge: "0 < b \<Longrightarrow> a \<le> ceil_div a b * b"
  by (auto simp: ceil_div_def add_mult_distrib intro: order_trans [OF _ add_left_mono])
     (metis add_le_cancel_left div_mult_mod_eq mod_less_divisor nat_less_le)

lemma ceil_div_least:
  assumes "0 < b" "a \<le> c * b"
  shows "ceil_div a b \<le> c"
proof (cases "a mod b = 0")
  case True
  from assms have "a div b \<le> c * b div b" by (intro div_le_mono)
  with True assms show ?thesis by (simp add: ceil_div_def)
next
  case False
  have "a div b * b + a mod b = a" by simp
  with False assms have "a div b * b < c * b" by linarith
  then have "a div b < c" by simp
  then show ?thesis by (simp add: ceil_div_def)
qed

lemma ceil_div_lt:
  assumes "0 < b"
  shows "ceil_div a b * b < a + b"
proof (cases "a mod b = 0")
  case True
  with assms show ?thesis by (auto simp: ceil_div_def)
next
  case False
  have "a div b * b + a mod b = a" by simp
  with False have "a div b * b < a" by linarith
  with False show ?thesis by (simp add: ceil_div_def)
qed

lemma unat_of_nat_u64: "n < 2 ^ 64 \<Longrightarrow> unat (of_nat n :: u64) = n"
  by (simp add: unsigned_of_nat take_bit_nat_eq_self_iff)

text \<open>The number of significant bits, \<^verbatim>\<open>BITS - v.leading_zeros()\<close>.\<close>

fun bit_length :: "nat \<Rightarrow> nat" where
  "bit_length v = (if v = 0 then 0 else Suc (bit_length (v div 2)))"

declare bit_length.simps [simp del]

lemma bit_length_le: "v < 2 ^ k \<Longrightarrow> bit_length v \<le> k"
proof (induction v arbitrary: k rule: bit_length.induct)
  case (1 v)
  show ?case
  proof (cases "v = 0")
    case False
    with "1.prems" obtain j where "k = Suc j" by (cases k) auto
    with False 1 show ?thesis
      by (auto simp: bit_length.simps [of v] less_mult_imp_div_less mult.commute)
  qed (simp add: bit_length.simps)
qed

lemma bit_length_div: "bit_length (v div 2 ^ k) = bit_length v - k"
proof (induction k arbitrary: v)
  case (Suc k)
  have "v div 2 ^ Suc k = v div 2 div 2 ^ k" by (simp add: div_mult2_eq mult.commute)
  then show ?case
    using Suc.IH [of "v div 2"] by (cases "v = 0") (auto simp: bit_length.simps [of v] bit_length.simps [of 0])
qed simp

lemma bit_length_0 [simp]: "bit_length v = 0 \<longleftrightarrow> v = 0"
  by (simp add: bit_length.simps [of v])

lemma less_bit_length: "v < 2 ^ bit_length v"
proof (induction v rule: bit_length.induct)
  case (1 v)
  then show ?case by (cases "v = 0") (auto simp: bit_length.simps [of v])
qed

text \<open>Decimal rendering of naturals, for \<^verbatim>\<open>format!\<close> messages.\<close>

fun show_nat :: "nat \<Rightarrow> string" where
  "show_nat n = (if n < 10 then [char_of (n + 48)] else show_nat (n div 10) @ [char_of (n mod 10 + 48)])"

declare show_nat.simps [simp del]

section \<open>Congruence\<close>

definition eqm :: "int \<Rightarrow> int \<Rightarrow> int \<Rightarrow> bool" where
  "eqm p x y \<longleftrightarrow> x mod p = y mod p"

lemma eqm_refl [simp, intro]: "eqm p x x"
  by (simp add: eqm_def)

lemma eqm_sym: "eqm p x y \<Longrightarrow> eqm p y x"
  by (simp add: eqm_def)

lemma eqm_trans [trans]: "eqm p x y \<Longrightarrow> eqm p y z \<Longrightarrow> eqm p x z"
  by (simp add: eqm_def)

lemma eqm_add: "eqm p x y \<Longrightarrow> eqm p u v \<Longrightarrow> eqm p (x + u) (y + v)"
  unfolding eqm_def by (rule mod_add_cong)

lemma eqm_diff: "eqm p x y \<Longrightarrow> eqm p u v \<Longrightarrow> eqm p (x - u) (y - v)"
  unfolding eqm_def by (rule mod_diff_cong)

lemma eqm_mult: "eqm p x y \<Longrightarrow> eqm p u v \<Longrightarrow> eqm p (x * u) (y * v)"
  unfolding eqm_def by (rule mod_mult_cong)

lemma eqm_power: "eqm p x y \<Longrightarrow> eqm p (x ^ n) (y ^ n)"
  unfolding eqm_def by (metis power_mod)

lemma eqm_sum: "(\<And>i. i \<in> S \<Longrightarrow> eqm p (f i) (g i)) \<Longrightarrow> eqm p (sum f S) (sum g S)"
  unfolding eqm_def by (metis (no_types, lifting) mod_sum_eq sum.cong)

lemma eqm_mod [simp]: "eqm p (x mod p) y = eqm p x y" "eqm p x (y mod p) = eqm p x y"
  by (simp_all add: eqm_def)

lemma eqm_dvd: "eqm p x y \<longleftrightarrow> p dvd x - y"
  by (simp add: eqm_def mod_eq_dvd_iff)

lemmas eqm_intros = eqm_add eqm_diff eqm_mult eqm_power eqm_sum

end
