(* ===== verification/Checked_Arith.thy ===== *)
theory Checked_Arith
  imports Akita_Prelude
begin

text \<open>
  The crate \<^verbatim>\<open>akita-error\<close>: the checked integer formulas of \<^verbatim>\<open>src/checked.rs\<close> (sums,
  products, powers of two, ranges, alignment and divisions that never wrap, saturate or
  panic) and the narrowing conversions of \<^verbatim>\<open>src/narrowing.rs\<close>.

  Each formula is characterised completely: it returns the exact mathematical value
  precisely when that value is representable and the operation is defined.
\<close>

section \<open>checked.rs\<close>

text \<open>\<^verbatim>\<open>Iterator::try_fold\<close> over an option-valued step.\<close>

fun try_fold :: "('b \<Rightarrow> 'a \<Rightarrow> 'b option) \<Rightarrow> 'b \<Rightarrow> 'a list \<Rightarrow> 'b option" where
  "try_fold f acc [] = Some acc"
| "try_fold f acc (x # xs) = (case f acc x of None \<Rightarrow> None | Some acc' \<Rightarrow> try_fold f acc' xs)"

definition sum_checked :: "nat list \<Rightarrow> nat option" where
  "sum_checked values = try_fold checked_add 0 values"

definition product :: "nat list \<Rightarrow> nat option" where
  "product factors = try_fold checked_mul 1 factors"

definition mul_add :: "nat \<Rightarrow> nat \<Rightarrow> nat \<Rightarrow> nat option" where
  "mul_add lhs rhs addend = Option.bind (checked_mul lhs rhs) (\<lambda>m. checked_add m addend)"

text \<open>\<^verbatim>\<open>1usize.checked_shl(shift)\<close>: \<open>None\<close> when the shift reaches the bit width.\<close>

definition checked_shl_one :: "nat \<Rightarrow> nat option" where
  "checked_shl_one shift = (if shift < 64 then Some (2 ^ shift) else None)"

definition pow2 :: "nat \<Rightarrow> nat option" where
  "pow2 exponent = Option.bind (if exponent \<le> u32_max then Some exponent else None) checked_shl_one"

text \<open>\<^verbatim>\<open>usize::checked_next_power_of_two\<close> and \<^verbatim>\<open>trailing_zeros\<close> of a power of two.\<close>

fun log2_up :: "nat \<Rightarrow> nat" where
  "log2_up n = (if n \<le> 1 then 0 else Suc (log2_up ((n + 1) div 2)))"

declare log2_up.simps [simp del]

definition checked_next_power_of_two :: "nat \<Rightarrow> nat option" where
  "checked_next_power_of_two n = (if 2 ^ log2_up n \<le> usize_max then Some (2 ^ log2_up n) else None)"

fun trailing_zeros :: "nat \<Rightarrow> nat" where
  "trailing_zeros n = (if n = 0 then 64 else if odd n then 0 else Suc (trailing_zeros (n div 2)))"

declare trailing_zeros.simps [simp del]

definition ceil_log2 :: "nat \<Rightarrow> nat option" where
  "ceil_log2 value =
     (if value = 0 then None else map_option trailing_zeros (checked_next_power_of_two value))"

text \<open>A half-open range \<^verbatim>\<open>start..end\<close>.\<close>

type_synonym urange = "nat \<times> nat"

definition range_checked :: "nat \<Rightarrow> nat \<Rightarrow> urange option" where
  "range_checked start len = map_option (\<lambda>e. (start, e)) (checked_add start len)"

definition align_up :: "nat \<Rightarrow> nat \<Rightarrow> nat option" where
  "align_up value alignment =
     (if \<not> is_power_of_two alignment then None
      else let remainder = value mod alignment
           in if remainder = 0 then Some value else checked_add value (alignment - remainder))"

definition div_ceil :: "nat \<Rightarrow> nat \<Rightarrow> nat option" where
  "div_ceil value divisor =
     Option.bind (checked_div value divisor)
       (\<lambda>quotient. checked_add quotient (if is_multiple_of value divisor then 0 else 1))"

definition exact_div :: "nat \<Rightarrow> nat \<Rightarrow> nat option" where
  "exact_div value divisor =
     Option.bind (checked_div value divisor)
       (\<lambda>quotient. if is_multiple_of value divisor then Some quotient else None)"

section \<open>narrowing.rs\<close>

definition narrow :: "nat \<Rightarrow> string \<Rightarrow> nat \<Rightarrow> string \<Rightarrow> nat result" where
  "narrow m ty value name = (if value \<le> m then Ok value else Err (InvalidInput (name @ '' does not fit '' @ ty)))"

definition usize_to_u32 :: "nat \<Rightarrow> string \<Rightarrow> nat result" where
  "usize_to_u32 value name = narrow u32_max ''u32'' value name"

definition usize_to_u64 :: "nat \<Rightarrow> string \<Rightarrow> nat result" where
  "usize_to_u64 value name = narrow u64_max ''u64'' value name"

definition usize_to_u8 :: "nat \<Rightarrow> string \<Rightarrow> nat result" where
  "usize_to_u8 value name = narrow u8_max ''u8'' value name"

section \<open>Characterisations\<close>

text \<open>
  A checked sum is exact or overflows; since every partial sum is below the total, the
  order of the terms does not matter.
\<close>

lemma try_fold_append:
  "try_fold f acc (xs @ ys) = (case try_fold f acc xs of None \<Rightarrow> None | Some acc' \<Rightarrow> try_fold f acc' ys)"
  by (induction xs arbitrary: acc) (auto split: option.splits)

lemma try_fold_add:
  "acc \<le> usize_max \<Longrightarrow> try_fold checked_add acc xs =
     (if acc + sum_list xs \<le> usize_max then Some (acc + sum_list xs) else None)"
  by (induction xs arbitrary: acc) (auto simp: checked_add_if add.assoc)

lemma sum_checked_eq:
  "sum_checked xs = (if sum_list xs \<le> usize_max then Some (sum_list xs) else None)"
  by (simp add: sum_checked_def try_fold_add)

text \<open>
  A checked product may overflow on a prefix although a later zero factor makes the whole
  product representable; without zero factors it is exact or overflows.
\<close>

lemma prod_list_ge1: "0 \<notin> set xs \<Longrightarrow> 1 \<le> prod_list (xs :: nat list)"
  by (induction xs) auto

lemma try_fold_mul:
  "acc \<le> usize_max \<Longrightarrow> 0 < acc \<Longrightarrow> 0 \<notin> set xs \<Longrightarrow> try_fold checked_mul acc xs =
     (if acc * prod_list xs \<le> usize_max then Some (acc * prod_list xs) else None)"
proof (induction xs arbitrary: acc)
  case Nil
  then show ?case by simp
next
  case (Cons x xs)
  show ?case
  proof (cases "acc * x \<le> usize_max")
    case True
    with Cons.IH [OF True] Cons.prems show ?thesis by (simp add: checked_mul_if mult.assoc)
  next
    case False
    have "acc * x * 1 \<le> acc * x * prod_list xs"
      using Cons.prems prod_list_ge1 [of xs] by (intro mult_left_mono) auto
    then have "acc * x \<le> acc * (x * prod_list xs)" by (simp only: mult_1_right mult.assoc)
    with False have "\<not> acc * (x * prod_list xs) \<le> usize_max" by linarith
    with False show ?thesis by (simp add: checked_mul_if)
  qed
qed

lemma usize_max_ge1 [simp]: "Suc 0 \<le> usize_max" "0 < usize_max"
  by (simp_all add: usize_max_def)

lemma product_nonzero:
  "0 \<notin> set xs \<Longrightarrow> product xs = (if prod_list xs \<le> usize_max then Some (prod_list xs) else None)"
  using try_fold_mul [of 1 xs] by (simp add: product_def)

lemma try_fold_mul_sound: "try_fold checked_mul acc xs = Some p \<Longrightarrow> p = acc * prod_list xs"
  by (induction xs arbitrary: acc) (fastforce simp: mult.assoc split: option.splits)+

lemma product_sound: "product xs = Some p \<Longrightarrow> p = prod_list xs"
  using try_fold_mul_sound [of 1 xs p] by (simp add: product_def)

lemma mul_add_eq:
  "mul_add a b c = (if a * b + c \<le> usize_max then Some (a * b + c) else None)"
  by (auto simp: mul_add_def checked_mul_if checked_add_if)

lemma pow2_eq: "pow2 e = (if 2 ^ e \<le> usize_max then Some (2 ^ e) else None)"
proof (cases "e < 64")
  case True
  then have "(2::nat) ^ e \<le> 2 ^ 63" by (intro power_increasing) auto
  then have "(2::nat) ^ e \<le> usize_max" by (simp add: usize_max_def)
  with True show ?thesis by (simp add: pow2_def checked_shl_one_def u32_max_def)
next
  case False
  then have "(2::nat) ^ 64 \<le> 2 ^ e" by (intro power_increasing) auto
  then have "\<not> (2::nat) ^ e \<le> usize_max" by (simp add: usize_max_def)
  with False show ?thesis by (simp add: pow2_def checked_shl_one_def)
qed

text \<open>The least exponent whose power of two reaches \<open>n\<close>.\<close>

lemma log2_up_ge: "n \<le> 2 ^ log2_up n"
proof (induction n rule: log2_up.induct)
  case (1 n)
  show ?case
  proof (cases "n \<le> 1")
    case True
    then show ?thesis by (simp add: log2_up.simps [of n])
  next
    case False
    with "1.IH" have "(n + 1) div 2 \<le> 2 ^ log2_up ((n + 1) div 2)" by simp
    with False show ?thesis by (simp add: log2_up.simps [of n])
  qed
qed

lemma log2_up_least: "n \<le> 2 ^ k \<Longrightarrow> log2_up n \<le> k"
proof (induction n arbitrary: k rule: log2_up.induct)
  case (1 n)
  show ?case
  proof (cases "n \<le> 1")
    case True
    then show ?thesis by (simp add: log2_up.simps [of n])
  next
    case False
    with "1.prems" have "k \<noteq> 0" by (cases k) auto
    then obtain j where k: "k = Suc j" by (cases k) auto
    with "1.prems" have "(n + 1) div 2 \<le> 2 ^ j" by simp
    with "1.IH" False have "log2_up ((n + 1) div 2) \<le> j" by simp
    with False k show ?thesis by (simp add: log2_up.simps [of n])
  qed
qed

lemma trailing_zeros_power: "trailing_zeros (2 ^ k) = k"
  by (induction k) (simp_all add: trailing_zeros.simps [of "Suc 0"] trailing_zeros.simps [of "2 * _"])

lemma ceil_log2_eq_Some:
  "ceil_log2 v = Some k \<longleftrightarrow> v \<noteq> 0 \<and> k = log2_up v \<and> 2 ^ k \<le> usize_max"
  by (auto simp: ceil_log2_def checked_next_power_of_two_def trailing_zeros_power)

lemma align_up_eq_Some:
  assumes "align_up v a = Some r"
  shows "a dvd r" "v \<le> r" "r < v + a" "v \<le> usize_max \<Longrightarrow> r \<le> usize_max"
proof -
  from assms have pow: "is_power_of_two a" by (auto simp: align_up_def split: if_splits)
  then have pos: "0 < a" by (rule is_power_of_two_pos)
  have r: "r = (if v mod a = 0 then v else v + (a - v mod a))"
    and max: "v mod a \<noteq> 0 \<longrightarrow> r \<le> usize_max"
    using assms pow by (auto simp: align_up_def Let_def split: if_splits)
  have small: "v mod a < a" using pos by simp
  show "v \<le> r" using r by (cases "v mod a = 0") auto
  show "r < v + a" using r small pos by (cases "v mod a = 0") auto
  show "v \<le> usize_max \<Longrightarrow> r \<le> usize_max" using r max by (auto split: if_splits)
  show "a dvd r"
  proof (cases "v mod a = 0")
    case True
    with r show ?thesis by auto
  next
    case False
    have "v = a * (v div a) + v mod a" by simp
    with small have "v + (a - v mod a) = a * (v div a) + a" by linarith
    then have "a dvd v + (a - v mod a)" by simp
    with False r show ?thesis by simp
  qed
qed

lemma align_up_defined:
  "is_power_of_two a \<Longrightarrow> v + a \<le> usize_max \<Longrightarrow> \<exists>r. align_up v a = Some r"
  by (auto simp: align_up_def Let_def checked_add_if dest: is_power_of_two_pos)

lemma div_ceil_eq: "v \<le> usize_max \<Longrightarrow> div_ceil v d = (if d = 0 then None else Some (ceil_div v d))"
proof -
  assume v: "v \<le> usize_max"
  have "ceil_div v d \<le> v" if "d \<noteq> 0"
    using that ceil_div_least [of d v v] by simp
  with v have le: "ceil_div v d \<le> usize_max" if "d \<noteq> 0" using that by fastforce
  then show ?thesis
    by (cases "d = 0") (simp_all add: div_ceil_def checked_div_def checked_add_if ceil_div_def is_multiple_of_def)
qed

lemma exact_div_eq_Some: "exact_div v d = Some q \<longleftrightarrow> d \<noteq> 0 \<and> v = q * d"
  by (auto simp: exact_div_def checked_div_def is_multiple_of_def)

end
