(* ===== verification/Codec_Interfaces.thy ===== *)
theory Codec_Interfaces
  imports Akita_Prelude
begin

text \<open>
  Interfaces shared by the wire formats of the repository.

  \<open>prefix_code\<close> is the contract of a self-delimiting code over any alphabet (bits for the
  Golomb-Rice tail segments, bytes for the LEB128 nonces and the fixed-width field atoms):
  a decoder undoes the encoder whatever follows on the wire, and accepts nothing but
  encodings.  From it follow, once and for all, the round trip and the canonicality of
  sequences of codes.

  \<open>bit_sink\<close> is the contract of an append-only bit stream.
\<close>

section \<open>Self-delimiting canonical codes\<close>

fun encode_seq :: "('a \<Rightarrow> 'b list option) \<Rightarrow> 'a list \<Rightarrow> 'b list option" where
  "encode_seq enc [] = Some []"
| "encode_seq enc (x # xs) =
     (case enc x of None \<Rightarrow> None
      | Some bs \<Rightarrow> map_option (\<lambda>cs. bs @ cs) (encode_seq enc xs))"

fun decode_seq :: "('b list \<Rightarrow> ('a \<times> 'b list) option) \<Rightarrow> nat \<Rightarrow> 'b list \<Rightarrow> ('a list \<times> 'b list) option" where
  "decode_seq dec 0 bs = Some ([], bs)"
| "decode_seq dec (Suc n) bs =
     (case dec bs of None \<Rightarrow> None
      | Some (x, rest) \<Rightarrow> map_option (\<lambda>(xs, rest'). (x # xs, rest')) (decode_seq dec n rest))"

locale prefix_code =
  fixes enc :: "'a \<Rightarrow> 'b list option"
    and dec :: "'b list \<Rightarrow> ('a \<times> 'b list) option"
  assumes dec_enc: "enc x = Some bs \<Longrightarrow> dec (bs @ rest) = Some (x, rest)"
    and enc_dec: "dec cs = Some (x, rest) \<Longrightarrow> \<exists>bs. enc x = Some bs \<and> cs = bs @ rest"
begin

lemma decode_encode_seq:
  "encode_seq enc xs = Some bs \<Longrightarrow> decode_seq dec (length xs) (bs @ rest) = Some (xs, rest)"
proof (induction xs arbitrary: bs)
  case Nil
  then show ?case by simp
next
  case (Cons x xs)
  from Cons.prems obtain c cs where c: "enc x = Some c" and cs: "encode_seq enc xs = Some cs"
    and bs: "bs = c @ cs"
    by (auto split: option.splits)
  from Cons.IH [OF cs] show ?case by (simp add: bs dec_enc [OF c])
qed

lemma encode_decode_seq:
  "decode_seq dec n cs = Some (xs, rest) \<Longrightarrow>
     length xs = n \<and> (\<exists>bs. encode_seq enc xs = Some bs \<and> cs = bs @ rest)"
proof (induction n arbitrary: cs xs)
  case 0
  then show ?case by simp
next
  case (Suc n)
  from Suc.prems obtain x r1 xs' where x: "dec cs = Some (x, r1)"
    and xs': "decode_seq dec n r1 = Some (xs', rest)" and xs: "xs = x # xs'"
    by (auto split: option.splits prod.splits)
  from enc_dec [OF x] obtain c where c: "enc x = Some c" "cs = c @ r1" by blast
  from Suc.IH [OF xs'] obtain bs where "length xs' = n" "encode_seq enc xs' = Some bs" "r1 = bs @ rest"
    by blast
  with c xs show ?case by auto
qed

text \<open>Equal encodings of sequences of equal length come from equal sequences.\<close>

lemma encode_seq_inj:
  assumes "encode_seq enc xs = Some bs" "encode_seq enc ys = Some bs" "length xs = length ys"
  shows "xs = ys"
proof -
  from decode_encode_seq [OF assms(1), of "[]"] decode_encode_seq [OF assms(2), of "[]"] assms(3)
  show ?thesis by simp
qed

end

section \<open>Append-only bit streams\<close>

locale bit_sink =
  fixes wr :: "'s \<Rightarrow> bool \<Rightarrow> 's"
    and content :: "'s \<Rightarrow> bool list"
    and invar :: "'s \<Rightarrow> bool"
  assumes invar_write: "invar s \<Longrightarrow> invar (wr s b)"
    and content_write: "invar s \<Longrightarrow> content (wr s b) = content s @ [b]"
begin

lemma write_fold:
  "invar s \<Longrightarrow> invar (fold (\<lambda>i s. wr s (f i)) is s) \<and>
     content (fold (\<lambda>i s. wr s (f i)) is s) = content s @ map f is"
  by (induction "is" arbitrary: s) (auto simp: invar_write content_write)

lemma write_repeat:
  "invar s \<Longrightarrow> invar (((\<lambda>s. wr s b) ^^ n) s) \<and>
     content (((\<lambda>s. wr s b) ^^ n) s) = content s @ replicate n b"
  by (induction n) (auto simp: invar_write content_write replicate_append_same)

end

section \<open>Bytes as bits\<close>

text \<open>A byte string as the stream of its bits, least significant bit of each byte first.\<close>

definition byte_bits :: "u8 \<Rightarrow> bool list" where
  "byte_bits b = map (bit b) [0..<8]"

definition bits_of :: "u8 list \<Rightarrow> bool list" where
  "bits_of bs = concat (map byte_bits bs)"

lemma length_byte_bits [simp]: "length (byte_bits b) = 8"
  by (simp add: byte_bits_def)

lemma bits_of_simps [simp]:
  "bits_of [] = []"
  "bits_of (b # bs) = byte_bits b @ bits_of bs"
  "bits_of (bs @ cs) = bits_of bs @ bits_of cs"
  by (simp_all add: bits_of_def)

lemma length_bits_of [simp]: "length (bits_of bs) = 8 * length bs"
  by (induction bs) auto

lemma nth_bits_of [bits_simps]:
  "i < 8 * length bs \<Longrightarrow> bits_of bs ! i = bit (bs ! (i div 8)) (i mod 8)"
proof (induction bs arbitrary: i)
  case Nil
  then show ?case by simp
next
  case (Cons b bs)
  show ?case
  proof (cases "i < 8")
    case True
    then show ?thesis by (simp add: nth_append byte_bits_def)
  next
    case False
    then obtain j where j: "i = j + 8" by (metis add.commute le_Suc_ex linorder_not_less)
    with Cons.prems have "bits_of bs ! j = bit (bs ! (j div 8)) (j mod 8)"
      by (intro Cons.IH) simp
    moreover have "(j + 8) div 8 = Suc (j div 8)" by (simp add: div_add_self2)
    ultimately show ?thesis using j by (simp add: nth_append)
  qed
qed

lemma bits_of_inj: "bits_of bs = bits_of cs \<Longrightarrow> bs = cs"
proof (rule nth_equalityI)
  assume eq: "bits_of bs = bits_of cs"
  from arg_cong [OF eq, of length] show len: "length bs = length cs" by simp
  fix i assume i: "i < length bs"
  show "bs ! i = cs ! i"
  proof (rule bit_word_eqI)
    fix n assume "n < LENGTH(8)"
    then have n: "n < 8" by simp
    from eq have "bits_of bs ! (8 * i + n) = bits_of cs ! (8 * i + n)" by simp
    with i n len show "bit (bs ! i) n = bit (cs ! i) n" by (simp add: nth_bits_of)
  qed
qed

text \<open>A run of bits as an unsigned number, least significant bit first.\<close>

definition nat_of_bits :: "bool list \<Rightarrow> nat" where
  "nat_of_bits bs = horner_sum of_bool 2 bs"

lemma nat_of_bits_simps [simp]:
  "nat_of_bits [] = 0"
  "nat_of_bits (b # bs) = of_bool b + 2 * nat_of_bits bs"
  by (simp_all add: nat_of_bits_def)

lemma nat_of_bits_less: "nat_of_bits bs < 2 ^ length bs"
  by (induction bs) auto

lemma bit_nat_of_bits: "bit (nat_of_bits bs) i \<longleftrightarrow> i < length bs \<and> bs ! i"
  by (simp add: nat_of_bits_def bit_horner_sum_bit_iff)

lemma nat_of_bits_inj: "nat_of_bits bs = nat_of_bits cs \<Longrightarrow> length bs = length cs \<Longrightarrow> bs = cs"
  by (intro nth_equalityI) (simp, metis bit_nat_of_bits)

lemma nat_of_bits_map_bit: "n < 2 ^ k \<Longrightarrow> nat_of_bits (map (bit n) [0..<k]) = n"
proof (rule bit_eqI)
  fix i assume "n < 2 ^ k"
  then have "\<not> bit n i" if "k \<le> i"
    using that by (auto simp: bit_iff_odd div_less order_less_le_trans [OF _ power_increasing])
  then show "bit (nat_of_bits (map (bit n) [0..<k])) i = bit n i"
    by (cases "i < k") (auto simp: bit_nat_of_bits)
qed

lemma map_bit_nat_of_bits: "map (bit (nat_of_bits bs)) [0..<length bs] = bs"
  by (rule nth_equalityI) (auto simp: bit_nat_of_bits)

end
