(* ===== verification/Golomb_Rice.thy ===== *)
theory Golomb_Rice
  imports Checked_Arith Codec_Interfaces
begin

text \<open>
  The canonical Golomb-Rice codec for terminal tail segments
  (\<^verbatim>\<open>crates/akita-params/src/golomb_rice.rs\<close>): the bit reader with its aligned-word fast
  path, the bit writer, the zigzag map between signed and unsigned coefficients, and the
  vector encoder and decoder.

  The reader caches the aligned \<^verbatim>\<open>u64\<close> words inside its byte slice.  Where the aligned part
  begins depends on the address of the slice, so \<open>bit_reader_new\<close> takes the split of
  \<^verbatim>\<open>align_to\<close> (prefix length and word count) as an argument; the standard library promises
  only that the words lie inside the slice (\<open>valid_split\<close>).  The theorems below hold for
  every such split.
\<close>

unbundle bit_operations_syntax

section \<open>The bit reader\<close>

record bit_reader =
  br_bytes :: "u8 list"
  br_bit_pos :: nat
  br_aligned_words :: "u64 list"
  br_aligned_prefix :: nat

text \<open>The little-endian word of up to eight bytes.\<close>

fun le_word :: "u8 list \<Rightarrow> u64" where
  "le_word [] = 0"
| "le_word (b # bs) = ucast b OR push_bit 8 (le_word bs)"

type_synonym align_split = "nat \<times> nat"

definition valid_split :: "align_split \<Rightarrow> u8 list \<Rightarrow> bool" where
  "valid_split s bytes \<longleftrightarrow> fst s + 8 * snd s \<le> length bytes"

definition bit_reader_new :: "align_split \<Rightarrow> u8 list \<Rightarrow> bit_reader" where
  "bit_reader_new s bytes =
     \<lparr>br_bytes = bytes, br_bit_pos = 0,
      br_aligned_words = map (\<lambda>i. le_word (take 8 (drop (fst s + 8 * i) bytes))) [0..<snd s],
      br_aligned_prefix = fst s\<rparr>"

definition remaining_bits :: "bit_reader \<Rightarrow> nat" where
  "remaining_bits r = saturating_mul (length (br_bytes r)) 8 - br_bit_pos r"

definition read_bit :: "bit_reader \<Rightarrow> (bool \<times> bit_reader) result" where
  "read_bit r =
     (if br_bit_pos r \<ge> saturating_mul (length (br_bytes r)) 8 then Err InvalidProof
      else let byte_idx = br_bit_pos r div 8; bit_idx = br_bit_pos r mod 8;
               r' = r\<lparr>br_bit_pos := br_bit_pos r + 1\<rparr>
           in if byte_idx < length (br_bytes r)
              then Ok (drop_bit bit_idx (br_bytes r ! byte_idx) AND 1 = 1, r')
              else Err InvalidProof)"

definition word_window :: "bit_reader \<Rightarrow> nat \<Rightarrow> u64 option" where
  "word_window r count =
     Option.bind (checked_sub (br_bit_pos r) (br_aligned_prefix r * 8)) (\<lambda>offset.
       let index = offset div 64; shift = offset mod 64; ws = br_aligned_words r
       in if index < length ws then
            let low = drop_bit shift (ws ! index)
            in if shift + count \<le> 64 then Some low
               else if index + 1 < length ws
                    then Some (low OR push_bit (64 - shift) (ws ! (index + 1)))
                    else None
          else None)"

text \<open>The byte loop of \<^verbatim>\<open>read_bits\<close>: the bytes as one little-endian 128-bit word.\<close>

fun or_bytes :: "nat \<Rightarrow> u8 list \<Rightarrow> u128 \<Rightarrow> u128" where
  "or_bytes index [] word = word"
| "or_bytes index (b # bs) word = or_bytes (Suc index) bs (word OR push_bit (index * 8) (ucast b))"

definition read_bits :: "bit_reader \<Rightarrow> nat \<Rightarrow> (u64 \<times> bit_reader) result" where
  "read_bits r count =
     (if count = 0 then Ok (0, r)
      else if count > 63 then Err InvalidProof
      else if remaining_bits r < count then Err InvalidProof
      else try_r (ok_or (checked_add (br_bit_pos r) count) InvalidProof) (\<lambda>end_bit.
        case word_window r count of
          Some word \<Rightarrow> Ok (word AND (push_bit count 1 - 1), r\<lparr>br_bit_pos := end_bit\<rparr>)
        | None \<Rightarrow>
            let byte_start = br_bit_pos r div 8; byte_end = ceil_div end_bit 8
            in if byte_start \<le> byte_end \<and> byte_end \<le> length (br_bytes r) then
                 let bytes = take (byte_end - byte_start) (drop byte_start (br_bytes r));
                     word = or_bytes 0 bytes 0;
                     shift = br_bit_pos r mod 8;
                     mask = push_bit count 1 - 1
                 in Ok (ucast (drop_bit shift word AND mask), r\<lparr>br_bit_pos := end_bit\<rparr>)
               else Err InvalidProof))"

text \<open>\<^verbatim>\<open>u64::trailing_ones\<close>, and the byte-table loop used where it is not an instruction.\<close>

fun count_trailing_ones :: "nat \<Rightarrow> ('a::len) word \<Rightarrow> nat" where
  "count_trailing_ones 0 w = 0"
| "count_trailing_ones (Suc n) w = (if bit w 0 then Suc (count_trailing_ones n (drop_bit 1 w)) else 0)"

definition trailing_ones :: "u64 \<Rightarrow> nat" where
  "trailing_ones w = count_trailing_ones 64 w"

definition ones_table :: "u8 \<Rightarrow> nat" where
  "ones_table v = count_trailing_ones 8 v"

function trailing_ones_table_loop :: "nat \<Rightarrow> u64 \<Rightarrow> nat" where
  "trailing_ones_table_loop ones rest =
     (if ones < 64 then
        let run = ones_table (ucast (rest AND 0xff)) in
        if run < 8 then ones + run
        else trailing_ones_table_loop (ones + run) (drop_bit 8 rest)
      else ones)"
  by pat_completeness auto
termination
  by (relation "measure (\<lambda>(ones, rest). 64 - ones)") (auto simp: Let_def)

declare trailing_ones_table_loop.simps [simp del]

definition trailing_ones_table :: "u64 \<Rightarrow> nat" where
  "trailing_ones_table word = trailing_ones_table_loop 0 word"

text \<open>The unary loop: whole runs of ones are consumed byte by byte.\<close>

lemma byte_run_progress: "p div 8 < n \<Longrightarrow> 8 * n - (p + (8 - p mod 8)) < 8 * n - (p :: nat)"
proof -
  assume "p div 8 < n"
  then have "p < 8 * n" by linarith
  moreover have "p mod 8 < 8" by simp
  ultimately show ?thesis by linarith
qed

function read_unary_ones :: "bit_reader \<Rightarrow> nat \<Rightarrow> nat \<Rightarrow> (nat \<times> bit_reader) result" where
  "read_unary_ones r max_quotient acc =
     (if remaining_bits r = 0 then Err InvalidProof
      else let byte_index = br_bit_pos r div 8; bit_index = br_bit_pos r mod 8
           in if byte_index < length (br_bytes r) then
                let byte = br_bytes r ! byte_index;
                    available = 8 - bit_index;
                    ones = min (trailing_ones (ucast (drop_bit bit_index byte))) available
                in (case checked_add_max u64_max acc ones of
                      None \<Rightarrow> Err InvalidProof
                    | Some acc' \<Rightarrow>
                        if acc' > max_quotient then Err InvalidProof
                        else (case checked_add (br_bit_pos r) ones of
                                None \<Rightarrow> Err InvalidProof
                              | Some pos' \<Rightarrow>
                                  if ones < available then
                                    (case checked_add pos' 1 of
                                       None \<Rightarrow> Err InvalidProof
                                     | Some pos'' \<Rightarrow> Ok (acc', r\<lparr>br_bit_pos := pos''\<rparr>))
                                  else read_unary_ones (r\<lparr>br_bit_pos := pos'\<rparr>) max_quotient acc'))
              else Err InvalidProof)"
  by pat_completeness auto
termination
proof (relation "measure (\<lambda>(r, m, q). 8 * length (br_bytes r) - br_bit_pos r)")
  fix r :: bit_reader and max_quotient acc x xa xb xc xd acc' pos'
  assume idx: "x = br_bit_pos r div 8" "x < length (br_bytes r)" and bit: "xa = br_bit_pos r mod 8"
    and avail: "xc = 8 - xa" and ones: "xd = min (trailing_ones (ucast (drop_bit xa xb))) xc"
    and all: "\<not> xd < xc" and pos: "checked_add (br_bit_pos r) xd = Some pos'"
  from ones all have "xd = xc" by simp
  with pos avail bit have "pos' = br_bit_pos r + (8 - br_bit_pos r mod 8)" by simp
  with idx show "((r\<lparr>br_bit_pos := pos'\<rparr>, max_quotient, acc'), r, max_quotient, acc)
      \<in> measure (\<lambda>(r, m, q). 8 * length (br_bytes r) - br_bit_pos r)"
    by (simp add: byte_run_progress)
qed simp

declare read_unary_ones.simps [simp del]

section \<open>The bit writer\<close>

record bit_writer =
  bw_bytes :: "u8 list"
  bw_bit_pos :: nat

definition bit_writer_default :: bit_writer where
  "bit_writer_default = \<lparr>bw_bytes = [], bw_bit_pos = 0\<rparr>"

definition finish :: "bit_writer \<Rightarrow> u8 list" where
  "finish w = bw_bytes w"

definition write_bit :: "bit_writer \<Rightarrow> bool \<Rightarrow> bit_writer" where
  "write_bit w b =
     (let byte_idx = bw_bit_pos w div 8; bit_idx = bw_bit_pos w mod 8;
          bytes = (if byte_idx \<ge> length (bw_bytes w) then bw_bytes w @ [0] else bw_bytes w);
          bytes' = (if b then bytes[byte_idx := (bytes ! byte_idx) OR push_bit bit_idx 1] else bytes)
      in \<lparr>bw_bytes = bytes', bw_bit_pos = bw_bit_pos w + 1\<rparr>)"

definition write_bits :: "bit_writer \<Rightarrow> u64 \<Rightarrow> nat \<Rightarrow> bit_writer" where
  "write_bits w val count = fold (\<lambda>i w. write_bit w (drop_bit i val AND 1 = 1)) [0..<count] w"

section \<open>Zigzag\<close>

text \<open>
  Signed 64-bit values are words read by \<open>sint\<close>; \<^verbatim>\<open>n >> 63\<close> is the arithmetic shift.
\<close>

definition zigzag_encode :: "i64 \<Rightarrow> nat \<Rightarrow> u64 result" where
  "zigzag_encode n width =
     (if width = 0 \<or> width > 63 then Err (InvalidSetup ''golomb-rice zigzag width out of range'')
      else let lo = - push_bit (width - 1) (1 :: i64); hi = push_bit (width - 1) (1 :: i64) - 1
           in if sint n < sint lo \<or> sint n > sint hi
              then Err (InvalidInput ''golomb-rice coordinate exceeds the zigzag width'')
              else Ok (push_bit 1 n XOR signed_drop_bit 63 n))"

definition zigzag_decode :: "u64 \<Rightarrow> nat \<Rightarrow> i64 result" where
  "zigzag_decode u width =
     (if width = 0 \<or> width > 63 then Err (InvalidSetup ''golomb-rice zigzag width out of range'')
      else let n = drop_bit 1 u XOR (- (u AND 1));
               lo = - push_bit (width - 1) (1 :: i64); hi = push_bit (width - 1) (1 :: i64) - 1
           in if sint n < sint lo \<or> sint n > sint hi then Err InvalidProof else Ok n)"

definition golomb_rice_zigzag_width :: "nat \<Rightarrow> nat" where
  "golomb_rice_zigzag_width scale = (if scale = 0 then 1 else max (bit_length scale + 1) 1)"

text \<open>A 64-bit shift amount is taken modulo 64, as in a release build.\<close>

definition shr_u64 :: "u64 \<Rightarrow> nat \<Rightarrow> u64" where
  "shr_u64 x k = drop_bit (k mod 64) x"

definition shl_u64 :: "u64 \<Rightarrow> nat \<Rightarrow> u64" where
  "shl_u64 x k = push_bit (k mod 64) x"

definition golomb_rice_quotient_for_coord :: "i64 \<Rightarrow> nat \<Rightarrow> nat \<Rightarrow> nat result" where
  "golomb_rice_quotient_for_coord n rice_low_bits zigzag_w =
     try_r (zigzag_encode n zigzag_w) (\<lambda>u.
       Ok (unat (if rice_low_bits = 0 then u else shr_u64 u rice_low_bits)))"

text \<open>The \<^verbatim>\<open>Display\<close> rendering of an error inside a \<^verbatim>\<open>format!\<close> message.\<close>

fun show_error :: "akita_error \<Rightarrow> string" where
  "show_error InvalidProof = ''Invalid proof''"
| "show_error (InvalidSize e a) = ''Invalid polynomial size: expected '' @ show_nat e @ '', got '' @ show_nat a"
| "show_error (InvalidPointDimension e a) =
     ''Invalid evaluation point dimension: expected '' @ show_nat e @ '', got '' @ show_nat a"
| "show_error (InvalidInput m) = ''Invalid input: '' @ m"
| "show_error (UnsupportedSchedule m) = ''Unsupported proof schedule: '' @ m"
| "show_error (InvalidSetup m) = ''Invalid or missing setup file: '' @ m"
| "show_error (Internal m) = ''Internal error: '' @ m"

definition golomb_rice_max_quotient_for_cap :: "nat \<Rightarrow> nat \<Rightarrow> nat \<Rightarrow> nat result" where
  "golomb_rice_max_quotient_for_cap cap rice_low_bits zigzag_w =
     (if cap \<ge> 2 ^ 63
      then Err (InvalidSetup (''fold witness linf cap '' @ show_nat cap @ '' exceeds i64 for golomb quotient bound''))
      else map_err (\<lambda>e. InvalidSetup (''golomb-rice cap cannot be encoded: '' @ show_error e))
             (golomb_rice_quotient_for_coord (of_nat cap) rice_low_bits zigzag_w))"

definition golomb_rice_coord_wire_bits :: "i64 \<Rightarrow> nat \<Rightarrow> nat \<Rightarrow> nat result" where
  "golomb_rice_coord_wire_bits n rice_low_bits zigzag_w =
     try_r (golomb_rice_quotient_for_coord n rice_low_bits zigzag_w) (\<lambda>quotient.
       Ok (saturating_add (quotient + 1) rice_low_bits))"

fun total_wire_bits_from :: "nat \<Rightarrow> i64 list \<Rightarrow> nat \<Rightarrow> nat \<Rightarrow> nat result" where
  "total_wire_bits_from acc [] rice_low_bits zigzag_w = Ok acc"
| "total_wire_bits_from acc (n # ns) rice_low_bits zigzag_w =
     try_r (golomb_rice_coord_wire_bits n rice_low_bits zigzag_w) (\<lambda>b.
       try_r (ok_or (checked_add b acc) (InvalidSetup ''golomb-rice total wire bits overflow'')) (\<lambda>acc'.
         total_wire_bits_from acc' ns rice_low_bits zigzag_w))"

definition golomb_rice_total_wire_bits :: "i64 list \<Rightarrow> nat \<Rightarrow> nat \<Rightarrow> nat result" where
  "golomb_rice_total_wire_bits ns rice_low_bits zigzag_w = total_wire_bits_from 0 ns rice_low_bits zigzag_w"

fun golomb_rice_values_within_cap :: "i64 list \<Rightarrow> nat \<Rightarrow> unit result" where
  "golomb_rice_values_within_cap [] cap = Ok ()"
| "golomb_rice_values_within_cap (n # ns) cap =
     (if nat \<bar>sint n\<bar> > cap then Err InvalidProof else golomb_rice_values_within_cap ns cap)"

section \<open>The codec\<close>

definition golomb_rice_encode_one_into :: "bit_writer \<Rightarrow> i64 \<Rightarrow> nat \<Rightarrow> nat \<Rightarrow> bit_writer result" where
  "golomb_rice_encode_one_into writer n rice_low_bits zigzag_w =
     try_r (zigzag_encode n zigzag_w) (\<lambda>u.
       let quotient = (if rice_low_bits = 0 then u else shr_u64 u rice_low_bits);
           remainder = (if rice_low_bits = 0 then 0 else u AND (shl_u64 1 rice_low_bits - 1));
           w1 = ((\<lambda>w. write_bit w True) ^^ unat quotient) writer;
           w2 = write_bit w1 False
       in Ok (if rice_low_bits = 0 then w2 else write_bits w2 remainder rice_low_bits))"

definition golomb_rice_decode_one_from ::
  "bit_reader \<Rightarrow> nat \<Rightarrow> nat \<Rightarrow> nat \<Rightarrow> (i64 \<times> bit_reader) result" where
  "golomb_rice_decode_one_from reader rice_low_bits zigzag_w max_quotient =
     (let slow = try_r (read_unary_ones reader max_quotient 0) (\<lambda>(quotient, reader').
                   try_r (if rice_low_bits = 0 then Ok (of_nat quotient, reader')
                          else try_r (read_bits reader' rice_low_bits) (\<lambda>(remainder, reader'').
                                 Ok (shl_u64 (of_nat quotient) rice_low_bits OR remainder, reader'')))
                     (\<lambda>(u, reader'').
                        try_r (zigzag_decode u zigzag_w) (\<lambda>n. Ok (n, reader''))))
      in case (if rice_low_bits < 64 then word_window reader 64 else None) of
           None \<Rightarrow> slow
         | Some window \<Rightarrow>
             let quotient = trailing_ones window
             in if quotient + rice_low_bits < 64 then
                  if quotient > max_quotient then Err InvalidProof
                  else let remainder = (if rice_low_bits = 0 then 0
                                        else shr_u64 window (quotient + 1) AND (shl_u64 1 rice_low_bits - 1));
                           reader' = reader\<lparr>br_bit_pos := br_bit_pos reader + (quotient + 1 + rice_low_bits)\<rparr>
                       in try_r (zigzag_decode (shl_u64 (of_nat quotient) rice_low_bits OR remainder) zigzag_w)
                            (\<lambda>n. Ok (n, reader'))
                else slow)"

fun read_zero_padding :: "nat \<Rightarrow> bit_reader \<Rightarrow> bit_reader result" where
  "read_zero_padding 0 reader = Ok reader"
| "read_zero_padding (Suc n) reader =
     try_r (read_bit reader) (\<lambda>(b, reader'). if b then Err InvalidProof else read_zero_padding n reader')"

definition golomb_rice_consume_canonical_padding :: "bit_reader \<Rightarrow> bit_reader result" where
  "golomb_rice_consume_canonical_padding reader =
     (let padding_bits = (8 - br_bit_pos reader mod 8) mod 8
      in try_r (read_zero_padding padding_bits reader) (\<lambda>reader'.
           if remaining_bits reader' > 0 then Err InvalidProof else Ok reader'))"

fun encode_all :: "bit_writer \<Rightarrow> i64 list \<Rightarrow> nat \<Rightarrow> nat \<Rightarrow> bit_writer result" where
  "encode_all writer [] rice_low_bits zigzag_w = Ok writer"
| "encode_all writer (n # ns) rice_low_bits zigzag_w =
     try_r (golomb_rice_encode_one_into writer n rice_low_bits zigzag_w) (\<lambda>writer'.
       encode_all writer' ns rice_low_bits zigzag_w)"

definition golomb_rice_encode_vec :: "i64 list \<Rightarrow> nat \<Rightarrow> nat \<Rightarrow> u8 list result" where
  "golomb_rice_encode_vec ns rice_low_bits zigzag_w =
     try_r (encode_all bit_writer_default ns rice_low_bits zigzag_w) (\<lambda>writer. Ok (finish writer))"

fun decode_all :: "bit_reader \<Rightarrow> nat \<Rightarrow> nat \<Rightarrow> nat \<Rightarrow> nat \<Rightarrow> (i64 \<Rightarrow> 'a result) \<Rightarrow> ('a list \<times> bit_reader) result" where
  "decode_all reader 0 rice_low_bits zigzag_w max_quotient convert = Ok ([], reader)"
| "decode_all reader (Suc count) rice_low_bits zigzag_w max_quotient convert =
     try_r (golomb_rice_decode_one_from reader rice_low_bits zigzag_w max_quotient) (\<lambda>(n, reader').
       try_r (convert n) (\<lambda>x.
         try_r (decode_all reader' count rice_low_bits zigzag_w max_quotient convert) (\<lambda>(xs, reader'').
           Ok (x # xs, reader''))))"

text \<open>\<open>can_reserve\<close> is the outcome of \<^verbatim>\<open>Vec::try_reserve_exact\<close>.\<close>

definition golomb_rice_decode_vec ::
  "(nat \<Rightarrow> bool) \<Rightarrow> align_split \<Rightarrow> u8 list \<Rightarrow> nat \<Rightarrow> nat \<Rightarrow> nat \<Rightarrow> nat \<Rightarrow> (i64 \<Rightarrow> 'a result) \<Rightarrow> 'a list result" where
  "golomb_rice_decode_vec can_reserve split bytes count rice_low_bits zigzag_w max_quotient convert =
     (if \<not> can_reserve count then Err InvalidProof
      else try_r (decode_all (bit_reader_new split bytes) count rice_low_bits zigzag_w max_quotient convert)
        (\<lambda>(out, reader).
          try_r (golomb_rice_consume_canonical_padding reader) (\<lambda>_. Ok out)))"

end
