(* ===== verification/Golomb_Rice_Correct.thy ===== *)
theory Golomb_Rice_Correct
  imports Golomb_Rice
begin

text \<open>
  Correctness of the Golomb-Rice codec.  Every reader operation is related to the bits that
  remain in the stream (\<open>rest_bits\<close>), every writer operation to the bits written so far; on
  bit lists the code of one coordinate is a prefix code, and the interface \<open>prefix_code\<close>
  gives the laws of whole vectors.
\<close>

unbundle bit_operations_syntax

section \<open>The reader as a cursor over the bits of its bytes\<close>

definition reader_wf :: "bit_reader \<Rightarrow> bool" where
  "reader_wf r \<longleftrightarrow>
     br_aligned_prefix r + 8 * length (br_aligned_words r) \<le> length (br_bytes r) \<and>
     (\<forall>i < length (br_aligned_words r).
        br_aligned_words r ! i = le_word (take 8 (drop (br_aligned_prefix r + 8 * i) (br_bytes r)))) \<and>
     8 * length (br_bytes r) \<le> usize_max \<and>
     br_bit_pos r \<le> 8 * length (br_bytes r)"

definition rest_bits :: "bit_reader \<Rightarrow> bool list" where
  "rest_bits r = drop (br_bit_pos r) (bits_of (br_bytes r))"

definition seek :: "bit_reader \<Rightarrow> bool list \<Rightarrow> bit_reader" where
  "seek r rest = r\<lparr>br_bit_pos := 8 * length (br_bytes r) - length rest\<rparr>"

lemma length_rest_bits [simp]: "length (rest_bits r) = 8 * length (br_bytes r) - br_bit_pos r"
  by (simp add: rest_bits_def)

lemma reader_wf_new: "valid_split s bytes \<Longrightarrow> 8 * length bytes \<le> usize_max \<Longrightarrow> reader_wf (bit_reader_new s bytes)"
  by (simp add: reader_wf_def bit_reader_new_def valid_split_def)

lemma rest_bits_new [simp]: "rest_bits (bit_reader_new s bytes) = bits_of bytes"
  by (simp add: rest_bits_def bit_reader_new_def)

lemma reader_wf_advance:
  "reader_wf r \<Longrightarrow> k \<le> length (rest_bits r) \<Longrightarrow> reader_wf (r\<lparr>br_bit_pos := br_bit_pos r + k\<rparr>)"
  by (auto simp: reader_wf_def)

lemma rest_bits_advance: "rest_bits (r\<lparr>br_bit_pos := br_bit_pos r + k\<rparr>) = drop k (rest_bits r)"
  by (simp add: rest_bits_def add.commute)

lemma seek_drop:
  "reader_wf r \<Longrightarrow> k \<le> length (rest_bits r) \<Longrightarrow>
     seek r (drop k (rest_bits r)) = r\<lparr>br_bit_pos := br_bit_pos r + k\<rparr>"
  by (auto simp: seek_def reader_wf_def intro!: arg_cong [where f = "\<lambda>p. r\<lparr>br_bit_pos := p\<rparr>"])

lemma seek_fields [simp]:
  "br_bytes (seek r rest) = br_bytes r" "br_aligned_words (seek r rest) = br_aligned_words r"
  "br_aligned_prefix (seek r rest) = br_aligned_prefix r" "seek (seek r rest) rest' = seek r rest'"
  by (simp_all add: seek_def)

lemma reader_wf_seek:
  "reader_wf r \<Longrightarrow> k \<le> length (rest_bits r) \<Longrightarrow> reader_wf (seek r (drop k (rest_bits r)))"
  by (simp add: seek_drop reader_wf_advance del: length_rest_bits)

lemma rest_bits_seek:
  "reader_wf r \<Longrightarrow> k \<le> length (rest_bits r) \<Longrightarrow> rest_bits (seek r (drop k (rest_bits r))) = drop k (rest_bits r)"
  by (simp add: seek_drop rest_bits_advance del: length_rest_bits)

lemma remaining_bits_eq: "reader_wf r \<Longrightarrow> remaining_bits r = length (rest_bits r)"
  by (simp add: remaining_bits_def reader_wf_def saturating_mul_def mult.commute)

lemma rest_bits_nth:
  "reader_wf r \<Longrightarrow> j < length (rest_bits r) \<Longrightarrow>
     rest_bits r ! j = bit (br_bytes r ! ((br_bit_pos r + j) div 8)) ((br_bit_pos r + j) mod 8)"
  by (simp add: rest_bits_def reader_wf_def nth_bits_of)

section \<open>Words assembled from bytes\<close>

lemma bit_le_word:
  "length bs \<le> 8 \<Longrightarrow> bit (le_word bs) i \<longleftrightarrow> i < 8 * length bs \<and> bits_of bs ! i"
proof (induction bs arbitrary: i)
  case Nil
  show ?case by simp
next
  case (Cons b bs)
  show ?case
    using Cons.prems
    by (cases "i < 8")
       (auto simp: bit_or_iff bit_push_bit_iff bit_unsigned_iff Cons.IH nth_append byte_bits_def
             dest: bit_imp_le_length)
qed

lemma bits_of_drop: "drop (8 * k) (bits_of bs) = bits_of (drop k bs)"
  by (induction bs arbitrary: k) (auto simp: drop_Cons split: nat.splits)

lemma bits_of_take: "take (8 * k) (bits_of bs) = bits_of (take k bs)"
  by (induction bs arbitrary: k) (auto simp: take_Cons split: nat.splits)


lemma bit_aligned_word:
  assumes wf: "reader_wf r" and i: "i < length (br_aligned_words r)" and j: "j < 64"
  shows "bit (br_aligned_words r ! i) j \<longleftrightarrow> bits_of (br_bytes r) ! (8 * br_aligned_prefix r + 64 * i + j)"
proof -
  let ?o = "br_aligned_prefix r + 8 * i"
  have fit: "?o + 8 \<le> length (br_bytes r)" using wf i by (auto simp: reader_wf_def)
  then have len: "length (take 8 (drop ?o (br_bytes r))) = 8" by simp
  have "bit (br_aligned_words r ! i) j \<longleftrightarrow> bits_of (take 8 (drop ?o (br_bytes r))) ! j"
    using wf i j len by (simp add: reader_wf_def bit_le_word)
  also have "\<dots> \<longleftrightarrow> take (8 * 8) (drop (8 * ?o) (bits_of (br_bytes r))) ! j"
    by (simp only: bits_of_take bits_of_drop)
  also have "\<dots> \<longleftrightarrow> bits_of (br_bytes r) ! (8 * ?o + j)"
    using j fit by simp
  finally show ?thesis by (simp add: algebra_simps)
qed

lemma word_window_bits:
  assumes wf: "reader_wf r" and win: "word_window r count = Some w" and count: "count \<le> 64"
  shows "count \<le> length (rest_bits r)" "\<And>j. j < count \<Longrightarrow> bit w j \<longleftrightarrow> rest_bits r ! j"
proof -
  define offset where "offset = br_bit_pos r - 8 * br_aligned_prefix r"
  define index where "index = offset div 64"
  define shift where "shift = offset mod 64"
  let ?ws = "br_aligned_words r"
  from win have pre: "8 * br_aligned_prefix r \<le> br_bit_pos r" and idx: "index < length ?ws"
    and cases: "if shift + count \<le> 64 then w = drop_bit shift (?ws ! index)
       else index + 1 < length ?ws \<and> w = drop_bit shift (?ws ! index) OR push_bit (64 - shift) (?ws ! (index + 1))"
    by (auto simp: word_window_def bind_eq_Some_conv Let_def index_def shift_def offset_def mult.commute
             split: if_splits)
  have sh: "shift < 64" by (simp add: shift_def)
  have pos: "br_bit_pos r = 8 * br_aligned_prefix r + 64 * index + shift"
    using pre by (simp add: index_def shift_def offset_def)
  have words: "8 * br_aligned_prefix r + 64 * length ?ws \<le> 8 * length (br_bytes r)"
    using wf by (simp add: reader_wf_def)
  show fit: "count \<le> length (rest_bits r)"
    using cases idx pos words sh count by (auto split: if_splits)
  fix j assume j: "j < count"
  with fit have nth: "rest_bits r ! j = bits_of (br_bytes r) ! (br_bit_pos r + j)"
    by (simp add: rest_bits_def)
  show "bit w j \<longleftrightarrow> rest_bits r ! j"
  proof (cases "shift + j < 64")
    case True
    then have "bit w j \<longleftrightarrow> bit (?ws ! index) (shift + j)"
      using cases j by (auto simp: bit_drop_bit_eq bit_or_iff bit_push_bit_iff split: if_splits)
    with True show ?thesis by (simp add: bit_aligned_word [OF wf idx] nth pos add.assoc)
  next
    case False
    with cases j have nxt: "index + 1 < length ?ws"
      and w: "w = drop_bit shift (?ws ! index) OR push_bit (64 - shift) (?ws ! (index + 1))"
      by (auto split: if_splits)
    have high: "\<not> bit (?ws ! index) (shift + j)"
      using False by (auto dest: bit_imp_le_length)
    have "bit w j \<longleftrightarrow> bit (?ws ! (index + 1)) (j - (64 - shift))"
      using False j count sh high by (auto simp: w bit_drop_bit_eq bit_or_iff bit_push_bit_iff)
    also have "\<dots> \<longleftrightarrow> bits_of (br_bytes r) ! (8 * br_aligned_prefix r + 64 * (index + 1) + (j - (64 - shift)))"
      using False j count sh by (intro bit_aligned_word [OF wf nxt]) simp
    also have "8 * br_aligned_prefix r + 64 * (index + 1) + (j - (64 - shift)) = br_bit_pos r + j"
      using False sh pos by simp
    finally show ?thesis by (simp add: nth)
  qed
qed

lemma bit_or_bytes:
  "i < 128 \<Longrightarrow> bit (or_bytes k bs w) i \<longleftrightarrow>
     bit w i \<or> (8 * k \<le> i \<and> i < 8 * k + 8 * length bs \<and> bits_of bs ! (i - 8 * k))"
proof (induction bs arbitrary: k w)
  case Nil
  show ?case by auto
next
  case (Cons b bs)
  show ?case
  proof (cases "i < 8 * k + 8")
    case True
    then show ?thesis
      using Cons.prems
      by (auto simp: Cons.IH bit_or_iff bit_push_bit_iff bit_unsigned_iff nth_append byte_bits_def mult.commute)
  next
    case False
    then have "\<not> bit (push_bit (k * 8) (ucast b :: u128)) i"
      by (auto simp: bit_push_bit_iff bit_unsigned_iff dest!: bit_imp_le_length)
    moreover from False have "i - 8 * Suc k = i - 8 * k - 8" "\<not> i - 8 * k < 8" by simp_all
    ultimately show ?thesis
      using Cons.prems False by (auto simp: Cons.IH bit_or_iff nth_append)
  qed
qed

text \<open>The word whose low bits are a given run of bits.\<close>

definition word_of_bits :: "bool list \<Rightarrow> u64" where
  "word_of_bits bs = of_nat (nat_of_bits bs)"

lemma bit_word_of_bits: "bit (word_of_bits bs) i \<longleftrightarrow> i < 64 \<and> i < length bs \<and> bs ! i"
  by (auto simp: word_of_bits_def bit_of_nat_iff bit_nat_of_bits)

lemma word_of_bits_eqI:
  "(\<And>i. i < 64 \<Longrightarrow> bit w i \<longleftrightarrow> i < length bs \<and> bs ! i) \<Longrightarrow> w = word_of_bits bs"
  by (rule bit_word_eqI) (simp add: bit_word_of_bits)

lemma bit_low_mask:
  "bit (push_bit n 1 - 1 :: 'a::len word) i \<longleftrightarrow> i < LENGTH('a) \<and> i < n"
  "bit (2 ^ n - 1 :: 'a::len word) i \<longleftrightarrow> i < LENGTH('a) \<and> i < n"
proof -
  have "(2 ^ n - 1 :: 'a word) = mask n" by (simp add: mask_eq_exp_minus_1)
  then show *: "bit (2 ^ n - 1 :: 'a word) i \<longleftrightarrow> i < LENGTH('a) \<and> i < n" by (simp add: bit_mask_iff)
  show "bit (push_bit n 1 - 1 :: 'a word) i \<longleftrightarrow> i < LENGTH('a) \<and> i < n"
    by (simp add: *)
qed

section \<open>Reading bits\<close>

lemma read_bit_eq:
  assumes wf: "reader_wf r"
  shows "read_bit r = (case rest_bits r of [] \<Rightarrow> Err InvalidProof | b # rest \<Rightarrow> Ok (b, seek r rest))"
proof (cases "rest_bits r")
  case Nil
  then have "8 * length (br_bytes r) \<le> br_bit_pos r" by (metis length_rest_bits list.size(3) diff_is_0_eq)
  with wf Nil show ?thesis by (simp add: read_bit_def reader_wf_def saturating_mul_def mult.commute)
next
  case (Cons b rest)
  from arg_cong [OF Cons, of length] have lt: "br_bit_pos r < 8 * length (br_bytes r)" by simp
  then have idx: "br_bit_pos r div 8 < length (br_bytes r)" by linarith
  from Cons have "b = rest_bits r ! 0" by simp
  also have "\<dots> = bit (br_bytes r ! (br_bit_pos r div 8)) (br_bit_pos r mod 8)"
    using wf lt rest_bits_nth [of r 0] by simp
  finally have b: "drop_bit (br_bit_pos r mod 8) (br_bytes r ! (br_bit_pos r div 8)) AND 1 = 1 \<longleftrightarrow> b"
    by (simp add: and_one_eq bit_iff_odd_drop_bit odd_iff_mod_2_eq_one)
  have rest: "rest = drop 1 (rest_bits r)" by (simp add: Cons)
  have "seek r rest = r\<lparr>br_bit_pos := br_bit_pos r + 1\<rparr>"
    unfolding rest using wf lt by (intro seek_drop) simp_all
  with wf lt idx b Cons show ?thesis
    by (simp add: read_bit_def reader_wf_def saturating_mul_def mult.commute Let_def)
qed

lemma read_bits_byte_path:
  assumes wf: "reader_wf r" and count: "count \<le> 63" "count \<le> length (rest_bits r)"
  defines "s \<equiv> br_bit_pos r div 8" and "e \<equiv> ceil_div (br_bit_pos r + count) 8"
  shows "s \<le> e" "e \<le> length (br_bytes r)"
    "ucast (drop_bit (br_bit_pos r mod 8) (or_bytes 0 (take (e - s) (drop s (br_bytes r))) 0)
        AND (push_bit count 1 - 1)) = word_of_bits (take count (rest_bits r))"
proof -
  let ?p = "br_bit_pos r" and ?bs = "take (e - s) (drop s (br_bytes r))"
  have p: "?p = 8 * s + ?p mod 8" by (simp add: s_def)
  have up: "?p + count \<le> 8 * e" using ceil_div_mult_ge [of 8 "?p + count"] by (simp add: e_def)
  show e: "e \<le> length (br_bytes r)" unfolding e_def using wf count
    by (intro ceil_div_least) (auto simp: reader_wf_def)
  show se: "s \<le> e" using up p by linarith
  have len: "length ?bs = e - s" using e se by simp
  show "ucast (drop_bit (?p mod 8) (or_bytes 0 ?bs 0) AND (push_bit count 1 - 1)) =
      word_of_bits (take count (rest_bits r))"
  proof (rule word_of_bits_eqI)
    fix i assume i: "i < (64 :: nat)"
    show "bit (ucast (drop_bit (?p mod 8) (or_bytes 0 ?bs 0) AND (push_bit count 1 - 1)) :: u64) i \<longleftrightarrow>
        i < length (take count (rest_bits r)) \<and> take count (rest_bits r) ! i"
    proof (cases "i < count")
      case False
      then show ?thesis by (simp add: bit_unsigned_iff bit_and_iff bit_low_mask)
    next
      case True
      let ?k = "?p mod 8 + i"
      have "?p mod 8 < 8" by simp
      then have k: "?k < 128" using i by linarith
      have fit: "?k < 8 * (e - s)" using up p True se by (simp add: diff_mult_distrib2)
      have "bits_of ?bs ! ?k = take (8 * (e - s)) (drop (8 * s) (bits_of (br_bytes r))) ! ?k"
        by (simp only: bits_of_take bits_of_drop)
      also have "\<dots> = bits_of (br_bytes r) ! (?p + i)"
        using fit e se p by (simp add: add.assoc [symmetric])
      finally have "bits_of ?bs ! ?k = rest_bits r ! i"
        using True count by (simp add: rest_bits_def)
      with True count i k fit len show ?thesis
        by (simp add: bit_unsigned_iff bit_and_iff bit_low_mask bit_drop_bit_eq bit_or_bytes)
    qed
  qed
qed

lemma read_bits_eq:
  assumes wf: "reader_wf r" and count: "count \<le> 63"
  shows "read_bits r count =
    (if count \<le> length (rest_bits r)
     then Ok (word_of_bits (take count (rest_bits r)), seek r (drop count (rest_bits r)))
     else Err InvalidProof)"
proof (cases "count = 0 \<or> length (rest_bits r) < count")
  case True
  with wf count show ?thesis
    by (auto simp: read_bits_def remaining_bits_eq word_of_bits_def seek_def reader_wf_def)
next
  case False
  then have fit: "count \<le> length (rest_bits r)" and pos: "0 < count" by simp_all
  have seek: "seek r (drop count (rest_bits r)) = r\<lparr>br_bit_pos := br_bit_pos r + count\<rparr>"
    using wf fit by (rule seek_drop)
  have add: "checked_add (br_bit_pos r) count = Some (br_bit_pos r + count)"
    using wf fit pos by (auto simp: reader_wf_def)
  show ?thesis
  proof (cases "word_window r count")
    case None
    with read_bits_byte_path [OF wf count fit] wf fit pos count add seek show ?thesis
      by (simp add: read_bits_def remaining_bits_eq Let_def del: length_rest_bits checked_add_eq_Some)
  next
    case (Some w)
    have "w AND (push_bit count 1 - 1) = word_of_bits (take count (rest_bits r))"
      using word_window_bits [OF wf Some] count fit
      by (intro word_of_bits_eqI) (auto simp: bit_and_iff bit_low_mask)
    with Some wf fit pos count add seek show ?thesis
      by (simp add: read_bits_def remaining_bits_eq Let_def del: length_rest_bits checked_add_eq_Some)
  qed
qed


section \<open>Unary runs\<close>

lemma count_trailing_ones_props:
  "count_trailing_ones n w \<le> n \<and> (\<forall>i < count_trailing_ones n w. bit w i) \<and>
   (count_trailing_ones n w < n \<longrightarrow> \<not> bit w (count_trailing_ones n w))"
proof (induction n arbitrary: w)
  case 0
  show ?case by simp
next
  case (Suc n)
  from Suc.IH [of "drop_bit 1 w"] show ?case
    by (auto simp: bit_drop_bit_eq less_Suc_eq_0_disj)
qed

lemma count_trailing_ones_unique:
  "q \<le> n \<Longrightarrow> (\<And>i. i < q \<Longrightarrow> bit w i) \<Longrightarrow> (q < n \<Longrightarrow> \<not> bit w q) \<Longrightarrow> count_trailing_ones n w = q"
  using count_trailing_ones_props [of n w] by (metis linorder_neqE_nat order_less_le_trans)

lemma trailing_ones_props:
  "trailing_ones w \<le> 64 \<and> (\<forall>i < trailing_ones w. bit w i) \<and> (trailing_ones w < 64 \<longrightarrow> \<not> bit w (trailing_ones w))"
  using count_trailing_ones_props [of 64 w] by (simp add: trailing_ones_def)

lemma bit_ucast_low_byte: "bit (ucast (w AND 0xff :: u64) :: u8) i \<longleftrightarrow> i < 8 \<and> bit w i"
proof -
  have "(0xff :: u64) = mask 8" by (simp add: mask_eq_exp_minus_1)
  show ?thesis unfolding \<open>0xff = mask 8\<close> by (auto simp: bit_unsigned_iff bit_and_iff bit_mask_iff)
qed

lemma trailing_ones_table_loop_eq:
  "8 dvd ones \<Longrightarrow> ones \<le> 64 \<Longrightarrow> (\<And>i. i < ones \<Longrightarrow> bit word i) \<Longrightarrow> rest = drop_bit ones word \<Longrightarrow>
     trailing_ones_table_loop ones rest = trailing_ones word"
proof (induction ones rest rule: trailing_ones_table_loop.induct)
  case (1 ones rest)
  let ?b = "ucast (rest AND 0xff) :: u8"
  define run where "run = ones_table ?b"
  have run: "run \<le> 8" "\<forall>i < run. bit ?b i" "run < 8 \<longrightarrow> \<not> bit ?b run"
    using count_trailing_ones_props [of 8 ?b] by (auto simp: run_def ones_table_def)
  have ones: "bit word (ones + i)" if "i < run" for i
    using run that "1.prems"(4) by (auto simp: bit_ucast_low_byte bit_drop_bit_eq)
  show ?case
  proof (cases "ones < 64")
    case False
    then have "trailing_ones word = ones"
      unfolding trailing_ones_def using "1.prems" by (intro count_trailing_ones_unique) auto
    with False show ?thesis by (simp add: trailing_ones_table_loop.simps [of ones])
  next
    case small: True
    with "1.prems"(1) have fit: "ones + 8 \<le> 64" by auto
    have all: "bit word i" if "i < ones + run" for i
      using that ones [of "i - ones"] "1.prems"(3) by (cases "i < ones") auto
    show ?thesis
    proof (cases "run < 8")
      case True
      with run "1.prems"(4) have "\<not> bit word (ones + run)"
        by (auto simp: bit_ucast_low_byte bit_drop_bit_eq)
      then have "trailing_ones word = ones + run"
        unfolding trailing_ones_def using True fit all by (intro count_trailing_ones_unique) auto
      with True small show ?thesis
        by (simp add: trailing_ones_table_loop.simps [of ones] run_def Let_def)
    next
      case False
      with run have r8: "run = 8" by simp
      then have table: "ones_table ?b = 8" by (simp add: run_def)
      have "trailing_ones_table_loop (ones + run) (drop_bit 8 rest) = trailing_ones word"
        using small "1.prems" all fit table
        by (intro "1.IH") (auto simp: r8 add.commute)
      with small False show ?thesis
        by (simp add: trailing_ones_table_loop.simps [of ones] run_def Let_def)
    qed
  qed
qed

text \<open>The leading run of ones of a bit list and what follows its terminating zero.\<close>

fun take_unary :: "bool list \<Rightarrow> (nat \<times> bool list) option" where
  "take_unary [] = None"
| "take_unary (False # bs) = Some (0, bs)"
| "take_unary (True # bs) = map_option (\<lambda>(q, rest). (Suc q, rest)) (take_unary bs)"

lemma take_unary_eq_Some: "take_unary bs = Some (q, rest) \<longleftrightarrow> bs = replicate q True @ False # rest"
  by (induction bs arbitrary: q rule: take_unary.induct) (auto, (case_tac q; auto)+)

lemma take_unary_replicate:
  "take_unary (replicate q True @ bs) = map_option (\<lambda>(n, rest). (q + n, rest)) (take_unary bs)"
  by (induction q) (auto simp: option.map_comp o_def case_prod_unfold option.map_ident)


text \<open>The ones found in the current byte are a prefix of the remaining bits.\<close>

lemma byte_run:
  assumes wf: "reader_wf r" and ne: "rest_bits r \<noteq> []"
  defines "k \<equiv> br_bit_pos r mod 8"
  defines "ones \<equiv> min (trailing_ones (ucast (drop_bit k (br_bytes r ! (br_bit_pos r div 8))))) (8 - k)"
  shows "br_bit_pos r div 8 < length (br_bytes r)" "8 - k \<le> length (rest_bits r)"
    "rest_bits r = replicate ones True @ drop ones (rest_bits r)"
    "ones < 8 - k \<Longrightarrow> drop ones (rest_bits r) = False # drop (ones + 1) (rest_bits r)"
proof -
  let ?p = "br_bit_pos r" and ?w = "ucast (drop_bit k (br_bytes r ! (br_bit_pos r div 8))) :: u64"
  have p: "?p = 8 * (?p div 8) + k" "k < 8" by (simp_all add: k_def)
  from ne have "0 < length (rest_bits r)" by (simp del: length_rest_bits)
  then have lt: "?p < 8 * length (br_bytes r)" by simp
  then show idx: "?p div 8 < length (br_bytes r)" by linarith
  then have "8 * (?p div 8) + 8 \<le> 8 * length (br_bytes r)" by linarith
  with p show fit: "8 - k \<le> length (rest_bits r)" by simp
  have nth: "rest_bits r ! j = bit ?w j" if "j < 8 - k" for j
  proof -
    have less: "k + j < 8" using that by linarith
    have "?p + j = 8 * (?p div 8) + (k + j)" using p(1) by linarith
    with less have "(?p + j) div 8 = ?p div 8" "(?p + j) mod 8 = k + j"
      using div_mult_self4 [of 8 "?p div 8" "k + j"] mod_mult_self4 [of 8 "?p div 8" "k + j"]
      by (simp_all only: div_less mod_less)
    moreover have "j < length (rest_bits r)" using that fit by linarith
    moreover have "possible_bit TYPE(64 word) j" using less by simp
    ultimately show ?thesis
      using that by (simp add: rest_bits_nth [OF wf] bit_unsigned_iff bit_drop_bit_eq add.commute del: length_rest_bits possible_bit_word)
  qed
  have run: "\<forall>i < ones. bit ?w i" "ones < 8 - k \<longrightarrow> \<not> bit ?w ones"
    using trailing_ones_props [of ?w] p by (auto simp: ones_def min_def)
  have le: "ones \<le> 8 - k" by (simp add: ones_def)
  have "take ones (rest_bits r) = replicate ones True"
    using run le nth fit by (intro nth_equalityI) auto
  then show "rest_bits r = replicate ones True @ drop ones (rest_bits r)"
    by (metis append_take_drop_id)
  assume less: "ones < 8 - k"
  with fit have "drop ones (rest_bits r) = rest_bits r ! ones # drop (Suc ones) (rest_bits r)"
    by (intro Cons_nth_drop_Suc [symmetric]) linarith
  with run nth less show "drop ones (rest_bits r) = False # drop (ones + 1) (rest_bits r)" by simp
qed

lemma read_unary_ones_eq:
  "reader_wf r \<Longrightarrow> m \<le> u64_max \<Longrightarrow> acc \<le> m \<Longrightarrow>
   read_unary_ones r m acc =
     (case take_unary (rest_bits r) of
        None \<Rightarrow> Err InvalidProof
      | Some (q, rest) \<Rightarrow> if acc + q \<le> m then Ok (acc + q, seek r rest) else Err InvalidProof)"
proof (induction r m acc rule: read_unary_ones.induct)
  case (1 r m acc)
  note wf = "1.prems"(1)
  show ?case
  proof (cases "rest_bits r = []")
    case True
    with wf show ?thesis by (simp add: read_unary_ones.simps [of r] remaining_bits_eq del: length_rest_bits)
  next
    case ne: False
    define k where "k = br_bit_pos r mod 8"
    define ones where
      "ones = min (trailing_ones (ucast (drop_bit k (br_bytes r ! (br_bit_pos r div 8))))) (8 - k)"
    note run = byte_run [OF wf ne, folded k_def, folded ones_def]
    have le: "ones \<le> 8 - k" by (simp add: ones_def)
    have split: "take_unary (rest_bits r) =
        map_option (\<lambda>(n, rest). (ones + n, rest)) (take_unary (drop ones (rest_bits r)))"
      by (metis run(3) take_unary_replicate)
    have rem: "remaining_bits r \<noteq> 0" using ne wf by (simp add: remaining_bits_eq del: length_rest_bits)
    have room: "br_bit_pos r + (8 - k) \<le> usize_max"
      using run(2) wf by (auto simp: reader_wf_def k_def)
    have pos: "checked_add (br_bit_pos r) ones = Some (br_bit_pos r + ones)"
      using room le by simp
    have step: "read_unary_ones r m acc =
      (if u64_max < acc + ones \<or> m < acc + ones then Err InvalidProof
       else if ones < 8 - k then Ok (acc + ones, r\<lparr>br_bit_pos := br_bit_pos r + ones + 1\<rparr>)
       else read_unary_ones (r\<lparr>br_bit_pos := br_bit_pos r + ones\<rparr>) m (acc + ones))"
      using rem run(1) pos room
      by (subst read_unary_ones.simps)
         (simp add: Let_def k_def [symmetric] ones_def [symmetric] checked_add_max_def checked_add_if)
    show ?thesis
    proof (cases "m < acc + ones")
      case True
      then show ?thesis by (simp add: step split split: option.splits)
    next
      case fits: False
      then have small: "\<not> u64_max < acc + ones" using "1.prems" by simp
      show ?thesis
      proof (cases "ones < 8 - k")
        case True
        have "seek r (drop (ones + 1) (rest_bits r)) = r\<lparr>br_bit_pos := br_bit_pos r + (ones + 1)\<rparr>"
          using True run(2) by (intro seek_drop [OF wf]) linarith
        with True fits small show ?thesis by (simp add: step split run(4))
      next
        case False
        with le have all: "ones = 8 - k" by simp
        let ?r = "r\<lparr>br_bit_pos := br_bit_pos r + ones\<rparr>"
        have "read_unary_ones ?r m (acc + ones) =
          (case take_unary (rest_bits ?r) of None \<Rightarrow> Err InvalidProof
           | Some (q, rest) \<Rightarrow> if acc + ones + q \<le> m then Ok (acc + ones + q, seek ?r rest) else Err InvalidProof)"
          using rem run(1) small fits False pos "1.prems" reader_wf_advance [OF wf, of ones] run(2) all
          by (intro "1.IH" [where x = "br_bit_pos r div 8" and xa = k and xb = "br_bytes r ! (br_bit_pos r div 8)"
                and xc = "8 - k" and xd = ones])
             (simp_all add: k_def [symmetric] ones_def [symmetric] checked_add_max_def del: length_rest_bits)
        moreover have "seek ?r rest = seek r rest" for rest by (simp add: seek_def)
        ultimately show ?thesis
          using False fits small
          by (simp add: step split rest_bits_advance add.assoc split: option.splits)
      qed
    qed
  qed
qed


section \<open>Zigzag\<close>

text \<open>The unsigned image of a signed value: \<open>2n\<close> when it is non-negative, \<open>-2n - 1\<close> otherwise.\<close>

definition zigzag_int :: "int \<Rightarrow> int" where
  "zigzag_int n = (if n < 0 then - 2 * n - 1 else 2 * n)"

definition zigzag_ok :: "int \<Rightarrow> nat \<Rightarrow> bool" where
  "zigzag_ok n w \<longleftrightarrow> - (2 ^ (w - 1)) \<le> n \<and> n < 2 ^ (w - 1)"

lemma sint_word_of_int_i64: "- (2 ^ 63) \<le> x \<Longrightarrow> x < 2 ^ 63 \<Longrightarrow> sint (word_of_int x :: i64) = x"
  by (simp add: signed_of_int signed_take_bit_int_eq_self_iff)

lemma even_uint: "even (uint u) \<longleftrightarrow> even (u :: u64)"
  using bit_uint_iff [of u 0] by (simp add: bit_0)

lemma sint_zigzag_bounds:
  assumes "0 < w" "w \<le> 63"
  shows "sint (- push_bit (w - 1) (1 :: i64)) = - (2 ^ (w - 1))"
    "sint (push_bit (w - 1) (1 :: i64) - 1) = 2 ^ (w - 1) - 1"
proof -
  have "(2 :: int) ^ (w - 1) \<le> 2 ^ 62" using assms by (intro power_increasing) auto
  then have pow: "(2 :: int) ^ (w - 1) < 2 ^ 63" by (rule order_le_less_trans) simp
  have pos: "(0 :: int) < 2 ^ (w - 1)" by simp
  have "sint (word_of_int (- (2 ^ (w - 1))) :: i64) = - (2 ^ (w - 1))"
    using pow pos by (intro sint_word_of_int_i64) linarith+
  moreover have "sint (word_of_int (2 ^ (w - 1) - 1) :: i64) = 2 ^ (w - 1) - 1"
    using pow pos by (intro sint_word_of_int_i64) linarith+
  moreover have "(word_of_int (- (2 ^ (w - 1))) :: i64) = - push_bit (w - 1) 1"
    "(word_of_int (2 ^ (w - 1) - 1) :: i64) = push_bit (w - 1) 1 - 1"
    by simp_all
  ultimately show "sint (- push_bit (w - 1) (1 :: i64)) = - (2 ^ (w - 1))"
    "sint (push_bit (w - 1) (1 :: i64) - 1) = 2 ^ (w - 1) - 1"
    by simp_all
qed

lemma zigzag_word:
  fixes n :: i64
  shows "push_bit 1 n XOR signed_drop_bit 63 n = word_of_int (zigzag_int (sint n))"
proof -
  have msb: "bit n 63 \<longleftrightarrow> sint n < 0" using bit_last_iff [of n] by simp
  show ?thesis
  proof (cases "sint n < 0")
    case True
    have "signed_drop_bit 63 n = - 1"
      using True msb by (intro bit_word_eqI) (auto simp: bit_signed_drop_bit_iff Suc_le_eq)
    then have "push_bit 1 n XOR signed_drop_bit 63 n = - (2 * n) - 1"
      by (simp add: not_eq_complement)
    also have "\<dots> = word_of_int (- 2 * sint n - 1)" by simp
    finally show ?thesis using True by (simp add: zigzag_int_def)
  next
    case False
    have "signed_drop_bit 63 n = 0"
      using False msb by (intro bit_word_eqI) (auto simp: bit_signed_drop_bit_iff Suc_le_eq dest: bit_imp_le_length)
    then have "push_bit 1 n XOR signed_drop_bit 63 n = word_of_int (2 * sint n)" by simp
    with False show ?thesis by (simp add: zigzag_int_def)
  qed
qed

lemma unzigzag_word:
  fixes u :: u64
  shows "sint (drop_bit 1 u XOR (- (u AND 1))) = (if even (uint u) then uint u div 2 else - (uint u div 2) - 1)"
proof -
  have half: "uint u div 2 < 2 ^ 63" "0 \<le> uint u div 2" using uint_bounded [of u] by auto
  have drop: "drop_bit 1 u = word_of_int (uint u div 2)"
    by (simp add: drop_bit_eq_div word_div_def)
  show ?thesis
  proof (cases "even (uint u)")
    case True
    then have "u AND 1 = 0" by (simp add: and_one_eq mod2_eq_if even_uint)
    then have "drop_bit 1 u XOR (- (u AND 1)) = word_of_int (uint u div 2)"
      by (simp only: drop) simp
    with True half show ?thesis by (simp only: sint_word_of_int_i64 if_True)
  next
    case False
    then have "u AND 1 = 1" by (simp add: and_one_eq mod2_eq_if even_uint)
    then have "drop_bit 1 u XOR (- (u AND 1)) = word_of_int (- (uint u div 2) - 1)"
      by (simp only: drop) (simp add: not_eq_complement)
    moreover have "sint (word_of_int (- (uint u div 2) - 1) :: i64) = - (uint u div 2) - 1"
      using half by (intro sint_word_of_int_i64) linarith+
    ultimately show ?thesis using False by simp
  qed
qed


lemma zigzag_encode_eq:
  assumes "0 < w" "w \<le> 63"
  shows "zigzag_encode n w =
    (if zigzag_ok (sint n) w then Ok (word_of_int (zigzag_int (sint n)))
     else Err (InvalidInput ''golomb-rice coordinate exceeds the zigzag width''))"
  unfolding zigzag_encode_def Let_def sint_zigzag_bounds [OF assms] zigzag_word zigzag_ok_def
  using assms by auto

lemma zigzag_int_bounds:
  assumes "zigzag_ok n w" "0 < w"
  shows "0 \<le> zigzag_int n" "zigzag_int n < 2 ^ w"
proof -
  obtain v where "w = Suc v" using assms by (cases w) auto
  with assms show "0 \<le> zigzag_int n" "zigzag_int n < 2 ^ w"
    by (auto simp: zigzag_int_def zigzag_ok_def)
qed

lemma uint_zigzag:
  assumes "zigzag_ok n w" "0 < w" "w \<le> 63"
  shows "uint (word_of_int (zigzag_int n) :: u64) = zigzag_int n"
proof -
  have "(2 :: int) ^ w \<le> 2 ^ 63" using assms by (intro power_increasing) auto
  with zigzag_int_bounds [OF assms(1,2)] show ?thesis
    by (simp add: uint_word_of_int_eq take_bit_int_eq_self_iff)
qed

lemma unzigzag_zigzag_int:
  "(if even (zigzag_int n) then zigzag_int n div 2 else - (zigzag_int n div 2) - 1) = n"
  "0 \<le> u \<Longrightarrow> zigzag_int (if even u then u div 2 else - (u div 2) - 1) = u"
  by (auto simp: zigzag_int_def elim!: oddE evenE)

text \<open>Encoding and decoding are inverse to one another, on the same range of values.\<close>

lemma zigzag_decode_iff_encode:
  assumes w: "0 < w" "w \<le> 63"
  shows "zigzag_decode u w = Ok n \<longleftrightarrow> zigzag_encode n w = Ok u"
proof -
  define m where "m = drop_bit 1 u XOR (- (u AND 1))"
  have m: "sint m = (if even (uint u) then uint u div 2 else - (uint u div 2) - 1)"
    unfolding m_def by (rule unzigzag_word)
  have dec: "zigzag_decode u w = (if zigzag_ok (sint m) w then Ok m else Err InvalidProof)"
    unfolding zigzag_decode_def Let_def sint_zigzag_bounds [OF w] m_def [symmetric] zigzag_ok_def
    using w by auto
  show ?thesis
  proof
    assume "zigzag_decode u w = Ok n"
    then have "n = m" "zigzag_ok (sint m) w" by (auto simp: dec split: if_splits)
    then show "zigzag_encode n w = Ok u"
      using m unzigzag_zigzag_int(2) [of "uint u"] by (simp add: zigzag_encode_eq [OF w])
  next
    assume enc: "zigzag_encode n w = Ok u"
    then have ok: "zigzag_ok (sint n) w" and u: "u = word_of_int (zigzag_int (sint n))"
      by (auto simp: zigzag_encode_eq [OF w] split: if_splits)
    have "sint m = sint n"
      unfolding m u uint_zigzag [OF ok w] by (rule unzigzag_zigzag_int(1))
    then show "zigzag_decode u w = Ok n" using ok by (simp add: dec signed_word_eqI)
  qed
qed

lemma zigzag_decode_cases:
  assumes w: "0 < w" "w \<le> 63"
  shows "zigzag_decode u w = Err InvalidProof \<or> (\<exists>n. zigzag_decode u w = Ok n)"
  using w by (auto simp: zigzag_decode_def Let_def)

lemma zigzag_width_ok: "nat \<bar>sint n\<bar> \<le> cap \<Longrightarrow> zigzag_ok (sint (n :: i64)) (golomb_rice_zigzag_width cap)"
proof -
  assume n: "nat \<bar>sint n\<bar> \<le> cap"
  then have "\<bar>sint n\<bar> \<le> int cap" by linarith
  moreover have "int cap < 2 ^ bit_length cap" using less_bit_length [of cap] by (metis of_nat_less_iff of_nat_numeral of_nat_power)
  ultimately have "\<bar>sint n\<bar> < 2 ^ bit_length cap" by linarith
  then show ?thesis
    by (cases "cap = 0") (auto simp: zigzag_ok_def golomb_rice_zigzag_width_def bit_length.simps [of 0])
qed


section \<open>One coordinate as a prefix code on bits\<close>

text \<open>
  The parameters under which the code is canonical: the low-bit count is a legal shift, the
  zigzag width is accepted, and no admitted quotient overflows 64 bits.
\<close>

definition gr_params :: "nat \<Rightarrow> nat \<Rightarrow> nat \<Rightarrow> bool" where
  "gr_params r w m \<longleftrightarrow> r < 64 \<and> 0 < w \<and> w \<le> 63 \<and> (m + 1) * 2 ^ r \<le> 2 ^ 64"

definition gr_code :: "nat \<Rightarrow> u64 \<Rightarrow> bool list" where
  "gr_code r u = replicate (unat u div 2 ^ r) True @ False # map (bit u) [0..<r]"

definition gr_enc :: "nat \<Rightarrow> nat \<Rightarrow> nat \<Rightarrow> i64 \<Rightarrow> bool list option" where
  "gr_enc r w m n =
     (if gr_params r w m then
        (case zigzag_encode n w of
           Inl _ \<Rightarrow> None
         | Inr u \<Rightarrow> if unat u div 2 ^ r \<le> m then Some (gr_code r u) else None)
      else None)"

definition gr_dec :: "nat \<Rightarrow> nat \<Rightarrow> nat \<Rightarrow> bool list \<Rightarrow> (i64 \<times> bool list) option" where
  "gr_dec r w m bs =
     (if gr_params r w m then
        (case take_unary bs of
           None \<Rightarrow> None
         | Some (q, rest) \<Rightarrow>
             if q \<le> m \<and> r \<le> length rest then
               (case zigzag_decode (of_nat (q * 2 ^ r + nat_of_bits (take r rest))) w of
                  Inl _ \<Rightarrow> None
                | Inr n \<Rightarrow> Some (n, drop r rest))
             else None)
      else None)"

lemma low_bits_word: "map (bit (u :: u64)) [0..<r] = map (bit (unat u)) [0..<r]"
  by (simp add: bit_unsigned_iff)

lemma nat_of_low_bits: "nat_of_bits (map (bit (n :: nat)) [0..<r]) = n mod 2 ^ r"
proof -
  have "nat_of_bits (map (bit n) [0..<r]) = nat_of_bits (map (bit (n mod 2 ^ r)) [0..<r])"
    by (intro arg_cong [where f = nat_of_bits] map_cong) (auto simp: take_bit_eq_mod [symmetric] bit_take_bit_iff)
  also have "\<dots> = n mod 2 ^ r" by (rule nat_of_bits_map_bit) simp
  finally show ?thesis .
qed

lemma gr_total_less:
  assumes "gr_params r w m" "q \<le> m" "low < 2 ^ r"
  shows "q * 2 ^ r + low < 2 ^ 64"
proof -
  have "q * 2 ^ r + low < (q + 1) * 2 ^ r" using assms by simp
  also have "\<dots> \<le> (m + 1) * 2 ^ r" using assms by (intro mult_right_mono) auto
  also have "\<dots> \<le> 2 ^ 64" using assms by (simp add: gr_params_def)
  finally show ?thesis .
qed

lemma gr_code_of_parts:
  assumes "gr_params r w m" "q \<le> m" "length low = r"
  shows "gr_code r (of_nat (q * 2 ^ r + nat_of_bits low)) = replicate q True @ False # low"
proof -
  let ?t = "q * 2 ^ r + nat_of_bits low"
  have low: "nat_of_bits low < 2 ^ r" using nat_of_bits_less [of low] assms by simp
  have t: "unat (of_nat ?t :: u64) = ?t"
    using gr_total_less [OF assms(1,2) low] by (simp add: unat_of_nat_u64 del: of_nat_add of_nat_mult of_nat_power)
  have "map (bit ?t) [0..<r] = low"
  proof (rule nat_of_bits_inj)
    show "nat_of_bits (map (bit ?t) [0..<r]) = nat_of_bits low"
      using low by (simp only: nat_of_low_bits) simp
  qed (simp add: assms)
  then show ?thesis using low by (simp only: gr_code_def low_bits_word t) simp
qed

lemma gr_dec_enc: "gr_enc r w m n = Some bs \<Longrightarrow> gr_dec r w m (bs @ rest) = Some (n, rest)"
proof -
  assume "gr_enc r w m n = Some bs"
  then obtain u where par: "gr_params r w m" and u: "zigzag_encode n w = Ok u"
    and m: "unat u div 2 ^ r \<le> m" and bs: "bs = gr_code r u"
    by (auto simp: gr_enc_def split: if_splits sum.splits)
  have "take_unary (bs @ rest) = Some (unat u div 2 ^ r, map (bit u) [0..<r] @ rest)"
    by (simp add: bs gr_code_def take_unary_eq_Some)
  moreover have "unat u div 2 ^ r * 2 ^ r + nat_of_bits (map (bit u) [0..<r]) = unat u"
    by (simp only: low_bits_word nat_of_low_bits div_mult_mod_eq)
  moreover have "zigzag_decode u w = Ok n"
    using u par by (simp add: zigzag_decode_iff_encode gr_params_def)
  ultimately show ?thesis using par m by (simp add: gr_dec_def)
qed

lemma gr_enc_dec: "gr_dec r w m cs = Some (n, rest) \<Longrightarrow> \<exists>bs. gr_enc r w m n = Some bs \<and> cs = bs @ rest"
proof -
  assume "gr_dec r w m cs = Some (n, rest)"
  then obtain q rest0 where par: "gr_params r w m" and un: "take_unary cs = Some (q, rest0)"
    and q: "q \<le> m" and len: "r \<le> length rest0"
    and dec: "zigzag_decode (of_nat (q * 2 ^ r + nat_of_bits (take r rest0))) w = Ok n"
    and rest: "rest = drop r rest0"
    by (auto simp: gr_dec_def split: if_splits option.splits sum.splits)
  let ?low = "take r rest0"
  let ?u = "of_nat (q * 2 ^ r + nat_of_bits ?low) :: u64"
  have low: "nat_of_bits ?low < 2 ^ r" using nat_of_bits_less [of ?low] len by simp
  have "unat ?u = q * 2 ^ r + nat_of_bits ?low"
    using gr_total_less [OF par q low] by (simp add: unat_of_nat_u64 del: of_nat_add of_nat_mult of_nat_power)
  then have "unat ?u div 2 ^ r = q" using low by simp
  moreover have "zigzag_encode n w = Ok ?u"
    using dec par by (simp add: zigzag_decode_iff_encode gr_params_def)
  ultimately have "gr_enc r w m n = Some (gr_code r ?u)"
    using par q by (simp add: gr_enc_def del: of_nat_add of_nat_mult of_nat_power)
  moreover have "cs = gr_code r ?u @ rest"
    using un gr_code_of_parts [OF par q, of ?low] len rest
    by (simp add: take_unary_eq_Some del: of_nat_add of_nat_mult of_nat_power)
  ultimately show ?thesis by blast
qed

interpretation gr: prefix_code "gr_enc r w m" "gr_dec r w m" for r w m
  by unfold_locales (auto simp: gr_dec_enc gr_enc_dec)


section \<open>The decoder refines the prefix code\<close>

lemma gr_params_bounds: "gr_params r w m \<Longrightarrow> m \<le> u64_max \<and> r \<le> 63"
proof -
  assume par: "gr_params r w m"
  have "(m + 1) * 1 \<le> (m + 1) * 2 ^ r" by (intro mult_left_mono) auto
  also have "\<dots> \<le> 2 ^ 64" using par by (simp add: gr_params_def)
  finally show ?thesis using par by (simp add: gr_params_def u64_max_def)
qed

text \<open>Joining quotient and remainder by shift and or adds them.\<close>

lemma join_quotient:
  assumes "r < 64" "length low = r"
  shows "shl_u64 (of_nat q) r OR word_of_bits low = of_nat (q * 2 ^ r + nat_of_bits low)"
proof -
  have "\<not> bit (push_bit r (of_nat q) :: u64) i \<or> \<not> bit (word_of_bits low) i" for i
    using assms by (auto simp: bit_push_bit_iff bit_word_of_bits)
  then have "push_bit r (of_nat q :: u64) OR word_of_bits low = push_bit r (of_nat q) + word_of_bits low"
    by (simp add: disjunctive_add)
  with assms show ?thesis by (simp add: shl_u64_def push_bit_eq_mult word_of_bits_def)
qed

definition gr_join :: "nat \<Rightarrow> nat \<Rightarrow> bit_reader \<Rightarrow> nat \<Rightarrow> bool list \<Rightarrow> (i64 \<times> bit_reader) result" where
  "gr_join r w reader q rest =
     try_r (zigzag_decode (of_nat (q * 2 ^ r + nat_of_bits (take r rest))) w)
       (\<lambda>n. Ok (n, seek reader (drop r rest)))"

definition gr_refined :: "nat \<Rightarrow> nat \<Rightarrow> nat \<Rightarrow> bit_reader \<Rightarrow> (i64 \<times> bit_reader) result" where
  "gr_refined r w m reader =
     (case gr_dec r w m (rest_bits reader) of
        None \<Rightarrow> Err InvalidProof
      | Some (n, rest) \<Rightarrow> Ok (n, seek reader rest))"

lemma gr_refined_join:
  assumes par: "gr_params r w m"
  shows "gr_refined r w m reader =
    (case take_unary (rest_bits reader) of
       None \<Rightarrow> Err InvalidProof
     | Some (q, rest) \<Rightarrow> if q \<le> m \<and> r \<le> length rest then gr_join r w reader q rest else Err InvalidProof)"
proof -
  have w: "0 < w" "w \<le> 63" using par by (auto simp: gr_params_def)
  have join: "(case case zigzag_decode u w of Inl _ \<Rightarrow> None | Inr n \<Rightarrow> Some (n, rest) of
        None \<Rightarrow> Err InvalidProof | Some (n, rest) \<Rightarrow> Ok (n, seek reader rest)) =
      try_r (zigzag_decode u w) (\<lambda>n. Ok (n, seek reader rest))" for u and rest :: "bool list"
    using zigzag_decode_cases [OF w, of u] by auto
  show ?thesis
    using par by (auto simp: gr_refined_def gr_dec_def gr_join_def join split: option.splits)
qed

lemma unary_prefix_seek:
  assumes wf: "reader_wf reader" and un: "take_unary (rest_bits reader) = Some (q, rest)"
  shows "rest = drop (q + 1) (rest_bits reader)" "q + 1 \<le> length (rest_bits reader)"
    "reader_wf (seek reader rest)" "rest_bits (seek reader rest) = rest"
proof -
  from un have eq: "rest_bits reader = replicate q True @ False # rest" by (simp add: take_unary_eq_Some)
  show rest: "rest = drop (q + 1) (rest_bits reader)" by (simp add: eq)
  show le: "q + 1 \<le> length (rest_bits reader)" by (simp add: eq del: length_rest_bits)
  show "reader_wf (seek reader rest)" "rest_bits (seek reader rest) = rest"
    unfolding rest using reader_wf_seek [OF wf le] rest_bits_seek [OF wf le] by simp_all
qed

lemma decode_slow_path:
  assumes wf: "reader_wf reader" and par: "gr_params r w m"
  shows "try_r (read_unary_ones reader m 0) (\<lambda>(quotient, reader').
           try_r (if r = 0 then Ok (of_nat quotient, reader')
                  else try_r (read_bits reader' r) (\<lambda>(remainder, reader'').
                         Ok (shl_u64 (of_nat quotient) r OR remainder, reader'')))
             (\<lambda>(u, reader''). try_r (zigzag_decode u w) (\<lambda>n. Ok (n, reader'')))) = gr_refined r w m reader"
proof (cases "take_unary (rest_bits reader)")
  case None
  with wf gr_params_bounds [OF par] show ?thesis
    by (simp add: read_unary_ones_eq gr_refined_join [OF par])
next
  case (Some p)
  obtain q rest where "p = (q, rest)" by (cases p)
  with Some have un: "take_unary (rest_bits reader) = Some (q, rest)" by simp
  note seek = unary_prefix_seek [OF wf un]
  have r: "r \<le> 63" "r < 64" "m \<le> u64_max" using gr_params_bounds [OF par] by auto
  show ?thesis
  proof (cases "q \<le> m")
    case False
    with un wf r show ?thesis by (simp add: read_unary_ones_eq gr_refined_join [OF par])
  next
    case True
    show ?thesis
    proof (cases "r \<le> length rest")
      case False
      with un wf r True seek show ?thesis
        by (simp add: read_unary_ones_eq gr_refined_join [OF par] read_bits_eq del: length_rest_bits)
    next
      case fits: True
      have "length (take r rest) = r" using fits by simp
      from join_quotient [OF r(2) this, of q] un wf r True seek fits show ?thesis
        by (auto simp: read_unary_ones_eq gr_refined_join [OF par] read_bits_eq gr_join_def
                 simp del: length_rest_bits of_nat_add of_nat_mult of_nat_power)
    qed
  qed
qed

lemma decode_fast_path:
  assumes wf: "reader_wf reader" and win: "word_window reader 64 = Some window" and r: "r < 64"
    and q: "trailing_ones window + r < 64"
  defines "q \<equiv> trailing_ones window"
  shows "take_unary (rest_bits reader) = Some (q, drop (q + 1) (rest_bits reader))"
    "r \<le> length (drop (q + 1) (rest_bits reader))"
    "(if r = 0 then 0 else shr_u64 window (q + 1) AND (shl_u64 1 r - 1)) =
       word_of_bits (take r (drop (q + 1) (rest_bits reader)))"
    "reader\<lparr>br_bit_pos := br_bit_pos reader + (q + 1 + r)\<rparr> = seek reader (drop r (drop (q + 1) (rest_bits reader)))"
proof -
  note bits = word_window_bits [OF wf win, simplified]
  have ones: "\<forall>i < q. bit window i" "\<not> bit window q"
    using trailing_ones_props [of window] q by (auto simp: q_def)
  have len: "64 \<le> length (rest_bits reader)" using bits(1) by simp
  have q64: "q + r < 64" using q by (simp add: q_def)
  have "take q (rest_bits reader) = replicate q True"
    using ones bits(2) q64 len by (intro nth_equalityI) auto
  moreover have "drop q (rest_bits reader) = False # drop (q + 1) (rest_bits reader)"
    using Cons_nth_drop_Suc [of q "rest_bits reader"] bits(2) [of q] ones q64 len by auto
  ultimately show "take_unary (rest_bits reader) = Some (q, drop (q + 1) (rest_bits reader))"
    by (metis append_take_drop_id take_unary_eq_Some)
  show "r \<le> length (drop (q + 1) (rest_bits reader))"
    using q64 len by (simp del: length_rest_bits)
  show "(if r = 0 then 0 else shr_u64 window (q + 1) AND (shl_u64 1 r - 1)) =
       word_of_bits (take r (drop (q + 1) (rest_bits reader)))"
  proof (cases "r = 0")
    case True
    then show ?thesis by (simp add: word_of_bits_def)
  next
    case False
    then have "q + 1 < 64" using q64 by simp
    with False q64 len bits(2) show ?thesis
      by (intro word_of_bits_eqI)
         (auto simp: shr_u64_def shl_u64_def bit_and_iff bit_low_mask bit_drop_bit_eq simp del: length_rest_bits)
  qed
  show "reader\<lparr>br_bit_pos := br_bit_pos reader + (q + 1 + r)\<rparr> = seek reader (drop r (drop (q + 1) (rest_bits reader)))"
    using seek_drop [OF wf, of "q + 1 + r"] q64 len by (simp add: add.commute del: length_rest_bits)
qed

lemma decode_one_refined:
  assumes wf: "reader_wf reader" and par: "gr_params r w m"
  shows "golomb_rice_decode_one_from reader r w m = gr_refined r w m reader"
proof -
  have r: "r < 64" using par by (simp add: gr_params_def)
  show ?thesis
  proof (cases "\<exists>window. word_window reader 64 = Some window \<and> trailing_ones window + r < 64")
    case False
    with decode_slow_path [OF wf par] r show ?thesis
      by (auto simp: golomb_rice_decode_one_from_def Let_def split: option.splits)
  next
    case True
    then obtain window where win: "word_window reader 64 = Some window"
      and q: "trailing_ones window + r < 64" by blast
    note fast = decode_fast_path [OF wf win r q]
    let ?q = "trailing_ones window" and ?rest = "drop (trailing_ones window + 1) (rest_bits reader)"
    have "length (take r ?rest) = r" using fast(2) by (simp del: length_rest_bits)
    note join = join_quotient [OF r this, of ?q]
    have step: "golomb_rice_decode_one_from reader r w m =
      (if m < ?q then Err InvalidProof else gr_join r w reader ?q ?rest)"
      unfolding golomb_rice_decode_one_from_def Let_def gr_join_def
      using r win q by (simp only: if_True option.simps fast(3) fast(4) join)
    from step fast(1,2) show ?thesis
      by (simp only: gr_refined_join [OF par] option.simps prod.case) auto
  qed
qed


section \<open>The reference decoder of a segment\<close>

fun gr_decode_bits ::
  "nat \<Rightarrow> nat \<Rightarrow> nat \<Rightarrow> (i64 \<Rightarrow> 'a result) \<Rightarrow> nat \<Rightarrow> bool list \<Rightarrow> ('a list \<times> bool list) result" where
  "gr_decode_bits r w m convert 0 bs = Ok ([], bs)"
| "gr_decode_bits r w m convert (Suc count) bs =
     (case gr_dec r w m bs of
        None \<Rightarrow> Err InvalidProof
      | Some (n, rest) \<Rightarrow> try_r (convert n) (\<lambda>x.
          try_r (gr_decode_bits r w m convert count rest) (\<lambda>(xs, rest'). Ok (x # xs, rest'))))"

definition zero_padding :: "bool list \<Rightarrow> bool" where
  "zero_padding bs \<longleftrightarrow> length bs < 8 \<and> True \<notin> set bs"

definition gr_decode_spec ::
  "(nat \<Rightarrow> bool) \<Rightarrow> u8 list \<Rightarrow> nat \<Rightarrow> nat \<Rightarrow> nat \<Rightarrow> nat \<Rightarrow> (i64 \<Rightarrow> 'a result) \<Rightarrow> 'a list result" where
  "gr_decode_spec can_reserve bytes count r w m convert =
     (if \<not> can_reserve count then Err InvalidProof
      else try_r (gr_decode_bits r w m convert count (bits_of bytes)) (\<lambda>(xs, rest).
        if zero_padding rest then Ok xs else Err InvalidProof))"

lemma gr_dec_suffix:
  assumes "gr_dec r w m (rest_bits reader) = Some (n, rest)" "reader_wf reader"
  shows "reader_wf (seek reader rest)" "rest_bits (seek reader rest) = rest"
proof -
  from gr_enc_dec [OF assms(1)] obtain bs where bs: "rest_bits reader = bs @ rest" by blast
  have rest: "rest = drop (length bs) (rest_bits reader)" by (simp add: bs)
  have le: "length bs \<le> length (rest_bits reader)" by (simp add: bs del: length_rest_bits)
  show "reader_wf (seek reader rest)" "rest_bits (seek reader rest) = rest"
    unfolding rest using reader_wf_seek [OF assms(2) le] rest_bits_seek [OF assms(2) le] by simp_all
qed

lemma decode_all_refined:
  assumes "reader_wf reader" "gr_params r w m"
  shows "decode_all reader count r w m convert =
     try_r (gr_decode_bits r w m convert count (rest_bits reader)) (\<lambda>(xs, rest). Ok (xs, seek reader rest))"
  using assms(1)
proof (induction count arbitrary: reader)
  case 0
  then show ?case by (simp add: seek_def reader_wf_def)
next
  case (Suc count)
  show ?case
  proof (cases "gr_dec r w m (rest_bits reader)")
    case None
    with Suc.prems assms show ?thesis by (simp add: decode_one_refined gr_refined_def)
  next
    case (Some p)
    obtain n rest where "p = (n, rest)" by (cases p)
    with Some have dec: "gr_dec r w m (rest_bits reader) = Some (n, rest)" by simp
    note suf = gr_dec_suffix [OF dec Suc.prems]
    have nest: "try_r (try_r y (\<lambda>(xs, rest'). Ok (xs, seek reader rest'))) (\<lambda>(xs, reader''). Ok (x # xs, reader'')) =
        try_r (try_r y (\<lambda>(xs, rest'). Ok (x # xs, rest'))) (\<lambda>(xs, rest'). Ok (xs, seek reader rest'))"
      for x :: 'a and y :: "('a list \<times> bool list) result"
      by (cases y) auto
    show ?thesis
      using dec Suc.IH [OF suf(1)] suf(2) Suc.prems assms
      by (cases "convert n") (simp_all add: decode_one_refined gr_refined_def nest)
  qed
qed

lemma read_zero_padding_eq:
  "reader_wf r \<Longrightarrow> k \<le> length (rest_bits r) \<Longrightarrow>
   read_zero_padding k r =
     (if True \<in> set (take k (rest_bits r)) then Err InvalidProof else Ok (seek r (drop k (rest_bits r))))"
proof (induction k arbitrary: r)
  case 0
  then show ?case by (simp add: seek_def reader_wf_def)
next
  case (Suc k)
  from Suc.prems(2) obtain b rest where bs: "rest_bits r = b # rest"
    by (cases "rest_bits r") (auto simp del: length_rest_bits)
  have rest: "rest = drop 1 (rest_bits r)" by (simp add: bs)
  have one: "1 \<le> length (rest_bits r)" using Suc.prems(2) by linarith
  have suf: "reader_wf (seek r rest)" "rest_bits (seek r rest) = rest"
    unfolding rest using reader_wf_seek [OF Suc.prems(1) one] rest_bits_seek [OF Suc.prems(1) one] by simp_all
  have "k \<le> length rest" using Suc.prems(2) by (simp add: bs del: length_rest_bits)
  with Suc.IH [of "seek r rest"] suf Suc.prems(1) show ?case
    by (simp add: read_bit_eq bs del: length_rest_bits)
qed

lemma padding_count:
  assumes "p + n = 8 * l"
  shows "(8 - p mod 8) mod 8 = n mod (8 :: nat)"
proof -
  have "(8 - p mod 8 + p) mod 8 = 0"
    by (metis add_diff_inverse_nat add.commute less_imp_le_nat linorder_not_less mod_add_right_eq mod_less_divisor
        mod_self zero_less_numeral)
  then have "(8 - p mod 8 + p + n) mod 8 = n mod 8" by (metis add_0 mod_add_left_eq)
  with assms have "(8 - p mod 8 + 8 * l) mod 8 = n mod 8" by (simp only: add.assoc)
  then show ?thesis by (simp only: mod_mult_self2)
qed

lemma consume_padding_eq:
  assumes wf: "reader_wf r"
  shows "is_ok (golomb_rice_consume_canonical_padding r) \<longleftrightarrow> zero_padding (rest_bits r)"
    "golomb_rice_consume_canonical_padding r = Err e \<Longrightarrow> e = InvalidProof"
proof -
  let ?k = "(8 - br_bit_pos r mod 8) mod 8" and ?n = "length (rest_bits r)"
  have k: "?k = ?n mod 8"
  proof -
    show ?thesis by (rule padding_count [of _ _ "length (br_bytes r)"]) (use wf in \<open>simp add: reader_wf_def\<close>)
  qed
  have le: "?k \<le> ?n" unfolding k by simp
  let ?r = "seek r (drop ?k (rest_bits r))"
  have rem: "remaining_bits ?r = ?n - ?k"
    using wf le reader_wf_seek [OF wf le] rest_bits_seek [OF wf le] by (simp add: remaining_bits_eq del: length_rest_bits)
  have eq: "golomb_rice_consume_canonical_padding r =
      (if True \<in> set (take ?k (rest_bits r)) \<or> ?n - ?k > 0 then Err InvalidProof else Ok ?r)"
    unfolding golomb_rice_consume_canonical_padding_def Let_def
    using read_zero_padding_eq [OF wf le] rem by simp
  have "?n - ?k > 0 \<longleftrightarrow> \<not> ?n < 8" unfolding k by presburger
  moreover have "?n < 8 \<Longrightarrow> take ?k (rest_bits r) = rest_bits r" unfolding k by (simp del: length_rest_bits)
  ultimately show "is_ok (golomb_rice_consume_canonical_padding r) \<longleftrightarrow> zero_padding (rest_bits r)"
    unfolding eq zero_padding_def by (auto simp del: length_rest_bits)
  show "golomb_rice_consume_canonical_padding r = Err e \<Longrightarrow> e = InvalidProof"
    unfolding eq by (simp split: if_splits)
qed

text \<open>Successful decoding is decoding of the coordinates followed by conversion of each.\<close>

lemma gr_decode_bits_Ok:
  "gr_decode_bits r w m convert count bs = Ok (xs, rest) \<longleftrightarrow>
     (\<exists>ns. decode_seq (gr_dec r w m) count bs = Some (ns, rest) \<and> collect_results convert ns = Ok xs)"
proof (induction count arbitrary: bs xs)
  case 0
  show ?case by auto
next
  case (Suc count)
  show ?case
  proof (cases "gr_dec r w m bs")
    case (Some p)
    obtain n rest1 where p: "p = (n, rest1)" by (cases p)
    have "gr_decode_bits r w m convert (Suc count) bs = Ok (xs, rest) \<longleftrightarrow>
      (\<exists>x ys. convert n = Ok x \<and> xs = x # ys \<and> gr_decode_bits r w m convert count rest1 = Ok (ys, rest))"
      using Some p by (auto simp: try_r_eq_Inr)
    also have "\<dots> \<longleftrightarrow> (\<exists>ns. decode_seq (gr_dec r w m) count rest1 = Some (ns, rest) \<and>
        collect_results convert (n # ns) = Ok xs)"
      unfolding Suc.IH by (auto simp: try_r_eq_Inr)
    finally show ?thesis using Some p by auto
  qed simp
qed


lemma decode_vec_refined:
  assumes "valid_split split bytes" "8 * length bytes \<le> usize_max" "gr_params r w m"
  shows "golomb_rice_decode_vec can_reserve split bytes count r w m convert =
    gr_decode_spec can_reserve bytes count r w m convert"
proof -
  let ?rd = "bit_reader_new split bytes"
  have wf: "reader_wf ?rd" using assms by (simp add: reader_wf_new)
  note all = decode_all_refined [OF wf assms(3), of count convert]
  show ?thesis
  proof (cases "gr_decode_bits r w m convert count (bits_of bytes)")
    case (Inl e)
    then show ?thesis
      by (simp add: golomb_rice_decode_vec_def gr_decode_spec_def all)
  next
    case (Inr p)
    obtain xs rest where p: "p = (xs, rest)" by (cases p)
    from Inr p obtain ns where "decode_seq (gr_dec r w m) count (bits_of bytes) = Some (ns, rest)"
      by (auto simp: gr_decode_bits_Ok)
    then obtain bs where bs: "rest_bits ?rd = bs @ rest" using gr.encode_decode_seq by fastforce
    then have rest: "rest = drop (length bs) (rest_bits ?rd)" by simp
    have le: "length bs \<le> length (rest_bits ?rd)" by (simp add: bs del: length_rest_bits rest_bits_new)
    have suf: "reader_wf (seek ?rd rest)" "rest_bits (seek ?rd rest) = rest"
      unfolding rest using reader_wf_seek [OF wf le] rest_bits_seek [OF wf le] by simp_all
    show ?thesis
      using consume_padding_eq [OF suf(1)] suf(2) Inr p
      by (cases "golomb_rice_consume_canonical_padding (seek ?rd rest)")
         (auto simp: golomb_rice_decode_vec_def gr_decode_spec_def all)
  qed
qed

section \<open>The writer\<close>

definition writer_content :: "bit_writer \<Rightarrow> bool list" where
  "writer_content w = take (bw_bit_pos w) (bits_of (bw_bytes w))"

definition writer_invar :: "bit_writer \<Rightarrow> bool" where
  "writer_invar w \<longleftrightarrow> length (bw_bytes w) = ceil_div (bw_bit_pos w) 8 \<and>
     zero_padding (drop (bw_bit_pos w) (bits_of (bw_bytes w)))"

text \<open>The bytes of a run of bits, the last byte padded with zeros.\<close>

lemma writer_invar_iff:
  "writer_invar w \<longleftrightarrow> length (bw_bytes w) = ceil_div (bw_bit_pos w) 8 \<and>
     (\<forall>i < 8 * length (bw_bytes w). bw_bit_pos w \<le> i \<longrightarrow> \<not> bits_of (bw_bytes w) ! i)"
proof -
  have pad: "length (drop (bw_bit_pos w) (bits_of (bw_bytes w))) < 8"
    if "length (bw_bytes w) = ceil_div (bw_bit_pos w) 8"
    using that ceil_div_lt [of 8 "bw_bit_pos w"] by (simp add: mult.commute)
  have "True \<in> set (drop p bs) \<longleftrightarrow> (\<exists>i < length bs. p \<le> i \<and> bs ! i)" for p and bs :: "bool list"
  proof
    assume "True \<in> set (drop p bs)"
    then obtain j where "j < length bs - p" "drop p bs ! j" by (auto simp: in_set_conv_nth)
    then show "\<exists>i < length bs. p \<le> i \<and> bs ! i" by (intro exI [of _ "p + j"]) auto
  next
    assume "\<exists>i < length bs. p \<le> i \<and> bs ! i"
    then obtain i where "i < length bs" "p \<le> i" "bs ! i" by blast
    then show "True \<in> set (drop p bs)"
      by (auto simp: in_set_conv_nth intro!: exI [of _ "i - p"])
  qed
  with pad show ?thesis by (auto simp: writer_invar_def zero_padding_def)
qed

lemma nth_bits_of_set_bit:
  assumes "i < length bs" "k < 8" "j < 8 * length bs"
  shows "bits_of (bs[i := (bs ! i) OR push_bit k 1]) ! j \<longleftrightarrow> bits_of bs ! j \<or> j = 8 * i + k"
proof -
  have j: "j = 8 * i + k \<longleftrightarrow> j div 8 = i \<and> j mod 8 = k" using assms(2) by auto
  show ?thesis
  proof (cases "j div 8 = i")
    case True
    have "j mod 8 < 8" by simp
    with True assms j show ?thesis
      by (auto simp: nth_bits_of bit_or_iff bit_exp_iff)
  next
    case False
    with assms j show ?thesis by (simp add: nth_bits_of)
  qed
qed


lemma ceil_div_8_cases:
  "p mod 8 = 0 \<Longrightarrow> ceil_div p 8 = p div 8 \<and> ceil_div (Suc p) 8 = p div 8 + 1"
  "p mod 8 \<noteq> 0 \<Longrightarrow> ceil_div p 8 = p div 8 + 1 \<and> ceil_div (Suc p) 8 = p div 8 + 1"
  by (auto simp: ceil_div_def div_Suc mod_Suc)

lemma write_bit_ok:
  assumes inv: "writer_invar w"
  shows "writer_invar (write_bit w b)" "writer_content (write_bit w b) = writer_content w @ [b]"
    "bw_bit_pos (write_bit w b) = bw_bit_pos w + 1"
proof -
  let ?p = "bw_bit_pos w" and ?k = "bw_bit_pos w mod 8"
  define bytes where
    "bytes = (if ?p div 8 \<ge> length (bw_bytes w) then bw_bytes w @ [0] else bw_bytes w)"
  define bytes' where
    "bytes' = (if b then bytes[?p div 8 := (bytes ! (?p div 8)) OR push_bit ?k 1] else bytes)"
  have w': "write_bit w b = \<lparr>bw_bytes = bytes', bw_bit_pos = ?p + 1\<rparr>"
    by (simp add: write_bit_def Let_def bytes_def bytes'_def)
  have len: "length (bw_bytes w) = ceil_div ?p 8"
    and zero: "\<And>i. i < 8 * length (bw_bytes w) \<Longrightarrow> ?p \<le> i \<Longrightarrow> \<not> bits_of (bw_bytes w) ! i"
    using inv by (auto simp: writer_invar_iff)
  have len': "length bytes = ?p div 8 + 1" "length bytes' = ?p div 8 + 1"
    using ceil_div_8_cases [of ?p] len by (cases "?k = 0"; auto simp: bytes_def bytes'_def)+
  have idx: "?p div 8 < length bytes" by (simp add: len')
  have p: "?p = 8 * (?p div 8) + ?k" "?k < 8" by simp_all
  then have plt: "?p < 8 * length bytes" using len' by linarith
  have old: "bits_of bytes ! i \<longleftrightarrow> i < ?p \<and> bits_of (bw_bytes w) ! i" if "i < 8 * length bytes" for i
  proof (cases "i < 8 * length (bw_bytes w)")
    case True
    then have "bits_of bytes ! i = bits_of (bw_bytes w) ! i" by (auto simp: bytes_def nth_append)
    with zero [OF True] show ?thesis by (cases "i < ?p") auto
  next
    case False
    with that have "bits_of bytes ! i = byte_bits 0 ! (i - 8 * length (bw_bytes w))" "i - 8 * length (bw_bytes w) < 8"
      by (auto simp: bytes_def nth_append split: if_splits)
    moreover have "?p \<le> i" using False len ceil_div_mult_ge [of 8 ?p] by linarith
    ultimately show ?thesis by (simp add: byte_bits_def)
  qed
  have new: "bits_of bytes' ! i \<longleftrightarrow> (i < ?p \<and> bits_of (bw_bytes w) ! i) \<or> (b \<and> i = ?p)"
    if "i < 8 * length bytes" for i
    using old [OF that] nth_bits_of_set_bit [OF idx p(2) that] by (simp add: bytes'_def)
  have ceil: "ceil_div (?p + 1) 8 = ?p div 8 + 1" using ceil_div_8_cases [of ?p] by (cases "?k = 0") auto
  show "writer_invar (write_bit w b)"
    unfolding writer_invar_iff w' using new len' ceil by auto
  have "8 * length (bw_bytes w) \<ge> ?p" using len ceil_div_mult_ge [of 8 ?p] by simp
  then have lenc: "length (writer_content w) = ?p" by (simp add: writer_content_def)
  show "writer_content (write_bit w b) = writer_content w @ [b]"
  proof (rule nth_equalityI)
    show "length (writer_content (write_bit w b)) = length (writer_content w @ [b])"
      using plt len' lenc by (simp add: w' writer_content_def)
    fix i assume "i < length (writer_content (write_bit w b))"
    then have i: "i < ?p + 1" "i < 8 * length bytes" using len' by (auto simp: w' writer_content_def)
    then show "writer_content (write_bit w b) ! i = (writer_content w @ [b]) ! i"
      using new [OF i(2)] lenc by (auto simp: w' writer_content_def nth_append)
  qed
  show "bw_bit_pos (write_bit w b) = bw_bit_pos w + 1" by (simp add: w')
qed

interpretation bw: bit_sink write_bit writer_content writer_invar
  by unfold_locales (auto simp: write_bit_ok)


section \<open>The encoder refines the prefix code\<close>

lemma writer_default_ok [simp]: "writer_invar bit_writer_default" "writer_content bit_writer_default = []"
  by (simp_all add: writer_invar_def writer_content_def bit_writer_default_def ceil_div_def zero_padding_def)

lemma write_bits_ok:
  "writer_invar w \<Longrightarrow> writer_invar (write_bits w val count) \<and>
     writer_content (write_bits w val count) = writer_content w @ map (bit val) [0..<count]"
proof -
  have bit: "drop_bit i val AND 1 = 1 \<longleftrightarrow> bit val i" for i
    by (simp add: and_one_eq bit_iff_odd_drop_bit odd_iff_mod_2_eq_one)
  show "writer_invar w \<Longrightarrow> ?thesis"
    unfolding write_bits_def bit using bw.write_fold [of w "bit val" "[0..<count]"] by simp
qed

lemma encode_one_ok:
  assumes inv: "writer_invar wr" and r: "r < 64" and u: "zigzag_encode n w = Ok u"
  shows "\<exists>wr'. golomb_rice_encode_one_into wr n r w = Ok wr' \<and> writer_invar wr' \<and>
    writer_content wr' = writer_content wr @ gr_code r u"
proof -
  let ?q = "if r = 0 then u else shr_u64 u r"
  let ?rem = "if r = 0 then 0 else u AND (shl_u64 1 r - 1)"
  let ?w2 = "write_bit (((\<lambda>w. write_bit w True) ^^ unat ?q) wr) False"
  have q: "unat ?q = unat u div 2 ^ r"
    using r by (simp add: shr_u64_def unat_drop_bit_eq) (simp add: drop_bit_eq_div)
  have w2: "writer_invar ?w2" "writer_content ?w2 = writer_content wr @ replicate (unat ?q) True @ [False]"
    using bw.write_repeat [OF inv, of "unat ?q" True] by (simp_all add: write_bit_ok)
  have rem: "map (bit ?rem) [0..<r] = map (bit u) [0..<r]"
    using r by (auto simp: shl_u64_def bit_and_iff bit_low_mask)
  have "golomb_rice_encode_one_into wr n r w = Ok (if r = 0 then ?w2 else write_bits ?w2 ?rem r)"
    by (simp only: golomb_rice_encode_one_into_def u try_r_simps Let_def)
  moreover have "writer_invar (write_bits ?w2 ?rem r) \<and>
      writer_content (write_bits ?w2 ?rem r) = writer_content wr @ gr_code r u"
    using write_bits_ok [OF w2(1), of ?rem r] w2(2) rem q by (simp add: gr_code_def del: if_split)
  moreover have "writer_content ?w2 = writer_content wr @ gr_code r u" if "r = 0"
    using w2(2) q that by (simp add: gr_code_def)
  ultimately show ?thesis using w2(1) by (cases "r = 0") auto
qed


lemma encode_all_ok:
  assumes "r < 64"
  shows "writer_invar wr \<Longrightarrow> collect_results (\<lambda>n. zigzag_encode n w) ns = Ok us \<Longrightarrow>
    \<exists>wr'. encode_all wr ns r w = Ok wr' \<and> writer_invar wr' \<and>
      writer_content wr' = writer_content wr @ concat (map (gr_code r) us)"
proof (induction ns arbitrary: wr us)
  case Nil
  then show ?case by simp
next
  case (Cons n ns)
  from Cons.prems(2) obtain u us' where u: "zigzag_encode n w = Ok u"
    and us': "collect_results (\<lambda>n. zigzag_encode n w) ns = Ok us'" and us: "us = u # us'"
    by (auto simp: try_r_eq_Inr)
  from encode_one_ok [OF Cons.prems(1) assms u] obtain w1
    where "golomb_rice_encode_one_into wr n r w = Ok w1" "writer_invar w1"
      "writer_content w1 = writer_content wr @ gr_code r u" by blast
  with Cons.IH [OF _ us', of w1] us show ?case by auto
qed

lemma encode_all_error:
  assumes "collect_results (\<lambda>n. zigzag_encode n w) ns = Inl e"
  shows "encode_all wr ns r w = Inl e"
  using assms
proof (induction ns arbitrary: wr)
  case (Cons n ns)
  then show ?case
    by (cases "zigzag_encode n w"; cases "collect_results (\<lambda>n. zigzag_encode n w) ns")
       (simp_all add: golomb_rice_encode_one_into_def Let_def)
qed simp

text \<open>The encoded bytes are the codes of the zigzagged coordinates followed by less than a byte of zeros.\<close>

lemma encode_vec_ok:
  assumes "r < 64" "collect_results (\<lambda>n. zigzag_encode n w) ns = Ok us"
  shows "\<exists>bytes pad. golomb_rice_encode_vec ns r w = Ok bytes \<and> zero_padding pad \<and>
    bits_of bytes = concat (map (gr_code r) us) @ pad"
proof -
  from encode_all_ok [OF assms(1) writer_default_ok(1) assms(2)] obtain wr
    where wr: "encode_all bit_writer_default ns r w = Ok wr" "writer_invar wr"
      "writer_content wr = concat (map (gr_code r) us)" by auto
  then show ?thesis
    unfolding golomb_rice_encode_vec_def finish_def writer_content_def writer_invar_def
    by (metis append_take_drop_id try_r_simps(2))
qed

lemma encode_vec_OkD:
  assumes "r < 64" "golomb_rice_encode_vec ns r w = Ok bytes"
  obtains us pad where "collect_results (\<lambda>n. zigzag_encode n w) ns = Ok us" "zero_padding pad"
    "bits_of bytes = concat (map (gr_code r) us) @ pad"
proof (cases "collect_results (\<lambda>n. zigzag_encode n w) ns")
  case (Inl e)
  then show ?thesis using assms encode_all_error [OF Inl] by (simp add: golomb_rice_encode_vec_def)
next
  case (Inr us)
  from encode_vec_ok [OF assms(1) Inr] assms(2) that [OF Inr] show ?thesis by auto
qed

text \<open>The codes of a vector, seen as the sequence encoding of the prefix code.\<close>

lemma encode_seq_gr_enc:
  "gr_params r w m \<Longrightarrow>
   encode_seq (gr_enc r w m) ns = Some bs \<longleftrightarrow>
     (\<exists>us. collect_results (\<lambda>n. zigzag_encode n w) ns = Ok us \<and> (\<forall>u \<in> set us. unat u div 2 ^ r \<le> m) \<and>
       bs = concat (map (gr_code r) us))"
proof (induction ns arbitrary: bs)
  case Nil
  then show ?case by auto
next
  case (Cons n ns)
  have "encode_seq (gr_enc r w m) (n # ns) = Some bs \<longleftrightarrow>
     (\<exists>u cs. zigzag_encode n w = Ok u \<and> unat u div 2 ^ r \<le> m \<and>
        encode_seq (gr_enc r w m) ns = Some cs \<and> bs = gr_code r u @ cs)"
    using Cons.prems by (auto simp: gr_enc_def split: option.splits sum.splits if_splits)
  also have "\<dots> \<longleftrightarrow> (\<exists>us. collect_results (\<lambda>n. zigzag_encode n w) (n # ns) = Ok us \<and>
      (\<forall>u \<in> set us. unat u div 2 ^ r \<le> m) \<and> bs = concat (map (gr_code r) us))"
    unfolding Cons.IH [OF Cons.prems] by (auto simp: try_r_eq_Inr)
  finally show ?case .
qed

lemma collect_Ok [simp]: "collect_results Ok ns = Ok ns"
  by (induction ns) auto

lemma unat_shr_u64: "r < 64 \<Longrightarrow> unat (shr_u64 u r) = unat u div 2 ^ r"
  by (simp add: shr_u64_def unat_drop_bit_eq) (simp add: drop_bit_eq_div)

lemma quotient_for_coord_eq:
  "r < 64 \<Longrightarrow> golomb_rice_quotient_for_coord n r w = try_r (zigzag_encode n w) (\<lambda>u. Ok (unat u div 2 ^ r))"
  by (cases "zigzag_encode n w") (auto simp: golomb_rice_quotient_for_coord_def unat_shr_u64)

lemma quotients_bounded_iff:
  assumes "r < 64" "collect_results (\<lambda>n. zigzag_encode n w) ns = Ok us"
  shows "(\<forall>u \<in> set us. unat u div 2 ^ r \<le> m) \<longleftrightarrow>
    (\<forall>n \<in> set ns. \<forall>q. golomb_rice_quotient_for_coord n r w = Ok q \<longrightarrow> q \<le> m)"
  using assms(2)
proof (induction ns arbitrary: us)
  case (Cons n ns)
  then obtain u us' where u: "zigzag_encode n w = Ok u" "us = u # us'"
    "collect_results (\<lambda>n. zigzag_encode n w) ns = Ok us'" by (auto simp: try_r_eq_Inr)
  from Cons.IH [OF u(3)] u(1,2) show ?case by (auto simp: quotient_for_coord_eq [OF assms(1)])
qed simp

lemma all_False_replicate: "True \<notin> set p \<Longrightarrow> p = replicate (length p) False"
  by (induction p) auto

lemma padding_unique:
  assumes "bits_of xs = bs @ p" "bits_of ys = bs @ q" "zero_padding p" "zero_padding q"
  shows "xs = ys"
proof -
  from assms(1,2) have "8 * length xs = length bs + length p" "8 * length ys = length bs + length q"
    by (metis length_append length_bits_of)+
  moreover have "length p < 8" "length q < 8" using assms(3,4) by (auto simp: zero_padding_def)
  ultimately have "length p = length q" by presburger
  moreover have "p = replicate (length p) False" "q = replicate (length q) False"
    using assms(3,4) all_False_replicate by (auto simp: zero_padding_def)
  ultimately show ?thesis using assms(1,2) by (metis bits_of_inj)
qed

text \<open>
  Round trip and canonicality in one statement: a segment decodes to a vector exactly when
  it is the encoding of that vector and every quotient is within the bound.
\<close>

lemma decode_spec_iff_encode:
  assumes par: "gr_params r w m"
  shows "gr_decode_spec can_reserve bytes count r w m Ok = Ok ns \<longleftrightarrow>
    can_reserve count \<and> length ns = count \<and> golomb_rice_encode_vec ns r w = Ok bytes \<and>
    (\<forall>n \<in> set ns. \<forall>q. golomb_rice_quotient_for_coord n r w = Ok q \<longrightarrow> q \<le> m)"
    (is "?dec \<longleftrightarrow> ?enc")
proof -
  have r: "r < 64" using par by (simp add: gr_params_def)
  have dec: "?dec \<longleftrightarrow> can_reserve count \<and>
      (\<exists>rest. decode_seq (gr_dec r w m) count (bits_of bytes) = Some (ns, rest) \<and> zero_padding rest)"
    by (auto simp: gr_decode_spec_def try_r_eq_Inr gr_decode_bits_Ok split: if_splits)
  show ?thesis
  proof
    assume ?dec
    then obtain rest where seq: "decode_seq (gr_dec r w m) count (bits_of bytes) = Some (ns, rest)"
      and pad: "zero_padding rest" and res: "can_reserve count" by (auto simp: dec)
    from gr.encode_decode_seq [OF seq] obtain bs where len: "length ns = count"
      and bs: "encode_seq (gr_enc r w m) ns = Some bs" "bits_of bytes = bs @ rest" by blast
    from bs(1) obtain us where us: "collect_results (\<lambda>n. zigzag_encode n w) ns = Ok us"
      "\<forall>u \<in> set us. unat u div 2 ^ r \<le> m" "bs = concat (map (gr_code r) us)"
      by (auto simp: encode_seq_gr_enc [OF par])
    from encode_vec_ok [OF r us(1)] obtain bytes' pad' where b': "golomb_rice_encode_vec ns r w = Ok bytes'"
      "zero_padding pad'" "bits_of bytes' = bs @ pad'" by (auto simp: us(3))
    have "bytes' = bytes" using padding_unique b'(2,3) bs(2) pad by blast
    then show ?enc using len res b'(1) us(2) quotients_bounded_iff [OF r us(1)] by simp
  next
    assume enc: ?enc
    then obtain us pad where us: "collect_results (\<lambda>n. zigzag_encode n w) ns = Ok us" "zero_padding pad"
      "bits_of bytes = concat (map (gr_code r) us) @ pad"
      using encode_vec_OkD [OF r] by blast
    have "encode_seq (gr_enc r w m) ns = Some (concat (map (gr_code r) us))"
      using enc us(1) quotients_bounded_iff [OF r us(1)] by (auto simp: encode_seq_gr_enc [OF par])
    from gr.decode_encode_seq [OF this, of pad] show ?dec using enc us(2,3) by (auto simp: dec)
  qed
qed


section \<open>The bound derived from a coefficient cap\<close>

lemma values_within_cap_iff: "golomb_rice_values_within_cap ns cap = Ok () \<longleftrightarrow> (\<forall>n \<in> set ns. nat \<bar>sint n\<bar> \<le> cap)"
  by (induction ns cap rule: golomb_rice_values_within_cap.induct) auto

lemma zigzag_width_range: "cap < 2 ^ 62 \<Longrightarrow> 0 < golomb_rice_zigzag_width cap \<and> golomb_rice_zigzag_width cap \<le> 63"
  using bit_length_le [of cap 62] by (auto simp: golomb_rice_zigzag_width_def)

lemma zigzag_within_cap:
  assumes cap: "cap < 2 ^ 62" and n: "nat \<bar>sint n\<bar> \<le> cap"
  shows "\<exists>u. zigzag_encode n (golomb_rice_zigzag_width cap) = Ok u \<and> unat u \<le> 2 * cap"
proof -
  let ?w = "golomb_rice_zigzag_width cap"
  note w = zigzag_width_range [OF cap]
  have ok: "zigzag_ok (sint n) ?w" by (rule zigzag_width_ok [OF n])
  from n have "\<bar>sint n\<bar> \<le> int cap" by linarith
  then have "zigzag_int (sint n) \<le> 2 * int cap" by (auto simp: zigzag_int_def abs_le_iff)
  then have "uint (word_of_int (zigzag_int (sint n)) :: u64) \<le> 2 * int cap"
    using uint_zigzag [OF ok] w by simp
  then have "unat (word_of_int (zigzag_int (sint n)) :: u64) \<le> 2 * cap"
    unfolding unat_eq_nat_uint by linarith
  then show ?thesis using ok w by (simp add: zigzag_encode_eq)
qed

lemma max_quotient_for_cap_eq:
  assumes cap: "cap < 2 ^ 62" and r: "r < 64"
  shows "golomb_rice_max_quotient_for_cap cap r (golomb_rice_zigzag_width cap) = Ok (2 * cap div 2 ^ r)"
    "gr_params r (golomb_rice_zigzag_width cap) (2 * cap div 2 ^ r)"
proof -
  let ?w = "golomb_rice_zigzag_width cap"
  note w = zigzag_width_range [OF cap]
  have sint: "sint (of_nat cap :: i64) = int cap"
    using cap sint_word_of_int_i64 [of "int cap"] by simp
  have ok: "zigzag_ok (sint (of_nat cap :: i64)) ?w" by (rule zigzag_width_ok) (simp add: sint)
  have z: "zigzag_int (int cap) = int (2 * cap)" by (simp add: zigzag_int_def)
  have "2 * cap < 2 ^ 64" using cap by simp
  then have "unat (word_of_int (int (2 * cap)) :: u64) = 2 * cap" by (metis of_int_of_nat_eq unat_of_nat_u64)
  then show "golomb_rice_max_quotient_for_cap cap r ?w = Ok (2 * cap div 2 ^ r)"
    using cap r w ok
    by (simp add: golomb_rice_max_quotient_for_cap_def quotient_for_coord_eq zigzag_encode_eq sint z
             del: of_nat_mult of_int_of_nat_eq)
  have half: "2 * cap \<le> 2 ^ 63" "(2 :: nat) ^ 63 + 2 ^ 63 = 2 ^ 64" using cap by simp_all
  have "2 * cap div 2 ^ r * 2 ^ r \<le> 2 * cap" by simp
  moreover have "(2 :: nat) ^ r \<le> 2 ^ 63" using r by (intro power_increasing) auto
  ultimately have "(2 * cap div 2 ^ r + 1) * 2 ^ r \<le> 2 ^ 64" 
    unfolding add_mult_distrib using half by linarith
  then show "gr_params r ?w (2 * cap div 2 ^ r)" using r w by (simp add: gr_params_def)
qed

lemma encode_within_cap:
  assumes cap: "cap < 2 ^ 62" and r: "r < 64" and ns: "golomb_rice_values_within_cap ns cap = Ok ()"
  defines "w \<equiv> golomb_rice_zigzag_width cap"
  shows "\<exists>bytes. golomb_rice_encode_vec ns r w = Ok bytes"
    "\<forall>n \<in> set ns. \<forall>q. golomb_rice_quotient_for_coord n r w = Ok q \<longrightarrow> q \<le> 2 * cap div 2 ^ r"
proof -
  have each: "\<exists>u. zigzag_encode n w = Ok u \<and> unat u \<le> 2 * cap" if "n \<in> set ns" for n
    using that ns zigzag_within_cap [OF cap] by (simp add: values_within_cap_iff w_def)
  then show "\<forall>n \<in> set ns. \<forall>q. golomb_rice_quotient_for_coord n r w = Ok q \<longrightarrow> q \<le> 2 * cap div 2 ^ r"
    by (fastforce simp: quotient_for_coord_eq [OF r] try_r_eq_Inr intro: div_le_mono)
  have "collect_results (\<lambda>n. zigzag_encode n w) ns = Ok (map (\<lambda>n. projr (zigzag_encode n w)) ns)"
    by (rule collect_results_map) (use each in fastforce)
  from encode_vec_ok [OF r this] show "\<exists>bytes. golomb_rice_encode_vec ns r w = Ok bytes" by blast
qed

section \<open>The predicted length\<close>

lemma coord_wire_bits_eq:
  assumes r: "r < 64" and w: "0 < w" "w \<le> 63" and u: "zigzag_encode n w = Ok u"
  shows "golomb_rice_coord_wire_bits n r w = Ok (length (gr_code r u))"
proof -
  from u have ok: "zigzag_ok (sint n) w" and u': "u = word_of_int (zigzag_int (sint n))"
    by (auto simp: zigzag_encode_eq [OF w] split: if_splits)
  have "(2 :: int) ^ w \<le> 2 ^ 63" using w by (intro power_increasing) auto
  then have "uint u < 2 ^ 63" using zigzag_int_bounds [OF ok w(1)] uint_zigzag [OF ok w] u' by simp
  then have "unat u < 2 ^ 63"
    by (simp only: unat_eq_nat_uint nat_less_iff [OF uint_ge_0] of_nat_power of_nat_numeral)
  then have "unat u div 2 ^ r < 2 ^ 63" by (rule order_le_less_trans [OF div_le_dividend])
  then have "unat u div 2 ^ r + 1 + r \<le> usize_max" using r by (simp add: usize_max_def)
  then have "saturating_add (unat u div 2 ^ r + 1) r = unat u div 2 ^ r + 1 + r"
    unfolding saturating_add_def by (rule min_absorb2)
  then show ?thesis
    by (simp add: golomb_rice_coord_wire_bits_def quotient_for_coord_eq [OF r] u gr_code_def)
qed

lemma total_wire_bits_from_eq:
  assumes r: "r < 64" and w: "0 < w" "w \<le> 63"
  shows "total_wire_bits_from acc ns r w = Ok t \<Longrightarrow>
    \<exists>us. collect_results (\<lambda>n. zigzag_encode n w) ns = Ok us \<and> t = acc + length (concat (map (gr_code r) us))"
proof (induction ns arbitrary: acc)
  case (Cons n ns)
  from Cons.prems obtain u where u: "zigzag_encode n w = Ok u"
    by (auto simp: try_r_eq_Inr golomb_rice_coord_wire_bits_def golomb_rice_quotient_for_coord_def)
  from Cons.prems have "total_wire_bits_from (length (gr_code r u) + acc) ns r w = Ok t"
    by (auto simp: coord_wire_bits_eq [OF r w u] try_r_eq_Inr)
  from Cons.IH [OF this] u show ?case by auto
qed simp

lemma padded_length:
  assumes "bits_of bytes = bs @ pad" "zero_padding pad"
  shows "length bytes = ceil_div (length bs) 8"
proof -
  have len: "8 * length bytes = length bs + length pad" using arg_cong [OF assms(1), of length] by simp
  have "ceil_div (length bs) 8 \<le> length bytes" using len by (intro ceil_div_least) simp_all
  moreover have "length bs \<le> ceil_div (length bs) 8 * 8" by (rule ceil_div_mult_ge) simp
  ultimately show ?thesis using len assms(2) by (simp add: zero_padding_def)
qed

section \<open>Properties\<close>

text \<open>
  C12.  The segment decoder, with its cached aligned words, its 64-bit window fast path and its
  byte-run unary loop, computes the same result - value or error - as the reference decoder on
  the plain bit list of the segment, wherever the slice happens to be aligned in memory.
\<close>

theorem golomb_rice_decode_refines:
  assumes "valid_split split bytes" "8 * length bytes \<le> usize_max" "gr_params r w m"
  shows "golomb_rice_decode_vec can_reserve split bytes count r w m convert =
    gr_decode_spec can_reserve bytes count r w m convert"
  by (rule decode_vec_refined [OF assms])

theorem golomb_rice_decode_refines_witness:
  "golomb_rice_decode_vec (\<lambda>_. True) (1, 1) (replicate 9 0) 3 2 5 7 Ok =
     gr_decode_spec (\<lambda>_. True) (replicate 9 0) 3 2 5 7 Ok"
  by (rule golomb_rice_decode_refines) (simp_all add: valid_split_def usize_max_def gr_params_def)

text \<open>
  C28.  Round trip: coordinates within a cap below \<open>2^62\<close> encode with the zigzag width of the
  cap, the quotient bound of the cap exists, and under that bound the decoder returns exactly
  the encoded coordinates, for every alignment of the segment.
\<close>

theorem golomb_rice_roundtrip:
  assumes "cap < 2 ^ 62" "r < 64" "golomb_rice_values_within_cap ns cap = Ok ()"
  shows "\<exists>m bytes. golomb_rice_max_quotient_for_cap cap r (golomb_rice_zigzag_width cap) = Ok m \<and>
    golomb_rice_encode_vec ns r (golomb_rice_zigzag_width cap) = Ok bytes \<and>
    (\<forall>split can_reserve. valid_split split bytes \<longrightarrow> 8 * length bytes \<le> usize_max \<longrightarrow> can_reserve (length ns) \<longrightarrow>
       golomb_rice_decode_vec can_reserve split bytes (length ns) r (golomb_rice_zigzag_width cap) m Ok = Ok ns)"
proof -
  let ?w = "golomb_rice_zigzag_width cap" and ?m = "2 * cap div 2 ^ r"
  note par = max_quotient_for_cap_eq [OF assms(1,2)]
  from encode_within_cap [OF assms] obtain bytes where enc: "golomb_rice_encode_vec ns r ?w = Ok bytes"
    and q: "\<forall>n \<in> set ns. \<forall>q. golomb_rice_quotient_for_coord n r ?w = Ok q \<longrightarrow> q \<le> ?m" by blast
  have "golomb_rice_decode_vec can_reserve split bytes (length ns) r ?w ?m Ok = Ok ns"
    if "valid_split split bytes" "8 * length bytes \<le> usize_max" "can_reserve (length ns)" for split can_reserve
    using that enc q
    by (simp add: decode_vec_refined [OF that(1,2) par(2)] decode_spec_iff_encode [OF par(2)])
  with par(1) enc show ?thesis by blast
qed

theorem golomb_rice_roundtrip_witness:
  "\<exists>m bytes. golomb_rice_max_quotient_for_cap 5 1 (golomb_rice_zigzag_width 5) = Ok m \<and>
    golomb_rice_encode_vec [3, -5, 0] 1 (golomb_rice_zigzag_width 5) = Ok bytes \<and>
    (\<forall>split can_reserve. valid_split split bytes \<longrightarrow> 8 * length bytes \<le> usize_max \<longrightarrow> can_reserve (length [3, -5, 0 :: i64]) \<longrightarrow>
       golomb_rice_decode_vec can_reserve split bytes (length [3, -5, 0 :: i64]) 1 (golomb_rice_zigzag_width 5) m Ok
         = Ok [3, -5, 0])"
  by (rule golomb_rice_roundtrip) simp_all

text \<open>
  C29.  Canonicality: a segment that decodes is the one encoding of the decoded coordinates, so
  no two byte strings decode to the same vector, and every decoded quotient is within the bound.
\<close>

theorem golomb_rice_decode_canonical:
  assumes "valid_split split bytes" "8 * length bytes \<le> usize_max" "gr_params r w m"
    and "golomb_rice_decode_vec can_reserve split bytes count r w m Ok = Ok ns"
  shows "length ns = count \<and> golomb_rice_encode_vec ns r w = Ok bytes \<and>
    (\<forall>n \<in> set ns. \<forall>q. golomb_rice_quotient_for_coord n r w = Ok q \<longrightarrow> q \<le> m)"
  using assms(4) by (simp add: decode_vec_refined [OF assms(1-3)] decode_spec_iff_encode [OF assms(3)])

lemma decode_sample: "gr_decode_spec (\<lambda>_. True) [2] (Suc (Suc 0)) 1 3 3 Ok = Ok [-1, 0]"
  by (simp add: gr_decode_spec_def gr_dec_def gr_params_def byte_bits_def upt_rec zigzag_decode_def
      zero_padding_def)

theorem golomb_rice_decode_canonical_witness:
  "length [-1, 0 :: i64] = Suc (Suc 0) \<and> golomb_rice_encode_vec [-1, 0] 1 3 = Ok [2]"
proof -
  have split: "valid_split (0, 0) [2]" and len: "8 * length [2 :: u8] \<le> usize_max" and par: "gr_params 1 3 3"
    by (simp_all add: valid_split_def usize_max_def gr_params_def)
  have "golomb_rice_decode_vec (\<lambda>_. True) (0, 0) [2] (Suc (Suc 0)) 1 3 3 Ok = Ok [-1, 0]"
    unfolding decode_vec_refined [OF split len par] by (rule decode_sample)
  from golomb_rice_decode_canonical [OF split len par this] show ?thesis by blast
qed

text \<open>
  The planner's prediction is exact: when the total wire bits of a vector is \<open>t\<close>, encoding
  it succeeds and produces \<open>\<lceil>t / 8\<rceil>\<close> bytes.
\<close>

lemma golomb_rice_encoded_length:
  assumes "r < 64" "0 < w" "w \<le> 63" "golomb_rice_total_wire_bits ns r w = Ok t"
  shows "\<exists>bytes. golomb_rice_encode_vec ns r w = Ok bytes \<and> length bytes = ceil_div t 8"
proof -
  from total_wire_bits_from_eq [OF assms(1-3) assms(4) [unfolded golomb_rice_total_wire_bits_def]] obtain us
    where us: "collect_results (\<lambda>n. zigzag_encode n w) ns = Ok us" "t = length (concat (map (gr_code r) us))"
    by auto
  from encode_vec_ok [OF assms(1) us(1)] us(2) show ?thesis by (auto intro: padded_length)
qed

lemma total_wire_bits_sample: "golomb_rice_total_wire_bits [3, -2] 1 4 = Ok 8"
  by (simp add: golomb_rice_total_wire_bits_def golomb_rice_coord_wire_bits_def golomb_rice_quotient_for_coord_def
      zigzag_encode_def shr_u64_def saturating_add_def usize_max_def checked_add_if)

end
