(* ===== verification/Nonce_Codec.thy ===== *)
theory Nonce_Codec
  imports Codec_Interfaces
begin

text \<open>
  Fold-response nonces and protocol site identifiers on the wire
  (\<^verbatim>\<open>crates/akita-transcript/src/proof_stream/nonce.rs\<close>, \<^verbatim>\<open>site.rs\<close> and the site identifier of
  \<^verbatim>\<open>proof_stream.rs\<close>).  A nonce is a canonical unsigned LEB128 number of at most five bytes;
  a site identifier is eight little-endian words.

  The argument reader is spongefish's: the nonce decoder takes its operation
  \<^verbatim>\<open>take_array::<1>\<close> as an argument, and the laws rely on what that operation promises, that
  it hands out the remaining bytes in order and fails at their end (\<open>byte_source\<close>).
\<close>

unbundle bit_operations_syntax

section \<open>Nonces\<close>

definition nonce_max_bytes :: "nat \<Rightarrow> nat" where
  "nonce_max_bytes nonce_bits = (if nonce_bits = 0 then 0 else ceil_div nonce_bits 7)"

fun wire_loop :: "nat \<Rightarrow> u32 \<Rightarrow> u8 list" where
  "wire_loop 0 v = []"
| "wire_loop (Suc slots) v =
     (let byte = ucast (v AND 0x7f) :: u8;
          v' = drop_bit 7 v;
          byte' = (if v' \<noteq> 0 then byte OR 0x80 else byte)
      in byte' # (if v' = 0 then [] else wire_loop slots v'))"

definition wire :: "u32 \<Rightarrow> u8 list" where
  "wire v = wire_loop (nonce_max_bytes 32) v"

fun le_bytes :: "nat \<Rightarrow> ('a::len) word \<Rightarrow> u8 list" where
  "le_bytes 0 w = []"
| "le_bytes (Suc n) w = ucast w # le_bytes n (drop_bit 8 w)"

definition nonce_word :: "u32 \<Rightarrow> u8 list" where
  "nonce_word v = le_bytes 8 (ucast v :: u64)"

fun from_narg_loop :: "('r \<Rightarrow> (u8 \<times> 'r) option) \<Rightarrow> nat list \<Rightarrow> u32 \<Rightarrow> 'r \<Rightarrow> (u32 \<times> 'r) option" where
  "from_narg_loop take_byte [] acc reader = None"
| "from_narg_loop take_byte (index # rest) acc reader =
     (case take_byte reader of
        None \<Rightarrow> None
      | Some (byte, reader') \<Rightarrow>
          let payload = byte AND 0x7f
          in if index = 4 \<and> payload > 0x0f then None
             else let acc' = acc OR push_bit (index * 7) (ucast payload)
                  in if byte AND 0x80 = 0 then
                       if index \<noteq> 0 \<and> payload = 0 then None else Some (acc', reader')
                     else from_narg_loop take_byte rest acc' reader')"

definition from_narg :: "('r \<Rightarrow> (u8 \<times> 'r) option) \<Rightarrow> 'r \<Rightarrow> (u32 \<times> 'r) option" where
  "from_narg take_byte reader = from_narg_loop take_byte [0..<nonce_max_bytes 32] 0 reader"

definition nonce_encoded_len :: "u32 \<Rightarrow> nat" where
  "nonce_encoded_len v =
     (let significant_bits = bit_length (unat v);
          encoded_bits = (if significant_bits = 0 then 1 else significant_bits)
      in ceil_div encoded_bits 7)"

section \<open>Site identifiers\<close>

record protocol_site_id =
  family :: u32
  invocation :: u32
  level :: u32
  stage :: u32
  round :: u32
  group :: u32
  limb :: u32
  detail :: u32

definition site_words :: "protocol_site_id \<Rightarrow> u32 list" where
  "site_words s = [family s, invocation s, level s, stage s, round s, group s, limb s, detail s]"

definition to_bytes :: "protocol_site_id \<Rightarrow> u8 list" where
  "to_bytes s = map (\<lambda>index. le_bytes 4 (site_words s ! (index div 4)) ! (index mod 4)) [0..<32]"

fun from_le_bytes :: "u8 list \<Rightarrow> u32" where
  "from_le_bytes [] = 0"
| "from_le_bytes (b # bs) = ucast b OR push_bit 8 (from_le_bytes bs)"

definition from_bytes :: "u8 list \<Rightarrow> protocol_site_id" where
  "from_bytes e =
     \<lparr>family = from_le_bytes [e ! 0, e ! 1, e ! 2, e ! 3],
      invocation = from_le_bytes [e ! 4, e ! 5, e ! 6, e ! 7],
      level = from_le_bytes [e ! 8, e ! 9, e ! 10, e ! 11],
      stage = from_le_bytes [e ! 12, e ! 13, e ! 14, e ! 15],
      round = from_le_bytes [e ! 16, e ! 17, e ! 18, e ! 19],
      group = from_le_bytes [e ! 20, e ! 21, e ! 22, e ! 23],
      limb = from_le_bytes [e ! 24, e ! 25, e ! 26, e ! 27],
      detail = from_le_bytes [e ! 28, e ! 29, e ! 30, e ! 31]\<rparr>"

section \<open>LEB128 groups\<close>

text \<open>What the argument reader promises: it yields the bytes that remain, one at a time.\<close>

definition byte_source :: "('r \<Rightarrow> (u8 \<times> 'r) option) \<Rightarrow> ('r \<Rightarrow> u8 list) \<Rightarrow> bool" where
  "byte_source take_byte content \<longleftrightarrow>
     (\<forall>r. (content r = [] \<longrightarrow> take_byte r = None) \<and>
          (\<forall>b bs. content r = b # bs \<longrightarrow> (\<exists>r'. take_byte r = Some (b, r') \<and> content r' = bs)))"

fun uncons :: "u8 list \<Rightarrow> (u8 \<times> u8 list) option" where
  "uncons [] = None"
| "uncons (b # bs) = Some (b, bs)"

lemma byte_source_uncons: "byte_source uncons id"
  by (simp add: byte_source_def)

text \<open>On any reader the decoder does what it does on the list of remaining bytes.\<close>

lemma from_narg_loop_source:
  assumes src: "byte_source take_byte content"
  shows "map_option (map_prod id content) (from_narg_loop take_byte is acc r) =
    from_narg_loop uncons is acc (content r)"
proof (induction "is" arbitrary: acc r)
  case (Cons i "is")
  show ?case
  proof (cases "content r")
    case Nil
    with src have "take_byte r = None" by (simp add: byte_source_def)
    with Nil show ?thesis by simp
  next
    case (Cons b bs)
    with src obtain r' where r': "take_byte r = Some (b, r')" "content r' = bs"
      unfolding byte_source_def by blast
    with Cons Cons.IH [of _ r'] show ?thesis by (simp add: Let_def)
  qed
qed simp

definition high_clear :: "nat \<Rightarrow> u32 \<Rightarrow> bool" where
  "high_clear k v \<longleftrightarrow> (\<forall>j. k \<le> j \<longrightarrow> \<not> bit v j)"

lemma mask7: "(0x7f :: 'a::len word) = mask 7"
  by (simp add: mask_eq_exp_minus_1)

lemma bit_flag:
  "bit (0x80 :: u8) n \<longleftrightarrow> n = 7" "bit (0x80 :: nat) n \<longleftrightarrow> n = 7" "bit (0x80 :: int) n \<longleftrightarrow> n = 7"
proof -
  have eq: "(0x80 :: u8) = 2 ^ 7" "(0x80 :: nat) = 2 ^ 7" "(0x80 :: int) = 2 ^ 7" by simp_all
  show "bit (0x80 :: u8) n \<longleftrightarrow> n = 7" "bit (0x80 :: nat) n \<longleftrightarrow> n = 7" "bit (0x80 :: int) n \<longleftrightarrow> n = 7"
    unfolding eq by (simp_all only: bit_exp_iff possible_bit_word possible_bit_nat possible_bit_int) auto
qed

lemma group_split: "(v :: u32) = ucast (ucast (v AND 0x7f) :: u8) OR push_bit 7 (drop_bit 7 v)"
proof (rule bit_word_eqI)
  fix n assume "n < LENGTH(32)"
  then show "bit v n \<longleftrightarrow> bit (ucast (ucast (v AND 0x7f) :: u8) OR push_bit 7 (drop_bit 7 v)) n"
    by (cases "n < 7") (auto simp: mask7 bit_simps)
qed

lemma push_group:
  "push_bit k (v :: u32) = push_bit k (ucast (ucast (v AND 0x7f) :: u8)) OR push_bit (k + 7) (drop_bit 7 v)"
  by (subst group_split) (simp add: push_bit_or add.commute)

lemma payload_of_group:
  fixes v :: u32
  defines "g \<equiv> ucast (v AND 0x7f) :: u8"
  shows "g AND 0x7f = g" "(g OR 0x80) AND 0x7f = g" "g AND 0x80 = 0" "(g OR 0x80) AND 0x80 \<noteq> 0"
proof -
  show "g AND 0x7f = g" "(g OR 0x80) AND 0x7f = g" "g AND 0x80 = 0"
    by (rule bit_word_eqI; auto simp: g_def mask7 bit_simps bit_flag)+
  have "(g OR 0x80) AND 0x80 = 0x80"
    by (rule bit_word_eqI) (auto simp: bit_simps bit_flag)
  then show "(g OR 0x80) AND 0x80 \<noteq> 0" by simp
qed

text \<open>A byte is its low seven bits and the continuation flag.\<close>

lemma byte_of_payload:
  fixes b :: u8
  shows "b AND 0x80 = 0 \<Longrightarrow> b = b AND 0x7f" "b AND 0x80 \<noteq> 0 \<Longrightarrow> b = (b AND 0x7f) OR 0x80"
proof -
  have bits: "b AND 0x80 = 0 \<longleftrightarrow> \<not> bit b 7"
  proof
    assume "b AND 0x80 = 0"
    from arg_cong [OF this, of "\<lambda>w. bit w 7"] show "\<not> bit b 7" by (simp add: bit_and_iff bit_flag)
  next
    assume "\<not> bit b 7"
    then show "b AND 0x80 = 0" by (intro bit_word_eqI) (auto simp: bit_and_iff bit_flag)
  qed
  have cut: "n < 8 \<Longrightarrow> n \<noteq> 7 \<Longrightarrow> n < 7" for n :: nat by simp
  show "b AND 0x80 = 0 \<Longrightarrow> b = b AND 0x7f"
    unfolding bits by (rule bit_word_eqI) (auto simp: mask7 bit_simps dest: cut)
  show "b AND 0x80 \<noteq> 0 \<Longrightarrow> b = (b AND 0x7f) OR 0x80"
    unfolding bits by (rule bit_word_eqI) (auto simp: mask7 bit_simps bit_flag dest: cut)
qed

lemma join_group:
  fixes v :: u32 and p :: u8
  assumes p: "p AND 0x7f = p" and v: "high_clear 25 v"
  defines "u \<equiv> ucast p OR push_bit 7 v"
  shows "ucast (u AND 0x7f) = p" "drop_bit 7 u = v"
proof -
  have low: "\<not> bit p n" if "7 \<le> n" for n
    using arg_cong [OF p, of "\<lambda>w. bit w n"] that by (auto simp: mask7 bit_simps)
  show "ucast (u AND 0x7f) = p"
  proof (rule bit_word_eqI)
    fix n assume "n < LENGTH(8)"
    then show "bit (ucast (u AND 0x7f) :: u8) n \<longleftrightarrow> bit p n"
      using low [of n] by (cases "n < 7") (auto simp: u_def mask7 bit_simps)
  qed
  show "drop_bit 7 u = v"
  proof (rule bit_word_eqI)
    fix n assume "n < LENGTH(32)"
    then show "bit (drop_bit 7 u) n \<longleftrightarrow> bit v n"
      using low [of "7 + n"] v by (auto simp: u_def bit_simps high_clear_def not_le)
  qed
qed

lemma small_group:
  fixes v :: u32
  shows "high_clear 4 v \<Longrightarrow> \<not> (ucast (v AND 0x7f) :: u8) > 0x0f"
    "high_clear 7 v \<Longrightarrow> drop_bit 7 v = 0"
    "high_clear (k + 7) v \<Longrightarrow> high_clear k (drop_bit 7 v)"
proof -
  show "high_clear 7 v \<Longrightarrow> drop_bit 7 v = 0" "high_clear (k + 7) v \<Longrightarrow> high_clear k (drop_bit 7 v)"
    by (auto simp: high_clear_def bit_eq_iff bit_simps)
  assume hc: "high_clear 4 v"
  then have "(ucast (v AND 0x7f) :: u8) = take_bit 4 (ucast (v AND 0x7f))"
    by (intro bit_word_eqI) (auto simp: high_clear_def bit_simps mask7 not_le)
  then have "(ucast (v AND 0x7f) :: u8) = (ucast (v AND 0x7f)) AND mask 4" by (simp only: take_bit_eq_mask)
  then have "(ucast (v AND 0x7f) :: u8) \<le> mask 4" by (metis word_and_le1)
  then show "\<not> (ucast (v AND 0x7f) :: u8) > 0x0f" by (simp add: mask_eq_exp_minus_1 not_less)
qed


section \<open>The nonce code is a prefix code\<close>

text \<open>The bits a nonce may still have when group \<open>i\<close> of five is reached.\<close>

definition groups_left :: "nat \<Rightarrow> u32 \<Rightarrow> bool" where
  "groups_left i v \<longleftrightarrow> high_clear (32 - 7 * i) v \<and> (i \<noteq> 0 \<longrightarrow> v \<noteq> 0)"

lemma groups_left_next:
  assumes "groups_left i v" "drop_bit 7 v \<noteq> 0" "i < 5"
  shows "i < 4" "groups_left (Suc i) (drop_bit 7 v)"
proof -
  show i: "i < 4"
  proof (rule ccontr)
    assume "\<not> i < 4"
    with assms(3) have "i = 4" by simp
    with assms(1) have "high_clear 4 v" by (simp add: groups_left_def)
    then have "high_clear 7 v" by (simp add: high_clear_def)
    with assms(2) show False by (simp add: small_group(2))
  qed
  then have eq: "32 - 7 * i = (32 - 7 * Suc i) + 7" by simp
  have "high_clear (32 - 7 * i) v" using assms(1) by (simp only: groups_left_def)
  then have "high_clear (32 - 7 * Suc i) (drop_bit 7 v)" unfolding eq by (rule small_group(3))
  with assms(2) show "groups_left (Suc i) (drop_bit 7 v)" unfolding groups_left_def by blast
qed

lemma upt_head: "i < 5 \<Longrightarrow> [i..<5] = i # [Suc i..<5]"
  by (simp add: upt_conv_Cons)

lemma narg_wire:
  "i < 5 \<Longrightarrow> groups_left i v \<Longrightarrow>
   from_narg_loop uncons [i..<5] acc (wire_loop (5 - i) v @ rest) = Some (acc OR push_bit (i * 7) v, rest)"
proof (induction "5 - i" arbitrary: i v acc)
  case (Suc n)
  let ?g = "ucast (v AND 0x7f) :: u8" and ?v = "drop_bit 7 v"
  from Suc.hyps(2) have slots: "5 - i = Suc (5 - Suc i)" by simp
  have small: "\<not> (i = 4 \<and> ?g > 0x0f)" using Suc.prems(2) small_group(1) by (auto simp: groups_left_def)
  have split: "push_bit (i * 7) v = push_bit (i * 7) (ucast ?g) OR push_bit (Suc i * 7) ?v"
    using push_group [of "i * 7" v] by (simp add: add.commute)
  show ?case
  proof (cases "?v = 0")
    case True
    then have "v = ucast ?g" using group_split [of v] by simp
    then have "i = 0 \<or> ?g \<noteq> 0" using Suc.prems(2) by (metis groups_left_def unsigned_0)
    with True small split payload_of_group [of v] Suc.prems(1) show ?thesis
      by (simp add: slots upt_head Let_def)
  next
    case False
    note nxt = groups_left_next [OF Suc.prems(2) False Suc.prems(1)]
    from Suc.hyps(1) [of "Suc i" ?v] Suc.hyps(2) nxt
    have "from_narg_loop uncons [Suc i..<5] a (wire_loop (5 - Suc i) ?v @ rest) =
        Some (a OR push_bit (Suc i * 7) ?v, rest)" for a by simp
    with False small split payload_of_group [of v] Suc.prems(1) show ?thesis
      by (simp add: slots upt_head Let_def or.assoc)
  qed
qed simp

lemma payload_left:
  assumes p: "p AND 0x7f = (p :: u8)" and guard: "\<not> (i = 4 \<and> p > 0x0f)" and i: "i < 5"
  shows "high_clear (32 - 7 * i) (ucast p)"
proof (cases "i = 4")
  case True
  with guard have "p \<le> 0x0f" by simp
  then have "unat p < 2 ^ 4" by (simp add: word_le_nat_alt)
  then have "take_bit 4 (unat p) = unat p" by (simp add: take_bit_nat_eq_self_iff)
  then have "take_bit 4 p = p" by (metis unsigned_take_bit_eq unsigned_word_eqI)
  then have "\<not> bit p n" if "4 \<le> n" for n using that by (metis bit_take_bit_iff linorder_not_less)
  with True show ?thesis by (auto simp: high_clear_def bit_simps)
next
  case False
  with i have "7 \<le> 32 - 7 * i" by simp
  moreover have "\<not> bit p n" if "7 \<le> n" for n
    using arg_cong [OF p, of "\<lambda>w. bit w n"] that by (auto simp: mask7 bit_simps)
  ultimately show ?thesis by (auto simp: high_clear_def bit_simps)
qed

lemma wire_narg:
  "i < 5 \<Longrightarrow> from_narg_loop uncons [i..<5] acc cs = Some (x, rest) \<Longrightarrow>
   \<exists>v. groups_left i v \<and> cs = wire_loop (5 - i) v @ rest \<and> x = acc OR push_bit (i * 7) v"
proof (induction "5 - i" arbitrary: i acc cs)
  case (Suc n)
  from Suc.hyps(2) have slots: "5 - i = Suc (5 - Suc i)" by simp
  from Suc.prems(2) obtain b bs where cs: "cs = b # bs"
    by (cases cs) (simp_all add: upt_head [OF Suc.prems(1)])
  define p where "p = b AND 0x7f"
  have pp: "p AND 0x7f = p" by (simp add: p_def and.assoc)
  from Suc.prems(2) have guard: "\<not> (i = 4 \<and> p > 0x0f)"
    by (auto simp: upt_head [OF Suc.prems(1)] cs p_def Let_def)
  show ?case
  proof (cases "b AND 0x80 = 0")
    case True
    let ?v = "ucast p :: u32"
    from Suc.prems(2) True have *: "i \<noteq> 0 \<longrightarrow> p \<noteq> 0" "x = acc OR push_bit (i * 7) ?v" "rest = bs"
      by (auto simp: upt_head [OF Suc.prems(1)] cs p_def Let_def split: if_splits)
    have b: "b = p" using byte_of_payload(1) [OF True] by (simp add: p_def)
    have j: "ucast (?v AND 0x7f) = p" "drop_bit 7 ?v = 0"
      using join_group [OF pp, of 0] by (simp_all add: high_clear_def)
    have "groups_left i ?v" using payload_left [OF pp guard Suc.prems(1)] *(1) j(1) by (auto simp: groups_left_def)
    with * b j cs show ?thesis by (intro exI [of _ ?v]) (simp add: slots Let_def)
  next
    case False
    let ?acc = "acc OR push_bit (i * 7) (ucast p)"
    from Suc.prems(2) False guard have rec: "from_narg_loop uncons [Suc i..<5] ?acc bs = Some (x, rest)"
      by (auto simp: upt_head [OF Suc.prems(1)] cs p_def Let_def split: if_splits)
    then have i: "Suc i < 5" by (cases "Suc i < 5") simp_all
    have "n = 5 - Suc i" using Suc.hyps(2) by simp
    from Suc.hyps(1) [OF this i rec] obtain v' where v': "groups_left (Suc i) v'"
      "bs = wire_loop (5 - Suc i) v' @ rest" "x = ?acc OR push_bit (Suc i * 7) v'" by auto
    let ?v = "ucast p OR push_bit 7 v' :: u32"
    have hc: "high_clear (32 - 7 * Suc i) v'" and nz: "v' \<noteq> 0" using v'(1) by (simp_all add: groups_left_def)
    have "high_clear 25 v'" using hc by (simp add: high_clear_def)
    note j = join_group [OF pp this]
    have b: "b = p OR 0x80" using byte_of_payload(2) [OF False] by (simp add: p_def)
    have push: "push_bit (i * 7) ?v = push_bit (i * 7) (ucast p) OR push_bit (Suc i * 7) v'"
      by (simp add: push_bit_or add.commute)
    have "?v \<noteq> 0" using j(2) nz drop_bit_of_0 by metis
    then have "groups_left i ?v"
      using payload_left [OF pp guard Suc.prems(1)] hc i
      by (auto simp: groups_left_def high_clear_def bit_simps)
    with v'(2,3) b j nz cs push show ?thesis by (intro exI [of _ ?v]) (simp add: slots Let_def or.assoc)
  qed
qed simp


lemma nonce_max_bytes_32 [simp]: "nonce_max_bytes 32 = 5"
  by (simp add: nonce_max_bytes_def ceil_div_def)

lemma groups_left_0 [simp]: "groups_left 0 v"
  by (auto simp: groups_left_def high_clear_def dest: bit_imp_le_length)

interpretation nonce: prefix_code "\<lambda>v. Some (wire v)" "from_narg uncons"
proof unfold_locales
  fix v bs rest
  assume "Some (wire v) = Some bs"
  then show "from_narg uncons (bs @ rest) = Some (v, rest)"
    using narg_wire [of 0 v 0 rest] by (simp add: wire_def from_narg_def)
next
  fix cs v rest
  assume "from_narg uncons cs = Some (v, rest)"
  then show "\<exists>bs. Some (wire v) = Some bs \<and> cs = bs @ rest"
    using wire_narg [of 0 0 cs v rest] by (auto simp: wire_def from_narg_def)
qed

lemma ceil_div_7_step: "7 < n \<Longrightarrow> ceil_div n 7 = Suc (ceil_div (n - 7) 7)"
proof -
  assume "7 < n"
  then obtain k where "n = k + 7" by (metis add.commute less_imp_add_positive)
  then show ?thesis by (simp add: ceil_div_def div_add_self2)
qed

lemma length_wire_loop:
  "unat v < 2 ^ (7 * n) \<Longrightarrow> 0 < n \<Longrightarrow> length (wire_loop n v) = nonce_encoded_len v"
proof (induction n v rule: wire_loop.induct)
  case (2 n v)
  let ?s = "bit_length (unat v)"
  have div: "unat (drop_bit 7 v) = unat v div 2 ^ 7" by (simp add: unat_drop_bit_eq) (simp add: drop_bit_eq_div)
  show ?case
  proof (cases "drop_bit 7 v = 0")
    case True
    then have "unat v div 2 ^ 7 = 0" using div by simp
    then have "unat v < 2 ^ 7" by (simp add: div_eq_0_iff)
    then have "?s \<le> 7" by (rule bit_length_le)
    then have "ceil_div (if ?s = 0 then 1 else ?s) 7 = 1"
      by (cases "?s = 7") (auto simp: ceil_div_def simp del: bit_length_0)
    with True show ?thesis by (simp add: nonce_encoded_len_def Let_def)
  next
    case False
    then have pos: "0 < unat v div 2 ^ 7" using div by (metis unat_eq_zero gr0I)
    have s1: "bit_length (unat v div 2 ^ 7) = ?s - 7" by (rule bit_length_div)
    with pos have "?s - 7 \<noteq> 0" by (metis less_not_refl bit_length_0)
    with s1 have s: "bit_length (unat v div 2 ^ 7) = ?s - 7" "?s - 7 \<noteq> 0" by blast+
    from "2.prems" pos have "0 < n" by (cases n) auto
    moreover have "unat (drop_bit 7 v) < 2 ^ (7 * n)"
      using "2.prems" unfolding div by (simp add: power_add less_mult_imp_div_less mult.commute)
    ultimately have "length (wire_loop n (drop_bit 7 v)) = nonce_encoded_len (drop_bit 7 v)"
      using False by (intro "2.IH") simp_all
    then have "length (wire_loop (Suc n) v) = Suc (ceil_div (?s - 7) 7)"
      using False s pos by (simp add: nonce_encoded_len_def Let_def div)
    also have "\<dots> = ceil_div ?s 7" using s(2) by (intro ceil_div_7_step [symmetric]) simp
    finally show ?thesis using s(2) unfolding nonce_encoded_len_def Let_def by (metis diff_0_eq_0)
  qed
qed simp

section \<open>Properties\<close>

text \<open>
  Nonces round trip and are self-delimiting: a sequence of nonces written one after the
  other is read back, on any argument reader, with exactly the bytes that followed them left.
\<close>

lemma nonce_sequence_roundtrip:
  assumes "byte_source take_byte content" "content r = wire v @ rest"
  shows "\<exists>r'. from_narg take_byte r = Some (v, r') \<and> content r' = rest"
proof -
  have "map_option (map_prod id content) (from_narg take_byte r) = Some (v, rest)"
    using from_narg_loop_source [OF assms(1), of "[0..<5]" 0 r] nonce.dec_enc [of v "wire v" rest] assms(2)
    by (simp add: from_narg_def)
  then show ?thesis by auto
qed

text \<open>
  C19.  Nonces are canonical: what the decoder accepts is the wire form of the decoded nonce
  followed by the unread bytes, so overlong and overflowing encodings are rejected.
\<close>

theorem nonce_canonical:
  assumes "byte_source take_byte content" "from_narg take_byte r = Some (v, r')"
  shows "content r = wire v @ content r'"
proof -
  have "from_narg uncons (content r) = Some (v, content r')"
    using from_narg_loop_source [OF assms(1), of "[0..<5]" 0 r] assms(2) by (simp add: from_narg_def)
  from nonce.enc_dec [OF this] show ?thesis by simp
qed

lemma nonce_sample: "from_narg uncons [0x80, 0x01, 0x07] = Some (128, [0x07])"
  by (simp add: from_narg_def upt_rec)

theorem nonce_canonical_witness: "id [0x80, 0x01, 0x07] = wire 128 @ id [0x07]"
  by (rule nonce_canonical [OF byte_source_uncons nonce_sample])

text \<open>The predicted nonce length is the length of the wire form, at most five bytes.\<close>

lemma nonce_encoded_len_correct: "length (wire v) = nonce_encoded_len v \<and> length (wire v) \<le> 5"
proof -
  have "unat v < 2 ^ 32" using unsigned_less [of v] by simp
  then have "unat v < 2 ^ (7 * 5)" by (rule order_less_le_trans) simp
  then have len: "length (wire v) = nonce_encoded_len v" unfolding wire_def by (simp add: length_wire_loop)
  have "length (wire_loop n v) \<le> n" for n
    by (induction n v rule: wire_loop.induct) (auto simp: Let_def)
  from this [of 5] len show ?thesis by (simp add: wire_def)
qed


section \<open>Site identifier round trip\<close>

lemma length_le_bytes [simp]: "length (le_bytes n w) = n"
  by (induction n arbitrary: w) auto

lemma nth_le_bytes: "i < n \<Longrightarrow> le_bytes n w ! i = ucast (drop_bit (8 * i) w)"
  by (induction n arbitrary: w i) (auto simp: nth_Cons' less_Suc_eq_0_disj add.commute)

lemma bit_from_le_bytes:
  "bit (from_le_bytes bs) n \<longleftrightarrow> n < 32 \<and> n < 8 * length bs \<and> bits_of bs ! n"
proof (induction bs arbitrary: n)
  case (Cons b bs)
  show ?case
    by (cases "n < 8")
       (auto simp: bit_or_iff bit_push_bit_iff bit_unsigned_iff Cons.IH nth_append byte_bits_def
             dest: bit_imp_le_length)
qed simp

lemma from_le_bytes_le_bytes: "from_le_bytes (le_bytes 4 w) = w"
proof (rule bit_word_eqI)
  fix n assume "n < LENGTH(32)"
  then have "n div 8 < 4" "n < 32" by auto
  then show "bit (from_le_bytes (le_bytes 4 w)) n \<longleftrightarrow> bit w n"
    by (simp add: bit_from_le_bytes nth_bits_of nth_le_bytes bit_unsigned_iff bit_drop_bit_eq)
qed

lemma le_bytes_from_le_bytes: "length bs = 4 \<Longrightarrow> le_bytes 4 (from_le_bytes bs) = bs"
proof (rule nth_equalityI)
  fix i assume len: "length bs = 4" and "i < length (le_bytes 4 (from_le_bytes bs))"
  then have i: "i < 4" by simp
  show "le_bytes 4 (from_le_bytes bs) ! i = bs ! i"
  proof (rule bit_word_eqI)
    fix n assume "n < LENGTH(8)"
    with i len show "bit (le_bytes 4 (from_le_bytes bs) ! i) n \<longleftrightarrow> bit (bs ! i) n"
      by (simp add: nth_le_bytes bit_unsigned_iff bit_drop_bit_eq bit_from_le_bytes nth_bits_of)
  qed
qed simp

lemma le_bytes_4: "le_bytes 4 w = [le_bytes 4 w ! 0, le_bytes 4 w ! 1, le_bytes 4 w ! 2, le_bytes 4 w ! 3]"
  by (rule nth_equalityI) (auto simp: less_Suc_eq numeral_eq_Suc nth_Cons')

lemma site_words_from_bytes:
  assumes "k < 8"
  shows "site_words (from_bytes e) ! k = from_le_bytes (map (\<lambda>j. e ! (4 * k + j)) [0..<4])"
proof -
  have "k = 0 \<or> k = 1 \<or> k = 2 \<or> k = 3 \<or> k = 4 \<or> k = 5 \<or> k = 6 \<or> k = 7" using assms by presburger
  moreover have "[0..<4] = [0, 1, 2, 3 :: nat]" by (simp add: upt_rec)
  ultimately show ?thesis
    by (elim disjE) (simp_all add: site_words_def from_bytes_def del: from_le_bytes.simps)
qed

text \<open>
  The diagnostic layout of a site identifier is a bijection between identifiers and
  32-byte strings: decoding undoes encoding, and encoding undoes decoding.
\<close>

lemma site_id_roundtrip:
  "length (to_bytes s) = 32 \<and> from_bytes (to_bytes s) = s \<and>
   (length e = 32 \<longrightarrow> to_bytes (from_bytes e) = e)"
proof (intro conjI impI)
  show "length (to_bytes s) = 32" by (simp add: to_bytes_def)
  have word: "from_le_bytes [le_bytes 4 w ! 0, le_bytes 4 w ! 1, le_bytes 4 w ! 2, le_bytes 4 w ! 3] = w" for w
    using from_le_bytes_le_bytes [of w] le_bytes_4 [of w] by simp
  show "from_bytes (to_bytes s) = s"
    using word [simplified] by (cases s) (simp add: from_bytes_def to_bytes_def site_words_def numeral_2_eq_2 [symmetric])
  assume e: "length e = 32"
  show "to_bytes (from_bytes e) = e"
  proof (rule nth_equalityI)
    show "length (to_bytes (from_bytes e)) = length e" by (simp add: to_bytes_def e)
    fix i assume "i < length (to_bytes (from_bytes e))"
    then have i: "i < 32" by (simp add: to_bytes_def)
    then have "i div 4 < 8" by simp
    from site_words_from_bytes [OF this]
    have "le_bytes 4 (site_words (from_bytes e) ! (i div 4)) = map (\<lambda>j. e ! (4 * (i div 4) + j)) [0..<4]"
      by (simp add: le_bytes_from_le_bytes)
    then show "to_bytes (from_bytes e) ! i = e ! i" using i by (simp add: to_bytes_def)
  qed
qed

end
