(* ===== verification/Eq_Polynomial.thy ===== *)
theory Eq_Polynomial
  imports Checked_Arith
begin

text \<open>
  Equality tables and multilinear evaluation (\<^verbatim>\<open>crates/akita-algebra/src/eq_poly.rs\<close> and
  \<^verbatim>\<open>poly.rs\<close>).  Field elements are an arbitrary commutative ring; the tables are buffers
  that the code updates by index.

  What the code takes from its surroundings is the record \<open>eq_env\<close>: the byte size of an
  element (\<^verbatim>\<open>mem::size_of\<close>), whether an allocation succeeds, the call site printed in the
  budget error, the \<^verbatim>\<open>parallel\<close> feature and the number of worker threads.  Parallel loops
  write disjoint entries, so they are maps.
\<close>

record eq_env =
  elem_size :: nat
  can_reserve :: "nat \<Rightarrow> bool"
  call_site :: string
  parallel :: bool
  threads :: nat

section \<open>Sizes and budgets\<close>

definition MAX_MATERIALIZED_EQ_TABLE_BYTES :: nat where
  "MAX_MATERIALIZED_EQ_TABLE_BYTES = 2 ^ 30"

definition split_lagrange_parent :: "'a::comm_ring_1 \<Rightarrow> 'a \<Rightarrow> 'a \<times> 'a" where
  "split_lagrange_parent val coordinate = (let right = val * coordinate; left = val - right in (left, right))"

definition table_len :: "nat \<Rightarrow> nat result" where
  "table_len num_vars = ok_or (pow2 num_vars) (InvalidInput ''eq table dimension overflow'')"

definition check_element_budget :: "eq_env \<Rightarrow> string \<Rightarrow> nat \<Rightarrow> unit result" where
  "check_element_budget env label len =
     (let elem = max (elem_size env) 1
      in try_r (ok_or (checked_mul len elem)
                 (InvalidInput (label @ '' byte-size overflow for '' @ show_nat len @ '' elements''))) (\<lambda>bytes.
           if bytes > MAX_MATERIALIZED_EQ_TABLE_BYTES
           then Err (InvalidInput (label @ '' requires '' @ show_nat bytes @ '' bytes for '' @ show_nat len
                 @ '' elements, exceeding equality-table budget of '' @ show_nat MAX_MATERIALIZED_EQ_TABLE_BYTES
                 @ '' bytes; requested at '' @ call_site env))
           else Ok ()))"

definition materialized_table_len :: "eq_env \<Rightarrow> string \<Rightarrow> nat \<Rightarrow> nat result" where
  "materialized_table_len env label num_vars =
     try_r (table_len num_vars) (\<lambda>len. try_r (check_element_budget env label len) (\<lambda>_. Ok len))"

definition zero_vec :: "eq_env \<Rightarrow> string \<Rightarrow> nat \<Rightarrow> 'a::zero list result" where
  "zero_vec env label len =
     (if can_reserve env len then Ok (replicate len 0)
      else Err (InvalidInput (label @ '' allocation failed for '' @ show_nat len @ '' elements'')))"

section \<open>The equality polynomial\<close>

definition mle :: "'a::comm_ring_1 list \<Rightarrow> 'a list \<Rightarrow> 'a result" where
  "mle x y =
     (if length x \<noteq> length y then Err (InvalidSize (length x) (length y))
      else Ok (foldl (*) 1 (map (\<lambda>(x_i, y_i). x_i * y_i + (1 - x_i) * (1 - y_i)) (zip x y))))"

text \<open>One layer of the recurrence: every parent, from the last, is replaced by its two children.\<close>

definition expand_parent :: "('a \<Rightarrow> 'a) \<Rightarrow> 'a::comm_ring_1 \<Rightarrow> nat \<Rightarrow> 'a list \<Rightarrow> 'a list" where
  "expand_parent map_value coordinate parent evals =
     (let (left, right) = split_lagrange_parent (evals ! parent) coordinate
      in evals[2 * parent := map_value left, 2 * parent + 1 := map_value right])"

definition expand_layer :: "('a \<Rightarrow> 'a) \<Rightarrow> 'a::comm_ring_1 \<Rightarrow> nat \<Rightarrow> 'a list \<Rightarrow> 'a list" where
  "expand_layer map_value coordinate len evals = fold (expand_parent map_value coordinate) (rev [0..<len]) evals"

fun expand_layers :: "'a::comm_ring_1 list \<Rightarrow> nat \<Rightarrow> 'a list \<Rightarrow> nat \<times> 'a list" where
  "expand_layers [] len evals = (len, evals)"
| "expand_layers (coordinate # cs) len evals = expand_layers cs (len * 2) (expand_layer id coordinate len evals)"

definition fill_serial_with_final_map :: "'a list \<Rightarrow> 'a list \<Rightarrow> 'a \<Rightarrow> ('a::comm_ring_1 \<Rightarrow> 'a) \<Rightarrow> 'a list" where
  "fill_serial_with_final_map evals r initial map_value =
     (if r = [] then evals[0 := map_value initial]
      else let (len, evals1) = expand_layers (rev (tl r)) 1 (evals[0 := initial])
           in expand_layer map_value (hd r) len evals1)"

definition evals_serial_with_final_map ::
  "eq_env \<Rightarrow> string \<Rightarrow> 'a::comm_ring_1 list \<Rightarrow> 'a \<Rightarrow> ('a \<Rightarrow> 'a) \<Rightarrow> 'a list result" where
  "evals_serial_with_final_map env label r initial map_value =
     try_r (materialized_table_len env label (length r)) (\<lambda>size.
       try_r (zero_vec env label size) (\<lambda>evals.
         Ok (fill_serial_with_final_map evals r initial map_value)))"

definition evals_serial :: "eq_env \<Rightarrow> 'a::comm_ring_1 list \<Rightarrow> 'a option \<Rightarrow> 'a list result" where
  "evals_serial env r scaling_factor =
     evals_serial_with_final_map env ''eq evaluation table'' r (case scaling_factor of None \<Rightarrow> 1 | Some s \<Rightarrow> s) id"

text \<open>The parallel builder: the live prefix is split into a left half, rewritten, and a right half, filled.\<close>

definition expand_halves :: "'a::comm_ring_1 \<Rightarrow> nat \<Rightarrow> 'a list \<Rightarrow> 'a list" where
  "expand_halves r_i sz evals =
     (let left = take sz evals
      in map (\<lambda>x. fst (split_lagrange_parent x r_i)) left @
         map (\<lambda>x. snd (split_lagrange_parent x r_i)) left @ drop (2 * sz) evals)"

fun expand_halves_all :: "'a::comm_ring_1 list \<Rightarrow> nat \<Rightarrow> 'a list \<Rightarrow> 'a list" where
  "expand_halves_all [] sz evals = evals"
| "expand_halves_all (r_i # rs) sz evals = expand_halves_all rs (sz * 2) (expand_halves r_i sz evals)"

definition evals_parallel :: "eq_env \<Rightarrow> 'a::comm_ring_1 list \<Rightarrow> 'a option \<Rightarrow> 'a list result" where
  "evals_parallel env r scaling_factor =
     try_r (materialized_table_len env ''eq evaluation table'' (length r)) (\<lambda>final_size.
       try_r (zero_vec env ''eq evaluation table'' final_size) (\<lambda>evals.
         Ok (expand_halves_all r 1 (evals[0 := (case scaling_factor of None \<Rightarrow> 1 | Some s \<Rightarrow> s)]))))"

definition evals_with_scaling :: "eq_env \<Rightarrow> 'a::comm_ring_1 list \<Rightarrow> 'a option \<Rightarrow> 'a list result" where
  "evals_with_scaling env r scaling_factor =
     (if parallel env \<and> length r > 16 then evals_parallel env r scaling_factor
      else evals_serial env r scaling_factor)"

definition eq_evals :: "eq_env \<Rightarrow> 'a::comm_ring_1 list \<Rightarrow> 'a list result" where
  "eq_evals env r = evals_with_scaling env r None"

text \<open>\<^verbatim>\<open>usize::ilog2\<close> and the chunks of \<^verbatim>\<open>par_chunks_mut\<close>.\<close>

fun ilog2 :: "nat \<Rightarrow> nat" where
  "ilog2 n = (if n < 2 then 0 else Suc (ilog2 (n div 2)))"

declare ilog2.simps [simp del]

function chunks :: "nat \<Rightarrow> 'a list \<Rightarrow> 'a list list" where
  "chunks k xs = (if k = 0 \<or> xs = [] then [] else take k xs # chunks k (drop k xs))"
  by pat_completeness auto
termination
  by (relation "measure (\<lambda>(k, xs). length xs)") auto

declare chunks.simps [simp del]

definition evals_mapped_parallel_slabs :: "eq_env \<Rightarrow> 'a::comm_ring_1 list \<Rightarrow> ('a \<Rightarrow> 'a) \<Rightarrow> 'a list result" where
  "evals_mapped_parallel_slabs env r map_value =
     try_r (materialized_table_len env ''mapped eq evaluation table'' (length r)) (\<lambda>final_size.
       let target_tasks = max (saturating_mul (threads env) 4) 1;
           target_outer_vars = ilog2 target_tasks;
           outer_vars = min target_outer_vars (length r - 8);
           low_vars = length r - outer_vars;
           slab_len = 2 ^ low_vars
       in try_r (evals_serial env (drop low_vars r) None) (\<lambda>outer.
            try_r (zero_vec env ''mapped eq evaluation table'' final_size) (\<lambda>out.
              Ok (concat (map (\<lambda>(slab, initial). fill_serial_with_final_map slab (take low_vars r) initial map_value)
                    (zip (chunks slab_len out) outer))))))"

definition evals_mapped :: "eq_env \<Rightarrow> 'a::comm_ring_1 list \<Rightarrow> ('a \<Rightarrow> 'a) \<Rightarrow> 'a list result" where
  "evals_mapped env r map_value =
     (if parallel env \<and> threads env > 1 then
        if length r < 14 then evals_serial_with_final_map env ''mapped eq evaluation table'' r 1 map_value
        else if 14 \<le> length r \<and> length r \<le> 16 then evals_mapped_parallel_slabs env r map_value
        else try_r (eq_evals env r) (\<lambda>out. Ok (map map_value out))
      else evals_serial_with_final_map env ''mapped eq evaluation table'' r 1 map_value)"

section \<open>The split table\<close>

record 'a split_eq_evals =
  e_out :: "'a list"
  e_in :: "'a list"

definition split_new :: "eq_env \<Rightarrow> 'a::comm_ring_1 list \<Rightarrow> 'a split_eq_evals result" where
  "split_new env point =
     (let m = length point div 2
      in try_r (eq_evals env (take m point)) (\<lambda>e_in'.
           try_r (eq_evals env (drop m point)) (\<lambda>e_out'. Ok \<lparr>e_out = e_out', e_in = e_in'\<rparr>)))"

definition in_len :: "'a split_eq_evals \<Rightarrow> nat" where
  "in_len s = length (e_in s)"

definition out_len :: "'a split_eq_evals \<Rightarrow> nat" where
  "out_len s = length (e_out s)"

definition split_len :: "'a split_eq_evals \<Rightarrow> nat" where
  "split_len s = length (e_in s) * length (e_out s)"

definition split_is_empty :: "'a split_eq_evals \<Rightarrow> bool" where
  "split_is_empty s \<longleftrightarrow> e_in s = [] \<or> e_out s = []"

definition eval_at :: "'a::comm_ring_1 split_eq_evals \<Rightarrow> nat \<Rightarrow> 'a result" where
  "eval_at s index =
     (if index \<ge> split_len s
      then Err (InvalidInput (''split equality index '' @ show_nat index @ '' is outside table length ''
                @ show_nat (split_len s)))
      else Ok (e_out s ! (index div in_len s) * e_in s ! (index mod in_len s)))"

definition evals_prefix :: "eq_env \<Rightarrow> 'a::comm_ring_1 list \<Rightarrow> nat \<Rightarrow> 'a list result" where
  "evals_prefix env r len =
     try_r (split_new env r) (\<lambda>split.
       if len > split_len split then Err (InvalidSize (split_len split) len)
       else collect_results (eval_at split) [0..<len])"

section \<open>Prefix sums\<close>

definition prefix_step :: "'a::comm_ring_1 list \<Rightarrow> nat \<Rightarrow> nat \<Rightarrow> 'a \<times> 'a \<Rightarrow> 'a \<times> 'a" where
  "prefix_step r len k st =
     (let (below, equal_prefix) = st; (left, right) = split_lagrange_parent equal_prefix (r ! k)
      in if odd (len div 2 ^ k) then (below + left, right) else (below, left))"

definition prefix_sum :: "'a::comm_ring_1 list \<Rightarrow> nat \<Rightarrow> 'a result" where
  "prefix_sum r len =
     try_r (table_len (length r)) (\<lambda>tlen.
       if len > tlen then Err (InvalidSize tlen len)
       else if len = tlen then Ok 1
       else Ok (fst (fold (prefix_step r len) (rev [0..<length r]) (0, 1))))"

section \<open>Cached tables\<close>

fun zero_layers :: "eq_env \<Rightarrow> nat \<Rightarrow> nat \<Rightarrow> 'a::zero list list result" where
  "zero_layers env 0 layer_len = Ok []"
| "zero_layers env (Suc n) layer_len =
     try_r (zero_vec env ''cached eq table layer'' layer_len) (\<lambda>layer.
       try_r (zero_layers env n (saturating_mul layer_len 2)) (\<lambda>layers. Ok (layer # layers)))"

definition cache_entry :: "'a::comm_ring_1 \<Rightarrow> nat \<Rightarrow> nat \<Rightarrow> 'a list list \<Rightarrow> 'a list list" where
  "cache_entry t j i tables =
     (let (left, right) = split_lagrange_parent (tables ! j ! i) t
      in tables[j + 1 := (tables ! (j + 1))[2 * i := left, 2 * i + 1 := right]])"

definition cache_layer :: "'a::comm_ring_1 list \<Rightarrow> nat \<Rightarrow> 'a list list \<Rightarrow> 'a list list" where
  "cache_layer r j tables =
     (let idx = length r - 1 - j; t = r ! idx; prev_len = 2 ^ j
      in fold (cache_entry t j) (rev [0..<prev_len]) tables)"

definition evals_cached_with_scaling :: "eq_env \<Rightarrow> 'a::comm_ring_1 list \<Rightarrow> 'a option \<Rightarrow> 'a list list result" where
  "evals_cached_with_scaling env r scaling_factor =
     try_r (table_len (length r)) (\<lambda>final_len.
       try_r (ok_or (Option.bind (checked_mul final_len 2) (\<lambda>len. checked_sub len 1))
               (InvalidInput ''cached eq table total length overflow'')) (\<lambda>total_len.
         try_r (check_element_budget env ''cached eq tables'' total_len) (\<lambda>_.
           try_r (zero_layers env (length r + 1) 1) (\<lambda>tables.
             let tables1 = tables[0 := (tables ! 0)[0 := (case scaling_factor of None \<Rightarrow> 1 | Some s \<Rightarrow> s)]]
             in Ok (fold (cache_layer r) [0..<length r] tables1)))))"

definition evals_cached :: "eq_env \<Rightarrow> 'a::comm_ring_1 list \<Rightarrow> 'a list list result" where
  "evals_cached env r = evals_cached_with_scaling env r None"

section \<open>Multilinear evaluation and folding\<close>

fun multilinear_eval_ref_rev :: "'a::comm_ring_1 list \<Rightarrow> 'a list \<Rightarrow> 'a" where
  "multilinear_eval_ref_rev evals [] = evals ! 0"
| "multilinear_eval_ref_rev evals (r # rest) =
     (let half = length evals div 2;
          lo = multilinear_eval_ref_rev (take half evals) rest;
          hi = multilinear_eval_ref_rev (drop half evals) rest
      in lo + r * (hi - lo))"

text \<open>\<^verbatim>\<open>split_last\<close> takes the point from its end: the recursion above runs on the reversed point.\<close>

definition multilinear_eval_ref :: "'a::comm_ring_1 list \<Rightarrow> 'a list \<Rightarrow> 'a" where
  "multilinear_eval_ref evals point = multilinear_eval_ref_rev evals (rev point)"

text \<open>\<open>max_seq\<close> is \<^verbatim>\<open>akita_serialization::DEFAULT_MAX_SEQUENCE_LEN\<close>.\<close>

definition checked_shl_one_u32 :: "nat \<Rightarrow> nat option" where
  "checked_shl_one_u32 n = (if n < 64 then Some (2 ^ n) else None)"

definition multilinear_eval :: "eq_env \<Rightarrow> nat \<Rightarrow> 'a::comm_ring_1 list \<Rightarrow> 'a list \<Rightarrow> 'a result" where
  "multilinear_eval env max_seq evs point =
     (if length point > u32_max then Err (InvalidSize 64 (length point))
      else try_r (ok_or (checked_shl_one_u32 (length point)) (InvalidSize usize_max (length evs))) (\<lambda>expected.
        if \<not> is_power_of_two (length evs) then Err (InvalidSize expected (length evs))
        else if length evs \<noteq> expected then Err (InvalidSize expected (length evs))
        else if parallel env \<and> length point > 14 \<and> length evs \<le> max_seq
        then try_r (evals_parallel env point None) (\<lambda>eq_table.
               Ok (foldl (+) 0 (map (\<lambda>(e, eq). e * eq) (zip evs eq_table))))
        else Ok (multilinear_eval_ref evs point)))"

text \<open>
  \<open>fold_one r left right\<close> is \<^verbatim>\<open>Fold::fold_one\<close> of the field library on the context
  precomputed for \<open>r\<close>.
\<close>

definition get_or_zero :: "'a::zero list \<Rightarrow> nat \<Rightarrow> 'a" where
  "get_or_zero xs i = (if i < length xs then xs ! i else 0)"

definition fold_target :: "('a \<Rightarrow> 'a \<Rightarrow> 'a \<Rightarrow> 'a) \<Rightarrow> 'a::zero \<Rightarrow> nat \<Rightarrow> 'a list \<Rightarrow> 'a list" where
  "fold_target fold_one r target evals =
     (let source = 2 * target; left = evals ! source; right = get_or_zero evals (source + 1)
      in evals[target := fold_one r left right])"

definition fold_evals_in_place :: "bool \<Rightarrow> ('a \<Rightarrow> 'a \<Rightarrow> 'a \<Rightarrow> 'a) \<Rightarrow> 'a::zero list \<Rightarrow> 'a \<Rightarrow> 'a list option" where
  "fold_evals_in_place par fold_one evals r =
     (if evals = [] then None
      else let next_len = ceil_div (length evals) 2
           in if par \<and> next_len \<ge> 4096
              then Some (map (\<lambda>target. fold_one r (evals ! (2 * target)) (get_or_zero evals (2 * target + 1))) [0..<next_len])
              else Some (take next_len (fold (fold_target fold_one r) [0..<next_len] evals)))"

fun trim_trailing_zeros_rev :: "'a::zero list \<Rightarrow> 'a list" where
  "trim_trailing_zeros_rev (c # d # cs) = (if c = 0 then trim_trailing_zeros_rev (d # cs) else c # d # cs)"
| "trim_trailing_zeros_rev cs = cs"

definition trim_trailing_zeros :: "'a::zero list \<Rightarrow> 'a list" where
  "trim_trailing_zeros coeffs = rev (trim_trailing_zeros_rev (rev coeffs))"

end
