(* ===== verification/Eq_Polynomial_Correct.thy ===== *)
theory Eq_Polynomial_Correct
  imports Eq_Polynomial
begin

text \<open>
  Correctness of the equality tables: every builder - serial in place, parallel by halves,
  parallel by slabs, split, cached - produces the entries of one reference function \<open>eq_at\<close>,
  and the evaluation and folding routines are the multilinear extension it defines.
\<close>

section \<open>The reference table\<close>

fun eq_at :: "'a::comm_ring_1 list \<Rightarrow> nat \<Rightarrow> 'a" where
  "eq_at [] b = 1"
| "eq_at (c # cs) b = (if odd b then c else 1 - c) * eq_at cs (b div 2)"

definition eq_table :: "'a::comm_ring_1 \<Rightarrow> 'a list \<Rightarrow> 'a list" where
  "eq_table s r = map (\<lambda>b. s * eq_at r b) [0..<2 ^ length r]"

lemma length_eq_table [simp]: "length (eq_table s r) = 2 ^ length r"
  by (simp add: eq_table_def)

lemma nth_eq_table [simp]: "b < 2 ^ length r \<Longrightarrow> eq_table s r ! b = s * eq_at r b"
  by (simp add: eq_table_def)

lemma eq_table_Nil: "eq_table s [] = [s]"
  by (simp add: eq_table_def)

lemma eq_at_append: "eq_at (xs @ ys) b = eq_at xs b * eq_at ys (b div 2 ^ length xs)"
  by (induction xs arbitrary: b) (auto simp: div_mult2_eq mult.assoc)

lemma eq_at_mod: "eq_at xs (b mod 2 ^ length xs) = eq_at xs b"
proof (induction xs arbitrary: b)
  case (Cons c cs)
  have "b mod (2 * 2 ^ length cs) div 2 = b div 2 mod 2 ^ length cs"
    by (simp add: mod_mult2_eq)
  moreover have "odd (b mod (2 * 2 ^ length cs)) \<longleftrightarrow> odd b"
    by (metis dvd_mod_iff dvd_triv_left)
  ultimately show ?case by (simp add: Cons.IH)
qed simp

lemma eq_at_children: "eq_at cs p * (1 - c) = eq_at (c # cs) (2 * p)" "eq_at cs p * c = eq_at (c # cs) (2 * p + 1)"
  by (simp_all add: mult.commute)

text \<open>Entry \<open>b\<close> is the equality polynomial at the point and the bits of \<open>b\<close>.\<close>

lemma mle_bits:
  "mle r (map (\<lambda>k. if odd (b div 2 ^ k) then 1 else 0) [0..<length r]) = Ok (eq_at r b)"
proof -
  have acc: "foldl (*) a xs = a * foldl (*) 1 xs" for a :: 'a and xs
    by (induction xs arbitrary: a) (simp, metis foldl_Cons mult.assoc mult_1)
  have "foldl (*) 1 (map (\<lambda>(x, y). x * y + (1 - x) * (1 - y))
      (zip r (map (\<lambda>k. if odd (b div 2 ^ k) then 1 else 0) [0..<length r]))) = eq_at r b"
  proof (induction r arbitrary: b)
    case (Cons c cs)
    have "map (\<lambda>k. if odd (b div 2 ^ k) then 1 else 0) [0..<length (c # cs)] =
        (if odd b then 1 else 0 :: 'a) # map (\<lambda>k. if odd (b div 2 div 2 ^ k) then 1 else 0) [0..<length cs]"
      by (simp only: list.size map_upt_Suc Nat.add_Suc_right add_0_right) (simp add: div_mult2_eq)
    then show ?case
      using Cons.IH [of "b div 2"] by (simp only: zip_Cons_Cons list.map foldl_Cons) (subst acc, simp)
  qed simp
  then show ?thesis by (simp add: mle_def)
qed

section \<open>The serial builder\<close>

lemma expand_parent_nth:
  assumes "2 * p + 1 < length xs" "j < length xs"
  shows "expand_parent f c p xs ! j =
    (if j = 2 * p then f (xs ! p * (1 - c)) else if j = 2 * p + 1 then f (xs ! p * c) else xs ! j)"
  using assms by (auto simp: expand_parent_def split_lagrange_parent_def Let_def right_diff_distrib nth_list_update)

lemma length_expand [simp]:
  "length (expand_parent f c p xs) = length xs" "length (expand_layer f c n xs) = length xs"
proof -
  show *: "length (expand_parent f c p xs) = length xs" for p xs
    by (simp add: expand_parent_def split: prod.splits)
  have "length (fold (expand_parent f c) ps xs) = length xs" for ps
    by (induction ps arbitrary: xs) (simp_all add: *)
  then show "length (expand_layer f c n xs) = length xs" by (simp add: expand_layer_def)
qed

lemma expand_layer_Suc: "expand_layer f c (Suc n) xs = expand_layer f c n (expand_parent f c n xs)"
  by (simp add: expand_layer_def)

lemma expand_layer_nth:
  "2 * n \<le> length xs \<Longrightarrow> j < length xs \<Longrightarrow>
   expand_layer f c n xs ! j =
     (if j < 2 * n then f (xs ! (j div 2) * (if odd j then c else 1 - c)) else xs ! j)"
proof (induction n arbitrary: xs)
  case 0
  then show ?case by (simp add: expand_layer_def)
next
  case (Suc n)
  let ?xs = "expand_parent f c n xs"
  have p: "2 * n + 1 < length xs" using Suc.prems by simp
  have IH: "expand_layer f c (Suc n) xs ! j =
      (if j < 2 * n then f (?xs ! (j div 2) * (if odd j then c else 1 - c)) else ?xs ! j)"
    using Suc.prems by (simp add: expand_layer_Suc Suc.IH)
  consider "j < 2 * n" | "j = 2 * n" | "j = 2 * n + 1" | "2 * n + 1 < j" by linarith
  then show ?case
  proof cases
    case 1
    then have "j div 2 < n" by linarith
    then have "?xs ! (j div 2) = xs ! (j div 2)"
      using p by (subst expand_parent_nth) auto
    with 1 IH show ?thesis by simp
  qed (use IH p Suc.prems in \<open>auto simp: expand_parent_nth\<close>)
qed

lemma expand_layer_table:
  assumes "2 * n \<le> length xs" "\<And>p. p < n \<Longrightarrow> xs ! p = s * eq_at cs p" "j < 2 * n"
  shows "expand_layer f c n xs ! j = f (s * eq_at (c # cs) j)"
proof -
  have "j div 2 < n" using assms(3) by linarith
  with assms show ?thesis by (simp add: expand_layer_nth mult.assoc mult.left_commute mult.commute)
qed

lemma expand_layers_table:
  "n * 2 ^ length ts \<le> length xs \<Longrightarrow> (\<And>p. p < n \<Longrightarrow> xs ! p = s * eq_at cs p) \<Longrightarrow>
   expand_layers ts n xs = (m, ys) \<Longrightarrow>
   m = n * 2 ^ length ts \<and> length ys = length xs \<and> (\<forall>p < m. ys ! p = s * eq_at (rev ts @ cs) p)"
proof (induction ts arbitrary: n xs cs)
  case (Cons t ts)
  have "1 * 2 \<le> 2 * (2 :: nat) ^ length ts" by simp
  then have "n * 2 \<le> n * (2 * 2 ^ length ts)" by (intro mult_left_mono) simp_all
  moreover have "n * (2 * 2 ^ length ts) \<le> length xs" using Cons.prems(1) by simp
  ultimately have fit: "2 * n \<le> length xs" by linarith
  have "expand_layer id t n xs ! p = s * eq_at (t # cs) p" if "p < n * 2" for p
    using expand_layer_table [OF fit Cons.prems(2), of p id t] that by simp
  with Cons.IH [of "n * 2" "expand_layer id t n xs" "t # cs"] Cons.prems show ?case by (auto simp: mult.assoc)
qed simp

lemma fill_serial_eq:
  assumes "length xs = 2 ^ length r"
  shows "fill_serial_with_final_map xs r s f = map f (eq_table s r)"
proof (cases r)
  case Nil
  with assms obtain x where "xs = [x]" by (cases xs) auto
  with Nil show ?thesis by (simp add: fill_serial_with_final_map_def eq_table_def)
next
  case (Cons c cs)
  obtain m ys where ys: "expand_layers (rev cs) 1 (xs[0 := s]) = (m, ys)" by fastforce
  have "0 < length xs" using assms by simp
  then have "p < 1 \<Longrightarrow> xs[0 := s] ! p = s * eq_at [] p" for p by simp
  from expand_layers_table [OF _ this ys] assms Cons
  have m: "m = 2 ^ length cs" "length ys = 2 ^ length r" "\<And>p. p < m \<Longrightarrow> ys ! p = s * eq_at cs p" by auto
  have fill: "fill_serial_with_final_map xs r s f = expand_layer f c m ys"
    using Cons ys by (simp add: fill_serial_with_final_map_def)
  show ?thesis
  proof (rule nth_equalityI)
    show "length (fill_serial_with_final_map xs r s f) = length (map f (eq_table s r))" by (simp add: fill m)
    fix j assume "j < length (fill_serial_with_final_map xs r s f)"
    then have j: "j < 2 ^ length r" by (simp add: fill m)
    then have "expand_layer f c m ys ! j = f (s * eq_at (c # cs) j)"
      using Cons m by (intro expand_layer_table) auto
    with j show "fill_serial_with_final_map xs r s f ! j = map f (eq_table s r) ! j"
      by (simp add: fill Cons [symmetric] del: eq_at.simps)
  qed
qed

section \<open>The parallel builders\<close>

lemma expand_halves_table:
  assumes "2 * 2 ^ length cs \<le> length xs" "\<And>p. p < 2 ^ length cs \<Longrightarrow> xs ! p = s * eq_at cs p"
  shows "length (expand_halves c (2 ^ length cs) xs) = length xs"
    "p < 2 ^ length (cs @ [c]) \<Longrightarrow> expand_halves c (2 ^ length cs) xs ! p = s * eq_at (cs @ [c]) p"
proof -
  let ?n = "2 ^ length cs :: nat"
  show "length (expand_halves c ?n xs) = length xs" using assms(1) by (simp add: expand_halves_def Let_def)
  assume "p < 2 ^ length (cs @ [c])"
  then have p: "p < 2 * ?n" by simp
  show "expand_halves c ?n xs ! p = s * eq_at (cs @ [c]) p"
  proof (cases "p < ?n")
    case True
    with assms show ?thesis
      by (simp add: expand_halves_def Let_def split_lagrange_parent_def nth_append eq_at_append algebra_simps)
  next
    case False
    define q where "q = p - ?n"
    have q: "p = q + ?n" "q < ?n" using False p by (simp_all add: q_def)
    have "eq_at cs p = eq_at cs q" using eq_at_mod [of cs p] eq_at_mod [of cs q] q by simp
    moreover have "p div ?n = 1" using q by (simp add: div_add_self2)
    ultimately show ?thesis
      using assms q
      by (simp add: expand_halves_def Let_def split_lagrange_parent_def nth_append eq_at_append mult.assoc)
  qed
qed

lemma expand_halves_all_table:
  "2 ^ length cs * 2 ^ length rs \<le> length xs \<Longrightarrow> (\<And>p. p < 2 ^ length cs \<Longrightarrow> xs ! p = s * eq_at cs p) \<Longrightarrow>
   length (expand_halves_all rs (2 ^ length cs) xs) = length xs \<and>
   (\<forall>p < 2 ^ length (cs @ rs). expand_halves_all rs (2 ^ length cs) xs ! p = s * eq_at (cs @ rs) p)"
proof (induction rs arbitrary: cs xs)
  case (Cons c rs)
  have "(2 :: nat) ^ length cs * 2 \<le> 2 ^ length cs * (2 * 2 ^ length rs)" by (intro mult_left_mono) simp_all
  moreover have "2 ^ length cs * (2 * 2 ^ length rs) \<le> length xs" using Cons.prems(1) by simp
  ultimately have fit: "2 * 2 ^ length cs \<le> length xs" by linarith
  note h = expand_halves_table [where c = c, OF fit Cons.prems(2)]
  from Cons.IH [of "cs @ [c]" "expand_halves c (2 ^ length cs) xs"] h Cons.prems(1) show ?case
    by (simp add: mult.assoc mult.commute mult.left_commute)
qed simp

lemma expand_halves_all_eq:
  assumes "length xs = 2 ^ length r"
  shows "expand_halves_all r 1 (xs[0 := s]) = eq_table s r"
proof -
  have "0 < length xs" using assms by simp
  then have "p < 2 ^ length [] \<Longrightarrow> xs[0 := s] ! p = s * eq_at [] p" for p by simp
  from expand_halves_all_table [of "[]" r "xs[0 := s]" s, OF _ this] assms show ?thesis
    by (intro nth_equalityI) simp_all
qed


section \<open>Allocation outcomes\<close>

text \<open>The tables that fit the address space, the budget and the allocator.\<close>

definition table_fits :: "eq_env \<Rightarrow> nat \<Rightarrow> bool" where
  "table_fits env n \<longleftrightarrow> 2 ^ n \<le> usize_max \<and> 2 ^ n * max (elem_size env) 1 \<le> MAX_MATERIALIZED_EQ_TABLE_BYTES"

lemma budget_usize: "MAX_MATERIALIZED_EQ_TABLE_BYTES \<le> usize_max"
  by (simp add: MAX_MATERIALIZED_EQ_TABLE_BYTES_def usize_max_def)

lemma check_element_budget_Ok:
  "check_element_budget env label len = Ok u \<longleftrightarrow> len * max (elem_size env) 1 \<le> MAX_MATERIALIZED_EQ_TABLE_BYTES"
  using budget_usize by (auto simp: check_element_budget_def Let_def try_r_eq_Inr not_le)

lemma materialized_table_len_Ok:
  "materialized_table_len env label n = Ok len \<longleftrightarrow> table_fits env n \<and> len = 2 ^ n"
  by (auto simp: materialized_table_len_def try_r_eq_Inr table_len_def pow2_eq check_element_budget_Ok table_fits_def
           split: if_splits)

lemma zero_vec_Ok: "zero_vec env label len = Ok xs \<longleftrightarrow> can_reserve env len \<and> xs = replicate len 0"
  by (auto simp: zero_vec_def)

lemma evals_serial_with_final_map_Ok:
  "evals_serial_with_final_map env label r s f = Ok t \<longleftrightarrow>
     table_fits env (length r) \<and> can_reserve env (2 ^ length r) \<and> t = map f (eq_table s r)"
  by (auto simp: evals_serial_with_final_map_def try_r_eq_Inr materialized_table_len_Ok zero_vec_Ok fill_serial_eq)

lemma evals_parallel_Ok:
  "evals_parallel env r s = Ok t \<longleftrightarrow>
     table_fits env (length r) \<and> can_reserve env (2 ^ length r) \<and> t = eq_table (case s of None \<Rightarrow> 1 | Some x \<Rightarrow> x) r"
  by (auto simp: evals_parallel_def try_r_eq_Inr materialized_table_len_Ok zero_vec_Ok expand_halves_all_eq [unfolded One_nat_def])

lemma evals_serial_Ok:
  "evals_serial env r s = Ok t \<longleftrightarrow>
     table_fits env (length r) \<and> can_reserve env (2 ^ length r) \<and> t = eq_table (case s of None \<Rightarrow> 1 | Some x \<Rightarrow> x) r"
  by (simp add: evals_serial_def evals_serial_with_final_map_Ok)

lemma evals_with_scaling_Ok:
  "evals_with_scaling env r s = Ok t \<longleftrightarrow>
     table_fits env (length r) \<and> can_reserve env (2 ^ length r) \<and> t = eq_table (case s of None \<Rightarrow> 1 | Some x \<Rightarrow> x) r"
  by (simp add: evals_with_scaling_def evals_parallel_Ok evals_serial_Ok)

lemma eq_evals_Ok:
  "eq_evals env r = Ok t \<longleftrightarrow> table_fits env (length r) \<and> can_reserve env (2 ^ length r) \<and> t = eq_table 1 r"
  by (simp add: eq_evals_def evals_with_scaling_Ok)

section \<open>Slabs\<close>

lemma chunks_replicate:
  "0 < k \<Longrightarrow> chunks k (replicate (m * k) x) = replicate m (replicate k x)"
proof (induction m)
  case (Suc m)
  then show ?case by (subst chunks.simps) (auto simp: replicate_add)
qed (simp add: chunks.simps)

lemma concat_slabs:
  "concat (map (\<lambda>i. map (\<lambda>j. f (i * k + j)) [0..<k]) [0..<m]) = map f [0..<m * k]"
proof (induction m)
  case (Suc m)
  have "[0..<Suc m * k] = [0..<m * k] @ map (\<lambda>j. m * k + j) [0..<k]"
    by (simp add: map_add_upt add.commute upt_add_eq_append [symmetric])
       (metis add.commute le_add2 upt_add_eq_append zero_le)
  then show ?case by (simp add: Suc.IH o_def)
qed simp

lemma slab_tables:
  "concat (map (\<lambda>s. map f (eq_table s lo)) (eq_table 1 hi)) = map f (eq_table 1 (lo @ hi))"
proof -
  let ?k = "2 ^ length lo :: nat" and ?m = "2 ^ length hi :: nat"
  have "concat (map (\<lambda>s. map f (eq_table s lo)) (eq_table 1 hi)) =
      concat (map (\<lambda>i. map (\<lambda>j. f (1 * eq_at (lo @ hi) (i * ?k + j))) [0..<?k]) [0..<?m])"
  proof -
    have "eq_at (lo @ hi) (i * ?k + j) = eq_at hi i * eq_at lo j" if "j < ?k" for i j
      using that eq_at_mod [of lo "i * ?k + j"] by (simp add: eq_at_append mult.commute)
    then show ?thesis by (auto simp: eq_table_def intro!: arg_cong [where f = concat])
  qed
  also have "\<dots> = map (\<lambda>b. f (1 * eq_at (lo @ hi) b)) [0..<?m * ?k]" by (rule concat_slabs)
  also have "\<dots> = map f (eq_table 1 (lo @ hi))" by (simp add: eq_table_def power_add mult.commute)
  finally show ?thesis .
qed

lemma slabs_Ok:
  fixes r :: "'a::comm_ring_1 list"
  assumes "evals_mapped_parallel_slabs env r f = Ok t"
  shows "t = map f (eq_table 1 r)"
proof -
  define lv where "lv = length r - min (ilog2 (max (saturating_mul (threads env) 4) 1)) (length r - 8)"
  have lv: "lv \<le> length r" by (simp add: lv_def)
  from assms have t: "t = concat (map (\<lambda>(slab, initial). fill_serial_with_final_map slab (take lv r) initial f)
        (zip (chunks (2 ^ lv) (replicate (2 ^ length r) 0)) (eq_table 1 (drop lv r))))"
    by (auto simp: evals_mapped_parallel_slabs_def try_r_eq_Inr Let_def materialized_table_len_Ok evals_serial_Ok
             zero_vec_Ok lv_def)
  have pow: "(2 :: nat) ^ length r = 2 ^ (length r - lv) * 2 ^ lv"
    using lv by (simp flip: power_add)
  have "zip (chunks (2 ^ lv) (replicate (2 ^ length r) (0 :: 'a))) (eq_table 1 (drop lv r)) =
      map (\<lambda>s. (replicate (2 ^ lv) 0, s)) (eq_table 1 (drop lv r))"
    unfolding pow by (subst chunks_replicate) (auto intro!: nth_equalityI)
  then have "t = concat (map (\<lambda>s. map f (eq_table s (take lv r))) (eq_table 1 (drop lv r)))"
    using lv by (simp add: t o_def fill_serial_eq min_absorb2 del: map_eq_conv)
  then show ?thesis by (simp add: slab_tables)
qed


lemma evals_mapped_Ok:
  assumes "evals_mapped env r f = Ok t"
  shows "t = map f (eq_table 1 r)"
  using assms slabs_Ok
  by (auto simp: evals_mapped_def evals_serial_with_final_map_Ok eq_evals_Ok try_r_eq_Inr split: if_splits)

section \<open>Split tables, prefixes and prefix sums\<close>

lemma split_new_Ok:
  assumes "split_new env r = Ok s"
  defines "m \<equiv> length r div 2"
  shows "e_in s = eq_table 1 (take m r)" "e_out s = eq_table 1 (drop m r)" "split_len s = 2 ^ length r"
proof -
  from assms show s: "e_in s = eq_table 1 (take m r)" "e_out s = eq_table 1 (drop m r)"
    by (auto simp: split_new_def try_r_eq_Inr eq_evals_Ok m_def Let_def)
  have "m \<le> length r" by (simp add: m_def)
  then show "split_len s = 2 ^ length r"
    by (simp add: split_len_def s min_absorb2 flip: power_add)
qed

lemma eval_at_eq:
  assumes new: "split_new env r = Ok s" and i: "index < 2 ^ length r"
  shows "eval_at s index = Ok (eq_at r index)"
proof -
  let ?m = "length r div 2"
  have m: "?m \<le> length r" by simp
  note s = split_new_Ok [OF new]
  have len: "length (take ?m r) = ?m" "length (drop ?m r) = length r - ?m" using m by simp_all
  have pow: "(2 :: nat) ^ length r = 2 ^ (length r - ?m) * 2 ^ ?m" using m by (simp flip: power_add)
  have hi: "index div 2 ^ ?m < 2 ^ (length r - ?m)" using i unfolding pow by (rule less_mult_imp_div_less)
  have "eq_at r index = eq_at (take ?m r) index * eq_at (drop ?m r) (index div 2 ^ ?m)"
    using eq_at_append [of "take ?m r" "drop ?m r" index] len by simp
  moreover have "eq_at (take ?m r) (index mod 2 ^ ?m) = eq_at (take ?m r) index"
    using eq_at_mod [of "take ?m r" index] len by simp
  ultimately show ?thesis
    using i hi len by (simp add: eval_at_def in_len_def s mult.commute)
qed

lemma evals_prefix_Ok:
  assumes "evals_prefix env r len = Ok t"
  shows "len \<le> 2 ^ length r" "t = map (eq_at r) [0..<len]"
proof -
  from assms obtain s where s: "split_new env r = Ok s" and le: "len \<le> split_len s"
    and t: "collect_results (eval_at s) [0..<len] = Ok t"
    by (auto simp: evals_prefix_def try_r_eq_Inr split: if_splits)
  show len: "len \<le> 2 ^ length r" using le split_new_Ok [OF s] by simp
  have "collect_results (eval_at s) [0..<len] = Ok (map (eq_at r) [0..<len])"
    by (rule collect_results_map) (use len eval_at_eq [OF s] in auto)
  with t show "t = map (eq_at r) [0..<len]" by simp
qed

lemma sum_children: "(\<Sum>b < 2 * q. eq_at (c # cs) b) = (\<Sum>p < q. eq_at cs p)"
proof (induction q)
  case (Suc q)
  have "(\<Sum>b < 2 * Suc q. eq_at (c # cs) b) =
      (\<Sum>b < 2 * q. eq_at (c # cs) b) + eq_at (c # cs) (2 * q) + eq_at (c # cs) (2 * q + 1)" by simp
  also have "\<dots> = (\<Sum>p < Suc q. eq_at cs p)" unfolding Suc.IH by (simp add: algebra_simps)
  finally show ?case .
qed simp

lemma sum_eq_table: "(\<Sum>b < 2 ^ length r. eq_at r b) = 1"
  by (induction r) (simp_all add: sum_children del: eq_at.simps(2))

text \<open>After the bits from \<open>k\<close> up: the exact prefix and everything strictly below it.\<close>

lemma prefix_fold:
  assumes "len < 2 ^ length r"
  shows "k \<le> length r \<Longrightarrow> fold (prefix_step r len) (rev [k..<length r]) (0, 1) =
    ((\<Sum>b < len div 2 ^ k. eq_at (drop k r) b), eq_at (drop k r) (len div 2 ^ k))"
proof (induction "length r - k" arbitrary: k)
  case 0
  then have "k = length r" by simp
  with assms show ?case by simp
next
  case (Suc n)
  then have k: "k < length r" by simp
  let ?c = "r ! k" and ?cs = "drop (Suc k) r" and ?q = "len div 2 ^ Suc k"
  have drop: "drop k r = ?c # ?cs" using k by (simp add: Cons_nth_drop_Suc)
  have q: "len div 2 ^ k div 2 = ?q" by (metis div_mult2_eq power_Suc2)
  have IH: "fold (prefix_step r len) (rev [Suc k..<length r]) (0, 1) = ((\<Sum>b < ?q. eq_at ?cs b), eq_at ?cs ?q)"
    using Suc.hyps k by simp
  have step: "fold (prefix_step r len) (rev [k..<length r]) (0, 1) =
      prefix_step r len k ((\<Sum>b < ?q. eq_at ?cs b), eq_at ?cs ?q)"
    using k IH by (simp add: upt_conv_Cons)
  show ?case
  proof (cases "odd (len div 2 ^ k)")
    case True
    then have two: "len div 2 ^ k = 2 * ?q + 1" using q by (metis odd_two_times_div_two_succ)
    have "(\<Sum>b < len div 2 ^ k. eq_at (drop k r) b) = (\<Sum>b < ?q. eq_at ?cs b) + (1 - ?c) * eq_at ?cs ?q"
      unfolding two drop by (simp add: sum_children del: eq_at.simps) simp
    moreover have "eq_at (drop k r) (len div 2 ^ k) = ?c * eq_at ?cs ?q" using True q by (simp add: drop)
    ultimately show ?thesis
      using True unfolding step by (simp add: prefix_step_def split_lagrange_parent_def Let_def left_diff_distrib mult.commute)
  next
    case False
    then have two: "len div 2 ^ k = 2 * ?q" using q by (metis dvd_mult_div_cancel)
    have "(\<Sum>b < len div 2 ^ k. eq_at (drop k r) b) = (\<Sum>b < ?q. eq_at ?cs b)"
      unfolding two drop by (rule sum_children)
    moreover have "eq_at (drop k r) (len div 2 ^ k) = (1 - ?c) * eq_at ?cs ?q" using False q by (simp add: drop)
    ultimately show ?thesis
      using False unfolding step by (simp add: prefix_step_def split_lagrange_parent_def Let_def left_diff_distrib mult.commute)
  qed
qed


lemma prefix_sum_eq:
  "prefix_sum r len =
     (if 2 ^ length r > usize_max then Err (InvalidInput ''eq table dimension overflow'')
      else if len > 2 ^ length r then Err (InvalidSize (2 ^ length r) len)
      else Ok (\<Sum>b < len. eq_at r b))"
proof (cases "len < 2 ^ length r")
  case True
  with prefix_fold [OF True, of 0] show ?thesis by (simp add: prefix_sum_def table_len_def pow2_eq)
next
  case False
  then show ?thesis by (auto simp: prefix_sum_def table_len_def pow2_eq sum_eq_table)
qed

section \<open>Cached tables\<close>

lemma zero_layers_Ok:
  "zero_layers env n len = Ok ts \<Longrightarrow> len * 2 ^ n \<le> 2 * usize_max \<Longrightarrow>
     ts = map (\<lambda>j. replicate (len * 2 ^ j) 0) [0..<n]"
proof (induction n arbitrary: len ts)
  case (Suc n)
  from Suc.prems(1) obtain ts' where ts: "ts = replicate len 0 # ts'"
    "zero_layers env n (saturating_mul len 2) = Ok ts'"
    by (auto simp: try_r_eq_Inr zero_vec_Ok)
  show ?case
  proof (cases n)
    case 0
    with ts show ?thesis by simp
  next
    case (Suc n')
    have "len * 2 * 1 \<le> len * 2 * 2 ^ n'" by (intro mult_left_mono) simp_all
    moreover have "len * 2 * 2 ^ n' * 2 \<le> 2 * usize_max" using Suc.prems(2) \<open>n = Suc n'\<close> by (simp add: mult.assoc)
    ultimately have "len * 2 \<le> usize_max" by linarith
    then have sat: "saturating_mul len 2 = len * 2" by (simp add: saturating_mul_def)
    have "ts' = map (\<lambda>j. replicate (len * 2 * 2 ^ j) 0) [0..<n]"
      using Suc.IH [of "len * 2" ts'] ts(2) Suc.prems(2) sat by (simp add: mult.assoc)
    with ts(1) show ?thesis by (simp only: map_upt_Suc) (simp add: mult.assoc)
  qed
qed simp

definition cache_row :: "'a::comm_ring_1 list \<Rightarrow> 'a \<Rightarrow> nat \<Rightarrow> 'a list \<Rightarrow> 'a list" where
  "cache_row prev t i row = row[2 * i := prev ! i - prev ! i * t, 2 * i + 1 := prev ! i * t]"

lemma cache_entries_row:
  "Suc j < length ts \<Longrightarrow>
   fold (cache_entry t j) is ts = ts[Suc j := fold (cache_row (ts ! j) t) is (ts ! Suc j)]"
  by (induction "is" arbitrary: ts)
     (simp_all add: cache_entry_def split_lagrange_parent_def cache_row_def Let_def)

lemma length_cache_row [simp]: "length (cache_row prev t i row) = length row"
  by (simp add: cache_row_def)

lemma cache_row_nth:
  "2 * n \<le> length row \<Longrightarrow> i < length row \<Longrightarrow>
   fold (cache_row prev t) (rev [0..<n]) row ! i =
     (if i < 2 * n then prev ! (i div 2) * (if odd i then t else 1 - t) else row ! i)"
proof (induction n arbitrary: row)
  case (Suc n)
  have IH: "fold (cache_row prev t) (rev [0..<Suc n]) row ! i =
     (if i < 2 * n then prev ! (i div 2) * (if odd i then t else 1 - t) else cache_row prev t n row ! i)"
    using Suc.IH [of "cache_row prev t n row"] Suc.prems by simp
  consider "i < 2 * n" | "i = 2 * n" | "i = 2 * n + 1" | "2 * n + 1 < i" by linarith
  then show ?case
    using Suc.prems unfolding IH by cases (auto simp: cache_row_def right_diff_distrib)
qed simp

lemma length_cache_row_fold [simp]: "length (fold (cache_row prev t) is row) = length row"
  by (induction "is" arbitrary: row) (simp_all add: cache_row_def)

lemma cache_layer_eq:
  assumes j: "j < length r" and len: "Suc j < length ts" "length (ts ! Suc j) = 2 ^ Suc j"
    and prev: "ts ! j = eq_table s (drop (length r - j) r)"
  shows "cache_layer r j ts = ts[Suc j := eq_table s (drop (length r - Suc j) r)]"
proof -
  let ?t = "r ! (length r - 1 - j)" and ?cs = "drop (length r - j) r"
  have drop: "drop (length r - Suc j) r = ?t # ?cs"
    using j Cons_nth_drop_Suc [of "length r - Suc j" r] by (simp add: Suc_diff_Suc)
  have cs: "length ?cs = j" using j by simp
  have "fold (cache_row (ts ! j) ?t) (rev [0..<2 ^ j]) (ts ! Suc j) = eq_table s (?t # ?cs)"
  proof (rule nth_equalityI)
    show "length (fold (cache_row (ts ! j) ?t) (rev [0..<2 ^ j]) (ts ! Suc j)) = length (eq_table s (?t # ?cs))"
      using j len by simp
    fix i assume "i < length (fold (cache_row (ts ! j) ?t) (rev [0..<2 ^ j]) (ts ! Suc j))"
    then have i: "i < 2 * 2 ^ j" using len by simp
    then have "i div 2 < 2 ^ j" by linarith
    then have "ts ! j ! (i div 2) = s * eq_at ?cs (i div 2)" using j by (simp add: prev)
    then show "fold (cache_row (ts ! j) ?t) (rev [0..<2 ^ j]) (ts ! Suc j) ! i = eq_table s (?t # ?cs) ! i"
      using i len j by (simp add: cache_row_nth mult.assoc mult.left_commute mult.commute)
  qed
  then show ?thesis using len(1) unfolding drop by (simp add: cache_layer_def Let_def cache_entries_row)
qed

lemma cache_layers_eq:
  assumes "ts0 = map (\<lambda>j. replicate (2 ^ j) 0) [0..<length r + 1]"
  shows "k \<le> length r \<Longrightarrow> fold (cache_layer r) [0..<k] (ts0[0 := [s]]) =
    map (\<lambda>j. if j \<le> k then eq_table s (drop (length r - j) r) else replicate (2 ^ j) 0) [0..<length r + 1]"
proof (induction k)
  case 0
  show ?case
  proof (rule nth_equalityI)
    fix i assume "i < length (fold (cache_layer r) [0..<0] (ts0[0 := [s]]))"
    then have "i < length r + 1" using assms by (simp del: upt_Suc)
    then show "fold (cache_layer r) [0..<0] (ts0[0 := [s]]) ! i =
        map (\<lambda>j. if j \<le> 0 then eq_table s (drop (length r - j) r) else replicate (2 ^ j) 0) [0..<length r + 1] ! i"
      using assms by (cases i) (simp_all add: eq_table_Nil del: upt_Suc)
  qed (use assms in simp)
next
  case (Suc k)
  let ?ts = "map (\<lambda>j. if j \<le> k then eq_table s (drop (length r - j) r) else replicate (2 ^ j) 0) [0..<length r + 1]"
  from Suc.prems have k: "k < length r" by simp
  then have nth: "?ts ! k = eq_table s (drop (length r - k) r)" "?ts ! Suc k = replicate (2 ^ Suc k) 0"
    by (simp_all del: upt_Suc)
  have "fold (cache_layer r) [0..<Suc k] (ts0[0 := [s]]) = cache_layer r k ?ts"
    using Suc by simp
  also have "\<dots> = ?ts[Suc k := eq_table s (drop (length r - Suc k) r)]"
    using k nth by (intro cache_layer_eq) (simp_all del: upt_Suc)
  also have "\<dots> = map (\<lambda>j. if j \<le> Suc k then eq_table s (drop (length r - j) r) else replicate (2 ^ j) 0)
      [0..<length r + 1]"
    using k by (intro nth_equalityI) (auto simp: nth_list_update le_Suc_eq simp del: upt_Suc)
  finally show ?case .
qed

lemma evals_cached_with_scaling_Ok:
  assumes "evals_cached_with_scaling env r s = Ok ts"
  shows "ts = map (\<lambda>j. eq_table (case s of None \<Rightarrow> 1 | Some x \<Rightarrow> x) (drop (length r - j) r)) [0..<length r + 1]"
proof -
  from assms obtain ts0 where pow: "2 ^ length r \<le> usize_max"
    and ts0: "zero_layers env (length r + 1) 1 = Ok ts0"
    and ts: "ts = fold (cache_layer r) [0..<length r] (ts0[0 := (ts0 ! 0)[0 := (case s of None \<Rightarrow> 1 | Some x \<Rightarrow> x)]])"
    by (auto simp: evals_cached_with_scaling_def try_r_eq_Inr table_len_def pow2_eq Let_def split: if_splits)
  have z: "ts0 = map (\<lambda>j. replicate (2 ^ j) 0) [0..<length r + 1]"
    using zero_layers_Ok [OF ts0] pow by simp
  then have "ts0 ! 0 = [0]" by (simp del: upt_Suc)
  with cache_layers_eq [OF z, of "length r"] show ?thesis by (simp add: ts del: upt_Suc)
qed


section \<open>Multilinear evaluation and folding\<close>

text \<open>The multilinear extension of a table, entries past its end counting as zero.\<close>

definition mle_sum :: "'a::comm_ring_1 list \<Rightarrow> 'a list \<Rightarrow> 'a" where
  "mle_sum evs point = (\<Sum>b < length evs. evs ! b * eq_at point b)"

lemma sum_split_at: "(\<Sum>b < m + n. f b) = (\<Sum>b < m. f b) + (\<Sum>b < n. f (m + b :: nat) :: 'a::comm_monoid_add)"
  by (induction n) (simp_all add: add.assoc)

lemma multilinear_eval_ref_rev_eq:
  "length evs = 2 ^ length rp \<Longrightarrow> multilinear_eval_ref_rev evs rp = mle_sum evs (rev rp)"
proof (induction rp arbitrary: evs)
  case Nil
  then show ?case by (simp add: mle_sum_def)
next
  case (Cons r rest)
  let ?n = "2 ^ length rest :: nat"
  have len: "length evs = ?n + ?n" using Cons.prems by simp
  have lo: "multilinear_eval_ref_rev (take ?n evs) rest = (\<Sum>b < ?n. evs ! b * eq_at (rev rest) b)"
    using Cons.IH [of "take ?n evs"] len by (simp add: mle_sum_def)
  have hi: "multilinear_eval_ref_rev (drop ?n evs) rest = (\<Sum>b < ?n. evs ! (?n + b) * eq_at (rev rest) b)"
    using Cons.IH [of "drop ?n evs"] len by (simp add: mle_sum_def)
  have low: "eq_at (rev rest @ [r]) b = (1 - r) * eq_at (rev rest) b" if "b < ?n" for b
    using that by (simp add: eq_at_append mult.commute)
  have high: "eq_at (rev rest @ [r]) (?n + b) = r * eq_at (rev rest) b" if "b < ?n" for b
  proof -
    have "eq_at (rev rest) (?n + b) = eq_at (rev rest) b"
      using eq_at_mod [of "rev rest" "?n + b"] eq_at_mod [of "rev rest" b] by simp
    moreover have "(?n + b) div ?n = 1" using that by (simp add: div_add_self1)
    ultimately show ?thesis by (simp add: eq_at_append mult.commute)
  qed
  have "mle_sum evs (rev (r # rest)) =
      (\<Sum>b < ?n. evs ! b * eq_at (rev rest @ [r]) b) + (\<Sum>b < ?n. evs ! (?n + b) * eq_at (rev rest @ [r]) (?n + b))"
    by (simp only: mle_sum_def len sum_split_at rev.simps)
  also have "\<dots> = (1 - r) * (\<Sum>b < ?n. evs ! b * eq_at (rev rest) b) + r * (\<Sum>b < ?n. evs ! (?n + b) * eq_at (rev rest) b)"
    by (simp add: low high sum_distrib_left mult.left_commute)
  finally show ?case
    using len by (simp add: Let_def lo hi algebra_simps)
qed

lemma multilinear_eval_ref_eq: "length evs = 2 ^ length point \<Longrightarrow> multilinear_eval_ref evs point = mle_sum evs point"
  by (simp add: multilinear_eval_ref_def multilinear_eval_ref_rev_eq)

lemma foldl_plus_sum: "foldl (+) a xs = a + (\<Sum>i < length xs. xs ! i)" for a :: "'a::comm_monoid_add"
proof (induction xs arbitrary: a rule: rev_induct)
  case (snoc x xs)
  have "(\<Sum>i < length xs. (xs @ [x]) ! i) = (\<Sum>i < length xs. xs ! i)" by (intro sum.cong) (simp_all add: nth_append)
  then show ?case using snoc by (simp add: add.assoc)
qed simp

lemma zip_eq_table_sum:
  assumes "length evs = 2 ^ length point"
  shows "foldl (+) 0 (map (\<lambda>(e, eq). e * eq) (zip evs (eq_table 1 point))) = mle_sum evs point"
proof -
  have "map (\<lambda>(e, eq). e * eq) (zip evs (eq_table 1 point)) ! i = evs ! i * eq_at point i"
    if "i < length evs" for i using that assms by simp
  then show ?thesis using assms by (simp add: foldl_plus_sum mle_sum_def)
qed

lemma fold_targets_nth:
  "2 * n \<le> length xs + 1 \<Longrightarrow> i < length xs \<Longrightarrow>
   fold (fold_target f r) [0..<n] xs ! i =
     (if i < n then f r (xs ! (2 * i)) (get_or_zero xs (2 * i + 1)) else xs ! i) \<and>
   length (fold (fold_target f r) [0..<n] xs) = length xs"
proof (induction n arbitrary: i)
  case (Suc n)
  let ?ys = "fold (fold_target f r) [0..<n] xs"
  have IH: "?ys ! j = (if j < n then f r (xs ! (2 * j)) (get_or_zero xs (2 * j + 1)) else xs ! j)"
    "length ?ys = length xs" if "j < length xs" for j
    using Suc.IH [of j] Suc.prems that by simp_all
  have n: "2 * n < length xs" using Suc.prems by simp
  have read: "?ys ! (2 * n) = xs ! (2 * n)" "get_or_zero ?ys (2 * n + 1) = get_or_zero xs (2 * n + 1)"
    using IH n by (auto simp: get_or_zero_def)
  have "fold (fold_target f r) [0..<Suc n] xs = ?ys[n := f r (xs ! (2 * n)) (get_or_zero xs (2 * n + 1))]"
    using read by (simp add: fold_target_def Let_def)
  then show ?case using IH [OF Suc.prems(2)] n by (auto simp: nth_list_update less_Suc_eq)
qed (simp add: get_or_zero_def)

lemma fold_evals_eq:
  assumes "evs \<noteq> []"
  shows "fold_evals_in_place par f evs r =
    Some (map (\<lambda>i. f r (evs ! (2 * i)) (get_or_zero evs (2 * i + 1))) [0..<ceil_div (length evs) 2])"
proof -
  let ?n = "ceil_div (length evs) 2"
  have n: "2 * ?n \<le> length evs + 1" using ceil_div_lt [of 2 "length evs"] by simp
  have "0 < length evs" using assms by simp
  with n have le: "?n \<le> length evs" by linarith
  have "length (fold (fold_target f r) [0..<?n] evs) = length evs"
    using fold_targets_nth [OF n \<open>0 < length evs\<close>] by blast
  then have "take ?n (fold (fold_target f r) [0..<?n] evs) =
      map (\<lambda>i. f r (evs ! (2 * i)) (get_or_zero evs (2 * i + 1))) [0..<?n]"
    using fold_targets_nth [OF n] le by (intro nth_equalityI) auto
  then show ?thesis using assms by (simp add: fold_evals_in_place_def Let_def)
qed

lemma sum_even: "(\<Sum>b < 2 * q. f b) = (\<Sum>i < q. f (2 * i) + f (2 * i + 1 :: nat) :: 'a::comm_monoid_add)"
  by (induction q) (simp_all add: add.assoc)

lemma sum_pairs:
  "(\<Sum>b < length evs. evs ! b * eq_at (r # point) b) =
     (\<Sum>i < ceil_div (length evs) 2. (evs ! (2 * i) + r * (get_or_zero evs (2 * i + 1) - evs ! (2 * i))) * eq_at point i)"
proof -
  define q where "q = length evs div 2"
  have pair: "evs ! (2 * i) * eq_at (r # point) (2 * i) + evs ! (2 * i + 1) * eq_at (r # point) (2 * i + 1) =
      (evs ! (2 * i) + r * (get_or_zero evs (2 * i + 1) - evs ! (2 * i))) * eq_at point i"
    if "i < q" for i
  proof -
    have "2 * i + 1 < length evs" using that by (simp add: q_def)
    then show ?thesis by (simp add: get_or_zero_def algebra_simps)
  qed
  show ?thesis
  proof (cases "even (length evs)")
    case True
    then have n: "length evs = 2 * q" "ceil_div (length evs) 2 = q" by (simp_all add: q_def ceil_div_def)
    show ?thesis unfolding n(2) unfolding n(1) by (simp only: sum_even) (intro sum.cong refl, rule pair, simp)
  next
    case False
    then have n: "length evs = 2 * q + 1" "ceil_div (length evs) 2 = q + 1"
      by (simp_all add: q_def ceil_div_def odd_iff_mod_2_eq_one)
    have last: "get_or_zero evs (2 * q + 1) = 0" by (simp add: get_or_zero_def n)
    have "(\<Sum>b < 2 * q. evs ! b * eq_at (r # point) b) =
        (\<Sum>i < q. (evs ! (2 * i) + r * (get_or_zero evs (2 * i + 1) - evs ! (2 * i))) * eq_at point i)"
      by (simp only: sum_even) (intro sum.cong refl, rule pair, simp)
    then show ?thesis unfolding n(2) unfolding n(1) using last by (simp add: algebra_simps)
  qed
qed

section \<open>Properties\<close>

text \<open>
  C15.  Equality tables: whichever builder the feature set and size select, a successful
  (optionally scaled) table holds at index \<open>b\<close> the scaling factor times the equality polynomial
  of the point and the little-endian bits of \<open>b\<close>; it succeeds exactly when the table fits the
  address space and the memory budget and can be allocated.
\<close>

theorem evals_with_scaling_correct:
  "evals_with_scaling env r scaling = Ok t \<longleftrightarrow>
     table_fits env (length r) \<and> can_reserve env (2 ^ length r) \<and>
     t = map (\<lambda>b. (case scaling of None \<Rightarrow> 1 | Some s \<Rightarrow> s) *
           projr (mle r (map (\<lambda>k. if odd (b div 2 ^ k) then 1 else 0) [0..<length r]))) [0..<2 ^ length r]"
  by (simp add: evals_with_scaling_Ok mle_bits eq_table_def)

text \<open>
  The mapped builders - fused serial, parallel slabs, parallel map - all return the
  pointwise image of the equality table in little-endian order.
\<close>

lemma evals_mapped_correct:
  assumes "evals_mapped env r f = Ok t" "eq_evals env r = Ok u"
  shows "t = map f u"
  using evals_mapped_Ok [OF assms(1)] assms(2) by (simp add: eq_evals_Ok)

definition small_env :: eq_env where
  "small_env = \<lparr>elem_size = 8, can_reserve = (\<lambda>n. n \<le> 1024), call_site = ''poly.rs:1'', parallel = True, threads = 4\<rparr>"

lemma small_env_fits: "n \<le> 3 \<Longrightarrow> table_fits small_env n \<and> can_reserve small_env (2 ^ n)"
  by (cases "n = 0"; cases "n = 1"; cases "n = 2")
     (auto simp: small_env_def table_fits_def usize_max_def MAX_MATERIALIZED_EQ_TABLE_BYTES_def le_Suc_eq numeral_3_eq_3)

text \<open>
  C30.  The prefix sum of the equality table, computed from the bits of the bound in one pass,
  is the sum of the first \<open>len\<close> entries; bounds past the table are rejected with its size.
\<close>

theorem prefix_sum_correct:
  "prefix_sum r len =
     (if 2 ^ length r > usize_max then Err (InvalidInput ''eq table dimension overflow'')
      else if len > 2 ^ length r then Err (InvalidSize (2 ^ length r) len)
      else Ok (\<Sum>b < len. eq_at r b))"
  by (rule prefix_sum_eq)

text \<open>An equality table determines its point: each coordinate is a sum over half of the entries.\<close>

lemma eq_at_inj:
  "length xs = length ys \<Longrightarrow> \<forall>b < 2 ^ length xs. eq_at xs b = eq_at ys b \<Longrightarrow> xs = ys"
proof (induction xs ys rule: list_induct2)
  case (Cons x xs y ys)
  have at: "eq_at (x # xs) (2 * p) = eq_at (y # ys) (2 * p)" "eq_at (x # xs) (2 * p + 1) = eq_at (y # ys) (2 * p + 1)" if "p < 2 ^ length xs" for p
    using Cons.prems [rule_format, of "2 * p"] Cons.prems [rule_format, of "2 * p + 1"] that by (simp_all del: eq_at.simps)
  have "eq_at xs p = eq_at ys p" if "p < 2 ^ length xs" for p
    using at [OF that] by (simp add: algebra_simps)
  with Cons.IH have tails: "xs = ys" by blast
  have "x * eq_at ys p = y * eq_at ys p" if "p < 2 ^ length ys" for p
    using at(2) [of p] that tails by simp
  then have "x * (\<Sum>p < 2 ^ length ys. eq_at ys p) = y * (\<Sum>p < 2 ^ length ys. eq_at ys p)"
    by (simp add: sum_distrib_left)
  with tails show ?case by (simp add: sum_eq_table)
qed simp

lemma eq_table_inj: "length xs = length ys \<Longrightarrow> eq_table 1 xs = eq_table 1 ys \<longleftrightarrow> xs = ys"
  using eq_at_inj [of xs ys] by (auto simp: eq_table_def)

text \<open>
  C31.  The cached tables hold suffixes: entry \<open>j\<close> is the equality table of the last \<open>j\<close> coordinates of
  the point, the last entry being the full table.  The doc comment of \<^verbatim>\<open>evals_cached\<close> promises the
  table of the prefix \<^verbatim>\<open>r[..j]\<close> instead; that is what entry \<open>j\<close> holds only for a point whose prefix and
  suffix of length \<open>j\<close> are equal.
\<close>

theorem evals_cached_correct:
  assumes "evals_cached env r = Ok ts"
  shows "length ts = length r + 1 \<and>
    (\<forall>j \<le> length r. ts ! j = eq_table 1 (drop (length r - j) r) \<and>
       (ts ! j = eq_table 1 (take j r) \<longleftrightarrow> take j r = drop (length r - j) r))"
  using evals_cached_with_scaling_Ok [of env r None ts] assms
  by (auto simp: evals_cached_def eq_table_inj simp del: upt_Suc)

theorem evals_cached_correct_witness:
  "\<exists>ts. evals_cached small_env [3, 5 :: int] = Ok ts \<and> length ts = 3 \<and> ts ! 1 = eq_table 1 [5] \<and> ts ! 1 \<noteq> eq_table 1 [3]"
proof -
  have "\<exists>ts. evals_cached small_env [3, 5 :: int] = Ok ts"
    by (simp add: evals_cached_def evals_cached_with_scaling_def small_env_def table_len_def pow2_eq usize_max_def
        check_element_budget_def MAX_MATERIALIZED_EQ_TABLE_BYTES_def checked_mul_if checked_sub_def zero_vec_def
        saturating_mul_def cache_layer_def cache_entry_def split_lagrange_parent_def Let_def)
  then obtain ts where ok: "evals_cached small_env [3, 5 :: int] = Ok ts" by blast
  from evals_cached_correct [OF ok] have "length ts = 3" "ts ! 1 = eq_table 1 [5]" "ts ! 1 = eq_table 1 [3] \<longleftrightarrow> [3 :: int] = [5]"
    by (auto simp: numeral_2_eq_2 dest: spec [of _ 1])
  with ok show ?thesis by auto
qed

text \<open>
  C32.  Multilinear evaluation, by folding or by the parallel inner product with the equality
  table, returns the value of the multilinear extension of the table at the point.
\<close>

theorem multilinear_eval_correct:
  assumes "multilinear_eval env max_seq evs point = Ok v"
  shows "length evs = 2 ^ length point \<and> v = (\<Sum>b < length evs. evs ! b * eq_at point b)"
proof -
  from assms have len: "length evs = 2 ^ length point"
    by (auto simp: multilinear_eval_def try_r_eq_Inr checked_shl_one_u32_def split: if_splits)
  with assms show ?thesis
    by (auto simp: multilinear_eval_def try_r_eq_Inr evals_parallel_Ok zip_eq_table_sum multilinear_eval_ref_eq
             mle_sum_def [symmetric] split: if_splits)
qed

theorem multilinear_eval_correct_witness:
  "length [4, 7 :: int] = 2 ^ length [10 :: int] \<and>
   34 = (\<Sum>b < length [4, 7 :: int]. [4, 7] ! b * eq_at [10 :: int] b)"
proof (rule multilinear_eval_correct)
  show "multilinear_eval small_env 100 [4, 7] [10] = Ok (34 :: int)"
    by (simp add: multilinear_eval_def u32_max_def checked_shl_one_u32_def small_env_def multilinear_eval_ref_def
        is_power_of_two.simps)
qed

text \<open>
  Folding a nonempty evaluation prefix in place binds its first variable: the folded
  table has half as many entries, rounded up, and its multilinear extension at any further point
  is that of the original, zero-padded table - in the serial in-place loop, whose writes
  overtake its reads, and in the parallel one alike.
\<close>

lemma fold_evals_in_place_correct:
  assumes "\<And>r left right. fold_one r left right = left + r * (right - left)" "evs \<noteq> []"
  shows "\<exists>ys. fold_evals_in_place par fold_one evs r = Some ys \<and> length ys = ceil_div (length evs) 2 \<and>
    (\<Sum>b < length ys. ys ! b * eq_at point b) = (\<Sum>b < length evs. evs ! b * eq_at (r # point) b)"
  unfolding fold_evals_eq [OF assms(2)] sum_pairs by (simp add: assms(1))

end
