(* ===== verification/Ntt_Prime.thy ===== *)
theory Ntt_Prime
  imports Checked_Arith
begin

unbundle bit_operations_syntax

text \<open>
  NTT prime arithmetic (\<^verbatim>\<open>crates/akita-algebra/src/ntt/prime.rs\<close>): the two coefficient widths,
  the Montgomery constants, the Montgomery product and the branchless range reductions.

  A machine value of width \<open>k\<close> is the integer it denotes; \<open>swrap k\<close> is the wrap-around of a
  \<open>k\<close>-bit two's complement register and is written wherever the code computes in one.
  \<^verbatim>\<open>>>\<close> on a signed value is division rounding down, \<^verbatim>\<open>&\<close> the bitwise conjunction of two's
  complement integers.
\<close>

section \<open>Widths\<close>

definition swrap :: "nat \<Rightarrow> int \<Rightarrow> int" where
  "swrap k x = (x + 2 ^ (k - 1)) mod 2 ^ k - 2 ^ (k - 1)"

datatype prime_width = I16 | I32

fun R_LOG :: "prime_width \<Rightarrow> nat" where
  "R_LOG I16 = 16"
| "R_LOG I32 = 32"

definition wide_mul :: "prime_width \<Rightarrow> int \<Rightarrow> int \<Rightarrow> int" where
  "wide_mul W a b = swrap (2 * R_LOG W) (a * b)"

definition width_truncate :: "prime_width \<Rightarrow> int \<Rightarrow> int" where
  "width_truncate W w = swrap (R_LOG W) w"

definition wide_shift :: "prime_width \<Rightarrow> int \<Rightarrow> int" where
  "wide_shift W w = swrap (R_LOG W) (w div 2 ^ R_LOG W)"

definition wide_sub :: "prime_width \<Rightarrow> int \<Rightarrow> int \<Rightarrow> int" where
  "wide_sub W a b = swrap (2 * R_LOG W) (a - b)"

definition wrapping_add :: "prime_width \<Rightarrow> int \<Rightarrow> int \<Rightarrow> int" where
  "wrapping_add W a b = swrap (R_LOG W) (a + b)"

definition wrapping_sub :: "prime_width \<Rightarrow> int \<Rightarrow> int \<Rightarrow> int" where
  "wrapping_sub W a b = swrap (R_LOG W) (a - b)"

definition wrapping_mul :: "prime_width \<Rightarrow> int \<Rightarrow> int \<Rightarrow> int" where
  "wrapping_mul W a b = swrap (R_LOG W) (a * b)"

definition wrapping_neg :: "prime_width \<Rightarrow> int \<Rightarrow> int" where
  "wrapping_neg W a = swrap (R_LOG W) (- a)"

definition sign_mask :: "prime_width \<Rightarrow> int \<Rightarrow> int" where
  "sign_mask W a = a div 2 ^ (R_LOG W - 1)"

definition from_i64 :: "prime_width \<Rightarrow> int \<Rightarrow> int" where
  "from_i64 W v = swrap (R_LOG W) v"

section \<open>Modular exponentiation and primality\<close>

function pow_loop :: "(int \<Rightarrow> int \<Rightarrow> int) \<Rightarrow> int \<Rightarrow> int \<Rightarrow> int \<Rightarrow> int" where
  "pow_loop mul result base exponent =
     (if exponent > 0 then
        pow_loop mul (if exponent AND 1 = 1 then mul result base else result) (mul base base) (exponent div 2)
      else result)"
  by pat_completeness auto
termination
  by (relation "measure (\<lambda>(mul, result, base, exponent). nat exponent)") auto

declare pow_loop.simps [simp del]

definition pow_mod :: "int \<Rightarrow> int \<Rightarrow> int \<Rightarrow> int" where
  "pow_mod base exponent modulus =
     (if modulus < 2 ^ 31
      then pow_loop (\<lambda>lhs rhs. swrap 64 (lhs * rhs) mod modulus) 1 (base mod modulus) exponent
      else pow_loop (\<lambda>lhs rhs. swrap 64 (swrap 128 (lhs * rhs) mod modulus)) 1 (base mod modulus) exponent)"

definition miller_rabin_bases :: "int \<Rightarrow> int list" where
  "miller_rabin_bases n =
     (if n < 4759123141 then [2, 7, 61] else [2, 325, 9375, 28178, 450775, 9780504, 1795265022])"

fun squares_reach :: "nat \<Rightarrow> int \<Rightarrow> int \<Rightarrow> bool" where
  "squares_reach 0 x n = False"
| "squares_reach (Suc k) x n = (let x' = pow_mod x 2 n in x' = n - 1 \<or> squares_reach k x' n)"

definition is_prime :: "int \<Rightarrow> bool" where
  "is_prime n =
     (if n < 2 then False
      else case find (\<lambda>base. n mod base = 0) (miller_rabin_bases n) of
             Some base \<Rightarrow> n = base
           | None \<Rightarrow>
               let shift = trailing_zeros (nat (n - 1)); odd_part = (n - 1) div 2 ^ shift
               in list_all (\<lambda>base. let x = pow_mod base odd_part n
                                   in x = 1 \<or> x = n - 1 \<or> squares_reach (shift - 1) x n)
                    (miller_rabin_bases n))"

section \<open>Per-prime constants\<close>

record ntt_prime =
  np_p :: int
  np_pinv :: int
  np_mont :: int
  np_montsq :: int

definition newton_step :: "int \<Rightarrow> int \<Rightarrow> int" where
  "newton_step q x = swrap 64 (x * swrap 64 (2 - swrap 64 (q * x)))"

definition compute :: "prime_width \<Rightarrow> int \<Rightarrow> ntt_prime" where
  "compute W q =
     (let inv = (newton_step q ^^ 5) 1;
          half = q div 2;
          centered = (\<lambda>x. from_i64 W (if x > half then x - q else x));
          r_mod_p = 2 ^ R_LOG W mod q;
          rsq_mod_p = 2 ^ (2 * R_LOG W) mod q
      in \<lparr>np_p = q, np_pinv = from_i64 W inv, np_mont = centered r_mod_p, np_montsq = centered rsq_mod_p\<rparr>)"

text \<open>A failed assertion is \<open>None\<close>.\<close>

definition ntt_prime_new :: "prime_width \<Rightarrow> int \<Rightarrow> ntt_prime option" where
  "ntt_prime_new W q = (if q > 2 \<and> q < 2 ^ (R_LOG W - 2) \<and> is_prime q then Some (compute W q) else None)"

section \<open>Operations\<close>

definition mont_mul_raw :: "prime_width \<Rightarrow> ntt_prime \<Rightarrow> int \<Rightarrow> int \<Rightarrow> int" where
  "mont_mul_raw W self a b =
     (let c = wide_mul W a b;
          t = wrapping_mul W (width_truncate W c) (np_pinv self);
          tp = wide_mul W t (np_p self)
      in wide_shift W (wide_sub W c tp))"

definition csubp :: "prime_width \<Rightarrow> ntt_prime \<Rightarrow> int \<Rightarrow> int" where
  "csubp W self a =
     (if R_LOG W = 16 then
        let ai = swrap 32 a; pi = swrap 32 (np_p self); diff = swrap 32 (ai - pi); msk = diff div 2 ^ 31
        in from_i64 W (swrap 32 (diff + (msk AND pi)))
      else
        let ai = a; pi = np_p self; diff = swrap 64 (ai - pi); msk = diff div 2 ^ 63
        in from_i64 W (swrap 64 (diff + (msk AND pi))))"

definition caddp :: "prime_width \<Rightarrow> ntt_prime \<Rightarrow> int \<Rightarrow> int" where
  "caddp W self a =
     (if R_LOG W = 16 then
        let ai = swrap 32 a; pi = swrap 32 (np_p self); msk = ai div 2 ^ 31
        in from_i64 W (swrap 32 (ai + (msk AND pi)))
      else
        let ai = a; pi = np_p self; msk = ai div 2 ^ 63
        in from_i64 W (swrap 64 (ai + (msk AND pi))))"

definition reduce_range :: "prime_width \<Rightarrow> ntt_prime \<Rightarrow> int \<Rightarrow> int" where
  "reduce_range W self a = caddp W self (csubp W self a)"

definition normalize :: "prime_width \<Rightarrow> ntt_prime \<Rightarrow> int \<Rightarrow> int" where
  "normalize W self a = csubp W self (caddp W self a)"

definition from_canonical :: "prime_width \<Rightarrow> ntt_prime \<Rightarrow> int \<Rightarrow> int" where
  "from_canonical W self a = mont_mul_raw W self a (np_montsq self)"

definition to_canonical :: "prime_width \<Rightarrow> ntt_prime \<Rightarrow> int \<Rightarrow> int" where
  "to_canonical W self a = normalize W self (mont_mul_raw W self a (from_i64 W 1))"

definition ntt_center :: "prime_width \<Rightarrow> ntt_prime \<Rightarrow> int \<Rightarrow> int" where
  "ntt_center W self a =
     (let mask_neg = sign_mask W a;
          canonical = wrapping_add W a (mask_neg AND np_p self);
          half = from_i64 W (np_p self div 2);
          needs_sub = sign_mask W (wrapping_sub W half canonical)
      in wrapping_add W canonical (needs_sub AND wrapping_neg W (np_p self)))"

definition reduce_range_in_place :: "prime_width \<Rightarrow> ntt_prime \<Rightarrow> int list \<Rightarrow> int list" where
  "reduce_range_in_place W self coeffs = map (reduce_range W self) coeffs"

section \<open>Wrap-around\<close>

lemma swrap_id:
  assumes "0 < k" "- (2 ^ (k - 1)) \<le> x" "x < 2 ^ (k - 1)"
  shows "swrap k x = x"
proof -
  have "(2 :: int) ^ k = 2 * 2 ^ (k - 1)" using assms(1) by (cases k) auto
  then have "(x + 2 ^ (k - 1)) mod 2 ^ k = x + 2 ^ (k - 1)" using assms by (intro mod_pos_pos_trivial) linarith+
  then show ?thesis by (simp add: swrap_def)
qed

lemma swrap_mod: "swrap k x mod 2 ^ k = x mod 2 ^ k"
  by (simp add: swrap_def mod_diff_left_eq)

lemma swrap_range:
  assumes "0 < k"
  shows "- (2 ^ (k - 1)) \<le> swrap k x" "swrap k x < 2 ^ (k - 1)"
proof -
  have two: "(2 :: int) ^ k = 2 * 2 ^ (k - 1)" using assms by (cases k) auto
  have "0 \<le> (x + 2 ^ (k - 1)) mod 2 ^ k" "(x + 2 ^ (k - 1)) mod 2 ^ k < 2 ^ k" by simp_all
  then show "- (2 ^ (k - 1)) \<le> swrap k x" "swrap k x < 2 ^ (k - 1)" unfolding swrap_def two by linarith+
qed

lemma swrap_cong: "j \<le> k \<Longrightarrow> swrap k x mod 2 ^ j = x mod 2 ^ j"
proof -
  assume "j \<le> k"
  then have d: "(2 :: int) ^ j dvd 2 ^ k" by (rule le_imp_power_dvd)
  show ?thesis
    using mod_mod_cancel [OF d, of "swrap k x"] mod_mod_cancel [OF d, of x] swrap_mod [of k x] by simp
qed


section \<open>The inverse modulo R\<close>

lemma R_LOG_ge: "0 < R_LOG W" "2 \<le> R_LOG W" "R_LOG W \<le> 32"
  by (cases W; simp)+

lemma newton_step_error:
  "j \<le> 64 \<Longrightarrow> (1 - q * newton_step q x) mod 2 ^ j = (1 - q * x)\<^sup>2 mod 2 ^ j"
proof -
  assume j: "j \<le> 64"
  have "newton_step q x mod 2 ^ j = x * (2 - q * x) mod 2 ^ j"
    unfolding newton_step_def swrap_cong [OF j]
    by (intro mod_mult_cong refl, unfold swrap_cong [OF j], intro mod_diff_cong refl, rule swrap_cong [OF j])
  then have "(1 - q * newton_step q x) mod 2 ^ j = (1 - q * (x * (2 - q * x))) mod 2 ^ j"
    by (metis mod_diff_right_eq mod_mult_right_eq)
  also have "1 - q * (x * (2 - q * x)) = (1 - q * x)\<^sup>2" by (simp add: power2_eq_square algebra_simps)
  finally show ?thesis .
qed

lemma newton_doubles:
  assumes "2 ^ j dvd 1 - q * x" "2 * j \<le> 64"
  shows "2 ^ (2 * j) dvd 1 - q * newton_step q x"
proof -
  have "(2 ^ j)\<^sup>2 dvd (1 - q * x)\<^sup>2" using assms(1) by (rule dvd_power_same)
  then have "2 ^ (2 * j) dvd (1 - q * x)\<^sup>2" by (simp add: power_mult [symmetric] mult.commute)
  then show ?thesis using newton_step_error [OF assms(2), of q x] by (metis dvd_eq_mod_eq_0)
qed

lemma newton_inverse:
  assumes "odd q"
  shows "2 ^ 32 dvd 1 - q * (newton_step q ^^ 5) 1"
proof -
  let ?x = "\<lambda>n. (newton_step q ^^ n) 1"
  have 0: "2 ^ 1 dvd 1 - q * ?x 0" using assms by simp
  have "2 ^ 2 dvd 1 - q * ?x 1" using newton_doubles [OF 0] by simp
  then have "2 ^ 4 dvd 1 - q * ?x 2" using newton_doubles [of 2 q "?x 1"] by (simp add: numeral_2_eq_2)
  then have "2 ^ 8 dvd 1 - q * ?x 3" using newton_doubles [of 4 q "?x 2"] by (simp add: eval_nat_numeral)
  then have "2 ^ 16 dvd 1 - q * ?x 4" using newton_doubles [of 8 q "?x 3"] by (simp add: eval_nat_numeral)
  then show ?thesis using newton_doubles [of 16 q "?x 4"] by (simp add: eval_nat_numeral)
qed

text \<open>A modulus the kernels accept, with its derived constants.\<close>

definition wf_prime :: "prime_width \<Rightarrow> ntt_prime \<Rightarrow> bool" where
  "wf_prime W pr \<longleftrightarrow> (\<exists>q. odd q \<and> 1 < q \<and> q < 2 ^ (R_LOG W - 2) \<and> pr = compute W q)"

lemma wf_prime_p:
  assumes "wf_prime W pr"
  shows "odd (np_p pr)" "1 < np_p pr" "np_p pr < 2 ^ (R_LOG W - 2)"
  using assms by (auto simp: wf_prime_def compute_def Let_def)

lemma wf_prime_bounds:
  assumes "wf_prime W pr"
  shows "4 * np_p pr < 2 ^ R_LOG W" "2 * np_p pr < 2 ^ (R_LOG W - 1)"
proof -
  have "(2 :: int) ^ R_LOG W = 4 * 2 ^ (R_LOG W - 2)" "(2 :: int) ^ (R_LOG W - 1) = 2 * 2 ^ (R_LOG W - 2)"
    by (cases W; simp)+
  then show "4 * np_p pr < 2 ^ R_LOG W" "2 * np_p pr < 2 ^ (R_LOG W - 1)" using wf_prime_p(3) [OF assms] by linarith+
qed

lemma wf_prime_pinv:
  assumes "wf_prime W pr"
  shows "np_p pr * np_pinv pr mod 2 ^ R_LOG W = 1 mod 2 ^ R_LOG W"
proof -
  from assms obtain q where q: "odd q" "pr = compute W q" by (auto simp: wf_prime_def)
  let ?x = "(newton_step q ^^ 5) 1"
  have "(2 :: int) ^ R_LOG W dvd 1 - q * ?x"
    using newton_inverse [OF q(1)] R_LOG_ge(3) [of W] by (meson dvd_trans le_imp_power_dvd)
  then have "q * ?x mod 2 ^ R_LOG W = 1 mod 2 ^ R_LOG W" by (metis mod_eq_dvd_iff)
  then show ?thesis
    using mod_mult_cong [OF refl swrap_mod, of q "R_LOG W" ?x] by (simp add: q compute_def Let_def from_i64_def)
qed

lemma centered_range:
  assumes "wf_prime W pr"
  shows "\<exists>m. np_montsq pr = m \<and> 2 * \<bar>m\<bar> \<le> np_p pr \<and> m mod np_p pr = 2 ^ (2 * R_LOG W) mod np_p pr"
proof -
  from assms obtain q where q: "1 < q" "pr = compute W q" by (auto simp: wf_prime_def)
  define x where "x = (2 :: int) ^ (2 * R_LOG W) mod q"
  define c where "c = (if x > q div 2 then x - q else x)"
  have x: "0 \<le> x" "x < q" using q by (simp_all add: x_def)
  have c: "2 * \<bar>c\<bar> \<le> q" using x by (auto simp: c_def)
  have "2 * q < 2 ^ (R_LOG W - 1)" using wf_prime_bounds(2) [OF assms] q by (simp add: compute_def Let_def)
  then have "swrap (R_LOG W) c = c" using c R_LOG_ge(1) by (intro swrap_id) (auto simp: abs_le_iff)
  moreover have "c mod q = x mod q" by (simp add: c_def)
  ultimately show ?thesis using q c by (auto simp: compute_def Let_def from_i64_def c_def x_def)
qed

section \<open>The Montgomery product\<close>

lemma mont_mul_raw_correct:
  assumes wf: "wf_prime W pr" and ab: "\<bar>a * b\<bar> < np_p pr * 2 ^ (R_LOG W - 1)"
  shows "mont_mul_raw W pr a b * 2 ^ R_LOG W mod np_p pr = a * b mod np_p pr"
    "- np_p pr < mont_mul_raw W pr a b" "mont_mul_raw W pr a b < np_p pr"
proof -
  let ?k = "R_LOG W" and ?q = "np_p pr"
  define H :: int where "H = 2 ^ (?k - 1)"
  have R: "(2 :: int) ^ ?k = 2 * H" using R_LOG_ge(1) [of W] by (cases "?k") (auto simp: H_def)
  have RR: "(2 :: int) ^ (2 * ?k - 1) = 2 * H * H"
    using R_LOG_ge(1) [of W] by (simp add: H_def flip: power_add power_Suc)
  have Hpos: "0 < H" by (simp add: H_def)
  have q: "1 < ?q" "2 * ?q < H" using wf_prime_p(2) [OF wf] wf_prime_bounds(2) [OF wf] by (simp_all add: H_def)
  have wide: "swrap (2 * ?k) x = x" if "\<bar>x\<bar> < 2 * ?q * H" for x
  proof (rule swrap_id)
    have "2 * ?q * H \<le> H * H" using q Hpos by (intro mult_right_mono) linarith+
    moreover have "0 \<le> H * H" by simp
    ultimately show "- (2 ^ (2 * ?k - 1)) \<le> x" "x < 2 ^ (2 * ?k - 1)" unfolding RR using that by linarith+
    show "0 < 2 * ?k" using R_LOG_ge(1) by simp
  qed
  have qH: "0 < ?q * H" using q Hpos by simp
  define c where "c = a * b"
  have cb: "\<bar>c\<bar> < ?q * H" using ab by (simp add: c_def H_def)
  define t where "t = swrap ?k (swrap ?k c * np_pinv pr)"
  have t: "- H \<le> t" "t < H" using swrap_range [OF R_LOG_ge(1)] by (simp_all add: t_def H_def)
  have "\<bar>t * ?q\<bar> = \<bar>t\<bar> * ?q" using q by (simp add: abs_mult)
  also have "\<dots> \<le> H * ?q" using t q by (intro mult_right_mono) auto
  finally have tq: "\<bar>t * ?q\<bar> \<le> ?q * H" by (simp add: mult.commute)
  have diff: "\<bar>c - t * ?q\<bar> < 2 * ?q * H" using cb tq by linarith
  have "t * ?q mod 2 ^ ?k = c * (?q * np_pinv pr) mod 2 ^ ?k"
    unfolding t_def by (metis swrap_mod mod_mult_left_eq mult.assoc mult.commute)
  also have "\<dots> = c mod 2 ^ ?k" by (metis wf_prime_pinv [OF wf] mod_mult_right_eq mult_1_right)
  finally have "2 ^ ?k dvd c - t * ?q" by (metis mod_eq_dvd_iff)
  then obtain r where r: "c - t * ?q = r * 2 ^ ?k" by (metis dvdE mult.commute)
  have rb: "- ?q < r" "r < ?q"
  proof -
    have "\<bar>r\<bar> * (2 * H) < ?q * (2 * H)" using diff Hpos unfolding r R by (simp add: abs_mult mult.commute mult.left_commute)
    then have "\<bar>r\<bar> < ?q" using Hpos by (simp add: mult_less_cancel_right)
    then show "- ?q < r" "r < ?q" by linarith+
  qed
  have m: "mont_mul_raw W pr a b = r"
  proof -
    have "swrap (2 * ?k) c = c" using cb qH by (intro wide) linarith
    moreover have "swrap (2 * ?k) (t * ?q) = t * ?q" using tq qH by (intro wide) linarith
    moreover have "swrap (2 * ?k) (c - t * ?q) = c - t * ?q" using diff by (rule wide)
    moreover have "(c - t * ?q) div 2 ^ ?k = r" unfolding r by simp
    moreover have "swrap ?k r = r" using rb q Hpos R_LOG_ge(1) [of W] by (intro swrap_id) (auto simp: H_def)
    ultimately show ?thesis
      by (simp add: mont_mul_raw_def Let_def wide_mul_def wide_sub_def wide_shift_def wrapping_mul_def width_truncate_def
          c_def t_def mult.commute)
  qed
  have "r * 2 ^ ?k mod ?q = c mod ?q" 
    unfolding r [symmetric] using mod_mult_self1 [of c "- t" ?q] by simp
  then show "mont_mul_raw W pr a b * 2 ^ ?k mod ?q = a * b mod ?q" by (simp add: m c_def)
  show "- ?q < mont_mul_raw W pr a b" "mont_mul_raw W pr a b < ?q" using rb by (simp_all add: m)
qed


section \<open>Branchless range reduction\<close>

definition in_width :: "prime_width \<Rightarrow> int \<Rightarrow> bool" where
  "in_width W x \<longleftrightarrow> - (2 ^ (R_LOG W - 1)) \<le> x \<and> x < 2 ^ (R_LOG W - 1)"

lemma from_i64_id: "in_width W x \<Longrightarrow> from_i64 W x = x"
  unfolding in_width_def from_i64_def using R_LOG_ge(1) by (intro swrap_id) auto

lemma sign_div: "- (2 ^ n) \<le> x \<Longrightarrow> x < 2 ^ n \<Longrightarrow> x div 2 ^ n = (if x < 0 then - 1 else 0)" for x :: int
proof (cases "x < 0")
  case True
  assume "- (2 ^ n) \<le> x"
  then have "(x + 2 ^ n) div 2 ^ n = 0" using True by (intro div_pos_pos_trivial) auto
  then have "x div 2 ^ n + 1 = 0" by (simp add: div_add_self2)
  with True show ?thesis by simp
qed (simp add: div_pos_pos_trivial)

lemma csubp_eq:
  assumes wf: "wf_prime W pr" and a: "in_width W a"
  shows "csubp W pr a = (if a \<ge> np_p pr then a - np_p pr else a)"
proof -
  note b = wf_prime_p(2) [OF wf] wf_prime_bounds(2) [OF wf]
  show ?thesis
  proof (cases W)
    case I16
    then have r: "- (2 ^ 15) \<le> a" "a < 2 ^ 15" "1 < np_p pr" "2 * np_p pr < 2 ^ 15"
      using a b by (simp_all add: in_width_def)
    have sw: "swrap 32 x = x" if "\<bar>x\<bar> < 2 ^ 31" for x using that by (intro swrap_id) auto
    have d: "(a - np_p pr) div 2 ^ 31 = (if a - np_p pr < 0 then - 1 else 0)" using r by (intro sign_div) auto
    have "in_width W (if a \<ge> np_p pr then a - np_p pr else a)" using r I16 by (auto simp: in_width_def)
    then show ?thesis
      using r d from_i64_id [of W a] from_i64_id [of W "a - np_p pr"] a I16
      by (auto simp: csubp_def Let_def sw)
  next
    case I32
    then have r: "- (2 ^ 31) \<le> a" "a < 2 ^ 31" "1 < np_p pr" "2 * np_p pr < 2 ^ 31"
      using a b by (simp_all add: in_width_def)
    have sw: "swrap 64 x = x" if "\<bar>x\<bar> < 2 ^ 63" for x using that by (intro swrap_id) auto
    have d: "(a - np_p pr) div 2 ^ 63 = (if a - np_p pr < 0 then - 1 else 0)" using r by (intro sign_div) auto
    have "in_width W (if a \<ge> np_p pr then a - np_p pr else a)" using r I32 by (auto simp: in_width_def)
    then show ?thesis
      using r d from_i64_id [of W a] from_i64_id [of W "a - np_p pr"] a I32
      by (auto simp: csubp_def Let_def sw)
  qed
qed

lemma caddp_eq:
  assumes wf: "wf_prime W pr" and a: "in_width W a"
  shows "caddp W pr a = (if a < 0 then a + np_p pr else a)"
proof -
  note b = wf_prime_p(2) [OF wf] wf_prime_bounds(2) [OF wf]
  show ?thesis
  proof (cases W)
    case I16
    then have r: "- (2 ^ 15) \<le> a" "a < 2 ^ 15" "1 < np_p pr" "2 * np_p pr < 2 ^ 15"
      using a b by (simp_all add: in_width_def)
    have sw: "swrap 32 x = x" if "\<bar>x\<bar> < 2 ^ 31" for x using that by (intro swrap_id) auto
    have d: "a div 2 ^ 31 = (if a < 0 then - 1 else 0)" using r by (intro sign_div) auto
    have "in_width W (if a < 0 then a + np_p pr else a)" using r I16 by (auto simp: in_width_def)
    then show ?thesis
      using r d from_i64_id [of W a] from_i64_id [of W "a + np_p pr"] a I16
      by (auto simp: caddp_def Let_def sw)
  next
    case I32
    then have r: "- (2 ^ 31) \<le> a" "a < 2 ^ 31" "1 < np_p pr" "2 * np_p pr < 2 ^ 31"
      using a b by (simp_all add: in_width_def)
    have sw: "swrap 64 x = x" if "\<bar>x\<bar> < 2 ^ 63" for x using that by (intro swrap_id) auto
    have d: "a div 2 ^ 63 = (if a < 0 then - 1 else 0)" using r by (intro sign_div) auto
    have "in_width W (if a < 0 then a + np_p pr else a)" using r I32 by (auto simp: in_width_def)
    then show ?thesis
      using r d from_i64_id [of W a] from_i64_id [of W "a + np_p pr"] a I32
      by (auto simp: caddp_def Let_def sw)
  qed
qed

lemma in_width_small:
  assumes "wf_prime W pr" "\<bar>x\<bar> \<le> 2 * np_p pr"
  shows "in_width W x"
  using wf_prime_bounds(2) [OF assms(1)] assms(2) by (auto simp: in_width_def)

lemma reduce_range_eq:
  assumes wf: "wf_prime W pr" and a: "- 2 * np_p pr < a" "a < 2 * np_p pr"
  shows "- np_p pr < reduce_range W pr a" "reduce_range W pr a < np_p pr"
    "reduce_range W pr a mod np_p pr = a mod np_p pr"
proof -
  let ?q = "np_p pr"
  have q: "1 < ?q" by (rule wf_prime_p(2) [OF wf])
  let ?b = "if a \<ge> ?q then a - ?q else a"
  have b: "csubp W pr a = ?b" using a by (intro csubp_eq in_width_small [OF wf] wf) auto
  have c: "reduce_range W pr a = (if ?b < 0 then ?b + ?q else ?b)"
    unfolding reduce_range_def b using a q by (intro caddp_eq in_width_small [OF wf] wf) auto
  show "- ?q < reduce_range W pr a" "reduce_range W pr a < ?q" using a q unfolding c by (auto split: if_splits)
  show "reduce_range W pr a mod ?q = a mod ?q" unfolding c by auto
qed

lemma normalize_eq:
  assumes wf: "wf_prime W pr" and a: "- np_p pr < a" "a < np_p pr"
  shows "normalize W pr a = a mod np_p pr"
proof -
  let ?q = "np_p pr"
  have q: "1 < ?q" by (rule wf_prime_p(2) [OF wf])
  let ?b = "if a < 0 then a + ?q else a"
  have b: "caddp W pr a = ?b" using a by (intro caddp_eq in_width_small [OF wf] wf) auto
  have "normalize W pr a = ?b"
    unfolding normalize_def b using a q by (subst csubp_eq [OF wf in_width_small [OF wf]]) auto
  also have "\<dots> = a mod ?q"
  proof (cases "a < 0")
    case True
    then have "(a + ?q) mod ?q = a + ?q" using a by (intro mod_pos_pos_trivial) auto
    with True show ?thesis by simp
  qed (use a in \<open>simp add: mod_pos_pos_trivial\<close>)
  finally show ?thesis .
qed

section \<open>Conversions\<close>

lemma R_coprime:
  assumes wf: "wf_prime W pr" and eq: "x * 2 ^ R_LOG W mod np_p pr = y * 2 ^ R_LOG W mod np_p pr"
  shows "x mod np_p pr = y mod np_p pr"
proof -
  have "coprime (np_p pr) (2 ^ R_LOG W)" using wf_prime_p(1) [OF wf] by simp
  moreover have "np_p pr dvd (x - y) * 2 ^ R_LOG W" using eq by (simp add: mod_eq_dvd_iff left_diff_distrib)
  ultimately have "np_p pr dvd x - y" using coprime_dvd_mult_left_iff by blast
  then show ?thesis by (simp add: mod_eq_dvd_iff)
qed

lemma from_canonical_eq:
  assumes wf: "wf_prime W pr" and a: "in_width W a"
  shows "from_canonical W pr a mod np_p pr = a * 2 ^ R_LOG W mod np_p pr"
    "- np_p pr < from_canonical W pr a" "from_canonical W pr a < np_p pr"
proof -
  let ?q = "np_p pr" and ?R = "2 ^ R_LOG W :: int" and ?m = "np_montsq pr"
  from centered_range [OF wf] have m: "2 * \<bar>?m\<bar> \<le> ?q" "?m mod ?q = 2 ^ (2 * R_LOG W) mod ?q" by auto
  have q: "1 < ?q" by (rule wf_prime_p(2) [OF wf])
  have "\<bar>a\<bar> * \<bar>?m\<bar> \<le> 2 ^ (R_LOG W - 1) * \<bar>?m\<bar>" using a by (intro mult_right_mono) (auto simp: in_width_def)
  also have "\<dots> < 2 ^ (R_LOG W - 1) * ?q" using m q by (intro mult_strict_left_mono) auto
  finally have ab: "\<bar>a * ?m\<bar> < ?q * 2 ^ (R_LOG W - 1)" by (simp add: abs_mult mult.commute)
  note mm = mont_mul_raw_correct [OF wf ab]
  show "- ?q < from_canonical W pr a" "from_canonical W pr a < ?q" using mm(2,3) by (simp_all add: from_canonical_def)
  have "from_canonical W pr a * ?R mod ?q = a * ?m mod ?q" using mm(1) by (simp add: from_canonical_def)
  also have "\<dots> = a * (?R * ?R) mod ?q"
    using mod_mult_cong [OF refl m(2), of a] unfolding mult_2 power_add .
  finally have "from_canonical W pr a * ?R mod ?q = a * ?R * ?R mod ?q" by (simp only: mult.assoc)
  then show "from_canonical W pr a mod ?q = a * ?R mod ?q" by (rule R_coprime [OF wf])
qed

lemma to_canonical_eq:
  assumes wf: "wf_prime W pr" and a: "in_width W a"
  shows "0 \<le> to_canonical W pr a" "to_canonical W pr a < np_p pr"
    "to_canonical W pr a * 2 ^ R_LOG W mod np_p pr = a mod np_p pr"
proof -
  let ?q = "np_p pr" and ?r = "mont_mul_raw W pr a 1"
  have q: "1 < ?q" by (rule wf_prime_p(2) [OF wf])
  have one: "from_i64 W 1 = 1" by (rule from_i64_id) (cases W; simp add: in_width_def)
  have "\<bar>a\<bar> \<le> 2 ^ (R_LOG W - 1)" using a by (auto simp: in_width_def)
  also have "\<dots> < ?q * 2 ^ (R_LOG W - 1)" using q by simp
  finally have "\<bar>a * 1\<bar> < ?q * 2 ^ (R_LOG W - 1)" by simp
  note mm = mont_mul_raw_correct [OF wf this]
  have eq: "to_canonical W pr a = ?r mod ?q" unfolding to_canonical_def one by (rule normalize_eq [OF wf mm(2,3)])
  show "0 \<le> to_canonical W pr a" "to_canonical W pr a < ?q" using q by (simp_all add: eq)
  show "to_canonical W pr a * 2 ^ R_LOG W mod ?q = a mod ?q" using mm(1) by (simp add: eq mod_mult_left_eq)
qed


section \<open>Modular exponentiation\<close>

lemma pow_loop_mod:
  assumes mul: "\<And>x y. 0 \<le> x \<Longrightarrow> x < m \<Longrightarrow> 0 \<le> y \<Longrightarrow> y < m \<Longrightarrow> mul x y = x * y mod m" and m: "1 < m"
  shows "0 \<le> r \<Longrightarrow> r < m \<Longrightarrow> 0 \<le> b \<Longrightarrow> b < m \<Longrightarrow> 0 \<le> e \<Longrightarrow>
    pow_loop mul r b e = r * b ^ nat e mod m"
proof (induction "nat e" arbitrary: r b e rule: less_induct)
  case less
  show ?case
  proof (cases "e > 0")
    case False
    with less.prems show ?thesis by (simp add: pow_loop.simps mod_pos_pos_trivial)
  next
    case True
    let ?r = "if odd e then mul r b else r"
    have bit: "e AND 1 = 1 \<longleftrightarrow> odd e" by (simp add: and_one_eq odd_iff_mod_2_eq_one)
    have sq: "mul b b = b * b mod m" using less.prems mul by simp
    have r': "?r = (if odd e then r * b mod m else r)" using less.prems mul by simp
    have r: "0 \<le> ?r" "?r < m" using m less.prems unfolding r' by simp_all
    have half: "nat (e div 2) < nat e" using True by simp
    have "pow_loop mul r b e = pow_loop mul ?r (mul b b) (e div 2)"
      using True by (subst pow_loop.simps) (simp add: bit)
    also have "\<dots> = ?r * (mul b b) ^ nat (e div 2) mod m"
      using less.hyps [OF half r, of "mul b b"] m less.prems by (simp add: sq)
    also have "\<dots> = (if odd e then r * b else r) * (b * b) ^ nat (e div 2) mod m"
      unfolding sq r' by (intro mod_mult_cong) (simp_all add: power_mod)
    also have "\<dots> = r * b ^ nat e mod m"
    proof (cases "odd e")
      case False
      then have "e = 2 * (e div 2)" by simp
      then have "nat e = 2 * nat (e div 2)" using True by linarith
      then have "b ^ nat e = (b * b) ^ nat (e div 2)" by (metis power_mult power2_eq_square)
      with False show ?thesis by simp
    next
      case odd: True
      then have "e = 2 * (e div 2) + 1" by simp
      then have "nat e = Suc (2 * nat (e div 2))" using True by linarith
      then have "b ^ nat e = b * (b * b) ^ nat (e div 2)" by (metis power_Suc power_mult power2_eq_square)
      with odd show ?thesis by (simp add: mult.assoc)
    qed
    finally show ?thesis .
  qed
qed

lemma pow_mod_eq:
  assumes "0 \<le> b" "0 \<le> e" "1 < m" "m < 2 ^ 63"
  shows "pow_mod b e m = b ^ nat e mod m"
proof -
  have sw: "swrap k x = x" if "0 \<le> x" "x < 2 ^ (k - 1)" "0 < k" for k x
    using that zero_le_power [of "2 :: int" "k - 1"] by (intro swrap_id) linarith+
  have small: "swrap 64 (x * y) mod m = x * y mod m"
    if "m < 2 ^ 31" "0 \<le> x" "x < m" "0 \<le> y" "y < m" for x y
  proof -
    have "x * y \<le> m * m" using that by (intro mult_mono) auto
    also have "\<dots> \<le> 2 ^ 31 * 2 ^ 31" using that assms by (intro mult_mono) auto
    finally have "x * y < 2 ^ (64 - 1)" by simp
    then show ?thesis using that by (simp add: sw)
  qed
  have wide: "swrap 64 (swrap 128 (x * y) mod m) = x * y mod m"
    if "0 \<le> x" "x < m" "0 \<le> y" "y < m" for x y
  proof -
    have "x * y \<le> m * m" using that by (intro mult_mono) auto
    also have "\<dots> \<le> 2 ^ 63 * 2 ^ 63" using assms by (intro mult_mono) auto
    finally have "x * y < 2 ^ (128 - 1)" by simp
    then have "swrap 128 (x * y) = x * y" using that by (simp add: sw)
    moreover have "0 \<le> x * y mod m" using assms by simp
    moreover have "x * y mod m < 2 ^ (64 - 1)"
      by (rule order_less_trans [OF pos_mod_bound]) (use assms in simp_all)
    ultimately show ?thesis by (simp add: sw)
  qed
  have b: "0 \<le> b mod m" "b mod m < m" using assms by simp_all
  have "pow_mod b e m = 1 * (b mod m) ^ nat e mod m"
  proof (cases "m < 2 ^ 31")
    case True
    then show ?thesis unfolding pow_mod_def using assms b small by (simp, subst pow_loop_mod [of m], auto)
  next
    case False
    then show ?thesis unfolding pow_mod_def using assms b wide by (simp, subst pow_loop_mod [of m], auto)
  qed
  then show ?thesis by (simp add: power_mod)
qed

section \<open>Properties\<close>

text \<open>
  C20.  The Montgomery product of two machine values whose product is below \<open>p R / 2\<close> - in
  particular of two coefficients in \<open>(-p, p)\<close>, or of any value and a centred constant - is
  congruent to \<open>a b R\<^sup>-\<^sup>1\<close> modulo \<open>p\<close> and lies strictly between \<open>-p\<close> and \<open>p\<close>; no intermediate
  wide operation overflows.  The constants come from the code's Newton iteration.
\<close>

theorem mont_mul_correct:
  assumes "wf_prime W pr" "\<bar>a * b\<bar> < np_p pr * 2 ^ (R_LOG W - 1)"
  shows "mont_mul_raw W pr a b * 2 ^ R_LOG W mod np_p pr = a * b mod np_p pr \<and>
    - np_p pr < mont_mul_raw W pr a b \<and> mont_mul_raw W pr a b < np_p pr"
  using mont_mul_raw_correct [OF assms] by blast

lemma wf_3329: "wf_prime I16 (compute I16 3329)"
  by (auto simp: wf_prime_def intro!: exI [of _ 3329])

theorem mont_mul_correct_witness:
  "mont_mul_raw I16 (compute I16 3329) 1000 (- 2000) * 2 ^ R_LOG I16 mod np_p (compute I16 3329) =
     1000 * (- 2000) mod np_p (compute I16 3329) \<and>
   - np_p (compute I16 3329) < mont_mul_raw I16 (compute I16 3329) 1000 (- 2000) \<and>
   mont_mul_raw I16 (compute I16 3329) 1000 (- 2000) < np_p (compute I16 3329)"
  by (rule mont_mul_correct [OF wf_3329]) (simp add: compute_def Let_def)

text \<open>
  Canonical values survive the Montgomery domain: entering and leaving returns the residue
  in \<open>[0, p)\<close>, and multiplying inside returns the residue of the product.
\<close>

lemma montgomery_domain_correct:
  assumes "wf_prime W pr" "in_width W a" "in_width W b"
  shows "to_canonical W pr (from_canonical W pr a) = a mod np_p pr \<and>
    to_canonical W pr (mont_mul_raw W pr (from_canonical W pr a) (from_canonical W pr b)) = a * b mod np_p pr"
proof -
  let ?q = "np_p pr" and ?R = "2 ^ R_LOG W :: int"
  let ?x = "from_canonical W pr a" and ?y = "from_canonical W pr b"
  note q = wf_prime_p(2) [OF assms(1)] and fa = from_canonical_eq [OF assms(1,2)] and fb = from_canonical_eq [OF assms(1,3)]
  have leave: "to_canonical W pr x = c mod ?q" if x: "- ?q < x" "x < ?q" "x mod ?q = c * ?R mod ?q" for x c
  proof -
    have "in_width W x" using x by (intro in_width_small [OF assms(1)]) auto
    note t = to_canonical_eq [OF assms(1) this]
    have "to_canonical W pr x * ?R mod ?q = c * ?R mod ?q" using t(3) x(3) by simp
    then have "to_canonical W pr x mod ?q = c mod ?q" by (rule R_coprime [OF assms(1)])
    then show ?thesis using t(1,2) by (simp add: mod_pos_pos_trivial)
  qed
  have "\<bar>?x * ?y\<bar> \<le> ?q * ?q" using fa(2,3) fb(2,3) unfolding abs_mult by (intro mult_mono) auto
  also have "\<dots> < ?q * 2 ^ (R_LOG W - 1)"
    using q wf_prime_bounds(2) [OF assms(1)] by (intro mult_strict_left_mono) auto
  finally have "\<bar>?x * ?y\<bar> < ?q * 2 ^ (R_LOG W - 1)" .
  note mm = mont_mul_raw_correct [OF assms(1) this]
  have "mont_mul_raw W pr ?x ?y * ?R mod ?q = a * ?R * (b * ?R) mod ?q"
    unfolding mm(1) by (rule mod_mult_cong [OF fa(1) fb(1)])
  also have "a * ?R * (b * ?R) = (a * b * ?R) * ?R" by (simp only: mult.assoc mult.commute mult.left_commute)
  finally have "mont_mul_raw W pr ?x ?y mod ?q = a * b * ?R mod ?q" by (rule R_coprime [OF assms(1)])
  with leave mm(2,3) have "to_canonical W pr (mont_mul_raw W pr ?x ?y) = a * b mod ?q" by blast
  with leave [OF fa(2,3,1)] show ?thesis by blast
qed

end
