(* ===== verification/Cyclotomic_Ring.thy ===== *)
theory Cyclotomic_Ring
  imports Akita_Prelude
begin

text \<open>
  The ring \<open>F[X]/(X\<^sup>D + 1)\<close> (\<^verbatim>\<open>crates/akita-algebra/src/ring/cyclotomic.rs\<close>, \<^verbatim>\<open>cyclotomic/traits.rs\<close>,
  \<^verbatim>\<open>cyclotomic/inverse.rs\<close> and \<^verbatim>\<open>eval.rs\<close>).  A ring element is its list of \<open>D\<close> coefficients in
  ascending degree; the degree is the length of the list.  Coefficients are an arbitrary
  commutative ring.  Panics are \<open>None\<close>.
\<close>

section \<open>Elements\<close>

definition from_slice :: "nat \<Rightarrow> 'a::zero list \<Rightarrow> 'a list" where
  "from_slice D xs = (let len = min (length xs) D in take len xs @ replicate (D - len) 0)"

definition ring_zero :: "nat \<Rightarrow> 'a::zero list" where
  "ring_zero D = replicate D 0"

definition ring_one :: "nat \<Rightarrow> 'a::{zero,one} list" where
  "ring_one D = (replicate D 0)[0 := 1]"

definition ring_x :: "nat \<Rightarrow> 'a::{zero,one} list option" where
  "ring_x D = (if D \<ge> 2 then Some ((replicate D 0)[1 := 1]) else None)"

definition scale :: "'a::comm_ring_1 list \<Rightarrow> 'a \<Rightarrow> 'a list" where
  "scale a k = map (\<lambda>c. c * k) a"

text \<open>\<^verbatim>\<open>s.mul_add(k, d)\<close> of the field library is \<open>s * k + d\<close>.\<close>

definition field_mul_add :: "'a::comm_ring_1 \<Rightarrow> 'a \<Rightarrow> 'a \<Rightarrow> 'a" where
  "field_mul_add s k d = s * k + d"

text \<open>A loop over the zip of a mutable and an immutable slice: entries past the shorter one stay.\<close>

definition zip_update :: "('a \<Rightarrow> 'b \<Rightarrow> 'a) \<Rightarrow> 'a list \<Rightarrow> 'b list \<Rightarrow> 'a list" where
  "zip_update f dst src = map (\<lambda>(d, s). f d s) (zip dst src) @ drop (length src) dst"

definition scale_accumulate_into :: "'a::comm_ring_1 list \<Rightarrow> 'a list \<Rightarrow> 'a \<Rightarrow> 'a list" where
  "scale_accumulate_into self dst k = zip_update (\<lambda>d s. field_mul_add s k d) dst self"

definition add_assign :: "'a::comm_ring_1 list \<Rightarrow> 'a list \<Rightarrow> 'a list" where
  "add_assign self rhs = zip_update (\<lambda>dst src. dst + src) self rhs"

definition sub_assign :: "'a::comm_ring_1 list \<Rightarrow> 'a list \<Rightarrow> 'a list" where
  "sub_assign self rhs = zip_update (\<lambda>dst src. dst - src) self rhs"

definition ring_neg :: "'a::comm_ring_1 list \<Rightarrow> 'a list" where
  "ring_neg self = map (\<lambda>c. - c) self"

section \<open>Automorphisms and shifts\<close>

definition sigma_term :: "nat \<Rightarrow> nat \<Rightarrow> 'a::comm_ring_1 list \<Rightarrow> nat \<Rightarrow> 'a list \<Rightarrow> 'a list" where
  "sigma_term D k_mod self j out =
     (let idx = (j * k_mod) mod (2 * D)
      in if idx < D then out[idx := out ! idx + self ! j] else out[idx - D := out ! (idx - D) - self ! j])"

definition sigma :: "'a::comm_ring_1 list \<Rightarrow> nat \<Rightarrow> 'a list option" where
  "sigma self k =
     (let D = length self; k_mod = k mod (2 * D)
      in if D > 0 \<and> k_mod mod 2 = 1
         then Some (fold (sigma_term D k_mod self) [0..<D] (replicate D 0))
         else None)"

definition sigma_m1 :: "'a::comm_ring_1 list \<Rightarrow> 'a list option" where
  "sigma_m1 self = (if length self > 0 then sigma self (2 * length self - 1) else None)"

definition shift_term :: "nat \<Rightarrow> bool \<Rightarrow> nat \<Rightarrow> 'a::comm_ring_1 list \<Rightarrow> nat \<Rightarrow> 'a list \<Rightarrow> 'a list" where
  "shift_term D global_neg shift self i out =
     (let target = i + shift;
          wrap_neg = (target \<ge> D);
          coeff = (if global_neg \<noteq> wrap_neg then - (self ! i) else self ! i)
      in if target < D then out[target := coeff] else out[target - D := coeff])"

definition negacyclic_shift :: "'a::comm_ring_1 list \<Rightarrow> nat \<Rightarrow> 'a list" where
  "negacyclic_shift self k0 =
     (let D = length self; k = k0 mod (2 * D)
      in if k = 0 then self
         else let global_neg = (k \<ge> D); shift = k mod D
              in if shift = 0 then ring_neg self
                 else fold (shift_term D global_neg shift self) [0..<D] (replicate D 0))"

text \<open>The fused shifts: the destination is split at \<open>k\<close>, the source at \<open>D - k\<close>.\<close>

definition shifted_update :: "('a \<Rightarrow> 'a \<Rightarrow> 'a) \<Rightarrow> ('a \<Rightarrow> 'a \<Rightarrow> 'a) \<Rightarrow> 'a list \<Rightarrow> 'a list \<Rightarrow> nat \<Rightarrow> 'a list" where
  "shifted_update direct wrap self dst k =
     (let D = length self; lo = take k dst; hi = drop k dst; self_lo = take (D - k) self; self_hi = drop (D - k) self
      in zip_update wrap lo self_hi @ zip_update direct hi self_lo)"

definition shift_accumulate_into :: "'a::comm_ring_1 list \<Rightarrow> 'a list \<Rightarrow> nat \<Rightarrow> 'a list" where
  "shift_accumulate_into self dst k = shifted_update (\<lambda>d s. d + s) (\<lambda>d s. d - s) self dst k"

definition shift_sub_into :: "'a::comm_ring_1 list \<Rightarrow> 'a list \<Rightarrow> nat \<Rightarrow> 'a list" where
  "shift_sub_into self dst k = shifted_update (\<lambda>d s. d - s) (\<lambda>d s. d + s) self dst k"

definition shift_scale_accumulate_into :: "'a::comm_ring_1 list \<Rightarrow> 'a list \<Rightarrow> nat \<Rightarrow> 'a \<Rightarrow> 'a list" where
  "shift_scale_accumulate_into self dst k s =
     shifted_update (\<lambda>d x. field_mul_add x s d) (\<lambda>d x. d - x * s) self dst k"

definition sparse_term :: "'a::comm_ring_1 list \<Rightarrow> nat \<times> 'a \<Rightarrow> 'a list \<Rightarrow> 'a list" where
  "sparse_term self pc dst =
     (let (pos, coeff) = pc
      in if coeff = 0 then dst
         else if coeff = 1 then shift_accumulate_into self dst pos
         else if coeff = - 1 then shift_sub_into self dst pos
         else shift_scale_accumulate_into self dst pos coeff)"

definition mul_accumulate_sparse_rhs_into :: "'a::comm_ring_1 list \<Rightarrow> 'a list \<Rightarrow> 'a list \<Rightarrow> 'a list" where
  "mul_accumulate_sparse_rhs_into self rhs dst = fold (sparse_term self) (List.enumerate 0 rhs) dst"

section \<open>Products\<close>

definition mac_row :: "'a::comm_ring_1 list \<Rightarrow> nat \<times> 'a \<Rightarrow> 'a list \<Rightarrow> 'a list" where
  "mac_row rhs ic out =
     (let (i, lhs_coeff) = ic; n = length rhs
      in if lhs_coeff = 0 then out
         else let out_wrap = take i out; out_direct = drop i out; rhs_direct = take (n - i) rhs; rhs_wrap = drop (n - i) rhs
              in zip_update (\<lambda>dst c. dst - lhs_coeff * c) out_wrap rhs_wrap @
                 zip_update (\<lambda>dst c. dst + lhs_coeff * c) out_direct rhs_direct)"

definition negacyclic_mul_accumulate :: "'a::comm_ring_1 list \<Rightarrow> 'a list \<Rightarrow> 'a list \<Rightarrow> 'a list" where
  "negacyclic_mul_accumulate lhs rhs out = fold (mac_row rhs) (List.enumerate 0 lhs) out"

definition mul_accumulate_into :: "'a::comm_ring_1 list \<Rightarrow> 'a list \<Rightarrow> 'a list \<Rightarrow> 'a list" where
  "mul_accumulate_into self rhs dst = negacyclic_mul_accumulate self rhs dst"

definition mul_term :: "nat \<Rightarrow> 'a::comm_ring_1 list \<Rightarrow> 'a list \<Rightarrow> nat \<Rightarrow> nat \<Rightarrow> 'a list \<Rightarrow> 'a list" where
  "mul_term D self rhs i j out =
     (let prod = self ! i * rhs ! j; idx = i + j
      in if idx < D then out[idx := out ! idx + prod] else out[idx - D := out ! (idx - D) - prod])"

definition ring_mul :: "'a::comm_ring_1 list \<Rightarrow> 'a list \<Rightarrow> 'a list" where
  "ring_mul self rhs =
     (let D = length self
      in fold (\<lambda>i. fold (mul_term D self rhs i) [0..<D]) [0..<D] (replicate D 0))"

definition ring_is_zero :: "'a::zero list \<Rightarrow> bool" where
  "ring_is_zero self = list_all (\<lambda>c. c = 0) self"

definition constant_term :: "'a::zero list \<Rightarrow> 'a" where
  "constant_term self = (case self of [] \<Rightarrow> 0 | c # _ \<Rightarrow> c)"

definition coefficient_inner_product :: "'a::comm_ring_1 list \<Rightarrow> 'a list \<Rightarrow> 'a" where
  "coefficient_inner_product self other = foldl (\<lambda>acc (a, b). field_mul_add a b acc) 0 (zip self other)"

section \<open>Inversion\<close>

definition negacyclic_mul :: "'a::comm_ring_1 list \<Rightarrow> 'a list \<Rightarrow> 'a list" where
  "negacyclic_mul lhs rhs = negacyclic_mul_accumulate lhs rhs (replicate (length lhs) 0)"

fun step_by_2 :: "'a list \<Rightarrow> 'a list" where
  "step_by_2 [] = []"
| "step_by_2 [x] = [x]"
| "step_by_2 (x # y # xs) = x # step_by_2 xs"

fun write_step_by_2 :: "'a list \<Rightarrow> 'a list \<Rightarrow> 'a list" where
  "write_step_by_2 (d # d' # ds) (s # ss) = s # d' # write_step_by_2 ds ss"
| "write_step_by_2 [d] (s # ss) = [s]"
| "write_step_by_2 ds ss = ds"

definition conjugate_coeffs :: "'a::comm_ring_1 list \<Rightarrow> 'a list" where
  "conjugate_coeffs v = map (\<lambda>(i, c). if i mod 2 = 0 then c else - c) (List.enumerate 0 v)"

text \<open>
  \<open>field_inverse\<close> is the inversion of the coefficient field.  The recursion halves the length
  down to one; the empty slice, on which it would not end and which the caller rejects, is \<open>None\<close>.
\<close>

lemma length_step_by_2 [simp]: "length (step_by_2 xs) = (length xs + 1) div 2"
  by (induction xs rule: step_by_2.induct) auto

lemma length_zip_update [simp]: "length (zip_update f dst src) = length dst"
  by (simp add: zip_update_def)

lemma length_mac_rows [simp]: "length (fold (mac_row rhs) ics out) = length out"
  by (induction ics arbitrary: out) (auto simp: mac_row_def Let_def split: prod.splits)

lemma length_negacyclic_mul [simp]: "length (negacyclic_mul a b) = length a"
  by (simp add: negacyclic_mul_def negacyclic_mul_accumulate_def)

function negacyclic_inverse :: "('a \<Rightarrow> 'a option) \<Rightarrow> 'a::comm_ring_1 list \<Rightarrow> 'a list option" where
  "negacyclic_inverse field_inverse v =
     (if length v \<le> 1 then
        (case v of [c] \<Rightarrow> map_option (\<lambda>i. [i]) (field_inverse c) | _ \<Rightarrow> None)
      else let conjugate = conjugate_coeffs v;
               norm = step_by_2 (negacyclic_mul v conjugate)
           in (case negacyclic_inverse field_inverse norm of
                 None \<Rightarrow> None
               | Some norm_inverse \<Rightarrow>
                   Some (negacyclic_mul (write_step_by_2 (replicate (length v) 0) norm_inverse) conjugate)))"
  by pat_completeness auto
termination
  by (relation "measure (\<lambda>(f, v). length v)") (auto simp: conjugate_coeffs_def)

declare negacyclic_inverse.simps [simp del]

definition ring_inverse :: "('a \<Rightarrow> 'a option) \<Rightarrow> 'a::comm_ring_1 list \<Rightarrow> 'a list option" where
  "ring_inverse field_inverse self =
     (if \<not> is_power_of_two (length self) then None
      else map_option (from_slice (length self)) (negacyclic_inverse field_inverse self))"

section \<open>Evaluation\<close>

fun scalar_powers_from :: "'a::comm_ring_1 \<Rightarrow> 'a \<Rightarrow> nat \<Rightarrow> 'a list" where
  "scalar_powers_from alpha pw 0 = []"
| "scalar_powers_from alpha pw (Suc n) = pw # scalar_powers_from alpha (pw * alpha) n"

definition scalar_powers :: "'a::comm_ring_1 \<Rightarrow> nat \<Rightarrow> 'a list" where
  "scalar_powers alpha len = scalar_powers_from alpha 1 len"

fun power_sequence_loop :: "'a::comm_ring_1 \<Rightarrow> 'a \<Rightarrow> 'a list \<Rightarrow> 'a" where
  "power_sequence_loop evaluation bit_power [] = evaluation"
| "power_sequence_loop evaluation bit_power (coordinate # point) =
     power_sequence_loop (evaluation * ((1 - coordinate) + coordinate * bit_power)) (bit_power * bit_power) point"

definition evaluate_power_sequence_mle :: "'a::comm_ring_1 \<Rightarrow> 'a list \<Rightarrow> 'a" where
  "evaluate_power_sequence_mle base point = power_sequence_loop 1 base point"

definition eval_ring_at :: "'a::comm_ring_1 list \<Rightarrow> 'a \<Rightarrow> 'a" where
  "eval_ring_at r alpha =
     fst (foldl (\<lambda>(acc, pw) coeff. (acc + coeff * pw, pw * alpha)) (0, 1) r)"

end
