(* ===== verification/Cyclotomic_Ring_Correct.thy ===== *)
theory Cyclotomic_Ring_Correct
  imports Cyclotomic_Ring Eq_Polynomial_Correct
begin

text \<open>
  The coefficient lists with the code's operations are the negacyclic ring.  An element is read
  as a function \<open>ext\<close> on all integer degrees that changes sign every \<open>D\<close> steps; every product
  loop computes the convolution of these functions, every shift translates them.
\<close>

section \<open>Elements as antiperiodic functions\<close>

definition ext :: "'a::comm_ring_1 list \<Rightarrow> int \<Rightarrow> 'a" where
  "ext a i = (let D = int (length a); c = a ! nat (i mod D) in if even (i div D) then c else - c)"

lemma ext_nth: "k < length a \<Longrightarrow> ext a (int k) = a ! k"
  by (simp add: ext_def Let_def)

lemma ext_shift: "a \<noteq> [] \<Longrightarrow> ext a (i + int (length a)) = - ext a i"
  by (simp add: ext_def Let_def div_add_self2)

lemma ext_minus_shift: "a \<noteq> [] \<Longrightarrow> ext a (i - int (length a)) = - ext a i"
  using ext_shift [of a "i - int (length a)"] by simp

lemma ext_eqI:
  assumes "length a = length b" "\<And>i. 0 \<le> i \<Longrightarrow> i < int (length a) \<Longrightarrow> ext a i = ext b i"
  shows "a = b"
proof (rule nth_equalityI)
  fix k assume "k < length a"
  with assms(2) [of "int k"] assms(1) show "a ! k = b ! k" by (simp add: ext_nth)
qed (simp add: assms)

lemma ext_determined:
  assumes len: "length a = D" "0 < D"
    and eq: "\<And>k. k < D \<Longrightarrow> a ! k = f (int k)" and anti: "\<And>i. f (i + int D) = - f i"
  shows "ext a i = f i"
proof -
  have up: "f (i + int D * int n) = (if even n then f i else - f i)" for i n
  proof (induction n)
    case (Suc n)
    have "f (i + int D * int (Suc n)) = f (i + int D * int n + int D)" by (simp add: algebra_simps)
    with Suc show ?case by (simp add: anti)
  qed simp
  have all: "f (i + int D * m) = (if even m then f i else - f i)" for i m
  proof (cases "0 \<le> m")
    case True
    with up [of i "nat m"] show ?thesis by (simp add: even_nat_iff)
  next
    case False
    then have "f (i + int D * m + int D * int (nat (- m))) = (if even m then f (i + int D * m) else - f (i + int D * m))"
      using up [of "i + int D * m" "nat (- m)"] by (simp add: even_nat_iff)
    moreover have "i + int D * m + int D * int (nat (- m)) = i" using False by simp
    ultimately show ?thesis by (auto split: if_splits)
  qed
  have m: "0 \<le> i mod int D" "i mod int D < int D" using len by simp_all
  have "f i = f (i mod int D + int D * (i div int D))" by simp
  also have "\<dots> = (if even (i div int D) then f (i mod int D) else - f (i mod int D))" by (rule all)
  also have "f (i mod int D) = a ! nat (i mod int D)"
    using eq [of "nat (i mod int D)"] m by simp
  finally show ?thesis by (simp add: ext_def Let_def len)
qed

section \<open>Periodic sums\<close>

definition psum :: "nat \<Rightarrow> (int \<Rightarrow> 'a::comm_ring_1) \<Rightarrow> 'a" where
  "psum D f = (\<Sum>i < D. f (int i))"

lemma psum_shift1: "(\<And>i. f (i + int D) = f i) \<Longrightarrow> psum D (\<lambda>i. f (i + 1)) = psum D f"
proof (cases D)
  case (Suc n)
  assume per: "\<And>i. f (i + int D) = f i"
  have "psum D (\<lambda>i. f (i + 1)) = (\<Sum>i < n. f (int i + 1)) + f (int n + 1)" by (simp add: psum_def Suc)
  also have "f (int n + 1) = f 0" using per [of 0] by (simp add: Suc add.commute)
  also have "(\<Sum>i < n. f (int i + 1)) + f 0 = psum D f"
    unfolding psum_def Suc by (subst sum.lessThan_Suc_shift) (simp add: add.commute)
  finally show ?thesis .
qed (simp add: psum_def)

lemma psum_shift:
  assumes per: "\<And>i. f (i + int D) = f i"
  shows "psum D (\<lambda>i. f (i + s)) = psum D f"
proof -
  have nat: "psum D (\<lambda>i. g (i + int n)) = psum D g" if "\<And>i. g (i + int D) = g i" for g :: "int \<Rightarrow> 'a" and n
  proof (induction n)
    case (Suc n)
    have "g (i + int D + int n) = g (i + int n)" for i using that [of "i + int n"] by (simp add: ac_simps)
    with psum_shift1 [of "\<lambda>i. g (i + int n)" D] Suc show ?case by (simp add: ac_simps)
  qed simp
  show ?thesis
  proof (cases "0 \<le> s")
    case True
    with nat [of f "nat s"] per show ?thesis by simp
  next
    case False
    have "f (i + int D + s) = f (i + s)" for i using per [of "i + s"] by (simp add: ac_simps)
    with nat [of "\<lambda>i. f (i + s)" "nat (- s)"] False show ?thesis by simp
  qed
qed

lemma psum_reflect:
  assumes per: "\<And>i. f (i + int D) = f i"
  shows "psum D (\<lambda>i. f (s - i)) = psum D f"
proof -
  have "psum D (\<lambda>i. f (int D - 1 - i)) = psum D f"
    unfolding psum_def
    by (rule sum.reindex_bij_witness [of _ "\<lambda>i. D - 1 - i" "\<lambda>i. D - 1 - i"]) (auto simp: of_nat_diff diff_diff_eq)
  moreover have "psum D (\<lambda>i. f (s - i)) = psum D (\<lambda>i. f (int D - 1 - i))"
  proof -
    have "f (int D - 1 - (i + int D)) = f (int D - 1 - i)" for i
      using per [of "int D - 1 - (i + int D)"] by (simp add: algebra_simps)
    from psum_shift [of "\<lambda>i. f (int D - 1 - i)" D "int D - 1 - s", OF this] show ?thesis by simp
  qed
  ultimately show ?thesis by simp
qed

text \<open>Negacyclic convolution.\<close>

definition conv :: "'a::comm_ring_1 list \<Rightarrow> 'a list \<Rightarrow> int \<Rightarrow> 'a" where
  "conv a b k = psum (length a) (\<lambda>i. ext a i * ext b (k - i))"

lemma conv_periodic:
  "a \<noteq> [] \<Longrightarrow> length b = length a \<Longrightarrow>
     ext a (i + int (length a)) * ext b (k - (i + int (length a))) = ext a i * ext b (k - i)"
  using ext_shift [of a i] ext_minus_shift [of b "k - i"] by (cases "b = []") (simp_all add: diff_diff_eq)

lemma conv_anti: "a \<noteq> [] \<Longrightarrow> length b = length a \<Longrightarrow> conv a b (k + int (length a)) = - conv a b k"
proof -
  assume a: "a \<noteq> []" "length b = length a"
  then have "ext b (k + int (length a) - i) = - ext b (k - i)" for i
    using ext_shift [of b "k - i"] by (cases "b = []") (simp_all add: algebra_simps)
  then show ?thesis by (simp add: conv_def psum_def sum_negf)
qed

lemma conv_commute: "a \<noteq> [] \<Longrightarrow> length b = length a \<Longrightarrow> conv a b k = conv b a k"
  using psum_reflect [of "\<lambda>i. ext a i * ext b (k - i)" "length a" k] conv_periodic [of a b _ k]
  by (simp add: conv_def mult.commute)

lemma conv_assoc_sum:
  assumes a: "a \<noteq> []" "length b = length a" "length c = length a"
    and ab: "length ab = length a" "\<And>i. ext ab i = conv a b i" and bc: "length bc = length a" "\<And>i. ext bc i = conv b c i"
  shows "conv ab c k = conv a bc k"
proof -
  let ?D = "length a"
  have b: "b \<noteq> []" using a by auto
  have "conv ab c k = (\<Sum>j < ?D. \<Sum>i < ?D. ext a (int i) * ext b (int j - int i) * ext c (k - int j))"
    by (simp add: conv_def psum_def ab sum_distrib_right)
  also have "\<dots> = (\<Sum>i < ?D. ext a (int i) * psum ?D (\<lambda>j. ext b (j - int i) * ext c (k - j)))"
    by (subst sum.swap) (simp add: psum_def sum_distrib_left mult.assoc)
  also have "\<dots> = (\<Sum>i < ?D. ext a (int i) * psum ?D (\<lambda>j. ext b j * ext c (k - int i - j)))"
  proof (intro sum.cong refl arg_cong2 [where f = "(*)"])
    fix i
    have "ext b (j + int ?D) * ext c (k - int i - (j + int ?D)) = ext b j * ext c (k - int i - j)" for j
      using conv_periodic [of b c j "k - int i"] b a by simp
    from psum_shift [of "\<lambda>j. ext b j * ext c (k - int i - j)" ?D "- int i", OF this]
    show "psum ?D (\<lambda>j. ext b (j - int i) * ext c (k - j)) = psum ?D (\<lambda>j. ext b j * ext c (k - int i - j))"
      by simp
  qed
  also have "\<dots> = conv a bc k" using a by (simp add: conv_def psum_def bc)
  finally show ?thesis .
qed


section \<open>The loops compute convolutions\<close>

lemma ext_diff:
  assumes "length b = D" "k < D" "i < D"
  shows "ext b (int k - int i) = (if i \<le> k then b ! (k - i) else - b ! (k + D - i))"
proof (cases "i \<le> k")
  case True
  then show ?thesis using assms ext_nth [of "k - i" b] by (simp add: of_nat_diff)
next
  case False
  then have "int k - int i = int (k + D - i) - int (length b)" using assms by simp
  moreover have "b \<noteq> []" using assms by auto
  ultimately have "ext b (int k - int i) = - ext b (int (k + D - i))" using ext_minus_shift by metis
  then show ?thesis using False assms ext_nth [of "k + D - i" b] by simp
qed

text \<open>A loop that adds or subtracts at a target index, wrapping once.\<close>

definition scatter :: "nat \<Rightarrow> (nat \<Rightarrow> nat) \<Rightarrow> (nat \<Rightarrow> 'a::comm_ring_1) \<Rightarrow> nat \<Rightarrow> 'a list \<Rightarrow> 'a list" where
  "scatter D t v j xs = (if t j < D then xs[t j := xs ! t j + v j] else xs[t j - D := xs ! (t j - D) - v j])"

lemma length_scatter [simp]: "length (fold (scatter D t v) js xs) = length xs"
  by (induction js arbitrary: xs) (auto simp: scatter_def)

lemma scatter_nth:
  "length xs = D \<Longrightarrow> k < D \<Longrightarrow> (\<And>j. j < n \<Longrightarrow> t j < 2 * D) \<Longrightarrow>
   fold (scatter D t v) [0..<n] xs ! k =
     xs ! k + (\<Sum>j < n. if t j = k then v j else if t j = k + D then - v j else 0)"
proof (induction n)
  case (Suc n)
  let ?ys = "fold (scatter D t v) [0..<n] xs"
  have IH: "?ys ! k = xs ! k + (\<Sum>j < n. if t j = k then v j else if t j = k + D then - v j else 0)"
    using Suc by simp
  have tn: "t n < 2 * D" using Suc.prems by simp
  have "fold (scatter D t v) [0..<Suc n] xs ! k = scatter D t v n ?ys ! k" by simp
  also have "\<dots> = ?ys ! k + (if t n = k then v n else if t n = k + D then - v n else 0)"
  proof (cases "t n < D")
    case True
    then show ?thesis using Suc.prems by (auto simp: scatter_def nth_list_update)
  next
    case False
    with tn have "t n - D < D" by simp
    with False show ?thesis using Suc.prems by (auto simp: scatter_def nth_list_update)
  qed
  finally show ?case by (simp add: IH add.assoc)
qed simp

lemma row_sum:
  assumes "length b = D" "k < D" "i < D"
  shows "(\<Sum>j < D. if i + j = k then c * b ! j else if i + j = k + D then - (c * b ! j) else 0) =
    c * ext b (int k - int i)" (is "(\<Sum>j < D. ?f j) = _")
proof (cases "i \<le> k")
  case True
  then have "(\<Sum>j < D. ?f j) = (\<Sum>j < D. if k - i = j then c * b ! (k - i) else 0)"
    by (intro sum.cong) auto
  moreover have "k - i < D" using assms by simp
  ultimately show ?thesis using True assms by (simp add: ext_diff)
next
  case False
  then have "(\<Sum>j < D. ?f j) = (\<Sum>j < D. if k + D - i = j then - (c * b ! (k + D - i)) else 0)"
    using assms by (intro sum.cong) auto
  moreover have "k + D - i < D" using False assms by simp
  ultimately show ?thesis using False assms by (simp add: ext_diff)
qed

lemma mul_term_scatter: "mul_term D a b i = scatter D (\<lambda>j. i + j) (\<lambda>j. a ! i * b ! j)"
  by (intro HOL.ext) (simp add: mul_term_def scatter_def Let_def)

lemma length_ring_mul_row [simp]: "length (fold (mul_term D a b i) js out) = length out"
  by (simp add: mul_term_scatter)

lemma ring_mul_row:
  assumes "length b = D" "k < D" "i < D" "length out = D"
  shows "fold (mul_term D a b i) [0..<D] out ! k = out ! k + a ! i * ext b (int k - int i)"
  unfolding mul_term_scatter using assms by (subst scatter_nth) (simp_all add: row_sum)

lemma ring_mul_nth:
  assumes "length b = length a"
  shows "length (ring_mul a b) = length a" "k < length a \<Longrightarrow> ring_mul a b ! k = conv a b (int k)"
proof -
  let ?D = "length a"
  have loop: "n \<le> ?D \<Longrightarrow> length (fold (\<lambda>i. fold (mul_term ?D a b i) [0..<?D]) [0..<n] (replicate ?D 0)) = ?D \<and>
      (\<forall>k < ?D. fold (\<lambda>i. fold (mul_term ?D a b i) [0..<?D]) [0..<n] (replicate ?D 0) ! k =
         (\<Sum>i < n. a ! i * ext b (int k - int i)))" for n
  proof (induction n)
    case (Suc n)
    then show ?case using ring_mul_row [of b ?D _ n _ a] assms by auto
  qed simp
  from loop [of ?D] show "length (ring_mul a b) = ?D" by (simp add: ring_mul_def Let_def)
  assume "k < ?D"
  with loop [of ?D] have "ring_mul a b ! k = (\<Sum>i < ?D. a ! i * ext b (int k - int i))"
    by (simp add: ring_mul_def Let_def)
  also have "\<dots> = conv a b (int k)" unfolding conv_def psum_def by (intro sum.cong refl) (simp add: ext_nth)
  finally show "ring_mul a b ! k = conv a b (int k)" .
qed

lemma ext_ring_mul:
  assumes "length b = length a" "a \<noteq> []"
  shows "ext (ring_mul a b) k = conv a b k"
  using assms ring_mul_nth [of b a] conv_anti [of a b] by (intro ext_determined [of _ "length a"]) auto

section \<open>Fused updates\<close>

lemma zip_update_nth:
  "i < length dst \<Longrightarrow> zip_update f dst src ! i = (if i < length src then f (dst ! i) (src ! i) else dst ! i)"
  by (auto simp: zip_update_def nth_append min_def)

lemma shifted_update_nth:
  assumes "length self = D" "length dst = D" "k < D" "j < D"
  shows "length (shifted_update f g self dst k) = D"
    "shifted_update f g self dst k ! j = (if k \<le> j then f (dst ! j) (self ! (j - k)) else g (dst ! j) (self ! (j + D - k)))"
proof -
  show "length (shifted_update f g self dst k) = D" using assms by (simp add: shifted_update_def Let_def)
  show "shifted_update f g self dst k ! j =
      (if k \<le> j then f (dst ! j) (self ! (j - k)) else g (dst ! j) (self ! (j + D - k)))"
  proof (cases "k \<le> j")
    case True
    then have "j - k < D - k" using assms by linarith
    with True assms show ?thesis by (simp add: shifted_update_def Let_def nth_append zip_update_nth)
  next
    case False
    with assms show ?thesis by (simp add: shifted_update_def Let_def nth_append zip_update_nth add.commute)
  qed
qed

lemma fused_shifts:
  assumes "length self = D" "length dst = D" "k < D" "j < D"
  shows "shift_accumulate_into self dst k ! j = dst ! j + ext self (int j - int k)"
    "shift_sub_into self dst k ! j = dst ! j - ext self (int j - int k)"
    "shift_scale_accumulate_into self dst k s ! j = dst ! j + s * ext self (int j - int k)"
    "length (shift_accumulate_into self dst k) = D" "length (shift_sub_into self dst k) = D"
    "length (shift_scale_accumulate_into self dst k s) = D"
  using shifted_update_nth [OF assms] ext_diff [of self D j k] assms
  by (simp_all add: shift_accumulate_into_def shift_sub_into_def shift_scale_accumulate_into_def field_mul_add_def
      mult.commute add.commute)

lemma mac_row_nth:
  assumes "length rhs = D" "length out = D" "i < D" "k < D"
  shows "length (mac_row rhs (i, c) out) = D" "mac_row rhs (i, c) out ! k = out ! k + c * ext rhs (int k - int i)"
proof -
  have eq: "mac_row rhs (i, c) out =
      (if c = 0 then out else shifted_update (\<lambda>dst x. dst + c * x) (\<lambda>dst x. dst - c * x) rhs out i)"
    by (simp add: mac_row_def shifted_update_def Let_def)
  show "length (mac_row rhs (i, c) out) = D" "mac_row rhs (i, c) out ! k = out ! k + c * ext rhs (int k - int i)"
    using shifted_update_nth [of rhs D out i k] ext_diff [of rhs D k i] assms by (simp_all add: eq)
qed

text \<open>A loop over the enumerated coefficients whose step adds one shifted multiple.\<close>

lemma accumulate_rows:
  assumes step: "\<And>i c out k. i < D \<Longrightarrow> length out = D \<Longrightarrow> k < D \<Longrightarrow>
      length (row (i, c) out) = D \<and> row (i, c) out ! k = out ! k + c * ext b (int k - int i)"
    and a: "length a = D" and out: "length out = D"
  shows "length (fold row (List.enumerate 0 a) out) = D \<and>
    (\<forall>k < D. fold row (List.enumerate 0 a) out ! k = out ! k + conv a b (int k))"
proof -
  have "n \<le> D \<Longrightarrow> length (fold row (List.enumerate 0 (take n a)) out) = D \<and>
    (\<forall>k < D. fold row (List.enumerate 0 (take n a)) out ! k = out ! k + (\<Sum>i < n. a ! i * ext b (int k - int i)))" for n
  proof (induction n)
    case (Suc n)
    then have n: "n < D" by simp
    have "List.enumerate 0 (take (Suc n) a) = List.enumerate 0 (take n a) @ [(n, a ! n)]"
      using n a by (simp add: take_Suc_conv_app_nth enumerate_append_eq)
    with Suc.IH step [OF n] n show ?case by (auto simp: add.assoc)
  qed (simp add: out)
  from this [of D] a have "length (fold row (List.enumerate 0 a) out) = D \<and>
    (\<forall>k < D. fold row (List.enumerate 0 a) out ! k = out ! k + (\<Sum>i < D. a ! i * ext b (int k - int i)))" by simp
  moreover have "(\<Sum>i < D. a ! i * ext b (int k - int i)) = conv a b (int k)" for k
    unfolding conv_def psum_def a by (intro sum.cong refl) (simp add: ext_nth a)
  ultimately show ?thesis by simp
qed

lemma mul_accumulate_nth:
  assumes "length a = D" "length b = D" "length out = D"
  shows "length (negacyclic_mul_accumulate a b out) = D \<and>
    (\<forall>k < D. negacyclic_mul_accumulate a b out ! k = out ! k + conv a b (int k))"
  unfolding negacyclic_mul_accumulate_def using assms mac_row_nth [of b D]
  by (intro accumulate_rows) auto

lemma sparse_accumulate_nth:
  assumes "length a = D" "length b = D" "length out = D"
  shows "length (mul_accumulate_sparse_rhs_into a b out) = D \<and>
    (\<forall>k < D. mul_accumulate_sparse_rhs_into a b out ! k = out ! k + conv b a (int k))"
  unfolding mul_accumulate_sparse_rhs_into_def using assms fused_shifts [of a D]
  by (intro accumulate_rows) (auto simp: sparse_term_def Let_def)

lemma zip_update_add: "length a = length b \<Longrightarrow> add_assign a b = map2 (+) a b"
  by (simp add: add_assign_def zip_update_def)

lemma length_add_assign [simp]: "length (add_assign a b) = length a"
  by (simp add: add_assign_def)

lemma mul_accumulate_eq:
  assumes "length b = length a" "length out = length a"
  shows "negacyclic_mul_accumulate a b out = add_assign out (ring_mul a b)"
  using mul_accumulate_nth [of a "length a" b out] ring_mul_nth [of b a] assms
  by (intro nth_equalityI) (auto simp: zip_update_add)

lemma negacyclic_mul_eq: "length b = length a \<Longrightarrow> negacyclic_mul a b = ring_mul a b"
  using mul_accumulate_nth [of a "length a" b "replicate (length a) 0"] ring_mul_nth [of b a]
  by (intro nth_equalityI) (auto simp: negacyclic_mul_def)


section \<open>Shifts\<close>

lemma shift_term_nth:
  assumes "length out = D" "s < D" "j < D" "i < D"
  shows "length (shift_term D g s a i out) = D"
    and "shift_term D g s a i out ! j =
      (if i = (if s \<le> j then j - s else j + D - s) then if g = (s \<le> j) then - a ! i else a ! i else out ! j)"
proof -
  show "length (shift_term D g s a i out) = D" using assms by (simp add: shift_term_def Let_def)
  show "shift_term D g s a i out ! j =
      (if i = (if s \<le> j then j - s else j + D - s) then if g = (s \<le> j) then - a ! i else a ! i else out ! j)"
  proof (cases "i + s < D")
    case True
    then have "(i = (if s \<le> j then j - s else j + D - s)) = (i + s = j)" using assms by simp linarith
    moreover have "i + s = j \<Longrightarrow> s \<le> j" by simp
    ultimately show ?thesis using True assms by (simp add: shift_term_def nth_list_update)
  next
    case False
    then have "(i = (if s \<le> j then j - s else j + D - s)) = (i + s - D = j)" using assms by simp linarith
    moreover have "i + s - D = j \<Longrightarrow> \<not> s \<le> j" using False assms by linarith
    ultimately show ?thesis using False assms by (simp add: shift_term_def nth_list_update)
  qed
qed

lemma shift_terms_nth:
  assumes s: "s < D" and j: "j < D" and p: "p = (if s \<le> j then j - s else j + D - s)"
  shows "n \<le> D \<Longrightarrow> length (fold (shift_term D g s a) [0..<n] (replicate D 0)) = D \<and>
    fold (shift_term D g s a) [0..<n] (replicate D 0) ! j =
      (if p < n then if g = (s \<le> j) then - a ! p else a ! p else 0)"
proof (induction n)
  case (Suc n)
  then have IH: "length (fold (shift_term D g s a) [0..<n] (replicate D 0)) = D"
    "fold (shift_term D g s a) [0..<n] (replicate D 0) ! j =
      (if p < n then if g = (s \<le> j) then - a ! p else a ! p else 0)" and n: "n < D" by simp_all
  from shift_term_nth [OF IH(1) s j n, of g a, folded p] IH(2) show ?case
    by (cases "n = p") (simp_all add: less_Suc_eq)
qed (use j in simp)

lemma ext_neg: "ext (ring_neg a) i = - ext a i" if "a \<noteq> []"
proof -
  have "nat (i mod int (length a)) < length a" using that by (simp add: nat_less_iff)
  then show ?thesis by (simp add: ext_def ring_neg_def Let_def)
qed

lemma length_negacyclic_shift [simp]: "length (negacyclic_shift a k) = length a"
proof -
  have "length (fold (shift_term D g s a) is out) = length out" for D g s "is" out
    by (induction "is" arbitrary: out) (auto simp: shift_term_def Let_def)
  then show ?thesis by (simp add: negacyclic_shift_def Let_def ring_neg_def)
qed

lemma ext_step_mult: "a \<noteq> [] \<Longrightarrow> ext a (i - int (2 * length a) * int m) = ext a i"
proof (induction m)
  case (Suc m)
  have "i - int (2 * length a) * int (Suc m) = i - int (2 * length a) * int m - int (length a) - int (length a)"
    by (simp add: algebra_simps)
  moreover have "ext a (x - int (length a) - int (length a)) = ext a x" for x
    using ext_minus_shift [OF Suc.prems, of x] ext_minus_shift [OF Suc.prems, of "x - int (length a)"] by simp
  ultimately show ?case using Suc by presburger
qed simp

lemma ext_negacyclic_shift:
  assumes "a \<noteq> []"
  shows "ext (negacyclic_shift a k0) i = ext a (i - int k0)"
proof -
  let ?D = "length a" and ?k = "k0 mod (2 * length a)"
  have D: "0 < ?D" using assms by simp
  have red: "ext a (i - int k0) = ext a (i - int ?k)" for i
  proof -
    have "int k0 = int ?k + int (2 * ?D) * int (k0 div (2 * ?D))"
      by (metis mod_mult_div_eq of_nat_add of_nat_mult)
    then show ?thesis using ext_step_mult [OF assms, of "i - int ?k" "k0 div (2 * ?D)"] by (simp add: diff_diff_eq)
  qed
  have "ext (negacyclic_shift a k0) i = ext a (i - int ?k)"
  proof (rule ext_determined)
    show "length (negacyclic_shift a k0) = ?D" "0 < ?D" using D by simp_all
    show "ext a (i + int ?D - int ?k) = - ext a (i - int ?k)" for i
      using ext_shift [OF assms, of "i - int ?k"] by (simp add: algebra_simps)
    fix j assume j: "j < ?D"
    show "negacyclic_shift a k0 ! j = ext a (int j - int ?k)"
    proof (cases "?k = 0")
      case True
      then show ?thesis using j by (simp add: negacyclic_shift_def Let_def ext_nth)
    next
      case k: False
      let ?s = "?k mod ?D" and ?g = "?k \<ge> ?D"
      have lt: "?k < 2 * ?D" using D by simp
      have ks: "?k = ?s + (if ?g then ?D else 0)"
        using lt by (cases ?g) (simp_all add: le_mod_geq)
      have sh: "ext a (int j - int ?k) = (if ?g then - ext a (int j - int ?s) else ext a (int j - int ?s))"
      proof (cases ?g)
        case True
        then have "int j - int ?k = int j - int ?s - int ?D" using ks by simp
        then have "ext a (int j - int ?k) = - ext a (int j - int ?s)"
          using ext_minus_shift [OF assms, of "int j - int ?s"] by presburger
        then show ?thesis using True by simp
      next
        case False
        then show ?thesis using ks by simp
      qed
      show ?thesis
      proof (cases "?s = 0")
        case True
        with k ks have ?g by (simp split: if_splits)
        then show ?thesis
          unfolding sh using True k j by (simp add: negacyclic_shift_def Let_def ring_neg_def ext_nth)
      next
        case False
        then have s: "0 < ?s" "?s < ?D" using D by simp_all
        have "negacyclic_shift a k0 = fold (shift_term ?D ?g ?s a) [0..<?D] (replicate ?D 0)"
          using k False by (simp add: negacyclic_shift_def Let_def)
        moreover have "(if ?s \<le> j then j - ?s else j + ?D - ?s) < ?D" using s j by simp linarith
        ultimately have "negacyclic_shift a k0 ! j = (if ?g = (?s \<le> j)
            then - a ! (if ?s \<le> j then j - ?s else j + ?D - ?s) else a ! (if ?s \<le> j then j - ?s else j + ?D - ?s))"
          using shift_terms_nth [OF s(2) j refl, of ?D ?g a] by simp
        moreover have "ext a (int j - int ?s) = (if ?s \<le> j then a ! (j - ?s) else - a ! (j + ?D - ?s))"
          using ext_diff [OF refl j s(2)] .
        ultimately show ?thesis
          unfolding sh by (cases ?g; cases "?s \<le> j") simp_all
      qed
    qed
  qed
  then show ?thesis by (simp add: red)
qed

section \<open>Ring laws\<close>

lemma length_ring_one [simp]: "length (ring_one D) = D"
  by (simp add: ring_one_def)

lemma ext_one:
  fixes a :: "'a::comm_ring_1 list"
  assumes "0 < D" "length a = D"
  shows "conv (ring_one D) a k = ext a k"
proof -
  have "ext (ring_one D :: 'a list) (int i) = (if i = 0 then 1 else 0)" if "i < D" for i
    using that assms by (simp add: ext_nth ring_one_def nth_list_update)
  then have "conv (ring_one D) a k = (\<Sum>i < D. if i = 0 then ext a (k - int i) else 0)"
    unfolding conv_def psum_def by (intro sum.cong) (auto simp: ring_one_def)
  also have "\<dots> = ext a k" using assms by (simp add: sum.delta)
  finally show ?thesis .
qed

lemma ext_add:
  assumes "length b = length a" "a \<noteq> []"
  shows "ext (add_assign a b) i = ext a i + ext b i"
proof -
  have "nat (i mod int (length a)) < length a" using assms by (simp add: nat_less_iff)
  with assms show ?thesis by (simp add: ext_def Let_def zip_update_add)
qed

text \<open>The interface of a commutative ring on a carrier, and what its clients use.\<close>

locale comm_ring_on =
  fixes carrier :: "'r set" and add :: "'r \<Rightarrow> 'r \<Rightarrow> 'r" and mul :: "'r \<Rightarrow> 'r \<Rightarrow> 'r" and unit :: "'r"
  assumes add_closed: "a \<in> carrier \<Longrightarrow> b \<in> carrier \<Longrightarrow> add a b \<in> carrier"
    and mul_closed: "a \<in> carrier \<Longrightarrow> b \<in> carrier \<Longrightarrow> mul a b \<in> carrier"
    and unit_closed: "unit \<in> carrier"
    and mul_comm: "a \<in> carrier \<Longrightarrow> b \<in> carrier \<Longrightarrow> mul a b = mul b a"
    and mul_assoc: "a \<in> carrier \<Longrightarrow> b \<in> carrier \<Longrightarrow> c \<in> carrier \<Longrightarrow> mul (mul a b) c = mul a (mul b c)"
    and mul_unit: "a \<in> carrier \<Longrightarrow> mul unit a = a"
    and distrib: "a \<in> carrier \<Longrightarrow> b \<in> carrier \<Longrightarrow> c \<in> carrier \<Longrightarrow> mul a (add b c) = add (mul a b) (mul a c)"
begin

lemma mul_left_comm:
  "a \<in> carrier \<Longrightarrow> b \<in> carrier \<Longrightarrow> c \<in> carrier \<Longrightarrow> mul a (mul b c) = mul b (mul a c)"
  by (metis mul_assoc mul_comm)

text \<open>An inverse is unique, and inverses multiply.\<close>

lemma inverse_unique:
  assumes "a \<in> carrier" "x \<in> carrier" "y \<in> carrier" "mul a x = unit" "mul a y = unit"
  shows "x = y"
  by (metis assms mul_assoc mul_comm mul_unit)

lemma inverse_of_norm:
  assumes "a \<in> carrier" "c \<in> carrier" "n \<in> carrier" "mul n (mul a c) = unit"
  shows "mul a (mul n c) = unit"
  using assms mul_left_comm by simp

end

lemma ring_mul_comm:
  assumes "length b = length a"
  shows "ring_mul a b = ring_mul b a"
proof (cases "a = []")
  case True
  with assms show ?thesis by simp
next
  case False
  then have "b \<noteq> []" using assms by auto
  with False assms show ?thesis
    using ext_ring_mul [of b a] ext_ring_mul [of a b] conv_commute [of a b] ring_mul_nth(1) [of a b] ring_mul_nth(1) [of b a]
    by (intro ext_eqI) simp_all
qed

lemma ring_mul_assoc:
  assumes "length a = D" "length b = D" "length c = D"
  shows "ring_mul (ring_mul a b) c = ring_mul a (ring_mul b c)"
proof (cases "a = []")
  case True
  with assms show ?thesis by (intro ext_eqI) (simp_all add: ring_mul_nth)
next
  case False
  then have b: "b \<noteq> []" using assms by auto
  have ne: "ring_mul a b \<noteq> []" using False assms ring_mul_nth(1) [of b a] by auto
  show ?thesis
  proof (rule ext_eqI)
    fix i
    have "conv (ring_mul a b) c i = conv a (ring_mul b c) i"
      using False b assms by (intro conv_assoc_sum) (simp_all add: ring_mul_nth ext_ring_mul)
    then show "ext (ring_mul (ring_mul a b) c) i = ext (ring_mul a (ring_mul b c)) i"
      using False ne assms by (simp add: ext_ring_mul ring_mul_nth)
  qed (use assms in \<open>simp add: ring_mul_nth\<close>)
qed

lemma ring_mul_one: "length a = D \<Longrightarrow> ring_mul (ring_one D) a = a"
proof (cases "a = []")
  case False
  assume a: "length a = D"
  with False have D: "0 < D" by auto
  have one: "length (ring_one D :: 'a list) = D" "ring_one D \<noteq> []" using D by (auto simp: ring_one_def)
  show ?thesis
    using a one ext_ring_mul [of a "ring_one D"] ext_one [OF D a] ring_mul_nth(1) [of a "ring_one D"]
    by (intro ext_eqI) simp_all
qed (simp add: ring_mul_def ring_one_def)

lemma ring_mul_distrib:
  assumes "length a = D" "length b = D" "length c = D"
  shows "ring_mul a (add_assign b c) = add_assign (ring_mul a b) (ring_mul a c)"
proof (cases "a = []")
  case True
  with assms show ?thesis by (intro ext_eqI) (simp_all add: ring_mul_nth zip_update_add)
next
  case False
  then have ne: "b \<noteq> []" "c \<noteq> []" "ring_mul a b \<noteq> []" using assms ring_mul_nth(1) [of b a] by auto
  show ?thesis
  proof (rule ext_eqI)
    fix i
    show "ext (ring_mul a (add_assign b c)) i = ext (add_assign (ring_mul a b) (ring_mul a c)) i"
      using False ne assms
      by (simp add: ext_ring_mul ext_add ring_mul_nth conv_def psum_def distrib_left sum.distrib)
  qed (use assms in \<open>simp add: ring_mul_nth\<close>)
qed

interpretation rq: comm_ring_on "{a. length a = D}" add_assign ring_mul "ring_one D" for D
proof unfold_locales
  fix a b c :: "'a list"
  assume a: "a \<in> {a. length a = D}" and b: "b \<in> {a. length a = D}" and c: "c \<in> {a. length a = D}"
  show "ring_mul (ring_mul a b) c = ring_mul a (ring_mul b c)" using a b c ring_mul_assoc by simp
  show "ring_mul a (add_assign b c) = add_assign (ring_mul a b) (ring_mul a c)" using a b c ring_mul_distrib by simp
next
  fix a b :: "'a list"
  assume a: "a \<in> {a. length a = D}" and b: "b \<in> {a. length a = D}"
  show "add_assign a b \<in> {a. length a = D}" "ring_mul a b \<in> {a. length a = D}" using a b by (simp_all add: ring_mul_nth)
  show "ring_mul a b = ring_mul b a" using a b by (simp add: ring_mul_comm)
qed (simp_all add: ring_mul_one)


section \<open>Multiplication by the generator\<close>

lemma mul_x_shift:
  fixes a :: "'a::comm_ring_1 list"
  assumes x: "ring_x (length a) = Some x"
  shows "ext (ring_mul x a) i = ext a (i - 1)" "length x = length a" "2 \<le> length a"
proof -
  let ?D = "length a"
  from x show D: "2 \<le> ?D" and len: "length x = ?D" by (auto simp: ring_x_def split: if_splits)
  then have ne: "x \<noteq> []" by auto
  have nth: "ext x (int j) = (if j = 1 then 1 else 0)" if "j < ?D" for j
    using x that len ext_nth [of j x] by (auto simp: ring_x_def nth_list_update split: if_splits)
  have "conv x a i = (\<Sum>j < ?D. if j = 1 then ext a (i - int j) else 0)"
    unfolding conv_def psum_def len by (intro sum.cong) (auto simp: nth)
  also have "\<dots> = ext a (i - 1)" using D by (simp add: sum.delta)
  finally show "ext (ring_mul x a) i = ext a (i - 1)" using ext_ring_mul [of a x] ne len by simp
qed

lemma mul_x_power:
  assumes x: "ring_x (length a) = Some x"
  shows "length ((ring_mul x ^^ k) a) = length a \<and> (\<forall>i. ext ((ring_mul x ^^ k) a) i = ext a (i - int k))"
proof (induction k)
  case (Suc k)
  let ?b = "(ring_mul x ^^ k) a"
  have b: "length ?b = length a" "\<And>i. ext ?b i = ext a (i - int k)" using Suc by auto
  have x': "ring_x (length ?b) = Some x" using x b by simp
  have "length (ring_mul x ?b) = length a" using mul_x_shift(2) [OF x] b by (simp add: ring_mul_nth)
  moreover have "ext (ring_mul x ?b) i = ext a (i - int (Suc k))" for i
    using mul_x_shift(1) [OF x'] b by (simp add: algebra_simps)
  ultimately show ?case by simp
qed simp

section \<open>The conjugation automorphism and inner products\<close>

lemma sigma_scatter: "sigma_term D k a = scatter D (\<lambda>j. (j * k) mod (2 * D)) (\<lambda>j. a ! j)"
  by (intro HOL.ext) (simp add: sigma_term_def scatter_def Let_def)

lemma sigma_m1_target: "j < (D :: nat) \<Longrightarrow> (j * (2 * D - 1)) mod (2 * D) = (if j = 0 then 0 else 2 * D - j)"
proof (cases "j = 0")
  case False
  assume j: "j < D"
  have "j * (2 * D - 1) = j * (2 * D) - j" by (simp add: diff_mult_distrib2)
  also have "\<dots> = (2 * D - j) + (j - 1) * (2 * D)"
    using False j by (cases j) (simp_all add: algebra_simps)
  finally have "(j * (2 * D - 1)) mod (2 * D) = (2 * D - j) mod (2 * D)" by simp
  then show ?thesis using False j by simp
qed simp

lemma sigma_m1_eq:
  assumes "a \<noteq> []"
  obtains c where "sigma_m1 a = Some c" "length c = length a" "\<And>i. i < length a \<Longrightarrow> ext c (- int i) = a ! i"
proof -
  let ?D = "length a"
  have D: "0 < ?D" using assms by simp
  let ?t = "\<lambda>j. (j * (2 * ?D - 1)) mod (2 * ?D)"
  define c where "c = fold (scatter ?D ?t (\<lambda>j. a ! j)) [0..<?D] (replicate ?D 0)"
  have "(2 * ?D - 1) mod (2 * ?D) = 2 * ?D - 1" "(2 * ?D - 1) mod 2 = 1" using D by (simp, presburger)
  then have some: "sigma_m1 a = Some c" using D by (simp add: sigma_m1_def sigma_def Let_def sigma_scatter c_def)
  have len: "length c = ?D" by (simp add: c_def)
  have nth: "c ! k = (if k = 0 then a ! 0 else - a ! (?D - k))" if k: "k < ?D" for k
  proof -
    have "c ! k = (\<Sum>j < ?D. if ?t j = k then a ! j else if ?t j = k + ?D then - a ! j else 0)"
      unfolding c_def using k D by (subst scatter_nth) simp_all
    also have "\<dots> = (\<Sum>j < ?D. if (if k = 0 then 0 else ?D - k) = j then if k = 0 then a ! 0 else - a ! (?D - k) else 0)"
      using k by (intro sum.cong refl) (auto simp: sigma_m1_target [unfolded One_nat_def])
    also have "\<dots> = (if k = 0 then a ! 0 else - a ! (?D - k))" using k D by simp
    finally show ?thesis .
  qed
  have "ext c (- int i) = a ! i" if i: "i < ?D" for i
  proof (cases "i = 0")
    case True
    then show ?thesis using nth [of 0] len D ext_nth [of 0 c] by simp
  next
    case False
    have "- int i = int (?D - i) - int (length c)" using i len by simp
    moreover have "c \<noteq> []" using len D by auto
    ultimately have "ext c (- int i) = - ext c (int (?D - i))" using ext_minus_shift by metis
    also have "ext c (int (?D - i)) = c ! (?D - i)" using i False len by (intro ext_nth) simp
    also have "\<dots> = - a ! i" using i False by (simp add: nth)
    finally show ?thesis by simp
  qed
  with some len show ?thesis by (rule that)
qed

lemma inner_product_sum:
  "length b = length a \<Longrightarrow> coefficient_inner_product a b = (\<Sum>i < length a. a ! i * b ! i)"
proof -
  have "foldl (\<lambda>acc (x, y). field_mul_add x y acc) s (zip a b) = s + (\<Sum>i < length a. a ! i * b ! i)"
    if "length b = length a" for s using that
  proof (induction b a arbitrary: s rule: list_induct2)
    case (Cons y ys x xs)
    then show ?case by (simp add: field_mul_add_def sum.lessThan_Suc_shift add.assoc del: sum.lessThan_Suc)
  qed simp
  from this [of 0] show "length b = length a \<Longrightarrow> ?thesis" by (simp add: coefficient_inner_product_def)
qed

section \<open>Evaluation is a homomorphism\<close>

lemma eval_ring_at_sum: "eval_ring_at a z = (\<Sum>i < length a. a ! i * z ^ i)"
proof -
  have "foldl (\<lambda>(acc, pw) c. (acc + c * pw, pw * z)) (s, z ^ n) a = (s + (\<Sum>i < length a. a ! i * z ^ (n + i)), z ^ (n + length a))"
    for s n
  proof (induction a arbitrary: s n)
    case (Cons c a)
    from Cons [of "s + c * z ^ n" "Suc n"] show ?case
      by (simp add: sum.lessThan_Suc_shift add.assoc mult.commute del: sum.lessThan_Suc)
  qed simp
  from this [of 0 0] show ?thesis by (simp add: eval_ring_at_def)
qed

lemma eval_row:
  assumes "length b = D" "i < D" "z ^ D = - 1"
  shows "(\<Sum>k < D. ext b (int k - int i) * z ^ k) = z ^ i * (\<Sum>j < D. b ! j * z ^ j)"
proof -
  have row: "ext b (int k - int i) = (\<Sum>j < D. if i + j = k then b ! j else if i + j = k + D then - b ! j else 0)"
    if "k < D" for k using row_sum [of b D k i 1] that assms unfolding mult_1 by simp
  have "(\<Sum>k < D. ext b (int k - int i) * z ^ k) =
      (\<Sum>k < D. \<Sum>j < D. (if i + j = k then b ! j else if i + j = k + D then - b ! j else 0) * z ^ k)"
    by (intro sum.cong refl) (simp add: row sum_distrib_right)
  also have "\<dots> = (\<Sum>j < D. \<Sum>k < D. (if i + j = k then b ! j else if i + j = k + D then - b ! j else 0) * z ^ k)"
    by (rule sum.swap)
  also have "\<dots> = (\<Sum>j < D. b ! j * z ^ (i + j))"
  proof (intro sum.cong refl)
    fix j assume "j \<in> {..<D}"
    then have j: "j < D" by simp
    show "(\<Sum>k < D. (if i + j = k then b ! j else if i + j = k + D then - b ! j else 0) * z ^ k) = b ! j * z ^ (i + j)"
    proof (cases "i + j < D")
      case True
      then have "(\<Sum>k < D. (if i + j = k then b ! j else if i + j = k + D then - b ! j else 0) * z ^ k) =
          (\<Sum>k < D. if i + j = k then b ! j * z ^ (i + j) else 0)" by (intro sum.cong) auto
      with True show ?thesis by simp
    next
      case False
      then have "(\<Sum>k < D. (if i + j = k then b ! j else if i + j = k + D then - b ! j else 0) * z ^ k) =
          (\<Sum>k < D. if i + j - D = k then - b ! j * z ^ (i + j - D) else 0)" by (intro sum.cong) auto
      also have "\<dots> = - b ! j * z ^ (i + j - D)"
      proof -
        have "i + j - D < D" using j assms by linarith
        then show ?thesis by simp
      qed
      also have "\<dots> = b ! j * (z ^ D * z ^ (i + j - D))" by (simp add: assms)
      also have "\<dots> = b ! j * z ^ (i + j)" using False by (simp flip: power_add)
      finally show ?thesis .
    qed
  qed
  finally show ?thesis by (simp add: sum_distrib_left power_add mult.left_commute)
qed

lemma eval_ring_mul:
  assumes "length b = length a" "z ^ length a = - 1"
  shows "eval_ring_at (ring_mul a b) z = eval_ring_at a z * eval_ring_at b z"
proof -
  let ?D = "length a"
  have "eval_ring_at (ring_mul a b) z = (\<Sum>k < ?D. (\<Sum>i < ?D. a ! i * ext b (int k - int i)) * z ^ k)"
    using assms by (simp add: eval_ring_at_sum ring_mul_nth conv_def psum_def ext_nth)
  also have "\<dots> = (\<Sum>i < ?D. a ! i * (\<Sum>k < ?D. ext b (int k - int i) * z ^ k))"
    by (simp add: sum_distrib_right sum_distrib_left mult.assoc) (rule sum.swap)
  also have "\<dots> = (\<Sum>i < ?D. a ! i * z ^ i * eval_ring_at b z)"
    using assms by (intro sum.cong) (simp_all add: eval_row eval_ring_at_sum mult.assoc)
  finally show ?thesis by (simp add: eval_ring_at_sum [of a] sum_distrib_right)
qed

lemma power_sequence_loop_eq:
  "power_sequence_loop e q point = e * (\<Sum>b < 2 ^ length point. q ^ b * eq_at point b)"
proof (induction point arbitrary: e q)
  case (Cons c cs)
  have "(\<Sum>b < 2 * 2 ^ length cs. q ^ b * eq_at (c # cs) b) =
      (\<Sum>i < 2 ^ length cs. q ^ (2 * i) * eq_at (c # cs) (2 * i) + q ^ (2 * i + 1) * eq_at (c # cs) (2 * i + 1))"
    by (rule sum_even)
  also have "\<dots> = (\<Sum>i < 2 ^ length cs. ((1 - c) + c * q) * ((q * q) ^ i * eq_at cs i))"
    by (intro sum.cong refl) (simp add: power_mult power2_eq_square algebra_simps)
  finally show ?case by (simp add: Cons.IH sum_distrib_left mult.assoc)
qed simp


section \<open>Inversion through the even subring\<close>

text \<open>The embedding \<open>Y \<mapsto> X\<^sup>2\<close> of the half-degree ring.\<close>

definition even_embed :: "'a::comm_ring_1 list \<Rightarrow> 'a list" where
  "even_embed y = write_step_by_2 (replicate (2 * length y) 0) y"

lemma write_step_by_2_zeros:
  "write_step_by_2 (replicate (2 * length y) 0) y = concat (map (\<lambda>c. [c, 0]) y)"
  by (induction y) simp_all

lemma length_pairs: "length (concat (map (\<lambda>c. [c, 0]) y)) = 2 * length y"
  by (induction y) simp_all

lemma nth_pairs: "i < 2 * length y \<Longrightarrow> concat (map (\<lambda>c. [c, 0]) y) ! i = (if even i then y ! (i div 2) else 0)"
proof (induction y arbitrary: i)
  case (Cons c y)
  show ?case
  proof (cases "i < 2")
    case True
    then have "i = 0 \<or> i = 1" by auto
    then show ?thesis by auto
  next
    case False
    then obtain j where "i = j + 2" by (metis add.commute le_Suc_ex linorder_not_less)
    with Cons show ?thesis by simp
  qed
qed simp

lemma even_embed_props:
  "length (even_embed y) = 2 * length y"
  "i < 2 * length y \<Longrightarrow> even_embed y ! i = (if even i then y ! (i div 2) else 0)"
  by (simp_all add: even_embed_def write_step_by_2_zeros length_pairs nth_pairs)

lemma ext_even_embed:
  assumes "y \<noteq> []"
  shows "ext (even_embed y) i = (if even i then ext y (i div 2) else 0)"
proof (rule ext_determined)
  show "length (even_embed y) = 2 * length y" "0 < 2 * length y" using assms by (simp_all add: even_embed_props)
  show "even_embed y ! k = (if even (int k) then ext y (int k div 2) else 0)" if "k < 2 * length y" for k
  proof -
    have "k div 2 < length y" using that by linarith
    then show ?thesis using that ext_nth [of "k div 2" y] by (simp add: even_embed_props zdiv_int)
  qed
  show "(if even (i + int (2 * length y)) then ext y ((i + int (2 * length y)) div 2) else 0) =
      - (if even i then ext y (i div 2) else 0)" for i
    using ext_shift [OF assms, of "i div 2"] by simp
qed

lemma psum_even: "psum (2 * n) f = psum n (\<lambda>i. f (2 * i)) + psum n (\<lambda>i. f (2 * i + 1))"
  by (simp add: psum_def sum_even sum.distrib add.commute)

lemma even_embed_mul:
  assumes "length y = length x"
  shows "ring_mul (even_embed x) (even_embed y) = even_embed (ring_mul x y)"
proof (cases "x = []")
  case True
  with assms show ?thesis by (simp add: even_embed_def ring_mul_def)
next
  case False
  then have ne: "y \<noteq> []" "even_embed x \<noteq> []" "ring_mul x y \<noteq> []"
    using assms even_embed_props(1) [of x] ring_mul_nth(1) [of y x] by auto
  show ?thesis
  proof (rule ext_eqI)
    show "length (ring_mul (even_embed x) (even_embed y)) = length (even_embed (ring_mul x y))"
      using assms by (simp add: ring_mul_nth even_embed_props)
    fix k
    have "ext (ring_mul (even_embed x) (even_embed y)) k =
        psum (2 * length x) (\<lambda>i. ext (even_embed x) i * ext (even_embed y) (k - i))"
      using ne assms by (simp add: ext_ring_mul conv_def even_embed_props)
    also have "\<dots> = (if even k then conv x y (k div 2) else 0)"
    proof -
      have "(k - 2 * i) div 2 = k div 2 - i" for i :: int using div_mult_self2 [of 2 k "- i"] by simp
      then show ?thesis
        using False ne by (simp add: psum_even ext_even_embed conv_def) (simp add: psum_def)
    qed
    also have "\<dots> = ext (even_embed (ring_mul x y)) k"
      using ne False assms by (simp add: ext_even_embed ext_ring_mul)
    finally show "ext (ring_mul (even_embed x) (even_embed y)) k = ext (even_embed (ring_mul x y)) k" .
  qed
qed

lemma even_embed_one: "0 < n \<Longrightarrow> even_embed (ring_one n) = ring_one (2 * n)"
  by (rule nth_equalityI) (auto simp: even_embed_props ring_one_def nth_list_update)

lemma ext_conjugate:
  assumes "a \<noteq> []" "even (length a)"
  shows "ext (conjugate_coeffs a) i = (if even i then ext a i else - ext a i)"
proof (rule ext_determined)
  show "length (conjugate_coeffs a) = length a" "0 < length a" using assms by (simp_all add: conjugate_coeffs_def)
  show "conjugate_coeffs a ! k = (if even (int k) then ext a (int k) else - ext a (int k))" if "k < length a" for k
  proof -
    have "k mod 2 = 0 \<longleftrightarrow> even k" by presburger
    then show ?thesis using that by (simp add: conjugate_coeffs_def ext_nth nth_enumerate_eq)
  qed
  show "(if even (i + int (length a)) then ext a (i + int (length a)) else - ext a (i + int (length a))) =
      - (if even i then ext a i else - ext a i)" for i
    using ext_shift [OF assms(1), of i] assms(2) by simp
qed

text \<open>The product of an element and its conjugate has no odd coefficients.\<close>

lemma norm_odd_zero:
  assumes "a \<noteq> []" "length a = 2 * n" "odd k"
  shows "conv a (conjugate_coeffs a) k = 0"
proof -
  have ev: "even (length a)" using assms by simp
  define f where "f = (\<lambda>i. ext a i * ext (conjugate_coeffs a) (k - i))"
  have len: "length (conjugate_coeffs a) = length a" by (simp add: conjugate_coeffs_def)
  have per: "f (i + int (2 * n)) = f i" for i
    using conv_periodic [OF assms(1) len, of i k] assms(2) by (simp add: f_def)
  have anti: "f (k - i) = - f i" for i
    using assms by (simp add: f_def ext_conjugate [OF assms(1) ev] mult.commute)
  have "psum n (\<lambda>i. f (2 * i + 1)) = psum n (\<lambda>i. f (2 * ((k - 1) div 2 - i) + 1))"
  proof (rule psum_reflect [symmetric])
    fix i show "f (2 * (i + int n) + 1) = f (2 * i + 1)" using per [of "2 * i + 1"] by (simp add: algebra_simps)
  qed
  also have "\<dots> = psum n (\<lambda>i. f (k - 2 * i))"
  proof -
    have "2 * ((k - 1) div 2) + 1 = k" using assms(3) by (auto elim: oddE)
    then have sub: "2 * ((k - 1) div 2 - i) + 1 = k - 2 * i" for i by (simp add: algebra_simps)
    show ?thesis unfolding sub ..
  qed
  also have "\<dots> = - psum n (\<lambda>i. f (2 * i))" by (simp add: anti psum_def sum_negf)
  finally have "psum (2 * n) f = 0" by (simp add: psum_even)
  then show ?thesis by (simp add: conv_def f_def assms(2))
qed

lemma step_by_2_nth: "i < length (step_by_2 xs) \<Longrightarrow> step_by_2 xs ! i = xs ! (2 * i)"
  by (induction xs arbitrary: i rule: step_by_2.induct) (auto simp: nth_Cons' less_Suc_eq_0_disj)

lemma even_embed_step_by_2:
  assumes "length c = 2 * n" "\<And>k. k < 2 * n \<Longrightarrow> odd k \<Longrightarrow> c ! k = 0"
  shows "even_embed (step_by_2 c) = c"
  using assms
  by (intro nth_equalityI) (auto simp: even_embed_props step_by_2_nth)

lemma negacyclic_inverse_correct:
  assumes inv: "\<And>c i. field_inverse c = Some i \<Longrightarrow> c * i = 1"
  shows "length v = 2 ^ m \<Longrightarrow> negacyclic_inverse field_inverse v = Some w \<Longrightarrow>
    length w = length v \<and> ring_mul v w = ring_one (length v)"
proof (induction m arbitrary: v w)
  case 0
  then obtain c where v: "v = [c]" by (cases v) auto
  with 0 obtain i where "field_inverse c = Some i" "w = [i]" by (auto simp: negacyclic_inverse.simps)
  with inv v show ?case by (simp add: ring_mul_def mul_term_def ring_one_def Let_def)
next
  case (Suc m)
  let ?n = "2 ^ m :: nat"
  have l0: "length v = 2 * ?n" using Suc.prems(1) by simp
  have "0 < ?n" by simp
  with l0 have "1 < length v" by linarith
  with l0 have len: "length v = 2 * ?n" "\<not> length v \<le> 1" "v \<noteq> []" by auto
  define c where "c = conjugate_coeffs v"
  define norm where "norm = step_by_2 (ring_mul v c)"
  have c: "length c = length v" by (simp add: c_def conjugate_coeffs_def)
  have norm_len: "length norm = ?n" using len c by (simp add: norm_def ring_mul_nth)
  have "negacyclic_inverse field_inverse v = (case negacyclic_inverse field_inverse norm of None \<Rightarrow> None
      | Some z \<Rightarrow> Some (negacyclic_mul (write_step_by_2 (replicate (length v) 0) z) c))"
    using len(2) negacyclic_mul_eq [OF c]
    by (subst negacyclic_inverse.simps) (simp only: Let_def if_False norm_def c_def)
  with Suc.prems(2) obtain z where z: "negacyclic_inverse field_inverse norm = Some z"
    and w: "w = negacyclic_mul (write_step_by_2 (replicate (length v) 0) z) c"
    by (auto split: option.splits simp del: negacyclic_inverse.simps)
  from Suc.IH [OF norm_len z] have zl: "length z = ?n" and nz: "ring_mul norm z = ring_one ?n"
    by (simp_all add: norm_len)
  have lift: "write_step_by_2 (replicate (length v) 0) z = even_embed z" using len zl by (simp add: even_embed_def)
  have l: "length (even_embed z) = length v" using zl len by (simp add: even_embed_props)
  have vc: "ring_mul v c = even_embed norm"
    unfolding norm_def
  proof (rule even_embed_step_by_2 [symmetric])
    show "length (ring_mul v c) = 2 * ?n" using len c by (simp add: ring_mul_nth)
    show "ring_mul v c ! k = 0" if "k < 2 * ?n" "odd k" for k
      using that len c norm_odd_zero [OF len(3,1), of "int k"] by (simp add: ring_mul_nth c_def)
  qed
  have "ring_mul (even_embed z) (ring_mul v c) = even_embed (ring_mul z norm)"
    unfolding vc using zl norm_len by (intro even_embed_mul) simp
  also have "ring_mul z norm = ring_one ?n" using nz zl norm_len by (simp add: ring_mul_comm [of norm z])
  finally have "ring_mul (even_embed z) (ring_mul v c) = ring_one (length v)" by (simp add: even_embed_one len)
  then have "ring_mul v (ring_mul (even_embed z) c) = ring_one (length v)"
    using c l rq.inverse_of_norm [of v "length v" c "even_embed z"] by simp
  moreover have "w = ring_mul (even_embed z) c" using w lift c l by (simp add: negacyclic_mul_eq)
  ultimately show ?case using c l by (simp add: ring_mul_nth)
qed


text \<open>A coefficient of the product: the direct products, less those that wrap.\<close>

lemma ring_mul_coefficient:
  assumes len: "length b = length a" and k: "k < length a"
  shows "ring_mul a b ! k = (\<Sum>i \<le> k. a ! i * b ! (k - i)) - (\<Sum>i \<in> {k<..<length a}. a ! i * b ! (length a + k - i))"
proof -
  let ?D = "length a"
  have direct: "ext b (int k - int i) = b ! (k - i)" if "i \<le> k" for i
    using that ext_nth [of "k - i" b] k len by (simp add: of_nat_diff)
  have wrapped: "ext b (int k - int i) = - (b ! (?D + k - i))" if "k < i" "i < ?D" for i
  proof -
    have "b \<noteq> []" using len k by auto
    then have "ext b (int k - int i) = - ext b (int (?D + k - i))"
      using ext_shift [of b "int k - int i"] that len by (simp add: of_nat_diff algebra_simps)
    also have "ext b (int (?D + k - i)) = b ! (?D + k - i)" using that len by (intro ext_nth) simp
    finally show ?thesis .
  qed
  have "ring_mul a b ! k = (\<Sum>i < ?D. a ! i * ext b (int k - int i))"
    unfolding ring_mul_nth(2) [OF len k] conv_def psum_def by (intro sum.cong refl) (simp add: ext_nth)
  also have "{..<?D} = {..k} \<union> {k<..<?D}" using k by auto
  also have "(\<Sum>i \<in> {..k} \<union> {k<..<?D}. a ! i * ext b (int k - int i)) =
      (\<Sum>i \<le> k. a ! i * ext b (int k - int i)) + (\<Sum>i \<in> {k<..<?D}. a ! i * ext b (int k - int i))"
    by (rule sum.union_disjoint) auto
  also have "\<dots> = (\<Sum>i \<le> k. a ! i * b ! (k - i)) + (\<Sum>i \<in> {k<..<?D}. - (a ! i * b ! (?D + k - i)))"
    by (intro arg_cong2 [where f = plus] sum.cong refl) (simp_all add: direct wrapped)
  finally show ?thesis by (simp add: sum_negf)
qed

section \<open>Properties\<close>

text \<open>
  C14.  The schoolbook product is the product of \<open>F[X]/(X\<^sup>D + 1)\<close>: coefficient \<open>k\<close> is the sum of the
  direct products of total degree \<open>k\<close> less that of the products of total degree \<open>D + k\<close>, which wrap
  with a sign.  Under it and the coefficientwise sum the coefficient arrays of one degree are a
  commutative ring, whose unit is the one of the code.
\<close>

theorem negacyclic_ring_laws:
  assumes "length a = D" "length b = D" "length c = D"
  shows "length (ring_mul a b) = D \<and>
    (\<forall>k < D. ring_mul a b ! k = (\<Sum>i \<le> k. a ! i * b ! (k - i)) - (\<Sum>i \<in> {k<..<D}. a ! i * b ! (D + k - i))) \<and>
    ring_mul a b = ring_mul b a \<and>
    ring_mul (ring_mul a b) c = ring_mul a (ring_mul b c) \<and> ring_mul (ring_one D) a = a \<and>
    ring_mul a (add_assign b c) = add_assign (ring_mul a b) (ring_mul a c)"
  using assms ring_mul_coefficient [of b a] rq.mul_comm [of a D b] rq.mul_assoc [of a D b c] rq.mul_unit [of a D] rq.distrib [of a D b c]
    rq.mul_closed [of a D b]
  by simp

theorem negacyclic_ring_laws_witness:
  "length (ring_mul [1, 2] [3, 4 :: int]) = 2 \<and>
   ring_mul [1, 2] [3, 4 :: int] ! 0 = 1 * 3 - 2 * 4 \<and> ring_mul [1, 2] [3, 4 :: int] ! 1 = 1 * 4 + 2 * 3 \<and>
   ring_mul [1, 2] [3, 4] = ring_mul [3, 4] [1, 2 :: int] \<and>
   ring_mul (ring_mul [1, 2] [3, 4]) [5, 6] = ring_mul [1, 2] (ring_mul [3, 4] [5, 6 :: int]) \<and>
   ring_mul (ring_one 2) [1, 2 :: int] = [1, 2] \<and>
   ring_mul [1, 2] (add_assign [3, 4] [5, 6]) = add_assign (ring_mul [1, 2] [3, 4]) (ring_mul [1, 2] [5, 6 :: int])"
proof -
  note laws = negacyclic_ring_laws [of "[1, 2 :: int]" 2 "[3, 4]" "[5, 6]"]
  have "{0<..<2 :: nat} = {1}" "{Suc 0<..<2} = {}" by auto
  with laws show ?thesis by (auto dest: spec [of _ 0] spec [of _ 1])
qed

text \<open>
  The fused multiply-accumulate routines, dense and sparse, add exactly the ring product
  to the destination.
\<close>

lemma mul_accumulate_correct:
  assumes "length rhs = length self" "length dst = length self"
  shows "mul_accumulate_into self rhs dst = add_assign dst (ring_mul self rhs) \<and>
    mul_accumulate_sparse_rhs_into self rhs dst = add_assign dst (ring_mul self rhs)"
proof
  show "mul_accumulate_into self rhs dst = add_assign dst (ring_mul self rhs)"
    using assms by (simp add: mul_accumulate_into_def mul_accumulate_eq)
  have "conv rhs self (int k) = conv self rhs (int k)" if "k < length self" for k
    using that assms by (intro conv_commute) auto
  then show "mul_accumulate_sparse_rhs_into self rhs dst = add_assign dst (ring_mul self rhs)"
    using sparse_accumulate_nth [of self "length self" rhs dst] ring_mul_nth [of rhs self] assms
    by (intro nth_equalityI) (auto simp: zip_update_add)
qed

text \<open>
  The rotation-based shift multiplies by \<open>X\<^sup>k\<close> for every exponent, also past the degree:
  it equals \<open>k\<close> ring multiplications by the generator.
\<close>

lemma negacyclic_shift_correct:
  assumes "ring_x (length a) = Some x"
  shows "negacyclic_shift a k = (ring_mul x ^^ k) a"
proof (rule ext_eqI)
  have ne: "a \<noteq> []" using mul_x_shift(3) [OF assms] by auto
  show "length (negacyclic_shift a k) = length ((ring_mul x ^^ k) a)" using mul_x_power [OF assms] by simp
  show "ext (negacyclic_shift a k) i = ext ((ring_mul x ^^ k) a) i" for i
    using mul_x_power [OF assms] ext_negacyclic_shift [OF ne] by simp
qed

text \<open>
  The coefficient inner product is the constant term of the product with the conjugate
  \<open>X \<mapsto> X\<^sup>-\<^sup>1\<close>, as the constant-term argument of the protocol needs.
\<close>

lemma inner_product_constant_term:
  assumes "a \<noteq> []" "length b = length a" "sigma_m1 b = Some c"
  shows "constant_term (ring_mul a c) = coefficient_inner_product a b"
proof -
  from assms have "b \<noteq> []" by auto
  with assms obtain len: "length c = length b" and c: "\<And>i. i < length b \<Longrightarrow> ext c (- int i) = b ! i"
    using sigma_m1_eq by (metis option.inject)
  have "0 < length (ring_mul a c)" using assms len by (simp add: ring_mul_nth)
  then have "constant_term (ring_mul a c) = ring_mul a c ! 0"
    by (cases "ring_mul a c") (simp_all add: constant_term_def)
  also have "\<dots> = conv a c 0" using assms len ring_mul_nth(2) [of c a 0] by simp
  also have "\<dots> = (\<Sum>i < length a. a ! i * b ! i)"
    unfolding conv_def psum_def using assms len c by (intro sum.cong) (simp_all add: ext_nth)
  finally show ?thesis using assms by (simp add: inner_product_sum)
qed

text \<open>
  C21.  Inversion through the tower of even-power subrings returns a multiplicative inverse
  whenever it returns one, given that the field inversion does.
\<close>

theorem ring_inverse_correct:
  assumes "\<And>c i. field_inverse c = Some i \<Longrightarrow> c * i = 1" "ring_inverse field_inverse a = Some b"
  shows "length b = length a \<and> ring_mul a b = ring_one (length a)"
proof -
  from assms(2) obtain w where pow: "is_power_of_two (length a)"
    and w: "negacyclic_inverse field_inverse a = Some w" "b = from_slice (length a) w"
    by (auto simp: ring_inverse_def split: if_splits)
  from pow obtain m where "length a = 2 ^ m" by (auto simp: is_power_of_two_iff)
  from negacyclic_inverse_correct [OF assms(1) this w(1)] w(2) show ?thesis by (simp add: from_slice_def Let_def)
qed

text \<open>The units of the integers.\<close>

definition int_unit_inverse :: "int \<Rightarrow> int option" where
  "int_unit_inverse c = (if c = 1 \<or> c = - 1 then Some c else None)"

theorem ring_inverse_correct_witness:
  "length [0, - 1 :: int] = length [0, 1 :: int] \<and> ring_mul [0, 1] [0, - 1 :: int] = ring_one (length [0, 1 :: int])"
proof (rule ring_inverse_correct)
  show "int_unit_inverse c = Some i \<Longrightarrow> c * i = 1" for c i by (auto simp: int_unit_inverse_def split: if_splits)
  show "ring_inverse int_unit_inverse [0, 1] = Some [0, - 1]"
    by (simp add: ring_inverse_def negacyclic_inverse.simps is_power_of_two.simps conjugate_coeffs_def negacyclic_mul_def
        negacyclic_mul_accumulate_def mac_row_def zip_update_def int_unit_inverse_def from_slice_def Let_def)
qed

end
