(* ===== verification/Balanced_Decomposition.thy ===== *)
theory Balanced_Decomposition
  imports Checked_Arith
begin

text \<open>
  Balanced power-of-two digit decomposition
  (\<^verbatim>\<open>crates/akita-algebra/src/ring/cyclotomic/decomposition.rs\<close>): the centring threshold, the
  precomputed bias words, the add-bias kernel that stages 64 coefficients at a time, the
  flat and ring-shaped entry points, and the small signed paths with their narrow lanes.

  The field is a parameter: \<open>minus_one\<close> is \<^verbatim>\<open>(-F::one()).to_u128_checked()\<close> and \<open>to_u128\<close> is
  \<^verbatim>\<open>F::to_u128_checked\<close>.  A panic is \<open>None\<close>.  The definitions are the portable routines; the
  vector kernels the dispatchers may select on x86 and aarch64 are not modelled, so that the
  dispatch reduces to its last line.
\<close>

section \<open>Centring threshold\<close>

definition u32_saturating_mul :: "nat \<Rightarrow> nat \<Rightarrow> nat" where
  "u32_saturating_mul a b = min u32_max (a * b)"

text \<open>The shift by 128 or more and the division by \<open>b - 1 = 0\<close> panic.\<close>

definition decompose_centering_threshold :: "nat \<Rightarrow> nat \<Rightarrow> u128 \<Rightarrow> u128 option" where
  "decompose_centering_threshold levels log_basis q =
     (let half_q = q div 2;
          field_bits = bit_length (unat q - 1);
          total_decomp_bits = u32_saturating_mul (levels mod 2 ^ 32) log_basis
      in if total_decomp_bits = field_bits then
           if log_basis = 0 \<or> log_basis \<ge> 128 then None
           else let b = push_bit log_basis 1 :: u128;
                    b_k_minus_1 = (if total_decomp_bits \<ge> 128 then - 1 else push_bit total_decomp_bits 1 - 1);
                    t_k = (b div 2 - 1) * (b_k_minus_1 div (b - 1))
                in Some (min t_k half_q)
         else Some half_q)"

section \<open>Parameters\<close>

datatype digit_carrier = DI8 | DI16

text \<open>The width and \<^verbatim>\<open>MAX_LOG_BASIS\<close> of a digit type coincide.\<close>

definition MAX_LOG_BASIS :: "digit_carrier \<Rightarrow> nat" where
  "MAX_LOG_BASIS c = (case c of DI8 \<Rightarrow> 8 | DI16 \<Rightarrow> 16)"

definition from_biased_field :: "digit_carrier \<Rightarrow> u16 \<Rightarrow> u16 \<Rightarrow> u16 \<Rightarrow> int" where
  "from_biased_field c field mask' half_b =
     (let digit = (field AND mask') - half_b
      in signed_take_bit (MAX_LOG_BASIS c - 1) (uint digit))"

definition carrier_min :: "digit_carrier \<Rightarrow> int" where
  "carrier_min c = (case c of DI8 \<Rightarrow> - 128 | DI16 \<Rightarrow> - 32768)"

definition carrier_max :: "digit_carrier \<Rightarrow> int" where
  "carrier_max c = (case c of DI8 \<Rightarrow> 127 | DI16 \<Rightarrow> 32767)"

record decompose_params =
  dp_levels :: nat
  dp_log_basis :: nat
  dp_q :: u128
  dp_threshold :: u128
  bias_nonnegative :: "u64 list"
  bias_negative :: "u64 list"

definition set_bias_bit :: "nat \<Rightarrow> nat \<Rightarrow> u64 list \<Rightarrow> u64 list" where
  "set_bias_bit log_basis level words =
     (let b = level * log_basis + log_basis - 1
      in words[b div 64 := words ! (b div 64) OR push_bit (b mod 64) 1])"

definition overflowing_sub :: "u64 \<Rightarrow> u64 \<Rightarrow> u64 \<times> bool" where
  "overflowing_sub a b = (a - b, a < b)"

definition negative_bias :: "u64 list \<Rightarrow> u128 \<Rightarrow> u64 list" where
  "negative_bias bias q =
     (let (negative0, borrow0) = overflowing_sub (bias ! 0) (ucast q);
          (partial1, borrow1a) = overflowing_sub (bias ! 1) (ucast (drop_bit 64 q));
          (negative1, borrow1b) = overflowing_sub partial1 (of_bool borrow0);
          negative2 = bias ! 2 - of_bool (borrow1a \<or> borrow1b)
      in [negative0, negative1, negative2])"

definition decompose_params_new :: "u128 option \<Rightarrow> nat \<Rightarrow> nat \<Rightarrow> decompose_params option" where
  "decompose_params_new minus_one levels log_basis =
     Option.bind minus_one (\<lambda>m.
       if m = - 1 then None
       else let q = m + 1 in
         if \<not> (0 < log_basis \<and> log_basis \<le> 16) then None
         else if levels > u32_max then None
         else if \<not> u32_saturating_mul levels log_basis \<le> 128 + log_basis then None
         else if \<not> (1 < log_basis \<or> levels \<le> bit_length (unat q - 1)) then None
         else let bias = fold (set_bias_bit log_basis) [0..<levels] [0, 0, 0]
              in Option.bind (decompose_centering_threshold levels log_basis q) (\<lambda>threshold.
                   Some \<lparr>dp_levels = levels, dp_log_basis = log_basis, dp_q = q, dp_threshold = threshold,
                         bias_nonnegative = bias, bias_negative = negative_bias bias q\<rparr>))"

definition digit_bits :: "decompose_params \<Rightarrow> nat" where
  "digit_bits params = dp_levels params * dp_log_basis params"

section \<open>Adding the bias\<close>

definition select_word :: "u64 \<Rightarrow> u64 \<Rightarrow> u64 \<Rightarrow> u64" where
  "select_word nonnegative negative select = nonnegative XOR ((nonnegative XOR negative) AND select)"

definition biased :: "decompose_params \<Rightarrow> u128 \<Rightarrow> u64 list" where
  "biased params canonical =
     (let low = ucast canonical :: u64;
          high = ucast (drop_bit 64 canonical) :: u64;
          threshold_low = ucast (dp_threshold params) :: u64;
          threshold_high = ucast (drop_bit 64 (dp_threshold params)) :: u64;
          negative = (high > threshold_high \<or> high = threshold_high \<and> low > threshold_low);
          select = - of_bool negative :: u64;
          bias0 = select_word (bias_nonnegative params ! 0) (bias_negative params ! 0) select;
          bias1 = select_word (bias_nonnegative params ! 1) (bias_negative params ! 1) select;
          bias2 = select_word (bias_nonnegative params ! 2) (bias_negative params ! 2) select;
          word0 = low + bias0;
          carry0 = of_bool (word0 < low) :: u64;
          partial1 = high + bias1;
          carry1a = of_bool (partial1 < high) :: u64;
          word1 = partial1 + carry0;
          carry1b = of_bool (word1 < partial1) :: u64
      in [word0, word1, bias2 + (carry1a OR carry1b)])"

definition digit_mask :: "decompose_params \<Rightarrow> u16" where
  "digit_mask params = ucast ((push_bit (dp_log_basis params) 1 :: u32) - 1)"

definition digit_half :: "decompose_params \<Rightarrow> u16" where
  "digit_half params = ucast (push_bit (dp_log_basis params - 1) 1 :: u32)"

section \<open>Small signed inputs\<close>

definition small_signed_lanes ::
  "decompose_params \<Rightarrow> digit_carrier \<Rightarrow> int list \<Rightarrow> nat \<Rightarrow> (int \<Rightarrow> 'w::len word) \<Rightarrow> int list list" where
  "small_signed_lanes params out_carrier ring planes word =
     map (\<lambda>level. let shift = level * dp_log_basis params
          in map (\<lambda>value. from_biased_field out_carrier (ucast (drop_bit shift (word value)))
                              (digit_mask params) (digit_half params)) ring)
       [0..<planes]"

definition straddled_field :: "u64 list \<Rightarrow> nat \<Rightarrow> nat \<Rightarrow> u64" where
  "straddled_field words shift log_basis =
     (let word = shift div 64; b = shift mod 64; field = drop_bit b (words ! word)
      in if b + log_basis > 64 then field OR push_bit (64 - b) (words ! (word + 1)) else field)"

definition small_signed_residues ::
  "decompose_params \<Rightarrow> digit_carrier \<Rightarrow> int list \<Rightarrow> nat \<Rightarrow> int list list" where
  "small_signed_residues params out_carrier ring planes =
     map (\<lambda>level. map (\<lambda>value.
            let canonical = (if value \<ge> 0 then word_of_int value else dp_q params - word_of_int \<bar>value\<bar>);
                words = biased params canonical
            in from_biased_field out_carrier
                 (ucast (straddled_field words (level * dp_log_basis params) (dp_log_basis params)))
                 (digit_mask params) (digit_half params)) ring)
       [0..<planes]"

definition decompose_small_signed_into ::
  "decompose_params \<Rightarrow> digit_carrier \<Rightarrow> digit_carrier \<Rightarrow> int list \<Rightarrow> nat \<Rightarrow> int list list option" where
  "decompose_small_signed_into params in_carrier out_carrier ring planes =
     (if planes \<noteq> dp_levels params then None
      else if \<not> dp_log_basis params \<le> MAX_LOG_BASIS out_carrier then None
      else let centered = (dp_threshold params \<ge> word_of_int (carrier_max in_carrier) \<and>
                             dp_q params - dp_threshold params > word_of_int \<bar>carrier_min in_carrier\<bar>);
               bias = bias_nonnegative params ! 0;
               bits = digit_bits params
           in Some (if centered \<and> bits \<le> 16 then
                      small_signed_lanes params out_carrier ring planes (\<lambda>value. word_of_int value + (ucast bias :: u16))
                    else if centered \<and> bits \<le> 32 then
                      small_signed_lanes params out_carrier ring planes (\<lambda>value. word_of_int value + (ucast bias :: u32))
                    else if centered \<and> bits \<le> 64 then
                      small_signed_lanes params out_carrier ring planes (\<lambda>value. word_of_int value + (bias :: u64))
                    else small_signed_residues params out_carrier ring planes))"

section \<open>The add-bias kernel\<close>

definition BIASED_CHUNK :: nat where
  "BIASED_CHUNK = 64"

text \<open>Staging one lane: \<^verbatim>\<open>words.iter_mut().zip(biased)\<close> stops at the number of rows.\<close>

definition stage_lane ::
  "('f \<Rightarrow> u128 option) \<Rightarrow> decompose_params \<Rightarrow> 'f list \<Rightarrow> u64 list list \<Rightarrow> nat \<Rightarrow> u64 list list option" where
  "stage_lane to_u128 params chunk words lane =
     Option.bind (to_u128 (chunk ! lane)) (\<lambda>canonical.
       Some (map2 (\<lambda>row word. row[lane := word]) words (biased params canonical)))"

definition lane_digit :: "digit_carrier \<Rightarrow> decompose_params \<Rightarrow> u64 list list \<Rightarrow> nat \<Rightarrow> nat \<Rightarrow> int" where
  "lane_digit carrier params words level lane =
     (let log_basis = dp_log_basis params; shift = level * log_basis; word = shift div 64; b = shift mod 64;
          field = (if b + log_basis \<le> 64 then drop_bit b (words ! word ! lane)
                   else drop_bit b (words ! word ! lane) OR push_bit (64 - b) (words ! (word + 1) ! lane))
      in from_biased_field carrier (ucast field) (digit_mask params) (digit_half params))"

definition write_plane ::
  "digit_carrier \<Rightarrow> decompose_params \<Rightarrow> u64 list list \<Rightarrow> nat \<Rightarrow> nat \<Rightarrow> nat \<Rightarrow> nat \<Rightarrow> int list \<Rightarrow> int list" where
  "write_plane carrier params words width start len level out =
     fold (\<lambda>lane out. out[level * width + start + lane := lane_digit carrier params words level lane]) [0..<len] out"

definition decompose_chunk ::
  "('f \<Rightarrow> u128 option) \<Rightarrow> digit_carrier \<Rightarrow> decompose_params \<Rightarrow> 'f list \<Rightarrow> u64 list list \<times> int list \<Rightarrow> nat \<Rightarrow>
     (u64 list list \<times> int list) option" where
  "decompose_chunk to_u128 carrier params coefficients state chunk_index =
     (case state of (words, out) \<Rightarrow>
        let width = length coefficients;
            start = chunk_index * BIASED_CHUNK;
            chunk = take BIASED_CHUNK (drop start coefficients);
            len = min (length chunk) BIASED_CHUNK
        in Option.bind (try_fold (stage_lane to_u128 params chunk) words [0..<len]) (\<lambda>words'.
             Some (words', fold (write_plane carrier params words' width start len) [0..<length out div width] out)))"

definition balanced_decompose_biased_words ::
  "('f \<Rightarrow> u128 option) \<Rightarrow> digit_carrier \<Rightarrow> nat \<Rightarrow> 'f list \<Rightarrow> int list \<Rightarrow> decompose_params \<Rightarrow> int list option" where
  "balanced_decompose_biased_words to_u128 carrier WORDS coefficients out params =
     map_option snd
       (try_fold (decompose_chunk to_u128 carrier params coefficients)
          (replicate WORDS (replicate BIASED_CHUNK 0), out) [0..<ceil_div (length coefficients) BIASED_CHUNK])"

definition signed_kernel ::
  "('f \<Rightarrow> u128 option) \<Rightarrow> digit_carrier \<Rightarrow> 'f list \<Rightarrow> int list \<Rightarrow> decompose_params \<Rightarrow> int list option" where
  "signed_kernel to_u128 carrier coefficients out params =
     (let n = ceil_div (digit_bits params) 64
      in if n = 0 \<or> n = 1 then balanced_decompose_biased_words to_u128 carrier 1 coefficients out params
         else if n = 2 then balanced_decompose_biased_words to_u128 carrier 2 coefficients out params
         else balanced_decompose_biased_words to_u128 carrier 3 coefficients out params)"

definition signed_into ::
  "('f \<Rightarrow> u128 option) \<Rightarrow> digit_carrier \<Rightarrow> 'f list \<Rightarrow> int list \<Rightarrow> decompose_params \<Rightarrow> int list option" where
  "signed_into to_u128 carrier coefficients out params =
     Option.bind (checked_mul (length coefficients) (dp_levels params)) (\<lambda>expected_len.
       if length out \<noteq> expected_len then None
       else if coefficients = [] \<or> dp_levels params = 0 then Some out
       else signed_kernel to_u128 carrier coefficients out params)"

definition balanced_decompose_coefficients_pow2_i8_into ::
  "('f \<Rightarrow> u128 option) \<Rightarrow> 'f list \<Rightarrow> int list \<Rightarrow> decompose_params \<Rightarrow> int list option" where
  "balanced_decompose_coefficients_pow2_i8_into to_u128 coefficients out params =
     Option.bind (checked_mul (length coefficients) (dp_levels params)) (\<lambda>expected_len.
       if length out \<noteq> expected_len then None
       else if \<not> dp_log_basis params \<le> MAX_LOG_BASIS DI8 then None
       else if coefficients = [] \<or> dp_levels params = 0 then Some out
       else signed_into to_u128 DI8 coefficients out params)"

text \<open>Ring-shaped entry points: \<^verbatim>\<open>as_flattened_mut\<close> views the digit planes as one slice.\<close>

definition unflatten :: "nat \<Rightarrow> nat \<Rightarrow> 'a list \<Rightarrow> 'a list list" where
  "unflatten planes D flat = map (\<lambda>l. take D (drop (l * D) flat)) [0..<planes]"

definition balanced_decompose_pow2_i8_into_with_params ::
  "('f \<Rightarrow> u128 option) \<Rightarrow> 'f list \<Rightarrow> int list list \<Rightarrow> decompose_params \<Rightarrow> int list list option" where
  "balanced_decompose_pow2_i8_into_with_params to_u128 coeffs out params =
     (if \<not> dp_log_basis params \<le> MAX_LOG_BASIS DI8 then None
      else map_option (unflatten (length out) (length coeffs))
             (balanced_decompose_coefficients_pow2_i8_into to_u128 coeffs (concat out) params))"

definition balanced_decompose_pow2_i16_into ::
  "('f \<Rightarrow> u128 option) \<Rightarrow> 'f list \<Rightarrow> int list list \<Rightarrow> decompose_params \<Rightarrow> int list list option" where
  "balanced_decompose_pow2_i16_into to_u128 coeffs out params =
     map_option (unflatten (length out) (length coeffs)) (signed_into to_u128 DI16 coeffs (concat out) params)"

end
