(* ===== verification/Balanced_Decomposition_Correct.thy ===== *)
theory Balanced_Decomposition_Correct
  imports Balanced_Decomposition
begin

text \<open>
  Correctness of the balanced decomposition.  The reference is the digit recurrence of the
  documentation, \<open>d\<^sub>k = balanced (c\<^sub>k mod b)\<close> and \<open>c\<^sub>k\<^sub>+\<^sub>1 = (c\<^sub>k - d\<^sub>k) / b\<close>
  on the centred representative; the kernels read every digit as a bit field of one wide sum.
\<close>

section \<open>The digit recurrence\<close>

fun balanced_digits :: "nat \<Rightarrow> nat \<Rightarrow> int \<Rightarrow> int list" where
  "balanced_digits log_basis 0 c = []"
| "balanced_digits log_basis (Suc n) c =
     (let d = (c + 2 ^ (log_basis - 1)) mod 2 ^ log_basis - 2 ^ (log_basis - 1)
      in d # balanced_digits log_basis n ((c - d) div 2 ^ log_basis))"

text \<open>The bias \<open>H\<close>: half the basis in every digit position.\<close>

definition bias_value :: "nat \<Rightarrow> nat \<Rightarrow> int" where
  "bias_value log_basis n = (\<Sum>k < n. 2 ^ (log_basis - 1) * (2 ^ log_basis) ^ k)"

lemma length_balanced_digits [simp]: "length (balanced_digits g n c) = n"
  by (induction g n c rule: balanced_digits.induct) (simp_all add: Let_def)

lemma bias_value_Suc: "bias_value g (Suc n) = 2 ^ (g - 1) + 2 ^ g * bias_value g n"
  unfolding bias_value_def sum.lessThan_Suc_shift by (simp add: sum_distrib_left mult_ac)

lemma digit_step:
  fixes c h b :: int
  assumes "0 < b"
  shows "(c - ((c + h) mod b - h)) div b = (c + h) div b"
proof -
  have "c - ((c + h) mod b - h) = b * ((c + h) div b)" by (simp add: algebra_simps minus_mod_eq_mult_div [symmetric])
  then show ?thesis using assms by simp
qed

lemma balanced_digits_nth:
  "k < n \<Longrightarrow> balanced_digits g n c ! k = (c + bias_value g n) div (2 ^ g) ^ k mod 2 ^ g - 2 ^ (g - 1)"
proof (induction g n c arbitrary: k rule: balanced_digits.induct)
  case (2 g n c)
  let ?b = "2 ^ g :: int" and ?h = "2 ^ (g - 1) :: int"
  have b: "0 < ?b" by simp
  have shift: "c + bias_value g (Suc n) = c + ?h + ?b * bias_value g n" by (simp add: bias_value_Suc)
  show ?case
  proof (cases k)
    case 0
    then show ?thesis by (simp add: shift Let_def)
  next
    case (Suc j)
    have "(c + bias_value g (Suc n)) div ?b = (c + ?h) div ?b + bias_value g n"
      unfolding shift using b by simp
    then have "(c + bias_value g (Suc n)) div ?b ^ k = ((c + ?h) div ?b + bias_value g n) div ?b ^ j"
      by (simp add: Suc zdiv_zmult2_eq)
    then show ?thesis using "2.IH" [OF refl, of j] "2.prems" Suc by (simp add: Let_def digit_step)
  qed
qed simp

lemma balanced_digits_range:
  assumes "0 < g" "d \<in> set (balanced_digits g n c)"
  shows "- (2 ^ (g - 1)) \<le> d \<and> d < 2 ^ (g - 1)"
proof -
  from assms(2) obtain k where "k < n" "d = balanced_digits g n c ! k" by (auto simp: in_set_conv_nth)
  moreover have "(2 :: int) ^ g = 2 * 2 ^ (g - 1)" using assms(1) by (simp flip: power_Suc)
  moreover have "0 \<le> x mod 2 ^ g \<and> x mod 2 ^ g < (2 :: int) ^ g" for x by simp
  ultimately show ?thesis by (simp add: balanced_digits_nth)
qed

lemma balanced_digits_sum:
  "(\<Sum>k < n. balanced_digits g n c ! k * (2 ^ g) ^ k) = c - (2 ^ g) ^ n * ((c + bias_value g n) div (2 ^ g) ^ n)"
proof (induction g n c rule: balanced_digits.induct)
  case (2 g n c)
  let ?b = "2 ^ g :: int" and ?h = "2 ^ (g - 1) :: int"
  define d where "d = (c + ?h) mod ?b - ?h"
  have b: "0 < ?b" by simp
  have e: "c - d = ?b * ((c + ?h) div ?b)"
    by (simp add: d_def algebra_simps minus_mod_eq_mult_div [symmetric])
  have q: "(c + bias_value g (Suc n)) div ?b = (c + ?h) div ?b + bias_value g n"
    using b by (simp add: bias_value_Suc add.assoc [symmetric])
  have D: "balanced_digits g (Suc n) c = d # balanced_digits g n ((c - d) div ?b)" by (simp add: d_def Let_def)
  have "(\<Sum>k < Suc n. balanced_digits g (Suc n) c ! k * ?b ^ k)
      = d + ?b * (\<Sum>k < n. balanced_digits g n ((c - d) div ?b) ! k * ?b ^ k)"
    unfolding D sum.lessThan_Suc_shift by (simp add: sum_distrib_left mult_ac)
  also have "\<dots> = d + ?b * ((c - d) div ?b) - ?b * (?b ^ n * (((c - d) div ?b + bias_value g n) div ?b ^ n))"
    using "2.IH" [OF d_def] by (simp add: right_diff_distrib)
  also have "\<dots> = c - ?b ^ Suc n * ((c + bias_value g (Suc n)) div ?b ^ Suc n)"
    using e b q by (simp add: zdiv_zmult2_eq mult.assoc)
  finally show ?case .
qed (simp add: bias_value_def)

lemma bias_value_closed: "(2 ^ g - 1) * bias_value g n = 2 ^ (g - 1) * ((2 ^ g) ^ n - 1)"
  by (induction n) (auto simp: bias_value_def algebra_simps)

lemma bias_value_bounds: "0 < g \<Longrightarrow> 0 \<le> bias_value g n \<and> bias_value g n < (2 ^ g) ^ n"
proof (induction n)
  case (Suc n)
  let ?b = "2 ^ g :: int" and ?h = "2 ^ (g - 1) :: int"
  have h: "?b = 2 * ?h" "1 \<le> ?h" using Suc.prems by (simp_all flip: power_Suc)
  from Suc have IH: "0 \<le> bias_value g n" "bias_value g n + 1 \<le> ?b ^ n" by simp_all
  have "?b * (bias_value g n + 1) \<le> ?b * ?b ^ n" using IH(2) by (intro mult_left_mono) simp_all
  then have "?h + ?b * bias_value g n < ?b ^ Suc n" using h unfolding power_Suc distrib_left by linarith
  moreover have "0 \<le> ?b * bias_value g n" using IH(1) by simp
  ultimately show ?case using h by (simp add: bias_value_Suc)
qed (simp add: bias_value_def)

section \<open>Numbers as little-endian words\<close>

primrec words_val :: "u64 list \<Rightarrow> int" where
  "words_val [] = 0"
| "words_val (w # ws) = uint w + 2 ^ 64 * words_val ws"

lemma words_val_concat_bit: "words_val (w # ws) = concat_bit 64 (uint w) (words_val ws)"
  using take_bit_int_eq_self [of "uint w" 64] uint_lt2p [of w] by (simp add: concat_bit_eq push_bit_eq_mult)

lemma bit_words_val: "bit (words_val ws) i \<longleftrightarrow> i div 64 < length ws \<and> bit (ws ! (i div 64)) (i mod 64)"
proof (induction ws arbitrary: i)
  case (Cons w ws)
  have "bit (words_val (w # ws)) i \<longleftrightarrow> i < 64 \<and> bit w i \<or> 64 \<le> i \<and> bit (words_val ws) (i - 64)"
    unfolding words_val_concat_bit by (simp add: bit_concat_bit_iff bit_uint_iff)
  moreover have "i div 64 = Suc ((i - 64) div 64)" "(i - 64) mod 64 = i mod 64" if "64 \<le> i"
    using that by (simp_all add: le_div_geq le_mod_geq)
  ultimately show ?case using Cons.IH by (cases "i < 64") auto
qed simp

lemma words_val_nonneg: "0 \<le> words_val ws"
  by (induction ws) simp_all

lemma or_push_bit_add:
  fixes w :: "'a::len word"
  assumes "\<not> bit w k" "k < LENGTH('a)"
  shows "uint (w OR push_bit k 1) = uint w + 2 ^ k"
proof -
  have "uint w AND push_bit k 1 = 0"
    by (rule bit_eqI) (use assms(1) in \<open>auto simp: bit_simps\<close>)
  then have "uint w + push_bit k 1 = uint w OR push_bit k 1" by (rule disjunctive_add_eq_or)
  moreover have "uint (push_bit k 1 :: 'a word) = push_bit k 1"
    by (rule bit_eqI) (use assms(2) in \<open>auto simp: bit_simps\<close>)
  ultimately show ?thesis by (simp add: uint_or push_bit_eq_mult)
qed

lemma words_val_update:
  assumes "i < length ws"
  shows "words_val (ws[i := v]) = words_val ws + (uint v - uint (ws ! i)) * 2 ^ (64 * i)"
  using assms
proof (induction ws arbitrary: i)
  case (Cons w ws)
  then show ?case
  proof (cases i)
    case (Suc j)
    have "words_val ((w # ws)[i := v]) = uint w + 2 ^ 64 * words_val (ws[j := v])" by (simp add: Suc)
    also have "\<dots> = uint w + 2 ^ 64 * words_val ws + (uint v - uint (ws ! j)) * (2 ^ 64 * 2 ^ (64 * j))"
      using Cons Suc by (simp add: distrib_left)
    also have "(2 :: int) ^ 64 * 2 ^ (64 * j) = 2 ^ (64 * i)" by (simp add: Suc power_add)
    finally show ?thesis by (simp add: Suc)
  qed simp
qed simp

lemma set_bit_words_val:
  assumes "\<not> bit (words_val ws) b" "b div 64 < length ws"
  shows "words_val (ws[b div 64 := ws ! (b div 64) OR push_bit (b mod 64) 1]) = words_val ws + 2 ^ b"
proof -
  have "\<not> bit (ws ! (b div 64)) (b mod 64)" using assms by (simp add: bit_words_val)
  from or_push_bit_add [OF this] have "uint (ws ! (b div 64) OR push_bit (b mod 64) 1) - uint (ws ! (b div 64)) = 2 ^ (b mod 64)"
    by simp
  moreover have "(2 :: int) ^ (b mod 64) * 2 ^ (64 * (b div 64)) = 2 ^ b"
    unfolding power_add [symmetric] by simp
  ultimately show ?thesis using assms(2) by (simp add: words_val_update)
qed

lemma not_bit_above: "0 \<le> x \<Longrightarrow> x < 2 ^ n \<Longrightarrow> n \<le> k \<Longrightarrow> \<not> bit (x :: int) k"
  by (metis bit_take_bit_iff not_less take_bit_int_eq_self_iff)

text \<open>The loop of the constructor builds the bias \<open>H\<close>.\<close>

lemma bias_words:
  assumes "0 < g" "n * g \<le> 192"
  shows "length (fold (set_bias_bit g) [0..<n] [0, 0, 0]) = 3 \<and>
    words_val (fold (set_bias_bit g) [0..<n] [0, 0, 0]) = bias_value g n"
  using assms(2)
proof (induction n)
  case (Suc n)
  let ?ws = "fold (set_bias_bit g) [0..<n] [0, 0, 0]" and ?b = "n * g + g - 1"
  from Suc have IH: "length ?ws = 3" "words_val ?ws = bias_value g n" by simp_all
  have "bias_value g n < 2 ^ (n * g)" "0 \<le> bias_value g n"
    using bias_value_bounds [OF assms(1), of n] by (simp_all add: power_mult [symmetric] mult.commute)
  then have free: "\<not> bit (words_val ?ws) ?b" using assms(1) unfolding IH(2) by (intro not_bit_above [of _ "n * g"]) auto
  have lt: "?b div 64 < length ?ws" using Suc.prems assms(1) IH(1) by (simp add: div_less_iff_less_mult)
  have step: "fold (set_bias_bit g) [0..<Suc n] [0, 0, 0] = ?ws[?b div 64 := ?ws ! (?b div 64) OR push_bit (?b mod 64) 1]"
    by (simp add: set_bias_bit_def [of g n] Let_def)
  have "(2 :: int) ^ ?b = 2 ^ (g - 1) * (2 ^ g) ^ n"
    using assms(1) by (simp add: power_mult [symmetric] power_add [symmetric] mult.commute)
  then have "bias_value g (Suc n) = bias_value g n + 2 ^ ?b" by (simp add: bias_value_def)
  then show ?case unfolding step set_bit_words_val [OF free lt] using IH by simp
qed (simp add: bias_value_def)

lemma words_val_less: "words_val ws < 2 ^ (64 * length ws)"
proof (induction ws)
  case (Cons w ws)
  have "uint w < 2 ^ 64" using uint_lt2p [of w] by simp
  moreover have "(2 :: int) ^ 64 * (words_val ws + 1) \<le> 2 ^ 64 * 2 ^ (64 * length ws)" using Cons by simp
  moreover have "(2 :: int) ^ (64 * length (w # ws)) = 2 ^ 64 * 2 ^ (64 * length ws)" by (simp add: power_add)
  ultimately show ?case unfolding words_val.simps distrib_left by linarith
qed simp

lemma u64_add_carry: "uint (x + y) = uint x + uint y - 2 ^ 64 * of_bool (x + y < (x :: u64))"
proof -
  have b: "0 \<le> uint x" "uint x < 2 ^ 64" "0 \<le> uint y" "uint y < 2 ^ 64"
    using uint_lt2p [of x] uint_lt2p [of y] by simp_all
  have e: "uint (x + y) = (uint x + uint y) mod 2 ^ 64" by (simp add: uint_word_ariths)
  show ?thesis
  proof (cases "uint x + uint y < 2 ^ 64")
    case True
    with e b have "uint (x + y) = uint x + uint y" by simp
    then show ?thesis using b by (simp add: word_less_def)
  next
    case False
    with b have "(uint x + uint y - 2 ^ 64) mod 2 ^ 64 = uint x + uint y - 2 ^ 64"
      by (intro mod_pos_pos_trivial) linarith+
    with e have "uint (x + y) = uint x + uint y - 2 ^ 64" by (metis minus_mod_self2)
    with b show ?thesis by (simp add: word_less_def)
  qed
qed

lemma u64_sub_borrow: "uint (x - y) = uint x - uint y + 2 ^ 64 * of_bool (x < (y :: u64))"
  using u64_add_carry [of "x - y" y] by (auto simp: word_less_def uint_sub_if')

lemma u64_bounds: "0 \<le> uint (x :: u64)" "uint (x :: u64) < 2 ^ 64"
  using uint_lt2p [of x] by simp_all

lemma uint_of_bool_u64: "uint (of_bool b :: u64) = of_bool b"
  by (cases b) simp_all

lemma mod_eqI: "(x :: int) = s + m * k \<Longrightarrow> 0 \<le> x \<Longrightarrow> x < m \<Longrightarrow> x = s mod m"
  by (metis mod_mult_self1 mod_pos_pos_trivial mult.commute)

text \<open>Adding and subtracting with explicit carries is addition modulo \<open>2\<^sup>1\<^sup>9\<^sup>2\<close>.\<close>

lemma words_add:
  fixes low high b0 b1 b2 :: u64
  defines "c0 \<equiv> low + b0 < low" and "ca \<equiv> high + b1 < high"
  defines "cb \<equiv> high + b1 + of_bool c0 < high + b1"
  shows "words_val [low + b0, high + b1 + of_bool c0, b2 + (of_bool ca OR of_bool cb)] =
    (uint low + 2 ^ 64 * uint high + words_val [b0, b1, b2]) mod 2 ^ 192"
proof -
  have 1: "uint (low + b0) = uint low + uint b0 - 2 ^ 64 * of_bool c0" using u64_add_carry [of low b0] by (simp add: c0_def)
  have 2: "uint (high + b1) = uint high + uint b1 - 2 ^ 64 * of_bool ca" using u64_add_carry [of high b1] by (simp add: ca_def)
  have 3: "uint (high + b1 + of_bool c0) = uint (high + b1) + of_bool c0 - 2 ^ 64 * of_bool cb"
    using u64_add_carry [of "high + b1" "of_bool c0"] by (simp add: cb_def uint_of_bool_u64)
  have "\<not> (ca \<and> cb)"
  proof
    assume "ca \<and> cb"
    with 2 3 have "uint (high + b1 + of_bool c0) = uint high + uint b1 + of_bool c0 - 2 * 2 ^ 64" by simp
    moreover have "of_bool c0 \<le> (1 :: int)" by simp
    ultimately show False using u64_bounds [of high] u64_bounds [of b1] u64_bounds [of "high + b1 + of_bool c0"] by linarith
  qed
  then have 4: "uint (of_bool ca OR of_bool cb :: u64) = of_bool ca + of_bool cb" by (cases ca; cases cb) simp_all
  obtain k where 5: "uint (b2 + (of_bool ca OR of_bool cb)) = uint b2 + of_bool ca + of_bool cb - 2 ^ 64 * k"
    using u64_add_carry [of b2 "of_bool ca OR of_bool cb"] 4 by (auto simp: add.assoc)
  have "words_val [low + b0, high + b1 + of_bool c0, b2 + (of_bool ca OR of_bool cb)] =
    uint low + 2 ^ 64 * uint high + words_val [b0, b1, b2] + 2 ^ 192 * (- k)"
    by (simp add: 1 2 3 5)
  from mod_eqI [OF this words_val_nonneg] show ?thesis
    using words_val_less [of "[low + b0, high + b1 + of_bool c0, b2 + (of_bool ca OR of_bool cb)]"] by simp
qed

lemma u128_halves: "uint q = uint (ucast q :: u64) + 2 ^ 64 * uint (ucast (drop_bit 64 q) :: u64)" for q :: u128
proof -
  have "uint (ucast q :: u64) = take_bit 64 (uint q)" "uint (ucast (drop_bit 64 q) :: u64) = drop_bit 64 (uint q)"
    by (rule bit_eqI, force simp: bit_simps dest: bit_imp_le_length)+
  then show ?thesis by (simp add: take_bit_eq_mod drop_bit_eq_div)
qed

lemma words_sub:
  assumes "length bias = 3"
  shows "words_val (negative_bias bias q) = (words_val bias - uint q) mod 2 ^ 192"
proof -
  from assms obtain b0 b1 b2 where b: "bias = [b0, b1, b2]" by (auto simp: length_Suc_conv numeral_3_eq_3)
  let ?l = "ucast q :: u64" and ?h = "ucast (drop_bit 64 q) :: u64"
  define c0 where "c0 = (b0 < ?l)"
  define ca where "ca = (b1 < ?h)"
  define cb where "cb = (b1 - ?h < of_bool c0)"
  have 1: "uint (b0 - ?l) = uint b0 - uint ?l + 2 ^ 64 * of_bool c0" using u64_sub_borrow [of b0 ?l] by (simp add: c0_def)
  have 2: "uint (b1 - ?h) = uint b1 - uint ?h + 2 ^ 64 * of_bool ca" using u64_sub_borrow [of b1 ?h] by (simp add: ca_def)
  have 3: "uint (b1 - ?h - of_bool c0) = uint (b1 - ?h) - of_bool c0 + 2 ^ 64 * of_bool cb"
    using u64_sub_borrow [of "b1 - ?h" "of_bool c0"] by (simp add: cb_def uint_of_bool_u64)
  have "\<not> (ca \<and> cb)"
  proof
    assume "ca \<and> cb"
    with 2 3 have "uint (b1 - ?h - of_bool c0) = uint b1 - uint ?h - of_bool c0 + 2 * 2 ^ 64" by simp
    moreover have "of_bool c0 \<le> (1 :: int)" by simp
    ultimately show False
      using u64_bounds [of b1] u64_bounds [of ?h] u64_bounds [of "b1 - ?h - of_bool c0"] by linarith
  qed
  then have 4: "uint (of_bool (ca \<or> cb) :: u64) = of_bool ca + of_bool cb" by (cases ca; cases cb) simp_all
  obtain k where 5: "uint (b2 - of_bool (ca \<or> cb)) = uint b2 - of_bool ca - of_bool cb + 2 ^ 64 * k"
    using u64_sub_borrow [of b2 "of_bool (ca \<or> cb)"] 4 by (auto simp: diff_diff_eq)
  have nb: "negative_bias bias q = [b0 - ?l, b1 - ?h - of_bool c0, b2 - of_bool (ca \<or> cb)]"
    by (simp add: negative_bias_def overflowing_sub_def b c0_def ca_def cb_def Let_def)
  have "words_val (negative_bias bias q) = words_val bias - uint q + 2 ^ 192 * k"
    unfolding nb by (simp add: b 1 2 3 5 u128_halves [of q])
  from mod_eqI [OF this words_val_nonneg] show ?thesis
    using words_val_less [of "negative_bias bias q"] by (simp add: nb)
qed

section \<open>Parameters and biased words\<close>

definition centered :: "decompose_params \<Rightarrow> u128 \<Rightarrow> int" where
  "centered p c = (if c \<le> dp_threshold p then uint c else uint c - uint (dp_q p))"

definition params_ok :: "decompose_params \<Rightarrow> bool" where
  "params_ok p \<longleftrightarrow> 0 < dp_log_basis p \<and> dp_log_basis p \<le> 16 \<and> digit_bits p \<le> 144 \<and>
     length (bias_nonnegative p) = 3 \<and> words_val (bias_nonnegative p) = bias_value (dp_log_basis p) (dp_levels p) \<and>
     bias_negative p = negative_bias (bias_nonnegative p) (dp_q p)"

lemma decompose_params_newD:
  assumes "decompose_params_new m levels g = Some p"
  shows "params_ok p" "dp_levels p = levels" "dp_log_basis p = g" "levels \<le> u32_max"
    "m = Some (dp_q p - 1)" "dp_q p \<noteq> 0" "1 < g \<or> levels \<le> bit_length (unat (dp_q p) - 1)"
    "decompose_centering_threshold levels g (dp_q p) = Some (dp_threshold p)"
proof -
  from assms obtain m' thr where m: "m = Some m'" "m' \<noteq> - 1" and g: "0 < g" "g \<le> 16" and l: "levels \<le> u32_max"
    and s: "u32_saturating_mul levels g \<le> 128 + g" and w: "1 < g \<or> levels \<le> bit_length (unat (m' + 1) - 1)"
    and t: "decompose_centering_threshold levels g (m' + 1) = Some thr"
    and p: "p = \<lparr>dp_levels = levels, dp_log_basis = g, dp_q = m' + 1, dp_threshold = thr,
       bias_nonnegative = fold (set_bias_bit g) [0..<levels] [0, 0, 0],
       bias_negative = negative_bias (fold (set_bias_bit g) [0..<levels] [0, 0, 0]) (m' + 1)\<rparr>"
    unfolding decompose_params_new_def by (simp add: Let_def bind_eq_Some_conv split: if_splits) blast
  have "levels * g \<le> 144" using s g by (auto simp: u32_saturating_mul_def min_def u32_max_def split: if_splits)
  with bias_words [OF g(1), of levels] g p show "params_ok p" by (simp add: params_ok_def digit_bits_def)
  show "m = Some (dp_q p - 1)" "dp_q p \<noteq> 0" using m by (simp_all add: p eq_neg_iff_add_eq_0)
qed (use assms in \<open>auto simp: decompose_params_new_def Let_def bind_eq_Some_conv split: if_splits\<close>)

lemma select_word_eq: "select_word a b (- of_bool s) = (if s then b else a)"
  by (cases s) (simp_all add: select_word_def xor.assoc [symmetric])

lemma u128_less_halves:
  fixes x y :: u128
  shows "(ucast (drop_bit 64 x) < (ucast (drop_bit 64 y) :: u64) \<or>
      ucast (drop_bit 64 y) = (ucast (drop_bit 64 x) :: u64) \<and> ucast x < (ucast y :: u64)) \<longleftrightarrow> x < y"
proof -
  have lex: "(h < k \<or> k = h \<and> l < m) \<longleftrightarrow> l + 2 ^ 64 * h < m + 2 ^ 64 * k"
    if "0 \<le> l" "l < 2 ^ 64" "0 \<le> m" "m < 2 ^ 64" for h k l m :: int
    using that by (cases "h = k"; cases "h < k") simp_all
  show ?thesis
    unfolding word_less_def u128_halves [of x] u128_halves [of y]
    using lex [OF u64_bounds [of "ucast x"] u64_bounds [of "ucast y"]] by (simp add: word_uint_eq_iff)
qed

lemma biased_words:
  assumes "params_ok p"
  shows "length (biased p c) = 3"
    and "words_val (biased p c) = (centered p c + bias_value (dp_log_basis p) (dp_levels p)) mod 2 ^ 192"
proof -
  let ?H = "bias_value (dp_log_basis p) (dp_levels p)"
  let ?bs = "if dp_threshold p < c then bias_negative p else bias_nonnegative p"
  have len: "length ?bs = 3" using assms by (auto simp: params_ok_def negative_bias_def Let_def split: prod.splits)
  then have bs: "?bs = [?bs ! 0, ?bs ! 1, ?bs ! 2]"
    by (intro nth_equalityI) (auto simp: less_Suc_eq numeral_3_eq_3 numeral_2_eq_2)
  have sel: "select_word (bias_nonnegative p ! i) (bias_negative p ! i) (- of_bool (dp_threshold p < c)) = ?bs ! i" for i
    by (simp add: select_word_eq)
  let ?l = "ucast c :: u64" and ?h = "ucast (drop_bit 64 c) :: u64"
  have "biased p c = [?l + ?bs ! 0, ?h + ?bs ! 1 + of_bool (?l + ?bs ! 0 < ?l),
      ?bs ! 2 + (of_bool (?h + ?bs ! 1 < ?h) OR of_bool (?h + ?bs ! 1 + of_bool (?l + ?bs ! 0 < ?l) < ?h + ?bs ! 1))]"
    unfolding biased_def Let_def u128_less_halves sel ..
  then have "words_val (biased p c) = (uint ?l + 2 ^ 64 * uint ?h + words_val [?bs ! 0, ?bs ! 1, ?bs ! 2]) mod 2 ^ 192"
    by (simp only: words_add)
  also have "\<dots> = (uint c + words_val ?bs) mod 2 ^ 192" unfolding bs [symmetric] u128_halves [of c] ..
  also have "\<dots> = (centered p c + ?H) mod 2 ^ 192"
  proof (cases "dp_threshold p < c")
    case True
    have "words_val (bias_negative p) = (?H - uint (dp_q p)) mod 2 ^ 192"
      using assms words_sub [of "bias_nonnegative p"] by (simp add: params_ok_def)
    with True show ?thesis by (simp add: centered_def mod_simps algebra_simps)
  qed (use assms in \<open>simp add: centered_def params_ok_def\<close>)
  finally show "words_val (biased p c) = (centered p c + ?H) mod 2 ^ 192" .
  show "length (biased p c) = 3" by (simp add: biased_def Let_def)
qed

section \<open>Reading digit fields\<close>

lemma straddled_field_bits:
  assumes "shift + g \<le> 64 * length ws" "g \<le> 64"
  shows "take_bit g (uint (straddled_field ws shift g)) = take_bit g (drop_bit shift (words_val ws))"
proof (rule bit_eqI)
  fix i
  let ?w = "shift div 64" and ?b = "shift mod 64"
  show "bit (take_bit g (uint (straddled_field ws shift g))) i = bit (take_bit g (drop_bit shift (words_val ws))) i"
  proof (cases "i < g")
    case i: True
    then have lt: "(shift + i) div 64 < length ws" using assms(1) by (simp add: div_less_iff_less_mult)
    show ?thesis
    proof (cases "?b + i < 64")
      case True
      have "(shift + i) div 64 = ?w" "(shift + i) mod 64 = ?b + i"
        using True by (simp_all add: div_add1_eq [of shift i] mod_add_eq [of shift, symmetric] )
      moreover have "i < 64 - ?b" using True by simp
      ultimately show ?thesis using i True lt
        by (auto simp: straddled_field_def Let_def bit_simps bit_words_val)
    next
      case False
      have e: "shift + i = (?b + i - 64) + 64 * (?w + 1)" using False by simp
      have dm: "(r + 64 * m) div 64 = m" "(r + 64 * m) mod 64 = r" if "r < 64" for r m :: nat using that by simp_all
      have r: "?b + i - 64 < 64" using i assms(2) by (simp add: less_diff_conv2 False add_less_le_mono) 
      have "(shift + i) div 64 = ?w + 1" "(shift + i) mod 64 = ?b + i - 64"
        using dm [OF r, of "?w + 1"] unfolding e [symmetric] .
      moreover have "?b + g > 64" "0 < ?b" using False i assms(2) by simp_all
      moreover have "\<not> bit (ws ! ?w) (?b + i)" using False bit_imp_le_length [of "ws ! ?w" "?b + i"] by auto
      moreover have "i + ?b - 64 = ?b + i - 64" "64 - ?b \<le> i" using False by simp_all
      ultimately show ?thesis using i False lt assms(2)
        by (auto simp: straddled_field_def Let_def bit_simps bit_words_val)
    qed
  qed (simp add: bit_simps)
qed

lemma from_biased_field_eq:
  assumes "0 < dp_log_basis p" "dp_log_basis p \<le> MAX_LOG_BASIS c"
  shows "from_biased_field c f (digit_mask p) (digit_half p) =
    take_bit (dp_log_basis p) (uint f) - 2 ^ (dp_log_basis p - 1)"
proof -
  let ?g = "dp_log_basis p" and ?n = "MAX_LOG_BASIS c"
  have n: "?n \<le> 16" "0 < ?n" by (simp_all add: MAX_LOG_BASIS_def split: digit_carrier.splits)
  have g: "?g \<le> 16" using assms n by linarith
  have "f AND digit_mask p = take_bit ?g f"
    by (rule bit_eqI) (use g in \<open>auto simp: digit_mask_def bit_simps mask_eq_decr_exp [symmetric] push_bit_of_1 bit_mask_iff\<close>)
  then have m: "uint (f AND digit_mask p) = take_bit ?g (uint f)" by (simp add: unsigned_take_bit_eq)
  have h: "uint (digit_half p) = 2 ^ (?g - 1)"
  proof -
    have "uint (digit_half p) = push_bit (?g - 1) 1"
      by (rule bit_eqI) (use g assms(1) in \<open>auto simp: digit_half_def bit_simps\<close>)
    then show ?thesis by (simp add: push_bit_eq_mult)
  qed
  let ?v = "take_bit ?g (uint f) - 2 ^ (?g - 1)"
  have "uint ((f AND digit_mask p) - digit_half p) = take_bit 16 ?v"
    by (simp add: uint_word_ariths m h take_bit_eq_mod)
  then have "from_biased_field c f (digit_mask p) (digit_half p) = signed_take_bit (?n - 1) ?v"
    using n signed_take_bit_take_bit [of "?n - 1" 16 ?v] by (simp add: from_biased_field_def Let_def) linarith
  also have "\<dots> = ?v"
  proof (rule signed_take_bit_int_eq_self)
    have "(2 :: int) ^ (?g - 1) \<le> 2 ^ (?n - 1)" using assms by (intro power_increasing) simp_all
    moreover have "0 \<le> take_bit ?g (uint f)" "take_bit ?g (uint f) < 2 * 2 ^ (?g - 1)"
      using assms(1) take_bit_int_less_exp [of ?g "uint f"] by (simp_all flip: power_Suc)
    ultimately show "- (2 ^ (?n - 1)) \<le> ?v" "?v < 2 ^ (?n - 1)" by linarith+
  qed
  finally show ?thesis .
qed

lemma ucast_low_field:
  fixes w :: "'w::len word"
  assumes "g \<le> 16"
  shows "take_bit g (uint (ucast w :: u16)) = take_bit g (uint w)"
  by (rule bit_eqI) (use assms in \<open>auto simp: bit_simps dest: bit_imp_le_length\<close>)

text \<open>One digit, read from any number of staged words that covers it.\<close>

lemma field_digit:
  assumes p: "params_ok p" and c: "dp_log_basis p \<le> MAX_LOG_BASIS c" and l: "level < dp_levels p"
    and f: "take_bit (dp_log_basis p) (uint f) =
      take_bit (dp_log_basis p) (drop_bit (level * dp_log_basis p) (x + bias_value (dp_log_basis p) (dp_levels p)))"
  shows "from_biased_field c f (digit_mask p) (digit_half p) = balanced_digits (dp_log_basis p) (dp_levels p) x ! level"
proof -
  let ?g = "dp_log_basis p"
  have "(2 :: int) ^ (level * ?g) = (2 ^ ?g) ^ level" by (simp add: power_mult [symmetric] mult.commute)
  with p c f l show ?thesis
    by (simp add: from_biased_field_eq params_ok_def balanced_digits_nth take_bit_eq_mod drop_bit_eq_div)
qed

lemma words_val_take: "words_val (take n ws) = take_bit (64 * n) (words_val ws)"
proof (rule bit_eqI)
  fix i
  have "i div 64 < n \<longleftrightarrow> i < 64 * n" by (simp add: div_less_iff_less_mult mult.commute)
  then show "bit (words_val (take n ws)) i = bit (take_bit (64 * n) (words_val ws)) i"
    by (auto simp: bit_words_val bit_take_bit_iff)
qed

lemma take_drop_take_bit: "s + g \<le> m \<Longrightarrow> take_bit g (drop_bit s (take_bit m x)) = take_bit g (drop_bit s x)" for x :: int
  by (simp add: drop_bit_take_bit) 

lemma straddled_digit:
  assumes p: "params_ok p" and c: "dp_log_basis p \<le> MAX_LOG_BASIS k" and l: "level < dp_levels p"
    and W: "digit_bits p \<le> 64 * W" "W \<le> 3"
  shows "from_biased_field k (ucast (straddled_field (take W (biased p c)) (level * dp_log_basis p) (dp_log_basis p)))
      (digit_mask p) (digit_half p) = balanced_digits (dp_log_basis p) (dp_levels p) (centered p c) ! level"
proof (rule field_digit [OF p c l])
  let ?g = "dp_log_basis p" and ?y = "centered p c + bias_value (dp_log_basis p) (dp_levels p)"
  have g: "?g \<le> 16" using p by (simp add: params_ok_def)
  have "Suc level * ?g \<le> dp_levels p * ?g" using l by (intro mult_le_mono1) simp
  then have top: "level * ?g + ?g \<le> 64 * W" using W(1) by (simp add: digit_bits_def)
  have len: "length (take W (biased p c)) = W" using biased_words(1) [OF p] W(2) by simp
  have "words_val (take W (biased p c)) = take_bit (64 * W) ?y"
    unfolding words_val_take biased_words(2) [OF p] take_bit_eq_mod [of 192, symmetric] using W(2) by simp
  with straddled_field_bits [of "level * ?g" ?g "take W (biased p c)"] top len g
  show "take_bit ?g (uint (ucast (straddled_field (take W (biased p c)) (level * ?g) ?g) :: u16)) =
      take_bit ?g (drop_bit (level * ?g) ?y)"
    by (simp add: ucast_low_field take_drop_take_bit)
qed

section \<open>The staged kernel\<close>

lemma stage_lanes:
  assumes p: "params_ok p" and W: "length words = W" "W \<le> 3" "\<And>row. row \<in> set words \<Longrightarrow> length row = 64"
    and cs: "\<And>i. i < n \<Longrightarrow> conv (chunk ! i) = Some (cs i)" and n: "n \<le> 64"
  shows "\<exists>words'. try_fold (stage_lane conv p chunk) words [0..<n] = Some words' \<and> length words' = W \<and>
    (\<forall>row \<in> set words'. length row = 64) \<and>
    (\<forall>lane < n. map (\<lambda>row. row ! lane) words' = take W (biased p (cs lane)))"
  using cs n
proof (induction n)
  case 0
  with W show ?case by auto
next
  case (Suc n)
  from Suc obtain ws where ws: "try_fold (stage_lane conv p chunk) words [0..<n] = Some ws" "length ws = W"
    "\<And>row. row \<in> set ws \<Longrightarrow> length row = 64" "\<And>lane. lane < n \<Longrightarrow> map (\<lambda>row. row ! lane) ws = take W (biased p (cs lane))"
    by (metis Suc_leD less_SucI)
  let ?ws = "map2 (\<lambda>row word. row[n := word]) ws (biased p (cs n))"
  have len: "length ?ws = W" using ws(2) W(2) biased_words(1) [OF p] by simp
  have row: "?ws ! r = (ws ! r)[n := biased p (cs n) ! r]" "length (ws ! r) = 64" if "r < W" for r
    using that ws(2,3) W(2) biased_words(1) [OF p] by simp_all
  have "try_fold (stage_lane conv p chunk) words [0..<Suc n] = Some ?ws"
    using ws(1) Suc.prems(1) [of n] by (simp add: try_fold_append stage_lane_def)
  moreover have "\<forall>row \<in> set ?ws. length row = 64" using row len by (auto simp: in_set_conv_nth)
  moreover have "map (\<lambda>row. row ! lane) ?ws = take W (biased p (cs lane))" if "lane < Suc n" for lane
  proof (rule nth_equalityI)
    show "length (map (\<lambda>row. row ! lane) ?ws) = length (take W (biased p (cs lane)))"
      using len W(2) biased_words(1) [OF p] by simp
    fix r assume "r < length (map (\<lambda>row. row ! lane) ?ws)"
    then have "r < length ?ws" by simp
    then have r: "r < W" by (simp only: len)
    have old: "ws ! r ! lane = biased p (cs lane) ! r" if "lane < n"
      using arg_cong [OF ws(4) [OF that], of "\<lambda>xs. xs ! r"] r ws(2) W(2) biased_words(1) [OF p] by simp
    show "map (\<lambda>row. row ! lane) ?ws ! r = take W (biased p (cs lane)) ! r"
      using that Suc.prems(2) row [OF r] len r old by (cases "lane = n") (simp_all add: nth_list_update)
  qed
  ultimately show ?case using len by blast
qed

lemma straddle_end: "64 < s mod 64 + g \<Longrightarrow> 64 * Suc (s div 64) < s + g" for s g :: nat
proof -
  have *: "64 < r + g \<Longrightarrow> 64 * q + r = s \<Longrightarrow> 64 * Suc q < s + g" for q r
    unfolding mult_Suc_right by linarith
  show "64 < s mod 64 + g \<Longrightarrow> 64 * Suc (s div 64) < s + g" by (rule * [OF _ mult_div_mod_eq])
qed

lemma lane_digit_eq:
  assumes "level < dp_levels p" "0 < dp_log_basis p" "dp_log_basis p \<le> 16" "digit_bits p \<le> 64 * length words"
  shows "lane_digit k p words level lane = from_biased_field k
    (ucast (straddled_field (map (\<lambda>row. row ! lane) words) (level * dp_log_basis p) (dp_log_basis p))) (digit_mask p) (digit_half p)"
proof -
  let ?g = "dp_log_basis p" and ?s = "level * dp_log_basis p"
  have "Suc level * ?g \<le> dp_levels p * ?g" using assms(1) by (intro mult_le_mono1) simp
  then have top: "?s + ?g \<le> 64 * length words" using assms(4) by (simp add: digit_bits_def)
  then have "?s div 64 < length words" using assms(2) by (simp add: div_less_iff_less_mult)
  moreover have "Suc (?s div 64) < length words" if "64 < ?s mod 64 + ?g"
  proof -
    have "64 * Suc (?s div 64) < ?s + ?g" using that straddle_end by blast
    from less_le_trans [OF this top] show ?thesis by simp
  qed
  ultimately show ?thesis by (simp add: lane_digit_def straddled_field_def Let_def)
qed

lemma fold_update_range:
  "s + n \<le> length xs \<Longrightarrow> length (fold (\<lambda>i xs. xs[s + i := f i]) [0..<n] xs) = length xs \<and>
    (\<forall>j < length xs. fold (\<lambda>i xs. xs[s + i := f i]) [0..<n] xs ! j = (if s \<le> j \<and> j < s + n then f (j - s) else xs ! j))"
proof (induction n)
  case (Suc n)
  then show ?case by (auto simp: nth_list_update)
qed auto

lemma row_window:
  assumes "i < w" "s + n \<le> w"
  shows "l' * w + s \<le> l * w + i \<and> l * w + i < l' * w + s + n \<longleftrightarrow> l = l' \<and> s \<le> i \<and> i < s + (n :: nat)"
proof (cases l l' rule: linorder_cases)
  case less
  then have "Suc l * w \<le> l' * w" by (intro mult_le_mono1) simp
  with less assms show ?thesis by auto
next
  case greater
  then have "Suc l' * w \<le> l * w" by (intro mult_le_mono1) simp
  with greater assms show ?thesis by auto
qed auto

lemma write_planes:
  assumes "start + len \<le> width" "length out = levels * width"
  shows "n \<le> levels \<Longrightarrow> length (fold (write_plane k p words width start len) [0..<n] out) = length out \<and>
    (\<forall>l < levels. \<forall>i < width. fold (write_plane k p words width start len) [0..<n] out ! (l * width + i) =
      (if l < n \<and> start \<le> i \<and> i < start + len then lane_digit k p words l (i - start) else out ! (l * width + i)))"
proof (induction n)
  case (Suc n)
  let ?o = "fold (write_plane k p words width start len) [0..<n] out"
  from Suc have IH: "length ?o = length out" "\<And>l i. l < levels \<Longrightarrow> i < width \<Longrightarrow> ?o ! (l * width + i) =
      (if l < n \<and> start \<le> i \<and> i < start + len then lane_digit k p words l (i - start) else out ! (l * width + i))" by auto
  have fits: "n * width + start + len \<le> length ?o"
  proof -
    have "Suc n * width \<le> levels * width" using Suc.prems by (intro mult_le_mono1)
    then show ?thesis using assms IH(1) by simp
  qed
  note W = fold_update_range [OF fits, of "lane_digit k p words n", folded write_plane_def]
  have "fold (write_plane k p words width start len) [0..<Suc n] out ! (l * width + i) =
      (if l < Suc n \<and> start \<le> i \<and> i < start + len then lane_digit k p words l (i - start) else out ! (l * width + i))"
    if l: "l < levels" and i: "i < width" for l i
  proof -
    have "Suc l * width \<le> levels * width" using l by (intro mult_le_mono1) simp
    then have "l * width + i < length ?o" using i assms(2) IH(1) by simp
    then show ?thesis using W IH(2) [OF l i] row_window [OF i assms(1), of n l]
      by (auto simp: less_Suc_eq)
  qed
  with W IH(1) show ?case by simp
qed simp

text \<open>One chunk of the kernel, and all of them.\<close>

lemma decompose_chunk_eq:
  fixes cs :: "nat \<Rightarrow> u128"
  assumes p: "params_ok p" and k: "dp_log_basis p \<le> MAX_LOG_BASIS k" and W: "digit_bits p \<le> 64 * W" "W \<le> 3"
    and cs: "\<And>i. i < length coeffs \<Longrightarrow> conv (coeffs ! i) = Some (cs i)"
    and words: "length words = W" "\<And>row. row \<in> set words \<Longrightarrow> length row = 64"
    and out: "length out = dp_levels p * length coeffs" and m: "m * 64 < length coeffs"
  shows "\<exists>words' out'. decompose_chunk conv k p coeffs (words, out) m = Some (words', out') \<and>
    length words' = W \<and> (\<forall>row \<in> set words'. length row = 64) \<and> length out' = length out \<and>
    (\<forall>l < dp_levels p. \<forall>i < length coeffs. out' ! (l * length coeffs + i) =
       (if m * 64 \<le> i \<and> i < Suc m * 64 then balanced_digits (dp_log_basis p) (dp_levels p) (centered p (cs i)) ! l
        else out ! (l * length coeffs + i)))"
proof -
  let ?w = "length coeffs" and ?chunk = "take 64 (drop (m * 64) coeffs)"
  let ?n = "min (?w - m * 64) 64"
  have clen: "length ?chunk = ?n" by simp
  have "conv (?chunk ! i) = Some (cs (m * 64 + i))" if "i < ?n" for i
    using cs [of "m * 64 + i"] that m by (simp add: less_diff_conv add.commute)
  with stage_lanes [OF p words(1) W(2) words(2), of ?n conv ?chunk "\<lambda>i. cs (m * 64 + i)"] obtain words' where
    w: "try_fold (stage_lane conv p ?chunk) words [0..<?n] = Some words'" "length words' = W"
      "\<forall>row \<in> set words'. length row = 64"
      "\<And>lane. lane < ?n \<Longrightarrow> map (\<lambda>row. row ! lane) words' = take W (biased p (cs (m * 64 + lane)))"
    by auto
  have "0 < ?w" using m by linarith
  with out have div: "length out div ?w = dp_levels p" by simp
  let ?out = "fold (write_plane k p words' ?w (m * 64) ?n) [0..<dp_levels p] out"
  have run: "decompose_chunk conv k p coeffs (words, out) m = Some (words', ?out)"
    using w(1) div by (simp add: decompose_chunk_def BIASED_CHUNK_def Let_def)
  have fit: "m * 64 + ?n \<le> ?w" using m by simp
  note planes = write_planes [OF fit out order_refl, of k p words']
  have "?out ! (l * ?w + i) = (if m * 64 \<le> i \<and> i < Suc m * 64
      then balanced_digits (dp_log_basis p) (dp_levels p) (centered p (cs i)) ! l else out ! (l * ?w + i))"
    if l: "l < dp_levels p" and i: "i < ?w" for l i
  proof (cases "m * 64 \<le> i \<and> i < Suc m * 64")
    case True
    with i have n: "i - m * 64 < ?n" "m * 64 \<le> i" "i < m * 64 + ?n" by auto
    have "?out ! (l * ?w + i) = lane_digit k p words' l (i - m * 64)" using planes l i n by simp
    also have "\<dots> = balanced_digits (dp_log_basis p) (dp_levels p) (centered p (cs i)) ! l"
      using p w(2) w(4) [OF n(1)] n(2) W l lane_digit_eq [OF l, of words' k "i - m * 64"] straddled_digit [OF p k l W, of "cs i"]
      by (simp add: params_ok_def)
    finally show ?thesis using True by simp
  next
    case False
    then show ?thesis using planes l i by auto
  qed
  with run w planes show ?thesis by auto
qed

lemma biased_words_kernel:
  fixes cs :: "nat \<Rightarrow> u128"
  assumes p: "params_ok p" and k: "dp_log_basis p \<le> MAX_LOG_BASIS k" and W: "digit_bits p \<le> 64 * W" "W \<le> 3"
    and cs: "\<And>i. i < length coeffs \<Longrightarrow> conv (coeffs ! i) = Some (cs i)"
    and out: "length out = dp_levels p * length coeffs"
  shows "\<exists>out'. balanced_decompose_biased_words conv k W coeffs out p = Some out' \<and> length out' = length out \<and>
    (\<forall>l < dp_levels p. \<forall>i < length coeffs. out' ! (l * length coeffs + i) =
       balanced_digits (dp_log_basis p) (dp_levels p) (centered p (cs i)) ! l)"
proof -
  let ?w = "length coeffs" and ?run = "\<lambda>n. try_fold (decompose_chunk conv k p coeffs) (replicate W (replicate 64 0), out) [0..<n]"
  have "\<exists>words out'. ?run n = Some (words, out') \<and> length words = W \<and> (\<forall>row \<in> set words. length row = 64) \<and>
      length out' = length out \<and> (\<forall>l < dp_levels p. \<forall>i < ?w. i < n * 64 \<longrightarrow> out' ! (l * ?w + i) =
       balanced_digits (dp_log_basis p) (dp_levels p) (centered p (cs i)) ! l)" if "n \<le> ceil_div ?w 64" for n
    using that
  proof (induction n)
    case (Suc n)
    from Suc obtain words out' where IH: "?run n = Some (words, out')" "length words = W"
      "\<And>row. row \<in> set words \<Longrightarrow> length row = 64" "length out' = length out"
      "\<And>l i. l < dp_levels p \<Longrightarrow> i < ?w \<Longrightarrow> i < n * 64 \<Longrightarrow> out' ! (l * ?w + i) =
         balanced_digits (dp_log_basis p) (dp_levels p) (centered p (cs i)) ! l"
      by (metis Suc_leD)
    have m: "n * 64 < ?w"
    proof (rule ccontr)
      assume "\<not> ?thesis"
      then have "ceil_div ?w 64 \<le> n" by (intro ceil_div_least) simp_all
      with Suc.prems show False by simp
    qed
    have o: "length out' = dp_levels p * ?w" using IH(4) out by simp
    from decompose_chunk_eq [where cs = cs and conv = conv, OF p k W cs IH(2,3) o m] obtain words2 out2 where
      step: "decompose_chunk conv k p coeffs (words, out') n = Some (words2, out2)" "length words2 = W"
        "\<forall>row \<in> set words2. length row = 64" "length out2 = length out'"
        "\<And>l i. l < dp_levels p \<Longrightarrow> i < ?w \<Longrightarrow> out2 ! (l * ?w + i) = (if n * 64 \<le> i \<and> i < Suc n * 64
          then balanced_digits (dp_log_basis p) (dp_levels p) (centered p (cs i)) ! l else out' ! (l * ?w + i))"
      by (metis (no_types, lifting))
    have "?run (Suc n) = Some (words2, out2)" using IH(1) step(1) by (simp add: try_fold_append)
    moreover have "out2 ! (l * ?w + i) = balanced_digits (dp_log_basis p) (dp_levels p) (centered p (cs i)) ! l"
      if "l < dp_levels p" "i < ?w" "i < Suc n * 64" for l i
      using step(5) [OF that(1,2)] IH(5) [OF that(1,2)] that(3) by (cases "n * 64 \<le> i") auto
    ultimately show ?case using step IH(4) by auto
  qed auto
  from this [OF order_refl] obtain words out' where
    fin: "?run (ceil_div ?w 64) = Some (words, out')" "length out' = length out"
      "\<And>l i. l < dp_levels p \<Longrightarrow> i < ?w \<Longrightarrow> i < ceil_div ?w 64 * 64 \<Longrightarrow> out' ! (l * ?w + i) =
         balanced_digits (dp_log_basis p) (dp_levels p) (centered p (cs i)) ! l"
    by blast
  have "?w \<le> ceil_div ?w 64 * 64" by (rule ceil_div_mult_ge) simp
  with fin show ?thesis by (auto simp: balanced_decompose_biased_words_def BIASED_CHUNK_def)
qed

lemma signed_into_eq:
  fixes cs :: "nat \<Rightarrow> u128"
  assumes p: "params_ok p" and k: "dp_log_basis p \<le> MAX_LOG_BASIS k"
    and cs: "\<And>i. i < length coeffs \<Longrightarrow> conv (coeffs ! i) = Some (cs i)"
    and out: "length out = length coeffs * dp_levels p" "length coeffs * dp_levels p \<le> usize_max"
  shows "\<exists>out'. signed_into conv k coeffs out p = Some out' \<and> length out' = length out \<and>
    (\<forall>l < dp_levels p. \<forall>i < length coeffs. out' ! (l * length coeffs + i) =
       balanced_digits (dp_log_basis p) (dp_levels p) (centered p (cs i)) ! l)"
proof (cases "coeffs = [] \<or> dp_levels p = 0")
  case True
  then show ?thesis using out by (auto simp: signed_into_def checked_mul_if)
next
  case False
  have bits: "digit_bits p \<le> 64 * ceil_div (digit_bits p) 64" using ceil_div_mult_ge [of 64 "digit_bits p"] by (simp add: mult.commute)
  have "ceil_div (digit_bits p) 64 \<le> 3" using p by (intro ceil_div_least) (simp_all add: params_ok_def)
  then consider "ceil_div (digit_bits p) 64 \<le> 1" | "ceil_div (digit_bits p) 64 = 2" | "ceil_div (digit_bits p) 64 = 3" by linarith
  then obtain W where W: "digit_bits p \<le> 64 * W" "W \<le> 3"
    "signed_kernel conv k coeffs out p = balanced_decompose_biased_words conv k W coeffs out p"
  proof cases
    case 1
    with bits that [of 1] show ?thesis by (simp add: signed_kernel_def Let_def le_Suc_eq)
  next
    case 2
    with bits that [of 2] show ?thesis by (simp add: signed_kernel_def Let_def)
  next
    case 3
    with bits that [of 3] show ?thesis by (simp add: signed_kernel_def Let_def)
  qed
  have "signed_into conv k coeffs out p = signed_kernel conv k coeffs out p"
    using False out by (simp add: signed_into_def checked_mul_if)
  with biased_words_kernel [where conv = conv and cs = cs, OF p k W(1,2) cs, of out] out W(3) show ?thesis by (simp add: mult.commute)
qed

lemma unflatten_nth:
  "l < planes \<Longrightarrow> i < D \<Longrightarrow> length flat = planes * D \<Longrightarrow> unflatten planes D flat ! l ! i = flat ! (l * D + i)"
proof -
  assume l: "l < planes" and "i < D" "length flat = planes * D"
  moreover have "Suc l * D \<le> planes * D" using l by (intro mult_le_mono1) simp
  ultimately show ?thesis by (simp add: unflatten_def)
qed

section \<open>The digits determine the coefficient\<close>

definition digit_ones :: "nat \<Rightarrow> nat \<Rightarrow> int" where
  "digit_ones g n = (\<Sum>k < n. (2 ^ g) ^ k)"

lemma digit_ones_closed: "(2 ^ g - 1) * digit_ones g n = (2 ^ g) ^ n - 1"
  by (induction n) (auto simp: digit_ones_def algebra_simps)

lemma digit_ones_nonneg: "0 \<le> digit_ones g n"
  unfolding digit_ones_def by (rule sum_nonneg) simp

lemma bias_value_ones: "bias_value g n = 2 ^ (g - 1) * digit_ones g n"
  by (simp add: bias_value_def digit_ones_def sum_distrib_left)

lemma uint_u128_mult: "uint (x * y) = uint x * uint y mod 2 ^ 128" for x y :: u128
  by (simp add: uint_word_ariths)

lemma threshold_exact:
  assumes g: "0 < g" "g \<le> 16" and n: "n \<le> u32_max" "n * g = bit_length (unat q - 1)"
    and t: "decompose_centering_threshold n g q = Some t"
  shows "uint t = min ((2 ^ (g - 1) - 1) * digit_ones g n) (uint q div 2)"
proof -
  let ?fb = "n * g" and ?h = "2 ^ (g - 1) :: int"
  have "unat q - 1 < 2 ^ 128" using unsigned_less [of q, where ?'a = nat] by simp
  then have fb: "?fb \<le> 128" unfolding n(2) by (rule bit_length_le)
  have "n \<le> ?fb" using g by simp
  then have "n \<le> 128" using fb by linarith
  then have "n < 2 ^ 32" "?fb \<le> u32_max" using fb by (simp_all add: u32_max_def)
  then have total: "u32_saturating_mul (n mod 2 ^ 32) g = ?fb" by (simp add: u32_saturating_mul_def)
  define b where "b = (push_bit g 1 :: u128)"
  define k1 where "k1 = (if ?fb \<ge> 128 then - 1 else push_bit ?fb 1 - 1 :: u128)"
  have t': "t = min ((b div 2 - 1) * (k1 div (b - 1))) (q div 2)"
    using t g n(2) total by (auto simp: decompose_centering_threshold_def Let_def b_def k1_def)
  have h: "(2 :: int) ^ g = 2 * ?h" "1 \<le> ?h" using g by (simp_all flip: power_Suc)
  have ub: "uint b = 2 ^ g"
  proof -
    have "uint b = push_bit g 1" unfolding b_def by (rule bit_eqI) (use g in \<open>auto simp: bit_simps\<close>)
    then show ?thesis by (simp add: push_bit_eq_mult)
  qed
  have uk: "uint k1 = 2 ^ ?fb - 1"
  proof (cases "?fb \<ge> 128")
    case True
    with fb have "?fb = 128" by simp
    then show ?thesis unfolding k1_def by (simp add: unsigned_minus_1_eq_mask mask_eq_exp_minus_1)
  next
    case False
    have "uint (push_bit ?fb 1 :: u128) = push_bit ?fb 1" by (rule bit_eqI) (use False in \<open>auto simp: bit_simps\<close>)
    then have "uint (push_bit ?fb 1 :: u128) = 2 ^ ?fb" by (simp add: push_bit_eq_mult)
    then show ?thesis using False unfolding k1_def by (simp add: uint_sub_if')
  qed
  have e1: "uint (b div 2 - 1) = ?h - 1"
  proof -
    have "uint (b div 2) = ?h" using ub h by (simp add: uint_div)
    then show ?thesis using h by (simp add: uint_sub_if')
  qed
  have "uint (b - 1) = 2 ^ g - 1" using ub by (simp add: uint_sub_if')
  then have e2: "uint (k1 div (b - 1)) = digit_ones g n"
  proof -
    have "2 ^ ?fb - 1 = (2 ^ g - 1) * digit_ones g n" unfolding digit_ones_closed by (simp add: power_mult [symmetric] mult.commute)
    moreover have "(2 :: int) ^ g - 1 \<noteq> 0" using h by linarith
    ultimately show ?thesis using \<open>uint (b - 1) = 2 ^ g - 1\<close> uk by (simp add: uint_div)
  qed
  have "(?h - 1) * digit_ones g n \<le> (2 ^ g - 1) * digit_ones g n"
    using h digit_ones_nonneg by (intro mult_right_mono) linarith+
  also have "\<dots> = 2 ^ ?fb - 1" unfolding digit_ones_closed by (simp add: power_mult [symmetric] mult.commute)
  also have "\<dots> < 2 ^ 128" using power_increasing [OF fb, of "2 :: int"] by simp
  finally have "(?h - 1) * digit_ones g n < 2 ^ 128" .
  moreover have "0 \<le> (?h - 1) * digit_ones g n" using h digit_ones_nonneg by simp
  ultimately have "uint ((b div 2 - 1) * (k1 div (b - 1))) = (?h - 1) * digit_ones g n"
    unfolding uint_u128_mult e1 e2 by (intro mod_pos_pos_trivial)
  then show ?thesis unfolding t' by (simp add: min_def word_le_def uint_div)
qed

text \<open>With enough digits for the field, the centred value is representable.\<close>

lemma centered_representable:
  assumes new: "decompose_params_new m n g = Some p" and c: "c < dp_q p"
    and bits: "bit_length (unat (dp_q p) - 1) \<le> n * g"
  shows "0 \<le> centered p c + bias_value g n \<and> centered p c + bias_value g n < (2 ^ g) ^ n"
proof -
  let ?Q = "uint (dp_q p)" and ?h = "2 ^ (g - 1) :: int" and ?R = "digit_ones g n" and ?fb = "bit_length (unat (dp_q p) - 1)"
  let ?B = "(2 ^ g) ^ n :: int"
  note D = decompose_params_newD [OF new]
  have g: "0 < g" "g \<le> 16" using D(1,3) by (simp_all add: params_ok_def)
  have h: "(2 :: int) ^ g = 2 * ?h" "1 \<le> ?h" using g by (simp_all flip: power_Suc)
  have R: "0 \<le> ?R" by (rule digit_ones_nonneg)
  have top: "(?h - 1) * ?R + ?h * ?R + 1 = ?B" using digit_ones_closed [of g n] h by (simp add: algebra_simps)
  have mono: "(?h - 1) * ?R \<le> ?h * ?R" using R by (intro mult_right_mono) simp_all
  have cQ: "uint c < ?Q" "0 \<le> uint c" using c by (simp_all add: word_less_def)
  have "?Q - 1 < 2 ^ ?fb"
  proof -
    have "unat (dp_q p) \<noteq> 0" using D(6) by (simp add: unat_eq_0)
    then have "int (unat (dp_q p) - 1) = ?Q - 1" by (simp add: of_nat_diff)
    moreover have "int (unat (dp_q p) - 1) < int (2 ^ ?fb)" using less_bit_length of_nat_less_iff by blast
    ultimately show ?thesis by simp
  qed
  then have Qb: "?Q \<le> 2 ^ ?fb" by simp
  have "n * g = ?fb \<or> ?fb < n * g" using bits by linarith
  then have thr: "uint (dp_threshold p) \<le> (?h - 1) * ?R \<and>
      (uint (dp_threshold p) = ?Q div 2 \<or> uint (dp_threshold p) = (?h - 1) * ?R \<and> ?Q \<le> ?B)"
  proof
    assume eq: "n * g = ?fb"
    have "?B = 2 ^ ?fb" unfolding eq [symmetric] by (simp add: power_mult [symmetric] mult.commute)
    then show ?thesis using threshold_exact [OF g D(4) eq D(8)] Qb by (auto simp: min_def)
  next
    assume gt: "?fb < n * g"
    have "g \<noteq> 1" using D(7) gt by auto
    then have "2 \<le> ?h" using g by (cases "g - 1") auto
    have "n \<le> n * g" using g by simp
    moreover have "n * g \<le> 144" using D(1,2,3) by (simp add: params_ok_def digit_bits_def)
    ultimately have "n \<le> 144" "n * g \<le> 144" by linarith+
    then have nb: "n < 2 ^ 32" "n * g \<le> u32_max" by (simp_all add: u32_max_def)
    then have "u32_saturating_mul (n mod 2 ^ 32) g = n * g" by (simp add: u32_saturating_mul_def)
    then have "dp_threshold p = dp_q p div 2" using D(8) gt by (auto simp: decompose_centering_threshold_def Let_def)
    then have t: "uint (dp_threshold p) = ?Q div 2" by (simp add: uint_div)
    have "2 * (2 :: int) ^ ?fb \<le> 2 ^ (n * g)" using gt power_increasing [of "Suc ?fb" "n * g" "2 :: int"] by simp
    then have "2 * ?Q \<le> ?B" using Qb by (simp add: power_mult [symmetric] mult.commute)
    moreover have "?B - 1 \<le> 3 * ((?h - 1) * ?R)"
    proof -
      have "2 ^ g - 1 \<le> 3 * (?h - 1)" using \<open>2 \<le> ?h\<close> unfolding h(1) by simp
      then have "(2 ^ g - 1) * ?R \<le> (3 * (?h - 1)) * ?R" using R by (rule mult_right_mono)
      then show ?thesis unfolding digit_ones_closed mult.assoc .
    qed
    moreover have "0 \<le> (?h - 1) * ?R" using h R by simp
    ultimately have "?Q div 2 \<le> (?h - 1) * ?R" using cQ by linarith
    then show ?thesis using t by simp
  qed
  show ?thesis
  proof (cases "c \<le> dp_threshold p")
    case True
    then have "uint c \<le> (?h - 1) * ?R" using thr by (simp add: word_le_def)
    moreover have "0 \<le> ?h * ?R" using h R by simp
    ultimately show ?thesis using True cQ top by (simp add: centered_def bias_value_ones)
  next
    case False
    then have "uint (dp_threshold p) < uint c" by (simp add: word_le_def)
    with thr top mono have "0 \<le> uint c - ?Q + ?h * ?R" by linarith
    moreover have "0 \<le> (?h - 1) * ?R" using h R by simp
    ultimately show ?thesis using False cQ top by (simp add: centered_def bias_value_ones)
  qed
qed

lemma balanced_digits_recompose:
  assumes "decompose_params_new m n g = Some p" "c < dp_q p" "bit_length (unat (dp_q p) - 1) \<le> n * g"
  shows "(\<Sum>k < n. balanced_digits g n (centered p c) ! k * (2 ^ g) ^ k) = centered p c"
    and "centered p c mod uint (dp_q p) = uint c"
proof -
  show "(\<Sum>k < n. balanced_digits g n (centered p c) ! k * (2 ^ g) ^ k) = centered p c"
    using centered_representable [OF assms] by (simp add: balanced_digits_sum)
  have "uint c < uint (dp_q p)" using assms(2) by (simp add: word_less_def)
  moreover have "(uint c - uint (dp_q p)) mod uint (dp_q p) = uint c mod uint (dp_q p)" by simp
  ultimately show "centered p c mod uint (dp_q p) = uint c" by (simp add: centered_def)
qed

section \<open>Small signed inputs\<close>

lemma lane_field:
  fixes v :: int
  assumes p: "params_ok p" and w: "digit_bits p \<le> LENGTH('w::len)" "LENGTH('w) \<le> 64" and l: "level < dp_levels p"
  shows "take_bit (dp_log_basis p) (uint (ucast (drop_bit (level * dp_log_basis p)
      (word_of_int v + (ucast (bias_nonnegative p ! 0) :: 'w word))) :: u16)) =
    take_bit (dp_log_basis p) (drop_bit (level * dp_log_basis p) (v + bias_value (dp_log_basis p) (dp_levels p)))"
proof -
  let ?g = "dp_log_basis p" and ?L = "LENGTH('w)" and ?H = "bias_value (dp_log_basis p) (dp_levels p)"
  have g: "?g \<le> 16" using p by (simp add: params_ok_def)
  have "Suc level * ?g \<le> dp_levels p * ?g" using l by (intro mult_le_mono1) simp
  then have top: "level * ?g + ?g \<le> ?L" using w(1) by (simp add: digit_bits_def)
  from p obtain b1 b2 where bs: "bias_nonnegative p = [bias_nonnegative p ! 0, b1, b2]"
    by (auto simp: params_ok_def length_Suc_conv numeral_3_eq_3)
  have "uint (bias_nonnegative p ! 0) = take_bit 64 (words_val (bias_nonnegative p))"
    using words_val_take [of 1 "bias_nonnegative p"] by (subst (asm) bs, subst bs) simp
  then have b: "uint (bias_nonnegative p ! 0) = take_bit 64 ?H" using p by (simp add: params_ok_def)
  have "uint (word_of_int v + (ucast (bias_nonnegative p ! 0) :: 'w word)) = take_bit ?L (take_bit ?L v + take_bit ?L (take_bit 64 ?H))"
    by (simp add: uint_word_ariths unsigned_ucast_eq b take_bit_eq_mod [symmetric] uint_word_of_int_eq)
  also have "\<dots> = take_bit ?L (v + ?H)" using w(2) by (simp add: take_bit_add)
  finally show ?thesis
    using g top by (simp add: ucast_low_field unsigned_drop_bit_eq take_drop_take_bit)
qed

lemma small_signed_lanes_eq:
  assumes p: "params_ok p" and k: "dp_log_basis p \<le> MAX_LOG_BASIS k"
    and w: "digit_bits p \<le> LENGTH('w::len)" "LENGTH('w) \<le> 64"
  shows "small_signed_lanes p k ring (dp_levels p) (\<lambda>v. word_of_int v + (ucast (bias_nonnegative p ! 0) :: 'w word)) =
    map (\<lambda>l. map (\<lambda>v. balanced_digits (dp_log_basis p) (dp_levels p) v ! l) ring) [0..<dp_levels p]"
  using field_digit [OF p k _ lane_field [OF p w]] by (auto simp: small_signed_lanes_def Let_def)

lemma small_signed_residues_eq:
  assumes p: "params_ok p" and k: "dp_log_basis p \<le> MAX_LOG_BASIS k"
  shows "small_signed_residues p k ring (dp_levels p) =
    map (\<lambda>l. map (\<lambda>v. balanced_digits (dp_log_basis p) (dp_levels p)
       (centered p (if v \<ge> 0 then word_of_int v else dp_q p - word_of_int \<bar>v\<bar>)) ! l) ring) [0..<dp_levels p]"
proof -
  have "digit_bits p \<le> 64 * 3" using p by (simp add: params_ok_def)
  note digit = straddled_digit [OF p k _ this order_refl]
  have "take 3 (biased p c) = biased p c" for c using biased_words(1) [OF p] by simp
  then show ?thesis using digit by (auto simp: small_signed_residues_def Let_def)
qed

text \<open>A carrier value that is its own centred representative.\<close>

lemma centered_small:
  fixes v :: int
  assumes q: "dp_threshold p \<ge> word_of_int (carrier_max k)" "dp_q p - dp_threshold p > word_of_int \<bar>carrier_min k\<bar>"
    and tq: "dp_threshold p \<le> dp_q p" and v: "carrier_min k \<le> v" "v \<le> carrier_max k"
  shows "centered p (if v \<ge> 0 then word_of_int v else dp_q p - word_of_int \<bar>v\<bar>) = v"
proof -
  have small: "uint (word_of_int x :: u128) = x" if "0 \<le> x" "x \<le> 32768" for x
    using that by (simp add: uint_word_of_int_eq take_bit_int_eq_self)
  have k: "0 \<le> carrier_max k" "carrier_max k \<le> 32768" "\<bar>carrier_min k\<bar> \<le> 32768" "carrier_min k \<le> 0"
    by (simp_all add: carrier_max_def carrier_min_def split: digit_carrier.splits)
  have t: "carrier_max k \<le> uint (dp_threshold p)" using q(1) k by (simp add: word_le_def small)
  have d: "uint (dp_q p - dp_threshold p) = uint (dp_q p) - uint (dp_threshold p)" using tq by (simp add: word_le_def uint_sub_if')
  have "uint (word_of_int \<bar>carrier_min k\<bar> :: u128) = \<bar>carrier_min k\<bar>" using k by (intro small) simp_all
  from q(2) [unfolded word_less_def this d] have m: "\<bar>carrier_min k\<bar> < uint (dp_q p) - uint (dp_threshold p)" .
  show ?thesis
  proof (cases "v \<ge> 0")
    case True
    then show ?thesis using v t k by (simp add: centered_def word_le_def small)
  next
    case False
    have "uint (word_of_int \<bar>v\<bar> :: u128) = \<bar>v\<bar>" using False v k by (intro small) simp_all
    moreover have "\<bar>v\<bar> \<le> uint (dp_q p)" using False v m uint_nonnegative [of "dp_threshold p"] by linarith
    ultimately have u: "uint (dp_q p - word_of_int \<bar>v\<bar>) = uint (dp_q p) + v"
      using False uint_sub_if' [of "dp_q p" "word_of_int \<bar>v\<bar>"] by presburger
    then show ?thesis using False v m k by (simp add: centered_def word_le_def)
  qed
qed

lemma centering_threshold_le: "decompose_centering_threshold n g q = Some t \<Longrightarrow> t \<le> q div 2"
  by (auto simp: decompose_centering_threshold_def Let_def split: if_splits)

lemma threshold_le_half:
  assumes "decompose_params_new m n g = Some p"
  shows "dp_threshold p \<le> dp_q p"
proof -
  have "dp_threshold p \<le> dp_q p div 2"
    by (rule centering_threshold_le [OF decompose_params_newD(8) [OF assms]])
  moreover have "dp_q p div 2 \<le> dp_q p" 
  proof -
    have "x div 2 \<le> x" if "0 \<le> x" for x :: int using that by linarith
    from this [of "uint (dp_q p)"] show ?thesis by (simp add: word_le_def uint_div)
  qed
  ultimately show ?thesis by (rule order_trans)
qed

lemma decompose_small_signed_eq:
  assumes new: "decompose_params_new m n g = Some p" and k: "g \<le> MAX_LOG_BASIS k"
    and v: "\<And>v. v \<in> set ring \<Longrightarrow> carrier_min c \<le> v \<and> v \<le> carrier_max c"
  shows "decompose_small_signed_into p c k ring n =
    Some (map (\<lambda>l. map (\<lambda>v. balanced_digits g n
       (centered p (if v \<ge> 0 then word_of_int v else dp_q p - word_of_int \<bar>v\<bar>)) ! l) ring) [0..<n])"
proof -
  note D = decompose_params_newD [OF new]
  let ?cen = "dp_threshold p \<ge> word_of_int (carrier_max c) \<and> dp_q p - dp_threshold p > word_of_int \<bar>carrier_min c\<bar>"
  have lanes: "map (\<lambda>l. map (\<lambda>v. balanced_digits g n v ! l) ring) [0..<n] = map (\<lambda>l. map (\<lambda>v. balanced_digits g n
       (centered p (if v \<ge> 0 then word_of_int v else dp_q p - word_of_int \<bar>v\<bar>)) ! l) ring) [0..<n]" if ?cen
  proof -
    have "centered p (if v \<ge> 0 then word_of_int v else dp_q p - word_of_int \<bar>v\<bar>) = v" if "v \<in> set ring" for v
      using centered_small [OF _ _ threshold_le_half [OF new]] \<open>?cen\<close> v [OF that] by blast
    then show ?thesis by (intro map_cong [OF refl]) (simp only:)
  qed
  have k': "dp_log_basis p \<le> MAX_LOG_BASIS k" using k D by simp
  show ?thesis
    using D lanes small_signed_residues_eq [OF D(1) k', of ring]
      small_signed_lanes_eq [where ?'w = 16, OF D(1) k', of ring] small_signed_lanes_eq [where ?'w = 32, OF D(1) k', of ring]
      small_signed_lanes_eq [where ?'w = 64, OF D(1) k', of ring] k
    by (simp add: decompose_small_signed_into_def Let_def)
qed

section \<open>Properties\<close>

text \<open>
  C13.  The staged add-bias kernel writes, digit-major, exactly the digits of the documented
  balanced recurrence on the centred representative of every coefficient: the chunking by 64,
  the reuse of the staging rows, the number of staged words and the fields that straddle two
  words make no difference, and the call does not panic.
\<close>

theorem balanced_decompose_refines:
  fixes cs :: "nat \<Rightarrow> u128"
  assumes "decompose_params_new m n g = Some p" "g \<le> 8"
    and "\<And>i. i < length coeffs \<Longrightarrow> conv (coeffs ! i) = Some (cs i)"
    and "length out = length coeffs * n" "length coeffs * n \<le> usize_max"
  shows "\<exists>out'. balanced_decompose_coefficients_pow2_i8_into conv coeffs out p = Some out' \<and> length out' = length out \<and>
    (\<forall>l < n. \<forall>i < length coeffs. out' ! (l * length coeffs + i) = balanced_digits g n (centered p (cs i)) ! l)"
proof -
  note D = decompose_params_newD [OF assms(1)]
  have "dp_log_basis p \<le> MAX_LOG_BASIS DI8" using assms(2) D(3) by (simp add: MAX_LOG_BASIS_def)
  from signed_into_eq [where conv = conv and cs = cs and coeffs = coeffs, OF D(1) this assms(3)] assms(4,5) D this show ?thesis
    by (auto simp: balanced_decompose_coefficients_pow2_i8_into_def checked_mul_if)
qed

text \<open>
  C33.  Round trip of the ring decomposition: when the digits cover the width of the field, the
  digit planes are balanced and recompose, modulo the field's modulus, to every coefficient.
\<close>

theorem balanced_decompose_roundtrip:
  fixes cs :: "nat \<Rightarrow> u128"
  assumes "decompose_params_new m n g = Some p" "bit_length (unat (dp_q p) - 1) \<le> n * g"
    and "\<And>i. i < length coeffs \<Longrightarrow> conv (coeffs ! i) = Some (cs i) \<and> cs i < dp_q p"
    and "length out = n" "\<And>plane. plane \<in> set out \<Longrightarrow> length plane = length coeffs" "length coeffs * n \<le> usize_max"
  shows "\<exists>planes. balanced_decompose_pow2_i16_into conv coeffs out p = Some planes \<and> length planes = n \<and>
    (\<forall>i < length coeffs. (\<Sum>l < n. planes ! l ! i * (2 ^ g) ^ l) mod uint (dp_q p) = uint (cs i) \<and>
       (\<forall>l < n. - (2 ^ (g - 1)) \<le> planes ! l ! i \<and> planes ! l ! i < 2 ^ (g - 1)))"
proof -
  note D = decompose_params_newD [OF assms(1)]
  let ?w = "length coeffs"
  have g: "0 < g" "g \<le> 16" using D by (simp_all add: params_ok_def)
  then have k: "dp_log_basis p \<le> MAX_LOG_BASIS DI16" using D(3) by (simp add: MAX_LOG_BASIS_def)
  have "length (concat out) = ?w * n"
    using assms(4,5) by (simp add: length_concat sum_list_triv map_replicate_const [symmetric] cong: map_cong)
  with signed_into_eq [where conv = conv and cs = cs and coeffs = coeffs and out = "concat out", OF D(1) k] assms(3,6) D(2,3)
  obtain flat where flat: "signed_into conv DI16 coeffs (concat out) p = Some flat" "length flat = ?w * n"
    "\<And>l i. l < n \<Longrightarrow> i < ?w \<Longrightarrow> flat ! (l * ?w + i) = balanced_digits g n (centered p (cs i)) ! l" by auto
  let ?planes = "unflatten n ?w flat"
  have nth: "?planes ! l ! i = balanced_digits g n (centered p (cs i)) ! l" if "l < n" "i < ?w" for l i
    using that flat(2,3) by (simp add: unflatten_nth mult.commute)
  have "(\<Sum>l < n. ?planes ! l ! i * (2 ^ g) ^ l) mod uint (dp_q p) = uint (cs i)" if "i < ?w" for i
    using that nth balanced_digits_recompose [OF assms(1) _ assms(2), of "cs i"] assms(3) [OF that] by simp
  moreover have "- (2 ^ (g - 1)) \<le> ?planes ! l ! i \<and> ?planes ! l ! i < 2 ^ (g - 1)" if "l < n" "i < ?w" for l i
    unfolding nth [OF that] using that(1) by (intro balanced_digits_range [OF g(1), of _ n "centered p (cs i)"]) simp
  ultimately show ?thesis
    using flat(1) assms(4) by (simp add: balanced_decompose_pow2_i16_into_def unflatten_def)
qed

text \<open>
  C34.  The narrow-lane paths for small signed inputs return the digits of the same
  decomposition as the path through canonical residues, for every carrier and digit type.
\<close>

theorem small_signed_refines:
  assumes "decompose_params_new m n g = Some p" "g \<le> MAX_LOG_BASIS k"
    and "\<And>v. v \<in> set ring \<Longrightarrow> carrier_min c \<le> v \<and> v \<le> carrier_max c"
  shows "decompose_small_signed_into p c k ring n =
    Some (map (\<lambda>l. map (\<lambda>v. balanced_digits g n
       (centered p (if v \<ge> 0 then word_of_int v else dp_q p - word_of_int \<bar>v\<bar>)) ! l) ring) [0..<n])"
  by (rule decompose_small_signed_eq [OF assms])

lemma params_97: "\<exists>p. decompose_params_new (Some 96) 4 2 = Some p \<and> dp_q p = 97"
  by (simp add: decompose_params_new_def decompose_centering_threshold_def Let_def u32_max_def u32_saturating_mul_def
      bit_length.simps)

theorem balanced_decompose_refines_witness:
  "\<exists>p out. decompose_params_new (Some 96) 4 2 = Some p \<and>
     balanced_decompose_coefficients_pow2_i8_into Some [5, 90] (replicate 8 0) p = Some out \<and>
     out ! 3 = balanced_digits 2 4 (centered p 90) ! 1"
proof -
  obtain p where p: "decompose_params_new (Some 96) 4 2 = Some p" using params_97 by blast
  obtain out where o: "balanced_decompose_coefficients_pow2_i8_into Some [5, 90] (replicate 8 0) p = Some out"
    "\<forall>l < 4. \<forall>i < length [5, 90 :: u128]. out ! (l * length [5, 90 :: u128] + i) =
      balanced_digits 2 4 (centered p ([5, 90] ! i)) ! l"
    using balanced_decompose_refines [where conv = Some and coeffs = "[5, 90]" and cs = "\<lambda>i. [5, 90] ! i" and out = "replicate 8 0", OF p] that by (simp add: usize_max_def) blast
  from o(2) [rule_format, of 1 1] have "out ! 3 = balanced_digits 2 4 (centered p 90) ! 1" by (simp add: numeral_3_eq_3)
  with p o(1) show ?thesis by blast
qed

theorem balanced_decompose_roundtrip_witness:
  "\<exists>p planes. decompose_params_new (Some 96) 4 2 = Some p \<and>
     balanced_decompose_pow2_i16_into Some [90] [[0], [0], [0], [0]] p = Some planes \<and>
     (\<Sum>l < 4. planes ! l ! 0 * (2 ^ 2) ^ l) mod 97 = 90"
proof -
  obtain p where p: "decompose_params_new (Some 96) 4 2 = Some p" "dp_q p = 97" using params_97 by blast
  have b: "bit_length (unat (dp_q p) - 1) \<le> 4 * 2" by (simp add: p(2) bit_length.simps)
  have 5: "i < length [90 :: u128] \<Longrightarrow> Some ([90] ! i) = Some ([90 :: u128] ! i) \<and> [90] ! i < dp_q p" for i
    by (simp add: p(2))
  obtain planes where o: "balanced_decompose_pow2_i16_into Some [90] [[0], [0], [0], [0]] p = Some planes"
    "(\<Sum>l < 4. planes ! l ! 0 * (2 ^ 2) ^ l) mod uint (dp_q p) = uint (90 :: u128)"
    using balanced_decompose_roundtrip [where conv = Some and coeffs = "[90]" and cs = "\<lambda>i. [90] ! i" and out = "[[0], [0], [0], [0]]", OF p(1) b 5] by (auto simp: usize_max_def)
  with p show ?thesis by auto
qed

theorem small_signed_refines_witness:
  "\<exists>p. decompose_params_new (Some 96) 4 2 = Some p \<and> decompose_small_signed_into p DI8 DI16 [- 3, 100] 4 =
    Some (map (\<lambda>l. map (\<lambda>v. balanced_digits 2 4
       (centered p (if v \<ge> 0 then word_of_int v else dp_q p - word_of_int \<bar>v\<bar>)) ! l) [- 3, 100]) [0..<4])"
proof -
  obtain p where p: "decompose_params_new (Some 96) 4 2 = Some p" using params_97 by blast
  have "decompose_small_signed_into p DI8 DI16 [- 3, 100] 4 = Some (map (\<lambda>l. map (\<lambda>v. balanced_digits 2 4
       (centered p (if v \<ge> 0 then word_of_int v else dp_q p - word_of_int \<bar>v\<bar>)) ! l) [- 3, 100]) [0..<4])"
    by (rule small_signed_refines [OF p]) (auto simp: MAX_LOG_BASIS_def carrier_min_def carrier_max_def)
  with p show ?thesis by blast
qed

end
