(* ===== verification/Ntt_Transform.thy ===== *)
theory Ntt_Transform
  imports Ntt_Prime
begin

text \<open>
  The portable negacyclic number-theoretic transform
  (\<^verbatim>\<open>crates/akita-algebra/src/ntt/butterfly.rs\<close>) and the production primes
  (\<^verbatim>\<open>ntt/tables.rs\<close>).

  An array \<^verbatim>\<open>[MontCoeff<W>; D]\<close> is a list of \<open>D\<close> raw machine values.  The kernel plan is the
  scalar one: the code after the vector-instruction dispatch.  A panic is \<open>None\<close>.
\<close>

section \<open>Roots and twiddle tables\<close>

function find_primitive_root_from :: "int \<Rightarrow> nat \<Rightarrow> int \<Rightarrow> int option" where
  "find_primitive_root_from p d a =
     (if a < p then
        if pow_mod a ((p - 1) div 2) p = p - 1 then Some (pow_mod a ((p - 1) div (2 * int d)) p)
        else find_primitive_root_from p d (a + 1)
      else None)"
  by pat_completeness auto
termination
  by (relation "measure (\<lambda>(p, d, a). nat (p - a))") auto

declare find_primitive_root_from.simps [simp del]

definition find_primitive_root_2d :: "int \<Rightarrow> nat \<Rightarrow> int option" where
  "find_primitive_root_2d p d = find_primitive_root_from p d 2"

record ntt_twiddles =
  fwd_wlen :: "int list"
  inv_wlen :: "int list"
  psi_pows :: "int list"
  psi_pows_r2 :: "int list"
  psi_inv_pows :: "int list"
  d_inv_psi_inv :: "int list"
  fwd_twiddles :: "int list"
  inv_twiddles :: "int list"
  tw_d_inv :: int
  num_stages :: nat

text \<open>The running powers \<open>cur = \<psi>\<^sup>i\<close> and \<open>cur_inv\<close>, written at index \<open>i\<close>.\<close>

definition twist_step ::
  "prime_width \<Rightarrow> ntt_prime \<Rightarrow> int \<Rightarrow> int \<Rightarrow> nat \<Rightarrow> (int list \<times> int list \<times> int list) \<times> int \<times> int
   \<Rightarrow> (int list \<times> int list \<times> int list) \<times> int \<times> int" where
  "twist_step W prime psi psi_inv i st =
     (case st of ((pows, r2, inv_pows), cur, cur_inv) \<Rightarrow>
        let pows' = pows[i := from_canonical W prime (from_i64 W cur)];
            r2' = r2[i := ntt_center W prime (mont_mul_raw W prime (pows' ! i) (np_montsq prime))];
            inv_pows' = inv_pows[i := from_canonical W prime (from_i64 W cur_inv)]
        in ((pows', r2', inv_pows'), swrap 64 (cur * psi) mod np_p prime, swrap 64 (cur_inv * psi_inv) mod np_p prime))"

function stage_roots ::
  "prime_width \<Rightarrow> ntt_prime \<Rightarrow> nat \<Rightarrow> int \<Rightarrow> int \<Rightarrow> nat \<Rightarrow> nat \<Rightarrow> int list \<times> int list \<Rightarrow> nat \<times> int list \<times> int list" where
  "stage_roots W prime D omega omega_inv len stage wlens =
     (if len < D \<and> 0 < len then
        let exponent = int (D div (2 * len)); p = np_p prime
        in stage_roots W prime D omega omega_inv (len * 2) (stage + 1)
             ((fst wlens)[stage := from_canonical W prime (from_i64 W (pow_mod omega exponent p))],
              (snd wlens)[stage := from_canonical W prime (from_i64 W (pow_mod omega_inv exponent p))])
      else (stage, wlens))"
  by pat_completeness auto
termination
  by (relation "measure (\<lambda>(W, prime, D, omega, omega_inv, len, stage, wlens). D - len)") auto

declare stage_roots.simps [simp del]

definition twiddle_step ::
  "prime_width \<Rightarrow> ntt_prime \<Rightarrow> int \<Rightarrow> int \<Rightarrow> nat \<Rightarrow> nat \<Rightarrow> (int list \<times> int list) \<times> int \<times> int \<Rightarrow> (int list \<times> int list) \<times> int \<times> int" where
  "twiddle_step W prime w_len w_inv_len base j st =
     (case st of ((fwd, bwd), w_fwd, w_inv) \<Rightarrow>
        ((fwd[base + j := w_fwd], bwd[base + j := w_inv]), mont_mul_raw W prime w_fwd w_len, mont_mul_raw W prime w_inv w_inv_len))"

definition twiddle_stage ::
  "prime_width \<Rightarrow> ntt_prime \<Rightarrow> int list \<Rightarrow> int list \<Rightarrow> nat \<Rightarrow> int list \<times> int list \<Rightarrow> int list \<times> int list" where
  "twiddle_stage W prime fwlen iwlen s tables =
     (let len = 2 ^ s; base = len - 1; one = from_canonical W prime (from_i64 W 1)
      in fst (fold (twiddle_step W prime (fwlen ! s) (iwlen ! s) base) [0..<len] (tables, one, one)))"

definition twiddles_compute :: "prime_width \<Rightarrow> ntt_prime \<Rightarrow> nat \<Rightarrow> ntt_twiddles option" where
  "twiddles_compute W prime D =
     (let p = np_p prime; zeros = replicate D 0
      in if \<not> is_power_of_two D then None
         else if (p - 1) mod (2 * int D) \<noteq> 0 then None
         else case find_primitive_root_2d p D of
           None \<Rightarrow> None
         | Some psi \<Rightarrow>
             let omega = swrap 64 (psi * psi) mod p;
                 omega_inv = pow_mod omega (p - 2) p;
                 psi_inv = pow_mod psi (p - 2) p;
                 ((pows, r2, inv_pows), _) = fold (twist_step W prime psi psi_inv) [0..<D] ((zeros, zeros, zeros), 1, 1);
                 (stages, fwlen, iwlen) = stage_roots W prime D omega omega_inv 1 0 (zeros, zeros);
                 d_inv = from_canonical W prime (from_i64 W (pow_mod (int D) (p - 2) p));
                 (fwd, bwd) = fold (twiddle_stage W prime fwlen iwlen) [0..<stages] (zeros, zeros)
             in Some \<lparr>fwd_wlen = fwlen, inv_wlen = iwlen, psi_pows = pows, psi_pows_r2 = r2, psi_inv_pows = inv_pows,
                  d_inv_psi_inv = map (mont_mul_raw W prime d_inv) inv_pows, fwd_twiddles = fwd, inv_twiddles = bwd,
                  tw_d_inv = d_inv, num_stages = stages\<rparr>)"

section \<open>Transforms\<close>

text \<open>One pass over the blocks of half-length \<open>len\<close>; a step works on \<open>start + j\<close> and its partner.\<close>

function ntt_blocks :: "(nat \<Rightarrow> nat \<Rightarrow> int list \<Rightarrow> int list) \<Rightarrow> nat \<Rightarrow> nat \<Rightarrow> nat \<Rightarrow> int list \<Rightarrow> int list" where
  "ntt_blocks butterfly D len start a =
     (if start < D \<and> 0 < len then ntt_blocks butterfly D len (start + 2 * len) (fold (butterfly start) [0..<len] a) else a)"
  by pat_completeness auto
termination
  by (relation "measure (\<lambda>(butterfly, D, len, start, a). D - start)") auto

declare ntt_blocks.simps [simp del]

definition fwd_butterfly :: "prime_width \<Rightarrow> ntt_prime \<Rightarrow> ntt_twiddles \<Rightarrow> nat \<Rightarrow> nat \<Rightarrow> nat \<Rightarrow> int list \<Rightarrow> int list" where
  "fwd_butterfly W prime tw len start j a =
     (let w = fwd_twiddles tw ! (len - 1 + j);
          u = a ! (start + j);
          v = a ! (start + j + len);
          sm = wrapping_add W u v;
          diff = wrapping_sub W u v
      in a[start + j := reduce_range W prime sm, start + j + len := mont_mul_raw W prime diff w])"

definition inv_butterfly :: "prime_width \<Rightarrow> ntt_prime \<Rightarrow> ntt_twiddles \<Rightarrow> nat \<Rightarrow> nat \<Rightarrow> nat \<Rightarrow> int list \<Rightarrow> int list" where
  "inv_butterfly W prime tw len start j a =
     (let w = inv_twiddles tw ! (len - 1 + j);
          u = a ! (start + j);
          v = mont_mul_raw W prime (a ! (start + j + len)) w;
          sm = wrapping_add W u v;
          diff = wrapping_sub W u v
      in a[start + j := reduce_range W prime sm, start + j + len := reduce_range W prime diff])"

function fwd_stages :: "prime_width \<Rightarrow> ntt_prime \<Rightarrow> ntt_twiddles \<Rightarrow> nat \<Rightarrow> nat \<Rightarrow> int list \<Rightarrow> int list" where
  "fwd_stages W prime tw D len a =
     (if len > 0 then fwd_stages W prime tw D (len div 2) (ntt_blocks (fwd_butterfly W prime tw len) D len 0 a) else a)"
  by pat_completeness auto
termination
  by (relation "measure (\<lambda>(W, prime, tw, D, len, a). len)") auto

declare fwd_stages.simps [simp del]

function inv_stages :: "prime_width \<Rightarrow> ntt_prime \<Rightarrow> ntt_twiddles \<Rightarrow> nat \<Rightarrow> nat \<Rightarrow> int list \<Rightarrow> int list" where
  "inv_stages W prime tw D len a =
     (if len < D \<and> 0 < len then inv_stages W prime tw D (len * 2) (ntt_blocks (inv_butterfly W prime tw len) D len 0 a) else a)"
  by pat_completeness auto
termination
  by (relation "measure (\<lambda>(W, prime, tw, D, len, a). D - len)") auto

declare inv_stages.simps [simp del]

definition forward_ntt_cyclic :: "prime_width \<Rightarrow> ntt_prime \<Rightarrow> ntt_twiddles \<Rightarrow> int list \<Rightarrow> int list" where
  "forward_ntt_cyclic W prime tw a =
     (let D = length a in reduce_range_in_place W prime (fwd_stages W prime tw D (D div 2) a))"

definition forward_ntt :: "prime_width \<Rightarrow> ntt_prime \<Rightarrow> ntt_twiddles \<Rightarrow> int list \<Rightarrow> int list" where
  "forward_ntt W prime tw a =
     (let D = length a; twisted = map2 (mont_mul_raw W prime) a (psi_pows tw)
      in reduce_range_in_place W prime (fwd_stages W prime tw D (D div 2) twisted))"

definition inverse_ntt_cyclic :: "prime_width \<Rightarrow> ntt_prime \<Rightarrow> ntt_twiddles \<Rightarrow> int list \<Rightarrow> int list" where
  "inverse_ntt_cyclic W prime tw a =
     map (\<lambda>c. mont_mul_raw W prime c (tw_d_inv tw)) (inv_stages W prime tw (length a) 1 a)"

definition inverse_ntt :: "prime_width \<Rightarrow> ntt_prime \<Rightarrow> ntt_twiddles \<Rightarrow> int list \<Rightarrow> int list" where
  "inverse_ntt W prime tw a =
     map2 (mont_mul_raw W prime) (inv_stages W prime tw (length a) 1 a) (d_inv_psi_inv tw)"

section \<open>Production primes\<close>

definition Q128_MAX_RING_D :: nat where "Q128_MAX_RING_D = 1024"

definition Q64_MAX_RING_D :: nat where "Q64_MAX_RING_D = 2048"

definition Q32_MAX_RING_D :: nat where "Q32_MAX_RING_D = 2048"

definition I16_TAIL_PRIME :: ntt_prime where
  "I16_TAIL_PRIME = \<lparr>np_p = 12289, np_pinv = - 12287, np_mont = 4091, np_montsq = - 1337\<rparr>"

definition I32_RAW_PRIMES :: "int list" where
  "I32_RAW_PRIMES = [1073707009, 1073698817, 1073692673, 1073682433, 1073668097, 1073655809]"

definition Q32_PRIMES :: "ntt_prime list" where
  "Q32_PRIMES =
     [\<lparr>np_p = 1073692673, np_pinv = 1342226433, np_mont = 196604, np_montsq = 196588\<rparr>,
      \<lparr>np_p = 1073668097, np_pinv = 67182593, np_mont = 294908, np_montsq = 3612607\<rparr>]"

definition Q64_PRIMES :: "ntt_prime list" where
  "Q64_PRIMES =
     [\<lparr>np_p = 1073692673, np_pinv = 1342226433, np_mont = 196604, np_montsq = 196588\<rparr>,
      \<lparr>np_p = 1073668097, np_pinv = 67182593, np_mont = 294908, np_montsq = 3612607\<rparr>,
      \<lparr>np_p = 1073655809, np_pinv = 2030129153, np_mont = 344060, np_montsq = 275144610\<rparr>]"

definition q128_primes :: "ntt_prime option list" where
  "q128_primes = map (ntt_prime_new I32) I32_RAW_PRIMES"

definition validate_profile_crt_ring_degree :: "nat \<Rightarrow> nat \<Rightarrow> unit result" where
  "validate_profile_crt_ring_degree ring_d max_d =
     (if ring_d = 0 \<or> \<not> is_power_of_two ring_d then
        Err (InvalidSetup (''CRT ring degree must be a non-zero power of two, got '' @ show_nat ring_d))
      else if ring_d > max_d then
        Err (InvalidSetup (''ring degree '' @ show_nat ring_d @ '' exceeds profile max '' @ show_nat max_d))
      else Ok ())"

end
