(* ===== verification/Ntt_Transform_Correct.thy ===== *)
theory Ntt_Transform_Correct
  imports Ntt_Transform Cyclotomic_Ring_Correct
begin

text \<open>
  Correctness of the negacyclic transform: the machine butterflies represent, in Montgomery form
  and without overflow, the stages of an ideal transform; the ideal forward transform evaluates at
  the odd powers of \<open>\<psi>\<close> in bit-reversed order; the inverse undoes it; and the transform turns the
  ring product into a pointwise product.
\<close>

section \<open>Ideal stages\<close>

text \<open>The butterfly pass of half-length \<open>h\<close> on a vector of integers, and its inverse pass.\<close>

definition ideal_fwd :: "int \<Rightarrow> nat \<Rightarrow> nat \<Rightarrow> (nat \<Rightarrow> int) \<Rightarrow> nat \<Rightarrow> int" where
  "ideal_fwd omega D h v i =
     (if i mod (2 * h) < h then v i + v (i + h)
      else (v (i - h) - v i) * omega ^ (D div (2 * h) * (i mod (2 * h) - h)))"

definition ideal_inv :: "int \<Rightarrow> nat \<Rightarrow> nat \<Rightarrow> (nat \<Rightarrow> int) \<Rightarrow> nat \<Rightarrow> int" where
  "ideal_inv omega_inv D h v i =
     (if i mod (2 * h) < h then v i + v (i + h) * omega_inv ^ (D div (2 * h) * (i mod (2 * h)))
      else v (i - h) - v i * omega_inv ^ (D div (2 * h) * (i mod (2 * h) - h)))"

text \<open>The index of the block in bit-reversed order.\<close>

fun bit_rev :: "nat \<Rightarrow> nat \<Rightarrow> nat" where
  "bit_rev 0 b = 0"
| "bit_rev (Suc t) b = bit_rev t (b div 2) + (b mod 2) * 2 ^ t"

definition partial_dft :: "int \<Rightarrow> nat \<Rightarrow> nat \<Rightarrow> (nat \<Rightarrow> int) \<Rightarrow> nat \<Rightarrow> int" where
  "partial_dft omega t L v i =
     (\<Sum>k < 2 ^ t. v (i mod L + k * L) * omega ^ ((i mod L + k * L) * bit_rev t (i div L)))"

lemma sum_pairs2: "(\<Sum>k < 2 * n. f k) = (\<Sum>k < n. f (2 * k) + f (2 * k + 1))" for f :: "nat \<Rightarrow> int"
  by (induction n) simp_all

lemma block_split:
  assumes "0 < (h :: nat)"
  shows "i mod (2 * h) < h \<Longrightarrow> i div h = 2 * (i div (2 * h)) \<and> i mod h = i mod (2 * h)"
    "\<not> i mod (2 * h) < h \<Longrightarrow> i div h = 2 * (i div (2 * h)) + 1 \<and> i mod h = i mod (2 * h) - h"
proof -
  let ?q = "i div (2 * h)" and ?r = "i mod (2 * h)"
  have i: "i = ?r + (2 * ?q) * h" using div_mult_mod_eq [of i "2 * h"] by (simp add: mult_ac)
  have r: "?r < 2 * h" using assms by simp
  show "?r < h \<Longrightarrow> i div h = 2 * ?q \<and> i mod h = ?r" using assms by (subst (1 3) i) simp
  assume "\<not> ?r < h"
  then have "i = (?r - h) + (2 * ?q + 1) * h" "?r - h < h" using i r by (auto simp: algebra_simps)
  then show "i div h = 2 * ?q + 1 \<and> i mod h = ?r - h" using assms
    by (metis div_mult_self3 mod_mult_self1 add.commute add_cancel_right_left div_less mod_less nat_neq_iff)
qed

lemma partial_dft_step:
  assumes L: "0 < h" "D = 2 ^ t * (2 * h)" "i < D" and half: "eqm p (omega ^ (D div 2)) (- 1)"
  shows "eqm p (ideal_fwd omega D h (partial_dft omega t (2 * h) v) i) (partial_dft omega (Suc t) h v i)"
proof -
  let ?j = "i mod (2 * h)" and ?b = "i div (2 * h)" and ?S = "partial_dft omega t (2 * h) v"
  let ?r = "bit_rev t ?b"
  let ?tm = "\<lambda>j k e. v (j + k * h) * omega ^ ((j + k * h) * e)"
  have exp: "D div (2 * h) = 2 ^ t" "D div 2 = 2 ^ t * h" using L by simp_all
  show ?thesis
  proof (cases "?j < h")
    case True
    note bs = block_split(1) [OF L(1) True]
    have "(i + h) mod (2 * h) = ?j + h" "(i + h) div (2 * h) = ?b"
      using True L(1) by (simp_all add: mod_add_left_eq [symmetric, of i] div_add1_eq [of i h])
    then have "ideal_fwd omega D h ?S i =
        (\<Sum>k < 2 ^ t. ?tm ?j (2 * k) ?r + ?tm ?j (2 * k + 1) ?r)"
      using True by (simp add: ideal_fwd_def partial_dft_def sum.distrib algebra_simps)
    also have "\<dots> = (\<Sum>k < 2 * 2 ^ t. ?tm ?j k ?r)" by (rule sum_pairs2 [symmetric])
    also have "\<dots> = partial_dft omega (Suc t) h v i" using bs by (simp add: partial_dft_def)
    finally show ?thesis by simp
  next
    case False
    note bs = block_split(2) [OF L(1) False]
    define j where "j = ?j - h"
    have "?j < 2 * h" using L(1) by simp
    then have j: "?j = j + h" "j < h" using False unfolding j_def by linarith+
    have ih: "i = (2 * h) * ?b + (j + h)" using mult_div_mod_eq [of "2 * h" i] j(1) by simp
    then have "i - h = (2 * h) * ?b + j" by simp
    then have "(i - h) mod (2 * h) = j" "(i - h) div (2 * h) = ?b" using j(2) L(1) by simp_all
    then have "ideal_fwd omega D h ?S i =
        (\<Sum>k < 2 ^ t. ?tm j (2 * k) ?r - ?tm j (2 * k + 1) ?r) * omega ^ (2 ^ t * j)"
      using False j exp by (simp add: ideal_fwd_def partial_dft_def sum_subtractf algebra_simps)
    then have left: "ideal_fwd omega D h ?S i = (\<Sum>k < 2 ^ t. ?tm j (2 * k) ?r * omega ^ (2 ^ t * j) * 1 + ?tm j (2 * k + 1) ?r * omega ^ (2 ^ t * j) * - 1)"
      by (simp add: sum_distrib_right left_diff_distrib)
    have mid: "eqm p (\<Sum>k < 2 ^ t. ?tm j (2 * k) ?r * omega ^ (2 ^ t * j) * 1 + ?tm j (2 * k + 1) ?r * omega ^ (2 ^ t * j) * - 1)
        (\<Sum>k < 2 ^ t. ?tm j (2 * k) ?r * omega ^ (2 ^ t * j) * omega ^ (2 ^ t * (2 * k * h)) +
        ?tm j (2 * k + 1) ?r * omega ^ (2 ^ t * j) * omega ^ (2 ^ t * ((2 * k + 1) * h)))"
    proof (rule eqm_sum)
      fix k
      have p: "omega ^ (2 ^ t * (n * h)) = (omega ^ (D div 2)) ^ n" for n
        unfolding exp by (simp add: power_mult [symmetric] mult_ac)
      have e: "eqm p 1 (omega ^ (2 ^ t * (2 * k * h)))"
        unfolding p using eqm_sym [OF eqm_power [OF half, of "2 * k"]] by simp
      have o: "eqm p (- 1) (omega ^ (2 ^ t * ((2 * k + 1) * h)))"
        unfolding p using eqm_sym [OF eqm_power [OF half, of "2 * k + 1"]] by simp
      show "eqm p (?tm j (2 * k) ?r * omega ^ (2 ^ t * j) * 1 + ?tm j (2 * k + 1) ?r * omega ^ (2 ^ t * j) * - 1)
          (?tm j (2 * k) ?r * omega ^ (2 ^ t * j) * omega ^ (2 ^ t * (2 * k * h)) +
           ?tm j (2 * k + 1) ?r * omega ^ (2 ^ t * j) * omega ^ (2 ^ t * ((2 * k + 1) * h)))"
        by (rule eqm_add [OF eqm_mult [OF eqm_refl e] eqm_mult [OF eqm_refl o]])
    qed
    have pw: "?tm j n ?r * omega ^ (2 ^ t * j) * omega ^ (2 ^ t * (n * h)) = ?tm j n (?r + 2 ^ t)" for n
      by (simp add: distrib_left distrib_right power_add mult_ac)
    have "(\<Sum>k < 2 ^ t. ?tm j (2 * k) ?r * omega ^ (2 ^ t * j) * omega ^ (2 ^ t * (2 * k * h)) +
        ?tm j (2 * k + 1) ?r * omega ^ (2 ^ t * j) * omega ^ (2 ^ t * ((2 * k + 1) * h))) =
      (\<Sum>k < 2 ^ t. ?tm j (2 * k) (?r + 2 ^ t) + ?tm j (2 * k + 1) (?r + 2 ^ t))"
      by (simp only: pw)
    also have "\<dots> = (\<Sum>k < 2 * 2 ^ t. ?tm j k (?r + 2 ^ t))" by (rule sum_pairs2 [symmetric])
    also have "\<dots> = partial_dft omega (Suc t) h v i" using bs j by (simp add: partial_dft_def)
    finally show ?thesis using mid unfolding left by (rule subst)
  qed
qed

lemma partner_less: "0 < (h :: nat) \<Longrightarrow> 2 * h dvd D \<Longrightarrow> i < D \<Longrightarrow> i mod (2 * h) < h \<Longrightarrow> i + h < D"
proof -
  assume h: "0 < h" "2 * h dvd D" "i < D" "i mod (2 * h) < h"
  let ?q = "i div (2 * h)"
  obtain m where m: "D = 2 * h * m" using h(2) by blast
  have i: "i = 2 * h * ?q + i mod (2 * h)" by simp
  have "?q < m" using h(3) unfolding m by (metis less_mult_imp_div_less mult.commute)
  then have "2 * h * (?q + 1) \<le> 2 * h * m" by (intro mult_le_mono2) simp
  then show ?thesis using i h(1,4) m by (auto simp: algebra_simps)
qed

lemma upper_half: "0 < (h :: nat) \<Longrightarrow> \<not> i mod (2 * h) < h \<Longrightarrow> h \<le> i \<and> (i - h) mod (2 * h) = i mod (2 * h) - h"
proof -
  assume h: "0 < h" "\<not> i mod (2 * h) < h"
  let ?q = "i div (2 * h)" and ?r = "i mod (2 * h)"
  have i: "i = 2 * h * ?q + ?r" by simp
  have r: "?r < 2 * h" using h(1) by simp
  have "i - h = 2 * h * ?q + (?r - h)" using i h(2) by linarith
  then have "(i - h) mod (2 * h) = ?r - h" using r by simp
  then show ?thesis using i h(2) mod_less_eq_dividend [of i "2 * h"] by linarith
qed

lemma ideal_fwd_cong:
  assumes "0 < h" "2 * h dvd D" "\<And>i. i < D \<Longrightarrow> eqm p (v i) (w i)" "i < D"
  shows "eqm p (ideal_fwd omega D h v i) (ideal_fwd omega D h w i)"
  unfolding ideal_fwd_def using assms partner_less [OF assms(1,2,4)]
  by (auto intro!: eqm_add eqm_mult eqm_diff)

lemma ideal_inv_cong:
  assumes "0 < h" "2 * h dvd D" "\<And>i. i < D \<Longrightarrow> eqm p (v i) (w i)" "i < D"
  shows "eqm p (ideal_inv omega D h v i) (ideal_inv omega D h w i)"
  unfolding ideal_inv_def using assms partner_less [OF assms(1,2,4)]
  by (auto intro!: eqm_add eqm_mult eqm_diff)

lemma ideal_inv_scale: "ideal_inv omega D h (\<lambda>i. c * v i) = (\<lambda>i. c * ideal_inv omega D h v i)"
  by (rule ext) (simp add: ideal_inv_def algebra_simps)

lemma ideal_inv_fwd:
  assumes "0 < h" "2 * h dvd D" "i < D" "eqm p (omega * omega_inv) 1"
  shows "eqm p (ideal_inv omega_inv D h (ideal_fwd omega D h v) i) (2 * v i)"
proof -
  have w: "eqm p ((x * omega ^ e) * omega_inv ^ e) x" for x e
  proof -
    have "eqm p (x * (omega * omega_inv) ^ e) (x * 1 ^ e)" using assms(4) by (intro eqm_mult eqm_power) auto
    then show ?thesis by (simp add: power_mult_distrib mult.assoc)
  qed
  let ?r = "i mod (2 * h)"
  show ?thesis
  proof (cases "?r < h")
    case True
    have h: "(i + h) mod (2 * h) = ?r + h" using True assms(1) by (simp add: mod_add_left_eq [symmetric, of i])
    let ?e = "D div (2 * h) * ?r"
    have "ideal_inv omega_inv D h (ideal_fwd omega D h v) i =
        (v i + v (i + h)) + ((v i - v (i + h)) * omega ^ ?e) * omega_inv ^ ?e"
      using True h by (simp add: ideal_inv_def ideal_fwd_def)
    moreover have "eqm p ((v i + v (i + h)) + ((v i - v (i + h)) * omega ^ ?e) * omega_inv ^ ?e)
        ((v i + v (i + h)) + (v i - v (i + h)))" by (intro eqm_add eqm_refl w)
    ultimately show ?thesis by simp
  next
    case False
    note u = upper_half [OF assms(1) False]
    let ?e = "D div (2 * h) * (?r - h)"
    have "?r < 2 * h" using assms(1) by simp
    then have "(i - h) mod (2 * h) < h" using u by linarith
    then have "ideal_inv omega_inv D h (ideal_fwd omega D h v) i =
        (v (i - h) + v i) - ((v (i - h) - v i) * omega ^ ?e) * omega_inv ^ ?e"
      using False u by (simp add: ideal_inv_def ideal_fwd_def)
    moreover have "eqm p ((v (i - h) + v i) - ((v (i - h) - v i) * omega ^ ?e) * omega_inv ^ ?e)
        ((v (i - h) + v i) - (v (i - h) - v i))" by (intro eqm_diff eqm_refl w)
    ultimately show ?thesis by simp
  qed
qed

definition stage_lens :: "nat list \<Rightarrow> nat \<Rightarrow> bool" where
  "stage_lens hs D \<longleftrightarrow> (\<forall>h \<in> set hs. 0 < h \<and> 2 * h dvd D)"

lemma ideal_inv_stages_cong:
  "stage_lens hs D \<Longrightarrow> (\<And>i. i < D \<Longrightarrow> eqm p (v i) (w i)) \<Longrightarrow> i < D \<Longrightarrow>
   eqm p (fold (ideal_inv omega D) hs v i) (fold (ideal_inv omega D) hs w i)"
proof (induction hs arbitrary: v w i)
  case (Cons h hs)
  then show ?case using ideal_inv_cong [of h D p v w] by (simp add: stage_lens_def)
qed simp

lemma ideal_inv_stages_scale: "fold (ideal_inv omega D) hs (\<lambda>i. c * v i) = (\<lambda>i. c * fold (ideal_inv omega D) hs v i)"
  by (induction hs arbitrary: v) (simp_all add: ideal_inv_scale)

lemma ideal_roundtrip:
  assumes "eqm p (omega * omega_inv) 1"
  shows "stage_lens hs D \<Longrightarrow> i < D \<Longrightarrow>
    eqm p (fold (ideal_inv omega_inv D) hs (fold (ideal_fwd omega D) (rev hs) v) i) (2 ^ length hs * v i)"
proof (induction hs arbitrary: i)
  case (Cons h hs)
  let ?F = "fold (ideal_fwd omega D) (rev hs) v"
  have h: "0 < h" "2 * h dvd D" and hs: "stage_lens hs D" using Cons.prems(1) by (simp_all add: stage_lens_def)
  have "fold (ideal_inv omega_inv D) (h # hs) (fold (ideal_fwd omega D) (rev (h # hs)) v) i =
      fold (ideal_inv omega_inv D) hs (ideal_inv omega_inv D h (ideal_fwd omega D h ?F)) i" by simp
  moreover have "eqm p (fold (ideal_inv omega_inv D) hs (ideal_inv omega_inv D h (ideal_fwd omega D h ?F)) i)
      (fold (ideal_inv omega_inv D) hs (\<lambda>i. 2 * ?F i) i)"
    using ideal_inv_fwd [OF h _ assms] Cons.prems(2) by (intro ideal_inv_stages_cong [OF hs]) auto
  moreover have "eqm p (fold (ideal_inv omega_inv D) hs (\<lambda>i. 2 * ?F i) i) (2 * (2 ^ length hs * v i))"
    unfolding ideal_inv_stages_scale by (intro eqm_mult eqm_refl Cons.IH hs Cons.prems(2))
  ultimately show ?case by (simp add: eqm_def mult.assoc)
qed simp

text \<open>The half-lengths \<open>1, 2, \<dots>, D / 2\<close> of the inverse transform.\<close>

definition halves :: "nat \<Rightarrow> nat list" where
  "halves n = map (\<lambda>s. 2 ^ s) [0..<n]"

lemma stage_lens_halves: "stage_lens (halves n) (2 ^ n)"
  by (auto simp: stage_lens_def halves_def simp flip: power_Suc intro!: le_imp_power_dvd)

lemma ideal_partial:
  assumes "eqm p (omega ^ (2 ^ n div 2)) (- 1)"
  shows "t \<le> n \<Longrightarrow> i < 2 ^ n \<Longrightarrow>
    eqm p (fold (ideal_fwd omega (2 ^ n)) (rev (map (\<lambda>s. 2 ^ s) [n - t..<n])) v i) (partial_dft omega t (2 ^ (n - t)) v i)"
proof (induction t arbitrary: i)
  case (Suc t)
  let ?h = "2 ^ (n - Suc t)" and ?F = "fold (ideal_fwd omega (2 ^ n)) (rev (map (\<lambda>s. 2 ^ s) [n - t..<n])) v"
  have D: "(2 :: nat) ^ n = 2 ^ t * (2 * ?h)" using Suc.prems(1) by (simp flip: power_Suc power_add)
  have L: "(2 :: nat) ^ (n - t) = 2 * ?h" using Suc.prems(1) by (simp flip: power_Suc)
  have dvd: "2 * ?h dvd (2 :: nat) ^ n" unfolding D by simp
  have "[n - Suc t..<n] = (n - Suc t) # [n - t..<n]" using Suc.prems(1) by (simp add: upt_conv_Cons Suc_diff_Suc)
  then have e: "fold (ideal_fwd omega (2 ^ n)) (rev (map (\<lambda>s. 2 ^ s) [n - Suc t..<n])) v i = ideal_fwd omega (2 ^ n) ?h ?F i"
    by (simp only: list.map rev.simps fold_append fold.simps comp_apply id_apply)
  have a: "eqm p (ideal_fwd omega (2 ^ n) ?h ?F i) (ideal_fwd omega (2 ^ n) ?h (partial_dft omega t (2 * ?h) v) i)"
    using Suc.IH Suc.prems unfolding L by (intro ideal_fwd_cong dvd) auto
  have b: "eqm p (ideal_fwd omega (2 ^ n) ?h (partial_dft omega t (2 * ?h) v) i) (partial_dft omega (Suc t) ?h v i)"
    by (rule partial_dft_step [OF _ D Suc.prems(2) assms]) simp
  show ?case unfolding e by (rule eqm_trans [OF a b])
qed (simp add: partial_dft_def)

lemma ideal_dft:
  assumes "eqm p (omega ^ (2 ^ n div 2)) (- 1)" "i < 2 ^ n"
  shows "eqm p (fold (ideal_fwd omega (2 ^ n)) (rev (halves n)) v i) (\<Sum>k < 2 ^ n. v k * omega ^ (k * bit_rev n i))"
  using ideal_partial [OF assms(1), of n i v] assms(2) by (simp add: partial_dft_def halves_def)

section \<open>Machine values in Montgomery form\<close>

definition mrep :: "prime_width \<Rightarrow> ntt_prime \<Rightarrow> int \<Rightarrow> int \<Rightarrow> bool" where
  "mrep W pr x v \<longleftrightarrow> - np_p pr < x \<and> x < np_p pr \<and> eqm (np_p pr) x (v * 2 ^ R_LOG W)"

definition mreps :: "prime_width \<Rightarrow> ntt_prime \<Rightarrow> int list \<Rightarrow> (nat \<Rightarrow> int) \<Rightarrow> bool" where
  "mreps W pr a v \<longleftrightarrow> (\<forall>i < length a. mrep W pr (a ! i) (v i))"

lemma mrep_cong: "mrep W pr x v \<Longrightarrow> eqm (np_p pr) v w \<Longrightarrow> mrep W pr x w"
  using eqm_mult [of "np_p pr" v w "2 ^ R_LOG W" "2 ^ R_LOG W"] by (auto simp: mrep_def intro: eqm_trans)

lemma mrep_mult_wide:
  assumes wf: "wf_prime W pr" and x: "- 2 * np_p pr < x" "x < 2 * np_p pr" "eqm (np_p pr) x (u * 2 ^ R_LOG W)"
    and y: "mrep W pr y v"
  shows "mrep W pr (mont_mul_raw W pr x y) (u * v)"
proof -
  let ?q = "np_p pr" and ?R = "2 ^ R_LOG W :: int"
  have "\<bar>x * y\<bar> \<le> (2 * ?q) * ?q" using x y unfolding abs_mult mrep_def by (intro mult_mono) auto
  also have "\<dots> < 2 ^ (R_LOG W - 1) * ?q"
    using wf_prime_bounds(2) [OF wf] wf_prime_p(2) [OF wf] by (intro mult_strict_right_mono) auto
  finally have "\<bar>x * y\<bar> < ?q * 2 ^ (R_LOG W - 1)" by (simp only: mult.commute)
  note mm = mont_mul_raw_correct [OF wf this]
  have "mont_mul_raw W pr x y * ?R mod ?q = (u * ?R) * (v * ?R) mod ?q"
    unfolding mm(1) using x(3) y by (intro mod_mult_cong) (auto simp: mrep_def eqm_def)
  also have "(u * ?R) * (v * ?R) = (u * v * ?R) * ?R" by (simp only: mult_ac)
  finally have "mont_mul_raw W pr x y mod ?q = u * v * ?R mod ?q" by (rule R_coprime [OF wf])
  then show ?thesis using mm(2,3) by (simp add: mrep_def eqm_def)
qed

lemma mrep_mult:
  "wf_prime W pr \<Longrightarrow> mrep W pr x u \<Longrightarrow> mrep W pr y v \<Longrightarrow> mrep W pr (mont_mul_raw W pr x y) (u * v)"
  using wf_prime_p(2) [of W pr] by (intro mrep_mult_wide) (auto simp: mrep_def)

lemma wrap_small: "wf_prime W pr \<Longrightarrow> - 2 * np_p pr < x \<Longrightarrow> x < 2 * np_p pr \<Longrightarrow> swrap (R_LOG W) x = x"
  using from_i64_id [OF in_width_small, of W pr x] by (simp add: from_i64_def)

lemma mrep_reduce:
  assumes "wf_prime W pr" "- 2 * np_p pr < x" "x < 2 * np_p pr" "eqm (np_p pr) x (u * 2 ^ R_LOG W)"
  shows "mrep W pr (reduce_range W pr x) u"
  using reduce_range_eq [OF assms(1-3)] assms(4) by (simp add: mrep_def eqm_def)

lemma mrep_sum_diff:
  assumes wf: "wf_prime W pr" and x: "mrep W pr x u" and y: "mrep W pr y v"
  shows "mrep W pr (reduce_range W pr (wrapping_add W x y)) (u + v)"
    "mrep W pr (reduce_range W pr (wrapping_sub W x y)) (u - v)"
    "mrep W pr w z \<Longrightarrow> mrep W pr (mont_mul_raw W pr (wrapping_sub W x y) w) ((u - v) * z)"
proof -
  have b: "- 2 * np_p pr < x + y" "x + y < 2 * np_p pr" "- 2 * np_p pr < x - y" "x - y < 2 * np_p pr"
    using x y by (auto simp: mrep_def)
  have e: "eqm (np_p pr) (x + y) ((u + v) * 2 ^ R_LOG W)" "eqm (np_p pr) (x - y) ((u - v) * 2 ^ R_LOG W)"
    unfolding distrib_right left_diff_distrib using x y by (auto simp: mrep_def intro!: eqm_add eqm_diff)
  show "mrep W pr (reduce_range W pr (wrapping_add W x y)) (u + v)"
    unfolding wrapping_add_def wrap_small [OF wf b(1,2)] by (rule mrep_reduce [OF wf b(1,2) e(1)])
  show "mrep W pr (reduce_range W pr (wrapping_sub W x y)) (u - v)"
    unfolding wrapping_sub_def wrap_small [OF wf b(3,4)] by (rule mrep_reduce [OF wf b(3,4) e(2)])
  show "mrep W pr w z \<Longrightarrow> mrep W pr (mont_mul_raw W pr (wrapping_sub W x y) w) ((u - v) * z)"
    unfolding wrapping_sub_def wrap_small [OF wf b(3,4)] by (rule mrep_mult_wide [OF wf b(3,4) e(2)])
qed

section \<open>A pass over the blocks\<close>

text \<open>A butterfly that writes \<open>f\<close> and \<open>g\<close> of its two inputs.\<close>

definition pair_step :: "(nat \<Rightarrow> int \<Rightarrow> int \<Rightarrow> int) \<Rightarrow> (nat \<Rightarrow> int \<Rightarrow> int \<Rightarrow> int) \<Rightarrow> nat \<Rightarrow> nat \<Rightarrow> nat \<Rightarrow> int list \<Rightarrow> int list" where
  "pair_step f g h s j a =
     a[s + j := f j (a ! (s + j)) (a ! (s + j + h)), s + j + h := g j (a ! (s + j)) (a ! (s + j + h))]"

lemma length_pair_steps [simp]: "length (fold (pair_step f g h s) js a) = length a"
  by (induction js arbitrary: a) (simp_all add: pair_step_def)

lemma pair_steps_nth:
  assumes "m \<le> h" "s + 2 * h \<le> length a"
  shows "fold (pair_step f g h s) [0..<m] a ! i =
    (if s \<le> i \<and> i < s + m then f (i - s) (a ! i) (a ! (i + h))
     else if s + h \<le> i \<and> i < s + h + m then g (i - s - h) (a ! (i - h)) (a ! i) else a ! i)"
  using assms(1)
proof (induction m arbitrary: i)
  case (Suc m)
  let ?b = "fold (pair_step f g h s) [0..<m] a"
  have at: "?b ! (s + m) = a ! (s + m)" "?b ! (s + m + h) = a ! (s + m + h)"
    using Suc.IH [of "s + m"] Suc.IH [of "s + m + h"] Suc.prems by auto
  have len: "s + m < length ?b" "s + m + h < length ?b" using Suc.prems assms(2) by simp_all
  have "fold (pair_step f g h s) [0..<Suc m] a ! i =
      (if i = s + m + h then g m (a ! (s + m)) (a ! (s + m + h))
       else if i = s + m then f m (a ! (s + m)) (a ! (s + m + h)) else ?b ! i)"
    using len Suc.prems by (auto simp: pair_step_def at nth_list_update)
  then show ?case using Suc.IH [of i] Suc.prems by auto
qed simp

lemma length_ntt_blocks [simp]:
  "(\<And>s j a. length (bf s j a) = length a) \<Longrightarrow> length (ntt_blocks bf D h s a) = length a"
proof (induction bf D h s a rule: ntt_blocks.induct)
  case (1 bf D h s a)
  have "length (fold (bf s) js a) = length a" for js
    by (induction js arbitrary: a) (simp_all add: 1(2))
  then show ?case using 1 by (subst ntt_blocks.simps) simp
qed

lemma ntt_blocks_nth:
  assumes "0 < h" "2 * h dvd D" "length a = D" "2 * h dvd s" "i < D"
  shows "ntt_blocks (pair_step f g h) D h s a ! i =
    (if i < s then a ! i
     else if i mod (2 * h) < h then f (i mod (2 * h)) (a ! i) (a ! (i + h))
     else g (i mod (2 * h) - h) (a ! (i - h)) (a ! i))"
  using assms
proof (induction "pair_step f g h" D h s a rule: ntt_blocks.induct)
  case (1 D h s a)
  let ?c = "fold (pair_step f g h s) [0..<h] a"
  show ?case
  proof (cases "s < D")
    case True
    have "2 * h dvd D - s" using 1 True by (intro dvd_diff_nat) auto
    then have "2 * h \<le> D - s" using True by (intro dvd_imp_le) auto
    then have fit: "s + 2 * h \<le> length a" using 1 True by linarith
    note c = pair_steps_nth [OF le_refl fit, of f g]
    have rec: "ntt_blocks (pair_step f g h) D h s a ! i =
        (if i < s + 2 * h then ?c ! i
         else if i mod (2 * h) < h then f (i mod (2 * h)) (?c ! i) (?c ! (i + h))
         else g (i mod (2 * h) - h) (?c ! (i - h)) (?c ! i))"
      using 1 True by (subst ntt_blocks.simps) (simp add: dvd_add)
    show ?thesis
    proof (cases "i < s + 2 * h")
      case lt: True
      show ?thesis
      proof (cases "i < s")
        case False
        obtain k where "s = 2 * h * k" using 1 by blast
        then have "i mod (2 * h) = (i - s) mod (2 * h)" using False by (metis le_add_diff_inverse mod_mult_self4 not_less)
        also have "\<dots> = i - s" using lt False by simp
        finally have m: "i mod (2 * h) = i - s" .
        show ?thesis unfolding rec c m using lt False by auto
      qed (simp add: rec c lt)
    next
      case ge: False
      have "\<not> i mod (2 * h) < h \<Longrightarrow> s + 2 * h \<le> i - h"
      proof -
        assume n: "\<not> i mod (2 * h) < h"
        obtain k where k: "s + 2 * h = 2 * h * k" using 1(5) by (metis dvd_add dvd_def dvd_refl)
        have "k * (2 * h) \<le> i" using ge k by (simp add: mult.commute)
        then have "k \<le> i div (2 * h)" using 1(2) by (simp add: less_eq_div_iff_mult_less_eq)
        then have "2 * h * k \<le> 2 * h * (i div (2 * h))" by (rule mult_le_mono2)
        moreover have "2 * h * (i div (2 * h)) + i mod (2 * h) = i" by simp
        ultimately show "s + 2 * h \<le> i - h" using n k by linarith
      qed
      then show ?thesis unfolding rec c using ge by auto
    qed
  qed (use 1 in \<open>simp add: ntt_blocks.simps\<close>)
qed

section \<open>Machine stages refine ideal stages\<close>

text \<open>The packed tables hold, for half-length \<open>h\<close>, the powers of the root of order \<open>2 h\<close>.\<close>

definition stage_table :: "prime_width \<Rightarrow> ntt_prime \<Rightarrow> nat \<Rightarrow> int \<Rightarrow> int list \<Rightarrow> bool" where
  "stage_table W pr n omega tab \<longleftrightarrow>
     (\<forall>s < n. \<forall>j < 2 ^ s. mrep W pr (tab ! (2 ^ s - 1 + j)) (omega ^ (2 ^ n div (2 * 2 ^ s) * j)))"

lemma fwd_butterfly_pair:
  "fwd_butterfly W pr tw h = pair_step (\<lambda>j u v. reduce_range W pr (wrapping_add W u v))
     (\<lambda>j u v. mont_mul_raw W pr (wrapping_sub W u v) (fwd_twiddles tw ! (h - 1 + j))) h"
  by (intro ext) (simp add: fwd_butterfly_def pair_step_def Let_def)

lemma inv_butterfly_pair:
  "inv_butterfly W pr tw h =
     pair_step (\<lambda>j u v. reduce_range W pr (wrapping_add W u (mont_mul_raw W pr v (inv_twiddles tw ! (h - 1 + j)))))
     (\<lambda>j u v. reduce_range W pr (wrapping_sub W u (mont_mul_raw W pr v (inv_twiddles tw ! (h - 1 + j))))) h"
  by (intro ext) (simp add: inv_butterfly_def pair_step_def Let_def)

lemma length_pass [simp]: "length (ntt_blocks (pair_step f g h) D h s a) = length a"
  by (rule length_ntt_blocks) (simp add: pair_step_def)

lemma fwd_pass:
  assumes wf: "wf_prime W pr" and a: "length a = 2 ^ n" "mreps W pr a v" and s: "s < n"
    and tab: "stage_table W pr n omega (fwd_twiddles tw)"
  shows "mreps W pr (ntt_blocks (fwd_butterfly W pr tw (2 ^ s)) (2 ^ n) (2 ^ s) 0 a) (ideal_fwd omega (2 ^ n) (2 ^ s) v)"
  unfolding mreps_def
proof (intro allI impI)
  fix i assume "i < length (ntt_blocks (fwd_butterfly W pr tw (2 ^ s)) (2 ^ n) (2 ^ s) 0 a)"
  then have i: "i < 2 ^ n" using a(1) by (simp add: fwd_butterfly_pair)
  let ?h = "2 ^ s :: nat" and ?r = "i mod (2 * 2 ^ s)"
  have d: "0 < ?h" "2 * ?h dvd 2 ^ n" using s by (auto simp flip: power_Suc intro!: le_imp_power_dvd)
  have rep: "k < 2 ^ n \<Longrightarrow> mrep W pr (a ! k) (v k)" for k using a by (simp add: mreps_def)
  have tw: "mrep W pr (fwd_twiddles tw ! (?h - 1 + j)) (omega ^ (2 ^ n div (2 * ?h) * j))" if "j < ?h" for j
    using tab s that by (simp add: stage_table_def)
  have r: "?r < 2 * ?h" by simp
  note b = ntt_blocks_nth [OF d a(1) dvd_0_right i]
  show "mrep W pr (ntt_blocks (fwd_butterfly W pr tw ?h) (2 ^ n) ?h 0 a ! i) (ideal_fwd omega (2 ^ n) ?h v i)"
  proof (cases "?r < ?h")
    case True
    then show ?thesis unfolding fwd_butterfly_pair b ideal_fwd_def
      using mrep_sum_diff(1) [OF wf rep [OF i] rep [OF partner_less [OF d i True]]] by simp
  next
    case False
    have j: "?r - ?h < ?h" using r False by linarith
    have "i - ?h < 2 ^ n" using i by simp
    from mrep_sum_diff(3) [OF wf rep [OF this] rep [OF i] tw [OF j]] False
    show ?thesis unfolding fwd_butterfly_pair b ideal_fwd_def by simp
  qed
qed

lemma inv_pass:
  assumes wf: "wf_prime W pr" and a: "length a = 2 ^ n" "mreps W pr a v" and s: "s < n"
    and tab: "stage_table W pr n omega (inv_twiddles tw)"
  shows "mreps W pr (ntt_blocks (inv_butterfly W pr tw (2 ^ s)) (2 ^ n) (2 ^ s) 0 a) (ideal_inv omega (2 ^ n) (2 ^ s) v)"
  unfolding mreps_def
proof (intro allI impI)
  fix i assume "i < length (ntt_blocks (inv_butterfly W pr tw (2 ^ s)) (2 ^ n) (2 ^ s) 0 a)"
  then have i: "i < 2 ^ n" using a(1) by (simp add: inv_butterfly_pair)
  let ?h = "2 ^ s :: nat" and ?r = "i mod (2 * 2 ^ s)"
  have d: "0 < ?h" "2 * ?h dvd 2 ^ n" using s by (auto simp flip: power_Suc intro!: le_imp_power_dvd)
  have rep: "k < 2 ^ n \<Longrightarrow> mrep W pr (a ! k) (v k)" for k using a by (simp add: mreps_def)
  have tw: "mrep W pr (inv_twiddles tw ! (?h - 1 + j)) (omega ^ (2 ^ n div (2 * ?h) * j))" if "j < ?h" for j
    using tab s that by (simp add: stage_table_def)
  have r: "?r < 2 * ?h" by simp
  note b = ntt_blocks_nth [OF d a(1) dvd_0_right i]
  show "mrep W pr (ntt_blocks (inv_butterfly W pr tw ?h) (2 ^ n) ?h 0 a ! i) (ideal_inv omega (2 ^ n) ?h v i)"
  proof (cases "?r < ?h")
    case True
    note m = mrep_mult [OF wf rep [OF partner_less [OF d i True]] tw [OF True]]
    from mrep_sum_diff(1) [OF wf rep [OF i] m] True show ?thesis unfolding inv_butterfly_pair b ideal_inv_def by simp
  next
    case False
    have j: "?r - ?h < ?h" using r False by linarith
    have k: "i - ?h < 2 ^ n" using i by simp
    note m = mrep_mult [OF wf rep [OF i] tw [OF j]]
    from mrep_sum_diff(2) [OF wf rep [OF k] m] False show ?thesis unfolding inv_butterfly_pair b ideal_inv_def by simp
  qed
qed

lemma fwd_stages_rep:
  assumes wf: "wf_prime W pr" and tab: "stage_table W pr n omega (fwd_twiddles tw)"
  shows "k \<le> n \<Longrightarrow> length a = 2 ^ n \<Longrightarrow> mreps W pr a v \<Longrightarrow>
    length (fwd_stages W pr tw (2 ^ n) (2 ^ k div 2) a) = 2 ^ n \<and>
    mreps W pr (fwd_stages W pr tw (2 ^ n) (2 ^ k div 2) a) (fold (ideal_fwd omega (2 ^ n)) (rev (halves k)) v)"
proof (induction k arbitrary: a v)
  case 0
  then show ?case by (simp add: fwd_stages.simps halves_def)
next
  case (Suc k)
  let ?b = "ntt_blocks (fwd_butterfly W pr tw (2 ^ k)) (2 ^ n) (2 ^ k) 0 a"
  have k: "k < n" using Suc.prems(1) by simp
  have len: "length ?b = 2 ^ n" using Suc.prems(2) by (simp add: fwd_butterfly_pair)
  have "fwd_stages W pr tw (2 ^ n) (2 ^ Suc k div 2) a = fwd_stages W pr tw (2 ^ n) (2 ^ k div 2) ?b"
    by (subst fwd_stages.simps) simp
  then show ?case
    using Suc.IH [OF _ len fwd_pass [OF wf Suc.prems(2,3) k tab]] k by (simp add: halves_def)
qed

lemma inv_stages_rep:
  assumes wf: "wf_prime W pr" and tab: "stage_table W pr n omega (inv_twiddles tw)"
  shows "s \<le> n \<Longrightarrow> length a = 2 ^ n \<Longrightarrow> mreps W pr a v \<Longrightarrow>
    length (inv_stages W pr tw (2 ^ n) (2 ^ s) a) = 2 ^ n \<and>
    mreps W pr (inv_stages W pr tw (2 ^ n) (2 ^ s) a) (fold (ideal_inv omega (2 ^ n)) (map (\<lambda>s. 2 ^ s) [s..<n]) v)"
proof (induction "n - s" arbitrary: s a v)
  case 0
  then show ?case by (simp add: inv_stages.simps)
next
  case (Suc k)
  let ?b = "ntt_blocks (inv_butterfly W pr tw (2 ^ s)) (2 ^ n) (2 ^ s) 0 a"
  have s: "s < n" using Suc.hyps(2) by simp
  have len: "length ?b = 2 ^ n" using Suc.prems(2) by (simp add: inv_butterfly_pair)
  have "inv_stages W pr tw (2 ^ n) (2 ^ s) a = inv_stages W pr tw (2 ^ n) (2 ^ Suc s) ?b"
    using s by (subst inv_stages.simps) (simp add: mult.commute)
  moreover have k: "k = n - Suc s" "Suc s \<le> n" using Suc.hyps(2) s by simp_all
  ultimately show ?case
    using Suc.hyps(1) [OF k len inv_pass [OF wf Suc.prems(2,3) s tab]] s by (simp add: upt_conv_Cons)
qed

section \<open>The tables\<close>

lemma mrep_canonical:
  assumes "wf_prime W pr" "0 \<le> c" "c < np_p pr" "eqm (np_p pr) c v"
  shows "mrep W pr (from_canonical W pr (from_i64 W c)) v"
proof -
  have w: "in_width W c" using assms(2,3) by (intro in_width_small [OF assms(1)]) auto
  have "mrep W pr (from_canonical W pr c) c" using from_canonical_eq [OF assms(1) w] by (simp add: mrep_def eqm_def)
  then show ?thesis unfolding from_i64_id [OF w] by (rule mrep_cong [OF _ assms(4)])
qed

lemma np_p_bound: "wf_prime W pr \<Longrightarrow> np_p pr < 2 ^ 30"
proof -
  assume wf: "wf_prime W pr"
  have "(2 :: int) ^ (R_LOG W - 2) \<le> 2 ^ 30" by (cases W) simp_all
  with wf_prime_p(3) [OF wf] show ?thesis by linarith
qed

lemma swrap_product:
  assumes "wf_prime W pr" "0 \<le> x" "x < np_p pr" "0 \<le> y" "y < np_p pr"
  shows "swrap 64 (x * y) = x * y"
proof (rule swrap_id)
  have "x * y \<le> 2 ^ 30 * 2 ^ 30" using assms np_p_bound [OF assms(1)] by (intro mult_mono) auto
  then show "x * y < 2 ^ (64 - 1)" by simp
  have "0 \<le> x * y" using assms by simp
  then show "- (2 ^ (64 - 1)) \<le> x * y" by simp
qed simp

lemma pow_mod_props:
  assumes "wf_prime W pr" "0 \<le> b" "0 \<le> e"
  shows "eqm (np_p pr) (pow_mod b e (np_p pr)) (b ^ nat e)" "0 \<le> pow_mod b e (np_p pr)" "pow_mod b e (np_p pr) < np_p pr"
proof -
  have q: "1 < np_p pr" "np_p pr < 2 ^ 63" using wf_prime_p(2) [OF assms(1)] np_p_bound [OF assms(1)] by auto
  note e = pow_mod_eq [OF assms(2,3) q]
  show "eqm (np_p pr) (pow_mod b e (np_p pr)) (b ^ nat e)" by (simp add: e)
  show "0 \<le> pow_mod b e (np_p pr)" "pow_mod b e (np_p pr) < np_p pr" using q by (simp_all add: e)
qed

lemma twist_loop:
  assumes wf: "wf_prime W pr" and psi: "0 \<le> psi" "psi < np_p pr" "0 \<le> psi_inv" "psi_inv < np_p pr"
  shows "m \<le> D \<Longrightarrow> \<exists>pows r2 inv_pows cur cur_inv.
    fold (twist_step W pr psi psi_inv) [0..<m] ((replicate D 0, replicate D 0, replicate D 0), 1, 1) = ((pows, r2, inv_pows), cur, cur_inv) \<and>
    length pows = D \<and> length inv_pows = D \<and>
    (\<forall>i < m. mrep W pr (pows ! i) (psi ^ i) \<and> mrep W pr (inv_pows ! i) (psi_inv ^ i)) \<and>
    0 \<le> cur \<and> cur < np_p pr \<and> eqm (np_p pr) cur (psi ^ m) \<and>
    0 \<le> cur_inv \<and> cur_inv < np_p pr \<and> eqm (np_p pr) cur_inv (psi_inv ^ m)"
proof (induction m)
  case 0
  then show ?case using wf_prime_p(2) [OF wf] by simp
next
  case (Suc m)
  then obtain pows r2 inv_pows cur cur_inv where IH:
    "fold (twist_step W pr psi psi_inv) [0..<m] ((replicate D 0, replicate D 0, replicate D 0), 1, 1) = ((pows, r2, inv_pows), cur, cur_inv)"
    "length pows = D" "length inv_pows = D"
    "\<And>i. i < m \<Longrightarrow> mrep W pr (pows ! i) (psi ^ i)" "\<And>i. i < m \<Longrightarrow> mrep W pr (inv_pows ! i) (psi_inv ^ i)"
    "0 \<le> cur" "cur < np_p pr" "eqm (np_p pr) cur (psi ^ m)"
    "0 \<le> cur_inv" "cur_inv < np_p pr" "eqm (np_p pr) cur_inv (psi_inv ^ m)"
    by auto
  have p: "0 < np_p pr" using wf_prime_p(2) [OF wf] by simp
  note new = mrep_canonical [OF wf IH(6-8)] mrep_canonical [OF wf IH(9-11)]
  have nxt: "eqm (np_p pr) (cur * psi) (psi ^ Suc m)" "eqm (np_p pr) (cur_inv * psi_inv) (psi_inv ^ Suc m)"
    using eqm_mult [OF IH(8) eqm_refl [of _ psi]] eqm_mult [OF IH(11) eqm_refl [of _ psi_inv]] by (simp_all add: mult.commute)
  have m: "m < D" using Suc.prems by simp
  have rows: "mrep W pr (pows[m := from_canonical W pr (from_i64 W cur)] ! i) (psi ^ i)"
      "mrep W pr (inv_pows[m := from_canonical W pr (from_i64 W cur_inv)] ! i) (psi_inv ^ i)" if "i < Suc m" for i
    using new IH(2-5) that m by (auto simp: nth_list_update less_Suc_eq)
  define r2' where "r2' = r2[m := ntt_center W pr (mont_mul_raw W pr (pows[m := from_canonical W pr (from_i64 W cur)] ! m) (np_montsq pr))]"
  have "twist_step W pr psi psi_inv m ((pows, r2, inv_pows), cur, cur_inv) =
      ((pows[m := from_canonical W pr (from_i64 W cur)], r2', inv_pows[m := from_canonical W pr (from_i64 W cur_inv)]),
       cur * psi mod np_p pr, cur_inv * psi_inv mod np_p pr)"
    by (simp add: twist_step_def Let_def r2'_def swrap_product [OF wf IH(6,7) psi(1,2)] swrap_product [OF wf IH(9,10) psi(3,4)])
  with IH(1) have "fold (twist_step W pr psi psi_inv) [0..<Suc m] ((replicate D 0, replicate D 0, replicate D 0), 1, 1) =
      ((pows[m := from_canonical W pr (from_i64 W cur)], r2', inv_pows[m := from_canonical W pr (from_i64 W cur_inv)]),
       cur * psi mod np_p pr, cur_inv * psi_inv mod np_p pr)" by simp
  then show ?case using IH(2,3) rows nxt p by auto
qed

lemma stage_exponent: "s < n \<Longrightarrow> (2 :: nat) ^ n div (2 * 2 ^ s) = 2 ^ (n - Suc s)"
proof -
  assume "s < n"
  then have "(2 :: nat) ^ n = 2 ^ (n - Suc s) * (2 * 2 ^ s)" by (simp flip: power_Suc power_add)
  then show ?thesis by simp
qed

lemma stage_roots_ok:
  assumes wf: "wf_prime W pr" and om: "0 \<le> omega" "0 \<le> omega_inv"
  shows "s \<le> n \<Longrightarrow> length (fst wl) = 2 ^ n \<Longrightarrow> length (snd wl) = 2 ^ n \<Longrightarrow>
    (\<forall>k < s. mrep W pr (fst wl ! k) (omega ^ (2 ^ n div (2 * 2 ^ k))) \<and> mrep W pr (snd wl ! k) (omega_inv ^ (2 ^ n div (2 * 2 ^ k)))) \<Longrightarrow>
    \<exists>F I. stage_roots W pr (2 ^ n) omega omega_inv (2 ^ s) s wl = (n, F, I) \<and>
      (\<forall>k < n. mrep W pr (F ! k) (omega ^ (2 ^ n div (2 * 2 ^ k))) \<and> mrep W pr (I ! k) (omega_inv ^ (2 ^ n div (2 * 2 ^ k))))"
proof (induction "n - s" arbitrary: s wl)
  case 0
  then show ?case by (cases wl) (simp add: stage_roots.simps)
next
  case (Suc j)
  have s: "s < n" using Suc.hyps(2) by simp
  have sl: "s < 2 ^ n" using s less_exp [of n] by (metis less_trans)
  let ?e = "2 ^ n div (2 * 2 ^ s) :: nat"
  let ?wl = "((fst wl)[s := from_canonical W pr (from_i64 W (pow_mod omega (int ?e) (np_p pr)))],
      (snd wl)[s := from_canonical W pr (from_i64 W (pow_mod omega_inv (int ?e) (np_p pr)))])"
  have rep: "mrep W pr (from_canonical W pr (from_i64 W (pow_mod b (int ?e) (np_p pr)))) (b ^ ?e)" if "0 \<le> b" for b
    using pow_mod_props [OF wf that, of "int ?e"] by (intro mrep_canonical [OF wf]) simp_all
  have "stage_roots W pr (2 ^ n) omega omega_inv (2 ^ s) s wl = stage_roots W pr (2 ^ n) omega omega_inv (2 ^ Suc s) (Suc s) ?wl"
    using s by (subst stage_roots.simps) (simp add: Let_def mult.commute)
  moreover have j: "j = n - Suc s" "Suc s \<le> n" using Suc.hyps(2) s by simp_all
  moreover have "\<forall>k < Suc s. mrep W pr (fst ?wl ! k) (omega ^ (2 ^ n div (2 * 2 ^ k))) \<and> mrep W pr (snd ?wl ! k) (omega_inv ^ (2 ^ n div (2 * 2 ^ k)))"
    using Suc.prems rep om sl by (auto simp: nth_list_update less_Suc_eq)
  ultimately show ?case using Suc.hyps(1) [OF j, of ?wl] Suc.prems(2,3) by simp
qed

lemma twiddle_steps:
  assumes wf: "wf_prime W pr" and r: "mrep W pr wf' zf" "mrep W pr wi' zi" and one: "mrep W pr one 1"
  shows "base + m \<le> length F \<Longrightarrow> length B = length F \<Longrightarrow> \<exists>F' B' cf cb.
    fold (twiddle_step W pr wf' wi' base) [0..<m] ((F, B), one, one) = ((F', B'), cf, cb) \<and>
    length F' = length F \<and> length B' = length F \<and>
    (\<forall>i < base. F' ! i = F ! i \<and> B' ! i = B ! i) \<and>
    (\<forall>j < m. mrep W pr (F' ! (base + j)) (zf ^ j) \<and> mrep W pr (B' ! (base + j)) (zi ^ j)) \<and>
    mrep W pr cf (zf ^ m) \<and> mrep W pr cb (zi ^ m)"
proof (induction m)
  case 0
  then show ?case using one by simp
next
  case (Suc m)
  then obtain F' B' cf cb where IH:
    "fold (twiddle_step W pr wf' wi' base) [0..<m] ((F, B), one, one) = ((F', B'), cf, cb)"
    "length F' = length F" "length B' = length F" "\<And>i. i < base \<Longrightarrow> F' ! i = F ! i \<and> B' ! i = B ! i"
    "\<And>j. j < m \<Longrightarrow> mrep W pr (F' ! (base + j)) (zf ^ j) \<and> mrep W pr (B' ! (base + j)) (zi ^ j)"
    "mrep W pr cf (zf ^ m)" "mrep W pr cb (zi ^ m)" by auto
  have nxt: "mrep W pr (mont_mul_raw W pr cf wf') (zf ^ Suc m)" "mrep W pr (mont_mul_raw W pr cb wi') (zi ^ Suc m)"
    using mrep_mult [OF wf IH(6) r(1)] mrep_mult [OF wf IH(7) r(2)] by (simp_all add: mult.commute)
  have "twiddle_step W pr wf' wi' base m ((F', B'), cf, cb) =
      ((F'[base + m := cf], B'[base + m := cb]), mont_mul_raw W pr cf wf', mont_mul_raw W pr cb wi')"
    by (simp add: twiddle_step_def)
  with IH(1) have "fold (twiddle_step W pr wf' wi' base) [0..<Suc m] ((F, B), one, one) =
      ((F'[base + m := cf], B'[base + m := cb]), mont_mul_raw W pr cf wf', mont_mul_raw W pr cb wi')" by simp
  moreover have "\<forall>j < Suc m. mrep W pr (F'[base + m := cf] ! (base + j)) (zf ^ j) \<and> mrep W pr (B'[base + m := cb] ! (base + j)) (zi ^ j)"
    using IH(2,3,5-7) Suc.prems by (auto simp: nth_list_update less_Suc_eq)
  ultimately show ?case using IH(2-4) nxt by simp
qed

lemma twiddle_stages:
  assumes wf: "wf_prime W pr"
    and wl: "\<And>k. k < n \<Longrightarrow> mrep W pr (fw ! k) (omega ^ (2 ^ n div (2 * 2 ^ k)))"
      "\<And>k. k < n \<Longrightarrow> mrep W pr (iw ! k) (omega_inv ^ (2 ^ n div (2 * 2 ^ k)))"
  shows "s \<le> n \<Longrightarrow> \<exists>F B. fold (twiddle_stage W pr fw iw) [0..<s] (replicate (2 ^ n) 0, replicate (2 ^ n) 0) = (F, B) \<and>
    length F = 2 ^ n \<and> length B = 2 ^ n \<and>
    (\<forall>k < s. \<forall>j < 2 ^ k. mrep W pr (F ! (2 ^ k - 1 + j)) (omega ^ (2 ^ n div (2 * 2 ^ k) * j)) \<and>
       mrep W pr (B ! (2 ^ k - 1 + j)) (omega_inv ^ (2 ^ n div (2 * 2 ^ k) * j)))"
proof (induction s)
  case (Suc s)
  then obtain F B where IH:
    "fold (twiddle_stage W pr fw iw) [0..<s] (replicate (2 ^ n) 0, replicate (2 ^ n) 0) = (F, B)"
    "length F = 2 ^ n" "length B = 2 ^ n"
    "\<And>k j. k < s \<Longrightarrow> j < 2 ^ k \<Longrightarrow> mrep W pr (F ! (2 ^ k - 1 + j)) (omega ^ (2 ^ n div (2 * 2 ^ k) * j)) \<and>
       mrep W pr (B ! (2 ^ k - 1 + j)) (omega_inv ^ (2 ^ n div (2 * 2 ^ k) * j))" by auto
  have s: "s < n" using Suc.prems by simp
  have "(2 :: nat) ^ Suc s \<le> 2 ^ n" using Suc.prems by (rule power_increasing) simp
  then have fit: "(2 ^ s - 1) + 2 ^ s \<le> length F" "length B = length F" using IH(2,3) by simp_all
  have one: "mrep W pr (from_canonical W pr (from_i64 W 1)) 1"
    using wf_prime_p(2) [OF wf] by (intro mrep_canonical [OF wf]) auto
  obtain F' B' cf cb where st:
    "fold (twiddle_step W pr (fw ! s) (iw ! s) (2 ^ s - 1)) [0..<2 ^ s]
       ((F, B), from_canonical W pr (from_i64 W 1), from_canonical W pr (from_i64 W 1)) = ((F', B'), cf, cb)"
    "length F' = 2 ^ n" "length B' = 2 ^ n" "\<forall>i < 2 ^ s - 1. F' ! i = F ! i \<and> B' ! i = B ! i"
    "\<forall>j < 2 ^ s. mrep W pr (F' ! (2 ^ s - 1 + j)) ((omega ^ (2 ^ n div (2 * 2 ^ s))) ^ j) \<and>
       mrep W pr (B' ! (2 ^ s - 1 + j)) ((omega_inv ^ (2 ^ n div (2 * 2 ^ s))) ^ j)"
    using twiddle_steps [OF wf wl(1) [OF s] wl(2) [OF s] one fit] IH(2) by auto
  have below: "2 ^ k - 1 + j < 2 ^ s - 1" if "k < s" "j < 2 ^ k" for k j :: nat
  proof -
    have "(2 :: nat) ^ Suc k \<le> 2 ^ s" using that by (intro power_increasing) auto
    then show ?thesis using that by simp
  qed
  have "twiddle_stage W pr fw iw s (F, B) = (F', B')" using st(1) by (simp add: twiddle_stage_def Let_def)
  moreover have "mrep W pr (F' ! (2 ^ k - 1 + j)) (omega ^ (2 ^ n div (2 * 2 ^ k) * j)) \<and>
      mrep W pr (B' ! (2 ^ k - 1 + j)) (omega_inv ^ (2 ^ n div (2 * 2 ^ k) * j))" if "k < Suc s" "j < 2 ^ k" for k j
  proof (cases "k = s")
    case True
    then show ?thesis using st(5) that(2) by (simp add: power_mult)
  next
    case False
    then have k: "k < s" using that(1) by simp
    show ?thesis using st(4) below [OF k that(2)] IH(4) [OF k that(2)] by simp
  qed
  ultimately show ?case using IH(1) st(2,3) by simp
qed simp

text \<open>What the tables of a prime hold: a root with \<open>\<psi>\<^sup>D = -1\<close>, the inverses, and the packed powers.\<close>

definition tables_ok :: "prime_width \<Rightarrow> ntt_prime \<Rightarrow> nat \<Rightarrow> int \<Rightarrow> int \<Rightarrow> ntt_twiddles \<Rightarrow> bool" where
  "tables_ok W pr n psi psi_inv tw \<longleftrightarrow>
     eqm (np_p pr) (psi ^ 2 ^ n) (- 1) \<and> eqm (np_p pr) (psi * psi_inv) 1 \<and>
     length (psi_pows tw) = 2 ^ n \<and> length (d_inv_psi_inv tw) = 2 ^ n \<and>
     (\<forall>i < 2 ^ n. mrep W pr (psi_pows tw ! i) (psi ^ i)) \<and>
     (\<exists>d. eqm (np_p pr) (2 ^ n * d) 1 \<and> mrep W pr (tw_d_inv tw) d \<and>
        (\<forall>i < 2 ^ n. mrep W pr (d_inv_psi_inv tw ! i) (d * psi_inv ^ i))) \<and>
     stage_table W pr n (psi * psi) (fwd_twiddles tw) \<and>
     (\<exists>omega_inv. eqm (np_p pr) (psi * psi * omega_inv) 1 \<and> stage_table W pr n omega_inv (inv_twiddles tw))"

lemma root_from:
  assumes wf: "wf_prime W pr"
  shows "0 \<le> a \<Longrightarrow> find_primitive_root_from (np_p pr) d a = Some psi \<Longrightarrow>
    \<exists>b. 0 \<le> b \<and> pow_mod b ((np_p pr - 1) div 2) (np_p pr) = np_p pr - 1 \<and> psi = pow_mod b ((np_p pr - 1) div (2 * int d)) (np_p pr)"
proof (induction "np_p pr" d a rule: find_primitive_root_from.induct)
  case (1 d a)
  then show ?case by (subst (asm) (2) find_primitive_root_from.simps) (auto split: if_splits)
qed

lemma root_ok:
  assumes wf: "wf_prime W pr" and D: "(np_p pr - 1) mod (2 * 2 ^ n) = 0"
    and psi: "find_primitive_root_2d (np_p pr) (2 ^ n) = Some psi"
  shows "0 \<le> psi" "psi < np_p pr" "eqm (np_p pr) (psi ^ 2 ^ n) (- 1)"
    "eqm (np_p pr) (psi * psi ^ nat (np_p pr - 2)) 1"
proof -
  let ?p = "np_p pr"
  have p: "1 < ?p" "odd ?p" using wf_prime_p [OF wf] by simp_all
  obtain b where b: "0 \<le> b" "pow_mod b ((?p - 1) div 2) ?p = ?p - 1" "psi = pow_mod b ((?p - 1) div (2 * 2 ^ n)) ?p"
    using root_from [OF wf, of 2 "2 ^ n" psi] psi by (auto simp: find_primitive_root_2d_def)
  obtain m where m: "?p - 1 = 2 * 2 ^ n * m" using D by (metis mod_0_imp_dvd dvd_def)
  have m0: "0 < m" using m p by (metis diff_gt_0_iff_gt mult_pos_pos zero_less_mult_pos zero_less_numeral zero_less_power)
  have e: "(?p - 1) div (2 * 2 ^ n) = m" "(?p - 1) div 2 = 2 ^ n * m" using m by simp_all
  note ps = pow_mod_props [OF wf b(1), of m]
  show r: "0 \<le> psi" "psi < ?p" using ps m0 b(3) by (simp_all add: e)
  have "eqm ?p (psi ^ 2 ^ n) ((b ^ nat m) ^ 2 ^ n)" using ps(1) m0 b(3) by (intro eqm_power) (simp add: e)
  also have "(b ^ nat m) ^ 2 ^ n = b ^ nat (2 ^ n * m)"
    using m0 by (simp add: power_mult [symmetric] nat_mult_distrib nat_power_eq mult.commute)
  also have "eqm ?p (b ^ nat (2 ^ n * m)) (?p - 1)"
    using pow_mod_props(1) [OF wf b(1), of "2 ^ n * m"] m0 b(2) by (simp add: e eqm_def)
  also have "eqm ?p (?p - 1) (- 1)" by (simp add: eqm_dvd)
  finally show root: "eqm ?p (psi ^ 2 ^ n) (- 1)" .
  have "nat (?p - 1) = 2 ^ n * (2 * nat m)" using m m0 by (simp add: nat_mult_distrib nat_power_eq)
  then have "psi ^ nat (?p - 1) = (psi ^ 2 ^ n) ^ (2 * nat m)" by (simp add: power_mult)
  moreover have "eqm ?p ((psi ^ 2 ^ n) ^ (2 * nat m)) ((- 1) ^ (2 * nat m))" by (rule eqm_power [OF root])
  moreover have "psi * psi ^ nat (?p - 2) = psi ^ nat (?p - 1)"
  proof -
    have "nat (?p - 1) = Suc (nat (?p - 2))" using p by simp
    then show ?thesis by simp
  qed
  ultimately show "eqm ?p (psi * psi ^ nat (?p - 2)) 1" by simp
qed

section \<open>What the constructor's primality test gives\<close>

lemma squares_reach_power:
  assumes "1 < n" "n < 2 ^ 63"
  shows "0 \<le> x \<Longrightarrow> squares_reach k x n \<Longrightarrow> \<exists>j \<le> k. eqm n (x ^ 2 ^ j) (- 1)"
proof (induction k arbitrary: x)
  case (Suc k)
  let ?y = "pow_mod x 2 n"
  have y: "?y = x ^ 2 mod n" using pow_mod_eq [OF Suc.prems(1) _ assms, of 2] by simp
  have pos: "0 \<le> ?y" using assms(1) by (simp add: y)
  have sq: "eqm n (?y ^ m) ((x ^ 2) ^ m)" for m unfolding y by (simp add: eqm_def power_mod)
  consider "?y = n - 1" | "squares_reach k ?y n" using Suc.prems(2) by (auto simp: Let_def)
  then show ?case
  proof cases
    case 1
    have "eqm n (n - 1) (- 1)" by (simp add: eqm_dvd)
    then have "eqm n (x ^ 2 ^ 1) (- 1)" using sq [of 1] 1 by (simp add: eqm_def)
    then show ?thesis by (intro exI [of _ 1]) simp
  next
    case 2
    from Suc.IH [OF pos this] obtain j where j: "j \<le> k" "eqm n (?y ^ 2 ^ j) (- 1)" by blast
    have "(x ^ 2) ^ 2 ^ j = x ^ 2 ^ Suc j" by (simp flip: power_mult)
    then have "eqm n (x ^ 2 ^ Suc j) (- 1)" using sq [of "2 ^ j"] j(2) by (simp add: eqm_def)
    then show ?thesis using j(1) by blast
  qed
qed simp

lemma trailing_zeros_dvd: "0 < m \<Longrightarrow> 2 ^ trailing_zeros m dvd m"
proof (induction m rule: trailing_zeros.induct)
  case (1 m)
  show ?case
  proof (cases "odd m")
    case False
    then have "2 ^ Suc (trailing_zeros (m div 2)) dvd 2 * (m div 2)"
      using 1 unfolding power_Suc by (intro mult_dvd_mono dvd_refl) auto
    moreover have "2 * (m div 2) = m" "trailing_zeros m = Suc (trailing_zeros (m div 2))"
      using False 1(2) by (simp_all add: trailing_zeros.simps [of m])
    ultimately show ?thesis by (simp only:)
  qed (simp add: trailing_zeros.simps [of m])
qed

lemma trailing_zeros_pos: "0 < m \<Longrightarrow> even m \<Longrightarrow> 0 < trailing_zeros m"
  by (subst trailing_zeros.simps) simp

lemma is_prime_odd: "is_prime n \<Longrightarrow> 2 < n \<Longrightarrow> odd n"
  by (rule ccontr) (auto simp: is_prime_def miller_rabin_bases_def split: if_splits)

lemma fermat_base_two:
  assumes "is_prime n" "2 < n" "n < 2 ^ 32"
  shows "eqm n (2 ^ nat (n - 1)) 1"
proof (cases "find (\<lambda>base. n mod base = 0) (miller_rabin_bases n)")
  case (Some base)
  then have "n = base" using assms by (simp add: is_prime_def)
  then have "n \<in> {7, 61}" using Some assms by (auto simp: miller_rabin_bases_def split: if_splits)
  then show ?thesis by (auto simp: eqm_def)
next
  case None
  have b: "miller_rabin_bases n = [2, 7, 61]" using assms(3) by (simp add: miller_rabin_bases_def)
  define k where "k = trailing_zeros (nat (n - 1))"
  define m where "m = (n - 1) div 2 ^ k"
  define x where "x = pow_mod 2 m n"
  have n: "1 < n" "n < 2 ^ 63" using assms by simp_all
  have odd: "odd n" by (rule is_prime_odd [OF assms(1,2)])
  have "2 ^ k dvd nat (n - 1)" using assms(2) trailing_zeros_dvd [of "nat (n - 1)"] by (simp add: k_def)
  then have "(2 :: int) ^ k dvd n - 1" using n by (metis int_dvd_int_iff int_nat_eq of_nat_numeral of_nat_power diff_ge_0_iff_ge less_le_not_le)
  then have nm: "n - 1 = 2 ^ k * m" by (simp add: m_def)
  have m0: "0 \<le> m" using n by (simp add: m_def pos_imp_zdiv_nonneg_iff)
  have k0: "0 < k" using odd n trailing_zeros_pos [of "nat (n - 1)"] by (simp add: k_def even_nat_iff)
  have "x = 1 \<or> x = n - 1 \<or> squares_reach (k - 1) x n"
    using assms(1,2) None b by (simp add: is_prime_def Let_def k_def m_def x_def)
  moreover have x0: "0 \<le> x" and xm: "eqm n x (2 ^ nat m)" using pow_mod_eq [OF _ m0 n, of 2] n by (simp_all add: x_def)
  moreover have "eqm n (n - 1) (- 1)" by (simp add: eqm_dvd)
  ultimately consider "x = 1" | j where "j < k" "eqm n (x ^ 2 ^ j) (- 1)"
    using squares_reach_power [OF n x0, of "k - 1"] k0
    by (metis One_nat_def Suc_le_eq Suc_pred le_less_trans less_Suc_eq_le power_0 power_one_right)
  then have one: "eqm n (x ^ 2 ^ k) 1"
  proof cases
    case 2
    then have "2 ^ k = 2 ^ j * (2 * 2 ^ (k - Suc j) :: nat)" by (simp flip: power_Suc power_add)
    then have "x ^ 2 ^ k = (x ^ 2 ^ j) ^ (2 * 2 ^ (k - Suc j))" by (simp add: power_mult)
    moreover have "eqm n ((x ^ 2 ^ j) ^ (2 * 2 ^ (k - Suc j))) ((- 1) ^ (2 * 2 ^ (k - Suc j)))" by (rule eqm_power [OF 2(2)])
    ultimately show ?thesis by simp
  qed simp
  have "nat (n - 1) = nat m * 2 ^ k" unfolding nm using m0 by (simp add: nat_mult_distrib nat_power_eq mult.commute)
  then have "2 ^ nat (n - 1) = ((2 :: int) ^ nat m) ^ 2 ^ k" by (simp add: power_mult)
  then show ?thesis using eqm_power [OF xm, of "2 ^ k"] one by (simp add: eqm_def)
qed

lemma new_prime_wf:
  assumes "ntt_prime_new W q = Some pr"
  shows "wf_prime W pr" "np_p pr = q" "is_prime q" "2 < q"
proof -
  have q: "2 < q" "q < 2 ^ (R_LOG W - 2)" "is_prime q" "pr = compute W q"
    using assms by (simp_all add: ntt_prime_new_def split: if_splits)
  have "odd q" by (rule is_prime_odd [OF q(3,1)])
  then have "odd q \<and> 1 < q \<and> q < 2 ^ (R_LOG W - 2) \<and> pr = compute W q" using q by simp
  then show "wf_prime W pr" unfolding wf_prime_def by blast
  show "np_p pr = q" "is_prime q" "2 < q" using q by (simp_all add: compute_def Let_def)
qed

lemma tables_compute:
  assumes new: "ntt_prime_new W q = Some pr" and tw: "twiddles_compute W pr D = Some tw"
  shows "\<exists>n psi psi_inv. D = 2 ^ n \<and> tables_ok W pr n psi psi_inv tw"
proof -
  note wf = new_prime_wf(1) [OF new]
  let ?p = "np_p pr"
  have p: "2 < ?p" "?p < 2 ^ 32" "is_prime ?p"
    using new_prime_wf [OF new] np_p_bound [OF wf] by simp_all
  have D: "is_power_of_two D" "(?p - 1) mod (2 * int D) = 0"
    using tw by (auto simp: twiddles_compute_def Let_def split: if_splits)
  then obtain n where n: "D = 2 ^ n" by (auto simp: is_power_of_two_iff)
  obtain psi where psi: "find_primitive_root_2d ?p (2 ^ n) = Some psi"
    using tw by (auto simp: twiddles_compute_def Let_def n split: if_splits option.splits)
  have D': "(?p - 1) mod (2 * 2 ^ n) = 0" using D(2) n by simp
  note root = root_ok [OF wf D' psi]
  define omega where "omega = psi * psi mod ?p"
  define omega_inv where "omega_inv = pow_mod omega (?p - 2) ?p"
  define psi_inv where "psi_inv = pow_mod psi (?p - 2) ?p"
  define d where "d = pow_mod (int (2 ^ n)) (?p - 2) ?p"
  have om: "0 \<le> omega" "eqm ?p (psi * psi) omega" using p by (simp_all add: omega_def)
  have e0: "0 \<le> ?p - 2" using p by simp
  note pinv = pow_mod_props [OF wf root(1) e0, folded psi_inv_def]
    and oinv = pow_mod_props [OF wf om(1) e0, folded omega_inv_def]
    and dinv = pow_mod_props [OF wf of_nat_0_le_iff [of "2 ^ n"] e0, folded d_def]
  have unit: "eqm ?p (psi * psi_inv) 1"
    using eqm_trans [OF eqm_mult [OF eqm_refl pinv(1)] root(4)] .
  have "eqm ?p (psi * psi * omega_inv) ((psi * psi ^ nat (?p - 2)) * (psi * psi ^ nat (?p - 2)))"
  proof -
    have "eqm ?p (psi * psi * omega_inv) (psi * psi * (psi * psi) ^ nat (?p - 2))"
      using oinv(1) eqm_power [OF om(2)] by (intro eqm_mult eqm_refl) (meson eqm_sym eqm_trans)
    then show ?thesis by (simp only: power_mult_distrib mult_ac)
  qed
  then have omu: "eqm ?p (psi * psi * omega_inv) 1"
    using eqm_mult [OF root(4) root(4)] by (simp add: eqm_def)
  have du: "eqm ?p (2 ^ n * d) 1"
  proof -
    have "eqm ?p (2 ^ n * d) (2 ^ n * (2 ^ n) ^ nat (?p - 2))" using dinv(1) by (intro eqm_mult eqm_refl) simp
    also have "2 ^ n * (2 ^ n) ^ nat (?p - 2) = ((2 :: int) ^ nat (?p - 1)) ^ n"
    proof -
      have "nat (?p - 1) = Suc (nat (?p - 2))" using p by simp
      then have "((2 :: int) ^ nat (?p - 1)) ^ n = (2 ^ n) ^ Suc (nat (?p - 2))" by (simp only: power_mult [symmetric] mult.commute)
      then show ?thesis by simp
    qed
    also have "eqm ?p (((2 :: int) ^ nat (?p - 1)) ^ n) (1 ^ n)" by (intro eqm_power fermat_base_two p)
    finally show ?thesis by simp
  qed
  obtain pows r2 inv_pows c where tl:
    "fold (twist_step W pr psi psi_inv) [0..<2 ^ n] ((replicate (2 ^ n) 0, replicate (2 ^ n) 0, replicate (2 ^ n) 0), 1, 1) = ((pows, r2, inv_pows), c)"
    "length pows = 2 ^ n" "length inv_pows = 2 ^ n" "\<forall>i < 2 ^ n. mrep W pr (pows ! i) (psi ^ i) \<and> mrep W pr (inv_pows ! i) (psi_inv ^ i)"
    using twist_loop [OF wf root(1,2) pinv(2,3), of "2 ^ n" "2 ^ n"] by auto
  obtain F I where sr: "stage_roots W pr (2 ^ n) omega omega_inv 1 0 (replicate (2 ^ n) 0, replicate (2 ^ n) 0) = (n, F, I)"
    "\<forall>k < n. mrep W pr (F ! k) (omega ^ (2 ^ n div (2 * 2 ^ k))) \<and> mrep W pr (I ! k) (omega_inv ^ (2 ^ n div (2 * 2 ^ k)))"
    using stage_roots_ok [OF wf om(1) oinv(2), of 0 n "(replicate (2 ^ n) 0, replicate (2 ^ n) 0)"] by auto
  obtain T B where ts: "fold (twiddle_stage W pr F I) [0..<n] (replicate (2 ^ n) 0, replicate (2 ^ n) 0) = (T, B)"
    "stage_table W pr n omega T" "stage_table W pr n omega_inv B"
    using twiddle_stages [OF wf, of n F omega I omega_inv n] sr(2) by (auto simp: stage_table_def)
  have st: "stage_table W pr n (psi * psi) T"
    using ts(2) unfolding stage_table_def by (meson mrep_cong eqm_power eqm_sym om(2))
  have dr: "mrep W pr (from_canonical W pr (from_i64 W d)) d" by (rule mrep_canonical [OF wf dinv(2,3) eqm_refl])
  have tweq: "psi_pows tw = pows \<and> d_inv_psi_inv tw = map (mont_mul_raw W pr (from_canonical W pr (from_i64 W d))) inv_pows \<and>
      tw_d_inv tw = from_canonical W pr (from_i64 W d) \<and> fwd_twiddles tw = T \<and> inv_twiddles tw = B"
    using tw D psi sr(1) tl(1) ts(1)
    by (auto simp: twiddles_compute_def Let_def n swrap_product [OF wf root(1,2) root(1,2)] d_def
        simp flip: psi_inv_def omega_def omega_inv_def)
  have "mrep W pr (d_inv_psi_inv tw ! i) (d * psi_inv ^ i)" if "i < 2 ^ n" for i
    using that tweq tl(3,4) by (simp add: mrep_mult [OF wf dr])
  then have "tables_ok W pr n psi psi_inv tw"
    unfolding tables_ok_def using root(3) unit tweq tl(2-4) st ts(3) omu du dr by auto
  then show ?thesis using n by blast
qed

section \<open>The transforms\<close>

lemma mreps_map2:
  assumes "wf_prime W pr" "mreps W pr a v" "length b = length a" "\<And>i. i < length a \<Longrightarrow> mrep W pr (b ! i) (w i)"
  shows "mreps W pr (map2 (mont_mul_raw W pr) a b) (\<lambda>i. v i * w i)"
  using assms(2-4) by (auto simp: mreps_def intro!: mrep_mult [OF assms(1)])

lemma mreps_cong: "mreps W pr a v \<Longrightarrow> (\<And>i. i < length a \<Longrightarrow> eqm (np_p pr) (v i) (w i)) \<Longrightarrow> mreps W pr a w"
  by (auto simp: mreps_def intro: mrep_cong)

lemma mreps_reduce: "wf_prime W pr \<Longrightarrow> mreps W pr a v \<Longrightarrow> mreps W pr (reduce_range_in_place W pr a) v"
proof -
  assume wf: "wf_prime W pr" and a: "mreps W pr a v"
  have "1 < np_p pr" by (rule wf_prime_p(2) [OF wf])
  with a show ?thesis
    by (auto simp: mreps_def reduce_range_in_place_def mrep_def [of W pr "a ! _"] intro!: mrep_reduce [OF wf])
qed

text \<open>The evaluation the transform is specified to compute: at \<open>\<psi>\<close> to the odd exponent of the index.\<close>

definition odd_exponent :: "nat \<Rightarrow> nat \<Rightarrow> nat" where
  "odd_exponent n i = 2 * bit_rev n i + 1"

definition root_eval :: "int \<Rightarrow> nat \<Rightarrow> (nat \<Rightarrow> int) \<Rightarrow> nat \<Rightarrow> int" where
  "root_eval psi n v i = (\<Sum>k < 2 ^ n. v k * psi ^ (k * odd_exponent n i))"

lemma twisted_dft:
  assumes "eqm p (psi ^ 2 ^ n) (- 1)" "i < 2 ^ n"
  shows "eqm p (fold (ideal_fwd (psi * psi) (2 ^ n)) (rev (halves n)) (\<lambda>k. v k * psi ^ k) i) (root_eval psi n v i)"
proof -
  have s: "(\<Sum>k < 2 ^ n. v k * psi ^ k * (psi * psi) ^ (k * bit_rev n i)) = root_eval psi n v i"
    unfolding root_eval_def odd_exponent_def
    by (intro sum.cong refl) (simp add: power_mult_distrib power_add [symmetric] mult.assoc algebra_simps mult_2_right)
  show ?thesis
  proof (cases n)
    case 0
    then show ?thesis using assms(2) by (simp add: halves_def root_eval_def)
  next
    case (Suc m)
    have "(psi * psi) ^ (2 ^ n div 2) = psi ^ 2 ^ n" by (simp add: Suc power_mult_distrib power_add [symmetric] mult_2)
    then have "eqm p ((psi * psi) ^ (2 ^ n div 2)) (- 1)" using assms(1) by simp
    from ideal_dft [OF this assms(2), of "\<lambda>k. v k * psi ^ k"] show ?thesis unfolding s .
  qed
qed

lemma forward_ntt_rep:
  assumes wf: "wf_prime W pr" and tab: "tables_ok W pr n psi psi_inv tw" and a: "length a = 2 ^ n" "mreps W pr a v"
  shows "length (forward_ntt W pr tw a) = 2 ^ n" "mreps W pr (forward_ntt W pr tw a) (root_eval psi n v)"
    "mreps W pr (forward_ntt W pr tw a) (fold (ideal_fwd (psi * psi) (2 ^ n)) (rev (halves n)) (\<lambda>k. v k * psi ^ k))"
proof -
  let ?t = "map2 (mont_mul_raw W pr) a (psi_pows tw)" and ?I = "fold (ideal_fwd (psi * psi) (2 ^ n)) (rev (halves n)) (\<lambda>k. v k * psi ^ k)"
  have st: "stage_table W pr n (psi * psi) (fwd_twiddles tw)" and pl: "length (psi_pows tw) = 2 ^ n"
    using tab by (simp_all add: tables_ok_def)
  have "mreps W pr ?t (\<lambda>k. v k * psi ^ k)" using tab a by (intro mreps_map2 [OF wf]) (simp_all add: tables_ok_def)
  moreover have "length ?t = 2 ^ n" using a pl by simp
  ultimately have f: "length (fwd_stages W pr tw (2 ^ n) (2 ^ n div 2) ?t) = 2 ^ n"
      "mreps W pr (fwd_stages W pr tw (2 ^ n) (2 ^ n div 2) ?t) ?I"
    using fwd_stages_rep [OF wf st le_refl] by auto
  then show l: "length (forward_ntt W pr tw a) = 2 ^ n" using a by (simp add: forward_ntt_def Let_def reduce_range_in_place_def)
  show r: "mreps W pr (forward_ntt W pr tw a) ?I" using mreps_reduce [OF wf f(2)] a by (simp add: forward_ntt_def Let_def)
  show "mreps W pr (forward_ntt W pr tw a) (root_eval psi n v)"
    using tab l by (intro mreps_cong [OF r] twisted_dft) (auto simp: tables_ok_def)
qed

lemma inverse_ntt_rep:
  assumes wf: "wf_prime W pr" and tab: "tables_ok W pr n psi psi_inv tw" and a: "length a = 2 ^ n"
    "mreps W pr a (fold (ideal_fwd (psi * psi) (2 ^ n)) (rev (halves n)) (\<lambda>k. v k * psi ^ k))"
  shows "length (inverse_ntt W pr tw a) = 2 ^ n" "mreps W pr (inverse_ntt W pr tw a) v"
proof -
  let ?I = "fold (ideal_fwd (psi * psi) (2 ^ n)) (rev (halves n)) (\<lambda>k. v k * psi ^ k)" and ?p = "np_p pr"
  obtain omega_inv where om: "eqm ?p (psi * psi * omega_inv) 1" "stage_table W pr n omega_inv (inv_twiddles tw)"
    using tab by (auto simp: tables_ok_def)
  obtain d where d: "eqm ?p (2 ^ n * d) 1" "\<forall>i < 2 ^ n. mrep W pr (d_inv_psi_inv tw ! i) (d * psi_inv ^ i)"
    using tab by (auto simp: tables_ok_def)
  let ?b = "inv_stages W pr tw (2 ^ n) (2 ^ 0) a"
  have b: "length ?b = 2 ^ n" "mreps W pr ?b (fold (ideal_inv omega_inv (2 ^ n)) (halves n) ?I)"
    using inv_stages_rep [OF wf om(2) le0 a] by (auto simp: halves_def)
  have e: "inverse_ntt W pr tw a = map2 (mont_mul_raw W pr) ?b (d_inv_psi_inv tw)" using a by (simp add: inverse_ntt_def)
  have dl: "length (d_inv_psi_inv tw) = 2 ^ n" using tab by (simp add: tables_ok_def)
  show "length (inverse_ntt W pr tw a) = 2 ^ n" using b dl by (simp add: e)
  have "mreps W pr (inverse_ntt W pr tw a) (\<lambda>i. fold (ideal_inv omega_inv (2 ^ n)) (halves n) ?I i * (d * psi_inv ^ i))"
    unfolding e using b d dl by (intro mreps_map2 [OF wf]) simp_all
  then show "mreps W pr (inverse_ntt W pr tw a) v"
  proof (rule mreps_cong)
    fix i assume "i < length (inverse_ntt W pr tw a)"
    then have i: "i < 2 ^ n" using b dl by (simp add: e)
    have "eqm ?p (fold (ideal_inv omega_inv (2 ^ n)) (halves n) ?I i * (d * psi_inv ^ i))
        (2 ^ length (halves n) * (v i * psi ^ i) * (d * psi_inv ^ i))"
      by (intro eqm_mult eqm_refl ideal_roundtrip [OF om(1) stage_lens_halves i])
    moreover have "2 ^ length (halves n) * (v i * psi ^ i) * (d * psi_inv ^ i) = (2 ^ n * d) * (psi * psi_inv) ^ i * v i"
      by (simp add: halves_def power_mult_distrib)
    moreover have "eqm ?p ((2 ^ n * d) * (psi * psi_inv) ^ i * v i) (1 * 1 ^ i * v i)"
      using tab d(1) by (intro eqm_mult eqm_power eqm_refl) (simp_all add: tables_ok_def)
    ultimately show "eqm ?p (fold (ideal_inv omega_inv (2 ^ n)) (halves n) ?I i * (d * psi_inv ^ i)) (v i)"
      by (simp add: eqm_def)
  qed
qed

section \<open>Products\<close>

text \<open>The product in the ring, evaluated at any point, modulo \<open>z\<^sup>D + 1\<close>.\<close>

lemma eval_row_dvd:
  fixes z :: "'a::comm_ring_1"
  assumes "length b = D" "i < D"
  shows "z ^ D + 1 dvd z ^ i * (\<Sum>j < D. b ! j * z ^ j) - (\<Sum>k < D. ext b (int k - int i) * z ^ k)"
proof -
  let ?t = "\<lambda>j k. (if i + j = k then b ! j else if i + j = k + D then - b ! j else 0) * z ^ k"
  have row: "ext b (int k - int i) = (\<Sum>j < D. if i + j = k then b ! j else if i + j = k + D then - b ! j else 0)"
    if "k < D" for k using row_sum [of b D k i 1] that assms unfolding mult_1 by simp
  have "(\<Sum>k < D. ext b (int k - int i) * z ^ k) = (\<Sum>k < D. \<Sum>j < D. ?t j k)"
    by (intro sum.cong refl) (simp add: row sum_distrib_right)
  also have "\<dots> = (\<Sum>j < D. \<Sum>k < D. ?t j k)" by (rule sum.swap)
  finally have eq: "z ^ i * (\<Sum>j < D. b ! j * z ^ j) - (\<Sum>k < D. ext b (int k - int i) * z ^ k) =
      (\<Sum>j < D. b ! j * z ^ (i + j) - (\<Sum>k < D. ?t j k))"
    by (simp add: sum_subtractf sum_distrib_left power_add mult_ac)
  show ?thesis unfolding eq
  proof (rule dvd_sum)
    fix j assume "j \<in> {..<D}"
    then have j: "j < D" by simp
    show "z ^ D + 1 dvd b ! j * z ^ (i + j) - (\<Sum>k < D. ?t j k)"
    proof (cases "i + j < D")
      case True
      then have "(\<Sum>k < D. ?t j k) = (\<Sum>k < D. if i + j = k then b ! j * z ^ (i + j) else 0)" by (intro sum.cong) auto
      with True show ?thesis by simp
    next
      case False
      define m where "m = i + j - D"
      have m: "i + j = m + D" "m < D" using False j assms(2) by (auto simp: m_def)
      have "(\<Sum>k < D. ?t j k) = (\<Sum>k < D. if m = k then - b ! j * z ^ m else 0)" using m by (intro sum.cong) auto
      also have "\<dots> = - b ! j * z ^ m" using m(2) by simp
      finally have "b ! j * z ^ (i + j) - (\<Sum>k < D. ?t j k) = (z ^ D + 1) * (b ! j * z ^ m)"
        by (simp add: m(1) power_add algebra_simps)
      then show ?thesis by simp
    qed
  qed
qed

lemma eval_ring_mul_dvd:
  fixes z :: "'a::comm_ring_1"
  assumes "length b = length a"
  shows "z ^ length a + 1 dvd eval_ring_at a z * eval_ring_at b z - eval_ring_at (ring_mul a b) z"
proof -
  let ?D = "length a"
  have "eval_ring_at (ring_mul a b) z = (\<Sum>k < ?D. (\<Sum>i < ?D. a ! i * ext b (int k - int i)) * z ^ k)"
    using assms by (simp add: eval_ring_at_sum ring_mul_nth conv_def psum_def ext_nth)
  also have "\<dots> = (\<Sum>i < ?D. a ! i * (\<Sum>k < ?D. ext b (int k - int i) * z ^ k))"
    by (simp add: sum_distrib_right sum_distrib_left mult.assoc) (rule sum.swap)
  finally have "eval_ring_at a z * eval_ring_at b z - eval_ring_at (ring_mul a b) z =
      (\<Sum>i < ?D. a ! i * (z ^ i * (\<Sum>j < ?D. b ! j * z ^ j) - (\<Sum>k < ?D. ext b (int k - int i) * z ^ k)))"
    using assms by (simp add: eval_ring_at_sum [of a] eval_ring_at_sum [of b] sum_distrib_right right_diff_distrib sum_subtractf mult.assoc)
  then show ?thesis using assms by (auto intro!: dvd_sum dvd_mult eval_row_dvd)
qed

lemma odd_power_root: "eqm p (psi ^ D) (- 1) \<Longrightarrow> odd e \<Longrightarrow> eqm p ((psi ^ e) ^ D) (- 1)"
proof -
  assume h: "eqm p (psi ^ D) (- 1)" "odd e"
  have "(psi ^ e) ^ D = (psi ^ D) ^ e" by (simp only: power_mult [symmetric] mult.commute)
  then show ?thesis using eqm_power [OF h(1), of e] h(2) by simp
qed

lemma root_eval_mult:
  assumes "eqm p (psi ^ 2 ^ n) (- 1)" "length a = 2 ^ n" "length b = 2 ^ n"
  shows "eqm p (root_eval psi n (nth a) i * root_eval psi n (nth b) i) (root_eval psi n (nth (ring_mul a b)) i)"
proof -
  let ?z = "psi ^ odd_exponent n i"
  have ev: "root_eval psi n (nth c) i = eval_ring_at c ?z" if "length c = 2 ^ n" for c
    using that by (simp add: root_eval_def eval_ring_at_sum power_mult [symmetric] mult.commute)
  have "eqm p (?z ^ 2 ^ n) (- 1)" by (rule odd_power_root [OF assms(1)]) (simp add: odd_exponent_def)
  then have "p dvd ?z ^ length a + 1" using assms(2) by (simp add: eqm_dvd)
  then have "p dvd eval_ring_at a ?z * eval_ring_at b ?z - eval_ring_at (ring_mul a b) ?z"
    using eval_ring_mul_dvd [of b a ?z] assms by (auto intro: dvd_trans)
  then show ?thesis using assms by (simp add: ev ring_mul_nth(1) eqm_dvd)
qed

lemma to_canonical_rep: "wf_prime W pr \<Longrightarrow> mrep W pr x v \<Longrightarrow> to_canonical W pr x = v mod np_p pr"
proof -
  assume wf: "wf_prime W pr" and x: "mrep W pr x v"
  have "in_width W x" using x wf_prime_p(2) [OF wf] by (intro in_width_small [OF wf]) (auto simp: mrep_def)
  note t = to_canonical_eq [OF wf this]
  have "to_canonical W pr x * 2 ^ R_LOG W mod np_p pr = v * 2 ^ R_LOG W mod np_p pr" using t(3) x by (simp add: mrep_def eqm_def)
  then have "to_canonical W pr x mod np_p pr = v mod np_p pr" by (rule R_coprime [OF wf])
  then show ?thesis using t(1,2) by (simp add: mod_pos_pos_trivial)
qed

lemma mreps_canonical: "wf_prime W pr \<Longrightarrow> \<forall>x \<in> set a. in_width W x \<Longrightarrow> mreps W pr (map (from_canonical W pr) a) (nth a)"
  using from_canonical_eq [of W pr] by (auto simp: mreps_def mrep_def eqm_def)

lemma mreps_to_canonical: "wf_prime W pr \<Longrightarrow> mreps W pr x (nth a) \<Longrightarrow> length x = length a \<Longrightarrow>
  map (to_canonical W pr) x = map (\<lambda>c. c mod np_p pr) a"
  by (auto simp: mreps_def to_canonical_rep intro!: nth_equalityI)

lemma cyclic_ntt_rep:
  assumes wf: "wf_prime W pr" and tab: "tables_ok W pr n psi psi_inv tw" and a: "length a = 2 ^ n" "mreps W pr a v"
  shows "length (inverse_ntt_cyclic W pr tw (forward_ntt_cyclic W pr tw a)) = 2 ^ n"
    "mreps W pr (inverse_ntt_cyclic W pr tw (forward_ntt_cyclic W pr tw a)) v"
proof -
  let ?I = "fold (ideal_fwd (psi * psi) (2 ^ n)) (rev (halves n)) v" and ?p = "np_p pr"
  let ?f = "forward_ntt_cyclic W pr tw a"
  have st: "stage_table W pr n (psi * psi) (fwd_twiddles tw)" using tab by (simp add: tables_ok_def)
  have "length (fwd_stages W pr tw (2 ^ n) (2 ^ n div 2) a) = 2 ^ n \<and> mreps W pr (fwd_stages W pr tw (2 ^ n) (2 ^ n div 2) a) ?I"
    by (rule fwd_stages_rep [OF wf st le_refl a])
  then have f: "length ?f = 2 ^ n" "mreps W pr ?f ?I"
    using mreps_reduce [OF wf] a by (simp_all add: forward_ntt_cyclic_def Let_def reduce_range_in_place_def)
  obtain omega_inv where om: "eqm ?p (psi * psi * omega_inv) 1" "stage_table W pr n omega_inv (inv_twiddles tw)"
    using tab by (auto simp: tables_ok_def)
  obtain d where d: "eqm ?p (2 ^ n * d) 1" "mrep W pr (tw_d_inv tw) d" using tab by (auto simp: tables_ok_def)
  let ?b = "inv_stages W pr tw (2 ^ n) (2 ^ 0) ?f"
  have b: "length ?b = 2 ^ n" "mreps W pr ?b (fold (ideal_inv omega_inv (2 ^ n)) (halves n) ?I)"
    using inv_stages_rep [OF wf om(2) le0 f] by (auto simp: halves_def)
  have e: "inverse_ntt_cyclic W pr tw ?f = map (\<lambda>c. mont_mul_raw W pr c (tw_d_inv tw)) ?b"
    using f(1) by (simp add: inverse_ntt_cyclic_def)
  show "length (inverse_ntt_cyclic W pr tw ?f) = 2 ^ n" using b by (simp add: e)
  have "mreps W pr (inverse_ntt_cyclic W pr tw ?f) (\<lambda>i. fold (ideal_inv omega_inv (2 ^ n)) (halves n) ?I i * d)"
    unfolding e using b d(2) by (auto simp: mreps_def intro!: mrep_mult [OF wf])
  then show "mreps W pr (inverse_ntt_cyclic W pr tw ?f) v"
  proof (rule mreps_cong)
    fix i assume "i < length (inverse_ntt_cyclic W pr tw ?f)"
    then have i: "i < 2 ^ n" using b by (simp add: e)
    have "eqm ?p (fold (ideal_inv omega_inv (2 ^ n)) (halves n) ?I i * d) (2 ^ length (halves n) * v i * d)"
      by (intro eqm_mult eqm_refl ideal_roundtrip [OF om(1) stage_lens_halves i])
    moreover have "2 ^ length (halves n) * v i * d = (2 ^ n * d) * v i" by (simp add: halves_def)
    moreover have "eqm ?p ((2 ^ n * d) * v i) (1 * v i)" by (intro eqm_mult eqm_refl d(1))
    ultimately show "eqm ?p (fold (ideal_inv omega_inv (2 ^ n)) (halves n) ?I i * d) (v i)" by (simp add: eqm_def)
  qed
qed

section \<open>Properties\<close>

text \<open>
  C10.  Multiplication by transforms: for every prime the constructor accepts and every degree for
  which the tables can be built, the inverse transform of the pointwise Montgomery product of two
  forward transforms is the negacyclic product of the two coefficient arrays, coefficient by
  coefficient modulo the prime.
\<close>

theorem ntt_multiplication_correct:
  assumes "ntt_prime_new W q = Some pr" "twiddles_compute W pr D = Some tw"
    and "length a = D" "length b = D" "\<forall>x \<in> set a \<union> set b. in_width W x"
  shows "map (to_canonical W pr) (inverse_ntt W pr tw (map2 (mont_mul_raw W pr)
      (forward_ntt W pr tw (map (from_canonical W pr) a)) (forward_ntt W pr tw (map (from_canonical W pr) b)))) =
    map (\<lambda>c. c mod q) (ring_mul a b)"
proof -
  note wf = new_prime_wf(1) [OF assms(1)]
  obtain n psi psi_inv where D: "D = 2 ^ n" and tab: "tables_ok W pr n psi psi_inv tw"
    using tables_compute [OF assms(1,2)] by blast
  have root: "eqm (np_p pr) (psi ^ 2 ^ n) (- 1)" using tab by (simp add: tables_ok_def)
  let ?A = "forward_ntt W pr tw (map (from_canonical W pr) a)" and ?B = "forward_ntt W pr tw (map (from_canonical W pr) b)"
  let ?c = "ring_mul a b"
  have la: "length (map (from_canonical W pr) a) = 2 ^ n" "length (map (from_canonical W pr) b) = 2 ^ n" and lc: "length ?c = 2 ^ n"
    using assms(3,4) D by (simp_all add: ring_mul_nth(1))
  have ra: "mreps W pr (map (from_canonical W pr) a) (nth a)" "mreps W pr (map (from_canonical W pr) b) (nth b)"
    using assms(5) by (auto intro!: mreps_canonical [OF wf])
  note A = forward_ntt_rep [OF wf tab la(1) ra(1)] and B = forward_ntt_rep [OF wf tab la(2) ra(2)]
  have prod: "mreps W pr (map2 (mont_mul_raw W pr) ?A ?B) (\<lambda>i. root_eval psi n (nth a) i * root_eval psi n (nth b) i)"
    using A B by (intro mreps_map2 [OF wf]) (auto simp: mreps_def)
  have len: "length (map2 (mont_mul_raw W pr) ?A ?B) = 2 ^ n" using A(1) B(1) by simp
  have "eqm (np_p pr) (root_eval psi n (nth a) i * root_eval psi n (nth b) i)
      (fold (ideal_fwd (psi * psi) (2 ^ n)) (rev (halves n)) (\<lambda>k. ?c ! k * psi ^ k) i)" if "i < 2 ^ n" for i
    using root_eval_mult [OF root, of a b i] twisted_dft [OF root that, of "nth ?c"] assms(3,4) D by (simp add: eqm_def)
  then have "mreps W pr (map2 (mont_mul_raw W pr) ?A ?B) (fold (ideal_fwd (psi * psi) (2 ^ n)) (rev (halves n)) (\<lambda>k. ?c ! k * psi ^ k))"
    using len by (intro mreps_cong [OF prod]) simp
  note I = inverse_ntt_rep [OF wf tab len this]
  show ?thesis using mreps_to_canonical [OF wf I(2)] I(1) lc new_prime_wf(2) [OF assms(1)] by simp
qed

text \<open>
  C38.  Round trip and meaning of the transforms: entry \<open>i\<close> of the forward transform is the
  polynomial at \<open>\<psi>\<close> to the odd exponent \<open>2 rev(i) + 1\<close>, where \<open>\<psi>\<^sup>D = -1\<close> and \<open>rev\<close> reverses the
  index bits; both inverse transforms return the coefficients.
\<close>

theorem ntt_roundtrip:
  assumes "ntt_prime_new W q = Some pr" "twiddles_compute W pr D = Some tw" "length a = D" "\<forall>x \<in> set a. in_width W x"
  shows "(\<exists>psi n. D = 2 ^ n \<and> psi ^ D mod q = - 1 mod q \<and>
      (\<forall>i < D. to_canonical W pr (forward_ntt W pr tw (map (from_canonical W pr) a) ! i) =
         (\<Sum>k < D. a ! k * psi ^ (k * odd_exponent n i)) mod q)) \<and>
    map (to_canonical W pr) (inverse_ntt W pr tw (forward_ntt W pr tw (map (from_canonical W pr) a))) = map (\<lambda>c. c mod q) a \<and>
    map (to_canonical W pr) (inverse_ntt_cyclic W pr tw (forward_ntt_cyclic W pr tw (map (from_canonical W pr) a))) = map (\<lambda>c. c mod q) a"
proof -
  note wf = new_prime_wf(1) [OF assms(1)] and q = new_prime_wf(2) [OF assms(1)]
  obtain n psi psi_inv where D: "D = 2 ^ n" and tab: "tables_ok W pr n psi psi_inv tw"
    using tables_compute [OF assms(1,2)] by blast
  let ?a = "map (from_canonical W pr) a"
  have la: "length ?a = 2 ^ n" using assms(3) D by simp
  note ra = mreps_canonical [OF wf assms(4)]
  note A = forward_ntt_rep [OF wf tab la ra] and C = cyclic_ntt_rep [OF wf tab la ra]
  note I = inverse_ntt_rep [OF wf tab A(1,3)]
  have "psi ^ D mod q = - 1 mod q" using tab D q by (simp add: tables_ok_def eqm_def)
  moreover have "\<forall>i < D. to_canonical W pr (forward_ntt W pr tw ?a ! i) = (\<Sum>k < D. a ! k * psi ^ (k * odd_exponent n i)) mod q"
    using A(1,2) D q by (auto simp: mreps_def root_eval_def to_canonical_rep [OF wf])
  moreover have "map (to_canonical W pr) (inverse_ntt W pr tw (forward_ntt W pr tw ?a)) = map (\<lambda>c. c mod q) a"
    using mreps_to_canonical [OF wf I(2)] I(1) assms(3) D q by simp
  moreover have "map (to_canonical W pr) (inverse_ntt_cyclic W pr tw (forward_ntt_cyclic W pr tw ?a)) = map (\<lambda>c. c mod q) a"
    using mreps_to_canonical [OF wf C(2)] C(1) assms(3) D q by simp
  ultimately show ?thesis using D by blast
qed

end
