(* ===== verification/Ntt_Production.thy ===== *)
theory Ntt_Production
  imports Ntt_Transform_Correct
begin

text \<open>
  The production primes (\<^verbatim>\<open>crates/akita-algebra/src/ntt/tables.rs\<close>): each tabulated constant is the
  computed one, the constructor accepts each prime, and the twiddle tables exist for every ring
  degree of its profile, so that the transform theorems apply to every shipped configuration.
\<close>

section \<open>Evaluation of the primality test\<close>

lemma trailing_zeros_odd_part: "odd m \<Longrightarrow> trailing_zeros (2 ^ s * m) = s"
  by (induction s) (auto simp: trailing_zeros.simps [of m] trailing_zeros.simps [of "2 * _"] mult.assoc odd_pos)

lemma is_prime_small:
  assumes n: "61 < n" "n < 4759123141" "n mod 2 \<noteq> 0" "n mod 7 \<noteq> 0" "n mod 61 \<noteq> 0" "n = 2 ^ s * m + 1" "odd m" "0 \<le> m"
    and b: "pow_mod 2 m n = x2" "x2 = 1 \<or> x2 = n - 1 \<or> squares_reach (s - 1) x2 n"
      "pow_mod 7 m n = x7" "x7 = 1 \<or> x7 = n - 1 \<or> squares_reach (s - 1) x7 n"
      "pow_mod 61 m n = x61" "x61 = 1 \<or> x61 = n - 1 \<or> squares_reach (s - 1) x61 n"
  shows "is_prime n"
proof -
  have "nat (n - 1) = 2 ^ s * nat m" using n(6,8) by (simp add: nat_mult_distrib nat_power_eq)
  moreover have "odd (nat m)" using n(7,8) by (simp add: even_nat_iff)
  ultimately have s: "trailing_zeros (nat (n - 1)) = s" using trailing_zeros_odd_part by simp
  have m: "(n - 1) div 2 ^ s = m" using n(6) by simp
  have bases: "miller_rabin_bases n = [2, 7, 61]" using n(2) by (simp add: miller_rabin_bases_def)
  then have "find (\<lambda>base. n mod base = 0) (miller_rabin_bases n) = None" using n(3-5) by simp
  then show ?thesis using n(1) b unfolding is_prime_def by (simp add: Let_def s m bases)
qed

text \<open>Powers modulo a number, reduced digit by digit of a numeral exponent.\<close>

definition mpow :: "int \<Rightarrow> nat \<Rightarrow> int \<Rightarrow> int" where
  "mpow b e n = b ^ e mod n"

lemma mpow_numeral:
  "mpow b (Suc 0) n = b mod n"
  "mpow b (numeral (Num.Bit0 k)) n = mpow (b * b mod n) (numeral k) n"
  "mpow b (numeral (Num.Bit1 k)) n = b * mpow (b * b mod n) (numeral k) n mod n"
  unfolding mpow_def numeral_Bit0 numeral_Bit1 power_add power_mult_distrib [symmetric]
  by (simp_all add: power_mod mod_mult_right_eq mult.commute flip: power_mult_distrib)

lemma pow_mod_mpow: "0 \<le> b \<Longrightarrow> 1 < m \<Longrightarrow> m < 2 ^ 63 \<Longrightarrow> pow_mod b (numeral e) m = mpow b (numeral e) m"
  using pow_mod_eq [of b "numeral e" m] by (simp add: mpow_def)

definition squares_next :: "nat \<Rightarrow> int \<Rightarrow> int \<Rightarrow> bool" where
  "squares_next k y n \<longleftrightarrow> y = n - 1 \<or> squares_reach k y n"

lemma squares_reach_numeral:
  "squares_reach (numeral k) x n = squares_next (pred_numeral k) (pow_mod x 2 n) n"
  "squares_reach 1 x n = (pow_mod x 2 n = n - 1)"
  "squares_next i (numeral y) n = (numeral y = n - 1 \<or> squares_reach i (numeral y) n)"
  by (simp_all add: numeral_eq_Suc Let_def squares_next_def)

lemmas pow_eval = squares_reach_numeral pow_mod_mpow mpow_numeral

lemma compute_eval:
  "compute W q = (let inv = newton_step q (newton_step q (newton_step q (newton_step q (newton_step q 1))));
     half = q div 2; centered = (\<lambda>x. from_i64 W (if x > half then x - q else x))
   in \<lparr>np_p = q, np_pinv = from_i64 W inv, np_mont = centered (2 ^ R_LOG W mod q), np_montsq = centered (2 ^ (2 * R_LOG W) mod q)\<rparr>)"
  unfolding compute_def by (simp add: eval_nat_numeral)

lemmas constant_eval = compute_eval newton_step_def swrap_def from_i64_def Let_def

lemma root_exists:
  "a \<le> b \<Longrightarrow> b < p \<Longrightarrow> pow_mod b ((p - 1) div 2) p = p - 1 \<Longrightarrow> \<exists>psi. find_primitive_root_from p d a = Some psi"
proof (induction p d a rule: find_primitive_root_from.induct)
  case (1 p d a)
  then show ?case by (subst find_primitive_root_from.simps) (cases "a = b", auto)
qed

lemma prime_12289: "is_prime 12289"
proof (rule is_prime_small)
  show "(12289 :: int) = 2 ^ 12 * 3 + 1" by simp
  show "pow_mod 2 3 12289 = 8" "pow_mod 7 3 12289 = 343" "pow_mod 61 3 12289 = 5779"
    by (simp_all add: pow_eval)
qed (simp_all add: pow_eval)

lemma root_12289: "\<exists>psi. find_primitive_root_2d 12289 d = Some psi"
  unfolding find_primitive_root_2d_def by (rule root_exists [of 2 11]) (simp_all add: pow_eval)

lemma prime_1073707009: "is_prime 1073707009"
proof (rule is_prime_small)
  show "(1073707009 :: int) = 2 ^ 11 * 524271 + 1" by simp
  show "pow_mod 2 524271 1073707009 = 537067060" "pow_mod 7 524271 1073707009 = 972725926" "pow_mod 61 524271 1073707009 = 151469085"
    by (simp_all add: pow_eval)
qed (simp_all add: pow_eval)

lemma root_1073707009: "\<exists>psi. find_primitive_root_2d 1073707009 d = Some psi"
  unfolding find_primitive_root_2d_def by (rule root_exists [of 2 13]) (simp_all add: pow_eval)

lemma prime_1073698817: "is_prime 1073698817"
proof (rule is_prime_small)
  show "(1073698817 :: int) = 2 ^ 11 * 524267 + 1" by simp
  show "pow_mod 2 524267 1073698817 = 981630152" "pow_mod 7 524267 1073698817 = 145988302" "pow_mod 61 524267 1073698817 = 120576135"
    by (simp_all add: pow_eval)
qed (simp_all add: pow_eval)

lemma root_1073698817: "\<exists>psi. find_primitive_root_2d 1073698817 d = Some psi"
  unfolding find_primitive_root_2d_def by (rule root_exists [of 2 3]) (simp_all add: pow_eval)

lemma prime_1073692673: "is_prime 1073692673"
proof (rule is_prime_small)
  show "(1073692673 :: int) = 2 ^ 14 * 65533 + 1" by simp
  show "pow_mod 2 65533 1073692673 = 857584265" "pow_mod 7 65533 1073692673 = 962296814" "pow_mod 61 65533 1073692673 = 110405266"
    by (simp_all add: pow_eval)
qed (simp_all add: pow_eval)

lemma root_1073692673: "\<exists>psi. find_primitive_root_2d 1073692673 d = Some psi"
  unfolding find_primitive_root_2d_def by (rule root_exists [of 2 3]) (simp_all add: pow_eval)

lemma prime_1073682433: "is_prime 1073682433"
proof (rule is_prime_small)
  show "(1073682433 :: int) = 2 ^ 11 * 524259 + 1" by simp
  show "pow_mod 2 524259 1073682433 = 249833885" "pow_mod 7 524259 1073682433 = 82681297" "pow_mod 61 524259 1073682433 = 161124418"
    by (simp_all add: pow_eval)
qed (simp_all add: pow_eval)

lemma root_1073682433: "\<exists>psi. find_primitive_root_2d 1073682433 d = Some psi"
  unfolding find_primitive_root_2d_def by (rule root_exists [of 2 5]) (simp_all add: pow_eval)

lemma prime_1073668097: "is_prime 1073668097"
proof (rule is_prime_small)
  show "(1073668097 :: int) = 2 ^ 13 * 131063 + 1" by simp
  show "pow_mod 2 131063 1073668097 = 739729061" "pow_mod 7 131063 1073668097 = 141926260" "pow_mod 61 131063 1073668097 = 805666650"
    by (simp_all add: pow_eval)
qed (simp_all add: pow_eval)

lemma root_1073668097: "\<exists>psi. find_primitive_root_2d 1073668097 d = Some psi"
  unfolding find_primitive_root_2d_def by (rule root_exists [of 2 3]) (simp_all add: pow_eval)

lemma prime_1073655809: "is_prime 1073655809"
proof (rule is_prime_small)
  show "(1073655809 :: int) = 2 ^ 12 * 262123 + 1" by simp
  show "pow_mod 2 262123 1073655809 = 152049851" "pow_mod 7 262123 1073655809 = 447804628" "pow_mod 61 262123 1073655809 = 212632130"
    by (simp_all add: pow_eval)
qed (simp_all add: pow_eval)

lemma root_1073655809: "\<exists>psi. find_primitive_root_2d 1073655809 d = Some psi"
  unfolding find_primitive_root_2d_def by (rule root_exists [of 2 3]) (simp_all add: pow_eval)

section \<open>Tables for every production degree\<close>

lemma tables_exist:
  assumes "is_power_of_two D" "D \<le> 2 ^ m" "2 * 2 ^ m dvd np_p pr - 1" "\<And>d. \<exists>psi. find_primitive_root_2d (np_p pr) d = Some psi"
  shows "\<exists>tw. twiddles_compute W pr D = Some tw"
proof -
  obtain n where n: "D = 2 ^ n" using assms(1) by (auto simp: is_power_of_two_iff)
  then have "n \<le> m" using assms(2) by simp
  then have "2 * int D dvd 2 * 2 ^ m" unfolding n by (simp add: le_imp_power_dvd)
  then have "(np_p pr - 1) mod (2 * int D) = 0" using assms(3) by (meson dvd_trans dvd_imp_mod_0)
  moreover obtain psi where "find_primitive_root_2d (np_p pr) D = Some psi" using assms(4) by blast
  ultimately show ?thesis using assms(1) by (simp add: twiddles_compute_def Let_def split: prod.splits)
qed

lemma q64_constants:
  "compute I32 1073692673 = \<lparr>np_p = 1073692673, np_pinv = 1342226433, np_mont = 196604, np_montsq = 196588\<rparr>"
  "compute I32 1073668097 = \<lparr>np_p = 1073668097, np_pinv = 67182593, np_mont = 294908, np_montsq = 3612607\<rparr>"
  "compute I32 1073655809 = \<lparr>np_p = 1073655809, np_pinv = 2030129153, np_mont = 344060, np_montsq = 275144610\<rparr>"
  by (simp_all add: constant_eval)

text \<open>
  C39.  The production primes are sound: the constructor accepts the tail prime and every prime of
  the three profiles and returns exactly the tabulated Montgomery constants, and for every power of
  two up to the profile's maximal ring degree the twiddle tables are built without a panic.
\<close>

theorem production_primes_sound:
  assumes "is_power_of_two D"
  shows "(D \<le> 2048 \<longrightarrow> ntt_prime_new I16 12289 = Some I16_TAIL_PRIME \<and> (\<exists>tw. twiddles_compute I16 I16_TAIL_PRIME D = Some tw)) \<and>
    (\<forall>pr \<in> set Q32_PRIMES. D \<le> Q32_MAX_RING_D \<longrightarrow> ntt_prime_new I32 (np_p pr) = Some pr \<and> (\<exists>tw. twiddles_compute I32 pr D = Some tw)) \<and>
    (\<forall>pr \<in> set Q64_PRIMES. D \<le> Q64_MAX_RING_D \<longrightarrow> ntt_prime_new I32 (np_p pr) = Some pr \<and> (\<exists>tw. twiddles_compute I32 pr D = Some tw)) \<and>
    (\<forall>p \<in> set q128_primes. D \<le> Q128_MAX_RING_D \<longrightarrow> (\<exists>pr tw. p = Some pr \<and> twiddles_compute I32 pr D = Some tw))"
proof -
  have tab: "\<exists>tw. twiddles_compute W pr D = Some tw"
    if "D \<le> 2 ^ m" "2 * 2 ^ m dvd np_p pr - 1" "\<And>d. \<exists>psi. find_primitive_root_2d (np_p pr) d = Some psi" for W pr m
    by (rule tables_exist [OF assms that])
  have a: "\<exists>tw. twiddles_compute I16 I16_TAIL_PRIME D = Some tw" if "D \<le> 2048"
    using that root_12289 by (intro tab [of 11]) (simp_all add: I16_TAIL_PRIME_def)
  have b: "\<exists>tw. twiddles_compute I32 pr D = Some tw" if "D \<le> 2048" "pr \<in> set Q64_PRIMES" for pr
    using that root_1073692673 root_1073668097 root_1073655809 by (intro tab [of 11]) (auto simp: Q64_PRIMES_def)
  have c: "\<exists>tw. twiddles_compute I32 (compute I32 q) D = Some tw" if "D \<le> 1024" "q \<in> set I32_RAW_PRIMES" for q
    using that root_1073707009 root_1073698817 root_1073692673 root_1073682433 root_1073668097 root_1073655809
    by (intro tab [of 10]) (auto simp: I32_RAW_PRIMES_def compute_def Let_def)
  have n: "q \<in> set I32_RAW_PRIMES \<Longrightarrow> ntt_prime_new I32 q = Some (compute I32 q)" for q
    using prime_1073707009 prime_1073698817 prime_1073692673 prime_1073682433 prime_1073668097 prime_1073655809
    by (auto simp: I32_RAW_PRIMES_def ntt_prime_new_def)
  have n64: "ntt_prime_new I32 (np_p pr) = Some pr" if "pr \<in> set Q64_PRIMES" for pr
  proof -
    have "compute I32 (np_p pr) = pr" using that q64_constants by (auto simp: Q64_PRIMES_def)
    moreover have "np_p pr \<in> set I32_RAW_PRIMES" using that by (auto simp: Q64_PRIMES_def I32_RAW_PRIMES_def)
    ultimately show ?thesis using n by simp
  qed
  have n16: "ntt_prime_new I16 12289 = Some I16_TAIL_PRIME"
    using prime_12289 by (simp add: ntt_prime_new_def I16_TAIL_PRIME_def constant_eval)
  have sub: "set Q32_PRIMES \<subseteq> set Q64_PRIMES" by (simp add: Q32_PRIMES_def Q64_PRIMES_def)
  show ?thesis using a b c n n64 n16 sub
    by (auto simp: Q32_MAX_RING_D_def Q64_MAX_RING_D_def Q128_MAX_RING_D_def q128_primes_def)
qed

theorem production_primes_sound_witness:
  "\<exists>tw. twiddles_compute I32 \<lparr>np_p = 1073692673, np_pinv = 1342226433, np_mont = 196604, np_montsq = 196588\<rparr> 512 = Some tw"
proof -
  have "is_power_of_two 512" using is_power_of_two_power [of 9] by simp
  from production_primes_sound [OF this] show ?thesis by (simp add: Q64_PRIMES_def Q64_MAX_RING_D_def)
qed

lemma ntt_instance: "\<exists>tw. ntt_prime_new I16 12289 = Some I16_TAIL_PRIME \<and> twiddles_compute I16 I16_TAIL_PRIME 4 = Some tw"
proof -
  have "is_power_of_two 4" using is_power_of_two_power [of 2] by simp
  then have "\<exists>tw. twiddles_compute I16 I16_TAIL_PRIME 4 = Some tw"
    using root_12289 by (intro tables_exist [of _ 11]) (simp_all add: I16_TAIL_PRIME_def)
  moreover have "ntt_prime_new I16 12289 = Some I16_TAIL_PRIME"
    using prime_12289 by (simp add: ntt_prime_new_def I16_TAIL_PRIME_def constant_eval)
  ultimately show ?thesis by blast
qed

theorem ntt_multiplication_correct_witness:
  "\<exists>tw. twiddles_compute I16 I16_TAIL_PRIME 4 = Some tw \<and>
     map (to_canonical I16 I16_TAIL_PRIME) (inverse_ntt I16 I16_TAIL_PRIME tw (map2 (mont_mul_raw I16 I16_TAIL_PRIME)
      (forward_ntt I16 I16_TAIL_PRIME tw (map (from_canonical I16 I16_TAIL_PRIME) [1, 2, 3, 4]))
      (forward_ntt I16 I16_TAIL_PRIME tw (map (from_canonical I16 I16_TAIL_PRIME) [0, 1, 0, 0])))) =
    map (\<lambda>c. c mod 12289) (ring_mul [1, 2, 3, 4] [0, 1, 0, 0])"
proof -
  obtain tw where tw: "ntt_prime_new I16 12289 = Some I16_TAIL_PRIME" "twiddles_compute I16 I16_TAIL_PRIME 4 = Some tw"
    using ntt_instance by blast
  from ntt_multiplication_correct [OF tw, of "[1, 2, 3, 4]" "[0, 1, 0, 0]"] tw show ?thesis by (auto simp: in_width_def)
qed

theorem ntt_roundtrip_witness:
  "\<exists>tw. twiddles_compute I16 I16_TAIL_PRIME 4 = Some tw \<and>
     map (to_canonical I16 I16_TAIL_PRIME) (inverse_ntt I16 I16_TAIL_PRIME tw
       (forward_ntt I16 I16_TAIL_PRIME tw (map (from_canonical I16 I16_TAIL_PRIME) [1, - 2, 3, 4]))) = [1, 12287, 3, 4]"
proof -
  obtain tw where tw: "ntt_prime_new I16 12289 = Some I16_TAIL_PRIME" "twiddles_compute I16 I16_TAIL_PRIME 4 = Some tw"
    using ntt_instance by blast
  from ntt_roundtrip [OF tw, of "[1, - 2, 3, 4]"] tw show ?thesis by (auto simp: in_width_def)
qed

end
