(* ===== verification/Crt_Capacity.thy ===== *)
theory Crt_Capacity
  imports Checked_Arith
begin

text \<open>
  Exact product capacity of a CRT profile (\<^verbatim>\<open>crates/akita-algebra/src/ntt/crt.rs\<close>): the arbitrary
  precision naturals \<^verbatim>\<open>SmallNat\<close> and the width search of \<^verbatim>\<open>CrtCapacity\<close>.  A limb is a natural below
  \<open>2\<^sup>3\<^sup>2\<close>; the 128-bit accumulator is written with its wrap-around.
\<close>

section \<open>Multi-limb naturals\<close>

record small_nat =
  sn_limbs :: "nat list"

definition small_nat_one :: small_nat where
  "small_nat_one = \<lparr>sn_limbs = [1]\<rparr>"

fun u128_limbs :: "nat \<Rightarrow> nat list" where
  "u128_limbs value = (if value = 0 then [] else value mod 2 ^ 32 # u128_limbs (value div 2 ^ 32))"

declare u128_limbs.simps [simp del]

definition mul_limb :: "nat \<Rightarrow> nat \<Rightarrow> nat \<times> nat \<Rightarrow> nat list \<times> nat \<Rightarrow> nat list \<times> nat" where
  "mul_limb i lhs jr st =
     (case jr of (j, rhs) \<Rightarrow> case st of (out, carry) \<Rightarrow>
        let index = i + j; accum = (out ! index + lhs * rhs + carry) mod 2 ^ 128
        in (out[index := accum mod 2 ^ 32], accum div 2 ^ 32))"

function propagate_carry :: "nat \<Rightarrow> nat \<Rightarrow> nat list \<Rightarrow> nat list" where
  "propagate_carry index carry out =
     (if carry \<noteq> 0 \<and> index \<le> length out then
        let out' = (if index = length out then out @ [0] else out); accum = (out' ! index + carry) mod 2 ^ 128
        in propagate_carry (index + 1) (accum div 2 ^ 32) (out'[index := accum mod 2 ^ 32])
      else out)"
  by pat_completeness auto
termination
proof (relation "measures [\<lambda>(index, carry, out). length out - index, \<lambda>(index, carry, out). carry]")
  fix index carry :: nat and out out' :: "nat list" and accum :: nat
  assume c: "carry \<noteq> 0 \<and> index \<le> length out" and o: "out' = (if index = length out then out @ [0] else out)"
    and a: "accum = (out' ! index + carry) mod 2 ^ 128"
  have "carry mod 2 ^ 128 div 2 ^ 32 \<le> carry div 2 ^ 32" by (intro div_le_mono mod_less_eq_dividend)
  also have "\<dots> < carry" using c by (intro div_less_dividend) auto
  finally have "carry mod 2 ^ 128 div 2 ^ 32 < carry" .
  then show "((index + 1, accum div 2 ^ 32, out'[index := accum mod 2 ^ 32]), index, carry, out)
      \<in> measures [\<lambda>(index, carry, out). length out - index, \<lambda>(index, carry, out). carry]"
    using c a by (auto simp: o nth_append)
qed simp

declare propagate_carry.simps [simp del]

definition mul_row :: "nat list \<Rightarrow> nat \<times> nat \<Rightarrow> nat list \<Rightarrow> nat list" where
  "mul_row rhs_limbs il out =
     (case il of (i, lhs) \<Rightarrow>
        let (out', carry) = fold (mul_limb i lhs) (enumerate 0 rhs_limbs) (out, 0)
        in propagate_carry (i + length rhs_limbs) carry out')"

fun drop_high_zeros :: "nat list \<Rightarrow> nat list" where
  "drop_high_zeros (x # y # rest) = (if x = 0 then drop_high_zeros (y # rest) else x # y # rest)"
| "drop_high_zeros xs = xs"

definition mul_u128 :: "small_nat \<Rightarrow> nat \<Rightarrow> small_nat" where
  "mul_u128 self rhs =
     (if rhs = 0 then self\<lparr>sn_limbs := [0]\<rparr>
      else let rhs_limbs = u128_limbs rhs;
               out = replicate (length (sn_limbs self) + length rhs_limbs) 0;
               out' = fold (mul_row rhs_limbs) (enumerate 0 (sn_limbs self)) out
           in self\<lparr>sn_limbs := rev (drop_high_zeros (rev out'))\<rparr>)"

datatype ordering = Less | Equal | Greater

definition nat_cmp :: "nat \<Rightarrow> nat \<Rightarrow> ordering" where
  "nat_cmp a b = (if a < b then Less else if a = b then Equal else Greater)"

fun lex_cmp :: "nat list \<Rightarrow> nat list \<Rightarrow> ordering" where
  "lex_cmp [] [] = Equal"
| "lex_cmp [] (y # ys) = Less"
| "lex_cmp (x # xs) [] = Greater"
| "lex_cmp (x # xs) (y # ys) = (case nat_cmp x y of Equal \<Rightarrow> lex_cmp xs ys | ord \<Rightarrow> ord)"

definition small_nat_cmp :: "small_nat \<Rightarrow> small_nat \<Rightarrow> ordering" where
  "small_nat_cmp self other =
     (case nat_cmp (length (sn_limbs self)) (length (sn_limbs other)) of
        Equal \<Rightarrow> lex_cmp (rev (sn_limbs self)) (rev (sn_limbs other))
      | ord \<Rightarrow> ord)"

section \<open>Capacity\<close>

record crt_capacity =
  cc_product :: small_nat

definition from_prime_moduli :: "nat list \<Rightarrow> crt_capacity" where
  "from_prime_moduli primes = \<lparr>cc_product = fold (\<lambda>prime product. mul_u128 product prime) primes small_nat_one\<rparr>"

definition with_prime_modulus :: "crt_capacity \<Rightarrow> nat \<Rightarrow> crt_capacity" where
  "with_prime_modulus self prime = self\<lparr>cc_product := mul_u128 (cc_product self) prime\<rparr>"

definition supports_modulus :: "crt_capacity \<Rightarrow> nat \<Rightarrow> nat \<Rightarrow> nat \<Rightarrow> nat \<Rightarrow> bool" where
  "supports_modulus self width ring_dimension modulus rhs_abs_bound =
     (let required = mul_u128 (mul_u128 (mul_u128 (mul_u128 (mul_u128 small_nat_one 2) width) ring_dimension) (modulus div 2)) rhs_abs_bound
      in small_nat_cmp required (cc_product self) = Less)"

text \<open>The doubling search: \<open>Inl\<close> an early return, \<open>Inr\<close> the bracket it leaves.\<close>

function double_width :: "(nat \<Rightarrow> bool) \<Rightarrow> nat \<Rightarrow> nat \<Rightarrow> nat + nat \<times> nat" where
  "double_width supports low high =
     (if supports high \<and> 0 < high then
        case checked_mul high 2 of
          None \<Rightarrow> if supports usize_max then Inl usize_max else Inr (high, usize_max)
        | Some nxt \<Rightarrow> double_width supports high nxt
      else Inr (low, high))"
  by pat_completeness auto
termination
  by (relation "measure (\<lambda>(supports, low, high). usize_max - high)") (auto simp: checked_mul_eq_Some)

declare double_width.simps [simp del]

function bisect_width :: "(nat \<Rightarrow> bool) \<Rightarrow> nat \<Rightarrow> nat \<Rightarrow> nat" where
  "bisect_width supports low high =
     (if low + 1 < high then
        let mid = low + (high - low) div 2
        in if supports mid then bisect_width supports mid high else bisect_width supports low mid
      else low)"
  by pat_completeness auto
termination
  by (relation "measure (\<lambda>(supports, low, high). high - low)") auto

declare bisect_width.simps [simp del]

definition max_safe_width_for_modulus :: "crt_capacity \<Rightarrow> nat \<Rightarrow> nat \<Rightarrow> nat \<Rightarrow> nat option" where
  "max_safe_width_for_modulus self ring_dimension modulus rhs_abs_bound =
     (if rhs_abs_bound = 0 then Some usize_max
      else if modulus \<le> 1 \<or> ring_dimension = 0 \<or> \<not> supports_modulus self 1 ring_dimension modulus rhs_abs_bound then None
      else let supports = (\<lambda>width. supports_modulus self width ring_dimension modulus rhs_abs_bound)
           in case double_width supports 1 2 of
                Inl width \<Rightarrow> Some width
              | Inr (low, high) \<Rightarrow> Some (bisect_width supports low high))"

end
