(* ===== verification/Crt_Capacity_Correct.thy ===== *)
theory Crt_Capacity_Correct
  imports Crt_Capacity
begin

text \<open>
  The multi-limb naturals denote the naturals they are meant to: multiplication and comparison are
  exact on normalised limbs; hence the capacity test is the exact inequality of the documentation
  and the width search returns the largest width that satisfies it.
\<close>

section \<open>Values of limb lists\<close>

fun limbs_val :: "nat list \<Rightarrow> nat" where
  "limbs_val [] = 0"
| "limbs_val (x # xs) = x + 2 ^ 32 * limbs_val xs"

definition limbs_ok :: "nat list \<Rightarrow> bool" where
  "limbs_ok xs \<longleftrightarrow> (\<forall>x \<in> set xs. x < 2 ^ 32)"

lemma limbs_val_append: "limbs_val (xs @ ys) = limbs_val xs + (2 ^ 32) ^ length xs * limbs_val ys"
  by (induction xs) (simp_all add: algebra_simps)

lemma limbs_val_replicate [simp]: "limbs_val (replicate n 0) = 0"
  by (induction n) simp_all

lemma limbs_val_update:
  "i < length xs \<Longrightarrow> limbs_val (xs[i := v]) + xs ! i * (2 ^ 32) ^ i = limbs_val xs + v * (2 ^ 32) ^ i"
proof (induction xs arbitrary: i)
  case (Cons x xs)
  show ?case
  proof (cases i)
    case (Suc k)
    from Cons.IH [of k] Cons.prems Suc have IH: "limbs_val (xs[k := v]) + xs ! k * (2 ^ 32) ^ k = limbs_val xs + v * (2 ^ 32) ^ k" by simp
    have "2 ^ 32 * (limbs_val (xs[k := v]) + xs ! k * (2 ^ 32) ^ k) = 2 ^ 32 * (limbs_val xs + v * (2 ^ 32) ^ k)" by (simp only: IH)
    then show ?thesis by (simp only: Suc list_update.simps nth_Cons_Suc nat.case limbs_val.simps power_Suc distrib_left mult_ac add_ac)
  qed simp
qed simp

lemma limbs_ok_update: "limbs_ok xs \<Longrightarrow> v < 2 ^ 32 \<Longrightarrow> limbs_ok (xs[i := v])"
  by (auto simp: limbs_ok_def dest: set_update_subset_insert [THEN subsetD])

lemma limbs_ok_nth: "limbs_ok xs \<Longrightarrow> i < length xs \<Longrightarrow> xs ! i < 2 ^ 32"
  by (simp add: limbs_ok_def)

lemma limbs_val_less: "limbs_ok xs \<Longrightarrow> limbs_val xs < (2 ^ 32) ^ length xs"
proof (induction xs)
  case (Cons x xs)
  define B :: nat where "B = 2 ^ 32"
  have "x < B" "limbs_val xs + 1 \<le> B ^ length xs" using Cons by (auto simp: limbs_ok_def B_def)
  then have "x + B * limbs_val xs < B * (limbs_val xs + 1)" "B * (limbs_val xs + 1) \<le> B * B ^ length xs"
    by (simp, intro mult_le_mono2)
  then show ?case by (simp add: B_def)
qed simp

lemma u128_limbs_props: "limbs_val (u128_limbs v) = v \<and> limbs_ok (u128_limbs v)"
proof (induction v rule: u128_limbs.induct)
  case (1 v)
  then show ?case by (subst (1 2) u128_limbs.simps) (auto simp: limbs_ok_def)
qed

section \<open>Multiplication\<close>

lemma div_mod_power: "a div B * B ^ Suc k + a mod B * B ^ k = a * B ^ k" for a B :: nat
proof -
  have "a div B * B ^ Suc k + a mod B * B ^ k = (a div B * B + a mod B) * B ^ k"
    by (simp only: distrib_right distrib_left power_Suc mult_ac)
  then show ?thesis by simp
qed

lemma mul_limbs:
  assumes "limbs_ok out" "lhs < 2 ^ 32" "limbs_ok rs" "i + length rs \<le> length out"
  shows "\<exists>out' carry. fold (mul_limb i lhs) (enumerate 0 rs) (out, 0) = (out', carry) \<and> length out' = length out \<and>
    limbs_ok out' \<and> carry < 2 ^ 32 \<and>
    limbs_val out' + carry * (2 ^ 32) ^ (i + length rs) = limbs_val out + lhs * limbs_val rs * (2 ^ 32) ^ i"
  using assms(3,4)
proof (induction rs rule: rev_induct)
  case (snoc r rs)
  define B :: nat where "B = 2 ^ 32"
  obtain out' carry where IH: "fold (mul_limb i lhs) (enumerate 0 rs) (out, 0) = (out', carry)" "length out' = length out"
      "limbs_ok out'" "carry < B" "limbs_val out' + carry * B ^ (i + length rs) = limbs_val out + lhs * limbs_val rs * B ^ i"
    using snoc.IH snoc.prems by (auto simp: limbs_ok_def B_def)
  let ?k = "i + length rs"
  have k: "?k < length out'" using snoc.prems IH(2) by simp
  have o: "out' ! ?k < B" "r < B" "lhs < B" using limbs_ok_nth [OF IH(3) k] snoc.prems assms(2) by (auto simp: B_def limbs_ok_def)
  define accum where "accum = out' ! ?k + lhs * r + carry"
  have "lhs * r \<le> (B - 1) * (B - 1)" using o by (intro mult_le_mono) auto
  then have "accum \<le> (B - 1) + (B - 1) * (B - 1) + (B - 1)" using o IH(4) by (auto simp: accum_def)
  also have "\<dots> = B * B - 1" by (simp add: B_def)
  finally have a: "accum \<le> B * B - 1" .
  then have small: "accum < 2 ^ 128" "accum < B * B" by (simp_all add: B_def)
  have "accum mod 2 ^ 128 = accum" using small by simp
  then have step: "fold (mul_limb i lhs) (enumerate 0 (rs @ [r])) (out, 0) = (out'[?k := accum mod B], accum div B)"
    using IH(1) by (simp add: enumerate_append_eq mul_limb_def Let_def accum_def B_def)
  have "limbs_val (out'[?k := accum mod B]) + out' ! ?k * B ^ ?k = limbs_val out' + accum mod B * B ^ ?k"
    using limbs_val_update [OF k, of "accum mod B"] by (simp add: B_def)
  moreover have "accum div B * B ^ Suc ?k + accum mod B * B ^ ?k = accum * B ^ ?k"
    by (rule div_mod_power)
  moreover have "accum * B ^ ?k = out' ! ?k * B ^ ?k + lhs * r * B ^ ?k + carry * B ^ ?k" by (simp add: accum_def distrib_right)
  moreover have "lhs * limbs_val (rs @ [r]) * B ^ i = lhs * limbs_val rs * B ^ i + lhs * r * B ^ ?k"
    by (simp add: limbs_val_append B_def power_add algebra_simps)
  ultimately have "limbs_val (out'[?k := accum mod B]) + accum div B * B ^ Suc ?k = limbs_val out + lhs * limbs_val (rs @ [r]) * B ^ i"
    using IH(5) by linarith
  moreover have "accum div B < B" using small(2) by (simp add: less_mult_imp_div_less)
  moreover have "limbs_ok (out'[?k := accum mod B])" using IH(3) by (intro limbs_ok_update) (auto simp: B_def)
  ultimately show ?case using step IH(2) by (simp add: B_def)
qed (use assms in simp)

lemma propagate_carry_val:
  "limbs_ok out \<Longrightarrow> carry < 2 ^ 32 \<Longrightarrow> index \<le> length out \<Longrightarrow>
   limbs_ok (propagate_carry index carry out) \<and> length out \<le> length (propagate_carry index carry out) \<and>
   limbs_val (propagate_carry index carry out) = limbs_val out + carry * (2 ^ 32) ^ index"
proof (induction index carry out rule: propagate_carry.induct)
  case (1 index carry out)
  show ?case
  proof (cases "carry = 0")
    case False
    define B :: nat where "B = 2 ^ 32"
    let ?o = "if index = length out then out @ [0] else out"
    define accum where "accum = ?o ! index + carry"
    have ok: "limbs_ok ?o" "index < length ?o" "limbs_val ?o = limbs_val out" "length out \<le> length ?o"
      using 1(2,4) by (auto simp: limbs_ok_def limbs_val_append)
    have a: "accum < 2 * B" using limbs_ok_nth [OF ok(1,2)] 1(3) unfolding accum_def B_def by linarith
    have "accum < 2 ^ 128" using a by (simp add: B_def)
    then have m: "(?o ! index + carry) mod 2 ^ 128 = accum" by (simp add: accum_def)
    let ?n = "?o[index := accum mod B]"
    have rec: "propagate_carry index carry out = propagate_carry (index + 1) (accum div B) ?n"
      using False 1(4) m by (subst propagate_carry.simps) (simp only: Let_def B_def if_True simp_thms)
    have "limbs_ok ?n" by (rule limbs_ok_update [OF ok(1)]) (simp add: B_def)
    moreover have "accum < B * B" using a by (simp add: B_def)
    ultimately have n: "limbs_ok ?n" "accum div B < B" "index + 1 \<le> length ?n"
      using ok(2) by (auto simp: less_mult_imp_div_less)
    have IH: "limbs_ok (propagate_carry (index + 1) (accum div B) ?n) \<and> length ?n \<le> length (propagate_carry (index + 1) (accum div B) ?n) \<and>
        limbs_val (propagate_carry (index + 1) (accum div B) ?n) = limbs_val ?n + accum div B * B ^ (index + 1)"
      using 1(1) [OF _ refl, of accum] False 1(4) n m unfolding B_def by simp
    have "limbs_val ?n + ?o ! index * B ^ index = limbs_val out + accum mod B * B ^ index"
      using limbs_val_update [OF ok(2), of "accum mod B"] ok(3) by (simp only: B_def)
    moreover have "accum div B * B ^ (index + 1) + accum mod B * B ^ index = accum * B ^ index"
      unfolding Suc_eq_plus1 [symmetric] by (rule div_mod_power)
    moreover have "accum * B ^ index = ?o ! index * B ^ index + carry * B ^ index" by (simp add: accum_def distrib_right)
    ultimately have "limbs_val ?n + accum div B * B ^ (index + 1) = limbs_val out + carry * B ^ index" by linarith
    then show ?thesis using IH ok(4) unfolding rec B_def by simp
  qed (use 1 in \<open>simp add: propagate_carry.simps\<close>)
qed

lemma mul_rows:
  assumes "limbs_ok rs" "limbs_ok ls" "length ls + length rs \<le> length out" "limbs_ok out"
  shows "limbs_ok (fold (mul_row rs) (enumerate 0 ls) out) \<and> length out \<le> length (fold (mul_row rs) (enumerate 0 ls) out) \<and>
    limbs_val (fold (mul_row rs) (enumerate 0 ls) out) = limbs_val out + limbs_val ls * limbs_val rs"
  using assms(2,3)
proof (induction ls rule: rev_induct)
  case (snoc l ls)
  let ?o = "fold (mul_row rs) (enumerate 0 ls) out"
  have IH: "limbs_ok ?o" "length out \<le> length ?o" "limbs_val ?o = limbs_val out + limbs_val ls * limbs_val rs"
    using snoc by (auto simp: limbs_ok_def)
  have l: "l < 2 ^ 32" "length ls + length rs \<le> length ?o" using snoc.prems IH(2) by (auto simp: limbs_ok_def)
  obtain o' carry where r: "fold (mul_limb (length ls) l) (enumerate 0 rs) (?o, 0) = (o', carry)" "length o' = length ?o"
      "limbs_ok o'" "carry < 2 ^ 32" "limbs_val o' + carry * (2 ^ 32) ^ (length ls + length rs) = limbs_val ?o + l * limbs_val rs * (2 ^ 32) ^ length ls"
    using mul_limbs [OF IH(1) l(1) assms(1) l(2)] by blast
  have e: "fold (mul_row rs) (enumerate 0 (ls @ [l])) out = propagate_carry (length ls + length rs) carry o'"
    using r(1) by (simp add: enumerate_append_eq mul_row_def)
  have "length ls + length rs \<le> length o'" using l(2) r(2) by simp
  note p = propagate_carry_val [OF r(3,4) this]
  show ?case unfolding e using p r(2,5) IH(2,3) by (simp add: limbs_val_append algebra_simps)
qed (use assms in simp)

lemma drop_high_zeros_props:
  "xs \<noteq> [] \<Longrightarrow> drop_high_zeros xs \<noteq> [] \<and> set (drop_high_zeros xs) \<subseteq> set xs \<and>
   limbs_val (rev (drop_high_zeros xs)) = limbs_val (rev xs) \<and> (length (drop_high_zeros xs) = 1 \<or> hd (drop_high_zeros xs) \<noteq> 0)"
proof (induction xs rule: drop_high_zeros.induct)
  case (1 x y rest)
  then show ?case by (auto simp: limbs_val_append)
qed simp_all

text \<open>Normalised limbs: at least one, all in range, and no redundant high zero.\<close>

definition small_nat_wf :: "small_nat \<Rightarrow> bool" where
  "small_nat_wf n \<longleftrightarrow> sn_limbs n \<noteq> [] \<and> limbs_ok (sn_limbs n) \<and> (length (sn_limbs n) = 1 \<or> last (sn_limbs n) \<noteq> 0)"

abbreviation small_nat_val :: "small_nat \<Rightarrow> nat" where
  "small_nat_val n \<equiv> limbs_val (sn_limbs n)"

lemma small_nat_one_props: "small_nat_wf small_nat_one" "small_nat_val small_nat_one = 1"
  by (simp_all add: small_nat_wf_def small_nat_one_def limbs_ok_def)

lemma mul_u128_props:
  assumes "small_nat_wf n"
  shows "small_nat_wf (mul_u128 n r)" "small_nat_val (mul_u128 n r) = small_nat_val n * r"
proof -
  let ?rl = "u128_limbs r" and ?ls = "sn_limbs n"
  let ?out = "fold (mul_row ?rl) (enumerate 0 ?ls) (replicate (length ?ls + length ?rl) 0)"
  have ls: "limbs_ok ?ls" "?ls \<noteq> []" using assms by (simp_all add: small_nat_wf_def)
  have "limbs_ok (replicate (length ?ls + length ?rl) 0)" by (auto simp: limbs_ok_def)
  from mul_rows [OF _ ls(1) _ this, of ?rl] u128_limbs_props [of r]
  have o: "limbs_ok ?out" "length ?ls + length ?rl \<le> length ?out" "limbs_val ?out = limbs_val ?ls * r" by auto
  have "length ?ls > 0" using ls(2) by simp
  then have ne: "rev ?out \<noteq> []" using o(2) by (metis add_is_0 length_0_conv length_rev le_zero_eq less_numeral_extra(3))
  note d = drop_high_zeros_props [OF ne]
  show "small_nat_wf (mul_u128 n r)"
    using d o(1) by (auto simp: mul_u128_def Let_def small_nat_wf_def limbs_ok_def last_rev)
  show "small_nat_val (mul_u128 n r) = small_nat_val n * r"
    using d o(3) by (simp add: mul_u128_def Let_def)
qed

section \<open>Comparison\<close>

lemma lex_cmp_val:
  "length xs = length ys \<Longrightarrow> limbs_ok xs \<Longrightarrow> limbs_ok ys \<Longrightarrow> lex_cmp xs ys = nat_cmp (limbs_val (rev xs)) (limbs_val (rev ys))"
proof (induction xs ys rule: lex_cmp.induct)
  case (4 x xs y ys)
  define B :: nat where "B = (2 ^ 32) ^ length xs"
  have r: "limbs_val (rev xs) < B" "limbs_val (rev ys) < B"
    using limbs_val_less [of "rev xs"] limbs_val_less [of "rev ys"] 4(2-4) by (auto simp: limbs_ok_def B_def)
  have v: "limbs_val (rev (x # xs)) = limbs_val (rev xs) + B * x" "limbs_val (rev (y # ys)) = limbs_val (rev ys) + B * y"
    using 4(2) by (simp_all add: limbs_val_append B_def)
  have lt: "limbs_val (rev xs) + B * x < limbs_val (rev ys) + B * y" if "x < y" "limbs_val (rev xs) < B" for x y xs ys
  proof -
    have "B * (x + 1) \<le> B * y" using that(1) by (intro mult_le_mono2) simp
    then show ?thesis using that(2) by simp
  qed
  consider "x < y" | "x = y" | "y < x" by linarith
  then show ?case
  proof cases
    case 1
    then show ?thesis unfolding v using lt [OF 1 r(1), of ys] by (simp add: nat_cmp_def)
  next
    case 2
    then show ?thesis unfolding v using 4 by (simp add: nat_cmp_def limbs_ok_def)
  next
    case 3
    then show ?thesis unfolding v using lt [OF 3 r(2), of xs] by (simp add: nat_cmp_def)
  qed
qed (simp_all add: nat_cmp_def)

lemma small_nat_lower: "small_nat_wf n \<Longrightarrow> 1 < length (sn_limbs n) \<Longrightarrow> (2 ^ 32) ^ (length (sn_limbs n) - 1) \<le> small_nat_val n"
proof -
  assume n: "small_nat_wf n" "1 < length (sn_limbs n)"
  then have ne: "sn_limbs n \<noteq> []" and l: "0 < last (sn_limbs n)" by (auto simp: small_nat_wf_def)
  have "limbs_val (butlast (sn_limbs n) @ [last (sn_limbs n)]) = small_nat_val n" using ne by simp
  then have "small_nat_val n = limbs_val (butlast (sn_limbs n)) + (2 ^ 32) ^ (length (sn_limbs n) - 1) * last (sn_limbs n)"
    by (simp only: limbs_val_append limbs_val.simps length_butlast mult_0_right add_0_right)
  moreover have "(2 ^ 32) ^ (length (sn_limbs n) - 1) * 1 \<le> (2 ^ 32) ^ (length (sn_limbs n) - 1) * last (sn_limbs n)"
    using l by (intro mult_le_mono2) simp
  ultimately show ?thesis by linarith
qed

lemma small_nat_shorter:
  assumes "small_nat_wf a" "small_nat_wf b" "length (sn_limbs a) < length (sn_limbs b)"
  shows "small_nat_val a < small_nat_val b"
proof -
  have "1 < length (sn_limbs b)" using assms by (cases "sn_limbs a") (auto simp: small_nat_wf_def)
  then have "(2 ^ 32) ^ (length (sn_limbs b) - 1) \<le> small_nat_val b" by (rule small_nat_lower [OF assms(2)])
  moreover have "small_nat_val a < (2 ^ 32) ^ length (sn_limbs a)" using assms(1) by (intro limbs_val_less) (simp add: small_nat_wf_def)
  moreover have "((2 :: nat) ^ 32) ^ length (sn_limbs a) \<le> (2 ^ 32) ^ (length (sn_limbs b) - 1)"
    using assms(3) by (intro power_increasing) auto
  ultimately show ?thesis by linarith
qed

lemma small_nat_cmp_val:
  assumes "small_nat_wf a" "small_nat_wf b"
  shows "small_nat_cmp a b = nat_cmp (small_nat_val a) (small_nat_val b)"
proof -
  consider "length (sn_limbs a) < length (sn_limbs b)" | "length (sn_limbs a) = length (sn_limbs b)"
    | "length (sn_limbs b) < length (sn_limbs a)" by linarith
  then show ?thesis
  proof cases
    case 1
    then show ?thesis using small_nat_shorter [OF assms 1] by (simp add: small_nat_cmp_def nat_cmp_def)
  next
    case 2
    have "limbs_ok (rev (sn_limbs a))" "limbs_ok (rev (sn_limbs b))" using assms by (auto simp: small_nat_wf_def limbs_ok_def)
    from lex_cmp_val [OF _ this] 2 show ?thesis by (simp add: small_nat_cmp_def nat_cmp_def)
  next
    case 3
    then show ?thesis using small_nat_shorter [OF assms(2,1) 3] by (simp add: small_nat_cmp_def nat_cmp_def)
  qed
qed

section \<open>Capacity\<close>

definition capacity_wf :: "crt_capacity \<Rightarrow> bool" where
  "capacity_wf c \<longleftrightarrow> small_nat_wf (cc_product c)"

lemma supports_iff:
  assumes "capacity_wf c"
  shows "supports_modulus c w D q b \<longleftrightarrow> 2 * w * D * (q div 2) * b < small_nat_val (cc_product c)"
proof -
  let ?r = "mul_u128 (mul_u128 (mul_u128 (mul_u128 (mul_u128 small_nat_one 2) w) D) (q div 2)) b"
  have "small_nat_wf ?r" by (intro mul_u128_props(1) small_nat_one_props(1))
  moreover have "small_nat_val ?r = 2 * w * D * (q div 2) * b"
    by (simp add: mul_u128_props small_nat_one_props)
  ultimately show ?thesis
    using small_nat_cmp_val [of ?r "cc_product c"] assms
    by (simp add: supports_modulus_def capacity_wf_def nat_cmp_def split: if_splits)
qed

lemma from_prime_moduli_props:
  "capacity_wf (from_prime_moduli ps) \<and> small_nat_val (cc_product (from_prime_moduli ps)) = prod_list ps"
proof -
  have "small_nat_wf n \<Longrightarrow> small_nat_wf (fold (\<lambda>p n. mul_u128 n p) ps n) \<and>
      small_nat_val (fold (\<lambda>p n. mul_u128 n p) ps n) = small_nat_val n * prod_list ps" for n
    by (induction ps arbitrary: n) (simp_all add: mul_u128_props)
  from this [OF small_nat_one_props(1)] show ?thesis
    by (simp add: from_prime_moduli_def capacity_wf_def small_nat_one_props)
qed

text \<open>A width predicate that holds exactly up to a threshold.\<close>

lemma bisect_width_max:
  "low < high \<Longrightarrow> supports low \<Longrightarrow> \<not> supports high \<Longrightarrow> (\<And>v w. v \<le> w \<Longrightarrow> supports w \<Longrightarrow> supports v) \<Longrightarrow>
   supports (bisect_width supports low high) \<and> \<not> supports (bisect_width supports low high + 1) \<and> bisect_width supports low high < high"
proof (induction supports low high rule: bisect_width.induct)
  case (1 supports low high)
  let ?mid = "low + (high - low) div 2"
  show ?case
  proof (cases "low + 1 < high")
    case True
    then have mid: "low < ?mid" "?mid < high" by auto
    show ?thesis using True 1 mid by (subst (1 2 3) bisect_width.simps) (auto simp: Let_def)
  next
    case False
    then have "high = low + 1" using 1(3) by simp
    then show ?thesis using 1 by (subst (1 2 3) bisect_width.simps) simp
  qed
qed

lemma double_width_bracket:
  "low < high \<Longrightarrow> high \<le> usize_max \<Longrightarrow> supports low \<Longrightarrow>
   (case double_width supports low high of Inl w \<Rightarrow> w = usize_max \<and> supports usize_max
    | Inr (l, h) \<Rightarrow> l < h \<and> h \<le> usize_max \<and> supports l \<and> \<not> supports h)"
proof (induction supports low high rule: double_width.induct)
  case (1 supports low high)
  show ?case
  proof (cases "supports high")
    case True
    have h: "0 < high" using 1(2) by simp
    show ?thesis
    proof (cases "checked_mul high 2")
      case None
      then have "high < usize_max \<or> high = usize_max" using 1(3) by linarith
      moreover have "double_width supports low high = (if supports usize_max then Inl usize_max else Inr (high, usize_max))"
        using True h None by (subst double_width.simps) (simp del: checked_mul_eq_None)
      ultimately show ?thesis using True by auto
    next
      case (Some n)
      then have n: "high < n" "n \<le> usize_max" using h by (auto simp: checked_mul_eq_Some)
      have "double_width supports low high = double_width supports high n"
        using True h Some by (subst double_width.simps) (simp del: checked_mul_eq_Some)
      then show ?thesis using 1(1) [OF _ Some n True] True h by simp
    qed
  qed (use 1 in \<open>simp add: double_width.simps\<close>)
qed

text \<open>
  C40.  The CRT capacity search is exact: for every profile of moduli and every nonzero coefficient
  bound, the routine returns a width exactly when one column fits, and then the largest machine
  width whose accumulation \<open>2 w D floor(q / 2) b\<close> stays strictly below the product of the moduli.
\<close>

theorem max_safe_width_correct:
  assumes "0 < b"
  shows "(case max_safe_width_for_modulus (from_prime_moduli ps) D q b of
      None \<Rightarrow> q \<le> 1 \<or> D = 0 \<or> \<not> 2 * D * (q div 2) * b < prod_list ps
    | Some w \<Rightarrow> 1 \<le> w \<and> w \<le> usize_max \<and> 1 < q \<and> 0 < D \<and>
        (\<forall>v \<le> usize_max. 2 * v * D * (q div 2) * b < prod_list ps \<longleftrightarrow> v \<le> w))"
proof -
  let ?c = "from_prime_moduli ps" and ?P = "prod_list ps"
  have wf: "capacity_wf ?c" "small_nat_val (cc_product ?c) = ?P" using from_prime_moduli_props by auto
  define sup where "sup = (\<lambda>w. supports_modulus ?c w D q b)"
  have sup: "sup w \<longleftrightarrow> 2 * w * D * (q div 2) * b < ?P" for w using supports_iff [OF wf(1)] wf(2) by (simp add: sup_def)
  have mono: "v \<le> w \<Longrightarrow> sup w \<Longrightarrow> sup v" for v w
    unfolding sup by (erule le_less_trans [rotated]) (intro mult_le_mono le_refl)
  have edge: "\<forall>v \<le> usize_max. sup v \<longleftrightarrow> v \<le> w" if "sup w" "w = usize_max \<or> \<not> sup (w + 1)" for w
    using that mono by (metis add.commute le_SucE not_less_eq_eq plus_1_eq_Suc)
  show ?thesis
  proof (cases "q \<le> 1 \<or> D = 0 \<or> \<not> sup 1")
    case True
    then show ?thesis using assms sup [of 1] by (auto simp: max_safe_width_for_modulus_def sup_def)
  next
    case False
    have e: "max_safe_width_for_modulus ?c D q b =
        (case double_width sup 1 2 of Inl w \<Rightarrow> Some w | Inr (l, h) \<Rightarrow> Some (bisect_width sup l h))"
      using False assms unfolding sup_def by (simp add: max_safe_width_for_modulus_def Let_def)
    have two: "2 \<le> usize_max" by (simp add: usize_max_def)
    note br = double_width_bracket [of 1 2 sup, OF _ two]
    show ?thesis
    proof (cases "double_width sup 1 2")
      case (Inl w)
      then have "w = usize_max" "sup w" using br False by auto
      then show ?thesis using Inl e edge [of w] False two by (simp add: sup)
    next
      case (Inr lh)
      obtain l h where lh: "lh = (l, h)" by (cases lh)
      have "l < h" "h \<le> usize_max" "sup l" "\<not> sup h" using br False Inr lh by auto
      let ?w = "bisect_width sup l h"
      have w: "sup ?w \<and> \<not> sup (?w + 1) \<and> ?w < h"
        by (rule bisect_width_max [OF \<open>l < h\<close> \<open>sup l\<close> \<open>\<not> sup h\<close>]) (rule mono)
      have le: "?w \<le> usize_max" using w \<open>h \<le> usize_max\<close> by simp
      have E: "\<forall>v \<le> usize_max. sup v \<longleftrightarrow> v \<le> ?w" using edge [of ?w] w by blast
      then have "1 \<le> ?w" using False two by auto
      then show ?thesis using Inr lh e E le False by (simp add: sup)
    qed
  qed
qed

theorem max_safe_width_correct_witness:
  "case max_safe_width_for_modulus (from_prime_moduli [1073692673, 1073668097]) 128 4294967197 32768 of
      None \<Rightarrow> False
    | Some w \<Rightarrow> 1 \<le> w \<and> (\<forall>v \<le> usize_max. 2 * v * 128 * (4294967197 div 2) * 32768 < 1073692673 * (1073668097 :: nat) \<longleftrightarrow> v \<le> w)"
  using max_safe_width_correct [where b = 32768 and ps = "[1073692673, 1073668097]" and D = 128 and q = 4294967197] by (simp split: option.splits)

end
