(* ===== verification/Crt_Garner.thy ===== *)
theory Crt_Garner
  imports Ntt_Prime
begin

text \<open>
  Garner reconstruction (\<^verbatim>\<open>crates/akita-algebra/src/ntt/crt.rs\<close>): the inverse tables with their Shoup
  quotients, the centred mixed-radix digits of residue columns, and their field image.  \<^verbatim>\<open>u64\<close> and
  \<^verbatim>\<open>i64\<close> values are the integers they denote, with the wrap-around of each operation written out;
  \<^verbatim>\<open>F::from_u64\<close> and \<^verbatim>\<open>F::from_i128\<close> are the ring's images of integers.
\<close>

section \<open>Modular inverse\<close>

text \<open>Both remainders are nonnegative, so truncating division is \<open>div\<close>.\<close>

function egcd_loop :: "int \<Rightarrow> int \<Rightarrow> int \<Rightarrow> int \<Rightarrow> int \<times> int" where
  "egcd_loop old_remainder remainder old_coefficient coefficient =
     (if remainder \<noteq> 0 then
        let quotient = old_remainder div remainder
        in egcd_loop remainder (old_remainder - quotient * remainder)
             coefficient (swrap 128 (old_coefficient - swrap 128 (quotient * coefficient)))
      else (old_remainder, old_coefficient))"
  by pat_completeness auto
termination
  by (relation "measure (\<lambda>(old_remainder, remainder, old_coefficient, coefficient). nat \<bar>remainder\<bar>)")
    (auto simp: minus_div_mult_eq_mod abs_mod_less)

declare egcd_loop.simps [simp del]

definition modular_inverse :: "int \<Rightarrow> int \<Rightarrow> int result" where
  "modular_inverse value modulus =
     (case egcd_loop modulus value 0 1 of (old_remainder, old_coefficient) \<Rightarrow>
        if old_remainder \<noteq> 1 then Err (InvalidSetup ''CRT primes are not pairwise coprime'')
        else Ok (old_coefficient mod modulus))"

section \<open>Precomputation\<close>

record garner_data =
  gd_moduli :: "int list"
  gd_gamma :: "int list list"
  gd_gamma_shoup :: "int list list"
  gd_lift :: "int list list"
  gd_run_start :: "nat list"

definition gamma_row :: "int list \<Rightarrow> nat \<Rightarrow> int list result" where
  "gamma_row moduli i = collect_results (\<lambda>j. modular_inverse (moduli ! j mod moduli ! i) (moduli ! i)) [0..<i]"

definition shoup_quotient :: "int \<Rightarrow> int \<Rightarrow> int" where
  "shoup_quotient g p = (g * 2 ^ 64 div p) mod 2 ^ 64"

definition lift_multiple :: "int \<Rightarrow> int \<Rightarrow> int" where
  "lift_multiple pj pi =
     (let half = pj div 2; ceil = (if half mod pi > 0 then half div pi + 1 else half div pi) in ceil * pi mod 2 ^ 64)"

definition run_step :: "nat \<times> int \<Rightarrow> nat \<times> int \<times> nat list \<Rightarrow> nat \<times> int \<times> nat list" where
  "run_step im st =
     (case im of (index, modulus) \<Rightarrow> case st of (start, acc, run_start) \<Rightarrow>
        if acc * modulus < 2 ^ 128 \<and> acc * modulus < 2 ^ 126
        then (start, acc * modulus, run_start[index := start])
        else (index, modulus, run_start[index := index]))"

definition try_from_moduli :: "int list \<Rightarrow> garner_data result" where
  "try_from_moduli moduli =
     (let K = length moduli
      in if list_ex (\<lambda>modulus. \<not> (2 \<le> modulus \<and> modulus < 2 ^ 62)) moduli then
           Err (InvalidSetup ''CRT moduli must lie in [2, 2^62)'')
         else try_r (collect_results (gamma_row moduli) [0..<K]) (\<lambda>rows.
           let pad = (\<lambda>i row. row @ replicate (K - i) 0)
           in Ok \<lparr>gd_moduli = moduli,
                gd_gamma = map (\<lambda>i. pad i (rows ! i)) [0..<K],
                gd_gamma_shoup = map (\<lambda>i. pad i (map (\<lambda>g. shoup_quotient g (moduli ! i)) (rows ! i))) [0..<K],
                gd_lift = map (\<lambda>i. pad i (map (\<lambda>j. lift_multiple (moduli ! j) (moduli ! i)) [0..<i])) [0..<K],
                gd_run_start = snd (snd (fold run_step (enumerate 0 moduli) (0, 1, replicate K 0)))\<rparr>))"

section \<open>Mixed-radix digits\<close>

definition lift_residue :: "int \<Rightarrow> int \<Rightarrow> int" where
  "lift_residue modulus v = swrap 64 (v + of_bool (v < 0) * modulus)"

definition garner_digit :: "int \<Rightarrow> int \<Rightarrow> int \<Rightarrow> int \<Rightarrow> int \<Rightarrow> int \<Rightarrow> int" where
  "garner_digit modulus gamma gamma_shoup lift v prior_digit =
     (let shifted = ((v mod 2 ^ 64 + lift) mod 2 ^ 64 + - prior_digit) mod 2 ^ 64;
          quotient = (shifted * gamma_shoup div 2 ^ 64) mod 2 ^ 64;
          digit = (shifted * gamma mod 2 ^ 64 - quotient * modulus mod 2 ^ 64) mod 2 ^ 64
      in swrap 64 (digit - of_bool (digit \<ge> modulus) * modulus))"

definition center_digit :: "int \<Rightarrow> int \<Rightarrow> int" where
  "center_digit modulus v = swrap 64 (v - of_bool (v > modulus div 2) * modulus)"

definition garner_column :: "garner_data \<Rightarrow> int list list \<Rightarrow> nat \<Rightarrow> int list list" where
  "garner_column self limbs index =
     (let modulus = gd_moduli self ! index;
          column = map (lift_residue modulus) (limbs ! index);
          reduced = fold (\<lambda>(prior, prior_digits) column.
             map2 (garner_digit modulus (gd_gamma self ! index ! prior) (gd_gamma_shoup self ! index ! prior) (gd_lift self ! index ! prior))
               column prior_digits)
            (enumerate 0 (take index limbs)) column
      in limbs[index := map (center_digit modulus) reduced])"

definition centered_mixed_radix :: "garner_data \<Rightarrow> int list list \<Rightarrow> int list list" where
  "centered_mixed_radix self limbs = fold (\<lambda>index limbs. garner_column self limbs index) [0..<length (gd_moduli self)] limbs"

section \<open>Field image\<close>

definition field_weights :: "garner_data \<Rightarrow> 'f::comm_ring_1 list \<times> 'f" where
  "field_weights self =
     fold (\<lambda>modulus (weights, acc). (weights @ [acc], acc * of_int modulus)) (gd_moduli self) ([], 1)"

definition horner_run :: "garner_data \<Rightarrow> int list \<Rightarrow> nat \<Rightarrow> nat \<Rightarrow> int" where
  "horner_run self digits start stop =
     fold (\<lambda>index value. swrap 128 (swrap 128 (value * gd_moduli self ! index) + digits ! index)) (rev [start..<stop]) 0"

partial_function (option) field_loop ::
  "garner_data \<Rightarrow> int list \<Rightarrow> 'f::comm_ring_1 list \<Rightarrow> nat \<Rightarrow> 'f \<Rightarrow> 'f option" where
  "field_loop self digits weights stop acc =
     (if stop > 0 then
        let start = gd_run_start self ! (stop - 1);
            value = of_int (horner_run self digits start stop)
        in field_loop self digits weights start (acc + (if start = 0 then value else value * weights ! start))
      else Some acc)"

definition digits_to_field :: "garner_data \<Rightarrow> int list \<Rightarrow> 'f::comm_ring_1 list \<Rightarrow> 'f option" where
  "digits_to_field self digits weights = field_loop self digits weights (length (gd_moduli self)) 0"

end
