(* ===== verification/Crt_Garner_Correct.thy ===== *)
theory Crt_Garner_Correct
  imports Crt_Garner
begin

text \<open>
  Garner reconstruction is exact: the extended Euclidean loop returns inverses, a Shoup step is an
  exact product modulo the prime, the digits are centred and represent every residue, and their
  field image is the image of the unique small integer with these residues.
\<close>

section \<open>The inverse loop\<close>

text \<open>The cofactors alternate in sign and stay below the modulus, so nothing overflows.\<close>

definition egcd_inv :: "int \<Rightarrow> int \<Rightarrow> int \<Rightarrow> int \<Rightarrow> int \<Rightarrow> int \<Rightarrow> bool" where
  "egcd_inv m v r0 r c0 c \<longleftrightarrow>
     0 \<le> r \<and> r < r0 \<and> r0 \<le> m \<and> eqm m (c0 * v) r0 \<and> eqm m (c * v) r \<and> gcd r0 r = gcd m v \<and>
     r0 * \<bar>c\<bar> + r * \<bar>c0\<bar> = m \<and> (c0 \<le> 0 \<and> 0 \<le> c \<or> 0 \<le> c0 \<and> c \<le> 0)"

lemma egcd_step:
  assumes inv: "egcd_inv m v r0 r c0 c" and r: "r \<noteq> 0"
  shows "egcd_inv m v r (r0 - r0 div r * r) c (c0 - r0 div r * c)"
    "\<bar>r0 div r * c\<bar> \<le> m" "\<bar>c0 - r0 div r * c\<bar> \<le> m"
proof -
  let ?q = "r0 div r" and ?n = "c0 - r0 div r * c"
  have i: "0 < r" "r < r0" "r0 \<le> m" "eqm m (c0 * v) r0" "eqm m (c * v) r" "gcd r0 r = gcd m v"
      "r0 * \<bar>c\<bar> + r * \<bar>c0\<bar> = m" "c0 \<le> 0 \<and> 0 \<le> c \<or> 0 \<le> c0 \<and> c \<le> 0"
    using inv r by (auto simp: egcd_inv_def)
  have q: "0 \<le> ?q" using i by (simp add: pos_imp_zdiv_nonneg_iff)
  have rem: "r0 - ?q * r = r0 mod r" by (simp add: minus_div_mult_eq_mod)
  have an: "\<bar>?n\<bar> = \<bar>c0\<bar> + ?q * \<bar>c\<bar>"
  proof (cases "c0 \<le> 0 \<and> 0 \<le> c")
    case True
    then have "0 \<le> ?q * c" using q by simp
    then show ?thesis using True by (simp add: abs_of_nonneg abs_of_nonpos)
  next
    case False
    then have "0 \<le> c0" "c \<le> 0" using i(8) by auto
    moreover have "?q * c \<le> 0" using q calculation(2) by (simp add: mult_nonneg_nonpos)
    ultimately show ?thesis by (simp add: abs_of_nonneg abs_of_nonpos)
  qed
  have m: "r * \<bar>?n\<bar> + (r0 mod r) * \<bar>c\<bar> = m"
  proof -
    have "r0 = r * ?q + r0 mod r" by simp
    then have "r0 * \<bar>c\<bar> = r * (?q * \<bar>c\<bar>) + (r0 mod r) * \<bar>c\<bar>" by (metis distrib_right mult.assoc)
    then show ?thesis unfolding an using i(7) by (simp add: distrib_left)
  qed
  have "1 * \<bar>?n\<bar> \<le> r * \<bar>?n\<bar>" using i(1) by (intro mult_right_mono) auto
  then have "\<bar>?n\<bar> \<le> r * \<bar>?n\<bar>" by (simp only: mult_1)
  moreover have "0 \<le> (r0 mod r) * \<bar>c\<bar>" using i(1) by simp
  then have "r * \<bar>?n\<bar> \<le> m" using m by (metis le_add_same_cancel1)
  ultimately show nm: "\<bar>?n\<bar> \<le> m" by (rule order_trans)
  have "\<bar>?q * c\<bar> = ?q * \<bar>c\<bar>" using q by (simp add: abs_mult)
  then show "\<bar>?q * c\<bar> \<le> m" using an nm by linarith
  have sg: "c \<le> 0 \<and> 0 \<le> ?n \<or> 0 \<le> c \<and> ?n \<le> 0"
    using i(8) mult_nonneg_nonneg [OF q, of c] mult_nonneg_nonpos [OF q, of c] by linarith
  have "eqm m (c0 * v - ?q * (c * v)) (r0 - ?q * r)" by (intro eqm_diff eqm_mult eqm_refl i)
  then have "eqm m (?n * v) (r0 - ?q * r)" by (simp add: left_diff_distrib mult.assoc)
  moreover have "gcd r (r0 - ?q * r) = gcd m v" unfolding rem using i(6) by (metis gcd.commute gcd_red_int)
  ultimately show "egcd_inv m v r (r0 - ?q * r) c ?n"
    unfolding egcd_inv_def using i m sg by (auto simp: rem)
qed

lemma egcd_loop_result:
  assumes "m < 2 ^ 126"
  shows "egcd_inv m v r0 r c0 c \<Longrightarrow> \<exists>d. egcd_loop r0 r c0 c = (gcd m v, d) \<and> eqm m (d * v) (gcd m v)"
proof (induction r0 r c0 c rule: egcd_loop.induct)
  case (1 r0 r c0 c)
  show ?case
  proof (cases "r = 0")
    case True
    then show ?thesis using 1(2) by (auto simp: egcd_loop.simps egcd_inv_def)
  next
    case False
    note st = egcd_step [OF 1(2) False]
    have sw: "swrap 128 x = x" if "\<bar>x\<bar> \<le> m" for x
      using that assms by (intro swrap_id) auto
    have "egcd_loop r0 r c0 c = egcd_loop r (r0 - r0 div r * r) c (c0 - r0 div r * c)"
      using False by (subst egcd_loop.simps) (simp only: Let_def sw [OF st(2)] sw [OF st(3)] if_True simp_thms)
    then show ?thesis using 1(1) [OF False refl] st(1) by (simp only: sw [OF st(2)] sw [OF st(3)])
  qed
qed

lemma modular_inverse_ok:
  assumes "0 \<le> v" "v < m" "m < 2 ^ 62" "modular_inverse v m = Ok g"
  shows "eqm m (g * v) 1" "0 \<le> g" "g < m"
proof -
  have "egcd_inv m v m v 0 1" using assms(1,2) by (simp add: egcd_inv_def eqm_dvd)
  from egcd_loop_result [OF _ this] obtain d where d: "egcd_loop m v 0 1 = (gcd m v, d)" "eqm m (d * v) (gcd m v)"
    using assms(3) by auto
  have "gcd m v = 1" "g = d mod m" using assms(4) d(1) by (auto simp: modular_inverse_def split: if_splits)
  moreover have "eqm m (d mod m * v) (d * v)" by (intro eqm_mult eqm_refl) simp
  ultimately show "eqm m (g * v) 1" "0 \<le> g" "g < m" using d(2) assms(1,2) by (auto simp: eqm_def)
qed

section \<open>One Shoup step\<close>

lemma shoup_product:
  fixes x g p :: int
  assumes x: "0 \<le> x" "x < 2 ^ 64" and p: "0 < p" and g: "0 \<le> g" "g < p"
  defines "q \<equiv> x * (g * 2 ^ 64 div p) div 2 ^ 64"
  shows "0 \<le> x * g - q * p" "x * g - q * p < 2 * p"
proof -
  define B :: int where "B = 2 ^ 64"
  define s where "s = g * B div p"
  define r where "r = g * B mod p"
  define t where "t = x * s mod B"
  have B: "0 < B" by (simp add: B_def)
  have gB: "g * B = s * p + r" by (simp add: s_def r_def)
  have r: "0 \<le> r" "r < p" using p by (simp_all add: r_def)
  have t: "0 \<le> t" "t < B" using B by (simp_all add: t_def)
  have xs: "x * s = q * B + t" by (simp add: q_def s_def t_def B_def)
  have key: "(x * g - q * p) * B = t * p + x * r"
  proof -
    have "x * g * B = x * (g * B)" by (simp only: mult.assoc)
    also have "\<dots> = (x * s) * p + x * r" by (simp add: gB distrib_left mult.assoc)
    also have "\<dots> = q * B * p + t * p + x * r" by (simp add: xs distrib_right)
    finally show ?thesis by (simp add: algebra_simps)
  qed
  have "0 \<le> t * p" "0 \<le> x * r" using t r p x by simp_all
  then have "0 * B \<le> (x * g - q * p) * B" unfolding key by simp
  then show "0 \<le> x * g - q * p" using B by (simp only: mult_le_cancel_right)
  have "t * p < B * p" using t p by (intro mult_strict_right_mono)
  moreover have "x * r \<le> B * p" using x r by (intro mult_mono) (auto simp: B_def)
  ultimately have "(x * g - q * p) * B < (2 * p) * B" unfolding key by (simp add: mult.commute)
  then show "x * g - q * p < 2 * p" using B by (simp only: mult_less_cancel_right)
qed

lemma garner_digit_ok:
  assumes p: "2 \<le> p" "p < 2 ^ 62" and g: "0 \<le> g" "g < p" and v: "0 \<le> v" "v < p"
    and lift: "eqm p l 0" "0 \<le> l" "\<bar>d\<bar> \<le> l" "l + \<bar>d\<bar> < 2 ^ 63"
  shows "0 \<le> garner_digit p g (shoup_quotient g p) l v d" "garner_digit p g (shoup_quotient g p) l v d < p"
    "eqm p (garner_digit p g (shoup_quotient g p) l v d) ((v - d) * g)"
proof -
  define x where "x = v + l - d"
  have x: "0 \<le> x" "x < 2 ^ 64" using v lift(2-4) p by (auto simp: x_def)
  have sh: "((v mod 2 ^ 64 + l) mod 2 ^ 64 + - d) mod 2 ^ 64 = x"
  proof -
    have "((v mod 2 ^ 64 + l) mod 2 ^ 64 + - d) mod 2 ^ 64 = x mod 2 ^ 64" unfolding x_def by (simp add: mod_simps)
    then show ?thesis using x by simp
  qed
  define s where "s = g * 2 ^ 64 div p"
  define q where "q = x * s div 2 ^ 64"
  have small: "a div b < c" if "a < c * b" "0 < b" for a b c :: int
  proof -
    have "a div b * b \<le> a" using that(2) by (metis div_mult_mod_eq le_add_same_cancel1 pos_mod_sign)
    then have "a div b * b < c * b" using that(1) by (rule le_less_trans)
    then show ?thesis using that(2) by (simp only: mult_less_cancel_right)
  qed
  have s: "0 \<le> s" "s < 2 ^ 64" unfolding s_def using g p by (auto simp: pos_imp_zdiv_nonneg_iff mult.commute intro!: small)
  have "x * s < 2 ^ 64 * 2 ^ 64" using x s by (intro mult_strict_mono) auto
  then have q: "0 \<le> q" "q < 2 ^ 64" unfolding q_def using x s by (auto simp: pos_imp_zdiv_nonneg_iff intro!: small)
  define y where "y = x * g - q * p"
  have y: "0 \<le> y" "y < 2 * p" using shoup_product [OF x _ g] p by (auto simp: y_def q_def s_def)
  have "(x * g mod 2 ^ 64 - q * p mod 2 ^ 64) mod 2 ^ 64 = y mod 2 ^ 64" by (simp add: y_def mod_simps)
  also have "\<dots> = y" using y p by simp
  finally have dig: "(x * g mod 2 ^ 64 - q * p mod 2 ^ 64) mod 2 ^ 64 = y" .
  let ?z = "y - of_bool (y \<ge> p) * p"
  have z: "0 \<le> ?z" "?z < p" using y by auto
  have "swrap 64 ?z = ?z" using z p by (intro swrap_id) auto
  then have e: "garner_digit p g (shoup_quotient g p) l v d = ?z"
    using s q by (simp only: garner_digit_def shoup_quotient_def Let_def sh s_def [symmetric] q_def [symmetric] dig mod_pos_pos_trivial)
  show "0 \<le> garner_digit p g (shoup_quotient g p) l v d" "garner_digit p g (shoup_quotient g p) l v d < p" using z by (simp_all only: e)
  have "?z - x * g = (- q - of_bool (y \<ge> p)) * p" by (simp add: y_def left_diff_distrib)
  then have "eqm p ?z (x * g)" by (simp add: eqm_dvd)
  moreover have "eqm p (x * g) ((v - d) * g)"
    using eqm_mult [OF eqm_add [OF eqm_refl [of p "v - d"] lift(1)] eqm_refl [of p g]] by (simp add: x_def algebra_simps)
  ultimately show "eqm p (garner_digit p g (shoup_quotient g p) l v d) ((v - d) * g)" unfolding e by (rule eqm_trans)
qed

section \<open>The tables\<close>

definition garner_ok :: "garner_data \<Rightarrow> bool" where
  "garner_ok g \<longleftrightarrow>
     (\<forall>i < length (gd_moduli g). 2 \<le> gd_moduli g ! i \<and> gd_moduli g ! i < 2 ^ 62) \<and>
     (\<forall>i < length (gd_moduli g). \<forall>j < i.
        let p = gd_moduli g ! i; pj = gd_moduli g ! j; c = gd_gamma g ! i ! j; l = gd_lift g ! i ! j
        in 0 \<le> c \<and> c < p \<and> eqm p (c * pj) 1 \<and> gd_gamma_shoup g ! i ! j = shoup_quotient c p \<and>
           eqm p l 0 \<and> 0 \<le> l \<and> pj div 2 \<le> l \<and> l + pj div 2 < 2 ^ 63)"

lemma lift_multiple_ok:
  assumes "2 \<le> pi" "pi < 2 ^ 62" "2 \<le> pj" "pj < 2 ^ 62"
  shows "eqm pi (lift_multiple pj pi) 0" "0 \<le> lift_multiple pj pi" "pj div 2 \<le> lift_multiple pj pi"
    "lift_multiple pj pi + pj div 2 < 2 ^ 63"
proof -
  define h where "h = pj div 2"
  define c where "c = (if h mod pi > 0 then h div pi + 1 else h div pi)"
  have h: "0 \<le> h" "h < 2 ^ 61" using assms by (simp_all add: h_def)
  have m: "0 \<le> h mod pi" "h mod pi < pi" using assms by simp_all
  define k where "k = h div pi * pi"
  have k: "h = k + h mod pi" by (simp add: k_def)
  define r where "r = h mod pi"
  note k = k [folded r_def] and m = m [folded r_def]
  have "c * pi = k + (if r > 0 then pi else 0)" by (simp add: c_def k_def r_def distrib_right)
  then have b: "h \<le> c * pi" "c * pi < h + pi" using m k by (auto split: if_splits)
  have l: "lift_multiple pj pi = c * pi" using b h assms by (simp add: lift_multiple_def Let_def h_def [symmetric] c_def [symmetric])
  show "eqm pi (lift_multiple pj pi) 0" "0 \<le> lift_multiple pj pi" "pj div 2 \<le> lift_multiple pj pi"
    "lift_multiple pj pi + pj div 2 < 2 ^ 63"
    unfolding l h_def [symmetric] using b h assms by (simp_all add: eqm_dvd)
qed

lemma try_from_moduli_ok:
  assumes "try_from_moduli ms = Ok g"
  shows "garner_ok g" "gd_moduli g = ms"
proof -
  let ?K = "length ms"
  have range: "i < ?K \<Longrightarrow> 2 \<le> ms ! i \<and> ms ! i < 2 ^ 62" for i
    using assms by (auto simp: try_from_moduli_def list_ex_iff Let_def split: if_splits)
  obtain rows where rows: "collect_results (gamma_row ms) [0..<?K] = Ok rows"
    and g: "g = \<lparr>gd_moduli = ms, gd_gamma = map (\<lambda>i. rows ! i @ replicate (?K - i) 0) [0..<?K],
        gd_gamma_shoup = map (\<lambda>i. map (\<lambda>g. shoup_quotient g (ms ! i)) (rows ! i) @ replicate (?K - i) 0) [0..<?K],
        gd_lift = map (\<lambda>i. map (\<lambda>j. lift_multiple (ms ! j) (ms ! i)) [0..<i] @ replicate (?K - i) 0) [0..<?K],
        gd_run_start = snd (snd (fold run_step (enumerate 0 ms) (0, 1, replicate ?K 0)))\<rparr>"
    using assms by (auto simp: try_from_moduli_def Let_def try_r_eq_Inr split: if_splits)
  show "gd_moduli g = ms" by (simp add: g)
  have row: "length (rows ! i) = i \<and> (\<forall>j < i. modular_inverse (ms ! j mod ms ! i) (ms ! i) = Ok (rows ! i ! j))" if "i < ?K" for i
  proof -
    have "gamma_row ms i = Ok (rows ! i)" using rows that by (auto simp: collect_results_Inr_iff list_all2_conv_all_nth)
    then show ?thesis by (auto simp: gamma_row_def collect_results_Inr_iff list_all2_conv_all_nth)
  qed
  show "garner_ok g"
    unfolding garner_ok_def Let_def
  proof (intro conjI allI impI)
    fix i j assume "i < length (gd_moduli g)" "j < i"
    then have i: "i < ?K" "j < ?K" "j < i" by (simp_all add: g)
    have ri: "length (rows ! i) = i" "modular_inverse (ms ! j mod ms ! i) (ms ! i) = Ok (rows ! i ! j)" using row [OF i(1)] i(3) by auto
    have v: "0 \<le> ms ! j mod ms ! i" "ms ! j mod ms ! i < ms ! i" using range [OF i(1)] by simp_all
    note mi = modular_inverse_ok [OF v _ ri(2)]
    have e: "gd_gamma g ! i ! j = rows ! i ! j" "gd_gamma_shoup g ! i ! j = shoup_quotient (rows ! i ! j) (ms ! i)"
        "gd_lift g ! i ! j = lift_multiple (ms ! j) (ms ! i)" "gd_moduli g = ms"
      using i ri(1) by (simp_all add: g nth_append)
    show "0 \<le> gd_gamma g ! i ! j" "gd_gamma g ! i ! j < gd_moduli g ! i" unfolding e using mi(2,3) range [OF i(1)] by auto
    have "eqm (ms ! i) (rows ! i ! j * (ms ! j mod ms ! i)) 1" using mi(1) range [OF i(1)] by auto
    moreover have "eqm (ms ! i) (rows ! i ! j * ms ! j) (rows ! i ! j * (ms ! j mod ms ! i))" by (intro eqm_mult eqm_refl) simp
    ultimately show "eqm (gd_moduli g ! i) (gd_gamma g ! i ! j * gd_moduli g ! j) 1" unfolding e by (rule eqm_trans [rotated])
    show "gd_gamma_shoup g ! i ! j = shoup_quotient (gd_gamma g ! i ! j) (gd_moduli g ! i)" by (simp add: e)
    show "eqm (gd_moduli g ! i) (gd_lift g ! i ! j) 0" "0 \<le> gd_lift g ! i ! j" "gd_moduli g ! j div 2 \<le> gd_lift g ! i ! j"
      "gd_lift g ! i ! j + gd_moduli g ! j div 2 < 2 ^ 63"
      unfolding e using lift_multiple_ok [of "ms ! i" "ms ! j"] range [OF i(1)] range [OF i(2)] by auto
  qed (use range in \<open>simp_all add: g\<close>)
qed

section \<open>Mixed-radix digits\<close>

definition radix_weight :: "int list \<Rightarrow> nat \<Rightarrow> int" where
  "radix_weight ms t = (\<Prod>k < t. ms ! k)"

definition mixed_value :: "int list \<Rightarrow> (nat \<Rightarrow> int) \<Rightarrow> nat \<Rightarrow> int" where
  "mixed_value ms d t = (\<Sum>k < t. d k * radix_weight ms k)"

lemma radix_weight_Suc [simp]: "radix_weight ms (Suc t) = radix_weight ms t * ms ! t"
  by (simp add: radix_weight_def mult.commute)

lemma mixed_value_Suc [simp]: "mixed_value ms d (Suc t) = mixed_value ms d t + d t * radix_weight ms t"
  by (simp add: mixed_value_def)

lemma lift_residue_ok:
  assumes "2 \<le> p" "p < 2 ^ 62" "\<bar>v\<bar> < p"
  shows "0 \<le> lift_residue p v" "lift_residue p v < p" "eqm p (lift_residue p v) v"
proof -
  have "lift_residue p v = v + of_bool (v < 0) * p" unfolding lift_residue_def using assms by (intro swrap_id) auto
  then show "0 \<le> lift_residue p v" "lift_residue p v < p" "eqm p (lift_residue p v) v" using assms by (auto simp: eqm_def)
qed

lemma center_digit_ok:
  assumes "2 \<le> p" "p < 2 ^ 62" "0 \<le> v" "v < p"
  shows "\<bar>center_digit p v\<bar> \<le> p div 2" "eqm p (center_digit p v) v"
proof -
  have "center_digit p v = v - of_bool (v > p div 2) * p" unfolding center_digit_def using assms by (intro swrap_id) auto
  then show "\<bar>center_digit p v\<bar> \<le> p div 2" "eqm p (center_digit p v) v" using assms by (auto simp: eqm_def)
qed

lemma garner_inner:
  assumes g: "garner_ok g" and i: "i < length (gd_moduli g)" "length limbs = length (gd_moduli g)" "\<And>k. k \<le> i \<Longrightarrow> length (limbs ! k) = D"
    and d: "\<And>k c. k < i \<Longrightarrow> c < D \<Longrightarrow> \<bar>limbs ! k ! c\<bar> \<le> gd_moduli g ! k div 2"
    and r: "\<And>c. c < D \<Longrightarrow> \<bar>limbs ! i ! c\<bar> < gd_moduli g ! i"
  defines "step \<equiv> \<lambda>(prior, prior_digits) column. map2 (garner_digit (gd_moduli g ! i) (gd_gamma g ! i ! prior)
      (gd_gamma_shoup g ! i ! prior) (gd_lift g ! i ! prior)) column prior_digits"
  shows "t \<le> i \<Longrightarrow> length (fold step (enumerate 0 (take t limbs)) (map (lift_residue (gd_moduli g ! i)) (limbs ! i))) = D \<and>
    (\<forall>c < D. let x = fold step (enumerate 0 (take t limbs)) (map (lift_residue (gd_moduli g ! i)) (limbs ! i)) ! c in
       0 \<le> x \<and> x < gd_moduli g ! i \<and>
       eqm (gd_moduli g ! i) (x * radix_weight (gd_moduli g) t) (limbs ! i ! c - mixed_value (gd_moduli g) (\<lambda>k. limbs ! k ! c) t))"
proof (induction t)
  case 0
  let ?p = "gd_moduli g ! i"
  have p: "2 \<le> ?p" "?p < 2 ^ 62" using g i(1) by (auto simp: garner_ok_def)
  show ?case using lift_residue_ok [OF p] r i(3) [of i] by (simp add: mixed_value_def radix_weight_def)
next
  case (Suc t)
  let ?p = "gd_moduli g ! i" and ?ms = "gd_moduli g"
  let ?col = "fold step (enumerate 0 (take t limbs)) (map (lift_residue ?p) (limbs ! i))"
  have p: "2 \<le> ?p" "?p < 2 ^ 62" using g i(1) by (auto simp: garner_ok_def)
  have t: "t < i" using Suc.prems by simp
  have tab: "0 \<le> gd_gamma g ! i ! t" "gd_gamma g ! i ! t < ?p" "eqm ?p (gd_gamma g ! i ! t * ?ms ! t) 1"
      "gd_gamma_shoup g ! i ! t = shoup_quotient (gd_gamma g ! i ! t) ?p" "eqm ?p (gd_lift g ! i ! t) 0" "0 \<le> gd_lift g ! i ! t"
      "?ms ! t div 2 \<le> gd_lift g ! i ! t" "gd_lift g ! i ! t + ?ms ! t div 2 < 2 ^ 63"
    using g i(1) t by (auto simp: garner_ok_def Let_def)
  have IH: "length ?col = D" "\<And>c. c < D \<Longrightarrow> 0 \<le> ?col ! c \<and> ?col ! c < ?p \<and>
      eqm ?p (?col ! c * radix_weight ?ms t) (limbs ! i ! c - mixed_value ?ms (\<lambda>k. limbs ! k ! c) t)"
    using Suc by (auto simp: Let_def)
  have tl: "t < length limbs" using t i by simp
  have e: "fold step (enumerate 0 (take (Suc t) limbs)) (map (lift_residue ?p) (limbs ! i)) = step (t, limbs ! t) ?col"
    using tl by (simp add: take_Suc_conv_app_nth enumerate_append_eq)
  have lt: "length (limbs ! t) = D" using i(3) t by simp
  have "0 \<le> step (t, limbs ! t) ?col ! c \<and> step (t, limbs ! t) ?col ! c < ?p \<and>
      eqm ?p (step (t, limbs ! t) ?col ! c * radix_weight ?ms (Suc t)) (limbs ! i ! c - mixed_value ?ms (\<lambda>k. limbs ! k ! c) (Suc t))"
    if c: "c < D" for c
  proof -
    let ?d = "limbs ! t ! c" and ?gm = "gd_gamma g ! i ! t" and ?W = "radix_weight ?ms t"
    let ?y = "garner_digit ?p ?gm (shoup_quotient ?gm ?p) (gd_lift g ! i ! t) (?col ! c) ?d"
    have dl: "\<bar>?d\<bar> \<le> gd_lift g ! i ! t" "gd_lift g ! i ! t + \<bar>?d\<bar> < 2 ^ 63" using d [OF t c] tab(7,8) by linarith+
    have y: "0 \<le> ?y" "?y < ?p" "eqm ?p ?y ((?col ! c - ?d) * ?gm)"
      using garner_digit_ok [OF p tab(1,2) _ _ tab(5,6) dl] IH(2) [OF c] by auto
    have "eqm ?p (?y * (?W * ?ms ! t)) ((?col ! c - ?d) * ?gm * (?W * ?ms ! t))" by (intro eqm_mult eqm_refl y)
    moreover have "(?col ! c - ?d) * ?gm * (?W * ?ms ! t) = (?gm * ?ms ! t) * (?col ! c * ?W - ?d * ?W)" by (simp add: algebra_simps)
    moreover have "eqm ?p ((?gm * ?ms ! t) * (?col ! c * ?W - ?d * ?W)) (1 * (limbs ! i ! c - mixed_value ?ms (\<lambda>k. limbs ! k ! c) t - ?d * ?W))"
      using IH(2) [OF c] tab(3) by (intro eqm_mult eqm_diff eqm_refl) auto
    ultimately have "eqm ?p (?y * radix_weight ?ms (Suc t)) (limbs ! i ! c - mixed_value ?ms (\<lambda>k. limbs ! k ! c) (Suc t))"
      by (simp add: eqm_def diff_diff_eq)
    then show ?thesis using y(1,2) IH(1) lt c tab(4) by (simp add: step_def)
  qed
  then show ?case using IH(1) lt by (simp add: e Let_def) (simp add: step_def)
qed

definition residue_columns :: "garner_data \<Rightarrow> nat \<Rightarrow> int list list \<Rightarrow> bool" where
  "residue_columns g D limbs \<longleftrightarrow> length limbs = length (gd_moduli g) \<and>
     (\<forall>k < length limbs. length (limbs ! k) = D \<and> (\<forall>c < D. \<bar>limbs ! k ! c\<bar> < gd_moduli g ! k))"

lemma garner_column_ok:
  assumes g: "garner_ok g" and i: "i < length (gd_moduli g)" "length limbs = length (gd_moduli g)" "\<And>k. k \<le> i \<Longrightarrow> length (limbs ! k) = D"
    and d: "\<And>k c. k < i \<Longrightarrow> c < D \<Longrightarrow> \<bar>limbs ! k ! c\<bar> \<le> gd_moduli g ! k div 2"
    and r: "\<And>c. c < D \<Longrightarrow> \<bar>limbs ! i ! c\<bar> < gd_moduli g ! i"
  shows "\<exists>col. garner_column g limbs i = limbs[i := col] \<and> length col = D \<and>
    (\<forall>c < D. \<bar>col ! c\<bar> \<le> gd_moduli g ! i div 2 \<and>
       eqm (gd_moduli g ! i) (mixed_value (gd_moduli g) (\<lambda>k. limbs ! k ! c) i + col ! c * radix_weight (gd_moduli g) i) (limbs ! i ! c))"
proof -
  let ?p = "gd_moduli g ! i" and ?ms = "gd_moduli g"
  have p: "2 \<le> ?p" "?p < 2 ^ 62" using g i(1) by (auto simp: garner_ok_def)
  obtain red where e: "garner_column g limbs i = limbs[i := map (center_digit ?p) red]" and len: "length red = D"
    and red: "\<And>c. c < D \<Longrightarrow> 0 \<le> red ! c \<and> red ! c < ?p \<and>
      eqm ?p (red ! c * radix_weight ?ms i) (limbs ! i ! c - mixed_value ?ms (\<lambda>k. limbs ! k ! c) i)"
    using garner_inner [OF g i d r le_refl] by (auto simp: garner_column_def Let_def)
  have "\<bar>map (center_digit ?p) red ! c\<bar> \<le> ?p div 2 \<and>
      eqm ?p (mixed_value ?ms (\<lambda>k. limbs ! k ! c) i + map (center_digit ?p) red ! c * radix_weight ?ms i) (limbs ! i ! c)" if c: "c < D" for c
  proof -
    note cd = center_digit_ok [OF p, of "red ! c"]
    let ?M = "mixed_value ?ms (\<lambda>k. limbs ! k ! c) i" and ?W = "radix_weight ?ms i"
    have "eqm ?p (center_digit ?p (red ! c) * ?W) (red ! c * ?W)" using cd red [OF c] by (intro eqm_mult eqm_refl) auto
    then have "eqm ?p (center_digit ?p (red ! c) * ?W) (limbs ! i ! c - ?M)" using red [OF c] by (blast intro: eqm_trans)
    from eqm_add [OF eqm_refl [of ?p ?M] this] cd red [OF c] c len show ?thesis by simp
  qed
  then show ?thesis using e len by (intro exI [of _ "map (center_digit ?p) red"]) simp
qed

lemma mixed_value_cong: "(\<And>k. k < t \<Longrightarrow> d k = e k) \<Longrightarrow> mixed_value ms d t = mixed_value ms e t"
  by (simp add: mixed_value_def)

lemma garner_columns:
  assumes g: "garner_ok g" and l: "residue_columns g D limbs"
  shows "n \<le> length (gd_moduli g) \<Longrightarrow> \<exists>L. fold (\<lambda>i l. garner_column g l i) [0..<n] limbs = L \<and> length L = length limbs \<and>
    (\<forall>k < length limbs. length (L ! k) = D \<and> (n \<le> k \<longrightarrow> L ! k = limbs ! k)) \<and>
    (\<forall>k < n. \<forall>c < D. \<bar>L ! k ! c\<bar> \<le> gd_moduli g ! k div 2 \<and>
       eqm (gd_moduli g ! k) (mixed_value (gd_moduli g) (\<lambda>j. L ! j ! c) (Suc k)) (limbs ! k ! c))"
proof (induction n)
  case 0
  then show ?case using l by (simp add: residue_columns_def)
next
  case (Suc n)
  let ?ms = "gd_moduli g"
  obtain L where L: "fold (\<lambda>i l. garner_column g l i) [0..<n] limbs = L" "length L = length limbs"
      "\<forall>k < length limbs. length (L ! k) = D \<and> (n \<le> k \<longrightarrow> L ! k = limbs ! k)"
      "\<forall>k < n. \<forall>c < D. \<bar>L ! k ! c\<bar> \<le> ?ms ! k div 2 \<and> eqm (?ms ! k) (mixed_value ?ms (\<lambda>j. L ! j ! c) (Suc k)) (limbs ! k ! c)"
    using Suc by auto
  have n: "n < length ?ms" "n < length limbs" "length L = length ?ms" using Suc.prems l L(2) by (simp_all add: residue_columns_def)
  have Ln: "L ! n = limbs ! n" using L(3) n(2) by simp
  obtain col where col: "garner_column g L n = L[n := col]" "length col = D"
      "\<And>c. c < D \<Longrightarrow> \<bar>col ! c\<bar> \<le> ?ms ! n div 2 \<and> eqm (?ms ! n) (mixed_value ?ms (\<lambda>k. L ! k ! c) n + col ! c * radix_weight ?ms n) (limbs ! n ! c)"
    using garner_column_ok [OF g n(1,3), of D] L(2,3,4) l n Ln by (auto simp: residue_columns_def)
  have old: "mixed_value ?ms (\<lambda>j. L[n := col] ! j ! c) m = mixed_value ?ms (\<lambda>j. L ! j ! c) m" if "m \<le> n" for m c
    using that by (intro mixed_value_cong) simp
  have "\<bar>L[n := col] ! k ! c\<bar> \<le> ?ms ! k div 2 \<and> eqm (?ms ! k) (mixed_value ?ms (\<lambda>j. L[n := col] ! j ! c) (Suc k)) (limbs ! k ! c)"
    if "k < Suc n" "c < D" for k c
  proof (cases "k = n")
    case True
    then show ?thesis using col(3) [OF that(2)] n L(2) old [of n c] by simp
  next
    case False
    then have "k < n" using that(1) by simp
    then show ?thesis using L(4) that(2) old [of "Suc k" c] by (simp del: mixed_value_Suc)
  qed
  moreover have "fold (\<lambda>i l. garner_column g l i) [0..<Suc n] limbs = L[n := col]" using L(1) col(1) by simp
  moreover have "\<forall>k < length limbs. length (L[n := col] ! k) = D \<and> (Suc n \<le> k \<longrightarrow> L[n := col] ! k = limbs ! k)"
  proof (intro allI impI)
    fix k assume "k < length limbs"
    then show "length (L[n := col] ! k) = D \<and> (Suc n \<le> k \<longrightarrow> L[n := col] ! k = limbs ! k)"
      using L(2,3) col(2) by (cases "k = n") simp_all
  qed
  ultimately show ?case using L(2) by auto
qed

text \<open>The integer the digits of a column denote has every residue of the column.\<close>

lemma radix_weight_dvd: "i < k \<Longrightarrow> ms ! i dvd radix_weight ms k"
  unfolding radix_weight_def by (rule dvd_prodI) auto

lemma mixed_value_residue:
  assumes "i < n"
  shows "eqm (ms ! i) (mixed_value ms d n) (mixed_value ms d (Suc i))"
  using assms
proof (induction n)
  case (Suc n)
  show ?case
  proof (cases "i = n")
    case False
    then have i: "i < n" using Suc.prems by simp
    have "eqm (ms ! i) (d n * radix_weight ms n) 0" using radix_weight_dvd [OF i] by (simp add: eqm_dvd)
    from eqm_add [OF Suc.IH [OF i] this] show ?thesis by simp
  qed simp
qed simp

lemma mixed_value_bound:
  assumes "\<And>k. k < n \<Longrightarrow> \<bar>d k\<bar> \<le> ms ! k div 2" "\<And>k. k < n \<Longrightarrow> odd (ms ! k)" "\<And>k. k < n \<Longrightarrow> 2 \<le> ms ! k"
  shows "2 * \<bar>mixed_value ms d n\<bar> < radix_weight ms n \<and> 0 < radix_weight ms n"
  using assms
proof (induction n)
  case 0
  then show ?case by (simp add: mixed_value_def radix_weight_def)
next
  case (Suc n)
  let ?M = "mixed_value ms d n" and ?W = "radix_weight ms n" and ?p = "ms ! n"
  have IH: "2 * \<bar>?M\<bar> < ?W" "0 < ?W" using Suc by auto
  have "odd ?p" "2 \<le> ?p" "\<bar>d n\<bar> \<le> ?p div 2" using Suc.prems by auto
  then have p: "2 * \<bar>d n\<bar> \<le> ?p - 1" "0 < ?p" by presburger+
  have "2 * \<bar>d n\<bar> * ?W \<le> (?p - 1) * ?W" using p(1) IH(2) by (intro mult_right_mono) auto
  moreover have "\<bar>?M + d n * ?W\<bar> \<le> \<bar>?M\<bar> + \<bar>d n\<bar> * ?W" using abs_triangle_ineq [of ?M "d n * ?W"] IH(2) by (simp add: abs_mult)
  moreover have "(?p - 1) * ?W = ?W * ?p - ?W" by (simp add: algebra_simps)
  ultimately have "2 * \<bar>?M + d n * ?W\<bar> < ?W * ?p" using IH(1) by (simp add: algebra_simps)
  then show ?case using IH(2) p(2) by simp
qed

lemma radix_weight_divides:
  assumes "\<And>i j. j < i \<Longrightarrow> i < n \<Longrightarrow> coprime (ms ! j) (ms ! i)" "\<And>i. i < n \<Longrightarrow> ms ! i dvd y"
  shows "radix_weight ms n dvd y"
  using assms
proof (induction n)
  case (Suc n)
  have "coprime (radix_weight ms n) (ms ! n)" unfolding radix_weight_def using Suc.prems(1) by (intro prod_coprime_left) auto
  moreover have "radix_weight ms n dvd y" "ms ! n dvd y" using Suc by auto
  ultimately show ?case by (simp add: divides_mult)
qed (simp add: radix_weight_def)

lemma garner_coprime:
  assumes "garner_ok g" "j < i" "i < length (gd_moduli g)"
  shows "coprime (gd_moduli g ! j) (gd_moduli g ! i)"
proof -
  have "eqm (gd_moduli g ! i) (gd_gamma g ! i ! j * gd_moduli g ! j) 1" using assms by (auto simp: garner_ok_def Let_def)
  then have d: "gd_moduli g ! i dvd gd_gamma g ! i ! j * gd_moduli g ! j - 1" by (simp add: eqm_dvd)
  show ?thesis
  proof (rule coprimeI)
    fix c assume "c dvd gd_moduli g ! j" "c dvd gd_moduli g ! i"
    then have "c dvd gd_gamma g ! i ! j * gd_moduli g ! j" "c dvd gd_gamma g ! i ! j * gd_moduli g ! j - 1"
      using d by (auto intro: dvd_trans dvd_mult)
    then have "c dvd gd_gamma g ! i ! j * gd_moduli g ! j - (gd_gamma g ! i ! j * gd_moduli g ! j - 1)" by (rule dvd_diff)
    then show "is_unit c" by simp
  qed
qed

section \<open>Field image\<close>

definition run_value :: "int list \<Rightarrow> (nat \<Rightarrow> int) \<Rightarrow> nat \<Rightarrow> nat \<Rightarrow> int" where
  "run_value ms d a b = (\<Sum>k \<in> {a..<b}. d k * (\<Prod>j \<in> {a..<k}. ms ! j))"

lemma run_value_head:
  assumes "a < b"
  shows "run_value ms d a b = run_value ms d (Suc a) b * ms ! a + d a"
proof -
  have "(\<Prod>j \<in> {a..<k}. ms ! j) = ms ! a * (\<Prod>j \<in> {Suc a..<k}. ms ! j)" if "k \<in> {Suc a..<b}" for k
    using that by (intro prod.atLeast_Suc_lessThan) auto
  then have "(\<Sum>k \<in> {Suc a..<b}. d k * (\<Prod>j \<in> {a..<k}. ms ! j)) = ms ! a * (\<Sum>k \<in> {Suc a..<b}. d k * (\<Prod>j \<in> {Suc a..<k}. ms ! j))"
    by (simp add: sum_distrib_left mult.left_commute)
  then show ?thesis using assms by (simp add: run_value_def sum.atLeast_Suc_lessThan mult.commute)
qed

lemma run_value_bound:
  assumes "a \<le> b" "\<And>k. a \<le> k \<Longrightarrow> k < b \<Longrightarrow> \<bar>d k\<bar> \<le> ms ! k div 2 \<and> 2 \<le> ms ! k"
  shows "\<bar>run_value ms d a b\<bar> < (\<Prod>j \<in> {a..<b}. ms ! j)"
  using assms
proof (induction "b - a" arbitrary: a)
  case 0
  then show ?case by (simp add: run_value_def)
next
  case (Suc n)
  let ?v = "run_value ms d (Suc a) b" and ?P = "\<Prod>j \<in> {Suc a..<b}. ms ! j" and ?m = "ms ! a"
  have a: "a < b" using Suc.hyps(2) by simp
  have "\<bar>?v\<bar> < ?P" using Suc.hyps(1) [of "Suc a"] Suc.hyps(2) Suc.prems a by auto
  then have IH: "\<bar>?v\<bar> \<le> ?P - 1" by simp
  have m: "\<bar>d a\<bar> \<le> ?m div 2" "2 \<le> ?m" using Suc.prems(2) [of a] a by auto
  have "\<bar>?v * ?m + d a\<bar> \<le> \<bar>?v\<bar> * ?m + \<bar>d a\<bar>" using abs_triangle_ineq [of "?v * ?m" "d a"] m(2) by (simp add: abs_mult)
  also have "\<dots> \<le> (?P - 1) * ?m + \<bar>d a\<bar>" using IH m(2) by (intro add_mono mult_right_mono) auto
  also have "\<dots> < ?P * ?m" using m by (simp add: algebra_simps)
  finally show ?case using a by (simp add: run_value_head prod.atLeast_Suc_lessThan mult.commute)
qed

lemma prod_moduli_le:
  fixes ms :: "int list"
  assumes "a \<le> c" "c \<le> b" "\<And>k. a \<le> k \<Longrightarrow> k < b \<Longrightarrow> 2 \<le> ms ! k"
  shows "(\<Prod>j \<in> {c..<b}. ms ! j) \<le> (\<Prod>j \<in> {a..<b}. ms ! j)"
proof -
  have "1 \<le> (\<Prod>j \<in> {a..<c}. ms ! j)" using assms by (intro prod_ge_1) force
  moreover have "0 \<le> ms ! k" if "a \<le> k" "k < b" for k using assms(3) [OF that] by simp
  then have "0 \<le> (\<Prod>j \<in> {c..<b}. ms ! j)" using assms(1) by (intro prod_nonneg) auto
  ultimately have "1 * (\<Prod>j \<in> {c..<b}. ms ! j) \<le> (\<Prod>j \<in> {a..<c}. ms ! j) * (\<Prod>j \<in> {c..<b}. ms ! j)" by (intro mult_right_mono)
  then show ?thesis using assms(1,2) by (simp add: prod.atLeastLessThan_concat)
qed

lemma horner_run_value:
  assumes "stop \<le> length (gd_moduli g)" "\<And>k. start \<le> k \<Longrightarrow> k < stop \<Longrightarrow> \<bar>digits ! k\<bar> \<le> gd_moduli g ! k div 2 \<and> 2 \<le> gd_moduli g ! k"
    and prod: "(\<Prod>j \<in> {start..<stop}. gd_moduli g ! j) < 2 ^ 126"
  shows "start \<le> a \<Longrightarrow> a \<le> stop \<Longrightarrow>
    fold (\<lambda>index value. swrap 128 (swrap 128 (value * gd_moduli g ! index) + digits ! index)) (rev [a..<stop]) 0 = run_value (gd_moduli g) (nth digits) a stop"
proof (induction "stop - a" arbitrary: a)
  case 0
  then show ?case by (simp add: run_value_def)
next
  case (Suc n)
  let ?ms = "gd_moduli g" and ?v = "run_value (gd_moduli g) (nth digits) (Suc a) stop"
  have a: "a < stop" using Suc.hyps(2) by simp
  have IH: "fold (\<lambda>index value. swrap 128 (swrap 128 (value * ?ms ! index) + digits ! index)) (rev [Suc a..<stop]) 0 = ?v"
    using Suc.hyps(1) [of "Suc a"] Suc.hyps(2) Suc.prems a by simp
  have sw: "swrap 128 x = x" if "\<bar>x\<bar> < 2 ^ 127" for x using that by (intro swrap_id) auto
  have m: "\<bar>digits ! a\<bar> \<le> ?ms ! a div 2" "2 \<le> ?ms ! a" using assms(2) [of a] Suc.prems a by auto
  have P: "(\<Prod>j \<in> {a..<stop}. ?ms ! j) < 2 ^ 126"
    using prod_moduli_le [of start a stop ?ms] Suc.prems assms(2) prod by force
  have head: "(\<Prod>j \<in> {a..<stop}. ?ms ! j) = ?ms ! a * (\<Prod>j \<in> {Suc a..<stop}. ?ms ! j)" using a by (rule prod.atLeast_Suc_lessThan)
  have b1: "\<bar>run_value ?ms (nth digits) a stop\<bar> < 2 ^ 126" using run_value_bound [of a stop "nth digits" ?ms] P Suc.prems assms(2) by force
  have "\<bar>?v\<bar> \<le> (\<Prod>j \<in> {Suc a..<stop}. ?ms ! j)" using run_value_bound [of "Suc a" stop "nth digits" ?ms] a Suc.prems assms(2) by force
  note bv = this
  have "\<bar>?v * ?ms ! a\<bar> = \<bar>?v\<bar> * ?ms ! a" using m(2) by (simp add: abs_mult)
  also have "\<dots> \<le> (\<Prod>j \<in> {Suc a..<stop}. ?ms ! j) * ?ms ! a" using bv m(2) by (intro mult_right_mono) auto
  also have "\<dots> = (\<Prod>j \<in> {a..<stop}. ?ms ! j)" unfolding head by (rule mult.commute)
  finally have b2: "\<bar>?v * ?ms ! a\<bar> < 2 ^ 126" using P by (rule le_less_trans)
  have "[a..<stop] = a # [Suc a..<stop]" using a by (rule upt_conv_Cons)
  then have "fold (\<lambda>index value. swrap 128 (swrap 128 (value * ?ms ! index) + digits ! index)) (rev [a..<stop]) 0 =
      swrap 128 (swrap 128 (?v * ?ms ! a) + digits ! a)" using IH by simp
  also have "\<dots> = run_value ?ms (nth digits) a stop"
    using b1 b2 run_value_head [OF a, of ?ms "nth digits"] by (simp add: sw)
  finally show ?case .
qed

lemma mixed_value_run: "a \<le> b \<Longrightarrow> mixed_value ms d b = mixed_value ms d a + radix_weight ms a * run_value ms d a b"
proof (induction b)
  case (Suc b)
  show ?case
  proof (cases "a = Suc b")
    case False
    then have ab: "a \<le> b" using Suc.prems by simp
    have w: "radix_weight ms a * (\<Prod>j \<in> {a..<b}. ms ! j) = radix_weight ms b"
      unfolding radix_weight_def atLeast0LessThan [symmetric] by (rule prod.atLeastLessThan_concat) (use ab in auto)
    have "run_value ms d a (Suc b) = run_value ms d a b + d b * (\<Prod>j \<in> {a..<b}. ms ! j)" using ab by (simp add: run_value_def)
    then show ?thesis using Suc.IH [OF ab] w by (simp add: distrib_left mult.left_commute)
  qed (simp add: run_value_def)
qed (simp add: run_value_def)

text \<open>Runs: each index starts a run at or before it whose product is below \<open>2\<^sup>1\<^sup>2\<^sup>6\<close>.\<close>

lemma run_starts:
  assumes "\<And>k. k < length ms \<Longrightarrow> 2 \<le> ms ! k \<and> ms ! k < 2 ^ 62"
  shows "n \<le> length ms \<Longrightarrow> \<exists>start acc rs. fold run_step (take n (enumerate 0 ms)) (0, 1, replicate (length ms) 0) = (start, acc, rs) \<and>
    start \<le> n \<and> acc = (\<Prod>j \<in> {start..<n}. ms ! j) \<and> acc < 2 ^ 126 \<and> length rs = length ms \<and>
    (\<forall>k < n. rs ! k \<le> k \<and> (\<Prod>j \<in> {rs ! k..<Suc k}. ms ! j) < 2 ^ 126)"
proof (induction n)
  case (Suc n)
  then obtain start acc rs where IH: "fold run_step (take n (enumerate 0 ms)) (0, 1, replicate (length ms) 0) = (start, acc, rs)"
      "start \<le> n" "acc = (\<Prod>j \<in> {start..<n}. ms ! j)" "acc < 2 ^ 126" "length rs = length ms"
      "\<And>k. k < n \<Longrightarrow> rs ! k \<le> k \<and> (\<Prod>j \<in> {rs ! k..<Suc k}. ms ! j) < 2 ^ 126"
    by auto
  have n: "n < length ms" using Suc.prems by simp
  have "take (Suc n) (enumerate 0 ms) = take n (enumerate 0 ms) @ [(n, ms ! n)]"
    using n by (simp add: take_Suc_conv_app_nth nth_enumerate_eq)
  then have f: "fold run_step (take (Suc n) (enumerate 0 ms)) (0, 1, replicate (length ms) 0) = run_step (n, ms ! n) (start, acc, rs)"
    using IH(1) by simp
  have rs: "(\<forall>k < Suc n. rs[n := s] ! k \<le> k \<and> (\<Prod>j \<in> {rs[n := s] ! k..<Suc k}. ms ! j) < 2 ^ 126)"
    if "s \<le> n" "(\<Prod>j \<in> {s..<Suc n}. ms ! j) < 2 ^ 126" for s
    using IH(5,6) that n by (auto simp: nth_list_update less_Suc_eq simp del: prod.op_ivl_Suc)
  show ?case
  proof (cases "acc * ms ! n < 2 ^ 126")
    case True
    then have st: "run_step (n, ms ! n) (start, acc, rs) = (start, acc * ms ! n, rs[n := start])" by (simp add: run_step_def)
    have p: "acc * ms ! n = (\<Prod>j \<in> {start..<Suc n}. ms ! j)" using IH(2,3) by simp
    then have "(\<Prod>j \<in> {start..<Suc n}. ms ! j) < 2 ^ 126" using True by simp
    from rs [OF IH(2) this] show ?thesis unfolding f st using p True IH(2,5) by (intro exI conjI) (simp_all del: prod.op_ivl_Suc)
  next
    case False
    then have st: "run_step (n, ms ! n) (start, acc, rs) = (n, ms ! n, rs[n := n])" by (simp add: run_step_def)
    have p: "ms ! n = (\<Prod>j \<in> {n..<Suc n}. ms ! j)" by simp
    have b: "ms ! n < 2 ^ 126" using assms [OF n] by simp
    then have "(\<Prod>j \<in> {n..<Suc n}. ms ! j) < 2 ^ 126" by simp
    from rs [OF le_refl this] show ?thesis unfolding f st using IH(5)
      by (intro exI [of _ n] exI [of _ "ms ! n"] exI [of _ "rs[n := n]"] conjI refl p b) simp_all
  qed
qed simp

lemma try_from_moduli_runs:
  assumes "try_from_moduli ms = Ok g" "k < length ms"
  shows "gd_run_start g ! k \<le> k" "(\<Prod>j \<in> {gd_run_start g ! k..<Suc k}. ms ! j) < 2 ^ 126"
proof -
  have "gd_run_start g = snd (snd (fold run_step (enumerate 0 ms) (0, 1, replicate (length ms) 0)))"
    using assms(1) by (auto simp: try_from_moduli_def Let_def try_r_eq_Inr split: if_splits)
  moreover have "\<And>k. k < length ms \<Longrightarrow> 2 \<le> ms ! k \<and> ms ! k < 2 ^ 62"
    using try_from_moduli_ok [OF assms(1)] by (auto simp: garner_ok_def)
  ultimately show "gd_run_start g ! k \<le> k" "(\<Prod>j \<in> {gd_run_start g ! k..<Suc k}. ms ! j) < 2 ^ 126"
    using run_starts [of ms "length ms"] assms(2) by auto
qed

lemma field_weights_eq:
  "field_weights g = (map (\<lambda>k. of_int (radix_weight (gd_moduli g) k)) [0..<length (gd_moduli g)], of_int (radix_weight (gd_moduli g) (length (gd_moduli g))))"
proof -
  have "fold (\<lambda>modulus (weights, acc). (weights @ [acc], acc * of_int modulus)) (take n (gd_moduli g)) ([], 1) =
      (map (\<lambda>k. of_int (radix_weight (gd_moduli g) k)) [0..<n], of_int (radix_weight (gd_moduli g) n))" if "n \<le> length (gd_moduli g)" for n
    using that by (induction n) (simp_all add: radix_weight_def [of _ 0] take_Suc_conv_app_nth)
  from this [of "length (gd_moduli g)"] show ?thesis by (simp add: field_weights_def)
qed

lemma field_loop_value:
  assumes ok: "try_from_moduli ms = Ok g" and d: "\<And>k. k < length ms \<Longrightarrow> \<bar>digits ! k\<bar> \<le> ms ! k div 2"
  shows "stop \<le> length ms \<Longrightarrow> field_loop g digits (fst (field_weights g)) stop acc = Some (acc + of_int (mixed_value ms (nth digits) stop))"
proof (induction stop arbitrary: acc rule: less_induct)
  case (less stop)
  note g = try_from_moduli_ok [OF ok]
  show ?case
  proof (cases "stop = 0")
    case True
    then show ?thesis by (simp add: field_loop.simps mixed_value_def)
  next
    case False
    define start where "start = gd_run_start g ! (stop - 1)"
    have k: "stop - 1 < length ms" using False less.prems by simp
    have st: "start < stop" "(\<Prod>j \<in> {start..<stop}. ms ! j) < 2 ^ 126"
      using try_from_moduli_runs [OF ok k] False by (auto simp: start_def)
    have dk: "\<bar>digits ! k\<bar> \<le> ms ! k div 2 \<and> 2 \<le> ms ! k" if "k < stop" for k
      using d [of k] g that less.prems by (auto simp: garner_ok_def)
    have h: "horner_run g digits start stop = run_value ms (nth digits) start stop"
      unfolding horner_run_def using horner_run_value [of stop g start digits start] g(2) st dk less.prems by simp
    have w: "(if start = 0 then x else x * fst (field_weights g) ! start) = of_int (radix_weight ms start) * x" for x :: 'a
      using st(1) less.prems g(2) by (auto simp: field_weights_eq radix_weight_def mult.commute)
    have "field_loop g digits (fst (field_weights g)) stop acc =
        field_loop g digits (fst (field_weights g)) start (acc + of_int (radix_weight ms start) * of_int (run_value ms (nth digits) start stop))"
      using False by (subst field_loop.simps) (simp only: Let_def start_def [symmetric] h w, simp)
    also have "\<dots> = Some (acc + of_int (mixed_value ms (nth digits) stop))"
      using less.IH [OF st(1)] less.prems st(1) by (simp add: mixed_value_run [of start stop] add.assoc)
    finally show ?thesis .
  qed
qed

section \<open>Properties\<close>

lemma centered_mixed_radix_ok:
  assumes ok: "try_from_moduli ms = Ok g" and l: "residue_columns g D limbs" and c: "c < D"
  shows "length (centered_mixed_radix g limbs) = length ms"
    "k < length ms \<Longrightarrow> \<bar>centered_mixed_radix g limbs ! k ! c\<bar> \<le> ms ! k div 2"
    "i < length ms \<Longrightarrow> eqm (ms ! i) (mixed_value ms (\<lambda>k. centered_mixed_radix g limbs ! k ! c) (length ms)) (limbs ! i ! c)"
proof -
  note g = try_from_moduli_ok [OF ok]
  have L: "length (centered_mixed_radix g limbs) = length limbs"
    "\<forall>k < length ms. \<forall>c < D. \<bar>centered_mixed_radix g limbs ! k ! c\<bar> \<le> ms ! k div 2 \<and>
       eqm (ms ! k) (mixed_value ms (\<lambda>j. centered_mixed_radix g limbs ! j ! c) (Suc k)) (limbs ! k ! c)"
    using garner_columns [OF g(1) l le_refl] g(2) by (auto simp: centered_mixed_radix_def)
  then show "length (centered_mixed_radix g limbs) = length ms" using l g(2) by (simp add: residue_columns_def)
  show "k < length ms \<Longrightarrow> \<bar>centered_mixed_radix g limbs ! k ! c\<bar> \<le> ms ! k div 2" using L(2) c by blast
  show "i < length ms \<Longrightarrow> eqm (ms ! i) (mixed_value ms (\<lambda>k. centered_mixed_radix g limbs ! k ! c) (length ms)) (limbs ! i ! c)"
    using L(2) c eqm_trans [OF mixed_value_residue, of i "length ms"] by blast
qed

text \<open>
  Garner digits: whenever the precomputation accepts the moduli, the in-place conversion turns
  every coefficient's residues into centred mixed-radix digits whose value has exactly these
  residues, for every column and every modulus, without overflow in the 64-bit Shoup steps.
\<close>

lemma garner_digits_correct:
  assumes "try_from_moduli ms = Ok g" "residue_columns g D limbs" "c < D"
  shows "(\<forall>k < length ms. \<bar>centered_mixed_radix g limbs ! k ! c\<bar> \<le> ms ! k div 2) \<and>
    (\<forall>i < length ms. (\<Sum>k < length ms. centered_mixed_radix g limbs ! k ! c * (\<Prod>j < k. ms ! j)) mod ms ! i = limbs ! i ! c mod ms ! i)"
  using centered_mixed_radix_ok [OF assms] by (auto simp: eqm_def mixed_value_def radix_weight_def)

text \<open>
  C11.  Exact reconstruction: for odd moduli and an integer \<open>x\<close> with \<open>2 |x|\<close> below their product, the
  field image computed from the digits of the residues of \<open>x\<close> is the image of \<open>x\<close>; the loop over
  the runs ends and no 128-bit run value overflows.
\<close>

theorem garner_lift_correct:
  assumes ok: "try_from_moduli ms = Ok g" and l: "residue_columns g D limbs" "c < D"
    and x: "\<forall>i < length ms. odd (ms ! i) \<and> x mod ms ! i = limbs ! i ! c mod ms ! i" "2 * \<bar>x\<bar> < (\<Prod>k < length ms. ms ! k)"
  shows "digits_to_field g (map (\<lambda>col. col ! c) (centered_mixed_radix g limbs)) (fst (field_weights g)) = Some (of_int x :: 'f::comm_ring_1)"
proof -
  let ?L = "centered_mixed_radix g limbs" and ?K = "length ms"
  note g = try_from_moduli_ok [OF ok] and cm = centered_mixed_radix_ok [OF ok l]
  let ?v = "mixed_value ms (\<lambda>k. ?L ! k ! c) ?K"
  have "ms ! i dvd ?v - x" if "i < ?K" for i
  proof -
    have "eqm (ms ! i) (limbs ! i ! c) x" using x(1) that by (simp add: eqm_def)
    from eqm_trans [OF cm(3) [OF that] this] show ?thesis by (simp add: eqm_dvd)
  qed
  moreover have "coprime (ms ! j) (ms ! i)" if "j < i" "i < ?K" for i j using garner_coprime [OF g(1) that(1)] that(2) g(2) by simp
  ultimately have dvd: "radix_weight ms ?K dvd ?v - x" by (intro radix_weight_divides)
  have "2 * \<bar>?v\<bar> < radix_weight ms ?K"
    using mixed_value_bound [of ?K "\<lambda>k. ?L ! k ! c" ms] cm(2) x(1) g by (auto simp: garner_ok_def)
  then have "\<bar>?v - x\<bar> < radix_weight ms ?K" using x(2) by (simp add: radix_weight_def)
  then have "?v - x = 0" using zdvd_not_zless [of "\<bar>?v - x\<bar>" "radix_weight ms ?K"] dvd by auto
  moreover have "mixed_value ms (nth (map (\<lambda>col. col ! c) ?L)) ?K = ?v" by (rule mixed_value_cong) (simp add: cm(1))
  ultimately show ?thesis
    using field_loop_value [OF ok, of "map (\<lambda>col. col ! c) ?L" ?K 0] cm(1,2) g(2) by (simp add: digits_to_field_def)
qed

lemma garner_sample: "\<exists>g. try_from_moduli [7, 11] = Ok g \<and> residue_columns g 1 [[4], [5]]"
proof -
  have "egcd_loop 11 7 0 1 = (1, - 3)"
    by (simp add: egcd_loop.simps [of 11] egcd_loop.simps [of 7] egcd_loop.simps [of 4] egcd_loop.simps [of 3] egcd_loop.simps [of 1] swrap_def)
  then have "gamma_row [7, 11] 0 = Ok []" "gamma_row [7, 11] 1 = Ok [8]" by (simp_all add: gamma_row_def modular_inverse_def)
  then obtain g where g: "try_from_moduli [7, 11] = Ok g" by (simp add: try_from_moduli_def Let_def)
  moreover have "gd_moduli g = [7, 11]" using try_from_moduli_ok(2) [OF g] .
  ultimately show ?thesis by (auto simp: residue_columns_def less_Suc_eq)
qed

theorem garner_lift_correct_witness:
  "\<exists>g. try_from_moduli [7, 11] = Ok g \<and>
     digits_to_field g (map (\<lambda>col. col ! 0) (centered_mixed_radix g [[4], [5]])) (fst (field_weights g)) = Some (- 17 :: int)"
proof -
  obtain g where g: "try_from_moduli [7, 11] = Ok g" "residue_columns g 1 [[4], [5]]" using garner_sample by blast
  have "digits_to_field g (map (\<lambda>col. col ! 0) (centered_mixed_radix g [[4], [5]])) (fst (field_weights g)) = Some (of_int (- 17) :: int)"
    by (rule garner_lift_correct [OF g]) (auto simp: less_Suc_eq numeral_2_eq_2)
  with g(1) show ?thesis by auto
qed

end
