(* ===== verification/Digit_Counts.thy ===== *)
theory Digit_Counts
  imports Balanced_Decomposition_Correct
begin

text \<open>
  Digit counts of the gadget decomposition
  (\<^verbatim>\<open>crates/akita-params/src/sis/decomposition_digits.rs\<close> and the decomposition parameters of
  \<^verbatim>\<open>crates/akita-params/src/config.rs\<close>): the exact and saturating reach of balanced digits, the
  digit counts for a bit bound, a field width or an exact cap, the per-role selectors and the
  matrix widths derived from them.  A failed assertion is \<open>None\<close>.
\<close>

section \<open>Reach of balanced digits\<close>

definition u128_checked_shl_one :: "nat \<Rightarrow> nat option" where
  "u128_checked_shl_one s = (if s < 128 then Some (2 ^ s) else None)"

fun digit_series_loop :: "nat option \<Rightarrow> nat \<Rightarrow> nat \<Rightarrow> nat option \<Rightarrow> nat option" where
  "digit_series_loop base 0 series power' = Some series"
| "digit_series_loop base (Suc n) series power' =
     Option.bind power' (\<lambda>term. Option.bind (checked_add_max u128_max series term) (\<lambda>series'.
       digit_series_loop base n series'
         (Option.bind power' (\<lambda>term. Option.bind base (\<lambda>b. checked_mul_max u128_max term b)))))"

definition checked_digit_series :: "nat \<Rightarrow> nat \<Rightarrow> nat option" where
  "checked_digit_series log_basis num_digits =
     (if log_basis = 0 then Some num_digits
      else digit_series_loop (u128_checked_shl_one log_basis) num_digits 0 (Some 1))"

definition checked_digit_reach :: "nat option \<Rightarrow> nat \<Rightarrow> nat \<Rightarrow> nat option" where
  "checked_digit_reach factor log_basis num_digits =
     (if factor = Some 0 \<or> num_digits = 0 then Some 0
      else Option.bind factor (\<lambda>f. Option.bind (checked_digit_series log_basis num_digits) (\<lambda>series.
        checked_mul_max u128_max f series)))"

definition balanced_digit_max :: "nat \<Rightarrow> nat \<Rightarrow> nat" where
  "balanced_digit_max log_basis num_digits =
     (let max_digit = (if log_basis = 0 then Some 0
                       else map_option (\<lambda>half_base. half_base - 1) (u128_checked_shl_one (log_basis - 1)))
      in case checked_digit_reach max_digit log_basis num_digits of None \<Rightarrow> u128_max | Some r \<Rightarrow> r)"

definition balanced_digit_abs_max :: "nat \<Rightarrow> nat \<Rightarrow> nat" where
  "balanced_digit_abs_max log_basis num_digits =
     (let max_abs_digit = (if log_basis = 0 then Some 0 else u128_checked_shl_one (log_basis - 1))
      in case checked_digit_reach max_abs_digit log_basis num_digits of None \<Rightarrow> u128_max | Some r \<Rightarrow> r)"

definition balanced_digit_representable_bounds :: "nat \<Rightarrow> nat \<Rightarrow> nat \<times> nat" where
  "balanced_digit_representable_bounds log_basis num_digits0 =
     (let num_digits = max num_digits0 1
      in (balanced_digit_abs_max log_basis num_digits, balanced_digit_max log_basis num_digits))"

definition checked_balanced_digit_representable_bounds :: "nat \<Rightarrow> nat \<Rightarrow> nat option \<times> nat option" where
  "checked_balanced_digit_representable_bounds log_basis num_digits0 =
     (if log_basis = 0 \<or> log_basis \<ge> 128 then (Some 0, Some 0)
      else let num_digits = max num_digits0 1; half_base = 2 ^ (log_basis - 1)
           in (checked_digit_reach (Some half_base) log_basis num_digits,
               checked_digit_reach (Some (half_base - 1)) log_basis num_digits))"

definition balanced_digit_interval_diameter :: "nat \<Rightarrow> nat \<Rightarrow> nat" where
  "balanced_digit_interval_diameter log_basis num_digits =
     (if log_basis = 0 then 0
      else if num_digits > u32_max then u128_max
      else case checked_mul_max u32_max log_basis num_digits of
             None \<Rightarrow> u128_max
           | Some bits \<Rightarrow> if bits < 128 then 2 ^ bits - 1 else u128_max)"

section \<open>Digit counts\<close>

definition compute_num_digits :: "nat \<Rightarrow> nat \<Rightarrow> nat option" where
  "compute_num_digits log_bound log_basis =
     (if \<not> (log_basis > 0 \<and> log_basis < 128) then None
      else if \<not> log_bound \<le> 128 then None
      else if log_bound = 0 then Some 1
      else let num_digits = ceil_div log_bound log_basis;
               required_positive = 2 ^ (log_bound - 1) - 1;
               num_digits' = (if balanced_digit_max log_basis num_digits < required_positive then num_digits + 1 else num_digits)
           in Some (max num_digits' 1))"

definition compute_num_digits_field_width :: "nat \<Rightarrow> nat \<Rightarrow> nat option" where
  "compute_num_digits_field_width field_bits log_basis =
     (if \<not> (log_basis > 0 \<and> log_basis < 128) then None
      else if field_bits = 0 then Some 1
      else Some (max (ceil_div field_bits log_basis) 1))"

definition num_digits_for_bound :: "nat \<Rightarrow> nat \<Rightarrow> nat \<Rightarrow> nat option" where
  "num_digits_for_bound log_bound field_bits log_basis =
     (if log_bound \<ge> field_bits then compute_num_digits_field_width field_bits log_basis
      else compute_num_digits log_bound log_basis)"




section \<open>Parameters and per-role selectors\<close>

record decomposition_params =
  log_basis :: nat
  log_commit_bound :: nat
  log_open_bound :: "nat option"

definition field_bits :: "decomposition_params \<Rightarrow> nat" where
  "field_bits d = (case log_open_bound d of None \<Rightarrow> log_commit_bound d | Some b \<Rightarrow> b)"

definition has_bounded_committed_source :: "decomposition_params \<Rightarrow> bool" where
  "has_bounded_committed_source d \<longleftrightarrow> log_commit_bound d < field_bits d"

definition decomposition_validate :: "decomposition_params \<Rightarrow> unit result" where
  "decomposition_validate d =
     (if log_basis d = 0 \<or> log_basis d \<ge> 128 then
        Err (InvalidSetup (''decomposition log_basis '' @ show_nat (log_basis d) @ '' is outside 1..128''))
      else let fb = field_bits d
           in if fb = 0 \<or> fb > 128 then
                Err (InvalidSetup (''decomposition field width '' @ show_nat fb @ '' is outside 1..=128''))
              else if log_commit_bound d = 0 \<or> log_commit_bound d > fb then
                Err (InvalidSetup (''committed source bound '' @ show_nat (log_commit_bound d) @ '' is outside 1..='' @ show_nat fb))
              else Ok ())"

definition num_digits_inner_for_bound :: "decomposition_params \<Rightarrow> nat \<Rightarrow> nat option" where
  "num_digits_inner_for_bound d source_log_bound = num_digits_for_bound source_log_bound (field_bits d) (log_basis d)"

definition num_digits_inner :: "decomposition_params \<Rightarrow> bool \<Rightarrow> nat option" where
  "num_digits_inner d is_root = num_digits_inner_for_bound d (if is_root then log_commit_bound d else log_basis d)"

definition num_digits_open :: "decomposition_params \<Rightarrow> nat option" where
  "num_digits_open d =
     (let fb = field_bits d; bound = (case log_open_bound d of None \<Rightarrow> log_commit_bound d | Some b \<Rightarrow> b)
      in num_digits_for_bound bound fb (log_basis d))"

definition decomposed_s_block_ring_count :: "nat \<Rightarrow> nat \<Rightarrow> nat option" where
  "decomposed_s_block_ring_count num_positions_per_block digits = checked_mul num_positions_per_block digits"

definition projected_role_ring_count :: "nat \<Rightarrow> nat \<Rightarrow> nat \<Rightarrow> nat option" where
  "projected_role_ring_count source_dimension role_dimension native_ring_count =
     (if role_dimension = 0 \<or> \<not> is_multiple_of source_dimension role_dimension then None
      else checked_mul native_ring_count (source_dimension div role_dimension))"

section \<open>Exact reach\<close>

definition ones :: "nat \<Rightarrow> nat \<Rightarrow> nat" where
  "ones g n = (\<Sum>k < n. (2 ^ g) ^ k)"

lemma ones_Suc: "ones g (Suc n) = ones g n + (2 ^ g) ^ n"
  by (simp add: ones_def)

lemma ones_pos: "0 < n \<Longrightarrow> 1 \<le> ones g n"
  by (cases n) (simp_all add: ones_Suc Suc_le_eq)

lemma ones_mono: "m \<le> n \<Longrightarrow> ones g m \<le> ones g n"
  unfolding ones_def by (intro sum_mono2) auto

lemma ones_closed: "(2 ^ g - 1) * ones g n + 1 = (2 ^ g) ^ n"
proof (induction n)
  case (Suc n)
  obtain m where "(2 :: nat) ^ g = Suc m" by (cases "(2 :: nat) ^ g") auto
  with Suc show ?case by (simp add: ones_Suc distrib_left)
qed (simp add: ones_def)

lemma digit_series_loop_eq:
  assumes "base = (if 2 ^ g \<le> u128_max then Some (2 ^ g) else None)"
  shows "power' = (if (2 ^ g) ^ i \<le> u128_max then Some ((2 ^ g) ^ i) else None) \<Longrightarrow>
    digit_series_loop base n (ones g i) power' =
      (if n = 0 \<or> ones g (i + n) \<le> u128_max then Some (ones g (i + n)) else None)"
proof (induction n arbitrary: i power')
  case (Suc n)
  show ?case
  proof (cases "ones g (Suc i) \<le> u128_max")
    case True
    then have p: "(2 ^ g) ^ i \<le> u128_max" by (simp add: ones_Suc)
    have big: "2 ^ g \<le> u128_max" if "2 ^ g * (2 ^ g) ^ i \<le> u128_max"
      using that le_trans [of "2 ^ g" "2 ^ g * (2 ^ g) ^ i"] by simp
    have next_p: "Option.bind power' (\<lambda>term. Option.bind base (\<lambda>b. checked_mul_max u128_max term b)) =
        (if (2 ^ g) ^ Suc i \<le> u128_max then Some ((2 ^ g) ^ Suc i) else None)"
      using Suc.prems p assms by (auto simp: checked_mul_max_def mult.commute dest: big)
    show ?thesis using Suc.IH [OF next_p] Suc.prems p True by (simp add: checked_add_max_def ones_Suc [symmetric] del: power_Suc)
  next
    case False
    have "ones g (Suc i) \<le> ones g (i + Suc n)" by (rule ones_mono) simp
    with False have "\<not> ones g (i + Suc n) \<le> u128_max" by linarith
    then show ?thesis using False Suc.prems by (auto simp: checked_add_max_def ones_Suc)
  qed
qed simp

lemma u128_checked_shl_one_eq: "u128_checked_shl_one s = (if 2 ^ s \<le> u128_max then Some (2 ^ s) else None)"
proof (cases "s < 128")
  case True
  then have "(2 :: nat) ^ s \<le> 2 ^ 127" by (intro power_increasing) simp_all
  then show ?thesis using True by (simp add: u128_checked_shl_one_def u128_max_def)
next
  case False
  then have "(2 :: nat) ^ 128 \<le> 2 ^ s" by (intro power_increasing) simp_all
  then show ?thesis using False by (simp add: u128_checked_shl_one_def u128_max_def)
qed

lemma checked_digit_series_eq:
  "0 < g \<Longrightarrow> 0 < n \<Longrightarrow> checked_digit_series g n = (if ones g n \<le> u128_max then Some (ones g n) else None)"
  using digit_series_loop_eq [OF u128_checked_shl_one_eq, of "Some 1" g 0 n]
  by (simp add: checked_digit_series_def ones_def u128_max_def)

lemma checked_digit_reach_eq:
  assumes "0 < g"
  shows "checked_digit_reach (Some f) g n = (if f * ones g n \<le> u128_max then Some (f * ones g n) else None)"
proof (cases "f = 0 \<or> n = 0")
  case True
  then show ?thesis by (auto simp: checked_digit_reach_def ones_def)
next
  case False
  then have "ones g n \<le> f * ones g n" by simp
  then have "ones g n \<le> u128_max" if "f * ones g n \<le> u128_max" using that by (rule le_trans)
  with False assms show ?thesis
    by (auto simp: checked_digit_reach_def checked_digit_series_eq checked_mul_max_def)
qed

definition positive_reach :: "nat \<Rightarrow> nat \<Rightarrow> nat" where
  "positive_reach g n = (2 ^ (g - 1) - 1) * ones g n"

definition negative_reach :: "nat \<Rightarrow> nat \<Rightarrow> nat" where
  "negative_reach g n = 2 ^ (g - 1) * ones g n"

lemma half_base: "0 < g \<Longrightarrow> (2 :: nat) ^ g = 2 * 2 ^ (g - 1)"
  by (simp flip: power_Suc)

lemma reach_sum: "0 < g \<Longrightarrow> positive_reach g n + negative_reach g n + 1 = (2 ^ g) ^ n"
proof -
  assume g: "0 < g"
  have "positive_reach g n + negative_reach g n = (2 ^ (g - 1) - 1 + 2 ^ (g - 1)) * ones g n"
    unfolding positive_reach_def negative_reach_def add_mult_distrib ..
  moreover have "2 ^ (g - 1) - 1 + 2 ^ (g - 1) = (2 ^ g - 1 :: nat)" using half_base [OF g] by simp
  ultimately show ?thesis using ones_closed [of g n] by simp
qed

lemma positive_le_negative: "positive_reach g n \<le> negative_reach g n"
  unfolding positive_reach_def negative_reach_def by (intro mult_le_mono1) simp

text \<open>The saturating reaches are the exact ones capped at \<^verbatim>\<open>u128::MAX\<close>.\<close>

lemma reach_of_factor:
  assumes "0 < g"
  shows "(case checked_digit_reach (Some f) g n of None \<Rightarrow> u128_max | Some r \<Rightarrow> r) = min u128_max (f * ones g n)"
  unfolding checked_digit_reach_eq [OF assms] by (simp add: min_def)

lemma reach_of_None: "0 < n \<Longrightarrow> checked_digit_reach None g n = None"
  by (simp add: checked_digit_reach_def)

lemma reach_saturates:
  assumes "\<not> (2 :: nat) ^ (g - 1) \<le> u128_max" "0 < n"
  shows "u128_max \<le> positive_reach g n"
proof -
  have "u128_max \<le> (2 ^ (g - 1) - 1) * 1" using assms(1) by linarith
  also have "\<dots> \<le> positive_reach g n" unfolding positive_reach_def using ones_pos [OF assms(2)] by (rule mult_le_mono2)
  finally show ?thesis .
qed

lemma balanced_digit_max_eq:
  assumes "0 < g"
  shows "balanced_digit_max g n = min u128_max (positive_reach g n)"
proof (cases "n = 0 \<or> (2 :: nat) ^ (g - 1) \<le> u128_max")
  case True
  then show ?thesis
  proof
    assume "n = 0"
    then show ?thesis by (simp add: balanced_digit_max_def positive_reach_def checked_digit_reach_def ones_def)
  next
    assume "(2 :: nat) ^ (g - 1) \<le> u128_max"
    then show ?thesis unfolding balanced_digit_max_def positive_reach_def u128_checked_shl_one_eq Let_def
      using assms reach_of_factor [OF assms] by simp
  qed
next
  case False
  then show ?thesis using assms reach_saturates [of g n]
    by (simp add: balanced_digit_max_def u128_checked_shl_one_eq reach_of_None)
qed

lemma balanced_digit_abs_max_eq:
  assumes "0 < g"
  shows "balanced_digit_abs_max g n = min u128_max (negative_reach g n)"
proof (cases "n = 0 \<or> (2 :: nat) ^ (g - 1) \<le> u128_max")
  case True
  then show ?thesis
  proof
    assume "n = 0"
    then show ?thesis by (simp add: balanced_digit_abs_max_def negative_reach_def checked_digit_reach_def ones_def)
  next
    assume "(2 :: nat) ^ (g - 1) \<le> u128_max"
    then show ?thesis unfolding balanced_digit_abs_max_def negative_reach_def u128_checked_shl_one_eq Let_def
      using assms reach_of_factor [OF assms] by simp
  qed
next
  case False
  then show ?thesis using assms reach_saturates [of g n] le_trans [OF _ positive_le_negative]
    by (simp add: balanced_digit_abs_max_def u128_checked_shl_one_eq reach_of_None)
qed

lemma interval_diameter_eq:
  assumes "0 < g"
  shows "balanced_digit_interval_diameter g n = min u128_max ((2 ^ g) ^ n - 1)"
proof -
  have p: "((2 :: nat) ^ g) ^ n = 2 ^ (g * n)" by (simp add: power_mult)
  show ?thesis
  proof (cases "g * n < 128")
    case True
    have "n \<le> g * n" using assms by simp
    then have "n \<le> 128" using True by linarith
    moreover have "(2 :: nat) ^ (g * n) \<le> 2 ^ 127" using True by (intro power_increasing) simp_all
    ultimately show ?thesis using True assms
      by (simp add: balanced_digit_interval_diameter_def checked_mul_max_def p u32_max_def u128_max_def min_def)
  next
    case False
    then have "(2 :: nat) ^ 128 \<le> 2 ^ (g * n)" by (intro power_increasing) simp_all
    then have "min u128_max ((2 ^ g) ^ n - 1) = u128_max" unfolding p by (simp add: u128_max_def min_def)
    then show ?thesis using False assms by (simp add: balanced_digit_interval_diameter_def checked_mul_max_def)
  qed
qed

section \<open>Minimal digit counts\<close>






section \<open>Properties\<close>

text \<open>
  The saturating digit reaches are exact up to \<^verbatim>\<open>u128::MAX\<close>: positive reach, negative reach
  and interval diameter are the closed forms of the documentation capped there, and the diameter
  is the sum of the two reaches, for every basis and depth.
\<close>

lemma digit_reach_exact:
  assumes "0 < g"
  shows "balanced_digit_max g n = min u128_max (positive_reach g n) \<and>
    balanced_digit_abs_max g n = min u128_max (negative_reach g n) \<and>
    balanced_digit_interval_diameter g n = min u128_max (positive_reach g n + negative_reach g n) \<and>
    (g < 128 \<and> 0 < n \<longrightarrow> checked_balanced_digit_representable_bounds g n =
      (if negative_reach g n \<le> u128_max then Some (negative_reach g n) else None,
       if positive_reach g n \<le> u128_max then Some (positive_reach g n) else None))"
proof -
  have "(2 ^ g) ^ n - 1 = positive_reach g n + negative_reach g n" unfolding reach_sum [OF assms, symmetric] by simp
  moreover have "max n 1 = n" if "0 < n" using that by simp
  ultimately show ?thesis using assms
    by (simp add: balanced_digit_max_eq balanced_digit_abs_max_eq interval_diameter_eq checked_balanced_digit_representable_bounds_def
        checked_digit_reach_eq positive_reach_def negative_reach_def Let_def)
qed






text \<open>
  C35.  A validated decomposition never makes a digit selector panic, and each selector returns at
  least one digit.
\<close>

theorem digit_selectors_total:
  assumes "decomposition_validate d = Ok ()"
  shows "(\<exists>n \<ge> 1. num_digits_inner d is_root = Some n) \<and> (\<exists>n \<ge> 1. num_digits_open d = Some n)"
proof -
  have v: "0 < log_basis d" "log_basis d < 128" "field_bits d \<le> 128" "1 \<le> field_bits d" "1 \<le> log_commit_bound d"
    using assms by (auto simp: decomposition_validate_def Let_def split: if_splits)
  have total: "\<exists>n \<ge> 1. num_digits_for_bound b (field_bits d) (log_basis d) = Some n" for b
    using v by (auto simp: num_digits_for_bound_def compute_num_digits_field_width_def compute_num_digits_def Let_def max_def Suc_le_eq)
  then show ?thesis by (simp add: num_digits_inner_def num_digits_inner_for_bound_def num_digits_open_def Let_def)
qed

theorem digit_selectors_total_witness:
  "\<exists>n \<ge> 1. num_digits_open \<lparr>log_basis = 3, log_commit_bound = 32, log_open_bound = Some 128\<rparr> = Some n"
  using digit_selectors_total [of "\<lparr>log_basis = 3, log_commit_bound = 32, log_open_bound = Some 128\<rparr>"]
  by (simp add: decomposition_validate_def field_bits_def)

text \<open>
  Base two is the exception to the documented coverage: its digits are \<open>-1\<close> and \<open>0\<close>, so that no
  number of them reaches a positive value, and the extra digit does not help.
\<close>

lemma base_two_not_covered: "compute_num_digits 3 1 = Some 4 \<and> balanced_digit_max 1 4 = 0"
  by (simp add: compute_num_digits_def balanced_digit_max_eq positive_reach_def ceil_div_def)

end
