(* ===== verification/Compression.thy ===== *)
theory Compression
  imports Checked_Arith
begin

text \<open>
  Compressed commitments (\<^verbatim>\<open>crates/akita-params/src/compression.rs\<close>, \<^verbatim>\<open>compression/chain.rs\<close>,
  \<^verbatim>\<open>sis/compression.rs\<close> and the modulus profiles of \<^verbatim>\<open>sis/ajtai_key/table.rs\<close>): payload modes and
  their phase, payload geometry, the two-map compression chain with its plan cache, and the
  bit-packed negative-binary digits.

  The plan cache is explicit state: a map from profile and source length to the plan set in
  its cell.  The field is the record \<open>field_ops\<close>; a panic (an index out of bounds) is
  \<open>None\<close>, an error or value \<open>Some\<close>.
\<close>

section \<open>Payload modes and phases\<close>

datatype commitment_payload_mode = Compressed | Raw

definition payload_mode_tag :: "commitment_payload_mode \<Rightarrow> nat" where
  "payload_mode_tag mode = (case mode of Compressed \<Rightarrow> 1 | Raw \<Rightarrow> 2)"

definition is_compressed :: "commitment_payload_mode \<Rightarrow> bool" where
  "is_compressed mode = (case mode of Compressed \<Rightarrow> True | Raw \<Rightarrow> False)"

datatype commitment_payload_phase = CompressedPrefix | RawSuffix

definition candidate_modes :: "commitment_payload_phase \<Rightarrow> nat \<Rightarrow> bool \<Rightarrow> commitment_payload_mode list" where
  "candidate_modes phase absolute_fold_level consumes_setup_prefix =
     (if absolute_fold_level < 2 \<or> consumes_setup_prefix then [Compressed]
      else case phase of CompressedPrefix \<Rightarrow> [Compressed, Raw] | RawSuffix \<Rightarrow> [Raw])"

definition phase_after :: "commitment_payload_phase \<Rightarrow> commitment_payload_mode \<Rightarrow> commitment_payload_phase" where
  "phase_after phase mode = (if is_compressed mode then phase else RawSuffix)"

section \<open>Modulus profiles and the SIS surface of compression\<close>

datatype sis_modulus_profile = Q32Offset99 | Q64Offset59 | Q128OffsetA7F7

definition profile_modulus :: "sis_modulus_profile \<Rightarrow> nat" where
  "profile_modulus p = (case p of
      Q32Offset99 \<Rightarrow> 4294967197
    | Q64Offset59 \<Rightarrow> 18446744073709551557
    | Q128OffsetA7F7 \<Rightarrow> 340282366920938463463374607427473266697)"

definition profile_field_bits :: "sis_modulus_profile \<Rightarrow> nat" where
  "profile_field_bits p = bit_length (profile_modulus p - 1)"

definition profile_tag :: "sis_modulus_profile \<Rightarrow> nat" where
  "profile_tag p = (case p of Q32Offset99 \<Rightarrow> 1 | Q64Offset59 \<Rightarrow> 2 | Q128OffsetA7F7 \<Rightarrow> 3)"

definition profile_from_tag :: "nat \<Rightarrow> sis_modulus_profile option" where
  "profile_from_tag tag = (if tag = 1 then Some Q32Offset99 else if tag = 2 then Some Q64Offset59
     else if tag = 3 then Some Q128OffsetA7F7 else None)"

definition profile_name :: "sis_modulus_profile \<Rightarrow> string" where
  "profile_name p = (case p of Q32Offset99 \<Rightarrow> ''Q32Offset99'' | Q64Offset59 \<Rightarrow> ''Q64Offset59''
     | Q128OffsetA7F7 \<Rightarrow> ''Q128OffsetA7F7'')"

definition matches_modulus :: "sis_modulus_profile \<Rightarrow> nat \<Rightarrow> bool" where
  "matches_modulus p modulus \<longleftrightarrow> profile_modulus p = modulus"

datatype sis_security_policy = Quantum169BitADPS16

definition COMPRESSION_SIS_COEFF_LINF_BOUND :: nat where
  "COMPRESSION_SIS_COEFF_LINF_BOUND = 1"

record compression_sis_cell =
  cell_profile :: sis_modulus_profile
  cell_ring_dimension :: nat
  sis_max_width :: nat

definition COMPRESSION_SIS_CELLS :: "(sis_modulus_profile \<times> nat \<times> nat) list" where
  "COMPRESSION_SIS_CELLS =
     [(Q128OffsetA7F7, 16, 2400), (Q128OffsetA7F7, 32, 60460), (Q64Offset59, 32, 1200),
      (Q64Offset59, 64, 30230), (Q32Offset99, 64, 600), (Q32Offset99, 128, 15115)]"

definition compression_sis_cell_lookup :: "sis_modulus_profile \<Rightarrow> nat \<Rightarrow> nat \<Rightarrow> compression_sis_cell option" where
  "compression_sis_cell_lookup modulus_profile ring_dimension coeff_linf_bound =
     (if coeff_linf_bound \<noteq> COMPRESSION_SIS_COEFF_LINF_BOUND then None
      else map_option (\<lambda>(p, d, w). \<lparr>cell_profile = p, cell_ring_dimension = d, sis_max_width = w\<rparr>)
             (find (\<lambda>(p, d, w). p = modulus_profile \<and> d = ring_dimension) COMPRESSION_SIS_CELLS))"

definition min_compression_secure_rank ::
  "sis_security_policy \<Rightarrow> sis_modulus_profile \<Rightarrow> nat \<Rightarrow> nat \<Rightarrow> nat \<Rightarrow> nat option" where
  "min_compression_secure_rank policy modulus_profile ring_dimension coeff_linf_bound width =
     (if policy \<noteq> Quantum169BitADPS16 then None
      else Option.bind (compression_sis_cell_lookup modulus_profile ring_dimension coeff_linf_bound) (\<lambda>cell.
        if width > 0 \<and> width \<le> sis_max_width cell then Some 1 else None))"

section \<open>Compression policy and ladder\<close>

definition MAX_COMPRESSION_INPUT_BYTES :: nat where
  "MAX_COMPRESSION_INPUT_BYTES = 8 * 1024"

definition COMPRESSION_TARGET_BYTES :: nat where
  "COMPRESSION_TARGET_BYTES = 256"

definition COMPRESSION_MAP_COUNT :: nat where
  "COMPRESSION_MAP_COUNT = 2"

datatype compression_policy = NegativeBinaryTwoMapExactMonotoneCutover8KiBV4

definition compression_policy_tag :: "compression_policy \<Rightarrow> nat" where
  "compression_policy_tag p = (case p of NegativeBinaryTwoMapExactMonotoneCutover8KiBV4 \<Rightarrow> 4)"

definition compression_policy_from_tag :: "nat \<Rightarrow> compression_policy option" where
  "compression_policy_from_tag tag = (if tag = 4 then Some NegativeBinaryTwoMapExactMonotoneCutover8KiBV4 else None)"

definition compression_ring_dimensions :: "sis_modulus_profile \<Rightarrow> nat list" where
  "compression_ring_dimensions profile =
     (case profile of Q128OffsetA7F7 \<Rightarrow> [32, 16] | Q64Offset59 \<Rightarrow> [64, 32] | Q32Offset99 \<Rightarrow> [128, 64])"

definition compression_source_ring_dimension_supported :: "sis_modulus_profile \<Rightarrow> nat \<Rightarrow> bool" where
  "compression_source_ring_dimension_supported profile source_ring_dimension =
     is_multiple_of source_ring_dimension (compression_ring_dimensions profile ! 0)"

definition profile_field_bytes :: "sis_modulus_profile \<Rightarrow> nat" where
  "profile_field_bytes profile = ceil_div (profile_field_bits profile) 8"

section \<open>One map\<close>

record compression_map_plan =
  cm_profile :: sis_modulus_profile
  input_coefficients :: nat
  cm_ring_dimension :: nat
  input_width :: nat
  output_rank :: nat
  output_coefficients :: nat
  real_digit_count :: nat
  padded_digit_count :: nat

definition show_ladder :: "nat list \<Rightarrow> string" where
  "show_ladder ds = ''['' @ show_nat (ds ! 0) @ '', '' @ show_nat (ds ! 1) @ '']''"

definition compression_map_new :: "sis_modulus_profile \<Rightarrow> nat \<Rightarrow> nat \<Rightarrow> nat \<Rightarrow> compression_map_plan result" where
  "compression_map_new profile input ring_dimension rank =
     (if input = 0 then Err (InvalidInput ''compression map input must be nonempty'')
      else if rank \<noteq> 1 then Err (InvalidSetup (''compression map must be rank one, got rank '' @ show_nat rank))
      else if ring_dimension \<notin> set (compression_ring_dimensions profile) then
        Err (InvalidSetup (''compression ring dimension '' @ show_nat ring_dimension @ '' is not in the '' @
          show_ladder (compression_ring_dimensions profile) @ '' ladder for '' @ profile_name profile))
      else try_r (ok_or (checked_mul input (profile_field_bits profile)) (InvalidSetup ''compression digit length overflow'')) (\<lambda>real.
           try_r (ok_or (div_ceil real ring_dimension) (InvalidSetup ''compression input width divisor is zero'')) (\<lambda>width.
           try_r (ok_or (checked_mul width ring_dimension) (InvalidSetup ''compression digit capacity overflow'')) (\<lambda>padded.
           try_r (ok_or (checked_mul rank ring_dimension) (InvalidSetup ''compression output length overflow'')) (\<lambda>output.
           try_r (if ring_dimension \<le> u32_max then Ok ring_dimension
                  else Err (InvalidSetup ''compression ring dimension overflow'')) (\<lambda>d32.
           try_r (if width \<le> u64_max then Ok width else Err (InvalidSetup ''compression width overflow'')) (\<lambda>w64.
           try_r (ok_or (min_compression_secure_rank Quantum169BitADPS16 profile d32 COMPRESSION_SIS_COEFF_LINF_BOUND w64)
                    (InvalidSetup (''no compression SIS rank for profile='' @ profile_name profile @ '' d='' @
                       show_nat ring_dimension @ '' width='' @ show_nat width))) (\<lambda>secure_rank.
           if secure_rank \<noteq> rank then
             Err (InvalidSetup (''compression map rank '' @ show_nat rank @ '' disagrees with secure rank '' @ show_nat secure_rank))
           else Ok \<lparr>cm_profile = profile, input_coefficients = input, cm_ring_dimension = ring_dimension, input_width = width,
                    output_rank = rank, output_coefficients = output, real_digit_count = real,
                    padded_digit_count = padded\<rparr>))))))))"

definition packed_digit_bytes :: "compression_map_plan \<Rightarrow> nat" where
  "packed_digit_bytes map' = ceil_div (real_digit_count map') 8"

section \<open>The chain and its cache\<close>

record compression_chain_plan =
  cp_policy :: compression_policy
  cp_profile :: sis_modulus_profile
  cp_field_bits :: nat
  cp_field_bytes :: nat
  source_coefficients :: nat
  source_bytes :: nat
  maps :: "compression_map_plan list"

fun chain_maps_loop :: "sis_modulus_profile \<Rightarrow> compression_map_plan list \<Rightarrow> nat \<Rightarrow> nat option \<Rightarrow> nat result" where
  "chain_maps_loop profile [] expected_input previous = Ok expected_input"
| "chain_maps_loop profile (m # ms) expected_input previous =
     (if cm_profile m \<noteq> profile then Err (InvalidSetup ''compression map profile disagrees with its chain'')
      else if input_coefficients m \<noteq> expected_input then
        Err (InvalidSetup ''compression map input does not continue the preceding image'')
      else if (case previous of None \<Rightarrow> False | Some d \<Rightarrow> d div 2 \<noteq> cm_ring_dimension m) then
        Err (InvalidSetup ''compression ring dimensions must halve at each map'')
      else chain_maps_loop profile ms (output_coefficients m) (Some (cm_ring_dimension m)))"

definition oversized_source :: "nat \<Rightarrow> akita_error" where
  "oversized_source bytes = InvalidInput (''compression source is '' @ show_nat bytes @ '' bytes, exceeding the '' @
     show_nat MAX_COMPRESSION_INPUT_BYTES @ ''-byte maximum'')"

definition compression_chain_new ::
  "sis_modulus_profile \<Rightarrow> nat \<Rightarrow> compression_map_plan list \<Rightarrow> compression_chain_plan result" where
  "compression_chain_new profile source ms =
     (let bits = profile_field_bits profile; bytes = profile_field_bytes profile
      in try_r (ok_or (checked_mul source bytes) (InvalidSetup ''compression source byte length overflow'')) (\<lambda>sbytes.
         if source = 0 then Err (InvalidInput ''compression source must be nonempty'')
         else if sbytes > MAX_COMPRESSION_INPUT_BYTES then Err (oversized_source sbytes)
         else try_r (chain_maps_loop profile ms source None) (\<lambda>terminal.
              try_r (ok_or (checked_mul terminal bytes) (InvalidSetup ''compression terminal byte length overflow'')) (\<lambda>tbytes.
              if tbytes \<noteq> COMPRESSION_TARGET_BYTES then
                Err (InvalidSetup (''compression terminal is '' @ show_nat tbytes @ '' bytes, expected '' @ show_nat COMPRESSION_TARGET_BYTES))
              else Ok \<lparr>cp_policy = NegativeBinaryTwoMapExactMonotoneCutover8KiBV4, cp_profile = profile, cp_field_bits = bits,
                       cp_field_bytes = bytes, source_coefficients = source, source_bytes = sbytes, maps = ms\<rparr>))))"

type_synonym plan_cache = "sis_modulus_profile \<times> nat \<Rightarrow> compression_chain_plan option"

definition complete_source_count :: "sis_modulus_profile \<Rightarrow> nat" where
  "complete_source_count profile = MAX_COMPRESSION_INPUT_BYTES div profile_field_bytes profile"

text \<open>The cell of a source length: present for \<open>1 \<dots> complete_source_count\<close>.\<close>

definition complete_source_plan_cache :: "sis_modulus_profile \<Rightarrow> nat \<Rightarrow> (sis_modulus_profile \<times> nat) option" where
  "complete_source_plan_cache profile source =
     Option.bind (checked_sub source 1) (\<lambda>index.
       if index < complete_source_count profile then Some (profile, index) else None)"

fun derive_maps ::
  "sis_modulus_profile \<Rightarrow> nat \<Rightarrow> nat \<times> compression_map_plan list \<Rightarrow> nat list \<Rightarrow> compression_chain_plan result" where
  "derive_maps profile source (input, ms) [] =
     Err (InvalidSetup (''compression ladder did not reach '' @ show_nat COMPRESSION_TARGET_BYTES @ '' bytes''))"
| "derive_maps profile source (input, ms) (d # ds) =
     (if length ms = COMPRESSION_MAP_COUNT then
        Err (InvalidSetup (''compression chain exceeded '' @ show_nat COMPRESSION_MAP_COUNT @ '' maps''))
      else try_r (compression_map_new profile input d 1) (\<lambda>m.
           try_r (ok_or (checked_mul (output_coefficients m) (profile_field_bytes profile))
                    (InvalidSetup ''compression output byte length overflow'')) (\<lambda>output_bytes.
           let ms' = ms @ [m]
           in if output_bytes = COMPRESSION_TARGET_BYTES then
                if length ms' \<noteq> 2 then
                  Err (InvalidSetup (''compression chain must contain exactly '' @ show_nat COMPRESSION_MAP_COUNT @ '' maps''))
                else compression_chain_new profile source ms'
              else if output_bytes < COMPRESSION_TARGET_BYTES then
                Err (InvalidSetup ''compression ladder undershot its terminal target'')
              else derive_maps profile source (output_coefficients m, ms') ds)))"

definition derive_complete_source ::
  "sis_modulus_profile \<Rightarrow> nat \<Rightarrow> plan_cache \<Rightarrow> compression_chain_plan option result \<times> plan_cache" where
  "derive_complete_source profile source cache =
     (case checked_mul source (profile_field_bytes profile) of
        None \<Rightarrow> (Err (InvalidSetup ''compression source byte length overflow''), cache)
      | Some sbytes \<Rightarrow>
          if source = 0 then (Err (InvalidInput ''compression source must be nonempty''), cache)
          else if sbytes > MAX_COMPRESSION_INPUT_BYTES then (Ok None, cache)
          else (case complete_source_plan_cache profile source of
                  None \<Rightarrow> (Err (InvalidSetup ''compression source cache domain mismatch''), cache)
                | Some cell \<Rightarrow>
                    (case cache cell of
                       Some plan \<Rightarrow> (Ok (Some plan), cache)
                     | None \<Rightarrow>
                         (case derive_maps profile source (source, []) (compression_ring_dimensions profile) of
                            Inl e \<Rightarrow> (Err e, cache)
                          | Inr plan \<Rightarrow> (Ok (Some plan), cache(cell \<mapsto> plan))))))"

definition try_for_complete_source ::
  "sis_modulus_profile \<Rightarrow> nat \<Rightarrow> plan_cache \<Rightarrow> compression_chain_plan option result \<times> plan_cache" where
  "try_for_complete_source = derive_complete_source"

definition u_saturating_bytes :: "sis_modulus_profile \<Rightarrow> nat \<Rightarrow> nat" where
  "u_saturating_bytes profile source = saturating_mul source (profile_field_bytes profile)"

definition for_complete_source ::
  "sis_modulus_profile \<Rightarrow> nat \<Rightarrow> plan_cache \<Rightarrow> compression_chain_plan result \<times> plan_cache" where
  "for_complete_source profile source cache =
     (case try_for_complete_source profile source cache of (r, cache') \<Rightarrow>
        (try_r r (\<lambda>p. ok_or p (oversized_source (u_saturating_bytes profile source))), cache'))"

definition image_coefficients :: "nat \<Rightarrow> nat \<Rightarrow> nat result" where
  "image_coefficients source_rows source_ring_dimension =
     ok_or (checked_mul source_rows source_ring_dimension) (InvalidSetup ''compression source shape overflow'')"

definition for_image ::
  "sis_modulus_profile \<Rightarrow> nat \<Rightarrow> nat \<Rightarrow> plan_cache \<Rightarrow> compression_chain_plan result \<times> plan_cache" where
  "for_image profile source_rows source_ring_dimension cache =
     (if \<not> compression_source_ring_dimension_supported profile source_ring_dimension then
        (Err (InvalidSetup (''compression source ring dimension '' @ show_nat source_ring_dimension @
           '' is not a multiple of the first ladder dimension '' @ show_nat (compression_ring_dimensions profile ! 0))), cache)
      else case image_coefficients source_rows source_ring_dimension of
             Inl e \<Rightarrow> (Err e, cache)
           | Inr n \<Rightarrow> for_complete_source profile n cache)"

definition try_for_image ::
  "sis_modulus_profile \<Rightarrow> nat \<Rightarrow> nat \<Rightarrow> plan_cache \<Rightarrow> compression_chain_plan option result \<times> plan_cache" where
  "try_for_image profile source_rows source_ring_dimension cache =
     (if \<not> compression_source_ring_dimension_supported profile source_ring_dimension then (Ok None, cache)
      else case image_coefficients source_rows source_ring_dimension of
             Inl e \<Rightarrow> (Err e, cache)
           | Inr n \<Rightarrow> try_for_complete_source profile n cache)"

definition terminal_coefficients :: "compression_chain_plan \<Rightarrow> nat" where
  "terminal_coefficients plan = (if maps plan = [] then 0 else output_coefficients (last (maps plan)))"

definition unpacked_witness_bytes :: "compression_chain_plan \<Rightarrow> nat result" where
  "unpacked_witness_bytes plan =
     ok_or (try_fold (\<lambda>total m. checked_add total (real_digit_count m)) 0 (maps plan))
       (InvalidSetup ''compression unpacked witness bytes overflow'')"

definition max_setup_field_elements :: "compression_chain_plan \<Rightarrow> nat result" where
  "max_setup_field_elements plan =
     ok_or (try_fold (\<lambda>maximum m. map_option (max maximum)
              (Option.bind (checked_mul (output_rank m) (input_width m)) (\<lambda>len. checked_mul len (cm_ring_dimension m)))) 0 (maps plan))
       (InvalidSetup ''compression setup envelope overflow'')"

section \<open>Payload geometry\<close>

record commitment_payload_geometry =
  pg_source_coefficients :: nat
  transmitted_coefficients :: nat
  transcript_ring_dimension :: nat

definition payload_geometry_new :: "nat \<Rightarrow> nat \<Rightarrow> compression_chain_plan option \<Rightarrow> commitment_payload_geometry result" where
  "payload_geometry_new source_rows source_ring_dimension compression_plan =
     try_r (ok_or (checked_mul source_rows source_ring_dimension) (InvalidSetup ''commitment payload shape overflow'')) (\<lambda>src.
     try_r (case compression_plan of
              None \<Rightarrow> Ok (src, source_ring_dimension)
            | Some plan \<Rightarrow>
                if source_coefficients plan \<noteq> src then
                  Err (InvalidSetup ''commitment payload source disagrees with compression plan'')
                else if \<not> compression_source_ring_dimension_supported (cp_profile plan) source_ring_dimension then
                  Err (InvalidSetup ''commitment payload ring dimension is not a multiple of the first compression map dimension'')
                else if maps plan = [] then Err (InvalidSetup ''commitment compression plan has no terminal map'')
                else Ok (terminal_coefficients plan, cm_ring_dimension (last (maps plan)))) (\<lambda>(transmitted, dimension).
     Ok \<lparr>pg_source_coefficients = src, transmitted_coefficients = transmitted, transcript_ring_dimension = dimension\<rparr>))"

definition payload_geometry_for_mode ::
  "commitment_payload_mode \<Rightarrow> sis_modulus_profile \<Rightarrow> nat \<Rightarrow> nat \<Rightarrow> plan_cache \<Rightarrow> commitment_payload_geometry result \<times> plan_cache" where
  "payload_geometry_for_mode mode profile source_rows source_ring_dimension cache =
     (if is_compressed mode then
        (case for_image profile source_rows source_ring_dimension cache of
           (Inl e, cache') \<Rightarrow> (Err e, cache')
         | (Inr plan, cache') \<Rightarrow> (payload_geometry_new source_rows source_ring_dimension (Some plan), cache'))
      else (payload_geometry_new source_rows source_ring_dimension None, cache))"

end
