(* ===== verification/Compression_Digits.thy ===== *)
theory Compression_Digits
  imports Compression
begin

text \<open>
  The bit-packed negative-binary digits of a compression map, the persistent chain witness and
  the terminal payload (second half of \<^verbatim>\<open>crates/akita-params/src/compression.rs\<close>).

  The field type is a commutative ring with the operations of \<^verbatim>\<open>CanonicalEncoding\<close> that the
  code calls, collected in \<open>field_ops\<close>: the outcome of \<^verbatim>\<open>field_modulus::<F>()\<close>,
  \<^verbatim>\<open>F::MODULUS_BITS\<close> and \<^verbatim>\<open>to_u128_checked\<close>.
\<close>

record 'f field_ops =
  fo_modulus :: "nat result"
  fo_modulus_bits :: nat
  fo_to_u128 :: "'f \<Rightarrow> nat option"

text \<open>A loop whose body may fail or panic.\<close>

fun fold_outcome :: "('s \<Rightarrow> 'a \<Rightarrow> 's result option) \<Rightarrow> 's \<Rightarrow> 'a list \<Rightarrow> 's result option" where
  "fold_outcome f s [] = Some (Ok s)"
| "fold_outcome f s (x # xs) =
     (case f s x of None \<Rightarrow> None | Some (Inl e) \<Rightarrow> Some (Inl e) | Some (Inr s') \<Rightarrow> fold_outcome f s' xs)"

section \<open>Packed digits\<close>

record packed_negative_binary =
  pn_map :: compression_map_plan
  pn_bytes :: "u8 list"

definition digit_index :: "nat \<Rightarrow> nat \<Rightarrow> nat \<Rightarrow> nat result" where
  "digit_index b len coefficient_index =
     ok_or (Option.bind (checked_mul b len) (\<lambda>base. checked_add base coefficient_index))
       (InvalidSetup ''compression digit index overflow'')"

definition pack_bit :: "nat \<Rightarrow> nat \<Rightarrow> nat \<Rightarrow> u8 list \<Rightarrow> nat \<Rightarrow> u8 list result option" where
  "pack_bit len coefficient_index magnitude bytes b =
     (if odd (magnitude div 2 ^ b) then
        (case digit_index b len coefficient_index of
           Inl e \<Rightarrow> Some (Err e)
         | Inr linear \<Rightarrow>
             if linear div 8 < length bytes
             then Some (Ok (bytes[linear div 8 := bytes ! (linear div 8) OR push_bit (linear mod 8) 1]))
             else None)
      else Some (Ok bytes))"

definition negative_magnitude :: "'f field_ops \<Rightarrow> nat \<Rightarrow> 'f \<Rightarrow> nat result" where
  "negative_magnitude fo modulus coefficient =
     try_r (ok_or (fo_to_u128 fo coefficient) (InvalidInput ''compression coefficient does not fit in u128'')) (\<lambda>canonical.
       if canonical = 0 then Ok 0
       else ok_or (checked_sub modulus canonical) (InvalidInput ''noncanonical compression coefficient''))"

definition pack_coefficient ::
  "'f field_ops \<Rightarrow> nat \<Rightarrow> nat \<Rightarrow> u8 list \<Rightarrow> nat \<times> 'f \<Rightarrow> u8 list result option" where
  "pack_coefficient fo modulus len bytes entry =
     (case entry of (coefficient_index, coefficient) \<Rightarrow>
        case negative_magnitude fo modulus coefficient of
          Inl e \<Rightarrow> Some (Err e)
        | Inr magnitude \<Rightarrow> fold_outcome (pack_bit len coefficient_index magnitude) bytes [0..<fo_modulus_bits fo])"

definition validate_bytes :: "compression_map_plan \<Rightarrow> u8 list \<Rightarrow> unit result" where
  "validate_bytes map' bytes =
     (if length bytes \<noteq> packed_digit_bytes map' then Err (InvalidSize (packed_digit_bytes map') (length bytes))
      else let used_in_last = real_digit_count map' mod 8
           in if used_in_last \<noteq> 0 \<and> bytes \<noteq> [] \<and> last bytes AND NOT (push_bit used_in_last 1 - 1) \<noteq> 0
              then Err (InvalidInput ''compression packed digits have nonzero padding bits'')
              else Ok ())"

definition packed_from_bytes :: "compression_map_plan \<Rightarrow> u8 list \<Rightarrow> packed_negative_binary result" where
  "packed_from_bytes map' bytes =
     try_r (validate_bytes map' bytes) (\<lambda>_. Ok \<lparr>pn_map = map', pn_bytes = bytes\<rparr>)"

definition from_coefficients ::
  "'f field_ops \<Rightarrow> compression_map_plan \<Rightarrow> 'f list \<Rightarrow> packed_negative_binary result option" where
  "from_coefficients fo map' coefficients =
     (if length coefficients \<noteq> input_coefficients map' then
        Some (Err (InvalidSize (input_coefficients map') (length coefficients)))
      else case fo_modulus fo of
        Inl e \<Rightarrow> Some (Err e)
      | Inr modulus \<Rightarrow>
          if \<not> matches_modulus (cm_profile map') modulus then
            Some (Err (InvalidSetup ''compression map profile does not match the field modulus''))
          else case fold_outcome (pack_coefficient fo modulus (length coefficients)) (replicate (packed_digit_bytes map') 0)
                      (enumerate 0 coefficients) of
                 None \<Rightarrow> None
               | Some (Inl e) \<Rightarrow> Some (Err e)
               | Some (Inr bytes) \<Rightarrow> Some (packed_from_bytes map' bytes))"

text \<open>\<^verbatim>\<open>bytes[linear / 8] >> (linear % 8) & 1 == 1\<close>\<close>

definition packed_bit :: "u8 list \<Rightarrow> nat \<Rightarrow> bool option" where
  "packed_bit bytes linear =
     (if linear div 8 < length bytes then Some (drop_bit (linear mod 8) (bytes ! (linear div 8)) AND 1 = 1) else None)"

definition expand_digit :: "u8 list \<Rightarrow> nat \<Rightarrow> int list list \<Rightarrow> nat \<Rightarrow> int list list option" where
  "expand_digit bytes D rows linear =
     Option.bind (packed_bit bytes linear) (\<lambda>set.
       if set then if linear div D < length rows
                   then Some (rows[linear div D := (rows ! (linear div D))[linear mod D := - 1]]) else None
       else Some rows)"

definition expand_rows :: "nat \<Rightarrow> packed_negative_binary \<Rightarrow> int list list result option" where
  "expand_rows D packed =
     (if cm_ring_dimension (pn_map packed) \<noteq> D then
        Some (Err (InvalidSetup (''compression packed digits require D='' @ show_nat (cm_ring_dimension (pn_map packed)) @
          '', got D='' @ show_nat D)))
      else map_option Ok (try_fold (expand_digit (pn_bytes packed) D)
             (replicate (input_width (pn_map packed)) (replicate D 0)) [0..<real_digit_count (pn_map packed)]))"

definition recompose_coefficient ::
  "u8 list \<Rightarrow> nat \<Rightarrow> nat \<Rightarrow> 'f::comm_ring_1 \<Rightarrow> 'f list \<Rightarrow> nat \<Rightarrow> 'f list result option" where
  "recompose_coefficient bytes output_len b power' output coefficient_index =
     (case digit_index b output_len coefficient_index of
        Inl e \<Rightarrow> Some (Err e)
      | Inr linear \<Rightarrow>
          map_option (\<lambda>set. Ok (if set then output[coefficient_index := output ! coefficient_index - power'] else output))
            (packed_bit bytes linear))"

definition recompose_bit ::
  "u8 list \<Rightarrow> nat \<Rightarrow> 'f::comm_ring_1 list \<times> 'f \<Rightarrow> nat \<Rightarrow> ('f list \<times> 'f) result option" where
  "recompose_bit bytes output_len state b =
     (case state of (output, power') \<Rightarrow>
        map_option (map_sum id (\<lambda>output'. (output', power' + power')))
          (fold_outcome (recompose_coefficient bytes output_len b power') output [0..<length output]))"

definition packed_recompose :: "'f::comm_ring_1 field_ops \<Rightarrow> packed_negative_binary \<Rightarrow> 'f list result option" where
  "packed_recompose fo packed =
     (case fo_modulus fo of
        Inl e \<Rightarrow> Some (Err e)
      | Inr modulus \<Rightarrow>
          if \<not> matches_modulus (cm_profile (pn_map packed)) modulus then
            Some (Err (InvalidSetup ''compression map profile does not match the field modulus''))
          else let n = input_coefficients (pn_map packed)
               in map_option (map_sum id fst)
                    (fold_outcome (recompose_bit (pn_bytes packed) n) (replicate n 0, 1) [0..<fo_modulus_bits fo]))"

section \<open>Chain witness and terminal payload\<close>

record compression_chain_witness =
  cw_plan :: compression_chain_plan
  cw_stages :: "packed_negative_binary list"

definition chain_witness_new ::
  "compression_chain_plan \<Rightarrow> packed_negative_binary list \<Rightarrow> compression_chain_witness result" where
  "chain_witness_new plan stages =
     (if length stages \<noteq> length (maps plan) \<or> list_ex (\<lambda>(stage, m). pn_map stage \<noteq> m) (zip stages (maps plan)) then
        Err (InvalidInput ''compression witness stages do not match the chain plan'')
      else Ok \<lparr>cw_plan = plan, cw_stages = stages\<rparr>)"

definition retained_bytes :: "compression_chain_witness \<Rightarrow> nat result" where
  "retained_bytes w =
     ok_or (try_fold (\<lambda>total stage. checked_add total (length (pn_bytes stage))) 0 (cw_stages w))
       (InvalidSetup ''compression retained witness bytes overflow'')"

record 'f compression_terminal_payload =
  tp_plan :: compression_chain_plan
  tp_coefficients :: "'f list"

definition terminal_payload_new ::
  "'f field_ops \<Rightarrow> compression_chain_plan \<Rightarrow> 'f list \<Rightarrow> 'f compression_terminal_payload result" where
  "terminal_payload_new fo plan coefficients =
     try_r (fo_modulus fo) (\<lambda>modulus.
       if \<not> matches_modulus (cp_profile plan) modulus then
         Err (InvalidSetup ''compression terminal plan does not match the field modulus'')
       else if length coefficients \<noteq> terminal_coefficients plan then
         Err (InvalidSize (terminal_coefficients plan) (length coefficients))
       else Ok \<lparr>tp_plan = plan, tp_coefficients = coefficients\<rparr>)"

end
