(* ===== verification/Compression_Correct.thy ===== *)
theory Compression_Correct
  imports Compression
begin

text \<open>
  The compression ladder reaches its 256-byte target for every admitted source, the plan cache is
  transparent, and a schedule of payload modes is a compressed prefix followed by raw levels.
\<close>

section \<open>Payload schedules\<close>

text \<open>
  A schedule from an absolute fold level on: every level selects one of the candidate modes of
  the phase, and the phase advances.  A step records whether the level consumes a setup prefix.
\<close>

inductive payload_schedule :: "commitment_payload_phase \<Rightarrow> nat \<Rightarrow> (bool \<times> commitment_payload_mode) list \<Rightarrow> bool" where
  finished: "payload_schedule phase level []"
| step: "mode \<in> set (candidate_modes phase level consumes) \<Longrightarrow>
    payload_schedule (phase_after phase mode) (Suc level) rest \<Longrightarrow>
    payload_schedule phase level ((consumes, mode) # rest)"

inductive_cases payload_scheduleE [elim!]: "payload_schedule phase level (s # rest)"

inductive_simps payload_schedule_simps: "payload_schedule phase level []" "payload_schedule phase level ((c, m) # rest)"

lemma raw_suffix_stays:
  "payload_schedule phase level steps \<Longrightarrow> phase = RawSuffix \<Longrightarrow>
    \<forall>j < length steps. 2 \<le> level + j \<and> \<not> fst (steps ! j) \<longrightarrow> snd (steps ! j) = Raw"
proof (induction rule: payload_schedule.induct)
  case (step mode phase level consumes rest)
  have "phase_after phase mode = RawSuffix" using step.prems by (simp add: phase_after_def)
  with step show ?case by (auto simp: less_Suc_eq_0_disj candidate_modes_def split: if_splits)
qed simp

lemma raw_then_raw:
  "payload_schedule phase level steps \<Longrightarrow>
    \<forall>i j. i < j \<and> j < length steps \<and> snd (steps ! i) = Raw \<and> \<not> fst (steps ! j) \<longrightarrow> snd (steps ! j) = Raw"
proof (induction rule: payload_schedule.induct)
  case (step mode phase level consumes rest)
  show ?case
  proof (intro allI impI)
    fix i j
    assume a: "i < j \<and> j < length ((consumes, mode) # rest) \<and> snd (((consumes, mode) # rest) ! i) = Raw \<and>
      \<not> fst (((consumes, mode) # rest) ! j)"
    then obtain j' where j: "j = Suc j'" by (cases j) auto
    show "snd (((consumes, mode) # rest) ! j) = Raw"
    proof (cases i)
      case 0
      with a have raw: "mode = Raw" by simp
      then have "2 \<le> level" using step.hyps(1) by (auto simp: candidate_modes_def split: if_splits)
      moreover have "phase_after phase mode = RawSuffix" by (simp add: raw phase_after_def is_compressed_def)
      ultimately show ?thesis using raw_suffix_stays [OF step.hyps(2)] a j by simp
    next
      case (Suc i')
      then show ?thesis using step.IH a j by auto
    qed
  qed
qed simp

lemma early_compressed:
  "payload_schedule phase level steps \<Longrightarrow> \<forall>j < length steps. level + j < 2 \<longrightarrow> snd (steps ! j) = Compressed"
proof (induction rule: payload_schedule.induct)
  case (step mode phase level consumes rest)
  then show ?case by (auto simp: less_Suc_eq_0_disj candidate_modes_def split: if_splits)
qed simp

section \<open>Widths of the ladder\<close>

lemma field_bits_cases: "profile_field_bits Q32Offset99 = 32" "profile_field_bits Q64Offset59 = 64"
  "profile_field_bits Q128OffsetA7F7 = 128"
  by (simp_all add: profile_field_bits_def profile_modulus_def bit_length.simps)

lemma field_bytes_cases: "profile_field_bytes Q32Offset99 = 4" "profile_field_bytes Q64Offset59 = 8"
  "profile_field_bytes Q128OffsetA7F7 = 16"
  by (simp_all add: profile_field_bytes_def field_bits_cases ceil_div_def)

text \<open>A ladder dimension times the field width is the byte budget of the map's output.\<close>

lemma field_bits_bytes: "profile_field_bits p = 8 * profile_field_bytes p" "1 \<le> profile_field_bytes p"
  by (cases p; simp add: field_bits_cases field_bytes_cases)+

definition cell_width :: "sis_modulus_profile \<Rightarrow> nat \<Rightarrow> nat" where
  "cell_width p d = (case compression_sis_cell_lookup p d 1 of None \<Rightarrow> 0 | Some c \<Rightarrow> sis_max_width c)"

lemma cell_width_cases:
  "cell_width Q128OffsetA7F7 32 = 60460" "cell_width Q128OffsetA7F7 16 = 2400"
  "cell_width Q64Offset59 64 = 30230" "cell_width Q64Offset59 32 = 1200"
  "cell_width Q32Offset99 128 = 15115" "cell_width Q32Offset99 64 = 600"
  by (simp_all add: cell_width_def compression_sis_cell_lookup_def COMPRESSION_SIS_COEFF_LINF_BOUND_def COMPRESSION_SIS_CELLS_def)

definition map_plan :: "sis_modulus_profile \<Rightarrow> nat \<Rightarrow> nat \<Rightarrow> compression_map_plan" where
  "map_plan p n d = \<lparr>cm_profile = p, input_coefficients = n, cm_ring_dimension = d,
     input_width = ceil_div (n * profile_field_bits p) d, output_rank = 1, output_coefficients = d,
     real_digit_count = n * profile_field_bits p,
     padded_digit_count = ceil_div (n * profile_field_bits p) d * d\<rparr>"

lemma map_new_eq:
  assumes d: "d \<in> set (compression_ring_dimensions p)" and n: "0 < n" "n \<le> 2048"
    and w: "ceil_div (n * profile_field_bits p) d \<le> cell_width p d"
  shows "compression_map_new p n d 1 = Ok (map_plan p n d)"
proof -
  let ?real = "n * profile_field_bits p" and ?w = "ceil_div (n * profile_field_bits p) d"
  have d0: "0 < d" "d \<le> 128" using d by (auto simp: compression_ring_dimensions_def split: sis_modulus_profile.splits)
  have fb: "1 \<le> profile_field_bits p" "profile_field_bits p \<le> 128" by (cases p; simp add: field_bits_cases)+
  have "?real \<le> 2048 * 128" using n fb by (intro mult_le_mono)
  then have real: "?real \<le> usize_max" "0 < ?real" using n fb by (simp_all add: usize_max_def)
  have pos: "0 < ?w" using real(2) ceil_div_mult_ge [OF d0(1), of ?real] by (cases ?w) auto
  have "?w * d < ?real + d" by (rule ceil_div_lt [OF d0(1)])
  then have cap: "?w * d \<le> usize_max" using \<open>?real \<le> 2048 * 128\<close> d0 by (simp add: usize_max_def)
  have "?w \<le> ?w * d" using d0 by simp
  from le_trans [OF this cap] have "?w \<le> usize_max" .
  then have wu: "?w \<le> u64_max" by (simp add: usize_max_def u64_max_def)
  have lookup: "compression_sis_cell_lookup p d 1 \<noteq> None" using w pos by (auto simp: cell_width_def split: option.splits)
  then have rank: "min_compression_secure_rank Quantum169BitADPS16 p d COMPRESSION_SIS_COEFF_LINF_BOUND ?w = Some 1"
    using w pos by (auto simp: min_compression_secure_rank_def cell_width_def COMPRESSION_SIS_COEFF_LINF_BOUND_def)
  show ?thesis
    using n(1) d d0 real cap wu rank
    by (simp add: compression_map_new_def checked_mul_if div_ceil_eq u32_max_def usize_max_def map_plan_def)
qed

definition chain_plan :: "sis_modulus_profile \<Rightarrow> nat \<Rightarrow> compression_chain_plan" where
  "chain_plan p n = (let d1 = compression_ring_dimensions p ! 0; d2 = compression_ring_dimensions p ! 1
     in \<lparr>cp_policy = NegativeBinaryTwoMapExactMonotoneCutover8KiBV4, cp_profile = p, cp_field_bits = profile_field_bits p,
         cp_field_bytes = profile_field_bytes p, source_coefficients = n, source_bytes = n * profile_field_bytes p,
         maps = [map_plan p n d1, map_plan p d1 d2]\<rparr>)"

lemma ladder_widths:
  assumes "0 < n" "n * profile_field_bytes p \<le> 8192"
  defines "d1 \<equiv> compression_ring_dimensions p ! 0" and "d2 \<equiv> compression_ring_dimensions p ! 1"
  shows "compression_map_new p n d1 1 = Ok (map_plan p n d1)" "compression_map_new p d1 d2 1 = Ok (map_plan p d1 d2)"
proof -
  have n: "n \<le> 2048" using assms(2) by (cases p) (simp_all add: field_bytes_cases)
  show "compression_map_new p n d1 1 = Ok (map_plan p n d1)"
  proof (rule map_new_eq [OF _ assms(1) n])
    show "ceil_div (n * profile_field_bits p) d1 \<le> cell_width p d1"
      using assms(2) by (cases p) (auto simp: d1_def compression_ring_dimensions_def field_bits_cases field_bytes_cases
          cell_width_cases intro!: ceil_div_least)
  qed (cases p; simp add: d1_def compression_ring_dimensions_def)
  show "compression_map_new p d1 d2 1 = Ok (map_plan p d1 d2)"
    by (rule map_new_eq; cases p; simp add: d1_def d2_def compression_ring_dimensions_def field_bits_cases cell_width_cases ceil_div_def)
qed

lemma derive_maps_eq:
  assumes "0 < n" "n * profile_field_bytes p \<le> 8192"
  shows "derive_maps p n (n, []) (compression_ring_dimensions p) = Ok (chain_plan p n)"
proof -
  let ?d1 = "compression_ring_dimensions p ! 0" and ?d2 = "compression_ring_dimensions p ! 1"
  note m = ladder_widths [OF assms]
  have ds: "compression_ring_dimensions p = [?d1, ?d2]" by (cases p) (simp_all add: compression_ring_dimensions_def)
  have b: "?d1 * profile_field_bytes p = 512" "?d2 * profile_field_bytes p = 256" "?d1 div 2 = ?d2"
    by (cases p; simp add: compression_ring_dimensions_def field_bytes_cases)+
  have "derive_maps p n (n, []) [?d1, ?d2] = compression_chain_new p n [map_plan p n ?d1, map_plan p ?d1 ?d2]"
    using m b by (simp add: COMPRESSION_MAP_COUNT_def COMPRESSION_TARGET_BYTES_def map_plan_def checked_mul_if usize_max_def)
  also have "\<dots> = Ok (chain_plan p n)"
    using assms b
    by (simp add: compression_chain_new_def Let_def checked_mul_if usize_max_def MAX_COMPRESSION_INPUT_BYTES_def
        COMPRESSION_TARGET_BYTES_def map_plan_def chain_plan_def)
  finally show ?thesis by (subst ds)
qed

section \<open>The plan cache\<close>

text \<open>Every cell that is set holds the plan the derivation would compute.\<close>

definition cache_coherent :: "plan_cache \<Rightarrow> bool" where
  "cache_coherent cache \<longleftrightarrow>
     (\<forall>p i plan. cache (p, i) = Some plan \<longrightarrow>
        derive_maps p (Suc i) (Suc i, []) (compression_ring_dimensions p) = Ok plan)"

lemma cache_cell:
  assumes "0 < n" "n * profile_field_bytes p \<le> 8192"
  shows "complete_source_plan_cache p n = Some (p, n - 1)"
proof -
  have "n \<le> 8192 div profile_field_bytes p"
    using assms(2) field_bits_bytes(2) [of p] by (simp add: less_eq_div_iff_mult_less_eq)
  then show ?thesis
    using assms(1) by (simp add: complete_source_plan_cache_def complete_source_count_def MAX_COMPRESSION_INPUT_BYTES_def checked_sub_def)
qed

text \<open>The derivation with a coherent cache: its result does not depend on the cache.\<close>

definition derived_plan :: "sis_modulus_profile \<Rightarrow> nat \<Rightarrow> compression_chain_plan option result" where
  "derived_plan p n =
     (if n * profile_field_bytes p > usize_max then Err (InvalidSetup ''compression source byte length overflow'')
      else if n = 0 then Err (InvalidInput ''compression source must be nonempty'')
      else if n * profile_field_bytes p > 8192 then Ok None
      else Ok (Some (chain_plan p n)))"

lemma derive_complete_source_eq:
  assumes "cache_coherent cache"
  shows "fst (derive_complete_source p n cache) = derived_plan p n"
    and "cache_coherent (snd (derive_complete_source p n cache))"
proof -
  let ?b = "n * profile_field_bytes p"
  consider "usize_max < ?b" | "?b \<le> usize_max" "n = 0" | "?b \<le> usize_max" "0 < n" "8192 < ?b" | "0 < n" "?b \<le> 8192"
    by linarith
  then have "fst (derive_complete_source p n cache) = derived_plan p n \<and> cache_coherent (snd (derive_complete_source p n cache))"
  proof cases
    case 4
    note plan = derive_maps_eq [OF 4]
    have u: "?b \<le> usize_max" using 4 by (simp add: usize_max_def)
    have n: "Suc (n - 1) = n" using 4 by simp
    show ?thesis
    proof (cases "cache (p, n - 1)")
      case None
      have "cache_coherent (cache((p, n - 1) \<mapsto> chain_plan p n))"
        using assms plan n unfolding cache_coherent_def by simp
      then show ?thesis using None 4 u plan cache_cell [OF 4]
        by (simp add: derive_complete_source_def checked_mul_if derived_plan_def MAX_COMPRESSION_INPUT_BYTES_def)
    next
      case (Some plan')
      then have "plan' = chain_plan p n" using assms plan n unfolding cache_coherent_def by fastforce
      then show ?thesis using Some 4 u assms cache_cell [OF 4]
        by (simp add: derive_complete_source_def checked_mul_if derived_plan_def MAX_COMPRESSION_INPUT_BYTES_def)
    qed
  qed (use assms in \<open>simp_all add: derive_complete_source_def checked_mul_if derived_plan_def MAX_COMPRESSION_INPUT_BYTES_def\<close>)
  then show "fst (derive_complete_source p n cache) = derived_plan p n"
    "cache_coherent (snd (derive_complete_source p n cache))" by blast+
qed

section \<open>Properties\<close>

text \<open>
  C36.  The compression ladder is total and exact on its domain: every nonempty source of at most
  8 KiB has a chain of two maps with the ring dimensions of its profile, the second half the first.
  The first map reads exactly the source, the second exactly the first map's image, each has the
  least number of columns that hold the binary digits of its input, and the terminal image has 256
  bytes.  For a source image of a supported ring dimension the compressed payload geometry is that of
  the terminal image, the raw one that of the source.
\<close>

theorem compression_chain_total:
  assumes "cache_coherent cache" "0 < n" "n * profile_field_bytes p \<le> MAX_COMPRESSION_INPUT_BYTES"
  shows "\<exists>plan m1 m2. fst (for_complete_source p n cache) = Ok plan \<and> maps plan = [m1, m2] \<and>
    [cm_ring_dimension m1, cm_ring_dimension m2] = compression_ring_dimensions p \<and> cm_ring_dimension m2 * 2 = cm_ring_dimension m1 \<and>
    input_coefficients m1 = n \<and> input_coefficients m2 = output_coefficients m1 \<and>
    (\<forall>m \<in> {m1, m2}. output_rank m = 1 \<and> output_coefficients m = cm_ring_dimension m \<and>
       real_digit_count m = input_coefficients m * profile_field_bits p \<and> padded_digit_count m = input_width m * cm_ring_dimension m \<and>
       real_digit_count m \<le> input_width m * cm_ring_dimension m \<and> (input_width m - 1) * cm_ring_dimension m < real_digit_count m) \<and>
    terminal_coefficients plan * profile_field_bytes p = COMPRESSION_TARGET_BYTES \<and>
    (\<forall>rows dim. rows * dim = n \<and> compression_source_ring_dimension_supported p dim \<longrightarrow>
       fst (payload_geometry_for_mode Compressed p rows dim cache) =
         Ok \<lparr>pg_source_coefficients = n, transmitted_coefficients = terminal_coefficients plan, transcript_ring_dimension = cm_ring_dimension m2\<rparr> \<and>
       fst (payload_geometry_for_mode Raw p rows dim cache) =
         Ok \<lparr>pg_source_coefficients = n, transmitted_coefficients = n, transcript_ring_dimension = dim\<rparr>)"
proof -
  let ?d1 = "compression_ring_dimensions p ! 0" and ?d2 = "compression_ring_dimensions p ! 1"
  have n: "n * profile_field_bytes p \<le> 8192" using assms(3) by (simp add: MAX_COMPRESSION_INPUT_BYTES_def)
  then have "derived_plan p n = Ok (Some (chain_plan p n))"
    using assms(2) by (simp add: derived_plan_def usize_max_def)
  then have r: "fst (for_complete_source p n cache) = Ok (chain_plan p n)"
    using derive_complete_source_eq(1) [OF assms(1), of p n]
    by (cases "derive_complete_source p n cache") (simp add: for_complete_source_def try_for_complete_source_def)
  have b: "?d2 * profile_field_bytes p = 256" "?d2 * 2 = ?d1" "0 < ?d1" "0 < ?d2" "[?d1, ?d2] = compression_ring_dimensions p"
    by (cases p; simp add: compression_ring_dimensions_def field_bytes_cases)+
  have exact: "real_digit_count m \<le> input_width m * d \<and> (input_width m - 1) * d < real_digit_count m"
    if "m = map_plan p k d" "0 < d" "0 < k" for m k d
  proof -
    have "0 < k * profile_field_bits p" using field_bits_bytes [of p] that(3) by simp
    with ceil_div_mult_ge [OF that(2), of "k * profile_field_bits p"] ceil_div_lt [OF that(2), of "k * profile_field_bits p"]
    show ?thesis using that by (cases "ceil_div (k * profile_field_bits p) d") (simp_all add: map_plan_def)
  qed
  have plan: "maps (chain_plan p n) = [map_plan p n ?d1, map_plan p ?d1 ?d2]" "terminal_coefficients (chain_plan p n) = ?d2"
    "source_coefficients (chain_plan p n) = n" "cp_profile (chain_plan p n) = p"
    by (simp_all add: chain_plan_def terminal_coefficients_def Let_def map_plan_def)
  have "n \<le> n * profile_field_bytes p" using field_bits_bytes(2) [of p] by simp
  from le_trans [OF this n] have mul: "checked_mul rows dim = Some n" if "rows * dim = n" for rows dim
    using that by (simp add: checked_mul_if usize_max_def)
  have image: "fst (for_image p rows dim cache) = Ok (chain_plan p n)"
    if "rows * dim = n" "compression_source_ring_dimension_supported p dim" for rows dim
    using that r by (simp add: for_image_def image_coefficients_def mul)
  have "fst (payload_geometry_for_mode Compressed p rows dim cache) =
      Ok \<lparr>pg_source_coefficients = n, transmitted_coefficients = ?d2, transcript_ring_dimension = ?d2\<rparr>"
    if "rows * dim = n" "compression_source_ring_dimension_supported p dim" for rows dim
    using image [OF that] that plan
    by (cases "for_image p rows dim cache")
      (simp add: payload_geometry_for_mode_def is_compressed_def payload_geometry_new_def mul map_plan_def)
  moreover have "fst (payload_geometry_for_mode Raw p rows dim cache) =
      Ok \<lparr>pg_source_coefficients = n, transmitted_coefficients = n, transcript_ring_dimension = dim\<rparr>" if "rows * dim = n" for rows dim
    using that by (simp add: payload_geometry_for_mode_def is_compressed_def payload_geometry_new_def mul)
  ultimately show ?thesis using r b plan exact [OF refl b(3) assms(2)] exact [OF refl b(4,3)]
    by (intro exI [of _ "chain_plan p n"] exI [of _ "map_plan p n ?d1"] exI [of _ "map_plan p ?d1 ?d2"])
      (auto simp: map_plan_def COMPRESSION_TARGET_BYTES_def)
qed

lemma cache_coherent_empty: "cache_coherent Map.empty"
  by (simp add: cache_coherent_def)

theorem compression_chain_total_witness:
  "\<exists>plan m1 m2. fst (for_complete_source Q128OffsetA7F7 512 Map.empty) = Ok plan \<and> maps plan = [m1, m2] \<and>
     terminal_coefficients plan = 16 \<and> input_width m1 = 2048 \<and>
     fst (payload_geometry_for_mode Compressed Q128OffsetA7F7 8 64 Map.empty) =
       Ok \<lparr>pg_source_coefficients = 512, transmitted_coefficients = 16, transcript_ring_dimension = 16\<rparr>"
proof -
  from compression_chain_total [OF cache_coherent_empty, of 512 Q128OffsetA7F7] obtain plan m1 m2 where
    r: "fst (for_complete_source Q128OffsetA7F7 512 Map.empty) = Ok plan" "maps plan = [m1, m2]"
      "[cm_ring_dimension m1, cm_ring_dimension m2] = [32, 16]" "terminal_coefficients plan * 16 = 256"
      "real_digit_count m1 = 512 * 128" "real_digit_count m1 \<le> input_width m1 * cm_ring_dimension m1"
      "(input_width m1 - 1) * cm_ring_dimension m1 < real_digit_count m1"
      "\<forall>rows dim. rows * dim = 512 \<and> compression_source_ring_dimension_supported Q128OffsetA7F7 dim \<longrightarrow>
         fst (payload_geometry_for_mode Compressed Q128OffsetA7F7 rows dim Map.empty) =
           Ok \<lparr>pg_source_coefficients = 512, transmitted_coefficients = terminal_coefficients plan, transcript_ring_dimension = cm_ring_dimension m2\<rparr>"
    by (auto simp: field_bytes_cases field_bits_cases MAX_COMPRESSION_INPUT_BYTES_def COMPRESSION_TARGET_BYTES_def compression_ring_dimensions_def)
  moreover have "compression_source_ring_dimension_supported Q128OffsetA7F7 64"
    by (simp add: compression_source_ring_dimension_supported_def compression_ring_dimensions_def is_multiple_of_dvd)
  ultimately show ?thesis by (auto dest: spec [of _ 8] spec [of _ 64])
qed

text \<open>A derivation that returns what it returns on an empty cache, keeps the cells that are set and leaves a coherent cache.\<close>

definition transparent_on :: "plan_cache \<Rightarrow> (plan_cache \<Rightarrow> 'a \<times> plan_cache) \<Rightarrow> bool" where
  "transparent_on cache f \<longleftrightarrow> fst (f cache) = fst (f Map.empty) \<and> cache \<subseteq>\<^sub>m snd (f cache) \<and> cache_coherent (snd (f cache))"

lemma derive_keeps_cells: "cache \<subseteq>\<^sub>m snd (derive_complete_source p n cache)"
  by (auto simp: derive_complete_source_def map_le_def dom_def split: option.splits sum.splits)

lemma transparent_compose:
  "transparent_on cache f \<Longrightarrow> transparent_on cache (\<lambda>c. case f c of (r, c') \<Rightarrow> (h r, c'))"
  by (simp add: transparent_on_def case_prod_unfold)

lemma transparent_constant: "cache_coherent cache \<Longrightarrow> transparent_on cache (Pair r)"
  by (simp add: transparent_on_def)

lemma transparent_derive: "cache_coherent cache \<Longrightarrow> transparent_on cache (derive_complete_source p n)"
  using derive_complete_source_eq [of cache p n] derive_complete_source_eq(1) [OF cache_coherent_empty, of p n]
  by (simp add: transparent_on_def derive_keeps_cells)

lemma transparent_for_complete: "cache_coherent cache \<Longrightarrow> transparent_on cache (for_complete_source p n)"
  using transparent_compose [OF transparent_derive, of cache _ p n]
  by (simp add: for_complete_source_def [abs_def] try_for_complete_source_def)

lemma transparent_for_image: "cache_coherent cache \<Longrightarrow> transparent_on cache (for_image p rows dim)"
  using transparent_for_complete [of cache p] by (auto simp: for_image_def transparent_on_def split: sum.splits)

lemma transparent_try_for_image: "cache_coherent cache \<Longrightarrow> transparent_on cache (try_for_image p rows dim)"
  using transparent_derive [of cache p] by (auto simp: try_for_image_def try_for_complete_source_def transparent_on_def split: sum.splits)

lemma transparent_geometry: "cache_coherent cache \<Longrightarrow> transparent_on cache (payload_geometry_for_mode mode p rows dim)"
proof (cases "is_compressed mode")
  case True
  assume "cache_coherent cache"
  from transparent_compose [OF transparent_for_image [OF this],
      of "\<lambda>r. case r of Inl e \<Rightarrow> Err e | Inr plan \<Rightarrow> payload_geometry_new rows dim (Some plan)" p rows dim]
  show ?thesis using True by (simp add: payload_geometry_for_mode_def [abs_def] transparent_on_def case_prod_unfold split: sum.splits)
next
  case False
  assume "cache_coherent cache"
  then show ?thesis using False by (simp add: payload_geometry_for_mode_def [abs_def] transparent_constant)
qed

text \<open>
  C17.  The plan cache is transparent and stays coherent: from a coherent cache every derivation, by
  source length or by image, fallible or not, and the payload geometry return what they return with an
  empty cache, keep every cell that is set, and leave a coherent cache, errors and oversized sources
  included; a plan that is returned is then in its cell.
\<close>

theorem compression_cache_invariant:
  assumes "cache_coherent cache"
  shows "transparent_on cache (derive_complete_source p n) \<and> transparent_on cache (try_for_complete_source p n) \<and>
    transparent_on cache (for_complete_source p n) \<and> transparent_on cache (try_for_image p rows dim) \<and>
    transparent_on cache (for_image p rows dim) \<and> transparent_on cache (payload_geometry_for_mode mode p rows dim) \<and>
    (\<forall>plan. fst (derive_complete_source p n cache) = Ok (Some plan) \<longrightarrow>
       map_option (snd (derive_complete_source p n cache)) (complete_source_plan_cache p n) = Some (Some plan))"
  using assms
  by (auto simp: transparent_derive transparent_for_complete transparent_for_image transparent_try_for_image transparent_geometry
      try_for_complete_source_def derive_complete_source_def split: option.splits sum.splits if_splits)

definition sample_cache :: plan_cache where
  "sample_cache = snd (derive_complete_source Q64Offset59 256 Map.empty)"

theorem compression_cache_invariant_witness:
  "\<exists>plan. sample_cache (Q64Offset59, 255) = Some plan \<and> fst (derive_complete_source Q64Offset59 256 sample_cache) = Ok (Some plan) \<and>
     transparent_on sample_cache (derive_complete_source Q64Offset59 256) \<and> transparent_on sample_cache (for_image Q64Offset59 4 64) \<and>
     transparent_on sample_cache (payload_geometry_for_mode Compressed Q64Offset59 8 64)"
proof -
  have coh: "cache_coherent sample_cache"
    unfolding sample_cache_def by (rule derive_complete_source_eq(2) [OF cache_coherent_empty])
  have plan: "fst (derive_complete_source Q64Offset59 256 Map.empty) = Ok (Some (chain_plan Q64Offset59 256))"
    using derive_complete_source_eq(1) [OF cache_coherent_empty, of Q64Offset59 256] by (simp add: derived_plan_def field_bytes_cases usize_max_def)
  have cell: "complete_source_plan_cache Q64Offset59 256 = Some (Q64Offset59, 255)"
    using cache_cell [of 256 Q64Offset59] by (simp add: field_bytes_cases)
  from compression_cache_invariant [OF cache_coherent_empty, of Q64Offset59 256] plan cell
  have "sample_cache (Q64Offset59, 255) = Some (chain_plan Q64Offset59 256)" by (simp add: sample_cache_def)
  moreover from compression_cache_invariant [OF coh, of Q64Offset59 256 4 64] compression_cache_invariant [OF coh, of Q64Offset59 256 8 64 Compressed] plan
  have "fst (derive_complete_source Q64Offset59 256 sample_cache) = Ok (Some (chain_plan Q64Offset59 256)) \<and>
     transparent_on sample_cache (derive_complete_source Q64Offset59 256) \<and> transparent_on sample_cache (for_image Q64Offset59 4 64) \<and>
     transparent_on sample_cache (payload_geometry_for_mode Compressed Q64Offset59 8 64)"
    by (simp add: transparent_on_def)
  ultimately show ?thesis by blast
qed

text \<open>
  Payload modes along a schedule: the first two levels are compressed, and once a level is
  raw every later level that does not consume a setup prefix is raw too.
\<close>

lemma payload_modes_monotone:
  assumes "payload_schedule CompressedPrefix 0 steps"
  shows "(\<forall>j < length steps. j < 2 \<longrightarrow> snd (steps ! j) = Compressed) \<and>
    (\<forall>i j. i < j \<and> j < length steps \<and> snd (steps ! i) = Raw \<and> \<not> fst (steps ! j) \<longrightarrow> snd (steps ! j) = Raw)"
  using early_compressed [OF assms] raw_then_raw [OF assms] by simp

end
