(* ===== verification/Compression_Digits_Correct.thy ===== *)
theory Compression_Digits_Correct
  imports Compression_Digits Compression_Correct "HOL-Library.Numeral_Type"
begin

text \<open>
  Packing a map input into negative-binary digits and reading it back: the packed bytes hold bit
  \<open>b\<close> of coefficient \<open>i\<close> at position \<open>b n + i\<close>, recomposition returns the coefficients, and
  the expanded rows hold the digits.
\<close>

section \<open>Loops\<close>

lemma fold_outcome_append:
  "fold_outcome f s (xs @ ys) =
     (case fold_outcome f s xs of Some (Inr s') \<Rightarrow> fold_outcome f s' ys | r \<Rightarrow> r)"
  by (induction xs arbitrary: s) (auto split: option.splits sum.splits)

lemma fold_outcome_upt:
  assumes "P 0 s" "\<And>k s. k < n \<Longrightarrow> P k s \<Longrightarrow> \<exists>s'. f s k = Some (Ok s') \<and> P (Suc k) s'"
  shows "\<exists>s'. fold_outcome f s [0..<n] = Some (Ok s') \<and> P n s'"
  using assms(2)
proof (induction n)
  case (Suc n)
  then obtain s1 where "fold_outcome f s [0..<n] = Some (Ok s1)" "P n s1" by (metis less_SucI)
  with Suc.prems [of n s1] show ?case by (auto simp: fold_outcome_append)
qed (use assms(1) in simp)

lemma fold_outcome_enumerate:
  assumes "P 0 s" "\<And>k s. k < length xs \<Longrightarrow> P k s \<Longrightarrow> \<exists>s'. f s (k, xs ! k) = Some (Ok s') \<and> P (Suc k) s'"
  shows "\<exists>s'. fold_outcome f s (enumerate 0 xs) = Some (Ok s') \<and> P (length xs) s'"
  using assms
proof (induction xs rule: rev_induct)
  case (snoc x xs)
  have "\<exists>s'. fold_outcome f s (enumerate 0 xs) = Some (Ok s') \<and> P (length xs) s'"
  proof (rule snoc.IH [OF snoc.prems(1)])
    fix k s assume "k < length xs" "P k s"
    then show "\<exists>s'. f s (k, xs ! k) = Some (Ok s') \<and> P (Suc k) s'"
      using snoc.prems(2) [of k s] by (simp add: nth_append)
  qed
  then obtain s1 where s1: "fold_outcome f s (enumerate 0 xs) = Some (Ok s1)" "P (length xs) s1" by blast
  with snoc.prems(2) [of "length xs" s1] show ?case
    by (auto simp: enumerate_append_eq fold_outcome_append)
qed simp

section \<open>Bits of a byte string\<close>

definition bit_at :: "u8 list \<Rightarrow> nat \<Rightarrow> bool" where
  "bit_at bytes l = bit (bytes ! (l div 8)) (l mod 8)"

lemma packed_bit_eq: "l < 8 * length bytes \<Longrightarrow> packed_bit bytes l = Some (bit_at bytes l)"
proof -
  assume "l < 8 * length bytes"
  then have "l div 8 < length bytes" by (simp add: div_less_iff_less_mult mult.commute)
  moreover have "(drop_bit k w AND 1 = 1) = bit w k" for k and w :: u8
    by (simp add: and_one_eq bit_iff_odd_drop_bit of_bool_def odd_iff_mod_2_eq_one)
  ultimately show ?thesis by (simp add: packed_bit_def bit_at_def)
qed

lemma bit_at_set:
  assumes "k < 8 * length bytes" "l < 8 * length bytes"
  shows "bit_at (bytes[k div 8 := bytes ! (k div 8) OR push_bit (k mod 8) 1]) l \<longleftrightarrow> l = k \<or> bit_at bytes l"
proof -
  have kl: "k div 8 < length bytes" using assms(1) by (simp add: div_less_iff_less_mult mult.commute)
  have "l = k \<longleftrightarrow> l div 8 = k div 8 \<and> l mod 8 = k mod 8" by (metis div_mult_mod_eq)
  then show ?thesis
    using kl by (cases "l div 8 = k div 8") (auto simp: bit_at_def bit_simps)
qed

section \<open>Packing\<close>

lemma digit_index_eq:
  assumes "b < m" "i < n" "n * m \<le> usize_max"
  shows "digit_index b n i = Ok (b * n + i)" "b * n + i < n * m"
proof -
  have "Suc b * n \<le> m * n" using assms(1) by (intro mult_le_mono1) simp
  then show "b * n + i < n * m" using assms(2) by (simp add: mult.commute)
  then show "digit_index b n i = Ok (b * n + i)" using assms(3) by (simp add: digit_index_def checked_mul_if checked_add_if)
qed

lemma pack_bits:
  assumes i: "i < n" and cap: "n * m \<le> usize_max" "n * m \<le> 8 * length bytes"
  shows "\<exists>bytes'. fold_outcome (pack_bit n i mag) bytes [0..<m] = Some (Ok bytes') \<and> length bytes' = length bytes \<and>
    (\<forall>l < 8 * length bytes. bit_at bytes' l \<longleftrightarrow> bit_at bytes l \<or> (\<exists>b < m. l = b * n + i \<and> odd (mag div 2 ^ b)))"
proof (rule fold_outcome_upt [where P = "\<lambda>k bytes'. length bytes' = length bytes \<and>
    (\<forall>l < 8 * length bytes. bit_at bytes' l \<longleftrightarrow> bit_at bytes l \<or> (\<exists>b < k. l = b * n + i \<and> odd (mag div 2 ^ b)))"])
  fix k s
  assume k: "k < m" and IH: "length s = length bytes \<and>
    (\<forall>l < 8 * length bytes. bit_at s l \<longleftrightarrow> bit_at bytes l \<or> (\<exists>b < k. l = b * n + i \<and> odd (mag div 2 ^ b)))"
  note d = digit_index_eq [OF k i cap(1)]
  then have in_range: "k * n + i < 8 * length s" using cap(2) IH by simp
  then have "(k * n + i) div 8 < length s" by (simp add: div_less_iff_less_mult mult.commute)
  then show "\<exists>s'. pack_bit n i mag s k = Some (Ok s') \<and> length s' = length bytes \<and>
    (\<forall>l < 8 * length bytes. bit_at s' l \<longleftrightarrow> bit_at bytes l \<or> (\<exists>b < Suc k. l = b * n + i \<and> odd (mag div 2 ^ b)))"
    using d(1) IH bit_at_set [OF in_range]
    by (cases "odd (mag div 2 ^ k)") (auto simp: pack_bit_def less_Suc_eq)
qed simp

text \<open>
  What the code relies on of the field: its modulus is reported with its bit width, every element
  has a canonical representative below it, and the modulus is zero in the field.
\<close>

definition canonical_field :: "'f::comm_ring_1 field_ops \<Rightarrow> sis_modulus_profile \<Rightarrow> bool" where
  "canonical_field fo p \<longleftrightarrow> fo_modulus fo = Ok (profile_modulus p) \<and> fo_modulus_bits fo = profile_field_bits p \<and>
     (of_nat (profile_modulus p) :: 'f) = 0 \<and>
     (\<forall>c. \<exists>v. fo_to_u128 fo c = Some v \<and> v < profile_modulus p \<and> of_nat v = c)"

text \<open>A map plan as its constructor leaves it.\<close>

lemma map_new_props:
  assumes "compression_map_new p n d 1 = Ok m"
  shows "m = map_plan p n d" "0 < n" "n * profile_field_bits p \<le> usize_max" "0 < d"
proof -
  from assms have d: "d \<in> set (compression_ring_dimensions p)" and n: "0 < n" "n * profile_field_bits p \<le> usize_max"
    by (auto simp: compression_map_new_def try_r_eq_Inr split: if_splits)
  from d show "0 < d" by (cases p) (auto simp: compression_ring_dimensions_def)
  with assms n show "m = map_plan p n d"
    by (auto simp: compression_map_new_def try_r_eq_Inr map_plan_def div_ceil_eq split: if_splits)
  from n show "0 < n" "n * profile_field_bits p \<le> usize_max" .
qed

definition magnitude_of :: "'f field_ops \<Rightarrow> nat \<Rightarrow> 'f \<Rightarrow> nat" where
  "magnitude_of fo q c = (let v = the (fo_to_u128 fo c) in if v = 0 then 0 else q - v)"

lemma negative_magnitude_eq:
  assumes "canonical_field fo p"
  shows "negative_magnitude fo (profile_modulus p) c = Ok (magnitude_of fo (profile_modulus p) c)"
    and "magnitude_of fo (profile_modulus p) c < 2 ^ profile_field_bits p"
    and "- of_nat (magnitude_of fo (profile_modulus p) c) = c"
proof -
  from assms obtain v where v: "fo_to_u128 fo c = Some v" "v < profile_modulus p" "of_nat v = c"
    and q: "(of_nat (profile_modulus p) :: 'a) = 0" by (auto simp: canonical_field_def)
  show "negative_magnitude fo (profile_modulus p) c = Ok (magnitude_of fo (profile_modulus p) c)"
    using v by (simp add: negative_magnitude_def magnitude_of_def)
  have "profile_modulus p - 1 < 2 ^ profile_field_bits p" unfolding profile_field_bits_def by (rule less_bit_length)
  then show "magnitude_of fo (profile_modulus p) c < 2 ^ profile_field_bits p" using v by (auto simp: magnitude_of_def Let_def)
  show "- of_nat (magnitude_of fo (profile_modulus p) c) = c"
    using v q by (auto simp: magnitude_of_def Let_def of_nat_diff)
qed

lemma pack_all:
  assumes f: "canonical_field fo p" and n: "length coeffs = n" and cap: "n * profile_field_bits p \<le> usize_max"
  defines "m \<equiv> profile_field_bits p"
  shows "\<exists>bytes. fold_outcome (pack_coefficient fo (profile_modulus p) n) (replicate (ceil_div (n * m) 8) 0) (enumerate 0 coeffs) =
      Some (Ok bytes) \<and> length bytes = ceil_div (n * m) 8 \<and>
    (\<forall>l < 8 * length bytes. bit_at bytes l \<longleftrightarrow>
       (\<exists>i < n. \<exists>b < m. l = b * n + i \<and> odd (magnitude_of fo (profile_modulus p) (coeffs ! i) div 2 ^ b)))"
  unfolding n [symmetric]
proof (rule fold_outcome_enumerate [where P = "\<lambda>k bytes. length bytes = ceil_div (length coeffs * m) 8 \<and>
    (\<forall>l < 8 * length bytes. bit_at bytes l \<longleftrightarrow>
       (\<exists>i < k. \<exists>b < m. l = b * length coeffs + i \<and> odd (magnitude_of fo (profile_modulus p) (coeffs ! i) div 2 ^ b)))"])
  show "length (replicate (ceil_div (length coeffs * m) 8) 0) = ceil_div (length coeffs * m) 8 \<and>
    (\<forall>l < 8 * length (replicate (ceil_div (length coeffs * m) 8) (0 :: u8)). bit_at (replicate (ceil_div (length coeffs * m) 8) 0) l \<longleftrightarrow>
       (\<exists>i < 0. \<exists>b < m. l = b * length coeffs + i \<and> odd (magnitude_of fo (profile_modulus p) (coeffs ! i) div 2 ^ b)))"
    by (auto simp: bit_at_def nth_replicate div_less_iff_less_mult mult.commute)
next
  fix k s
  assume k: "k < length coeffs" and IH: "length s = ceil_div (length coeffs * m) 8 \<and>
    (\<forall>l < 8 * length s. bit_at s l \<longleftrightarrow>
       (\<exists>i < k. \<exists>b < m. l = b * length coeffs + i \<and> odd (magnitude_of fo (profile_modulus p) (coeffs ! i) div 2 ^ b)))"
  have c8: "length coeffs * m \<le> 8 * length s" using IH ceil_div_mult_ge [of 8 "length coeffs * m"] by (simp add: mult.commute)
  have bits: "fo_modulus_bits fo = m" using f by (simp add: canonical_field_def m_def)
  obtain s' where s': "fold_outcome (pack_bit (length coeffs) k (magnitude_of fo (profile_modulus p) (coeffs ! k))) s [0..<m] = Some (Ok s')"
    "length s' = length s" "\<forall>l < 8 * length s. bit_at s' l \<longleftrightarrow> bit_at s l \<or>
      (\<exists>b < m. l = b * length coeffs + k \<and> odd (magnitude_of fo (profile_modulus p) (coeffs ! k) div 2 ^ b))"
    using pack_bits [OF k _ c8, of "magnitude_of fo (profile_modulus p) (coeffs ! k)"] cap n unfolding m_def by blast
  then show "\<exists>s'. pack_coefficient fo (profile_modulus p) (length coeffs) s (k, coeffs ! k) = Some (Ok s') \<and>
    length s' = ceil_div (length coeffs * m) 8 \<and> (\<forall>l < 8 * length s'. bit_at s' l \<longleftrightarrow>
       (\<exists>i < Suc k. \<exists>b < m. l = b * length coeffs + i \<and> odd (magnitude_of fo (profile_modulus p) (coeffs ! i) div 2 ^ b)))"
    using IH bits negative_magnitude_eq(1) [OF f, of "coeffs ! k"] by (auto simp: pack_coefficient_def less_Suc_eq)
qed

text \<open>The positions of two digits differ unless coefficient and bit agree.\<close>

lemma position_unique: "i < n \<Longrightarrow> j < n \<Longrightarrow> b * n + i = c * n + j \<longleftrightarrow> b = c \<and> i = (j :: nat)"
proof
  assume n: "i < n" "j < n" and eq: "b * n + i = c * n + j"
  have "(b * n + i) div n = b" "(c * n + j) div n = c" using n by simp_all
  with eq show "b = c \<and> i = j" by auto
qed simp

lemma packed_from_bytes_ok:
  assumes len: "length bytes = packed_digit_bytes m" and zero: "\<And>l. l < 8 * length bytes \<Longrightarrow> bit_at bytes l \<Longrightarrow> l < real_digit_count m"
  shows "packed_from_bytes m bytes = Ok \<lparr>pn_map = m, pn_bytes = bytes\<rparr>"
proof -
  let ?u = "real_digit_count m mod 8" and ?r = "real_digit_count m"
  have "last bytes AND NOT (push_bit ?u 1 - 1) = 0" if u: "?u \<noteq> 0" and ne: "bytes \<noteq> []"
  proof (rule bit_eqI)
    fix i assume i: "possible_bit TYPE(u8) i"
    have L: "length bytes = Suc (?r div 8)" using len u by (simp add: packed_digit_bytes_def ceil_div_def)
    have "bit (last bytes) i \<longrightarrow> i < ?u"
    proof
      assume b: "bit (last bytes) i"
      have i8: "i < 8" using i by (simp add: possible_bit_word)
      have "bit_at bytes (8 * (?r div 8) + i)" using b i8 ne L by (simp add: bit_at_def last_conv_nth)
      then have "8 * (?r div 8) + i < ?r" using zero [of "8 * (?r div 8) + i"] i8 L by simp
      then show "i < ?u" using mult_div_mod_eq [of 8 ?r] by linarith
    qed
    then show "bit (last bytes AND NOT (push_bit ?u 1 - 1)) i = bit 0 i"
      by (auto simp: bit_simps push_bit_of_1 mask_eq_decr_exp [symmetric] bit_mask_iff)
  qed
  then show ?thesis using len by (auto simp: packed_from_bytes_def validate_bytes_def Let_def)
qed

section \<open>Recomposition\<close>

lemma binary_expansion: "(\<Sum>b < m. of_bool (odd (v div 2 ^ b)) * 2 ^ b) = v mod (2 :: nat) ^ m"
proof (induction m)
  case (Suc m)
  have "v mod 2 ^ Suc m = 2 ^ m * (v div 2 ^ m mod 2) + v mod 2 ^ m" 
    using mod_mult2_eq [of v "2 ^ m" 2] by (simp add: mult.commute)
  then show ?case using Suc by (simp add: mod_2_eq_odd)
qed simp

lemma recompose_inner:
  assumes n: "length out = n" and b: "b < m" and cap: "n * m \<le> usize_max" "n * m \<le> 8 * length bytes"
  shows "\<exists>out'. fold_outcome (recompose_coefficient bytes n b pw) out [0..<n] = Some (Ok out') \<and> length out' = n \<and>
    (\<forall>i < n. out' ! i = out ! i - of_bool (bit_at bytes (b * n + i)) * pw)"
proof -
  have "\<exists>out'. fold_outcome (recompose_coefficient bytes n b pw) out [0..<n] = Some (Ok out') \<and> length out' = n \<and>
    (\<forall>i < n. out' ! i = (if i < n then out ! i - of_bool (bit_at bytes (b * n + i)) * pw else out ! i))"
  proof (rule fold_outcome_upt [where P = "\<lambda>k out'. length out' = n \<and>
      (\<forall>i < n. out' ! i = (if i < k then out ! i - of_bool (bit_at bytes (b * n + i)) * pw else out ! i))"])
    fix k s
    assume k: "k < n" and IH: "length s = n \<and> (\<forall>i < n. s ! i = (if i < k then out ! i - of_bool (bit_at bytes (b * n + i)) * pw else out ! i))"
    note d = digit_index_eq [OF b k cap(1)]
    then have "packed_bit bytes (b * n + k) = Some (bit_at bytes (b * n + k))" using cap(2) by (intro packed_bit_eq) simp
    then show "\<exists>s'. recompose_coefficient bytes n b pw s k = Some (Ok s') \<and> length s' = n \<and>
      (\<forall>i < n. s' ! i = (if i < Suc k then out ! i - of_bool (bit_at bytes (b * n + i)) * pw else out ! i))"
      using d(1) IH k by (auto simp: recompose_coefficient_def nth_list_update less_Suc_eq)
  qed (use n in simp)
  then show ?thesis by simp
qed

lemma recompose_bits:
  assumes cap: "n * m \<le> usize_max" "n * m \<le> 8 * length bytes"
  shows "\<exists>out. fold_outcome (recompose_bit bytes n) (replicate n 0, 1 :: 'f::comm_ring_1) [0..<m] = Some (Ok (out, 2 ^ m)) \<and> length out = n \<and>
    (\<forall>i < n. out ! i = - (\<Sum>b < m. of_bool (bit_at bytes (b * n + i)) * 2 ^ b))"
proof -
  have "\<exists>s. fold_outcome (recompose_bit bytes n) (replicate n 0, 1 :: 'f) [0..<m] = Some (Ok s) \<and> snd s = 2 ^ m \<and> length (fst s) = n \<and>
    (\<forall>i < n. fst s ! i = - (\<Sum>b < m. of_bool (bit_at bytes (b * n + i)) * 2 ^ b))"
  proof (rule fold_outcome_upt [where P = "\<lambda>k s. snd s = 2 ^ k \<and> length (fst s) = n \<and>
      (\<forall>i < n. fst s ! i = - (\<Sum>b < k. of_bool (bit_at bytes (b * n + i)) * 2 ^ b))"])
    fix k and s :: "'f list \<times> 'f"
    assume k: "k < m" and IH: "snd s = 2 ^ k \<and> length (fst s) = n \<and>
      (\<forall>i < n. fst s ! i = - (\<Sum>b < k. of_bool (bit_at bytes (b * n + i)) * 2 ^ b))"
    obtain out pw where s: "s = (out, pw)" by (cases s)
    from recompose_inner [OF _ k cap, of out pw] IH s obtain out' where
      "fold_outcome (recompose_coefficient bytes n k pw) out [0..<n] = Some (Ok out')" "length out' = n"
      "\<forall>i < n. out' ! i = out ! i - of_bool (bit_at bytes (k * n + i)) * pw" by auto
    then show "\<exists>s'. recompose_bit bytes n s k = Some (Ok s') \<and> snd s' = 2 ^ Suc k \<and> length (fst s') = n \<and>
      (\<forall>i < n. fst s' ! i = - (\<Sum>b < Suc k. of_bool (bit_at bytes (b * n + i)) * 2 ^ b))"
      using IH s by (auto simp: recompose_bit_def)
  qed simp
  then obtain s where "fold_outcome (recompose_bit bytes n) (replicate n 0, 1 :: 'f) [0..<m] = Some (Ok s)" "snd s = 2 ^ m"
    "length (fst s) = n" "\<forall>i < n. fst s ! i = - (\<Sum>b < m. of_bool (bit_at bytes (b * n + i)) * 2 ^ b)" by blast
  then show ?thesis by (cases s) simp
qed

section \<open>Expanded rows\<close>

lemma expand_rows_loop:
  assumes D: "0 < D" and k: "k \<le> W * D" "k \<le> 8 * length bytes"
  shows "\<exists>rows. try_fold (expand_digit bytes D) (replicate W (replicate D 0)) [0..<k] = Some rows \<and> length rows = W \<and>
    (\<forall>r < W. length (rows ! r) = D \<and> (\<forall>c < D. rows ! r ! c = (if r * D + c < k \<and> bit_at bytes (r * D + c) then - 1 else 0)))"
  using k
proof (induction k)
  case (Suc k)
  then obtain rows where IH: "try_fold (expand_digit bytes D) (replicate W (replicate D 0)) [0..<k] = Some rows" "length rows = W"
    "\<And>r. r < W \<Longrightarrow> length (rows ! r) = D"
    "\<And>r c. r < W \<Longrightarrow> c < D \<Longrightarrow> rows ! r ! c = (if r * D + c < k \<and> bit_at bytes (r * D + c) then - 1 else 0)" by auto
  have b: "packed_bit bytes k = Some (bit_at bytes k)" using Suc.prems by (intro packed_bit_eq) simp
  have kd: "k div D < W" using Suc.prems(1) D by (simp add: div_less_iff_less_mult)
  have pos: "r * D + c = k \<longleftrightarrow> r = k div D \<and> c = k mod D" if "c < D" for r c using that D by auto
  have lt: "r * D + c < Suc k \<longleftrightarrow> r * D + c < k \<or> r = k div D \<and> c = k mod D" if "c < D" for r c
    using pos [OF that, of r] by linarith
  let ?rows = "if bit_at bytes k then rows[k div D := (rows ! (k div D))[k mod D := - 1]] else rows"
  have "expand_digit bytes D rows k = Some ?rows" using b kd IH(2) by (simp add: expand_digit_def)
  then have run: "try_fold (expand_digit bytes D) (replicate W (replicate D 0)) [0..<Suc k] = Some ?rows"
    using IH(1) by (simp add: try_fold_append)
  have "length ?rows = W" using IH(2) by simp
  moreover have "length (?rows ! r) = D" if "r < W" for r using that IH(2,3) kd by (simp add: nth_list_update)
  moreover have "?rows ! r ! c = (if r * D + c < Suc k \<and> bit_at bytes (r * D + c) then - 1 else 0)" if "r < W" "c < D" for r c
    unfolding lt [OF that(2)] using that IH kd pos [OF that(2), of r] by (cases "r = k div D"; cases "c = k mod D") auto
  ultimately show ?case using run by auto
qed simp

section \<open>Properties\<close>

text \<open>
  C16.  Negative-binary packing round trip: the coefficients of a map input pack, with canonical
  padding and without a panic, into bytes that recompose to exactly these coefficients, and the
  expanded ring rows are \<open>input_width\<close> rows of \<open>d\<close> digits in \<open>{-1, 0}\<close> whose binary combination is every
  coefficient and whose padding past the real digits is zero.
\<close>

theorem packed_negative_binary_roundtrip:
  fixes coeffs :: "'f::comm_ring_1 list"
  assumes "canonical_field fo p" "compression_map_new p n d 1 = Ok m" "length coeffs = n"
  shows "\<exists>packed rows. from_coefficients fo m coeffs = Some (Ok packed) \<and> packed_recompose fo packed = Some (Ok coeffs) \<and>
    expand_rows d packed = Some (Ok rows) \<and>
    length rows = input_width m \<and> (\<forall>row \<in> set rows. length row = d \<and> set row \<subseteq> {- 1, 0}) \<and>
    (\<forall>l. real_digit_count m \<le> l \<and> l < padded_digit_count m \<longrightarrow> rows ! (l div d) ! (l mod d) = 0) \<and>
    (\<forall>i < n. coeffs ! i = (\<Sum>b < profile_field_bits p. of_int (rows ! ((b * n + i) div d) ! ((b * n + i) mod d)) * 2 ^ b))"
proof -
  let ?m = "profile_field_bits p" and ?mag = "\<lambda>i. magnitude_of fo (profile_modulus p) (coeffs ! i)"
  note mp = map_new_props [OF assms(2)]
  have m: "real_digit_count m = n * ?m" "cm_profile m = p" "input_coefficients m = n" "cm_ring_dimension m = d"
    "input_width m = ceil_div (n * ?m) d" "padded_digit_count m = ceil_div (n * ?m) d * d" "packed_digit_bytes m = ceil_div (n * ?m) 8"
    by (simp_all add: mp(1) map_plan_def packed_digit_bytes_def)
  obtain bytes where b: "fold_outcome (pack_coefficient fo (profile_modulus p) n) (replicate (ceil_div (n * ?m) 8) 0) (enumerate 0 coeffs) =
      Some (Ok bytes)" "length bytes = ceil_div (n * ?m) 8"
    "\<And>l. l < 8 * length bytes \<Longrightarrow> bit_at bytes l \<longleftrightarrow> (\<exists>i < n. \<exists>b < ?m. l = b * n + i \<and> odd (?mag i div 2 ^ b))"
    using pack_all [OF assms(1,3) mp(3)] by auto
  have cap: "n * ?m \<le> 8 * length bytes" using b(2) ceil_div_mult_ge [of 8 "n * ?m"] by (simp add: mult.commute)
  have bit: "bit_at bytes (c * n + i) = odd (?mag i div 2 ^ c)" if "c < ?m" "i < n" for c i
    using b(3) [of "c * n + i"] digit_index_eq(2) [OF that mp(3)] cap that by (auto simp: position_unique)
  have "packed_from_bytes m bytes = Ok \<lparr>pn_map = m, pn_bytes = bytes\<rparr>"
    using b m digit_index_eq(2) [OF _ _ mp(3)] by (intro packed_from_bytes_ok) auto
  then have fc: "from_coefficients fo m coeffs = Some (Ok \<lparr>pn_map = m, pn_bytes = bytes\<rparr>)"
    using assms b(1) m by (simp add: from_coefficients_def canonical_field_def matches_modulus_def)
  have val: "- (\<Sum>c < ?m. of_bool (bit_at bytes (c * n + i)) * 2 ^ c) = coeffs ! i" if i: "i < n" for i
  proof -
    have "(\<Sum>c < ?m. of_bool (bit_at bytes (c * n + i)) * 2 ^ c) = (of_nat (\<Sum>c < ?m. of_bool (odd (?mag i div 2 ^ c)) * 2 ^ c) :: 'f)"
      using bit i by simp
    also have "\<dots> = of_nat (?mag i)" using negative_magnitude_eq(2) [OF assms(1), of "coeffs ! i"] by (simp add: binary_expansion)
    finally show ?thesis using negative_magnitude_eq(3) [OF assms(1), of "coeffs ! i"] by simp
  qed
  obtain out where out: "fold_outcome (recompose_bit bytes n) (replicate n 0, 1 :: 'f) [0..<?m] = Some (Ok (out, 2 ^ ?m))"
    "length out = n" "\<forall>i < n. out ! i = - (\<Sum>c < ?m. of_bool (bit_at bytes (c * n + i)) * 2 ^ c)"
    using recompose_bits [OF mp(3) cap] by blast
  have "out = coeffs" using out(2,3) val assms(3) by (intro nth_equalityI) auto
  then have re: "packed_recompose fo \<lparr>pn_map = m, pn_bytes = bytes\<rparr> = Some (Ok coeffs)"
    using assms(1) out(1) m by (simp add: packed_recompose_def canonical_field_def matches_modulus_def Let_def)
  have W: "n * ?m \<le> ceil_div (n * ?m) d * d" by (rule ceil_div_mult_ge [OF mp(4)])
  obtain rows where rows: "try_fold (expand_digit bytes d) (replicate (ceil_div (n * ?m) d) (replicate d 0)) [0..<n * ?m] = Some rows"
    "length rows = ceil_div (n * ?m) d" "\<And>r. r < ceil_div (n * ?m) d \<Longrightarrow> length (rows ! r) = d"
    "\<And>r c. r < ceil_div (n * ?m) d \<Longrightarrow> c < d \<Longrightarrow> rows ! r ! c = (if r * d + c < n * ?m \<and> bit_at bytes (r * d + c) then - 1 else 0)"
    using expand_rows_loop [OF mp(4) W cap] by blast
  have at: "rows ! (l div d) ! (l mod d) = (if l < n * ?m \<and> bit_at bytes l then - 1 else 0)" if "l < ceil_div (n * ?m) d * d" for l
  proof -
    have "l div d < ceil_div (n * ?m) d" using that mp(4) by (simp add: div_less_iff_less_mult)
    then show ?thesis using rows(4) [of "l div d" "l mod d"] mp(4) by simp
  qed
  have digits: "length row = d \<and> set row \<subseteq> {- 1, 0}" if "row \<in> set rows" for row
  proof -
    from that obtain r where r: "r < ceil_div (n * ?m) d" "row = rows ! r" using rows(2) by (auto simp: in_set_conv_nth)
    then show ?thesis using rows(3) [OF r(1)] rows(4) [OF r(1)] by (auto simp: in_set_conv_nth split: if_splits)
  qed
  have padding: "rows ! (l div d) ! (l mod d) = 0" if "n * ?m \<le> l" "l < ceil_div (n * ?m) d * d" for l
    using at [OF that(2)] that(1) by simp
  have digit: "rows ! (l div d) ! (l mod d) = - of_bool (bit_at bytes l)" if "l < n * ?m" for l
    using at [of l] that W by simp
  have "coeffs ! i = (\<Sum>c < ?m. of_int (rows ! ((c * n + i) div d) ! ((c * n + i) mod d)) * 2 ^ c)" if "i < n" for i
    using val [OF that] digit [OF digit_index_eq(2) [OF _ that mp(3)]] by (simp add: sum_negf)
  then show ?thesis using fc re rows(1,2) digits padding m by (intro exI conjI) (auto simp: expand_rows_def)
qed

text \<open>The integers modulo \<open>2\<^sup>3\<^sup>2 - 99\<close> are such a field.\<close>

type_synonym q32 = 4294967197

definition q32_ops :: "q32 field_ops" where
  "q32_ops = \<lparr>fo_modulus = Ok (profile_modulus Q32Offset99), fo_modulus_bits = 32, fo_to_u128 = (\<lambda>c. Some (nat (Rep_bit1 c)))\<rparr>"

lemma q32_canonical: "canonical_field q32_ops Q32Offset99"
proof -
  have card: "CARD(q32) = 4294967197" by simp
  have zero: "(of_nat 4294967197 :: q32) = 0"
    unfolding bit1.of_nat_eq bit1.zero_def by simp
  have "nat (Rep_bit1 c) < 4294967197 \<and> of_nat (nat (Rep_bit1 c)) = c" for c :: q32
  proof -
    have r: "0 \<le> Rep_bit1 c" "Rep_bit1 c < int CARD(q32)" using Rep_bit1 [of c] by simp_all
    have "Rep_bit1 c < 4294967197" using r(2) card by simp
    moreover have "of_nat (nat (Rep_bit1 c)) = c"
      unfolding bit1.of_nat_eq using r by (simp add: Rep_bit1_inverse)
    ultimately show ?thesis by (simp add: nat_less_iff)
  qed
  with zero show ?thesis by (simp add: canonical_field_def q32_ops_def profile_modulus_def field_bits_cases)
qed

theorem packed_negative_binary_roundtrip_witness:
  "\<exists>m packed rows. compression_map_new Q32Offset99 2 128 1 = Ok m \<and> from_coefficients q32_ops m [5, - 7] = Some (Ok packed) \<and>
    packed_recompose q32_ops packed = Some (Ok [5, - 7]) \<and> expand_rows 128 packed = Some (Ok rows) \<and> length rows = 1 \<and>
    set (hd rows) \<subseteq> {- 1, 0}"
proof -
  have m: "compression_map_new Q32Offset99 2 128 1 = Ok (map_plan Q32Offset99 2 128)"
    by (rule map_new_eq) (simp_all add: compression_ring_dimensions_def field_bits_cases cell_width_cases ceil_div_def)
  have w: "input_width (map_plan Q32Offset99 2 128) = 1" by (simp add: map_plan_def field_bits_cases ceil_div_def)
  from packed_negative_binary_roundtrip [OF q32_canonical m, of "[5, - 7]"] obtain packed rows where
    r: "from_coefficients q32_ops (map_plan Q32Offset99 2 128) [5, - 7] = Some (Ok packed)" "packed_recompose q32_ops packed = Some (Ok [5, - 7])"
      "expand_rows 128 packed = Some (Ok rows)" "length rows = 1" "\<forall>row \<in> set rows. set row \<subseteq> {- 1, 0}" unfolding w by auto
  then have "set (hd rows) \<subseteq> {- 1, 0}" by (cases rows) auto
  with m r show ?thesis by blast
qed

end
