(* ===== verification/Block_Partition.thy ===== *)
theory Block_Partition
  imports Compression
begin

text \<open>
  Block partitions (\<^verbatim>\<open>crates/akita-params/src/witness/chunk_partition.rs\<close>) and the slice geometry
  of B commitments (\<^verbatim>\<open>crates/akita-params/src/commitment_slicing.rs\<close>): the dyadic partition of the
  live block prefix, the alignment of chunk-major witness bodies, the inherited partition of a
  recursive witness, slice counts and the physical and logical widths of a sliced matrix.

  A half-open range is a pair of its bounds.  Of the committed group parameters the partition
  reads the live block counts of the groups and the inherited chunk ends
  (\<open>group_partition\<close>).
\<close>

section \<open>Dyadic ranges\<close>

definition MAX_WITNESS_CHUNKS :: nat where
  "MAX_WITNESS_CHUNKS = 64"

definition dyadic_boundary :: "nat \<Rightarrow> nat \<Rightarrow> nat \<Rightarrow> nat result" where
  "dyadic_boundary num_live_blocks num_parts index =
     (let base = num_live_blocks div num_parts; remainder = num_live_blocks mod num_parts;
          overflow = InvalidSetup ''dyadic block partition boundary overflow''
      in try_r (ok_or (checked_mul base index) overflow) (\<lambda>base_offset.
         try_r (ok_or (checked_mul remainder index) overflow) (\<lambda>scaled.
         ok_or (checked_add base_offset (scaled div num_parts)) overflow)))"

definition dyadic_range :: "nat \<Rightarrow> nat \<Rightarrow> nat \<Rightarrow> urange result" where
  "dyadic_range num_live_blocks num_parts part_index =
     try_r (dyadic_boundary num_live_blocks num_parts part_index) (\<lambda>start.
     try_r (dyadic_boundary num_live_blocks num_parts (part_index + 1)) (\<lambda>stop.
       if start > stop then Err (InvalidSetup ''dyadic block partition boundaries are not ordered'')
       else Ok (start, stop)))"

definition dyadic_block_ranges :: "nat \<Rightarrow> nat \<Rightarrow> urange list result" where
  "dyadic_block_ranges num_live_blocks num_parts =
     (if num_parts = 0 \<or> num_parts > MAX_WITNESS_CHUNKS \<or> num_live_blocks = 0 then
        Err (InvalidSetup ''dyadic block partition geometry is malformed'')
      else if \<not> is_power_of_two num_parts then
        Err (InvalidSetup ''dyadic block partition count must be a power of two'')
      else try_r (collect_results (dyadic_range num_live_blocks num_parts) [0..<num_parts]) (\<lambda>ranges.
        if ranges = [] \<or> fst (hd ranges) \<noteq> 0 \<or> snd (last ranges) \<noteq> num_live_blocks then
          Err (InvalidSetup ''dyadic block partition does not cover the live blocks'')
        else Ok ranges))"

section \<open>Witness chunks\<close>

record witness_chunk_shape =
  body_lengths :: "nat list"
  ws_num_chunks :: nat
  tail_prefix_len :: nat
  tail_alignment :: nat
  tail_len :: nat
  tail_suffix_alignment :: nat

fun align_bodies :: "nat \<Rightarrow> nat \<Rightarrow> nat \<Rightarrow> nat \<Rightarrow> nat list \<Rightarrow> nat \<Rightarrow> nat list \<Rightarrow> (nat \<times> nat list) result" where
  "align_bodies body_alignment block_len merge index [] cursor ends = Ok (cursor, ends)"
| "align_bodies body_alignment block_len merge index (len # lens) cursor ends =
     try_r (ok_or (Option.bind (align_up len body_alignment) (checked_add cursor))
              (InvalidSetup ''witness chunk padding overflow'')) (\<lambda>padded.
       align_bodies body_alignment block_len merge (index + 1) lens padded
         (if is_multiple_of (index + 1) merge then ends @ [padded div block_len] else ends))"

definition align_chunks :: "witness_chunk_shape \<Rightarrow> nat \<Rightarrow> nat \<Rightarrow> (nat \<times> nat list) result" where
  "align_chunks shape block_len num_chunks =
     (if \<not> is_power_of_two (tail_alignment shape) \<or> \<not> is_power_of_two (tail_suffix_alignment shape) \<or>
         \<not> is_power_of_two block_len \<or> num_chunks = 0 \<or> \<not> is_power_of_two num_chunks \<or>
         \<not> is_power_of_two (ws_num_chunks shape) \<or> ws_num_chunks shape > MAX_WITNESS_CHUNKS \<or>
         \<not> is_multiple_of (ws_num_chunks shape) num_chunks then
        Err (InvalidSetup ''invalid inherited witness chunks'')
      else let body_alignment = (if ws_num_chunks shape > 1 then block_len else 1)
           in try_r (align_bodies body_alignment block_len (ws_num_chunks shape div num_chunks) 0
                       (take (ws_num_chunks shape) (body_lengths shape)) 0 []) (\<lambda>(cursor, ends).
              try_r (ok_or (Option.bind (Option.bind (Option.bind (checked_add cursor (tail_prefix_len shape))
                              (\<lambda>len. align_up len (tail_alignment shape)))
                              (\<lambda>len. checked_add len (tail_len shape)))
                              (\<lambda>len. align_up len (tail_suffix_alignment shape)))
                       (InvalidSetup ''witness tail overflow'')) (\<lambda>len.
              let ends' = (if ends = [] then ends else butlast ends @ [ceil_div len block_len])
              in Ok (len, if num_chunks = 1 then [] else ends'))))"

record group_partition =
  preceding_live_blocks :: "nat list"
  final_live_blocks :: nat
  witness_chunk_ends :: "nat list"

fun inherited_ranges :: "nat \<Rightarrow> nat list \<Rightarrow> urange list result" where
  "inherited_ranges start [] = Ok []"
| "inherited_ranges start (stop # ends) =
     (if stop < start then Err (InvalidSetup ''inherited witness partition is unordered'')
      else try_r (inherited_ranges stop ends) (\<lambda>rest. Ok ((start, stop) # rest)))"

definition witness_block_ranges :: "group_partition \<Rightarrow> nat \<Rightarrow> nat \<Rightarrow> urange list result" where
  "witness_block_ranges g group_index num_chunks =
     (let preceding = length (preceding_live_blocks g)
      in try_r (if group_index = preceding then Ok (final_live_blocks g)
                else if group_index < preceding then Ok (preceding_live_blocks g ! group_index)
                else Err (InvalidSetup ''missing witness group'')) (\<lambda>live.
         if group_index \<noteq> preceding \<or> witness_chunk_ends g = [] then dyadic_block_ranges live num_chunks
         else if length (witness_chunk_ends g) \<noteq> num_chunks \<or> \<not> is_power_of_two num_chunks \<or>
                 num_chunks > MAX_WITNESS_CHUNKS \<or> last (witness_chunk_ends g) \<noteq> live then
           Err (InvalidSetup ''inherited witness partition has wrong extent'')
         else inherited_ranges 0 (witness_chunk_ends g)))"

section \<open>Slice counts\<close>

datatype commitment_slice_count = SliceCount nat

fun slice_get :: "commitment_slice_count \<Rightarrow> nat" where
  "slice_get (SliceCount n) = n"

definition slice_ALL :: "commitment_slice_count list" where
  "slice_ALL = [SliceCount 1, SliceCount 2, SliceCount 4, SliceCount 8]"

definition slice_try_new :: "nat \<Rightarrow> commitment_slice_count result" where
  "slice_try_new count =
     (if count = 1 then Ok (SliceCount 1) else if count = 2 then Ok (SliceCount 2)
      else if count = 4 then Ok (SliceCount 4) else if count = 8 then Ok (SliceCount 8)
      else Err (InvalidSetup (''B commitment slice count '' @ show_nat count @ '' is outside the supported set {1, 2, 4, 8}'')))"

definition is_sliced :: "commitment_slice_count \<Rightarrow> bool" where
  "is_sliced c \<longleftrightarrow> slice_get c > 1"

definition too_many_slices :: "commitment_slice_count \<Rightarrow> nat \<Rightarrow> akita_error" where
  "too_many_slices c num_live_blocks = InvalidSetup (''B commitment slice count '' @ show_nat (slice_get c) @
     '' exceeds '' @ show_nat num_live_blocks @ '' live blocks'')"

definition validate_for_commitment :: "commitment_slice_count \<Rightarrow> nat \<Rightarrow> commitment_payload_mode \<Rightarrow> nat \<Rightarrow> unit result" where
  "validate_for_commitment c absolute_commitment_level payload_mode num_live_blocks =
     (if slice_get c > num_live_blocks then Err (too_many_slices c num_live_blocks)
      else if is_sliced c \<and> absolute_commitment_level \<ge> 2 then
        Err (InvalidSetup (''B commitment slicing is not supported at absolute level '' @ show_nat absolute_commitment_level))
      else if is_sliced c \<and> \<not> is_compressed payload_mode then
        Err (InvalidSetup ''B commitment slicing requires compressed payload mode'')
      else Ok ())"

definition slice_block_ranges :: "commitment_slice_count \<Rightarrow> nat \<Rightarrow> urange list result" where
  "slice_block_ranges c num_live_blocks =
     (if slice_get c > num_live_blocks then Err (too_many_slices c num_live_blocks)
      else try_r (dyadic_block_ranges num_live_blocks (slice_get c)) (\<lambda>ranges.
        if list_ex (\<lambda>(a, b). \<not> a < b) ranges then Err (InvalidSetup ''B commitment slices must be nonempty'')
        else Ok ranges))"

definition slice_logical_output_rows :: "commitment_slice_count \<Rightarrow> nat \<Rightarrow> nat result" where
  "slice_logical_output_rows c physical_output_rank =
     (if physical_output_rank = 0 then Err (InvalidSetup ''physical B output rank must be nonzero'')
      else ok_or (checked_mul physical_output_rank (slice_get c)) (InvalidSetup ''logical B row count overflow''))"

definition slice_complete_source_coefficients :: "commitment_slice_count \<Rightarrow> nat \<Rightarrow> nat \<Rightarrow> nat result" where
  "slice_complete_source_coefficients c physical_output_rank outer_ring_dimension =
     (if outer_ring_dimension = 0 then Err (InvalidSetup ''B ring dimension must be nonzero'')
      else try_r (slice_logical_output_rows c physical_output_rank) (\<lambda>rows.
        ok_or (checked_mul rows outer_ring_dimension) (InvalidSetup ''complete B source size overflow'')))"

section \<open>Slice geometry\<close>

record commitment_slice_geometry =
  slice_count :: commitment_slice_count
  block_ranges :: "urange list"
  num_live_blocks :: nat
  num_polynomials :: nat
  max_blocks_per_slice :: nat
  ring_elements_per_block_per_polynomial :: nat
  logical_input_width :: nat
  physical_input_width :: nat
  outer_ring_dimension :: nat

definition slice_geometry_try_new ::
  "commitment_slice_count \<Rightarrow> nat \<Rightarrow> nat \<Rightarrow> nat \<Rightarrow> nat \<Rightarrow> nat \<Rightarrow> nat \<Rightarrow> commitment_slice_geometry result" where
  "slice_geometry_try_new c live polys inner_output_rank num_digits_outer inner_ring_dimension outer_dim =
     (if polys = 0 \<or> inner_output_rank = 0 \<or> num_digits_outer = 0 \<or> inner_ring_dimension = 0 \<or> outer_dim = 0 \<or>
         \<not> is_multiple_of inner_ring_dimension outer_dim then
        Err (InvalidSetup ''B commitment slice geometry is malformed'')
      else try_r (slice_block_ranges c live) (\<lambda>ranges.
           try_r (if ranges = [] then Err (InvalidSetup ''B commitment has no slices'')
                  else Ok (Max (set (map (\<lambda>(a, b). b - a) ranges)))) (\<lambda>max_blocks.
           let projection_ratio = inner_ring_dimension div outer_dim
           in try_r (ok_or (Option.bind (checked_mul inner_output_rank projection_ratio) (\<lambda>count. checked_mul count num_digits_outer))
                       (InvalidSetup ''B slice block width overflow'')) (\<lambda>per_block.
              try_r (ok_or (Option.bind (checked_mul per_block max_blocks) (\<lambda>count. checked_mul count polys))
                       (InvalidSetup ''physical B width overflow'')) (\<lambda>physical.
              try_r (ok_or (Option.bind (checked_mul per_block live) (\<lambda>count. checked_mul count polys))
                       (InvalidSetup ''logical B width overflow'')) (\<lambda>logical.
              Ok \<lparr>slice_count = c, block_ranges = ranges, num_live_blocks = live, num_polynomials = polys,
                  max_blocks_per_slice = max_blocks, ring_elements_per_block_per_polynomial = per_block,
                  logical_input_width = logical, physical_input_width = physical, outer_ring_dimension = outer_dim\<rparr>))))))"

fun find_block :: "nat \<Rightarrow> urange list \<Rightarrow> nat \<Rightarrow> (nat \<times> nat) option" where
  "find_block slice_index [] global_block = None"
| "find_block slice_index ((a, b) # rs) global_block =
     (if a \<le> global_block \<and> global_block < b then Some (slice_index, global_block - a)
      else find_block (slice_index + 1) rs global_block)"

definition block_coordinates :: "commitment_slice_geometry \<Rightarrow> nat \<Rightarrow> (nat \<times> nat) result" where
  "block_coordinates geo global_block =
     ok_or (find_block 0 (block_ranges geo) global_block) (InvalidSetup ''B block lies outside slice geometry'')"

definition logical_row_index :: "commitment_slice_geometry \<Rightarrow> nat \<Rightarrow> nat \<Rightarrow> nat \<Rightarrow> nat result" where
  "logical_row_index geo slice_index physical_row physical_output_rank =
     (if slice_index \<ge> slice_get (slice_count geo) \<or> physical_output_rank = 0 \<or> physical_row \<ge> physical_output_rank then
        Err (InvalidSetup ''B slice row coordinates are outside the physical matrix'')
      else ok_or (mul_add slice_index physical_output_rank physical_row) (InvalidSetup ''logical B row index overflow''))"

definition logical_output_rows :: "commitment_slice_geometry \<Rightarrow> nat \<Rightarrow> nat result" where
  "logical_output_rows geo physical_output_rank = slice_logical_output_rows (slice_count geo) physical_output_rank"

definition complete_source_coefficients :: "commitment_slice_geometry \<Rightarrow> nat \<Rightarrow> nat result" where
  "complete_source_coefficients geo physical_output_rank =
     slice_complete_source_coefficients (slice_count geo) physical_output_rank (outer_ring_dimension geo)"

definition physical_matrix_ring_elements :: "commitment_slice_geometry \<Rightarrow> nat \<Rightarrow> nat result" where
  "physical_matrix_ring_elements geo physical_output_rank =
     (if physical_output_rank = 0 then Err (InvalidSetup ''physical B output rank must be nonzero'')
      else ok_or (checked_mul physical_output_rank (physical_input_width geo)) (InvalidSetup ''physical B matrix size overflow''))"

end
