(* ===== verification/Block_Partition_Correct.thy ===== *)
theory Block_Partition_Correct
  imports Block_Partition
begin

text \<open>
  A partition of the live blocks is a list of ranges that follow one another from zero to the
  number of blocks.  The interface \<open>block_partition\<close> states this contract; what its clients need
  (every block has one owner, the search finds it, the sizes add up) is proved once there, and
  the dyadic, sliced and inherited partitions of the code are its instances.
\<close>

section \<open>Covers\<close>

fun covers :: "nat \<Rightarrow> urange list \<Rightarrow> nat \<Rightarrow> bool" where
  "covers a [] b \<longleftrightarrow> a = b"
| "covers a ((s, e) # rs) b \<longleftrightarrow> s = a \<and> s \<le> e \<and> covers e rs b"

lemma covers_le: "covers a rs b \<Longrightarrow> a \<le> b"
  by (induction a rs b rule: covers.induct) auto

lemma covers_find:
  "covers a rs B \<Longrightarrow> a \<le> b \<Longrightarrow> b < B \<Longrightarrow>
    \<exists>i < length rs. find_block s rs b = Some (s + i, b - fst (rs ! i)) \<and> fst (rs ! i) \<le> b \<and> b < snd (rs ! i)"
proof (induction a rs B arbitrary: s rule: covers.induct)
  case (2 a x e rs B)
  show ?case
  proof (cases "b < e")
    case True
    with 2 show ?thesis by (intro exI [of _ 0]) auto
  next
    case False
    with 2 obtain i where "i < length rs" "find_block (Suc s) rs b = Some (Suc s + i, b - fst (rs ! i))"
      "fst (rs ! i) \<le> b" "b < snd (rs ! i)" by fastforce
    with False show ?thesis by (intro exI [of _ "Suc i"]) auto
  qed
qed simp

lemma covers_find_None: "covers a rs B \<Longrightarrow> B \<le> b \<Longrightarrow> find_block s rs b = None"
  by (induction a rs B arbitrary: s rule: covers.induct) (auto dest: covers_le)

lemma covers_bounds: "covers a rs B \<Longrightarrow> i < length rs \<Longrightarrow> a \<le> fst (rs ! i) \<and> fst (rs ! i) \<le> snd (rs ! i) \<and> snd (rs ! i) \<le> B"
  by (induction a rs B arbitrary: i rule: covers.induct) (fastforce simp: less_Suc_eq_0_disj dest: covers_le)+

lemma covers_ordered: "covers a rs B \<Longrightarrow> i < j \<Longrightarrow> j < length rs \<Longrightarrow> snd (rs ! i) \<le> fst (rs ! j)"
proof (induction a rs B arbitrary: i j rule: covers.induct)
  case (2 a s e rs B)
  then obtain j' where j: "j = Suc j'" by (cases j) auto
  show ?case
  proof (cases i)
    case 0
    with 2 j covers_bounds [of e rs B j'] show ?thesis by simp
  next
    case (Suc i')
    with 2 j show ?thesis by auto
  qed
qed simp

lemma covers_sum: "covers a rs B \<Longrightarrow> sum_list (map (\<lambda>(s, e). e - s) rs) + a = B"
  by (induction a rs B rule: covers.induct) auto

lemma covers_nth:
  assumes "\<And>i. i < n \<Longrightarrow> rs ! i = (f i, f (Suc i))" "\<And>i. i < n \<Longrightarrow> f i \<le> f (Suc i)" "length rs = n"
  shows "covers (f 0) rs (f n)"
  using assms
proof (induction n arbitrary: rs f)
  case (Suc n)
  then obtain r rs' where rs: "rs = r # rs'" by (cases rs) auto
  have "covers (f (Suc 0)) rs' (f (Suc n))"
    using Suc.IH [of rs' "\<lambda>i. f (Suc i)"] Suc.prems rs by fastforce
  then show ?case using Suc.prems(1) [of 0] Suc.prems(2) [of 0] rs by simp
qed simp

section \<open>The partition interface\<close>

locale block_partition =
  fixes split :: "nat \<Rightarrow> urange list result"
  assumes split_covers: "split B = Ok rs \<Longrightarrow> covers 0 rs B"
begin

lemma owner_unique:
  assumes "split B = Ok rs" "b < B"
  shows "\<exists>!i. i < length rs \<and> fst (rs ! i) \<le> b \<and> b < snd (rs ! i)"
proof -
  note c = split_covers [OF assms(1)]
  from covers_find [OF c _ assms(2), of 0] obtain i where i: "i < length rs" "fst (rs ! i) \<le> b" "b < snd (rs ! i)" by auto
  moreover have "j = i" if "j < length rs" "fst (rs ! j) \<le> b" "b < snd (rs ! j)" for j
    using that i covers_ordered [OF c, of i j] covers_ordered [OF c, of j i] by (cases i j rule: linorder_cases) auto
  ultimately show ?thesis by blast
qed

lemma find_block_iff:
  assumes "split B = Ok rs"
  shows "find_block 0 rs b = Some (i, off) \<longleftrightarrow>
    i < length rs \<and> fst (rs ! i) + off = b \<and> off < snd (rs ! i) - fst (rs ! i)"
proof
  note c = split_covers [OF assms]
  assume f: "find_block 0 rs b = Some (i, off)"
  with covers_find_None [OF c] have "b < B" by (cases "b < B") auto
  with covers_find [OF c, of b 0] f show "i < length rs \<and> fst (rs ! i) + off = b \<and> off < snd (rs ! i) - fst (rs ! i)" by auto
next
  note c = split_covers [OF assms]
  assume a: "i < length rs \<and> fst (rs ! i) + off = b \<and> off < snd (rs ! i) - fst (rs ! i)"
  then have b: "b < B" "fst (rs ! i) \<le> b" "b < snd (rs ! i)" using covers_bounds [OF c, of i] by auto
  from covers_find [OF c _ b(1), of 0] obtain j where j: "j < length rs" "find_block 0 rs b = Some (j, b - fst (rs ! j))"
    "fst (rs ! j) \<le> b" "b < snd (rs ! j)" by auto
  with owner_unique [OF assms b(1)] a b have "j = i" by blast
  with j a show "find_block 0 rs b = Some (i, off)" by auto
qed

lemma find_block_total: "split B = Ok rs \<Longrightarrow> (find_block 0 rs b \<noteq> None) = (b < B)"
  using covers_find [OF split_covers, of B rs b 0] covers_find_None [OF split_covers, of B rs b 0] by (cases "b < B") auto

lemma sizes_sum: "split B = Ok rs \<Longrightarrow> sum_list (map (\<lambda>(s, e). e - s) rs) = B"
  using covers_sum [OF split_covers] by fastforce

end

section \<open>The dyadic partition\<close>

lemma dyadic_endpoint: "0 < P \<Longrightarrow> B div P * i + B mod P * i div P = i * B div P" for B :: nat
proof -
  assume P: "0 < P"
  have "i * (q * P + r) = r * i + P * (q * i)" for q r by (simp add: algebra_simps)
  from this [of "B div P" "B mod P"] have "i * B = B mod P * i + P * (B div P * i)" by simp
  then have "i * B div P = (B mod P * i + P * (B div P * i)) div P" by simp
  with P show ?thesis by simp
qed

lemma dyadic_boundary_sound: "0 < P \<Longrightarrow> dyadic_boundary B P i = Ok v \<Longrightarrow> v = i * B div P"
  by (auto simp: dyadic_boundary_def Let_def try_r_eq_Inr dyadic_endpoint)

lemma dyadic_boundary_eq:
  assumes "0 < P" "P \<le> 64" "i \<le> P" "B \<le> usize_max"
  shows "dyadic_boundary B P i = Ok (i * B div P)"
proof -
  have "B div P * i \<le> B div P * P" using assms(3) by (rule mult_le_mono2)
  also have "\<dots> \<le> B" by simp
  finally have "B div P * i \<le> B" .
  moreover have "B mod P * i \<le> 64 * 64" 
    using assms(1,2,3) mod_less_divisor [of P B] by (intro mult_le_mono) linarith+
  moreover have "i * B div P \<le> P * B div P" using assms(3) by (intro div_le_mono mult_le_mono1)
  ultimately show ?thesis using assms(1,4)
    by (simp add: dyadic_boundary_def Let_def checked_mul_if checked_add_if dyadic_endpoint usize_max_def)
qed

lemma dyadic_ranges_nth:
  assumes "dyadic_block_ranges B P = Ok rs"
  shows "0 < P" "length rs = P" "\<And>i. i < P \<Longrightarrow> rs ! i = (i * B div P, Suc i * B div P)" "snd (last rs) = B"
proof -
  from assms show P: "0 < P" by (auto simp: dyadic_block_ranges_def split: if_splits)
  from assms have c: "collect_results (dyadic_range B P) [0..<P] = Ok rs"
    by (auto simp: dyadic_block_ranges_def try_r_eq_Inr split: if_splits)
  then show "length rs = P" by (simp add: collect_results_Inr_iff)
  show "rs ! i = (i * B div P, Suc i * B div P)" if "i < P" for i
  proof -
    have "dyadic_range B P i = Ok (rs ! i)" using c that by (auto simp: collect_results_Inr_iff)
    then obtain x y where "dyadic_boundary B P i = Ok x" "dyadic_boundary B P (Suc i) = Ok y" "rs ! i = (x, y)"
      by (auto simp: dyadic_range_def try_r_eq_Inr split: if_splits)
    then show ?thesis using dyadic_boundary_sound [OF P] by blast
  qed
  from assms show "snd (last rs) = B" by (auto simp: dyadic_block_ranges_def try_r_eq_Inr split: if_splits)
qed

interpretation dyadic: block_partition "\<lambda>B. dyadic_block_ranges B P" for P
proof
  fix B rs
  assume ok: "dyadic_block_ranges B P = Ok rs"
  note d = dyadic_ranges_nth [OF ok]
  have "covers (0 * B div P) rs (P * B div P)"
    by (rule covers_nth [of P rs "\<lambda>i. i * B div P"]) (use d in \<open>simp_all add: div_le_mono\<close>)
  then show "covers 0 rs B" using d(1) by simp
qed

interpretation slices: block_partition "slice_block_ranges c" for c
proof
  fix B rs
  assume "slice_block_ranges c B = Ok rs"
  then have "dyadic_block_ranges B (slice_get c) = Ok rs" by (auto simp: slice_block_ranges_def try_r_eq_Inr split: if_splits)
  then show "covers 0 rs B" by (rule dyadic.split_covers)
qed

lemma dyadic_ranges_total:
  assumes "0 < P" "P \<le> 64" "is_power_of_two P" "0 < B" "B \<le> usize_max"
  shows "dyadic_block_ranges B P = Ok (map (\<lambda>i. (i * B div P, Suc i * B div P)) [0..<P])"
proof -
  have "dyadic_range B P i = Ok (i * B div P, Suc i * B div P)" if "i < P" for i
  proof -
    have "i * B div P \<le> Suc i * B div P" by (intro div_le_mono) simp
    then show ?thesis
      using that dyadic_boundary_eq [OF assms(1,2) _ assms(5), of i] dyadic_boundary_eq [OF assms(1,2) _ assms(5), of "Suc i"]
      by (simp add: dyadic_range_def)
  qed
  then have c: "collect_results (dyadic_range B P) [0..<P] = Ok (map (\<lambda>i. (i * B div P, Suc i * B div P)) [0..<P])"
    by (intro collect_results_map) simp
  let ?rs = "map (\<lambda>i. (i * B div P, Suc i * B div P)) [0..<P]"
  have ne: "[0..<P] \<noteq> []" using assms(1) by simp
  have hd: "fst (hd ?rs) = 0" using ne by (simp add: hd_map)
  have last: "snd (last ?rs) = B" using assms(1) by (subst last_map [OF ne]) (simp add: last_upt)
  have cover: "\<not> (?rs = [] \<or> fst (hd ?rs) \<noteq> 0 \<or> snd (last ?rs) \<noteq> B)" using ne hd last by blast
  have geometry: "\<not> (P = 0 \<or> P > MAX_WITNESS_CHUNKS \<or> B = 0)" using assms by (simp add: MAX_WITNESS_CHUNKS_def)
  have "\<not> \<not> is_power_of_two P" using assms(3) by blast
  then show ?thesis unfolding dyadic_block_ranges_def c try_r_simps(2) if_not_P [OF geometry] if_not_P [OF cover]
    by (rule if_not_P)
qed

lemma slice_get_bounds: "slice_try_new count = Ok c \<Longrightarrow> slice_get c = count \<and> count \<in> {1, 2, 4, 8}"
  by (auto simp: slice_try_new_def split: if_splits)

lemma slice_power: "count \<in> {1, 2, 4, 8} \<Longrightarrow> is_power_of_two count"
  using is_power_of_two_power [of 0] is_power_of_two_power [of 1] is_power_of_two_power [of 2] is_power_of_two_power [of 3] by auto

text \<open>With at least as many blocks as slices, no slice is empty.\<close>

lemma slice_ranges_total:
  assumes c: "slice_try_new count = Ok c" and B: "count \<le> B" "B \<le> usize_max"
  shows "slice_block_ranges c B = Ok (map (\<lambda>i. (i * B div count, Suc i * B div count)) [0..<count])"
proof -
  note g = slice_get_bounds [OF c]
  then have n: "0 < count" "count \<le> 64" by auto
  have "0 < B" using n B by simp
  note d = dyadic_ranges_total [OF n slice_power this B(2)]
  have "i * B div count < Suc i * B div count" for i
  proof -
    have "i * B div count + 1 = (i * B + count) div count" using div_add_self2 [of count "i * B"] n by simp
    also have "\<dots> \<le> Suc i * B div count" using B by (intro div_le_mono) simp
    finally show ?thesis by simp
  qed
  then show ?thesis using d g B by (auto simp: slice_block_ranges_def list_ex_iff)
qed

section \<open>Alignment of witness chunks\<close>

definition pad_to :: "nat \<Rightarrow> nat \<Rightarrow> nat" where
  "pad_to a n = ceil_div n a * a"

lemma align_up_pad: "align_up n a = Some m \<Longrightarrow> m = pad_to a n"
proof -
  assume a: "align_up n a = Some m"
  then have a0: "0 < a" using is_power_of_two_pos by (auto simp: align_up_def split: if_splits)
  show ?thesis
  proof (cases "n mod a = 0")
    case True
    then show ?thesis using a by (auto simp: align_up_def pad_to_def ceil_div_def Let_def split: if_splits)
  next
    case False
    then have "m = n + (a - n mod a)" using a by (auto simp: align_up_def Let_def split: if_splits)
    moreover have "n = n div a * a + n mod a" "n mod a < a" using a0 by simp_all
    ultimately have "m = n div a * a + a" by linarith
    then show ?thesis using False by (simp add: pad_to_def ceil_div_def)
  qed
qed

lemma pad_to_props: "0 < a \<Longrightarrow> a dvd pad_to a n \<and> n \<le> pad_to a n \<and> pad_to a n < n + a"
  by (simp add: pad_to_def ceil_div_mult_ge ceil_div_lt)

definition padded_sum :: "nat \<Rightarrow> nat list \<Rightarrow> nat \<Rightarrow> nat" where
  "padded_sum a lens i = sum_list (map (pad_to a) (take i lens))"

lemma align_bodies_ok:
  assumes k: "0 < k"
  shows "align_bodies a bl k idx lens cur ends = Ok (cur', ends') \<Longrightarrow> idx = length done' \<Longrightarrow>
    cur = padded_sum a (done' @ lens) idx \<Longrightarrow>
    ends = map (\<lambda>j. padded_sum a (done' @ lens) (Suc j * k) div bl) [0..<idx div k] \<Longrightarrow>
    cur' = padded_sum a (done' @ lens) (length (done' @ lens)) \<and>
    ends' = map (\<lambda>j. padded_sum a (done' @ lens) (Suc j * k) div bl) [0..<length (done' @ lens) div k]"
proof (induction lens arbitrary: idx cur ends done')
  case (Cons len lens)
  let ?all = "done' @ len # lens"
  let ?ends = "if is_multiple_of (Suc idx) k then ends @ [(cur + pad_to a len) div bl] else ends"
  from Cons.prems(1) have rec: "align_bodies a bl k (Suc idx) lens (cur + pad_to a len) ?ends = Ok (cur', ends')"
    by (auto simp: try_r_eq_Inr bind_eq_Some_conv dest!: align_up_pad)
  have cur: "cur + pad_to a len = padded_sum a ((done' @ [len]) @ lens) (Suc idx)"
    using Cons.prems(2,3) by (simp add: padded_sum_def)
  have e: "?ends = map (\<lambda>j. padded_sum a ((done' @ [len]) @ lens) (Suc j * k) div bl) [0..<Suc idx div k]"
  proof (cases "k dvd Suc idx")
    case True
    then have d: "Suc idx div k = Suc (idx div k)" using k by (simp add: div_Suc dvd_eq_mod_eq_0)
    moreover have "Suc (idx div k) * k = Suc idx" using True d by (metis dvd_div_mult_self)
    ultimately show ?thesis using True Cons.prems(4) cur by (simp add: is_multiple_of_dvd)
  next
    case False
    then have "Suc idx div k = idx div k" using k by (simp add: div_Suc dvd_eq_mod_eq_0)
    then show ?thesis using False Cons.prems(4) by (simp add: is_multiple_of_dvd)
  qed
  from Cons.IH [OF rec _ cur e] Cons.prems(2) show ?case by simp
qed (simp add: padded_sum_def)

lemma inherited_covers: "inherited_ranges a es = Ok rs \<Longrightarrow> covers a rs (last (a # es)) \<and> map snd rs = es"
  by (induction a es arbitrary: rs rule: inherited_ranges.induct) (auto simp: try_r_eq_Inr split: if_splits)

lemma inherited_total: "sorted (a # es) \<Longrightarrow> \<exists>rs. inherited_ranges a es = Ok rs"
  by (induction a es rule: inherited_ranges.induct) auto

text \<open>The owner ranges of a recursive witness, as a partition of its live blocks.\<close>

definition owner_ranges :: "group_partition \<Rightarrow> nat \<Rightarrow> nat \<Rightarrow> urange list result" where
  "owner_ranges g num_chunks B = witness_block_ranges (g\<lparr>final_live_blocks := B\<rparr>) (length (preceding_live_blocks g)) num_chunks"

interpretation owners: block_partition "owner_ranges g num_chunks" for g num_chunks
proof
  fix B rs
  assume "owner_ranges g num_chunks B = Ok rs"
  then show "covers 0 rs B"
    using dyadic.split_covers [of B num_chunks rs] inherited_covers [of 0 "witness_chunk_ends g" rs]
    by (auto simp: owner_ranges_def witness_block_ranges_def Let_def split: if_splits)
qed

lemma padded_sum_mono: "i \<le> j \<Longrightarrow> padded_sum a lens i \<le> padded_sum a lens j"
proof -
  assume "i \<le> j"
  then have "take j lens = take i lens @ take (j - i) (drop i lens)" by (metis le_add_diff_inverse take_add)
  then show ?thesis by (simp add: padded_sum_def)
qed

lemma padded_sum_dvd: "0 < a \<Longrightarrow> a dvd padded_sum a lens i"
  unfolding padded_sum_def using pad_to_props by (induction lens arbitrary: i) (auto simp: take_Cons' dvd_add)

lemma align_chunks_ok:
  assumes ok: "align_chunks shape bl N = Ok (len, ends)" and N: "1 < N" and L: "ws_num_chunks shape \<le> length (body_lengths shape)"
  defines "k \<equiv> ws_num_chunks shape div N" and "S \<equiv> padded_sum bl (take (ws_num_chunks shape) (body_lengths shape))"
  shows "0 < bl" "is_power_of_two N" "N \<le> 64" "S (ws_num_chunks shape) \<le> len" "ws_num_chunks shape = N * k"
    "ends = map (\<lambda>j. S (Suc j * k) div bl) [0..<N - 1] @ [ceil_div len bl]"
proof -
  let ?P = "ws_num_chunks shape" and ?lens = "take (ws_num_chunks shape) (body_lengths shape)"
  from ok have g: "is_power_of_two bl" "is_power_of_two N" "is_power_of_two ?P" "?P \<le> 64" "N dvd ?P"
    by (auto simp: align_chunks_def MAX_WITNESS_CHUNKS_def is_multiple_of_dvd split: if_splits)
  show bl: "0 < bl" and "is_power_of_two N" using g is_power_of_two_pos by auto
  have P0: "0 < ?P" using g(3) is_power_of_two_pos by auto
  show Pk: "?P = N * k" using g(5) by (simp add: k_def)
  have k0: "0 < k" using Pk P0 by (cases k) auto
  have "N \<le> ?P" using Pk k0 by simp
  then show "N \<le> 64" using g(4) by linarith
  have P1: "1 < ?P" using \<open>N \<le> ?P\<close> N by linarith
  from ok P1 N obtain cur es where body: "align_bodies bl bl k 0 ?lens 0 [] = Ok (cur, es)"
    and tail: "Option.bind (Option.bind (Option.bind (checked_add cur (tail_prefix_len shape))
        (\<lambda>len. align_up len (tail_alignment shape))) (\<lambda>len. checked_add len (tail_len shape)))
        (\<lambda>len. align_up len (tail_suffix_alignment shape)) = Some len"
    and ends: "ends = (if es = [] then es else butlast es @ [ceil_div len bl])"
    by (auto simp: align_chunks_def try_r_eq_Inr Let_def k_def split: if_splits)
  have lens: "length ?lens = ?P" using L by simp
  have "cur = S (length ?lens) \<and> es = map (\<lambda>j. S (Suc j * k) div bl) [0..<length ?lens div k]"
    unfolding S_def using align_bodies_ok [OF k0 body, of "[]"] by (simp add: padded_sum_def)
  moreover have "?P div k = N" using Pk k0 by simp
  ultimately have cur: "cur = S ?P" and es: "es = map (\<lambda>j. S (Suc j * k) div bl) [0..<N]" using lens by simp_all
  have al: "v \<le> w" if "align_up v x = Some w" for v w x
  proof -
    have "0 < x" using that is_power_of_two_pos by (auto simp: align_up_def split: if_splits)
    then show ?thesis using align_up_pad [OF that] pad_to_props [of x v] by simp
  qed
  from tail obtain l1 l2 where "align_up (cur + tail_prefix_len shape) (tail_alignment shape) = Some l1"
    "align_up (l1 + tail_len shape) (tail_suffix_alignment shape) = Some len" by (auto simp: bind_eq_Some_conv)
  from al [OF this(1)] al [OF this(2)] show "S ?P \<le> len" using cur by simp
  obtain n where n: "N = Suc n" using N by (cases N) auto
  show "ends = map (\<lambda>j. S (Suc j * k) div bl) [0..<N - 1] @ [ceil_div len bl]"
    unfolding ends es n by simp
qed

section \<open>Properties\<close>

text \<open>
  C18.  The dyadic partition is total on its domain and exact: part \<open>i\<close> of \<open>P\<close> owns
  \<open>[i B / P, (i + 1) B / P)\<close>, no intermediate product overflows, the ranges follow one another
  from zero to the block count, and a boundary of the partition into \<open>P\<close> parts is a boundary of
  every finer dyadic partition.
\<close>

theorem dyadic_block_ranges_correct:
  assumes "0 < P" "P \<le> 64" "is_power_of_two P" "0 < B" "B \<le> usize_max"
  shows "\<exists>rs. dyadic_block_ranges B P = Ok rs \<and> rs = map (\<lambda>i. (i * B div P, Suc i * B div P)) [0..<P] \<and> covers 0 rs B \<and>
    (\<forall>k i fine. 0 < k \<and> i < P \<and> dyadic_block_ranges B (P * k) = Ok fine \<longrightarrow> fst (fine ! (i * k)) = fst (rs ! i))"
proof -
  let ?rs = "map (\<lambda>i. (i * B div P, Suc i * B div P)) [0..<P]"
  note ok = dyadic_ranges_total [OF assms]
  have "fst (fine ! (i * k)) = fst (?rs ! i)" if "0 < k" "i < P" "dyadic_block_ranges B (P * k) = Ok fine" for k i fine
  proof -
    have "i * k < P * k" using that by simp
    then have "fst (fine ! (i * k)) = i * k * B div (P * k)" using dyadic_ranges_nth(3) [OF that(3)] by simp
    also have "i * k * B = (i * B) * k" by (simp add: mult_ac)
    also have "(i * B) * k div (P * k) = i * B div P" using that(1) by simp
    finally show ?thesis using that(2) by simp
  qed
  with ok dyadic.split_covers [OF ok] show ?thesis by blast
qed

theorem dyadic_block_ranges_correct_witness:
  "\<exists>rs. dyadic_block_ranges 13 4 = Ok rs \<and> covers 0 rs 13"
  using dyadic_block_ranges_correct [of 4 13] is_power_of_two_power [of 2] by (auto simp: usize_max_def)

text \<open>
  Slice coordinates: in a constructed geometry a global block has coordinates exactly when it
  is live, the coordinates are the slice that owns it and its offset there, and flattening slice
  and row into a logical row is a bijection onto the logical rows.
\<close>

lemma slice_coordinates_correct:
  assumes "slice_geometry_try_new c live polys rank digits inner outer_dim = Ok geo"
  shows "(block_coordinates geo b = Ok (s, off) \<longleftrightarrow>
      s < length (block_ranges geo) \<and> fst (block_ranges geo ! s) + off = b \<and>
      off < snd (block_ranges geo ! s) - fst (block_ranges geo ! s)) \<and>
    (is_ok (block_coordinates geo b) \<longleftrightarrow> b < live) \<and>
    (logical_row_index geo s row prank = Ok idx \<longrightarrow>
      idx div prank = s \<and> idx mod prank = row \<and> (\<forall>rows. logical_output_rows geo prank = Ok rows \<longrightarrow> idx < rows))"
proof -
  from assms have r: "slice_block_ranges c live = Ok (block_ranges geo)" "slice_count geo = c"
    by (auto simp: slice_geometry_try_new_def try_r_eq_Inr Let_def split: if_splits)
  have "is_ok (block_coordinates geo b) \<longleftrightarrow> find_block 0 (block_ranges geo) b \<noteq> None"
    by (cases "find_block 0 (block_ranges geo) b") (simp_all add: block_coordinates_def)
  moreover have "idx div prank = s \<and> idx mod prank = row \<and> (\<forall>rows. logical_output_rows geo prank = Ok rows \<longrightarrow> idx < rows)"
    if "logical_row_index geo s row prank = Ok idx"
  proof -
    have i: "s < slice_get c" "row < prank" "idx = s * prank + row"
      using that r(2) by (auto simp: logical_row_index_def mul_add_def bind_eq_Some_conv split: if_splits)
    have "Suc s * prank \<le> slice_get c * prank" using i(1) by (intro mult_le_mono1) simp
    then have "idx < prank * slice_get c" using i by (simp add: mult.commute)
    then show ?thesis using i r(2) by (auto simp: logical_output_rows_def slice_logical_output_rows_def split: if_splits)
  qed
  ultimately show ?thesis
    using slices.find_block_iff [OF r(1)] slices.find_block_total [OF r(1)] by (auto simp: block_coordinates_def)
qed

lemma two_slices: "\<exists>geo. slice_geometry_try_new (SliceCount 2) 5 1 2 3 64 64 = Ok geo"
proof -
  have "slice_block_ranges (SliceCount 2) 5 = Ok (map (\<lambda>i. (i * 5 div 2, Suc i * 5 div 2)) [0..<2])"
    by (rule slice_ranges_total) (simp_all add: slice_try_new_def usize_max_def)
  moreover have "map (\<lambda>i. (i * 5 div 2, Suc i * 5 div 2)) [0..<2] = [(0, 2), (2, 5 :: nat)]" by (simp add: upt_rec)
  ultimately show ?thesis
    by (simp add: slice_geometry_try_new_def Let_def checked_mul_if usize_max_def is_multiple_of_def)
qed

text \<open>
  Slice widths: in every geometry constructed for an admitted slice count the largest slice
  has the number of blocks divided by the count, rounded up, and the physical width pays for the logical width: the slices together hold at least the logical
  columns, and no more than one block column of every slice is padding.
\<close>

lemma slice_widths_correct:
  assumes "slice_try_new count = Ok c" "slice_geometry_try_new c live polys rank digits inner outer_dim = Ok geo" "live \<le> usize_max"
  shows "max_blocks_per_slice geo = ceil_div live count \<and>
    logical_input_width geo = ring_elements_per_block_per_polynomial geo * live * polys \<and>
    physical_input_width geo = ring_elements_per_block_per_polynomial geo * ceil_div live count * polys \<and>
    logical_input_width geo \<le> count * physical_input_width geo \<and>
    count * physical_input_width geo < logical_input_width geo + count * (ring_elements_per_block_per_polynomial geo * polys)"
proof -
  let ?e = "ring_elements_per_block_per_polynomial geo"
  have n: "0 < count" "count \<le> live"
    using slice_get_bounds [OF assms(1)] assms(2)
    by (auto simp: slice_geometry_try_new_def slice_block_ranges_def try_r_eq_Inr split: if_splits)
  note rs = slice_ranges_total [OF assms(1) n(2) assms(3)]
  let ?sizes = "(\<lambda>i. Suc i * live div count - i * live div count) ` {0..<count}"
  have geo: "max_blocks_per_slice geo = Max ?sizes" "logical_input_width geo = ?e * live * polys"
      "physical_input_width geo = ?e * max_blocks_per_slice geo * polys" "0 < ?e" "0 < polys"
    using assms(2) rs by (auto simp: slice_geometry_try_new_def try_r_eq_Inr Let_def bind_eq_Some_conv image_image
        is_multiple_of_def div_greater_zero_iff split: if_splits)
  have size: "Suc i * live div count - i * live div count \<le> ceil_div live count" for i
  proof -
    have "Suc i * live \<le> i * live + ceil_div live count * count" using ceil_div_mult_ge [OF n(1), of live] by simp
    then have "Suc i * live div count \<le> (i * live + ceil_div live count * count) div count" by (rule div_le_mono)
    also have "\<dots> = i * live div count + ceil_div live count" using n(1) by simp
    finally show ?thesis by simp
  qed
  have "Max ?sizes = ceil_div live count"
  proof (rule antisym)
    show "Max ?sizes \<le> ceil_div live count" using size n(1) by (subst Max_le_iff) auto
    have "live = (\<Sum>i < count. Suc i * live div count - i * live div count)"
      using slices.sizes_sum [OF rs] by (simp add: comp_def interv_sum_list_conv_sum_set_nat atLeast0LessThan)
    also have "\<dots> \<le> (\<Sum>i < count. Max ?sizes)" using n(1) by (intro sum_mono Max_ge) auto
    finally have "live \<le> Max ?sizes * count" by (simp add: mult.commute)
    then show "ceil_div live count \<le> Max ?sizes" by (rule ceil_div_least [OF n(1)])
  qed
  then have m: "max_blocks_per_slice geo = ceil_div live count" using geo(1) by simp
  have "live \<le> ceil_div live count * count" "ceil_div live count * count < live + count"
    using n(1) by (simp_all add: ceil_div_mult_ge ceil_div_lt)
  then have "?e * polys * live \<le> ?e * polys * (ceil_div live count * count)"
    "?e * polys * (ceil_div live count * count) < ?e * polys * (live + count)" using geo(4,5) by simp_all
  then show ?thesis using m geo by (simp add: algebra_simps)
qed

text \<open>
  C37.  A recursive witness inherits its owners: the chunk ends that alignment computes are
  accepted as the partition of the successor, which covers its live blocks with one range per
  chunk, each body boundary falling exactly where the padded bodies end.
\<close>

theorem inherited_partition_correct:
  assumes "align_chunks shape bl N = Ok (len, ends)" "1 < N" "ws_num_chunks shape \<le> length (body_lengths shape)"
    and "witness_chunk_ends g = ends" "final_live_blocks g = ceil_div len bl"
  shows "\<exists>rs. witness_block_ranges g (length (preceding_live_blocks g)) N = Ok rs \<and> length rs = N \<and>
    covers 0 rs (ceil_div len bl) \<and>
    (\<forall>j < N - 1. snd (rs ! j) * bl =
       padded_sum bl (take (ws_num_chunks shape) (body_lengths shape)) (Suc j * (ws_num_chunks shape div N)))"
proof -
  let ?k = "ws_num_chunks shape div N" and ?S = "padded_sum bl (take (ws_num_chunks shape) (body_lengths shape))"
  note a = align_chunks_ok [OF assms(1,2,3)]
  have len: "length ends = N" using a(6) assms(2) by simp
  have last: "last ends = ceil_div len bl" unfolding a(6) by simp
  have bound: "?S (Suc j * ?k) div bl \<le> ceil_div len bl" if "j < N - 1" for j
  proof -
    have "Suc j * ?k \<le> N * ?k" using that by (intro mult_le_mono1) simp
    then have "?S (Suc j * ?k) \<le> len" using padded_sum_mono [of "Suc j * ?k" "N * ?k"] a(4,5) by (metis le_trans)
    then have "?S (Suc j * ?k) div bl \<le> len div bl" by (rule div_le_mono)
    then show ?thesis by (simp add: ceil_div_def)
  qed
  have "sorted (map (\<lambda>j. ?S (Suc j * ?k) div bl) [0..<N - 1])"
    by (auto simp: sorted_iff_nth_mono intro!: div_le_mono padded_sum_mono add_mono mult_le_mono1)
  then have "sorted (0 # ends)" unfolding a(6) using bound by (auto simp: sorted_append)
  from inherited_total [OF this] obtain rs where rs: "inherited_ranges 0 ends = Ok rs" by blast
  note c = inherited_covers [OF rs]
  have ne: "ends \<noteq> []" using len assms(2) by auto
  then have w: "witness_block_ranges g (length (preceding_live_blocks g)) N = Ok rs"
    using rs a(2,3) len last assms(4,5) by (simp add: witness_block_ranges_def Let_def MAX_WITNESS_CHUNKS_def)
  have rl: "length rs = N" using c len by (metis length_map)
  have "snd (rs ! j) * bl = ?S (Suc j * ?k)" if "j < N - 1" for j
  proof -
    have "j < length rs" using rl that by simp
    then have "snd (rs ! j) = map snd rs ! j" by (rule nth_map [symmetric])
    also have "\<dots> = ends ! j" using c by simp
    also have "\<dots> = ?S (Suc j * ?k) div bl" unfolding a(6) using that by (simp add: nth_append)
    finally show ?thesis using padded_sum_dvd [OF a(1)] by simp
  qed
  then show ?thesis using w rl c ne last by (auto simp: last_ConsR)
qed

theorem inherited_partition_correct_witness:
  "\<exists>len ends rs. align_chunks \<lparr>body_lengths = [5, 9], ws_num_chunks = 2, tail_prefix_len = 3, tail_alignment = 4,
      tail_len = 6, tail_suffix_alignment = 2\<rparr> 4 2 = Ok (len, ends) \<and>
    witness_block_ranges \<lparr>preceding_live_blocks = [], final_live_blocks = ceil_div len 4, witness_chunk_ends = ends\<rparr> 0 2 = Ok rs \<and>
    covers 0 rs (ceil_div len 4)"
proof -
  let ?s = "\<lparr>body_lengths = [5, 9], ws_num_chunks = 2, tail_prefix_len = 3, tail_alignment = 4, tail_len = 6, tail_suffix_alignment = 2\<rparr>"
  have p: "is_power_of_two 1" "is_power_of_two 2" "is_power_of_two 4"
    using is_power_of_two_power [of 0] is_power_of_two_power [of 1] is_power_of_two_power [of 2] by simp_all
  have a: "align_chunks ?s 4 2 = Ok (30, [2, 8])"
    using p by (simp add: align_chunks_def MAX_WITNESS_CHUNKS_def is_multiple_of_def align_up_def checked_add_if usize_max_def
        ceil_div_def Let_def)
  let ?g = "\<lparr>preceding_live_blocks = [], final_live_blocks = ceil_div 30 4, witness_chunk_ends = [2, 8]\<rparr>"
  from inherited_partition_correct [OF a, of ?g] obtain rs where "witness_block_ranges ?g 0 2 = Ok rs" "covers 0 rs (ceil_div 30 4)" by auto
  with a show ?thesis by blast
qed

end
