(* ===== verification/Proof_Channel.thy ===== *)
theory Proof_Channel
  imports Checked_Arith Nonce_Codec
begin

text \<open>
  The proof channel of the crate \<^verbatim>\<open>akita-transcript\<close> (\<^verbatim>\<open>proof_stream.rs\<close>,
  \<^verbatim>\<open>proof_stream/channel.rs\<close>, \<^verbatim>\<open>proof_stream/nonce.rs\<close>, \<^verbatim>\<open>proof_stream/digest.rs\<close>): canonical
  field and extension atoms, word-padded absorption, public, sent and received groups, bounded
  payloads, challenges, and the detached preview of a fold's proof of work.

  The sponge-backed transcript itself (spongefish and \<^verbatim>\<open>jolt_transcript\<close>), the field encodings
  (\<^verbatim>\<open>jolt_field\<close>) and the digest function are other packages.  Their operations are the records
  \<open>transcript\<close> and \<open>field_codec\<close>, arguments of every definition here; what they promise is
  stated with the theorems that rely on it.  Diagnostic context records are built where the code
  builds them, because building one can fail, and are then dropped, as the code does unless
  transcript logging is compiled in.
\<close>

unbundle bit_operations_syntax

section \<open>Operations of the transcript and field packages\<close>

text \<open>
  \<open>'p\<close> and \<open>'v\<close> are the two channel states, \<open>'r\<close> the reader over the argument string, \<open>'s\<close> the
  duplex sponge, \<open>'f\<close> the base field and \<open>'e\<close> the extension field.  A generic operation appears
  once per type it is used at.  The operations that return \<^verbatim>\<open>Result<(), _>\<close> return a flag here,
  the error value being discarded by every caller.
\<close>

record ('p, 'v, 'r, 's, 'f, 'e) transcript =
  p_public_message :: "u8 list \<Rightarrow> 'p \<Rightarrow> 'p"
  p_prover_message :: "u8 list \<Rightarrow> u8 list \<Rightarrow> 'p \<Rightarrow> 'p"
  p_verifier_message :: "nat \<Rightarrow> 'p \<Rightarrow> u8 list \<times> 'p"
  p_challenge_vector :: "nat \<Rightarrow> 'p \<Rightarrow> 'e list option \<times> 'p"
  p_grind :: "nat \<Rightarrow> 'p \<Rightarrow> bool \<times> 'p"
  p_narg_string :: "'p \<Rightarrow> u8 list"
  p_sponge :: "'p \<Rightarrow> 's"
  p_set_sponge :: "'s \<Rightarrow> 'p \<Rightarrow> 'p"
  p_new_with_seed :: 'p
  squeeze_array :: "'s \<Rightarrow> u8 list"
  v_public_message :: "u8 list \<Rightarrow> 'v \<Rightarrow> 'v"
  v_verifier_message :: "nat \<Rightarrow> 'v \<Rightarrow> u8 list \<times> 'v"
  v_challenge_vector :: "nat \<Rightarrow> 'v \<Rightarrow> 'e list option \<times> 'v"
  v_check_grind :: "nat \<Rightarrow> 'v \<Rightarrow> bool \<times> 'v"
  v_check :: "bool \<Rightarrow> 'v \<Rightarrow> bool \<times> 'v"
  v_check_eof :: "'v \<Rightarrow> bool"
  v_message_bytes :: "('r \<Rightarrow> (u8 list \<times> 'r) option) \<Rightarrow> (u8 list \<Rightarrow> u8 list) \<Rightarrow> 'v \<Rightarrow> u8 list option \<times> 'v"
  v_message_u32 :: "('r \<Rightarrow> (u32 \<times> 'r) option) \<Rightarrow> (u32 \<Rightarrow> u8 list) \<Rightarrow> 'v \<Rightarrow> u32 option \<times> 'v"
  v_message_fields :: "('r \<Rightarrow> ('f list \<times> 'r) option) \<Rightarrow> ('f list \<Rightarrow> u8 list) \<Rightarrow> 'v \<Rightarrow> 'f list option \<times> 'v"
  v_message_exts :: "('r \<Rightarrow> ('e list \<times> 'r) option) \<Rightarrow> ('e list \<Rightarrow> u8 list) \<Rightarrow> 'v \<Rightarrow> 'e list option \<times> 'v"
  reader_take :: "nat \<Rightarrow> 'r \<Rightarrow> (u8 list \<times> 'r) option"
  u32_from_narg :: "'r \<Rightarrow> (u32 \<times> 'r) option"
  challenge_bytes :: "nat \<Rightarrow> nat option"
  bytes_msg :: "u8 list \<Rightarrow> u8 list"
  protocol_tag :: "string \<Rightarrow> u8 list"
  digest_hash :: "u8 list \<Rightarrow> u8 list"
  try_reserve :: "nat \<Rightarrow> bool"

record ('f, 'e) field_codec =
  num_bytes :: nat
  to_bytes_le :: "'f \<Rightarrow> u8 list"
  from_bytes_le_checked :: "u8 list \<Rightarrow> 'f option"
  ext_degree :: nat
  to_base_vec :: "'e \<Rightarrow> 'f list"
  from_base_slice :: "'f list \<Rightarrow> 'e"

section \<open>Protocol records\<close>

datatype protocol_message_kind =
  PublicValue | ProofLength | ProofAtoms | Challenge | GrindingNonce | GrindingCheck | FoldResponseNonce

fun message_kind_tag :: "protocol_message_kind \<Rightarrow> nat" where
  "message_kind_tag PublicValue = 1"
| "message_kind_tag ProofLength = 2"
| "message_kind_tag ProofAtoms = 3"
| "message_kind_tag Challenge = 4"
| "message_kind_tag GrindingNonce = 5"
| "message_kind_tag GrindingCheck = 6"
| "message_kind_tag FoldResponseNonce = 7"

record protocol_context_record =
  site_id_bytes :: "u8 list"
  message_kind :: nat
  atom_count :: nat
  encoded_bytes :: nat
  squeezed_bytes :: nat

definition default_site :: protocol_site_id where
  "default_site = \<lparr>family = 0, invocation = 0, level = 0, stage = 0, round = 0, group = 0, limb = 0, detail = 0\<rparr>"

definition group_record ::
  "protocol_site_id \<Rightarrow> protocol_message_kind \<Rightarrow> nat option \<Rightarrow> nat \<Rightarrow> protocol_context_record result" where
  "group_record site kind count atom_bytes =
     (let overflow = InvalidInput ''proof group record size overflows usize''
      in try_r (ok_or count overflow) (\<lambda>n.
         try_r (ok_or (checked_mul n atom_bytes) overflow) (\<lambda>bytes.
         try_r (usize_to_u64 n ''proof group atom count'') (\<lambda>n64.
         try_r (usize_to_u64 bytes ''proof group encoded byte count'') (\<lambda>b64.
           Ok \<lparr>site_id_bytes = to_bytes site, message_kind = message_kind_tag kind,
               atom_count = n64, encoded_bytes = b64, squeezed_bytes = 0\<rparr>)))))"

section \<open>Atoms\<close>

text \<open>
  Encoded bytes of one atom: inline in a 64-byte buffer when they fit, on the heap otherwise.
  \<open>fill\<close> is the closure that overwrites the slice it is given.
\<close>

datatype atom_bytes = Inline "u8 list" nat | Heap "u8 list"

definition with_len :: "nat \<Rightarrow> (u8 list \<Rightarrow> u8 list) \<Rightarrow> atom_bytes" where
  "with_len len fill =
     (let bytes = replicate 64 0
      in if len \<le> 64 then Inline (fill (take len bytes) @ drop len bytes) len
         else Heap (fill (replicate len 0)))"

fun as_ref :: "atom_bytes \<Rightarrow> u8 list" where
  "as_ref (Inline bytes len) = (if len \<le> length bytes then take len bytes else [])"
| "as_ref (Heap bytes) = bytes"

definition field_encode :: "('f, 'e) field_codec \<Rightarrow> 'f \<Rightarrow> u8 list" where
  "field_encode fc x = as_ref (with_len (num_bytes fc) (\<lambda>out. to_bytes_le fc x))"

text \<open>The loop over coefficients zipped with \<^verbatim>\<open>out.chunks_exact_mut(NUM_BYTES)\<close>.\<close>

fun fill_chunks :: "('f, 'e) field_codec \<Rightarrow> 'f list \<Rightarrow> u8 list \<Rightarrow> u8 list" where
  "fill_chunks fc [] out = out"
| "fill_chunks fc (c # cs) out =
     (if num_bytes fc \<le> length out \<and> 0 < num_bytes fc
      then to_bytes_le fc c @ fill_chunks fc cs (drop (num_bytes fc) out) else out)"

definition ext_encode :: "('f, 'e) field_codec \<Rightarrow> 'e \<Rightarrow> u8 list" where
  "ext_encode fc x =
     (let coefficients = to_base_vec fc x
      in as_ref (with_len (length coefficients * num_bytes fc) (fill_chunks fc coefficients)))"

definition field_from_narg ::
  "('p, 'v, 'r, 's, 'f, 'e) transcript \<Rightarrow> ('f, 'e) field_codec \<Rightarrow> 'r \<Rightarrow> ('f \<times> 'r) option" where
  "field_from_narg tr fc reader =
     (case reader_take tr (num_bytes fc) reader of
        None \<Rightarrow> None
      | Some (encoded, reader') \<Rightarrow> map_option (\<lambda>x. (x, reader')) (from_bytes_le_checked fc encoded))"

text \<open>\<^verbatim>\<open>for _ in 0..count\<close> over one reader, stopping at the first failed atom.\<close>

fun read_many :: "('r \<Rightarrow> ('a \<times> 'r) option) \<Rightarrow> nat \<Rightarrow> 'r \<Rightarrow> ('a list \<times> 'r) option" where
  "read_many parse 0 reader = Some ([], reader)"
| "read_many parse (Suc n) reader =
     (case parse reader of
        None \<Rightarrow> None
      | Some (x, reader') \<Rightarrow>
          (case read_many parse n reader' of
             None \<Rightarrow> None
           | Some (xs, reader'') \<Rightarrow> Some (x # xs, reader'')))"

definition ext_from_narg ::
  "('p, 'v, 'r, 's, 'f, 'e) transcript \<Rightarrow> ('f, 'e) field_codec \<Rightarrow> 'r \<Rightarrow> ('e \<times> 'r) option" where
  "ext_from_narg tr fc reader =
     (if \<not> try_reserve tr (ext_degree fc) then None
      else case read_many (field_from_narg tr fc) (ext_degree fc) reader of
             None \<Rightarrow> None
           | Some (coefficients, reader') \<Rightarrow> Some (from_base_slice fc coefficients, reader'))"

definition next_multiple_of :: "nat \<Rightarrow> nat \<Rightarrow> nat" where
  "next_multiple_of n m = (if n mod m = 0 then n else n + (m - n mod m))"

definition word_padded :: "u8 list \<Rightarrow> u8 list" where
  "word_padded bytes = bytes @ replicate (next_multiple_of (length bytes) 8 - length bytes) 0"

definition length_word :: "u32 \<Rightarrow> u8 list" where
  "length_word len = le_bytes 8 (ucast len :: u64)"

definition encode_atoms :: "('a \<Rightarrow> u8 list) \<Rightarrow> 'a list \<Rightarrow> u8 list" where
  "encode_atoms enc atoms = concat (map enc atoms)"

section \<open>Sending and receiving atoms\<close>

definition invalid_proof :: "'a option \<Rightarrow> 'a result" where
  "invalid_proof r = ok_or r InvalidProof"

definition reject :: "('p, 'v, 'r, 's, 'f, 'e) transcript \<Rightarrow> 'v \<Rightarrow> 'v" where
  "reject tr v = snd (v_check tr False v)"

definition send_padded :: "('p, 'v, 'r, 's, 'f, 'e) transcript \<Rightarrow> u8 list \<Rightarrow> 'p \<Rightarrow> 'p" where
  "send_padded tr bytes p = (if bytes = [] then p else p_prover_message tr (word_padded bytes) bytes p)"

definition send_atoms :: "('p, 'v, 'r, 's, 'f, 'e) transcript \<Rightarrow> ('a \<Rightarrow> u8 list) \<Rightarrow> 'a list \<Rightarrow> 'p \<Rightarrow> 'p" where
  "send_atoms tr enc atoms p = send_padded tr (encode_atoms enc atoms) p"

text \<open>\<open>message\<close> is the verifier's \<^verbatim>\<open>prover_message_with\<close> at the type of the atoms.\<close>

definition receive_atoms ::
  "('p, 'v, 'r, 's, 'f, 'e) transcript \<Rightarrow>
   (('r \<Rightarrow> ('a list \<times> 'r) option) \<Rightarrow> ('a list \<Rightarrow> u8 list) \<Rightarrow> 'v \<Rightarrow> 'a list option \<times> 'v) \<Rightarrow>
   ('a \<Rightarrow> u8 list) \<Rightarrow> ('r \<Rightarrow> ('a \<times> 'r) option) \<Rightarrow> nat \<Rightarrow> 'v \<Rightarrow> ('a list, 'v) outcome" where
  "receive_atoms tr message enc parse count v =
     (if \<not> try_reserve tr count then (Err InvalidProof, reject tr v)
      else if count = 0 then (Ok [], v)
      else case message (read_many parse count) (\<lambda>atoms. word_padded (encode_atoms enc atoms)) v of
             (received, v') \<Rightarrow> (invalid_proof received, v'))"

section \<open>The role-generic channel\<close>

text \<open>
  The trait \<^verbatim>\<open>ProofChannel\<close>: \<open>ch_exchange\<close> returns the messages after the exchange, and
  \<open>ch_on_error\<close> is what \<^verbatim>\<open>guard\<close> does to the state when its argument is an error.
\<close>

record ('c, 'e) proof_channel =
  ch_public :: "u8 list \<Rightarrow> 'c \<Rightarrow> 'c"
  ch_exchange :: "'e list \<Rightarrow> 'c \<Rightarrow> ('e list, 'c) outcome"
  ch_challenges :: "nat \<Rightarrow> 'c \<Rightarrow> ('e list, 'c) outcome"
  ch_on_error :: "'c \<Rightarrow> 'c"

definition guard :: "('c, 'e) proof_channel \<Rightarrow> 'a result \<Rightarrow> 'c \<Rightarrow> ('a, 'c) outcome" where
  "guard ch r c = (r, if is_ok r then c else ch_on_error ch c)"

definition prover_public :: "('p, 'v, 'r, 's, 'f, 'e) transcript \<Rightarrow> u8 list \<Rightarrow> 'p \<Rightarrow> 'p" where
  "prover_public tr bytes p = (if bytes \<noteq> [] then p_public_message tr (word_padded bytes) p else p)"

definition prover_exchange ::
  "('p, 'v, 'r, 's, 'f, 'e) transcript \<Rightarrow> ('f, 'e) field_codec \<Rightarrow> 'e list \<Rightarrow> 'p \<Rightarrow> ('e list, 'p) outcome" where
  "prover_exchange tr fc messages p = (Ok messages, send_atoms tr (ext_encode fc) messages p)"

definition prover_challenges ::
  "('p, 'v, 'r, 's, 'f, 'e) transcript \<Rightarrow> nat \<Rightarrow> 'p \<Rightarrow> ('e list, 'p) outcome" where
  "prover_challenges tr len p =
     (case p_challenge_vector tr len p of (drawn, p') \<Rightarrow>
        (ok_or drawn (InvalidSetup ''field challenge codec rejected the message length or exhausted its pool''), p'))"

definition prover_challenge_message ::
  "('p, 'v, 'r, 's, 'f, 'e) transcript \<Rightarrow> nat \<Rightarrow> (u8 list \<Rightarrow> 'a result) \<Rightarrow> 'p \<Rightarrow> ('a, 'p) outcome" where
  "prover_challenge_message tr len decode p =
     (case p_verifier_message tr len p of (bytes, p') \<Rightarrow> (decode bytes, p'))"

definition prover_channel ::
  "('p, 'v, 'r, 's, 'f, 'e) transcript \<Rightarrow> ('f, 'e) field_codec \<Rightarrow> ('p, 'e) proof_channel" where
  "prover_channel tr fc =
     \<lparr>ch_public = prover_public tr, ch_exchange = prover_exchange tr fc,
      ch_challenges = prover_challenges tr, ch_on_error = (\<lambda>p. p)\<rparr>"

definition verifier_public :: "('p, 'v, 'r, 's, 'f, 'e) transcript \<Rightarrow> u8 list \<Rightarrow> 'v \<Rightarrow> 'v" where
  "verifier_public tr bytes v = (if bytes \<noteq> [] then v_public_message tr (word_padded bytes) v else v)"

text \<open>Overwriting the slots of a slice with the received values, pairwise.\<close>

fun overwrite :: "'a list \<Rightarrow> 'a list \<Rightarrow> 'a list" where
  "overwrite (slot # slots) (x # xs) = x # overwrite slots xs"
| "overwrite slots xs = slots"

definition verifier_exchange ::
  "('p, 'v, 'r, 's, 'f, 'e) transcript \<Rightarrow> ('f, 'e) field_codec \<Rightarrow> 'e list \<Rightarrow> 'v \<Rightarrow> ('e list, 'v) outcome" where
  "verifier_exchange tr fc messages v =
     st_bind (receive_atoms tr (v_message_exts tr) (ext_encode fc) (ext_from_narg tr fc) (length messages) v)
       (\<lambda>received v'. (Ok (overwrite messages received), v'))"

definition verifier_challenges ::
  "('p, 'v, 'r, 's, 'f, 'e) transcript \<Rightarrow> nat \<Rightarrow> 'v \<Rightarrow> ('e list, 'v) outcome" where
  "verifier_challenges tr len v =
     (case v_challenge_vector tr len v of (drawn, v') \<Rightarrow> (invalid_proof drawn, v'))"

definition verifier_challenge_message ::
  "('p, 'v, 'r, 's, 'f, 'e) transcript \<Rightarrow> nat \<Rightarrow> (u8 list \<Rightarrow> 'a result) \<Rightarrow> 'v \<Rightarrow> ('a, 'v) outcome" where
  "verifier_challenge_message tr len decode v =
     (case v_check tr True v of (ok, v1) \<Rightarrow>
        if \<not> ok then (Err InvalidProof, v1)
        else case v_verifier_message tr len v1 of (bytes, v2) \<Rightarrow>
               let res = decode bytes
               in case v_check tr (is_ok res) v2 of (ok', v3) \<Rightarrow>
                    if \<not> ok' then (Err InvalidProof, v3) else (res, v3))"

definition verifier_channel ::
  "('p, 'v, 'r, 's, 'f, 'e) transcript \<Rightarrow> ('f, 'e) field_codec \<Rightarrow> ('v, 'e) proof_channel" where
  "verifier_channel tr fc =
     \<lparr>ch_public = verifier_public tr, ch_exchange = verifier_exchange tr fc,
      ch_challenges = verifier_challenges tr, ch_on_error = reject tr\<rparr>"

section \<open>Public groups\<close>

definition public_bytes ::
  "('c, 'e) proof_channel \<Rightarrow> protocol_site_id \<Rightarrow> u8 list \<Rightarrow> 'c \<Rightarrow> (unit, 'c) outcome" where
  "public_bytes ch site bytes c =
     st_bind (guard ch (group_record site PublicValue (Some (length bytes)) 1) c)
       (\<lambda>_ c'. (Ok (), ch_public ch bytes c'))"

definition public_fields ::
  "('c, 'e) proof_channel \<Rightarrow> ('f, 'e) field_codec \<Rightarrow> protocol_site_id \<Rightarrow> 'f list \<Rightarrow> 'c \<Rightarrow> (unit, 'c) outcome" where
  "public_fields ch fc site values c =
     st_bind (guard ch (group_record site PublicValue (Some (length values)) (num_bytes fc)) c)
       (\<lambda>_ c'. (Ok (), ch_public ch (encode_atoms (field_encode fc) values) c'))"

definition public_extensions ::
  "('c, 'e) proof_channel \<Rightarrow> ('f, 'e) field_codec \<Rightarrow> protocol_site_id \<Rightarrow> 'e list \<Rightarrow> 'c \<Rightarrow> (unit, 'c) outcome" where
  "public_extensions ch fc site values c =
     st_bind (guard ch (group_record site PublicValue (checked_mul (length values) (ext_degree fc)) (num_bytes fc)) c)
       (\<lambda>_ c'. (Ok (), ch_public ch (encode_atoms (ext_encode fc) values) c'))"

definition site_family_instance :: u32 where
  "site_family_instance = 13"

definition bind_instance ::
  "('p, 'v, 'r, 's, 'f, 'e) transcript \<Rightarrow> ('c, 'e) proof_channel \<Rightarrow> u8 list \<Rightarrow> 'c \<Rightarrow> (unit, 'c) outcome" where
  "bind_instance tr ch descriptor c =
     (let bytes = protocol_tag tr ''akita-pcs/transcript/v8/sha3'' @ bytes_msg tr descriptor;
          site = default_site\<lparr>family := site_family_instance\<rparr>
      in public_bytes ch site bytes c)"

section \<open>Byte groups and bounded payloads\<close>

definition send_byte_group ::
  "('p, 'v, 'r, 's, 'f, 'e) transcript \<Rightarrow> protocol_site_id \<Rightarrow> u8 list \<Rightarrow> 'p \<Rightarrow> (unit, 'p) outcome" where
  "send_byte_group tr site bytes p =
     st_bind (group_record site ProofAtoms (Some (length bytes)) 1, p)
       (\<lambda>_ p. (Ok (), send_padded tr bytes p))"

definition receive_byte_group ::
  "('p, 'v, 'r, 's, 'f, 'e) transcript \<Rightarrow> ('f, 'e) field_codec \<Rightarrow> protocol_site_id \<Rightarrow> nat \<Rightarrow> 'v \<Rightarrow>
   (u8 list, 'v) outcome" where
  "receive_byte_group tr fc site len v =
     st_bind (guard (verifier_channel tr fc) (group_record site ProofAtoms (Some len) 1) v)
       (\<lambda>_ v. if len = 0 then (Ok [], v)
              else case v_message_bytes tr (reader_take tr len) word_padded v of
                     (received, v') \<Rightarrow> (invalid_proof received, v'))"

definition payload_site :: "protocol_site_id \<Rightarrow> protocol_site_id" where
  "payload_site site = site\<lparr>stage := 1\<rparr>"

definition send_bounded_bytes ::
  "('p, 'v, 'r, 's, 'f, 'e) transcript \<Rightarrow> protocol_site_id \<Rightarrow> u8 list \<Rightarrow> nat \<Rightarrow> 'p \<Rightarrow> (unit, 'p) outcome" where
  "send_bounded_bytes tr site bytes max_len p =
     (if length bytes > max_len
      then (Err (InvalidInput ''bounded proof payload length exceeds its scheduled maximum''), p)
      else if length bytes > u32_max
      then (Err (InvalidInput ''bounded proof payload length does not fit u32''), p)
      else let len = of_nat (length bytes) :: u32
           in send_byte_group tr (payload_site site) bytes
                (p_prover_message tr (length_word len) (le_bytes 4 len) p))"

definition receive_bounded_bytes ::
  "('p, 'v, 'r, 's, 'f, 'e) transcript \<Rightarrow> ('f, 'e) field_codec \<Rightarrow> protocol_site_id \<Rightarrow> nat \<Rightarrow> 'v \<Rightarrow>
   (u8 list, 'v) outcome" where
  "receive_bounded_bytes tr fc site max_len v =
     (case v_message_u32 tr (u32_from_narg tr) length_word v of
        (received, v') \<Rightarrow>
          st_bind (invalid_proof received, v')
            (\<lambda>len v'. if unat len \<le> max_len then receive_byte_group tr fc (payload_site site) (unat len) v'
                      else (Err InvalidProof, reject tr v')))"

section \<open>Field and extension groups\<close>

definition send_field_group ::
  "('p, 'v, 'r, 's, 'f, 'e) transcript \<Rightarrow> ('f, 'e) field_codec \<Rightarrow> protocol_site_id \<Rightarrow> 'f list \<Rightarrow> 'p \<Rightarrow>
   (unit, 'p) outcome" where
  "send_field_group tr fc site values p =
     st_bind (group_record site ProofAtoms (Some (length values)) (num_bytes fc), p)
       (\<lambda>_ p. (Ok (), send_atoms tr (field_encode fc) values p))"

definition receive_field_group ::
  "('p, 'v, 'r, 's, 'f, 'e) transcript \<Rightarrow> ('f, 'e) field_codec \<Rightarrow> protocol_site_id \<Rightarrow> nat \<Rightarrow> 'v \<Rightarrow>
   ('f list, 'v) outcome" where
  "receive_field_group tr fc site value_count v =
     st_bind (guard (verifier_channel tr fc) (group_record site ProofAtoms (Some value_count) (num_bytes fc)) v)
       (\<lambda>_ v. receive_atoms tr (v_message_fields tr) (field_encode fc) (field_from_narg tr fc) value_count v)"

definition extension_slots ::
  "('p, 'v, 'r, 's, 'f, 'e) transcript \<Rightarrow> ('c, 'e::zero) proof_channel \<Rightarrow> nat \<Rightarrow> 'c \<Rightarrow> ('e list, 'c) outcome" where
  "extension_slots tr ch count c =
     st_bind (guard ch (if try_reserve tr count then Ok () else Err InvalidProof) c)
       (\<lambda>_ c'. (Ok (replicate count 0), c'))"

definition exchange_extension_group ::
  "('c, 'e) proof_channel \<Rightarrow> ('f, 'e) field_codec \<Rightarrow> protocol_site_id \<Rightarrow> 'e list \<Rightarrow> 'c \<Rightarrow> ('e list, 'c) outcome" where
  "exchange_extension_group ch fc site values c =
     st_bind (guard ch (group_record site ProofAtoms (checked_mul (length values) (ext_degree fc)) (num_bytes fc)) c)
       (\<lambda>_ c'. st_bind (ch_exchange ch values c') (\<lambda>atoms c''. (Ok (overwrite values atoms), c'')))"

section \<open>Challenges\<close>

definition ext_challenges ::
  "('p, 'v, 'r, 's, 'f, 'e) transcript \<Rightarrow> ('c, 'e) proof_channel \<Rightarrow> protocol_site_id \<Rightarrow> nat \<Rightarrow> 'c \<Rightarrow>
   ('e list, 'c) outcome" where
  "ext_challenges tr ch site count c =
     st_bind (guard ch (usize_to_u64 (case challenge_bytes tr count of Some n \<Rightarrow> n | None \<Rightarrow> 0)
                         ''challenge message byte count'') c)
       (\<lambda>_ c'. ch_challenges ch count c')"

text \<open>\<^verbatim>\<open>Vec::pop\<close>: the last element.\<close>

definition vec_pop :: "'a list \<Rightarrow> 'a option" where
  "vec_pop xs = (if xs = [] then None else Some (last xs))"

definition ext_challenge ::
  "('p, 'v, 'r, 's, 'f, 'e) transcript \<Rightarrow> ('c, 'e) proof_channel \<Rightarrow> protocol_site_id \<Rightarrow> 'c \<Rightarrow> ('e, 'c) outcome" where
  "ext_challenge tr ch site c =
     st_bind (ext_challenges tr ch site 1 c)
       (\<lambda>drawn c'. guard ch (ok_or (vec_pop drawn) (Internal ''challenge codec returned no element'')) c')"

section \<open>Nonces and digests\<close>

definition send_nonce :: "('p, 'v, 'r, 's, 'f, 'e) transcript \<Rightarrow> u32 \<Rightarrow> 'p \<Rightarrow> 'p" where
  "send_nonce tr v p = p_prover_message tr (nonce_word v) (wire v) p"

text \<open>\<^verbatim>\<open>reader.take_array::<1>()\<close>.\<close>

definition take_array_1 :: "('p, 'v, 'r, 's, 'f, 'e) transcript \<Rightarrow> 'r \<Rightarrow> (u8 \<times> 'r) option" where
  "take_array_1 tr reader =
     (case reader_take tr 1 reader of Some ([b], reader') \<Rightarrow> Some (b, reader') | _ \<Rightarrow> None)"

definition receive_nonce :: "('p, 'v, 'r, 's, 'f, 'e) transcript \<Rightarrow> 'v \<Rightarrow> (u32, 'v) outcome" where
  "receive_nonce tr v =
     (case v_message_u32 tr (from_narg (take_array_1 tr)) nonce_word v of
        (received, v') \<Rightarrow> (invalid_proof received, v'))"

definition commitment_digest :: "('p, 'v, 'r, 's, 'f, 'e) transcript \<Rightarrow> u8 list \<Rightarrow> u8 list" where
  "commitment_digest tr bytes = digest_hash tr (protocol_tag tr ''akita-pcs/commitment-digest/v8'' @ bytes)"

fun hash_updates :: "('f, 'e) field_codec \<Rightarrow> u8 list \<Rightarrow> 'f list \<Rightarrow> u8 list" where
  "hash_updates fc hashed [] = hashed"
| "hash_updates fc hashed (x # xs) = hash_updates fc (hashed @ field_encode fc x) xs"

definition field_digest :: "('p, 'v, 'r, 's, 'f, 'e) transcript \<Rightarrow> ('f, 'e) field_codec \<Rightarrow> 'f list \<Rightarrow> u8 list" where
  "field_digest tr fc values =
     digest_hash tr (hash_updates fc (protocol_tag tr ''akita-pcs/field-digest/v8'') values)"

definition send_field_digest ::
  "('p, 'v, 'r, 's, 'f, 'e) transcript \<Rightarrow> ('f, 'e) field_codec \<Rightarrow> protocol_site_id \<Rightarrow> 'f list \<Rightarrow> 'p \<Rightarrow>
   (unit, 'p) outcome" where
  "send_field_digest tr fc site values p = send_byte_group tr site (field_digest tr fc values) p"

definition receive_field_digest ::
  "('p, 'v, 'r, 's, 'f, 'e) transcript \<Rightarrow> ('f, 'e) field_codec \<Rightarrow> protocol_site_id \<Rightarrow> 'v \<Rightarrow>
   (u8 list, 'v) outcome" where
  "receive_field_digest tr fc site v =
     st_bind (receive_byte_group tr fc site 32 v)
       (\<lambda>bytes v'. (if length bytes = 32 then Ok bytes else Err InvalidProof, v'))"

section \<open>Fold preview\<close>

record 's fold_work =
  work_nonce :: u32
  work_start :: "u8 list"
  work_sponge :: 's
  work_argument :: "u8 list"

record ('p, 's) fold_preview =
  preview_state :: 'p
  preview_nonce :: u32
  preview_work :: "'s fold_work option"

definition sponge_fingerprint :: "('p, 'v, 'r, 's, 'f, 'e) transcript \<Rightarrow> 's \<Rightarrow> u8 list" where
  "sponge_fingerprint tr sponge = squeeze_array tr sponge"

definition fold_work_commit ::
  "('p, 'v, 'r, 's, 'f, 'e) transcript \<Rightarrow> 's fold_work \<Rightarrow> 'p \<Rightarrow> (unit, 'p) outcome" where
  "fold_work_commit tr work p =
     (if sponge_fingerprint tr (p_sponge tr p) \<noteq> work_start work
      then (Err (Internal ''live transcript diverged from the fold preview''), p)
      else (Ok (), p_set_sponge tr (work_sponge work) (p_prover_message tr [] (work_argument work) p)))"

definition preview_new ::
  "('p, 'v, 'r, 's, 'f, 'e) transcript \<Rightarrow> 'p \<Rightarrow> u32 \<Rightarrow> ('p, 's) fold_preview" where
  "preview_new tr live nonce =
     (let detached = p_set_sponge tr (p_sponge tr live) (p_new_with_seed tr)
      in \<lparr>preview_state = p_public_message tr (nonce_word nonce) detached,
          preview_nonce = nonce, preview_work = None\<rparr>)"

definition preview_grind ::
  "('p, 'v, 'r, 's, 'f, 'e) transcript \<Rightarrow> nat \<Rightarrow> ('p, 's) fold_preview \<Rightarrow>
   (unit, ('p, 's) fold_preview) outcome" where
  "preview_grind tr bits preview =
     (if preview_work preview \<noteq> None
      then (Err (Internal ''fold preview ran its proof of work twice''), preview)
      else let start = sponge_fingerprint tr (p_sponge tr (preview_state preview))
           in case p_grind tr bits (preview_state preview) of (found, state) \<Rightarrow>
                if \<not> found
                then (Err (InvalidSetup ''fold preview proof of work failed''), preview\<lparr>preview_state := state\<rparr>)
                else (Ok (), preview\<lparr>preview_state := state, preview_work := Some
                       \<lparr>work_nonce = preview_nonce preview, work_start = start,
                        work_sponge = p_sponge tr state, work_argument = p_narg_string tr state\<rparr>\<rparr>))"

definition take_work ::
  "('p, 's) fold_preview \<Rightarrow> ('s fold_work, ('p, 's) fold_preview) outcome" where
  "take_work preview =
     (ok_or (preview_work preview) (Internal ''fold preview has no proof of work''),
      preview\<lparr>preview_work := None\<rparr>)"

definition preview_challenge_message ::
  "('p, 'v, 'r, 's, 'f, 'e) transcript \<Rightarrow> nat \<Rightarrow> (u8 list \<Rightarrow> 'a result) \<Rightarrow> ('p, 's) fold_preview \<Rightarrow>
   ('a, ('p, 's) fold_preview) outcome" where
  "preview_challenge_message tr len decode preview =
     (case p_verifier_message tr len (preview_state preview) of
        (bytes, state) \<Rightarrow> (decode bytes, preview\<lparr>preview_state := state\<rparr>))"

end
