(* ===== verification/Proof_Channel_Correct.thy ===== *)
theory Proof_Channel_Correct
  imports Proof_Channel "HOL-Library.Sublist"
begin

text \<open>
  What the proof channel promises, on top of what the transcript and field packages document.

  \<open>mirrors\<close> is the simulation between the two ends: whenever the prover's step succeeds, the
  verifier's step on a synchronised state returns the same value and stays synchronised, and
  the prover only appends to the argument string.  \<open>fail_closed\<close> is the safety side: a verifier
  step that returns an error leaves the state rejected, and no step revives a rejected state.
  Both are closed under sequencing, so the properties of composite operations follow from those
  of the channel's four primitives (the locale \<open>mirrored_channels\<close>).
\<close>

section \<open>Hypotheses on the transcript package\<close>

text \<open>
  The verifier state seen from outside: its sponge, its reader, and whether it was rejected; the
  pure functions the sponge computes; and \<open>vw_pow\<close>, the search of a proof of work from a sponge:
  the nonce bytes it sends and the sponge it leaves.
\<close>

record ('v, 'r, 's, 'e) transcript_view =
  vw_sponge :: "'v \<Rightarrow> 's"
  vw_reader :: "'v \<Rightarrow> 'r"
  vw_live :: "'v \<Rightarrow> bool"
  vw_rest :: "'r \<Rightarrow> u8 list"
  vw_absorb :: "u8 list \<Rightarrow> 's \<Rightarrow> 's"
  vw_squeeze :: "nat \<Rightarrow> 's \<Rightarrow> u8 list \<times> 's"
  vw_codec :: "nat \<Rightarrow> 's \<Rightarrow> 'e list option \<times> 's"
  vw_pow :: "nat \<Rightarrow> 's \<Rightarrow> (u8 list \<times> 's) option"

text \<open>
  The prover state: public messages are absorbed and not sent, prover messages are absorbed in
  one form and sent in another, challenges and proofs of work are functions of the sponge.
\<close>

definition prover_laws ::
  "('p, 'v, 'r, 's, 'f, 'e) transcript \<Rightarrow> ('v, 'r, 's, 'e) transcript_view \<Rightarrow> bool" where
  "prover_laws tr vw \<longleftrightarrow>
     (\<forall>b p. p_sponge tr (p_public_message tr b p) = vw_absorb vw b (p_sponge tr p) \<and>
            p_narg_string tr (p_public_message tr b p) = p_narg_string tr p) \<and>
     (\<forall>b w p. p_sponge tr (p_prover_message tr b w p) = vw_absorb vw b (p_sponge tr p) \<and>
              p_narg_string tr (p_prover_message tr b w p) = p_narg_string tr p @ w) \<and>
     (\<forall>n p. fst (p_verifier_message tr n p) = fst (vw_squeeze vw n (p_sponge tr p)) \<and>
            p_sponge tr (snd (p_verifier_message tr n p)) = snd (vw_squeeze vw n (p_sponge tr p)) \<and>
            p_narg_string tr (snd (p_verifier_message tr n p)) = p_narg_string tr p) \<and>
     (\<forall>n p. fst (p_challenge_vector tr n p) = fst (vw_codec vw n (p_sponge tr p)) \<and>
            p_sponge tr (snd (p_challenge_vector tr n p)) = snd (vw_codec vw n (p_sponge tr p)) \<and>
            p_narg_string tr (snd (p_challenge_vector tr n p)) = p_narg_string tr p) \<and>
     (\<forall>n p. case vw_pow vw n (p_sponge tr p) of
              None \<Rightarrow> \<not> fst (p_grind tr n p)
            | Some (w, s) \<Rightarrow> fst (p_grind tr n p) \<and> p_sponge tr (snd (p_grind tr n p)) = s \<and>
                p_narg_string tr (snd (p_grind tr n p)) = p_narg_string tr p @ w) \<and>
     (\<forall>s p. p_sponge tr (p_set_sponge tr s p) = s \<and> p_narg_string tr (p_set_sponge tr s p) = p_narg_string tr p) \<and>
     p_narg_string tr (p_new_with_seed tr) = []"

text \<open>The reader hands out exactly the bytes asked for, in order, or fails.\<close>

definition reader_laws ::
  "('p, 'v, 'r, 's, 'f, 'e) transcript \<Rightarrow> ('v, 'r, 's, 'e) transcript_view \<Rightarrow> bool" where
  "reader_laws tr vw \<longleftrightarrow>
     (\<forall>n r. if n \<le> length (vw_rest vw r)
            then \<exists>r'. reader_take tr n r = Some (take n (vw_rest vw r), r') \<and> vw_rest vw r' = drop n (vw_rest vw r)
            else reader_take tr n r = None) \<and>
     (\<forall>r. if 4 \<le> length (vw_rest vw r)
          then \<exists>r'. u32_from_narg tr r = Some (from_le_bytes (take 4 (vw_rest vw r)), r') \<and>
                 vw_rest vw r' = drop 4 (vw_rest vw r)
          else u32_from_narg tr r = None)"

text \<open>
  Reading one prover message: on a live state the parser runs on the reader, and its value is
  absorbed in the given form; a failed parse rejects the state, and a rejected state stays so.
\<close>

definition message_laws ::
  "('v, 'r, 's, 'e) transcript_view \<Rightarrow>
   (('r \<Rightarrow> ('a \<times> 'r) option) \<Rightarrow> ('a \<Rightarrow> u8 list) \<Rightarrow> 'v \<Rightarrow> 'a option \<times> 'v) \<Rightarrow> bool" where
  "message_laws vw message \<longleftrightarrow>
     (\<forall>parse absorbed v.
        if vw_live vw v then
          (case parse (vw_reader vw v) of
             None \<Rightarrow> fst (message parse absorbed v) = None \<and> \<not> vw_live vw (snd (message parse absorbed v))
           | Some (x, r) \<Rightarrow> fst (message parse absorbed v) = Some x \<and>
               vw_live vw (snd (message parse absorbed v)) \<and>
               vw_reader vw (snd (message parse absorbed v)) = r \<and>
               vw_sponge vw (snd (message parse absorbed v)) = vw_absorb vw (absorbed x) (vw_sponge vw v))
        else fst (message parse absorbed v) = None \<and> \<not> vw_live vw (snd (message parse absorbed v)))"

definition verifier_laws ::
  "('p, 'v, 'r, 's, 'f, 'e) transcript \<Rightarrow> ('v, 'r, 's, 'e) transcript_view \<Rightarrow> bool" where
  "verifier_laws tr vw \<longleftrightarrow>
     message_laws vw (v_message_bytes tr) \<and> message_laws vw (v_message_u32 tr) \<and>
     message_laws vw (v_message_fields tr) \<and> message_laws vw (v_message_exts tr) \<and>
     (\<forall>b v. vw_live vw (v_public_message tr b v) = vw_live vw v \<and>
            vw_reader vw (v_public_message tr b v) = vw_reader vw v \<and>
            vw_sponge vw (v_public_message tr b v) = vw_absorb vw b (vw_sponge vw v)) \<and>
     (\<forall>n v. vw_live vw (snd (v_verifier_message tr n v)) = vw_live vw v \<and>
            vw_reader vw (snd (v_verifier_message tr n v)) = vw_reader vw v \<and>
            fst (v_verifier_message tr n v) = fst (vw_squeeze vw n (vw_sponge vw v)) \<and>
            vw_sponge vw (snd (v_verifier_message tr n v)) = snd (vw_squeeze vw n (vw_sponge vw v))) \<and>
     (\<forall>n v. if vw_live vw v \<and> fst (vw_codec vw n (vw_sponge vw v)) \<noteq> None
            then fst (v_challenge_vector tr n v) = fst (vw_codec vw n (vw_sponge vw v)) \<and>
                 vw_live vw (snd (v_challenge_vector tr n v)) \<and>
                 vw_reader vw (snd (v_challenge_vector tr n v)) = vw_reader vw v \<and>
                 vw_sponge vw (snd (v_challenge_vector tr n v)) = snd (vw_codec vw n (vw_sponge vw v))
            else \<not> vw_live vw (snd (v_challenge_vector tr n v))) \<and>
     (\<forall>n v w s rest. vw_live vw v \<and> vw_pow vw n (vw_sponge vw v) = Some (w, s) \<and>
              vw_rest vw (vw_reader vw v) = w @ rest \<longrightarrow>
            fst (v_check_grind tr n v) \<and> vw_live vw (snd (v_check_grind tr n v)) \<and>
            vw_sponge vw (snd (v_check_grind tr n v)) = s \<and>
            vw_rest vw (vw_reader vw (snd (v_check_grind tr n v))) = rest) \<and>
     (\<forall>n v. \<not> (vw_live vw v \<and> fst (v_check_grind tr n v)) \<longrightarrow> \<not> vw_live vw (snd (v_check_grind tr n v))) \<and>
     (\<forall>c v. fst (v_check tr c v) = (c \<and> vw_live vw v) \<and>
            vw_live vw (snd (v_check tr c v)) = (c \<and> vw_live vw v) \<and>
            vw_reader vw (snd (v_check tr c v)) = vw_reader vw v \<and>
            vw_sponge vw (snd (v_check tr c v)) = vw_sponge vw v) \<and>
     (\<forall>v. v_check_eof tr v = (vw_live vw v \<and> vw_rest vw (vw_reader vw v) = []))"

text \<open>Field elements have one fixed-width canonical encoding, extensions a fixed coordinate vector.\<close>

definition field_laws :: "('f, 'e) field_codec \<Rightarrow> bool" where
  "field_laws fc \<longleftrightarrow> 0 < num_bytes fc \<and> 0 < ext_degree fc \<and>
     (\<forall>x. length (to_bytes_le fc x) = num_bytes fc \<and> from_bytes_le_checked fc (to_bytes_le fc x) = Some x) \<and>
     (\<forall>bs x. length bs = num_bytes fc \<and> from_bytes_le_checked fc bs = Some x \<longrightarrow> to_bytes_le fc x = bs) \<and>
     (\<forall>e. length (to_base_vec fc e) = ext_degree fc \<and> from_base_slice fc (to_base_vec fc e) = e)"

definition memory_suffices :: "('p, 'v, 'r, 's, 'f, 'e) transcript \<Rightarrow> bool" where
  "memory_suffices tr \<longleftrightarrow> (\<forall>n. try_reserve tr n)"

section \<open>Simulation and fail-closed steps\<close>

definition mirrors ::
  "('p \<Rightarrow> 'b list) \<Rightarrow> ('b list \<Rightarrow> 'p \<Rightarrow> 'v \<Rightarrow> bool) \<Rightarrow> ('p \<Rightarrow> ('a, 'p) outcome) \<Rightarrow> ('v \<Rightarrow> ('a, 'v) outcome) \<Rightarrow> bool"
  where
  "mirrors log sync f g \<longleftrightarrow>
     (\<forall>p x p'. f p = (Ok x, p') \<longrightarrow>
        prefix (log p) (log p') \<and>
        (\<forall>argument v. sync argument p v \<and> prefix (log p') argument \<longrightarrow>
           (\<exists>v'. g v = (Ok x, v') \<and> sync argument p' v')))"

lemma mirrors_return: "mirrors log sync (\<lambda>p. (r, p)) (\<lambda>v. (r, v))"
  by (auto simp: mirrors_def)

lemma mirrors_bind:
  assumes f: "mirrors log sync f g" and F: "\<And>x. mirrors log sync (F x) (G x)"
  shows "mirrors log sync (\<lambda>p. st_bind (f p) F) (\<lambda>v. st_bind (g v) G)"
  unfolding mirrors_def
proof (intro allI impI conjI; (elim conjE)?)
  fix p y p2 assume "st_bind (f p) F = (Ok y, p2)"
  then obtain x p1 where fx: "f p = (Ok x, p1)" and Fx: "F x p1 = (Ok y, p2)"
    by (auto simp: st_bind_eq_Inr)
  from f fx have g1: "prefix (log p) (log p1)"
    and sim1: "\<And>argument v. sync argument p v \<Longrightarrow> prefix (log p1) argument \<Longrightarrow> \<exists>v'. g v = (Ok x, v') \<and> sync argument p1 v'"
    unfolding mirrors_def by blast+
  from F [of x] Fx have g2: "prefix (log p1) (log p2)"
    and sim2: "\<And>argument v. sync argument p1 v \<Longrightarrow> prefix (log p2) argument \<Longrightarrow> \<exists>v'. G x v = (Ok y, v') \<and> sync argument p2 v'"
    unfolding mirrors_def by blast+
  from g1 g2 show "prefix (log p) (log p2)" by (rule prefix_order.order_trans)
  fix argument v assume sync: "sync argument p v" and ext: "prefix (log p2) argument"
  from g2 ext have "prefix (log p1) argument" by (rule prefix_order.order_trans)
  from sim1 [OF sync this] obtain v1 where v1: "g v = (Ok x, v1)" "sync argument p1 v1" by blast
  from sim2 [OF v1(2) ext] v1(1) show "\<exists>v'. st_bind (g v) G = (Ok y, v') \<and> sync argument p2 v'" by auto
qed

lemma mirrors_error: "mirrors log sync (\<lambda>p. (Err e, h p)) g"
  by (simp add: mirrors_def)

definition fail_closed :: "('v \<Rightarrow> bool) \<Rightarrow> ('v \<Rightarrow> ('a, 'v) outcome) \<Rightarrow> bool" where
  "fail_closed live g \<longleftrightarrow> (\<forall>v. live (snd (g v)) \<longrightarrow> live v \<and> is_ok (fst (g v)))"

lemma fail_closed_return: "fail_closed live (\<lambda>v. (Ok x, v))"
  by (simp add: fail_closed_def)

lemma fail_closed_bind:
  assumes "fail_closed live g" and "\<And>x. fail_closed live (G x)"
  shows "fail_closed live (\<lambda>v. st_bind (g v) G)"
  unfolding fail_closed_def
proof (intro allI impI)
  fix v assume live: "live (snd (st_bind (g v) G))"
  obtain r v1 where r: "g v = (r, v1)" by fastforce
  show "live v \<and> is_ok (fst (st_bind (g v) G))"
  proof (cases r)
    case (Inl e)
    with r live assms(1) show ?thesis by (metis fail_closed_def fst_conv is_ok.simps(1) snd_conv st_bind_simps(1))
  next
    case (Inr x)
    with r live have live2: "live (snd (G x v1))" by simp
    with assms(2) have "live v1 \<and> is_ok (fst (G x v1))" unfolding fail_closed_def by blast
    with assms(1) r Inr show ?thesis by (metis fail_closed_def snd_conv st_bind_simps(2))
  qed
qed

lemma fail_closed_if:
  "fail_closed live f \<Longrightarrow> fail_closed live g \<Longrightarrow> fail_closed live (\<lambda>v. if b then f v else g v)"
  by (cases b) simp_all

section \<open>Clients of a mirrored pair of channels\<close>

lemma overwrite_all [simp]: "length slots = length xs \<Longrightarrow> overwrite slots xs = xs"
  by (induction slots xs rule: list_induct2) simp_all

text \<open>
  What a pair of channels must provide: each operation of the trait mirrors its counterpart, where
  the verifier's slots only have to be as many as the prover's messages, and neither end changes
  on a guarded success.
\<close>

locale mirrored_channels =
  fixes pch :: "('p, 'e) proof_channel" and vch :: "('v, 'e) proof_channel"
    and log :: "'p \<Rightarrow> u8 list" and sync :: "u8 list \<Rightarrow> 'p \<Rightarrow> 'v \<Rightarrow> bool"
  assumes public_mirror: "mirrors log sync (\<lambda>p. (Ok (), ch_public pch b p)) (\<lambda>v. (Ok (), ch_public vch b v))"
    and exchange_mirror: "length slots = length messages \<Longrightarrow>
      mirrors log sync (ch_exchange pch messages) (ch_exchange vch slots)"
    and exchange_keeps: "ch_exchange pch messages p = (Ok xs, p') \<Longrightarrow> xs = messages"
    and challenges_mirror: "mirrors log sync (ch_challenges pch n) (ch_challenges vch n)"
begin

lemma guard_mirror: "mirrors log sync (guard pch r) (guard vch r)"
  by (cases r) (simp_all add: mirrors_def guard_def)

lemma public_extensions_mirror:
  "mirrors log sync (public_extensions pch fc site values) (public_extensions vch fc site values)"
  unfolding public_extensions_def by (intro mirrors_bind guard_mirror public_mirror)

lemma public_fields_mirror:
  "mirrors log sync (public_fields pch fc site values) (public_fields vch fc site values)"
  unfolding public_fields_def by (intro mirrors_bind guard_mirror public_mirror)

lemma public_bytes_mirror:
  "mirrors log sync (public_bytes pch site bytes) (public_bytes vch site bytes)"
  unfolding public_bytes_def by (intro mirrors_bind guard_mirror public_mirror)

lemma ext_challenges_mirror:
  "mirrors log sync (ext_challenges tr pch site n) (ext_challenges tr vch site n)"
  unfolding ext_challenges_def by (intro mirrors_bind guard_mirror challenges_mirror)

lemma ext_challenge_mirror:
  "mirrors log sync (ext_challenge tr pch site) (ext_challenge tr vch site)"
  unfolding ext_challenge_def by (intro mirrors_bind guard_mirror ext_challenges_mirror)

lemma exchange_extension_group_mirror:
  assumes "length slots = length values"
  shows "mirrors log sync (exchange_extension_group pch fc site values) (exchange_extension_group vch fc site slots)"
  unfolding exchange_extension_group_def assms
proof (rule mirrors_bind [OF guard_mirror])
  fix rec
  have "mirrors log sync (\<lambda>p. st_bind (ch_exchange pch values p) (\<lambda>atoms p'. (Ok (overwrite values atoms), p')))
    (\<lambda>v. st_bind (ch_exchange vch slots v) (\<lambda>atoms v'. (Ok (overwrite slots atoms), v')))"
    unfolding mirrors_def
  proof (intro allI impI conjI; (elim conjE)?)
    fix p ys p' assume "st_bind (ch_exchange pch values p) (\<lambda>atoms p'. (Ok (overwrite values atoms), p')) = (Ok ys, p')"
    then obtain xs where ex: "ch_exchange pch values p = (Ok xs, p')" and ys: "ys = overwrite values xs"
      by (auto simp: st_bind_eq_Inr)
    from exchange_keeps [OF ex] have xs: "xs = values" .
    note mir = exchange_mirror [OF assms, unfolded mirrors_def, rule_format, OF ex]
    from mir show "prefix (log p) (log p')" by blast
    fix argument v assume "sync argument p v" "prefix (log p') argument"
    with mir obtain v' where "ch_exchange vch slots v = (Ok xs, v')" "sync argument p' v'" by blast
    then show "\<exists>v'. st_bind (ch_exchange vch slots v) (\<lambda>atoms v'. (Ok (overwrite slots atoms), v')) = (Ok ys, v') \<and>
        sync argument p' v'"
      using xs ys assms by simp
  qed
  then show "mirrors log sync (\<lambda>p. st_bind (ch_exchange pch values p) (\<lambda>atoms p'. (Ok (overwrite values atoms), p')))
    (\<lambda>v. st_bind (ch_exchange vch slots v) (\<lambda>atoms v'. (Ok (overwrite slots atoms), v')))" .
qed

lemma exchange_extension_group_keeps:
  "exchange_extension_group pch fc site values p = (Ok xs, p') \<Longrightarrow> xs = values"
  by (auto simp: exchange_extension_group_def st_bind_eq_Inr dest: exchange_keeps)

end

section \<open>Atoms are self-delimiting and canonical\<close>

lemma with_len_full: "length (fill (replicate n 0)) = n \<Longrightarrow> as_ref (with_len n fill) = fill (replicate n 0)"
  by (simp add: with_len_def Let_def min_def)

lemma fill_chunks_all:
  assumes "\<And>x. length (to_bytes_le fc x) = num_bytes fc" "0 < num_bytes fc"
  shows "length out = length cs * num_bytes fc \<Longrightarrow> fill_chunks fc cs out = concat (map (to_bytes_le fc) cs)"
  using assms by (induction cs arbitrary: out) auto

lemma length_concat_const: "(\<And>x. x \<in> set xs \<Longrightarrow> length (f x) = n) \<Longrightarrow> length (concat (map f xs)) = length xs * n"
  by (induction xs) auto

definition parses :: "('r \<Rightarrow> 'b list) \<Rightarrow> ('r \<Rightarrow> ('a \<times> 'r) option) \<Rightarrow> 'a \<Rightarrow> 'b list \<Rightarrow> bool" where
  "parses rest parse x bs \<longleftrightarrow> (\<forall>r tail. rest r = bs @ tail \<longrightarrow> (\<exists>r'. parse r = Some (x, r') \<and> rest r' = tail))"

lemma parses_many:
  assumes "\<And>x. x \<in> set xs \<Longrightarrow> parses rest parse x (enc x)"
  shows "parses rest (read_many parse (length xs)) xs (concat (map enc xs))"
  using assms
proof (induction xs)
  case Nil
  show ?case by (simp add: parses_def)
next
  case (Cons x xs)
  have x: "parses rest parse x (enc x)" and xs: "parses rest (read_many parse (length xs)) xs (concat (map enc xs))"
    using Cons by auto
  show ?case unfolding parses_def
  proof (intro allI impI)
    fix r tail assume r: "rest r = concat (map enc (x # xs)) @ tail"
    then have "rest r = enc x @ (concat (map enc xs) @ tail)" by simp
    with x obtain r1 where r1: "parse r = Some (x, r1)" "rest r1 = concat (map enc xs) @ tail"
      unfolding parses_def by blast
    with xs obtain r2 where "read_many parse (length xs) r1 = Some (xs, r2)" "rest r2 = tail"
      unfolding parses_def by blast
    with r1 show "\<exists>r'. read_many parse (length (x # xs)) r = Some (x # xs, r') \<and> rest r' = tail" by simp
  qed
qed

section \<open>The two ends of one transcript\<close>

text \<open>
  Two ends are synchronised on an argument string when the verifier is live, their sponges
  agree, and what the prover has sent followed by what the verifier has not read is that string.
\<close>

definition channel_sync ::
  "('p, 'v, 'r, 's, 'f, 'e) transcript \<Rightarrow> ('v, 'r, 's, 'e) transcript_view \<Rightarrow> u8 list \<Rightarrow> 'p \<Rightarrow> 'v \<Rightarrow> bool" where
  "channel_sync tr vw argument p v \<longleftrightarrow> vw_live vw v \<and> vw_sponge vw v = p_sponge tr p \<and>
     p_narg_string tr p @ vw_rest vw (vw_reader vw v) = argument"

locale transcript_pair =
  fixes tr :: "('p, 'v, 'r, 's, 'f, 'e::comm_ring_1) transcript" and vw :: "('v, 'r, 's, 'e) transcript_view"
    and fc :: "('f, 'e) field_codec"
  assumes prover_side: "prover_laws tr vw"
    and reader_side: "reader_laws tr vw"
    and verifier_side: "verifier_laws tr vw"
    and field_side: "field_laws fc"
begin

abbreviation narg where "narg \<equiv> p_narg_string tr"
abbreviation synced where "synced \<equiv> channel_sync tr vw"
abbreviation live where "live \<equiv> vw_live vw"

lemma p_public [simp]:
  "p_sponge tr (p_public_message tr b p) = vw_absorb vw b (p_sponge tr p)" "narg (p_public_message tr b p) = narg p"
  using prover_side by (auto simp: prover_laws_def)

lemma p_prover [simp]:
  "p_sponge tr (p_prover_message tr b w p) = vw_absorb vw b (p_sponge tr p)"
  "narg (p_prover_message tr b w p) = narg p @ w"
  using prover_side by (auto simp: prover_laws_def)

lemma p_codec [simp]:
  "fst (p_challenge_vector tr n p) = fst (vw_codec vw n (p_sponge tr p))"
  "p_sponge tr (snd (p_challenge_vector tr n p)) = snd (vw_codec vw n (p_sponge tr p))"
  "narg (snd (p_challenge_vector tr n p)) = narg p"
  using prover_side by (auto simp: prover_laws_def)

lemma p_squeeze [simp]:
  "fst (p_verifier_message tr n p) = fst (vw_squeeze vw n (p_sponge tr p))"
  "p_sponge tr (snd (p_verifier_message tr n p)) = snd (vw_squeeze vw n (p_sponge tr p))"
  "narg (snd (p_verifier_message tr n p)) = narg p"
  using prover_side by (auto simp: prover_laws_def)

lemma p_set [simp]:
  "p_sponge tr (p_set_sponge tr s p) = s" "narg (p_set_sponge tr s p) = narg p" "narg (p_new_with_seed tr) = []"
  using prover_side by (auto simp: prover_laws_def)

lemma p_grind_Some:
  assumes "fst (p_grind tr n p)"
  obtains w where "vw_pow vw n (p_sponge tr p) = Some (w, p_sponge tr (snd (p_grind tr n p)))"
    "narg (snd (p_grind tr n p)) = narg p @ w"
proof -
  from prover_side have "case vw_pow vw n (p_sponge tr p) of None \<Rightarrow> \<not> fst (p_grind tr n p)
      | Some (w, s) \<Rightarrow> fst (p_grind tr n p) \<and> p_sponge tr (snd (p_grind tr n p)) = s \<and>
          narg (snd (p_grind tr n p)) = narg p @ w"
    by (simp add: prover_laws_def)
  with assms that show ?thesis by (auto split: option.splits)
qed

lemma v_public [simp]:
  "live (v_public_message tr b v) = live v" "vw_reader vw (v_public_message tr b v) = vw_reader vw v"
  "vw_sponge vw (v_public_message tr b v) = vw_absorb vw b (vw_sponge vw v)"
  using verifier_side by (auto simp: verifier_laws_def)

lemma v_squeeze [simp]:
  "live (snd (v_verifier_message tr n v)) = live v"
  "vw_reader vw (snd (v_verifier_message tr n v)) = vw_reader vw v"
  "fst (v_verifier_message tr n v) = fst (vw_squeeze vw n (vw_sponge vw v))"
  "vw_sponge vw (snd (v_verifier_message tr n v)) = snd (vw_squeeze vw n (vw_sponge vw v))"
  using verifier_side by (auto simp: verifier_laws_def)

lemma v_checked [simp]:
  "fst (v_check tr c v) = (c \<and> live v)" "live (snd (v_check tr c v)) = (c \<and> live v)"
  "vw_reader vw (snd (v_check tr c v)) = vw_reader vw v" "vw_sponge vw (snd (v_check tr c v)) = vw_sponge vw v"
  using verifier_side by (simp_all add: verifier_laws_def)

lemma rejected [simp]: "\<not> live (reject tr v)"
  by (simp add: reject_def)

lemma v_codec_Some:
  "live v \<Longrightarrow> fst (vw_codec vw n (vw_sponge vw v)) = Some xs \<Longrightarrow>
   fst (v_challenge_vector tr n v) = Some xs \<and> live (snd (v_challenge_vector tr n v)) \<and>
   vw_reader vw (snd (v_challenge_vector tr n v)) = vw_reader vw v \<and>
   vw_sponge vw (snd (v_challenge_vector tr n v)) = snd (vw_codec vw n (vw_sponge vw v))"
  using verifier_side by (simp add: verifier_laws_def)

lemma v_codec_dead:
  assumes "live (snd (v_challenge_vector tr n v))"
  shows "live v \<and> fst (v_challenge_vector tr n v) \<noteq> None"
proof -
  from verifier_side have "if live v \<and> fst (vw_codec vw n (vw_sponge vw v)) \<noteq> None
      then fst (v_challenge_vector tr n v) = fst (vw_codec vw n (vw_sponge vw v)) \<and>
           live (snd (v_challenge_vector tr n v)) \<and>
           vw_reader vw (snd (v_challenge_vector tr n v)) = vw_reader vw v \<and>
           vw_sponge vw (snd (v_challenge_vector tr n v)) = snd (vw_codec vw n (vw_sponge vw v))
      else \<not> live (snd (v_challenge_vector tr n v))"
    unfolding verifier_laws_def by blast
  with assms show ?thesis by (auto split: if_splits)
qed

lemma take_parses: "length bs = n \<Longrightarrow> parses (vw_rest vw) (reader_take tr n) bs bs"
  unfolding parses_def
proof (intro allI impI)
  fix r tail assume "length bs = n" "vw_rest vw r = bs @ tail"
  with reader_side [unfolded reader_laws_def, THEN conjunct1, rule_format, of n r]
  show "\<exists>r'. reader_take tr n r = Some (bs, r') \<and> vw_rest vw r' = tail" by auto
qed

lemma field_encode_eq [simp]: "field_encode fc x = to_bytes_le fc x"
  using field_side by (simp add: field_encode_def with_len_full field_laws_def)

lemma ext_encode_eq [simp]: "ext_encode fc x = concat (map (to_bytes_le fc) (to_base_vec fc x))"
proof -
  let ?n = "length (to_base_vec fc x) * num_bytes fc"
  have "fill_chunks fc (to_base_vec fc x) (replicate ?n 0) = concat (map (to_bytes_le fc) (to_base_vec fc x))"
    using field_side by (intro fill_chunks_all) (auto simp: field_laws_def)
  moreover have "length (concat (map (to_bytes_le fc) (to_base_vec fc x))) = ?n"
    using field_side by (intro length_concat_const) (simp add: field_laws_def)
  ultimately show ?thesis by (simp add: ext_encode_def Let_def with_len_full)
qed

lemma field_parses: "parses (vw_rest vw) (field_from_narg tr fc) x (to_bytes_le fc x)"
  unfolding parses_def
proof (intro allI impI)
  fix r tail assume r: "vw_rest vw r = to_bytes_le fc x @ tail"
  have "length (to_bytes_le fc x) = num_bytes fc" using field_side by (simp add: field_laws_def)
  from take_parses [OF this] r obtain r' where "reader_take tr (num_bytes fc) r = Some (to_bytes_le fc x, r')"
    "vw_rest vw r' = tail" unfolding parses_def by blast
  with field_side show "\<exists>r'. field_from_narg tr fc r = Some (x, r') \<and> vw_rest vw r' = tail"
    by (auto simp: field_from_narg_def field_laws_def)
qed

lemma ext_parses:
  assumes "try_reserve tr (ext_degree fc)"
  shows "parses (vw_rest vw) (ext_from_narg tr fc) x (ext_encode fc x)"
  unfolding parses_def
proof (intro allI impI)
  fix r tail assume r: "vw_rest vw r = ext_encode fc x @ tail"
  have len: "length (to_base_vec fc x) = ext_degree fc" "from_base_slice fc (to_base_vec fc x) = x"
    using field_side by (simp_all add: field_laws_def)
  from parses_many [of "to_base_vec fc x", OF field_parses] r len obtain r' where
    "read_many (field_from_narg tr fc) (ext_degree fc) r = Some (to_base_vec fc x, r')" "vw_rest vw r' = tail"
    unfolding parses_def by auto
  with assms len show "\<exists>r'. ext_from_narg tr fc r = Some (x, r') \<and> vw_rest vw r' = tail"
    by (simp add: ext_from_narg_def)
qed

end

section \<open>Mirrored primitives\<close>

context transcript_pair
begin

lemma message_mirror:
  assumes laws: "message_laws vw message" and parse: "parses (vw_rest vw) parse x w"
    and sync: "synced argument p v" and ext: "prefix (narg p @ w) argument"
  shows "\<exists>v'. message parse absorbed v = (Some x, v') \<and>
    synced argument (p_prover_message tr (absorbed x) w p) v'"
proof -
  from sync have live: "live v" and sponge: "vw_sponge vw v = p_sponge tr p"
    and arg: "argument = narg p @ vw_rest vw (vw_reader vw v)" by (auto simp: channel_sync_def)
  from ext arg obtain tail where rest: "vw_rest vw (vw_reader vw v) = w @ tail" by (auto simp: prefix_def)
  with parse obtain r where r: "parse (vw_reader vw v) = Some (x, r)" "vw_rest vw r = tail"
    unfolding parses_def by blast
  obtain y v' where m: "message parse absorbed v = (y, v')" by fastforce
  from laws [unfolded message_laws_def, rule_format, of v parse absorbed] live r m
  have "y = Some x" "live v'" "vw_reader vw v' = r" "vw_sponge vw v' = vw_absorb vw (absorbed x) (vw_sponge vw v)"
    by auto
  with m r sponge arg rest show ?thesis by (simp add: channel_sync_def)
qed

lemma message_fail_closed:
  assumes "message_laws vw message"
  shows "fail_closed live (\<lambda>v. case message parse absorbed v of (received, v') \<Rightarrow> (invalid_proof received, v'))"
  unfolding fail_closed_def
proof (intro allI impI)
  fix v
  obtain y v' where m: "message parse absorbed v = (y, v')" by fastforce
  assume "live (snd (case message parse absorbed v of (received, v') \<Rightarrow> (invalid_proof received, v')))"
  with m have l: "live v'" by simp
  from assms [unfolded message_laws_def, rule_format, of v parse absorbed] m l
  show "live v \<and> is_ok (fst (case message parse absorbed v of (received, v') \<Rightarrow> (invalid_proof received, v')))"
    by (auto simp: invalid_proof_def split: if_splits option.splits)
qed

lemma messages_laws:
  "message_laws vw (v_message_bytes tr)" "message_laws vw (v_message_u32 tr)"
  "message_laws vw (v_message_fields tr)" "message_laws vw (v_message_exts tr)"
  using verifier_side by (simp_all add: verifier_laws_def)

lemma public_mirrors:
  "mirrors narg synced (\<lambda>p. (Ok (), prover_public tr b p)) (\<lambda>v. (Ok (), verifier_public tr b v))"
  by (auto simp: mirrors_def channel_sync_def prover_public_def verifier_public_def)

lemma challenges_mirrors: "mirrors narg synced (prover_challenges tr n) (verifier_challenges tr n)"
  unfolding mirrors_def
proof (intro allI impI conjI; (elim conjE)?)
  fix p x p' assume "prover_challenges tr n p = (Ok x, p')"
  then have "fst (p_challenge_vector tr n p) = Some x" and p': "p' = snd (p_challenge_vector tr n p)"
    by (auto simp: prover_challenges_def simp del: p_codec split: prod.splits)
  then have x: "fst (vw_codec vw n (p_sponge tr p)) = Some x" by simp
  show "prefix (narg p) (narg p')" by (simp add: p')
  fix argument v assume sync: "synced argument p v"
  then have "live v" "fst (vw_codec vw n (vw_sponge vw v)) = Some x" using x by (auto simp: channel_sync_def)
  from v_codec_Some [OF this] sync show "\<exists>v'. verifier_challenges tr n v = (Ok x, v') \<and> synced argument p' v'"
    by (cases "v_challenge_vector tr n v") (auto simp: verifier_challenges_def invalid_proof_def channel_sync_def p')
qed

lemma challenges_fail_closed: "fail_closed live (verifier_challenges tr n)"
  unfolding fail_closed_def
proof (intro allI impI)
  fix v assume "live (snd (verifier_challenges tr n v))"
  then have "live (snd (v_challenge_vector tr n v))" by (simp add: verifier_challenges_def split: prod.splits)
  from v_codec_dead [OF this] show "live v \<and> is_ok (fst (verifier_challenges tr n v))"
    by (cases "v_challenge_vector tr n v") (auto simp: verifier_challenges_def invalid_proof_def)
qed

lemma receive_atoms_mirror:
  assumes laws: "message_laws vw message" and mem: "try_reserve tr (length xs)"
    and parse: "\<And>x. x \<in> set xs \<Longrightarrow> parses (vw_rest vw) parse x (enc x)"
    and enc: "\<And>x. enc x \<noteq> []"
    and sync: "synced argument p v" and ext: "prefix (narg (send_atoms tr enc xs p)) argument"
  shows "\<exists>v'. receive_atoms tr message enc parse (length xs) v = (Ok xs, v') \<and> synced argument (send_atoms tr enc xs p) v'"
proof (cases "xs = []")
  case True
  with sync mem show ?thesis
    by (simp add: receive_atoms_def send_atoms_def send_padded_def encode_atoms_def)
next
  case False
  then have ne: "encode_atoms enc xs \<noteq> []" using enc by (cases xs) (auto simp: encode_atoms_def)
  have "parses (vw_rest vw) (read_many parse (length xs)) xs (encode_atoms enc xs)"
    unfolding encode_atoms_def by (rule parses_many) (rule parse)
  from message_mirror [OF laws this sync, where absorbed = "\<lambda>atoms. word_padded (encode_atoms enc atoms)"] ext ne False mem
  show ?thesis
    by (auto simp: receive_atoms_def send_atoms_def send_padded_def invalid_proof_def)
qed

lemma receive_atoms_fail_closed:
  assumes "message_laws vw message"
  shows "fail_closed live (receive_atoms tr message enc parse n)"
proof (cases "try_reserve tr n \<and> n \<noteq> 0")
  case True
  with message_fail_closed [OF assms] show ?thesis by (simp add: receive_atoms_def fail_closed_def)
next
  case False
  then show ?thesis by (auto simp: receive_atoms_def fail_closed_def)
qed

lemma grows_send: "prefix (narg p) (narg (send_atoms tr enc xs p))"
  by (simp add: send_atoms_def send_padded_def)

lemma ext_encode_nonempty: "ext_encode fc x \<noteq> []"
proof -
  have "to_base_vec fc x \<noteq> []" "to_bytes_le fc c \<noteq> []" for c
    using field_side by (auto simp: field_laws_def simp flip: length_0_conv length_greater_0_conv)
  then show ?thesis by (cases "to_base_vec fc x") auto
qed

lemma exchange_mirrors:
  assumes mem: "memory_suffices tr" and len: "length slots = length messages"
  shows "mirrors narg synced (prover_exchange tr fc messages) (verifier_exchange tr fc slots)"
  unfolding mirrors_def
proof (intro allI impI conjI; (elim conjE)?)
  fix p x p' assume "prover_exchange tr fc messages p = (Ok x, p')"
  then have x: "x = messages" and p': "p' = send_atoms tr (ext_encode fc) messages p"
    by (auto simp: prover_exchange_def)
  show "prefix (narg p) (narg p')" unfolding p' by (rule grows_send)
  fix argument v assume sync: "synced argument p v" and ext: "prefix (narg p') argument"
  have "try_reserve tr k" for k using mem by (simp add: memory_suffices_def)
  then obtain v' where "receive_atoms tr (v_message_exts tr) (ext_encode fc) (ext_from_narg tr fc) (length messages) v = (Ok messages, v')"
    "synced argument p' v'"
    using receive_atoms_mirror [OF messages_laws(4) _ ext_parses ext_encode_nonempty sync] ext p' by blast
  then show "\<exists>v'. verifier_exchange tr fc slots v = (Ok x, v') \<and> synced argument p' v'"
    using len x by (simp add: verifier_exchange_def)
qed

lemma exchange_fail_closed: "fail_closed live (verifier_exchange tr fc slots)"
  unfolding verifier_exchange_def
  by (intro fail_closed_bind receive_atoms_fail_closed messages_laws fail_closed_return)

lemma verifier_guard_fail_closed: "fail_closed live (guard (verifier_channel tr fc) r)"
  by (cases r) (simp_all add: fail_closed_def guard_def verifier_channel_def)

end

section \<open>Sent and received groups\<close>

text \<open>Sending a known value and continuing with it, against receiving it.\<close>

abbreviation sending :: "('p \<Rightarrow> (unit, 'p) outcome) \<Rightarrow> 'a \<Rightarrow> 'p \<Rightarrow> ('a, 'p) outcome" where
  "sending send x p \<equiv> st_bind (send p) (\<lambda>_ p'. (Ok x, p'))"

lemma from_narg_bytes:
  assumes "byte_source take_byte content" and "from_narg uncons (content r) = Some (v, tail)"
  shows "\<exists>r'. from_narg take_byte r = Some (v, r') \<and> content r' = tail"
proof -
  have "map_option (map_prod id content) (from_narg take_byte r) = Some (v, tail)"
    using from_narg_loop_source [OF assms(1)] assms(2) by (simp add: from_narg_def)
  then show ?thesis by (auto simp: map_prod_def split: prod.splits)
qed

context transcript_pair
begin

lemma byte_source_reader: "byte_source (take_array_1 tr) (vw_rest vw)"
  unfolding byte_source_def
proof (intro allI conjI impI)
  fix r assume "vw_rest vw r = []"
  with reader_side [unfolded reader_laws_def, THEN conjunct1, rule_format, of 1 r]
  show "take_array_1 tr r = None" by (simp add: take_array_1_def)
next
  fix r b bs assume r: "vw_rest vw r = b # bs"
  have "parses (vw_rest vw) (reader_take tr 1) [b] [b]" by (rule take_parses) simp
  moreover have "vw_rest vw r = [b] @ bs" using r by simp
  ultimately obtain r' where "reader_take tr 1 r = Some ([b], r')" "vw_rest vw r' = bs"
    unfolding parses_def by blast
  then show "\<exists>r'. take_array_1 tr r = Some (b, r') \<and> vw_rest vw r' = bs" by (simp add: take_array_1_def)
qed

lemma nonce_parses: "parses (vw_rest vw) (from_narg (take_array_1 tr)) n (wire n)"
  unfolding parses_def
proof (intro allI impI)
  fix r tail assume "vw_rest vw r = wire n @ tail"
  then have "from_narg uncons (vw_rest vw r) = Some (n, tail)" by (simp add: nonce.dec_enc)
  from from_narg_bytes [OF byte_source_reader this]
  show "\<exists>r'. from_narg (take_array_1 tr) r = Some (n, r') \<and> vw_rest vw r' = tail" .
qed

lemma u32_parses: "parses (vw_rest vw) (u32_from_narg tr) n (le_bytes 4 n)"
  unfolding parses_def
proof (intro allI impI)
  fix r tail assume r: "vw_rest vw r = le_bytes 4 n @ tail"
  from reader_side [unfolded reader_laws_def, THEN conjunct2, rule_format, of r]
  show "\<exists>r'. u32_from_narg tr r = Some (n, r') \<and> vw_rest vw r' = tail"
    by (simp add: r from_le_bytes_le_bytes)
qed

lemma verifier_message_mirror:
  assumes laws: "message_laws vw message" and parse: "parses (vw_rest vw) parse x w"
  shows "mirrors narg synced (\<lambda>p. (Ok x, p_prover_message tr (absorbed x) w p))
    (\<lambda>v. case message parse absorbed v of (received, v') \<Rightarrow> (invalid_proof received, v'))"
  unfolding mirrors_def
proof (intro allI impI conjI; (elim conjE)?)
  fix p y p' assume *: "(Ok x, p_prover_message tr (absorbed x) w p) = (Ok y, p')"
  then show "prefix (narg p) (narg p')" by auto
  fix argument v assume "synced argument p v" "prefix (narg p') argument"
  with * message_mirror [OF laws parse, of argument p v absorbed]
  show "\<exists>v'. (case message parse absorbed v of (received, v') \<Rightarrow> (invalid_proof received, v')) = (Ok y, v') \<and>
      synced argument p' v'"
    by (auto simp: invalid_proof_def)
qed

lemma nonce_mirrors: "mirrors narg synced (\<lambda>p. (Ok n, send_nonce tr n p)) (receive_nonce tr)"
  unfolding send_nonce_def receive_nonce_def
  by (rule verifier_message_mirror [OF messages_laws(2) nonce_parses])

lemma verifier_guard_mirror:
  "mirrors narg synced (\<lambda>p. (r, p)) (guard (verifier_channel tr fc) r)"
  by (cases r) (simp_all add: mirrors_def guard_def)

lemma mirrors_guarded:
  assumes "\<And>rec. mirrors narg synced F (G rec)"
  shows "mirrors narg synced (\<lambda>p. st_bind (r, p) (\<lambda>_. F)) (\<lambda>v. st_bind (guard (verifier_channel tr fc) r v) G)"
  by (rule mirrors_bind [OF verifier_guard_mirror assms])

lemma sending_bind: "sending (\<lambda>p. st_bind (r, p) (\<lambda>_ p. (Ok (), h p))) x = (\<lambda>p. st_bind (r, p) (\<lambda>_ p. (Ok x, h p)))"
  by (rule ext) (cases r; simp)

lemma byte_group_mirrors:
  "mirrors narg synced (sending (send_byte_group tr site bytes) bytes) (receive_byte_group tr fc site (length bytes))"
  unfolding send_byte_group_def receive_byte_group_def sending_bind
proof (rule mirrors_guarded)
  fix rec
  show "mirrors narg synced (\<lambda>p. (Ok bytes, send_padded tr bytes p))
    (\<lambda>v. if length bytes = 0 then (Ok [], v)
         else case v_message_bytes tr (reader_take tr (length bytes)) word_padded v of
                (received, v') \<Rightarrow> (invalid_proof received, v'))"
    using verifier_message_mirror [OF messages_laws(1) take_parses [OF refl, of bytes], where absorbed = word_padded] mirrors_return
    by (cases "bytes = []") (simp_all add: send_padded_def)
qed

lemma field_group_mirrors:
  assumes mem: "memory_suffices tr"
  shows "mirrors narg synced (sending (send_field_group tr fc site xs) xs) (receive_field_group tr fc site (length xs))"
  unfolding send_field_group_def receive_field_group_def sending_bind
proof (rule mirrors_guarded)
  fix rec
  have ne: "field_encode fc x \<noteq> []" for x
    using field_side by (auto simp: field_laws_def simp flip: length_0_conv)
  have "try_reserve tr (length xs)" using mem by (simp add: memory_suffices_def)
  note rec = receive_atoms_mirror [where enc = "field_encode fc", OF messages_laws(3) this _ ne, where parse = "field_from_narg tr fc"]
  have fp: "parses (vw_rest vw) (field_from_narg tr fc) x (field_encode fc x)" for x using field_parses by simp
  show "mirrors narg synced (\<lambda>p. (Ok xs, send_atoms tr (field_encode fc) xs p))
    (\<lambda>v. receive_atoms tr (v_message_fields tr) (field_encode fc) (field_from_narg tr fc) (length xs) v)"
    unfolding mirrors_def
  proof (intro allI impI conjI; (elim conjE)?)
    fix p ys p' assume *: "(Ok xs, send_atoms tr (field_encode fc) xs p) = (Ok ys, p')"
    then show "prefix (narg p) (narg p')" using grows_send by auto
    fix argument v assume "synced argument p v" "prefix (narg p') argument"
    with * rec [where argument = argument and p = p and v = v, OF fp]
    show "\<exists>v'. receive_atoms tr (v_message_fields tr) (field_encode fc) (field_from_narg tr fc) (length xs) v = (Ok ys, v') \<and>
        synced argument p' v'"
      by auto
  qed
qed

lemma bounded_bytes_mirrors:
  "mirrors narg synced (sending (send_bounded_bytes tr site bytes max_len) bytes) (receive_bounded_bytes tr fc site max_len)"
proof (cases "length bytes \<le> max_len \<and> length bytes \<le> u32_max")
  case False
  have "\<exists>e. send_bounded_bytes tr site bytes max_len = Pair (Err e)"
    using False by (cases "length bytes \<le> max_len") (simp_all add: send_bounded_bytes_def fun_eq_iff)
  then show ?thesis by (auto simp: mirrors_def)
next
  case True
  let ?len = "of_nat (length bytes) :: u32"
  have len: "unat ?len = length bytes" using True by (simp add: unat_of_nat u32_max_def)
  have send: "sending (send_bounded_bytes tr site bytes max_len) bytes =
    (\<lambda>p. st_bind (Ok ?len, p_prover_message tr (length_word ?len) (le_bytes 4 ?len) p)
       (\<lambda>_. sending (send_byte_group tr (payload_site site) bytes) bytes))"
    using True by (intro ext) (simp add: send_bounded_bytes_def Let_def)
  have recv: "receive_bounded_bytes tr fc site max_len =
    (\<lambda>v. st_bind (case v_message_u32 tr (u32_from_narg tr) length_word v of (received, v') \<Rightarrow> (invalid_proof received, v'))
       (\<lambda>len v'. if unat len \<le> max_len then receive_byte_group tr fc (payload_site site) (unat len) v'
                 else (Err InvalidProof, reject tr v')))"
    by (rule ext) (simp add: receive_bounded_bytes_def split: prod.splits)
  let ?f = "\<lambda>p. (Ok ?len, p_prover_message tr (length_word ?len) (le_bytes 4 ?len) p)"
  let ?g = "\<lambda>v. case v_message_u32 tr (u32_from_narg tr) length_word v of (received, v') \<Rightarrow> (invalid_proof received, v')"
  let ?G = "\<lambda>len v'. if unat len \<le> max_len then receive_byte_group tr fc (payload_site site) (unat len) v'
                 else (Err InvalidProof, reject tr v')"
  let ?F = "\<lambda>len. if len = ?len then sending (send_byte_group tr (payload_site site) bytes) bytes else (\<lambda>p. (Err InvalidProof, p))"
  have "mirrors narg synced (\<lambda>p. st_bind (?f p) ?F) (\<lambda>v. st_bind (?g v) ?G)"
  proof (rule mirrors_bind)
    show "mirrors narg synced ?f ?g" by (rule verifier_message_mirror [OF messages_laws(2) u32_parses])
    show "mirrors narg synced (?F len) (?G len)" for len
      using True \<open>unat ?len = length bytes\<close> byte_group_mirrors mirrors_error by (cases "len = ?len") simp_all
  qed
  then show ?thesis unfolding send recv by simp
qed

lemma challenge_message_mirrors:
  "mirrors narg synced (prover_challenge_message tr n decode) (verifier_challenge_message tr n decode)"
  unfolding mirrors_def
proof (intro allI impI conjI; (elim conjE)?)
  fix p x p' assume *: "prover_challenge_message tr n decode p = (Ok x, p')"
  then have p': "p' = snd (p_verifier_message tr n p)"
    by (auto simp: prover_challenge_message_def split: prod.splits)
  from * have "decode (fst (p_verifier_message tr n p)) = Ok x"
    by (auto simp: prover_challenge_message_def simp del: p_squeeze split: prod.splits)
  then have x: "decode (fst (vw_squeeze vw n (p_sponge tr p))) = Ok x" by simp
  show "prefix (narg p) (narg p')" by (simp add: p')
  fix argument v assume sync: "synced argument p v"
  obtain ok v1 where v1: "v_check tr True v = (ok, v1)" by fastforce
  obtain bytes v2 where v2: "v_verifier_message tr n v1 = (bytes, v2)" by fastforce
  obtain ok' v3 where v3: "v_check tr True v2 = (ok', v3)" by fastforce
  have 1: "ok" "live v1" "vw_reader vw v1 = vw_reader vw v" "vw_sponge vw v1 = p_sponge tr p"
    using v_checked [of True v] sync by (auto simp: v1 channel_sync_def)
  have 2: "bytes = fst (vw_squeeze vw n (p_sponge tr p))" "live v2" "vw_reader vw v2 = vw_reader vw v"
    "vw_sponge vw v2 = snd (vw_squeeze vw n (p_sponge tr p))"
    using v_squeeze [of n v1] 1 by (auto simp: v2)
  have 3: "ok'" "live v3" "vw_reader vw v3 = vw_reader vw v" "vw_sponge vw v3 = snd (vw_squeeze vw n (p_sponge tr p))"
    using v_checked [of True v2] 2 by (auto simp: v3)
  show "\<exists>v'. verifier_challenge_message tr n decode v = (Ok x, v') \<and> synced argument p' v'"
    using 1 2 3 x sync by (simp add: verifier_challenge_message_def v1 v2 v3 Let_def channel_sync_def p')
qed

end

section \<open>Composite operations\<close>

definition flag_result :: "akita_error \<Rightarrow> bool \<times> 'c \<Rightarrow> (unit, 'c) outcome" where
  "flag_result e m = (if fst m then Ok () else Err e, snd m)"

context transcript_pair
begin

lemma v_grind_Some:
  assumes "live v" "vw_pow vw n (vw_sponge vw v) = Some (w, s)" "vw_rest vw (vw_reader vw v) = w @ tail"
  shows "fst (v_check_grind tr n v) \<and> live (snd (v_check_grind tr n v)) \<and>
      vw_sponge vw (snd (v_check_grind tr n v)) = s \<and> vw_rest vw (vw_reader vw (snd (v_check_grind tr n v))) = tail"
proof -
  from verifier_side have "\<forall>n v w s rest. live v \<and> vw_pow vw n (vw_sponge vw v) = Some (w, s) \<and>
      vw_rest vw (vw_reader vw v) = w @ rest \<longrightarrow>
      fst (v_check_grind tr n v) \<and> live (snd (v_check_grind tr n v)) \<and>
      vw_sponge vw (snd (v_check_grind tr n v)) = s \<and> vw_rest vw (vw_reader vw (snd (v_check_grind tr n v))) = rest"
    unfolding verifier_laws_def by (elim conjE) assumption
  from this [rule_format, OF conjI [OF assms(1) conjI [OF assms(2,3)]]] show ?thesis .
qed

lemma grind_mirrors:
  "mirrors narg synced (\<lambda>p. flag_result e (p_grind tr n p)) (\<lambda>v. flag_result e' (v_check_grind tr n v))"
  unfolding mirrors_def
proof (intro allI impI conjI; (elim conjE)?)
  fix p x p' assume "flag_result e (p_grind tr n p) = (Ok x, p')"
  then have found: "fst (p_grind tr n p)" and p': "p' = snd (p_grind tr n p)"
    by (auto simp: flag_result_def split: if_splits)
  from found obtain w where w: "vw_pow vw n (p_sponge tr p) = Some (w, p_sponge tr p')" "narg p' = narg p @ w"
    unfolding p' by (rule p_grind_Some)
  from w show "prefix (narg p) (narg p')" by simp
  fix argument v assume sync: "synced argument p v" and ext: "prefix (narg p') argument"
  from sync ext w obtain tail where rest: "vw_rest vw (vw_reader vw v) = w @ tail"
    by (auto simp: channel_sync_def prefix_def)
  from sync w have "live v" "vw_pow vw n (vw_sponge vw v) = Some (w, p_sponge tr p')" by (simp_all add: channel_sync_def)
  from v_grind_Some [OF this rest] have "fst (v_check_grind tr n v)" "live (snd (v_check_grind tr n v))"
    "vw_sponge vw (snd (v_check_grind tr n v)) = p_sponge tr p'"
    "vw_rest vw (vw_reader vw (snd (v_check_grind tr n v))) = tail" by auto
  with sync w rest show "\<exists>v'. flag_result e' (v_check_grind tr n v) = (Ok x, v') \<and> synced argument p' v'"
    by (auto simp: flag_result_def channel_sync_def)
qed

lemma grind_fail_closed: "fail_closed live (\<lambda>v. flag_result e (v_check_grind tr n v))"
proof -
  have "\<not> (live v \<and> fst (v_check_grind tr n v)) \<Longrightarrow> \<not> live (snd (v_check_grind tr n v))" for v
    using verifier_side unfolding verifier_laws_def by blast
  then show ?thesis by (auto simp: fail_closed_def flag_result_def)
qed

lemma public_fail_closed: "fail_closed live (\<lambda>v. (Ok (), verifier_public tr b v))"
  by (auto simp: fail_closed_def verifier_public_def)

lemmas channel_fail_closed =
  fail_closed_bind fail_closed_return fail_closed_if verifier_guard_fail_closed public_fail_closed
  challenges_fail_closed exchange_fail_closed receive_atoms_fail_closed messages_laws message_fail_closed

lemma verifier_channel_sel [simp]:
  "ch_public (verifier_channel tr fc) = verifier_public tr" "ch_exchange (verifier_channel tr fc) = verifier_exchange tr fc"
  "ch_challenges (verifier_channel tr fc) = verifier_challenges tr" "ch_on_error (verifier_channel tr fc) = reject tr"
  by (simp_all add: verifier_channel_def)

lemma public_groups_fail_closed:
  "fail_closed live (public_extensions (verifier_channel tr fc) fc site es)"
  "fail_closed live (public_fields (verifier_channel tr fc) fc site fs)"
  "fail_closed live (public_bytes (verifier_channel tr fc) site bytes)"
  unfolding public_extensions_def public_fields_def public_bytes_def verifier_channel_sel
  by (intro channel_fail_closed)+

lemma receive_groups_fail_closed:
  "fail_closed live (receive_byte_group tr fc site n)"
  "fail_closed live (receive_field_group tr fc site n)"
  "fail_closed live (receive_nonce tr)"
  unfolding receive_byte_group_def receive_field_group_def receive_nonce_def
  by (intro channel_fail_closed)+

lemma receive_bounded_bytes_fail_closed: "fail_closed live (receive_bounded_bytes tr fc site n)"
proof -
  have eq: "receive_bounded_bytes tr fc site n =
    (\<lambda>v. st_bind (case v_message_u32 tr (u32_from_narg tr) length_word v of (received, v') \<Rightarrow> (invalid_proof received, v'))
       (\<lambda>len v'. if unat len \<le> n then receive_byte_group tr fc (payload_site site) (unat len) v'
                 else (Err InvalidProof, reject tr v')))"
    by (rule ext) (simp add: receive_bounded_bytes_def split: prod.splits)
  have "fail_closed live (\<lambda>v'. (Err InvalidProof, reject tr v'))" by (simp add: fail_closed_def)
  then show ?thesis unfolding eq by (intro channel_fail_closed receive_groups_fail_closed)
qed

lemma exchange_group_fail_closed:
  "fail_closed live (exchange_extension_group (verifier_channel tr fc) fc site es)"
  "fail_closed live (extension_slots tr (verifier_channel tr fc) n)"
  unfolding exchange_extension_group_def extension_slots_def verifier_channel_sel
  by (intro channel_fail_closed)+

lemma ext_challenges_fail_closed:
  "fail_closed live (ext_challenges tr (verifier_channel tr fc) site n)"
  "fail_closed live (ext_challenge tr (verifier_channel tr fc) site)"
  unfolding ext_challenge_def ext_challenges_def verifier_channel_sel
  by (intro channel_fail_closed)+

lemma challenge_message_fail_closed: "fail_closed live (verifier_challenge_message tr n decode)"
  unfolding fail_closed_def
proof (intro allI impI)
  fix v assume live: "live (snd (verifier_challenge_message tr n decode v))"
  obtain ok v1 where v1: "v_check tr True v = (ok, v1)" by fastforce
  obtain bytes v2 where v2: "v_verifier_message tr n v1 = (bytes, v2)" by fastforce
  obtain ok' v3 where v3: "v_check tr (is_ok (decode bytes)) v2 = (ok', v3)" by fastforce
  have "ok = live v" "live v1 = live v" using v_checked [of True v] by (auto simp: v1)
  moreover have "live v2 = live v1" using v_squeeze [of n v1] by (auto simp: v2)
  moreover have "ok' = (is_ok (decode bytes) \<and> live v2)" "live v3 = (is_ok (decode bytes) \<and> live v2)"
    using v_checked [of "is_ok (decode bytes)" v2] by (auto simp: v3)
  ultimately show "live v \<and> is_ok (fst (verifier_challenge_message tr n decode v))"
    using live by (auto simp: verifier_challenge_message_def v1 v2 v3 Let_def split: if_splits)
qed

lemma rejected_never_accepted: "\<not> live v \<Longrightarrow> \<not> v_check_eof tr v"
  using verifier_side by (simp add: verifier_laws_def)

lemma eof_of_sync: "synced argument p v \<Longrightarrow> v_check_eof tr v \<longleftrightarrow> narg p = argument"
  using verifier_side by (auto simp: verifier_laws_def channel_sync_def)

end

text \<open>With enough memory for the received groups, the two ends of a transcript are mirrored channels.\<close>

locale transcript_pair_memory = transcript_pair +
  assumes memory: "memory_suffices tr"

sublocale transcript_pair_memory \<subseteq> mirrored_channels "prover_channel tr fc" "verifier_channel tr fc" "p_narg_string tr" "channel_sync tr vw"
proof unfold_locales
  show "mirrors narg synced (\<lambda>p. (Ok (), ch_public (prover_channel tr fc) b p)) (\<lambda>v. (Ok (), ch_public (verifier_channel tr fc) b v))" for b
    using public_mirrors by (simp add: prover_channel_def)
  show "mirrors narg synced (ch_exchange (prover_channel tr fc) messages) (ch_exchange (verifier_channel tr fc) slots)"
    if "length slots = length messages" for slots messages
    using exchange_mirrors [OF memory that] by (simp add: prover_channel_def)
  show "xs = messages" if "ch_exchange (prover_channel tr fc) messages p = (Ok xs, p')" for messages p xs p'
    using that by (simp add: prover_channel_def prover_exchange_def)
  show "mirrors narg synced (ch_challenges (prover_channel tr fc) n) (ch_challenges (verifier_channel tr fc) n)" for n
    using challenges_mirrors by (simp add: prover_channel_def)
qed

section \<open>Fold preview\<close>

context transcript_pair
begin

lemma preview_work_of_grind:
  assumes "preview_grind tr bits (preview_new tr p n) = (Ok (), pv)" and "take_work pv = (Ok work, pv')"
  shows "\<exists>w s. vw_pow vw bits (vw_absorb vw (nonce_word n) (p_sponge tr p)) = Some (w, s) \<and>
    work_nonce work = n \<and> work_start work = squeeze_array tr (vw_absorb vw (nonce_word n) (p_sponge tr p)) \<and>
    work_sponge work = s \<and> work_argument work = w \<and> p_sponge tr (preview_state pv) = s"
proof -
  let ?st = "preview_state (preview_new tr p n)"
  have st: "p_sponge tr ?st = vw_absorb vw (nonce_word n) (p_sponge tr p)" "narg ?st = []"
    by (simp_all add: preview_new_def Let_def)
  obtain found st' where g: "p_grind tr bits ?st = (found, st')" by fastforce
  have "preview_work (preview_new tr p n) = None" "preview_nonce (preview_new tr p n) = n"
    by (simp_all add: preview_new_def Let_def)
  with assms(1) g have found: "found" and pv: "pv = (preview_new tr p n)\<lparr>preview_state := st', preview_work := Some
      \<lparr>work_nonce = n, work_start = squeeze_array tr (p_sponge tr ?st), work_sponge = p_sponge tr st', work_argument = narg st'\<rparr>\<rparr>"
    by (auto simp: preview_grind_def sponge_fingerprint_def Let_def split: if_splits)
  from found g have "fst (p_grind tr bits ?st)" by simp
  then obtain w where w: "vw_pow vw bits (p_sponge tr ?st) = Some (w, p_sponge tr st')" "narg st' = narg ?st @ w"
    by (rule p_grind_Some) (simp add: g)
  with assms(2) pv st show ?thesis by (auto simp: take_work_def)
qed

lemma commit_of_preview:
  assumes grind: "preview_grind tr bits (preview_new tr p n) = (Ok (), pv)" and work: "take_work pv = (Ok work, pv')"
    and commit: "fold_work_commit tr work (send_nonce tr n p) = (r, p1)" and live_grind: "p_grind tr bits (send_nonce tr n p) = (found, p2)"
  shows "r = Ok () \<and> found \<and> p_sponge tr p1 = p_sponge tr p2 \<and> narg p1 = narg p2 \<and> p_sponge tr (preview_state pv) = p_sponge tr p2"
proof -
  from preview_work_of_grind [OF grind work] obtain w s where
    pow: "vw_pow vw bits (vw_absorb vw (nonce_word n) (p_sponge tr p)) = Some (w, s)" and
    wk: "work_start work = squeeze_array tr (vw_absorb vw (nonce_word n) (p_sponge tr p))" "work_sponge work = s"
      "work_argument work = w" and pv: "p_sponge tr (preview_state pv) = s" by blast
  have sent: "p_sponge tr (send_nonce tr n p) = vw_absorb vw (nonce_word n) (p_sponge tr p)"
    "narg (send_nonce tr n p) = narg p @ wire n"
    by (simp_all add: send_nonce_def)
  from commit have c: "r = Ok ()" "p_sponge tr p1 = s" "narg p1 = narg p @ wire n @ w"
    by (auto simp: fold_work_commit_def sponge_fingerprint_def wk sent)
  have "case vw_pow vw bits (p_sponge tr (send_nonce tr n p)) of None \<Rightarrow> \<not> fst (p_grind tr bits (send_nonce tr n p))
      | Some (w, s) \<Rightarrow> fst (p_grind tr bits (send_nonce tr n p)) \<and> p_sponge tr (snd (p_grind tr bits (send_nonce tr n p))) = s \<and>
          narg (snd (p_grind tr bits (send_nonce tr n p))) = narg (send_nonce tr n p) @ w"
    using prover_side unfolding prover_laws_def by blast
  with pow live_grind have "found" "p_sponge tr p2 = s" "narg p2 = narg p @ wire n @ w" by (simp_all add: sent)
  with c pv show ?thesis by simp
qed

end

section \<open>A sample transcript\<close>

text \<open>
  A transcript whose sponge is the list of everything absorbed, over any challenge codec.  With a codec
  that never refuses it satisfies every hypothesis, here over bytes as base and extension field.
\<close>

definition sample_message ::
  "('r \<Rightarrow> ('a \<times> 'r) option) \<Rightarrow> ('a \<Rightarrow> u8 list) \<Rightarrow> u8 list \<times> 'r \<times> bool \<Rightarrow> 'a option \<times> u8 list \<times> 'r \<times> bool" where
  "sample_message parse absorbed = (\<lambda>(s, r, ok).
     if \<not> ok then (None, s, r, False)
     else case parse r of None \<Rightarrow> (None, s, r, False) | Some (x, r') \<Rightarrow> (Some x, s @ absorbed x, r', True))"

definition sample_codec :: "nat \<Rightarrow> u8 list \<Rightarrow> u8 list option \<times> u8 list" where
  "sample_codec n s = (Some (replicate n (sum_list s)), s @ [1])"

definition sample_take :: "nat \<Rightarrow> u8 list \<Rightarrow> (u8 list \<times> u8 list) option" where
  "sample_take n r = (if n \<le> length r then Some (take n r, drop n r) else None)"

definition list_transcript ::
  "(nat \<Rightarrow> u8 list \<Rightarrow> 'e list option \<times> u8 list) \<Rightarrow> (u8 list \<times> u8 list, u8 list \<times> u8 list \<times> bool, u8 list, u8 list, u8, 'e) transcript" where
  "list_transcript codec =
     \<lparr>p_public_message = (\<lambda>b (s, a). (s @ b, a)), p_prover_message = (\<lambda>b w (s, a). (s @ b, a @ w)),
      p_verifier_message = (\<lambda>n (s, a). (replicate n (sum_list s), s @ [0], a)),
      p_challenge_vector = (\<lambda>n (s, a). (fst (codec n s), snd (codec n s), a)),
      p_grind = (\<lambda>n (s, a). (True, s @ [of_nat n], a @ [of_nat n])),
      p_narg_string = snd, p_sponge = fst, p_set_sponge = (\<lambda>s (_, a). (s, a)), p_new_with_seed = ([], []),
      squeeze_array = (\<lambda>s. s),
      v_public_message = (\<lambda>b (s, r, ok). (s @ b, r, ok)),
      v_verifier_message = (\<lambda>n (s, r, ok). (replicate n (sum_list s), s @ [0], r, ok)),
      v_challenge_vector = (\<lambda>n (s, r, ok). (fst (codec n s), snd (codec n s), r, ok)),
      v_check_grind = (\<lambda>n (s, r, ok). if ok \<and> take 1 r = [of_nat n] then (True, s @ [of_nat n], drop 1 r, True) else (False, s, r, False)),
      v_check = (\<lambda>c (s, r, ok). (c \<and> ok, s, r, c \<and> ok)), v_check_eof = (\<lambda>(s, r, ok). ok \<and> r = []),
      v_message_bytes = sample_message, v_message_u32 = sample_message, v_message_fields = sample_message,
      v_message_exts = sample_message, reader_take = sample_take,
      u32_from_narg = (\<lambda>r. if 4 \<le> length r then Some (from_le_bytes (take 4 r), drop 4 r) else None),
      challenge_bytes = (\<lambda>n. if n \<le> usize_max then Some n else None), bytes_msg = (\<lambda>b. b), protocol_tag = (\<lambda>s. map of_char s), digest_hash = take 32,
      try_reserve = (\<lambda>_. True)\<rparr>"

definition list_view :: "(nat \<Rightarrow> u8 list \<Rightarrow> 'e list option \<times> u8 list) \<Rightarrow> (u8 list \<times> u8 list \<times> bool, u8 list, u8 list, 'e) transcript_view" where
  "list_view codec = \<lparr>vw_sponge = fst, vw_reader = (\<lambda>(s, r, ok). r), vw_live = (\<lambda>(s, r, ok). ok), vw_rest = (\<lambda>r. r),
     vw_absorb = (\<lambda>b s. s @ b), vw_squeeze = (\<lambda>n s. (replicate n (sum_list s), s @ [0])), vw_codec = codec,
     vw_pow = (\<lambda>n s. Some ([of_nat n], s @ [of_nat n]))\<rparr>"

abbreviation sample_transcript :: "(u8 list \<times> u8 list, u8 list \<times> u8 list \<times> bool, u8 list, u8 list, u8, u8) transcript" where
  "sample_transcript \<equiv> list_transcript sample_codec"

abbreviation sample_view :: "(u8 list \<times> u8 list \<times> bool, u8 list, u8 list, u8) transcript_view" where
  "sample_view \<equiv> list_view sample_codec"

definition byte_codec :: "(u8, u8) field_codec" where
  "byte_codec = \<lparr>num_bytes = 1, to_bytes_le = (\<lambda>x. [x]), from_bytes_le_checked = (\<lambda>bs. if length bs = 1 then Some (hd bs) else None),
     ext_degree = 1, to_base_vec = (\<lambda>x. [x]), from_base_slice = hd\<rparr>"

lemma list_prover_laws: "prover_laws (list_transcript codec) (list_view codec)"
  by (simp add: prover_laws_def list_transcript_def list_view_def case_prod_unfold)

lemma list_reader_laws: "reader_laws (list_transcript codec) (list_view codec)"
  by (simp add: reader_laws_def list_transcript_def list_view_def sample_take_def)

lemma list_message_laws:
  "message_laws (list_view codec) (v_message_bytes (list_transcript codec))" "message_laws (list_view codec) (v_message_u32 (list_transcript codec))"
  "message_laws (list_view codec) (v_message_fields (list_transcript codec))" "message_laws (list_view codec) (v_message_exts (list_transcript codec))"
  by (auto simp: message_laws_def list_transcript_def list_view_def sample_message_def split: option.splits)

lemma list_verifier_laws: "(\<And>n s. fst (codec n s) \<noteq> None) \<Longrightarrow> verifier_laws (list_transcript codec) (list_view codec)"
  unfolding verifier_laws_def using list_message_laws [of codec]
  by (auto simp: list_transcript_def list_view_def)

lemma list_memory: "memory_suffices (list_transcript codec)"
  by (simp add: memory_suffices_def list_transcript_def)

lemma sample_verifier_laws: "verifier_laws sample_transcript sample_view"
  by (rule list_verifier_laws) (simp add: sample_codec_def)

lemmas sample_prover_laws = list_prover_laws [of sample_codec]
  and sample_reader_laws = list_reader_laws [of sample_codec]
  and sample_memory = list_memory [of sample_codec]

lemma sample_field_laws: "field_laws byte_codec"
  by (auto simp: field_laws_def byte_codec_def length_Suc_conv)

interpretation sample: transcript_pair_memory sample_transcript sample_view byte_codec
  by unfold_locales (rule sample_prover_laws sample_reader_laws sample_verifier_laws sample_field_laws sample_memory)+

context transcript_pair_memory
begin

lemma channels_mirrored:
  "mirrored_channels (prover_channel tr fc) (verifier_channel tr fc) (p_narg_string tr) (channel_sync tr vw)"
  by unfold_locales

end

section \<open>Properties\<close>

text \<open>
  C6.  Every message of the channel reaches the verifier: when the prover's operation succeeds, the
  verifier's counterpart on a synchronised state returns the same extension group, field group,
  byte group, bounded payload, nonce or challenge and stays synchronised, and the prover only
  appends to the argument string.
\<close>

theorem channel_groups_mirrored:
  fixes tr :: "('p, 'v, 'r, 's, 'f, 'e::comm_ring_1) transcript"
  assumes "prover_laws tr vw" and "reader_laws tr vw" and "verifier_laws tr vw" and "field_laws fc"
    and "memory_suffices tr"
  defines "log \<equiv> p_narg_string tr" and "sync \<equiv> channel_sync tr vw"
  shows "mirrors log sync (exchange_extension_group (prover_channel tr fc) fc site es)
      (exchange_extension_group (verifier_channel tr fc) fc site (replicate (length es) 0)) \<and>
    mirrors log sync (sending (send_field_group tr fc site elements) elements) (receive_field_group tr fc site (length elements)) \<and>
    mirrors log sync (sending (send_byte_group tr site bytes) bytes) (receive_byte_group tr fc site (length bytes)) \<and>
    mirrors log sync (sending (send_bounded_bytes tr site bytes max_len) bytes) (receive_bounded_bytes tr fc site max_len) \<and>
    mirrors log sync (\<lambda>p. (Ok nonce, send_nonce tr nonce p)) (receive_nonce tr) \<and>
    mirrors log sync (ext_challenge tr (prover_channel tr fc) site) (ext_challenge tr (verifier_channel tr fc) site) \<and>
    mirrors log sync (prover_challenge_message tr len decode) (verifier_challenge_message tr len decode)"
proof -
  have tp: "transcript_pair_memory tr vw fc"
    using assms by (simp add: transcript_pair_memory_def transcript_pair_def transcript_pair_memory_axioms_def)
  then have t: "transcript_pair tr vw fc" by (simp add: transcript_pair_memory_def)
  note mc = transcript_pair_memory.channels_mirrored [OF tp]
  note facts = mirrored_channels.exchange_extension_group_mirror [OF mc] transcript_pair.field_group_mirrors [OF t assms(5)]
    transcript_pair.byte_group_mirrors [OF t] transcript_pair.bounded_bytes_mirrors [OF t] transcript_pair.nonce_mirrors [OF t]
    mirrored_channels.ext_challenge_mirror [OF mc] transcript_pair.challenge_message_mirrors [OF t]
  show ?thesis unfolding log_def sync_def by (intro conjI facts) simp
qed

theorem channel_groups_mirrored_witness:
  "mirrors (p_narg_string sample_transcript) (channel_sync sample_transcript sample_view)
     (sending (send_bounded_bytes sample_transcript default_site [7, 8, 9] 16) [7, 8, 9])
     (receive_bounded_bytes sample_transcript byte_codec default_site 16)"
  by (rule channel_groups_mirrored [OF sample_prover_laws sample_reader_laws sample_verifier_laws sample_field_laws sample_memory,
      THEN conjunct2, THEN conjunct2, THEN conjunct2, THEN conjunct1])

text \<open>
  C7.  The verifier's channel is fail closed: an operation that returns an error leaves the state
  rejected, no operation revives a rejected state, and a rejected state never passes the
  end-of-argument check, even when the caller drops the error.
\<close>

theorem verifier_fail_closed:
  fixes tr :: "('p, 'v, 'r, 's, 'f, 'e::comm_ring_1) transcript"
  assumes "prover_laws tr vw" and "reader_laws tr vw" and "verifier_laws tr vw" and "field_laws fc"
  defines "live \<equiv> vw_live vw" and "ch \<equiv> verifier_channel tr fc"
  shows "fail_closed live (exchange_extension_group ch fc site es) \<and>
    fail_closed live (receive_field_group tr fc site count) \<and>
    fail_closed live (receive_byte_group tr fc site count) \<and>
    fail_closed live (receive_bounded_bytes tr fc site count) \<and>
    fail_closed live (receive_nonce tr) \<and>
    fail_closed live (public_extensions ch fc site es) \<and>
    fail_closed live (extension_slots tr ch count) \<and>
    fail_closed live (ext_challenge tr ch site) \<and>
    fail_closed live (verifier_challenge_message tr count decode) \<and>
    (\<not> live v \<longrightarrow> \<not> v_check_eof tr v)"
proof -
  have t: "transcript_pair tr vw fc" using assms by (simp add: transcript_pair_def)
  note facts = transcript_pair.exchange_group_fail_closed [OF t] transcript_pair.receive_groups_fail_closed [OF t]
    transcript_pair.receive_bounded_bytes_fail_closed [OF t] transcript_pair.public_groups_fail_closed [OF t]
    transcript_pair.ext_challenges_fail_closed [OF t] transcript_pair.challenge_message_fail_closed [OF t]
    transcript_pair.rejected_never_accepted [OF t]
  show ?thesis unfolding live_def ch_def by (intro conjI impI facts)
qed

theorem verifier_fail_closed_witness:
  "fail_closed (vw_live sample_view) (receive_bounded_bytes sample_transcript byte_codec default_site 16) \<and>
   \<not> v_check_eof sample_transcript ([], [], False)"
proof -
  note facts = verifier_fail_closed [OF sample_prover_laws sample_reader_laws sample_verifier_laws sample_field_laws,
      where v = "([], [], False)" and count = 16 and site = default_site and decode = Ok and es = "[]"]
  have "\<not> vw_live sample_view ([], [], False)" by (simp add: list_view_def)
  with facts show ?thesis by blast
qed

text \<open>
  C25.  A fold's proof of work found on the detached preview can be carried to the live channel: after
  the live channel sends the same nonce, committing the work succeeds and leaves the sponge and
  the argument string a live search would leave, and the preview's sponge, from which the
  challenge messages were drawn, is the live one.  On a channel whose sponge has another
  fingerprint the commit fails and changes nothing.
\<close>

theorem fold_preview_commit:
  fixes tr :: "('p, 'v, 'r, 's, 'f, 'e::comm_ring_1) transcript" and fc :: "('f, 'e) field_codec"
  assumes "prover_laws tr vw" and "reader_laws tr vw" and "verifier_laws tr vw" and "field_laws fc"
    and "preview_grind tr bits (preview_new tr p nonce) = (Ok (), preview)"
    and "take_work preview = (Ok work, preview')"
    and "p_grind tr bits (send_nonce tr nonce p) = (found, searched)"
  shows "found \<and> (\<exists>committed. fold_work_commit tr work (send_nonce tr nonce p) = (Ok (), committed) \<and>
      p_sponge tr committed = p_sponge tr searched \<and> p_narg_string tr committed = p_narg_string tr searched) \<and>
    p_sponge tr (preview_state preview') = p_sponge tr searched \<and>
    (squeeze_array tr (p_sponge tr other) \<noteq> work_start work \<longrightarrow>
       (\<exists>e. fold_work_commit tr work other = (Err e, other)))"
proof -
  have t: "transcript_pair tr vw fc" using assms by (simp add: transcript_pair_def)
  obtain r committed where c: "fold_work_commit tr work (send_nonce tr nonce p) = (r, committed)" by fastforce
  note main = transcript_pair.commit_of_preview [OF t assms(5,6) c assms(7)]
  have "preview_state preview' = preview_state preview" using assms(6) by (auto simp: take_work_def)
  with main c show ?thesis by (simp add: fold_work_commit_def sponge_fingerprint_def)
qed

theorem fold_preview_commit_witness:
  "\<exists>committed. fold_work_commit sample_transcript
      \<lparr>work_nonce = 5, work_start = nonce_word 5, work_sponge = nonce_word 5 @ [3], work_argument = [3]\<rparr>
      (send_nonce sample_transcript 5 ([], [])) = (Ok (), committed) \<and>
    p_sponge sample_transcript committed = nonce_word 5 @ [3] \<and> p_narg_string sample_transcript committed = wire 5 @ [3]"
proof -
  let ?work = "\<lparr>work_nonce = 5 :: u32, work_start = nonce_word 5, work_sponge = nonce_word 5 @ [3], work_argument = [3]\<rparr>"
  let ?pv = "\<lparr>preview_state = (nonce_word 5 @ [3], [3]), preview_nonce = 5 :: u32, preview_work = Some ?work\<rparr>"
  have 1: "preview_grind sample_transcript 3 (preview_new sample_transcript ([], []) 5) = (Ok (), ?pv)"
    by (simp add: preview_grind_def preview_new_def sponge_fingerprint_def Let_def list_transcript_def)
  have 2: "take_work ?pv = (Ok ?work, ?pv\<lparr>preview_work := None\<rparr>)" by (simp add: take_work_def)
  have 3: "p_grind sample_transcript 3 (send_nonce sample_transcript 5 ([], [])) = (True, (nonce_word 5 @ [3], wire 5 @ [3]))"
    by (simp add: send_nonce_def list_transcript_def)
  show ?thesis
    using fold_preview_commit [OF sample_prover_laws sample_reader_laws sample_verifier_laws sample_field_laws 1 2 3]
    by (simp add: list_transcript_def)
qed

end
