(* ===== verification/Sumcheck.thy ===== *)
theory Sumcheck
  imports Proof_Channel
begin

text \<open>
  The sumcheck drivers of the crate \<^verbatim>\<open>akita-sumcheck\<close> (\<^verbatim>\<open>proof_stream.rs\<close>, \<^verbatim>\<open>single.rs\<close>,
  \<^verbatim>\<open>traits.rs\<close>, \<^verbatim>\<open>accum.rs\<close>): the public shape, the standard and the equality-factored prover and
  verifier loops over a proof channel, the claim update of an equality-factored round, and the
  adapters that make an infallible in-memory instance a fallible kernel.

  The univariate polynomial types (\<^verbatim>\<open>jolt_poly\<close>) are another package: their operations are the
  record \<open>poly_ops\<close>.  The traits are records of operations: a kernel over its state \<open>'k\<close>, and a
  sumcheck channel over its state \<open>'c\<close> that gives access to the proof channel inside it.
\<close>

section \<open>Polynomials, kernels and channels\<close>

record ('u, 'z, 'o, 'e) poly_ops =
  poly_evaluate :: "'u \<Rightarrow> 'e \<Rightarrow> 'e"
  poly_compress :: "'u \<Rightarrow> 'z"
  coeffs_except_linear_term :: "'z \<Rightarrow> 'e list"
  compressed_new :: "'e list \<Rightarrow> 'z"
  eval_from_hint :: "'z \<Rightarrow> 'e \<Rightarrow> 'e \<Rightarrow> 'e"
  omitted_new :: "'e list \<Rightarrow> 'o"
  into_coefficients :: "'o \<Rightarrow> 'e list"
  nonconstant_term_sum_at_one :: "'o \<Rightarrow> 'e"
  evaluate_nonconstant_terms :: "'o \<Rightarrow> 'e \<Rightarrow> 'e"

datatype sumcheck_role = RoleClaim | RoleRoundBody | RoleChallenge

fun role_tag :: "sumcheck_role \<Rightarrow> u32" where
  "role_tag RoleClaim = 1"
| "role_tag RoleRoundBody = 3"
| "role_tag RoleChallenge = 4"

record sumcheck_shape =
  shape_rounds :: nat
  shape_degree :: nat

definition shape_new :: "nat \<Rightarrow> nat \<Rightarrow> sumcheck_shape result" where
  "shape_new num_rounds degree_bound =
     (if degree_bound = 0 \<or> num_rounds > u32_max \<or> Checked_Arith.product [degree_bound, num_rounds] = None
      then Err (InvalidSetup ''invalid native sumcheck shape'')
      else Ok \<lparr>shape_rounds = num_rounds, shape_degree = degree_bound\<rparr>)"

definition validate_instance :: "sumcheck_shape \<Rightarrow> nat \<Rightarrow> nat \<Rightarrow> unit result" where
  "validate_instance shape num_rounds degree_bound =
     (if shape_rounds shape \<noteq> num_rounds \<or> shape_degree shape \<noteq> degree_bound
      then Err (InvalidSetup ''native sumcheck instance disagrees with its public shape'')
      else Ok ())"

text \<open>The fallible kernels (\<^verbatim>\<open>SumcheckKernel\<close>, \<^verbatim>\<open>EqFactoredSumcheckKernel\<close>).\<close>

record ('k, 'u, 'e) sumcheck_kernel =
  k_num_rounds :: "'k \<Rightarrow> nat"
  k_degree_bound :: "'k \<Rightarrow> nat"
  k_input_claim :: "'k \<Rightarrow> 'e"
  k_current_tau :: "'k \<Rightarrow> 'e"
  k_round_polynomial :: "nat \<Rightarrow> 'e \<Rightarrow> 'k \<Rightarrow> ('u, 'k) outcome"
  k_bind_challenge :: "nat \<Rightarrow> 'e \<Rightarrow> 'k \<Rightarrow> (unit, 'k) outcome"
  k_finish :: "'k \<Rightarrow> (unit, 'k) outcome"

text \<open>
  The infallible instances (\<^verbatim>\<open>SumcheckInstanceProver\<close>, \<^verbatim>\<open>EqFactoredSumcheckInstanceProver\<close>) and
  their adapters.  Only the equality-factored traits have \<^verbatim>\<open>current_tau\<close>.
\<close>

record ('k, 'u, 'e) instance_prover =
  i_num_rounds :: "'k \<Rightarrow> nat"
  i_degree_bound :: "'k \<Rightarrow> nat"
  i_input_claim :: "'k \<Rightarrow> 'e"
  i_current_tau :: "'k \<Rightarrow> 'e"
  i_compute_round :: "nat \<Rightarrow> 'e \<Rightarrow> 'k \<Rightarrow> 'u \<times> 'k"
  i_ingest_challenge :: "nat \<Rightarrow> 'e \<Rightarrow> 'k \<Rightarrow> 'k"
  i_finalize :: "'k \<Rightarrow> 'k"

definition infallible_sumcheck :: "('k, 'u, 'e) instance_prover \<Rightarrow> ('k, 'u, 'e) sumcheck_kernel" where
  "infallible_sumcheck i =
     \<lparr>k_num_rounds = i_num_rounds i, k_degree_bound = i_degree_bound i, k_input_claim = i_input_claim i,
      k_current_tau = i_current_tau i,
      k_round_polynomial = (\<lambda>rnd claim k. case i_compute_round i rnd claim k of (u, k') \<Rightarrow> (Ok u, k')),
      k_bind_challenge = (\<lambda>rnd challenge k. (Ok (), i_ingest_challenge i rnd challenge k)),
      k_finish = (\<lambda>k. (Ok (), i_finalize i k))\<rparr>"

record 'e instance_verifier =
  vi_num_rounds :: nat
  vi_degree_bound :: nat
  vi_input_claim :: 'e
  vi_expected_output_claim :: "'e list \<Rightarrow> 'e result"

text \<open>
  The traits \<^verbatim>\<open>SumcheckProverChannel\<close> and \<^verbatim>\<open>SumcheckVerifierChannel\<close>: \<open>sc_state\<close> and \<open>sc_put\<close> are the
  borrow \<^verbatim>\<open>state_mut\<close>.
\<close>

record ('c, 'st, 'e) sumcheck_channel =
  sc_state :: "'c \<Rightarrow> 'st"
  sc_put :: "'st \<Rightarrow> 'c \<Rightarrow> 'c"
  sc_site :: "'c \<Rightarrow> u32 \<Rightarrow> u32 \<Rightarrow> sumcheck_role \<Rightarrow> protocol_site_id"
  sc_round_challenge :: "u32 \<Rightarrow> u32 \<Rightarrow> 'c \<Rightarrow> ('e, 'c) outcome"

definition on_state :: "('c, 'st, 'e) sumcheck_channel \<Rightarrow> ('st \<Rightarrow> ('a, 'st) outcome) \<Rightarrow> 'c \<Rightarrow> ('a, 'c) outcome" where
  "on_state sc f c = (case f (sc_state sc c) of (r, st) \<Rightarrow> (r, sc_put sc st c))"

definition on_kernel :: "('k \<Rightarrow> ('a, 'k) outcome) \<Rightarrow> 'k \<times> 'c \<Rightarrow> ('a, 'k \<times> 'c) outcome" where
  "on_kernel f s = (case f (fst s) of (r, k) \<Rightarrow> (r, (k, snd s)))"

definition on_channel :: "('c \<Rightarrow> ('a, 'c) outcome) \<Rightarrow> 'k \<times> 'c \<Rightarrow> ('a, 'k \<times> 'c) outcome" where
  "on_channel f s = (case f (snd s) of (r, c) \<Rightarrow> (r, (fst s, c)))"

record 'e sumcheck_round_result =
  output_claim :: 'e
  result_challenges :: "'e list"

section \<open>Messages of one sumcheck\<close>

definition absorb_claim ::
  "('c, 'st, 'e) sumcheck_channel \<Rightarrow> ('st, 'e) proof_channel \<Rightarrow> ('f, 'e) field_codec \<Rightarrow> u32 \<Rightarrow> 'e \<Rightarrow> 'c \<Rightarrow>
   (unit, 'c) outcome" where
  "absorb_claim sc ch fc ivk claim c =
     on_state sc (public_extensions ch fc (sc_site sc c ivk 0 RoleClaim) [claim]) c"

definition exchange_body ::
  "('c, 'st, 'e) sumcheck_channel \<Rightarrow> ('st, 'e) proof_channel \<Rightarrow> ('f, 'e) field_codec \<Rightarrow> u32 \<Rightarrow> nat \<Rightarrow> 'e list \<Rightarrow> 'c \<Rightarrow>
   ('e list, 'c) outcome" where
  "exchange_body sc ch fc ivk rnd coefficients c =
     on_state sc (exchange_extension_group ch fc (sc_site sc c ivk (of_nat rnd) RoleRoundBody) coefficients) c"

text \<open>The verifier's half of a round: allocate the slots, then read the body into them.\<close>

definition receive_body ::
  "('p, 'v, 'r, 's, 'f, 'e::zero) transcript \<Rightarrow> ('c, 'st, 'e) sumcheck_channel \<Rightarrow> ('st, 'e) proof_channel \<Rightarrow>
   ('f, 'e) field_codec \<Rightarrow> u32 \<Rightarrow> nat \<Rightarrow> nat \<Rightarrow> 'c \<Rightarrow> ('e list, 'c) outcome" where
  "receive_body tr sc ch fc ivk rnd degree c =
     (let body_site = sc_site sc c ivk (of_nat rnd) RoleRoundBody
      in st_bind (on_state sc (extension_slots tr ch degree) c)
           (\<lambda>slots. on_state sc (exchange_extension_group ch fc body_site slots)))"

definition resize :: "nat \<Rightarrow> 'a::zero list \<Rightarrow> 'a list" where
  "resize n xs = (if n \<le> length xs then take n xs else xs @ replicate (n - length xs) 0)"

section \<open>Standard sumcheck\<close>

definition prove_round ::
  "('u, 'z, 'o, 'e::comm_ring_1) poly_ops \<Rightarrow> ('k, 'u, 'e) sumcheck_kernel \<Rightarrow> ('c, 'st, 'e) sumcheck_channel \<Rightarrow>
   ('st, 'e) proof_channel \<Rightarrow> ('f, 'e) field_codec \<Rightarrow> u32 \<Rightarrow> nat \<Rightarrow> nat \<Rightarrow> 'e \<Rightarrow> 'k \<times> 'c \<Rightarrow>
   ('e \<times> 'e, 'k \<times> 'c) outcome" where
  "prove_round P K sc ch fc ivk degree rnd claim s =
     (if rnd > u32_max then (Err (Internal ''sumcheck round index does not fit u32''), s)
      else st_bind (on_kernel (k_round_polynomial K rnd claim) s) (\<lambda>poly s.
        if poly_evaluate P poly 0 + poly_evaluate P poly 1 \<noteq> claim
        then (Err (InvalidInput ''sumcheck round polynomial does not match its input claim''), s)
        else let coefficients = coeffs_except_linear_term P (poly_compress P poly);
                 coefficient_count = length coefficients
             in if coefficient_count = 0
                then (Err (Internal ''sumcheck compressed coefficient count is zero''), s)
                else if coefficient_count > degree
                then (Err (Internal ''sumcheck compressed coefficient count exceeds degree bound''), s)
                else st_bind (on_channel (exchange_body sc ch fc ivk rnd (resize degree coefficients)) s) (\<lambda>body s.
                     st_bind (on_channel (sc_round_challenge sc ivk (of_nat rnd)) s) (\<lambda>challenge s.
                       let claim' = eval_from_hint P (compressed_new P body) claim challenge
                       in st_bind (on_kernel (k_bind_challenge K rnd challenge) s)
                            (\<lambda>_ s. (Ok (challenge, claim'), s))))))"

text \<open>\<^verbatim>\<open>for round in 0..num_rounds\<close>, from \<open>rnd\<close> with \<open>n\<close> rounds left.\<close>

fun run_rounds :: "(nat \<Rightarrow> 'e \<Rightarrow> 's \<Rightarrow> ('e \<times> 'e, 's) outcome) \<Rightarrow> nat \<Rightarrow> nat \<Rightarrow> 'e \<Rightarrow> 'e list \<Rightarrow> 's \<Rightarrow>
    ('e list \<times> 'e, 's) outcome" where
  "run_rounds step 0 rnd claim challenges s = (Ok (challenges, claim), s)"
| "run_rounds step (Suc n) rnd claim challenges s =
     st_bind (step rnd claim s)
       (\<lambda>(challenge, claim') s'. run_rounds step n (Suc rnd) claim' (challenges @ [challenge]) s')"

definition prove_sumcheck ::
  "('u, 'z, 'o, 'e::comm_ring_1) poly_ops \<Rightarrow> ('k, 'u, 'e) sumcheck_kernel \<Rightarrow> ('c, 'st, 'e) sumcheck_channel \<Rightarrow>
   ('st, 'e) proof_channel \<Rightarrow> ('f, 'e) field_codec \<Rightarrow> sumcheck_shape \<Rightarrow> u32 \<Rightarrow> 'k \<times> 'c \<Rightarrow>
   ('e list \<times> 'e, 'k \<times> 'c) outcome" where
  "prove_sumcheck P K sc ch fc shape ivk s =
     st_bind (validate_instance shape (k_num_rounds K (fst s)) (k_degree_bound K (fst s)), s) (\<lambda>_ s.
       let claim = k_input_claim K (fst s)
       in st_bind (on_channel (absorb_claim sc ch fc ivk claim) s) (\<lambda>_ s.
          st_bind (run_rounds (prove_round P K sc ch fc ivk (shape_degree shape)) (shape_rounds shape) 0 claim [] s) (\<lambda>res s.
          st_bind (on_kernel (k_finish K) s) (\<lambda>_ s. (Ok res, s)))))"

definition verify_round ::
  "('u, 'z, 'o, 'e::comm_ring_1) poly_ops \<Rightarrow> ('p, 'v, 'r, 's, 'f, 'e) transcript \<Rightarrow> ('c, 'st, 'e) sumcheck_channel \<Rightarrow>
   ('st, 'e) proof_channel \<Rightarrow> ('f, 'e) field_codec \<Rightarrow> u32 \<Rightarrow> nat \<Rightarrow> nat \<Rightarrow> 'e \<Rightarrow> 'c \<Rightarrow> ('e \<times> 'e, 'c) outcome" where
  "verify_round P tr sc ch fc ivk degree rnd claim c =
     (if rnd > u32_max then (Err InvalidProof, c)
      else st_bind (receive_body tr sc ch fc ivk rnd degree c) (\<lambda>body c.
           st_bind (sc_round_challenge sc ivk (of_nat rnd) c) (\<lambda>challenge c.
             (Ok (challenge, eval_from_hint P (compressed_new P body) claim challenge), c))))"

definition verify_sumcheck_rounds ::
  "('u, 'z, 'o, 'e::comm_ring_1) poly_ops \<Rightarrow> ('p, 'v, 'r, 's, 'f, 'e) transcript \<Rightarrow> ('c, 'st, 'e) sumcheck_channel \<Rightarrow>
   ('st, 'e) proof_channel \<Rightarrow> ('f, 'e) field_codec \<Rightarrow> u32 \<Rightarrow> 'e \<Rightarrow> sumcheck_shape \<Rightarrow> 'c \<Rightarrow>
   ('e sumcheck_round_result, 'c) outcome" where
  "verify_sumcheck_rounds P tr sc ch fc ivk claim shape c =
     st_bind (absorb_claim sc ch fc ivk claim c) (\<lambda>_ c.
     st_bind (run_rounds (verify_round P tr sc ch fc ivk (shape_degree shape)) (shape_rounds shape) 0 claim [] c)
       (\<lambda>(challenges, claim') c. (Ok \<lparr>output_claim = claim', result_challenges = challenges\<rparr>, c)))"

definition verify_sumcheck ::
  "('u, 'z, 'o, 'e::comm_ring_1) poly_ops \<Rightarrow> ('p, 'v, 'r, 's, 'f, 'e) transcript \<Rightarrow> ('c, 'st, 'e) sumcheck_channel \<Rightarrow>
   ('st, 'e) proof_channel \<Rightarrow> ('f, 'e) field_codec \<Rightarrow> 'e instance_verifier \<Rightarrow> sumcheck_shape \<Rightarrow> u32 \<Rightarrow> 'c \<Rightarrow>
   ('e list, 'c) outcome" where
  "verify_sumcheck P tr sc ch fc V shape ivk c =
     st_bind (validate_instance shape (vi_num_rounds V) (vi_degree_bound V), c) (\<lambda>_ c.
     st_bind (verify_sumcheck_rounds P tr sc ch fc ivk (vi_input_claim V) shape c) (\<lambda>replay c.
     st_bind (vi_expected_output_claim V (result_challenges replay), c) (\<lambda>expected c.
       if output_claim replay \<noteq> expected then (Err InvalidProof, c)
       else (Ok (result_challenges replay), c))))"

section \<open>Equality-factored sumcheck\<close>

definition advance_eq_factored_claim ::
  "('u, 'z, 'o, 'e::comm_ring_1) poly_ops \<Rightarrow> 'e \<Rightarrow> 'e \<Rightarrow> 'o \<Rightarrow> 'e \<Rightarrow> 'e" where
  "advance_eq_factored_claim P claim tau poly challenge =
     (let constant = claim - tau * nonconstant_term_sum_at_one P poly
      in constant + evaluate_nonconstant_terms P poly challenge)"

definition prove_eq_round ::
  "('u, 'z, 'o, 'e::comm_ring_1) poly_ops \<Rightarrow> ('k, 'o, 'e) sumcheck_kernel \<Rightarrow> ('c, 'st, 'e) sumcheck_channel \<Rightarrow>
   ('st, 'e) proof_channel \<Rightarrow> ('f, 'e) field_codec \<Rightarrow> u32 \<Rightarrow> nat \<Rightarrow> nat \<Rightarrow> 'e \<Rightarrow> 'k \<times> 'c \<Rightarrow>
   ('e \<times> 'e, 'k \<times> 'c) outcome" where
  "prove_eq_round P K sc ch fc ivk degree rnd claim s =
     (if rnd > u32_max then (Err (Internal ''equality-factored sumcheck round index does not fit u32''), s)
      else st_bind (on_kernel (k_round_polynomial K rnd claim) s) (\<lambda>q s.
        let coefficients = into_coefficients P q;
            coefficient_count = length coefficients
        in if coefficient_count > degree
           then (Err (Internal ''equality-factored sumcheck coefficient count exceeds the degree bound''), s)
           else st_bind (on_channel (exchange_body sc ch fc ivk rnd (resize degree coefficients)) s) (\<lambda>body s.
                let poly = omitted_new P body
                in st_bind (on_channel (sc_round_challenge sc ivk (of_nat rnd)) s) (\<lambda>challenge s.
                   let claim' = advance_eq_factored_claim P claim (k_current_tau K (fst s)) poly challenge
                   in st_bind (on_kernel (k_bind_challenge K rnd challenge) s)
                        (\<lambda>_ s. (Ok (challenge, claim'), s))))))"

definition prove_eq_factored_sumcheck ::
  "('u, 'z, 'o, 'e::comm_ring_1) poly_ops \<Rightarrow> ('k, 'o, 'e) sumcheck_kernel \<Rightarrow> ('c, 'st, 'e) sumcheck_channel \<Rightarrow>
   ('st, 'e) proof_channel \<Rightarrow> ('f, 'e) field_codec \<Rightarrow> sumcheck_shape \<Rightarrow> u32 \<Rightarrow> 'k \<times> 'c \<Rightarrow>
   ('e list \<times> 'e, 'k \<times> 'c) outcome" where
  "prove_eq_factored_sumcheck P K sc ch fc shape ivk s =
     st_bind (validate_instance shape (k_num_rounds K (fst s)) (k_degree_bound K (fst s)), s) (\<lambda>_ s.
       let claim = k_input_claim K (fst s)
       in st_bind (on_channel (absorb_claim sc ch fc ivk claim) s) (\<lambda>_ s.
          st_bind (run_rounds (prove_eq_round P K sc ch fc ivk (shape_degree shape)) (shape_rounds shape) 0 claim [] s) (\<lambda>res s.
          st_bind (on_kernel (k_finish K) s) (\<lambda>_ s. (Ok res, s)))))"

definition verify_eq_round ::
  "('u, 'z, 'o, 'e::comm_ring_1) poly_ops \<Rightarrow> ('p, 'v, 'r, 's, 'f, 'e) transcript \<Rightarrow> ('c, 'st, 'e) sumcheck_channel \<Rightarrow>
   ('st, 'e) proof_channel \<Rightarrow> ('f, 'e) field_codec \<Rightarrow> u32 \<Rightarrow> nat \<Rightarrow> 'e list \<Rightarrow> nat \<Rightarrow> 'e \<Rightarrow> 'c \<Rightarrow> ('e \<times> 'e, 'c) outcome" where
  "verify_eq_round P tr sc ch fc ivk degree equality_point rnd claim c =
     (if rnd > u32_max then (Err InvalidProof, c)
      else st_bind (receive_body tr sc ch fc ivk rnd degree c) (\<lambda>body c.
           st_bind (sc_round_challenge sc ivk (of_nat rnd) c) (\<lambda>challenge c.
             (Ok (challenge, advance_eq_factored_claim P claim (equality_point ! rnd) (omitted_new P body) challenge), c))))"

definition verify_eq_factored_sumcheck_rounds ::
  "('u, 'z, 'o, 'e::comm_ring_1) poly_ops \<Rightarrow> ('p, 'v, 'r, 's, 'f, 'e) transcript \<Rightarrow> ('c, 'st, 'e) sumcheck_channel \<Rightarrow>
   ('st, 'e) proof_channel \<Rightarrow> ('f, 'e) field_codec \<Rightarrow> 'e list \<Rightarrow> 'e \<Rightarrow> sumcheck_shape \<Rightarrow> u32 \<Rightarrow> 'c \<Rightarrow>
   ('e sumcheck_round_result, 'c) outcome" where
  "verify_eq_factored_sumcheck_rounds P tr sc ch fc equality_point claim shape ivk c =
     st_bind (validate_instance shape (length equality_point) (shape_degree shape), c) (\<lambda>_ c.
       if equality_point = [] then (Err (InvalidSize 1 0), c)
       else st_bind (absorb_claim sc ch fc ivk claim c) (\<lambda>_ c.
            st_bind (run_rounds (verify_eq_round P tr sc ch fc ivk (shape_degree shape) equality_point)
                       (length equality_point) 0 claim [] c)
              (\<lambda>(challenges, claim') c. (Ok \<lparr>output_claim = claim', result_challenges = challenges\<rparr>, c))))"

definition verify_eq_factored_sumcheck ::
  "('u, 'z, 'o, 'e::comm_ring_1) poly_ops \<Rightarrow> ('p, 'v, 'r, 's, 'f, 'e) transcript \<Rightarrow> ('c, 'st, 'e) sumcheck_channel \<Rightarrow>
   ('st, 'e) proof_channel \<Rightarrow> ('f, 'e) field_codec \<Rightarrow> 'e list \<Rightarrow> 'e \<Rightarrow> sumcheck_shape \<Rightarrow> u32 \<Rightarrow>
   ('e list \<Rightarrow> 'e result) \<Rightarrow> 'c \<Rightarrow> ('e list, 'c) outcome" where
  "verify_eq_factored_sumcheck P tr sc ch fc equality_point claim shape ivk expected_output_claim c =
     st_bind (verify_eq_factored_sumcheck_rounds P tr sc ch fc equality_point claim shape ivk c) (\<lambda>replay c.
     st_bind (expected_output_claim (result_challenges replay), c) (\<lambda>expected c.
       if output_claim replay \<noteq> expected then (Err InvalidProof, c)
       else (Ok (result_challenges replay), c)))"

end
