(* ===== verification/Sumcheck_Algebra.thy ===== *)
theory Sumcheck_Algebra
  imports Sumcheck
begin

text \<open>
  The algebra behind the sumcheck drivers: univariate polynomials as coefficient lists with a
  bound on the number of their roots, sums of a function over the Boolean cube with one pair of
  weights per variable (both weights one for the standard protocol, \<open>1 - \<tau>\<close> and \<open>\<tau>\<close> for the
  equality-factored one), and the two arguments about a sequence of rounds that hold for either
  driver: an honest claim stays honest, and a false claim survives only through a challenge at
  which two different polynomials agree.
\<close>

section \<open>Coefficient lists\<close>

fun poly_value :: "'a::comm_ring_1 list \<Rightarrow> 'a \<Rightarrow> 'a" where
  "poly_value [] x = 0"
| "poly_value (c # cs) x = c + x * poly_value cs x"

lemma poly_value_zeros [simp]: "poly_value (replicate n 0) x = 0"
  by (induction n) simp_all

lemma poly_value_padded [simp]: "poly_value (cs @ replicate n 0) x = poly_value cs x"
  by (induction cs) simp_all

lemma poly_value_at_zero: "poly_value cs 0 = (if cs = [] then 0 else hd cs)"
  by (cases cs) simp_all

lemma poly_value_at_one: "poly_value cs 1 = sum_list cs"
  by (induction cs) simp_all

fun list_add :: "'a::comm_ring_1 list \<Rightarrow> 'a list \<Rightarrow> 'a list" where
  "list_add [] ds = ds"
| "list_add cs [] = cs"
| "list_add (c # cs) (d # ds) = (c + d) # list_add cs ds"

lemma poly_value_add: "poly_value (list_add cs ds) x = poly_value cs x + poly_value ds x"
  by (induction cs ds rule: list_add.induct) (simp_all add: algebra_simps)

lemma length_list_add [simp]: "length (list_add cs ds) = max (length cs) (length ds)"
  by (induction cs ds rule: list_add.induct) simp_all

lemma poly_value_scaled: "poly_value (map ((*) a) cs) x = a * poly_value cs x"
  by (induction cs) (simp_all add: algebra_simps)

text \<open>Synthetic division by \<open>X - a\<close>.\<close>

fun synthetic :: "'a::comm_ring_1 list \<Rightarrow> 'a \<Rightarrow> 'a list" where
  "synthetic [] a = []"
| "synthetic [c] a = []"
| "synthetic (c # d # cs) a = poly_value (d # cs) a # synthetic (d # cs) a"

lemma length_synthetic [simp]: "length (synthetic cs a) = length cs - 1"
  by (induction cs a rule: synthetic.induct) simp_all

lemma synthetic_division: "poly_value cs x - poly_value cs a = (x - a) * poly_value (synthetic cs a) x"
proof (induction cs a rule: synthetic.induct)
  case (3 c d cs a)
  have "poly_value (c # d # cs) x - poly_value (c # d # cs) a =
      x * (poly_value (d # cs) x - poly_value (d # cs) a) + (x - a) * poly_value (d # cs) a"
    by (simp add: algebra_simps)
  also have "\<dots> = x * ((x - a) * poly_value (synthetic (d # cs) a) x) + (x - a) * poly_value (d # cs) a"
    by (simp only: 3)
  finally show ?case by (simp add: algebra_simps)
qed simp_all

text \<open>A polynomial that is not zero everywhere has fewer roots than coefficients.\<close>

lemma root_bound:
  fixes cs :: "'a::idom list"
  assumes "poly_value cs y \<noteq> 0"
  shows "finite {x. poly_value cs x = 0} \<and> card {x. poly_value cs x = 0} < length cs"
  using assms
proof (induction "length cs" arbitrary: cs)
  case 0
  then show ?case by simp
next
  case (Suc n)
  show ?case
  proof (cases "\<exists>a. poly_value cs a = 0")
    case False
    then have "{x. poly_value cs x = 0} = {}" by auto
    with Suc.hyps(2) show ?thesis by (simp flip: Suc.hyps(2))
  next
    case True
    then obtain a where a: "poly_value cs a = 0" by blast
    let ?q = "synthetic cs a"
    have split: "poly_value cs x = (x - a) * poly_value ?q x" for x
      using synthetic_division [of cs x a] a by simp
    with Suc.prems have "poly_value ?q y \<noteq> 0" by auto
    moreover have "n = length ?q" using Suc.hyps(2) by simp
    ultimately have q: "finite {x. poly_value ?q x = 0}" "card {x. poly_value ?q x = 0} < n"
      using Suc.hyps(1) [of ?q] by simp_all
    have "{x. poly_value cs x = 0} = insert a {x. poly_value ?q x = 0}" using split by auto
    with q have "finite {x. poly_value cs x = 0}" "card {x. poly_value cs x = 0} \<le> Suc (card {x. poly_value ?q x = 0})"
      by (simp_all add: card_insert_le_m1 card_insert_if)
    with q Suc.hyps(2) show ?thesis by linarith
  qed
qed

lemma agreement_bound:
  fixes cs ds :: "'a::idom list"
  assumes "length cs \<le> Suc d" "length ds \<le> Suc d" and "poly_value cs y \<noteq> poly_value ds y"
  shows "finite {x. poly_value cs x = poly_value ds x} \<and> card {x. poly_value cs x = poly_value ds x} \<le> d"
proof -
  let ?es = "list_add cs (map ((*) (- 1)) ds)"
  have val: "poly_value ?es x = poly_value cs x - poly_value ds x" for x
    by (simp add: poly_value_add poly_value_scaled)
  have "finite {x. poly_value ?es x = 0} \<and> card {x. poly_value ?es x = 0} < length ?es"
    by (rule root_bound) (use assms(3) in \<open>simp add: val\<close>)
  moreover have "length ?es \<le> Suc d" using assms(1,2) by simp
  ultimately show ?thesis by (auto simp: val)
qed

section \<open>Weighted sums over the cube\<close>

text \<open>
  \<open>cube_sum ws g rs\<close> is the sum of \<open>g\<close> over the points that start with \<open>rs\<close> and continue with
  bits, each bit weighted by its pair in \<open>ws\<close>.
\<close>

fun cube_sum :: "('a::comm_ring_1 \<times> 'a) list \<Rightarrow> ('a list \<Rightarrow> 'a) \<Rightarrow> 'a list \<Rightarrow> 'a" where
  "cube_sum [] g rs = g rs"
| "cube_sum ((a, b) # ws) g rs = a * cube_sum ws g (rs @ [0]) + b * cube_sum ws g (rs @ [1])"

lemma cube_sum_Cons: "cube_sum (w # ws) g rs = fst w * cube_sum ws g (rs @ [0]) + snd w * cube_sum ws g (rs @ [1])"
  by (cases w) simp

abbreviation standard_weights :: "nat \<Rightarrow> ('a::comm_ring_1 \<times> 'a) list" where
  "standard_weights n \<equiv> replicate n (1, 1)"

definition eq_weights :: "'a::comm_ring_1 list \<Rightarrow> ('a \<times> 'a) list" where
  "eq_weights taus = map (\<lambda>t. (1 - t, t)) taus"

text \<open>A function of individual degree at most \<open>d\<close>: each coordinate alone is a polynomial.\<close>

definition individual_degree :: "nat \<Rightarrow> ('a::comm_ring_1 list \<Rightarrow> 'a) \<Rightarrow> bool" where
  "individual_degree d g \<longleftrightarrow>
     (\<forall>ls us. \<exists>cs. length cs \<le> Suc d \<and> (\<forall>x. g (ls @ x # us) = poly_value cs x))"

lemma cube_sum_degree:
  assumes "individual_degree d g"
  shows "\<exists>cs. length cs \<le> Suc d \<and> (\<forall>x. cube_sum ws g (ls @ x # us) = poly_value cs x)"
proof (induction ws arbitrary: us)
  case Nil
  with assms show ?case by (simp add: individual_degree_def)
next
  case (Cons w ws)
  obtain a b where w: "w = (a, b)" by (cases w)
  from Cons.IH [of "us @ [0]"] obtain cs where cs: "length cs \<le> Suc d" "\<And>x. cube_sum ws g (ls @ x # us @ [0]) = poly_value cs x"
    by auto
  from Cons.IH [of "us @ [1]"] obtain ds where ds: "length ds \<le> Suc d" "\<And>x. cube_sum ws g (ls @ x # us @ [1]) = poly_value ds x"
    by auto
  let ?es = "list_add (map ((*) a) cs) (map ((*) b) ds)"
  have "length ?es \<le> Suc d" "cube_sum (w # ws) g (ls @ x # us) = poly_value ?es x" for x
    using cs ds by (simp_all add: w poly_value_add poly_value_scaled)
  then show ?case by blast
qed

section \<open>Sequences of rounds\<close>

lemma run_rounds_challenges:
  "run_rounds step n rnd claim rs s = (Ok (cs, claim'), s') \<Longrightarrow> \<exists>ts. cs = rs @ ts \<and> length ts = n"
proof (induction n arbitrary: rnd claim rs s)
  case 0
  then show ?case by simp
next
  case (Suc n)
  from Suc.prems obtain r claim1 s1 where "run_rounds step n (Suc rnd) claim1 (rs @ [r]) s1 = (Ok (cs, claim'), s')"
    by (auto simp: st_bind_eq_Inr)
  from Suc.IH [OF this] show ?case by auto
qed

text \<open>An honest claim is carried to the value of the function at the challenges.\<close>

lemma honest_rounds:
  assumes step: "\<And>rs claim s r claim' s'. length rs < length ws \<Longrightarrow> I rs s \<Longrightarrow> claim = cube_sum (drop (length rs) ws) g rs \<Longrightarrow>
      step (length rs) claim s = (Ok (r, claim'), s') \<Longrightarrow>
      I (rs @ [r]) s' \<and> claim' = cube_sum (drop (Suc (length rs)) ws) g (rs @ [r])"
    and run: "run_rounds step n (length rs) claim rs s = (Ok (cs, claim'), s')"
    and I: "I rs s" and claim: "claim = cube_sum (drop (length rs) ws) g rs" and n: "n + length rs = length ws"
  shows "I cs s' \<and> length cs = length ws \<and> claim' = g cs"
  using run I claim n
proof (induction n arbitrary: rs claim s)
  case 0
  then show ?case by auto
next
  case (Suc n)
  from Suc.prems(1) obtain r claim1 s1 where r: "step (length rs) claim s = (Ok (r, claim1), s1)"
    and rest: "run_rounds step n (length (rs @ [r])) claim1 (rs @ [r]) s1 = (Ok (cs, claim'), s')"
    by (auto simp: st_bind_eq_Inr)
  from step [OF _ Suc.prems(2,3) r] Suc.prems(4) have "I (rs @ [r]) s1" "claim1 = cube_sum (drop (length (rs @ [r])) ws) g (rs @ [r])"
    by auto
  from Suc.IH [OF rest this] Suc.prems(4) show ?case by simp
qed

text \<open>
  A false claim that ends in the true value passed through a round where the polynomial of the
  message differs from the true one and the challenge is a point where both agree.  \<open>T\<close> records
  what the round's message was; the claim and the state before that round are those the earlier
  rounds produce.
\<close>

lemma false_claim_round:
  assumes step: "\<And>i claim s r claim'. i < length ws \<Longrightarrow> fst (step i claim s) = Ok (r, claim') \<Longrightarrow>
      \<exists>cs. T i claim s cs r \<and> fst (ws ! i) * poly_value cs 0 + snd (ws ! i) * poly_value cs 1 = claim \<and> claim' = poly_value cs r"
    and run: "run_rounds step n (length rs) claim rs s = (Ok (cs, g cs), s')" and n: "n + length rs = length ws"
    and false: "claim \<noteq> cube_sum (drop (length rs) ws) g rs"
  shows "\<exists>i claim_i s_i ps. length rs \<le> i \<and> i < length ws \<and> T i claim_i s_i ps (cs ! i) \<and>
    run_rounds step (i - length rs) (length rs) claim rs s = (Ok (take i cs, claim_i), s_i) \<and>
    poly_value ps (cs ! i) = cube_sum (drop (Suc i) ws) g (take i cs @ [cs ! i]) \<and>
    (\<exists>x. poly_value ps x \<noteq> cube_sum (drop (Suc i) ws) g (take i cs @ [x]))"
  using run n false
proof (induction n arbitrary: rs claim s)
  case 0
  then show ?case by simp
next
  case (Suc n)
  let ?i = "length rs"
  have i: "?i < length ws" using Suc.prems(2) by simp
  from Suc.prems(1) obtain r claim1 s1 where r: "step ?i claim s = (Ok (r, claim1), s1)"
    and rest: "run_rounds step n (length (rs @ [r])) claim1 (rs @ [r]) s1 = (Ok (cs, g cs), s')"
    by (auto simp: st_bind_eq_Inr)
  from r have "fst (step ?i claim s) = Ok (r, claim1)" by simp
  from step [OF i this] obtain ps where ps: "T ?i claim s ps r" and sum: "fst (ws ! ?i) * poly_value ps 0 + snd (ws ! ?i) * poly_value ps 1 = claim"
    and claim1: "claim1 = poly_value ps r" by blast
  from run_rounds_challenges [OF rest] obtain ts where cs: "cs = rs @ r # ts" by auto
  show ?case
  proof (cases "claim1 = cube_sum (drop (length (rs @ [r])) ws) g (rs @ [r])")
    case False
    have "n + length (rs @ [r]) = length ws" using Suc.prems(2) by simp
    from Suc.IH [OF rest this False] obtain i claim_i s_i ps' where found: "length (rs @ [r]) \<le> i" "i < length ws"
      "T i claim_i s_i ps' (cs ! i)" "run_rounds step (i - length (rs @ [r])) (length (rs @ [r])) claim1 (rs @ [r]) s1 = (Ok (take i cs, claim_i), s_i)"
      "poly_value ps' (cs ! i) = cube_sum (drop (Suc i) ws) g (take i cs @ [cs ! i])"
      "\<exists>x. poly_value ps' x \<noteq> cube_sum (drop (Suc i) ws) g (take i cs @ [x])" by blast
    from found(1) have le: "length rs \<le> i" and "i - length rs = Suc (i - length (rs @ [r]))" by simp_all
    with found(4) r have "run_rounds step (i - length rs) (length rs) claim rs s = (Ok (take i cs, claim_i), s_i)" by simp
    with le found show ?thesis by blast
  next
    case True
    have "\<exists>x. poly_value ps x \<noteq> cube_sum (drop (Suc ?i) ws) g (rs @ [x])"
    proof (rule ccontr)
      assume "\<nexists>x. poly_value ps x \<noteq> cube_sum (drop (Suc ?i) ws) g (rs @ [x])"
      then have eq: "poly_value ps x = cube_sum (drop (Suc ?i) ws) g (rs @ [x])" for x by blast
      have "drop ?i ws = ws ! ?i # drop (Suc ?i) ws" by (simp add: Cons_nth_drop_Suc i)
      then have "cube_sum (drop ?i ws) g rs = fst (ws ! ?i) * poly_value ps 0 + snd (ws ! ?i) * poly_value ps 1"
        by (simp add: eq cube_sum_Cons)
      with sum Suc.prems(3) show False by simp
    qed
    moreover have "cs ! ?i = r" "take ?i cs = rs" by (simp_all add: cs)
    ultimately show ?thesis using ps True claim1 i by (intro exI [of _ ?i] exI [of _ claim] exI [of _ s] exI [of _ ps]) auto
  qed
qed

end
