(* ===== verification/Sumcheck_Correct.thy ===== *)
theory Sumcheck_Correct
  imports Sumcheck_Algebra Proof_Channel_Correct
begin

text \<open>
  Correctness of the sumcheck drivers.  Soundness is stated for every channel: an accepted false
  claim exhibits a round in which the challenge, drawn after the round body was received, hit one
  of at most \<open>degree_bound\<close> points determined by that body and the earlier challenges.
  Completeness is in \<open>Sumcheck_Complete\<close>.
\<close>

section \<open>Hypotheses on the polynomial package\<close>

text \<open>
  The polynomial a compressed body and a hint stand for: the linear coefficient is the one that
  makes the values at 0 and 1 add up to the hint.
\<close>

definition hint_coeffs :: "'a::comm_ring_1 list \<Rightarrow> 'a \<Rightarrow> 'a list" where
  "hint_coeffs cs h = hd cs # (h - hd cs - hd cs - sum_list (tl cs)) # tl cs"

definition poly_laws :: "('u, 'z, 'o, 'e::comm_ring_1) poly_ops \<Rightarrow> bool" where
  "poly_laws P \<longleftrightarrow>
     (\<forall>cs h x. cs \<noteq> [] \<longrightarrow> eval_from_hint P (compressed_new P cs) h x = poly_value (hint_coeffs cs h) x) \<and>
     (\<forall>u x. coeffs_except_linear_term P (poly_compress P u) \<noteq> [] \<longrightarrow>
        poly_evaluate P u x = poly_value (hint_coeffs (coeffs_except_linear_term P (poly_compress P u))
          (poly_evaluate P u 0 + poly_evaluate P u 1)) x) \<and>
     (\<forall>cs. nonconstant_term_sum_at_one P (omitted_new P cs) = sum_list cs) \<and>
     (\<forall>cs x. evaluate_nonconstant_terms P (omitted_new P cs) x = x * poly_value cs x)"

lemma length_hint_coeffs [simp]: "cs \<noteq> [] \<Longrightarrow> length (hint_coeffs cs h) = Suc (length cs)"
  by (cases cs) (simp_all add: hint_coeffs_def)

lemma hint_coeffs_sum: "poly_value (hint_coeffs cs h) 0 + poly_value (hint_coeffs cs h) 1 = h"
  by (simp add: hint_coeffs_def poly_value_at_one)

lemma resize_padded: "length xs \<le> n \<Longrightarrow> resize n xs = xs @ replicate (n - length xs) 0"
  by (cases "n = length xs") (simp_all add: resize_def)

lemma hint_coeffs_padded:
  "cs \<noteq> [] \<Longrightarrow> poly_value (hint_coeffs (cs @ replicate n 0) h) x = poly_value (hint_coeffs cs h) x"
  by (cases cs) (simp_all add: hint_coeffs_def sum_list_replicate)

section \<open>Round messages\<close>

lemma length_overwrite [simp]: "length (overwrite xs ys) = length xs"
  by (induction xs ys rule: overwrite.induct) simp_all

lemma on_state_Ok: "on_state sc f c = (Ok x, c') \<longleftrightarrow> (\<exists>st. f (sc_state sc c) = (Ok x, st) \<and> c' = sc_put sc st c)"
  by (auto simp: on_state_def split: prod.splits)

lemma extension_slots_Ok: "extension_slots tr ch n c = (Ok xs, c') \<Longrightarrow> xs = replicate n 0"
  by (auto simp: extension_slots_def st_bind_eq_Inr)

lemma exchange_extension_group_length: "exchange_extension_group ch fc site xs c = (Ok ys, c') \<Longrightarrow> length ys = length xs"
  by (auto simp: exchange_extension_group_def st_bind_eq_Inr)

lemma receive_body_length:
  "receive_body tr sc ch fc ivk rnd degree c = (Ok body, c') \<Longrightarrow> length body = degree"
  by (auto simp: receive_body_def Let_def st_bind_eq_Inr on_state_Ok dest!: extension_slots_Ok exchange_extension_group_length)

lemma verify_round_Ok:
  assumes "fst (verify_round P tr sc ch fc ivk degree rnd claim c) = Ok (r, claim')"
  obtains body c1 where "receive_body tr sc ch fc ivk rnd degree c = (Ok body, c1)"
    "fst (sc_round_challenge sc ivk (of_nat rnd) c1) = Ok r" "length body = degree"
    "claim' = eval_from_hint P (compressed_new P body) claim r"
proof -
  obtain c' where "verify_round P tr sc ch fc ivk degree rnd claim c = (Ok (r, claim'), c')"
    using assms by (metis prod.collapse)
  then obtain body c1 c2 where "receive_body tr sc ch fc ivk rnd degree c = (Ok body, c1)"
    "sc_round_challenge sc ivk (of_nat rnd) c1 = (Ok r, c2)" "claim' = eval_from_hint P (compressed_new P body) claim r"
    by (auto simp: verify_round_def st_bind_eq_Inr split: if_splits)
  with that receive_body_length show ?thesis by fastforce
qed

lemma verify_eq_round_Ok:
  assumes "fst (verify_eq_round P tr sc ch fc ivk degree taus rnd claim c) = Ok (r, claim')"
  obtains body c1 where "receive_body tr sc ch fc ivk rnd degree c = (Ok body, c1)"
    "fst (sc_round_challenge sc ivk (of_nat rnd) c1) = Ok r" "length body = degree"
    "claim' = advance_eq_factored_claim P claim (taus ! rnd) (omitted_new P body) r"
proof -
  obtain c' where "verify_eq_round P tr sc ch fc ivk degree taus rnd claim c = (Ok (r, claim'), c')"
    using assms by (metis prod.collapse)
  then obtain body c1 c2 where "receive_body tr sc ch fc ivk rnd degree c = (Ok body, c1)"
    "sc_round_challenge sc ivk (of_nat rnd) c1 = (Ok r, c2)"
    "claim' = advance_eq_factored_claim P claim (taus ! rnd) (omitted_new P body) r"
    by (auto simp: verify_eq_round_def st_bind_eq_Inr split: if_splits)
  with that receive_body_length show ?thesis by fastforce
qed

text \<open>The polynomial an equality-factored body stands for, its constant recovered from the claim.\<close>

definition omitted_coeffs :: "'a::comm_ring_1 list \<Rightarrow> 'a \<Rightarrow> 'a \<Rightarrow> 'a list" where
  "omitted_coeffs cs tau claim = (claim - tau * sum_list cs) # cs"

lemma omitted_coeffs_sum:
  "(1 - tau) * poly_value (omitted_coeffs cs tau claim) 0 + tau * poly_value (omitted_coeffs cs tau claim) 1 = claim"
  by (simp add: omitted_coeffs_def poly_value_at_one algebra_simps)

lemma advance_eq_factored_value:
  assumes "poly_laws P"
  shows "advance_eq_factored_claim P claim tau (omitted_new P cs) r = poly_value (omitted_coeffs cs tau claim) r"
  using assms by (simp add: poly_laws_def advance_eq_factored_claim_def omitted_coeffs_def)

text \<open>From the state \<open>c\<close> a body is received in round \<open>i\<close> and the challenge \<open>r\<close> drawn from the state it leaves.\<close>

definition round_message ::
  "('p, 'v, 'r, 's, 'f, 'e::zero) transcript \<Rightarrow> ('c, 'st, 'e) sumcheck_channel \<Rightarrow> ('st, 'e) proof_channel \<Rightarrow>
   ('f, 'e) field_codec \<Rightarrow> u32 \<Rightarrow> nat \<Rightarrow> nat \<Rightarrow> 'e list \<Rightarrow> 'e \<Rightarrow> 'c \<Rightarrow> bool" where
  "round_message tr sc ch fc ivk degree i body r c \<longleftrightarrow>
     (\<exists>c'. receive_body tr sc ch fc ivk i degree c = (Ok body, c') \<and>
        fst (sc_round_challenge sc ivk (of_nat i) c') = Ok r)"

lemma bad_challenges_bound:
  fixes g :: "'e::idom list \<Rightarrow> 'e"
  assumes g: "individual_degree d g" and ps: "length ps \<le> Suc d"
    and differ: "\<exists>x. poly_value ps x \<noteq> cube_sum ws g (rs @ [x])"
  shows "finite {x. poly_value ps x = cube_sum ws g (rs @ [x])} \<and> card {x. poly_value ps x = cube_sum ws g (rs @ [x])} \<le> d"
proof -
  from cube_sum_degree [OF g, of ws rs "[]"] obtain qs where
    qs: "length qs \<le> Suc d" "\<And>x. cube_sum ws g (rs @ [x]) = poly_value qs x" by auto
  from differ obtain y where "poly_value ps y \<noteq> poly_value qs y" by (auto simp: qs)
  from agreement_bound [OF ps qs(1) this] show ?thesis by (simp add: qs)
qed

section \<open>Soundness\<close>

lemma sumcheck_rounds_sound:
  fixes P :: "('u, 'z, 'o, 'e::idom) poly_ops"
  assumes P: "poly_laws P" and d: "0 < d" and g: "individual_degree d g"
    and run: "run_rounds (verify_round P tr sc ch fc ivk d) n 0 claim [] c = (Ok (rs, g rs), c')"
    and false: "claim \<noteq> cube_sum (standard_weights n) g []"
  shows "\<exists>i body claim_i c_i. i < n \<and> run_rounds (verify_round P tr sc ch fc ivk d) i 0 claim [] c = (Ok (take i rs, claim_i), c_i) \<and>
    round_message tr sc ch fc ivk d i body (rs ! i) c_i \<and>
    (let bad = {x. poly_value (hint_coeffs body claim_i) x = cube_sum (standard_weights (n - Suc i)) g (take i rs @ [x])}
     in rs ! i \<in> bad \<and> finite bad \<and> card bad \<le> d)"
proof -
  let ?T = "\<lambda>i claim s ps r. \<exists>body c'. receive_body tr sc ch fc ivk i d s = (Ok body, c') \<and>
    fst (sc_round_challenge sc ivk (of_nat i) c') = Ok r \<and> length body = d \<and> ps = hint_coeffs body claim"
  let ?ws = "standard_weights n :: ('e \<times> 'e) list"
  have step: "\<exists>ps. ?T i claim s ps r \<and> fst (?ws ! i) * poly_value ps 0 + snd (?ws ! i) * poly_value ps 1 = claim \<and>
      claim' = poly_value ps r"
    if "i < length ?ws" "fst (verify_round P tr sc ch fc ivk d i claim s) = Ok (r, claim')" for i claim s r claim'
  proof -
    from that(2) obtain body c1 where body: "receive_body tr sc ch fc ivk i d s = (Ok body, c1)"
      "fst (sc_round_challenge sc ivk (of_nat i) c1) = Ok r" "length body = d"
      "claim' = eval_from_hint P (compressed_new P body) claim r" by (rule verify_round_Ok)
    from body d have "body \<noteq> []" by auto
    with P body(4) have "claim' = poly_value (hint_coeffs body claim) r" by (simp add: poly_laws_def)
    then show ?thesis using that(1) body(1-3) hint_coeffs_sum [of body claim] by auto
  qed
  have len: "n + length ([] :: 'e list) = length ?ws" by simp
  have false': "claim \<noteq> cube_sum (drop (length ([] :: 'e list)) ?ws) g []" using false by simp
  have run': "run_rounds (verify_round P tr sc ch fc ivk d) n (length ([] :: 'e list)) claim [] c = (Ok (rs, g rs), c')"
    using run by simp
  from false_claim_round [where ws = ?ws and T = ?T and step = "verify_round P tr sc ch fc ivk d" and g = g and rs = "[]", OF step run' len false', unfolded list.size(3) diff_zero]
  obtain i claim_i c_i ps where i: "i < length ?ws" and T: "?T i claim_i c_i ps (rs ! i)"
    and before: "run_rounds (verify_round P tr sc ch fc ivk d) i 0 claim [] c = (Ok (take i rs, claim_i), c_i)"
    and agree: "poly_value ps (rs ! i) = cube_sum (drop (Suc i) ?ws) g (take i rs @ [rs ! i])"
    and differ: "\<exists>x. poly_value ps x \<noteq> cube_sum (drop (Suc i) ?ws) g (take i rs @ [x])"
    by blast
  from T obtain body where body: "round_message tr sc ch fc ivk d i body (rs ! i) c_i" "length body = d" "ps = hint_coeffs body claim_i"
    unfolding round_message_def by blast
  have "length ps \<le> Suc d" using body d by (cases "body = []") auto
  from bad_challenges_bound [OF g this differ] agree body i before show ?thesis
    by (intro exI [of _ i] exI [of _ body] exI [of _ claim_i] exI [of _ c_i]) (simp add: Let_def)
qed

lemma eq_factored_rounds_sound:
  fixes P :: "('u, 'z, 'o, 'e::idom) poly_ops"
  assumes P: "poly_laws P" and g: "individual_degree d g"
    and run: "run_rounds (verify_eq_round P tr sc ch fc ivk d taus) (length taus) 0 claim [] c = (Ok (rs, g rs), c')"
    and false: "claim \<noteq> cube_sum (eq_weights taus) g []"
  shows "\<exists>i body claim_i c_i. i < length taus \<and> run_rounds (verify_eq_round P tr sc ch fc ivk d taus) i 0 claim [] c = (Ok (take i rs, claim_i), c_i) \<and>
    round_message tr sc ch fc ivk d i body (rs ! i) c_i \<and>
    (let bad = {x. poly_value (omitted_coeffs body (taus ! i) claim_i) x = cube_sum (eq_weights (drop (Suc i) taus)) g (take i rs @ [x])}
     in rs ! i \<in> bad \<and> finite bad \<and> card bad \<le> d)"
proof -
  let ?T = "\<lambda>i claim s ps r. \<exists>body c'. receive_body tr sc ch fc ivk i d s = (Ok body, c') \<and>
    fst (sc_round_challenge sc ivk (of_nat i) c') = Ok r \<and> length body = d \<and> ps = omitted_coeffs body (taus ! i) claim"
  let ?ws = "eq_weights taus"
  have step: "\<exists>ps. ?T i claim s ps r \<and> fst (?ws ! i) * poly_value ps 0 + snd (?ws ! i) * poly_value ps 1 = claim \<and>
      claim' = poly_value ps r"
    if "i < length ?ws" "fst (verify_eq_round P tr sc ch fc ivk d taus i claim s) = Ok (r, claim')" for i claim s r claim'
  proof -
    from that(2) obtain body c1 where body: "receive_body tr sc ch fc ivk i d s = (Ok body, c1)"
      "fst (sc_round_challenge sc ivk (of_nat i) c1) = Ok r" "length body = d"
      "claim' = advance_eq_factored_claim P claim (taus ! i) (omitted_new P body) r" by (rule verify_eq_round_Ok)
    have "claim' = poly_value (omitted_coeffs body (taus ! i) claim) r" using body(4) advance_eq_factored_value [OF P] by simp
    then show ?thesis using that(1) body(1-3) omitted_coeffs_sum [of "taus ! i" body claim] by (auto simp: eq_weights_def)
  qed
  have len: "length taus + length ([] :: 'e list) = length ?ws" by (simp add: eq_weights_def)
  have false': "claim \<noteq> cube_sum (drop (length ([] :: 'e list)) ?ws) g []" using false by simp
  have run': "run_rounds (verify_eq_round P tr sc ch fc ivk d taus) (length taus) (length ([] :: 'e list)) claim [] c = (Ok (rs, g rs), c')"
    using run by simp
  from false_claim_round [where ws = ?ws and T = ?T and step = "verify_eq_round P tr sc ch fc ivk d taus" and g = g and rs = "[]", OF step run' len false', unfolded list.size(3) diff_zero]
  obtain i claim_i c_i ps where i: "i < length ?ws" and T: "?T i claim_i c_i ps (rs ! i)"
    and before: "run_rounds (verify_eq_round P tr sc ch fc ivk d taus) i 0 claim [] c = (Ok (take i rs, claim_i), c_i)"
    and agree: "poly_value ps (rs ! i) = cube_sum (drop (Suc i) ?ws) g (take i rs @ [rs ! i])"
    and differ: "\<exists>x. poly_value ps x \<noteq> cube_sum (drop (Suc i) ?ws) g (take i rs @ [x])"
    by blast
  from T obtain body where body: "round_message tr sc ch fc ivk d i body (rs ! i) c_i" "length body = d" "ps = omitted_coeffs body (taus ! i) claim_i"
    unfolding round_message_def by blast
  have "length ps \<le> Suc d" using body by (simp add: omitted_coeffs_def)
  moreover have "drop (Suc i) ?ws = eq_weights (drop (Suc i) taus)" by (simp add: eq_weights_def drop_map)
  moreover have "i < length taus" using i by (simp add: eq_weights_def)
  ultimately show ?thesis using bad_challenges_bound [OF g _ differ] agree body before
    by (intro exI [of _ i] exI [of _ body] exI [of _ claim_i] exI [of _ c_i]) (simp add: Let_def)
qed

lemma verify_sumcheck_Ok:
  assumes "verify_sumcheck P tr sc ch fc V shape ivk c = (Ok rs, c')"
  obtains c1 out where "absorb_claim sc ch fc ivk (vi_input_claim V) c = (Ok (), c1)"
    "shape_rounds shape = vi_num_rounds V" "shape_degree shape = vi_degree_bound V"
    "run_rounds (verify_round P tr sc ch fc ivk (shape_degree shape)) (shape_rounds shape) 0 (vi_input_claim V) [] c1 = (Ok (rs, out), c')"
    "vi_expected_output_claim V rs = Ok out"
  using assms that
  by (auto simp: verify_sumcheck_def verify_sumcheck_rounds_def st_bind_eq_Inr validate_instance_def split: if_splits)

lemma verify_eq_factored_sumcheck_Ok:
  assumes "verify_eq_factored_sumcheck P tr sc ch fc taus claim shape ivk expected c = (Ok rs, c')"
  obtains c1 out where "shape_rounds shape = length taus" "absorb_claim sc ch fc ivk claim c = (Ok (), c1)"
    "run_rounds (verify_eq_round P tr sc ch fc ivk (shape_degree shape) taus) (length taus) 0 claim [] c1 = (Ok (rs, out), c')"
    "expected rs = Ok out"
  using assms that
  by (auto simp: verify_eq_factored_sumcheck_def verify_eq_factored_sumcheck_rounds_def st_bind_eq_Inr validate_instance_def split: if_splits)

section \<open>Polynomials as coefficient lists\<close>

definition list_poly_ops :: "('e::comm_ring_1 list, 'e list, 'e list, 'e) poly_ops" where
  "list_poly_ops =
     \<lparr>poly_evaluate = poly_value, poly_compress = (\<lambda>u. case u of [] \<Rightarrow> [] | c # cs \<Rightarrow> c # drop 1 cs),
      coeffs_except_linear_term = (\<lambda>z. z), compressed_new = (\<lambda>cs. cs),
      eval_from_hint = (\<lambda>z h x. poly_value (hint_coeffs z h) x), omitted_new = (\<lambda>cs. cs), into_coefficients = (\<lambda>q. q),
      nonconstant_term_sum_at_one = sum_list, evaluate_nonconstant_terms = (\<lambda>q x. x * poly_value q x)\<rparr>"

lemma list_poly_laws: "poly_laws (list_poly_ops :: ('e::comm_ring_1 list, 'e list, 'e list, 'e) poly_ops)"
proof -
  let ?P = "list_poly_ops :: ('e list, 'e list, 'e list, 'e) poly_ops"
  have key: "poly_value (c # cs) x = poly_value (hint_coeffs (c # drop 1 cs) (poly_value (c # cs) 0 + poly_value (c # cs) 1)) x" for c x and cs :: "'e list"
    by (cases cs) (simp_all add: hint_coeffs_def poly_value_at_one)
  have ev: "poly_evaluate ?P = poly_value" by (simp add: list_poly_ops_def)
  have "poly_evaluate ?P u x = poly_value (hint_coeffs (coeffs_except_linear_term ?P (poly_compress ?P u))
      (poly_evaluate ?P u 0 + poly_evaluate ?P u 1)) x"
    if ne: "coeffs_except_linear_term ?P (poly_compress ?P u) \<noteq> []" for u x
  proof (cases u)
    case Nil
    with ne show ?thesis by (simp add: list_poly_ops_def)
  next
    case (Cons c cs)
    have co: "coeffs_except_linear_term ?P (poly_compress ?P (c # cs)) = c # drop 1 cs" by (simp add: list_poly_ops_def)
    show ?thesis unfolding Cons co ev by (rule key)
  qed
  then show ?thesis unfolding poly_laws_def by (intro conjI allI impI) (assumption | simp add: list_poly_ops_def)+
qed

section \<open>Properties\<close>

text \<open>
  C3. Soundness of the standard sumcheck verifier over an integral domain.  If it accepts a claim
  that is not the sum of \<open>g\<close> over the cube, where \<open>g\<close> has individual degree at most the public
  degree bound and is what \<^verbatim>\<open>expected_output_claim\<close> evaluates, then in some round the challenge
  drawn after the body of that round lies in a set of at most \<open>degree\<close> points, which the body of
  that round and the replay of the rounds before it determine.
\<close>

theorem sumcheck_sound:
  fixes P :: "('u, 'z, 'o, 'e::idom) poly_ops"
  assumes P: "poly_laws P" and shape: "shape_new n d = Ok shape" and g: "individual_degree d g"
    and accept: "verify_sumcheck P tr sc ch fc V shape ivk c = (Ok rs, c')"
    and exact: "\<And>rs out. vi_expected_output_claim V rs = Ok out \<Longrightarrow> out = g rs"
    and false: "vi_input_claim V \<noteq> cube_sum (standard_weights n) g []"
  shows "length rs = n \<and> (\<exists>i body claim_i c_i. i < n \<and>
    verify_sumcheck_rounds P tr sc ch fc ivk (vi_input_claim V) (shape\<lparr>shape_rounds := i\<rparr>) c =
      (Ok \<lparr>output_claim = claim_i, result_challenges = take i rs\<rparr>, c_i) \<and>
    round_message tr sc ch fc ivk d i body (rs ! i) c_i \<and>
    (let bad = {x. poly_value (hint_coeffs body claim_i) x = cube_sum (standard_weights (n - Suc i)) g (take i rs @ [x])}
     in rs ! i \<in> bad \<and> finite bad \<and> card bad \<le> d))"
proof -
  from shape have sh: "shape_rounds shape = n" "shape_degree shape = d" "0 < d" by (auto simp: shape_new_def split: if_splits)
  from accept obtain c1 out where
    run: "run_rounds (verify_round P tr sc ch fc ivk d) n 0 (vi_input_claim V) [] c1 = (Ok (rs, out), c')"
    and "vi_expected_output_claim V rs = Ok out" and c1: "absorb_claim sc ch fc ivk (vi_input_claim V) c = (Ok (), c1)"
    by (rule verify_sumcheck_Ok) (simp add: sh)
  with exact have "run_rounds (verify_round P tr sc ch fc ivk d) n 0 (vi_input_claim V) [] c1 = (Ok (rs, g rs), c')" by simp
  from sumcheck_rounds_sound [OF P sh(3) g this false] obtain i body claim_i c_i where found: "i < n"
    "run_rounds (verify_round P tr sc ch fc ivk d) i 0 (vi_input_claim V) [] c1 = (Ok (take i rs, claim_i), c_i)"
    "round_message tr sc ch fc ivk d i body (rs ! i) c_i"
    "let bad = {x. poly_value (hint_coeffs body claim_i) x = cube_sum (standard_weights (n - Suc i)) g (take i rs @ [x])}
     in rs ! i \<in> bad \<and> finite bad \<and> card bad \<le> d" by blast
  have "verify_sumcheck_rounds P tr sc ch fc ivk (vi_input_claim V) (shape\<lparr>shape_rounds := i\<rparr>) c =
      (Ok \<lparr>output_claim = claim_i, result_challenges = take i rs\<rparr>, c_i)"
    by (simp add: verify_sumcheck_rounds_def c1 sh found(2))
  moreover have "length rs = n" using run_rounds_challenges [OF run] by simp
  ultimately show ?thesis using found by blast
qed

text \<open>
  C24. Soundness of the equality-factored verifier: the same for a claim that is not the sum of \<open>g\<close>
  weighted by the equality polynomial of the public point, whose verifier recovers the omitted
  constant of every round from the claim.
\<close>

theorem eq_factored_sumcheck_sound:
  fixes P :: "('u, 'z, 'o, 'e::idom) poly_ops"
  assumes P: "poly_laws P" and g: "individual_degree (shape_degree shape) g"
    and accept: "verify_eq_factored_sumcheck P tr sc ch fc taus claim shape ivk expected c = (Ok rs, c')"
    and exact: "\<And>rs out. expected rs = Ok out \<Longrightarrow> out = g rs"
    and false: "claim \<noteq> cube_sum (eq_weights taus) g []"
  shows "length rs = length taus \<and> (\<exists>i body claim_i c1 c_i. i < length taus \<and>
    absorb_claim sc ch fc ivk claim c = (Ok (), c1) \<and>
    run_rounds (verify_eq_round P tr sc ch fc ivk (shape_degree shape) taus) i 0 claim [] c1 = (Ok (take i rs, claim_i), c_i) \<and>
    round_message tr sc ch fc ivk (shape_degree shape) i body (rs ! i) c_i \<and>
    (let bad = {x. poly_value (omitted_coeffs body (taus ! i) claim_i) x = cube_sum (eq_weights (drop (Suc i) taus)) g (take i rs @ [x])}
     in rs ! i \<in> bad \<and> finite bad \<and> card bad \<le> shape_degree shape))"
proof -
  from accept obtain c1 out where
    run: "run_rounds (verify_eq_round P tr sc ch fc ivk (shape_degree shape) taus) (length taus) 0 claim [] c1 = (Ok (rs, out), c')"
    and "expected rs = Ok out" and c1: "absorb_claim sc ch fc ivk claim c = (Ok (), c1)" by (rule verify_eq_factored_sumcheck_Ok)
  with exact have "run_rounds (verify_eq_round P tr sc ch fc ivk (shape_degree shape) taus) (length taus) 0 claim [] c1 = (Ok (rs, g rs), c')"
    by simp
  from eq_factored_rounds_sound [OF P g this false] c1 run_rounds_challenges [OF run] show ?thesis by fastforce
qed


text \<open>
  A scripted verifier over the integers: the bodies are read from a list, and every challenge is one.
\<close>

definition script_transcript :: "(unit, unit, unit, unit, int, int) transcript" where
  "script_transcript =
     \<lparr>p_public_message = (\<lambda>_ p. p), p_prover_message = (\<lambda>_ _ p. p), p_verifier_message = (\<lambda>n p. (replicate n 0, p)),
      p_challenge_vector = (\<lambda>n p. (Some (replicate n 1), p)), p_grind = (\<lambda>_ p. (True, p)), p_narg_string = (\<lambda>_. []),
      p_sponge = (\<lambda>p. p), p_set_sponge = (\<lambda>_ p. p), p_new_with_seed = (), squeeze_array = (\<lambda>_. []),
      v_public_message = (\<lambda>_ v. v), v_verifier_message = (\<lambda>n v. (replicate n 0, v)),
      v_challenge_vector = (\<lambda>n v. (Some (replicate n 1), v)), v_check_grind = (\<lambda>_ v. (True, v)),
      v_check = (\<lambda>b v. (b, v)), v_check_eof = (\<lambda>_. True), v_message_bytes = (\<lambda>_ _ v. (None, v)),
      v_message_u32 = (\<lambda>_ _ v. (None, v)), v_message_fields = (\<lambda>_ _ v. (None, v)), v_message_exts = (\<lambda>_ _ v. (None, v)),
      reader_take = (\<lambda>_ _. None), u32_from_narg = (\<lambda>_. None), challenge_bytes = Some, bytes_msg = (\<lambda>b. b),
      protocol_tag = (\<lambda>_. []), digest_hash = (\<lambda>b. b), try_reserve = (\<lambda>_. True)\<rparr>"

definition script_codec :: "(int, int) field_codec" where
  "script_codec = \<lparr>num_bytes = 1, to_bytes_le = (\<lambda>x. [of_int x]), from_bytes_le_checked = (\<lambda>_. None),
     ext_degree = 1, to_base_vec = (\<lambda>x. [x]), from_base_slice = hd\<rparr>"

definition script_proof :: "(int list list, int) proof_channel" where
  "script_proof = \<lparr>ch_public = (\<lambda>_ c. c),
     ch_exchange = (\<lambda>_ c. case c of [] \<Rightarrow> (Err InvalidProof, []) | b # bs \<Rightarrow> (Ok b, bs)),
     ch_challenges = (\<lambda>n c. (Ok (replicate n 1), c)), ch_on_error = (\<lambda>_. [])\<rparr>"

definition script_channel :: "(int list list, int list list, int) sumcheck_channel" where
  "script_channel = \<lparr>sc_state = (\<lambda>c. c), sc_put = (\<lambda>st _. st), sc_site = (\<lambda>_ _ _ _. default_site),
     sc_round_challenge = (\<lambda>_ _ c. (Ok 1, c))\<rparr>"

lemmas script_defs = script_transcript_def script_codec_def script_proof_def script_channel_def

lemma script_absorb: "absorb_claim script_channel script_proof script_codec ivk claim c = (Ok (), c)"
  by (simp add: absorb_claim_def public_extensions_def on_state_def guard_def group_record_def usize_to_u64_def narrow_def
      checked_mul_if usize_max_def u64_max_def script_defs)

lemma script_body: "receive_body script_transcript script_channel script_proof script_codec ivk rnd 1 ([b] # bs) = (Ok [b], bs)"
  by (simp add: receive_body_def extension_slots_def exchange_extension_group_def on_state_def guard_def group_record_def
      usize_to_u64_def narrow_def checked_mul_if usize_max_def u64_max_def script_defs)

lemma script_challenge: "sc_round_challenge script_channel ivk i c = (Ok 1, c)"
  by (simp add: script_channel_def)

lemma linear_degree: "individual_degree 1 (\<lambda>rs. hd rs :: int)"
proof -
  have "\<exists>cs. length cs \<le> Suc 1 \<and> (\<forall>x. hd (ls @ x # us) = poly_value cs x)" for ls us :: "int list"
  proof (cases ls)
    case Nil
    show ?thesis by (rule exI [of _ "[0, 1]"]) (simp add: Nil)
  next
    case (Cons l ls')
    show ?thesis by (rule exI [of _ "[l]"]) (simp add: Cons)
  qed
  then show ?thesis unfolding individual_degree_def by blast
qed

definition script_verifier :: "int instance_verifier" where
  "script_verifier = \<lparr>vi_num_rounds = 1, vi_degree_bound = 1, vi_input_claim = 5, vi_expected_output_claim = (\<lambda>rs. Ok (hd rs))\<rparr>"

theorem sumcheck_sound_witness:
  "\<exists>i body claim_i c_i. i < 1 \<and>
     round_message script_transcript script_channel script_proof script_codec 7 1 i body ([1] ! i) c_i \<and>
     card {x. poly_value (hint_coeffs body claim_i) x = cube_sum (standard_weights (1 - Suc i)) (\<lambda>rs. hd rs :: int) (take i [1] @ [x])} \<le> 1"
proof -
  have shape: "shape_new 1 1 = Ok \<lparr>shape_rounds = 1, shape_degree = 1\<rparr>"
    by (simp add: shape_new_def Checked_Arith.product_def checked_mul_if usize_max_def u32_max_def)
  have accept: "verify_sumcheck list_poly_ops script_transcript script_channel script_proof script_codec script_verifier
      \<lparr>shape_rounds = 1, shape_degree = 1\<rparr> 7 [[4]] = (Ok [1], [])"
    by (simp add: verify_sumcheck_def verify_sumcheck_rounds_def validate_instance_def script_verifier_def script_absorb
        verify_round_def script_body [unfolded One_nat_def] list_poly_ops_def hint_coeffs_def script_challenge)
  from sumcheck_sound [OF list_poly_laws shape linear_degree accept] show ?thesis
    by (auto simp: script_verifier_def Let_def)
qed

theorem eq_factored_sumcheck_sound_witness:
  "\<exists>i body claim_i c_i. i < 1 \<and>
     round_message script_transcript script_channel script_proof script_codec 7 1 i body ([1] ! i) c_i \<and>
     card {x. poly_value (omitted_coeffs body ([2] ! i) claim_i) x = cube_sum (eq_weights (drop (Suc i) [2])) (\<lambda>rs. hd rs :: int) (take i [1] @ [x])} \<le> 1"
proof -
  have accept: "verify_eq_factored_sumcheck list_poly_ops script_transcript script_channel script_proof script_codec [2] 5
      \<lparr>shape_rounds = 1, shape_degree = 1\<rparr> 7 (\<lambda>rs. Ok (hd rs)) [[4]] = (Ok [1], [])"
    by (simp add: verify_eq_factored_sumcheck_def verify_eq_factored_sumcheck_rounds_def validate_instance_def script_absorb
        verify_eq_round_def script_body [unfolded One_nat_def] advance_eq_factored_claim_def list_poly_ops_def script_challenge)
  have "individual_degree (shape_degree \<lparr>shape_rounds = 1, shape_degree = 1\<rparr>) (\<lambda>rs. hd rs :: int)"
    using linear_degree by simp
  from eq_factored_sumcheck_sound [OF list_poly_laws this accept] show ?thesis
    by (auto simp: eq_weights_def Let_def)
qed

end
