(* ===== verification/Sumcheck_Complete.thy ===== *)
theory Sumcheck_Complete
  imports Sumcheck_Correct Eq_Polynomial_Correct
begin

text \<open>
  Completeness of the sumcheck drivers.  \<open>mirrored_sumcheck\<close> is the contract of the two sumcheck
  channels: under it the verifier replays whatever the prover's driver produced.  \<open>honest_kernel\<close>
  and \<open>honest_eq_kernel\<close> are the contracts of the arithmetic kernels: under them the drivers never
  fail on their own account and end in the value of the summed function at the challenges.  The
  dense multilinear instance of the crate satisfies the first.
\<close>

section \<open>Replay of the prover's rounds\<close>

lemma length_resize [simp]: "length (resize n xs) = n"
  by (simp add: resize_def)

lemma on_kernel_Ok: "on_kernel f s = (Ok x, s') \<longleftrightarrow> (\<exists>k. f (fst s) = (Ok x, k) \<and> s' = (k, snd s))"
  by (cases s) (auto simp: on_kernel_def split: prod.splits)

lemma on_channel_Ok: "on_channel f s = (Ok x, s') \<longleftrightarrow> (\<exists>c. f (snd s) = (Ok x, c) \<and> s' = (fst s, c))"
  by (cases s) (auto simp: on_channel_def split: prod.splits)

text \<open>The channel's part of a prover round: send the body, draw the challenge, compute a result.\<close>

definition channel_round ::
  "('c, 'st, 'e) sumcheck_channel \<Rightarrow> ('st, 'e) proof_channel \<Rightarrow> ('f, 'e) field_codec \<Rightarrow> u32 \<Rightarrow> nat \<Rightarrow> 'e list \<Rightarrow>
   ('e list \<Rightarrow> 'e \<Rightarrow> 'a) \<Rightarrow> 'c \<Rightarrow> ('a, 'c) outcome" where
  "channel_round sc ch fc ivk rnd coefficients res c =
     st_bind (exchange_body sc ch fc ivk rnd coefficients c) (\<lambda>body c.
     st_bind (sc_round_challenge sc ivk (of_nat rnd) c) (\<lambda>challenge c. (Ok (res body challenge), c)))"

lemma prove_round_Ok:
  assumes "prove_round P K sc ch fc ivk degree rnd claim s = (Ok (r, claim'), s')"
  obtains u k1 where "k_round_polynomial K rnd claim (fst s) = (Ok u, k1)" "rnd \<le> u32_max"
    "poly_evaluate P u 0 + poly_evaluate P u 1 = claim"
    "coeffs_except_linear_term P (poly_compress P u) \<noteq> []" "length (coeffs_except_linear_term P (poly_compress P u)) \<le> degree"
    "channel_round sc ch fc ivk rnd (resize degree (coeffs_except_linear_term P (poly_compress P u)))
       (\<lambda>body challenge. (challenge, eval_from_hint P (compressed_new P body) claim challenge)) (snd s) = (Ok (r, claim'), snd s')"
    "k_bind_challenge K rnd r k1 = (Ok (), fst s')"
  using assms
  by (auto simp: prove_round_def channel_round_def st_bind_eq_Inr on_kernel_Ok on_channel_Ok Let_def not_less split: if_splits)

lemma prove_eq_round_Ok:
  assumes "prove_eq_round P K sc ch fc ivk degree rnd claim s = (Ok (r, claim'), s')"
  obtains q k1 where "k_round_polynomial K rnd claim (fst s) = (Ok q, k1)" "rnd \<le> u32_max"
    "length (into_coefficients P q) \<le> degree"
    "channel_round sc ch fc ivk rnd (resize degree (into_coefficients P q))
       (\<lambda>body challenge. (challenge, advance_eq_factored_claim P claim (k_current_tau K k1) (omitted_new P body) challenge))
       (snd s) = (Ok (r, claim'), snd s')"
    "k_bind_challenge K rnd r k1 = (Ok (), fst s')"
  using assms
  by (auto simp: prove_eq_round_def channel_round_def st_bind_eq_Inr on_kernel_Ok on_channel_Ok Let_def not_less split: if_splits)

lemma run_rounds_mirror:
  assumes step: "\<And>i claim s r claim' s'. i < bound \<Longrightarrow> J i s \<Longrightarrow> pstep i claim s = (Ok (r, claim'), s') \<Longrightarrow>
      J (Suc i) s' \<and> prefix (log s) (log s') \<and>
      (\<forall>argument v. sync argument s v \<and> prefix (log s') argument \<longrightarrow>
         (\<exists>v'. vstep i claim v = (Ok (r, claim'), v') \<and> sync argument s' v'))"
    and run: "run_rounds pstep n i claim rs s = (Ok res, s')" and J: "J i s" and n: "i + n \<le> bound"
  shows "J (i + n) s' \<and> prefix (log s) (log s') \<and>
    (\<forall>argument v. sync argument s v \<and> prefix (log s') argument \<longrightarrow>
       (\<exists>v'. run_rounds vstep n i claim rs v = (Ok res, v') \<and> sync argument s' v'))"
  using run J n
proof (induction n arbitrary: i claim rs s)
  case 0
  then show ?case by auto
next
  case (Suc n)
  from Suc.prems(1) obtain r claim1 s1 where r: "pstep i claim s = (Ok (r, claim1), s1)"
    and rest: "run_rounds pstep n (Suc i) claim1 (rs @ [r]) s1 = (Ok res, s')"
    by (auto simp: st_bind_eq_Inr)
  have "i < bound" "Suc i + n \<le> bound" using Suc.prems(3) by simp_all
  note s1 = step [OF this(1) Suc.prems(2) r]
  then have IH: "J (Suc i + n) s'" "prefix (log s1) (log s')"
    "\<And>argument v. sync argument s1 v \<Longrightarrow> prefix (log s') argument \<Longrightarrow>
       \<exists>v'. run_rounds vstep n (Suc i) claim1 (rs @ [r]) v = (Ok res, v') \<and> sync argument s' v'"
    using Suc.IH [OF rest] \<open>Suc i + n \<le> bound\<close> by blast+
  show ?case
  proof (intro conjI allI impI; (elim conjE)?)
    show "J (i + Suc n) s'" using IH(1) by simp
    show "prefix (log s) (log s')" using s1 IH(2) prefix_order.order_trans by blast
    fix argument v assume sync: "sync argument s v" and ext: "prefix (log s') argument"
    have "prefix (log s1) argument" using IH(2) ext by (rule prefix_order.order_trans)
    with s1 sync obtain v1 where "vstep i claim v = (Ok (r, claim1), v1)" "sync argument s1 v1" by blast
    with IH(3) [of argument v1] ext show "\<exists>v'. run_rounds vstep (Suc n) i claim rs v = (Ok res, v') \<and> sync argument s' v'" by auto
  qed
qed

text \<open>The kernel's current coordinate follows the equality point.\<close>

definition tracks_point :: "('k, 'u, 'e) sumcheck_kernel \<Rightarrow> 'e list \<Rightarrow> (nat \<Rightarrow> 'k \<Rightarrow> bool) \<Rightarrow> bool" where
  "tracks_point K taus J \<longleftrightarrow>
     (\<forall>i k. i < length taus \<and> J i k \<longrightarrow> k_current_tau K k = taus ! i \<and>
        (\<forall>claim q k'. k_round_polynomial K i claim k = (Ok q, k') \<longrightarrow> J i k') \<and>
        (\<forall>r k'. k_bind_challenge K i r k = (Ok (), k') \<longrightarrow> J (Suc i) k'))"

locale mirrored_sumcheck = mirrored_channels pch vch plog psync
  for pch :: "('p, 'e::comm_ring_1) proof_channel" and vch :: "('v, 'e) proof_channel" and plog and psync +
  fixes tr :: "('p0, 'v0, 'r0, 's0, 'f, 'e) transcript" and fc :: "('f, 'e) field_codec"
    and scp :: "('c, 'p, 'e) sumcheck_channel" and scv :: "('d, 'v, 'e) sumcheck_channel"
    and log :: "'c \<Rightarrow> u8 list" and sync :: "u8 list \<Rightarrow> 'c \<Rightarrow> 'd \<Rightarrow> bool"
  assumes memory: "memory_suffices tr"
    and log_state: "log c = plog (sc_state scp c)" "sc_state scp (sc_put scp p c) = p"
    and put_state: "sc_put scv (sc_state scv d) d = d"
    and sync_state: "sync a c d \<Longrightarrow> psync a (sc_state scp c) (sc_state scv d)"
    and sync_put: "sync a c d \<Longrightarrow> psync a p v \<Longrightarrow> sync a (sc_put scp p c) (sc_put scv v d)"
    and sync_site: "sync a c d \<Longrightarrow> sc_site scp c = sc_site scv d"
    and challenge_mirror: "mirrors log sync (sc_round_challenge scp ivk i) (sc_round_challenge scv ivk i)"
begin

lemma on_state_mirror:
  assumes "\<And>a c d. sync a c d \<Longrightarrow> mirrors plog psync (f c) (g d)"
    and grows: "\<And>c p x p'. f c p = (Ok x, p') \<Longrightarrow> prefix (plog p) (plog p')"
  shows "mirrors log sync (\<lambda>c. on_state scp (f c) c) (\<lambda>d. on_state scv (g d) d)"
  unfolding mirrors_def
proof (intro allI impI conjI; (elim conjE)?)
  fix c x c' assume "on_state scp (f c) c = (Ok x, c')"
  then obtain p where p: "f c (sc_state scp c) = (Ok x, p)" "c' = sc_put scp p c" by (auto simp: on_state_Ok)
  from grows [OF p(1)] show "prefix (log c) (log c')" by (simp add: log_state p(2))
  fix a d assume sync: "sync a c d" and ext: "prefix (log c') a"
  from ext have "prefix (plog p) a" by (simp add: log_state p(2))
  with assms(1) [OF sync] p(1) sync_state [OF sync] obtain v where "g d (sc_state scv d) = (Ok x, v)" "psync a p v"
    unfolding mirrors_def by blast
  with sync_put [OF sync this(2)] show "\<exists>d'. on_state scv (g d) d = (Ok x, d') \<and> sync a c' d'"
    by (auto simp: on_state_Ok p(2))
qed

lemma absorb_claim_mirror: "mirrors log sync (absorb_claim scp pch fc ivk claim) (absorb_claim scv vch fc ivk claim)"
  unfolding absorb_claim_def
proof (rule on_state_mirror)
  fix a c d assume "sync a c d"
  then show "mirrors plog psync (public_extensions pch fc (sc_site scp c ivk 0 RoleClaim) [claim])
      (public_extensions vch fc (sc_site scv d ivk 0 RoleClaim) [claim])"
    using public_extensions_mirror by (simp add: sync_site)
next
  fix c p x p' assume "public_extensions pch fc (sc_site scp c ivk 0 RoleClaim) [claim] p = (Ok x, p')"
  then show "prefix (plog p) (plog p')" using public_extensions_mirror [of fc _ "[claim]"] unfolding mirrors_def by blast
qed

lemma receive_body_memory:
  "receive_body tr scv vch fc ivk rnd degree d =
     on_state scv (exchange_extension_group vch fc (sc_site scv d ivk (of_nat rnd) RoleRoundBody) (replicate degree 0)) d"
proof -
  have "extension_slots tr vch degree v = (Ok (replicate degree 0), v)" for v
    using memory by (simp add: extension_slots_def guard_def memory_suffices_def)
  then show ?thesis by (simp add: receive_body_def on_state_def Let_def put_state)
qed

lemma body_mirror:
  assumes len: "length coefficients = degree"
  shows "mirrors log sync (exchange_body scp pch fc ivk rnd coefficients) (receive_body tr scv vch fc ivk rnd degree)"
  unfolding exchange_body_def receive_body_memory
proof (rule on_state_mirror)
  have mir: "mirrors plog psync (exchange_extension_group pch fc site coefficients)
      (exchange_extension_group vch fc site (replicate degree 0))" for site
    using len by (intro exchange_extension_group_mirror) simp
  show "mirrors plog psync (exchange_extension_group pch fc (sc_site scp c ivk (of_nat rnd) RoleRoundBody) coefficients)
      (exchange_extension_group vch fc (sc_site scv d ivk (of_nat rnd) RoleRoundBody) (replicate degree 0))"
    if "sync a c d" for a c d using mir that by (simp add: sync_site)
  show "prefix (plog p) (plog p')"
    if "exchange_extension_group pch fc (sc_site scp c ivk (of_nat rnd) RoleRoundBody) coefficients p = (Ok x, p')" for c p x p'
    using mir that unfolding mirrors_def by blast
qed

lemma channel_round_mirror:
  assumes "length coefficients = degree"
  shows "mirrors log sync (channel_round scp pch fc ivk rnd coefficients res)
    (\<lambda>d. st_bind (receive_body tr scv vch fc ivk rnd degree d) (\<lambda>body d.
         st_bind (sc_round_challenge scv ivk (of_nat rnd) d) (\<lambda>challenge d. (Ok (res body challenge), d))))"
  unfolding channel_round_def
  by (intro mirrors_bind body_mirror assms challenge_mirror mirrors_return)

lemma prove_rounds_mirror:
  assumes "run_rounds (prove_round P K scp pch fc ivk degree) n i claim rs s = (Ok res, s')"
  shows "prefix (log (snd s)) (log (snd s')) \<and>
    (\<forall>a d. sync a (snd s) d \<and> prefix (log (snd s')) a \<longrightarrow>
       (\<exists>d'. run_rounds (verify_round P tr scv vch fc ivk degree) n i claim rs d = (Ok res, d') \<and> sync a (snd s') d'))"
proof -
  have "True \<and> prefix (log (snd s)) (log (snd s')) \<and>
      (\<forall>a d. sync a (snd s) d \<and> prefix (log (snd s')) a \<longrightarrow>
         (\<exists>d'. verify_round P tr scv vch fc ivk degree i claim d = (Ok (r, claim'), d') \<and> sync a (snd s') d'))"
    if "prove_round P K scp pch fc ivk degree i claim s = (Ok (r, claim'), s')" for i claim s r claim' s'
  proof -
    from that obtain u where i: "i \<le> u32_max" and
      ch: "channel_round scp pch fc ivk i (resize degree (coeffs_except_linear_term P (poly_compress P u)))
       (\<lambda>body challenge. (challenge, eval_from_hint P (compressed_new P body) claim challenge)) (snd s) = (Ok (r, claim'), snd s')"
      by (rule prove_round_Ok)
    from channel_round_mirror [OF length_resize, unfolded mirrors_def, rule_format, OF ch] i show ?thesis
      by (simp add: verify_round_def)
  qed
  from run_rounds_mirror [where J = "\<lambda>_ _. True" and log = "\<lambda>s. log (snd s)" and sync = "\<lambda>a s. sync a (snd s)"
      and pstep = "prove_round P K scp pch fc ivk degree" and vstep = "verify_round P tr scv vch fc ivk degree" and bound = "i + n", OF this assms]
  show ?thesis by blast
qed

lemma prove_eq_rounds_mirror:
  assumes K: "tracks_point K taus J" and n: "i + n \<le> length taus"
    and run: "run_rounds (prove_eq_round P K scp pch fc ivk degree) n i claim rs s = (Ok res, s')" and J: "J i (fst s)"
  shows "prefix (log (snd s)) (log (snd s')) \<and>
    (\<forall>a d. sync a (snd s) d \<and> prefix (log (snd s')) a \<longrightarrow>
       (\<exists>d'. run_rounds (verify_eq_round P tr scv vch fc ivk degree taus) n i claim rs d = (Ok res, d') \<and> sync a (snd s') d'))"
proof -
  have "J (Suc i) (fst s') \<and> prefix (log (snd s)) (log (snd s')) \<and>
      (\<forall>a d. sync a (snd s) d \<and> prefix (log (snd s')) a \<longrightarrow>
         (\<exists>d'. verify_eq_round P tr scv vch fc ivk degree taus i claim d = (Ok (r, claim'), d') \<and> sync a (snd s') d'))"
    if i: "i < length taus" and J: "J i (fst s)" and step: "prove_eq_round P K scp pch fc ivk degree i claim s = (Ok (r, claim'), s')"
    for i claim s r claim' s'
  proof -
    from step obtain q k1 where q: "k_round_polynomial K i claim (fst s) = (Ok q, k1)" and le: "i \<le> u32_max" and
      ch: "channel_round scp pch fc ivk i (resize degree (into_coefficients P q))
       (\<lambda>body challenge. (challenge, advance_eq_factored_claim P claim (k_current_tau K k1) (omitted_new P body) challenge)) (snd s) =
       (Ok (r, claim'), snd s')" and b: "k_bind_challenge K i r k1 = (Ok (), fst s')"
      by (rule prove_eq_round_Ok)
    from K i J q b have "k_current_tau K k1 = taus ! i" "J (Suc i) (fst s')" unfolding tracks_point_def by blast+
    with channel_round_mirror [OF length_resize, unfolded mirrors_def, rule_format, OF ch] le show ?thesis
      by (simp add: verify_eq_round_def)
  qed
  from run_rounds_mirror [where J = "\<lambda>i s. J i (fst s)" and log = "\<lambda>s. log (snd s)" and sync = "\<lambda>a s. sync a (snd s)"
      and pstep = "prove_eq_round P K scp pch fc ivk degree" and vstep = "verify_eq_round P tr scv vch fc ivk degree taus"
      and bound = "length taus", OF this run J n]
  show ?thesis by blast
qed

end

context mirrored_sumcheck
begin

lemma prove_sumcheck_replay:
  assumes "prove_sumcheck P K scp pch fc shape ivk s = (Ok (rs, out), s')"
  shows "prefix (log (snd s)) (log (snd s')) \<and>
    (\<forall>a d. sync a (snd s) d \<and> prefix (log (snd s')) a \<longrightarrow>
       (\<exists>d'. verify_sumcheck_rounds P tr scv vch fc ivk (k_input_claim K (fst s)) shape d =
          (Ok \<lparr>output_claim = out, result_challenges = rs\<rparr>, d') \<and> sync a (snd s') d'))"
proof -
  let ?claim = "k_input_claim K (fst s)"
  from assms obtain c1 s2 where c1: "absorb_claim scp pch fc ivk ?claim (snd s) = (Ok (), c1)"
    and run: "run_rounds (prove_round P K scp pch fc ivk (shape_degree shape)) (shape_rounds shape) 0 ?claim [] (fst s, c1) = (Ok (rs, out), s2)"
    and s': "snd s' = snd s2"
    by (auto simp: prove_sumcheck_def st_bind_eq_Inr on_channel_Ok on_kernel_Ok Let_def)
  note m1 = absorb_claim_mirror [unfolded mirrors_def, rule_format, OF c1]
  note m2 = prove_rounds_mirror [OF run]
  from m2 have p2: "prefix (log c1) (log (snd s'))" by (simp add: s')
  show ?thesis
  proof (intro conjI allI impI; (elim conjE)?)
    show "prefix (log (snd s)) (log (snd s'))" using m1 p2 prefix_order.order_trans by blast
    fix a d assume sync: "sync a (snd s) d" and ext: "prefix (log (snd s')) a"
    from p2 ext have "prefix (log c1) a" by (rule prefix_order.order_trans)
    with m1 sync obtain d1 where d1: "absorb_claim scv vch fc ivk ?claim d = (Ok (), d1)" "sync a c1 d1" by blast
    with m2 ext s' obtain d2 where "run_rounds (verify_round P tr scv vch fc ivk (shape_degree shape)) (shape_rounds shape) 0 ?claim [] d1 = (Ok (rs, out), d2)"
      "sync a (snd s') d2" by auto
    with d1 show "\<exists>d'. verify_sumcheck_rounds P tr scv vch fc ivk ?claim shape d =
        (Ok \<lparr>output_claim = out, result_challenges = rs\<rparr>, d') \<and> sync a (snd s') d'"
      by (simp add: verify_sumcheck_rounds_def)
  qed
qed

lemma prove_eq_factored_replay:
  assumes K: "tracks_point K taus J"
    and J: "J 0 (fst s)" and taus: "length taus = shape_rounds shape" "taus \<noteq> []"
    and prove: "prove_eq_factored_sumcheck P K scp pch fc shape ivk s = (Ok (rs, out), s')"
  shows "prefix (log (snd s)) (log (snd s')) \<and>
    (\<forall>a d. sync a (snd s) d \<and> prefix (log (snd s')) a \<longrightarrow>
       (\<exists>d'. verify_eq_factored_sumcheck_rounds P tr scv vch fc taus (k_input_claim K (fst s)) shape ivk d =
          (Ok \<lparr>output_claim = out, result_challenges = rs\<rparr>, d') \<and> sync a (snd s') d'))"
proof -
  let ?claim = "k_input_claim K (fst s)"
  from prove obtain c1 s2 where c1: "absorb_claim scp pch fc ivk ?claim (snd s) = (Ok (), c1)"
    and run: "run_rounds (prove_eq_round P K scp pch fc ivk (shape_degree shape)) (shape_rounds shape) 0 ?claim [] (fst s, c1) = (Ok (rs, out), s2)"
    and s': "snd s' = snd s2"
    by (auto simp: prove_eq_factored_sumcheck_def st_bind_eq_Inr on_channel_Ok on_kernel_Ok Let_def)
  have J1: "J 0 (fst (fst s, c1))" using J by simp
  note m1 = absorb_claim_mirror [unfolded mirrors_def, rule_format, OF c1]
  have "0 + shape_rounds shape \<le> length taus" using taus by simp
  note m2 = prove_eq_rounds_mirror [where J = J, OF K this run J1]
  from m2 have p2: "prefix (log c1) (log (snd s'))" by (simp add: s')
  show ?thesis
  proof (intro conjI allI impI; (elim conjE)?)
    show "prefix (log (snd s)) (log (snd s'))" using m1 p2 prefix_order.order_trans by blast
    fix a d assume sync: "sync a (snd s) d" and ext: "prefix (log (snd s')) a"
    from p2 ext have "prefix (log c1) a" by (rule prefix_order.order_trans)
    with m1 sync obtain d1 where d1: "absorb_claim scv vch fc ivk ?claim d = (Ok (), d1)" "sync a c1 d1" by blast
    with m2 ext s' obtain d2 where "run_rounds (verify_eq_round P tr scv vch fc ivk (shape_degree shape) taus) (shape_rounds shape) 0 ?claim [] d1 = (Ok (rs, out), d2)"
      "sync a (snd s') d2" by auto
    with d1 taus show "\<exists>d'. verify_eq_factored_sumcheck_rounds P tr scv vch fc taus ?claim shape ivk d =
        (Ok \<lparr>output_claim = out, result_challenges = rs\<rparr>, d') \<and> sync a (snd s') d'"
      by (simp add: verify_eq_factored_sumcheck_rounds_def validate_instance_def)
  qed
qed

end

section \<open>Honest kernels\<close>

text \<open>
  In the states of \<open>C i\<close>, where \<open>i\<close> rounds are done, every operation of the prover's channel succeeds and
  leaves the channel in such a state, or ends in one of the errors \<open>E\<close>.
\<close>

definition channel_serves ::
  "akita_error set \<Rightarrow> ('c, 'st, 'e) sumcheck_channel \<Rightarrow> ('st, 'e) proof_channel \<Rightarrow> ('f, 'e) field_codec \<Rightarrow> u32 \<Rightarrow> nat \<Rightarrow> nat \<Rightarrow>
   (nat \<Rightarrow> 'c \<Rightarrow> bool) \<Rightarrow> bool" where
  "channel_serves E sc ch fc ivk n degree C \<longleftrightarrow>
     (\<forall>c claim. C 0 c \<longrightarrow> ends_in E (\<lambda>_. C 0) (absorb_claim sc ch fc ivk claim c)) \<and>
     (\<forall>c i xs. i < n \<and> length xs = degree \<and> C i c \<longrightarrow> ends_in E (\<lambda>ys c'. ys = xs \<and> C i c') (exchange_body sc ch fc ivk i xs c)) \<and>
     (\<forall>c i. i < n \<and> C i c \<longrightarrow> ends_in E (\<lambda>_. C (Suc i)) (sc_round_challenge sc ivk (of_nat i) c))"

lemma ends_in_channel: "ends_in E Q (f (snd s)) \<Longrightarrow> ends_in E (\<lambda>v s'. fst s' = fst s \<and> Q v (snd s')) (on_channel f s)"
  by (cases "f (snd s)"; cases "fst (f (snd s))") (auto simp: on_channel_def)

lemma channel_servesD:
  assumes "channel_serves E sc ch fc ivk n degree C"
  shows "C 0 c \<Longrightarrow> ends_in E (\<lambda>_. C 0) (absorb_claim sc ch fc ivk claim c)"
    and "i < n \<Longrightarrow> length xs = degree \<Longrightarrow> C i c \<Longrightarrow> ends_in E (\<lambda>ys c'. ys = xs \<and> C i c') (exchange_body sc ch fc ivk i xs c)"
    and "i < n \<Longrightarrow> C i c \<Longrightarrow> ends_in E (\<lambda>_. C (Suc i)) (sc_round_challenge sc ivk (of_nat i) c)"
  using assms unfolding channel_serves_def by blast+

lemma standard_weights_step:
  assumes "length rs < n"
  shows "cube_sum (standard_weights (n - length rs)) g rs =
    cube_sum (standard_weights (n - Suc (length rs))) g (rs @ [0]) + cube_sum (standard_weights (n - Suc (length rs))) g (rs @ [1])"
proof -
  have "n - length rs = Suc (n - Suc (length rs))" using assms by simp
  then show ?thesis by simp
qed

locale honest_kernel =
  fixes P :: "('u, 'z, 'o, 'e::comm_ring_1) poly_ops" and K :: "('k, 'u, 'e) sumcheck_kernel"
    and degree :: nat and n :: nat and g :: "'e list \<Rightarrow> 'e" and I :: "'e list \<Rightarrow> 'k \<Rightarrow> bool"
    and B :: "'e list \<Rightarrow> 'u \<Rightarrow> 'k \<Rightarrow> bool"
  assumes poly: "poly_laws P"
    and rounds: "n \<le> u32_max"
    and start: "I [] k \<Longrightarrow> k_num_rounds K k = n \<and> k_degree_bound K k = degree \<and> k_input_claim K k = cube_sum (standard_weights n) g []"
    and round_poly: "I rs k \<Longrightarrow> length rs < n \<Longrightarrow>
      \<exists>u k'. k_round_polynomial K (length rs) (cube_sum (standard_weights (n - length rs)) g rs) k = (Ok u, k') \<and> B rs u k' \<and>
        (\<forall>x. poly_evaluate P u x = cube_sum (standard_weights (n - Suc (length rs))) g (rs @ [x])) \<and>
        coeffs_except_linear_term P (poly_compress P u) \<noteq> [] \<and>
        length (coeffs_except_linear_term P (poly_compress P u)) \<le> degree"
    and bind: "B rs u k \<Longrightarrow> length rs < n \<Longrightarrow> \<exists>k'. k_bind_challenge K (length rs) r k = (Ok (), k') \<and> I (rs @ [r]) k'"
    and finish: "I rs k \<Longrightarrow> length rs = n \<Longrightarrow> \<exists>k'. k_finish K k = (Ok (), k')"
begin

lemma body_value:
  assumes ev: "\<And>x. poly_evaluate P u x = cube_sum (standard_weights (n - Suc (length rs))) g (rs @ [x])"
    and ne: "coeffs_except_linear_term P (poly_compress P u) \<noteq> []" "length (coeffs_except_linear_term P (poly_compress P u)) \<le> degree"
    and rs: "length rs < n"
  shows "eval_from_hint P (compressed_new P (resize degree (coeffs_except_linear_term P (poly_compress P u))))
      (cube_sum (standard_weights (n - length rs)) g rs) r = cube_sum (standard_weights (n - Suc (length rs))) g (rs @ [r])"
proof -
  let ?cs = "coeffs_except_linear_term P (poly_compress P u)" and ?h = "cube_sum (standard_weights (n - length rs)) g rs"
  have h: "?h = poly_evaluate P u 0 + poly_evaluate P u 1" using standard_weights_step [OF rs] by (simp add: ev)
  have "resize degree ?cs \<noteq> []" using ne by (simp add: resize_padded)
  then have "eval_from_hint P (compressed_new P (resize degree ?cs)) ?h r = poly_value (hint_coeffs (resize degree ?cs) ?h) r"
    using poly unfolding poly_laws_def by blast
  also have "\<dots> = poly_value (hint_coeffs ?cs ?h) r" using ne by (simp add: resize_padded hint_coeffs_padded)
  also have "\<dots> = poly_evaluate P u r"
  proof -
    from poly ne(1) have "poly_evaluate P u r = poly_value (hint_coeffs ?cs (poly_evaluate P u 0 + poly_evaluate P u 1)) r"
      unfolding poly_laws_def by blast
    then show ?thesis unfolding h by (rule sym)
  qed
  finally show ?thesis by (simp add: ev)
qed

lemma honest_round:
  assumes total: "channel_serves E sc ch fc ivk n degree C" and C: "C (length rs) (snd s)" and I: "I rs (fst s)" and rs: "length rs < n"
  shows "ends_in E (\<lambda>(r, claim) s'. claim = cube_sum (standard_weights (n - Suc (length rs))) g (rs @ [r]) \<and>
      I (rs @ [r]) (fst s') \<and> C (Suc (length rs)) (snd s'))
    (prove_round P K sc ch fc ivk degree (length rs) (cube_sum (standard_weights (n - length rs)) g rs) s)"
proof -
  let ?i = "length rs" and ?h = "cube_sum (standard_weights (n - length rs)) g rs"
  from round_poly [OF I rs] obtain u k1 where u: "k_round_polynomial K ?i ?h (fst s) = (Ok u, k1)" "B rs u k1"
    "\<And>x. poly_evaluate P u x = cube_sum (standard_weights (n - Suc ?i)) g (rs @ [x])"
    "coeffs_except_linear_term P (poly_compress P u) \<noteq> []" "length (coeffs_except_linear_term P (poly_compress P u)) \<le> degree"
    by blast
  let ?body = "resize degree (coeffs_except_linear_term P (poly_compress P u))"
  have "ends_in E (\<lambda>ys c'. ys = ?body \<and> C ?i c') (exchange_body sc ch fc ivk ?i ?body (snd s))"
    using channel_servesD(2) [where xs = ?body, OF total rs _ C] by simp
  from ends_in_channel [where s = "(k1, snd s)" and f = "exchange_body sc ch fc ivk ?i ?body", unfolded fst_conv snd_conv, OF this]
  have ex: "ends_in E (\<lambda>ys s'. ys = ?body \<and> fst s' = k1 \<and> C ?i (snd s')) (on_channel (exchange_body sc ch fc ivk ?i ?body) (k1, snd s))"
    by (rule ends_in_mono) simp
  have tail: "ends_in E (\<lambda>(r, claim) s'. claim = cube_sum (standard_weights (n - Suc ?i)) g (rs @ [r]) \<and> I (rs @ [r]) (fst s') \<and> C (Suc ?i) (snd s'))
      (st_bind (on_channel (sc_round_challenge sc ivk (of_nat ?i)) s1) (\<lambda>challenge s.
        st_bind (on_kernel (k_bind_challenge K ?i challenge) s)
          (\<lambda>_ s. (Ok (challenge, eval_from_hint P (compressed_new P ?body) ?h challenge), s))))"
    if s1: "fst s1 = k1" "C ?i (snd s1)" for s1
  proof (rule ends_in_bind [OF ends_in_channel [where f = "sc_round_challenge sc ivk (of_nat ?i)", OF channel_servesD(3) [OF total rs s1(2)]]])
    fix r s2 assume s2: "fst s2 = fst s1 \<and> C (Suc ?i) (snd s2)"
    from bind [OF u(2) rs] obtain k2 where "k_bind_challenge K ?i r k1 = (Ok (), k2)" "I (rs @ [r]) k2" by blast
    with s1 s2 show "ends_in E (\<lambda>(r, claim) s'. claim = cube_sum (standard_weights (n - Suc ?i)) g (rs @ [r]) \<and> I (rs @ [r]) (fst s') \<and> C (Suc ?i) (snd s'))
        (st_bind (on_kernel (k_bind_challenge K ?i r) s2) (\<lambda>_ s. (Ok (r, eval_from_hint P (compressed_new P ?body) ?h r), s)))"
      using body_value [OF u(3-5) rs, of r] by (simp add: on_kernel_def)
  qed
  have "\<not> u32_max < ?i" using rs rounds by simp
  moreover have "poly_evaluate P u 0 + poly_evaluate P u 1 = ?h" using standard_weights_step [OF rs] by (simp add: u(3))
  ultimately have eq: "prove_round P K sc ch fc ivk degree ?i ?h s =
      st_bind (on_channel (exchange_body sc ch fc ivk ?i ?body) (k1, snd s)) (\<lambda>body s.
        st_bind (on_channel (sc_round_challenge sc ivk (of_nat ?i)) s) (\<lambda>challenge s.
        st_bind (on_kernel (k_bind_challenge K ?i challenge) s)
          (\<lambda>_ s. (Ok (challenge, eval_from_hint P (compressed_new P body) ?h challenge), s))))"
    using u by (simp add: prove_round_def on_kernel_def Let_def not_less)
  show ?thesis unfolding eq by (rule ends_in_bind [OF ex], elim conjE, hypsubst) (rule tail; simp)
qed

lemma honest_run:
  assumes total: "channel_serves E sc ch fc ivk n degree C" and C: "C (length rs) (snd s)" and I: "I rs (fst s)" and m: "m + length rs = n"
  shows "ends_in E (\<lambda>(cs, claim) s'. claim = g cs \<and> length cs = n \<and> I cs (fst s') \<and> C n (snd s'))
    (run_rounds (prove_round P K sc ch fc ivk degree) m (length rs) (cube_sum (standard_weights (n - length rs)) g rs) rs s)"
  using I C m
proof (induction m arbitrary: rs s)
  case 0
  then show ?case by auto
next
  case (Suc m)
  then have rs: "length rs < n" by simp
  show ?case unfolding run_rounds.simps
  proof (rule ends_in_bind [OF honest_round [OF total Suc.prems(2,1) rs]])
    fix v s1 assume "(\<lambda>(r, claim) s'. claim = cube_sum (standard_weights (n - Suc (length rs))) g (rs @ [r]) \<and>
      I (rs @ [r]) (fst s') \<and> C (Suc (length rs)) (snd s')) v s1"
    then obtain r where v: "v = (r, cube_sum (standard_weights (n - Suc (length rs))) g (rs @ [r]))" "I (rs @ [r]) (fst s1)" "C (Suc (length rs)) (snd s1)"
      by (cases v) auto
    with Suc.IH [OF v(2)] Suc.prems(3)
    show "ends_in E (\<lambda>(cs, claim) s'. claim = g cs \<and> length cs = n \<and> I cs (fst s') \<and> C n (snd s'))
      ((\<lambda>(challenge, claim') s'. run_rounds (prove_round P K sc ch fc ivk degree) m (Suc (length rs)) claim' (rs @ [challenge]) s') v s1)" by simp
  qed
qed

lemma prove_sumcheck_ends:
  assumes total: "channel_serves E sc ch fc ivk n degree C" and C: "C 0 (snd s)" and I: "I [] (fst s)"
  shows "ends_in E (\<lambda>(cs, claim) s'. claim = g cs \<and> length cs = n \<and> (\<exists>k. I cs k \<and> k_finish K k = (Ok (), fst s')) \<and> C n (snd s'))
    (prove_sumcheck P K sc ch fc \<lparr>shape_rounds = n, shape_degree = degree\<rparr> ivk s)"
proof -
  note st = start [OF I]
  let ?Q = "\<lambda>(cs, claim) s'. claim = g cs \<and> length cs = n \<and> (\<exists>k. I cs k \<and> k_finish K k = (Ok (), fst s')) \<and> C n (snd s')"
  have run: "ends_in E ?Q (st_bind (run_rounds (prove_round P K sc ch fc ivk degree) n 0 (k_input_claim K (fst s)) [] s1)
      (\<lambda>res s. st_bind (on_kernel (k_finish K) s) (\<lambda>_ s. (Ok res, s))))" if s1: "fst s1 = fst s" "C 0 (snd s1)" for s1
  proof (rule ends_in_bind)
    show "ends_in E (\<lambda>(cs, claim) s'. claim = g cs \<and> length cs = n \<and> I cs (fst s') \<and> C n (snd s'))
        (run_rounds (prove_round P K sc ch fc ivk degree) n 0 (k_input_claim K (fst s)) [] s1)"
      using honest_run [OF total, of "[]" s1 n] s1 I st by simp
    fix v s2 assume "(\<lambda>(cs, claim) s'. claim = g cs \<and> length cs = n \<and> I cs (fst s') \<and> C n (snd s')) v s2"
    then obtain cs where v: "v = (cs, g cs)" "length cs = n" "I cs (fst s2)" "C n (snd s2)" by (cases v) auto
    from finish [OF v(3,2)] obtain k3 where "k_finish K (fst s2) = (Ok (), k3)" by blast
    with v show "ends_in E ?Q (st_bind (on_kernel (k_finish K) s2) (\<lambda>_ s. (Ok v, s)))" by (auto simp: on_kernel_def)
  qed
  have "ends_in E ?Q (st_bind (on_channel (absorb_claim sc ch fc ivk (k_input_claim K (fst s))) s)
      (\<lambda>_ s1. st_bind (run_rounds (prove_round P K sc ch fc ivk degree) n 0 (k_input_claim K (fst s)) [] s1)
         (\<lambda>res s. st_bind (on_kernel (k_finish K) s) (\<lambda>_ s. (Ok res, s)))))"
    by (rule ends_in_bind [OF ends_in_channel [where f = "absorb_claim sc ch fc ivk (k_input_claim K (fst s))", OF channel_servesD(1) [OF total C]]]) (rule run; simp)
  then show ?thesis using st by (simp add: prove_sumcheck_def validate_instance_def Let_def)
qed

end

section \<open>Honest equality-factored kernels\<close>

lemma eq_weights_step:
  assumes "length rs < length taus"
  shows "cube_sum (eq_weights (drop (length rs) taus)) g rs =
    (1 - taus ! length rs) * cube_sum (eq_weights (drop (Suc (length rs)) taus)) g (rs @ [0]) +
    taus ! length rs * cube_sum (eq_weights (drop (Suc (length rs)) taus)) g (rs @ [1])"
proof -
  have "drop (length rs) taus = taus ! length rs # drop (Suc (length rs)) taus" using assms by (simp add: Cons_nth_drop_Suc)
  then show ?thesis by (simp add: eq_weights_def)
qed

text \<open>
  The kernel sends the nonconstant coefficients of the inner polynomial, whose values are the
  partial sums of \<open>g\<close> weighted by the equality polynomial of the remaining coordinates.
\<close>

locale honest_eq_kernel =
  fixes P :: "('u, 'z, 'o, 'e::comm_ring_1) poly_ops" and K :: "('k, 'o, 'e) sumcheck_kernel"
    and degree :: nat and taus :: "'e list" and g :: "'e list \<Rightarrow> 'e" and I :: "'e list \<Rightarrow> 'k \<Rightarrow> bool"
    and B :: "'e list \<Rightarrow> 'o \<Rightarrow> 'k \<Rightarrow> bool"
  assumes poly: "poly_laws P"
    and rounds: "length taus \<le> u32_max"
    and start: "I [] k \<Longrightarrow> k_num_rounds K k = length taus \<and> k_degree_bound K k = degree \<and> k_input_claim K k = cube_sum (eq_weights taus) g []"
    and round_poly: "I rs k \<Longrightarrow> length rs < length taus \<Longrightarrow>
      \<exists>q k'. k_round_polynomial K (length rs) (cube_sum (eq_weights (drop (length rs) taus)) g rs) k = (Ok q, k') \<and> B rs q k' \<and>
        k_current_tau K k' = taus ! length rs \<and> length (into_coefficients P q) \<le> degree \<and>
        (\<forall>x. cube_sum (eq_weights (drop (Suc (length rs)) taus)) g (rs @ [x]) =
          cube_sum (eq_weights (drop (Suc (length rs)) taus)) g (rs @ [0]) + x * poly_value (into_coefficients P q) x)"
    and bind: "B rs q k \<Longrightarrow> length rs < length taus \<Longrightarrow> \<exists>k'. k_bind_challenge K (length rs) r k = (Ok (), k') \<and> I (rs @ [r]) k'"
    and finish: "I rs k \<Longrightarrow> length rs = length taus \<Longrightarrow> \<exists>k'. k_finish K k = (Ok (), k')"
begin

lemma eq_body_value:
  assumes ev: "\<And>x. cube_sum (eq_weights (drop (Suc (length rs)) taus)) g (rs @ [x]) =
      cube_sum (eq_weights (drop (Suc (length rs)) taus)) g (rs @ [0]) + x * poly_value cs x"
    and cs: "length cs \<le> degree" and rs: "length rs < length taus"
  shows "advance_eq_factored_claim P (cube_sum (eq_weights (drop (length rs) taus)) g rs) (taus ! length rs)
      (omitted_new P (resize degree cs)) r = cube_sum (eq_weights (drop (Suc (length rs)) taus)) g (rs @ [r])"
proof -
  let ?q = "\<lambda>x. cube_sum (eq_weights (drop (Suc (length rs)) taus)) g (rs @ [x])" and ?t = "taus ! length rs"
  have sum: "sum_list (resize degree cs) = sum_list cs" using cs by (simp add: resize_padded sum_list_replicate)
  have "?q 1 = ?q 0 + sum_list cs" using ev [of 1] by (simp add: poly_value_at_one)
  then have claim: "cube_sum (eq_weights (drop (length rs) taus)) g rs = ?q 0 + ?t * sum_list cs"
    using eq_weights_step [OF rs, of g] by (simp add: algebra_simps)
  have "advance_eq_factored_claim P (cube_sum (eq_weights (drop (length rs) taus)) g rs) ?t (omitted_new P (resize degree cs)) r =
      ?q 0 + r * poly_value (resize degree cs) r"
    by (simp add: advance_eq_factored_value [OF poly] omitted_coeffs_def sum claim)
  also have "\<dots> = ?q r" using cs ev [of r] by (simp add: resize_padded)
  finally show ?thesis .
qed

lemma honest_eq_round:
  assumes total: "channel_serves E sc ch fc ivk (length taus) degree C" and C: "C (length rs) (snd s)" and I: "I rs (fst s)" and rs: "length rs < length taus"
  shows "ends_in E (\<lambda>(r, claim) s'. claim = cube_sum (eq_weights (drop (Suc (length rs)) taus)) g (rs @ [r]) \<and>
      I (rs @ [r]) (fst s') \<and> C (Suc (length rs)) (snd s'))
    (prove_eq_round P K sc ch fc ivk degree (length rs) (cube_sum (eq_weights (drop (length rs) taus)) g rs) s)"
proof -
  let ?i = "length rs" and ?h = "cube_sum (eq_weights (drop (length rs) taus)) g rs"
  from round_poly [OF I rs] obtain q k1 where q: "k_round_polynomial K ?i ?h (fst s) = (Ok q, k1)" "B rs q k1"
    "k_current_tau K k1 = taus ! ?i" "length (into_coefficients P q) \<le> degree"
    "\<And>x. cube_sum (eq_weights (drop (Suc ?i) taus)) g (rs @ [x]) =
       cube_sum (eq_weights (drop (Suc ?i) taus)) g (rs @ [0]) + x * poly_value (into_coefficients P q) x"
    by blast
  let ?body = "resize degree (into_coefficients P q)"
  let ?Q = "\<lambda>(r, claim) s'. claim = cube_sum (eq_weights (drop (Suc ?i) taus)) g (rs @ [r]) \<and> I (rs @ [r]) (fst s') \<and> C (Suc ?i) (snd s')"
  have "ends_in E (\<lambda>ys c'. ys = ?body \<and> C ?i c') (exchange_body sc ch fc ivk ?i ?body (snd s))"
    using channel_servesD(2) [where xs = ?body, OF total rs _ C] by simp
  from ends_in_channel [where s = "(k1, snd s)" and f = "exchange_body sc ch fc ivk ?i ?body", unfolded fst_conv snd_conv, OF this]
  have ex: "ends_in E (\<lambda>ys s'. ys = ?body \<and> fst s' = k1 \<and> C ?i (snd s')) (on_channel (exchange_body sc ch fc ivk ?i ?body) (k1, snd s))"
    by (rule ends_in_mono) simp
  have tail: "ends_in E ?Q (st_bind (on_channel (sc_round_challenge sc ivk (of_nat ?i)) s1) (\<lambda>challenge s.
        st_bind (on_kernel (k_bind_challenge K ?i challenge) s)
          (\<lambda>_ s'. (Ok (challenge, advance_eq_factored_claim P ?h (k_current_tau K (fst s)) (omitted_new P ?body) challenge), s'))))"
    if s1: "fst s1 = k1" "C ?i (snd s1)" for s1
  proof (rule ends_in_bind [OF ends_in_channel [where f = "sc_round_challenge sc ivk (of_nat ?i)", OF channel_servesD(3) [OF total rs s1(2)]]])
    fix r s2 assume s2: "fst s2 = fst s1 \<and> C (Suc ?i) (snd s2)"
    from bind [OF q(2) rs] obtain k2 where "k_bind_challenge K ?i r k1 = (Ok (), k2)" "I (rs @ [r]) k2" by blast
    with s1 s2 q(3) show "ends_in E ?Q (st_bind (on_kernel (k_bind_challenge K ?i r) s2)
          (\<lambda>_ s'. (Ok (r, advance_eq_factored_claim P ?h (k_current_tau K (fst s2)) (omitted_new P ?body) r), s')))"
      using eq_body_value [OF q(5,4) rs, of r] by (simp add: on_kernel_def)
  qed
  have "\<not> u32_max < ?i" using rs rounds by simp
  then have eq: "prove_eq_round P K sc ch fc ivk degree ?i ?h s =
      st_bind (on_channel (exchange_body sc ch fc ivk ?i ?body) (k1, snd s)) (\<lambda>body s.
        st_bind (on_channel (sc_round_challenge sc ivk (of_nat ?i)) s) (\<lambda>challenge s.
        st_bind (on_kernel (k_bind_challenge K ?i challenge) s)
          (\<lambda>_ s'. (Ok (challenge, advance_eq_factored_claim P ?h (k_current_tau K (fst s)) (omitted_new P body) challenge), s'))))"
    using q(1,4) by (simp add: prove_eq_round_def on_kernel_def Let_def not_less)
  show ?thesis unfolding eq by (rule ends_in_bind [OF ex], elim conjE, hypsubst) (rule tail; simp)
qed

lemma honest_eq_run:
  assumes total: "channel_serves E sc ch fc ivk (length taus) degree C" and C: "C (length rs) (snd s)" and I: "I rs (fst s)" and m: "m + length rs = length taus"
  shows "ends_in E (\<lambda>(cs, claim) s'. claim = g cs \<and> length cs = length taus \<and> I cs (fst s') \<and> C (length taus) (snd s'))
    (run_rounds (prove_eq_round P K sc ch fc ivk degree) m (length rs) (cube_sum (eq_weights (drop (length rs) taus)) g rs) rs s)"
  using I C m
proof (induction m arbitrary: rs s)
  case 0
  then show ?case by (auto simp: eq_weights_def)
next
  case (Suc m)
  then have rs: "length rs < length taus" by simp
  show ?case unfolding run_rounds.simps
  proof (rule ends_in_bind [OF honest_eq_round [OF total Suc.prems(2,1) rs]])
    fix v s1 assume "(\<lambda>(r, claim) s'. claim = cube_sum (eq_weights (drop (Suc (length rs)) taus)) g (rs @ [r]) \<and>
      I (rs @ [r]) (fst s') \<and> C (Suc (length rs)) (snd s')) v s1"
    then obtain r where v: "v = (r, cube_sum (eq_weights (drop (Suc (length rs)) taus)) g (rs @ [r]))" "I (rs @ [r]) (fst s1)" "C (Suc (length rs)) (snd s1)"
      by (cases v) auto
    with Suc.IH [OF v(2)] Suc.prems(3)
    show "ends_in E (\<lambda>(cs, claim) s'. claim = g cs \<and> length cs = length taus \<and> I cs (fst s') \<and> C (length taus) (snd s'))
      ((\<lambda>(challenge, claim') s'. run_rounds (prove_eq_round P K sc ch fc ivk degree) m (Suc (length rs)) claim' (rs @ [challenge]) s') v s1)" by simp
  qed
qed

lemma prove_eq_factored_ends:
  assumes total: "channel_serves E sc ch fc ivk (length taus) degree C" and C: "C 0 (snd s)" and I: "I [] (fst s)"
  shows "ends_in E (\<lambda>(cs, claim) s'. claim = g cs \<and> length cs = length taus \<and> C (length taus) (snd s'))
    (prove_eq_factored_sumcheck P K sc ch fc \<lparr>shape_rounds = length taus, shape_degree = degree\<rparr> ivk s)"
proof -
  note st = start [OF I]
  let ?Q = "\<lambda>(cs, claim) s'. claim = g cs \<and> length cs = length taus \<and> C (length taus) (snd s')"
  have run: "ends_in E ?Q (st_bind (run_rounds (prove_eq_round P K sc ch fc ivk degree) (length taus) 0 (k_input_claim K (fst s)) [] s1)
      (\<lambda>res s. st_bind (on_kernel (k_finish K) s) (\<lambda>_ s. (Ok res, s))))" if s1: "fst s1 = fst s" "C 0 (snd s1)" for s1
  proof (rule ends_in_bind)
    show "ends_in E (\<lambda>(cs, claim) s'. claim = g cs \<and> length cs = length taus \<and> I cs (fst s') \<and> C (length taus) (snd s'))
        (run_rounds (prove_eq_round P K sc ch fc ivk degree) (length taus) 0 (k_input_claim K (fst s)) [] s1)"
      using honest_eq_run [OF total, of "[]" s1 "length taus"] s1 I st by simp
    fix v s2 assume "(\<lambda>(cs, claim) s'. claim = g cs \<and> length cs = length taus \<and> I cs (fst s') \<and> C (length taus) (snd s')) v s2"
    then obtain cs where v: "v = (cs, g cs)" "length cs = length taus" "I cs (fst s2)" "C (length taus) (snd s2)" by (cases v) auto
    from finish [OF v(3,2)] obtain k3 where "k_finish K (fst s2) = (Ok (), k3)" by blast
    with v show "ends_in E ?Q (st_bind (on_kernel (k_finish K) s2) (\<lambda>_ s. (Ok v, s)))" by (auto simp: on_kernel_def)
  qed
  have "ends_in E ?Q (st_bind (on_channel (absorb_claim sc ch fc ivk (k_input_claim K (fst s))) s)
      (\<lambda>_ s1. st_bind (run_rounds (prove_eq_round P K sc ch fc ivk degree) (length taus) 0 (k_input_claim K (fst s)) [] s1)
         (\<lambda>res s. st_bind (on_kernel (k_finish K) s) (\<lambda>_ s. (Ok res, s)))))"
    by (rule ends_in_bind [OF ends_in_channel [where f = "absorb_claim sc ch fc ivk (k_input_claim K (fst s))", OF channel_servesD(1) [OF total C]]]) (rule run; simp)
  then show ?thesis using st by (simp add: prove_eq_factored_sumcheck_def validate_instance_def Let_def)
qed

end

section \<open>The dense multilinear instance\<close>

record 'e dense_instance =
  evaluations :: "'e list"
  dense_rounds :: nat
  dense_claim :: 'e

definition dense_round_sums :: "'e::comm_ring_1 list \<Rightarrow> 'e \<times> 'e" where
  "dense_round_sums evs = fold (\<lambda>index (zero, one). (zero + evs ! (2 * index), one + evs ! (2 * index + 1))) [0..<length evs div 2] (0, 0)"

definition dense_fold :: "'e::comm_ring_1 \<Rightarrow> nat \<Rightarrow> 'e list \<Rightarrow> 'e list" where
  "dense_fold challenge index evs =
     (let zero = evs ! (2 * index) in evs[index := zero + challenge * (evs ! (2 * index + 1) - zero)])"

definition dense_ingest :: "'e::comm_ring_1 \<Rightarrow> 'e list \<Rightarrow> 'e list" where
  "dense_ingest challenge evs = take (length evs div 2) (fold (dense_fold challenge) [0..<length evs div 2] evs)"

definition dense_prover :: "('e::comm_ring_1 dense_instance, 'e list, 'e) instance_prover" where
  "dense_prover =
     \<lparr>i_num_rounds = dense_rounds, i_degree_bound = (\<lambda>_. 1), i_input_claim = dense_claim, i_current_tau = (\<lambda>_. 0),
      i_compute_round = (\<lambda>_ _ k. case dense_round_sums (evaluations k) of (zero, one) \<Rightarrow> ([zero, one - zero], k)),
      i_ingest_challenge = (\<lambda>_ r k. k\<lparr>evaluations := dense_ingest r (evaluations k)\<rparr>),
      i_finalize = (\<lambda>k. k)\<rparr>"

lemma dense_round_sums_eq:
  "dense_round_sums evs = (\<Sum>i < length evs div 2. evs ! (2 * i), \<Sum>i < length evs div 2. evs ! (2 * i + 1))"
proof -
  have "fold (\<lambda>index (zero, one). (zero + evs ! (2 * index), one + evs ! (2 * index + 1))) [0..<m] (0, 0) =
      (\<Sum>i < m. evs ! (2 * i), \<Sum>i < m. evs ! (2 * i + 1))" for m
    by (induction m) simp_all
  then show ?thesis by (simp add: dense_round_sums_def)
qed

lemma dense_ingest_eq:
  assumes "even (length evs)"
  shows "dense_ingest r evs = map (\<lambda>i. evs ! (2 * i) + r * (evs ! (2 * i + 1) - evs ! (2 * i))) [0..<length evs div 2]"
proof (cases "evs = []")
  case True
  then show ?thesis by (simp add: dense_ingest_def)
next
  case False
  let ?f = "\<lambda>r a b. a + r * (b - a)"
  have len: "length (fold (fold_target ?f r) [0..<m] evs) = length evs" for m
    by (induction m) (simp_all add: fold_target_def Let_def)
  have eq: "2 * m \<le> length evs \<Longrightarrow> fold (dense_fold r) [0..<m] evs = fold (fold_target ?f r) [0..<m] evs" for m
    using len by (induction m) (simp_all add: fold_target_def dense_fold_def get_or_zero_def Let_def)
  have half: "ceil_div (length evs) 2 = length evs div 2" "2 * (length evs div 2) = length evs" using assms by (auto simp: ceil_div_def)
  have "Some (dense_ingest r evs) = fold_evals_in_place False ?f evs r"
    using eq [of "length evs div 2"] half False by (simp add: dense_ingest_def fold_evals_in_place_def Let_def)
  also have "\<dots> = Some (map (\<lambda>i. ?f r (evs ! (2 * i)) (get_or_zero evs (2 * i + 1))) [0..<length evs div 2])"
    using fold_evals_eq [OF False, of False ?f r] half by simp
  finally show ?thesis using half by (auto simp: get_or_zero_def)
qed

lemma mle_sum_fold:
  assumes "length evs = 2 ^ Suc m"
  shows "mle_sum evs (x # us) = mle_sum (map (\<lambda>i. evs ! (2 * i) + x * (evs ! (2 * i + 1) - evs ! (2 * i))) [0..<2 ^ m]) us"
proof -
  have half: "ceil_div (length evs) 2 = 2 ^ m" using assms by (simp add: ceil_div_def)
  have "mle_sum evs (x # us) = (\<Sum>i < 2 ^ m. (evs ! (2 * i) + x * (get_or_zero evs (2 * i + 1) - evs ! (2 * i))) * eq_at us i)"
    unfolding mle_sum_def sum_pairs half ..
  also have "\<dots> = (\<Sum>i < 2 ^ m. (evs ! (2 * i) + x * (evs ! (2 * i + 1) - evs ! (2 * i))) * eq_at us i)"
    using assms by (intro sum.cong) (auto simp: get_or_zero_def)
  finally show ?thesis by (simp add: mle_sum_def)
qed

text \<open>Summing the multilinear extension over the cube sums the table.\<close>

lemma cube_sum_mle:
  "length evs = 2 ^ m \<Longrightarrow> (\<And>us. length us = m \<Longrightarrow> g (rs @ us) = mle_sum evs us) \<Longrightarrow>
   cube_sum (standard_weights m) g rs = (\<Sum>i < 2 ^ m. evs ! i)"
proof (induction m arbitrary: evs rs)
  case 0
  then show ?case using 0(2) [of "[]"] by (simp add: mle_sum_def)
next
  case (Suc m)
  have IH: "cube_sum (standard_weights m) g (rs @ [x]) = (\<Sum>i < 2 ^ m. evs ! (2 * i) + x * (evs ! (2 * i + 1) - evs ! (2 * i)))" for x
    using Suc.IH [of "map (\<lambda>i. evs ! (2 * i) + x * (evs ! (2 * i + 1) - evs ! (2 * i))) [0..<2 ^ m]" "rs @ [x]"]
      Suc.prems(2) [of "x # _"] mle_sum_fold [OF Suc.prems(1), of x] by simp
  have "(\<Sum>i < 2 * 2 ^ m. evs ! i) = (\<Sum>i < 2 ^ m. evs ! (2 * i) + evs ! (2 * i + 1))" by (rule sum_even)
  then show ?case using IH [of 0] IH [of 1] by (simp add: sum.distrib)
qed

definition dense_invariant :: "'e::comm_ring_1 list \<Rightarrow> nat \<Rightarrow> 'e list \<Rightarrow> 'e dense_instance \<Rightarrow> bool" where
  "dense_invariant evs n rs k \<longleftrightarrow> length rs \<le> n \<and> dense_rounds k = n \<and> dense_claim k = (\<Sum>i < 2 ^ n. evs ! i) \<and>
     length (evaluations k) = 2 ^ (n - length rs) \<and>
     (\<forall>us. length us = n - length rs \<longrightarrow> mle_sum evs (rs @ us) = mle_sum (evaluations k) us)"

lemma dense_honest:
  fixes evs :: "'e::comm_ring_1 list"
  assumes n: "n \<le> u32_max" and len: "length evs = 2 ^ n"
  shows "honest_kernel list_poly_ops (infallible_sumcheck dense_prover) 1 n (mle_sum evs) (dense_invariant evs n) (\<lambda>rs u. dense_invariant evs n rs)"
proof
  show "poly_laws (list_poly_ops :: ('e list, 'e list, 'e list, 'e) poly_ops)" by (rule list_poly_laws)
  show "n \<le> u32_max" by (rule n)
next
  fix k :: "'e dense_instance" assume "dense_invariant evs n [] k"
  then show "k_num_rounds (infallible_sumcheck dense_prover) k = n \<and> k_degree_bound (infallible_sumcheck dense_prover) k = 1 \<and>
      k_input_claim (infallible_sumcheck dense_prover) k = cube_sum (standard_weights n) (mle_sum evs) []"
    using cube_sum_mle [OF len, of "mle_sum evs" "[]"] by (simp add: dense_invariant_def infallible_sumcheck_def dense_prover_def)
next
  fix rs and k :: "'e dense_instance" assume I: "dense_invariant evs n rs k" and rs: "length rs < n"
  let ?e = "evaluations k" and ?m = "n - Suc (length rs)"
  have m: "n - length rs = Suc ?m" using rs by simp
  from I m have e: "length ?e = 2 ^ Suc ?m" "\<And>us. length us = Suc ?m \<Longrightarrow> mle_sum evs (rs @ us) = mle_sum ?e us"
    by (auto simp: dense_invariant_def)
  have half: "length ?e div 2 = 2 ^ ?m" using e(1) by simp
  let ?z = "\<Sum>i < 2 ^ ?m. ?e ! (2 * i)" and ?o = "\<Sum>i < 2 ^ ?m. ?e ! (2 * i + 1)"
  have "cube_sum (standard_weights ?m) (mle_sum evs) (rs @ [x]) = ?z + x * (?o - ?z)" for x
  proof -
    have "cube_sum (standard_weights ?m) (mle_sum evs) (rs @ [x]) =
        (\<Sum>i < 2 ^ ?m. map (\<lambda>i. ?e ! (2 * i) + x * (?e ! (2 * i + 1) - ?e ! (2 * i))) [0..<2 ^ ?m] ! i)"
      using mle_sum_fold [OF e(1), of x] e(2) [of "x # _"] by (intro cube_sum_mle) simp_all
    then show ?thesis by (simp add: sum.distrib sum_distrib_left [symmetric] sum_subtractf)
  qed
  then show "\<exists>u k'. k_round_polynomial (infallible_sumcheck dense_prover) (length rs)
        (cube_sum (standard_weights (n - length rs)) (mle_sum evs) rs) k = (Ok u, k') \<and> dense_invariant evs n rs k' \<and>
      (\<forall>x. poly_evaluate list_poly_ops u x = cube_sum (standard_weights ?m) (mle_sum evs) (rs @ [x])) \<and>
      coeffs_except_linear_term list_poly_ops (poly_compress list_poly_ops u) \<noteq> [] \<and>
      length (coeffs_except_linear_term list_poly_ops (poly_compress list_poly_ops u)) \<le> 1"
    using I half by (simp add: infallible_sumcheck_def dense_prover_def dense_round_sums_eq list_poly_ops_def)
next
  fix rs r and k :: "'e dense_instance" assume I: "dense_invariant evs n rs k" and rs: "length rs < n"
  let ?e = "evaluations k" and ?m = "n - Suc (length rs)"
  have m: "n - length rs = Suc ?m" using rs by simp
  from I m have e: "length ?e = 2 ^ Suc ?m" "\<And>us. length us = Suc ?m \<Longrightarrow> mle_sum evs (rs @ us) = mle_sum ?e us"
    by (auto simp: dense_invariant_def)
  have ing: "dense_ingest r ?e = map (\<lambda>i. ?e ! (2 * i) + r * (?e ! (2 * i + 1) - ?e ! (2 * i))) [0..<2 ^ ?m]"
    using dense_ingest_eq [of ?e r] e(1) by simp
  have "dense_invariant evs n (rs @ [r]) (k\<lparr>evaluations := dense_ingest r ?e\<rparr>)"
    using I rs mle_sum_fold [OF e(1), of r] e(2) [of "r # _"] by (simp add: dense_invariant_def ing)
  then show "\<exists>k'. k_bind_challenge (infallible_sumcheck dense_prover) (length rs) r k = (Ok (), k') \<and> dense_invariant evs n (rs @ [r]) k'"
    by (simp add: infallible_sumcheck_def dense_prover_def)
next
  fix rs and k :: "'e dense_instance"
  show "\<exists>k'. k_finish (infallible_sumcheck dense_prover) k = (Ok (), k')" by (simp add: infallible_sumcheck_def)
qed

interpretation dense_sample: honest_kernel list_poly_ops "infallible_sumcheck dense_prover" 1 2 "mle_sum [3, 1, 4, 1 :: int]"
  "dense_invariant [3, 1, 4, 1 :: int] 2" "\<lambda>rs u. dense_invariant [3, 1, 4, 1 :: int] 2 rs"
  by (rule dense_honest) (simp_all add: u32_max_def)

end
