(* ===== verification/Split_Eq.thy ===== *)
theory Split_Eq
  imports Complex_Main Eq_Polynomial_Correct Sumcheck_Algebra
begin

text \<open>
  The split equality polynomial of \<^verbatim>\<open>crates/akita-algebra/src/split_eq.rs\<close>: a running scalar, the
  linear factor of the current variable, and suffix-cached equality tables of the two halves of
  the remaining variables, bound one variable per sumcheck round.

  A panic is \<open>None\<close> (the outer one where the code itself returns an option).  The polynomial type
  is another package's: \<open>new\<close> is its constructor from coefficients and \<open>trim\<close> its
  \<^verbatim>\<open>trim_trailing_zeros\<close>.
\<close>

section \<open>State and operations\<close>

record 'e gruen_split_eq =
  gs_tau :: "'e list"
  gs_round :: nat
  gs_scalar :: 'e
  E_first :: "'e list list"
  E_second :: "'e list list"

record 'e prepared_recovery =
  rec_at_zero :: 'e
  rec_slope :: 'e
  rec_at_one_inverse :: 'e

definition with_initial_scalar :: "eq_env \<Rightarrow> 'e::comm_ring_1 list \<Rightarrow> 'e \<Rightarrow> 'e gruen_split_eq result" where
  "with_initial_scalar env tau initial_scalar =
     (let n = length tau
      in if n = 0 then Err (InvalidSize 1 0)
         else let m = (n - 1) div 2; split = 1 + m;
                  first_half = drop 1 (take split tau); second_half = drop split tau
              in try_r (evals_cached env first_half) (\<lambda>e_first.
                 try_r (evals_cached env second_half) (\<lambda>e_second.
                   Ok \<lparr>gs_tau = tau, gs_round = 0, gs_scalar = initial_scalar, E_first = e_first, E_second = e_second\<rparr>)))"

definition gruen_new :: "eq_env \<Rightarrow> 'e::comm_ring_1 list \<Rightarrow> 'e gruen_split_eq result" where
  "gruen_new env tau = with_initial_scalar env tau 1"

definition current_tau :: "'e gruen_split_eq \<Rightarrow> 'e option" where
  "current_tau gs = (if gs_round gs < length (gs_tau gs) then Some (gs_tau gs ! gs_round gs) else None)"

definition remaining_eq_tables :: "'e gruen_split_eq \<Rightarrow> ('e list \<times> 'e list) option" where
  "remaining_eq_tables gs =
     (if E_first gs = [] \<or> E_second gs = [] then None else Some (last (E_first gs), last (E_second gs)))"

definition remaining_eq_tables_after :: "nat \<Rightarrow> 'e gruen_split_eq \<Rightarrow> ('e list \<times> 'e list) option option" where
  "remaining_eq_tables_after binds gs =
     (if E_first gs = [] \<or> E_second gs = [] then None
      else let first_levels = length (E_first gs) - 1; second_levels = length (E_second gs) - 1
           in if binds \<le> first_levels
              then Some (Some (E_first gs ! (first_levels - binds), E_second gs ! second_levels))
              else case checked_sub second_levels (binds - first_levels) of
                     None \<Rightarrow> Some None
                   | Some second_level \<Rightarrow> Some (Some (E_first gs ! 0, E_second gs ! second_level)))"

definition gruen_bind :: "'e::comm_ring_1 \<Rightarrow> 'e gruen_split_eq \<Rightarrow> 'e gruen_split_eq option" where
  "gruen_bind r gs =
     (if gs_round gs < length (gs_tau gs)
      then let tau_k = gs_tau gs ! gs_round gs;
               gs1 = gs\<lparr>gs_scalar := gs_scalar gs * (tau_k * r + (1 - tau_k) * (1 - r)), gs_round := gs_round gs + 1\<rparr>
           in Some (if length (E_first gs1) > 1 then gs1\<lparr>E_first := butlast (E_first gs1)\<rparr>
                    else if length (E_second gs1) > 1 then gs1\<lparr>E_second := butlast (E_second gs1)\<rparr>
                    else gs1)
      else None)"

definition linear_factor_evals :: "'e::comm_ring_1 gruen_split_eq \<Rightarrow> ('e \<times> 'e) option" where
  "linear_factor_evals gs =
     map_option (\<lambda>tau. let l_at_1 = gs_scalar gs * tau; l_at_0 = gs_scalar gs - l_at_1 in (l_at_0, l_at_1)) (current_tau gs)"

definition field_inverse :: "'e::field \<Rightarrow> 'e option" where
  "field_inverse x = (if x = 0 then None else Some (inverse x))"

definition prepare_linear_q_recovery :: "'e::field gruen_split_eq \<Rightarrow> 'e prepared_recovery option" where
  "prepare_linear_q_recovery gs =
     Option.bind (current_tau gs) (\<lambda>tau.
       let at_one = gs_scalar gs * tau; at_zero = gs_scalar gs - at_one
       in map_option (\<lambda>at_one_inverse. \<lparr>rec_at_zero = at_zero, rec_slope = at_one - at_zero, rec_at_one_inverse = at_one_inverse\<rparr>)
            (field_inverse at_one))"

definition can_recover_linear_q_term_from_claim :: "'e::field gruen_split_eq \<Rightarrow> bool" where
  "can_recover_linear_q_term_from_claim gs = (prepare_linear_q_recovery gs \<noteq> None)"

fun mul_linear_loop :: "'e::comm_ring_1 \<Rightarrow> 'e \<Rightarrow> nat \<Rightarrow> 'e list \<Rightarrow> 'e list \<Rightarrow> 'e list" where
  "mul_linear_loop at_zero slope i [] coeffs = coeffs"
| "mul_linear_loop at_zero slope i (c # cs) coeffs =
     mul_linear_loop at_zero slope (Suc i) cs
       (let coeffs1 = coeffs[i := coeffs ! i + c * at_zero] in coeffs1[i + 1 := coeffs1 ! (i + 1) + c * slope])"

definition mul_linear :: "('e list \<Rightarrow> 'u) \<Rightarrow> 'e::comm_ring_1 list \<Rightarrow> 'e \<Rightarrow> 'e \<Rightarrow> 'u" where
  "mul_linear new q_coeffs at_zero slope = new (mul_linear_loop at_zero slope 0 q_coeffs (replicate (length q_coeffs + 1) 0))"

definition gruen_mul :: "('e list \<Rightarrow> 'u) \<Rightarrow> 'e::comm_ring_1 list \<Rightarrow> 'e gruen_split_eq \<Rightarrow> 'u option" where
  "gruen_mul new q_coeffs gs =
     map_option (\<lambda>(at_zero, at_one). mul_linear new q_coeffs at_zero (at_one - at_zero)) (linear_factor_evals gs)"

definition linear_term :: "'e::field prepared_recovery \<Rightarrow> 'e \<Rightarrow> 'e \<Rightarrow> 'e \<Rightarrow> 'e" where
  "linear_term rc constant sum_except_linear claim =
     (claim - rec_at_zero rc * constant) * rec_at_one_inverse rc - sum_except_linear"

definition gruen_poly_from_coeffs_except_linear ::
  "('e list \<Rightarrow> 'u) \<Rightarrow> 'e::field prepared_recovery \<Rightarrow> 'e list \<Rightarrow> 'e \<Rightarrow> 'u" where
  "gruen_poly_from_coeffs_except_linear new rc coefficients claim =
     (case coefficients of
        [] \<Rightarrow> new [0]
      | constant # rest \<Rightarrow>
          let total = foldl (+) 0 coefficients;
              full = constant # linear_term rc constant total claim # rest
          in mul_linear new full (rec_at_zero rc) (rec_slope rc))"

definition gruen_poly_deg_3 ::
  "('e list \<Rightarrow> 'u) \<Rightarrow> ('u \<Rightarrow> 'u) \<Rightarrow> 'e::field prepared_recovery \<Rightarrow> 'e \<Rightarrow> 'e \<Rightarrow> 'e \<Rightarrow> 'u" where
  "gruen_poly_deg_3 new trim rc constant quadratic claim =
     (let linear = linear_term rc constant (constant + quadratic) claim
      in trim (mul_linear new [constant, linear, quadratic] (rec_at_zero rc) (rec_slope rc)))"

text \<open>The outer option is the panic of \<open>linear_factor_evals\<close>.\<close>

definition try_gruen_poly_from_coeffs_except_linear ::
  "('e list \<Rightarrow> 'u) \<Rightarrow> 'e::field list \<Rightarrow> 'e \<Rightarrow> 'e gruen_split_eq \<Rightarrow> 'u option option" where
  "try_gruen_poly_from_coeffs_except_linear new coefficients claim gs =
     (if coefficients = [] then Some (Some (new [0]))
      else case linear_factor_evals gs of
             None \<Rightarrow> None
           | Some (l_at_0, l_at_1) \<Rightarrow>
               if l_at_0 = 0 \<and> l_at_1 = 0 then Some (Some (new [0]))
               else Some (map_option (\<lambda>rc. gruen_poly_from_coeffs_except_linear new rc coefficients claim)
                      (prepare_linear_q_recovery gs)))"

definition try_gruen_poly_deg_3 ::
  "('e list \<Rightarrow> 'u) \<Rightarrow> ('u \<Rightarrow> 'u) \<Rightarrow> 'e::field \<Rightarrow> 'e \<Rightarrow> 'e \<Rightarrow> 'e gruen_split_eq \<Rightarrow> 'u option option" where
  "try_gruen_poly_deg_3 new trim q_constant q_quadratic claim gs =
     (case linear_factor_evals gs of
        None \<Rightarrow> None
      | Some (l_at_0, l_at_1) \<Rightarrow>
          if l_at_0 = 0 \<and> l_at_1 = 0 then Some (Some (new [0]))
          else Some (map_option (\<lambda>rc. gruen_poly_deg_3 new trim rc q_constant q_quadratic claim)
                 (prepare_linear_q_recovery gs)))"

section \<open>The tables of a state\<close>

definition eq_factor :: "'e::comm_ring_1 \<Rightarrow> 'e \<Rightarrow> 'e" where
  "eq_factor t r = t * r + (1 - t) * (1 - r)"

text \<open>The first \<open>j + 1\<close> cached layers of a half.\<close>

definition layers :: "'e::comm_ring_1 list \<Rightarrow> nat \<Rightarrow> 'e list list" where
  "layers xs j = map (\<lambda>i. eq_table 1 (drop (length xs - i) xs)) [0..<Suc j]"

lemma length_layers [simp]: "length (layers xs j) = Suc j"
  by (simp add: layers_def)

lemma layers_nth: "i \<le> j \<Longrightarrow> layers xs j ! i = eq_table 1 (drop (length xs - i) xs)"
  by (simp add: layers_def del: upt_Suc)

lemma layers_ne [simp]: "layers xs j \<noteq> []"
  by (simp add: layers_def)

lemma last_layers [simp]: "last (layers xs j) = eq_table 1 (drop (length xs - j) xs)"
  by (simp add: layers_def)

lemma butlast_layers: "butlast (layers xs (Suc j)) = layers xs j"
  by (simp add: layers_def butlast_append)

definition split_half :: "'e list \<Rightarrow> nat" where
  "split_half tau = (length tau - 1) div 2"

text \<open>
  The state after binding \<open>rs\<close>: one level of the first half is popped per round, then one level of
  the second half.
\<close>

definition gruen_inv :: "'e::comm_ring_1 list \<Rightarrow> 'e \<Rightarrow> 'e list \<Rightarrow> 'e gruen_split_eq \<Rightarrow> bool" where
  "gruen_inv tau s rs gs \<longleftrightarrow> tau \<noteq> [] \<and> length rs \<le> length tau \<and> gs_tau gs = tau \<and> gs_round gs = length rs \<and>
     gs_scalar gs = s * prod_list (map2 eq_factor (take (length rs) tau) rs) \<and>
     E_first gs = layers (take (split_half tau) (tl tau)) (split_half tau - length rs) \<and>
     E_second gs = layers (drop (split_half tau) (tl tau)) (length tau - 1 - split_half tau - (length rs - split_half tau))"

lemma gruen_inv_new:
  assumes "with_initial_scalar env tau s = Ok gs"
  shows "gruen_inv tau s [] gs"
proof -
  let ?m = "split_half tau"
  have halves: "drop (Suc 0) (take (Suc ?m) tau) = take ?m (tl tau)" "drop (Suc ?m) tau = drop ?m (tl tau)"
    by (cases tau; simp)+
  have m: "(length tau - Suc 0) div 2 = ?m" by (simp add: split_half_def)
  have lay: "evals_cached env xs = Ok ts \<Longrightarrow> ts = layers xs (length xs)" for xs ts
    using evals_cached_with_scaling_Ok [of env xs None ts] by (simp add: evals_cached_def layers_def)
  from assms have "tau \<noteq> []" "evals_cached env (take ?m (tl tau)) = Ok (E_first gs)"
    "evals_cached env (drop ?m (tl tau)) = Ok (E_second gs)" "gs_tau gs = tau" "gs_round gs = 0" "gs_scalar gs = s"
    by (auto simp: with_initial_scalar_def Let_def try_r_eq_Inr halves m split: if_splits)
  moreover have "length (take ?m (tl tau)) = ?m" by (simp add: split_half_def)
  ultimately show ?thesis using lay [of "take ?m (tl tau)"] lay [of "drop ?m (tl tau)"]
    by (simp add: gruen_inv_def)
qed

lemma gruen_inv_bind:
  assumes inv: "gruen_inv tau s rs gs" and rs: "length rs < length tau"
  shows "\<exists>gs'. gruen_bind r gs = Some gs' \<and> gruen_inv tau s (rs @ [r]) gs'"
proof -
  let ?m = "split_half tau" and ?k = "length rs" and ?f = "take (split_half tau) (tl tau)" and ?h = "drop (split_half tau) (tl tau)"
  let ?b = "length tau - 1 - split_half tau"
  have scalar: "map2 eq_factor (take (Suc ?k) tau) (rs @ [r]) = map2 eq_factor (take ?k tau) rs @ [eq_factor (tau ! ?k) r]"
    using rs by (simp add: take_Suc_conv_app_nth)
  from inv have st: "gs_tau gs = tau" "gs_round gs = ?k" "E_first gs = layers ?f (?m - ?k)"
    "E_second gs = layers ?h (?b - (?k - ?m))" "tau \<noteq> []" by (simp_all add: gruen_inv_def)
  have sc: "gs_scalar gs * eq_factor (tau ! ?k) r = s * prod_list (map2 eq_factor (take (Suc ?k) tau) (rs @ [r]))"
    using inv by (simp add: gruen_inv_def scalar mult.assoc)
  show ?thesis
  proof (cases "?k < ?m")
    case True
    then have "?m - ?k = Suc (?m - Suc ?k)" by simp
    with rs True show ?thesis
      by (simp add: gruen_inv_def gruen_bind_def st Let_def sc butlast_layers eq_factor_def [symmetric])
  next
    case False
    show ?thesis
    proof (cases "?k - ?m < ?b")
      case True
      then have "?b - (?k - ?m) = Suc (?b - (Suc ?k - ?m))" using False by simp
      with rs False True show ?thesis
        by (simp add: gruen_inv_def gruen_bind_def st Let_def sc butlast_layers eq_factor_def [symmetric])
    next
      case late: False
      then have "?b - (?k - ?m) = 0" "?b - (Suc ?k - ?m) = 0" "?m - ?k = 0" using False by simp_all
      with rs show ?thesis
        by (simp add: gruen_inv_def gruen_bind_def st Let_def sc eq_factor_def [symmetric])
    qed
  qed
qed

lemma gruen_tables:
  assumes inv: "gruen_inv tau s rs gs" and rs: "length rs < length tau"
  defines "k \<equiv> length rs" and "m \<equiv> split_half tau"
  shows "remaining_eq_tables gs = Some (eq_table 1 (drop k (take m (tl tau))), eq_table 1 (drop (k - m) (drop m (tl tau))))"
proof -
  have b: "length tau - 1 - m - (k - m) \<le> length (drop m (tl tau))" by simp
  have le: "m \<le> length tau - 1" by (simp add: m_def split_half_def)
  have d: "length (drop m (tl tau)) - (length tau - 1 - m - (k - m)) = k - m"
    using rs le by (simp add: k_def)
  have f: "drop (length (take m (tl tau)) - (m - k)) (take m (tl tau)) = drop k (take m (tl tau))"
    using le by (cases "k \<le> m") simp_all
  from inv have E: "E_first gs = layers (take m (tl tau)) (m - k)" "E_second gs = layers (drop m (tl tau)) (length tau - 1 - m - (k - m))"
    by (simp_all add: gruen_inv_def k_def m_def)
  show ?thesis unfolding remaining_eq_tables_def E last_layers d f by simp
qed

lemma gruen_remaining_product:
  assumes inv: "gruen_inv tau s rs gs" and rs: "length rs < length tau" and t: "remaining_eq_tables gs = Some (e1, e2)"
    and j: "j < 2 ^ (length tau - Suc (length rs))"
  shows "e1 ! (j mod length e1) * e2 ! (j div length e1) = eq_at (drop (Suc (length rs)) tau) j"
proof -
  let ?k = "length rs" and ?m = "split_half tau"
  let ?f = "drop ?k (take ?m (tl tau))" and ?h = "drop (?k - ?m) (drop ?m (tl tau))"
  from gruen_tables [OF inv rs] t have e: "e1 = eq_table 1 ?f" "e2 = eq_table 1 ?h" by simp_all
  have le: "?m \<le> length tau - 1" by (simp add: split_half_def)
  have "drop (Suc ?k) tau = drop ?k (tl tau)" by (simp add: drop_Suc)
  also have "\<dots> = drop ?k (take ?m (tl tau) @ drop ?m (tl tau))" by simp
  also have "\<dots> = ?f @ ?h" using le by (simp only: drop_append length_take length_tl min_absorb2 min.absorb1)
  finally have split: "drop (Suc ?k) tau = ?f @ ?h" .
  then have "length ?f + length ?h = length tau - Suc ?k" by (metis length_append length_drop)
  then have "j < 2 ^ length ?f * 2 ^ length ?h" using j by (simp flip: power_add)
  then have jd: "j div 2 ^ length ?f < 2 ^ length ?h" by (simp add: less_mult_imp_div_less mult.commute)
  have "e1 ! (j mod length e1) = eq_at ?f j" unfolding e length_eq_table using eq_at_mod [of ?f j] by (subst nth_eq_table) simp_all
  moreover have "e2 ! (j div length e1) = eq_at ?h (j div 2 ^ length ?f)" unfolding e length_eq_table using jd by (subst nth_eq_table) simp_all
  ultimately show ?thesis by (simp only: split eq_at_append)
qed

fun gruen_bind_all :: "'e::comm_ring_1 list \<Rightarrow> 'e gruen_split_eq \<Rightarrow> 'e gruen_split_eq option" where
  "gruen_bind_all [] gs = Some gs"
| "gruen_bind_all (r # rs) gs = Option.bind (gruen_bind r gs) (gruen_bind_all rs)"

lemma gruen_bind_all_inv:
  "gruen_inv tau s bound gs \<Longrightarrow> length bound + length rs \<le> length tau \<Longrightarrow>
   \<exists>gs'. gruen_bind_all rs gs = Some gs' \<and> gruen_inv tau s (bound @ rs) gs'"
proof (induction rs arbitrary: bound gs)
  case Nil
  then show ?case by simp
next
  case (Cons r rs)
  from gruen_inv_bind [OF Cons.prems(1), of r] Cons.prems(2) obtain gs1 where
    "gruen_bind r gs = Some gs1" "gruen_inv tau s (bound @ [r]) gs1" by auto
  with Cons.IH [of "bound @ [r]" gs1] Cons.prems(2) show ?case by simp
qed

lemma gruen_linear_factor:
  assumes inv: "gruen_inv tau s rs gs" and rs: "length rs < length tau"
  shows "current_tau gs = Some (tau ! length rs) \<and>
    linear_factor_evals gs = Some (gs_scalar gs * (1 - tau ! length rs), gs_scalar gs * tau ! length rs)"
  using assms by (simp add: gruen_inv_def current_tau_def linear_factor_evals_def Let_def algebra_simps)

section \<open>Recovered round polynomials\<close>

lemma poly_value_update:
  "i < length cs \<Longrightarrow> poly_value (cs[i := cs ! i + a]) x = poly_value cs x + a * x ^ i"
proof (induction cs arbitrary: i)
  case (Cons c cs)
  then show ?case by (cases i) (simp_all add: algebra_simps)
qed simp

lemma mul_linear_loop_value:
  "i + length cs < length coeffs \<Longrightarrow>
   length (mul_linear_loop at_zero slope i cs coeffs) = length coeffs \<and>
   poly_value (mul_linear_loop at_zero slope i cs coeffs) x =
     poly_value coeffs x + x ^ i * ((at_zero + x * slope) * poly_value cs x)"
proof (induction cs arbitrary: i coeffs)
  case (Cons c cs)
  let ?c1 = "coeffs[i := coeffs ! i + c * at_zero]"
  let ?c2 = "?c1[i + 1 := ?c1 ! (i + 1) + c * slope]"
  have "poly_value ?c2 x = poly_value ?c1 x + c * slope * x ^ (i + 1)"
    using Cons.prems by (intro poly_value_update) simp
  also have "poly_value ?c1 x = poly_value coeffs x + c * at_zero * x ^ i"
    using Cons.prems by (intro poly_value_update) simp
  finally have v: "poly_value ?c2 x = poly_value coeffs x + c * at_zero * x ^ i + c * slope * x ^ (i + 1)" .
  have "Suc i + length cs < length ?c2" using Cons.prems by simp
  from Cons.IH [OF this] show ?case
    by (simp only: mul_linear_loop.simps Let_def v length_list_update poly_value.simps) (simp add: algebra_simps)
qed simp

lemma mul_linear_coeffs_value:
  "poly_value (mul_linear_loop at_zero slope 0 cs (replicate (length cs + 1) 0)) x = (at_zero + x * slope) * poly_value cs x"
  using mul_linear_loop_value [of 0 cs "replicate (length cs + 1) 0" at_zero slope x] by (simp del: replicate.simps)

lemma linear_term_recovers:
  fixes rc :: "'e::field prepared_recovery"
  assumes "rec_at_one_inverse rc = inverse l1" "l1 \<noteq> 0" "rec_at_zero rc = l0"
    and claim: "claim = l0 * q0 + l1 * (q0 + q1 + sum_list qs)"
  shows "linear_term rc q0 (q0 + sum_list qs) claim = q1"
  using assms(2) by (simp add: linear_term_def assms(1,3) claim field_simps)

lemma foldl_sum_list: "foldl (+) a xs = a + sum_list (xs :: 'e::comm_monoid_add list)"
  by (induction xs arbitrary: a) (simp_all add: add.assoc)

section \<open>Looking ahead\<close>

lemma gruen_tables_after:
  assumes inv: "gruen_inv tau s rs gs" and n: "length rs + n < length tau"
    and inv': "gruen_inv tau s (rs @ qs) gs'" and qs: "length qs = n"
  shows "remaining_eq_tables_after n gs = Some (remaining_eq_tables gs')"
proof -
  let ?m = "split_half tau" and ?k = "length rs"
  let ?f = "take ?m (tl tau)" and ?h = "drop ?m (tl tau)" and ?b = "length tau - 1 - split_half tau"
  from inv have E: "E_first gs = layers ?f (?m - ?k)" "E_second gs = layers ?h (?b - (?k - ?m))"
    by (simp_all add: gruen_inv_def)
  from inv' qs have E': "E_first gs' = layers ?f (?m - (?k + n))" "E_second gs' = layers ?h (?b - (?k + n - ?m))"
    by (simp_all add: gruen_inv_def)
  have now: "remaining_eq_tables gs' = Some (last (layers ?f (?m - (?k + n))), last (layers ?h (?b - (?k + n - ?m))))"
    by (simp only: remaining_eq_tables_def E' layers_ne simp_thms if_False)
  have mb: "?m \<le> length tau - 1" by (simp add: split_half_def)
  show ?thesis
  proof (cases "n \<le> ?m - ?k")
    case True
    then have "?m - ?k - n = ?m - (?k + n)" "?k - ?m = ?k + n - ?m \<or> n = 0" by auto
    with True show ?thesis unfolding now remaining_eq_tables_after_def E by (auto simp: layers_nth Let_def)
  next
    case False
    then have eq: "?b - (?k - ?m) - (n - (?m - ?k)) = ?b - (?k + n - ?m)" "?m - (?k + n) = 0" by simp_all
    have "n - (?m - ?k) \<le> ?b - (?k - ?m)" using n mb False by simp
    moreover have "layers ?h (?b - (?k - ?m)) ! (?b - (?k + n - ?m)) = last (layers ?h (?b - (?k + n - ?m)))"
      unfolding last_layers by (rule layers_nth) (use False in simp)
    moreover have "layers ?f (?m - ?k) ! 0 = last (layers ?f 0)" by (simp add: layers_nth)
    ultimately show ?thesis using False unfolding now remaining_eq_tables_after_def E
      by (simp only: layers_ne length_layers Let_def checked_sub_def eq diff_Suc_1 simp_thms if_True if_False option.case)
  qed
qed

section \<open>Properties\<close>

text \<open>
  C23. After any prefix \<open>rs\<close> of the challenges has been bound, no panic has happened, the scalar is
  the initial one times the bound equality factors, and while a variable is left the linear factor
  times the two remaining tables is the equality polynomial of every unbound coordinate, scaled by
  the scalar.  The tables peeked at with \<open>remaining_eq_tables_after\<close> before the binds are those of
  the state after them.
\<close>

theorem split_eq_invariant:
  fixes tau rs :: "'e::comm_ring_1 list"
  assumes new: "with_initial_scalar env tau s = Ok gs0" and len: "length rs \<le> length tau"
  shows "\<exists>gs. gruen_bind_all rs gs0 = Some gs \<and>
    gs_scalar gs = s * prod_list (map2 eq_factor (take (length rs) tau) rs) \<and>
    (length rs < length tau \<longrightarrow>
      current_tau gs = Some (tau ! length rs) \<and>
      remaining_eq_tables_after (length rs) gs0 = Some (remaining_eq_tables gs) \<and>
      (\<exists>l0 l1 e1 e2. linear_factor_evals gs = Some (l0, l1) \<and> remaining_eq_tables gs = Some (e1, e2) \<and>
        (\<forall>j < 2 ^ (length tau - Suc (length rs)).
          l0 * (e1 ! (j mod length e1) * e2 ! (j div length e1)) = gs_scalar gs * eq_at (drop (length rs) tau) (2 * j) \<and>
          l1 * (e1 ! (j mod length e1) * e2 ! (j div length e1)) = gs_scalar gs * eq_at (drop (length rs) tau) (2 * j + 1))))"
proof -
  from gruen_inv_new [OF new] have inv0: "gruen_inv tau s [] gs0" .
  from gruen_bind_all_inv [OF inv0, of rs] len obtain gs
    where gs: "gruen_bind_all rs gs0 = Some gs" and inv: "gruen_inv tau s rs gs" by auto
  have scalar: "gs_scalar gs = s * prod_list (map2 eq_factor (take (length rs) tau) rs)" using inv by (simp add: gruen_inv_def)
  {
    assume rs: "length rs < length tau"
    obtain e1 e2 where t: "remaining_eq_tables gs = Some (e1, e2)" using gruen_tables [OF inv rs] by blast
    have after: "remaining_eq_tables_after (length rs) gs0 = Some (remaining_eq_tables gs)"
      using gruen_tables_after [OF inv0, of "length rs" rs gs] rs inv by simp
    have split: "drop (length rs) tau = tau ! length rs # drop (Suc (length rs)) tau" using rs by (simp add: Cons_nth_drop_Suc)
    note lin = gruen_linear_factor [OF inv rs] and prod = gruen_remaining_product [OF inv rs t]
    have "gs_scalar gs * (1 - tau ! length rs) * (e1 ! (j mod length e1) * e2 ! (j div length e1)) =
        gs_scalar gs * eq_at (drop (length rs) tau) (2 * j) \<and>
      gs_scalar gs * tau ! length rs * (e1 ! (j mod length e1) * e2 ! (j div length e1)) =
        gs_scalar gs * eq_at (drop (length rs) tau) (2 * j + 1)"
      if "j < 2 ^ (length tau - Suc (length rs))" for j
      by (simp add: prod [OF that] split mult.assoc)
    with lin after t have "current_tau gs = Some (tau ! length rs) \<and>
      remaining_eq_tables_after (length rs) gs0 = Some (remaining_eq_tables gs) \<and>
      (\<exists>l0 l1 e1 e2. linear_factor_evals gs = Some (l0, l1) \<and> remaining_eq_tables gs = Some (e1, e2) \<and>
        (\<forall>j < 2 ^ (length tau - Suc (length rs)).
          l0 * (e1 ! (j mod length e1) * e2 ! (j div length e1)) = gs_scalar gs * eq_at (drop (length rs) tau) (2 * j) \<and>
          l1 * (e1 ! (j mod length e1) * e2 ! (j div length e1)) = gs_scalar gs * eq_at (drop (length rs) tau) (2 * j + 1)))"
      by blast
  }
  with gs scalar show ?thesis by blast
qed

definition sample_split :: "int gruen_split_eq" where
  "sample_split = \<lparr>gs_tau = [2, 3, 5], gs_round = 0, gs_scalar = 7, E_first = [[1], [1 - 3, 3]], E_second = [[1], [1 - 5, 5]]\<rparr>"

lemma small_cached: "evals_cached small_env [a :: int] = Ok [[1], [1 - a, a]]"
proof -
  have rep: "replicate 2 (0 :: int) = [0, 0]" by (simp add: numeral_2_eq_2)
  show ?thesis
    by (simp add: evals_cached_def evals_cached_with_scaling_def small_env_def table_len_def pow2_eq usize_max_def
        check_element_budget_def MAX_MATERIALIZED_EQ_TABLE_BYTES_def checked_mul_if checked_sub_def zero_vec_def
        saturating_mul_def cache_layer_def cache_entry_def split_lagrange_parent_def Let_def rep)
qed

lemma sample_split_new: "with_initial_scalar small_env [2, 3, 5] 7 = Ok sample_split"
  by (simp add: with_initial_scalar_def sample_split_def small_cached Let_def)

theorem split_eq_invariant_witness:
  "\<exists>gs. gruen_bind_all [11] sample_split = Some gs \<and> gs_scalar gs = 7 * (2 * 11 + (1 - 2) * (1 - 11)) \<and>
     remaining_eq_tables_after 1 sample_split = Some (remaining_eq_tables gs)"
  using split_eq_invariant [OF sample_split_new, of "[11]"] by (auto simp: eq_factor_def)


text \<open>
  C26. A round polynomial computed without the linear coefficient of \<open>q\<close>, from the running claim
  \<open>l(0) q(0) + l(1) q(1)\<close>: whenever the value of the linear factor at one is invertible, both
  recovery paths return the polynomial the direct product returns, whose value is \<open>l(x) q(x)\<close>
  everywhere.  With \<open>l(1) = 0\<close> they report that nothing can be recovered exactly when \<open>l(0)\<close> is not
  zero; when the whole factor vanishes they return the zero polynomial, which is the product, where
  the doc comments of both promise \<^verbatim>\<open>None\<close> whenever \<open>l(1) = 0\<close>.
\<close>

theorem gruen_recovery_correct:
  fixes gs :: "'e::field gruen_split_eq"
  assumes l: "linear_factor_evals gs = Some (l0, l1)"
    and claim: "claim = l0 * poly_value (q0 # q1 # qs) 0 + l1 * poly_value (q0 # q1 # qs) 1"
  shows "(\<exists>cs. gruen_mul new (q0 # q1 # qs) gs = Some (new cs) \<and>
      (\<forall>x. poly_value cs x = ((1 - x) * l0 + x * l1) * poly_value (q0 # q1 # qs) x)) \<and>
    try_gruen_poly_from_coeffs_except_linear new (q0 # qs) claim gs =
      Some (if l1 \<noteq> 0 then gruen_mul new (q0 # q1 # qs) gs else if l0 = 0 then Some (new [0]) else None) \<and>
    (length qs = 1 \<longrightarrow> try_gruen_poly_deg_3 new trim q0 (hd qs) claim gs =
      Some (if l1 \<noteq> 0 then map_option trim (gruen_mul new (q0 # q1 # qs) gs) else if l0 = 0 then Some (new [0]) else None)) \<and>
    can_recover_linear_q_term_from_claim gs = (l1 \<noteq> 0)"
proof -
  have at1: "poly_value (q0 # q1 # qs) 1 = q0 + q1 + sum_list qs" by (simp add: poly_value_at_one)
  have mul: "gruen_mul new (q0 # q1 # qs) gs = Some (mul_linear new (q0 # q1 # qs) l0 (l1 - l0))"
    by (simp add: gruen_mul_def l)
  have val: "poly_value (mul_linear_loop l0 (l1 - l0) 0 (q0 # q1 # qs) (replicate (length (q0 # q1 # qs) + 1) 0)) x =
      ((1 - x) * l0 + x * l1) * poly_value (q0 # q1 # qs) x" for x
    unfolding mul_linear_coeffs_value by (simp add: algebra_simps)
  obtain t where t: "current_tau gs = Some t" "l1 = gs_scalar gs * t" "l0 = gs_scalar gs - l1"
    using l by (auto simp: linear_factor_evals_def Let_def)
  have prep: "prepare_linear_q_recovery gs =
      (if l1 = 0 then None else Some \<lparr>rec_at_zero = l0, rec_slope = l1 - l0, rec_at_one_inverse = inverse l1\<rparr>)"
    by (simp add: prepare_linear_q_recovery_def t field_inverse_def Let_def)
  have lin_q: "l1 \<noteq> 0 \<Longrightarrow> linear_term \<lparr>rec_at_zero = l0, rec_slope = l1 - l0, rec_at_one_inverse = inverse l1\<rparr> q0 (q0 + sum_list qs) claim = q1"
    by (rule linear_term_recovers) (simp_all add: claim at1 add.assoc poly_value_at_one)
  have "try_gruen_poly_from_coeffs_except_linear new (q0 # qs) claim gs =
      Some (if l1 \<noteq> 0 then gruen_mul new (q0 # q1 # qs) gs else if l0 = 0 then Some (new [0]) else None)"
    by (simp add: try_gruen_poly_from_coeffs_except_linear_def l prep mul gruen_poly_from_coeffs_except_linear_def
        foldl_sum_list lin_q Let_def)
  moreover have "try_gruen_poly_deg_3 new trim q0 (hd qs) claim gs =
      Some (if l1 \<noteq> 0 then map_option trim (gruen_mul new (q0 # q1 # qs) gs) else if l0 = 0 then Some (new [0]) else None)"
    if "length qs = 1"
  proof -
    from that obtain q2 where q2: "qs = [q2]" by (auto simp: length_Suc_conv)
    from lin_q show ?thesis
      by (simp add: try_gruen_poly_deg_3_def l prep mul [unfolded q2] gruen_poly_deg_3_def q2 Let_def)
  qed
  moreover have "\<exists>cs. gruen_mul new (q0 # q1 # qs) gs = Some (new cs) \<and>
      (\<forall>x. poly_value cs x = ((1 - x) * l0 + x * l1) * poly_value (q0 # q1 # qs) x)"
    using val mul unfolding mul_linear_def by blast
  moreover have "can_recover_linear_q_term_from_claim gs = (l1 \<noteq> 0)"
    by (simp add: can_recover_linear_q_term_from_claim_def prep)
  ultimately show ?thesis by blast
qed

definition sample_rational_split :: "rat gruen_split_eq" where
  "sample_rational_split = \<lparr>gs_tau = [2], gs_round = 0, gs_scalar = 3, E_first = [[1]], E_second = [[1]]\<rparr>"

definition sample_vanishing_split :: "rat gruen_split_eq" where
  "sample_vanishing_split = sample_rational_split\<lparr>gs_scalar := 0\<rparr>"

theorem gruen_recovery_correct_witness:
  "try_gruen_poly_from_coeffs_except_linear id [5, 1] 45 sample_rational_split = Some (gruen_mul id [5, 4, 1] sample_rational_split) \<and>
   can_recover_linear_q_term_from_claim sample_rational_split \<and>
   try_gruen_poly_from_coeffs_except_linear id [5, 1] 0 sample_vanishing_split = Some (Some [0]) \<and>
   \<not> can_recover_linear_q_term_from_claim sample_vanishing_split"
proof -
  have l: "linear_factor_evals sample_rational_split = Some (- 3, 6)" "linear_factor_evals sample_vanishing_split = Some (0, 0)"
    by (simp_all add: linear_factor_evals_def current_tau_def sample_rational_split_def sample_vanishing_split_def)
  from gruen_recovery_correct [OF l(1), of "- 3 * 5 + 6 * 10" 5 4 "[1]" id id] gruen_recovery_correct [OF l(2), of 0 5 4 "[1]" id id]
  show ?thesis by simp
qed

end
