(* ===== verification/Eq_Instance.thy ===== *)
theory Eq_Instance
  imports Split_Eq Sumcheck_Complete
begin

text \<open>
  The bilinear instance \<^verbatim>\<open>TwoRoundEq\<close> that the crate \<^verbatim>\<open>akita-sumcheck\<close> runs through its equality-factored
  driver (\<^verbatim>\<open>proof_stream.rs\<close>): it keeps its equality polynomial as a \<^verbatim>\<open>GruenSplitEq\<close> and meets the
  contract of honest equality-factored kernels.  The constructor \<^verbatim>\<open>from_q_coefficients\<close> belongs to
  \<^verbatim>\<open>jolt_poly\<close> and is the argument \<open>from_q\<close>.  A panic is the error \<open>''panic''\<close>; asking for the point
  after the last round, which the driver never does, gives zero.
\<close>

record 'e two_round_eq =
  te_equality :: "'e \<times> 'e"
  te_split :: "'e gruen_split_eq"
  te_coefficients :: "'e \<times> 'e \<times> 'e \<times> 'e"
  te_first :: "'e option"

definition two_round_new :: "eq_env \<Rightarrow> 'e::comm_ring_1 \<times> 'e \<Rightarrow> 'e \<times> 'e \<times> 'e \<times> 'e \<Rightarrow> 'e two_round_eq result" where
  "two_round_new env equality coefficients =
     try_r (gruen_new env [fst equality, snd equality]) (\<lambda>split.
       Ok \<lparr>te_equality = equality, te_split = split, te_coefficients = coefficients, te_first = None\<rparr>)"

definition bilinear :: "'e::comm_ring_1 \<times> 'e \<times> 'e \<times> 'e \<Rightarrow> 'e \<Rightarrow> 'e \<Rightarrow> 'e" where
  "bilinear = (\<lambda>(a, b, c, d) x y. a + b * x + c * y + d * x * y)"

definition two_round_kernel :: "('e::comm_ring_1 list \<Rightarrow> 'o) \<Rightarrow> ('e two_round_eq, 'o, 'e) sumcheck_kernel" where
  "two_round_kernel from_q =
     \<lparr>k_num_rounds = (\<lambda>_. 2), k_degree_bound = (\<lambda>_. 1),
      k_input_claim = (\<lambda>k. bilinear (te_coefficients k) (fst (te_equality k)) (snd (te_equality k))),
      k_current_tau = (\<lambda>k. case current_tau (te_split k) of Some t \<Rightarrow> t | None \<Rightarrow> 0),
      k_round_polynomial = (\<lambda>rnd _ k. case te_coefficients k of (a, b, c, d) \<Rightarrow>
        if rnd = 0 then (Ok (from_q [a + c * snd (te_equality k), b + d * snd (te_equality k)]), k)
        else case te_first k of None \<Rightarrow> (Err (Internal ''panic''), k) | Some first \<Rightarrow> (Ok (from_q [a + b * first, c + d * first]), k)),
      k_bind_challenge = (\<lambda>rnd challenge k.
        let k1 = (if rnd = 0 then k\<lparr>te_first := Some challenge\<rparr> else k)
        in case gruen_bind challenge (te_split k1) of None \<Rightarrow> (Err (Internal ''panic''), k1) | Some split \<Rightarrow> (Ok (), k1\<lparr>te_split := split\<rparr>)),
      k_finish = (\<lambda>k. (Ok (), k))\<rparr>"

definition two_round_invariant :: "'e::comm_ring_1 \<times> 'e \<Rightarrow> 'e \<times> 'e \<times> 'e \<times> 'e \<Rightarrow> 'e list \<Rightarrow> 'e two_round_eq \<Rightarrow> bool" where
  "two_round_invariant equality coefficients rs k \<longleftrightarrow> te_equality k = equality \<and> te_coefficients k = coefficients \<and>
     gs_tau (te_split k) = [fst equality, snd equality] \<and> gs_round (te_split k) = length rs \<and>
     (rs \<noteq> [] \<longrightarrow> te_first k = Some (hd rs))"

lemma gruen_bind_step:
  "gs_round gs < length (gs_tau gs) \<Longrightarrow> \<exists>gs'. gruen_bind r gs = Some gs' \<and> gs_tau gs' = gs_tau gs \<and> gs_round gs' = Suc (gs_round gs)"
  by (simp add: gruen_bind_def Let_def)

definition bilinear_at :: "'e::comm_ring_1 \<times> 'e \<times> 'e \<times> 'e \<Rightarrow> 'e list \<Rightarrow> 'e" where
  "bilinear_at coefficients rs = bilinear coefficients (rs ! 0) (rs ! 1)"

lemma eq_weights_simps [simp]: "eq_weights [] = []" "eq_weights (t # ts) = (1 - t, t) # eq_weights ts"
  by (simp_all add: eq_weights_def)

lemma two_round_honest:
  fixes P :: "('u, 'z, 'o, 'e::comm_ring_1) poly_ops"
  assumes P: "poly_laws P" and q: "\<And>cs. into_coefficients P (from_q cs) = drop 1 cs"
  shows "honest_eq_kernel P (two_round_kernel from_q) 1 [e0, e1] (bilinear_at coefficients) (two_round_invariant (e0, e1) coefficients)
    (\<lambda>rs u. two_round_invariant (e0, e1) coefficients rs)"
proof
  obtain a b c d where co: "coefficients = (a, b, c, d)" by (cases coefficients)
  let ?I = "two_round_invariant (e0, e1) coefficients" and ?K = "two_round_kernel from_q" and ?g = "bilinear_at coefficients"
  show "poly_laws P" by (rule P)
  show "length [e0, e1] \<le> u32_max" by (simp add: u32_max_def)
  show "k_num_rounds ?K k = length [e0, e1] \<and> k_degree_bound ?K k = 1 \<and> k_input_claim ?K k = cube_sum (eq_weights [e0, e1]) ?g []" if "?I [] k" for k
    using that by (simp add: two_round_kernel_def two_round_invariant_def bilinear_at_def bilinear_def co algebra_simps)
  show "\<exists>u k'. k_round_polynomial ?K (length rs) (cube_sum (eq_weights (drop (length rs) [e0, e1])) ?g rs) k = (Ok u, k') \<and> ?I rs k' \<and>
      k_current_tau ?K k' = [e0, e1] ! length rs \<and> length (into_coefficients P u) \<le> 1 \<and>
      (\<forall>x. cube_sum (eq_weights (drop (Suc (length rs)) [e0, e1])) ?g (rs @ [x]) =
        cube_sum (eq_weights (drop (Suc (length rs)) [e0, e1])) ?g (rs @ [0]) + x * poly_value (into_coefficients P u) x)"
    if I: "?I rs k" and len: "length rs < length [e0, e1]" for rs k
  proof (cases rs)
    case Nil
    with I show ?thesis by (simp add: two_round_kernel_def two_round_invariant_def current_tau_def q bilinear_at_def bilinear_def co algebra_simps)
  next
    case (Cons r rs')
    with len have "rs = [r]" by simp
    with I show ?thesis by (simp add: two_round_kernel_def two_round_invariant_def current_tau_def q bilinear_at_def bilinear_def co algebra_simps)
  qed
  show "\<exists>k'. k_bind_challenge ?K (length rs) r k = (Ok (), k') \<and> ?I (rs @ [r]) k'" if I: "?I rs k" and len: "length rs < length [e0, e1]" for rs r u k
  proof -
    from I len obtain gs' where "gruen_bind r (te_split k) = Some gs'" "gs_tau gs' = [e0, e1]" "gs_round gs' = Suc (length rs)"
      using gruen_bind_step [of "te_split k" r] by (auto simp: two_round_invariant_def)
    with I show ?thesis by (cases rs) (auto simp: two_round_kernel_def two_round_invariant_def Let_def)
  qed
  show "\<exists>k'. k_finish ?K k = (Ok (), k')" if "?I rs k" "length rs = length [e0, e1]" for rs k by (simp add: two_round_kernel_def)
qed

interpretation two_round_sample: honest_eq_kernel list_poly_ops "two_round_kernel (drop 1)" 1 "[2, 3 :: int]" "bilinear_at (1, 2, 3, 4)"
  "two_round_invariant (2, 3) (1, 2, 3, 4)" "\<lambda>rs u. two_round_invariant (2, 3) (1, 2, 3, 4) rs"
  by (rule two_round_honest [OF list_poly_laws]) (simp add: list_poly_ops_def)

end
