(* ===== verification/Opening_Reduction.thy ===== *)
theory Opening_Reduction
  imports Sumcheck Eq_Polynomial
begin

text \<open>
  The extension-opening-reduction prover of \<^verbatim>\<open>crates/akita-cpu-backend/src/opaque/recursive/opening\<close>
  (\<^verbatim>\<open>mod.rs\<close>, \<^verbatim>\<open>dense.rs\<close>, \<^verbatim>\<open>tables.rs\<close>, \<^verbatim>\<open>term.rs\<close>, \<^verbatim>\<open>prover.rs\<close>), the table shapes of
  \<^verbatim>\<open>arithmetic/extension_opening_reduction.rs\<close> and the session of
  \<^verbatim>\<open>opaque/recursive/witness/stage_sessions.rs\<close> that runs the prover one round at a time.

  The field operations \<^verbatim>\<open>Unreduced\<close> and \<^verbatim>\<open>Fold\<close> belong to \<^verbatim>\<open>jolt_field\<close>; they are the record
  \<open>unreduced_ops\<close>, with the delayed products of type \<open>'w\<close>.  So is the way Rayon splits a parallel
  range: \<open>par_tree n\<close> is the tree of the parts of a range of \<open>n\<close> items.  The polynomial type belongs
  to \<^verbatim>\<open>jolt_poly\<close>: \<open>new\<close> is its constructor and \<open>degree\<close> its degree.

  A panic is \<open>None\<close>.  Debug assertions and tracing are not modelled.
\<close>

section \<open>Field operations and parallel ranges\<close>

datatype join_tree = Part nat | Join join_tree join_tree

fun join_size :: "join_tree \<Rightarrow> nat" where
  "join_size (Part n) = n"
| "join_size (Join l r) = join_size l + join_size r"

text \<open>
  \<^verbatim>\<open>into_par_iter().fold(zero, step).reduce(zero, merge)\<close>: every part folds its items from a fresh
  accumulator, the reduction merges it into another fresh one, and neighbouring parts are merged.
\<close>

fun join_fold :: "(nat \<Rightarrow> 'a \<Rightarrow> 'a) \<Rightarrow> 'a \<Rightarrow> ('a \<Rightarrow> 'a \<Rightarrow> 'a) \<Rightarrow> join_tree \<Rightarrow> nat \<Rightarrow> 'a" where
  "join_fold step zero merge (Part n) i = merge zero (fold step [i..<i + n] zero)"
| "join_fold step zero merge (Join l r) i = merge (join_fold step zero merge l i) (join_fold step zero merge r (i + join_size l))"

record ('e, 'w) unreduced_ops =
  sum_is_exact :: bool
  mul_unreduced :: "'e \<Rightarrow> 'e \<Rightarrow> 'w"
  wide_zero :: 'w
  wide_add :: "'w \<Rightarrow> 'w \<Rightarrow> 'w"
  reduce_product :: "'w \<Rightarrow> 'e"
  fold_pair :: "'e \<Rightarrow> 'e \<Rightarrow> 'e \<Rightarrow> 'e"
  par_feature :: bool
  par_tree :: "nat \<Rightarrow> join_tree"

section \<open>Accumulators of one round\<close>

record ('a, 'e) deg2_accum =
  acc_zero :: 'a
  add_constant_product :: "'e \<Rightarrow> 'e \<Rightarrow> 'a \<Rightarrow> 'a"
  add_quadratic_product :: "'e \<Rightarrow> 'e \<Rightarrow> 'a \<Rightarrow> 'a"
  acc_merge :: "'a \<Rightarrow> 'a \<Rightarrow> 'a"
  acc_finish :: "'a \<Rightarrow> 'e \<times> 'e"

definition delayed_deg2 :: "('e, 'w) unreduced_ops \<Rightarrow> ('w \<times> 'w, 'e) deg2_accum" where
  "delayed_deg2 U =
     \<lparr>acc_zero = (wide_zero U, wide_zero U),
      add_constant_product = (\<lambda>lhs rhs (constant, quadratic). (wide_add U constant (mul_unreduced U lhs rhs), quadratic)),
      add_quadratic_product = (\<lambda>lhs rhs (constant, quadratic). (constant, wide_add U quadratic (mul_unreduced U lhs rhs))),
      acc_merge = (\<lambda>(c, q) (c', q'). (wide_add U c c', wide_add U q q')),
      acc_finish = (\<lambda>(constant, quadratic). (reduce_product U constant, reduce_product U quadratic))\<rparr>"

definition direct_deg2 :: "('e::comm_ring_1 \<times> 'e, 'e) deg2_accum" where
  "direct_deg2 =
     \<lparr>acc_zero = (0, 0),
      add_constant_product = (\<lambda>lhs rhs (constant, quadratic). (constant + lhs * rhs, quadratic)),
      add_quadratic_product = (\<lambda>lhs rhs (constant, quadratic). (constant, quadratic + lhs * rhs)),
      acc_merge = (\<lambda>(c, q) (c', q'). (c + c', q + q')),
      acc_finish = (\<lambda>(constant, quadratic). (constant, quadratic))\<rparr>"

definition add_pair :: "('a, 'e::comm_ring_1) deg2_accum \<Rightarrow> 'e \<Rightarrow> 'e \<Rightarrow> 'e \<Rightarrow> 'e \<Rightarrow> 'a \<Rightarrow> 'a" where
  "add_pair A w0 w1 a0 a1 acc = add_quadratic_product A (w1 - w0) (a1 - a0) (add_constant_product A w0 a0 acc)"

section \<open>Dense rounds\<close>

definition DENSE_PARALLEL_PAIR_THRESHOLD :: nat where
  "DENSE_PARALLEL_PAIR_THRESHOLD = 2 ^ 14"

definition par_branch :: "('e, 'w) unreduced_ops \<Rightarrow> nat \<Rightarrow> bool" where
  "par_branch U n \<longleftrightarrow> par_feature U \<and> n \<ge> DENSE_PARALLEL_PAIR_THRESHOLD"

text \<open>An index beyond the factor table panics.\<close>

definition accumulate_dense_round_with ::
  "('e::comm_ring_1, 'w) unreduced_ops \<Rightarrow> ('a, 'e) deg2_accum \<Rightarrow> 'e list \<Rightarrow> 'e list \<Rightarrow> ('e \<times> 'e) option" where
  "accumulate_dense_round_with U A witness_evals factor_evals =
     (let half = length witness_evals div 2;
          step = (\<lambda>i. add_pair A (witness_evals ! (2 * i)) (witness_evals ! (2 * i + 1))
                                 (factor_evals ! (2 * i)) (factor_evals ! (2 * i + 1)))
      in if length factor_evals < 2 * half then None
         else if par_branch U half
         then Some (acc_finish A (join_fold step (acc_zero A) (acc_merge A) (par_tree U half) 0))
         else Some (acc_finish A (fold step [0..<half] (acc_zero A))))"

definition accumulate_dense_round ::
  "('e::comm_ring_1, 'w) unreduced_ops \<Rightarrow> 'e list \<Rightarrow> 'e list \<Rightarrow> 'e \<Rightarrow> ('e \<times> 'e) option" where
  "accumulate_dense_round U witness_evals factor_evals coeff =
     (if coeff = 0 then Some (0, 0)
      else map_option (\<lambda>(constant, quadratic). (coeff * constant, coeff * quadratic))
             (if sum_is_exact U then accumulate_dense_round_with U (delayed_deg2 U) witness_evals factor_evals
              else accumulate_dense_round_with U direct_deg2 witness_evals factor_evals))"

text \<open>The folded pair at \<open>4 i\<close> of a table.\<close>

definition fold_quad :: "('e, 'w) unreduced_ops \<Rightarrow> 'e \<Rightarrow> 'e list \<Rightarrow> nat \<Rightarrow> 'e \<times> 'e" where
  "fold_quad U r evals i = (fold_pair U r (evals ! (4 * i)) (evals ! (4 * i + 1)),
                            fold_pair U r (evals ! (4 * i + 2)) (evals ! (4 * i + 3)))"

definition write_pair :: "nat \<Rightarrow> 'e \<times> 'e \<Rightarrow> 'e list \<Rightarrow> 'e list" where
  "write_pair i v evals = (evals[2 * i := fst v])[2 * i + 1 := snd v]"

definition head_step ::
  "('e::comm_ring_1, 'w) unreduced_ops \<Rightarrow> ('a, 'e) deg2_accum \<Rightarrow> 'e \<Rightarrow> nat \<Rightarrow> 'e list \<times> 'e list \<times> 'a \<Rightarrow> 'e list \<times> 'e list \<times> 'a" where
  "head_step U A r i = (\<lambda>(w, f, acc).
     let fw = fold_quad U r w i; fa = fold_quad U r f i
     in (write_pair i fw w, write_pair i fa f, add_pair A (fst fw) (snd fw) (fst fa) (snd fa) acc))"

definition fused_fold_group_head_and_accumulate_with ::
  "('e::comm_ring_1, 'w) unreduced_ops \<Rightarrow> ('a, 'e) deg2_accum \<Rightarrow> 'e list \<Rightarrow> 'e list \<Rightarrow> 'e \<Rightarrow>
   (('e \<times> 'e) \<times> 'e list \<times> 'e list) option" where
  "fused_fold_group_head_and_accumulate_with U A witness_evals factor_evals r_round =
     (let half = length witness_evals div 2; quarter = half div 2
      in if par_branch U quarter
         then if odd half \<or> length factor_evals < 2 * half then None
              else let acc = join_fold (\<lambda>i. let fw = fold_quad U r_round witness_evals i; fa = fold_quad U r_round factor_evals i
                                             in add_pair A (fst fw) (snd fw) (fst fa) (snd fa))
                               (acc_zero A) (acc_merge A) (par_tree U quarter) 0;
                       folded = (\<lambda>evals. concat (map (\<lambda>i. let v = fold_quad U r_round evals i in [fst v, snd v]) [0..<quarter]))
                   in Some (acc_finish A acc, folded witness_evals, folded factor_evals)
         else if length factor_evals < 4 * quarter then None
         else case fold (head_step U A r_round) [0..<quarter] (witness_evals, factor_evals, acc_zero A) of
                (w, f, acc) \<Rightarrow> Some (acc_finish A acc, take half w, take half f))"

definition fused_fold_group_head_and_accumulate ::
  "('e::comm_ring_1, 'w) unreduced_ops \<Rightarrow> 'e list \<Rightarrow> 'e list \<Rightarrow> 'e \<Rightarrow> (('e \<times> 'e) \<times> 'e list \<times> 'e list) option" where
  "fused_fold_group_head_and_accumulate U witness_evals factor_evals r_round =
     (if sum_is_exact U then fused_fold_group_head_and_accumulate_with U (delayed_deg2 U) witness_evals factor_evals r_round
      else fused_fold_group_head_and_accumulate_with U direct_deg2 witness_evals factor_evals r_round)"

definition witness_step ::
  "('e::comm_ring_1, 'w) unreduced_ops \<Rightarrow> ('a, 'e) deg2_accum \<Rightarrow> 'e list \<Rightarrow> 'e \<Rightarrow> nat \<Rightarrow> 'e list \<times> 'a \<Rightarrow> 'e list \<times> 'a" where
  "witness_step U A folded_factor r i = (\<lambda>(w, acc).
     let fw = fold_quad U r w i
     in (write_pair i fw w, add_pair A (fst fw) (snd fw) (folded_factor ! (2 * i)) (folded_factor ! (2 * i + 1)) acc))"

definition fused_fold_witness_and_accumulate_with ::
  "('e::comm_ring_1, 'w) unreduced_ops \<Rightarrow> ('a, 'e) deg2_accum \<Rightarrow> 'e list \<Rightarrow> 'e list \<Rightarrow> 'e \<Rightarrow>
   (('e \<times> 'e) \<times> 'e list) option" where
  "fused_fold_witness_and_accumulate_with U A witness_evals folded_factor r_round =
     (let half = length witness_evals div 2; quarter = half div 2
      in if par_branch U quarter
         then if odd half \<or> length folded_factor < half then None
              else let acc = join_fold (\<lambda>i. let fw = fold_quad U r_round witness_evals i
                                             in add_pair A (fst fw) (snd fw) (folded_factor ! (2 * i)) (folded_factor ! (2 * i + 1)))
                               (acc_zero A) (acc_merge A) (par_tree U quarter) 0
                   in Some (acc_finish A acc,
                        concat (map (\<lambda>i. let v = fold_quad U r_round witness_evals i in [fst v, snd v]) [0..<quarter]))
         else if length folded_factor < 2 * quarter then None
         else case fold (witness_step U A folded_factor r_round) [0..<quarter] (witness_evals, acc_zero A) of
                (w, acc) \<Rightarrow> Some (acc_finish A acc, take half w))"

definition fused_fold_witness_and_accumulate ::
  "('e::comm_ring_1, 'w) unreduced_ops \<Rightarrow> 'e list \<Rightarrow> 'e list \<Rightarrow> 'e \<Rightarrow> (('e \<times> 'e) \<times> 'e list) option" where
  "fused_fold_witness_and_accumulate U witness_evals folded_factor r_round =
     (if sum_is_exact U then fused_fold_witness_and_accumulate_with U (delayed_deg2 U) witness_evals folded_factor r_round
      else fused_fold_witness_and_accumulate_with U direct_deg2 witness_evals folded_factor r_round)"

section \<open>Table shapes\<close>

definition reduction_table_len :: "nat \<Rightarrow> nat result" where
  "reduction_table_len num_vars =
     ok_or (pow2 num_vars) (InvalidInput (''extension-opening reduction table has too many variables: '' @ show_nat num_vars))"

definition num_rounds_from_table_len :: "nat \<Rightarrow> nat result" where
  "num_rounds_from_table_len len =
     (if len = 0 \<or> \<not> is_power_of_two len
      then Err (InvalidInput (''extension-opening reduction table length '' @ show_nat len @ '' is not a nonzero power of two''))
      else Ok (trailing_zeros len))"

definition validate_reduction_tables :: "'e list \<Rightarrow> 'e list \<Rightarrow> unit result" where
  "validate_reduction_tables witness_evals factor_evals =
     (if length witness_evals \<noteq> length factor_evals then Err (InvalidSize (length witness_evals) (length factor_evals))
      else try_r (num_rounds_from_table_len (length witness_evals)) (\<lambda>_. Ok ()))"

section \<open>Terms and groups\<close>

record 'e reduction_term =
  rt_witness :: "'e list"
  rt_coeff :: 'e
  rt_cached_accumulate :: "('e \<times> 'e) option"

definition reduction_term_new :: "'e list \<Rightarrow> 'e \<Rightarrow> 'e reduction_term" where
  "reduction_term_new witness_evals coeff = \<lparr>rt_witness = witness_evals, rt_coeff = coeff, rt_cached_accumulate = None\<rparr>"

record 'e reduction_group =
  rg_terms :: "'e reduction_term list"
  rg_factor :: "'e list"
  rg_extra_point :: "'e list"
  rg_extra_round :: nat
  rg_extra_factor_eval :: 'e

fun validate_terms :: "'e reduction_term list \<Rightarrow> 'e list \<Rightarrow> unit result" where
  "validate_terms [] factor_evals = Ok ()"
| "validate_terms (t # ts) factor_evals =
     try_r (validate_reduction_tables (rt_witness t) factor_evals) (\<lambda>_. validate_terms ts factor_evals)"

definition reduction_group_new :: "'e::comm_ring_1 reduction_term list \<Rightarrow> 'e list \<Rightarrow> 'e reduction_group result" where
  "reduction_group_new ts factor_evals =
     (if ts = [] then Err (InvalidInput ''extension-opening reduction group requires at least one term'')
      else try_r (validate_terms ts factor_evals) (\<lambda>_.
        Ok \<lparr>rg_terms = ts, rg_factor = factor_evals, rg_extra_point = [], rg_extra_round = 0, rg_extra_factor_eval = 1\<rparr>))"

definition extend_cylindrically :: "'e list \<Rightarrow> 'e reduction_group \<Rightarrow> 'e reduction_group result" where
  "extend_cylindrically extra_point g =
     try_r (num_rounds_from_table_len (length (rg_factor g))) (\<lambda>native_rounds.
     try_r (ok_or (checked_add native_rounds (length extra_point))
              (InvalidInput ''extension-opening cylindrical domain overflow'')) (\<lambda>total_rounds.
     try_r (reduction_table_len total_rounds) (\<lambda>_. Ok (g\<lparr>rg_extra_point := extra_point\<rparr>))))"

text \<open>\<^verbatim>\<open>usize::checked_shl\<close>: bits shifted out are lost.\<close>

definition usize_checked_shl :: "nat \<Rightarrow> nat \<Rightarrow> nat option" where
  "usize_checked_shl n s = (if s < 64 then Some (n * 2 ^ s mod 2 ^ 64) else None)"

definition domain_len :: "'e reduction_group \<Rightarrow> nat" where
  "domain_len g =
     (case usize_checked_shl (length (rg_factor g))
             (let s = length (rg_extra_point g) - rg_extra_round g in if s \<le> u32_max then s else u32_max) of
        Some n \<Rightarrow> n | None \<Rightarrow> 0)"

definition num_terms :: "'e reduction_group \<Rightarrow> nat" where
  "num_terms g = length (rg_terms g)"

definition group_final_terms :: "'e::comm_ring_1 reduction_group \<Rightarrow> ('e \<times> 'e \<times> 'e) list option" where
  "group_final_terms g =
     (if length (rg_factor g) \<noteq> 1 \<or> rg_extra_round g \<noteq> length (rg_extra_point g)
         \<or> list_ex (\<lambda>t. length (rt_witness t) \<noteq> 1) (rg_terms g)
      then None
      else let factor = rg_factor g ! 0 * rg_extra_factor_eval g
           in Some (map (\<lambda>t. (rt_coeff t, rt_witness t ! 0, factor)) (rg_terms g)))"

fun accumulate_terms ::
  "('e::comm_ring_1, 'w) unreduced_ops \<Rightarrow> 'e list \<Rightarrow> 'e reduction_term list \<Rightarrow> 'e \<times> 'e \<Rightarrow>
   (('e \<times> 'e) \<times> 'e reduction_term list) option" where
  "accumulate_terms U factor [] acc = Some (acc, [])"
| "accumulate_terms U factor (t # ts) (constant, quadratic) =
     Option.bind (case rt_cached_accumulate t of
                    Some cached \<Rightarrow> Some cached
                  | None \<Rightarrow> accumulate_dense_round U (rt_witness t) factor (rt_coeff t)) (\<lambda>(c, q).
     Option.bind (accumulate_terms U factor ts (constant + c, quadratic + q)) (\<lambda>(acc, ts').
       Some (acc, t\<lparr>rt_cached_accumulate := None\<rparr> # ts')))"

text \<open>\<^verbatim>\<open>slice::get\<close>.\<close>

definition slice_nth :: "'a list \<Rightarrow> nat \<Rightarrow> 'a option" where
  "slice_nth xs i = (if i < length xs then Some (xs ! i) else None)"

definition accumulate_into ::
  "('e::comm_ring_1, 'w) unreduced_ops \<Rightarrow> 'e reduction_group \<Rightarrow> 'e \<times> 'e \<Rightarrow> (('e \<times> 'e) \<times> 'e reduction_group) option" where
  "accumulate_into U g acc =
     (if length (rg_factor g) > 1
      then map_option (\<lambda>(acc', ts). (acc', g\<lparr>rg_terms := ts\<rparr>)) (accumulate_terms U (rg_factor g) (rg_terms g) acc)
      else case slice_nth (rg_extra_point g) (rg_extra_round g) of
             None \<Rightarrow> Some (acc, g)
           | Some point \<Rightarrow>
               if rg_factor g = [] \<or> list_ex (\<lambda>t. rt_witness t = []) (rg_terms g) then None
               else let factor = rg_factor g ! 0 * rg_extra_factor_eval g * (1 - point)
                    in Some ((foldl (\<lambda>constant t. constant + rt_coeff t * rt_witness t ! 0 * factor) (fst acc) (rg_terms g), snd acc), g))"

definition cache_round :: "'e::comm_ring_1 \<times> 'e \<Rightarrow> 'e list \<Rightarrow> 'e reduction_term \<Rightarrow> 'e reduction_term" where
  "cache_round sums witness t =
     t\<lparr>rt_witness := witness, rt_cached_accumulate := Some (rt_coeff t * fst sums, rt_coeff t * snd sums)\<rparr>"

definition ingest_witness ::
  "('e::comm_ring_1, 'w) unreduced_ops \<Rightarrow> 'e list \<Rightarrow> 'e \<Rightarrow> 'e reduction_term \<Rightarrow> 'e reduction_term option" where
  "ingest_witness U factor r_round t =
     map_option (\<lambda>(sums, w). cache_round sums w t) (fused_fold_witness_and_accumulate U (rt_witness t) factor r_round)"

definition plain_fold_term :: "('e::comm_ring_1, 'w) unreduced_ops \<Rightarrow> 'e \<Rightarrow> 'e reduction_term \<Rightarrow> 'e reduction_term option" where
  "plain_fold_term U r_round t =
     map_option (\<lambda>w. t\<lparr>rt_witness := w, rt_cached_accumulate := None\<rparr>)
       (fold_evals_in_place (par_feature U) (fold_pair U) (rt_witness t) r_round)"

definition plain_fold_group :: "('e::comm_ring_1, 'w) unreduced_ops \<Rightarrow> 'e \<Rightarrow> 'e reduction_group \<Rightarrow> 'e reduction_group option" where
  "plain_fold_group U r_round g =
     Option.bind (fold_evals_in_place (par_feature U) (fold_pair U) (rg_factor g) r_round) (\<lambda>f.
       map_option (\<lambda>ts. g\<lparr>rg_factor := f, rg_terms := ts\<rparr>) (those (map (plain_fold_term U r_round) (rg_terms g))))"

definition group_ingest_challenge ::
  "('e::comm_ring_1, 'w) unreduced_ops \<Rightarrow> 'e \<Rightarrow> 'e reduction_group \<Rightarrow> 'e reduction_group option" where
  "group_ingest_challenge U r_round g =
     (if domain_len g \<le> 1 then Some g
      else if length (rg_factor g) > 1
      then case rg_terms g of
             first # remaining \<Rightarrow>
               if length (rg_factor g) \<ge> 4
               then Option.bind (fused_fold_group_head_and_accumulate U (rt_witness first) (rg_factor g) r_round) (\<lambda>(sums, w, f).
                      map_option (\<lambda>ts. g\<lparr>rg_factor := f, rg_terms := cache_round sums w first # ts\<rparr>)
                        (those (map (ingest_witness U f r_round) remaining)))
               else plain_fold_group U r_round g
           | [] \<Rightarrow> plain_fold_group U r_round g
      else case slice_nth (rg_extra_point g) (rg_extra_round g) of
             None \<Rightarrow> Some g
           | Some point \<Rightarrow>
               Some (g\<lparr>rg_extra_factor_eval := rg_extra_factor_eval g * ((1 - point) * (1 - r_round) + point * r_round),
                       rg_extra_round := rg_extra_round g + 1\<rparr>))"

section \<open>The prover\<close>

definition EXTENSION_OPENING_REDUCTION_DEGREE :: nat where
  "EXTENSION_OPENING_REDUCTION_DEGREE = 2"

record 'e reduction_prover =
  rp_groups :: "'e reduction_group list"
  rp_input_claim :: 'e
  rp_num_rounds :: nat

fun check_domains :: "nat \<Rightarrow> 'e reduction_group list \<Rightarrow> unit result" where
  "check_domains dom_len [] = Ok ()"
| "check_domains dom_len (g # gs) =
     (if domain_len g \<noteq> dom_len then Err (InvalidSize dom_len (domain_len g)) else check_domains dom_len gs)"

definition reduction_prover_new :: "'e reduction_group list \<Rightarrow> 'e \<Rightarrow> 'e reduction_prover result" where
  "reduction_prover_new gs input_claim =
     (case gs of
        [] \<Rightarrow> Err (InvalidInput ''extension-opening reduction requires at least one group'')
      | first # _ \<Rightarrow>
          let dom_len = domain_len first
          in try_r (num_rounds_from_table_len dom_len) (\<lambda>num_rounds.
             try_r (check_domains dom_len gs) (\<lambda>_.
               Ok \<lparr>rp_groups = gs, rp_input_claim = input_claim, rp_num_rounds = num_rounds\<rparr>)))"

definition final_terms :: "'e::comm_ring_1 reduction_prover \<Rightarrow> ('e \<times> 'e \<times> 'e) list option" where
  "final_terms p = try_fold (\<lambda>out g. map_option (\<lambda>ts. out @ ts) (group_final_terms g)) [] (rp_groups p)"

fun accumulate_groups ::
  "('e::comm_ring_1, 'w) unreduced_ops \<Rightarrow> 'e reduction_group list \<Rightarrow> 'e \<times> 'e \<Rightarrow> (('e \<times> 'e) \<times> 'e reduction_group list) option" where
  "accumulate_groups U [] acc = Some (acc, [])"
| "accumulate_groups U (g # gs) acc =
     Option.bind (accumulate_into U g acc) (\<lambda>(acc', g').
       map_option (\<lambda>(acc'', gs'). (acc'', g' # gs')) (accumulate_groups U gs acc'))"

definition compute_round_univariate ::
  "('e::comm_ring_1, 'w) unreduced_ops \<Rightarrow> ('e list \<Rightarrow> 'u) \<Rightarrow> nat \<Rightarrow> 'e \<Rightarrow> 'e reduction_prover \<Rightarrow> ('u \<times> 'e reduction_prover) option" where
  "compute_round_univariate U new rnd previous_claim p =
     map_option (\<lambda>((constant, quadratic), gs).
         let linear = previous_claim - constant - constant - quadratic
         in (new [constant, linear, quadratic], p\<lparr>rp_groups := gs\<rparr>))
       (accumulate_groups U (rp_groups p) (0, 0))"

definition ingest_challenge ::
  "('e::comm_ring_1, 'w) unreduced_ops \<Rightarrow> 'e \<Rightarrow> 'e reduction_prover \<Rightarrow> 'e reduction_prover option" where
  "ingest_challenge U r_round p =
     map_option (\<lambda>gs. p\<lparr>rp_groups := gs\<rparr>) (those (map (group_ingest_challenge U r_round) (rp_groups p)))"

section \<open>The session\<close>

record ('e, 'u) opening_session =
  os_prover :: "'e reduction_prover"
  os_claim :: 'e
  os_next_round :: nat
  os_pending :: "'u option"
  os_num_terms :: nat

definition witness_eor_session :: "'e reduction_group \<Rightarrow> 'e \<Rightarrow> ('e, 'u) opening_session result" where
  "witness_eor_session g input_claim =
     try_r (reduction_prover_new [g] input_claim) (\<lambda>p.
       Ok \<lparr>os_prover = p, os_claim = input_claim, os_next_round = 0, os_pending = None, os_num_terms = num_terms g\<rparr>)"

text \<open>The factor table is that of \<^verbatim>\<open>tensor_equality_factor_evals\<close>, evaluated between the two steps.\<close>

definition witness_eor_session_from_witnesses ::
  "'e::comm_ring_1 list result \<Rightarrow> 'e list list \<Rightarrow> 'e list \<Rightarrow> 'e list \<Rightarrow> 'e \<Rightarrow> ('e, 'u) opening_session result" where
  "witness_eor_session_from_witnesses factor_evals witnesses claim_coefficients extra_point input_claim =
     (if length witnesses \<noteq> length claim_coefficients
      then Err (InvalidSize (length witnesses) (length claim_coefficients))
      else let ts = map2 reduction_term_new witnesses claim_coefficients
           in try_r factor_evals (\<lambda>factor.
              try_r (try_r (reduction_group_new ts factor) (extend_cylindrically extra_point)) (\<lambda>g.
                witness_eor_session g input_claim)))"

definition session_round_polynomial ::
  "('u, 'z, 'o, 'e::comm_ring_1) poly_ops \<Rightarrow> ('u \<Rightarrow> nat) \<Rightarrow> ('e, 'w) unreduced_ops \<Rightarrow> ('e list \<Rightarrow> 'u) \<Rightarrow> nat \<Rightarrow> 'e \<Rightarrow>
   ('e, 'u) opening_session \<Rightarrow> ('u, ('e, 'u) opening_session) outcome option" where
  "session_round_polynomial P degree U new rnd previous_claim s =
     (if rnd \<noteq> os_next_round s \<or> rnd \<ge> rp_num_rounds (os_prover s) \<or> os_pending s \<noteq> None \<or> previous_claim \<noteq> os_claim s
      then Some (Err (InvalidInput ''extension-opening session round order or claim mismatch''), s)
      else map_option (\<lambda>(polynomial, p).
             if degree polynomial > EXTENSION_OPENING_REDUCTION_DEGREE
                \<or> poly_evaluate P polynomial 0 + poly_evaluate P polynomial 1 \<noteq> previous_claim
             then (Err (Internal ''extension-opening session returned an invalid round polynomial''), s\<lparr>os_prover := p\<rparr>)
             else (Ok polynomial, s\<lparr>os_prover := p, os_pending := Some polynomial\<rparr>))
           (compute_round_univariate U new rnd previous_claim (os_prover s)))"

definition session_bind_challenge ::
  "('u, 'z, 'o, 'e::comm_ring_1) poly_ops \<Rightarrow> ('e, 'w) unreduced_ops \<Rightarrow> nat \<Rightarrow> 'e \<Rightarrow>
   ('e, 'u) opening_session \<Rightarrow> (unit, ('e, 'u) opening_session) outcome option" where
  "session_bind_challenge P U rnd challenge s =
     (if rnd \<noteq> os_next_round s \<or> rnd \<ge> rp_num_rounds (os_prover s)
      then Some (Err (InvalidInput ''extension-opening session challenge order mismatch''), s)
      else case os_pending s of
             None \<Rightarrow> Some (Err (InvalidInput ''extension-opening session challenge arrived early''), s)
           | Some polynomial \<Rightarrow>
               map_option (\<lambda>p. (Ok (), s\<lparr>os_pending := None, os_claim := poly_evaluate P polynomial challenge,
                                         os_prover := p, os_next_round := os_next_round s + 1\<rparr>))
                 (ingest_challenge U challenge (os_prover s)))"

definition session_finish :: "('e::comm_ring_1, 'u) opening_session \<Rightarrow> ('e \<times> 'e \<times> 'e) list result" where
  "session_finish s =
     (if os_pending s \<noteq> None \<or> os_next_round s \<noteq> rp_num_rounds (os_prover s)
      then Err (InvalidInput ''extension-opening session finished before all rounds'')
      else ok_or (final_terms (os_prover s)) (Internal ''extension-opening session has no final claims''))"

section \<open>The aggregate session\<close>

text \<open>
  \<^verbatim>\<open>opaque/eor.rs\<close>: one session per opening group, run in lockstep.  \<open>lease\<close> is the outcome of the
  check that the session belongs to the backend and the proof scope, which reads state outside the
  session.  \<open>coefficients\<close> are the coefficients of a polynomial.
\<close>

record ('e, 'u) eor_session =
  es_groups :: "('e, 'u) opening_session list"
  es_coefficients :: "'e list"
  es_expected_tails :: "'e list list"
  es_eta :: "'e list"
  es_num_rounds :: nat
  es_round :: nat
  es_claim :: 'e
  es_pending :: "'u option"
  es_group_claims :: "'e list"
  es_group_pending :: "'u list"
  es_challenges :: "'e list"

text \<open>
  A prepared group: its row partials per claim, its opening point, the range of its claims among the
  coefficients, and the start of its session, which depends on the source of the witness.
  \<open>claim_from_rows\<close> is \<^verbatim>\<open>tensor_reduction_claim_from_rows\<close>.
\<close>

record ('e, 'u) eor_group =
  eg_rows :: "'e list list"
  eg_point :: "'e list"
  eg_range :: "(nat \<times> nat) result"
  eg_begin :: "'e list \<Rightarrow> 'e list \<Rightarrow> 'e list \<Rightarrow> 'e list \<Rightarrow> 'e \<Rightarrow> ('e, 'u) opening_session result"

definition slice_range :: "'a list \<Rightarrow> nat \<times> nat \<Rightarrow> 'a list option" where
  "slice_range xs r = (if fst r \<le> snd r \<and> snd r \<le> length xs then Some (drop (fst r) (take (snd r) xs)) else None)"

fun weighted_claim :: "('e::comm_ring_1 list \<Rightarrow> 'e result) \<Rightarrow> ('e list \<times> 'e) list \<Rightarrow> 'e \<Rightarrow> 'e result" where
  "weighted_claim row_claim [] sum_so_far = Ok sum_so_far"
| "weighted_claim row_claim ((row, weight) # rows) sum_so_far =
     try_r (row_claim row) (\<lambda>c. weighted_claim row_claim rows (sum_so_far + weight * c))"

fun begin_groups ::
  "('e::comm_ring_1 list \<Rightarrow> 'e list \<Rightarrow> 'e result) \<Rightarrow> nat \<Rightarrow> nat \<Rightarrow> 'e list \<Rightarrow> 'e list \<Rightarrow> ('e, 'u) eor_group list \<Rightarrow>
   (('e, 'u) opening_session list \<times> 'e list \<times> 'e list list) result" where
  "begin_groups claim_from_rows split_bits rounds eta coefficients [] = Ok ([], [], [])"
| "begin_groups claim_from_rows split_bits rounds eta coefficients (g # gs) =
     try_r (eg_range g) (\<lambda>range.
     try_r (ok_or (slice_range coefficients range) (Internal ''prepared EOR coefficient group range is out of bounds'')) (\<lambda>weights.
     try_r (weighted_claim (\<lambda>row. claim_from_rows row eta) (zip (eg_rows g) weights) 0) (\<lambda>claim.
     try_r (if length (eg_point g) < split_bits then Err (Internal ''prepared EOR point does not contain the tensor tail'')
            else Ok (drop split_bits (eg_point g))) (\<lambda>tail.
     try_r (ok_or (checked_sub rounds (length tail)) (Internal ''prepared EOR group tail exceeds the aggregate round count'')) (\<lambda>extra.
     try_r (eg_begin g weights tail eta (replicate extra 0) claim) (\<lambda>session.
       if rp_num_rounds (os_prover session) \<noteq> rounds \<or> os_num_terms session \<noteq> length weights
       then Err (Internal ''EOR group session round or term count differs from the preparation'')
       else try_r (begin_groups claim_from_rows split_bits rounds eta coefficients gs) (\<lambda>(sessions, claims, tails).
              Ok (session # sessions, claim # claims, tail # tails))))))))"

text \<open>\<open>split_bits\<close> and \<open>max_num_vars\<close> are those of the field extension and of the claims layout.\<close>

definition begin_eor ::
  "('e::comm_ring_1 list \<Rightarrow> 'e list \<Rightarrow> 'e result) \<Rightarrow> unit result \<Rightarrow> nat \<Rightarrow> nat \<Rightarrow> nat \<Rightarrow> ('e, 'u) eor_group list \<Rightarrow> 'e list \<Rightarrow> 'e list \<Rightarrow>
   ('e \<times> ('e, 'u) eor_session) result" where
  "begin_eor claim_from_rows lease split_bits num_total_polynomials max_num_vars gs eta coefficients =
     try_r lease (\<lambda>_.
       if length eta \<noteq> split_bits then Err (InvalidSize split_bits (length eta))
       else if length coefficients \<noteq> num_total_polynomials then Err (InvalidSize num_total_polynomials (length coefficients))
       else try_r (ok_or (checked_sub max_num_vars split_bits)
                     (Internal ''prepared EOR maximum arity is smaller than the tensor split'')) (\<lambda>rounds.
            try_r (begin_groups claim_from_rows split_bits rounds eta coefficients gs) (\<lambda>(sessions, claims, tails).
              let claim = foldl (+) 0 claims
              in Ok (claim, \<lparr>es_groups = sessions, es_coefficients = coefficients, es_expected_tails = tails, es_eta = eta,
                     es_num_rounds = rounds, es_round = 0, es_claim = claim, es_pending = None, es_group_claims = claims,
                     es_group_pending = [], es_challenges = []\<rparr>))))"

text \<open>\<^verbatim>\<open>sums.iter_mut().zip(values)\<close> with \<^verbatim>\<open>+=\<close>.\<close>

fun add_prefix :: "'e::comm_ring_1 list \<Rightarrow> 'e list \<Rightarrow> 'e list" where
  "add_prefix (a # as) (b # bs) = (a + b) # add_prefix as bs"
| "add_prefix as [] = as"
| "add_prefix [] bs = []"

record ('u, 'e) univariate_ops =
  uv_new :: "'e list \<Rightarrow> 'u"
  uv_degree :: "'u \<Rightarrow> nat"
  uv_coefficients :: "'u \<Rightarrow> 'e list"

fun eor_group_rounds ::
  "('u, 'z, 'o, 'e::comm_ring_1) poly_ops \<Rightarrow> ('u, 'e) univariate_ops \<Rightarrow> ('e, 'w) unreduced_ops \<Rightarrow> nat \<Rightarrow>
   ('e, 'u) opening_session list \<Rightarrow> 'e list \<Rightarrow> 'e list \<Rightarrow> 'u list \<Rightarrow>
   ('e list result \<times> ('e, 'u) opening_session list \<times> 'u list) option" where
  "eor_group_rounds P N U rnd (g # gs) (claim # claims) sums group_pending =
     Option.bind (session_round_polynomial P (uv_degree N) U (uv_new N) rnd claim g) (\<lambda>(r, g').
       case r of
         Inl e \<Rightarrow> Some (Err e, g' # gs, group_pending)
       | Inr polynomial \<Rightarrow>
           if length (uv_coefficients N polynomial) > length sums
           then Some (Err (Internal ''EOR group polynomial exceeds the aggregate degree bound''), g' # gs, group_pending)
           else map_option (\<lambda>(r', gs', pending'). (r', g' # gs', pending'))
                  (eor_group_rounds P N U rnd gs claims (add_prefix sums (uv_coefficients N polynomial)) (group_pending @ [polynomial])))"
| "eor_group_rounds P N U rnd gs claims sums group_pending = Some (Ok sums, gs, group_pending)"

definition eor_round ::
  "('u, 'z, 'o, 'e::comm_ring_1) poly_ops \<Rightarrow> ('u, 'e) univariate_ops \<Rightarrow> ('e, 'w) unreduced_ops \<Rightarrow> unit result \<Rightarrow> nat \<Rightarrow> 'e \<Rightarrow>
   ('e, 'u) eor_session \<Rightarrow> ('u, ('e, 'u) eor_session) outcome option" where
  "eor_round P N U lease rnd claim s =
     (case lease of
        Inl e \<Rightarrow> Some (Err e, s)
      | Inr _ \<Rightarrow>
          if rnd \<noteq> es_round s \<or> rnd \<ge> es_num_rounds s \<or> claim \<noteq> es_claim s \<or> es_pending s \<noteq> None
          then Some (Err (InvalidInput ''EOR round request has an invalid index or claim, or a round is pending''), s)
          else map_option (\<lambda>(r, gs, group_pending).
                 let s1 = s\<lparr>es_groups := gs, es_group_pending := group_pending\<rparr>
                 in case r of
                      Inl e \<Rightarrow> (Err e, s1)
                    | Inr sums \<Rightarrow>
                        let polynomial = uv_new N sums
                        in if poly_evaluate P polynomial 0 + poly_evaluate P polynomial 1 \<noteq> claim
                           then (Err (Internal ''EOR aggregate round polynomial does not sum to the retained claim''), s1)
                           else (Ok polynomial, s1\<lparr>es_pending := Some polynomial\<rparr>))
               (eor_group_rounds P N U rnd (es_groups s) (es_group_claims s)
                  (replicate (EXTENSION_OPENING_REDUCTION_DEGREE + 1) 0) (es_group_pending s)))"

fun bind_groups ::
  "('u, 'z, 'o, 'e::comm_ring_1) poly_ops \<Rightarrow> ('e, 'w) unreduced_ops \<Rightarrow> nat \<Rightarrow> 'e \<Rightarrow>
   ('e, 'u) opening_session list \<Rightarrow> 'e list \<Rightarrow> 'u list \<Rightarrow> (unit result \<times> ('e, 'u) opening_session list \<times> 'e list) option" where
  "bind_groups P U rnd challenge (g # gs) (claim # claims) (polynomial # polynomials) =
     Option.bind (session_bind_challenge P U rnd challenge g) (\<lambda>(r, g').
       let claim' = poly_evaluate P polynomial challenge
       in case r of
            Inl e \<Rightarrow> Some (Err e, g' # gs, claim' # claims)
          | Inr _ \<Rightarrow> map_option (\<lambda>(r', gs', claims'). (r', g' # gs', claim' # claims'))
                      (bind_groups P U rnd challenge gs claims polynomials))"
| "bind_groups P U rnd challenge gs claims polynomials = Some (Ok (), gs, claims)"

definition bind_eor_round ::
  "('u, 'z, 'o, 'e::comm_ring_1) poly_ops \<Rightarrow> ('e, 'w) unreduced_ops \<Rightarrow> unit result \<Rightarrow> nat \<Rightarrow> 'e \<Rightarrow>
   ('e, 'u) eor_session \<Rightarrow> (unit, ('e, 'u) eor_session) outcome option" where
  "bind_eor_round P U lease rnd challenge s =
     (case lease of
        Inl e \<Rightarrow> Some (Err e, s)
      | Inr _ \<Rightarrow>
          if rnd \<noteq> es_round s \<or> rnd \<ge> es_num_rounds s
          then Some (Err (InvalidInput ''EOR round index bound out of sequence or beyond completion''), s)
          else case es_pending s of
                 None \<Rightarrow> Some (Err (InvalidInput ''EOR round bound before requesting its polynomial''), s)
               | Some polynomial \<Rightarrow>
                   map_option (\<lambda>(r, gs, claims).
                     let s1 = s\<lparr>es_pending := None, es_groups := gs, es_group_claims := claims, es_group_pending := []\<rparr>
                     in case r of
                          Inl e \<Rightarrow> (Err e, s1)
                        | Inr _ \<Rightarrow> (Ok (), s1\<lparr>es_claim := poly_evaluate P polynomial challenge,
                                              es_challenges := es_challenges s @ [challenge], es_round := es_round s + 1\<rparr>))
                   (bind_groups P U rnd challenge (es_groups s) (es_group_claims s) (es_group_pending s)))"

text \<open>
  \<open>factor_at tail eta local\<close> is \<^verbatim>\<open>tensor_equality_factor_eval_at_point\<close>; the finished terms of a group
  are appended while they agree with the retained coefficients.
\<close>

fun finish_terms :: "'e::comm_ring_1 list \<Rightarrow> 'e \<Rightarrow> ('e \<times> 'e \<times> 'e) list \<Rightarrow> 'e list \<Rightarrow> 'e list result" where
  "finish_terms coefficients factor [] vals = Ok vals"
| "finish_terms coefficients factor ((coefficient, witness, actual_factor) # ts) vals =
     (if actual_factor \<noteq> factor \<or> slice_nth coefficients (length vals) \<noteq> Some coefficient
      then Err (Internal ''finished EOR group factor or coefficient differs from retained state'')
      else finish_terms coefficients factor ts (vals @ [witness * actual_factor]))"

fun finish_groups ::
  "('e::comm_ring_1 list \<Rightarrow> 'e list \<Rightarrow> 'e list \<Rightarrow> 'e result) \<Rightarrow> 'e list \<Rightarrow> 'e list \<Rightarrow> 'e list \<Rightarrow>
   ('e, 'u) opening_session list \<Rightarrow> 'e list list \<Rightarrow> 'e list \<Rightarrow> 'e list result" where
  "finish_groups factor_at coefficients eta challenges (g # gs) (tail # tails) vals =
     (if length challenges < length tail
      then Err (Internal ''finished EOR challenges do not cover the retained group tail'')
      else try_r (factor_at tail eta (take (length tail) challenges)) (\<lambda>factor.
        let factor' = foldl (\<lambda>f extra. f * (1 - extra)) factor (drop (length tail) challenges)
        in try_r (session_finish g) (\<lambda>ts.
           try_r (finish_terms coefficients factor' ts vals) (\<lambda>vals'.
             finish_groups factor_at coefficients eta challenges gs tails vals'))))"
| "finish_groups factor_at coefficients eta challenges gs tails vals = Ok vals"

definition finish_eor ::
  "('e::comm_ring_1 list \<Rightarrow> 'e list \<Rightarrow> 'e list \<Rightarrow> 'e result) \<Rightarrow> unit result \<Rightarrow> ('e, 'u) eor_session \<Rightarrow> 'e list result" where
  "finish_eor factor_at lease s =
     try_r lease (\<lambda>_.
       if es_round s \<noteq> es_num_rounds s \<or> es_pending s \<noteq> None
       then Err (InvalidInput ''EOR finished before all rounds were bound or with a round pending'')
       else try_r (finish_groups factor_at (es_coefficients s) (es_eta s) (es_challenges s) (es_groups s) (es_expected_tails s) [])
              (\<lambda>vals.
                if length vals \<noteq> length (es_coefficients s)
                   \<or> foldl (\<lambda>acc (v, weight). acc + v * weight) 0 (zip vals (es_coefficients s)) \<noteq> es_claim s
                then Err (Internal ''finished EOR values do not match the coefficient count or aggregate claim'')
                else Ok vals))"

text \<open>
  The kernel \<^verbatim>\<open>EorSumcheck\<close> of \<^verbatim>\<open>akita-prover/src/protocol/prove/opening_reduction.rs\<close>.  A panic unwinds
  through the driver, which no branch of the driver can catch: here it is an error that leaves no
  session.
\<close>

record ('e, 'u) eor_sumcheck =
  ek_session :: "('e, 'u) eor_session option"
  ek_claim :: 'e
  ek_rounds :: nat

definition unwinding ::
  "(('e, 'u) eor_session \<Rightarrow> ('a, ('e, 'u) eor_session) outcome option) \<Rightarrow> ('e, 'u) eor_sumcheck \<Rightarrow>
   ('a, ('e, 'u) eor_sumcheck) outcome" where
  "unwinding f k =
     (case Option.bind (ek_session k) f of
        None \<Rightarrow> (Err (Internal ''panic''), k\<lparr>ek_session := None\<rparr>)
      | Some (r, s) \<Rightarrow> (r, k\<lparr>ek_session := Some s\<rparr>))"

definition eor_kernel ::
  "('u, 'z, 'o, 'e::comm_ring_1) poly_ops \<Rightarrow> ('u, 'e) univariate_ops \<Rightarrow> ('e, 'w) unreduced_ops \<Rightarrow> unit result \<Rightarrow>
   (('e, 'u) eor_sumcheck, 'u, 'e) sumcheck_kernel" where
  "eor_kernel P N U lease =
     \<lparr>k_num_rounds = ek_rounds, k_degree_bound = (\<lambda>_. EXTENSION_OPENING_REDUCTION_DEGREE), k_input_claim = ek_claim,
      k_current_tau = (\<lambda>_. 0),
      k_round_polynomial = (\<lambda>rnd claim. unwinding (eor_round P N U lease rnd claim)),
      k_bind_challenge = (\<lambda>rnd challenge. unwinding (bind_eor_round P U lease rnd challenge)),
      k_finish = (\<lambda>k. (Ok (), k))\<rparr>"

end
