(* ===== verification/Tensor_Opening.thy ===== *)
theory Tensor_Opening
  imports Opening_Reduction
begin

text \<open>
  The tensor tables of the extension-opening reduction: the algebra shared by prover and verifier
  (\<^verbatim>\<open>crates/akita-types/src/extension_opening_reduction.rs\<close>) and the prover's witness, column-partial
  and factor tables (\<^verbatim>\<open>crates/akita-cpu-backend/src/arithmetic/extension_opening_reduction.rs\<close>).

  The extension field and its coordinates belong to \<^verbatim>\<open>jolt_field\<close>: \<open>field_codec\<close> has the degree and the
  coordinate vectors, \<open>ext_ops\<close> the remaining operations.  The equality tables are those of
  \<open>Eq_Polynomial\<close>, with \<open>env\<close> the budget and threads of the run.
\<close>

record ('f, 'e, 'w) ext_ops =
  base_coefficient :: "'e \<Rightarrow> nat \<Rightarrow> 'f"
  from_base_fn :: "(nat \<Rightarrow> 'f) \<Rightarrow> 'e"
  lift_base :: "'f \<Rightarrow> 'e"
  mul_base :: "'e \<Rightarrow> 'f \<Rightarrow> 'e"
  mul_base_unreduced :: "'e \<Rightarrow> 'f \<Rightarrow> 'w"

section \<open>Shared tensor algebra\<close>

definition tensor_opening_split :: "('f, 'e) field_codec \<Rightarrow> (nat \<times> nat) result" where
  "tensor_opening_split fc =
     (let width = ext_degree fc
      in if width = 0 \<or> \<not> is_power_of_two width
         then Err (InvalidInput (''extension-opening tensor reduction requires power-of-two extension degree, got '' @ show_nat width))
         else Ok (trailing_zeros width, width))"

definition tensor_row_partials_from_columns ::
  "('f, 'e) field_codec \<Rightarrow> ('f, 'e, 'w) ext_ops \<Rightarrow> 'e list \<Rightarrow> 'e list result" where
  "tensor_row_partials_from_columns fc X column_partials =
     try_r (tensor_opening_split fc) (\<lambda>(_, width).
       if length column_partials \<noteq> width then Err (InvalidSize width (length column_partials))
       else Ok (map (\<lambda>row. from_base_fn X (\<lambda>column. base_coefficient X (column_partials ! column) row)) [0..<width]))"

definition weighted_sum :: "'e::comm_ring_1 list \<Rightarrow> 'e list \<Rightarrow> 'e" where
  "weighted_sum weights partials = foldl (\<lambda>acc (weight, partial). acc + weight * partial) 0 (zip weights partials)"

definition derive_tensor_extension_opening_claim_from_partials ::
  "eq_env \<Rightarrow> ('f, 'e::comm_ring_1) field_codec \<Rightarrow> 'e list \<Rightarrow> 'e list \<Rightarrow> 'e result" where
  "derive_tensor_extension_opening_claim_from_partials env fc logical_point column_partials =
     try_r (tensor_opening_split fc) (\<lambda>(split_bits, width).
       if length logical_point < split_bits then Err (InvalidPointDimension split_bits (length logical_point))
       else if length column_partials \<noteq> width then Err (InvalidSize width (length column_partials))
       else try_r (eq_evals env (take split_bits logical_point)) (\<lambda>weights. Ok (weighted_sum weights column_partials)))"

definition tensor_reduction_claim_from_rows ::
  "eq_env \<Rightarrow> ('f, 'e::comm_ring_1) field_codec \<Rightarrow> 'e list \<Rightarrow> 'e list \<Rightarrow> 'e result" where
  "tensor_reduction_claim_from_rows env fc row_partials eta =
     try_r (tensor_opening_split fc) (\<lambda>(split_bits, width).
       if length eta \<noteq> split_bits then Err (InvalidSize split_bits (length eta))
       else if length row_partials \<noteq> width then Err (InvalidSize width (length row_partials))
       else try_r (eq_evals env eta) (\<lambda>weights. Ok (weighted_sum weights row_partials)))"

text \<open>
  The factor at a point.  One coordinate of the point maps the state, one value per basis element, by
  the transition of each nonzero source.
\<close>

definition basis_element :: "('f::comm_ring_1, 'e) field_codec \<Rightarrow> nat \<Rightarrow> nat \<Rightarrow> 'e" where
  "basis_element fc n idx = from_base_slice fc ((replicate n 0)[idx := 1])"

definition add_source ::
  "('f, 'e::comm_ring_1, 'w) ext_ops \<Rightarrow> 'e \<Rightarrow> 'e \<Rightarrow> 'f list \<Rightarrow> 'f list \<Rightarrow> 'e list \<Rightarrow> 'e list" where
  "add_source X rho_i src zero_coords one_coords next_state =
     map (\<lambda>dst. next_state ! dst + src * (mul_base X (1 - rho_i) (zero_coords ! dst) + mul_base X rho_i (one_coords ! dst)))
       [0..<length next_state]"

fun factor_sources ::
  "('f::comm_ring_1, 'e::comm_ring_1) field_codec \<Rightarrow> ('f, 'e, 'w) ext_ops \<Rightarrow> nat \<Rightarrow> 'e \<Rightarrow> 'e \<Rightarrow> (nat \<times> 'e) list \<Rightarrow> 'e list \<Rightarrow> 'e list result" where
  "factor_sources fc X n tail rho_i [] next_state = Ok next_state"
| "factor_sources fc X n tail rho_i ((src_idx, src) # sources) next_state =
     (if src = 0 then factor_sources fc X n tail rho_i sources next_state
      else let zero_coords = to_base_vec fc (basis_element fc n src_idx * (1 - tail));
               one_coords = to_base_vec fc (basis_element fc n src_idx * tail)
           in if length zero_coords \<noteq> n \<or> length one_coords \<noteq> n
              then Err (InvalidSize n (max (length zero_coords) (length one_coords)))
              else factor_sources fc X n tail rho_i sources (add_source X rho_i src zero_coords one_coords next_state))"

fun factor_coordinates ::
  "('f::comm_ring_1, 'e::comm_ring_1) field_codec \<Rightarrow> ('f, 'e, 'w) ext_ops \<Rightarrow> nat \<Rightarrow> ('e \<times> 'e) list \<Rightarrow> 'e list \<Rightarrow> 'e list result" where
  "factor_coordinates fc X n [] state = Ok state"
| "factor_coordinates fc X n ((tail, rho_i) # coordinates) state =
     try_r (factor_sources fc X n tail rho_i (zip [0..<length state] state) (replicate n 0))
       (factor_coordinates fc X n coordinates)"

definition tensor_equality_factor_eval_at_point ::
  "eq_env \<Rightarrow> ('f::comm_ring_1, 'e::comm_ring_1) field_codec \<Rightarrow> ('f, 'e, 'w) ext_ops \<Rightarrow> 'e list \<Rightarrow> 'e list \<Rightarrow> 'e list \<Rightarrow> 'e result" where
  "tensor_equality_factor_eval_at_point env fc X tail_point eta rho =
     (if length rho \<noteq> length tail_point then Err (InvalidPointDimension (length tail_point) (length rho))
      else try_r (tensor_opening_split fc) (\<lambda>(split_bits, _).
        if length eta \<noteq> split_bits then Err (InvalidSize split_bits (length eta))
        else try_r (eq_evals env eta) (\<lambda>eta_weights.
          let n = length eta_weights; one_coords = to_base_vec fc 1
          in if length one_coords \<noteq> n then Err (InvalidSize n (length one_coords))
             else try_r (factor_coordinates fc X n (zip tail_point rho) (map (lift_base X) one_coords)) (\<lambda>state.
                    Ok (weighted_sum state eta_weights)))))"

section \<open>The prover's tables\<close>

text \<open>The parallel branch collects the same chunks in order.\<close>

definition tensor_packed_witness_evals :: "('f, 'e) field_codec \<Rightarrow> nat \<Rightarrow> 'f list \<Rightarrow> 'e list result" where
  "tensor_packed_witness_evals fc original_num_vars base_evals =
     try_r (tensor_opening_split fc) (\<lambda>(split_bits, width).
       if split_bits > original_num_vars
       then Err (InvalidInput ''extension-opening tensor split exceeds polynomial arity'')
       else try_r (reduction_table_len original_num_vars) (\<lambda>expected_len.
         if length base_evals \<noteq> expected_len then Err (InvalidSize expected_len (length base_evals))
         else Ok (map (\<lambda>tail. from_base_slice fc (take width (drop (tail * width) base_evals))) [0..<expected_len div width])))"

text \<open>
  \<^verbatim>\<open>slots.iter_mut().zip(items)\<close> with an update: slots beyond the items are kept.  \<open>row tail width\<close> is
  the source of base-field rows; a flat source slices a table whose length the caller checked.
\<close>

fun update_slots :: "('a \<Rightarrow> 'b \<Rightarrow> 'a) \<Rightarrow> 'a list \<Rightarrow> 'b list \<Rightarrow> 'a list" where
  "update_slots f (a # as) (b # bs) = f a b # update_slots f as bs"
| "update_slots f as [] = as"
| "update_slots f [] bs = []"

definition flat_row :: "'f list \<Rightarrow> nat \<Rightarrow> nat \<Rightarrow> 'f list" where
  "flat_row evals tail width = take width (drop (tail * width) evals)"

definition partials_inner ::
  "('a \<Rightarrow> 'e \<Rightarrow> 'f \<Rightarrow> 'a) \<Rightarrow> 'a \<Rightarrow> 'e split_eq_evals \<Rightarrow> (nat \<Rightarrow> nat \<Rightarrow> 'f list) \<Rightarrow> nat \<Rightarrow> nat \<Rightarrow> 'a list" where
  "partials_inner add zero split row width row_base =
     fold (\<lambda>x_in inner. update_slots (\<lambda>slot. add slot (e_in split ! x_in)) inner (row (row_base + x_in) width))
       [0..<in_len split] (replicate width zero)"

definition partials_out_contribution ::
  "('e::comm_ring_1, 'w) unreduced_ops \<Rightarrow> ('f, 'e, 'w) ext_ops \<Rightarrow> 'e split_eq_evals \<Rightarrow> (nat \<Rightarrow> nat \<Rightarrow> 'f list) \<Rightarrow> nat \<Rightarrow> nat \<Rightarrow>
   'e list \<Rightarrow> 'e list" where
  "partials_out_contribution U X split row width x_out out =
     (let row_base = x_out * in_len split;
          inner = if sum_is_exact U
                  then map (reduce_product U)
                         (partials_inner (\<lambda>slot e c. wide_add U slot (mul_base_unreduced X e c)) (wide_zero U) split row width row_base)
                  else partials_inner (\<lambda>slot e c. slot + mul_base X e c) 0 split row width row_base
      in update_slots (\<lambda>slot v. slot + e_out split ! x_out * v) out inner)"

definition PARALLEL_PARTIALS_THRESHOLD :: nat where
  "PARALLEL_PARTIALS_THRESHOLD = 2 ^ 14"

definition tensor_column_partials_split_fold ::
  "('e::comm_ring_1, 'w) unreduced_ops \<Rightarrow> ('f, 'e, 'w) ext_ops \<Rightarrow> 'e split_eq_evals \<Rightarrow> nat \<Rightarrow> (nat \<Rightarrow> nat \<Rightarrow> 'f list) \<Rightarrow> 'e list" where
  "tensor_column_partials_split_fold U X split width row =
     (let step = partials_out_contribution U X split row width; zeros = replicate width 0
      in if par_feature U \<and> saturating_mul (out_len split) (in_len split) \<ge> PARALLEL_PARTIALS_THRESHOLD
         then join_fold step zeros (update_slots (+)) (par_tree U (out_len split)) 0
         else fold step [0..<out_len split] zeros)"

definition tensor_column_partials_from_base_evals ::
  "eq_env \<Rightarrow> ('f, 'e::comm_ring_1) field_codec \<Rightarrow> ('e, 'w) unreduced_ops \<Rightarrow> ('f, 'e, 'w) ext_ops \<Rightarrow> nat \<Rightarrow> 'f list \<Rightarrow> 'e list \<Rightarrow>
   'e list result" where
  "tensor_column_partials_from_base_evals env fc U X original_num_vars base_evals logical_point =
     try_r (tensor_opening_split fc) (\<lambda>(split_bits, width).
       if split_bits > original_num_vars
       then Err (InvalidInput ''extension-opening tensor split exceeds polynomial arity'')
       else if length logical_point \<noteq> original_num_vars
       then Err (InvalidPointDimension original_num_vars (length logical_point))
       else try_r (reduction_table_len original_num_vars) (\<lambda>expected_len.
         if length base_evals \<noteq> expected_len then Err (InvalidSize expected_len (length base_evals))
         else try_r (split_new env (drop split_bits logical_point)) (\<lambda>split.
                Ok (tensor_column_partials_split_fold U X split width (flat_row base_evals)))))"

definition project_tensor_factor_value_unchecked ::
  "('e::comm_ring_1, 'w) unreduced_ops \<Rightarrow> ('f, 'e, 'w) ext_ops \<Rightarrow> 'e list \<Rightarrow> 'e \<Rightarrow> 'e" where
  "project_tensor_factor_value_unchecked U X eta_weights v =
     (let coordinates = zip [0..<length eta_weights] eta_weights
      in if \<not> sum_is_exact U
         then foldl (\<lambda>acc (coordinate, weight). acc + mul_base X weight (base_coefficient X v coordinate)) 0 coordinates
         else reduce_product U
                (foldl (\<lambda>acc (coordinate, weight). wide_add U acc (mul_base_unreduced X weight (base_coefficient X v coordinate)))
                  (wide_zero U) coordinates))"

text \<open>The comparison of the degree with the tensor width, which is that degree, is kept.\<close>

definition tensor_equality_factor_evals ::
  "eq_env \<Rightarrow> ('f, 'e::comm_ring_1) field_codec \<Rightarrow> ('e, 'w) unreduced_ops \<Rightarrow> ('f, 'e, 'w) ext_ops \<Rightarrow> 'e list \<Rightarrow> 'e list \<Rightarrow> 'e list result" where
  "tensor_equality_factor_evals env fc U X tail_point eta =
     try_r (tensor_opening_split fc) (\<lambda>(split_bits, width).
       if length eta \<noteq> split_bits then Err (InvalidSize split_bits (length eta))
       else try_r (eq_evals env eta) (\<lambda>eta_weights.
         if ext_degree fc \<noteq> width then Err (InvalidSize width (ext_degree fc))
         else if length eta_weights \<noteq> width then Err (InvalidSize width (length eta_weights))
         else evals_mapped env tail_point (project_tensor_factor_value_unchecked U X eta_weights)))"

end
