(* ===== verification/Grinding_Plan.thy ===== *)
theory Grinding_Plan
  imports Proof_Channel
begin

text \<open>
  The public transcript-grinding plan of \<^verbatim>\<open>crates/akita-params/src/transcript_grinding.rs\<close>, its
  challenge order (\<^verbatim>\<open>transcript_grinding/challenge_order.rs\<close>) and the sinks that materialise or price
  it (\<^verbatim>\<open>transcript_grinding/sink.rs\<close>).

  The pricing arithmetic is Jolt's: \<open>jolt_pricing\<close> holds the challenge set sizes of type \<open>'z\<close> and
  \<^verbatim>\<open>grind_bits_for_loss\<close>.  Which queries a fold schedules is computed from the fold parameters
  elsewhere; here a fold's runs are an argument.
\<close>

section \<open>Constants\<close>

definition TRANSCRIPT_SECURITY_BITS :: u16 where
  "TRANSCRIPT_SECURITY_BITS = 128"

definition GRINDING_NONCE_SLACK_BITS :: u8 where
  "GRINDING_NONCE_SLACK_BITS = 7"

definition MAX_GRINDING_BITS :: u8 where
  "MAX_GRINDING_BITS = 57"

definition GRINDING_CHECK_BYTES :: u8 where
  "GRINDING_CHECK_BYTES = 8"

definition GRINDING_LITTLE_ENDIAN_BIT_ORDER :: u8 where
  "GRINDING_LITTLE_ENDIAN_BIT_ORDER = 0"

definition FOLD_RESPONSE_NONCE_BITS :: u8 where
  "FOLD_RESPONSE_NONCE_BITS = 12"

definition FOLD_RESPONSE_ATTEMPTS :: u32 where
  "FOLD_RESPONSE_ATTEMPTS = push_bit (unat FOLD_RESPONSE_NONCE_BITS) 1"

definition GRINDING_ENCODING_VERSION :: u16 where
  "GRINDING_ENCODING_VERSION = 5"

definition GRINDING_QUERY_POLICY_REVISION :: u16 where
  "GRINDING_QUERY_POLICY_REVISION = 5"

definition FOLD_COORDINATE_ORACLE_REVISION :: u16 where
  "FOLD_COORDINATE_ORACLE_REVISION = 2"

definition TRANSCRIPT_GRINDING_QUERY_LIMIT :: nat where
  "TRANSCRIPT_GRINDING_QUERY_LIMIT = u32_max"

definition GRINDING_PLAN_DOMAIN :: "u8 list" where
  "GRINDING_PLAN_DOMAIN = map of_char ''akita/grinding-plan/v1''"

definition active_grinding_policy_bytes :: "u8 list" where
  "active_grinding_policy_bytes =
     le_bytes 2 GRINDING_ENCODING_VERSION @ le_bytes 2 TRANSCRIPT_SECURITY_BITS @
     [GRINDING_NONCE_SLACK_BITS, MAX_GRINDING_BITS, GRINDING_CHECK_BYTES, GRINDING_LITTLE_ENDIAN_BIT_ORDER, FOLD_RESPONSE_NONCE_BITS] @
     le_bytes 4 FOLD_RESPONSE_ATTEMPTS @ le_bytes 2 GRINDING_QUERY_POLICY_REVISION @ le_bytes 2 FOLD_COORDINATE_ORACLE_REVISION"

section \<open>Sites\<close>

datatype grinding_query_kind = ProofOfWork | FoldResponseSearch | FoldGroupMessage | FoldWorkQuery

datatype sumcheck_protocol = ExtensionOpeningReduction | Stage1 | PhysicalL2 | Stage2 | Stage3 | SetupBatchSumcheck

fun sumcheck_tag :: "sumcheck_protocol \<Rightarrow> u32" where
  "sumcheck_tag ExtensionOpeningReduction = 0"
| "sumcheck_tag Stage1 = 1"
| "sumcheck_tag PhysicalL2 = 2"
| "sumcheck_tag Stage2 = 3"
| "sumcheck_tag Stage3 = 4"
| "sumcheck_tag SetupBatchSumcheck = 5"

definition sumcheck_from_tag :: "u32 \<Rightarrow> sumcheck_protocol option" where
  "sumcheck_from_tag tag =
     (if tag = 0 then Some ExtensionOpeningReduction else if tag = 1 then Some Stage1 else if tag = 2 then Some PhysicalL2
      else if tag = 3 then Some Stage2 else if tag = 4 then Some Stage3 else if tag = 5 then Some SetupBatchSumcheck else None)"

text \<open>The arguments are the level, then stage and round, or the group.\<close>

datatype grinding_site =
  EvaluationBatch u32
| ExtensionOpeningPoint u32
| ExtensionOpeningClaimBatch u32
| SumcheckRound sumcheck_protocol u32 u32 u32
| FoldResponse u32
| FoldChallengeGroup u32 u32
| FoldChallengeWork u32
| RingSwitchAlpha u32
| Tau0Point u32
| Tau1Point u32
| Stage1InterstageBatch u32 u32
| L2SubclaimBatch u32
| L2NormMerge u32
| L2VirtualBatch u32
| CompressionBinary u32
| Stage2Batch u32
| SetupBatch u32

definition family_site :: "u32 \<Rightarrow> u32 \<Rightarrow> u32 \<Rightarrow> protocol_site_id" where
  "family_site fam lv d = default_site\<lparr>detail := d, family := fam, level := lv\<rparr>"

fun site_id :: "u32 \<Rightarrow> grinding_site \<Rightarrow> protocol_site_id" where
  "site_id d (EvaluationBatch lv) = family_site 100 lv d"
| "site_id d (ExtensionOpeningPoint lv) = family_site 101 lv d"
| "site_id d (ExtensionOpeningClaimBatch lv) = family_site 102 lv d"
| "site_id d (SumcheckRound pr lv st rd) = (family_site 103 lv d)\<lparr>invocation := sumcheck_tag pr, stage := st, round := rd\<rparr>"
| "site_id d (FoldResponse lv) = family_site 104 lv d"
| "site_id d (FoldChallengeGroup lv gr) = (family_site 105 lv d)\<lparr>group := gr\<rparr>"
| "site_id d (RingSwitchAlpha lv) = family_site 106 lv d"
| "site_id d (Tau0Point lv) = family_site 107 lv d"
| "site_id d (Tau1Point lv) = family_site 108 lv d"
| "site_id d (Stage1InterstageBatch lv st) = (family_site 109 lv d)\<lparr>stage := st\<rparr>"
| "site_id d (L2SubclaimBatch lv) = family_site 110 lv d"
| "site_id d (L2NormMerge lv) = family_site 111 lv d"
| "site_id d (L2VirtualBatch lv) = family_site 112 lv d"
| "site_id d (CompressionBinary lv) = family_site 113 lv d"
| "site_id d (Stage2Batch lv) = family_site 114 lv d"
| "site_id d (FoldChallengeWork lv) = family_site 115 lv d"
| "site_id d (SetupBatch lv) = family_site 116 lv d"

fun site_kind :: "grinding_site \<Rightarrow> grinding_query_kind" where
  "site_kind (FoldResponse lv) = FoldResponseSearch"
| "site_kind (FoldChallengeGroup lv gr) = FoldGroupMessage"
| "site_kind (FoldChallengeWork lv) = FoldWorkQuery"
| "site_kind _ = ProofOfWork"

fun site_level :: "grinding_site \<Rightarrow> u32" where
  "site_level (EvaluationBatch lv) = lv"
| "site_level (ExtensionOpeningPoint lv) = lv"
| "site_level (ExtensionOpeningClaimBatch lv) = lv"
| "site_level (SumcheckRound pr lv st rd) = lv"
| "site_level (FoldResponse lv) = lv"
| "site_level (FoldChallengeGroup lv gr) = lv"
| "site_level (RingSwitchAlpha lv) = lv"
| "site_level (Tau0Point lv) = lv"
| "site_level (Tau1Point lv) = lv"
| "site_level (Stage1InterstageBatch lv st) = lv"
| "site_level (L2SubclaimBatch lv) = lv"
| "site_level (L2NormMerge lv) = lv"
| "site_level (L2VirtualBatch lv) = lv"
| "site_level (CompressionBinary lv) = lv"
| "site_level (Stage2Batch lv) = lv"
| "site_level (FoldChallengeWork lv) = lv"
| "site_level (SetupBatch lv) = lv"

text \<open>\<open>- 1\<close> is \<^verbatim>\<open>u32::MAX\<close>.\<close>

definition site_validate :: "grinding_site \<Rightarrow> unit result" where
  "site_validate site =
     (let invalid = (case site of
            SumcheckRound pr lv st rd \<Rightarrow> lv = - 1 \<or> st = - 1 \<or> rd = - 1
          | FoldChallengeGroup lv gr \<Rightarrow> lv = - 1 \<or> gr = - 1
          | Stage1InterstageBatch lv st \<Rightarrow> lv = - 1 \<or> st = - 1
          | _ \<Rightarrow> site_level site = - 1)
      in if invalid then Err (InvalidSetup ''grinding site uses a reserved u32 sentinel'') else Ok ())"

definition push_u32 :: "u32 \<Rightarrow> u8 list" where
  "push_u32 v = le_bytes 4 v"

fun site_canonical_bytes :: "grinding_site \<Rightarrow> u8 list" where
  "site_canonical_bytes (EvaluationBatch lv) = 0 # push_u32 lv"
| "site_canonical_bytes (ExtensionOpeningPoint lv) = 1 # push_u32 lv"
| "site_canonical_bytes (ExtensionOpeningClaimBatch lv) = 2 # push_u32 lv"
| "site_canonical_bytes (SumcheckRound pr lv st rd) = 3 # push_u32 (sumcheck_tag pr) @ push_u32 lv @ push_u32 st @ push_u32 rd"
| "site_canonical_bytes (FoldResponse lv) = 4 # push_u32 lv"
| "site_canonical_bytes (FoldChallengeGroup lv gr) = 5 # push_u32 lv @ push_u32 gr"
| "site_canonical_bytes (RingSwitchAlpha lv) = 6 # push_u32 lv"
| "site_canonical_bytes (Tau0Point lv) = 7 # push_u32 lv"
| "site_canonical_bytes (Tau1Point lv) = 8 # push_u32 lv"
| "site_canonical_bytes (Stage1InterstageBatch lv st) = 9 # push_u32 lv @ push_u32 st"
| "site_canonical_bytes (L2SubclaimBatch lv) = 10 # push_u32 lv"
| "site_canonical_bytes (L2NormMerge lv) = 11 # push_u32 lv"
| "site_canonical_bytes (L2VirtualBatch lv) = 12 # push_u32 lv"
| "site_canonical_bytes (CompressionBinary lv) = 13 # push_u32 lv"
| "site_canonical_bytes (Stage2Batch lv) = 14 # push_u32 lv"
| "site_canonical_bytes (FoldChallengeWork lv) = 15 # push_u32 lv"
| "site_canonical_bytes (SetupBatch lv) = 16 # push_u32 lv"

section \<open>Challenge orders\<close>

record 'z jolt_pricing =
  field_order :: "u128 \<Rightarrow> u32 \<Rightarrow> 'z option"
  power_of_two :: "u32 \<Rightarrow> 'z"
  grind_bits_for_loss :: "u64 \<Rightarrow> 'z \<Rightarrow> u32 \<Rightarrow> string + u32"

record 'z challenge_field_order =
  nominal_capacity_bits :: u32
  field_modulus :: u128
  extension_degree :: u32
  set_size :: 'z

definition from_field :: "'z jolt_pricing \<Rightarrow> u32 \<Rightarrow> nat \<Rightarrow> u128 \<Rightarrow> 'z challenge_field_order result" where
  "from_field J modulus_bits degree modulus =
     (if modulus \<le> 1 \<or> bit_length (unat modulus) \<noteq> unat modulus_bits
      then Err (InvalidSetup ''challenge modulus does not match its declared bit width'')
      else if degree > u32_max then Err (InvalidSetup ''challenge extension degree exceeds u32'')
      else if degree = 0 \<or> \<not> is_power_of_two degree
      then Err (InvalidSetup ''challenge extension degree must be a nonzero power of two'')
      else try_r (ok_or (checked_mul_max u32_max (unat modulus_bits) degree) (InvalidSetup ''challenge capacity overflow'')) (\<lambda>capacity.
           try_r (ok_or (field_order J modulus (of_nat degree)) (InvalidSetup ''challenge field order is invalid'')) (\<lambda>size.
             Ok \<lparr>nominal_capacity_bits = of_nat capacity, field_modulus = modulus, extension_degree = of_nat degree, set_size = size\<rparr>)))"

definition from_full_capacity :: "'z jolt_pricing \<Rightarrow> u32 \<Rightarrow> 'z challenge_field_order result" where
  "from_full_capacity J capacity_bits =
     (if capacity_bits = 0 then Err (InvalidSetup ''grinding nominal capacity must be nonzero'')
      else Ok \<lparr>nominal_capacity_bits = capacity_bits, field_modulus = 0, extension_degree = 0, set_size = power_of_two J capacity_bits\<rparr>)"

definition order_canonical_bytes :: "'z challenge_field_order \<Rightarrow> u8 list" where
  "order_canonical_bytes order =
     (if extension_degree order \<noteq> 0
      then 1 # push_u32 (nominal_capacity_bits order div extension_degree order) @ push_u32 (extension_degree order) @
           le_bytes 16 (field_modulus order)
      else 0 # push_u32 (nominal_capacity_bits order))"

definition order_grind_bits :: "'z jolt_pricing \<Rightarrow> 'z challenge_field_order \<Rightarrow> u64 \<Rightarrow> u8 result" where
  "order_grind_bits J order loss =
     try_r (map_err (\<lambda>e. InvalidSetup (''grinding target: '' @ e)) (grind_bits_for_loss J loss (set_size order) (ucast TRANSCRIPT_SECURITY_BITS)))
       (\<lambda>bits. if unat bits > u8_max
               then Err (InvalidSetup (''grinding target exceeds supported maximum '' @ show_nat (unat MAX_GRINDING_BITS)))
               else Ok (ucast bits))"

section \<open>Runs\<close>

record grinding_run =
  run_site :: grinding_site
  loss_factor :: u64
  grind_bits :: u8
  nonce_bits :: u8
  multiplicity :: u64
  challenge_set_bits :: u32

definition run_kind :: "grinding_run \<Rightarrow> grinding_query_kind" where
  "run_kind run = site_kind (run_site run)"

text \<open>\<^verbatim>\<open>u8::checked_add\<close>.\<close>

definition pow_nonce_bits :: "u8 \<Rightarrow> u8 result" where
  "pow_nonce_bits bits =
     (if bits = 0 then Ok 0
      else if unat bits + unat GRINDING_NONCE_SLACK_BITS \<le> u8_max then Ok (bits + GRINDING_NONCE_SLACK_BITS)
      else Err (InvalidSetup ''grinding nonce width overflow''))"

definition run_nonce_max_bytes :: "grinding_run \<Rightarrow> nat result" where
  "run_nonce_max_bytes run =
     ok_or (checked_mul (nonce_max_bytes (unat (nonce_bits run))) (unat (multiplicity run)))
       (InvalidSetup ''native grinding nonce byte count overflow'')"

definition proof_of_work_run :: "'z jolt_pricing \<Rightarrow> grinding_site \<Rightarrow> u64 \<Rightarrow> 'z challenge_field_order \<Rightarrow> grinding_run result" where
  "proof_of_work_run J site loss order =
     (if site_kind site \<noteq> ProofOfWork then Err (InvalidSetup ''special grinding sites cannot be proof-of-work runs'')
      else try_r (order_grind_bits J order loss) (\<lambda>bits.
           try_r (pow_nonce_bits bits) (\<lambda>width.
             Ok \<lparr>run_site = site, loss_factor = loss, grind_bits = bits, nonce_bits = width, multiplicity = 1, challenge_set_bits = 0\<rparr>)))"

definition fold_challenge_work_run :: "'z jolt_pricing \<Rightarrow> u32 \<Rightarrow> u64 \<Rightarrow> u32 \<Rightarrow> grinding_run result" where
  "fold_challenge_work_run J lv challenges set_bits =
     try_r (from_full_capacity J set_bits) (\<lambda>order.
     try_r (order_grind_bits J order challenges) (\<lambda>bits.
     try_r (pow_nonce_bits bits) (\<lambda>width.
       Ok \<lparr>run_site = FoldChallengeWork lv, loss_factor = challenges, grind_bits = bits, nonce_bits = width, multiplicity = 1,
           challenge_set_bits = set_bits\<rparr>)))"

definition fold_response_run :: "u32 \<Rightarrow> grinding_run" where
  "fold_response_run lv = \<lparr>run_site = FoldResponse lv, loss_factor = 0, grind_bits = 0, nonce_bits = FOLD_RESPONSE_NONCE_BITS,
     multiplicity = 1, challenge_set_bits = 0\<rparr>"

definition fold_challenge_group_run :: "u32 \<Rightarrow> u32 \<Rightarrow> u64 \<Rightarrow> grinding_run result" where
  "fold_challenge_group_run lv gr coordinate_count =
     (if unat coordinate_count + 1 > u64_max then Err (InvalidSetup ''fold challenge query count overflow'')
      else Ok \<lparr>run_site = FoldChallengeGroup lv gr, loss_factor = 0, grind_bits = 0, nonce_bits = 0,
               multiplicity = coordinate_count + 1, challenge_set_bits = 0\<rparr>)"

definition fold_coordinate_count :: "grinding_run \<Rightarrow> u64 option" where
  "fold_coordinate_count run =
     (if run_kind run = FoldGroupMessage then (if multiplicity run = 0 then None else Some (multiplicity run - 1)) else None)"

definition run_validate :: "'z jolt_pricing \<Rightarrow> grinding_run \<Rightarrow> unit result" where
  "run_validate J run =
     try_r (site_validate (run_site run)) (\<lambda>_.
       if (run_kind run = FoldWorkQuery) = (challenge_set_bits run = 0)
       then Err (InvalidSetup ''only a fold proof-of-work run carries a sparse challenge set'')
       else if run_kind run = ProofOfWork \<or> run_kind run = FoldWorkQuery
       then if loss_factor run = 0 \<or> multiplicity run \<noteq> 1
            then Err (InvalidSetup ''proof-of-work run has invalid loss or multiplicity'')
            else try_r (if grind_bits run > MAX_GRINDING_BITS then Ok True
                        else try_r (pow_nonce_bits (grind_bits run)) (\<lambda>width. Ok (nonce_bits run \<noteq> width))) (\<lambda>bad_width.
                 if bad_width then Err (InvalidSetup ''proof-of-work run has invalid target or nonce width'')
                 else if run_kind run = FoldWorkQuery
                 then try_r (from_full_capacity J (challenge_set_bits run)) (\<lambda>order.
                      try_r (order_grind_bits J order (loss_factor run)) (\<lambda>bits.
                        if grind_bits run \<noteq> bits
                        then Err (InvalidSetup ''fold proof-of-work target does not match its challenge set'')
                        else Ok ()))
                 else Ok ())
       else if run_kind run = FoldResponseSearch \<and> loss_factor run = 0 \<and> grind_bits run = 0
               \<and> nonce_bits run = FOLD_RESPONSE_NONCE_BITS \<and> multiplicity run = 1
       then Ok ()
       else if run_kind run = FoldGroupMessage \<and> loss_factor run = 0 \<and> grind_bits run = 0
               \<and> nonce_bits run = 0 \<and> multiplicity run > 1
       then Ok ()
       else Err (InvalidSetup ''grinding run kind and site do not match''))"

definition run_canonical_bytes :: "grinding_run \<Rightarrow> u8 list" where
  "run_canonical_bytes run =
     site_canonical_bytes (run_site run) @ le_bytes 8 (loss_factor run) @ [grind_bits run, nonce_bits run] @
     le_bytes 8 (multiplicity run) @ (if run_kind run = FoldWorkQuery then push_u32 (challenge_set_bits run) else [])"

section \<open>Accumulated cost\<close>

record 'z plan_accumulator =
  acc_challenge_order :: "'z challenge_field_order"
  run_count :: nat
  acc_nonce_bits :: nat
  acc_nonce_max_bytes :: nat
  acc_query_count :: nat

definition accumulator_new :: "'z challenge_field_order \<Rightarrow> 'z plan_accumulator" where
  "accumulator_new order =
     \<lparr>acc_challenge_order = order, run_count = 0, acc_nonce_bits = 0, acc_nonce_max_bytes = 0, acc_query_count = 0\<rparr>"

definition add_counts :: "nat \<Rightarrow> nat \<Rightarrow> nat \<Rightarrow> nat \<Rightarrow> 'z plan_accumulator \<Rightarrow> 'z plan_accumulator result" where
  "add_counts run_total bits bytes queries a =
     try_r (ok_or (checked_add_max u32_max (run_count a) run_total) (InvalidSetup ''grinding plan run count exceeds u32'')) (\<lambda>rc.
     try_r (ok_or (checked_add (acc_nonce_bits a) bits) (InvalidSetup ''grinding plan bit count overflow'')) (\<lambda>nb.
     try_r (ok_or (checked_add (acc_nonce_max_bytes a) bytes) (InvalidSetup ''native grinding nonce byte count overflow'')) (\<lambda>mb.
     try_r (ok_or (checked_add_max u64_max (acc_query_count a) queries) (InvalidSetup ''grinding query count overflow'')) (\<lambda>qc.
       Ok (a\<lparr>run_count := rc, acc_nonce_bits := nb, acc_nonce_max_bytes := mb, acc_query_count := qc\<rparr>)))))"

definition count_repeated :: "'z jolt_pricing \<Rightarrow> grinding_run \<Rightarrow> nat \<Rightarrow> 'z plan_accumulator \<Rightarrow> 'z plan_accumulator result" where
  "count_repeated J run repetitions a =
     try_r (run_validate J run) (\<lambda>_.
     try_r (if unat (multiplicity run) > usize_max then Err (InvalidSetup ''grinding run multiplicity exceeds usize'')
            else Ok (unat (multiplicity run))) (\<lambda>mult.
     try_r (ok_or (checked_mul (unat (nonce_bits run)) mult) (InvalidSetup ''grinding run bit count overflow'')) (\<lambda>run_bits.
     try_r (ok_or (checked_mul run_bits repetitions) (InvalidSetup ''grinding run bit count overflow'')) (\<lambda>repeated_bits.
     try_r (ok_or (checked_mul_max u64_max (unat (multiplicity run)) repetitions) (InvalidSetup ''grinding query count overflow'')) (\<lambda>repeated_queries.
     try_r (run_nonce_max_bytes run) (\<lambda>run_bytes.
     try_r (ok_or (checked_mul run_bytes repetitions) (InvalidSetup ''native grinding nonce byte count overflow'')) (\<lambda>repeated_bytes.
       add_counts repetitions repeated_bits repeated_bytes repeated_queries a)))))))"

definition push_repeated :: "'z jolt_pricing \<Rightarrow> grinding_run \<Rightarrow> nat \<Rightarrow> 'z plan_accumulator \<Rightarrow> 'z plan_accumulator result" where
  "push_repeated J run repetitions a =
     try_r (if run_kind run = ProofOfWork
            then try_r (order_grind_bits J (acc_challenge_order a) (loss_factor run)) (\<lambda>bits. Ok (grind_bits run \<noteq> bits))
            else Ok False) (\<lambda>mispriced.
       if mispriced then Err (InvalidSetup ''proof-of-work run target does not match its loss and challenge order'')
       else count_repeated J run repetitions a)"

definition add_accumulator :: "'z plan_accumulator \<Rightarrow> 'z plan_accumulator \<Rightarrow> 'z plan_accumulator result" where
  "add_accumulator other a =
     add_counts (run_count other) (acc_nonce_bits other) (acc_nonce_max_bytes other) (acc_query_count other) a"

record transcript_grinding_cost =
  cost_nonce_bits :: nat
  cost_nonce_max_bytes :: nat
  cost_query_count :: nat

definition accumulator_cost :: "'z plan_accumulator \<Rightarrow> transcript_grinding_cost" where
  "accumulator_cost a = \<lparr>cost_nonce_bits = acc_nonce_bits a, cost_nonce_max_bytes = acc_nonce_max_bytes a, cost_query_count = acc_query_count a\<rparr>"

fun push_all :: "'z jolt_pricing \<Rightarrow> grinding_run list \<Rightarrow> 'z plan_accumulator \<Rightarrow> 'z plan_accumulator result" where
  "push_all J [] a = Ok a"
| "push_all J (run # runs) a = try_r (push_repeated J run 1 a) (push_all J runs)"

record 'z fold_challenge_cost =
  fold_counts :: "'z plan_accumulator"
  fold_set_bits :: u32

definition cost_from_runs :: "'z jolt_pricing \<Rightarrow> grinding_run \<Rightarrow> grinding_run list \<Rightarrow> 'z fold_challenge_cost result" where
  "cost_from_runs J work groups =
     try_r (from_full_capacity J (challenge_set_bits work)) (\<lambda>order.
     try_r (push_all J (work # groups) (accumulator_new order)) (\<lambda>counts.
       Ok \<lparr>fold_counts = counts, fold_set_bits = challenge_set_bits work\<rparr>))"

section \<open>Plans\<close>

record 'z grinding_plan =
  plan_runs :: "grinding_run list"
  plan_challenge_order :: "'z challenge_field_order"
  total_nonce_bits :: nat
  plan_nonce_max_bytes :: nat
  expanded_query_count :: nat

definition grinding_plan_new :: "'z jolt_pricing \<Rightarrow> grinding_run list \<Rightarrow> 'z challenge_field_order \<Rightarrow> 'z grinding_plan result" where
  "grinding_plan_new J runs order =
     try_r (push_all J runs (accumulator_new order)) (\<lambda>a.
       let cost = accumulator_cost a
       in if cost_query_count cost \<ge> TRANSCRIPT_GRINDING_QUERY_LIMIT
          then Err (InvalidSetup ''grinding plan query count must be less than u32::MAX'')
          else Ok \<lparr>plan_runs = runs, plan_challenge_order = order, total_nonce_bits = cost_nonce_bits cost,
                   plan_nonce_max_bytes = cost_nonce_max_bytes cost, expanded_query_count = cost_query_count cost\<rparr>)"

definition plan_canonical_bytes :: "'z grinding_plan \<Rightarrow> u8 list result" where
  "plan_canonical_bytes plan =
     (if length (plan_runs plan) > u32_max then Err (InvalidSetup ''grinding plan run count exceeds u32'')
      else Ok (GRINDING_PLAN_DOMAIN @ active_grinding_policy_bytes @ order_canonical_bytes (plan_challenge_order plan) @
               push_u32 (of_nat (length (plan_runs plan))) @ concat (map run_canonical_bytes (plan_runs plan))))"

section \<open>Loss factors\<close>

definition polynomial_identity_loss_factor :: "nat \<Rightarrow> u64 result" where
  "polynomial_identity_loss_factor degree =
     (let n = max degree 1 in if n > u64_max then Err (InvalidSetup ''polynomial degree exceeds u64'') else Ok (of_nat n))"

definition multilinear_point_loss_factor :: "nat \<Rightarrow> u64 result" where
  "multilinear_point_loss_factor coordinates =
     (let n = max coordinates 1 in if n > u64_max then Err (InvalidSetup ''multilinear point width exceeds u64'') else Ok (of_nat n))"

definition powers_batch_loss_factor :: "nat \<Rightarrow> u64 result" where
  "powers_batch_loss_factor count =
     (let n = max (count - 1) 1 in if n > u64_max then Err (InvalidSetup ''powers batch length exceeds u64'') else Ok (of_nat n))"

definition independent_batch_loss_factor :: "nat \<Rightarrow> u64 result" where
  "independent_batch_loss_factor count =
     (let n = max count 1 in if n > u64_max then Err (InvalidSetup ''independent batch length exceeds u64'') else Ok (of_nat n))"

text \<open>Both opening methods have the same degree bound.\<close>

definition ring_switch_alpha_loss_factor :: "nat \<Rightarrow> u64 result" where
  "ring_switch_alpha_loss_factor inner_ring_dimension =
     try_r (ok_or (Option.bind (checked_mul inner_ring_dimension 2) (\<lambda>n. checked_sub n 1))
              (InvalidSetup ''ring-switch alpha degree overflow''))
       polynomial_identity_loss_factor"

section \<open>Sinks\<close>

record 'z sumcheck_round_batch =
  batch_order :: "'z challenge_field_order"
  batch_protocol :: sumcheck_protocol
  batch_level :: u32
  batch_stage :: u32
  batch_rounds :: nat
  batch_degree :: nat

definition batch_site :: "'z sumcheck_round_batch \<Rightarrow> nat \<Rightarrow> grinding_site" where
  "batch_site b rnd = SumcheckRound (batch_protocol b) (batch_level b) (batch_stage b) (of_nat rnd)"

definition representative :: "'z jolt_pricing \<Rightarrow> 'z sumcheck_round_batch \<Rightarrow> grinding_run option result" where
  "representative J b =
     (case checked_sub (batch_rounds b) 1 of
        None \<Rightarrow> Ok None
      | Some last_round \<Rightarrow>
          try_r (usize_to_u32 last_round ''sumcheck grinding round'') (\<lambda>rnd.
          try_r (polynomial_identity_loss_factor (batch_degree b)) (\<lambda>loss.
          try_r (proof_of_work_run J (batch_site b rnd) loss (batch_order b)) (\<lambda>run. Ok (Some run)))))"

definition repeated :: "'z jolt_pricing \<Rightarrow> 'z sumcheck_round_batch \<Rightarrow> (grinding_run \<times> nat) option result" where
  "repeated J b =
     try_r (representative J b) (\<lambda>r. case r of
        None \<Rightarrow> Ok None
      | Some run \<Rightarrow> if batch_rounds b > u32_max then Err (InvalidSetup ''grinding plan run count exceeds u32'')
                    else Ok (Some (run, batch_rounds b)))"

definition run_at :: "'z sumcheck_round_batch \<Rightarrow> grinding_run \<Rightarrow> nat \<Rightarrow> grinding_run result" where
  "run_at b run rnd = try_r (usize_to_u32 rnd ''sumcheck grinding round'') (\<lambda>n. Ok (run\<lparr>run_site := batch_site b n\<rparr>))"

text \<open>
  The trait \<^verbatim>\<open>GrindingPlanSink\<close>: \<open>push\<close> is the operation of the sink, \<open>sumcheck_rounds\<close> the default
  expansion, \<open>accumulator_sumcheck_rounds\<close> the one of the accumulator and \<open>edge_sumcheck_rounds\<close> the one
  of planner pricing.
\<close>

fun push_rounds :: "(grinding_run \<Rightarrow> 's \<Rightarrow> 's result) \<Rightarrow> 'z sumcheck_round_batch \<Rightarrow> grinding_run \<Rightarrow> nat list \<Rightarrow> 's \<Rightarrow> 's result" where
  "push_rounds push b run [] s = Ok s"
| "push_rounds push b run (rnd # rnds) s =
     try_r (run_at b run rnd) (\<lambda>r. try_r (push r s) (push_rounds push b run rnds))"

definition sumcheck_rounds ::
  "'z jolt_pricing \<Rightarrow> (grinding_run \<Rightarrow> 's \<Rightarrow> 's result) \<Rightarrow> 'z sumcheck_round_batch \<Rightarrow> 's \<Rightarrow> 's result" where
  "sumcheck_rounds J push b s =
     try_r (representative J b) (\<lambda>r. case r of
        None \<Rightarrow> Ok s
      | Some run \<Rightarrow> push_rounds push b run [0..<batch_rounds b] s)"

fun push_each :: "(grinding_run \<Rightarrow> 's \<Rightarrow> 's result) \<Rightarrow> grinding_run list \<Rightarrow> 's \<Rightarrow> 's result" where
  "push_each push [] s = Ok s"
| "push_each push (run # runs) s = try_r (push run s) (push_each push runs)"

definition fold_queries :: "(grinding_run \<Rightarrow> 's \<Rightarrow> 's result) \<Rightarrow> (grinding_run \<times> grinding_run list) result \<Rightarrow> 's \<Rightarrow> 's result" where
  "fold_queries push fold_runs s = try_r fold_runs (\<lambda>(work, groups). push_each push (work # groups) s)"

definition terminal_fold_queries :: "(grinding_run \<Rightarrow> 's \<Rightarrow> 's result) \<Rightarrow> (grinding_run \<times> grinding_run) result \<Rightarrow> 's \<Rightarrow> 's result" where
  "terminal_fold_queries push terminal_runs s = try_r terminal_runs (\<lambda>(work, gr). try_r (push work s) (push gr))"

definition accumulator_sumcheck_rounds ::
  "'z jolt_pricing \<Rightarrow> 'z sumcheck_round_batch \<Rightarrow> 'z plan_accumulator \<Rightarrow> 'z plan_accumulator result" where
  "accumulator_sumcheck_rounds J b a =
     try_r (repeated J b) (\<lambda>r. case r of None \<Rightarrow> Ok a | Some (run, repetitions) \<Rightarrow> push_repeated J run repetitions a)"

record 'z planner_edge_sink =
  edge_accumulator :: "'z plan_accumulator"
  edge_fold :: "'z fold_challenge_cost"
  edge_terminal_fold :: "'z fold_challenge_cost option"

definition edge_push :: "'z jolt_pricing \<Rightarrow> grinding_run \<Rightarrow> 'z planner_edge_sink \<Rightarrow> 'z planner_edge_sink result" where
  "edge_push J run e = try_r (count_repeated J run 1 (edge_accumulator e)) (\<lambda>a. Ok (e\<lparr>edge_accumulator := a\<rparr>))"

definition edge_sumcheck_rounds :: "'z jolt_pricing \<Rightarrow> 'z sumcheck_round_batch \<Rightarrow> 'z planner_edge_sink \<Rightarrow> 'z planner_edge_sink result" where
  "edge_sumcheck_rounds J b e =
     try_r (repeated J b) (\<lambda>r. case r of
        None \<Rightarrow> Ok e
      | Some (run, repetitions) \<Rightarrow> try_r (count_repeated J run repetitions (edge_accumulator e)) (\<lambda>a. Ok (e\<lparr>edge_accumulator := a\<rparr>)))"

definition edge_fold_queries :: "'z planner_edge_sink \<Rightarrow> 'z planner_edge_sink result" where
  "edge_fold_queries e =
     try_r (add_accumulator (fold_counts (edge_fold e)) (edge_accumulator e)) (\<lambda>a. Ok (e\<lparr>edge_accumulator := a\<rparr>))"

definition edge_terminal_fold_queries :: "'z planner_edge_sink \<Rightarrow> 'z planner_edge_sink result" where
  "edge_terminal_fold_queries e =
     try_r (ok_or (edge_terminal_fold e) (InvalidSetup ''terminal planner edge is missing its fold cost'')) (\<lambda>t.
     try_r (add_accumulator (fold_counts t) (edge_accumulator e)) (\<lambda>a. Ok (e\<lparr>edge_accumulator := a\<rparr>)))"

end
