(* ===== verification/Grinding_Replay.thy ===== *)
theory Grinding_Replay
  imports Grinding_Plan Sumcheck
begin

text \<open>
  Replay of the grinding plan by the prover and the verifier
  (\<^verbatim>\<open>crates/akita-types/src/transcript_grinding/replay.rs\<close>): the cursor over the plan, the two
  sides of every scheduled query, and the sumcheck channels of the protocol, which draw each round
  challenge behind its scheduled proof of work.

  The borrowed channel state is a field of each side.  The context records are diagnostics: the
  channel ignores them unless transcript logging is compiled in.  A verifier value stays in use
  after a failed call, so every operation returns the state it leaves.
\<close>

section \<open>The cursor\<close>

record plan_entry =
  entry_site :: grinding_site
  entry_grind_bits :: u8
  entry_nonce_bits :: u8

record plan_cursor =
  cursor_runs :: "grinding_run list"
  run_index :: nat
  run_offset :: nat

definition cursor_new :: "'z grinding_plan \<Rightarrow> plan_cursor" where
  "cursor_new plan = \<lparr>cursor_runs = plan_runs plan, run_index = 0, run_offset = 0\<rparr>"

definition run_lookup :: "'a list \<Rightarrow> nat \<Rightarrow> 'a option" where
  "run_lookup xs i = (if i < length xs then Some (xs ! i) else None)"

definition run_entry :: "grinding_run \<Rightarrow> plan_entry" where
  "run_entry run = \<lparr>entry_site = run_site run, entry_grind_bits = grind_bits run, entry_nonce_bits = nonce_bits run\<rparr>"

definition cursor_next :: "plan_cursor \<Rightarrow> plan_entry option \<times> plan_cursor" where
  "cursor_next c =
     (case run_lookup (cursor_runs c) (run_index c) of
        None \<Rightarrow> (None, c)
      | Some run \<Rightarrow>
          let offset = run_offset c + 1
          in (Some (run_entry run),
              if offset = unat (multiplicity run) then c\<lparr>run_index := run_index c + 1, run_offset := 0\<rparr>
              else c\<lparr>run_offset := offset\<rparr>))"

definition cursor_peek :: "plan_cursor \<Rightarrow> plan_entry option" where
  "cursor_peek c = map_option run_entry (run_lookup (cursor_runs c) (run_index c))"

definition peek_following :: "plan_cursor \<Rightarrow> plan_entry option" where
  "peek_following c =
     Option.bind (run_lookup (cursor_runs c) (run_index c)) (\<lambda>current.
       if run_offset c \<noteq> 0 \<or> multiplicity current \<noteq> 1 then None
       else Option.bind (checked_add (run_index c) 1) (\<lambda>i. map_option run_entry (run_lookup (cursor_runs c) i)))"

definition consume_run :: "grinding_site \<Rightarrow> nat \<Rightarrow> plan_cursor \<Rightarrow> plan_cursor result" where
  "consume_run site count c =
     try_r (ok_or (run_lookup (cursor_runs c) (run_index c)) (InvalidInput ''fold-challenge replay has no remaining plan run'')) (\<lambda>run.
       if run_offset c \<noteq> 0 \<or> run_site run \<noteq> site \<or> grind_bits run \<noteq> 0 \<or> nonce_bits run \<noteq> 0 \<or> unat (multiplicity run) \<noteq> count
       then Err (InvalidInput ''fold-challenge replay request differs from the next plan run'')
       else try_r (ok_or (checked_add (run_index c) 1) (Internal ''fold-challenge replay run index overflows usize'')) (\<lambda>i.
              Ok (c\<lparr>run_index := i\<rparr>)))"

definition is_finished :: "plan_cursor \<Rightarrow> bool" where
  "is_finished c \<longleftrightarrow> run_index c = length (cursor_runs c) \<and> run_offset c = 0"

definition value_fits :: "u32 \<Rightarrow> u8 \<Rightarrow> bool" where
  "value_fits v width = (if unat width \<le> 31 then v < push_bit (unat width) 1 else unat width = 32)"

definition next_entry :: "grinding_site \<Rightarrow> grinding_query_kind \<Rightarrow> plan_cursor \<Rightarrow> (plan_entry, plan_cursor) outcome" where
  "next_entry site kind c =
     (case cursor_next c of (found, c') \<Rightarrow>
        (try_r (ok_or found (InvalidInput ''grinding query replay has no remaining plan entry'')) (\<lambda>entry.
           if entry_site entry \<noteq> site \<or> site_kind site \<noteq> kind
           then Err (InvalidInput ''grinding query replay site or kind differs from the next plan entry'')
           else Ok entry), c'))"

definition pow_bits :: "plan_entry \<Rightarrow> nat option" where
  "pow_bits entry =
     Option.bind (if entry_grind_bits entry = 0 then Some 0
                  else if unat (entry_grind_bits entry) + unat GRINDING_NONCE_SLACK_BITS \<le> u8_max
                  then Some (entry_grind_bits entry + GRINDING_NONCE_SLACK_BITS) else None) (\<lambda>width.
       if entry_nonce_bits entry = width then Some (unat (entry_grind_bits entry)) else None)"

section \<open>The prover\<close>

record 'p prover_grinding =
  pg_state :: 'p
  pg_cursor :: plan_cursor
  serialized_nonce_bytes :: nat
  pg_invalid :: bool

definition prover_grinding_new :: "'p \<Rightarrow> 'z grinding_plan \<Rightarrow> 'p prover_grinding" where
  "prover_grinding_new state plan =
     \<lparr>pg_state = state, pg_cursor = cursor_new plan, serialized_nonce_bytes = 0, pg_invalid = False\<rparr>"

definition prover_poison :: "'p prover_grinding \<Rightarrow> 'p prover_grinding" where
  "prover_poison g = g\<lparr>pg_invalid := True\<rparr>"

definition prover_next :: "grinding_site \<Rightarrow> grinding_query_kind \<Rightarrow> 'p prover_grinding \<Rightarrow> (plan_entry, 'p prover_grinding) outcome" where
  "prover_next site kind g = (case next_entry site kind (pg_cursor g) of (r, c) \<Rightarrow> (r, g\<lparr>pg_cursor := c\<rparr>))"

definition on_prover :: "('p \<Rightarrow> ('a, 'p) outcome) \<Rightarrow> 'p prover_grinding \<Rightarrow> ('a, 'p prover_grinding) outcome" where
  "on_prover f g = (case f (pg_state g) of (r, p) \<Rightarrow> (r, g\<lparr>pg_state := p\<rparr>))"

definition count_nonce :: "nat \<Rightarrow> string \<Rightarrow> 'p prover_grinding \<Rightarrow> (unit, 'p prover_grinding) outcome" where
  "count_nonce bytes message g =
     (case checked_add (serialized_nonce_bytes g) bytes of
        None \<Rightarrow> (Err (Internal message), g)
      | Some n \<Rightarrow> (Ok (), g\<lparr>serialized_nonce_bytes := n\<rparr>))"

definition proof_of_work ::
  "('p, 'v, 'r, 's, 'f, 'e) transcript \<Rightarrow> grinding_site \<Rightarrow> grinding_query_kind \<Rightarrow> (nat \<Rightarrow> 'p \<Rightarrow> (unit, 'p) outcome) \<Rightarrow>
   'p prover_grinding \<Rightarrow> (unit, 'p prover_grinding) outcome" where
  "proof_of_work tr site kind work g =
     st_bind (prover_next site kind g) (\<lambda>entry g.
     st_bind (ok_or (pow_bits entry) (Internal ''grinding entry nonce width differs from grind_bits + 7''), g) (\<lambda>bits g.
       if bits = 0 then (Ok (), g)
       else let start = length (p_narg_string tr (pg_state g))
            in st_bind (on_prover (work bits) g) (\<lambda>_ g.
                 count_nonce (length (p_narg_string tr (pg_state g)) - start) ''proof-of-work serialized nonce byte count overflow'' g)))"

definition prover_grind_inner ::
  "('p, 'v, 'r, 's, 'f, 'e) transcript \<Rightarrow> grinding_site \<Rightarrow> grinding_query_kind \<Rightarrow> 'p prover_grinding \<Rightarrow> (unit, 'p prover_grinding) outcome" where
  "prover_grind_inner tr site kind =
     proof_of_work tr site kind (\<lambda>bits p. case p_grind tr bits p of (found, p') \<Rightarrow>
       (if found then Ok () else Err (Internal ''transcript proof of work failed to find a nonce''), p'))"

text \<open>A failed call poisons the replay.\<close>

definition poisoning :: "('g \<Rightarrow> 'g) \<Rightarrow> ('a, 'g) outcome \<Rightarrow> ('a, 'g) outcome" where
  "poisoning poison out = (case out of (r, g) \<Rightarrow> (r, if is_ok r then g else poison g))"

definition prover_grind_query ::
  "('p, 'v, 'r, 's, 'f, 'e) transcript \<Rightarrow> grinding_site \<Rightarrow> 'p prover_grinding \<Rightarrow> (unit, 'p prover_grinding) outcome" where
  "prover_grind_query tr site g = poisoning prover_poison (prover_grind_inner tr site ProofOfWork g)"

definition commit_fold_response_inner ::
  "('p, 'v, 'r, 's, 'f, 'e) transcript \<Rightarrow> grinding_site \<Rightarrow> 's fold_work \<Rightarrow> 'p prover_grinding \<Rightarrow> (unit, 'p prover_grinding) outcome" where
  "commit_fold_response_inner tr site work g =
     (let counter = work_nonce work
      in st_bind (prover_next site FoldResponseSearch g) (\<lambda>entry g.
           if \<not> value_fits counter (entry_nonce_bits entry)
           then (Err (InvalidInput ''fold-response nonce exceeds its scheduled bit width''), g)
           else st_bind (on_prover (\<lambda>p. (Ok (), send_nonce tr counter p)) g) (\<lambda>_ g.
                st_bind (count_nonce (nonce_encoded_len counter) ''fold-response serialized nonce byte count overflow'' g) (\<lambda>_ g.
                  proof_of_work tr (FoldChallengeWork (site_level site)) FoldWorkQuery (\<lambda>_. fold_work_commit tr work) g))))"

definition commit_fold_response ::
  "('p, 'v, 'r, 's, 'f, 'e) transcript \<Rightarrow> grinding_site \<Rightarrow> 's fold_work \<Rightarrow> 'p prover_grinding \<Rightarrow> (unit, 'p prover_grinding) outcome" where
  "commit_fold_response tr site work g = poisoning prover_poison (commit_fold_response_inner tr site work g)"

definition preview_fold_response ::
  "('p, 'v, 'r, 's, 'f, 'e) transcript \<Rightarrow> grinding_site \<Rightarrow> u32 \<Rightarrow> 'p prover_grinding \<Rightarrow> ('p, 's) fold_preview result" where
  "preview_fold_response tr site counter g =
     try_r (ok_or (cursor_peek (pg_cursor g)) (InvalidInput ''fold-response preview has no remaining grinding plan entry'')) (\<lambda>entry.
       if entry_site entry \<noteq> site then Err (InvalidInput ''fold-response preview site differs from grinding plan'')
       else if site_kind site \<noteq> FoldResponseSearch then Err (InvalidInput ''fold-response preview query kind is not FoldResponse'')
       else if \<not> value_fits counter (entry_nonce_bits entry)
       then Err (InvalidInput ''fold-response preview nonce exceeds scheduled bit width'')
       else try_r (ok_or (Option.bind (peek_following (pg_cursor g)) (\<lambda>w. if entry_site w = FoldChallengeWork (site_level site) then Some w else None))
                     (InvalidInput ''fold-response preview is not followed by the fold proof of work'')) (\<lambda>work.
            try_r (ok_or (pow_bits work) (Internal ''grinding entry nonce width differs from grind_bits + 7'')) (\<lambda>bits.
              case preview_grind tr bits (preview_new tr (pg_state g) counter) of (r, preview) \<Rightarrow> try_r r (\<lambda>_. Ok preview))))"

definition prover_record_fold_challenges :: "u32 \<Rightarrow> u32 \<Rightarrow> nat \<Rightarrow> 'p prover_grinding \<Rightarrow> (unit, 'p prover_grinding) outcome" where
  "prover_record_fold_challenges lv gr coordinate_count g =
     (case try_r (ok_or (checked_add coordinate_count 1) (InvalidInput ''fold-challenge coordinate count overflow''))
             (\<lambda>count. consume_run (FoldChallengeGroup lv gr) count (pg_cursor g)) of
        Inl e \<Rightarrow> (Err e, prover_poison g)
      | Inr c \<Rightarrow> (Ok (), g\<lparr>pg_cursor := c\<rparr>))"

definition prover_finish :: "'p prover_grinding \<Rightarrow> unit result" where
  "prover_finish g =
     (if pg_invalid g then Err (InvalidInput ''an earlier grinding step failed'')
      else if \<not> is_finished (pg_cursor g) then Err (InvalidInput ''the grinding plan has unconsumed entries'')
      else Ok ())"

section \<open>The verifier\<close>

record 'v verifier_grinding =
  vg_state :: 'v
  vg_cursor :: plan_cursor
  vg_invalid :: bool

definition verifier_grinding_new :: "'v \<Rightarrow> 'z grinding_plan \<Rightarrow> 'v verifier_grinding" where
  "verifier_grinding_new state plan = \<lparr>vg_state = state, vg_cursor = cursor_new plan, vg_invalid = False\<rparr>"

definition verifier_poison :: "('p, 'v, 'r, 's, 'f, 'e) transcript \<Rightarrow> 'v verifier_grinding \<Rightarrow> 'v verifier_grinding" where
  "verifier_poison tr g = g\<lparr>vg_invalid := True, vg_state := reject tr (vg_state g)\<rparr>"

definition verifier_next :: "grinding_site \<Rightarrow> grinding_query_kind \<Rightarrow> 'v verifier_grinding \<Rightarrow> (plan_entry, 'v verifier_grinding) outcome" where
  "verifier_next site kind g = (case next_entry site kind (vg_cursor g) of (r, c) \<Rightarrow> (r, g\<lparr>vg_cursor := c\<rparr>))"

definition on_verifier :: "('v \<Rightarrow> ('a, 'v) outcome) \<Rightarrow> 'v verifier_grinding \<Rightarrow> ('a, 'v verifier_grinding) outcome" where
  "on_verifier f g = (case f (vg_state g) of (r, v) \<Rightarrow> (r, g\<lparr>vg_state := v\<rparr>))"

definition verifier_grind_inner ::
  "('p, 'v, 'r, 's, 'f, 'e) transcript \<Rightarrow> grinding_site \<Rightarrow> grinding_query_kind \<Rightarrow> 'v verifier_grinding \<Rightarrow> (unit, 'v verifier_grinding) outcome" where
  "verifier_grind_inner tr site kind g =
     st_bind (verifier_next site kind g) (\<lambda>entry g.
     st_bind (ok_or (pow_bits entry) InvalidProof, g) (\<lambda>bits g.
       if bits = 0 then (Ok (), g)
       else on_verifier (\<lambda>v. case v_check_grind tr bits v of (passed, v') \<Rightarrow> (if passed then Ok () else Err InvalidProof, v')) g))"

definition verifier_grind_query ::
  "('p, 'v, 'r, 's, 'f, 'e) transcript \<Rightarrow> grinding_site \<Rightarrow> 'v verifier_grinding \<Rightarrow> (unit, 'v verifier_grinding) outcome" where
  "verifier_grind_query tr site g = poisoning (verifier_poison tr) (verifier_grind_inner tr site ProofOfWork g)"

definition read_fold_response_inner ::
  "('p, 'v, 'r, 's, 'f, 'e) transcript \<Rightarrow> grinding_site \<Rightarrow> 'v verifier_grinding \<Rightarrow> (u32, 'v verifier_grinding) outcome" where
  "read_fold_response_inner tr site g =
     st_bind (verifier_next site FoldResponseSearch g) (\<lambda>entry g.
     st_bind (on_verifier (receive_nonce tr) g) (\<lambda>counter g.
       if \<not> value_fits counter (entry_nonce_bits entry) then (Err InvalidProof, g)
       else st_bind (verifier_grind_inner tr (FoldChallengeWork (site_level site)) FoldWorkQuery g) (\<lambda>_ g. (Ok counter, g))))"

definition read_fold_response ::
  "('p, 'v, 'r, 's, 'f, 'e) transcript \<Rightarrow> grinding_site \<Rightarrow> 'v verifier_grinding \<Rightarrow> (u32, 'v verifier_grinding) outcome" where
  "read_fold_response tr site g = poisoning (verifier_poison tr) (read_fold_response_inner tr site g)"

definition verifier_record_fold_challenges ::
  "('p, 'v, 'r, 's, 'f, 'e) transcript \<Rightarrow> u32 \<Rightarrow> u32 \<Rightarrow> nat \<Rightarrow> 'v verifier_grinding \<Rightarrow> (unit, 'v verifier_grinding) outcome" where
  "verifier_record_fold_challenges tr lv gr coordinate_count g =
     (case try_r (ok_or (checked_add coordinate_count 1) InvalidProof)
             (\<lambda>count. consume_run (FoldChallengeGroup lv gr) count (vg_cursor g)) of
        Inl e \<Rightarrow> (Err e, verifier_poison tr g)
      | Inr c \<Rightarrow> (Ok (), g\<lparr>vg_cursor := c\<rparr>))"

text \<open>The first component is whether the evidence \<^verbatim>\<open>PendingEof\<close> is returned, the second the channel left behind.\<close>

definition verifier_finish :: "('p, 'v, 'r, 's, 'f, 'e) transcript \<Rightarrow> 'v verifier_grinding \<Rightarrow> (unit, 'v) outcome" where
  "verifier_finish tr g =
     (if vg_invalid g \<or> \<not> is_finished (vg_cursor g) then (Err InvalidProof, vg_state (verifier_poison tr g))
      else (Ok (), vg_state g))"

definition pending_check_eof :: "('p, 'v, 'r, 's, 'f, 'e) transcript \<Rightarrow> 'v \<Rightarrow> unit result" where
  "pending_check_eof tr v = (if v_check_eof tr v then Ok () else Err InvalidProof)"

section \<open>Scheduled challenges\<close>

text \<open>The trait \<^verbatim>\<open>GrindingReplay\<close>: the borrow \<^verbatim>\<open>state_mut\<close>, \<^verbatim>\<open>poison\<close> and \<^verbatim>\<open>grind_query\<close> of one side.\<close>

record ('g, 'st, 'e) grinding_side =
  on_side :: "('st \<Rightarrow> ('e list, 'st) outcome) \<Rightarrow> 'g \<Rightarrow> ('e list, 'g) outcome"
  side_poison :: "'g \<Rightarrow> 'g"
  side_grind_query :: "grinding_site \<Rightarrow> 'g \<Rightarrow> (unit, 'g) outcome"

definition prover_side :: "('p, 'v, 'r, 's, 'f, 'e) transcript \<Rightarrow> ('p prover_grinding, 'p, 'e) grinding_side" where
  "prover_side tr = \<lparr>on_side = on_prover, side_poison = prover_poison, side_grind_query = prover_grind_query tr\<rparr>"

definition verifier_side :: "('p, 'v, 'r, 's, 'f, 'e) transcript \<Rightarrow> ('v verifier_grinding, 'v, 'e) grinding_side" where
  "verifier_side tr = \<lparr>on_side = on_verifier, side_poison = verifier_poison tr, side_grind_query = verifier_grind_query tr\<rparr>"

definition grinded_ext_challenges ::
  "('p, 'v, 'r, 's, 'f, 'e) transcript \<Rightarrow> ('st, 'e) proof_channel \<Rightarrow> ('g, 'st, 'e) grinding_side \<Rightarrow> grinding_site \<Rightarrow> nat \<Rightarrow> 'g \<Rightarrow>
   ('e list, 'g) outcome" where
  "grinded_ext_challenges tr ch gs site count g =
     st_bind (side_grind_query gs site g) (\<lambda>_ g.
       poisoning (side_poison gs) (on_side gs (ext_challenges tr ch (site_id 0 site) count) g))"

definition grinded_ext_challenge ::
  "('p, 'v, 'r, 's, 'f, 'e) transcript \<Rightarrow> ('st, 'e) proof_channel \<Rightarrow> ('g, 'st, 'e) grinding_side \<Rightarrow> grinding_site \<Rightarrow> 'g \<Rightarrow>
   ('e, 'g) outcome" where
  "grinded_ext_challenge tr ch gs site g =
     st_bind (grinded_ext_challenges tr ch gs site 1 g) (\<lambda>challenges g.
       case vec_pop challenges of
         Some challenge \<Rightarrow> (Ok challenge, g)
       | None \<Rightarrow> (Err (Internal ''challenge codec returned no element''), side_poison gs g))"

section \<open>Sumcheck channels\<close>

definition SITE_FAMILY_SUMCHECK :: u32 where
  "SITE_FAMILY_SUMCHECK = 1"

definition grinding_sumcheck_site :: "sumcheck_protocol \<Rightarrow> u32 \<Rightarrow> u32 \<Rightarrow> u32 \<Rightarrow> u32 \<Rightarrow> sumcheck_role \<Rightarrow> protocol_site_id" where
  "grinding_sumcheck_site protocol lv st ivk rnd role =
     default_site\<lparr>family := SITE_FAMILY_SUMCHECK, invocation := sumcheck_tag protocol, level := lv, stage := st, round := rnd,
       group := ivk, detail := role_tag role\<rparr>"

text \<open>The channel borrows a side \<open>'g\<close> and carries the scheduled coordinates of its sumcheck.\<close>

record 'g grinding_sumcheck =
  sumcheck_grinding :: 'g
  sumcheck_protocol_of :: sumcheck_protocol
  sumcheck_level :: u32
  sumcheck_stage :: u32

definition round_site :: "'g grinding_sumcheck \<Rightarrow> u32 \<Rightarrow> grinding_site" where
  "round_site c rnd = SumcheckRound (sumcheck_protocol_of c) (sumcheck_level c) (sumcheck_stage c) rnd"

definition on_grinding :: "('g \<Rightarrow> ('a, 'g) outcome) \<Rightarrow> 'g grinding_sumcheck \<Rightarrow> ('a, 'g grinding_sumcheck) outcome" where
  "on_grinding f c = (case f (sumcheck_grinding c) of (r, g) \<Rightarrow> (r, c\<lparr>sumcheck_grinding := g\<rparr>))"

definition grinding_sumcheck_prover ::
  "('p, 'v, 'r, 's, 'f, 'e) transcript \<Rightarrow> ('f, 'e) field_codec \<Rightarrow> ('p prover_grinding grinding_sumcheck, 'p, 'e) sumcheck_channel" where
  "grinding_sumcheck_prover tr fc =
     \<lparr>sc_state = (\<lambda>c. pg_state (sumcheck_grinding c)),
      sc_put = (\<lambda>p c. c\<lparr>sumcheck_grinding := (sumcheck_grinding c)\<lparr>pg_state := p\<rparr>\<rparr>),
      sc_site = (\<lambda>c. grinding_sumcheck_site (sumcheck_protocol_of c) (sumcheck_level c) (sumcheck_stage c)),
      sc_round_challenge = (\<lambda>ivk rnd c.
        if ivk \<noteq> 0 then (Err (InvalidInput ''grinding sumcheck prover invocation is not zero''), c)
        else on_grinding (grinded_ext_challenge tr (prover_channel tr fc) (prover_side tr) (round_site c rnd)) c)\<rparr>"

definition grinding_sumcheck_verifier ::
  "('p, 'v, 'r, 's, 'f, 'e) transcript \<Rightarrow> ('f, 'e) field_codec \<Rightarrow> ('v verifier_grinding grinding_sumcheck, 'v, 'e) sumcheck_channel" where
  "grinding_sumcheck_verifier tr fc =
     \<lparr>sc_state = (\<lambda>c. vg_state (sumcheck_grinding c)),
      sc_put = (\<lambda>v c. c\<lparr>sumcheck_grinding := (sumcheck_grinding c)\<lparr>vg_state := v\<rparr>\<rparr>),
      sc_site = (\<lambda>c. grinding_sumcheck_site (sumcheck_protocol_of c) (sumcheck_level c) (sumcheck_stage c)),
      sc_round_challenge = (\<lambda>ivk rnd c.
        if ivk \<noteq> 0
        then (Err (InvalidInput ''grinding sumcheck verifier invocation is not zero''),
              c\<lparr>sumcheck_grinding := verifier_poison tr (sumcheck_grinding c)\<rparr>)
        else on_grinding (grinded_ext_challenge tr (verifier_channel tr fc) (verifier_side tr) (round_site c rnd)) c)\<rparr>"

end
