(* ===== verification/Opening_Driver.thy ===== *)
theory Opening_Driver
  imports Tensor_Opening Grinding_Replay
begin

text \<open>
  The extension-opening reduction of one fold level, prover and verifier: the geometry of the opening
  claims (\<^verbatim>\<open>crates/akita-params/src/layout/opening_layout.rs\<close>), the proof-stream grammar around the
  sumcheck (\<^verbatim>\<open>crates/akita-types/src/eor_sites.rs\<close>), the prover's driver
  (\<^verbatim>\<open>crates/akita-prover/src/protocol/prove/opening_reduction.rs\<close>) over the CPU backend, and the verifier's
  replay (\<^verbatim>\<open>crates/akita-verifier/src/stages/opening_claims/extension_claim.rs\<close>).

  The driver is generic in what the backend prepares; \<open>cpu_prepare_eor\<close> is the preparation of the CPU
  backend (\<^verbatim>\<open>crates/akita-cpu-backend/src/opaque/eor.rs\<close>) for groups over commitments, whose retained
  polynomials begin their sessions through the tensor tables.
\<close>

section \<open>Opening layouts\<close>

record group_layout =
  gl_num_vars :: nat
  gl_num_polynomials :: nat

type_synonym opening_layout = "group_layout list"

definition group_validate :: "group_layout \<Rightarrow> unit result" where
  "group_validate l = (if gl_num_polynomials l = 0 then Err (InvalidSetup ''opening group layouts must be nonempty'') else Ok ())"

definition checked_num_total_polynomials :: "opening_layout \<Rightarrow> nat result" where
  "checked_num_total_polynomials ls =
     ok_or (sum_checked (map gl_num_polynomials ls)) (InvalidInput ''opening layout polynomial count overflows usize'')"

fun validate_groups :: "opening_layout \<Rightarrow> unit result" where
  "validate_groups [] = Ok ()"
| "validate_groups (l # ls) = try_r (group_validate l) (\<lambda>_. validate_groups ls)"

definition layout_check :: "opening_layout \<Rightarrow> unit result" where
  "layout_check ls =
     (if ls = [] then Err (InvalidInput ''opening claim layout must be nonempty'')
      else try_r (checked_num_total_polynomials ls) (\<lambda>n.
             if n = 0 then Err (InvalidInput ''opening claim layout must be nonempty'') else validate_groups ls))"

definition max_num_vars :: "opening_layout \<Rightarrow> nat" where
  "max_num_vars ls = foldl max 0 (map gl_num_vars ls)"

text \<open>The unchecked sum wraps; on a checked layout it is the sum.\<close>

definition num_total_polynomials :: "opening_layout \<Rightarrow> nat" where
  "num_total_polynomials ls = foldl (\<lambda>acc n. (acc + n) mod 2 ^ 64) 0 (map gl_num_polynomials ls)"

definition requires_row_batch_challenge :: "opening_layout \<Rightarrow> bool" where
  "requires_row_batch_challenge ls \<longleftrightarrow> num_total_polynomials ls > 1"

definition layout_of_group :: "opening_layout \<Rightarrow> nat \<Rightarrow> group_layout result" where
  "layout_of_group ls g = ok_or (slice_nth ls g) (InvalidInput ''opening layout group index is out of range'')"

definition root_group_claim_range :: "opening_layout \<Rightarrow> nat \<Rightarrow> (nat \<times> nat) result" where
  "root_group_claim_range ls index =
     try_r (layout_check ls) (\<lambda>_.
       if index \<ge> length ls then Err (InvalidInput ''root claim range group index is out of range'')
       else try_r (ok_or (sum_checked (map gl_num_polynomials (take index ls))) (Internal ''validated root claim range start overflows usize'')) (\<lambda>start.
            try_r (ok_or (checked_add start (gl_num_polynomials (ls ! index))) (Internal ''validated root claim range end overflows usize''))
              (\<lambda>stop. Ok (start, stop))))"

section \<open>The stream around the sumcheck\<close>

definition SITE_FAMILY_EXTENSION_OPENING_REDUCTION :: u32 where
  "SITE_FAMILY_EXTENSION_OPENING_REDUCTION = 2"

definition STAGE_OPENINGS :: u32 where "STAGE_OPENINGS = 1"
definition STAGE_PARTIALS :: u32 where "STAGE_PARTIALS = 2"
definition STAGE_FINAL_CLAIMS :: u32 where "STAGE_FINAL_CLAIMS = 3"
definition EOR_SUMCHECK_INVOCATION :: u32 where "EOR_SUMCHECK_INVOCATION = 0"

definition eor_site :: "u32 \<Rightarrow> u32 \<Rightarrow> protocol_site_id" where
  "eor_site lv st = default_site\<lparr>family := SITE_FAMILY_EXTENSION_OPENING_REDUCTION, level := lv, stage := st\<rparr>"

record 'e eor_prefix_values =
  ep_partials :: "'e list"
  ep_eta :: "'e list"
  ep_coefficients :: "'e list"

definition validate_shape :: "('f, 'e) field_codec \<Rightarrow> opening_layout \<Rightarrow> 'e list \<Rightarrow> nat \<Rightarrow> (nat \<times> nat) result" where
  "validate_shape fc layout openings partial_count =
     try_r (layout_check layout) (\<lambda>_.
       let num_claims = num_total_polynomials layout
       in if length openings \<noteq> num_claims then Err (InvalidSize num_claims (length openings))
          else try_r (tensor_opening_split fc) (\<lambda>(split_bits, width).
               try_r (ok_or (Checked_Arith.product [width, num_claims]) (InvalidInput ''eor partial count overflows usize'')) (\<lambda>expected_partials.
                 if partial_count \<noteq> expected_partials then Err (InvalidSize expected_partials partial_count)
                 else Ok (split_bits, num_claims))))"

definition batch_challenges ::
  "opening_layout \<Rightarrow> u32 \<Rightarrow> nat \<Rightarrow> (grinding_site \<Rightarrow> nat \<Rightarrow> 'g \<Rightarrow> ('e::comm_ring_1 list, 'g) outcome) \<Rightarrow> 'g \<Rightarrow> ('e list \<times> 'e list, 'g) outcome" where
  "batch_challenges layout lv split_bits draw g =
     st_bind (draw (ExtensionOpeningPoint lv) split_bits g) (\<lambda>eta g.
     st_bind (if requires_row_batch_challenge layout then draw (ExtensionOpeningClaimBatch lv) (num_total_polynomials layout) g
              else (Ok [1], g)) (\<lambda>coefficients g. (Ok (eta, coefficients), g)))"

text \<open>A borrow of the channel for an operation without a result.\<close>

definition on_side_unit :: "('g, 'st, 'e) grinding_side \<Rightarrow> ('st \<Rightarrow> (unit, 'st) outcome) \<Rightarrow> 'g \<Rightarrow> (unit, 'g) outcome" where
  "on_side_unit gs f g = st_bind (on_side gs (\<lambda>s. st_bind (f s) (\<lambda>_ s. (Ok [], s))) g) (\<lambda>_ g. (Ok (), g))"

definition eor_prefix ::
  "('p, 'v, 'r, 's, 'f, 'e::comm_ring_1) transcript \<Rightarrow> ('st, 'e) proof_channel \<Rightarrow> ('g, 'st, 'e) grinding_side \<Rightarrow> ('f, 'e) field_codec \<Rightarrow>
   opening_layout \<Rightarrow> 'e list \<Rightarrow> 'e list \<Rightarrow> u32 \<Rightarrow> 'g \<Rightarrow> ('e eor_prefix_values, 'g) outcome" where
  "eor_prefix tr ch gs fc layout openings partials lv g =
     st_bind (validate_shape fc layout openings (length partials), g) (\<lambda>(split_bits, _) g.
     st_bind (on_side_unit gs (public_extensions ch fc (eor_site lv STAGE_OPENINGS) openings) g) (\<lambda>_ g.
     st_bind (on_side gs (exchange_extension_group ch fc (eor_site lv STAGE_PARTIALS) partials) g) (\<lambda>partials g.
     st_bind (batch_challenges layout lv split_bits (grinded_ext_challenges tr ch gs) g) (\<lambda>(eta, coefficients) g.
       (Ok \<lparr>ep_partials = partials, ep_eta = eta, ep_coefficients = coefficients\<rparr>, g)))))"

definition eor_final_claims ::
  "('st, 'e) proof_channel \<Rightarrow> ('g, 'st, 'e) grinding_side \<Rightarrow> ('f, 'e) field_codec \<Rightarrow> opening_layout \<Rightarrow> 'e list \<Rightarrow> u32 \<Rightarrow> 'g \<Rightarrow>
   ('e list, 'g) outcome" where
  "eor_final_claims ch gs fc layout final_claims lv g =
     (if length final_claims \<noteq> num_total_polynomials layout
      then (Err (InvalidSize (num_total_polynomials layout) (length final_claims)), g)
      else on_side gs (exchange_extension_group ch fc (eor_site lv STAGE_FINAL_CLAIMS) final_claims) g)"

section \<open>Points\<close>

datatype dispatch_tier = Fp128 | Fp64 | Fp32

fun inner_arms :: "dispatch_tier \<Rightarrow> nat list" where
  "inner_arms Fp128 = [64, 128, 256, 512, 1024]"
| "inner_arms Fp64 = [64, 128, 256, 512, 1024, 2048]"
| "inner_arms Fp32 = [64, 128, 256, 512, 1024, 2048]"

definition dispatch_ring_dim :: "nat list \<Rightarrow> nat \<Rightarrow> (nat \<Rightarrow> 'a result) \<Rightarrow> 'a result" where
  "dispatch_ring_dim arms d body =
     (if d \<in> set arms then body d
      else Err (InvalidSetup (''unsupported ring dimension '' @ show_nat d @ '' for this role/tier dispatch table'')))"

definition ring_subfield_packed_extension_opening_point :: "('f, 'e::zero) field_codec \<Rightarrow> nat \<Rightarrow> nat \<Rightarrow> 'e list \<Rightarrow> 'e list result" where
  "ring_subfield_packed_extension_opening_point fc D extension_num_vars point =
     (let k = ext_degree fc
      in if k = 1 then Ok point
         else if \<not> is_power_of_two k \<or> \<not> is_multiple_of D k
         then Err (InvalidInput ''extension degree must be a power of two dividing D'')
         else if length point \<noteq> extension_num_vars then Err (InvalidPointDimension extension_num_vars (length point))
         else let alpha_bits = trailing_zeros D; kappa_bits = trailing_zeros k
              in try_r (ok_or (checked_sub alpha_bits kappa_bits) (InvalidInput ''extension degree exceeds ring dimension'')) (\<lambda>packed_inner_bits.
                   if extension_num_vars < packed_inner_bits then Err (InvalidPointDimension packed_inner_bits extension_num_vars)
                   else Ok (resize alpha_bits (take packed_inner_bits point) @ drop packed_inner_bits point)))"

text \<open>
  The factor of one group at the challenges: the tensor factor at the group's tail, times the
  equality with zero of the coordinates the group does not have.
\<close>

definition group_factor ::
  "eq_env \<Rightarrow> ('f::comm_ring_1, 'e::comm_ring_1) field_codec \<Rightarrow> ('f, 'e, 'w) ext_ops \<Rightarrow> akita_error \<Rightarrow> akita_error \<Rightarrow> nat \<Rightarrow> 'e list \<Rightarrow> 'e list \<Rightarrow> 'e list \<Rightarrow>
   'e result" where
  "group_factor env fc X no_tail too_short split_bits eta rho point =
     (if length point < split_bits then Err no_tail
      else let tail = drop split_bits point
           in if length rho < length tail then Err too_short
              else try_r (tensor_equality_factor_eval_at_point env fc X tail eta (take (length tail) rho)) (\<lambda>factor.
                     Ok (foldl (\<lambda>f extra. f * (1 - extra)) factor (drop (length tail) rho))))"

section \<open>The CPU backend\<close>

text \<open>
  A commitment source retains whole polynomials (\<^verbatim>\<open>opaque/owned.rs\<close>): dense coefficients, or one hot
  position per chunk.  Writing a hot position out of range panics.
\<close>

datatype 'f owned_polynomial =
  DensePoly (dense_num_vars: nat) (field_coeffs: "'f list")
| OneHotPoly (onehot_num_vars: nat) (onehot_k: nat) (onehot_indices: "nat option list")

fun op_num_vars :: "'f owned_polynomial \<Rightarrow> nat" where
  "op_num_vars (DensePoly n cs) = n"
| "op_num_vars (OneHotPoly n k is) = n"

fun onehot_values :: "nat \<Rightarrow> nat \<Rightarrow> nat option list \<Rightarrow> 'f::comm_ring_1 list \<Rightarrow> 'f list result" where
  "onehot_values k chunk [] vs = Ok vs"
| "onehot_values k chunk (None # is) vs = onehot_values k (chunk + 1) is vs"
| "onehot_values k chunk (Some index # is) vs =
     (let position = (chunk * k + index) mod 2 ^ 64
      in if position < length vs then onehot_values k (chunk + 1) is (vs[position := 1])
         else Err (Internal ''panic''))"

fun op_source_coefficients :: "'f::comm_ring_1 owned_polynomial \<Rightarrow> 'f list result" where
  "op_source_coefficients (DensePoly n cs) =
     try_r (ok_or (pow2 n) (Internal ''dense source coefficient extent overflow'')) (\<lambda>len. Ok (resize len cs))"
| "op_source_coefficients (OneHotPoly n k is) =
     try_r (ok_or (Checked_Arith.product [k, length is]) (Internal ''one-hot source coefficient extent overflow''))
       (\<lambda>len. onehot_values k 0 is (replicate len 0))"

fun owned_extension ::
  "eq_env \<Rightarrow> ('f::comm_ring_1, 'e::comm_ring_1) field_codec \<Rightarrow> ('e, 'w) unreduced_ops \<Rightarrow> ('f, 'e, 'w) ext_ops \<Rightarrow> 'e list \<Rightarrow> 'f owned_polynomial list \<Rightarrow>
   ('e list \<times> 'e list \<times> 'e list list) result" where
  "owned_extension env fc U X point [] = Ok ([], [], [])"
| "owned_extension env fc U X point (poly # polys) =
     try_r (op_source_coefficients poly) (\<lambda>coefficients.
     try_r (tensor_column_partials_from_base_evals env fc U X (op_num_vars poly) coefficients point) (\<lambda>partials.
     try_r (derive_tensor_extension_opening_claim_from_partials env fc point partials) (\<lambda>opening.
     try_r (tensor_row_partials_from_columns fc X partials) (\<lambda>rows.
     try_r (owned_extension env fc U X point polys) (\<lambda>(openings, proof_partials, row_partials).
       Ok (opening # openings, partials @ proof_partials, rows # row_partials))))))"

definition owned_begin_eor ::
  "eq_env \<Rightarrow> ('f::comm_ring_1, 'e::comm_ring_1) field_codec \<Rightarrow> ('e, 'w) unreduced_ops \<Rightarrow> ('f, 'e, 'w) ext_ops \<Rightarrow> 'f owned_polynomial list \<Rightarrow>
   'e list \<Rightarrow> 'e list \<Rightarrow> 'e list \<Rightarrow> 'e list \<Rightarrow> 'e \<Rightarrow> ('e, 'u) opening_session result" where
  "owned_begin_eor env fc U X polys coefficients tail eta extra claim =
     try_r (collect_results (\<lambda>poly. try_r (op_source_coefficients poly) (tensor_packed_witness_evals fc (op_num_vars poly))) polys) (\<lambda>witnesses.
       witness_eor_session_from_witnesses (tensor_equality_factor_evals env fc U X tail eta) witnesses coefficients extra claim)"

text \<open>
  One request group over a commitment: \<open>rq_admitted\<close> is the outcome of the checks of lease, owner and
  geometry of the commitment handle, which read state of the backend outside the reduction.  Groups
  over a recursive witness, whose tables come from packed digits, are not modelled.
\<close>

record ('f, 'e) eor_request =
  rq_point :: "'e list"
  rq_ring_dimension :: nat
  rq_admitted :: "unit result"
  rq_polynomials :: "'f owned_polynomial list"

definition retained_group ::
  "eq_env \<Rightarrow> ('f::comm_ring_1, 'e::comm_ring_1) field_codec \<Rightarrow> ('e, 'w) unreduced_ops \<Rightarrow> ('f, 'e, 'w) ext_ops \<Rightarrow> opening_layout \<Rightarrow> nat \<Rightarrow>
   ('f, 'e) eor_request \<Rightarrow> 'e list list \<Rightarrow> ('e, 'u) eor_group" where
  "retained_group env fc U X layout index rq rows =
     \<lparr>eg_rows = rows, eg_point = rq_point rq, eg_range = root_group_claim_range layout index,
      eg_begin = owned_begin_eor env fc U X (rq_polynomials rq)\<rparr>"

fun prepare_groups ::
  "eq_env \<Rightarrow> ('f::comm_ring_1, 'e::comm_ring_1) field_codec \<Rightarrow> ('e, 'w) unreduced_ops \<Rightarrow> ('f, 'e, 'w) ext_ops \<Rightarrow> opening_layout \<Rightarrow> nat \<Rightarrow> nat \<Rightarrow>
   ('f, 'e) eor_request list \<Rightarrow> ('e list \<times> 'e list \<times> ('e, 'u) eor_group list) result" where
  "prepare_groups env fc U X layout split_bits index [] = Ok ([], [], [])"
| "prepare_groups env fc U X layout split_bits index (rq # rqs) =
     try_r (layout_of_group layout index) (\<lambda>expected.
       if length (rq_point rq) \<noteq> gl_num_vars expected then Err (InvalidPointDimension (gl_num_vars expected) (length (rq_point rq)))
       else if length (rq_point rq) < split_bits
       then Err (InvalidInput ''EOR evaluation point is shorter than the tensor split'')
       else try_r (rq_admitted rq) (\<lambda>_.
            try_r (owned_extension env fc U X (rq_point rq) (rq_polynomials rq)) (\<lambda>(openings, proof_partials, rows).
              if length openings \<noteq> gl_num_polynomials expected \<or> length rows \<noteq> gl_num_polynomials expected
              then Err (Internal ''prepared EOR opening and row counts differ from the group claim count'')
              else try_r (prepare_groups env fc U X layout split_bits (index + 1) rqs) (\<lambda>(openings', proof_partials', groups).
                     Ok (openings @ openings', proof_partials @ proof_partials', retained_group env fc U X layout index rq rows # groups)))))"

text \<open>\<open>admitted\<close> is the outcome of binding the session and of comparing the layout with the proof plan.\<close>

record ('e, 'u) prepared_eor =
  pe_openings :: "'e list"
  pe_partials :: "'e list"
  pe_groups :: "('e, 'u) eor_group list"

definition cpu_prepare_eor ::
  "eq_env \<Rightarrow> ('f::comm_ring_1, 'e::comm_ring_1) field_codec \<Rightarrow> ('e, 'w) unreduced_ops \<Rightarrow> ('f, 'e, 'w) ext_ops \<Rightarrow> unit result \<Rightarrow> opening_layout \<Rightarrow>
   ('f, 'e) eor_request list \<Rightarrow> ('e, 'u) prepared_eor result" where
  "cpu_prepare_eor env fc U X admitted layout rqs =
     try_r admitted (\<lambda>_.
       if length rqs \<noteq> length layout then Err (InvalidSize (length layout) (length rqs))
       else try_r (tensor_opening_split fc) (\<lambda>(split_bits, _).
            try_r (prepare_groups env fc U X layout split_bits 0 rqs) (\<lambda>(openings, proof_partials, groups).
              Ok \<lparr>pe_openings = openings, pe_partials = proof_partials, pe_groups = groups\<rparr>)))"

text \<open>Beginning and finishing the aggregate session with the tensor claims and factors.\<close>

definition cpu_begin_eor ::
  "eq_env \<Rightarrow> ('f, 'e::comm_ring_1) field_codec \<Rightarrow> unit result \<Rightarrow> opening_layout \<Rightarrow> ('e, 'u) eor_group list \<Rightarrow> 'e list \<Rightarrow> 'e list \<Rightarrow>
   ('e \<times> ('e, 'u) eor_session) result" where
  "cpu_begin_eor env fc lease layout groups eta coefficients =
     try_r lease (\<lambda>_.
     try_r (tensor_opening_split fc) (\<lambda>(split_bits, _).
       begin_eor (tensor_reduction_claim_from_rows env fc) lease split_bits (num_total_polynomials layout) (max_num_vars layout)
         groups eta coefficients))"

definition cpu_finish_eor ::
  "eq_env \<Rightarrow> ('f::comm_ring_1, 'e::comm_ring_1) field_codec \<Rightarrow> ('f, 'e, 'w) ext_ops \<Rightarrow> unit result \<Rightarrow> ('e, 'u) eor_session \<Rightarrow> 'e list result" where
  "cpu_finish_eor env fc X lease s = finish_eor (tensor_equality_factor_eval_at_point env fc X) lease s"

section \<open>The prover\<close>

record 'e extension_opening_reduction =
  xr_final_claims :: "'e list"
  xr_final_factors :: "'e list"
  xr_protocol_points :: "'e list list"

text \<open>The aggregate input claim from the scheduled public partials.\<close>

fun claim_from_partials ::
  "eq_env \<Rightarrow> ('f, 'e::comm_ring_1) field_codec \<Rightarrow> ('f, 'e, 'w) ext_ops \<Rightarrow> 'e list \<Rightarrow> ('e list \<times> 'e) list \<Rightarrow> 'e \<Rightarrow> 'e result" where
  "claim_from_partials env fc X eta [] acc = Ok acc"
| "claim_from_partials env fc X eta ((columns, coefficient) # cs) acc =
     try_r (tensor_row_partials_from_columns fc X columns) (\<lambda>rows.
     try_r (tensor_reduction_claim_from_rows env fc rows eta) (\<lambda>c.
       claim_from_partials env fc X eta cs (acc + coefficient * c)))"

fun prover_outputs ::
  "eq_env \<Rightarrow> ('f::comm_ring_1, 'e::comm_ring_1) field_codec \<Rightarrow> ('f, 'e, 'w) ext_ops \<Rightarrow> nat list \<Rightarrow> nat \<Rightarrow> 'e list \<Rightarrow> 'e list \<Rightarrow>
   ('e list \<times> nat) list \<Rightarrow> ('e list \<times> 'e list list) result" where
  "prover_outputs env fc X arms split_bits eta rho [] = Ok ([], [])"
| "prover_outputs env fc X arms split_bits eta rho ((point, ring_dimension) # inputs) =
     try_r (group_factor env fc X (Internal ''eor group point has no tensor tail'')
              (Internal ''eor challenge point is shorter than group tensor tail'') split_bits eta rho point) (\<lambda>factor.
     let local_rho = take (length point - split_bits) rho
     in try_r (dispatch_ring_dim arms ring_dimension (\<lambda>D. ring_subfield_packed_extension_opening_point fc D (length local_rho) local_rho)) (\<lambda>protocol_point.
        try_r (prover_outputs env fc X arms split_bits eta rho inputs) (\<lambda>(factors, points).
          Ok (factor # factors, protocol_point # points))))"

definition eor_channel :: "'g \<Rightarrow> u32 \<Rightarrow> 'g grinding_sumcheck" where
  "eor_channel g lv = \<lparr>sumcheck_grinding = g, sumcheck_protocol_of = ExtensionOpeningReduction, sumcheck_level = lv, sumcheck_stage = 0\<rparr>"

text \<open>The sumcheck of the backend session and its finished values, checked against the output claim.\<close>

definition prove_eor_sumcheck ::
  "eq_env \<Rightarrow> ('u, 'z, 'o, 'e::comm_ring_1) poly_ops \<Rightarrow> ('u, 'e) univariate_ops \<Rightarrow> ('e, 'w) unreduced_ops \<Rightarrow> ('f::comm_ring_1, 'e, 'w) ext_ops \<Rightarrow>
   unit result \<Rightarrow> ('p, 'v, 'r, 's, 'f, 'e) transcript \<Rightarrow> ('f, 'e) field_codec \<Rightarrow> nat \<Rightarrow> nat \<Rightarrow> u32 \<Rightarrow> 'e list \<Rightarrow> 'e \<times> ('e, 'u) eor_session \<Rightarrow>
   'p prover_grinding \<Rightarrow> ('e list \<times> 'e list, 'p prover_grinding) outcome" where
  "prove_eor_sumcheck env P N U X lease tr fc max_tail_vars num_claims lv coefficients begun g =
     st_bind (shape_new max_tail_vars EXTENSION_OPENING_REDUCTION_DEGREE, g) (\<lambda>shape g.
       case prove_sumcheck P (eor_kernel P N U lease) (grinding_sumcheck_prover tr fc) (prover_channel tr fc) fc shape EOR_SUMCHECK_INVOCATION
              (\<lparr>ek_session = Some (snd begun), ek_claim = fst begun, ek_rounds = max_tail_vars\<rparr>, eor_channel g lv) of
         (proved, k, c) \<Rightarrow>
           st_bind (proved, sumcheck_grinding c) (\<lambda>(rho, claim) g.
           st_bind (try_r (ok_or (ek_session k) (Internal ''panic'')) (cpu_finish_eor env fc X lease), g)
             (\<lambda>final_claims g.
               if length final_claims \<noteq> num_claims \<or> foldl (\<lambda>acc (v, weight). acc + v * weight) 0 (zip final_claims coefficients) \<noteq> claim
               then (Err (Internal ''eor backend final claims differ from sumcheck output''), g)
               else (Ok (rho, final_claims), g))))"

definition prove_extension_opening_reduction ::
  "eq_env \<Rightarrow> ('u, 'z, 'o, 'e::comm_ring_1) poly_ops \<Rightarrow> ('u, 'e) univariate_ops \<Rightarrow> ('e, 'w) unreduced_ops \<Rightarrow> ('f::comm_ring_1, 'e, 'w) ext_ops \<Rightarrow>
   nat list \<Rightarrow> unit result \<Rightarrow> ('p, 'v, 'r, 's, 'f, 'e) transcript \<Rightarrow> ('f, 'e) field_codec \<Rightarrow> opening_layout \<Rightarrow> ('e, 'u) prepared_eor result \<Rightarrow>
   ('e list \<times> nat) list \<Rightarrow> u32 \<Rightarrow> 'e list \<Rightarrow> 'p prover_grinding \<Rightarrow> ('e extension_opening_reduction, 'p prover_grinding) outcome" where
  "prove_extension_opening_reduction env P N U X arms lease tr fc layout prepare group_inputs lv expected_openings g =
     st_bind (tensor_opening_split fc, g) (\<lambda>(split_bits, width) g.
     st_bind (ok_or (checked_sub (max_num_vars layout) split_bits)
                (Internal ''eor maximum opening width is smaller than tensor split width''), g) (\<lambda>max_tail_vars g.
     st_bind (prepare, g) (\<lambda>prepared g.
     let num_claims = num_total_polynomials layout
     in if length (pe_openings prepared) \<noteq> num_claims
        then (Err (Internal ''eor backend opening count differs from opening layout''), g)
        else st_bind (ok_or (checked_mul width num_claims) (Internal ''eor proof partial count overflow''), g) (\<lambda>count g.
          if length (pe_partials prepared) \<noteq> count
          then (Err (Internal ''eor backend proof partial count differs from tensor claim width''), g)
          else if pe_openings prepared \<noteq> expected_openings
          then (Err (Internal ''eor backend openings differ from generated suffix claims''), g)
          else st_bind (eor_prefix tr (prover_channel tr fc) (prover_side tr) fc layout (pe_openings prepared) (pe_partials prepared) lv g) (\<lambda>prefix g.
               let eta = ep_eta prefix; coefficients = ep_coefficients prefix
               in st_bind (cpu_begin_eor env fc lease layout (pe_groups prepared) eta coefficients, g) (\<lambda>begun g.
                  st_bind (claim_from_partials env fc X eta (zip (chunks width (pe_partials prepared)) coefficients) 0, g) (\<lambda>expected g.
                    if fst begun \<noteq> expected
                    then (Err (Internal ''eor backend input claim differs from weighted public partials''), g)
                    else st_bind (prove_eor_sumcheck env P N U X lease tr fc max_tail_vars num_claims lv coefficients begun g) (\<lambda>(rho, final_claims) g.
                         st_bind (prover_outputs env fc X arms split_bits eta rho group_inputs, g) (\<lambda>(factors, points) g.
                         st_bind (eor_final_claims (prover_channel tr fc) (prover_side tr) fc layout final_claims lv g) (\<lambda>final_claims g.
                           (Ok \<lparr>xr_final_claims = final_claims, xr_final_factors = factors, xr_protocol_points = points\<rparr>, g)))))))))))"

section \<open>The verifier\<close>

record reduction_shape =
  es_split_bits :: nat
  es_width :: nat
  es_rounds :: nat

record 'e eor_sumcheck_replay =
  sr_rho :: "'e list"
  sr_final_claims :: "'e list"
  sr_final_factors :: "'e list"

text \<open>The round count of \<^verbatim>\<open>canonical_extension_opening_reduction_shape\<close>.\<close>

definition canonical_reduction_rounds :: "opening_layout \<Rightarrow> nat \<Rightarrow> nat result" where
  "canonical_reduction_rounds layout width =
     (if width \<le> 1 \<or> \<not> is_power_of_two width
      then Err (InvalidSetup ''extension opening degree must be a power of two greater than one'')
      else try_r (layout_check layout) (\<lambda>_.
           try_r (ok_or (checked_sub (max_num_vars layout) (trailing_zeros width))
                    (InvalidSetup ''extension opening split exceeds the opening arity'')) (\<lambda>rounds.
           try_r (ok_or (checked_mul width (num_total_polynomials layout))
                    (InvalidSetup ''extension opening partial count overflow'')) (\<lambda>_. Ok rounds))))"

definition eor_reduction_shape :: "('f, 'e) field_codec \<Rightarrow> opening_layout \<Rightarrow> reduction_shape result" where
  "eor_reduction_shape fc layout =
     try_r (map_err (\<lambda>_. InvalidProof) (tensor_opening_split fc)) (\<lambda>(split_bits, width).
     try_r (map_err (\<lambda>_. InvalidProof) (canonical_reduction_rounds layout width)) (\<lambda>rounds.
       if width = 1 then Err InvalidProof
       else Ok \<lparr>es_split_bits = split_bits, es_width = width, es_rounds = rounds\<rparr>))"

definition verifier_prefix ::
  "('p, 'v, 'r, 's, 'f, 'e::comm_ring_1) transcript \<Rightarrow> ('f, 'e) field_codec \<Rightarrow> opening_layout \<Rightarrow> 'e list \<Rightarrow> nat \<Rightarrow> nat \<Rightarrow> u32 \<Rightarrow> 'v verifier_grinding \<Rightarrow>
   ('e eor_prefix_values, 'v verifier_grinding) outcome" where
  "verifier_prefix tr fc layout openings partial_count split_bits lv g =
     st_bind (on_verifier (extension_slots tr (verifier_channel tr fc) partial_count) g) (\<lambda>partials g.
     st_bind (eor_prefix tr (verifier_channel tr fc) (verifier_side tr) fc layout openings partials lv g) (\<lambda>prefix g.
       if length (ep_eta prefix) \<noteq> split_bits then (Err InvalidProof, g) else (Ok prefix, g)))"

definition verifier_sumcheck ::
  "('u, 'z, 'o, 'e::comm_ring_1) poly_ops \<Rightarrow> ('p, 'v, 'r, 's, 'f, 'e) transcript \<Rightarrow> ('f, 'e) field_codec \<Rightarrow> 'e \<Rightarrow> nat \<Rightarrow> u32 \<Rightarrow>
   'v verifier_grinding \<Rightarrow> ('e sumcheck_round_result, 'v verifier_grinding) outcome" where
  "verifier_sumcheck P tr fc input_claim num_rounds lv g =
     st_bind (shape_new num_rounds EXTENSION_OPENING_REDUCTION_DEGREE, g) (\<lambda>shape g.
       case verify_sumcheck_rounds P tr (grinding_sumcheck_verifier tr fc) (verifier_channel tr fc) fc EOR_SUMCHECK_INVOCATION input_claim shape
              (eor_channel g lv) of
         (replay, c) \<Rightarrow> (replay, sumcheck_grinding c))"

definition verifier_final_claims ::
  "('p, 'v, 'r, 's, 'f, 'e::comm_ring_1) transcript \<Rightarrow> ('f, 'e) field_codec \<Rightarrow> opening_layout \<Rightarrow> u32 \<Rightarrow> 'v verifier_grinding \<Rightarrow>
   ('e list, 'v verifier_grinding) outcome" where
  "verifier_final_claims tr fc layout lv g =
     st_bind (on_verifier (extension_slots tr (verifier_channel tr fc) (num_total_polynomials layout)) g) (\<lambda>final_claims g.
       eor_final_claims (verifier_channel tr fc) (verifier_side tr) fc layout final_claims lv g)"

fun check_claims :: "eq_env \<Rightarrow> ('f, 'e::comm_ring_1) field_codec \<Rightarrow> nat \<Rightarrow> 'e list \<Rightarrow> 'e list \<Rightarrow> 'e list \<Rightarrow> nat \<Rightarrow> nat result" where
  "check_claims env fc width partials point [] claim_offset = Ok claim_offset"
| "check_claims env fc width partials point (opening # openings) claim_offset =
     try_r (ok_or (checked_mul claim_offset width) InvalidProof) (\<lambda>partial_start.
     try_r (ok_or (checked_add partial_start width) InvalidProof) (\<lambda>partial_end.
     try_r (ok_or (slice_range partials (partial_start, partial_end)) InvalidProof) (\<lambda>claim_partials.
     try_r (derive_tensor_extension_opening_claim_from_partials env fc point claim_partials) (\<lambda>expected.
       if expected \<noteq> opening then Err InvalidProof
       else try_r (ok_or (checked_add claim_offset 1) InvalidProof)
              (check_claims env fc width partials point openings)))))"

fun check_groups ::
  "eq_env \<Rightarrow> ('f, 'e::comm_ring_1) field_codec \<Rightarrow> reduction_shape \<Rightarrow> opening_layout \<Rightarrow> 'e list \<Rightarrow> 'e list \<Rightarrow> 'e list list \<Rightarrow> nat \<Rightarrow> nat \<Rightarrow> nat result" where
  "check_groups env fc shape layout openings partials [] index claim_offset = Ok claim_offset"
| "check_groups env fc shape layout openings partials (point # points) index claim_offset =
     try_r (layout_of_group layout index) (\<lambda>l.
       if length point \<noteq> gl_num_vars l \<or> length point < es_split_bits shape then Err InvalidProof
       else if claim_offset > length openings then Err InvalidProof
       else try_r (check_claims env fc (es_width shape) partials point (take (gl_num_polynomials l) (drop claim_offset openings)) claim_offset)
              (check_groups env fc shape layout openings partials points (index + 1)))"

definition input_claims_from_partials ::
  "eq_env \<Rightarrow> ('f, 'e::comm_ring_1) field_codec \<Rightarrow> ('f, 'e, 'w) ext_ops \<Rightarrow> 'e list \<Rightarrow> reduction_shape \<Rightarrow> 'e list \<Rightarrow> 'e list result" where
  "input_claims_from_partials env fc X partials shape eta =
     (if es_width shape = 0 \<or> \<not> is_multiple_of (length partials) (es_width shape) then Err InvalidProof
      else collect_results (\<lambda>columns. try_r (tensor_row_partials_from_columns fc X columns) (\<lambda>rows. tensor_reduction_claim_from_rows env fc rows eta))
             (chunks (es_width shape) partials))"

definition verify_eor_sumcheck_with_stream ::
  "eq_env \<Rightarrow> ('u, 'z, 'o, 'e::comm_ring_1) poly_ops \<Rightarrow> ('f::comm_ring_1, 'e, 'w) ext_ops \<Rightarrow> ('p, 'v, 'r, 's, 'f, 'e) transcript \<Rightarrow> ('f, 'e) field_codec \<Rightarrow>
   'e list list \<Rightarrow> 'e list \<Rightarrow> opening_layout \<Rightarrow> reduction_shape \<Rightarrow> u32 \<Rightarrow> 'v verifier_grinding \<Rightarrow> ('e eor_sumcheck_replay, 'v verifier_grinding) outcome" where
  "verify_eor_sumcheck_with_stream env P X tr fc group_points openings layout shape lv g =
     (let num_claims = num_total_polynomials layout
      in if length openings \<noteq> num_claims \<or> length group_points \<noteq> length layout then (Err InvalidProof, g)
         else st_bind (ok_or (checked_mul (es_width shape) num_claims) InvalidProof, g) (\<lambda>partial_count g.
           st_bind (verifier_prefix tr fc layout openings partial_count (es_split_bits shape) lv g) (\<lambda>prefix g.
           let partials = ep_partials prefix; eta = ep_eta prefix; coefficients = ep_coefficients prefix
           in if length partials \<noteq> partial_count \<or> length eta \<noteq> es_split_bits shape \<or> length coefficients \<noteq> num_claims then (Err InvalidProof, g)
              else st_bind (check_groups env fc shape layout openings partials group_points 0 0, g) (\<lambda>claim_offset g.
                if claim_offset \<noteq> num_claims then (Err InvalidProof, g)
                else st_bind (input_claims_from_partials env fc X partials shape eta, g) (\<lambda>input_claims g.
                  if length input_claims \<noteq> num_claims then (Err InvalidProof, g)
                  else st_bind (verifier_sumcheck P tr fc (weighted_sum coefficients input_claims) (es_rounds shape) lv g) (\<lambda>replay g.
                    st_bind (verifier_final_claims tr fc layout lv g) (\<lambda>final_claims g.
                      if length final_claims \<noteq> num_claims then (Err InvalidProof, g)
                      else if output_claim replay \<noteq> weighted_sum coefficients final_claims then (Err InvalidProof, g)
                      else st_bind (collect_results (group_factor env fc X InvalidProof InvalidProof (es_split_bits shape) eta (result_challenges replay))
                                      group_points, g) (\<lambda>factors g.
                             (Ok \<lparr>sr_rho = result_challenges replay, sr_final_claims = final_claims, sr_final_factors = factors\<rparr>, g)))))))))"

definition verify_eor_sumcheck ::
  "eq_env \<Rightarrow> ('u, 'z, 'o, 'e::comm_ring_1) poly_ops \<Rightarrow> ('f::comm_ring_1, 'e, 'w) ext_ops \<Rightarrow> ('p, 'v, 'r, 's, 'f, 'e) transcript \<Rightarrow> ('f, 'e) field_codec \<Rightarrow>
   'e list list \<Rightarrow> 'e list \<Rightarrow> opening_layout \<Rightarrow> bool \<Rightarrow> u32 \<Rightarrow> 'v verifier_grinding \<Rightarrow> ('e eor_sumcheck_replay option, 'v verifier_grinding) outcome" where
  "verify_eor_sumcheck env P X tr fc group_points openings layout requires_reduction lv g =
     (if \<not> requires_reduction then (Ok None, g)
      else st_bind (eor_reduction_shape fc layout, g) (\<lambda>shape g.
           st_bind (verify_eor_sumcheck_with_stream env P X tr fc group_points openings layout shape lv g) (\<lambda>replay g. (Ok (Some replay), g))))"

end
