(* ===== verification/Opening_Reduction_Correct.thy ===== *)
theory Opening_Reduction_Correct
  imports Opening_Reduction Sumcheck_Complete Split_Eq
begin

text \<open>
  Correctness of the extension-opening reduction: the accumulators of a round compute the two round
  sums for every parallel split, the fused in-place folds bind every table and cache the next round's
  sums, the sessions run by the production kernel satisfy the interface of an honest sumcheck kernel,
  and the finished values are the products of witness and factor at the challenge point.
\<close>

section \<open>Hypotheses on the field library\<close>

text \<open>\<open>accumulates U p v n\<close>: the delayed sum \<open>p\<close> was formed from \<open>n\<close> products whose sum is \<open>v\<close>.\<close>

inductive accumulates :: "('e::comm_ring_1, 'w) unreduced_ops \<Rightarrow> 'w \<Rightarrow> 'e \<Rightarrow> nat \<Rightarrow> bool" for U where
  acc_none: "accumulates U (wide_zero U) 0 0"
| acc_product: "accumulates U (mul_unreduced U a b) (a * b) 1"
| acc_sum: "accumulates U p v n \<Longrightarrow> accumulates U q w m \<Longrightarrow> accumulates U (wide_add U p q) (v + w) (n + m)"

text \<open>
  \<^verbatim>\<open>Fold::fold_one\<close> binds a pair at the challenge; a range of \<open>n\<close> items is split into parts of total
  size \<open>n\<close>; and where \<^verbatim>\<open>SUM_IS_EXACT\<close> is set, reducing a delayed sum of at most \<open>limit\<close> products is
  exact.
\<close>

definition unreduced_laws :: "nat \<Rightarrow> ('e::comm_ring_1, 'w) unreduced_ops \<Rightarrow> bool" where
  "unreduced_laws limit U \<longleftrightarrow>
     (\<forall>r a b. fold_pair U r a b = a + r * (b - a)) \<and> (\<forall>n. join_size (par_tree U n) = n) \<and>
     (sum_is_exact U \<longrightarrow> (\<forall>p v n. accumulates U p v n \<and> n \<le> limit \<longrightarrow> reduce_product U p = v))"

section \<open>Accumulators\<close>

text \<open>
  The interface of the trait \<^verbatim>\<open>Deg2RoundAccum\<close>: \<open>R acc c q n\<close> relates an accumulator to the two sums it
  stands for and to the number of pairs it took in.
\<close>

locale round_accumulator =
  fixes A :: "('a, 'e::comm_ring_1) deg2_accum" and R :: "'a \<Rightarrow> 'e \<Rightarrow> 'e \<Rightarrow> nat \<Rightarrow> bool" and limit :: nat
  assumes zero: "R (acc_zero A) 0 0 0"
    and pair: "R acc c q n \<Longrightarrow> R (add_pair A w0 w1 a0 a1 acc) (c + w0 * a0) (q + (w1 - w0) * (a1 - a0)) (Suc n)"
    and merge: "R acc c q n \<Longrightarrow> R acc' c' q' m \<Longrightarrow> R (acc_merge A acc acc') (c + c') (q + q') (n + m)"
    and finish: "R acc c q n \<Longrightarrow> n \<le> limit \<Longrightarrow> acc_finish A acc = (c, q)"
begin

lemma fold_pairs:
  "R acc c q n \<Longrightarrow> R (fold (\<lambda>i. add_pair A (w0 i) (w1 i) (a0 i) (a1 i)) [k..<k + m] acc)
     (c + (\<Sum>i = k..<k + m. w0 i * a0 i)) (q + (\<Sum>i = k..<k + m. (w1 i - w0 i) * (a1 i - a0 i))) (n + m)"
proof (induction m)
  case (Suc m)
  from pair [OF Suc.IH [OF Suc.prems], where ?w0.0 = "w0 (k + m)" and ?w1.0 = "w1 (k + m)" and ?a0.0 = "a0 (k + m)" and ?a1.0 = "a1 (k + m)"] show ?case
    by (simp add: add.assoc)
qed simp

lemma join_pairs:
  "R (join_fold (\<lambda>i. add_pair A (w0 i) (w1 i) (a0 i) (a1 i)) (acc_zero A) (acc_merge A) t k)
     (\<Sum>i = k..<k + join_size t. w0 i * a0 i) (\<Sum>i = k..<k + join_size t. (w1 i - w0 i) * (a1 i - a0 i)) (join_size t)"
proof (induction t arbitrary: k)
  case (Part n)
  from merge [OF zero fold_pairs [OF zero, of w0 w1 a0 a1 k n]] show ?case by simp
next
  case (Join l r)
  have split: "(\<Sum>i = k..<k + join_size l. h i) + (\<Sum>i = k + join_size l..<k + join_size l + join_size r. h i) =
      (\<Sum>i = k..<k + (join_size l + join_size r). h i)" for h :: "nat \<Rightarrow> 'e"
    by (subst sum.atLeastLessThan_concat) (simp_all add: add.assoc)
  from merge [OF Join.IH(1) [of k] Join.IH(2) [of "k + join_size l"]] show ?case by (simp add: split)
qed

lemmas fold_pairs_total = finish [OF fold_pairs [OF zero, of _ _ _ _ 0], simplified]
lemmas join_pairs_total = finish [OF join_pairs [of _ _ _ _ _ 0], simplified]

end

interpretation direct: round_accumulator direct_deg2 "\<lambda>acc c q n. acc = (c, q)" limit
  by unfold_locales (auto simp: direct_deg2_def add_pair_def)

lemma delayed_accumulator:
  assumes "unreduced_laws limit U" "sum_is_exact U"
  shows "round_accumulator (delayed_deg2 U) (\<lambda>(p, p') c q n. accumulates U p c n \<and> accumulates U p' q n) limit"
proof -
  have exact: "accumulates U p v n \<Longrightarrow> n \<le> limit \<Longrightarrow> reduce_product U p = v" for p v n
    using assms unfolding unreduced_laws_def by blast
  show ?thesis
    by unfold_locales
      (auto simp: delayed_deg2_def add_pair_def intro: exact acc_none acc_sum acc_sum [OF _ acc_product, simplified])
qed

section \<open>Round sums\<close>

text \<open>The constant and the quadratic coefficient of a round over two tables.\<close>

definition round_sums :: "'e::comm_ring_1 list \<Rightarrow> 'e list \<Rightarrow> 'e \<times> 'e" where
  "round_sums w f = (\<Sum>i < length w div 2. w ! (2 * i) * f ! (2 * i),
     \<Sum>i < length w div 2. (w ! (2 * i + 1) - w ! (2 * i)) * (f ! (2 * i + 1) - f ! (2 * i)))"

definition fold_table :: "'e::comm_ring_1 \<Rightarrow> 'e list \<Rightarrow> 'e list" where
  "fold_table r xs = map (\<lambda>i. xs ! (2 * i) + r * (xs ! (2 * i + 1) - xs ! (2 * i))) [0..<length xs div 2]"

lemma length_fold_table [simp]: "length (fold_table r xs) = length xs div 2"
  by (simp add: fold_table_def)

context round_accumulator
begin

lemma dense_with_eq:
  assumes "2 * (length w div 2) \<le> length f" "length w div 2 \<le> limit" "\<And>n. join_size (par_tree U n) = n"
  shows "accumulate_dense_round_with U A w f = Some (round_sums w f)"
  using assms fold_pairs_total [of "length w div 2"] join_pairs_total [of "par_tree U (length w div 2)"]
  by (simp add: accumulate_dense_round_with_def round_sums_def Let_def not_less atLeast0LessThan)

end

lemma accumulate_dense_round_eq:
  assumes U: "unreduced_laws limit U" and "2 * (length w div 2) \<le> length f" "length w div 2 \<le> limit"
  shows "accumulate_dense_round U w f coeff = Some (coeff * fst (round_sums w f), coeff * snd (round_sums w f))"
proof -
  have tree: "join_size (par_tree U n) = n" for n using U by (simp add: unreduced_laws_def)
  have "accumulate_dense_round_with U direct_deg2 w f = Some (round_sums w f)"
    by (rule direct.dense_with_eq) (use assms tree in simp_all)
  moreover have "sum_is_exact U \<Longrightarrow> accumulate_dense_round_with U (delayed_deg2 U) w f = Some (round_sums w f)"
    by (rule round_accumulator.dense_with_eq [OF delayed_accumulator [OF U]]) (use assms tree in simp_all)
  ultimately show ?thesis by (cases "sum_is_exact U") (simp_all add: accumulate_dense_round_def case_prod_unfold)
qed

section \<open>Fused folds\<close>

lemma nth_fold_table: "i < length xs div 2 \<Longrightarrow> fold_table r xs ! i = xs ! (2 * i) + r * (xs ! (2 * i + 1) - xs ! (2 * i))"
  by (simp add: fold_table_def)

text \<open>A table whose first \<open>2 m\<close> entries are folded and whose rest is untouched.\<close>

definition folded_prefix :: "'e::comm_ring_1 \<Rightarrow> 'e list \<Rightarrow> nat \<Rightarrow> 'e list" where
  "folded_prefix r xs m = map (\<lambda>i. xs ! (2 * i) + r * (xs ! (2 * i + 1) - xs ! (2 * i))) [0..<2 * m] @ drop (2 * m) xs"

lemma folded_prefix_0 [simp]: "folded_prefix r xs 0 = xs"
  by (simp add: folded_prefix_def)

lemma folded_prefix_done: "length xs = 4 * m \<Longrightarrow> take (2 * m) (folded_prefix r xs m) = fold_table r xs"
  by (simp add: folded_prefix_def fold_table_def)

lemma folded_prefix_nth: "2 * m \<le> j \<Longrightarrow> 2 * m \<le> length xs \<Longrightarrow> folded_prefix r xs m ! j = xs ! j"
  by (simp add: folded_prefix_def nth_append)

definition pair_at :: "'e::comm_ring_1 \<Rightarrow> 'e list \<Rightarrow> nat \<Rightarrow> 'e \<times> 'e" where
  "pair_at r xs i = (fold_table r xs ! (2 * i), fold_table r xs ! (2 * i + 1))"

lemma pair_at_eq:
  assumes "4 * i + 3 < length xs"
  shows "pair_at r xs i = (xs ! (4 * i) + r * (xs ! (4 * i + 1) - xs ! (4 * i)), xs ! (4 * i + 2) + r * (xs ! (4 * i + 3) - xs ! (4 * i + 2)))"
proof -
  have idx: "2 * (2 * i) = 4 * i" "2 * (2 * i + 1) = 4 * i + 2" "4 * i + 2 + 1 = 4 * i + 3" by simp_all
  have "2 * i < length xs div 2" "2 * i + 1 < length xs div 2" using assms by simp_all
  then show ?thesis by (simp only: pair_at_def nth_fold_table idx)
qed

lemma fold_quad_eq:
  assumes "unreduced_laws limit U" "4 * i + 3 < length xs"
  shows "fold_quad U r xs i = pair_at r xs i"
  using assms(1) pair_at_eq [OF assms(2), of r] by (simp add: fold_quad_def unreduced_laws_def)

lemma fold_quad_prefix:
  assumes "unreduced_laws limit U" "4 * m + 3 < length xs"
  shows "fold_quad U r (folded_prefix r xs m) m = pair_at r xs m"
proof -
  have "fold_quad U r (folded_prefix r xs m) m = fold_quad U r xs m"
    using assms(2) by (simp add: fold_quad_def folded_prefix_nth)
  then show ?thesis using fold_quad_eq [OF assms] by simp
qed

lemma write_pair_prefix:
  assumes "4 * m + 3 < length xs"
  shows "write_pair m (pair_at r xs m) (folded_prefix r xs m) = folded_prefix r xs (Suc m)"
proof -
  let ?h = "\<lambda>i. xs ! (2 * i) + r * (xs ! (2 * i + 1) - xs ! (2 * i))"
  have two: "2 * Suc m = Suc (Suc (2 * m))" by simp
  have d: "drop (2 * m) xs = xs ! (2 * m) # xs ! (2 * m + 1) # drop (2 * Suc m) xs"
    using assms by (simp add: Cons_nth_drop_Suc)
  have p: "pair_at r xs m = (?h (2 * m), ?h (2 * m + 1))"
    using pair_at_eq [OF assms, of r] by (simp add: numeral_3_eq_3)
  have "write_pair m (?h (2 * m), ?h (2 * m + 1)) (map ?h [0..<2 * m] @ xs ! (2 * m) # xs ! (2 * m + 1) # drop (2 * Suc m) xs) =
      map ?h [0..<2 * m] @ ?h (2 * m) # ?h (2 * m + 1) # drop (2 * Suc m) xs"
    by (simp add: write_pair_def list_update_append)
  also have "\<dots> = map ?h [0..<2 * Suc m] @ drop (2 * Suc m) xs" by (simp add: two)
  finally show ?thesis unfolding folded_prefix_def d p .
qed

lemma length_4: "length xs = 4 * q \<Longrightarrow> m < q \<Longrightarrow> 4 * m + 3 < length xs"
  by simp

lemma head_steps:
  assumes U: "unreduced_laws limit U" and len: "length w = 4 * q" "length f = 4 * q"
  shows "m \<le> q \<Longrightarrow> fold (head_step U A r) [0..<m] (w, f, acc) =
    (folded_prefix r w m, folded_prefix r f m,
     fold (\<lambda>i. add_pair A (fst (pair_at r w i)) (snd (pair_at r w i)) (fst (pair_at r f i)) (snd (pair_at r f i))) [0..<m] acc)"
proof (induction m)
  case (Suc m)
  have m: "4 * m + 3 < length w" "4 * m + 3 < length f" using Suc.prems len by simp_all
  show ?case using Suc.IH Suc.prems
    by (simp add: head_step_def fold_quad_prefix [OF U m(1)] fold_quad_prefix [OF U m(2)] write_pair_prefix m Let_def)
qed simp

lemma witness_steps:
  assumes U: "unreduced_laws limit U" and len: "length w = 4 * q"
  shows "m \<le> q \<Longrightarrow> fold (witness_step U A g r) [0..<m] (w, acc) =
    (folded_prefix r w m,
     fold (\<lambda>i. add_pair A (fst (pair_at r w i)) (snd (pair_at r w i)) (g ! (2 * i)) (g ! (2 * i + 1))) [0..<m] acc)"
proof (induction m)
  case (Suc m)
  have m: "4 * m + 3 < length w" using Suc.prems len by simp
  show ?case using Suc.IH Suc.prems
    by (simp add: witness_step_def fold_quad_prefix [OF U m] write_pair_prefix m Let_def)
qed simp

lemma concat_pairs: "concat (map (\<lambda>i. [h (2 * i), h (2 * i + 1)]) [0..<m]) = map h [0..<2 * m]"
  by (induction m) simp_all

lemma parallel_fold:
  assumes U: "unreduced_laws limit U" and len: "length xs = 4 * q"
  shows "concat (map (\<lambda>i. let v = fold_quad U r xs i in [fst v, snd v]) [0..<q]) = fold_table r xs"
proof -
  have "map (\<lambda>i. let v = fold_quad U r xs i in [fst v, snd v]) [0..<q] =
      map (\<lambda>i. [fold_table r xs ! (2 * i), fold_table r xs ! (2 * i + 1)]) [0..<q]"
    using len by (intro map_cong refl) (simp add: fold_quad_eq [OF U] pair_at_def)
  also have "concat \<dots> = map ((!) (fold_table r xs)) [0..<2 * q]" by (rule concat_pairs)
  also have "\<dots> = fold_table r xs" using len map_nth [of "fold_table r xs"] by simp
  finally show ?thesis .
qed


lemma join_fold_cong:
  "(\<And>i. k \<le> i \<Longrightarrow> i < k + join_size t \<Longrightarrow> f i = g i) \<Longrightarrow> join_fold f zero merge t k = join_fold g zero merge t k"
proof (induction t arbitrary: k)
  case (Part n)
  then have "fold f [k..<k + n] zero = fold g [k..<k + n] zero" by (intro fold_cong) auto
  then show ?case by simp
next
  case (Join l r)
  then show ?case by simp
qed

lemma round_sums_folded:
  assumes "length w = 4 * q"
  shows "round_sums (fold_table r w) g =
    (\<Sum>i < q. fst (pair_at r w i) * g ! (2 * i), \<Sum>i < q. (snd (pair_at r w i) - fst (pair_at r w i)) * (g ! (2 * i + 1) - g ! (2 * i)))"
  using assms by (simp add: round_sums_def pair_at_def)

context round_accumulator
begin

lemma fused_head_eq:
  assumes U: "unreduced_laws l U" and len: "length w = 4 * q" "length f = 4 * q" and q: "q \<le> limit"
  shows "fused_fold_group_head_and_accumulate_with U A w f r =
    Some (round_sums (fold_table r w) (fold_table r f), fold_table r w, fold_table r f)"
proof -
  let ?step = "\<lambda>i. add_pair A (fst (pair_at r w i)) (snd (pair_at r w i)) (fst (pair_at r f i)) (snd (pair_at r f i))"
  have tree: "join_size (par_tree U n) = n" for n using U by (simp add: unreduced_laws_def)
  have sums: "round_sums (fold_table r w) (fold_table r f) = (\<Sum>i < q. fst (pair_at r w i) * fst (pair_at r f i),
      \<Sum>i < q. (snd (pair_at r w i) - fst (pair_at r w i)) * (snd (pair_at r f i) - fst (pair_at r f i)))"
    unfolding round_sums_folded [OF len(1)] by (simp add: pair_at_def)
  have half: "length w div 2 = 2 * q" "2 * q div 2 = q" using len by simp_all
  have serial: "acc_finish A (fold ?step [0..<q] (acc_zero A)) = round_sums (fold_table r w) (fold_table r f)"
    using fold_pairs_total [OF q] by (simp add: sums atLeast0LessThan)
  have par: "acc_finish A (join_fold ?step (acc_zero A) (acc_merge A) (par_tree U q) 0) = round_sums (fold_table r w) (fold_table r f)"
    using join_pairs_total [of "par_tree U q"] q by (simp add: sums tree atLeast0LessThan)
  have cong: "join_fold (\<lambda>i. let fw = fold_quad U r w i; fa = fold_quad U r f i in add_pair A (fst fw) (snd fw) (fst fa) (snd fa))
      (acc_zero A) (acc_merge A) (par_tree U q) 0 = join_fold ?step (acc_zero A) (acc_merge A) (par_tree U q) 0"
    by (rule join_fold_cong) (simp add: tree fold_quad_eq [OF U] len Let_def)
  show ?thesis unfolding fused_fold_group_head_and_accumulate_with_def Let_def half
    using par [folded cong, unfolded Let_def] serial len
    by (simp add: parallel_fold [OF U, unfolded Let_def] head_steps [OF U len, of q] folded_prefix_done)
qed

lemma fused_witness_eq:
  assumes U: "unreduced_laws l U" and len: "length w = 4 * q" "length g = 2 * q" and q: "q \<le> limit"
  shows "fused_fold_witness_and_accumulate_with U A w g r = Some (round_sums (fold_table r w) g, fold_table r w)"
proof -
  let ?step = "\<lambda>i. add_pair A (fst (pair_at r w i)) (snd (pair_at r w i)) (g ! (2 * i)) (g ! (2 * i + 1))"
  have tree: "join_size (par_tree U n) = n" for n using U by (simp add: unreduced_laws_def)
  note sums = round_sums_folded [OF len(1), of r g]
  have half: "length w div 2 = 2 * q" "2 * q div 2 = q" using len by simp_all
  have serial: "acc_finish A (fold ?step [0..<q] (acc_zero A)) = round_sums (fold_table r w) g"
    using fold_pairs_total [OF q] by (simp add: sums atLeast0LessThan)
  have par: "acc_finish A (join_fold ?step (acc_zero A) (acc_merge A) (par_tree U q) 0) = round_sums (fold_table r w) g"
    using join_pairs_total [of "par_tree U q"] q by (simp add: sums tree atLeast0LessThan)
  have cong: "join_fold (\<lambda>i. let fw = fold_quad U r w i in add_pair A (fst fw) (snd fw) (g ! (2 * i)) (g ! (2 * i + 1)))
      (acc_zero A) (acc_merge A) (par_tree U q) 0 = join_fold ?step (acc_zero A) (acc_merge A) (par_tree U q) 0"
    by (rule join_fold_cong) (simp add: tree fold_quad_eq [OF U] len Let_def)
  show ?thesis unfolding fused_fold_witness_and_accumulate_with_def Let_def half
    using par [folded cong, unfolded Let_def] serial len
    by (simp add: parallel_fold [OF U, unfolded Let_def] witness_steps [OF U len(1), of q] folded_prefix_done)
qed

end

lemma fused_group_head:
  assumes U: "unreduced_laws limit U" and len: "length w = 4 * q" "length f = 4 * q" "q \<le> limit"
  shows "fused_fold_group_head_and_accumulate U w f r =
    Some (round_sums (fold_table r w) (fold_table r f), fold_table r w, fold_table r f)"
  using direct.fused_head_eq [OF U len] round_accumulator.fused_head_eq [OF delayed_accumulator [OF U] U len]
  by (simp add: fused_fold_group_head_and_accumulate_def)

lemma fused_witness:
  assumes U: "unreduced_laws limit U" and len: "length w = 4 * q" "length g = 2 * q" "q \<le> limit"
  shows "fused_fold_witness_and_accumulate U w g r = Some (round_sums (fold_table r w) g, fold_table r w)"
  using direct.fused_witness_eq [OF U len] round_accumulator.fused_witness_eq [OF delayed_accumulator [OF U] U len]
  by (simp add: fused_fold_witness_and_accumulate_def)

lemma plain_fold:
  assumes U: "unreduced_laws limit U" and len: "length w = 2 ^ Suc k"
  shows "fold_evals_in_place (par_feature U) (fold_pair U) w r = Some (fold_table r w)"
proof -
  have ne: "w \<noteq> []" and half: "ceil_div (length w) 2 = length w div 2" using len by (auto simp: ceil_div_def)
  have "fold_evals_in_place (par_feature U) (fold_pair U) w r =
      Some (map (\<lambda>i. fold_pair U r (w ! (2 * i)) (get_or_zero w (2 * i + 1))) [0..<length w div 2])"
    using fold_evals_eq [OF ne] half by simp
  also have "\<dots> = Some (fold_table r w)"
    using U len by (auto simp: fold_table_def unreduced_laws_def get_or_zero_def)
  finally show ?thesis .
qed

section \<open>Tables of a group\<close>

text \<open>
  What a group stands for: weighted witness tables against one factor table, the unbound cylindrical
  coordinates, and the scale of the bound ones.  Binding a challenge folds the tables while they have
  a variable left, then the cylindrical coordinates.
\<close>

record 'e table_group =
  tg_terms :: "('e \<times> 'e list) list"
  tg_factor :: "'e list"
  tg_point :: "'e list"
  tg_scale :: 'e

definition bind_group :: "'e::comm_ring_1 \<Rightarrow> 'e table_group \<Rightarrow> 'e table_group" where
  "bind_group r a =
     (if length (tg_factor a) > 1
      then a\<lparr>tg_terms := map (\<lambda>(c, w). (c, fold_table r w)) (tg_terms a), tg_factor := fold_table r (tg_factor a)\<rparr>
      else case tg_point a of [] \<Rightarrow> a | p # ps \<Rightarrow> a\<lparr>tg_point := ps, tg_scale := tg_scale a * eq_factor p r\<rparr>)"

definition group_total :: "'e::comm_ring_1 table_group \<Rightarrow> 'e" where
  "group_total a = tg_scale a * (\<Sum>(c, w)\<leftarrow>tg_terms a. c * (\<Sum>i < length (tg_factor a). w ! i * tg_factor a ! i))"

fun group_value :: "'e::comm_ring_1 table_group \<Rightarrow> 'e list \<Rightarrow> 'e" where
  "group_value a [] = group_total a"
| "group_value a (r # rs) = group_value (bind_group r a) rs"

definition group_wf :: "nat \<Rightarrow> 'e table_group \<Rightarrow> bool" where
  "group_wf m a \<longleftrightarrow> (\<exists>k. length (tg_factor a) = 2 ^ k \<and> (\<forall>(c, w) \<in> set (tg_terms a). length w = 2 ^ k) \<and> m = k + length (tg_point a))"

definition group_round :: "'e::comm_ring_1 table_group \<Rightarrow> 'e \<times> 'e" where
  "group_round a =
     (if length (tg_factor a) > 1
      then (tg_scale a * (\<Sum>(c, w)\<leftarrow>tg_terms a. c * fst (round_sums w (tg_factor a))),
            tg_scale a * (\<Sum>(c, w)\<leftarrow>tg_terms a. c * snd (round_sums w (tg_factor a))))
      else case tg_point a of [] \<Rightarrow> (0, 0) | p # ps \<Rightarrow> (group_total a * (1 - p), 0))"

lemma power2_gt1: "1 < (2::nat) ^ k \<longleftrightarrow> 0 < k"
  using one_less_power [of "2::nat" k] by (cases "k = 0") simp_all

lemma group_wf_bind: "group_wf (Suc m) a \<Longrightarrow> group_wf m (bind_group r a)"
proof -
  assume "group_wf (Suc m) a"
  then obtain k where k: "length (tg_factor a) = 2 ^ k" "\<And>c w. (c, w) \<in> set (tg_terms a) \<Longrightarrow> length w = 2 ^ k" "Suc m = k + length (tg_point a)"
    by (auto simp: group_wf_def)
  show ?thesis
  proof (cases k)
    case 0
    then show ?thesis using k by (cases "tg_point a") (auto simp: group_wf_def bind_group_def intro!: exI [of _ 0])
  next
    case (Suc k')
    then show ?thesis using k power2_gt1 [of k] by (auto simp: group_wf_def bind_group_def intro!: exI [of _ k'])
  qed
qed

lemma sum_list_mult: "a * (\<Sum>x\<leftarrow>xs. f x) = (\<Sum>x\<leftarrow>xs. a * f x :: 'e::comm_ring_1)"
  by (induction xs) (simp_all add: algebra_simps)

lemma sum_list_cong: "(\<And>x. x \<in> set xs \<Longrightarrow> f x = g x) \<Longrightarrow> (\<Sum>x\<leftarrow>xs. f x) = (\<Sum>x\<leftarrow>xs. g x)"
  by (induction xs) auto

text \<open>The sum over the folded tables is a quadratic polynomial in the challenge.\<close>

lemma fold_table_product:
  assumes len: "length w = 2 * n" "length f = 2 * n"
  shows "(\<Sum>i < n. fold_table r w ! i * fold_table r f ! i) =
    (1 - r) * (\<Sum>i < n. w ! (2 * i) * f ! (2 * i)) + r * (\<Sum>i < n. w ! (2 * i + 1) * f ! (2 * i + 1)) +
    (r * r - r) * snd (round_sums w f)"
proof -
  have "(\<Sum>i < n. fold_table r w ! i * fold_table r f ! i) = (\<Sum>i < n. (1 - r) * (w ! (2 * i) * f ! (2 * i)) +
      r * (w ! (2 * i + 1) * f ! (2 * i + 1)) + (r * r - r) * ((w ! (2 * i + 1) - w ! (2 * i)) * (f ! (2 * i + 1) - f ! (2 * i))))"
    using len by (intro sum.cong refl) (simp add: nth_fold_table algebra_simps)
  then show ?thesis using len by (simp add: sum.distrib sum_distrib_left round_sums_def)
qed

lemma group_total_bind:
  assumes wf: "group_wf (Suc m) a"
  shows "group_total (bind_group r a) =
    fst (group_round a) + r * (group_total a - fst (group_round a) - fst (group_round a) - snd (group_round a)) + r * r * snd (group_round a)"
proof -
  from wf obtain k where k: "length (tg_factor a) = 2 ^ k" "\<And>c w. (c, w) \<in> set (tg_terms a) \<Longrightarrow> length w = 2 ^ k"
    "Suc m = k + length (tg_point a)" by (auto simp: group_wf_def)
  show ?thesis
  proof (cases k)
    case 0
    then obtain p ps where "tg_point a = p # ps" using k(3) by (cases "tg_point a") auto
    then show ?thesis using k 0 by (simp add: bind_group_def group_round_def group_total_def eq_factor_def algebra_simps)
  next
    case (Suc n)
    let ?f = "tg_factor a"
    have f: "length ?f = 2 * 2 ^ n" "1 < length ?f" using k Suc power2_gt1 [of k] by simp_all
    have one: "c * (\<Sum>i < 2 ^ n. fold_table r w ! i * fold_table r ?f ! i) = c * fst (round_sums w ?f) +
        r * (c * (\<Sum>i < length ?f. w ! i * ?f ! i) - c * fst (round_sums w ?f) - c * fst (round_sums w ?f) - c * snd (round_sums w ?f)) +
        r * r * (c * snd (round_sums w ?f))" if "(c, w) \<in> set (tg_terms a)" for c w
    proof -
      have w: "length w = 2 * 2 ^ n" using k(2) [OF that] Suc by simp
      have all: "(\<Sum>i < length ?f. w ! i * ?f ! i) = (\<Sum>i < 2 ^ n. w ! (2 * i) * ?f ! (2 * i)) + (\<Sum>i < 2 ^ n. w ! (2 * i + 1) * ?f ! (2 * i + 1))"
        unfolding f(1) sum_even by (simp add: sum.distrib)
      have c0: "fst (round_sums w ?f) = (\<Sum>i < 2 ^ n. w ! (2 * i) * ?f ! (2 * i))" using w by (simp add: round_sums_def)
      show ?thesis unfolding fold_table_product [OF w f(1)] all c0 by (simp add: algebra_simps)
    qed
    define C Q T where "C = (\<Sum>(c, w)\<leftarrow>tg_terms a. c * fst (round_sums w ?f))"
      and "Q = (\<Sum>(c, w)\<leftarrow>tg_terms a. c * snd (round_sums w ?f))"
      and "T = (\<Sum>(c, w)\<leftarrow>tg_terms a. c * (\<Sum>i < length ?f. w ! i * ?f ! i))"
    have "(\<Sum>(c, w)\<leftarrow>tg_terms a. c * (\<Sum>i < 2 ^ n. fold_table r w ! i * fold_table r ?f ! i)) =
      (\<Sum>(c, w)\<leftarrow>tg_terms a. c * fst (round_sums w ?f) +
        r * (c * (\<Sum>i < length ?f. w ! i * ?f ! i) - c * fst (round_sums w ?f) - c * fst (round_sums w ?f) - c * snd (round_sums w ?f)) +
        r * r * (c * snd (round_sums w ?f)))"
      using one by (intro sum_list_cong) auto
    also have "\<dots> = C + r * (T - C - C - Q) + r * r * Q"
      by (simp add: C_def Q_def T_def case_prod_unfold sum_list_addf sum_list_subtractf sum_list_mult [symmetric])
    finally have fold: "(\<Sum>(c, w)\<leftarrow>tg_terms a. c * (\<Sum>i < 2 ^ n. fold_table r w ! i * fold_table r ?f ! i)) = C + r * (T - C - C - Q) + r * r * Q" .
    have "group_total (bind_group r a) = tg_scale a * (C + r * (T - C - C - Q) + r * r * Q)"
      unfolding fold [symmetric] using f by (simp add: group_total_def bind_group_def comp_def case_prod_unfold)
    moreover have "group_round a = (tg_scale a * C, tg_scale a * Q)" using f by (simp add: group_round_def C_def Q_def)
    moreover have "group_total a = tg_scale a * T" by (simp add: group_total_def T_def)
    ultimately show ?thesis by (simp add: algebra_simps)
  qed
qed

lemma cube_sum_shift: "cube_sum ws g (x # rs) = cube_sum ws (\<lambda>us. g (x # us)) rs"
  by (induction ws arbitrary: rs) (auto simp: cube_sum_Cons)

lemma cube_sum_value: "cube_sum ws (group_value a) (x # rs) = cube_sum ws (group_value (bind_group x a)) rs"
  by (simp add: cube_sum_shift)

lemma cube_sum_group: "group_wf m a \<Longrightarrow> cube_sum (standard_weights m) (group_value a) [] = group_total a"
proof (induction m arbitrary: a)
  case (Suc m)
  have "cube_sum (standard_weights (Suc m)) (group_value a) [] =
      group_total (bind_group 0 a) + group_total (bind_group 1 a)"
    using Suc.IH [OF group_wf_bind [OF Suc.prems]] by (simp add: cube_sum_value)
  then show ?case by (simp add: group_total_bind [OF Suc.prems] algebra_simps)
qed simp

text \<open>At a full point, the value is that of the multilinear extensions and of the equality polynomial.\<close>

lemma group_value_at_point:
  "length (tg_factor a) = 2 ^ k \<Longrightarrow> (\<And>c w. (c, w) \<in> set (tg_terms a) \<Longrightarrow> length w = 2 ^ k) \<Longrightarrow>
   length rs = k \<Longrightarrow> length us = length (tg_point a) \<Longrightarrow>
   group_value a (rs @ us) = tg_scale a * prod_list (map2 eq_factor (tg_point a) us) * mle_sum (tg_factor a) rs *
     (\<Sum>(c, w)\<leftarrow>tg_terms a. c * mle_sum w rs)"
proof (induction rs arbitrary: a k)
  case Nil
  then have k: "length (tg_factor a) = 1" "\<And>c w. (c, w) \<in> set (tg_terms a) \<Longrightarrow> length w = 1" by simp_all
  show ?case using Nil.prems(4) k
  proof (induction us arbitrary: a)
    case Nil
    have "(\<Sum>(c, w)\<leftarrow>tg_terms a. c * (w ! 0 * tg_factor a ! 0)) = tg_factor a ! 0 * (\<Sum>(c, w)\<leftarrow>tg_terms a. c * mle_sum w [])"
      unfolding sum_list_mult using Nil by (intro sum_list_cong) (auto simp: mle_sum_def)
    then show ?case using Nil by (simp add: group_total_def mle_sum_def mult.assoc)
  next
    case (Cons u us)
    from Cons.prems(1) obtain p ps where p: "tg_point a = p # ps" by (cases "tg_point a") auto
    with Cons.prems have b: "bind_group u a = a\<lparr>tg_point := ps, tg_scale := tg_scale a * eq_factor p u\<rparr>" by (simp add: bind_group_def)
    show ?case using Cons.IH [of "bind_group u a"] Cons.prems p by (simp add: b mult.assoc)
  qed
next
  case (Cons r rs)
  from Cons.prems(3) obtain k' where k': "k = Suc k'" "length rs = k'" by auto
  have fold: "length w = 2 ^ k \<Longrightarrow> mle_sum w (r # rs) = mle_sum (fold_table r w) rs" for w :: "'a list"
    using mle_sum_fold [of w k' r rs] k' by (simp add: fold_table_def)
  have "1 < length (tg_factor a)" using Cons.prems(1) k' power2_gt1 [of k] by simp
  then have b: "bind_group r a = a\<lparr>tg_terms := map (\<lambda>(c, w). (c, fold_table r w)) (tg_terms a), tg_factor := fold_table r (tg_factor a)\<rparr>"
    by (simp add: bind_group_def)
  have sums: "(\<Sum>(c, w)\<leftarrow>tg_terms a. c * mle_sum (fold_table r w) rs) = (\<Sum>(c, w)\<leftarrow>tg_terms a. c * mle_sum w (r # rs))"
    using Cons.prems(2) fold by (intro sum_list_cong) auto
  have "group_value (bind_group r a) (rs @ us) = tg_scale a * prod_list (map2 eq_factor (tg_point a) us) *
      mle_sum (fold_table r (tg_factor a)) rs * (\<Sum>(c, w)\<leftarrow>tg_terms a. c * mle_sum (fold_table r w) rs)"
    using Cons.IH [of "bind_group r a" k'] Cons.prems k' by (simp add: b comp_def case_prod_unfold) (fastforce simp: case_prod_unfold)
  then show ?case using fold [OF Cons.prems(1)] sums by simp
qed


section \<open>The group refines its tables\<close>

definition tables_of :: "'e reduction_group \<Rightarrow> 'e table_group" where
  "tables_of g = \<lparr>tg_terms = map (\<lambda>t. (rt_coeff t, rt_witness t)) (rg_terms g), tg_factor = rg_factor g,
     tg_point = drop (rg_extra_round g) (rg_extra_point g), tg_scale = rg_extra_factor_eval g\<rparr>"

definition cache_valid :: "'e::comm_ring_1 list \<Rightarrow> 'e reduction_term \<Rightarrow> bool" where
  "cache_valid factor t \<longleftrightarrow> rt_cached_accumulate t = None \<or>
     rt_cached_accumulate t = Some (rt_coeff t * fst (round_sums (rt_witness t) factor), rt_coeff t * snd (round_sums (rt_witness t) factor))"

text \<open>\<open>m\<close> variables are left, a cached round is the one of the current tables, and nothing is scaled before the tables are bound.\<close>

definition group_inv :: "nat \<Rightarrow> nat \<Rightarrow> 'e::comm_ring_1 reduction_group \<Rightarrow> bool" where
  "group_inv limit m g \<longleftrightarrow> group_wf m (tables_of g) \<and> m < 64 \<and> length (rg_factor g) \<le> 2 * limit \<and>
     rg_extra_round g \<le> length (rg_extra_point g) \<and>
     (1 < length (rg_factor g) \<longrightarrow> rg_extra_factor_eval g = 1 \<and> (\<forall>t \<in> set (rg_terms g). cache_valid (rg_factor g) t))"

lemma group_inv_lengths:
  "group_inv limit m g \<Longrightarrow> \<exists>k. length (rg_factor g) = 2 ^ k \<and> (\<forall>t \<in> set (rg_terms g). length (rt_witness t) = 2 ^ k) \<and>
    m = k + (length (rg_extra_point g) - rg_extra_round g)"
  by (auto simp: group_inv_def group_wf_def tables_of_def)

lemma domain_len_eq:
  assumes "group_inv limit m g"
  shows "domain_len g = 2 ^ m"
proof -
  from group_inv_lengths [OF assms] obtain k where k: "length (rg_factor g) = 2 ^ k" "m = k + (length (rg_extra_point g) - rg_extra_round g)"
    by blast
  have m: "m < 64" using assms by (simp add: group_inv_def)
  then have "(2::nat) ^ m < 2 ^ 64" by (intro power_strict_increasing) simp_all
  then show ?thesis using k m by (simp add: domain_len_def usize_checked_shl_def u32_max_def power_add [symmetric] Let_def)
qed

lemma accumulate_terms_eq:
  assumes U: "unreduced_laws limit U" and f: "length f = 2 ^ Suc k" "length f \<le> 2 * limit"
  shows "(\<forall>t \<in> set ts. length (rt_witness t) = 2 ^ Suc k \<and> cache_valid f t) \<Longrightarrow>
    accumulate_terms U f ts (c, q) = Some ((c + (\<Sum>t\<leftarrow>ts. rt_coeff t * fst (round_sums (rt_witness t) f)),
      q + (\<Sum>t\<leftarrow>ts. rt_coeff t * snd (round_sums (rt_witness t) f))), map (\<lambda>t. t\<lparr>rt_cached_accumulate := None\<rparr>) ts)"
proof (induction ts arbitrary: c q)
  case (Cons t ts)
  have "accumulate_dense_round U (rt_witness t) f (rt_coeff t) =
      Some (rt_coeff t * fst (round_sums (rt_witness t) f), rt_coeff t * snd (round_sums (rt_witness t) f))"
    using Cons.prems f by (intro accumulate_dense_round_eq [OF U]) simp_all
  then have "(case rt_cached_accumulate t of Some cached \<Rightarrow> Some cached | None \<Rightarrow> accumulate_dense_round U (rt_witness t) f (rt_coeff t)) =
      Some (rt_coeff t * fst (round_sums (rt_witness t) f), rt_coeff t * snd (round_sums (rt_witness t) f))"
    using Cons.prems by (auto simp: cache_valid_def)
  with Cons show ?case by (simp add: add.assoc)
qed simp

lemma foldl_add_terms: "foldl (\<lambda>acc t. acc + h t) a ts = a + (\<Sum>t\<leftarrow>ts. h t :: 'e::comm_ring_1)"
  by (induction ts arbitrary: a) (simp_all add: add.assoc)

lemma accumulate_into_eq:
  assumes U: "unreduced_laws limit U" and inv: "group_inv limit (Suc m) g"
  shows "\<exists>g'. accumulate_into U g (c, q) = Some ((c + fst (group_round (tables_of g)), q + snd (group_round (tables_of g))), g') \<and>
    tables_of g' = tables_of g \<and> group_inv limit (Suc m) g'"
proof -
  from group_inv_lengths [OF inv] obtain k where k: "length (rg_factor g) = 2 ^ k" "\<And>t. t \<in> set (rg_terms g) \<Longrightarrow> length (rt_witness t) = 2 ^ k"
    "Suc m = k + (length (rg_extra_point g) - rg_extra_round g)" by blast
  have lim: "length (rg_factor g) \<le> 2 * limit" using inv by (simp add: group_inv_def)
  show ?thesis
  proof (cases k)
    case (Suc k')
    then have big: "1 < length (rg_factor g)" using k(1) power2_gt1 [of k] by simp
    let ?g = "g\<lparr>rg_terms := map (\<lambda>t. t\<lparr>rt_cached_accumulate := None\<rparr>) (rg_terms g)\<rparr>"
    have one: "rg_extra_factor_eval g = 1" and terms: "\<forall>t \<in> set (rg_terms g). length (rt_witness t) = 2 ^ Suc k' \<and> cache_valid (rg_factor g) t"
      using inv big k(2) Suc by (auto simp: group_inv_def)
    have len: "length (rg_factor g) = 2 ^ Suc k'" using k(1) Suc by simp
    have tab: "tables_of ?g = tables_of g" by (simp add: tables_of_def comp_def)
    have "group_inv limit (Suc m) ?g" using inv tab by (simp add: group_inv_def cache_valid_def)
    moreover have "accumulate_into U g (c, q) = Some ((c + fst (group_round (tables_of g)), q + snd (group_round (tables_of g))), ?g)"
      using big one by (simp add: accumulate_into_def accumulate_terms_eq [OF U len lim terms] group_round_def tables_of_def comp_def)
    ultimately show ?thesis using tab by blast
  next
    case 0
    then have cyl: "rg_extra_round g < length (rg_extra_point g)" using k(3) by simp
    let ?p = "rg_extra_point g ! rg_extra_round g"
    have pt: "drop (rg_extra_round g) (rg_extra_point g) = ?p # drop (Suc (rg_extra_round g)) (rg_extra_point g)"
      using cyl by (simp add: Cons_nth_drop_Suc)
    have ne: "rg_factor g \<noteq> []" "\<not> list_ex (\<lambda>t. rt_witness t = []) (rg_terms g)" using k(1) k(2) 0 by (auto simp: list_ex_iff dest!: k(2))
    have f1: "length (rg_factor g) = 1" using k(1) 0 by simp
    have "(\<Sum>t\<leftarrow>rg_terms g. rt_coeff t * rt_witness t ! 0 * (rg_factor g ! 0 * rg_extra_factor_eval g * (1 - ?p))) =
        group_total (tables_of g) * (1 - ?p)"
    proof -
      have "group_total (tables_of g) * (1 - ?p) = (rg_extra_factor_eval g * (1 - ?p)) * (\<Sum>t\<leftarrow>rg_terms g. rt_coeff t * (rt_witness t ! 0 * rg_factor g ! 0))"
        using f1 by (simp add: group_total_def tables_of_def comp_def algebra_simps)
      then show ?thesis unfolding sum_list_mult by (simp add: algebra_simps)
    qed
    then have "accumulate_into U g (c, q) = Some ((c + fst (group_round (tables_of g)), q + snd (group_round (tables_of g))), g)"
      using f1 ne cyl by (simp add: accumulate_into_def slice_nth_def foldl_add_terms group_round_def Let_def) (simp add: tables_of_def pt)
    then show ?thesis using inv by blast
  qed
qed

lemma those_map_Some: "(\<And>x. x \<in> set xs \<Longrightarrow> f x = Some (g x)) \<Longrightarrow> those (map f xs) = Some (map g xs)"
  by (induction xs) simp_all

definition fold_term :: "'e::comm_ring_1 \<Rightarrow> 'e list \<Rightarrow> 'e reduction_term \<Rightarrow> 'e reduction_term" where
  "fold_term r factor t = cache_round (round_sums (fold_table r (rt_witness t)) factor) (fold_table r (rt_witness t)) t"

lemma cache_valid_fold: "cache_valid factor (fold_term r factor t)"
  by (simp add: cache_valid_def fold_term_def cache_round_def)

text \<open>Folding the tables of a group whose tables have a variable left.\<close>

lemma group_inv_folded:
  assumes inv: "group_inv limit (Suc m) g" and big: "1 < length (rg_factor g)"
    and h: "\<And>t. t \<in> set (rg_terms g) \<Longrightarrow> rt_coeff (h t) = rt_coeff t \<and> rt_witness (h t) = fold_table r (rt_witness t)"
    and cache: "\<And>t. t \<in> set (rg_terms g) \<Longrightarrow> cache_valid (fold_table r (rg_factor g)) (h t)"
    and g': "g' = g\<lparr>rg_factor := fold_table r (rg_factor g), rg_terms := map h (rg_terms g)\<rparr>"
  shows "tables_of g' = bind_group r (tables_of g) \<and> group_inv limit m g'"
proof -
  have tab: "tables_of g' = bind_group r (tables_of g)" using big h by (simp add: tables_of_def bind_group_def g')
  have "group_wf m (tables_of g')" unfolding tab by (rule group_wf_bind) (use inv in \<open>simp add: group_inv_def\<close>)
  then show ?thesis using tab inv big cache by (auto simp: group_inv_def g')
qed

lemma group_ingest_eq:
  assumes U: "unreduced_laws limit U" and inv: "group_inv limit (Suc m) g"
  shows "\<exists>g'. group_ingest_challenge U r g = Some g' \<and> tables_of g' = bind_group r (tables_of g) \<and> group_inv limit m g'"
proof -
  from group_inv_lengths [OF inv] obtain k where k: "length (rg_factor g) = 2 ^ k"
    "\<And>t. t \<in> set (rg_terms g) \<Longrightarrow> length (rt_witness t) = 2 ^ k" "Suc m = k + (length (rg_extra_point g) - rg_extra_round g)" by blast
  have dom: "\<not> domain_len g \<le> 1" using domain_len_eq [OF inv] power2_gt1 [of "Suc m"] by simp
  have lim: "length (rg_factor g) \<le> 2 * limit" using inv by (simp add: group_inv_def)
  show ?thesis
  proof (cases k)
    case 0
    then have cyl: "rg_extra_round g < length (rg_extra_point g)" using k(3) by simp
    let ?p = "rg_extra_point g ! rg_extra_round g"
    let ?g = "g\<lparr>rg_extra_factor_eval := rg_extra_factor_eval g * ((1 - ?p) * (1 - r) + ?p * r), rg_extra_round := rg_extra_round g + 1\<rparr>"
    have f1: "length (rg_factor g) = 1" using k(1) 0 by simp
    have pt: "drop (rg_extra_round g) (rg_extra_point g) = ?p # drop (Suc (rg_extra_round g)) (rg_extra_point g)"
      using cyl by (simp add: Cons_nth_drop_Suc)
    have tab: "tables_of ?g = bind_group r (tables_of g)"
      using f1 by (simp add: tables_of_def bind_group_def pt eq_factor_def algebra_simps)
    have "group_wf m (tables_of ?g)" unfolding tab by (rule group_wf_bind) (use inv in \<open>simp add: group_inv_def\<close>)
    then have "group_inv limit m ?g" using inv cyl f1 by (simp add: group_inv_def)
    then show ?thesis using tab dom f1 cyl by (simp add: group_ingest_challenge_def slice_nth_def)
  next
    case (Suc k')
    then have big: "1 < length (rg_factor g)" and f: "length (rg_factor g) = 2 ^ Suc k'" using k(1) power2_gt1 [of k] by simp_all
    let ?F = "fold_table r (rg_factor g)"
    show ?thesis
    proof (cases "length (rg_factor g) \<ge> 4 \<and> rg_terms g \<noteq> []")
      case True
      then obtain first rest where ts: "rg_terms g = first # rest" by (cases "rg_terms g") auto
      from True f have "k' \<noteq> 0" by (intro notI) simp
      then obtain q where q: "(2::nat) ^ k = 4 * 2 ^ q" using Suc by (cases k') auto
      have len: "length (rg_factor g) = 4 * 2 ^ q" "\<And>t. t \<in> set (rg_terms g) \<Longrightarrow> length (rt_witness t) = 4 * 2 ^ q" "2 ^ q \<le> limit"
        using k q lim by simp_all
      have head: "fused_fold_group_head_and_accumulate U (rt_witness first) (rg_factor g) r =
          Some (round_sums (fold_table r (rt_witness first)) ?F, fold_table r (rt_witness first), ?F)"
        using len ts by (intro fused_group_head [OF U]) simp_all
      have "ingest_witness U ?F r t = Some (fold_term r ?F t)" if "t \<in> set rest" for t
        using len ts that fused_witness [OF U, of "rt_witness t" "2 ^ q" ?F r]
        by (simp add: ingest_witness_def fold_term_def)
      then have rest: "those (map (ingest_witness U ?F r) rest) = Some (map (fold_term r ?F) rest)" by (rule those_map_Some)
      let ?g = "g\<lparr>rg_factor := ?F, rg_terms := map (fold_term r ?F) (rg_terms g)\<rparr>"
      have "group_ingest_challenge U r g = Some ?g"
        using dom big True ts head rest by (simp add: group_ingest_challenge_def fold_term_def [of r ?F first])
      moreover have "tables_of ?g = bind_group r (tables_of g) \<and> group_inv limit m ?g"
        by (rule group_inv_folded [OF inv big, where h = "fold_term r ?F"])
          (simp_all add: cache_valid_fold, simp_all add: fold_term_def cache_round_def)
      ultimately show ?thesis by blast
    next
      case False
      let ?h = "\<lambda>t. t\<lparr>rt_witness := fold_table r (rt_witness t), rt_cached_accumulate := None\<rparr>"
      let ?g = "g\<lparr>rg_factor := ?F, rg_terms := map ?h (rg_terms g)\<rparr>"
      have "plain_fold_term U r t = Some (?h t)" if "t \<in> set (rg_terms g)" for t
        using plain_fold [OF U, of "rt_witness t" k' r] k(2) [OF that] Suc by (simp add: plain_fold_term_def)
      then have "those (map (plain_fold_term U r) (rg_terms g)) = Some (map ?h (rg_terms g))" by (rule those_map_Some)
      then have "plain_fold_group U r g = Some ?g" using plain_fold [OF U f, of r] by (simp add: plain_fold_group_def)
      then have "group_ingest_challenge U r g = Some ?g"
        using dom big False by (simp add: group_ingest_challenge_def split: list.split)
      moreover have "tables_of ?g = bind_group r (tables_of g) \<and> group_inv limit m ?g"
        by (rule group_inv_folded [OF inv big, where h = ?h]) (simp_all add: cache_valid_def)
      ultimately show ?thesis by blast
    qed
  qed
qed

section \<open>The prover\<close>

text \<open>
  The constructor, degree and coefficients of univariate polynomials, and the number of coefficients
  a compressed polynomial keeps.
\<close>

definition univariate_laws :: "('u, 'z, 'o, 'e::comm_ring_1) poly_ops \<Rightarrow> ('u, 'e) univariate_ops \<Rightarrow> bool" where
  "univariate_laws P N \<longleftrightarrow>
     (\<forall>cs x. cs \<noteq> [] \<longrightarrow> poly_evaluate P (uv_new N cs) x = poly_value cs x) \<and>
     (\<forall>cs. cs \<noteq> [] \<longrightarrow> uv_degree N (uv_new N cs) < length cs) \<and>
     (\<forall>u x. poly_value (uv_coefficients N u) x = poly_evaluate P u x) \<and>
     (\<forall>cs. length (uv_coefficients N (uv_new N cs)) \<le> length cs) \<and>
     (\<forall>cs. 2 \<le> length cs \<longrightarrow> coeffs_except_linear_term P (poly_compress P (uv_new N cs)) \<noteq> [] \<and>
        length (coeffs_except_linear_term P (poly_compress P (uv_new N cs))) < length cs)"

definition prover_value :: "'e::comm_ring_1 reduction_prover \<Rightarrow> 'e list \<Rightarrow> 'e" where
  "prover_value p us = (\<Sum>g\<leftarrow>rp_groups p. group_value (tables_of g) us)"

definition prover_tables :: "'e reduction_prover \<Rightarrow> 'e table_group list" where
  "prover_tables p = map tables_of (rp_groups p)"

lemma prover_value_tables: "prover_value p us = (\<Sum>a\<leftarrow>prover_tables p. group_value a us)"
  by (simp add: prover_value_def prover_tables_def comp_def)

lemma prover_value_bind:
  "prover_tables p' = map (bind_group r) (prover_tables p) \<Longrightarrow> prover_value p' = (\<lambda>us. prover_value p (r # us))"
  by (simp add: fun_eq_iff prover_value_tables comp_def)

definition prover_inv :: "nat \<Rightarrow> nat \<Rightarrow> 'e::comm_ring_1 reduction_prover \<Rightarrow> bool" where
  "prover_inv limit m p \<longleftrightarrow> (\<forall>g \<in> set (rp_groups p). group_inv limit m g)"

lemma cube_sum_sum_list: "cube_sum ws (\<lambda>us. \<Sum>x\<leftarrow>xs. f x us) rs = (\<Sum>x\<leftarrow>xs. cube_sum ws (f x) rs)"
  by (induction ws arbitrary: rs) (auto simp: cube_sum_Cons sum_list_addf sum_list_mult)

lemma accumulate_groups_eq:
  assumes U: "unreduced_laws limit U"
  shows "(\<forall>g \<in> set gs. group_inv limit (Suc m) g) \<Longrightarrow> \<exists>gs'. accumulate_groups U gs (c, q) =
    Some ((c + (\<Sum>g\<leftarrow>gs. fst (group_round (tables_of g))), q + (\<Sum>g\<leftarrow>gs. snd (group_round (tables_of g)))), gs') \<and>
    map tables_of gs' = map tables_of gs \<and> (\<forall>g \<in> set gs'. group_inv limit (Suc m) g)"
proof (induction gs arbitrary: c q)
  case (Cons g gs)
  from accumulate_into_eq [OF U, of m g c q] Cons.prems obtain g' where
    g': "accumulate_into U g (c, q) = Some ((c + fst (group_round (tables_of g)), q + snd (group_round (tables_of g))), g')"
    "tables_of g' = tables_of g" "group_inv limit (Suc m) g'" by auto
  from Cons.IH [of "c + fst (group_round (tables_of g))" "q + snd (group_round (tables_of g))"] Cons.prems obtain gs' where
    gs': "accumulate_groups U gs (c + fst (group_round (tables_of g)), q + snd (group_round (tables_of g))) =
      Some ((c + fst (group_round (tables_of g)) + (\<Sum>g\<leftarrow>gs. fst (group_round (tables_of g))),
        q + snd (group_round (tables_of g)) + (\<Sum>g\<leftarrow>gs. snd (group_round (tables_of g)))), gs')"
    "map tables_of gs' = map tables_of gs" "\<forall>g \<in> set gs'. group_inv limit (Suc m) g" by auto
  show ?case by (intro exI [of _ "g' # gs'"]) (simp add: g' gs' add.assoc)
qed simp

text \<open>The round polynomial of a prover carries the sum over the remaining variables.\<close>

lemma compute_round_eq:
  assumes U: "unreduced_laws limit U" and inv: "prover_inv limit (Suc m) p"
    and claim: "claim = cube_sum (standard_weights (Suc m)) (prover_value p) []"
  shows "\<exists>c l q p'. compute_round_univariate U new rnd claim p = Some (new [c, l, q], p') \<and> prover_inv limit (Suc m) p' \<and>
    prover_tables p' = prover_tables p \<and> rp_num_rounds p' = rp_num_rounds p \<and>
    (\<forall>x. poly_value [c, l, q] x = cube_sum (standard_weights m) (prover_value p) [x])"
proof -
  let ?gs = "rp_groups p" and ?c = "\<Sum>g\<leftarrow>rp_groups p. fst (group_round (tables_of g))" and ?q = "\<Sum>g\<leftarrow>rp_groups p. snd (group_round (tables_of g))"
  from accumulate_groups_eq [OF U, of ?gs m 0 0] inv obtain gs' where
    acc: "accumulate_groups U ?gs (0, 0) = Some ((?c, ?q), gs')" and tab: "map tables_of gs' = map tables_of ?gs"
    and inv': "\<forall>g \<in> set gs'. group_inv limit (Suc m) g" by (auto simp: prover_inv_def)
  have wf: "group_wf (Suc m) (tables_of g)" if "g \<in> set ?gs" for g using inv that by (simp add: prover_inv_def group_inv_def)
  have total: "claim = (\<Sum>g\<leftarrow>?gs. group_total (tables_of g))"
    unfolding claim prover_value_def [abs_def] cube_sum_sum_list using wf by (intro sum_list_cong) (simp only: cube_sum_group)
  have val: "cube_sum (standard_weights m) (prover_value p) [x] = (\<Sum>g\<leftarrow>?gs. group_total (bind_group x (tables_of g)))" for x
    unfolding prover_value_def [abs_def] cube_sum_sum_list using wf
    by (intro sum_list_cong) (simp add: cube_sum_value cube_sum_group [OF group_wf_bind])
  have "cube_sum (standard_weights m) (prover_value p) [x] = ?c + x * (claim - ?c - ?c - ?q) + x * x * ?q" for x
  proof -
    have "(\<Sum>g\<leftarrow>?gs. group_total (bind_group x (tables_of g))) = (\<Sum>g\<leftarrow>?gs. fst (group_round (tables_of g)) +
        x * (group_total (tables_of g) - fst (group_round (tables_of g)) - fst (group_round (tables_of g)) - snd (group_round (tables_of g))) +
        x * x * snd (group_round (tables_of g)))"
      by (intro sum_list_cong group_total_bind [OF wf])
    then show ?thesis unfolding val total by (simp add: sum_list_addf sum_list_subtractf sum_list_mult [symmetric])
  qed
  then have poly: "poly_value [?c, claim - ?c - ?c - ?q, ?q] x = cube_sum (standard_weights m) (prover_value p) [x]" for x
    by (simp add: algebra_simps)
  have "prover_tables (p\<lparr>rp_groups := gs'\<rparr>) = prover_tables p" using tab by (simp add: prover_tables_def)
  moreover have "prover_inv limit (Suc m) (p\<lparr>rp_groups := gs'\<rparr>)" using inv' by (simp add: prover_inv_def)
  moreover have "compute_round_univariate U new rnd claim p = Some (new [?c, claim - ?c - ?c - ?q, ?q], p\<lparr>rp_groups := gs'\<rparr>)"
    using acc by (simp add: compute_round_univariate_def Let_def)
  ultimately show ?thesis using poly by (intro exI [of _ ?c] exI [of _ "claim - ?c - ?c - ?q"] exI [of _ ?q] exI [of _ "p\<lparr>rp_groups := gs'\<rparr>"]) simp
qed

lemma ingest_challenge_eq:
  assumes U: "unreduced_laws limit U" and inv: "prover_inv limit (Suc m) p"
  shows "\<exists>p'. ingest_challenge U r p = Some p' \<and> prover_inv limit m p' \<and> rp_num_rounds p' = rp_num_rounds p \<and>
    prover_tables p' = map (bind_group r) (prover_tables p)"
proof -
  define h where "h g = (SOME g'. group_ingest_challenge U r g = Some g' \<and> tables_of g' = bind_group r (tables_of g) \<and> group_inv limit m g')" for g
  have h: "group_ingest_challenge U r g = Some (h g) \<and> tables_of (h g) = bind_group r (tables_of g) \<and> group_inv limit m (h g)"
    if "g \<in> set (rp_groups p)" for g
    unfolding h_def by (rule someI_ex, rule group_ingest_eq [OF U]) (use inv that in \<open>simp add: prover_inv_def\<close>)
  have "those (map (group_ingest_challenge U r) (rp_groups p)) = Some (map h (rp_groups p))"
    using h by (intro those_map_Some) blast
  then have step: "ingest_challenge U r p = Some (p\<lparr>rp_groups := map h (rp_groups p)\<rparr>)" by (simp add: ingest_challenge_def)
  have "prover_tables (p\<lparr>rp_groups := map h (rp_groups p)\<rparr>) = map (bind_group r) (prover_tables p)"
    using h by (simp add: prover_tables_def)
  with step h show ?thesis by (auto simp: prover_inv_def)
qed

section \<open>Sessions\<close>

text \<open>
  A session between rounds, and one whose round polynomial \<open>u\<close> waits for its challenge.  \<open>i\<close> of \<open>n\<close>
  rounds are bound.
\<close>

definition session_ready :: "nat \<Rightarrow> nat \<Rightarrow> nat \<Rightarrow> ('e::comm_ring_1, 'u) opening_session \<Rightarrow> bool" where
  "session_ready limit n i s \<longleftrightarrow> os_next_round s = i \<and> rp_num_rounds (os_prover s) = n \<and> os_pending s = None \<and>
     prover_inv limit (n - i) (os_prover s) \<and> os_claim s = cube_sum (standard_weights (n - i)) (prover_value (os_prover s)) []"

definition session_waits :: "('u, 'z, 'o, 'e) poly_ops \<Rightarrow> nat \<Rightarrow> nat \<Rightarrow> nat \<Rightarrow> 'u \<Rightarrow> ('e::comm_ring_1, 'u) opening_session \<Rightarrow> bool" where
  "session_waits P limit n i u s \<longleftrightarrow> os_next_round s = i \<and> rp_num_rounds (os_prover s) = n \<and> os_pending s = Some u \<and>
     prover_inv limit (n - i) (os_prover s) \<and>
     (\<forall>x. poly_evaluate P u x = cube_sum (standard_weights (n - Suc i)) (prover_value (os_prover s)) [x])"

lemma session_round_eq:
  assumes U: "unreduced_laws limit U" and N: "univariate_laws P N" and s: "session_ready limit n i s" and i: "i < n"
  shows "\<exists>c l q s'. session_round_polynomial P (uv_degree N) U (uv_new N) i (os_claim s) s = Some (Ok (uv_new N [c, l, q]), s') \<and>
    session_waits P limit n i (uv_new N [c, l, q]) s' \<and> prover_tables (os_prover s') = prover_tables (os_prover s)"
proof -
  have m: "n - i = Suc (n - Suc i)" using i by simp
  from s have inv: "prover_inv limit (Suc (n - Suc i)) (os_prover s)"
    and claim: "os_claim s = cube_sum (standard_weights (Suc (n - Suc i))) (prover_value (os_prover s)) []"
    unfolding session_ready_def m by blast+
  from compute_round_eq [OF U inv claim, of "uv_new N" i] obtain c l q p' where
    p': "compute_round_univariate U (uv_new N) i (os_claim s) (os_prover s) = Some (uv_new N [c, l, q], p')"
    "prover_inv limit (n - i) p'" "prover_tables p' = prover_tables (os_prover s)" "rp_num_rounds p' = rp_num_rounds (os_prover s)"
    and val: "\<And>x. poly_value [c, l, q] x = cube_sum (standard_weights (n - Suc i)) (prover_value (os_prover s)) [x]"
    unfolding m by blast
  have same: "prover_value p' = prover_value (os_prover s)" using p'(3) by (simp add: fun_eq_iff prover_value_tables)
  have ev: "poly_evaluate P (uv_new N [c, l, q]) x = poly_value [c, l, q] x" for x
    using N unfolding univariate_laws_def by blast
  have deg: "\<not> uv_degree N (uv_new N [c, l, q]) > EXTENSION_OPENING_REDUCTION_DEGREE"
  proof -
    have "uv_degree N (uv_new N [c, l, q]) < length [c, l, q]" using N unfolding univariate_laws_def by blast
    then show ?thesis by (simp add: EXTENSION_OPENING_REDUCTION_DEGREE_def)
  qed
  have sum: "poly_evaluate P (uv_new N [c, l, q]) 0 + poly_evaluate P (uv_new N [c, l, q]) 1 = os_claim s"
    unfolding ev val claim by simp
  let ?s = "s\<lparr>os_prover := p', os_pending := Some (uv_new N [c, l, q])\<rparr>"
  have "session_round_polynomial P (uv_degree N) U (uv_new N) i (os_claim s) s = Some (Ok (uv_new N [c, l, q]), ?s)"
    using s i deg sum p'(1) by (simp add: session_round_polynomial_def session_ready_def)
  moreover have "session_waits P limit n i (uv_new N [c, l, q]) ?s"
    using s p' val ev same by (simp add: session_waits_def session_ready_def del: poly_value.simps)
  ultimately show ?thesis using p'(3) by (intro exI [of _ c] exI [of _ l] exI [of _ q] exI [of _ ?s]) simp
qed

lemma session_bind_eq:
  assumes U: "unreduced_laws limit U" and s: "session_waits P limit n i u s" and i: "i < n"
  shows "\<exists>s'. session_bind_challenge P U i r s = Some (Ok (), s') \<and> session_ready limit n (Suc i) s' \<and>
    os_claim s' = poly_evaluate P u r \<and> prover_tables (os_prover s') = map (bind_group r) (prover_tables (os_prover s))"
proof -
  have m: "n - i = Suc (n - Suc i)" using i by simp
  from s have "prover_inv limit (Suc (n - Suc i)) (os_prover s)" unfolding session_waits_def m by blast
  from ingest_challenge_eq [OF U this, of r] obtain p' where p': "ingest_challenge U r (os_prover s) = Some p'"
    "prover_inv limit (n - Suc i) p'" "rp_num_rounds p' = rp_num_rounds (os_prover s)"
    "prover_tables p' = map (bind_group r) (prover_tables (os_prover s))" by blast
  note value_r = prover_value_bind [OF p'(4)]
  let ?s = "s\<lparr>os_pending := None, os_claim := poly_evaluate P u r, os_prover := p', os_next_round := os_next_round s + 1\<rparr>"
  have "session_bind_challenge P U i r s = Some (Ok (), ?s)" using s i p'(1) by (simp add: session_bind_challenge_def session_waits_def)
  moreover have "session_ready limit n (Suc i) ?s"
    using s p' value_r by (simp add: session_ready_def session_waits_def cube_sum_shift)
  ultimately show ?thesis using p'(4) by (intro exI [of _ ?s]) simp
qed

section \<open>The aggregate session\<close>

definition eor_tables :: "('e, 'u) opening_session list \<Rightarrow> 'e table_group list list" where
  "eor_tables gs = map (\<lambda>g. prover_tables (os_prover g)) gs"

definition eor_value :: "('e::comm_ring_1, 'u) opening_session list \<Rightarrow> 'e list \<Rightarrow> 'e" where
  "eor_value gs us = (\<Sum>g\<leftarrow>gs. prover_value (os_prover g) us)"

lemma eor_value_tables: "eor_value gs us = (\<Sum>as\<leftarrow>eor_tables gs. \<Sum>a\<leftarrow>as. group_value a us)"
  by (simp add: eor_value_def eor_tables_def prover_value_tables comp_def)

lemma eor_value_same: "eor_tables gs' = eor_tables gs \<Longrightarrow> eor_value gs' us = eor_value gs us"
  by (simp add: eor_value_tables)

lemma eor_value_bind: "eor_tables gs' = map (map (bind_group r)) (eor_tables gs) \<Longrightarrow> eor_value gs' us = eor_value gs (r # us)"
  by (simp add: eor_value_tables comp_def)

lemma poly_value_add_prefix:
  "length bs \<le> length as \<Longrightarrow> poly_value (add_prefix as bs) x = poly_value as x + poly_value bs x"
  by (induction as bs rule: add_prefix.induct) (simp_all add: algebra_simps)

lemma length_add_prefix [simp]: "length (add_prefix as bs) = length as"
  by (induction as bs rule: add_prefix.induct) simp_all

lemma cube_sum_zero: "cube_sum ws (\<lambda>_. 0) rs = 0"
  by (induction ws arbitrary: rs) (auto simp: cube_sum_Cons)

lemma eor_group_rounds_eq:
  assumes U: "unreduced_laws limit U" and N: "univariate_laws P N" and i: "i < n"
  shows "(\<forall>g \<in> set gs. session_ready limit n i g) \<Longrightarrow> length tot = 3 \<Longrightarrow>
    \<exists>tot' gs' us. eor_group_rounds P N U i gs (map os_claim gs) tot pend = Some (Ok tot', gs', pend @ us) \<and> length tot' = 3 \<and>
      list_all2 (session_waits P limit n i) us gs' \<and> eor_tables gs' = eor_tables gs \<and>
      (\<forall>x. poly_value tot' x = poly_value tot x + cube_sum (standard_weights (n - Suc i)) (eor_value gs) [x])"
proof (induction gs arbitrary: tot pend)
  case Nil
  then show ?case by (intro exI [of _ tot] exI [of _ "[]"]) (simp add: eor_tables_def eor_value_def [abs_def] cube_sum_zero del: cube_sum.simps)
next
  case (Cons g gs)
  from session_round_eq [OF U N _ i, of g] Cons.prems obtain c l q g' where
    g': "session_round_polynomial P (uv_degree N) U (uv_new N) i (os_claim g) g = Some (Ok (uv_new N [c, l, q]), g')"
    "session_waits P limit n i (uv_new N [c, l, q]) g'" "prover_tables (os_prover g') = prover_tables (os_prover g)" by auto
  have pv: "prover_value (os_prover g') = prover_value (os_prover g)" using g'(3) by (simp add: fun_eq_iff prover_value_tables)
  let ?u = "uv_new N [c, l, q]"
  have "length (uv_coefficients N ?u) \<le> length [c, l, q]" using N unfolding univariate_laws_def by blast
  then have le: "length (uv_coefficients N ?u) \<le> length tot" using Cons.prems(2) by simp
  have cv: "poly_value (uv_coefficients N ?u) x = cube_sum (standard_weights (n - Suc i)) (prover_value (os_prover g)) [x]" for x
  proof -
    have "poly_value (uv_coefficients N ?u) x = poly_evaluate P ?u x" using N unfolding univariate_laws_def by blast
    then show ?thesis using g'(2) pv unfolding session_waits_def by metis
  qed
  from Cons.IH [of "add_prefix tot (uv_coefficients N ?u)" "pend @ [?u]"] Cons.prems obtain tot' gs' us where
    IH: "eor_group_rounds P N U i gs (map os_claim gs) (add_prefix tot (uv_coefficients N ?u)) (pend @ [?u]) = Some (Ok tot', gs', (pend @ [?u]) @ us)"
    "length tot' = 3" "list_all2 (session_waits P limit n i) us gs'" "eor_tables gs' = eor_tables gs"
    "\<And>x. poly_value tot' x = poly_value (add_prefix tot (uv_coefficients N ?u)) x + cube_sum (standard_weights (n - Suc i)) (eor_value gs) [x]"
    by auto
  have split: "cube_sum ws (eor_value (g # gs)) rs = cube_sum ws (prover_value (os_prover g)) rs + cube_sum ws (eor_value gs) rs" for ws rs
    unfolding eor_value_def [abs_def] cube_sum_sum_list by simp
  have same: "eor_tables (g' # gs') = eor_tables (g # gs)" using IH(4) g'(3) by (simp add: eor_tables_def)
  have val: "poly_value tot' x = poly_value tot x + cube_sum (standard_weights (n - Suc i)) (eor_value (g # gs)) [x]" for x
    by (simp only: IH(5) split cv poly_value_add_prefix [OF le] add.assoc)
  show ?case
    by (intro exI [of _ tot'] exI [of _ "g' # gs'"] exI [of _ "?u # us"])
      (use g' IH(1-3) le in \<open>simp add: same val not_less\<close>)
qed

lemma bind_groups_eq:
  assumes U: "unreduced_laws limit U" and i: "i < n"
  shows "list_all2 (session_waits P limit n i) us gs \<Longrightarrow> length claims = length gs \<Longrightarrow>
    \<exists>gs'. bind_groups P U i r gs claims us = Some (Ok (), gs', map os_claim gs') \<and> (\<forall>g \<in> set gs'. session_ready limit n (Suc i) g) \<and>
      eor_tables gs' = map (map (bind_group r)) (eor_tables gs)"
proof (induction us gs arbitrary: claims rule: list_all2_induct)
  case Nil
  then show ?case by (simp add: eor_tables_def)
next
  case (Cons u us g gs)
  from Cons.prems obtain c cs where cs: "claims = c # cs" "length cs = length gs" by (cases claims) auto
  from session_bind_eq [OF U Cons.hyps(1) i, of r] obtain g' where g': "session_bind_challenge P U i r g = Some (Ok (), g')"
    "session_ready limit n (Suc i) g'" "os_claim g' = poly_evaluate P u r"
    "prover_tables (os_prover g') = map (bind_group r) (prover_tables (os_prover g))" by blast
  from Cons.IH [OF cs(2)] obtain gs' where gs': "bind_groups P U i r gs cs us = Some (Ok (), gs', map os_claim gs')"
    "\<forall>g \<in> set gs'. session_ready limit n (Suc i) g" "eor_tables gs' = map (map (bind_group r)) (eor_tables gs)" by blast
  show ?case by (intro exI [of _ "g' # gs'"]) (use g' gs' cs in \<open>simp add: eor_tables_def Let_def\<close>)
qed

lemma eor_group_rounds_length:
  "eor_group_rounds P N U rnd gs claims tot pend = Some (r, gs', pend') \<Longrightarrow> length gs = length gs'"
proof (induction P N U rnd gs claims tot pend arbitrary: r gs' pend' rule: eor_group_rounds.induct)
  case (1 P N U rnd g gs claim claims tot pend)
  then show ?case by (auto split: bind_splits sum.splits if_splits)
qed simp_all

text \<open>The invariant of the aggregate session between rounds and while a round is pending.\<close>

definition eor_ready :: "nat \<Rightarrow> nat \<Rightarrow> 'e::comm_ring_1 list \<Rightarrow> ('e, 'u) eor_session \<Rightarrow> bool" where
  "eor_ready limit n rs s \<longleftrightarrow> es_num_rounds s = n \<and> es_round s = length rs \<and> es_challenges s = rs \<and> es_pending s = None \<and>
     es_group_pending s = [] \<and> es_group_claims s = map os_claim (es_groups s) \<and>
     (\<forall>g \<in> set (es_groups s). session_ready limit n (length rs) g) \<and>
     es_claim s = cube_sum (standard_weights (n - length rs)) (eor_value (es_groups s)) []"

definition eor_waits ::
  "('u, 'z, 'o, 'e) poly_ops \<Rightarrow> nat \<Rightarrow> nat \<Rightarrow> 'e::comm_ring_1 list \<Rightarrow> 'u \<Rightarrow> ('e, 'u) eor_session \<Rightarrow> bool" where
  "eor_waits P limit n rs u s \<longleftrightarrow> es_num_rounds s = n \<and> es_round s = length rs \<and> es_challenges s = rs \<and> es_pending s = Some u \<and>
     list_all2 (session_waits P limit n (length rs)) (es_group_pending s) (es_groups s) \<and> length (es_group_claims s) = length (es_groups s) \<and>
     (\<forall>x. poly_evaluate P u x = cube_sum (standard_weights (n - Suc (length rs))) (eor_value (es_groups s)) [x])"

lemma eor_round_eq:
  assumes U: "unreduced_laws limit U" and N: "univariate_laws P N" and s: "eor_ready limit n rs s" and i: "length rs < n"
  shows "\<exists>c l q s'. eor_round P N U (Ok ()) (length rs) (es_claim s) s = Some (Ok (uv_new N [c, l, q]), s') \<and>
    eor_waits P limit n rs (uv_new N [c, l, q]) s' \<and> eor_tables (es_groups s') = eor_tables (es_groups s) \<and>
    es_coefficients s' = es_coefficients s \<and> es_expected_tails s' = es_expected_tails s \<and> es_eta s' = es_eta s"
proof -
  from s have ready: "\<forall>g \<in> set (es_groups s). session_ready limit n (length rs) g" by (simp add: eor_ready_def)
  from eor_group_rounds_eq [OF U N i ready, of "[0, 0, 0]" "[]"] obtain tot gs' us where
    gs': "eor_group_rounds P N U (length rs) (es_groups s) (map os_claim (es_groups s)) [0, 0, 0] [] = Some (Ok tot, gs', us)"
    "length tot = 3" "list_all2 (session_waits P limit n (length rs)) us gs'" "eor_tables gs' = eor_tables (es_groups s)"
    and val: "\<And>x. poly_value tot x = cube_sum (standard_weights (n - Suc (length rs))) (eor_value (es_groups s)) [x]"
    by (auto simp del: cube_sum.simps)
  from gs'(2) obtain c l q where tot: "tot = [c, l, q]" by (auto simp: eval_nat_numeral length_Suc_conv)
  let ?u = "uv_new N [c, l, q]"
  have ev: "poly_evaluate P ?u x = cube_sum (standard_weights (n - Suc (length rs))) (eor_value (es_groups s)) [x]" for x
  proof -
    have "poly_evaluate P ?u x = poly_value tot x" unfolding tot using N unfolding univariate_laws_def by blast
    then show ?thesis by (simp only: val)
  qed
  have same: "eor_value gs' = eor_value (es_groups s)" using eor_value_same [OF gs'(4)] by blast
  have claim: "poly_evaluate P ?u 0 + poly_evaluate P ?u 1 = es_claim s"
    using s standard_weights_step [of "[] :: 'a list" "n - length rs" "eor_value (es_groups s)"] i
    by (simp add: ev eor_ready_def del: cube_sum.simps)
  have len: "length (es_groups s) = length gs'"
    using gs'(1) by (rule eor_group_rounds_length)
  let ?s = "s\<lparr>es_groups := gs', es_group_pending := us, es_pending := Some ?u\<rparr>"
  have "eor_round P N U (Ok ()) (length rs) (es_claim s) s = Some (Ok ?u, ?s)"
    using s i gs'(1) claim by (simp add: eor_round_def eor_ready_def tot Let_def) (simp add: EXTENSION_OPENING_REDUCTION_DEGREE_def numeral_2_eq_2 Let_def)
  moreover have "eor_waits P limit n rs ?u ?s" using s gs'(3) ev same len by (simp add: eor_waits_def eor_ready_def)
  ultimately show ?thesis using gs'(4) by (intro exI [of _ c] exI [of _ l] exI [of _ q] exI [of _ ?s]) simp
qed

lemma bind_eor_eq:
  assumes U: "unreduced_laws limit U" and s: "eor_waits P limit n rs u s" and i: "length rs < n"
  shows "\<exists>s'. bind_eor_round P U (Ok ()) (length rs) r s = Some (Ok (), s') \<and> eor_ready limit n (rs @ [r]) s' \<and>
    eor_tables (es_groups s') = map (map (bind_group r)) (eor_tables (es_groups s)) \<and>
    es_coefficients s' = es_coefficients s \<and> es_expected_tails s' = es_expected_tails s \<and> es_eta s' = es_eta s"
proof -
  from s have w: "list_all2 (session_waits P limit n (length rs)) (es_group_pending s) (es_groups s)" "length (es_group_claims s) = length (es_groups s)"
    by (simp_all add: eor_waits_def)
  from bind_groups_eq [OF U i w, of r] obtain gs' where
    gs': "bind_groups P U (length rs) r (es_groups s) (es_group_claims s) (es_group_pending s) = Some (Ok (), gs', map os_claim gs')"
    "\<forall>g \<in> set gs'. session_ready limit n (Suc (length rs)) g" "eor_tables gs' = map (map (bind_group r)) (eor_tables (es_groups s))" by blast
  have shift: "cube_sum ws (eor_value (es_groups s)) [r] = cube_sum ws (eor_value gs') []" for ws
    unfolding cube_sum_shift eor_value_bind [OF gs'(3), symmetric] ..
  let ?s = "s\<lparr>es_pending := None, es_groups := gs', es_group_claims := map os_claim gs', es_group_pending := [],
    es_claim := poly_evaluate P u r, es_challenges := es_challenges s @ [r], es_round := es_round s + 1\<rparr>"
  have "bind_eor_round P U (Ok ()) (length rs) r s = Some (Ok (), ?s)"
    using s i gs'(1) by (simp add: bind_eor_round_def eor_waits_def Let_def)
  moreover have "eor_ready limit n (rs @ [r]) ?s" using s gs'(2) shift by (simp add: eor_ready_def eor_waits_def)
  ultimately show ?thesis using gs'(3) by (intro exI [of _ ?s]) simp
qed

section \<open>The kernel is honest\<close>

definition bind_tables :: "'e::comm_ring_1 list \<Rightarrow> 'e table_group \<Rightarrow> 'e table_group" where
  "bind_tables rs a = fold bind_group rs a"

definition tables_value :: "'e::comm_ring_1 table_group list list \<Rightarrow> 'e list \<Rightarrow> 'e" where
  "tables_value T us = (\<Sum>as\<leftarrow>T. \<Sum>a\<leftarrow>as. group_value a us)"

lemma group_value_append: "group_value a (rs @ us) = group_value (bind_tables rs a) us"
  by (induction rs arbitrary: a) (simp_all add: bind_tables_def)

lemma tables_value_append: "tables_value T (rs @ us) = tables_value (map (map (bind_tables rs)) T) us"
  by (simp add: tables_value_def comp_def group_value_append)

lemma bind_tables_snoc: "map (map (bind_tables (rs @ [r]))) T = map (map (bind_group r)) (map (map (bind_tables rs)) T)"
  by (simp add: bind_tables_def comp_def)

lemma cube_sum_prefix: "(\<And>us. V us = G (rs @ us)) \<Longrightarrow> cube_sum ws V qs = cube_sum ws G (rs @ qs)"
  by (induction ws arbitrary: qs) (auto simp: cube_sum_Cons)

text \<open>The session data that no round changes.\<close>

definition eor_static :: "('e, 'u) eor_session \<Rightarrow> 'e list \<times> 'e list list \<times> 'e list" where
  "eor_static s = (es_coefficients s, es_expected_tails s, es_eta s)"

definition eor_kernel_ready ::
  "nat \<Rightarrow> nat \<Rightarrow> 'e table_group list list \<Rightarrow> 'e list \<times> 'e list list \<times> 'e list \<Rightarrow> 'e::comm_ring_1 list \<Rightarrow> ('e, 'u) eor_sumcheck \<Rightarrow> bool" where
  "eor_kernel_ready limit n T st rs k \<longleftrightarrow> ek_rounds k = n \<and> ek_claim k = cube_sum (standard_weights n) (tables_value T) [] \<and>
     (\<exists>s. ek_session k = Some s \<and> eor_ready limit n rs s \<and> eor_tables (es_groups s) = map (map (bind_tables rs)) T \<and> eor_static s = st)"

definition eor_kernel_waits ::
  "('u, 'z, 'o, 'e) poly_ops \<Rightarrow> nat \<Rightarrow> nat \<Rightarrow> 'e table_group list list \<Rightarrow> 'e list \<times> 'e list list \<times> 'e list \<Rightarrow> 'e::comm_ring_1 list \<Rightarrow> 'u \<Rightarrow>
   ('e, 'u) eor_sumcheck \<Rightarrow> bool" where
  "eor_kernel_waits P limit n T st rs u k \<longleftrightarrow> ek_rounds k = n \<and> ek_claim k = cube_sum (standard_weights n) (tables_value T) [] \<and>
     (\<exists>s. ek_session k = Some s \<and> eor_waits P limit n rs u s \<and> eor_tables (es_groups s) = map (map (bind_tables rs)) T \<and> eor_static s = st)"

lemma eor_value_bound: "eor_tables gs = map (map (bind_tables rs)) T \<Longrightarrow> eor_value gs us = tables_value T (rs @ us)"
  by (simp add: eor_value_tables tables_value_def comp_def group_value_append)

lemma eor_kernel_honest:
  fixes P :: "('u, 'z, 'o, 'e::comm_ring_1) poly_ops"
  assumes P: "poly_laws P" and N: "univariate_laws P N" and U: "unreduced_laws limit U" and n: "n \<le> u32_max"
  shows "honest_kernel P (eor_kernel P N U (Ok ())) EXTENSION_OPENING_REDUCTION_DEGREE n (tables_value T)
    (eor_kernel_ready limit n T st) (eor_kernel_waits P limit n T st)"
proof
  show "poly_laws P" by (rule P)
  show "n \<le> u32_max" by (rule n)
next
  fix k :: "('e, 'u) eor_sumcheck" assume "eor_kernel_ready limit n T st [] k"
  then show "k_num_rounds (eor_kernel P N U (Ok ())) k = n \<and>
      k_degree_bound (eor_kernel P N U (Ok ())) k = EXTENSION_OPENING_REDUCTION_DEGREE \<and>
      k_input_claim (eor_kernel P N U (Ok ())) k = cube_sum (standard_weights n) (tables_value T) []"
    by (simp add: eor_kernel_def eor_kernel_ready_def)
next
  fix rs and k :: "('e, 'u) eor_sumcheck" assume "eor_kernel_ready limit n T st rs k" and rs: "length rs < n"
  then obtain s where k: "ek_rounds k = n" "ek_claim k = cube_sum (standard_weights n) (tables_value T) []" "ek_session k = Some s"
    and s: "eor_ready limit n rs s" "eor_tables (es_groups s) = map (map (bind_tables rs)) T" "eor_static s = st"
    by (auto simp: eor_kernel_ready_def)
  note V = cube_sum_prefix [where V = "eor_value (es_groups s)" and G = "tables_value T" and rs = rs, OF eor_value_bound [OF s(2)]]
  from s(1) have claim: "es_claim s = cube_sum (standard_weights (n - length rs)) (tables_value T) rs" by (simp add: eor_ready_def V)
  from eor_round_eq [OF U N s(1) rs] obtain c l q s' where
    s': "eor_round P N U (Ok ()) (length rs) (es_claim s) s = Some (Ok (uv_new N [c, l, q]), s')"
    "eor_waits P limit n rs (uv_new N [c, l, q]) s'" "eor_tables (es_groups s') = eor_tables (es_groups s)" "eor_static s' = st"
    using s(3) by (auto simp: eor_static_def)
  let ?u = "uv_new N [c, l, q]" and ?k = "k\<lparr>ek_session := Some s'\<rparr>"
  have V': "eor_value (es_groups s') = eor_value (es_groups s)" using eor_value_same [OF s'(3)] by blast
  have "poly_evaluate P ?u x = cube_sum (standard_weights (n - Suc (length rs))) (tables_value T) (rs @ [x])" for x
    using s'(2) V [of "standard_weights (n - Suc (length rs))" "[x]"] unfolding eor_waits_def V' by metis
  moreover have "coeffs_except_linear_term P (poly_compress P ?u) \<noteq> [] \<and> length (coeffs_except_linear_term P (poly_compress P ?u)) < length [c, l, q]"
    using N unfolding univariate_laws_def by (elim conjE allE [of _ "[c, l, q]"]) simp
  moreover have "k_round_polynomial (eor_kernel P N U (Ok ())) (length rs) (cube_sum (standard_weights (n - length rs)) (tables_value T) rs) k = (Ok ?u, ?k)"
    using k s'(1) claim by (simp add: eor_kernel_def unwinding_def)
  moreover have "eor_kernel_waits P limit n T st rs ?u ?k" using k s s' by (simp add: eor_kernel_waits_def)
  ultimately show "\<exists>u k'. k_round_polynomial (eor_kernel P N U (Ok ())) (length rs)
      (cube_sum (standard_weights (n - length rs)) (tables_value T) rs) k = (Ok u, k') \<and> eor_kernel_waits P limit n T st rs u k' \<and>
      (\<forall>x. poly_evaluate P u x = cube_sum (standard_weights (n - Suc (length rs))) (tables_value T) (rs @ [x])) \<and>
      coeffs_except_linear_term P (poly_compress P u) \<noteq> [] \<and>
      length (coeffs_except_linear_term P (poly_compress P u)) \<le> EXTENSION_OPENING_REDUCTION_DEGREE"
    by (intro exI [of _ ?u] exI [of _ ?k]) (simp add: EXTENSION_OPENING_REDUCTION_DEGREE_def)
next
  fix rs u r and k :: "('e, 'u) eor_sumcheck" assume "eor_kernel_waits P limit n T st rs u k" and rs: "length rs < n"
  then obtain s where k: "ek_rounds k = n" "ek_claim k = cube_sum (standard_weights n) (tables_value T) []" "ek_session k = Some s"
    and s: "eor_waits P limit n rs u s" "eor_tables (es_groups s) = map (map (bind_tables rs)) T" "eor_static s = st"
    by (auto simp: eor_kernel_waits_def)
  from bind_eor_eq [OF U s(1) rs, of r] obtain s' where s': "bind_eor_round P U (Ok ()) (length rs) r s = Some (Ok (), s')"
    "eor_ready limit n (rs @ [r]) s'" "eor_tables (es_groups s') = map (map (bind_group r)) (eor_tables (es_groups s))" "eor_static s' = st"
    using s(3) by (auto simp: eor_static_def)
  have "eor_kernel_ready limit n T st (rs @ [r]) (k\<lparr>ek_session := Some s'\<rparr>)"
    unfolding eor_kernel_ready_def bind_tables_snoc using k s s' by simp
  moreover have "k_bind_challenge (eor_kernel P N U (Ok ())) (length rs) r k = (Ok (), k\<lparr>ek_session := Some s'\<rparr>)"
    using k s'(1) by (simp add: eor_kernel_def unwinding_def)
  ultimately show "\<exists>k'. k_bind_challenge (eor_kernel P N U (Ok ())) (length rs) r k = (Ok (), k') \<and> eor_kernel_ready limit n T st (rs @ [r]) k'"
    by blast
next
  fix rs and k :: "('e, 'u) eor_sumcheck"
  show "\<exists>k'. k_finish (eor_kernel P N U (Ok ())) k = (Ok (), k')" by (simp add: eor_kernel_def)
qed

section \<open>Fresh sessions\<close>

definition fresh_tables :: "'e::comm_ring_1 list \<Rightarrow> 'e list list \<Rightarrow> 'e list \<Rightarrow> 'e list \<Rightarrow> 'e table_group" where
  "fresh_tables factor witnesses weights extra = \<lparr>tg_terms = zip weights witnesses, tg_factor = factor, tg_point = extra, tg_scale = 1\<rparr>"

lemma num_rounds_Ok: "num_rounds_from_table_len len = Ok k \<longleftrightarrow> len = 2 ^ k"
  by (auto simp: num_rounds_from_table_len_def is_power_of_two_iff trailing_zeros_power split: if_splits)

lemma validate_terms_Ok:
  "validate_terms ts f = Ok () \<Longrightarrow> (\<forall>t \<in> set ts. length (rt_witness t) = length f) \<and> (ts \<noteq> [] \<longrightarrow> (\<exists>k. length f = 2 ^ k))"
  by (induction ts) (auto simp: validate_reduction_tables_def try_r_eq_Inr num_rounds_Ok split: if_splits)

lemma terms_zip:
  assumes "length ws = length cs"
  shows "map (\<lambda>t. (rt_coeff t, rt_witness t)) (map2 reduction_term_new ws cs) = zip cs ws"
  using assms by (induction ws cs rule: list_induct2) (simp_all add: reduction_term_new_def)

lemma terms_uncached: "t \<in> set (map2 reduction_term_new ws cs) \<Longrightarrow> rt_cached_accumulate t = None"
  by (auto simp: reduction_term_new_def)

lemma fresh_session:
  assumes s: "witness_eor_session_from_witnesses (Ok f) ws cs extra claim = Ok s" and lim: "length f \<le> 2 * limit"
    and claim: "claim = group_total (fresh_tables f ws cs extra)"
  shows "\<exists>k. length f = 2 ^ k \<and> (\<forall>w \<in> set ws. length w = 2 ^ k) \<and> length ws = length cs \<and>
    session_ready limit (k + length extra) 0 s \<and> prover_tables (os_prover s) = [fresh_tables f ws cs extra] \<and> os_claim s = claim \<and>
    os_num_terms s = length cs \<and> rp_num_rounds (os_prover s) = k + length extra"
proof -
  let ?ts = "map2 reduction_term_new ws cs"
  let ?g = "\<lparr>rg_terms = ?ts, rg_factor = f, rg_extra_point = extra, rg_extra_round = 0, rg_extra_factor_eval = 1\<rparr>"
  from s obtain k n where len: "length ws = length cs" and ne: "?ts \<noteq> []" and val: "validate_terms ?ts f = Ok ()" and k: "length f = 2 ^ k"
    and tot: "2 ^ (k + length extra) \<le> usize_max" and n: "domain_len ?g = 2 ^ n"
    and s_eq: "s = \<lparr>os_prover = \<lparr>rp_groups = [?g], rp_input_claim = claim, rp_num_rounds = n\<rparr>, os_claim = claim, os_next_round = 0,
      os_pending = None, os_num_terms = num_terms ?g\<rparr>"
    by (auto simp: witness_eor_session_from_witnesses_def reduction_group_new_def extend_cylindrically_def reduction_table_len_def
        witness_eor_session_def reduction_prover_new_def num_rounds_Ok try_r_eq_Inr ok_or_eq_Inr pow2_eq checked_add_if Let_def split: if_splits)
  have m64: "k + length extra < 64"
  proof (rule ccontr)
    assume "\<not> k + length extra < 64"
    then have "(2::nat) ^ 64 \<le> 2 ^ (k + length extra)" by (intro power_increasing) simp_all
    with tot show False by (simp add: usize_max_def)
  qed
  have tab: "tables_of ?g = fresh_tables f ws cs extra" using terms_zip [OF len] by (simp add: tables_of_def fresh_tables_def)
  have wlen: "w \<in> set ws \<Longrightarrow> length w = 2 ^ k" for w
  proof -
    assume "w \<in> set ws"
    then obtain i where i: "i < length ws" "w = ws ! i" by (auto simp: in_set_conv_nth)
    then have "reduction_term_new w (cs ! i) \<in> set ?ts" using len by (auto simp: set_zip)
    then show ?thesis using validate_terms_Ok [OF val] k by (fastforce simp: reduction_term_new_def)
  qed
  have wf: "group_wf (k + length extra) (tables_of ?g)"
    unfolding tab group_wf_def using k wlen by (auto simp: fresh_tables_def dest: set_zip_rightD)
  have inv: "group_inv limit (k + length extra) ?g"
    using wf m64 lim terms_uncached by (auto simp: group_inv_def cache_valid_def)
  have nk: "n = k + length extra" using domain_len_eq [OF inv] n by simp
  have "cube_sum (standard_weights (k + length extra)) (prover_value (os_prover s)) [] = claim"
    using cube_sum_group [OF wf] claim by (simp add: s_eq prover_value_def [abs_def] tab)
  then have "session_ready limit (k + length extra) 0 s"
    using inv by (simp add: session_ready_def s_eq nk prover_inv_def)
  then show ?thesis using k wlen len tab by (auto simp: s_eq nk prover_tables_def num_terms_def)
qed

section \<open>Finished sessions\<close>

lemma bind_tables_done:
  "length (tg_factor a) = 2 ^ k \<Longrightarrow> (\<And>c w. (c, w) \<in> set (tg_terms a) \<Longrightarrow> length w = 2 ^ k) \<Longrightarrow>
   length rs = k \<Longrightarrow> length us = length (tg_point a) \<Longrightarrow>
   bind_tables (rs @ us) a = \<lparr>tg_terms = map (\<lambda>(c, w). (c, [mle_sum w rs])) (tg_terms a), tg_factor = [mle_sum (tg_factor a) rs],
     tg_point = [], tg_scale = tg_scale a * prod_list (map2 eq_factor (tg_point a) us)\<rparr>"
proof (induction rs arbitrary: a k)
  case Nil
  then have k: "length (tg_factor a) = 1" "\<And>c w. (c, w) \<in> set (tg_terms a) \<Longrightarrow> length w = 1" by simp_all
  show ?case using Nil.prems(4) k
  proof (induction us arbitrary: a)
    case Nil
    have one: "length xs = 1 \<Longrightarrow> [mle_sum xs []] = xs" for xs :: "'a list" by (cases xs) (simp_all add: mle_sum_def)
    have "map (\<lambda>(c, w). (c, [mle_sum w []])) (tg_terms a) = tg_terms a" by (rule map_idI) (use Nil one in auto)
    then show ?case using Nil one [of "tg_factor a"] by (simp add: bind_tables_def)
  next
    case (Cons u us)
    from Cons.prems(1) obtain p ps where p: "tg_point a = p # ps" by (cases "tg_point a") auto
    with Cons.prems have b: "bind_group u a = a\<lparr>tg_point := ps, tg_scale := tg_scale a * eq_factor p u\<rparr>" by (simp add: bind_group_def)
    show ?case using Cons.IH [of "bind_group u a"] Cons.prems p by (simp add: b bind_tables_def mult.assoc)
  qed
next
  case (Cons r rs)
  from Cons.prems(3) obtain k' where k': "k = Suc k'" "length rs = k'" by auto
  have fold: "length w = 2 ^ k \<Longrightarrow> mle_sum w (r # rs) = mle_sum (fold_table r w) rs" for w :: "'a list"
    using mle_sum_fold [of w k' r rs] k' by (simp add: fold_table_def)
  have "1 < length (tg_factor a)" using Cons.prems(1) k' power2_gt1 [of k] by simp
  then have b: "bind_group r a = a\<lparr>tg_terms := map (\<lambda>(c, w). (c, fold_table r w)) (tg_terms a), tg_factor := fold_table r (tg_factor a)\<rparr>"
    by (simp add: bind_group_def)
  have terms: "map (\<lambda>(c, w). (c, [mle_sum (fold_table r w) rs])) (tg_terms a) = map (\<lambda>(c, w). (c, [mle_sum w (r # rs)])) (tg_terms a)"
    using Cons.prems(2) fold by (intro map_cong) auto
  have len': "(c, w) \<in> set (tg_terms (bind_group r a)) \<Longrightarrow> length w = 2 ^ k'" for c w
    using Cons.prems(2) k' by (auto simp: b)
  have "bind_tables (rs @ us) (bind_group r a) = \<lparr>tg_terms = map (\<lambda>(c, w). (c, [mle_sum w rs])) (tg_terms (bind_group r a)),
      tg_factor = [mle_sum (fold_table r (tg_factor a)) rs], tg_point = [], tg_scale = tg_scale a * prod_list (map2 eq_factor (tg_point a) us)\<rparr>"
    using Cons.IH [of "bind_group r a" k', OF _ len'] Cons.prems k' by (simp add: b)
  moreover have "map (\<lambda>(c, w). (c, [mle_sum w rs])) (tg_terms (bind_group r a)) = map (\<lambda>(c, w). (c, [mle_sum w (r # rs)])) (tg_terms a)"
    unfolding terms [symmetric] by (simp add: b comp_def case_prod_unfold)
  ultimately show ?case using fold [OF Cons.prems(1)] by (simp add: bind_tables_def)
qed

lemma group_final_terms_eq:
  assumes inv: "group_inv limit 0 g"
  shows "group_final_terms g = Some (map (\<lambda>(c, w). (c, w ! 0, tg_factor (tables_of g) ! 0 * tg_scale (tables_of g))) (tg_terms (tables_of g)))"
proof -
  from group_inv_lengths [OF inv] have len: "length (rg_factor g) = 1" "\<forall>t \<in> set (rg_terms g). length (rt_witness t) = 1"
    "length (rg_extra_point g) \<le> rg_extra_round g" by auto
  have "rg_extra_round g = length (rg_extra_point g)" using inv len(3) by (simp add: group_inv_def)
  then show ?thesis using len by (simp add: group_final_terms_def list_ex_iff tables_of_def comp_def Let_def)
qed

lemma session_finish_eq:
  assumes s: "session_ready limit n n s" and t: "prover_tables (os_prover s) = [a]"
  shows "session_finish s = Ok (map (\<lambda>(c, w). (c, w ! 0, tg_factor a ! 0 * tg_scale a)) (tg_terms a))"
proof -
  from t obtain g where g: "rp_groups (os_prover s) = [g]" "tables_of g = a" by (auto simp: prover_tables_def)
  with s have "group_inv limit 0 g" by (simp add: session_ready_def prover_inv_def)
  from group_final_terms_eq [OF this] s g show ?thesis by (simp add: session_finish_def session_ready_def final_terms_def)
qed

lemma finish_terms_eq:
  "drop (length vals) coefficients = map fst ps @ rest \<Longrightarrow>
   finish_terms coefficients factor (map (\<lambda>(c, w). (c, w, factor)) ps) vals = Ok (vals @ map (\<lambda>(c, w). w * factor) ps)"
proof (induction ps arbitrary: vals)
  case (Cons p ps)
  obtain c w where p: "p = (c, w)" by (cases p)
  have "length vals < length coefficients"
  proof (rule ccontr)
    assume "\<not> length vals < length coefficients"
    then have "drop (length vals) coefficients = []" by simp
    with Cons.prems p show False by simp
  qed
  with Cons.prems p have nth: "slice_nth coefficients (length vals) = Some c" and rest: "drop (length (vals @ [w * factor])) coefficients = map fst ps @ rest"
    by (auto simp: slice_nth_def Cons_nth_drop_Suc [symmetric])
  from Cons.IH [OF rest] nth p show ?case by simp
qed simp

lemma prod_extra: "foldl (\<lambda>f extra. f * (1 - extra)) factor us = factor * prod_list (map2 eq_factor (replicate (length us) 0) us)"
  by (induction us arbitrary: factor) (simp_all add: eq_factor_def mult.assoc)

section \<open>Prepared groups\<close>

text \<open>
  What the preparation of a group gives: a session over the group's witness tables and the factor
  table, whose range of coefficients starts where the previous group ends; row partials that give the
  inner product of each witness with the factor table; and a factor evaluation that is the
  multilinear extension of the factor table.
\<close>

definition tail_len :: "nat \<Rightarrow> ('e, 'u) eor_group \<Rightarrow> nat" where
  "tail_len split_bits g = length (eg_point g) - split_bits"

definition table_product :: "'e::comm_ring_1 list \<Rightarrow> 'e list \<Rightarrow> 'e" where
  "table_product f w = (\<Sum>b < length f. w ! b * f ! b)"

definition group_prepared ::
  "('e::comm_ring_1 list \<Rightarrow> 'e list \<Rightarrow> 'e result) \<Rightarrow> ('e list \<Rightarrow> 'e list \<Rightarrow> 'e list \<Rightarrow> 'e result) \<Rightarrow> nat \<Rightarrow> 'e list \<Rightarrow> nat \<Rightarrow>
   nat \<Rightarrow> ('e, 'u) eor_group \<Rightarrow> 'e list list \<Rightarrow> 'e list \<Rightarrow> bool" where
  "group_prepared claim_from_rows factor_at split_bits eta limit start g ws f \<longleftrightarrow>
     eg_range g = Ok (start, start + length ws) \<and> length f \<le> 2 * limit \<and>
     (\<forall>weights extra claim. eg_begin g weights (drop split_bits (eg_point g)) eta extra claim =
        witness_eor_session_from_witnesses (Ok f) ws weights extra claim) \<and>
     list_all2 (\<lambda>row w. claim_from_rows row eta = Ok (table_product f w)) (eg_rows g) ws \<and>
     (\<forall>rho. length rho = tail_len split_bits g \<longrightarrow> factor_at (drop split_bits (eg_point g)) eta rho = Ok (mle_sum f rho))"

fun groups_prepared ::
  "('e::comm_ring_1 list \<Rightarrow> 'e list \<Rightarrow> 'e result) \<Rightarrow> ('e list \<Rightarrow> 'e list \<Rightarrow> 'e list \<Rightarrow> 'e result) \<Rightarrow> nat \<Rightarrow> 'e list \<Rightarrow> nat \<Rightarrow>
   nat \<Rightarrow> (('e, 'u) eor_group \<times> 'e list list \<times> 'e list) list \<Rightarrow> bool" where
  "groups_prepared claim_from_rows factor_at split_bits eta limit start [] \<longleftrightarrow> True"
| "groups_prepared claim_from_rows factor_at split_bits eta limit start ((g, ws, f) # ds) \<longleftrightarrow>
     group_prepared claim_from_rows factor_at split_bits eta limit start g ws f \<and>
     groups_prepared claim_from_rows factor_at split_bits eta limit (start + length ws) ds"

fun prepared_tables ::
  "'e::comm_ring_1 list \<Rightarrow> nat \<Rightarrow> nat \<Rightarrow> nat \<Rightarrow> (('e, 'u) eor_group \<times> 'e list list \<times> 'e list) list \<Rightarrow> 'e table_group list list" where
  "prepared_tables coefficients rounds split_bits start [] = []"
| "prepared_tables coefficients rounds split_bits start ((g, ws, f) # ds) =
     [fresh_tables f ws (take (length ws) (drop start coefficients)) (replicate (rounds - tail_len split_bits g) 0)] #
     prepared_tables coefficients rounds split_bits (start + length ws) ds"

definition group_shape :: "nat \<Rightarrow> nat \<Rightarrow> ('e, 'u) eor_group \<times> 'e list list \<times> 'e list \<Rightarrow> bool" where
  "group_shape rounds split_bits = (\<lambda>(g, ws, f). split_bits \<le> length (eg_point g) \<and> tail_len split_bits g \<le> rounds \<and>
     length f = 2 ^ tail_len split_bits g \<and> (\<forall>w \<in> set ws. length w = 2 ^ tail_len split_bits g))"

lemma weighted_claim_eq:
  assumes "list_all2 (\<lambda>row w. row_claim row = Ok (h w)) rows ws" and "length weights = length ws"
  shows "weighted_claim row_claim (zip rows weights) acc = Ok (acc + (\<Sum>(c, w)\<leftarrow>zip weights ws. c * h w))"
  using assms(2,1)
proof (induction weights ws arbitrary: rows acc rule: list_induct2)
  case (Cons c cs w ws)
  then obtain row rows' where "rows = row # rows'" "row_claim row = Ok (h w)" "list_all2 (\<lambda>row w. row_claim row = Ok (h w)) rows' ws"
    by (auto simp: list_all2_Cons2)
  with Cons.IH show ?case by (simp add: add.assoc)
qed simp

lemma fresh_total: "group_total (fresh_tables f ws cs extra) = (\<Sum>(c, w)\<leftarrow>zip cs ws. c * table_product f w)"
  by (simp add: group_total_def fresh_tables_def table_product_def)

lemma begin_group_eq:
  assumes p: "group_prepared claim_from_rows factor_at split_bits eta limit start g ws f"
    and b: "begin_groups claim_from_rows split_bits rounds eta coefficients (g # gs) = Ok (ss, claims, tails)"
  shows "\<exists>s ss' claims' tails'. ss = s # ss' \<and> claims = os_claim s # claims' \<and> tails = drop split_bits (eg_point g) # tails' \<and>
    begin_groups claim_from_rows split_bits rounds eta coefficients gs = Ok (ss', claims', tails') \<and> session_ready limit rounds 0 s \<and>
    prover_tables (os_prover s) = [fresh_tables f ws (take (length ws) (drop start coefficients)) (replicate (rounds - tail_len split_bits g) 0)] \<and>
    group_shape rounds split_bits (g, ws, f) \<and> start + length ws \<le> length coefficients"
proof -
  let ?cs = "take (length ws) (drop start coefficients)" and ?tail = "drop split_bits (eg_point g)" and ?extra = "replicate (rounds - tail_len split_bits g) (0::'a)"
  let ?claim = "\<Sum>(c, w)\<leftarrow>zip ?cs ws. c * table_product f w"
  note pd = p [unfolded group_prepared_def]
  from b pd have range: "start + length ws \<le> length coefficients"
    by (auto simp: slice_range_def try_r_eq_Inr ok_or_eq_Inr split: if_splits)
  then have sl: "slice_range coefficients (start, start + length ws) = Some ?cs"
    by (simp add: slice_range_def drop_take)
  have wc: "weighted_claim (\<lambda>row. claim_from_rows row eta) (zip (eg_rows g) ?cs) 0 = Ok ?claim"
    using weighted_claim_eq [of "\<lambda>row. claim_from_rows row eta" "table_product f" "eg_rows g" ws ?cs 0] pd range by simp
  from b pd sl wc obtain s ss' claims' tails' where
    s: "witness_eor_session_from_witnesses (Ok f) ws ?cs ?extra ?claim = Ok s" "rp_num_rounds (os_prover s) = rounds"
    and eqs: "ss = s # ss'" "claims = ?claim # claims'" "tails = ?tail # tails'"
      "begin_groups claim_from_rows split_bits rounds eta coefficients gs = Ok (ss', claims', tails')"
    and len: "split_bits \<le> length (eg_point g)" "tail_len split_bits g \<le> rounds"
    by (auto simp: try_r_eq_Inr ok_or_eq_Inr checked_sub_def tail_len_def split: if_splits)
  from fresh_session [OF s(1), of limit] pd obtain k where k: "length f = 2 ^ k" "\<forall>w \<in> set ws. length w = 2 ^ k"
    "session_ready limit (k + (rounds - tail_len split_bits g)) 0 s" "prover_tables (os_prover s) = [fresh_tables f ws ?cs ?extra]"
    "os_claim s = ?claim" "rp_num_rounds (os_prover s) = k + (rounds - tail_len split_bits g)"
    by (auto simp: fresh_total)
  with s(2) len have "k = tail_len split_bits g" by simp
  with k eqs len s(2) range show ?thesis by (auto simp: group_shape_def)
qed

lemma begin_groups_eq:
  assumes "groups_prepared claim_from_rows factor_at split_bits eta limit start ds"
    and "begin_groups claim_from_rows split_bits rounds eta coefficients (map fst ds) = Ok (ss, claims, tails)"
  shows "claims = map os_claim ss \<and> tails = map (\<lambda>(g, ws, f). drop split_bits (eg_point g)) ds \<and>
    (\<forall>s \<in> set ss. session_ready limit rounds 0 s) \<and> eor_tables ss = prepared_tables coefficients rounds split_bits start ds \<and>
    (\<forall>d \<in> set ds. group_shape rounds split_bits d) \<and>
    (ds \<noteq> [] \<longrightarrow> start + (\<Sum>(g, ws, f)\<leftarrow>ds. length ws) \<le> length coefficients)"
  using assms
proof (induction ds arbitrary: start ss claims tails)
  case (Cons d ds)
  obtain g ws f where d: "d = (g, ws, f)" by (cases d)
  from begin_group_eq [of claim_from_rows factor_at split_bits eta limit start g ws f rounds coefficients "map fst ds" ss claims tails] Cons.prems d
  obtain s ss' claims' tails' where
    s: "ss = s # ss'" "claims = os_claim s # claims'" "tails = drop split_bits (eg_point g) # tails'"
      "begin_groups claim_from_rows split_bits rounds eta coefficients (map fst ds) = Ok (ss', claims', tails')" "session_ready limit rounds 0 s"
      "prover_tables (os_prover s) = [fresh_tables f ws (take (length ws) (drop start coefficients)) (replicate (rounds - tail_len split_bits g) 0)]"
      "group_shape rounds split_bits (g, ws, f)" "start + length ws \<le> length coefficients"
    by auto
  have "groups_prepared claim_from_rows factor_at split_bits eta limit (start + length ws) ds" using Cons.prems(1) d by simp
  from Cons.IH [OF this s(4)] have "claims' = map os_claim ss' \<and> tails' = map (\<lambda>(g, ws, f). drop split_bits (eg_point g)) ds \<and>
    (\<forall>s \<in> set ss'. session_ready limit rounds 0 s) \<and> eor_tables ss' = prepared_tables coefficients rounds split_bits (start + length ws) ds \<and>
    (\<forall>d \<in> set ds. group_shape rounds split_bits d) \<and>
    (ds \<noteq> [] \<longrightarrow> start + length ws + (\<Sum>(g, ws, f)\<leftarrow>ds. length ws) \<le> length coefficients)" .
  with s d show ?case by (cases "ds = []") (auto simp: eor_tables_def)
qed (simp add: eor_tables_def)

section \<open>Finished groups\<close>

text \<open>
  The values of a group at the challenges: the multilinear extensions of the witness and of the factor
  table, and for the challenges beyond the group's own variables the equality with zero.
\<close>

definition group_values :: "nat \<Rightarrow> 'e::comm_ring_1 list \<Rightarrow> ('e, 'u) eor_group \<times> 'e list list \<times> 'e list \<Rightarrow> 'e list" where
  "group_values split_bits rho = (\<lambda>(g, ws, f).
     let k = tail_len split_bits g
     in map (\<lambda>w. mle_sum w (take k rho) * (mle_sum f (take k rho) * (\<Prod>r\<leftarrow>drop k rho. 1 - r))) ws)"

lemma eq_factor_zeros: "prod_list (map2 eq_factor (replicate (length us) 0) us) = (\<Prod>r\<leftarrow>us. 1 - r :: 'e::comm_ring_1)"
  by (induction us) (simp_all add: eq_factor_def)

lemma shape_bound:
  assumes d: "group_shape rounds split_bits (g, ws, f)" and rho: "length rho = rounds" and cs: "length cs = length ws"
  shows "bind_tables rho (fresh_tables f ws cs (replicate (rounds - tail_len split_bits g) 0)) =
    \<lparr>tg_terms = map (\<lambda>(c, w). (c, [mle_sum w (take (tail_len split_bits g) rho)])) (zip cs ws),
     tg_factor = [mle_sum f (take (tail_len split_bits g) rho)], tg_point = [], tg_scale = (\<Prod>r\<leftarrow>drop (tail_len split_bits g) rho. 1 - r)\<rparr>"
proof -
  let ?k = "tail_len split_bits g" and ?a = "fresh_tables f ws cs (replicate (rounds - tail_len split_bits g) 0)"
  from d have sh: "?k \<le> rounds" "length f = 2 ^ ?k" "\<And>c w. (c, w) \<in> set (zip cs ws) \<Longrightarrow> length w = 2 ^ ?k"
    by (auto simp: group_shape_def dest: set_zip_rightD)
  have "bind_tables (take ?k rho @ drop ?k rho) ?a = \<lparr>tg_terms = map (\<lambda>(c, w). (c, [mle_sum w (take ?k rho)])) (tg_terms ?a),
      tg_factor = [mle_sum (tg_factor ?a) (take ?k rho)], tg_point = [], tg_scale = tg_scale ?a * prod_list (map2 eq_factor (tg_point ?a) (drop ?k rho))\<rparr>"
    by (rule bind_tables_done) (use sh rho in \<open>auto simp: fresh_tables_def\<close>)
  moreover have "prod_list (map2 eq_factor (replicate (rounds - ?k) 0) (drop ?k rho)) = (\<Prod>r\<leftarrow>drop ?k rho. 1 - r)"
    using eq_factor_zeros [of "drop ?k rho"] rho by simp
  ultimately show ?thesis by (simp add: fresh_tables_def)
qed

lemma group_values_bound:
  assumes d: "group_shape rounds split_bits (g, ws, f)" and rho: "length rho = rounds" and cs: "length cs = length ws"
  shows "group_value (bind_tables rho (fresh_tables f ws cs (replicate (rounds - tail_len split_bits g) 0))) [] =
    (\<Sum>(v, c)\<leftarrow>zip (group_values split_bits rho (g, ws, f)) cs. v * c)"
proof -
  have "q * (\<Sum>(c, w)\<leftarrow>map (\<lambda>(c, w). (c, [h w])) (zip cs ws). c * (w ! 0 * f')) = (\<Sum>(v, c)\<leftarrow>zip (map (\<lambda>w. h w * (f' * q)) ws) cs. v * c)"
    for h :: "'a list \<Rightarrow> 'a" and f' q using cs
    by (induction cs ws rule: list_induct2) (simp_all add: algebra_simps)
  then show ?thesis unfolding shape_bound [OF assms] by (simp add: group_total_def group_values_def Let_def)
qed

lemma map_snd_zip: "length cs = length ws \<Longrightarrow> map (\<lambda>x. h (snd x)) (zip cs ws) = map h ws"
  by (induction cs ws rule: list_induct2) simp_all

lemma finish_groups_eq:
  assumes "groups_prepared claim_from_rows factor_at split_bits eta limit start ds" and "\<forall>d \<in> set ds. group_shape rounds split_bits d"
    and "\<forall>s \<in> set ss. session_ready limit rounds rounds s" and "length rho = rounds" and "length vals = start"
    and "eor_tables ss = map (map (bind_tables rho)) (prepared_tables coefficients rounds split_bits start ds)"
    and "ds \<noteq> [] \<longrightarrow> start + (\<Sum>(g, ws, f)\<leftarrow>ds. length ws) \<le> length coefficients"
  shows "finish_groups factor_at coefficients eta rho ss (map (\<lambda>(g, ws, f). drop split_bits (eg_point g)) ds) vals =
      Ok (vals @ concat (map (group_values split_bits rho) ds)) \<and>
    tables_value (prepared_tables coefficients rounds split_bits start ds) rho =
      (\<Sum>(v, c)\<leftarrow>zip (concat (map (group_values split_bits rho) ds)) (drop start coefficients). v * c)"
  using assms
proof (induction ds arbitrary: start ss vals)
  case Nil
  then show ?case by (simp add: eor_tables_def tables_value_def)
next
  case (Cons d ds)
  obtain g ws f where d: "d = (g, ws, f)" by (cases d)
  let ?k = "tail_len split_bits g" and ?cs = "take (length ws) (drop start coefficients)" and ?tail = "drop split_bits (eg_point g)"
  let ?a = "fresh_tables f ws ?cs (replicate (rounds - ?k) 0)" and ?vs = "group_values split_bits rho (g, ws, f)"
  let ?factor = "mle_sum f (take ?k rho) * (\<Prod>r\<leftarrow>drop ?k rho. 1 - r)"
  from Cons.prems(6) d obtain s ss' where ss: "ss = s # ss'" and s: "prover_tables (os_prover s) = [bind_tables rho ?a]"
    and ss': "eor_tables ss' = map (map (bind_tables rho)) (prepared_tables coefficients rounds split_bits (start + length ws) ds)"
    by (cases ss) (auto simp: eor_tables_def)
  have sh: "group_shape rounds split_bits (g, ws, f)" using Cons.prems(2) d by simp
  then have k: "?k \<le> rounds" "length ?tail = ?k" by (auto simp: group_shape_def tail_len_def)
  have cs: "length ?cs = length ws" using Cons.prems(7) d by simp
  have pts: "group_prepared claim_from_rows factor_at split_bits eta limit start g ws f"
    "groups_prepared claim_from_rows factor_at split_bits eta limit (start + length ws) ds" using Cons.prems(1) d by simp_all
  have ready: "session_ready limit rounds rounds s" using Cons.prems(3) ss by simp
  have fin: "session_finish s = Ok (map (\<lambda>(c, w). (c, w, ?factor)) (map (\<lambda>(c, w). (c, mle_sum w (take ?k rho))) (zip ?cs ws)))"
    using session_finish_eq [OF ready s] unfolding shape_bound [OF sh Cons.prems(4) cs] by (simp add: comp_def case_prod_unfold)
  have fst_ps: "map fst (map (\<lambda>(c, w). (c, mle_sum w (take ?k rho))) (zip ?cs ws)) = ?cs"
    using cs by (simp add: comp_def case_prod_unfold)
  have snd_ps: "map (\<lambda>(c, w). w * ?factor) (map (\<lambda>(c, w). (c, mle_sum w (take ?k rho))) (zip ?cs ws)) = ?vs"
    using map_snd_zip [OF cs, of "\<lambda>w. mle_sum w (take ?k rho) * ?factor"] by (simp add: group_values_def Let_def comp_def case_prod_unfold)
  have "drop (length vals) coefficients = ?cs @ drop (start + length ws) coefficients"
    using append_take_drop_id [of "length ws" "drop start coefficients"] Cons.prems(5) by (simp add: add.commute)
  then have ft: "finish_terms coefficients ?factor (map (\<lambda>(c, w). (c, w, ?factor)) (map (\<lambda>(c, w). (c, mle_sum w (take ?k rho))) (zip ?cs ws))) vals = Ok (vals @ ?vs)"
    using finish_terms_eq [of vals coefficients "map (\<lambda>(c, w). (c, mle_sum w (take ?k rho))) (zip ?cs ws)" "drop (start + length ws) coefficients" ?factor]
    unfolding fst_ps snd_ps by simp
  have at: "factor_at ?tail eta (take ?k rho) = Ok (mle_sum f (take ?k rho))" using pts(1) k Cons.prems(4) by (simp add: group_prepared_def)
  have fac: "foldl (\<lambda>f extra. f * (1 - extra)) (mle_sum f (take ?k rho)) (drop ?k rho) = ?factor" unfolding prod_extra eq_factor_zeros ..
  have lv: "length ?vs = length ws" by (simp add: group_values_def Let_def)
  have IH: "finish_groups factor_at coefficients eta rho ss' (map (\<lambda>(g, ws, f). drop split_bits (eg_point g)) ds) (vals @ ?vs) =
      Ok ((vals @ ?vs) @ concat (map (group_values split_bits rho) ds)) \<and>
    tables_value (prepared_tables coefficients rounds split_bits (start + length ws) ds) rho =
      (\<Sum>(v, c)\<leftarrow>zip (concat (map (group_values split_bits rho) ds)) (drop (start + length ws) coefficients). v * c)"
    by (rule Cons.IH [OF pts(2) _ _ Cons.prems(4) _ ss']) (use Cons.prems d ss lv in auto)
  have zip_vs: "zip (?vs @ xs) (drop start coefficients) = zip ?vs ?cs @ zip xs (drop (start + length ws) coefficients)" for xs
    using lv by (simp add: zip_append1 add.commute)
  have "group_value ?a rho = (\<Sum>(v, c)\<leftarrow>zip ?vs ?cs. v * c)"
    using group_value_append [of ?a rho "[]"] group_values_bound [OF sh Cons.prems(4) cs] by simp
  then have "tables_value (prepared_tables coefficients rounds split_bits start (d # ds)) rho =
      (\<Sum>(v, c)\<leftarrow>zip (concat (map (group_values split_bits rho) (d # ds))) (drop start coefficients). v * c)"
    using IH by (simp add: d tables_value_def zip_vs)
  moreover have "finish_groups factor_at coefficients eta rho ss (map (\<lambda>(g, ws, f). drop split_bits (eg_point g)) (d # ds)) vals =
      Ok (vals @ concat (map (group_values split_bits rho) (d # ds)))"
    using IH at ft k Cons.prems(4) by (simp add: ss d fin fac Let_def)
  ultimately show ?case by (rule conjI [rotated])
qed

section \<open>Completeness\<close>

text \<open>A session that was begun from prepared groups is ready for its first round.\<close>

lemma begin_eor_ready:
  assumes prep: "groups_prepared claim_from_rows factor_at split_bits eta limit 0 ds"
    and s: "begin_eor claim_from_rows (Ok ()) split_bits total_polys max_num_vars (map fst ds) eta coefficients = Ok (claim, s)"
  shows "eor_kernel_ready limit (max_num_vars - split_bits) (prepared_tables coefficients (max_num_vars - split_bits) split_bits 0 ds)
      (coefficients, map (\<lambda>(g, ws, f). drop split_bits (eg_point g)) ds, eta) []
      \<lparr>ek_session = Some s, ek_claim = claim, ek_rounds = max_num_vars - split_bits\<rparr> \<and>
    (\<forall>d \<in> set ds. group_shape (max_num_vars - split_bits) split_bits d) \<and>
    (ds \<noteq> [] \<longrightarrow> (\<Sum>(g, ws, f)\<leftarrow>ds. length ws) \<le> length coefficients) \<and> length coefficients = total_polys"
proof -
  let ?n = "max_num_vars - split_bits" and ?T = "prepared_tables coefficients (max_num_vars - split_bits) split_bits 0 ds"
  from s obtain ss claims tails where b: "begin_groups claim_from_rows split_bits ?n eta coefficients (map fst ds) = Ok (ss, claims, tails)"
    and claim: "claim = foldl (+) 0 claims" and total_polys: "length coefficients = total_polys"
    and s_eq: "s = \<lparr>es_groups = ss, es_coefficients = coefficients, es_expected_tails = tails, es_eta = eta,
      es_num_rounds = ?n, es_round = 0, es_claim = claim, es_pending = None, es_group_claims = claims, es_group_pending = [], es_challenges = []\<rparr>"
    by (auto simp: begin_eor_def try_r_eq_Inr ok_or_eq_Inr checked_sub_def Let_def split: if_splits)
  note g = begin_groups_eq [OF prep b]
  have sum: "foldl (+) a xs = a + sum_list xs" for a and xs :: "'a list" by (induction xs arbitrary: a) (simp_all add: add.assoc)
  have "claim = (\<Sum>s\<leftarrow>ss. os_claim s)" using g by (simp add: claim sum)
  also have "\<dots> = (\<Sum>s\<leftarrow>ss. cube_sum (standard_weights ?n) (prover_value (os_prover s)) [])"
    using g by (intro arg_cong [of _ _ sum_list] map_cong) (auto simp: session_ready_def)
  also have "\<dots> = cube_sum (standard_weights ?n) (eor_value ss) []" by (simp add: eor_value_def [abs_def] cube_sum_sum_list)
  finally have cl: "claim = cube_sum (standard_weights ?n) (eor_value ss) []" .
  have val: "eor_value ss = tables_value ?T" using g by (simp add: fun_eq_iff eor_value_tables tables_value_def)
  have "map (map (bind_tables [])) ?T = ?T" by (simp add: bind_tables_def [abs_def])
  then show ?thesis using g cl total_polys by (simp add: eor_kernel_ready_def eor_ready_def s_eq eor_static_def val)
qed

lemma foldl_zip_sum: "foldl (\<lambda>acc (v, weight). acc + v * weight) a zs = a + (\<Sum>(v, c)\<leftarrow>zs. v * c :: 'a::comm_ring_1)"
  by (induction zs arbitrary: a) (auto simp: add.assoc)

text \<open>A session that has bound all its rounds finishes in the values of its groups.\<close>

lemma finish_eor_eq:
  assumes prep: "groups_prepared claim_from_rows factor_at split_bits eta limit 0 ds" and sh: "\<forall>d \<in> set ds. group_shape n split_bits d"
    and ready: "eor_ready limit n rho s" and rho: "length rho = n"
    and tabs: "eor_tables (es_groups s) = map (map (bind_tables rho)) (prepared_tables coefficients n split_bits 0 ds)"
    and st: "eor_static s = (coefficients, map (\<lambda>(g, ws, f). drop split_bits (eg_point g)) ds, eta)"
    and len: "(\<Sum>(g, ws, f)\<leftarrow>ds. length ws) = length coefficients"
  shows "finish_eor factor_at (Ok ()) s = Ok (concat (map (group_values split_bits rho) ds)) \<and>
    tables_value (prepared_tables coefficients n split_bits 0 ds) rho =
      (\<Sum>(v, c)\<leftarrow>zip (concat (map (group_values split_bits rho) ds)) coefficients. v * c)"
proof -
  let ?vals = "concat (map (group_values split_bits rho) ds)"
  have each: "\<forall>s \<in> set (es_groups s). session_ready limit n n s" using ready rho by (simp add: eor_ready_def)
  note fin = finish_groups_eq [OF prep sh each rho _ tabs, of "[]"]
  have vals: "length ?vals = length coefficients"
    unfolding len [symmetric] by (induction ds) (auto simp: group_values_def Let_def)
  have "es_claim s = tables_value (prepared_tables coefficients n split_bits 0 ds) rho"
    using ready rho eor_value_bound [OF tabs, of "[]"] by (simp add: eor_ready_def)
  then show ?thesis using fin ready rho st vals len
    by (simp add: finish_eor_def eor_ready_def eor_static_def foldl_zip_sum)
qed

end
