(* ===== verification/Tensor_Opening_Correct.thy ===== *)
theory Tensor_Opening_Correct
  imports Tensor_Opening Opening_Reduction_Correct
begin

text \<open>
  The tensor tables of the extension-opening reduction.  The factor evaluated at a point is the
  multilinear extension of the prover's dense factor table.  Honest column partials give, read by
  columns, the opening of the base-field table, and, read by rows, the inner product of the packed
  witness with the factor table, which is the claim that the sumcheck reduces.
\<close>

section \<open>Hypotheses on the extension field\<close>

text \<open>
  Elements are their coordinates over a basis, on which addition and multiplication by a lifted base
  element act pointwise; where sums of delayed products are exact, so are those of at most \<open>limit\<close>
  products with base elements.
\<close>

definition ext_laws :: "nat \<Rightarrow> ('f::comm_ring_1, 'e::comm_ring_1) field_codec \<Rightarrow> ('e, 'w) unreduced_ops \<Rightarrow> ('f, 'e, 'w) ext_ops \<Rightarrow> bool" where
  "ext_laws limit fc U X \<longleftrightarrow>
     (\<forall>x. length (to_base_vec fc x) = ext_degree fc \<and> from_base_slice fc (to_base_vec fc x) = x) \<and>
     (\<forall>cs. length cs = ext_degree fc \<longrightarrow> to_base_vec fc (from_base_slice fc cs) = cs) \<and>
     (\<forall>x i. i < ext_degree fc \<longrightarrow> base_coefficient X x i = to_base_vec fc x ! i) \<and>
     (\<forall>f. from_base_fn X f = from_base_slice fc (map f [0..<ext_degree fc])) \<and>
     (\<forall>x y. to_base_vec fc (x + y) = map2 (+) (to_base_vec fc x) (to_base_vec fc y)) \<and>
     (\<forall>x a. to_base_vec fc (x * lift_base X a) = map (\<lambda>c. c * a) (to_base_vec fc x)) \<and>
     (\<forall>x a. mul_base X x a = x * lift_base X a) \<and>
     (\<forall>a b. lift_base X (a + b) = lift_base X a + lift_base X b) \<and>
     (\<forall>a b. lift_base X (a * b) = lift_base X a * lift_base X b) \<and>
     (sum_is_exact U \<longrightarrow> (\<forall>ps. length ps \<le> limit \<longrightarrow>
        reduce_product U (foldl (\<lambda>acc (e, c). wide_add U acc (mul_base_unreduced X e c)) (wide_zero U) ps) =
          (\<Sum>(e, c)\<leftarrow>ps. e * lift_base X c)))"

locale coordinates =
  fixes limit :: nat and fc :: "('f::comm_ring_1, 'e::comm_ring_1) field_codec" and U :: "('e, 'w) unreduced_ops" and X :: "('f, 'e, 'w) ext_ops"
  assumes laws: "ext_laws limit fc U X"
begin

abbreviation coord :: "'e \<Rightarrow> nat \<Rightarrow> 'f" where
  "coord x i \<equiv> to_base_vec fc x ! i"

abbreviation lift :: "'f \<Rightarrow> 'e" where
  "lift a \<equiv> lift_base X a"

abbreviation deg :: nat where
  "deg \<equiv> ext_degree fc"

lemma len [simp]: "length (to_base_vec fc x) = deg"
  and from_to [simp]: "from_base_slice fc (to_base_vec fc x) = x"
  and to_from: "length cs = deg \<Longrightarrow> to_base_vec fc (from_base_slice fc cs) = cs"
  and base_coefficient [simp]: "i < deg \<Longrightarrow> base_coefficient X x i = coord x i"
  and base_fn: "from_base_fn X f = from_base_slice fc (map f [0..<deg])"
  and mul_base [simp]: "mul_base X x a = x * lift a"
  and lift_add: "lift (a + b) = lift a + lift b" and lift_mult: "lift (a * b) = lift a * lift b"
  using laws by (simp_all add: ext_laws_def)

lemma coord_add: "i < deg \<Longrightarrow> coord (x + y) i = coord x i + coord y i"
  using laws by (simp add: ext_laws_def)

lemma coord_lift: "i < deg \<Longrightarrow> coord (x * lift a) i = coord x i * a"
  using laws by (simp add: ext_laws_def)

lemma lift_0 [simp]: "lift 0 = 0"
  using lift_add [of 0 0] by simp

lemma lift_sum: "lift (sum f A) = (\<Sum>i \<in> A. lift (f i))"
  by (induction A rule: infinite_finite_induct) (simp_all add: lift_add)

lemma coord_0: "i < deg \<Longrightarrow> coord 0 i = 0"
  using coord_add [of i 0 0] by simp

lemma coord_sum: "i < deg \<Longrightarrow> coord (sum f A) i = (\<Sum>a \<in> A. coord (f a) i)"
  by (induction A rule: infinite_finite_induct) (simp_all add: coord_add coord_0)

lemma coord_eqI: "(\<And>i. i < deg \<Longrightarrow> coord x i = coord y i) \<Longrightarrow> x = y"
  by (metis from_to len nth_equalityI)

lemma coord_basis: "i < deg \<Longrightarrow> j < deg \<Longrightarrow> coord (basis_element fc deg i) j = (if i = j then 1 else 0)"
  by (simp add: basis_element_def to_from nth_list_update)

text \<open>Every element is the combination of the basis by its coordinates.\<close>

lemma expand: "x = (\<Sum>s < deg. basis_element fc deg s * lift (coord x s))"
proof (rule coord_eqI)
  fix i assume i: "i < deg"
  have "coord (\<Sum>s < deg. basis_element fc deg s * lift (coord x s)) i = (\<Sum>s < deg. if s = i then coord x s else 0)"
    using i by (simp add: coord_sum coord_lift coord_basis if_distrib [where f = "\<lambda>z. z * _"] cong: if_cong)
  then show "coord x i = coord (\<Sum>s < deg. basis_element fc deg s * lift (coord x s)) i" using i by simp
qed

lemma coord_mult:
  assumes "d < deg"
  shows "lift (coord (x * y) d) = (\<Sum>s < deg. lift (coord x s) * lift (coord (basis_element fc deg s * y) d))"
proof -
  have "x * y = (\<Sum>s < deg. basis_element fc deg s * lift (coord x s)) * y" using expand [of x] by simp
  also have "\<dots> = (\<Sum>s < deg. (basis_element fc deg s * y) * lift (coord x s))" unfolding sum_distrib_right by (simp add: mult_ac)
  finally show ?thesis using assms by (simp add: coord_sum coord_lift lift_sum lift_mult mult.commute)
qed

lemma from_slice_expand: "length cs = deg \<Longrightarrow> from_base_slice fc cs = (\<Sum>s < deg. basis_element fc deg s * lift (cs ! s))"
  using expand [of "from_base_slice fc cs"] by (simp add: to_from)

end

section \<open>The factor at a point\<close>

lemma weighted_sum_eq: "weighted_sum ws ps = (\<Sum>i < min (length ws) (length ps). ws ! i * ps ! i)"
proof -
  have "foldl (\<lambda>acc (w, q). acc + w * q) a (zip ws ps) = a + (\<Sum>i < min (length ws) (length ps). ws ! i * ps ! i)" for a :: 'a
  proof (induction ws ps arbitrary: a rule: list_induct2')
    case (4 w ws q ps)
    then show ?case by (simp add: sum.lessThan_Suc_shift add.assoc del: sum.lessThan_Suc)
  qed simp_all
  then show ?thesis by (simp add: weighted_sum_def)
qed

context coordinates
begin

text \<open>The transition of one coordinate \<open>t\<close>, bound to \<open>r\<close>, from basis element \<open>i\<close> to basis element \<open>d\<close>.\<close>

definition transition :: "'e \<Rightarrow> 'e \<Rightarrow> nat \<Rightarrow> nat \<Rightarrow> 'e" where
  "transition t r i d = (1 - r) * lift (coord (basis_element fc deg i * (1 - t)) d) + r * lift (coord (basis_element fc deg i * t) d)"

definition factor_state :: "'e list \<Rightarrow> 'e list \<Rightarrow> nat \<Rightarrow> 'e" where
  "factor_state xs rs d = (\<Sum>b < 2 ^ length xs. lift (coord (eq_at xs b) d) * eq_at rs b)"

lemma factor_sources_eq:
  "length st = deg \<Longrightarrow> factor_sources fc X deg t r sources st = Ok (map (\<lambda>d. st ! d + (\<Sum>(i, src)\<leftarrow>sources. src * transition t r i d)) [0..<deg])"
proof (induction sources arbitrary: st)
  case Nil
  then show ?case by (simp add: list_eq_iff_nth_eq)
next
  case (Cons p sources)
  obtain i src where p: "p = (i, src)" by (cases p)
  let ?st = "add_source X r src (to_base_vec fc (basis_element fc deg i * (1 - t))) (to_base_vec fc (basis_element fc deg i * t)) st"
  have "length ?st = deg" "\<forall>d < deg. ?st ! d = st ! d + src * transition t r i d"
    using Cons.prems by (simp_all add: add_source_def transition_def)
  with Cons p show ?case by (auto simp: add.assoc cong: map_cong)
qed

lemma transition_sum:
  "(\<Sum>s < deg. lift (coord x s) * transition t r s d) = (1 - r) * lift (coord (x * (1 - t)) d) + r * lift (coord (x * t) d)" if "d < deg"
  unfolding transition_def coord_mult [OF that, of x "1 - t"] coord_mult [OF that, of x t] sum_distrib_left distrib_left sum.distrib
  by (simp add: mult_ac)

lemma factor_state_snoc:
  assumes "length xs = length rs" and d: "d < deg"
  shows "(\<Sum>s < deg. factor_state xs rs s * transition t r s d) = factor_state (xs @ [t]) (rs @ [r]) d"
proof -
  let ?n = "2 ^ length xs :: nat"
  have "(\<Sum>s < deg. factor_state xs rs s * transition t r s d) = (\<Sum>b < ?n. eq_at rs b * (\<Sum>s < deg. lift (coord (eq_at xs b) s) * transition t r s d))"
    unfolding factor_state_def sum_distrib_right sum_distrib_left by (subst sum.swap) (simp add: mult_ac)
  also have "\<dots> = (\<Sum>b < ?n. lift (coord (eq_at xs b * (1 - t)) d) * (eq_at rs b * (1 - r))) + (\<Sum>b < ?n. lift (coord (eq_at xs b * t) d) * (eq_at rs b * r))"
    unfolding transition_sum [OF d] by (simp add: distrib_left sum.distrib mult_ac)
  also have "(\<Sum>b < ?n. lift (coord (eq_at xs b * (1 - t)) d) * (eq_at rs b * (1 - r))) = (\<Sum>b < ?n. lift (coord (eq_at (xs @ [t]) b) d) * eq_at (rs @ [r]) b)"
    using assms by (simp add: eq_at_append)
  also have "(\<Sum>b < ?n. lift (coord (eq_at xs b * t) d) * (eq_at rs b * r)) = (\<Sum>b < ?n. lift (coord (eq_at (xs @ [t]) (?n + b)) d) * eq_at (rs @ [r]) (?n + b))"
  proof (rule sum.cong [OF refl])
    fix b assume "b \<in> {..<?n}"
    then have "eq_at ys (?n + b) = eq_at ys b" if "length ys = length xs" for ys :: "'e list"
      using that eq_at_mod [of ys "?n + b"] by simp
    with assms \<open>b \<in> {..<?n}\<close> show "lift (coord (eq_at xs b * t) d) * (eq_at rs b * r) = lift (coord (eq_at (xs @ [t]) (?n + b)) d) * eq_at (rs @ [r]) (?n + b)"
      by (simp add: eq_at_append)
  qed
  finally show ?thesis by (simp add: factor_state_def mult_2 sum_split_at)
qed

lemma factor_coordinates_eq:
  "length xs = length rs \<Longrightarrow> length ts = length us \<Longrightarrow>
   factor_coordinates fc X deg (zip ts us) (map (factor_state xs rs) [0..<deg]) = Ok (map (factor_state (xs @ ts) (rs @ us)) [0..<deg])"
proof (induction ts arbitrary: us xs rs)
  case (Cons t ts)
  then obtain u us' where us: "us = u # us'" by (cases us) auto
  have "factor_sources fc X deg t u (zip [0..<deg] (map (factor_state xs rs) [0..<deg])) (replicate deg 0) =
      Ok (map (\<lambda>d. \<Sum>s < deg. factor_state xs rs s * transition t u s d) [0..<deg])"
    by (simp add: factor_sources_eq zip_map2 zip_same_conv_map comp_def interv_sum_list_conv_sum_set_nat atLeast0LessThan cong: map_cong)
  also have "\<dots> = Ok (map (factor_state (xs @ [t]) (rs @ [u])) [0..<deg])"
    using factor_state_snoc [OF Cons.prems(1)] by simp
  finally show ?case using Cons.IH [of "xs @ [t]" "rs @ [u]" us'] Cons.prems us by simp
qed simp

lemma project_eq:
  assumes "length ws = deg" "deg \<le> limit"
  shows "project_tensor_factor_value_unchecked U X ws v = (\<Sum>d < deg. ws ! d * lift (coord v d))"
proof -
  let ?cs = "zip [0..<deg] ws" and ?ps = "map (\<lambda>(d, w). (w, base_coefficient X v d)) (zip [0..<deg] ws)"
  have sum: "(\<Sum>(e, c)\<leftarrow>?ps. e * lift c) = (\<Sum>d < deg. ws ! d * lift (coord v d))"
    using assms by (simp add: sum_list_sum_nth atLeast0LessThan)
  have "foldl (\<lambda>acc (d, w). acc + mul_base X w (base_coefficient X v d)) a xs = a + (\<Sum>(d, w)\<leftarrow>xs. w * lift (base_coefficient X v d))" for a xs
    by (induction xs arbitrary: a) (auto simp: add.assoc)
  moreover have "foldl (\<lambda>acc (d, w). wide_add U acc (mul_base_unreduced X w (base_coefficient X v d))) z ?cs =
      foldl (\<lambda>acc (e, c). wide_add U acc (mul_base_unreduced X e c)) z ?ps" for z
    by (simp add: foldl_map case_prod_unfold)
  moreover have "sum_is_exact U \<Longrightarrow> reduce_product U (foldl (\<lambda>acc (e, c). wide_add U acc (mul_base_unreduced X e c)) (wide_zero U) ?ps) = (\<Sum>(e, c)\<leftarrow>?ps. e * lift c)"
    using laws assms unfolding ext_laws_def by (metis (no_types, lifting) length_map length_upt length_zip min.idem minus_nat.diff_0)
  ultimately show ?thesis using assms sum
    by (simp add: project_tensor_factor_value_unchecked_def Let_def comp_def case_prod_unfold)
qed

end

lemma tensor_opening_split_Ok:
  "tensor_opening_split fc = Ok (split_bits, width) \<longleftrightarrow> width = ext_degree fc \<and> width = 2 ^ split_bits"
  by (auto simp: tensor_opening_split_def Let_def is_power_of_two_iff trailing_zeros_power)

lemma reduction_table_len_Ok: "reduction_table_len n = Ok m \<Longrightarrow> m = 2 ^ n"
  by (auto simp: reduction_table_len_def ok_or_eq_Inr pow2_def checked_shl_one_def split: if_splits option.splits bind_splits)

context coordinates
begin

lemma factor_evals_Ok:
  assumes f: "tensor_equality_factor_evals env fc U X tail_point eta = Ok f" and limit: "deg \<le> limit"
  shows "deg = 2 ^ length eta \<and> table_fits env (length eta) \<and> can_reserve env (2 ^ length eta) \<and>
    f = map (\<lambda>b. \<Sum>d < deg. eq_at eta d * lift (coord (eq_at tail_point b) d)) [0..<2 ^ length tail_point]"
proof -
  from f obtain sb w where s: "tensor_opening_split fc = Ok (sb, w)" "length eta = sb" "table_fits env (length eta)" "can_reserve env (2 ^ length eta)"
    and ev: "evals_mapped env tail_point (project_tensor_factor_value_unchecked U X (eq_table 1 eta)) = Ok f"
    by (auto simp: tensor_equality_factor_evals_def try_r_eq_Inr eq_evals_Ok split: if_splits)
  then have d: "deg = 2 ^ length eta" by (simp add: tensor_opening_split_Ok)
  from evals_mapped_Ok [OF ev] have "f = map (\<lambda>b. \<Sum>d < deg. eq_at eta d * lift (coord (eq_at tail_point b) d)) [0..<2 ^ length tail_point]"
    using limit d by (simp add: project_eq eq_table_def comp_def)
  with s d show ?thesis by simp
qed

lemma factor_at_point:
  assumes f: "tensor_equality_factor_evals env fc U X tail_point eta = Ok f" and limit: "deg \<le> limit"
    and rho: "length rho = length tail_point"
  shows "tensor_equality_factor_eval_at_point env fc X tail_point eta rho = Ok (mle_sum f rho)"
proof -
  from factor_evals_Ok [OF f limit] have eta: "deg = 2 ^ length eta" "table_fits env (length eta)" "can_reserve env (2 ^ length eta)"
    and feq: "f = map (\<lambda>b. \<Sum>d < deg. eq_at eta d * lift (coord (eq_at tail_point b) d)) [0..<2 ^ length tail_point]" by auto
  have "tensor_opening_split fc = Ok (length eta, deg)" by (simp add: tensor_opening_split_Ok eta(1))
  moreover have "eq_evals env eta = Ok (eq_table 1 eta)" by (simp add: eq_evals_Ok eta)
  moreover have "map (lift_base X) (to_base_vec fc 1) = map (factor_state [] []) [0..<deg]"
    by (simp add: list_eq_iff_nth_eq factor_state_def)
  ultimately have "tensor_equality_factor_eval_at_point env fc X tail_point eta rho =
      Ok (weighted_sum (map (factor_state tail_point rho) [0..<deg]) (eq_table 1 eta))"
    using rho eta(1) factor_coordinates_eq [of "[]" "[]" tail_point rho]
    by (simp add: tensor_equality_factor_eval_at_point_def Let_def)
  also have "weighted_sum (map (factor_state tail_point rho) [0..<deg]) (eq_table 1 eta) =
      (\<Sum>d < deg. \<Sum>b < 2 ^ length tail_point. eq_at eta d * lift (coord (eq_at tail_point b) d) * eq_at rho b)"
    using eta(1) by (simp add: weighted_sum_eq factor_state_def sum_distrib_right sum_distrib_left mult_ac)
  also have "\<dots> = mle_sum f rho"
    by (subst sum.swap) (simp add: mle_sum_def feq sum_distrib_right)
  finally show ?thesis .
qed

end

section \<open>Column partials\<close>

lemma length_update_slots [simp]: "length (update_slots f as bs) = length as"
  by (induction f as bs rule: update_slots.induct) simp_all

lemma nth_update_slots: "i < length as \<Longrightarrow> update_slots f as bs ! i = (if i < length bs then f (as ! i) (bs ! i) else as ! i)"
  by (induction f as bs arbitrary: i rule: update_slots.induct) (auto simp: nth_Cons split: nat.splits)

lemma partials_inner_nth:
  assumes rows: "\<And>t. t < in_len split \<Longrightarrow> length (row (row_base + t) width) = width" and h: "h < width"
  shows "partials_inner add zero split row width row_base ! h =
      foldl (\<lambda>acc (e, c). add acc e c) zero (map (\<lambda>x. (e_in split ! x, row (row_base + x) width ! h)) [0..<in_len split])"
proof -
  let ?step = "\<lambda>x_in inner. update_slots (\<lambda>slot. add slot (e_in split ! x_in)) inner (row (row_base + x_in) width)"
  have "m \<le> in_len split \<Longrightarrow> length (fold ?step [0..<m] (replicate width zero)) = width \<and> fold ?step [0..<m] (replicate width zero) ! h =
      foldl (\<lambda>acc (e, c). add acc e c) zero (map (\<lambda>x. (e_in split ! x, row (row_base + x) width ! h)) [0..<m])" for m
    by (induction m) (use h rows in \<open>simp_all add: nth_update_slots\<close>)
  then show ?thesis by (simp add: partials_inner_def)
qed

lemma length_partials_inner [simp]: "length (partials_inner add zero split row width row_base) = width"
proof -
  have "length (fold (\<lambda>x_in inner. update_slots (\<lambda>slot. add slot (e_in split ! x_in)) inner (row (row_base + x_in) width)) xs st) = length st" for xs st
    by (induction xs arbitrary: st) simp_all
  then show ?thesis by (simp add: partials_inner_def)
qed

context coordinates
begin

definition slab :: "'e split_eq_evals \<Rightarrow> (nat \<Rightarrow> nat \<Rightarrow> 'f list) \<Rightarrow> nat \<Rightarrow> nat \<Rightarrow> nat \<Rightarrow> 'e" where
  "slab split row width h x_out = e_out split ! x_out * (\<Sum>x < in_len split. e_in split ! x * lift (row (x_out * in_len split + x) width ! h))"

lemma contribution_nth:
  assumes rows: "\<And>t. t < in_len split \<Longrightarrow> length (row (x_out * in_len split + t) width) = width"
    and h: "h < width" "length out = width" and limit: "in_len split \<le> limit"
  shows "partials_out_contribution U X split row width x_out out ! h = out ! h + slab split row width h x_out"
proof -
  let ?ps = "map (\<lambda>x. (e_in split ! x, row (x_out * in_len split + x) width ! h)) [0..<in_len split]"
  have sum: "(\<Sum>(e, c)\<leftarrow>?ps. e * lift c) = (\<Sum>x < in_len split. e_in split ! x * lift (row (x_out * in_len split + x) width ! h))"
    by (simp add: comp_def interv_sum_list_conv_sum_set_nat atLeast0LessThan)
  have "foldl (\<lambda>acc (e, c). acc + mul_base X e c) a xs = a + (\<Sum>(e, c)\<leftarrow>xs. e * lift c)" for a xs
    by (induction xs arbitrary: a) (auto simp: add.assoc)
  moreover have "sum_is_exact U \<Longrightarrow> reduce_product U (foldl (\<lambda>acc (e, c). wide_add U acc (mul_base_unreduced X e c)) (wide_zero U) ?ps) = (\<Sum>(e, c)\<leftarrow>?ps. e * lift c)"
    using laws limit unfolding ext_laws_def by (metis (no_types, lifting) length_map length_upt minus_nat.diff_0)
  ultimately show ?thesis using h rows sum
    by (simp add: partials_out_contribution_def Let_def nth_update_slots partials_inner_nth slab_def)
qed

lemma length_contribution [simp]: "length (partials_out_contribution U X split row width x_out out) = length out"
  by (simp add: partials_out_contribution_def Let_def)

lemma contributions_nth:
  assumes rows: "\<And>t. t < out_len split * in_len split \<Longrightarrow> length (row t width) = width" and h: "h < width" and limit: "in_len split \<le> limit"
  shows "i + m \<le> out_len split \<Longrightarrow> length out = width \<Longrightarrow>
    length (fold (partials_out_contribution U X split row width) [i..<i + m] out) = width \<and>
    fold (partials_out_contribution U X split row width) [i..<i + m] out ! h = out ! h + (\<Sum>x = i..<i + m. slab split row width h x)"
proof (induction m)
  case (Suc m)
  let ?o = "fold (partials_out_contribution U X split row width) [i..<i + m] out"
  from Suc have o: "length ?o = width" "?o ! h = out ! h + (\<Sum>x = i..<i + m. slab split row width h x)" by auto
  have "length (row ((i + m) * in_len split + t) width) = width" if "t < in_len split" for t
  proof (rule rows)
    have "(i + m) * in_len split + t < Suc (i + m) * in_len split" using that by simp
    also have "\<dots> \<le> out_len split * in_len split" using Suc.prems by (intro mult_le_mono1) simp
    finally show "(i + m) * in_len split + t < out_len split * in_len split" .
  qed
  from contribution_nth [of split row "i + m" width h ?o, OF this h o(1) limit] o show ?case by (simp add: add.assoc)
qed simp

lemma joined_contributions_nth:
  assumes rows: "\<And>t. t < out_len split * in_len split \<Longrightarrow> length (row t width) = width" and h: "h < width" and limit: "in_len split \<le> limit"
  shows "i + join_size t \<le> out_len split \<Longrightarrow>
    length (join_fold (partials_out_contribution U X split row width) (replicate width 0) (update_slots (+)) t i) = width \<and>
    join_fold (partials_out_contribution U X split row width) (replicate width 0) (update_slots (+)) t i ! h = (\<Sum>x = i..<i + join_size t. slab split row width h x)"
proof (induction t arbitrary: i)
  case (Part n)
  with contributions_nth [of split row width h i n "replicate width 0", OF rows h limit] h show ?case by (auto simp: nth_update_slots)
next
  case (Join l r)
  then have "i + join_size l \<le> out_len split" "i + join_size l + join_size r \<le> out_len split" by simp_all
  with Join.IH(1) [of i] Join.IH(2) [of "i + join_size l"] h show ?case
    by (simp add: nth_update_slots add.assoc sum.atLeastLessThan_concat)
qed

lemma split_fold_nth:
  assumes rows: "\<And>t. t < out_len split * in_len split \<Longrightarrow> length (row t width) = width" and h: "h < width" and limit: "in_len split \<le> limit"
    and tree: "\<And>n. join_size (par_tree U n) = n"
  shows "length (tensor_column_partials_split_fold U X split width row) = width \<and>
    tensor_column_partials_split_fold U X split width row ! h = (\<Sum>x < out_len split. slab split row width h x)"
  using contributions_nth [of split row width h 0 "out_len split" "replicate width 0", OF rows h limit]
    joined_contributions_nth [of split row width h 0 "par_tree U (out_len split)", OF rows h limit] h
  by (simp add: tensor_column_partials_split_fold_def Let_def tree atLeast0LessThan)

end

section \<open>Openings and claims from column partials\<close>

lemma sum_blocks: "(\<Sum>b < n * k. g b) = (\<Sum>o' < n. \<Sum>i < k. g (o' * k + i))" for g :: "nat \<Rightarrow> 'a::comm_monoid_add"
proof -
  have "sum g {m * k..<m * k + k} = (\<Sum>i < k. g (m * k + i))" for m
    using sum.shift_bounds_nat_ivl [of g 0 "m * k" k] by (simp add: add.commute atLeast0LessThan)
  then show ?thesis by (simp flip: sum.nat_group)
qed

lemma eq_at_block: "i < 2 ^ length xs \<Longrightarrow> eq_at (xs @ ys) (p * 2 ^ length xs + i) = eq_at xs i * eq_at ys p"
  using eq_at_mod [of xs "p * 2 ^ length xs + i"] by (simp add: eq_at_append)

lemma nth_flat_row: "Suc t * width \<le> length evals \<Longrightarrow> length (flat_row evals t width) = width \<and> (h < width \<longrightarrow> flat_row evals t width ! h = evals ! (t * width + h))"
  by (simp add: flat_row_def)

context coordinates
begin

lemma column_partials_nth:
  assumes cols: "tensor_column_partials_from_base_evals env fc U X n base point = Ok cols"
    and tree: "\<And>n. join_size (par_tree U n) = n" and sb: "deg = 2 ^ sb" and limit: "2 ^ ((n - sb) div 2) \<le> limit"
  shows "sb \<le> n \<and> length point = n \<and> length base = 2 ^ n \<and> length cols = deg \<and>
    (\<forall>v < deg. cols ! v = (\<Sum>b < 2 ^ (n - sb). eq_at (drop sb point) b * lift (base ! (b * deg + v))))"
proof -
  have sb': "tensor_opening_split fc = Ok (sb, deg)" by (simp add: tensor_opening_split_Ok sb)
  from cols obtain split where shape: "sb \<le> n" "length point = n" "length base = 2 ^ n"
    and split: "split_new env (drop sb point) = Ok split" and eq: "cols = tensor_column_partials_split_fold U X split deg (flat_row base)"
    by (auto simp: tensor_column_partials_from_base_evals_def sb' try_r_eq_Inr split: if_splits dest!: reduction_table_len_Ok)
  let ?t = "drop sb point" let ?m = "length ?t div 2" let ?I = "2 ^ ?m :: nat" and ?O = "2 ^ (length ?t - ?m) :: nat"
  note s = split_new_Ok [OF split]
  have len: "in_len split = ?I" "out_len split = ?O" by (simp_all add: in_len_def out_len_def s min_absorb2)
  have IO: "?O * ?I = 2 ^ (n - sb)" using shape by (simp flip: power_add)
  have pos: "0 < deg" using sb by simp
  have "2 ^ (n - sb) * deg = (2 ^ n :: nat)" using shape sb by (simp flip: power_add)
  then have row: "length (flat_row base t deg) = deg \<and> (h < deg \<longrightarrow> flat_row base t deg ! h = base ! (t * deg + h))" if "t < 2 ^ (n - sb)" for t h
    using that shape(3) by (intro nth_flat_row) (metis Suc_leI mult_le_mono1)
  have fold: "length cols = deg \<and> cols ! h = (\<Sum>x < ?O. slab split (flat_row base) deg h x)" if "h < deg" for h
    unfolding eq len(2) [symmetric]
    by (rule split_fold_nth [OF _ that _ tree]) (use row IO limit len shape in auto)
  have "cols ! v = (\<Sum>b < 2 ^ (n - sb). eq_at ?t b * lift (base ! (b * deg + v)))" if v: "v < deg" for v
  proof -
    have "cols ! v = (\<Sum>x < ?O. \<Sum>i < ?I. eq_at ?t (x * ?I + i) * lift (base ! ((x * ?I + i) * deg + v)))"
    proof (simp only: fold [OF v, THEN conjunct2], rule sum.cong [OF refl])
      fix x assume x: "x \<in> {..<?O}"
      have lt: "length (take ?m ?t) = ?m" by (simp add: min_absorb2)
      have ex: "e_out split ! x = eq_at (drop ?m ?t) x" unfolding s(2) using x by (subst nth_eq_table) (simp_all add: add.commute)
      have "x * ?I + i < 2 ^ (n - sb)" if "i < ?I" for i
      proof -
        have "x * ?I + i < Suc x * ?I" using that by simp
        also have "\<dots> \<le> ?O * ?I" using x by (intro mult_le_mono1) simp
        finally show ?thesis by (simp only: IO)
      qed
      moreover have "eq_at ?t (x * ?I + i) = eq_at (take ?m ?t) i * eq_at (drop ?m ?t) x" if "i < ?I" for i
        using eq_at_block [of i "take ?m ?t" "drop ?m ?t" x, unfolded lt append_take_drop_id, OF that] .
      ultimately show "slab split (flat_row base) deg v x = (\<Sum>i < ?I. eq_at ?t (x * ?I + i) * lift (base ! ((x * ?I + i) * deg + v)))"
        using v row by (simp add: slab_def ex len s(1) min_absorb2 sum_distrib_left mult_ac)
    qed
    also have "\<dots> = (\<Sum>b < 2 ^ (n - sb). eq_at ?t b * lift (base ! (b * deg + v)))" unfolding IO [symmetric] by (simp only: sum_blocks)
    finally show ?thesis .
  qed
  with shape fold [OF pos] show ?thesis by blast
qed

lemma opening_from_columns:
  assumes cols: "tensor_column_partials_from_base_evals env fc U X n base point = Ok cols"
    and tree: "\<And>n. join_size (par_tree U n) = n" and sb: "deg = 2 ^ sb" and limit: "2 ^ ((n - sb) div 2) \<le> limit"
    and fits: "table_fits env sb" "can_reserve env (2 ^ sb)"
  shows "derive_tensor_extension_opening_claim_from_partials env fc point cols = Ok (mle_sum (map lift base) point)"
proof -
  note c = column_partials_nth [OF cols tree sb limit]
  let ?h = "take sb point" and ?t = "drop sb point"
  have l: "length ?h = sb" using c by simp
  have blk: "eq_at point (b * deg + v) = eq_at ?h v * eq_at ?t b" if "v < deg" for b v
    using eq_at_block [of v ?h ?t b] that sb l by simp
  have "mle_sum (map lift base) point = (\<Sum>b < 2 ^ (n - sb) * deg. lift (base ! b) * eq_at point b)"
    using c sb by (simp add: mle_sum_def flip: power_add)
  also have "\<dots> = (\<Sum>b < 2 ^ (n - sb). \<Sum>v < deg. eq_at ?h v * (eq_at ?t b * lift (base ! (b * deg + v))))"
    unfolding sum_blocks by (simp add: blk mult_ac)
  also have "\<dots> = (\<Sum>v < deg. eq_at ?h v * cols ! v)" using c by (subst sum.swap) (simp add: sum_distrib_left)
  finally have "mle_sum (map lift base) point = weighted_sum (eq_table 1 ?h) cols" using c sb l by (simp add: weighted_sum_eq)
  moreover have "eq_evals env ?h = Ok (eq_table 1 ?h)" using fits l by (simp add: eq_evals_Ok)
  moreover have "tensor_opening_split fc = Ok (sb, deg)" by (simp add: tensor_opening_split_Ok sb)
  ultimately show ?thesis using c by (simp add: derive_tensor_extension_opening_claim_from_partials_def)
qed

lemma claim_from_columns:
  assumes cols: "tensor_column_partials_from_base_evals env fc U X n base point = Ok cols"
    and tree: "\<And>n. join_size (par_tree U n) = n" and sb: "deg = 2 ^ sb" and limit: "2 ^ ((n - sb) div 2) \<le> limit" "deg \<le> limit"
    and packed: "tensor_packed_witness_evals fc n base = Ok w" and f: "tensor_equality_factor_evals env fc U X (drop sb point) eta = Ok f"
  shows "\<exists>rows. tensor_row_partials_from_columns fc X cols = Ok rows \<and> tensor_reduction_claim_from_rows env fc rows eta = Ok (table_product f w) \<and>
    length w = 2 ^ (n - sb) \<and> length f = 2 ^ (n - sb)"
proof -
  note c = column_partials_nth [OF cols tree sb limit(1)] and fo = factor_evals_Ok [OF f limit(2)]
  let ?t = "drop sb point" and ?B = "2 ^ (n - sb) :: nat"
  have split: "tensor_opening_split fc = Ok (sb, deg)" by (simp add: tensor_opening_split_Ok sb)
  have eta: "length eta = sb" using fo sb by simp
  have "2 ^ n div deg = ?B" using c sb by (simp add: power_diff)
  with packed have w: "w = map (\<lambda>b. from_base_slice fc (take deg (drop (b * deg) base))) [0..<?B]"
    by (auto simp: tensor_packed_witness_evals_def split try_r_eq_Inr split: if_splits dest!: reduction_table_len_Ok)
  have wn: "w ! b = (\<Sum>v < deg. basis_element fc deg v * lift (base ! (b * deg + v)))" if "b < ?B" for b
  proof -
    have "?B * deg = 2 ^ n" using c sb by (simp flip: power_add)
    then have "Suc b * deg \<le> length base" using that c by (metis Suc_leI mult_le_mono1)
    then show ?thesis using that by (simp add: w from_slice_expand)
  qed
  let ?rows = "map (\<lambda>row. from_base_fn X (\<lambda>column. base_coefficient X (cols ! column) row)) [0..<deg]"
  have row: "?rows ! u = (\<Sum>b < ?B. lift (coord (eq_at ?t b) u) * w ! b)" if u: "u < deg" for u
  proof -
    have "?rows ! u = (\<Sum>v < deg. basis_element fc deg v * lift (coord (cols ! v) u))" using u by (simp add: base_fn from_slice_expand)
    also have "\<dots> = (\<Sum>v < deg. \<Sum>b < ?B. lift (coord (eq_at ?t b) u) * (basis_element fc deg v * lift (base ! (b * deg + v))))"
      using c u by (simp add: coord_sum coord_lift lift_sum lift_mult sum_distrib_left mult_ac)
    also have "\<dots> = (\<Sum>b < ?B. lift (coord (eq_at ?t b) u) * w ! b)" by (subst sum.swap) (simp add: wn sum_distrib_left)
    finally show ?thesis .
  qed
  have "weighted_sum (eq_table 1 eta) ?rows = (\<Sum>u < deg. \<Sum>b < ?B. w ! b * (eq_at eta u * lift (coord (eq_at ?t b) u)))"
    using row eta sb by (simp add: weighted_sum_eq sum_distrib_left mult_ac)
  also have "\<dots> = table_product f w"
    using fo c by (subst sum.swap) (simp add: table_product_def sum_distrib_left)
  finally have "tensor_reduction_claim_from_rows env fc ?rows eta = Ok (table_product f w)"
    using fo eta by (simp add: tensor_reduction_claim_from_rows_def split eq_evals_Ok try_r_eq_Inr)
  moreover have "tensor_row_partials_from_columns fc X cols = Ok ?rows" using c by (simp add: tensor_row_partials_from_columns_def split)
  ultimately show ?thesis using fo c w by auto
qed

end

lemma half_within: "2 ^ t \<le> 2 * limit \<Longrightarrow> 0 < limit \<Longrightarrow> 2 ^ (t div 2) \<le> (limit :: nat)"
proof (cases t)
  case (Suc t')
  assume "2 ^ t \<le> 2 * limit"
  then have "2 ^ t' \<le> limit" using Suc by simp
  have "(2::nat) ^ (t div 2) \<le> 2 ^ t'" using Suc by (intro power_increasing) simp_all
  also have "\<dots> \<le> limit" by fact
  finally show ?thesis .
qed simp

lemma tensor_claims:
  assumes laws: "ext_laws limit fc U X" "unreduced_laws limit U" and limit: "ext_degree fc \<le> limit" "length w \<le> 2 * limit"
    and cols: "tensor_column_partials_from_base_evals env fc U X n base point = Ok cols"
    and packed: "tensor_packed_witness_evals fc n base = Ok w"
    and f: "tensor_equality_factor_evals env fc U X (drop (length eta) point) eta = Ok f"
  shows "derive_tensor_extension_opening_claim_from_partials env fc point cols = Ok (mle_sum (map (lift_base X) base) point) \<and>
    (\<exists>rows. tensor_row_partials_from_columns fc X cols = Ok rows \<and> tensor_reduction_claim_from_rows env fc rows eta = Ok (table_product f w))"
proof -
  have c: "coordinates limit fc U X" by unfold_locales (rule laws(1))
  note fo = coordinates.factor_evals_Ok [OF c f limit(1)]
  then have sb: "ext_degree fc = 2 ^ length eta" by simp
  then have split: "tensor_opening_split fc = Ok (length eta, ext_degree fc)" by (simp add: tensor_opening_split_Ok)
  have tree: "join_size (par_tree U n) = n" for n using laws(2) by (simp add: unreduced_laws_def)
  from packed have "length w = 2 ^ (n - length eta)"
    by (auto simp: tensor_packed_witness_evals_def split try_r_eq_Inr sb power_diff split: if_splits dest!: reduction_table_len_Ok)
  moreover have "0 < limit" using limit(1) sb by (metis less_le_trans zero_less_numeral zero_less_power)
  ultimately have half: "2 ^ ((n - length eta) div 2) \<le> limit" using limit(2) half_within by metis
  from coordinates.opening_from_columns [OF c cols tree sb half] coordinates.claim_from_columns [OF c cols tree sb half limit(1) packed f] fo
  show ?thesis by blast
qed

text \<open>
  C9.  The tensor factor agrees between the two sides: what prover and verifier evaluate coordinate by
  coordinate at a challenge point is the multilinear extension of the dense factor table the backend
  folds, for every thread count and with or without delayed products.
\<close>

theorem tensor_factor_correct:
  assumes "ext_laws limit fc U X" and "ext_degree fc \<le> limit"
    and "tensor_equality_factor_evals env fc U X tail_point eta = Ok f" and "length rho = length tail_point"
  shows "tensor_equality_factor_eval_at_point env fc X tail_point eta rho = Ok (mle_sum f rho)"
proof -
  have "coordinates limit fc U X" by unfold_locales (rule assms(1))
  from coordinates.factor_at_point [OF this assms(3,2,4)] show ?thesis .
qed

text \<open>
  C2.  Column partials of a base-field table give, read by columns, the value of its multilinear
  extension at the logical point, and, transposed to rows and batched at \<open>eta\<close>, the inner product of
  the packed witness with the tensor factor table: the claim the sumcheck reduces is the opening.
\<close>

theorem tensor_claims_correct:
  assumes "ext_laws limit fc U X" and "unreduced_laws limit U" and "ext_degree fc \<le> limit" and "length w \<le> 2 * limit"
    and "tensor_column_partials_from_base_evals env fc U X n base point = Ok cols"
    and "tensor_packed_witness_evals fc n base = Ok w"
    and "tensor_equality_factor_evals env fc U X (drop (length eta) point) eta = Ok f"
  shows "derive_tensor_extension_opening_claim_from_partials env fc point cols = Ok (mle_sum (map (lift_base X) base) point) \<and>
    (\<exists>rows. tensor_row_partials_from_columns fc X cols = Ok rows \<and> tensor_reduction_claim_from_rows env fc rows eta = Ok (table_product f w))"
  using assms by (rule tensor_claims)

section \<open>An extension of degree two\<close>

text \<open>Pairs of bytes multiplied as complex numbers: a ring of rank two over the bytes.\<close>

datatype gauss = Gauss (gre: u8) (gim: u8)

instantiation gauss :: comm_ring_1
begin

definition zero_gauss :: gauss where "0 = Gauss 0 0"
definition one_gauss :: gauss where "1 = Gauss 1 0"
definition plus_gauss :: "gauss \<Rightarrow> gauss \<Rightarrow> gauss" where "x + y = Gauss (gre x + gre y) (gim x + gim y)"
definition minus_gauss :: "gauss \<Rightarrow> gauss \<Rightarrow> gauss" where "x - y = Gauss (gre x - gre y) (gim x - gim y)"
definition uminus_gauss :: "gauss \<Rightarrow> gauss" where "- x = Gauss (- gre x) (- gim x)"
definition times_gauss :: "gauss \<Rightarrow> gauss \<Rightarrow> gauss" where
  "x * y = Gauss (gre x * gre y - gim x * gim y) (gre x * gim y + gim x * gre y)"

instance
  by standard (auto simp: zero_gauss_def one_gauss_def plus_gauss_def minus_gauss_def uminus_gauss_def times_gauss_def algebra_simps)

end

lemmas gauss_simps = zero_gauss_def one_gauss_def plus_gauss_def minus_gauss_def times_gauss_def

definition gauss_codec :: "(u8, gauss) field_codec" where
  "gauss_codec = \<lparr>num_bytes = 1, to_bytes_le = (\<lambda>x. [x]), from_bytes_le_checked = (\<lambda>bs. if length bs = 1 then Some (hd bs) else None),
     ext_degree = 2, to_base_vec = (\<lambda>x. [gre x, gim x]), from_base_slice = (\<lambda>cs. Gauss (cs ! 0) (cs ! 1))\<rparr>"

definition gauss_unreduced :: "(gauss, gauss) unreduced_ops" where
  "gauss_unreduced = \<lparr>sum_is_exact = True, mul_unreduced = (*), wide_zero = 0, wide_add = (+), reduce_product = id,
     fold_pair = (\<lambda>r a b. a + r * (b - a)), par_feature = False, par_tree = Part\<rparr>"

definition gauss_ext :: "(u8, gauss, gauss) ext_ops" where
  "gauss_ext = \<lparr>base_coefficient = (\<lambda>x i. [gre x, gim x] ! i), from_base_fn = (\<lambda>f. Gauss (f 0) (f 1)), lift_base = (\<lambda>a. Gauss a 0),
     mul_base = (\<lambda>x a. x * Gauss a 0), mul_base_unreduced = (\<lambda>x a. x * Gauss a 0)\<rparr>"

lemma gauss_laws: "ext_laws limit gauss_codec gauss_unreduced gauss_ext"
proof -
  have "foldl (\<lambda>acc (e, c). acc + e * Gauss c 0) a ps = a + (\<Sum>(e, c)\<leftarrow>ps. e * Gauss c 0)" for a ps
    by (induction ps arbitrary: a) (auto simp: add.assoc)
  moreover have "length cs = 2 \<Longrightarrow> cs = [cs ! 0, cs ! 1]" for cs :: "u8 list"
    by (auto simp: numeral_2_eq_2 length_Suc_conv)
  ultimately show ?thesis
    by (auto simp: ext_laws_def gauss_codec_def gauss_unreduced_def gauss_ext_def gauss_simps upt_rec eval_nat_numeral)
qed

lemma gauss_split: "tensor_opening_split gauss_codec = Ok (1, 2)"
  by (simp add: tensor_opening_split_Ok gauss_codec_def)

lemma gauss_degree [simp]: "ext_degree gauss_codec = 2"
  by (simp add: gauss_codec_def)

lemma gauss_factor_ok: "length tail \<le> 3 \<Longrightarrow> \<exists>f. tensor_equality_factor_evals small_env gauss_codec gauss_unreduced gauss_ext tail [e] = Ok f"
  using small_env_fits [of 1] small_env_fits [of "length tail"]
  by (auto simp: tensor_equality_factor_evals_def gauss_split try_r_eq_Inr eq_evals_Ok evals_mapped_def evals_serial_with_final_map_Ok)

lemma gauss_unreduced_laws: "unreduced_laws limit gauss_unreduced"
proof -
  have "accumulates gauss_unreduced p v n \<Longrightarrow> p = v" for p v n
    by (induction rule: accumulates.induct) (simp_all add: gauss_unreduced_def)
  then show ?thesis by (auto simp: unreduced_laws_def gauss_unreduced_def)
qed

interpretation gauss_field: coordinates 2 gauss_codec gauss_unreduced gauss_ext
  by unfold_locales (rule gauss_laws)

theorem tensor_factor_correct_witness:
  "\<exists>f. tensor_equality_factor_evals small_env gauss_codec gauss_unreduced gauss_ext [Gauss 3 1] [Gauss 5 2] = Ok f \<and>
     tensor_equality_factor_eval_at_point small_env gauss_codec gauss_ext [Gauss 3 1] [Gauss 5 2] [Gauss 7 4] = Ok (mle_sum f [Gauss 7 4])"
proof -
  obtain f where f: "tensor_equality_factor_evals small_env gauss_codec gauss_unreduced gauss_ext [Gauss 3 1] [Gauss 5 2] = Ok f"
    using gauss_factor_ok [of "[Gauss 3 1]" "Gauss 5 2"] by auto
  with tensor_factor_correct [OF gauss_laws [of 2] _ this, of "[Gauss 7 4]"] show ?thesis by simp
qed

theorem tensor_claims_correct_witness:
  "\<exists>cols w f rows. tensor_column_partials_from_base_evals small_env gauss_codec gauss_unreduced gauss_ext 2 [1, 2, 3, 4] [Gauss 3 1, Gauss 0 6] = Ok cols \<and>
     tensor_packed_witness_evals gauss_codec 2 [1, 2, 3, 4] = Ok w \<and>
     derive_tensor_extension_opening_claim_from_partials small_env gauss_codec [Gauss 3 1, Gauss 0 6] cols =
       Ok (mle_sum (map (lift_base gauss_ext) [1, 2, 3, 4]) [Gauss 3 1, Gauss 0 6]) \<and>
     tensor_row_partials_from_columns gauss_codec gauss_ext cols = Ok rows \<and>
     tensor_reduction_claim_from_rows small_env gauss_codec rows [Gauss 5 2] = Ok (table_product f w)"
proof -
  let ?base = "[1, 2, 3, 4] :: u8 list" and ?point = "[Gauss 3 1, Gauss 0 6]"
  have len: "reduction_table_len 2 = Ok 4" by (simp add: reduction_table_len_def pow2_eq usize_max_def)
  obtain cols where cols: "tensor_column_partials_from_base_evals small_env gauss_codec gauss_unreduced gauss_ext 2 ?base ?point = Ok cols"
    using small_env_fits [of 0] small_env_fits [of 1]
    by (auto simp: tensor_column_partials_from_base_evals_def gauss_split len try_r_eq_Inr split_new_def Let_def eq_evals_Ok)
  obtain w where w: "tensor_packed_witness_evals gauss_codec 2 ?base = Ok w" "length w = 2"
    by (simp add: tensor_packed_witness_evals_def gauss_split len)
  obtain f where f: "tensor_equality_factor_evals small_env gauss_codec gauss_unreduced gauss_ext (drop (length [Gauss 5 2]) ?point) [Gauss 5 2] = Ok f"
    using gauss_factor_ok [of "[Gauss 0 6]" "Gauss 5 2"] by auto
  from tensor_claims_correct [OF gauss_laws [of 2] gauss_unreduced_laws _ _ cols w(1) f] w cols show ?thesis by auto
qed

end
