(* ===== verification/Grinding_Plan_Correct.thy ===== *)
theory Grinding_Plan_Correct
  imports Grinding_Plan
begin

text \<open>
  Properties of the grinding plan: what a validated plan counts, that pricing a batch of sumcheck
  rounds at once agrees with materialising every round, and that the canonical bytes bound into
  the instance descriptor determine the plan.
\<close>

section \<open>Counts\<close>

definition run_bits :: "grinding_run \<Rightarrow> nat" where
  "run_bits run = unat (nonce_bits run) * unat (multiplicity run)"

definition run_bytes :: "grinding_run \<Rightarrow> nat" where
  "run_bytes run = nonce_max_bytes (unat (nonce_bits run)) * unat (multiplicity run)"

text \<open>The runs that a plan over a challenge order accepts.\<close>

definition run_priced :: "'z jolt_pricing \<Rightarrow> 'z challenge_field_order \<Rightarrow> grinding_run \<Rightarrow> bool" where
  "run_priced J order run \<longleftrightarrow> run_validate J run = Ok () \<and>
     (run_kind run = ProofOfWork \<longrightarrow> order_grind_bits J order (loss_factor run) = Ok (grind_bits run))"

definition counted :: "nat \<Rightarrow> nat \<Rightarrow> nat \<Rightarrow> nat \<Rightarrow> 'z plan_accumulator \<Rightarrow> 'z plan_accumulator" where
  "counted n bits bytes queries a = a\<lparr>run_count := run_count a + n, acc_nonce_bits := acc_nonce_bits a + bits,
     acc_nonce_max_bytes := acc_nonce_max_bytes a + bytes, acc_query_count := acc_query_count a + queries\<rparr>"

definition within :: "'z plan_accumulator \<Rightarrow> bool" where
  "within a \<longleftrightarrow> run_count a \<le> u32_max \<and> acc_nonce_bits a \<le> usize_max \<and> acc_nonce_max_bytes a \<le> usize_max \<and> acc_query_count a \<le> u64_max"

lemma unit_result: "r = Ok () \<or> (\<exists>e. r = Err e)"
  by (cases r) auto

lemma add_counts_Ok: "add_counts n bits bytes queries a = Ok a' \<longleftrightarrow> within a' \<and> a' = counted n bits bytes queries a"
  by (auto simp: add_counts_def try_r_eq_Inr ok_or_eq_Inr checked_add_max_def checked_add_def within_def counted_def split: if_splits)

lemma counted_Ok_parts:
  assumes "within (counted n (x * n) (y * n) (z * n) a)" and "0 < n"
  shows "x \<le> usize_max" "y \<le> usize_max" "z \<le> u64_max" "x * n \<le> usize_max" "y * n \<le> usize_max" "z * n \<le> u64_max"
proof -
  from assms(1) show le: "x * n \<le> usize_max" "y * n \<le> usize_max" "z * n \<le> u64_max" by (auto simp: within_def counted_def)
  have "v \<le> v * n" for v using assms(2) by simp
  with le show "x \<le> usize_max" "y \<le> usize_max" "z \<le> u64_max" using le_trans by blast+
qed

lemma count_repeated_Ok:
  assumes "0 < n"
  shows "count_repeated J run n a = Ok a' \<longleftrightarrow> run_validate J run = Ok () \<and> within a' \<and>
    a' = counted n (run_bits run * n) (run_bytes run * n) (unat (multiplicity run) * n) a"
proof -
  have "unat (multiplicity run) < 2 ^ LENGTH(64)" by (rule unsigned_less)
  then have m: "unat (multiplicity run) \<le> usize_max" by (simp add: usize_max_def)
  show ?thesis
  proof
    assume "count_repeated J run n a = Ok a'"
    then show "run_validate J run = Ok () \<and> within a' \<and>
        a' = counted n (run_bits run * n) (run_bytes run * n) (unat (multiplicity run) * n) a"
      using m by (auto simp: count_repeated_def try_r_eq_Inr ok_or_eq_Inr checked_mul_def checked_mul_max_def run_nonce_max_bytes_def
          add_counts_Ok run_bits_def run_bytes_def split: if_splits)
  next
    assume r: "run_validate J run = Ok () \<and> within a' \<and> a' = counted n (run_bits run * n) (run_bytes run * n) (unat (multiplicity run) * n) a"
    then have "within (counted n (run_bits run * n) (run_bytes run * n) (unat (multiplicity run) * n) a)" by metis
    note parts = counted_Ok_parts [OF this assms]
    show "count_repeated J run n a = Ok a'"
      unfolding r [THEN conjunct2, THEN conjunct2]
      using r m parts by (auto simp: count_repeated_def checked_mul_def checked_mul_max_def run_nonce_max_bytes_def
          run_bits_def run_bytes_def add_counts_Ok)
  qed
qed

lemma push_repeated_Ok:
  assumes "0 < n"
  shows "push_repeated J run n a = Ok a' \<longleftrightarrow> run_priced J (acc_challenge_order a) run \<and> within a' \<and>
    a' = counted n (run_bits run * n) (run_bytes run * n) (unat (multiplicity run) * n) a"
  using count_repeated_Ok [OF assms, of J run a a']
  by (auto simp: push_repeated_def try_r_eq_Inr run_priced_def split: if_splits)

lemma counted_order [simp]: "acc_challenge_order (counted n bits bytes queries a) = acc_challenge_order a"
  by (simp add: counted_def)

lemma counted_counted: "counted n b c d (counted n' b' c' d' a) = counted (n' + n) (b' + b) (c' + c) (d' + d) a"
  by (simp add: counted_def add.assoc)

lemma within_counted_less: "within (counted n b c d a) \<Longrightarrow> n' \<le> n \<Longrightarrow> b' \<le> b \<Longrightarrow> c' \<le> c \<Longrightarrow> d' \<le> d \<Longrightarrow> within (counted n' b' c' d' a)"
  by (simp add: within_def counted_def)

lemma push_all_Ok:
  assumes "within a"
  shows "push_all J runs a = Ok a' \<longleftrightarrow> (\<forall>run \<in> set runs. run_priced J (acc_challenge_order a) run) \<and> within a' \<and>
    a' = counted (length runs) (\<Sum>run\<leftarrow>runs. run_bits run) (\<Sum>run\<leftarrow>runs. run_bytes run) (\<Sum>run\<leftarrow>runs. unat (multiplicity run)) a"
  using assms
proof (induction runs arbitrary: a)
  case Nil
  then show ?case by (auto simp: counted_def)
next
  case (Cons run runs)
  let ?a = "counted 1 (run_bits run) (run_bytes run) (unat (multiplicity run)) a"
  have "push_all J (run # runs) a = Ok a' \<longleftrightarrow> run_priced J (acc_challenge_order a) run \<and> within ?a \<and> push_all J runs ?a = Ok a'"
    using push_repeated_Ok [of 1 J run a] by (auto simp: try_r_eq_Inr)
  moreover have "within (counted (Suc (length runs)) (run_bits run + b) (run_bytes run + c) (unat (multiplicity run) + d) a) \<Longrightarrow> within ?a" for b c d
    by (erule within_counted_less) simp_all
  ultimately show ?case using Cons.IH [of ?a] by (auto simp: counted_counted)
qed

lemma grinding_plan_new_Ok:
  "grinding_plan_new J runs order = Ok p \<longleftrightarrow>
     (\<forall>run \<in> set runs. run_priced J order run) \<and> length runs \<le> u32_max \<and>
     (\<Sum>run\<leftarrow>runs. run_bits run) \<le> usize_max \<and> (\<Sum>run\<leftarrow>runs. run_bytes run) \<le> usize_max \<and>
     (\<Sum>run\<leftarrow>runs. unat (multiplicity run)) < u32_max \<and>
     p = \<lparr>plan_runs = runs, plan_challenge_order = order, total_nonce_bits = (\<Sum>run\<leftarrow>runs. run_bits run),
          plan_nonce_max_bytes = (\<Sum>run\<leftarrow>runs. run_bytes run), expanded_query_count = (\<Sum>run\<leftarrow>runs. unat (multiplicity run))\<rparr>"
proof -
  have w: "within (accumulator_new order)" by (simp add: within_def accumulator_new_def)
  show ?thesis unfolding grinding_plan_new_def try_r_eq_Inr push_all_Ok [OF w]
    by (auto simp: accumulator_cost_def TRANSCRIPT_GRINDING_QUERY_LIMIT_def
        within_def counted_def accumulator_new_def u32_max_def u64_max_def Let_def split: if_splits)
qed

section \<open>Batches\<close>

lemma representative_Some:
  "representative J b = Ok (Some run) \<longleftrightarrow>
     batch_rounds b > 0 \<and> batch_rounds b - 1 \<le> u32_max \<and>
     (\<exists>loss. polynomial_identity_loss_factor (batch_degree b) = Ok loss \<and>
        proof_of_work_run J (batch_site b (batch_rounds b - 1)) loss (batch_order b) = Ok run)"
  by (auto simp: representative_def try_r_eq_Inr checked_sub_def usize_to_u32_def narrow_def split: if_splits)

lemma representative_None: "representative J b = Ok None \<longleftrightarrow> batch_rounds b = 0"
  by (auto simp: representative_def try_r_eq_Inr checked_sub_def split: if_splits)

lemma proof_of_work_run_Ok:
  "proof_of_work_run J site loss order = Ok run \<Longrightarrow> run_site run = site \<and> multiplicity run = 1 \<and> site_kind site = ProofOfWork"
  by (auto simp: proof_of_work_run_def try_r_eq_Inr split: if_splits)

text \<open>Another round of the same batch is priced and counted alike.\<close>

lemma batch_site_valid:
  assumes "site_validate (batch_site b n) = Ok ()" and "i \<le> n" "n \<le> u32_max"
  shows "site_validate (batch_site b i) = Ok ()"
proof -
  have "(of_nat i :: u32) \<noteq> - 1" if "(of_nat n :: u32) \<noteq> - 1"
  proof
    assume "(of_nat i :: u32) = - 1"
    then have "unat (of_nat i :: u32) = 2 ^ 32 - 1" by (simp add: unsigned_minus_1_eq_mask mask_eq_exp_minus_1)
    then have "i = 2 ^ 32 - 1" using assms(2,3) by (simp add: unat_of_nat take_bit_eq_mod u32_max_def)
    with assms(2,3) have "n = 2 ^ 32 - 1" by (simp add: u32_max_def)
    with that show False by simp
  qed
  with assms(1) show ?thesis by (auto simp: site_validate_def batch_site_def split: if_splits)
qed

lemma run_validate_round:
  assumes "run_site run = batch_site b n" and "run_validate J run = Ok ()" and "i \<le> n" "n \<le> u32_max"
  shows "run_validate J (run\<lparr>run_site := batch_site b i\<rparr>) = Ok ()"
proof -
  have k: "site_kind (batch_site b i) = ProofOfWork" for i by (simp add: batch_site_def)
  from assms(2) have n: "site_validate (batch_site b n) = Ok ()" using assms(1) by (auto simp: run_validate_def try_r_eq_Inr)
  from batch_site_valid [OF this assms(3,4)] have "site_validate (batch_site b i) = Ok ()" .
  then have "run_validate J (run\<lparr>run_site := batch_site b i\<rparr>) = run_validate J run"
    by (simp add: run_validate_def run_kind_def k assms(1) n)
  with assms(2) show ?thesis by simp
qed

lemma run_priced_round:
  assumes "run_site run = batch_site b n" and "run_priced J order run" and "i \<le> n" "n \<le> u32_max"
  shows "run_priced J order (run\<lparr>run_site := batch_site b i\<rparr>)"
proof -
  have "run_kind run = ProofOfWork" using assms(1) by (simp add: run_kind_def batch_site_def)
  with assms(2) run_validate_round [OF assms(1) _ assms(3,4), of J] show ?thesis by (auto simp: run_priced_def)
qed

lemma run_counts_round [simp]:
  "run_bits (run\<lparr>run_site := site\<rparr>) = run_bits run" "run_bytes (run\<lparr>run_site := site\<rparr>) = run_bytes run"
  by (simp_all add: run_bits_def run_bytes_def)

lemma push_rounds_Ok:
  assumes "\<And>i. i \<in> set rnds \<Longrightarrow> i \<le> u32_max"
    and push: "\<And>run a a'. acc_challenge_order a = order \<Longrightarrow> push run a = Ok a' \<longleftrightarrow> Q run \<and> within a' \<and> a' = counted 1 (run_bits run) (run_bytes run) (unat (multiplicity run)) a"
    and rnds: "rnds \<noteq> []" and order: "acc_challenge_order a = order"
  shows "push_rounds push b run rnds a = Ok a' \<longleftrightarrow>
    (\<forall>i \<in> set rnds. Q (run\<lparr>run_site := batch_site b i\<rparr>)) \<and> within a' \<and>
    a' = counted (length rnds) (length rnds * run_bits run) (length rnds * run_bytes run) (length rnds * unat (multiplicity run)) a"
  using rnds assms(1) order
proof (induction rnds arbitrary: a rule: list_nonempty_induct)
  case (single i)
  then show ?case by (auto simp: try_r_eq_Inr run_at_def usize_to_u32_def narrow_def push)
next
  case (cons i rnds)
  let ?r = "run\<lparr>run_site := batch_site b i\<rparr>" and ?a = "counted 1 (run_bits run) (run_bytes run) (unat (multiplicity run)) a"
  have "push_rounds push b run (i # rnds) a = Ok a' \<longleftrightarrow> Q ?r \<and> within ?a \<and> push_rounds push b run rnds ?a = Ok a'"
    using cons.prems by (auto simp: try_r_eq_Inr run_at_def usize_to_u32_def narrow_def push)
  moreover have "within (counted (Suc (length rnds)) (run_bits run + c) (run_bytes run + d) (unat (multiplicity run) + e) a) \<Longrightarrow> within ?a" for c d e
    by (erule within_counted_less) simp_all
  ultimately show ?case using cons.IH [of ?a] cons.prems by (auto simp: counted_counted)
qed

lemma accumulator_rounds_Ok:
  "accumulator_sumcheck_rounds J b a = Ok a' \<longleftrightarrow> batch_rounds b = 0 \<and> a' = a \<or>
     (\<exists>run. representative J b = Ok (Some run) \<and> batch_rounds b \<le> u32_max \<and> run_priced J (acc_challenge_order a) run \<and> within a' \<and>
        a' = counted (batch_rounds b) (run_bits run * batch_rounds b) (run_bytes run * batch_rounds b) (unat (multiplicity run) * batch_rounds b) a)"
proof (cases "batch_rounds b = 0")
  case True
  then have "representative J b = Ok None" by (simp add: representative_None)
  with True show ?thesis by (auto simp: accumulator_sumcheck_rounds_def repeated_def)
next
  case False
  then have ne: "representative J b \<noteq> Ok None" by (simp add: representative_None)
  show ?thesis
  proof (cases "representative J b")
    case (Inl e)
    with False show ?thesis by (simp add: accumulator_sumcheck_rounds_def repeated_def)
  next
    case (Inr r)
    with ne obtain run where "representative J b = Ok (Some run)" by (cases r) auto
    with False show ?thesis
      by (cases "batch_rounds b \<le> u32_max") (simp_all add: accumulator_sumcheck_rounds_def repeated_def push_repeated_Ok not_le)
  qed
qed

section \<open>Canonical bytes\<close>

lemma le_bytes_inj:
  assumes "le_bytes n v = le_bytes n w" and "LENGTH('a::len) \<le> 8 * n"
  shows "v = (w :: 'a word)"
proof (rule bit_word_eqI)
  fix k assume k: "k < LENGTH('a)"
  then have q: "k div 8 < n" using assms(2) by (simp add: less_mult_imp_div_less mult.commute)
  have "(ucast (drop_bit (8 * (k div 8)) v) :: u8) = ucast (drop_bit (8 * (k div 8)) w)"
    using nth_le_bytes [OF q, of v] nth_le_bytes [OF q, of w] assms(1) by simp
  then have "bit (ucast (drop_bit (8 * (k div 8)) v) :: u8) (k mod 8) = bit (ucast (drop_bit (8 * (k div 8)) w) :: u8) (k mod 8)" by simp
  then show "bit v k = bit w k" using k by (simp add: bit_simps)
qed

lemma push_u32_append: "push_u32 v @ xs = push_u32 w @ ys \<longleftrightarrow> v = w \<and> xs = ys"
  by (auto simp: push_u32_def dest: le_bytes_inj [where 'a = 32])

lemma le_bytes_eq: "le_bytes 8 (v :: u64) = le_bytes 8 w \<longleftrightarrow> v = w" "le_bytes 16 (v' :: u128) = le_bytes 16 w' \<longleftrightarrow> v' = w'"
  by (auto dest: le_bytes_inj [where 'a = 64] le_bytes_inj [where 'a = 128])

lemma sumcheck_tag_inj: "sumcheck_tag p = sumcheck_tag q \<longleftrightarrow> p = q"
  by (cases p; cases q) simp_all

lemma sumcheck_tag_roundtrip: "sumcheck_from_tag (sumcheck_tag p) = Some p"
  by (cases p) (simp_all add: sumcheck_from_tag_def)

lemma site_bytes_append: "site_canonical_bytes s @ xs = site_canonical_bytes s' @ ys \<Longrightarrow> s = s' \<and> xs = ys"
  by (cases s; cases s') (auto simp: push_u32_append sumcheck_tag_inj)

lemma site_id_inj: "site_id d s = site_id d' s' \<longleftrightarrow> d = d' \<and> s = s'"
  by (cases s; cases s') (auto simp: family_site_def default_site_def sumcheck_tag_inj)

lemma run_bytes_append:
  assumes "run_validate J r = Ok ()" "run_validate J r' = Ok ()"
    and eq: "run_canonical_bytes r @ xs = run_canonical_bytes r' @ ys"
  shows "r = r' \<and> xs = ys"
proof -
  from eq have site: "run_site r = run_site r'" unfolding run_canonical_bytes_def
    by (simp only: append.assoc) (drule site_bytes_append, blast)
  then have kind: "run_kind r' = run_kind r" by (simp add: run_kind_def)
  have zero: "run_kind q \<noteq> FoldWorkQuery \<Longrightarrow> run_validate J q = Ok () \<Longrightarrow> challenge_set_bits q = 0" for q
    by (auto simp: run_validate_def try_r_eq_Inr split: if_splits)
  from eq have "loss_factor r = loss_factor r'" "grind_bits r = grind_bits r'" "nonce_bits r = nonce_bits r'" "multiplicity r = multiplicity r'"
    "challenge_set_bits r = challenge_set_bits r' \<and> xs = ys"
    using zero [of r] zero [of r'] assms(1,2)
    by (auto simp: run_canonical_bytes_def site kind le_bytes_eq push_u32_append split: if_splits)
  with site show ?thesis by (cases r; cases r') simp
qed

lemma runs_bytes_inj:
  assumes "length rs = length rs'" and "\<forall>r \<in> set rs. run_validate J r = Ok ()" and "\<forall>r \<in> set rs'. run_validate J r = Ok ()"
    and "concat (map run_canonical_bytes rs) = concat (map run_canonical_bytes rs')"
  shows "rs = rs'"
  using assms
proof (induction rs rs' rule: list_induct2)
  case (Cons r rs r' rs')
  from run_bytes_append [of J r r' "concat (map run_canonical_bytes rs)" "concat (map run_canonical_bytes rs')"] Cons.prems
  have "r = r'" "concat (map run_canonical_bytes rs) = concat (map run_canonical_bytes rs')" by auto
  with Cons show ?case by simp
qed simp

text \<open>The orders that the two constructors build.\<close>

definition order_built :: "'z jolt_pricing \<Rightarrow> 'z challenge_field_order \<Rightarrow> bool" where
  "order_built J order \<longleftrightarrow> (\<exists>bits degree modulus. from_field J bits degree modulus = Ok order) \<or> (\<exists>bits. from_full_capacity J bits = Ok order)"

lemma from_field_Ok:
  assumes "from_field J bits degree modulus = Ok order"
  shows "extension_degree order \<noteq> 0 \<and> nominal_capacity_bits order div extension_degree order = bits \<and>
    nominal_capacity_bits order = bits * extension_degree order \<and> field_order J (field_modulus order) (extension_degree order) = Some (set_size order)"
proof -
  from assms have d: "degree \<noteq> 0" "degree \<le> u32_max" "unat bits * degree \<le> u32_max"
    and o: "nominal_capacity_bits order = of_nat (unat bits * degree)" "extension_degree order = of_nat degree"
      "field_order J (field_modulus order) (extension_degree order) = Some (set_size order)"
    by (auto simp: from_field_def try_r_eq_Inr checked_mul_max_def split: if_splits)
  have ud: "unat (of_nat degree :: u32) = degree" using d(2) by (simp add: unat_of_nat take_bit_eq_mod u32_max_def)
  have "(of_nat degree :: u32) \<noteq> 0" using d(1) ud by auto
  moreover have "unat (of_nat (unat bits * degree) :: u32) = unat bits * degree" using d(3)
    by (simp only: unat_of_nat take_bit_eq_mod u32_max_def) simp
  then have "unat ((of_nat (unat bits * degree) :: u32) div of_nat degree) = unat bits" using ud d(1) by (simp add: unat_div)
  then have "(of_nat (unat bits * degree) :: u32) div of_nat degree = bits" by (rule word_unat_eq_iff [THEN iffD2])
  moreover have "(of_nat (unat bits * degree) :: u32) = bits * of_nat degree" by simp
  ultimately show ?thesis using o by simp
qed

lemma from_full_Ok: "from_full_capacity J bits = Ok order \<Longrightarrow> extension_degree order = 0 \<and> field_modulus order = 0 \<and>
    set_size order = power_of_two J (nominal_capacity_bits order)"
  by (auto simp: from_full_capacity_def split: if_splits)

lemma order_bytes_append:
  assumes "order_built J o1" "order_built J o2" and eq: "order_canonical_bytes o1 @ xs = order_canonical_bytes o2 @ ys"
  shows "o1 = o2 \<and> xs = ys"
proof (cases "extension_degree o1 = 0")
  case True
  with eq have "extension_degree o2 = 0" "nominal_capacity_bits o1 = nominal_capacity_bits o2" "xs = ys"
    by (auto simp: order_canonical_bytes_def push_u32_append split: if_splits)
  with True assms(1,2) show ?thesis
    by (auto simp: order_built_def dest!: from_full_Ok from_field_Ok intro: challenge_field_order.equality)
next
  case False
  with eq have d: "extension_degree o2 \<noteq> 0" "extension_degree o1 = extension_degree o2" "field_modulus o1 = field_modulus o2" "xs = ys"
    "nominal_capacity_bits o1 div extension_degree o1 = nominal_capacity_bits o2 div extension_degree o2"
    by (auto simp: order_canonical_bytes_def push_u32_append le_bytes_eq split: if_splits)
  have built: "order_built J q \<Longrightarrow> extension_degree q \<noteq> 0 \<Longrightarrow> nominal_capacity_bits q = nominal_capacity_bits q div extension_degree q * extension_degree q \<and>
      field_order J (field_modulus q) (extension_degree q) = Some (set_size q)" for q
    by (auto simp: order_built_def dest!: from_full_Ok from_field_Ok)
  from built [OF assms(1) False] built [OF assms(2) d(1)] d
  have "nominal_capacity_bits o1 = nominal_capacity_bits o2" "set_size o1 = set_size o2" by (metis, metis option.inject)
  with d show ?thesis by (simp add: challenge_field_order.equality)
qed

section \<open>Properties\<close>

text \<open>
  C27.  Pricing a batch of sumcheck rounds at once is exact: the accumulator that counts one
  representative run with repetitions accepts a batch and reaches a state exactly when pushing
  the run of every round one by one does, reserved indices and overflows included.
\<close>

theorem batch_pricing_exact:
  "accumulator_sumcheck_rounds J b a = Ok a' \<longleftrightarrow> sumcheck_rounds J (\<lambda>run. push_repeated J run 1) b a = Ok a'"
proof (cases "batch_rounds b = 0")
  case True
  then have "representative J b = Ok None" by (simp add: representative_None)
  with True show ?thesis by (auto simp: accumulator_rounds_Ok sumcheck_rounds_def)
next
  case False
  let ?n = "batch_rounds b" and ?o = "acc_challenge_order a"
  have "push_rounds (\<lambda>run. push_repeated J run 1) b run [0..<?n] a = Ok a' \<longleftrightarrow>
      ?n \<le> u32_max \<and> run_priced J ?o run \<and> within a' \<and>
      a' = counted ?n (run_bits run * ?n) (run_bytes run * ?n) (unat (multiplicity run) * ?n) a"
    if rep: "representative J b = Ok (Some run)" for run
  proof -
    from rep have last: "?n - 1 \<le> u32_max" and site: "run_site run = batch_site b (?n - 1)"
      by (auto simp: representative_Some dest: proof_of_work_run_Ok)
    have "push_rounds (\<lambda>run. push_repeated J run 1) b run [0..<?n] a = Ok a' \<longleftrightarrow>
        (\<forall>i \<in> set [0..<?n]. run_priced J ?o (run\<lparr>run_site := batch_site b i\<rparr>)) \<and> within a' \<and>
        a' = counted (length [0..<?n]) (length [0..<?n] * run_bits run) (length [0..<?n] * run_bytes run) (length [0..<?n] * unat (multiplicity run)) a"
      by (rule push_rounds_Ok [where order = ?o]) (use False last push_repeated_Ok [of 1] in auto)
    moreover have "run_priced J ?o run \<longleftrightarrow> (\<forall>i \<in> set [0..<?n]. run_priced J ?o (run\<lparr>run_site := batch_site b i\<rparr>))"
    proof
      assume "run_priced J ?o run"
      then show "\<forall>i \<in> set [0..<?n]. run_priced J ?o (run\<lparr>run_site := batch_site b i\<rparr>)" by (auto intro: run_priced_round [OF site _ _ last])
    next
      assume "\<forall>i \<in> set [0..<?n]. run_priced J ?o (run\<lparr>run_site := batch_site b i\<rparr>)"
      then have "run_priced J ?o (run\<lparr>run_site := batch_site b (?n - 1)\<rparr>)" using False by simp
      then show "run_priced J ?o run" using site by (metis grinding_run.surjective grinding_run.update_convs(1) grinding_run.select_convs(1))
    qed
    moreover have "within (counted ?n c d e a) \<Longrightarrow> ?n \<le> u32_max" for c d e by (simp add: within_def counted_def)
    ultimately show ?thesis by (auto simp: mult.commute)
  qed
  with False show ?thesis
    by (auto simp: accumulator_rounds_Ok sumcheck_rounds_def try_r_eq_Inr representative_None split: option.splits)
qed

text \<open>
  C8.  The canonical bytes of a plan, which the instance descriptor binds, determine it: every
  accepted plan has them, and two accepted plans over orders that the constructors built, with the
  same bytes, are equal in every run, in the challenge order and in every total.
\<close>

theorem grinding_plan_binding:
  assumes p: "grinding_plan_new J runs order = Ok p" and q: "grinding_plan_new J runs' order' = Ok q"
    and o: "order_built J order" "order_built J order'"
  shows "(\<exists>bs. plan_canonical_bytes p = Ok bs) \<and> (plan_canonical_bytes p = plan_canonical_bytes q \<longrightarrow> p = q)"
proof (intro conjI impI)
  from p q have len: "length runs \<le> u32_max" "length runs' \<le> u32_max" and runs: "plan_runs p = runs" "plan_runs q = runs'"
    and ord: "plan_challenge_order p = order" "plan_challenge_order q = order'"
    and val: "\<forall>r \<in> set runs. run_validate J r = Ok ()" "\<forall>r \<in> set runs'. run_validate J r = Ok ()"
    by (auto simp: grinding_plan_new_Ok run_priced_def)
  then show "\<exists>bs. plan_canonical_bytes p = Ok bs" by (simp add: plan_canonical_bytes_def)
  assume "plan_canonical_bytes p = plan_canonical_bytes q"
  with len runs ord have "order_canonical_bytes order @ push_u32 (of_nat (length runs)) @ concat (map run_canonical_bytes runs) =
      order_canonical_bytes order' @ push_u32 (of_nat (length runs')) @ concat (map run_canonical_bytes runs')"
    by (simp add: plan_canonical_bytes_def)
  from order_bytes_append [OF o this] have eq: "order = order'" "(of_nat (length runs) :: u32) = of_nat (length runs')"
    "concat (map run_canonical_bytes runs) = concat (map run_canonical_bytes runs')" by (simp_all add: push_u32_append)
  have "unat (of_nat (length runs) :: u32) = unat (of_nat (length runs') :: u32)" using eq(2) by simp
  then have "length runs = length runs'" using len by (simp add: unat_of_nat take_bit_eq_mod u32_max_def)
  from runs_bytes_inj [OF this val eq(3)] have "runs = runs'" .
  with eq(1) p q show "p = q" by simp
qed

definition sample_pricing :: "unit jolt_pricing" where
  "sample_pricing = \<lparr>field_order = (\<lambda>_ _. Some ()), power_of_two = (\<lambda>_. ()), grind_bits_for_loss = (\<lambda>_ _ _. Inr 2)\<rparr>"

definition sample_order :: "unit challenge_field_order" where
  "sample_order = \<lparr>nominal_capacity_bits = 128, field_modulus = 0, extension_degree = 0, set_size = ()\<rparr>"

definition sample_runs :: "grinding_run list" where
  "sample_runs = [\<lparr>run_site = EvaluationBatch 0, loss_factor = 3, grind_bits = 2, nonce_bits = 9, multiplicity = 1, challenge_set_bits = 0\<rparr>,
     fold_response_run 0]"

lemma sample_plan_accepted:
  "grinding_plan_new sample_pricing sample_runs sample_order =
     Ok \<lparr>plan_runs = sample_runs, plan_challenge_order = sample_order, total_nonce_bits = 21, plan_nonce_max_bytes = 4, expanded_query_count = 2\<rparr>"
  by (simp add: grinding_plan_new_Ok run_priced_def run_validate_def site_validate_def run_kind_def order_grind_bits_def
      pow_nonce_bits_def run_bits_def run_bytes_def nonce_max_bytes_def ceil_div_def sample_runs_def sample_pricing_def fold_response_run_def
      FOLD_RESPONSE_NONCE_BITS_def GRINDING_NONCE_SLACK_BITS_def MAX_GRINDING_BITS_def u8_max_def u32_max_def usize_max_def map_err_def)

theorem grinding_plan_binding_witness:
  "\<exists>bs. plan_canonical_bytes \<lparr>plan_runs = sample_runs, plan_challenge_order = sample_order, total_nonce_bits = 21,
     plan_nonce_max_bytes = 4, expanded_query_count = 2\<rparr> = Ok bs"
proof -
  have "from_full_capacity sample_pricing 128 = Ok sample_order"
    by (simp add: from_full_capacity_def sample_order_def sample_pricing_def)
  then have "order_built sample_pricing sample_order" by (auto simp: order_built_def)
  from grinding_plan_binding [OF sample_plan_accepted sample_plan_accepted this this] show ?thesis by blast
qed

end
