(* ===== verification/Grinding_Replay_Correct.thy ===== *)
theory Grinding_Replay_Correct
  imports Grinding_Replay Grinding_Plan_Correct Sumcheck_Complete
begin

text \<open>
  Correctness of the grinding replay.  The cursor refines the list of the plan's entries.  Every
  scheduled operation of the prover is mirrored by its verifier counterpart, so the sumcheck channels
  of the protocol satisfy the contract \<open>mirrored_sumcheck\<close>.  A verifier that finishes has consumed
  the whole plan in order.
\<close>

section \<open>The cursor refines the list of entries\<close>

definition run_entries :: "grinding_run \<Rightarrow> plan_entry list" where
  "run_entries run = replicate (unat (multiplicity run)) (run_entry run)"

definition plan_entries :: "grinding_run list \<Rightarrow> plan_entry list" where
  "plan_entries runs = concat (map run_entries runs)"

definition remaining :: "plan_cursor \<Rightarrow> plan_entry list" where
  "remaining c = drop (run_offset c) (plan_entries (drop (run_index c) (cursor_runs c)))"

definition cursor_wf :: "plan_cursor \<Rightarrow> bool" where
  "cursor_wf c \<longleftrightarrow> (\<forall>run \<in> set (cursor_runs c). multiplicity run \<noteq> 0) \<and> length (cursor_runs c) \<le> u32_max \<and>
     (case drop (run_index c) (cursor_runs c) of
        [] \<Rightarrow> run_index c = length (cursor_runs c) \<and> run_offset c = 0
      | run # _ \<Rightarrow> run_offset c < unat (multiplicity run))"

lemma cursor_wf_new:
  assumes "grinding_plan_new J runs order = Ok p"
  shows "cursor_wf (cursor_new p) \<and> remaining (cursor_new p) = plan_entries runs"
proof -
  from assms have val: "\<forall>run \<in> set runs. run_validate J run = Ok ()" and p: "plan_runs p = runs" "length runs \<le> u32_max"
    by (auto simp: grinding_plan_new_Ok run_priced_def)
  have "run_validate J run = Ok () \<Longrightarrow> multiplicity run \<noteq> 0" for run
    by (auto simp: run_validate_def try_r_eq_Inr split: if_splits)
  with val have m: "\<forall>run \<in> set runs. multiplicity run \<noteq> 0" by blast
  then show ?thesis using p
    by (cases runs) (auto simp: cursor_wf_def cursor_new_def remaining_def unat_eq_0 intro: gr0I)
qed

lemma remaining_run:
  assumes "cursor_wf c" and "drop (run_index c) (cursor_runs c) = run # runs"
  shows "remaining c = replicate (unat (multiplicity run) - run_offset c) (run_entry run) @ plan_entries runs"
    and "run_index c < length (cursor_runs c)" "cursor_runs c ! run_index c = run" "drop (Suc (run_index c)) (cursor_runs c) = runs"
    and "run_offset c < unat (multiplicity run)"
proof -
  show i: "run_index c < length (cursor_runs c)" using assms(2) by (metis drop_all linorder_not_less list.distinct(1))
  with assms(2) show "cursor_runs c ! run_index c = run" "drop (Suc (run_index c)) (cursor_runs c) = runs"
    by (auto simp: Cons_nth_drop_Suc [symmetric])
  show off: "run_offset c < unat (multiplicity run)" using assms by (simp add: cursor_wf_def)
  then show "remaining c = replicate (unat (multiplicity run) - run_offset c) (run_entry run) @ plan_entries runs"
    using assms(2) by (simp add: remaining_def plan_entries_def run_entries_def)
qed

lemma cursor_next_eq:
  assumes wf: "cursor_wf c"
  shows "case remaining c of [] \<Rightarrow> cursor_next c = (None, c)
    | e # es \<Rightarrow> (\<exists>c'. cursor_next c = (Some e, c') \<and> remaining c' = es \<and> cursor_wf c' \<and> cursor_runs c' = cursor_runs c)"
proof (cases "drop (run_index c) (cursor_runs c)")
  case Nil
  with wf show ?thesis by (simp add: remaining_def plan_entries_def cursor_next_def run_lookup_def cursor_wf_def)
next
  case (Cons run runs)
  note r = remaining_run [OF wf Cons]
  let ?left = "unat (multiplicity run) - run_offset c"
  from r(5) have left: "?left = Suc (unat (multiplicity run) - Suc (run_offset c))" by simp
  have m: "\<forall>run \<in> set (cursor_runs c). multiplicity run \<noteq> 0" "length (cursor_runs c) \<le> u32_max" using wf by (simp_all add: cursor_wf_def)
  show ?thesis
  proof (cases "run_offset c + 1 = unat (multiplicity run)")
    case True
    let ?c = "c\<lparr>run_index := run_index c + 1, run_offset := 0\<rparr>"
    have "cursor_wf ?c"
    proof (cases runs)
      case Nil
      then have "length (cursor_runs c) = Suc (run_index c)" using r(2,4) by (metis Suc_leI drop_eq_Nil le_antisym)
      with Nil m r(4) show ?thesis by (simp add: cursor_wf_def)
    next
      case (Cons run' runs')
      then have "run' \<in> set (cursor_runs c)" using r(4) by (metis in_set_dropD list.set_intros(1))
      then have "0 < unat (multiplicity run')" using m by (auto simp: unat_eq_0 intro: gr0I)
      with Cons m r(4) show ?thesis by (simp add: cursor_wf_def)
    qed
    moreover have "remaining ?c = plan_entries runs" using r(4) by (simp add: remaining_def)
    moreover have "remaining c = run_entry run # plan_entries runs" using r(1) left True by simp
    ultimately show ?thesis using r True by (simp add: cursor_next_def run_lookup_def Let_def)
  next
    case False
    let ?c = "c\<lparr>run_offset := run_offset c + 1\<rparr>"
    have "cursor_wf ?c" using m Cons r(5) False by (simp add: cursor_wf_def)
    moreover from this have "remaining ?c = replicate (unat (multiplicity run) - Suc (run_offset c)) (run_entry run) @ plan_entries runs"
      using remaining_run(1) [of ?c run runs] Cons by simp
    ultimately show ?thesis using r False left by (simp add: cursor_next_def run_lookup_def Let_def)
  qed
qed

lemma is_finished_iff: "cursor_wf c \<Longrightarrow> is_finished c \<longleftrightarrow> remaining c = []"
proof (cases "drop (run_index c) (cursor_runs c)")
  case Nil
  moreover assume "cursor_wf c"
  ultimately show ?thesis by (simp add: is_finished_def remaining_def plan_entries_def cursor_wf_def)
next
  case (Cons run runs)
  moreover assume "cursor_wf c"
  ultimately show ?thesis using remaining_run [OF _ Cons] by (auto simp: is_finished_def)
qed

lemma consume_run_Ok:
  assumes wf: "cursor_wf c" and ok: "consume_run site count c = Ok c'"
  shows "remaining c = replicate count \<lparr>entry_site = site, entry_grind_bits = 0, entry_nonce_bits = 0\<rparr> @ remaining c' \<and>
    cursor_wf c' \<and> cursor_runs c' = cursor_runs c"
proof -
  from ok have i: "run_index c < length (cursor_runs c)" and off: "run_offset c = 0"
    and run: "run_site (cursor_runs c ! run_index c) = site" "grind_bits (cursor_runs c ! run_index c) = 0"
      "nonce_bits (cursor_runs c ! run_index c) = 0" "unat (multiplicity (cursor_runs c ! run_index c)) = count"
    and c': "c' = c\<lparr>run_index := run_index c + 1\<rparr>"
    by (auto simp: consume_run_def try_r_eq_Inr run_lookup_def checked_add_if split: if_splits)
  from i have d: "drop (run_index c) (cursor_runs c) = cursor_runs c ! run_index c # drop (Suc (run_index c)) (cursor_runs c)"
    by (simp add: Cons_nth_drop_Suc)
  note r = remaining_run [OF wf d]
  have "run_entry (cursor_runs c ! run_index c) = \<lparr>entry_site = site, entry_grind_bits = 0, entry_nonce_bits = 0\<rparr>"
    using run by (simp add: run_entry_def)
  moreover have "remaining c' = plan_entries (drop (Suc (run_index c)) (cursor_runs c))" using off by (simp add: c' remaining_def)
  moreover have "cursor_wf c'"
  proof (cases "drop (Suc (run_index c)) (cursor_runs c)")
    case Nil
    then have "length (cursor_runs c) = Suc (run_index c)" using i by simp
    with Nil wf off show ?thesis by (simp add: cursor_wf_def c')
  next
    case (Cons run' runs')
    then have "run' \<in> set (cursor_runs c)" by (metis in_set_dropD list.set_intros(1))
    then have "0 < unat (multiplicity run')" using wf by (auto simp: cursor_wf_def unat_eq_0 intro: gr0I)
    with Cons wf off show ?thesis by (simp add: cursor_wf_def c')
  qed
  ultimately show ?thesis using r(1) off run(4) c' by simp
qed

section \<open>The two sides mirror each other\<close>

lemma mirrors_bind_dep:
  assumes f: "mirrors log sync f g" and k: "\<And>p x. mirrors log sync (k p x) (k' x)"
  shows "mirrors log sync (\<lambda>p. st_bind (f p) (k p)) (\<lambda>v. st_bind (g v) k')"
  unfolding mirrors_def
proof (intro allI impI conjI; (elim conjE)?)
  fix p y p2 assume "st_bind (f p) (k p) = (Ok y, p2)"
  then obtain x p1 where 1: "f p = (Ok x, p1)" and 2: "k p x p1 = (Ok y, p2)" by (auto simp: st_bind_eq_Inr)
  from f [unfolded mirrors_def, rule_format, OF 1] have m1: "prefix (log p) (log p1)"
    "\<And>a v. sync a p v \<Longrightarrow> prefix (log p1) a \<Longrightarrow> \<exists>v1. g v = (Ok x, v1) \<and> sync a p1 v1" by auto
  from k [of p x, unfolded mirrors_def, rule_format, OF 2] have m2: "prefix (log p1) (log p2)"
    "\<And>a v. sync a p1 v \<Longrightarrow> prefix (log p2) a \<Longrightarrow> \<exists>v2. k' x v = (Ok y, v2) \<and> sync a p2 v2" by auto
  show "prefix (log p) (log p2)" using m1(1) m2(1) by (rule prefix_order.order_trans)
  fix a v assume sync: "sync a p v" and ext: "prefix (log p2) a"
  from m1(2) [OF sync prefix_order.order_trans [OF m2(1) ext]] obtain v1 where v1: "g v = (Ok x, v1)" "sync a p1 v1" by blast
  from m2(2) [OF v1(2) ext] v1(1) show "\<exists>v'. st_bind (g v) k' = (Ok y, v') \<and> sync a p2 v'" by auto
qed

lemma mirrors_ok_or: "mirrors log sync (\<lambda>p. (ok_or r e, p)) (\<lambda>v. (ok_or r e', v))"
  by (cases r) (simp_all add: mirrors_def)

lemma mirrors_poisoning: "mirrors log sync f g \<Longrightarrow> mirrors log sync (\<lambda>p. poisoning pp (f p)) (\<lambda>v. poisoning vp (g v))"
  unfolding mirrors_def poisoning_def by (fastforce split: prod.splits if_splits)

text \<open>Both sides stand at the same entry of the plan and neither is poisoned.\<close>

definition grinding_sync ::
  "('p, 'v, 'r, 's, 'f, 'e) transcript \<Rightarrow> ('v, 'r, 's, 'e) transcript_view \<Rightarrow> u8 list \<Rightarrow> 'p prover_grinding \<Rightarrow> 'v verifier_grinding \<Rightarrow> bool"
  where
  "grinding_sync tr vw argument g h \<longleftrightarrow> channel_sync tr vw argument (pg_state g) (vg_state h) \<and> pg_cursor g = vg_cursor h \<and>
     \<not> pg_invalid g \<and> \<not> vg_invalid h"

definition grinding_log :: "('p, 'v, 'r, 's, 'f, 'e) transcript \<Rightarrow> 'p prover_grinding \<Rightarrow> u8 list" where
  "grinding_log tr g = p_narg_string tr (pg_state g)"

context transcript_pair
begin

abbreviation gsync where "gsync \<equiv> grinding_sync tr vw"
abbreviation glog where "glog \<equiv> grinding_log tr"

lemma next_mirrors: "mirrors glog gsync (prover_next site kind) (verifier_next site kind)"
  unfolding mirrors_def
  by (auto simp: prover_next_def verifier_next_def grinding_sync_def grinding_log_def split: prod.splits)

lemma on_state_mirrors:
  assumes "mirrors narg synced f h"
  shows "mirrors glog gsync (on_prover f) (on_verifier h)"
  unfolding mirrors_def
proof (intro allI impI conjI; (elim conjE)?)
  fix g x g' assume "on_prover f g = (Ok x, g')"
  then obtain p1 where f: "f (pg_state g) = (Ok x, p1)" and g': "g' = g\<lparr>pg_state := p1\<rparr>"
    by (auto simp: on_prover_def split: prod.splits)
  note m = assms [unfolded mirrors_def, rule_format, OF f]
  from m show "prefix (glog g) (glog g')" by (simp add: grinding_log_def g')
  fix a v assume sync: "gsync a g v" and ext: "prefix (glog g') a"
  then have "synced a (pg_state g) (vg_state v)" "prefix (narg p1) a" by (auto simp: grinding_sync_def grinding_log_def g')
  with m obtain v1 where v1: "h (vg_state v) = (Ok x, v1)" "synced a p1 v1" by blast
  have "gsync a g' (v\<lparr>vg_state := v1\<rparr>)" using sync v1(2) by (simp add: g' grinding_sync_def)
  with v1(1) show "\<exists>v'. on_verifier h v = (Ok x, v') \<and> gsync a g' v'" by (simp add: on_verifier_def)
qed

lemma count_nonce_mirrors: "mirrors glog gsync (count_nonce n m) (\<lambda>h. (Ok (), h))"
  by (auto simp: mirrors_def count_nonce_def grinding_sync_def grinding_log_def split: option.splits)

lemma proof_of_work_mirrors:
  assumes "\<And>bits. mirrors narg synced (work bits) (check bits)"
  shows "mirrors glog gsync (proof_of_work tr site kind work)
    (\<lambda>h. st_bind (verifier_next site kind h) (\<lambda>entry h. st_bind (ok_or (pow_bits entry) InvalidProof, h) (\<lambda>bits h.
       if bits = 0 then (Ok (), h) else on_verifier (check bits) h)))"
proof -
  have step: "mirrors glog gsync
      (\<lambda>g. st_bind (on_prover (work bits) g) (\<lambda>_ g'. count_nonce (length (narg (pg_state g')) - length (narg (pg_state g))) m g'))
      (\<lambda>h. st_bind (on_verifier (check bits) h) (\<lambda>_ h. (Ok (), h)))" for bits m
    by (rule mirrors_bind_dep [OF on_state_mirrors [OF assms]])
      (auto simp: mirrors_def count_nonce_def grinding_sync_def grinding_log_def split: option.splits)
  have unit: "st_bind out (\<lambda>_ h. (Ok (), h)) = out" for out :: "(unit, 'x) outcome"
    by (cases out; cases "fst out") (auto simp: st_bind_def)
  have "mirrors glog gsync
      (\<lambda>g. if bits = 0 then (Ok (), g)
           else let start = length (narg (pg_state g)) in st_bind (on_prover (work bits) g) (\<lambda>_ g'. count_nonce (length (narg (pg_state g')) - start) m g'))
      (\<lambda>h. if bits = 0 then (Ok (), h) else on_verifier (check bits) h)" for bits m
    using step [of bits m] by (cases "bits = 0") (simp_all add: mirrors_return unit)
  then show ?thesis unfolding proof_of_work_def
    by (intro mirrors_bind next_mirrors mirrors_ok_or)
qed

lemma grind_inner_mirrors: "mirrors glog gsync (prover_grind_inner tr site kind) (verifier_grind_inner tr site kind)"
proof -
  have "mirrors narg synced (\<lambda>p. case p_grind tr bits p of (found, p') \<Rightarrow> (if found then Ok () else Err e, p'))
      (\<lambda>v. case v_check_grind tr bits v of (passed, v') \<Rightarrow> (if passed then Ok () else Err InvalidProof, v'))" for bits e
    using grind_mirrors [of e bits InvalidProof] by (simp add: flag_result_def case_prod_unfold)
  from proof_of_work_mirrors [OF this] show ?thesis
    unfolding prover_grind_inner_def verifier_grind_inner_def .
qed

lemma grind_query_mirrors: "mirrors glog gsync (prover_grind_query tr site) (verifier_grind_query tr site)"
  unfolding prover_grind_query_def verifier_grind_query_def by (intro mirrors_poisoning grind_inner_mirrors)

lemma record_mirrors:
  "mirrors glog gsync (prover_record_fold_challenges lv gr n) (verifier_record_fold_challenges tr lv gr n)"
  by (auto simp: mirrors_def prover_record_fold_challenges_def verifier_record_fold_challenges_def grinding_sync_def grinding_log_def
      checked_add_if split: sum.splits)

end

section \<open>Fold responses\<close>

text \<open>How the prover answers a fold: preview a candidate, take its work and commit it.\<close>

definition prover_fold_response ::
  "('p, 'v, 'r, 's, 'f, 'e) transcript \<Rightarrow> grinding_site \<Rightarrow> u32 \<Rightarrow> 'p prover_grinding \<Rightarrow> (u32, 'p prover_grinding) outcome" where
  "prover_fold_response tr site n g =
     (case try_r (preview_fold_response tr site n g) (\<lambda>pv. fst (take_work pv)) of
        Inl e \<Rightarrow> (Err e, g)
      | Inr work \<Rightarrow> st_bind (commit_fold_response tr site work g) (\<lambda>_ g. (Ok n, g)))"

text \<open>The same answer with a fresh search on the live channel.\<close>

definition grind_work :: "('p, 'v, 'r, 's, 'f, 'e) transcript \<Rightarrow> nat \<Rightarrow> 'p \<Rightarrow> (unit, 'p) outcome" where
  "grind_work tr bits p = flag_result InvalidProof (p_grind tr bits p)"

definition live_fold_response ::
  "('p, 'v, 'r, 's, 'f, 'e) transcript \<Rightarrow> grinding_site \<Rightarrow> u32 \<Rightarrow> 'p prover_grinding \<Rightarrow> (u32, 'p prover_grinding) outcome" where
  "live_fold_response tr site n g =
     st_bind (prover_next site FoldResponseSearch g) (\<lambda>entry g.
     st_bind (on_prover (\<lambda>p. (Ok n, send_nonce tr n p)) g) (\<lambda>counter g.
     st_bind (count_nonce (nonce_encoded_len counter) ''fold-response serialized nonce byte count overflow'' g) (\<lambda>_ g.
       if \<not> value_fits counter (entry_nonce_bits entry) then (Err InvalidProof, g)
       else st_bind (proof_of_work tr (FoldChallengeWork (site_level site)) FoldWorkQuery (grind_work tr) g) (\<lambda>_ g. (Ok counter, g)))))"

lemma preview_fold_response_Ok:
  assumes "preview_fold_response tr site n g = Ok pv"
  obtains run run' bits where "run_lookup (cursor_runs (pg_cursor g)) (run_index (pg_cursor g)) = Some run" "run_offset (pg_cursor g) = 0"
    "multiplicity run = 1" "run_lookup (cursor_runs (pg_cursor g)) (run_index (pg_cursor g) + 1) = Some run'"
    "pow_bits (run_entry run') = Some bits" "preview_grind tr bits (preview_new tr (pg_state g) n) = (Ok (), pv)"
  using assms
  by (auto simp: preview_fold_response_def try_r_eq_Inr cursor_peek_def peek_following_def bind_eq_Some_conv checked_add_if
      split: if_splits prod.splits)

lemma next_single:
  assumes "run_lookup (cursor_runs c) (run_index c) = Some run" "run_offset c = 0" "multiplicity run = 1"
  shows "cursor_next c = (Some (run_entry run), c\<lparr>run_index := run_index c + 1, run_offset := 0\<rparr>)"
  using assms by (simp add: cursor_next_def)

lemma prover_next_Ok:
  assumes "prover_next site kind g = (Ok entry, g')" and "cursor_next (pg_cursor g) = (Some e, c)"
  shows "entry = e \<and> g' = g\<lparr>pg_cursor := c\<rparr>"
  using assms by (auto simp: prover_next_def next_entry_def split: if_splits)

lemma cursor_next_fst: "run_lookup (cursor_runs c) (run_index c) = Some run \<Longrightarrow> \<exists>c'. cursor_next c = (Some (run_entry run), c')"
  by (simp add: cursor_next_def Let_def)

context transcript_pair
begin

lemma live_fold_mirrors: "mirrors glog gsync (live_fold_response tr site n) (read_fold_response_inner tr site)"
proof -
  have work: "mirrors narg synced (grind_work tr bits) (\<lambda>v. case v_check_grind tr bits v of (passed, v') \<Rightarrow> (if passed then Ok () else Err InvalidProof, v'))" for bits
    using grind_mirrors [of InvalidProof bits InvalidProof] by (simp add: grind_work_def [abs_def] flag_result_def case_prod_unfold)
  have nonce: "mirrors narg synced (\<lambda>p. (Ok n, send_nonce tr n p)) (receive_nonce tr)" by (rule nonce_mirrors)
  have count: "mirrors glog gsync (\<lambda>g. st_bind (count_nonce b m g) (\<lambda>_ g. K g)) K'" if "mirrors glog gsync K K'" for b m K K'
  proof -
    have "mirrors glog gsync (\<lambda>g. st_bind (count_nonce b m g) (\<lambda>_ g. K g)) (\<lambda>h. st_bind (Ok (), h) (\<lambda>_ h. K' h))"
      by (rule mirrors_bind [OF count_nonce_mirrors that])
    then show ?thesis by simp
  qed
  have pow: "mirrors glog gsync (proof_of_work tr wsite kind (grind_work tr)) (verifier_grind_inner tr wsite kind)" for wsite kind
    using proof_of_work_mirrors [OF work] unfolding verifier_grind_inner_def .
  have "mirrors glog gsync
      (\<lambda>g. if \<not> value_fits m width then (Err InvalidProof, g) else st_bind (proof_of_work tr wsite kind (grind_work tr) g) (\<lambda>_ g. (Ok m, g)))
      (\<lambda>h. if \<not> value_fits m width then (Err InvalidProof, h) else st_bind (verifier_grind_inner tr wsite kind h) (\<lambda>_ h. (Ok m, h)))" for m width wsite kind
  proof (cases "value_fits m width")
    case True
    have "mirrors glog gsync (\<lambda>g. st_bind (proof_of_work tr wsite kind (grind_work tr) g) (\<lambda>_ g. (Ok m, g)))
        (\<lambda>h. st_bind (verifier_grind_inner tr wsite kind h) (\<lambda>_ h. (Ok m, h)))" by (intro mirrors_bind [OF pow] mirrors_return)
    with True show ?thesis by simp
  qed (simp add: mirrors_error)
  then show ?thesis unfolding live_fold_response_def read_fold_response_inner_def
    by (intro mirrors_bind [OF next_mirrors] mirrors_bind [OF on_state_mirrors [OF nonce]] count)
qed

text \<open>A committed preview leaves the channel where a fresh search would have.\<close>

lemma commit_is_live:
  assumes pv: "preview_fold_response tr site n g = Ok pv" and wk: "take_work pv = (Ok work, pv')"
    and commit: "commit_fold_response_inner tr site work g = (Ok (), g')"
  shows "\<exists>g''. live_fold_response tr site n g = (Ok n, g'') \<and> pg_cursor g'' = pg_cursor g' \<and> pg_invalid g'' = pg_invalid g' \<and>
    p_sponge tr (pg_state g'') = p_sponge tr (pg_state g') \<and> narg (pg_state g'') = narg (pg_state g')"
proof -
  let ?p = "pg_state g" and ?c = "pg_cursor g" and ?w = "FoldChallengeWork (site_level site)"
  from pv obtain run run' bits where run: "run_lookup (cursor_runs ?c) (run_index ?c) = Some run" "run_offset ?c = 0" "multiplicity run = 1"
    "run_lookup (cursor_runs ?c) (run_index ?c + 1) = Some run'" "pow_bits (run_entry run') = Some bits"
    and grind: "preview_grind tr bits (preview_new tr ?p n) = (Ok (), pv)" by (rule preview_fold_response_Ok)
  from preview_work_of_grind [OF grind wk] have n: "work_nonce work = n" by blast
  let ?c1 = "?c\<lparr>run_index := run_index ?c + 1, run_offset := 0\<rparr>" and ?p1 = "send_nonce tr n ?p"
  from commit obtain entry g1 g2 where nxt: "prover_next site FoldResponseSearch g = (Ok entry, g1)" and fits: "value_fits n (entry_nonce_bits entry)"
    and count: "count_nonce (nonce_encoded_len n) ''fold-response serialized nonce byte count overflow'' (g1\<lparr>pg_state := send_nonce tr n (pg_state g1)\<rparr>) = (Ok (), g2)"
    and pow: "proof_of_work tr ?w FoldWorkQuery (\<lambda>_. fold_work_commit tr work) g2 = (Ok (), g')"
    by (auto simp: commit_fold_response_inner_def Let_def st_bind_eq_Inr n on_prover_def split: if_splits)
  have g1: "g1 = g\<lparr>pg_cursor := ?c1\<rparr>" using prover_next_Ok [OF nxt next_single [OF run(1-3)]] by simp
  from count have g2: "pg_cursor g2 = ?c1" "pg_state g2 = ?p1" "pg_invalid g2 = pg_invalid g"
    by (auto simp: count_nonce_def g1 split: option.splits)
  have "run_lookup (cursor_runs ?c1) (run_index ?c1) = Some run'" using run(4) by simp
  from cursor_next_fst [OF this] obtain c2 where c2: "cursor_next ?c1 = (Some (run_entry run'), c2)" by blast
  from pow obtain entry' g3 where nxt': "prover_next ?w FoldWorkQuery g2 = (Ok entry', g3)"
    by (auto simp: proof_of_work_def st_bind_eq_Inr)
  from prover_next_Ok [OF nxt'] c2 g2 have g3: "entry' = run_entry run'" "g3 = g2\<lparr>pg_cursor := c2\<rparr>" by auto
  have "\<exists>g''. proof_of_work tr ?w FoldWorkQuery (grind_work tr) g2 = (Ok (), g'') \<and> pg_cursor g'' = pg_cursor g' \<and> pg_invalid g'' = pg_invalid g' \<and>
    p_sponge tr (pg_state g'') = p_sponge tr (pg_state g') \<and> narg (pg_state g'') = narg (pg_state g')"
  proof (cases "bits = 0")
    case True
    with pow nxt' g3 run(5) show ?thesis by (simp add: proof_of_work_def)
  next
    case False
    obtain r p2 where com: "fold_work_commit tr work ?p1 = (r, p2)" by fastforce
    obtain found p3 where live: "p_grind tr bits ?p1 = (found, p3)" by fastforce
    from commit_of_preview [OF grind wk com live] have eq: "r = Ok ()" "found" "p_sponge tr p2 = p_sponge tr p3" "narg p2 = narg p3" by auto
    from pow nxt' g3 run(5) False g2(2) com eq obtain k where
      k: "count_nonce (length (narg p2) - length (narg ?p1)) k (g3\<lparr>pg_state := p2\<rparr>) = (Ok (), g')"
      "proof_of_work tr ?w FoldWorkQuery (grind_work tr) g2 = count_nonce (length (narg p3) - length (narg ?p1)) k (g3\<lparr>pg_state := p3\<rparr>)"
      using live by (simp add: proof_of_work_def Let_def on_prover_def grind_work_def flag_result_def)
    from k(1) have "checked_add (serialized_nonce_bytes g3) (length (narg p3) - length (narg ?p1)) \<noteq> None"
      by (auto simp: count_nonce_def eq split: option.splits)
    with k show ?thesis by (auto simp: count_nonce_def eq split: option.splits)
  qed
  then show ?thesis using nxt fits count
    by (auto simp: live_fold_response_def on_prover_def st_bind_def)
qed

lemma fold_response_mirrors: "mirrors glog gsync (prover_fold_response tr site n) (read_fold_response tr site)"
  unfolding mirrors_def
proof (intro allI impI conjI; (elim conjE)?)
  fix g x g' assume "prover_fold_response tr site n g = (Ok x, g')"
  then obtain work where w: "try_r (preview_fold_response tr site n g) (\<lambda>pv. fst (take_work pv)) = Ok work"
    and c: "st_bind (commit_fold_response tr site work g) (\<lambda>_ g. (Ok n, g)) = (Ok x, g')"
    by (auto simp: prover_fold_response_def split: sum.splits)
  from w obtain pv where pv: "preview_fold_response tr site n g = Ok pv" and "fst (take_work pv) = Ok work" by (auto simp: try_r_eq_Inr)
  then obtain pv' where wk: "take_work pv = (Ok work, pv')" by (cases "take_work pv") auto
  from c have commit: "commit_fold_response_inner tr site work g = (Ok (), g')" and x: "x = n"
    by (auto simp: st_bind_eq_Inr commit_fold_response_def poisoning_def split: prod.splits)
  from commit_is_live [OF pv wk commit] obtain g'' where g'': "live_fold_response tr site n g = (Ok n, g'')" "pg_cursor g'' = pg_cursor g'"
    "pg_invalid g'' = pg_invalid g'" "p_sponge tr (pg_state g'') = p_sponge tr (pg_state g')" "narg (pg_state g'') = narg (pg_state g')" by blast
  note m = live_fold_mirrors [unfolded mirrors_def, rule_format, OF g''(1)]
  from m g''(5) show "prefix (glog g) (glog g')" by (simp add: grinding_log_def)
  fix a h assume "gsync a g h" "prefix (glog g') a"
  with m g''(5) obtain h' where h': "read_fold_response_inner tr site h = (Ok n, h')" "gsync a g'' h'" by (auto simp: grinding_log_def)
  have "gsync a g' h'" using h'(2) g'' by (simp add: grinding_sync_def channel_sync_def)
  with h'(1) x show "\<exists>h'. read_fold_response tr site h = (Ok x, h') \<and> gsync a g' h'" by (simp add: read_fold_response_def poisoning_def)
qed

end

section \<open>Scheduled challenges and sumcheck channels\<close>

lemma vec_pop_eq: "(case vec_pop xs of Some x \<Rightarrow> (Ok x, g) | None \<Rightarrow> (Err e, h)) = (if xs = [] then (Err e, h) else (Ok (last xs), g))"
  by (simp add: vec_pop_def)

definition sumcheck_sync ::
  "('p, 'v, 'r, 's, 'f, 'e) transcript \<Rightarrow> ('v, 'r, 's, 'e) transcript_view \<Rightarrow> u8 list \<Rightarrow>
   'p prover_grinding grinding_sumcheck \<Rightarrow> 'v verifier_grinding grinding_sumcheck \<Rightarrow> bool" where
  "sumcheck_sync tr vw argument c d \<longleftrightarrow> grinding_sync tr vw argument (sumcheck_grinding c) (sumcheck_grinding d) \<and>
     sumcheck_protocol_of c = sumcheck_protocol_of d \<and> sumcheck_level c = sumcheck_level d \<and> sumcheck_stage c = sumcheck_stage d"

definition sumcheck_log :: "('p, 'v, 'r, 's, 'f, 'e) transcript \<Rightarrow> 'p prover_grinding grinding_sumcheck \<Rightarrow> u8 list" where
  "sumcheck_log tr c = grinding_log tr (sumcheck_grinding c)"

context transcript_pair_memory
begin

lemma grinded_challenges_mirrors:
  "mirrors glog gsync (grinded_ext_challenges tr (prover_channel tr fc) (prover_side tr) site n)
     (grinded_ext_challenges tr (verifier_channel tr fc) (verifier_side tr) site n)"
proof -
  have "mirrors narg synced (ext_challenges tr (prover_channel tr fc) s n) (ext_challenges tr (verifier_channel tr fc) s n)" for s
    by (rule ext_challenges_mirror)
  then show ?thesis unfolding grinded_ext_challenges_def prover_side_def verifier_side_def grinding_side.simps
    by (intro mirrors_bind [OF grind_query_mirrors] mirrors_poisoning on_state_mirrors)
qed

lemma grinded_challenge_mirrors:
  "mirrors glog gsync (grinded_ext_challenge tr (prover_channel tr fc) (prover_side tr) site)
     (grinded_ext_challenge tr (verifier_channel tr fc) (verifier_side tr) site)"
proof -
  have pop: "mirrors glog gsync (\<lambda>g. if xs = [] then (Err e, h g) else (Ok (last xs), g)) (\<lambda>g. if xs = [] then (Err e', h' g) else (Ok (last xs), g))"
    for xs and e e' h h' by (cases "xs = []") (simp_all add: mirrors_error mirrors_return)
  show ?thesis unfolding grinded_ext_challenge_def vec_pop_eq by (rule mirrors_bind [OF grinded_challenges_mirrors pop])
qed

end

sublocale transcript_pair_memory \<subseteq> protocol: mirrored_sumcheck "prover_channel tr fc" "verifier_channel tr fc" "p_narg_string tr" "channel_sync tr vw"
  tr fc "grinding_sumcheck_prover tr fc" "grinding_sumcheck_verifier tr fc" "sumcheck_log tr" "sumcheck_sync tr vw"
proof unfold_locales
  show "memory_suffices tr" by (rule memory)
  show "sumcheck_log tr c = narg (sc_state (grinding_sumcheck_prover tr fc) c)" for c
    by (simp add: sumcheck_log_def grinding_log_def grinding_sumcheck_prover_def)
  show "sc_state (grinding_sumcheck_prover tr fc) (sc_put (grinding_sumcheck_prover tr fc) p c) = p" for p c
    by (simp add: grinding_sumcheck_prover_def)
  show "sc_put (grinding_sumcheck_verifier tr fc) (sc_state (grinding_sumcheck_verifier tr fc) d) d = d" for d
    by (simp add: grinding_sumcheck_verifier_def)
  show "synced a (sc_state (grinding_sumcheck_prover tr fc) c) (sc_state (grinding_sumcheck_verifier tr fc) d)" if "sumcheck_sync tr vw a c d" for a c d
    using that by (simp add: sumcheck_sync_def grinding_sync_def grinding_sumcheck_prover_def grinding_sumcheck_verifier_def)
  show "sumcheck_sync tr vw a (sc_put (grinding_sumcheck_prover tr fc) p c) (sc_put (grinding_sumcheck_verifier tr fc) v d)"
    if "sumcheck_sync tr vw a c d" "synced a p v" for a c d p v
    using that by (simp add: sumcheck_sync_def grinding_sync_def grinding_sumcheck_prover_def grinding_sumcheck_verifier_def)
  show "sc_site (grinding_sumcheck_prover tr fc) c = sc_site (grinding_sumcheck_verifier tr fc) d" if "sumcheck_sync tr vw a c d" for a c d
    using that by (simp add: sumcheck_sync_def grinding_sumcheck_prover_def grinding_sumcheck_verifier_def)
  show "mirrors (sumcheck_log tr) (sumcheck_sync tr vw) (sc_round_challenge (grinding_sumcheck_prover tr fc) ivk i)
      (sc_round_challenge (grinding_sumcheck_verifier tr fc) ivk i)" for ivk i
    unfolding mirrors_def
  proof (intro allI impI conjI; (elim conjE)?)
    fix c x c' assume "sc_round_challenge (grinding_sumcheck_prover tr fc) ivk i c = (Ok x, c')"
    then obtain g where ivk: "ivk = 0" and c': "c' = c\<lparr>sumcheck_grinding := g\<rparr>"
      and g: "grinded_ext_challenge tr (prover_channel tr fc) (prover_side tr) (round_site c i) (sumcheck_grinding c) = (Ok x, g)"
      by (auto simp: grinding_sumcheck_prover_def on_grinding_def split: if_splits prod.splits)
    note m = grinded_challenge_mirrors [unfolded mirrors_def, rule_format, OF g]
    from m show "prefix (sumcheck_log tr c) (sumcheck_log tr c')" by (simp add: sumcheck_log_def c')
    fix a d assume sync: "sumcheck_sync tr vw a c d" and ext: "prefix (sumcheck_log tr c') a"
    then have "gsync a (sumcheck_grinding c) (sumcheck_grinding d)" "prefix (glog g) a" "round_site d i = round_site c i"
      by (auto simp: sumcheck_sync_def sumcheck_log_def c' round_site_def)
    with m obtain h where h: "grinded_ext_challenge tr (verifier_channel tr fc) (verifier_side tr) (round_site d i) (sumcheck_grinding d) = (Ok x, h)"
      "gsync a g h" by auto
    have "sumcheck_sync tr vw a c' (d\<lparr>sumcheck_grinding := h\<rparr>)" using sync h(2) by (simp add: sumcheck_sync_def c')
    with h(1) ivk show "\<exists>d'. sc_round_challenge (grinding_sumcheck_verifier tr fc) ivk i d = (Ok x, d') \<and> sumcheck_sync tr vw a c' d'"
      by (simp add: grinding_sumcheck_verifier_def on_grinding_def)
  qed
qed

section \<open>Sessions of the verifier\<close>

text \<open>
  What a verifier does with its replay, in any order and whatever the outcomes: scheduled queries,
  scheduled challenges, fold responses, fold groups, and ordinary channel operations in between.
\<close>

datatype 'v verifier_op =
  GrindQuery grinding_site
| DrawChallenges grinding_site nat
| ReadFoldResponse grinding_site
| RecordFoldChallenges u32 u32 nat
| ChannelMessage "'v \<Rightarrow> 'v"

fun verifier_step ::
  "('p, 'v, 'r, 's, 'f, 'e) transcript \<Rightarrow> ('f, 'e) field_codec \<Rightarrow> 'v verifier_op \<Rightarrow> 'v verifier_grinding \<Rightarrow> bool \<times> 'v verifier_grinding" where
  "verifier_step tr fc (GrindQuery site) g = map_prod is_ok id (verifier_grind_query tr site g)"
| "verifier_step tr fc (DrawChallenges site n) g =
     map_prod is_ok id (grinded_ext_challenges tr (verifier_channel tr fc) (verifier_side tr) site n g)"
| "verifier_step tr fc (ReadFoldResponse site) g = map_prod is_ok id (read_fold_response tr site g)"
| "verifier_step tr fc (RecordFoldChallenges lv gr n) g = map_prod is_ok id (verifier_record_fold_challenges tr lv gr n g)"
| "verifier_step tr fc (ChannelMessage f) g = (True, g\<lparr>vg_state := f (vg_state g)\<rparr>)"

fun verifier_run ::
  "('p, 'v, 'r, 's, 'f, 'e) transcript \<Rightarrow> ('f, 'e) field_codec \<Rightarrow> 'v verifier_op list \<Rightarrow> 'v verifier_grinding \<Rightarrow>
   bool list \<times> 'v verifier_grinding" where
  "verifier_run tr fc [] g = ([], g)"
| "verifier_run tr fc (op # ops) g =
     (case verifier_step tr fc op g of (ok, g') \<Rightarrow> case verifier_run tr fc ops g' of (oks, g'') \<Rightarrow> (ok # oks, g''))"

fun op_sites :: "'v verifier_op \<Rightarrow> grinding_site list" where
  "op_sites (GrindQuery site) = [site]"
| "op_sites (DrawChallenges site n) = [site]"
| "op_sites (ReadFoldResponse site) = [site, FoldChallengeWork (site_level site)]"
| "op_sites (RecordFoldChallenges lv gr n) = replicate (n + 1) (FoldChallengeGroup lv gr)"
| "op_sites (ChannelMessage f) = []"

text \<open>The sites that a step takes off the plan.\<close>

definition consumes :: "grinding_site list \<Rightarrow> plan_cursor \<Rightarrow> plan_cursor \<Rightarrow> bool" where
  "consumes sites c c' \<longleftrightarrow> cursor_wf c' \<and> map entry_site (remaining c) = sites @ map entry_site (remaining c')"

lemma verifier_next_Ok:
  assumes "cursor_wf (vg_cursor g)" and "verifier_next site kind g = (Ok entry, g')"
  shows "consumes [site] (vg_cursor g) (vg_cursor g') \<and> vg_invalid g' = vg_invalid g"
proof -
  obtain found c where c: "cursor_next (vg_cursor g) = (found, c)" by fastforce
  with assms(2) have e: "found = Some entry" "entry_site entry = site" "g' = g\<lparr>vg_cursor := c\<rparr>"
    by (auto simp: verifier_next_def next_entry_def try_r_eq_Inr split: if_splits)
  from cursor_next_eq [OF assms(1)] show ?thesis using c e by (auto simp: consumes_def split: list.splits)
qed

lemma verifier_next_keeps:
  assumes "cursor_wf (vg_cursor g)" and "verifier_next site kind g = (r, g')"
  shows "vg_invalid g' = vg_invalid g \<and> cursor_wf (vg_cursor g')"
proof -
  have "snd (cursor_next (vg_cursor g)) = vg_cursor g' \<and> vg_invalid g' = vg_invalid g"
    using assms(2) by (auto simp: verifier_next_def next_entry_def split: prod.splits)
  with cursor_next_eq [OF assms(1)] assms(1) show ?thesis by (auto split: list.splits)
qed

definition sound_step :: "grinding_site list \<Rightarrow> 'v verifier_grinding \<Rightarrow> ('a, 'v verifier_grinding) outcome \<Rightarrow> bool" where
  "sound_step sites g out \<longleftrightarrow> cursor_wf (vg_cursor (snd out)) \<and> (vg_invalid g \<longrightarrow> vg_invalid (snd out)) \<and>
     (is_ok (fst out) \<and> \<not> vg_invalid (snd out) \<longrightarrow> consumes sites (vg_cursor g) (vg_cursor (snd out)))"

lemma sound_bind:
  assumes "sound_step s1 g out" and "\<And>x g'. cursor_wf (vg_cursor g') \<Longrightarrow> sound_step s2 g' (k x g')"
  shows "sound_step (s1 @ s2) g (st_bind out k)"
proof (cases out)
  case (Pair r g')
  show ?thesis
  proof (cases r)
    case (Inl e)
    with assms(1) Pair show ?thesis by (simp add: sound_step_def)
  next
    case (Inr x)
    with assms(1) Pair have "cursor_wf (vg_cursor g')" by (simp add: sound_step_def)
    from assms(2) [OF this, of x] assms(1) Pair Inr show ?thesis by (auto simp: sound_step_def consumes_def)
  qed
qed

lemma sound_next: "cursor_wf (vg_cursor g) \<Longrightarrow> sound_step [site] g (verifier_next site kind g)"
  using verifier_next_Ok verifier_next_keeps
  by (cases "verifier_next site kind g"; cases "fst (verifier_next site kind g)") (fastforce simp: sound_step_def)+

lemma sound_on: "cursor_wf (vg_cursor g) \<Longrightarrow> sound_step [] g (on_verifier f g)"
  by (auto simp: sound_step_def on_verifier_def consumes_def split: prod.splits)

lemma sound_return: "cursor_wf (vg_cursor g) \<Longrightarrow> sound_step [] g (r, g)"
  by (auto simp: sound_step_def consumes_def)

lemma sound_error: "cursor_wf (vg_cursor g) \<Longrightarrow> sound_step sites g (Err e, g)"
  by (auto simp: sound_step_def)

lemma sound_poisoning: "sound_step sites g out \<Longrightarrow> sound_step sites g (poisoning (verifier_poison tr) out)"
  by (auto simp: sound_step_def poisoning_def verifier_poison_def split: prod.splits)

lemma poisoning_fails: "\<not> is_ok (fst (poisoning (verifier_poison tr) out)) \<Longrightarrow> vg_invalid (snd (poisoning (verifier_poison tr) out))"
  by (auto simp: poisoning_def verifier_poison_def split: prod.splits)

lemma sound_nil_bind: "sound_step [] g out \<Longrightarrow> (\<And>x g'. cursor_wf (vg_cursor g') \<Longrightarrow> sound_step s g' (k x g')) \<Longrightarrow> sound_step s g (st_bind out k)"
  by (rule sound_bind [where ?s1.0 = "[]", simplified])

lemma sound_next_bind:
  "cursor_wf (vg_cursor g) \<Longrightarrow> (\<And>x g'. cursor_wf (vg_cursor g') \<Longrightarrow> sound_step s g' (k x g')) \<Longrightarrow>
   sound_step (site # s) g (st_bind (verifier_next site kind g) k)"
  by (rule sound_bind [where ?s1.0 = "[site]", simplified, OF sound_next])

lemma sound_if: "sound_step s g a \<Longrightarrow> sound_step s g b \<Longrightarrow> sound_step s g (if q then a else b)"
  by simp

lemma sound_grind_inner: "cursor_wf (vg_cursor g) \<Longrightarrow> sound_step [site] g (verifier_grind_inner tr site kind g)"
  unfolding verifier_grind_inner_def by (intro sound_next_bind sound_nil_bind sound_if sound_return sound_on)

lemma sound_read_inner:
  "cursor_wf (vg_cursor g) \<Longrightarrow> sound_step [site, FoldChallengeWork (site_level site)] g (read_fold_response_inner tr site g)"
proof -
  have tail: "sound_step [w] g' (st_bind (verifier_grind_inner tr w kind g') (\<lambda>_ g. (Ok n, g)))" if "cursor_wf (vg_cursor g')" for w kind n g'
    by (rule sound_bind [where ?s2.0 = "[]", simplified, OF sound_grind_inner [OF that]]) (rule sound_return)
  assume wf: "cursor_wf (vg_cursor g)"
  show ?thesis unfolding read_fold_response_inner_def
    by (rule sound_next_bind [OF wf], rule sound_nil_bind, erule sound_on) (simp add: sound_error tail)
qed

lemma sound_record:
  "cursor_wf (vg_cursor g) \<Longrightarrow> sound_step (replicate (n + 1) (FoldChallengeGroup lv gr)) g (verifier_record_fold_challenges tr lv gr n g)"
  by (auto simp: sound_step_def verifier_record_fold_challenges_def verifier_poison_def consumes_def try_r_eq_Inr checked_add_if
      split: sum.splits if_splits dest: consume_run_Ok)

lemma sound_draw:
  assumes "cursor_wf (vg_cursor g)"
  shows "sound_step [site] g (grinded_ext_challenges tr (verifier_channel tr fc) (verifier_side tr) site n g)"
proof -
  have "sound_step ([site] @ []) g (st_bind (verifier_grind_query tr site g) (\<lambda>_ g'. poisoning (verifier_poison tr)
      (on_verifier (ext_challenges tr (verifier_channel tr fc) (site_id 0 site) n) g')))"
    unfolding verifier_grind_query_def by (intro sound_bind sound_poisoning sound_grind_inner assms sound_on)
  then show ?thesis by (simp add: grinded_ext_challenges_def verifier_side_def)
qed

lemma draw_fails:
  assumes "\<not> is_ok (fst (grinded_ext_challenges tr (verifier_channel tr fc) (verifier_side tr) site n g))"
  shows "vg_invalid (snd (grinded_ext_challenges tr (verifier_channel tr fc) (verifier_side tr) site n g))"
proof (cases "verifier_grind_query tr site g")
  case (Pair r g')
  have q: "\<not> is_ok r \<Longrightarrow> vg_invalid g'"
    using poisoning_fails [of tr "verifier_grind_inner tr site ProofOfWork g"] Pair by (simp add: verifier_grind_query_def)
  show ?thesis
  proof (cases r)
    case (Inl e)
    with q Pair show ?thesis by (simp add: grinded_ext_challenges_def verifier_side_def)
  next
    case (Inr u)
    with Pair assms show ?thesis
      using poisoning_fails [of tr "on_verifier (ext_challenges tr (verifier_channel tr fc) (site_id 0 site) n) g'"]
      by (simp add: grinded_ext_challenges_def verifier_side_def)
  qed
qed

text \<open>One step: a failure poisons for good, and a success takes exactly the step's sites off the plan.\<close>

lemma verifier_step_sound:
  assumes "cursor_wf (vg_cursor g)" and "verifier_step tr fc op g = (ok, g')"
  shows "cursor_wf (vg_cursor g') \<and> (vg_invalid g \<longrightarrow> vg_invalid g') \<and> (\<not> ok \<longrightarrow> vg_invalid g') \<and>
    (ok \<and> \<not> vg_invalid g' \<longrightarrow> consumes (op_sites op) (vg_cursor g) (vg_cursor g'))"
proof -
  show ?thesis
  proof (cases op)
    case (GrindQuery site)
    with assms show ?thesis
      using sound_poisoning [OF sound_grind_inner [OF assms(1), of site tr ProofOfWork], of tr] poisoning_fails [of tr "verifier_grind_inner tr site ProofOfWork g"]
      by (cases "verifier_grind_query tr site g") (auto simp: verifier_grind_query_def sound_step_def)
  next
    case (DrawChallenges site n)
    with assms sound_draw [OF assms(1), of site tr fc n] draw_fails [of tr fc site n g] show ?thesis
      by (cases "grinded_ext_challenges tr (verifier_channel tr fc) (verifier_side tr) site n g") (auto simp: sound_step_def)
  next
    case (ReadFoldResponse site)
    with assms show ?thesis
      using sound_poisoning [OF sound_read_inner [OF assms(1), of site tr], of tr] poisoning_fails [of tr "read_fold_response_inner tr site g"]
      by (cases "read_fold_response tr site g") (auto simp: read_fold_response_def sound_step_def)
  next
    case (RecordFoldChallenges lv gr n)
    with assms sound_record [OF assms(1), of n lv gr tr] show ?thesis
      by (cases "verifier_record_fold_challenges tr lv gr n g")
        (auto simp: sound_step_def verifier_record_fold_challenges_def verifier_poison_def split: sum.splits)
  next
    case (ChannelMessage f)
    with assms show ?thesis by (auto simp: consumes_def)
  qed
qed

lemma verifier_run_sound:
  "cursor_wf (vg_cursor g) \<Longrightarrow> verifier_run tr fc ops g = (oks, g') \<Longrightarrow>
   cursor_wf (vg_cursor g') \<and> (vg_invalid g \<longrightarrow> vg_invalid g') \<and> (\<not> list_all id oks \<longrightarrow> vg_invalid g') \<and>
   (\<not> vg_invalid g' \<longrightarrow> consumes (concat (map op_sites ops)) (vg_cursor g) (vg_cursor g'))"
proof (induction ops arbitrary: g oks)
  case Nil
  then show ?case by (auto simp: consumes_def)
next
  case (Cons op ops)
  from Cons.prems(2) obtain ok g1 oks' where 1: "verifier_step tr fc op g = (ok, g1)" and 2: "verifier_run tr fc ops g1 = (oks', g')"
    and oks: "oks = ok # oks'" by (auto split: prod.splits)
  note s = verifier_step_sound [OF Cons.prems(1) 1]
  from Cons.IH [OF _ 2] s oks show ?case by (auto simp: consumes_def)
qed

context transcript_pair_memory
begin

lemma finish_mirrors:
  assumes sync: "gsync argument g h" and fin: "prover_finish g = Ok ()"
  shows "verifier_finish tr h = (Ok (), vg_state h) \<and> (pending_check_eof tr (vg_state h) = Ok () \<longleftrightarrow> glog g = argument)"
proof -
  from fin have "\<not> pg_invalid g" "is_finished (pg_cursor g)" by (auto simp: prover_finish_def split: if_splits)
  then have "verifier_finish tr h = (Ok (), vg_state h)" using sync by (simp add: verifier_finish_def grinding_sync_def)
  moreover have "v_check_eof tr (vg_state h) \<longleftrightarrow> narg (pg_state g) = argument"
    using eof_of_sync sync by (simp add: grinding_sync_def)
  ultimately show ?thesis by (simp add: pending_check_eof_def grinding_log_def)
qed

lemma unfinished_rejected: "pending_check_eof tr (snd (verifier_finish tr g)) = Ok () \<Longrightarrow> \<not> vg_invalid g \<and> is_finished (vg_cursor g)"
  using rejected_never_accepted [of "reject tr (vg_state g)"]
  by (auto simp: pending_check_eof_def verifier_finish_def verifier_poison_def split: if_splits)

lemma protocol_sumcheck: "mirrored_sumcheck (prover_channel tr fc) (verifier_channel tr fc) narg synced tr (grinding_sumcheck_prover tr fc)
    (grinding_sumcheck_verifier tr fc) (sumcheck_log tr) (sumcheck_sync tr vw)"
  by unfold_locales

end

lemma transcript_pair_memoryI:
  "prover_laws tr vw \<Longrightarrow> reader_laws tr vw \<Longrightarrow> verifier_laws tr vw \<Longrightarrow> field_laws fc \<Longrightarrow> memory_suffices tr \<Longrightarrow> transcript_pair_memory tr vw fc"
  by (simp add: transcript_pair_memory_def transcript_pair_def transcript_pair_memory_axioms_def)

section \<open>Properties\<close>

text \<open>
  C5.  The two sides of a grinding replay stay together.  On synchronised sides, whenever a
  scheduled query, a scheduled draw of challenges, a previewed and committed fold response or the
  record of a fold group succeeds for the prover, its counterpart succeeds for the verifier with the
  same result and the sides stay synchronised; and when the prover finishes, the verifier finishes,
  and its end-of-proof check passes exactly if the proof is what the prover has sent.
\<close>

theorem grinding_replay_mirrored:
  fixes tr :: "('p, 'v, 'r, 's, 'f, 'e::comm_ring_1) transcript"
  assumes laws: "prover_laws tr vw" "reader_laws tr vw" "verifier_laws tr vw" "field_laws fc" "memory_suffices tr"
  defines "log \<equiv> grinding_log tr" and "sync \<equiv> grinding_sync tr vw"
  shows "mirrors log sync (prover_grind_query tr site) (verifier_grind_query tr site) \<and>
    mirrors log sync (grinded_ext_challenges tr (prover_channel tr fc) (prover_side tr) site count)
      (grinded_ext_challenges tr (verifier_channel tr fc) (verifier_side tr) site count) \<and>
    mirrors log sync (prover_fold_response tr site n) (read_fold_response tr site) \<and>
    mirrors log sync (prover_record_fold_challenges lv gr coordinates) (verifier_record_fold_challenges tr lv gr coordinates) \<and>
    (sync argument g h \<and> prover_finish g = Ok () \<longrightarrow>
       verifier_finish tr h = (Ok (), vg_state h) \<and> (pending_check_eof tr (vg_state h) = Ok () \<longleftrightarrow> log g = argument))"
proof -
  note t = transcript_pair_memoryI [OF laws]
  then have t1: "transcript_pair tr vw fc" by (simp add: transcript_pair_memory_def)
  show ?thesis unfolding log_def sync_def
    using transcript_pair.grind_query_mirrors [OF t1] transcript_pair_memory.grinded_challenges_mirrors [OF t]
      transcript_pair.fold_response_mirrors [OF t1] transcript_pair.record_mirrors [OF t1] transcript_pair_memory.finish_mirrors [OF t]
    by blast
qed

definition sample_pow_run :: grinding_run where
  "sample_pow_run = \<lparr>run_site = EvaluationBatch 0, loss_factor = 3, grind_bits = 2, nonce_bits = 9, multiplicity = 1, challenge_set_bits = 0\<rparr>"

definition sample_pow_plan :: "unit grinding_plan" where
  "sample_pow_plan = \<lparr>plan_runs = [sample_pow_run], plan_challenge_order = sample_order, total_nonce_bits = 9, plan_nonce_max_bytes = 2,
     expanded_query_count = 1\<rparr>"

lemma sample_pow_accepted: "grinding_plan_new sample_pricing [sample_pow_run] sample_order = Ok sample_pow_plan"
  by (simp add: grinding_plan_new_Ok run_priced_def run_validate_def site_validate_def run_kind_def order_grind_bits_def
      pow_nonce_bits_def run_bits_def run_bytes_def nonce_max_bytes_def ceil_div_def sample_pow_run_def sample_pow_plan_def sample_pricing_def
      GRINDING_NONCE_SLACK_BITS_def MAX_GRINDING_BITS_def u8_max_def u32_max_def usize_max_def map_err_def)

theorem grinding_replay_mirrored_witness:
  "mirrors (grinding_log sample_transcript) (grinding_sync sample_transcript sample_view)
     (prover_fold_response sample_transcript (FoldResponse 0) 7) (read_fold_response sample_transcript (FoldResponse 0))"
  by (rule grinding_replay_mirrored [OF sample_prover_laws sample_reader_laws sample_verifier_laws sample_field_laws sample_memory,
      THEN conjunct2, THEN conjunct2, THEN conjunct1])

text \<open>
  C4.  A proof is accepted only after the whole grinding plan was replayed.  Whatever operations a
  verifier runs on its replay, and whichever of their errors it drops: if the end-of-proof check
  passes on the channel that finishing leaves, every operation succeeded, and the sites they consumed
  are the entries of the accepted plan, each exactly once and in the plan's order.
\<close>

theorem accepted_replay_covers_plan:
  fixes tr :: "('p, 'v, 'r, 's, 'f, 'e::comm_ring_1) transcript"
  assumes laws: "prover_laws tr vw" "reader_laws tr vw" "verifier_laws tr vw" "field_laws fc" "memory_suffices tr"
    and plan: "grinding_plan_new J runs order = Ok p"
    and run: "verifier_run tr fc ops (verifier_grinding_new v p) = (oks, g)"
    and eof: "pending_check_eof tr (snd (verifier_finish tr g)) = Ok ()"
  shows "list_all id oks \<and> concat (map op_sites ops) = concat (map (\<lambda>r. replicate (unat (multiplicity r)) (run_site r)) runs)"
proof -
  note fin = transcript_pair_memory.unfinished_rejected [OF transcript_pair_memoryI [OF laws] eof]
  from cursor_wf_new [OF plan] have c: "cursor_wf (vg_cursor (verifier_grinding_new v p))"
    "remaining (vg_cursor (verifier_grinding_new v p)) = plan_entries runs" by (simp_all add: verifier_grinding_new_def)
  from verifier_run_sound [OF c(1) run] fin is_finished_iff c(2)
  have "list_all id oks" "map entry_site (plan_entries runs) = concat (map op_sites ops)" by (auto simp: consumes_def)
  moreover have "map entry_site (plan_entries runs) = concat (map (\<lambda>r. replicate (unat (multiplicity r)) (run_site r)) runs)"
    by (induction runs) (simp_all add: plan_entries_def run_entries_def run_entry_def)
  ultimately show ?thesis by simp
qed

theorem accepted_replay_covers_plan_witness:
  "concat (map op_sites [GrindQuery (EvaluationBatch 0) :: (u8 list \<times> u8 list \<times> bool) verifier_op]) =
     concat (map (\<lambda>r. replicate (unat (multiplicity r)) (run_site r)) [sample_pow_run])"
proof -
  let ?g = "\<lparr>vg_state = ([2], [], True), vg_cursor = \<lparr>cursor_runs = [sample_pow_run], run_index = 1, run_offset = 0\<rparr>, vg_invalid = False\<rparr>"
  have run: "verifier_run sample_transcript byte_codec [GrindQuery (EvaluationBatch 0)] (verifier_grinding_new ([], [2], True) sample_pow_plan) = ([True], ?g)"
    by (simp add: verifier_grind_query_def verifier_grind_inner_def verifier_next_def next_entry_def cursor_next_def run_lookup_def
        verifier_grinding_new_def cursor_new_def sample_pow_plan_def sample_pow_run_def run_entry_def pow_bits_def poisoning_def on_verifier_def
        GRINDING_NONCE_SLACK_BITS_def u8_max_def list_transcript_def)
  have eof: "pending_check_eof sample_transcript (snd (verifier_finish sample_transcript ?g)) = Ok ()"
    by (simp add: pending_check_eof_def verifier_finish_def is_finished_def list_transcript_def)
  show ?thesis
    using accepted_replay_covers_plan [OF sample_prover_laws sample_reader_laws sample_verifier_laws sample_field_laws sample_memory
        sample_pow_accepted run eof] by blast
qed

section \<open>The prover's channel serves a scheduled sumcheck\<close>

text \<open>
  A nonce found within the largest target, below \<^verbatim>\<open>2^(bits + 7) <= 2^64\<close>, takes at most ten bytes; the
  challenge codec returns as many elements as were asked for, and the length of its message is a
  \<^verbatim>\<open>usize\<close>.  A search or a draw may fail: \<open>search_errors\<close> are the errors of the code in the cases the
  transcript has.
\<close>

definition search_laws :: "('p, 'v, 'r, 's, 'f, 'e) transcript \<Rightarrow> ('v, 'r, 's, 'e) transcript_view \<Rightarrow> bool" where
  "search_laws tr vw \<longleftrightarrow>
     (\<forall>bits s w s'. 0 < bits \<and> bits \<le> unat MAX_GRINDING_BITS \<and> vw_pow vw bits s = Some (w, s') \<longrightarrow> length w \<le> 10) \<and>
     (\<forall>n p xs. fst (p_challenge_vector tr n p) = Some xs \<longrightarrow> length xs = n) \<and>
     (\<forall>n m. challenge_bytes tr n = Some m \<longrightarrow> m \<le> usize_max)"

definition search_errors :: "('v, 'r, 's, 'e) transcript_view \<Rightarrow> akita_error set" where
  "search_errors vw =
     {e. e = Internal ''transcript proof of work failed to find a nonce'' \<and>
         (\<exists>bits s. 0 < bits \<and> bits \<le> unat MAX_GRINDING_BITS \<and> vw_pow vw bits s = None)} \<union>
     {e. e = InvalidSetup ''field challenge codec rejected the message length or exhausted its pool'' \<and>
         (\<exists>n s. fst (vw_codec vw n s) = None)}"

text \<open>The target of an entry is one of a proof of work within the largest target.\<close>

definition work_within :: "plan_entry \<Rightarrow> bool" where
  "work_within e \<longleftrightarrow> (\<exists>bits. pow_bits e = Some bits \<and> bits \<le> unat MAX_GRINDING_BITS)"

lemma validated_work_within:
  "run_validate J run = Ok () \<Longrightarrow> run_kind run = ProofOfWork \<Longrightarrow> work_within (run_entry run)"
  by (auto simp: run_validate_def try_r_eq_Inr work_within_def run_entry_def pow_bits_def pow_nonce_bits_def not_less word_le_nat_alt
      split: if_splits)

text \<open>The next entries of the plan are proofs of work at the given sites, and their nonces can be counted.\<close>

definition work_scheduled :: "grinding_site list \<Rightarrow> 'p prover_grinding \<Rightarrow> bool" where
  "work_scheduled sites g \<longleftrightarrow> cursor_wf (pg_cursor g) \<and> serialized_nonce_bytes g + 10 * length sites \<le> usize_max \<and>
     (\<exists>es rest. remaining (pg_cursor g) = es @ rest \<and> map entry_site es = sites \<and> (\<forall>e \<in> set es. work_within e))"

lemma work_scheduled_state [simp]: "work_scheduled sites (g\<lparr>pg_state := p\<rparr>) \<longleftrightarrow> work_scheduled sites g"
  by (simp add: work_scheduled_def)

text \<open>A replay at the start of an accepted plan whose first runs are proofs of work at the sites.\<close>

lemma accepted_plan_schedules:
  assumes plan: "grinding_plan_new J runs order = Ok p" and sites: "prefix sites (map run_site runs)" "\<forall>site \<in> set sites. site_kind site = ProofOfWork"
  shows "work_scheduled sites (prover_grinding_new st p)"
proof -
  note new = conjunct1 [OF cursor_wf_new [OF plan]] conjunct2 [OF cursor_wf_new [OF plan]]
  from plan have val: "\<forall>r \<in> set runs. run_validate J r = Ok ()" and len: "length runs \<le> u32_max"
    by (auto simp: grinding_plan_new_Ok run_priced_def)
  from sites(1) obtain n where n: "sites = map run_site (take n runs)" by (metis prefix_def take_map append_eq_conv_conj)
  have each: "run_entries r = [run_entry r]" "work_within (run_entry r)" if "r \<in> set (take n runs)" for r
  proof -
    have k: "run_kind r = ProofOfWork" using sites(2) that n by (simp add: run_kind_def)
    have v: "run_validate J r = Ok ()" using val that by (meson in_set_takeD)
    show "work_within (run_entry r)" using validated_work_within [OF v k] .
    show "run_entries r = [run_entry r]" using v k by (auto simp: run_entries_def run_validate_def try_r_eq_Inr split: if_splits)
  qed
  have "plan_entries rs = map run_entry rs" if "\<forall>r \<in> set rs. run_entries r = [run_entry r]" for rs
    using that by (induction rs) (simp_all add: plan_entries_def)
  with each(1) have es: "plan_entries (take n runs) = map run_entry (take n runs)" by blast
  have "remaining (cursor_new p) = map run_entry (take n runs) @ plan_entries (drop n runs)"
    using new(2) unfolding es [symmetric] by (simp add: plan_entries_def flip: concat_append map_append)
  moreover have "10 * length sites \<le> usize_max" using len n by (simp add: u32_max_def usize_max_def min_def)
  ultimately show ?thesis using new(1) each(2) n unfolding work_scheduled_def
    by (intro conjI exI [of _ "map run_entry (take n runs)"] exI [of _ "plan_entries (drop n runs)"]) (auto simp: prover_grinding_new_def run_entry_def)
qed

text \<open>The next entries are the rounds from \<open>i\<close> to \<open>n\<close> of the channel's sumcheck.\<close>

definition rounds_scheduled :: "nat \<Rightarrow> nat \<Rightarrow> 'p prover_grinding grinding_sumcheck \<Rightarrow> bool" where
  "rounds_scheduled n i c \<longleftrightarrow> work_scheduled (map (\<lambda>j. round_site c (of_nat j)) [i..<n]) (sumcheck_grinding c)"

lemma rounds_scheduled_state: "rounds_scheduled n i (c\<lparr>sumcheck_grinding := (sumcheck_grinding c)\<lparr>pg_state := p\<rparr>\<rparr>) \<longleftrightarrow> rounds_scheduled n i c"
  by (simp add: rounds_scheduled_def round_site_def)

lemma ends_in_poisoning: "ends_in E Q out \<Longrightarrow> ends_in E Q (poisoning poison out)"
  by (cases out; cases "fst out") (auto simp: poisoning_def)

lemma ends_in_prover: "ends_in E Q (f (pg_state g)) \<Longrightarrow> ends_in E (\<lambda>v g'. \<exists>p. Q v p \<and> g' = g\<lparr>pg_state := p\<rparr>) (on_prover f g)"
  by (cases "f (pg_state g)"; cases "fst (f (pg_state g))") (auto simp: on_prover_def)

lemma group_record_Ok:
  "k * b \<le> usize_max \<Longrightarrow> 0 < b \<Longrightarrow> \<exists>r. group_record site kind (Some k) b = Ok r"
proof -
  assume le: "k * b \<le> usize_max" and b: "0 < b"
  then have "k \<le> usize_max" using le_trans [of k "k * b"] by simp
  then show ?thesis using le by (simp add: group_record_def checked_mul_if usize_to_u64_def narrow_def usize_max_def u64_max_def Let_def)
qed

context transcript_pair_memory
begin

lemma round_site_kind: "site_kind (round_site c i) = ProofOfWork"
  by (simp add: round_site_def)

lemma query_ends:
  assumes laws: "search_laws tr vw" and g: "work_scheduled (site # sites) g" and kind: "site_kind site = ProofOfWork"
  shows "ends_in (search_errors vw) (\<lambda>_. work_scheduled sites) (prover_grind_query tr site g)"
proof -
  from g obtain e es rest where wf: "cursor_wf (pg_cursor g)" and room: "serialized_nonce_bytes g + 10 + 10 * length sites \<le> usize_max"
    and rem: "remaining (pg_cursor g) = e # es @ rest" and e: "entry_site e = site" "work_within e"
    and es: "map entry_site es = sites" "\<forall>e \<in> set es. work_within e"
    by (auto simp: work_scheduled_def Cons_eq_map_conv map_eq_Cons_conv add.assoc)
  from cursor_next_eq [OF wf] rem obtain c where c: "cursor_next (pg_cursor g) = (Some e, c)" "remaining c = es @ rest" "cursor_wf c" by auto
  have rest: "work_scheduled sites (g\<lparr>pg_cursor := c, pg_state := p, serialized_nonce_bytes := k\<rparr>)" if "k \<le> serialized_nonce_bytes g + 10" for p k
    using c(2,3) es room that unfolding work_scheduled_def by (intro conjI exI [of _ es] exI [of _ rest]) simp_all
  from e(2) obtain bits where bits: "pow_bits e = Some bits" and le: "bits \<le> unat MAX_GRINDING_BITS" by (auto simp: work_within_def)
  let ?step = "\<lambda>g'. st_bind (on_prover (\<lambda>p. case p_grind tr bits p of (found, p') \<Rightarrow>
      (if found then Ok () else Err (Internal ''transcript proof of work failed to find a nonce''), p')) g') (\<lambda>_ g''.
        count_nonce (length (narg (pg_state g'')) - length (narg (pg_state g))) ''proof-of-work serialized nonce byte count overflow'' g'')"
  have query: "prover_grind_query tr site g = poisoning prover_poison (if bits = 0 then (Ok (), g\<lparr>pg_cursor := c\<rparr>) else ?step (g\<lparr>pg_cursor := c\<rparr>))"
    using c e kind bits by (simp add: prover_grind_query_def prover_grind_inner_def proof_of_work_def prover_next_def next_entry_def Let_def)
  have grind: "case vw_pow vw bits (p_sponge tr (pg_state g)) of None \<Rightarrow> \<not> fst (p_grind tr bits (pg_state g))
        | Some (w, s) \<Rightarrow> fst (p_grind tr bits (pg_state g)) \<and> p_sponge tr (snd (p_grind tr bits (pg_state g))) = s \<and>
            narg (snd (p_grind tr bits (pg_state g))) = narg (pg_state g) @ w"
    using prover_side unfolding prover_laws_def by blast
  have "ends_in (search_errors vw) (\<lambda>_. work_scheduled sites) (?step (g\<lparr>pg_cursor := c\<rparr>))" if "bits \<noteq> 0"
  proof (cases "vw_pow vw bits (p_sponge tr (pg_state g))")
    case None
    with grind have "\<not> fst (p_grind tr bits (pg_state g))" by simp
    with None show ?thesis using that le by (auto simp: on_prover_def search_errors_def split: prod.splits)
  next
    case (Some ws)
    obtain w s where ws: "ws = (w, s)" by (cases ws)
    with grind Some have "fst (p_grind tr bits (pg_state g))" "narg (snd (p_grind tr bits (pg_state g))) = narg (pg_state g) @ w" by simp_all
    moreover have "length w \<le> 10" using laws Some ws that le unfolding search_laws_def by blast
    ultimately show ?thesis using rest room by (auto simp: on_prover_def count_nonce_def checked_add_if split: prod.splits)
  qed
  moreover have "work_scheduled sites (g\<lparr>pg_cursor := c\<rparr>)" using rest [of "serialized_nonce_bytes g" "pg_state g"] by simp
  ultimately show ?thesis unfolding query by (intro ends_in_poisoning) auto
qed

lemma draw_ends:
  assumes laws: "search_laws tr vw" and g: "work_scheduled (site # sites) g" and kind: "site_kind site = ProofOfWork"
  shows "ends_in (search_errors vw) (\<lambda>xs g'. length xs = count \<and> work_scheduled sites g')
    (grinded_ext_challenges tr (prover_channel tr fc) (prover_side tr) site count g)"
proof -
  have "ends_in (search_errors vw) (\<lambda>xs p'. length xs = count) (ext_challenges tr (prover_channel tr fc) s count p)" for s p
  proof -
    have "(case challenge_bytes tr count of None \<Rightarrow> 0 | Some m \<Rightarrow> m) \<le> u64_max"
      using laws by (auto simp: search_laws_def usize_max_def u64_max_def split: option.splits)
    then have draw: "ext_challenges tr (prover_channel tr fc) s count p = prover_challenges tr count p"
      by (simp add: ext_challenges_def guard_def usize_to_u64_def narrow_def prover_channel_def)
    have "fst (p_challenge_vector tr count p) = fst (vw_codec vw count (p_sponge tr p))" using prover_side unfolding prover_laws_def by blast
    moreover have "fst (p_challenge_vector tr count p) = Some xs \<Longrightarrow> length xs = count" for xs using laws unfolding search_laws_def by blast
    ultimately show ?thesis unfolding draw prover_challenges_def
      by (cases "p_challenge_vector tr count p"; cases "fst (p_challenge_vector tr count p)") (auto simp: search_errors_def)
  qed
  note draw = ends_in_poisoning [OF ends_in_prover [OF this]]
  show ?thesis unfolding grinded_ext_challenges_def prover_side_def grinding_side.simps
    by (rule ends_in_bind [OF query_ends [OF assms]], rule ends_in_mono [OF draw]) auto
qed

lemma round_challenge_ends:
  assumes laws: "search_laws tr vw" and c: "rounds_scheduled n i c" and i: "i < n"
  shows "ends_in (search_errors vw) (\<lambda>_. rounds_scheduled n (Suc i)) (sc_round_challenge (grinding_sumcheck_prover tr fc) 0 (of_nat i) c)"
proof -
  let ?site = "round_site c (of_nat i)" and ?sites = "map (\<lambda>j. round_site c (of_nat j)) [Suc i..<n]"
  have "work_scheduled (?site # ?sites) (sumcheck_grinding c)" using c i by (simp add: rounds_scheduled_def upt_conv_Cons)
  note draw = draw_ends [OF laws this round_site_kind, of 1]
  have "ends_in (search_errors vw) (\<lambda>_. work_scheduled ?sites) (grinded_ext_challenge tr (prover_channel tr fc) (prover_side tr) ?site (sumcheck_grinding c))"
    unfolding grinded_ext_challenge_def by (rule ends_in_bind [OF draw]) (auto simp: vec_pop_def)
  then show ?thesis
    by (cases "grinded_ext_challenge tr (prover_channel tr fc) (prover_side tr) ?site (sumcheck_grinding c)";
        cases "fst (grinded_ext_challenge tr (prover_channel tr fc) (prover_side tr) ?site (sumcheck_grinding c))")
      (auto simp: grinding_sumcheck_prover_def on_grinding_def rounds_scheduled_def round_site_def)
qed

lemma protocol_channel_serves:
  assumes laws: "search_laws tr vw" and deg: "0 < degree" and fits: "degree * ext_degree fc * num_bytes fc \<le> usize_max"
  shows "channel_serves (search_errors vw) (grinding_sumcheck_prover tr fc) (prover_channel tr fc) fc 0 n degree (rounds_scheduled n)"
proof -
  from field_side have pos: "0 < num_bytes fc" "0 < ext_degree fc" by (simp_all add: field_laws_def)
  have rec: "\<exists>r. group_record site kind (checked_mul k (ext_degree fc)) (num_bytes fc) = Ok r" if "k \<le> degree" for site kind k
  proof -
    have le: "k * ext_degree fc * num_bytes fc \<le> usize_max" using fits that by (meson le_trans mult_le_mono1)
    moreover have "k * ext_degree fc \<le> k * ext_degree fc * num_bytes fc" using pos by simp
    ultimately have "k * ext_degree fc \<le> usize_max" using le_trans by blast
    with group_record_Ok [OF le pos(1)] show ?thesis by (simp add: checked_mul_if)
  qed
  have put: "rounds_scheduled n i (sc_put (grinding_sumcheck_prover tr fc) p c) = rounds_scheduled n i c" for i p c
    by (simp add: grinding_sumcheck_prover_def rounds_scheduled_state)
  have "ends_in (search_errors vw) (\<lambda>_. rounds_scheduled n 0) (absorb_claim (grinding_sumcheck_prover tr fc) (prover_channel tr fc) fc 0 claim c)"
    if "rounds_scheduled n 0 c" for c claim
    using rec [of 1 "sc_site (grinding_sumcheck_prover tr fc) c 0 0 RoleClaim" PublicValue] deg that
    by (auto simp: absorb_claim_def on_state_def public_extensions_def guard_def put)
  moreover have "ends_in (search_errors vw) (\<lambda>ys c'. ys = xs \<and> rounds_scheduled n i c')
      (exchange_body (grinding_sumcheck_prover tr fc) (prover_channel tr fc) fc 0 i xs c)"
    if "length xs = degree" "rounds_scheduled n i c" for c i xs
    using rec [of degree "sc_site (grinding_sumcheck_prover tr fc) c 0 (of_nat i) RoleRoundBody" ProofAtoms] that
    by (auto simp: exchange_body_def on_state_def exchange_extension_group_def guard_def prover_channel_def prover_exchange_def put)
  ultimately show ?thesis using round_challenge_ends [OF laws] unfolding channel_serves_def by auto
qed

end

section \<open>A scheduled sumcheck\<close>

lemma sample_searches: "search_laws sample_transcript sample_view" "search_errors sample_view = {}"
  by (auto simp: search_laws_def search_errors_def list_transcript_def list_view_def sample_codec_def usize_max_def case_prod_unfold)

definition sample_round_run :: "u32 \<Rightarrow> grinding_run" where
  "sample_round_run rnd = \<lparr>run_site = SumcheckRound Stage1 0 0 rnd, loss_factor = 1, grind_bits = 2, nonce_bits = 9, multiplicity = 1,
     challenge_set_bits = 0\<rparr>"

definition sample_round_plan :: "unit grinding_plan" where
  "sample_round_plan = \<lparr>plan_runs = [sample_round_run 0, sample_round_run 1], plan_challenge_order = sample_order, total_nonce_bits = 18,
     plan_nonce_max_bytes = 4, expanded_query_count = 2\<rparr>"

definition sample_prover_channel :: "(u8 list \<times> u8 list) prover_grinding grinding_sumcheck" where
  "sample_prover_channel = \<lparr>sumcheck_grinding = prover_grinding_new ([], []) sample_round_plan, sumcheck_protocol_of = Stage1,
     sumcheck_level = 0, sumcheck_stage = 0\<rparr>"

definition sample_verifier_channel :: "u8 list \<Rightarrow> (u8 list \<times> u8 list \<times> bool) verifier_grinding grinding_sumcheck" where
  "sample_verifier_channel argument = \<lparr>sumcheck_grinding = verifier_grinding_new ([], argument, True) sample_round_plan,
     sumcheck_protocol_of = Stage1, sumcheck_level = 0, sumcheck_stage = 0\<rparr>"

lemma sample_rounds_scheduled: "rounds_scheduled 2 0 sample_prover_channel"
proof -
  let ?es = "[run_entry (sample_round_run 0), run_entry (sample_round_run 1)]"
  have "cursor_wf (cursor_new sample_round_plan)" "remaining (cursor_new sample_round_plan) = ?es"
    by (simp_all add: cursor_wf_def cursor_new_def sample_round_plan_def sample_round_run_def remaining_def plan_entries_def run_entries_def u32_max_def)
  moreover have "[0..<2] = [0, 1 :: nat]" by (simp add: numeral_2_eq_2)
  then have "map entry_site ?es = map (\<lambda>j. round_site sample_prover_channel (of_nat j)) [0..<2] \<and> (\<forall>e \<in> set ?es. work_within e)"
    by (simp add: run_entry_def sample_round_run_def round_site_def sample_prover_channel_def pow_bits_def
        work_within_def MAX_GRINDING_BITS_def GRINDING_NONCE_SLACK_BITS_def u8_max_def)
  moreover have "pg_cursor (sumcheck_grinding sample_prover_channel) = cursor_new sample_round_plan"
    "serialized_nonce_bytes (sumcheck_grinding sample_prover_channel) = 0" by (simp_all add: sample_prover_channel_def prover_grinding_new_def)
  ultimately show ?thesis unfolding rounds_scheduled_def work_scheduled_def
    by (intro conjI exI [of _ ?es] exI [of _ "[]"]) (simp_all add: usize_max_def)
qed

lemma sample_channels_sync: "sumcheck_sync sample_transcript sample_view argument sample_prover_channel (sample_verifier_channel argument)"
  by (simp add: sumcheck_sync_def grinding_sync_def channel_sync_def sample_prover_channel_def sample_verifier_channel_def prover_grinding_new_def
      verifier_grinding_new_def list_transcript_def list_view_def)

text \<open>
  A sumcheck over the protocol's channels replays: when the prover's driver, drawing each round
  challenge behind its scheduled proof of work, returns challenges and a final claim, the verifier's
  driver on a synchronised channel reads the same round polynomials, checks the same proofs of work
  and returns the same challenges and claim, and the channels stay synchronised.
\<close>

lemma grinding_sumcheck_replay:
  fixes tr :: "('p, 'v, 'r, 's, 'f, 'e::comm_ring_1) transcript"
  assumes laws: "prover_laws tr vw" "reader_laws tr vw" "verifier_laws tr vw" "field_laws fc" "memory_suffices tr"
    and proved: "prove_sumcheck P K (grinding_sumcheck_prover tr fc) (prover_channel tr fc) fc shape ivk s = (Ok (rs, out), s')"
    and sync: "sumcheck_sync tr vw argument (snd s) d" and sent: "prefix (sumcheck_log tr (snd s')) argument"
  shows "\<exists>d'. verify_sumcheck_rounds P tr (grinding_sumcheck_verifier tr fc) (verifier_channel tr fc) fc ivk (k_input_claim K (fst s)) shape d =
    (Ok \<lparr>output_claim = out, result_challenges = rs\<rparr>, d') \<and> sumcheck_sync tr vw argument (snd s') d'"
  using mirrored_sumcheck.prove_sumcheck_replay [OF transcript_pair_memory.protocol_sumcheck [OF transcript_pair_memoryI [OF laws]] proved] sync sent
  by blast

end
