(* ===== verification/Opening_Driver_Correct.thy ===== *)
theory Opening_Driver_Correct
  imports Opening_Driver Tensor_Opening_Correct Grinding_Replay_Correct
begin

text \<open>
  The verifier's replay of the extension-opening reduction of one fold level: on the stream an honest
  prover writes, the verifier reads the same partials, challenges, rounds and final claims, and its
  checks of openings, input claims and the output claim pass.
\<close>

section \<open>Layouts\<close>

lemma wrapping_sum: "foldl (\<lambda>acc n. (acc + n) mod 2 ^ 64) a ns = (a + sum_list ns) mod 2 ^ 64" if "a < 2 ^ 64" for a :: nat
  using that
proof (induction ns arbitrary: a)
  case (Cons n ns)
  then show ?case by (simp add: mod_add_left_eq add.assoc)
qed simp

lemma layout_total:
  assumes "layout_check ls = Ok ()"
  shows "num_total_polynomials ls = sum_list (map gl_num_polynomials ls) \<and> sum_list (map gl_num_polynomials ls) \<le> usize_max"
proof -
  from assms have "sum_list (map gl_num_polynomials ls) \<le> usize_max"
    by (auto simp: layout_check_def checked_num_total_polynomials_def try_r_eq_Inr ok_or_eq_Inr sum_checked_eq split: if_splits)
  then show ?thesis unfolding num_total_polynomials_def by (subst wrapping_sum) (simp_all add: usize_max_def)
qed

section \<open>The stream\<close>

lemma overwrite_self [simp]: "overwrite xs xs = xs"
  by (induction xs) simp_all

lemma prover_exchange_value:
  "on_prover (exchange_extension_group (prover_channel tr fc) fc site xs) g = (Ok ys, g') \<Longrightarrow> ys = xs"
  by (auto simp: on_prover_def exchange_extension_group_def prover_channel_def prover_exchange_def st_bind_eq_Inr split: prod.splits)

context transcript_pair_memory
begin

lemma slots_return: "on_verifier (extension_slots tr (verifier_channel tr fc) n) h = (Ok (replicate n 0), h)"
  using memory by (simp add: on_verifier_def extension_slots_def guard_def memory_suffices_def)

lemma unit_side_mirrors:
  assumes "mirrors narg synced f h"
  shows "mirrors glog gsync (on_side_unit (prover_side tr) f) (on_side_unit (verifier_side tr) h)"
  unfolding on_side_unit_def prover_side_def verifier_side_def grinding_side.simps
  by (intro mirrors_bind on_state_mirrors assms mirrors_return)

lemma batch_challenges_mirrors:
  "mirrors glog gsync (batch_challenges layout lv n (grinded_ext_challenges tr (prover_channel tr fc) (prover_side tr)))
     (batch_challenges layout lv n (grinded_ext_challenges tr (verifier_channel tr fc) (verifier_side tr)))"
proof -
  have "mirrors glog gsync (\<lambda>g. if b then grinded_ext_challenges tr (prover_channel tr fc) (prover_side tr) site m g else (Ok [1], g))
      (\<lambda>g. if b then grinded_ext_challenges tr (verifier_channel tr fc) (verifier_side tr) site m g else (Ok [1], g))" for b site m
    by (cases b) (simp_all add: grinded_challenges_mirrors mirrors_return)
  then show ?thesis unfolding batch_challenges_def by (intro mirrors_bind grinded_challenges_mirrors mirrors_return)
qed

lemma exchange_mirrors:
  "length slots = length xs \<Longrightarrow> mirrors glog gsync (on_prover (exchange_extension_group (prover_channel tr fc) fc site xs))
     (on_verifier (exchange_extension_group (verifier_channel tr fc) fc site slots))"
  by (intro on_state_mirrors mirrored_channels.exchange_extension_group_mirror [OF channels_mirrored])

lemma eor_prefix_mirrors:
  "mirrors glog gsync (eor_prefix tr (prover_channel tr fc) (prover_side tr) fc layout openings partials lv)
     (eor_prefix tr (verifier_channel tr fc) (verifier_side tr) fc layout openings (replicate (length partials) 0) lv)"
proof -
  have sides: "on_side (prover_side tr) = on_prover" "on_side (verifier_side tr) = on_verifier" by (simp_all add: prover_side_def verifier_side_def)
  show ?thesis unfolding eor_prefix_def sides length_replicate
    apply (rule mirrors_bind [OF mirrors_return])
    apply (clarsimp split: prod.splits)
    apply (intro mirrors_bind unit_side_mirrors mirrored_channels.public_extensions_mirror [OF channels_mirrored] exchange_mirrors batch_challenges_mirrors)
     apply simp
    apply (clarsimp split: prod.splits)
    apply (rule mirrors_return)
    done
qed

lemma eor_final_mirrors:
  "mirrors glog gsync (eor_final_claims (prover_channel tr fc) (prover_side tr) fc layout fs lv)
     (eor_final_claims (verifier_channel tr fc) (verifier_side tr) fc layout (replicate (length fs) 0) lv)"
proof (cases "length fs = num_total_polynomials layout")
  case True
  then show ?thesis unfolding eor_final_claims_def by (simp add: prover_side_def verifier_side_def exchange_mirrors)
next
  case False
  then show ?thesis unfolding eor_final_claims_def by (simp add: mirrors_error)
qed

end

section \<open>The verifier's checks on honest claims\<close>

text \<open>The opening point of every claim, in claim order.\<close>

definition claim_points :: "opening_layout \<Rightarrow> 'e list list \<Rightarrow> 'e list list" where
  "claim_points ls points = concat (map2 (\<lambda>l point. replicate (gl_num_polynomials l) point) ls points)"

definition claim_columns :: "nat \<Rightarrow> 'e list \<Rightarrow> nat \<Rightarrow> 'e list" where
  "claim_columns width partials i = take width (drop (i * width) partials)"

text \<open>
  The points have the arities of the layout, and every claim's column partials recombine to its
  opening.
\<close>

definition openings_hold :: "eq_env \<Rightarrow> ('f, 'e::comm_ring_1) field_codec \<Rightarrow> opening_layout \<Rightarrow> 'e list list \<Rightarrow> 'e list \<Rightarrow> 'e list \<Rightarrow> bool" where
  "openings_hold env fc ls points openings partials \<longleftrightarrow>
     list_all2 (\<lambda>l point. length point = gl_num_vars l \<and> ext_degree fc \<le> 2 ^ length point) ls points \<and>
     (\<forall>i < length openings. derive_tensor_extension_opening_claim_from_partials env fc (claim_points ls points ! i)
        (claim_columns (ext_degree fc) partials i) = Ok (openings ! i))"

lemma length_claim_points: "length ls = length points \<Longrightarrow> length (claim_points ls points) = sum_list (map gl_num_polynomials ls)"
  by (induction ls points rule: list_induct2) (simp_all add: claim_points_def)

lemma check_claims_eq:
  assumes "(off + length os) * width \<le> length partials" "length partials \<le> usize_max" "0 < width"
    and "\<And>j. j < length os \<Longrightarrow> derive_tensor_extension_opening_claim_from_partials env fc point (claim_columns width partials (off + j)) = Ok (os ! j)"
  shows "check_claims env fc width partials point os off = Ok (off + length os)"
  using assms
proof (induction os arbitrary: off)
  case (Cons x os)
  have "(off + 1) * width \<le> (off + length (x # os)) * width" by (intro mult_le_mono1) simp
  also note Cons.prems(1)
  finally have le: "(off + 1) * width \<le> length partials" .
  have b: "off * width \<le> usize_max" "off * width + width \<le> usize_max" using le Cons.prems(2) by simp_all
  have "(off + 1) * 1 \<le> (off + 1) * width" using Cons.prems(3) by (intro mult_le_mono2) simp
  then have o: "off + 1 \<le> usize_max" using le Cons.prems(2) unfolding mult_1_right by (meson le_trans)
  have slice: "slice_range partials (off * width, off * width + width) = Some (claim_columns width partials off)"
    using le by (simp add: slice_range_def claim_columns_def take_drop add.commute)
  have d: "derive_tensor_extension_opening_claim_from_partials env fc point (claim_columns width partials off) = Ok x"
    using Cons.prems(4) [of 0] by simp
  have "check_claims env fc width partials point os (off + 1) = Ok (off + 1 + length os)"
  proof (rule Cons.IH)
    show "(off + 1 + length os) * width \<le> length partials" using Cons.prems(1) by simp
    show "derive_tensor_extension_opening_claim_from_partials env fc point (claim_columns width partials (off + 1 + j)) = Ok (os ! j)" if "j < length os" for j
      using Cons.prems(4) [of "Suc j"] that by simp
  qed (use Cons.prems in auto)
  with b o slice d show ?case by (simp add: checked_mul_if checked_add_if)
qed simp

lemma check_groups_eq:
  assumes "list_all2 (\<lambda>l point. length point = gl_num_vars l \<and> es_split_bits shape \<le> length point) ls points"
    and "drop index layout = ls" and "off + sum_list (map gl_num_polynomials ls) = length openings"
    and "length openings * es_width shape \<le> length partials" "length partials \<le> usize_max" "0 < es_width shape"
    and "\<And>i. off + i < length openings \<Longrightarrow>
      derive_tensor_extension_opening_claim_from_partials env fc (claim_points ls points ! i) (claim_columns (es_width shape) partials (off + i)) = Ok (openings ! (off + i))"
  shows "check_groups env fc shape layout openings partials points index off = Ok (length openings)"
  using assms
proof (induction ls points arbitrary: index off rule: list_all2_induct)
  case (Cons l ls point points)
  let ?n = "gl_num_polynomials l"
  have l: "layout_of_group layout index = Ok l" and rest: "drop (index + 1) layout = ls"
  proof -
    have "index < length layout" using Cons.prems(1) by (metis drop_eq_Nil list.distinct(1) not_le_imp_less)
    with Cons.prems(1) show "layout_of_group layout index = Ok l" "drop (index + 1) layout = ls"
      by (auto simp: layout_of_group_def slice_nth_def Cons_nth_drop_Suc [symmetric])
  qed
  have len: "length (take ?n (drop off openings)) = ?n" using Cons.prems(2) by simp
  have "check_claims env fc (es_width shape) partials point (take ?n (drop off openings)) off = Ok (off + length (take ?n (drop off openings)))"
  proof (rule check_claims_eq)
    have "(off + ?n) * es_width shape \<le> length openings * es_width shape" using Cons.prems(2) by (intro mult_le_mono1) simp
    also note Cons.prems(3)
    finally show "(off + length (take ?n (drop off openings))) * es_width shape \<le> length partials" unfolding len .
    fix j assume "j < length (take ?n (drop off openings))"
    then have j: "j < ?n" "off + j < length openings" by auto
    then show "derive_tensor_extension_opening_claim_from_partials env fc point (claim_columns (es_width shape) partials (off + j)) = Ok (take ?n (drop off openings) ! j)"
      using Cons.prems(6) [of j] by (simp add: claim_points_def nth_append)
  qed (use Cons.prems in auto)
  moreover have "check_groups env fc shape layout openings partials points (index + 1) (off + ?n) = Ok (length openings)"
  proof (rule Cons.IH [OF rest])
    fix i assume "off + ?n + i < length openings"
    then show "derive_tensor_extension_opening_claim_from_partials env fc (claim_points ls points ! i) (claim_columns (es_width shape) partials (off + ?n + i)) = Ok (openings ! (off + ?n + i))"
      using Cons.prems(6) [of "?n + i"] by (simp add: claim_points_def nth_append add.assoc)
  qed (use Cons.prems in auto)
  ultimately show ?case using Cons.hyps Cons.prems(2) l len by simp
qed simp

section \<open>Claims and factors\<close>

definition column_claim :: "eq_env \<Rightarrow> ('f, 'e::comm_ring_1) field_codec \<Rightarrow> ('f, 'e, 'w) ext_ops \<Rightarrow> 'e list \<Rightarrow> 'e list \<Rightarrow> 'e result" where
  "column_claim env fc X eta columns = try_r (tensor_row_partials_from_columns fc X columns) (\<lambda>rows. tensor_reduction_claim_from_rows env fc rows eta)"

lemma claim_from_partials_Ok:
  "length css = length coefficients \<Longrightarrow> claim_from_partials env fc X eta (zip css coefficients) acc = Ok batch \<Longrightarrow>
   \<exists>claims. collect_results (column_claim env fc X eta) css = Ok claims \<and> length claims = length css \<and> batch = acc + weighted_sum coefficients claims"
proof (induction css coefficients arbitrary: acc rule: list_induct2)
  case Nil
  then show ?case by (simp add: weighted_sum_def)
next
  case (Cons cs css k ks)
  then obtain c where c: "column_claim env fc X eta cs = Ok c" and r: "claim_from_partials env fc X eta (zip css ks) (acc + k * c) = Ok batch"
    by (auto simp: column_claim_def try_r_eq_Inr)
  from Cons.IH [OF r] obtain claims where cl: "collect_results (column_claim env fc X eta) css = Ok claims" "length claims = length css"
    "batch = acc + k * c + weighted_sum ks claims" by blast
  have "weighted_sum (k # ks) (c # claims) = k * c + weighted_sum ks claims"
    by (simp add: weighted_sum_eq sum.lessThan_Suc_shift del: sum.lessThan_Suc)
  with c cl show ?case by (simp add: add.assoc)
qed

lemma prover_outputs_Ok:
  "prover_outputs env fc X arms split_bits eta rho inputs = Ok (factors, points) \<Longrightarrow>
   collect_results (group_factor env fc X InvalidProof InvalidProof split_bits eta rho) (map fst inputs) = Ok factors"
proof (induction inputs arbitrary: factors points)
  case (Cons a inputs)
  obtain pt d where a: "a = (pt, d)" by (cases a)
  from Cons.prems a obtain f fs ps where f: "group_factor env fc X (Internal ''eor group point has no tensor tail'')
      (Internal ''eor challenge point is shorter than group tensor tail'') split_bits eta rho pt = Ok f"
    and r: "prover_outputs env fc X arms split_bits eta rho inputs = Ok (fs, ps)" "factors = f # fs"
    by (auto simp: try_r_eq_Inr Let_def)
  have "group_factor env fc X InvalidProof InvalidProof split_bits eta rho pt = Ok f"
    using f by (auto simp: group_factor_def Let_def split: if_splits)
  with Cons.IH [OF r(1)] r(2) a show ?case by simp
qed simp

lemma length_chunks: "0 < w \<Longrightarrow> length xs = w * n \<Longrightarrow> length (chunks w xs) = n"
proof (induction n arbitrary: xs)
  case (Suc n)
  then have "xs \<noteq> []" "length (drop w xs) = w * n" by auto
  with Suc show ?case by (subst chunks.simps) simp
qed (simp add: chunks.simps)

lemma zip_weights: "foldl (\<lambda>acc (v, weight). acc + v * weight) 0 (zip vs ws) = weighted_sum ws vs" for vs :: "'e::comm_ring_1 list"
proof -
  have "foldl (\<lambda>acc (v, weight). acc + v * weight) a (zip vs ws) = foldl (\<lambda>acc (w, v). acc + w * v) a (zip ws vs)" for a
    by (induction vs ws arbitrary: a rule: list_induct2') (simp_all add: mult.commute)
  then show ?thesis by (simp add: weighted_sum_def)
qed

section \<open>Replay\<close>

lemma eor_prefix_facts:
  assumes "eor_prefix tr (prover_channel tr fc) (prover_side tr) fc layout openings partials lv g = (Ok px, g')"
  shows "ep_partials px = partials \<and> layout_check layout = Ok ()"
  using assms by (auto simp: eor_prefix_def st_bind_eq_Inr validate_shape_def try_r_eq_Inr prover_side_def dest: prover_exchange_value split: prod.splits)

text \<open>The verifier reads back what the prover put around and into the sumcheck.\<close>

lemma replay_stream:
  fixes tr :: "('p, 'v, 'r, 's, 'f, 'e::comm_ring_1) transcript"
  assumes t: "transcript_pair_memory tr vw fc"
    and pre: "eor_prefix tr (prover_channel tr fc) (prover_side tr) fc layout openings partials lv g = (Ok px, g1)"
    and sc: "prove_sumcheck P K (grinding_sumcheck_prover tr fc) (prover_channel tr fc) fc shape ivk (k, eor_channel g1 lv) = (Ok (rho, out), k', c)"
    and fin: "eor_final_claims (prover_channel tr fc) (prover_side tr) fc layout fcl lv (sumcheck_grinding c) = (Ok fcl', g')"
    and sync: "grinding_sync tr vw argument g h" and ext: "prefix (grinding_log tr g') argument"
  shows "\<exists>h1 d h2. eor_prefix tr (verifier_channel tr fc) (verifier_side tr) fc layout openings (replicate (length partials) 0) lv h = (Ok px, h1) \<and>
    verify_sumcheck_rounds P tr (grinding_sumcheck_verifier tr fc) (verifier_channel tr fc) fc ivk (k_input_claim K k) shape (eor_channel h1 lv) =
      (Ok \<lparr>output_claim = out, result_challenges = rho\<rparr>, d) \<and>
    eor_final_claims (verifier_channel tr fc) (verifier_side tr) fc layout (replicate (length fcl) 0) lv (sumcheck_grinding d) = (Ok fcl', h2) \<and>
    grinding_sync tr vw argument g' h2"
proof -
  note m1 = transcript_pair_memory.eor_prefix_mirrors [OF t, unfolded mirrors_def, rule_format, OF pre]
    and m2 = mirrored_sumcheck.prove_sumcheck_replay [OF transcript_pair_memory.protocol_sumcheck [OF t] sc, unfolded sumcheck_log_def snd_conv fst_conv]
    and m3 = transcript_pair_memory.eor_final_mirrors [OF t, unfolded mirrors_def, rule_format, OF fin]
  from m3 have "prefix (grinding_log tr (sumcheck_grinding c)) (grinding_log tr g')" by blast
  then have e2: "prefix (grinding_log tr (sumcheck_grinding c)) argument" using ext by (rule prefix_order.order_trans)
  from m2 have "prefix (grinding_log tr g1) (grinding_log tr (sumcheck_grinding c))" by (simp add: eor_channel_def)
  then have e1: "prefix (grinding_log tr g1) argument" using e2 by (rule prefix_order.order_trans)
  from m1 sync e1 obtain h1 where h1: "eor_prefix tr (verifier_channel tr fc) (verifier_side tr) fc layout openings (replicate (length partials) 0) lv h = (Ok px, h1)"
    "grinding_sync tr vw argument g1 h1" by blast
  then have "sumcheck_sync tr vw argument (eor_channel g1 lv) (eor_channel h1 lv)" by (simp add: sumcheck_sync_def eor_channel_def)
  with m2 e2 obtain d where d: "verify_sumcheck_rounds P tr (grinding_sumcheck_verifier tr fc) (verifier_channel tr fc) fc ivk (k_input_claim K k) shape (eor_channel h1 lv) =
      (Ok \<lparr>output_claim = out, result_challenges = rho\<rparr>, d)" "sumcheck_sync tr vw argument c d" by blast
  then have "grinding_sync tr vw argument (sumcheck_grinding c) (sumcheck_grinding d)" by (simp add: sumcheck_sync_def)
  with m3 ext h1(1) d(1) show ?thesis by blast
qed

lemma replay_checks:
  fixes mt :: nat
  assumes w: "w = 2 ^ sb" "w = ext_degree fc" and chk: "layout_check layout = Ok ()" and nc: "length openings = num_total_polynomials layout"
    and count: "checked_mul w (num_total_polynomials layout) = Some (length partials)" and cs: "length coefficients = num_total_polynomials layout"
    and claim: "claim_from_partials env fc X eta (zip (chunks w partials) coefficients) 0 = Ok claim"
    and honest: "openings_hold env fc layout points openings partials"
  defines "s \<equiv> \<lparr>es_split_bits = sb, es_width = w, es_rounds = mt\<rparr>"
  shows "check_groups env fc s layout openings partials points 0 0 = Ok (num_total_polynomials layout) \<and> length points = length layout \<and>
    (\<exists>claims. input_claims_from_partials env fc X partials s eta = Ok claims \<and> length claims = num_total_polynomials layout \<and>
       weighted_sum coefficients claims = claim)"
proof (intro conjI)
  from count have ps: "length partials = w * num_total_polynomials layout" "length partials \<le> usize_max" by (auto simp: checked_mul_eq_Some)
  have w0: "0 < w" using w by simp
  have "check_groups env fc s layout openings partials points 0 0 = Ok (length openings)"
  proof (rule check_groups_eq [where ls = layout])
    show "list_all2 (\<lambda>l point. length point = gl_num_vars l \<and> es_split_bits s \<le> length point) layout points"
      using honest unfolding openings_hold_def w(2) [symmetric] w(1) by (auto simp: s_def elim!: list_all2_mono)
    show "0 + sum_list (map gl_num_polynomials layout) = length openings" using layout_total [OF chk] nc by simp
  qed (use honest nc ps w0 w in \<open>simp_all add: openings_hold_def s_def mult.commute\<close>)
  then show "check_groups env fc s layout openings partials points 0 0 = Ok (num_total_polynomials layout)" by (simp add: nc)
  show "length points = length layout" using honest by (auto simp: openings_hold_def dest: list_all2_lengthD)
  have "length (chunks w partials) = length coefficients" using length_chunks [OF w0 ps(1)] cs by simp
  from claim_from_partials_Ok [OF this claim] obtain claims where "collect_results (column_claim env fc X eta) (chunks w partials) = Ok claims"
    "length claims = num_total_polynomials layout" "claim = weighted_sum coefficients claims" using cs \<open>length (chunks w partials) = length coefficients\<close> by auto
  then show "\<exists>claims. input_claims_from_partials env fc X partials s eta = Ok claims \<and> length claims = num_total_polynomials layout \<and>
       weighted_sum coefficients claims = claim"
    using ps w0 by (auto simp: s_def input_claims_from_partials_def is_multiple_of_dvd column_claim_def [abs_def])
qed

lemma opening_replay:
  fixes tr :: "('p, 'v, 'r, 's, 'f::comm_ring_1, 'e::comm_ring_1) transcript"
  assumes t: "transcript_pair_memory tr vw fc"
    and split: "tensor_opening_split fc = Ok (sb, w)" and mt: "checked_sub (max_num_vars layout) sb = Some mt" and deg: "1 < w"
    and nc: "length openings = num_total_polynomials layout" and count: "checked_mul w (num_total_polynomials layout) = Some (length partials)"
    and pre: "eor_prefix tr (prover_channel tr fc) (prover_side tr) fc layout openings partials lv g = (Ok px, g1)"
    and len: "length (ep_eta px) = sb" "length (ep_coefficients px) = num_total_polynomials layout"
    and claim: "claim_from_partials env fc X (ep_eta px) (zip (chunks w partials) (ep_coefficients px)) 0 = Ok claim"
    and shape: "shape_new mt EXTENSION_OPENING_REDUCTION_DEGREE = Ok shape"
    and sc: "prove_sumcheck P (eor_kernel P N U lease) (grinding_sumcheck_prover tr fc) (prover_channel tr fc) fc shape EOR_SUMCHECK_INVOCATION
       (\<lparr>ek_session = Some s, ek_claim = claim, ek_rounds = mt\<rparr>, eor_channel g1 lv) = (Ok (rho, out), k, c)"
    and fl: "length fcl = num_total_polynomials layout" "weighted_sum (ep_coefficients px) fcl = out"
    and outs: "prover_outputs env fc X arms sb (ep_eta px) rho inputs = Ok (factors, points)"
    and fin: "eor_final_claims (prover_channel tr fc) (prover_side tr) fc layout fcl lv (sumcheck_grinding c) = (Ok fcl, g')"
    and honest: "openings_hold env fc layout (map fst inputs) openings partials"
    and sync: "grinding_sync tr vw argument g h" and ext: "prefix (grinding_log tr g') argument"
  shows "\<exists>h'. verify_eor_sumcheck env P X tr fc (map fst inputs) openings layout True lv h =
      (Ok (Some \<lparr>sr_rho = rho, sr_final_claims = fcl, sr_final_factors = factors\<rparr>), h') \<and> grinding_sync tr vw argument g' h'"
proof -
  let ?nc = "num_total_polynomials layout" and ?ps = partials
  from eor_prefix_facts [OF pre] have px: "ep_partials px = ?ps" and chk: "layout_check layout = Ok ()" by auto
  from split have w: "w = 2 ^ sb" "w = ext_degree fc" by (simp_all add: tensor_opening_split_Ok)
  let ?s = "\<lparr>es_split_bits = sb, es_width = w, es_rounds = mt\<rparr>"
  have "sb \<noteq> 0" "\<not> w \<le> 1" using deg unfolding w(1) by (cases sb; simp)+
  with split mt chk count w have rs: "eor_reduction_shape fc layout = Ok ?s"
    by (auto simp: eor_reduction_shape_def canonical_reduction_rounds_def map_err_def trailing_zeros_power checked_sub_def checked_mul_if split: if_splits)
  have "k_input_claim (eor_kernel P N U lease) \<lparr>ek_session = Some s, ek_claim = claim, ek_rounds = mt\<rparr> = claim" by (simp add: eor_kernel_def)
  with replay_stream [OF t pre sc fin sync ext] fl(1) obtain h1 d h2 where
    h: "eor_prefix tr (verifier_channel tr fc) (verifier_side tr) fc layout openings (replicate (length ?ps) 0) lv h = (Ok px, h1)"
      "verify_sumcheck_rounds P tr (grinding_sumcheck_verifier tr fc) (verifier_channel tr fc) fc EOR_SUMCHECK_INVOCATION (claim) shape (eor_channel h1 lv) =
        (Ok \<lparr>output_claim = out, result_challenges = rho\<rparr>, d)"
      "eor_final_claims (verifier_channel tr fc) (verifier_side tr) fc layout (replicate ?nc 0) lv (sumcheck_grinding d) = (Ok fcl, h2)"
      "grinding_sync tr vw argument g' h2" by auto
  from replay_checks [OF w chk nc count len(2) claim honest, of mt] obtain claims where
    "check_groups env fc ?s layout openings ?ps (map fst inputs) 0 0 = Ok ?nc" "length inputs = length layout"
    "input_claims_from_partials env fc X ?ps ?s (ep_eta px) = Ok claims" "length claims = ?nc" "weighted_sum (ep_coefficients px) claims = claim" by auto
  note checks = this
  have vp: "verifier_prefix tr fc layout openings (length ?ps) sb lv h = (Ok px, h1)"
    using h(1) len(1) by (simp add: verifier_prefix_def transcript_pair_memory.slots_return [OF t])
  have vs: "verifier_sumcheck P tr fc (claim) mt lv h1 = (Ok \<lparr>output_claim = out, result_challenges = rho\<rparr>, sumcheck_grinding d)"
    using h(2) shape by (simp add: verifier_sumcheck_def)
  have vf: "verifier_final_claims tr fc layout lv (sumcheck_grinding d) = (Ok fcl, h2)"
    using h(3) by (simp add: verifier_final_claims_def transcript_pair_memory.slots_return [OF t])
  have "verify_eor_sumcheck_with_stream env P X tr fc (map fst inputs) openings layout ?s lv h =
      (Ok \<lparr>sr_rho = rho, sr_final_claims = fcl, sr_final_factors = factors\<rparr>, h2)"
    by (simp add: verify_eor_sumcheck_with_stream_def Let_def checks nc count len px fl prover_outputs_Ok [OF outs] vp vs vf)
  with rs h(4) show ?thesis by (simp add: verify_eor_sumcheck_def)
qed

end
