(* ===== verification/Opening_Protocol.thy ===== *)
theory Opening_Protocol
  imports Opening_Reduction_Correct Grinding_Replay_Correct
begin

text \<open>
  The extension-opening reduction over a sumcheck channel: the aggregate session of
  \<^verbatim>\<open>opaque/eor.rs\<close> as the kernel of the sumcheck driver.
\<close>

section \<open>The kernel over any serving channel\<close>

lemma eor_sumcheck_ends:
  fixes P :: "('u, 'z, 'o, 'e::comm_ring_1) poly_ops"
  assumes P: "poly_laws P" and N: "univariate_laws P N" and U: "unreduced_laws limit U"
    and prep: "groups_prepared claim_from_rows factor_at split_bits eta limit 0 ds" and all: "(\<Sum>(g, ws, f)\<leftarrow>ds. length ws) = total_polys"
    and begin_ok: "begin_eor claim_from_rows (Ok ()) split_bits total_polys max_num_vars (map fst ds) eta coefficients = Ok (claim, s)"
    and n: "max_num_vars - split_bits = n" "n \<le> u32_max"
    and serves: "channel_serves E sc ch fc ivk n EXTENSION_OPENING_REDUCTION_DEGREE C" and c: "C 0 c"
  shows "ends_in E (\<lambda>(rho, out) s1. length rho = n \<and> C n (snd s1) \<and>
      (\<exists>s'. fst s1 = \<lparr>ek_session = Some s', ek_claim = claim, ek_rounds = n\<rparr> \<and>
         finish_eor factor_at (Ok ()) s' = Ok (concat (map (group_values split_bits rho) ds))) \<and>
      out = (\<Sum>(v, w)\<leftarrow>zip (concat (map (group_values split_bits rho) ds)) coefficients. v * w))
    (prove_sumcheck P (eor_kernel P N U (Ok ())) sc ch fc \<lparr>shape_rounds = n, shape_degree = EXTENSION_OPENING_REDUCTION_DEGREE\<rparr> ivk
      (\<lparr>ek_session = Some s, ek_claim = claim, ek_rounds = n\<rparr>, c))"
proof -
  let ?T = "prepared_tables coefficients n split_bits 0 ds" and ?st = "(coefficients, map (\<lambda>(g, ws, f). drop split_bits (eg_point g)) ds, eta)"
  let ?k = "\<lparr>ek_session = Some s, ek_claim = claim, ek_rounds = n\<rparr>" and ?K = "eor_kernel P N U (Ok ())"
  note ready = begin_eor_ready [OF prep begin_ok, unfolded n(1)]
  from eor_kernel_honest [OF P N U n(2), of ?T ?st]
  have honest: "honest_kernel P ?K EXTENSION_OPENING_REDUCTION_DEGREE n (tables_value ?T) (eor_kernel_ready limit n ?T ?st) (eor_kernel_waits P limit n ?T ?st)" .
  have r0: "eor_kernel_ready limit n ?T ?st [] (fst (?k, c))" "C 0 (snd (?k, c))" using ready c by simp_all
  have claim: "claim = cube_sum (standard_weights n) (tables_value ?T) []" using ready by (simp add: eor_kernel_ready_def)
  have len: "(\<Sum>(g, ws, f)\<leftarrow>ds. length ws) = length coefficients" using ready all by simp
  have shapes: "\<forall>d \<in> set ds. group_shape n split_bits d" using ready by blast
  show ?thesis
  proof (rule ends_in_mono [OF honest_kernel.prove_sumcheck_ends [OF honest serves r0(2,1)]])
    fix v s1
    assume "(\<lambda>(cs, out) s'. out = tables_value ?T cs \<and> length cs = n \<and>
      (\<exists>k. eor_kernel_ready limit n ?T ?st cs k \<and> k_finish ?K k = (Ok (), fst s')) \<and> C n (snd s')) v s1"
    then obtain rho k where v: "v = (rho, tables_value ?T rho)" "length rho = n" "C n (snd s1)"
      and k: "eor_kernel_ready limit n ?T ?st rho k" "k_finish ?K k = (Ok (), fst s1)" by (cases v) auto
    from k(2) have fst: "fst s1 = k" by (simp add: eor_kernel_def)
    from k(1) obtain s' where s': "ek_session k = Some s'" "eor_ready limit n rho s'" "eor_tables (es_groups s') = map (map (bind_tables rho)) ?T"
      "eor_static s' = ?st" and k_eq: "ek_rounds k = n" "ek_claim k = cube_sum (standard_weights n) (tables_value ?T) []"
      by (auto simp: eor_kernel_ready_def)
    have "k = \<lparr>ek_session = Some s', ek_claim = claim, ek_rounds = n\<rparr>" using s'(1) k_eq claim by (cases k) simp
    with v fst finish_eor_eq [OF prep shapes s'(2) v(2) s'(3,4) len]
    show "(\<lambda>(rho, out) s1. length rho = n \<and> C n (snd s1) \<and>
      (\<exists>s'. fst s1 = \<lparr>ek_session = Some s', ek_claim = claim, ek_rounds = n\<rparr> \<and>
         finish_eor factor_at (Ok ()) s' = Ok (concat (map (group_values split_bits rho) ds))) \<and>
      out = (\<Sum>(v, w)\<leftarrow>zip (concat (map (group_values split_bits rho) ds)) coefficients. v * w)) v s1" by auto
  qed
qed

section \<open>A univariate type\<close>

definition sample_univariate :: "('e::comm_ring_1 list, 'e) univariate_ops" where
  "sample_univariate = \<lparr>uv_new = (\<lambda>cs. cs), uv_degree = (\<lambda>cs. length cs - 1), uv_coefficients = (\<lambda>cs. cs)\<rparr>"

lemma sample_univariate_laws: "univariate_laws list_poly_ops sample_univariate"
proof -
  have "length (case cs of [] \<Rightarrow> [] | c # cs' \<Rightarrow> c # drop (Suc 0) cs') < length cs" if "2 \<le> length cs" for cs :: "'a list"
    using that by (cases cs) auto
  moreover have "(case cs of [] \<Rightarrow> [] | c # cs' \<Rightarrow> c # drop (Suc 0) cs') \<noteq> []" if "2 \<le> length cs" for cs :: "'a list"
    using that by (cases cs) auto
  ultimately show ?thesis by (simp add: univariate_laws_def sample_univariate_def list_poly_ops_def)
qed

end
