(* ===== verification/Opening_Driver_Complete.thy ===== *)
theory Opening_Driver_Complete
  imports Opening_Driver_Correct Opening_Protocol
begin

text \<open>
  Completeness of the extension-opening reduction of one fold level.  What the CPU backend prepares
  from retained polynomials gives sessions over the tensor tables, whose begun claim is the weighted
  claim of the public partials; the stream of an honest run ends in the errors the transcript gives or
  returns; and the verifier accepts what was returned.  The preparation, the claims, the stream and the
  outputs are treated in turn, then the run, and last a run over an extension of degree two.
\<close>

section \<open>Preparation\<close>

lemma collect_results_append:
  "collect_results f (xs @ ys) = try_r (collect_results f xs) (\<lambda>as. try_r (collect_results f ys) (\<lambda>bs. Ok (as @ bs)))"
proof (induction xs)
  case Nil
  show ?case by (cases "collect_results f ys") simp_all
next
  case (Cons x xs)
  then show ?case by (cases "f x"; cases "collect_results f xs"; cases "collect_results f ys") simp_all
qed

text \<open>The packed witness exists where the column partials do.\<close>

lemma packed_of_columns:
  assumes "tensor_column_partials_from_base_evals env fc U X n base point = Ok cols"
  shows "\<exists>w. tensor_packed_witness_evals fc n base = Ok w \<and> length point = n \<and>
    (tensor_opening_split fc = Ok (sb, ext_degree fc) \<longrightarrow> length w = 2 ^ (n - sb) \<and> sb \<le> n)"
proof -
  from assms have "\<exists>w. tensor_packed_witness_evals fc n base = Ok w" "length point = n"
    by (auto simp: tensor_column_partials_from_base_evals_def tensor_packed_witness_evals_def try_r_eq_Inr split: if_splits)
  then obtain w where w: "tensor_packed_witness_evals fc n base = Ok w" "length point = n" by blast
  have "length w = 2 ^ (n - sb) \<and> sb \<le> n" if "tensor_opening_split fc = Ok (sb, ext_degree fc)"
    using w(1) that by (auto simp: tensor_packed_witness_evals_def try_r_eq_Inr tensor_opening_split_Ok power_diff split: if_splits dest!: reduction_table_len_Ok)
  with w show ?thesis by blast
qed

text \<open>The column partials of the polynomials of one source, in order.\<close>

definition source_columns ::
  "eq_env \<Rightarrow> ('f::comm_ring_1, 'e::comm_ring_1) field_codec \<Rightarrow> ('e, 'w) unreduced_ops \<Rightarrow> ('f, 'e, 'w) ext_ops \<Rightarrow> 'e list \<Rightarrow> 'f owned_polynomial \<Rightarrow> 'e list result" where
  "source_columns env fc U X point poly =
     try_r (op_source_coefficients poly) (\<lambda>base. tensor_column_partials_from_base_evals env fc U X (op_num_vars poly) base point)"

definition source_witness :: "('f::comm_ring_1, 'e) field_codec \<Rightarrow> 'f owned_polynomial \<Rightarrow> 'e list result" where
  "source_witness fc poly = try_r (op_source_coefficients poly) (tensor_packed_witness_evals fc (op_num_vars poly))"

lemma owned_extension_Ok:
  assumes "owned_extension env fc U X point polys = Ok (os, ps, rows)"
  shows "\<exists>colss. collect_results (source_columns env fc U X point) polys = Ok colss \<and> ps = concat colss \<and>
    collect_results (derive_tensor_extension_opening_claim_from_partials env fc point) colss = Ok os \<and>
    collect_results (tensor_row_partials_from_columns fc X) colss = Ok rows"
  using assms
proof (induction polys arbitrary: os ps rows)
  case (Cons poly polys)
  then obtain base cols o' r' os' ps' rows' where
    step: "op_source_coefficients poly = Ok base" "tensor_column_partials_from_base_evals env fc U X (op_num_vars poly) base point = Ok cols"
      "derive_tensor_extension_opening_claim_from_partials env fc point cols = Ok o'" "tensor_row_partials_from_columns fc X cols = Ok r'"
    and rest: "owned_extension env fc U X point polys = Ok (os', ps', rows')" and eq: "os = o' # os'" "ps = cols @ ps'" "rows = r' # rows'"
    by (auto simp: try_r_eq_Inr)
  from Cons.IH [OF rest] obtain colss where
    c: "collect_results (source_columns env fc U X point) polys = Ok colss" "ps' = concat colss"
      "collect_results (derive_tensor_extension_opening_claim_from_partials env fc point) colss = Ok os'"
      "collect_results (tensor_row_partials_from_columns fc X) colss = Ok rows'" by blast
  have "source_columns env fc U X point poly = Ok cols" using step(1,2) by (simp add: source_columns_def)
  with c step(3,4) eq show ?case by (intro exI [of _ "cols # colss"]) simp
qed simp

lemma columns_width: "tensor_row_partials_from_columns fc X cols = Ok rows \<Longrightarrow> length cols = ext_degree fc"
  by (auto simp: tensor_row_partials_from_columns_def try_r_eq_Inr tensor_opening_split_Ok split: if_splits)

lemma collect_results_set: "collect_results f xs = Ok ys \<Longrightarrow> x \<in> set xs \<Longrightarrow> \<exists>y. f x = Ok y"
  by (auto simp: collect_results_Inr_iff in_set_conv_nth)

lemma collect_results_length: "collect_results f xs = Ok ys \<Longrightarrow> length ys = length xs"
  by (simp add: collect_results_Inr_iff)

text \<open>The steps of the preparation of one group and the rest.\<close>

lemma prepare_groups_Cons:
  assumes "prepare_groups env fc U X layout sb index (rq # rqs) = Ok (os, ps, gs)"
  obtains l os1 colss rows os' ps' gs' where "layout_of_group layout index = Ok l" "length (rq_point rq) = gl_num_vars l" "sb \<le> length (rq_point rq)"
    "collect_results (source_columns env fc U X (rq_point rq)) (rq_polynomials rq) = Ok colss"
    "collect_results (derive_tensor_extension_opening_claim_from_partials env fc (rq_point rq)) colss = Ok os1"
    "collect_results (tensor_row_partials_from_columns fc X) colss = Ok rows"
    "length colss = gl_num_polynomials l" "prepare_groups env fc U X layout sb (index + 1) rqs = Ok (os', ps', gs')"
    "os = os1 @ os'" "ps = concat colss @ ps'" "gs = retained_group env fc U X layout index rq rows # gs'"
proof -
  from assms obtain l os1 ps1 rows os' ps' gs' where
    1: "layout_of_group layout index = Ok l" "length (rq_point rq) = gl_num_vars l" "sb \<le> length (rq_point rq)"
    and own: "owned_extension env fc U X (rq_point rq) (rq_polynomials rq) = Ok (os1, ps1, rows)" and n: "length rows = gl_num_polynomials l"
    and 2: "prepare_groups env fc U X layout sb (index + 1) rqs = Ok (os', ps', gs')"
      "os = os1 @ os'" "ps = ps1 @ ps'" "gs = retained_group env fc U X layout index rq rows # gs'"
    by (auto simp: try_r_eq_Inr split: if_splits)
  from owned_extension_Ok [OF own] obtain colss where
    c: "collect_results (source_columns env fc U X (rq_point rq)) (rq_polynomials rq) = Ok colss" "ps1 = concat colss"
      "collect_results (derive_tensor_extension_opening_claim_from_partials env fc (rq_point rq)) colss = Ok os1"
      "collect_results (tensor_row_partials_from_columns fc X) colss = Ok rows" by blast
  have "length colss = gl_num_polynomials l" using collect_results_length [OF c(4)] n by simp
  from that [OF 1 c(1,3,4) this 2(1,2)] 2(3,4) c(2) show thesis by simp
qed

text \<open>All claims of the groups in order.\<close>

lemma prepare_groups_claims:
  assumes "prepare_groups env fc U X layout sb index rqs = Ok (os, ps, gs)" and "drop index layout = ls" "length rqs = length ls"
  shows "\<exists>colss. ps = concat colss \<and> (\<forall>cols \<in> set colss. length cols = ext_degree fc) \<and> length colss = sum_list (map gl_num_polynomials ls) \<and>
    list_all2 (\<lambda>(point, cols) op. derive_tensor_extension_opening_claim_from_partials env fc point cols = Ok op)
      (zip (claim_points ls (map rq_point rqs)) colss) os \<and>
    collect_results (tensor_row_partials_from_columns fc X) colss = Ok (concat (map eg_rows gs)) \<and>
    list_all2 (\<lambda>l rq. length (rq_point rq) = gl_num_vars l \<and> sb \<le> length (rq_point rq)) ls rqs"
  using assms
proof (induction rqs arbitrary: index ls os ps gs)
  case (Cons rq rqs)
  from Cons.prems(1) show ?case
  proof (rule prepare_groups_Cons)
    fix l os1 colss1 rows os' ps' gs'
    assume l: "layout_of_group layout index = Ok l" and pt: "length (rq_point rq) = gl_num_vars l" "sb \<le> length (rq_point rq)"
      and der: "collect_results (derive_tensor_extension_opening_claim_from_partials env fc (rq_point rq)) colss1 = Ok os1"
      and rows: "collect_results (tensor_row_partials_from_columns fc X) colss1 = Ok rows" and n: "length colss1 = gl_num_polynomials l"
      and rest: "prepare_groups env fc U X layout sb (index + 1) rqs = Ok (os', ps', gs')"
      and eq: "os = os1 @ os'" "ps = concat colss1 @ ps'" "gs = retained_group env fc U X layout index rq rows # gs'"
    from Cons.prems(2,3) obtain ls' where ls: "ls = l # ls'" "drop (index + 1) layout = ls'" "length rqs = length ls'"
      using l by (cases ls) (auto simp: layout_of_group_def slice_nth_def ok_or_eq_Inr Cons_nth_drop_Suc [symmetric] split: if_splits)
    from Cons.IH [OF rest ls(2,3)] obtain colss where
      c: "ps' = concat colss" "\<forall>cols \<in> set colss. length cols = ext_degree fc" "length colss = sum_list (map gl_num_polynomials ls')"
        "list_all2 (\<lambda>(point, cols) op. derive_tensor_extension_opening_claim_from_partials env fc point cols = Ok op)
          (zip (claim_points ls' (map rq_point rqs)) colss) os'"
        "collect_results (tensor_row_partials_from_columns fc X) colss = Ok (concat (map eg_rows gs'))"
        "list_all2 (\<lambda>l rq. length (rq_point rq) = gl_num_vars l \<and> sb \<le> length (rq_point rq)) ls' rqs" by blast
    have w: "\<forall>cols \<in> set colss1. length cols = ext_degree fc" using collect_results_set [OF rows] columns_width by blast
    have "list_all2 (\<lambda>(point, cols) op. derive_tensor_extension_opening_claim_from_partials env fc point cols = Ok op)
        (zip (replicate (gl_num_polynomials l) (rq_point rq)) colss1) os1"
      using der n by (auto simp: collect_results_Inr_iff list_all2_conv_all_nth)
    from list_all2_appendI [OF this c(4)] c w n rows eq ls pt show ?thesis
      by (intro exI [of _ "colss1 @ colss"]) (auto simp: claim_points_def zip_append collect_results_append retained_group_def)
  qed
qed (auto simp: claim_points_def)

lemma fresh_session_total:
  assumes f: "length f = 2 ^ k" "\<forall>w \<in> set ws. length w = 2 ^ k" and ws: "ws \<noteq> []" "length cs = length ws" and r: "k + length extra < 64"
  shows "\<exists>s. witness_eor_session_from_witnesses (Ok f) ws cs extra claim = Ok s \<and> rp_num_rounds (os_prover s) = k + length extra \<and> os_num_terms s = length ws"
proof -
  let ?ts = "map2 reduction_term_new ws cs"
  have ne: "?ts \<noteq> []" using ws by (cases ws; cases cs) auto
  have pow: "(2 :: nat) ^ n \<le> usize_max" if "n < 64" for n
  proof -
    have "(2 :: nat) ^ n \<le> 2 ^ 63" using that by (intro power_increasing) simp_all
    then show ?thesis by (simp add: usize_max_def)
  qed
  have k2: "num_rounds_from_table_len (2 ^ n) = Ok n" for n by (simp add: num_rounds_Ok)
  have val: "validate_terms ts f = Ok ()" if "\<forall>t \<in> set ts. length (rt_witness t) = 2 ^ k" for ts
    using that f(1) by (induction ts) (simp_all add: validate_reduction_tables_def k2)
  have "\<forall>t \<in> set ?ts. length (rt_witness t) = 2 ^ k" using f(2) by (auto simp: reduction_term_new_def dest: set_zip_leftD)
  from val [OF this] have new: "reduction_group_new ?ts f = Ok \<lparr>rg_terms = ?ts, rg_factor = f, rg_extra_point = [], rg_extra_round = 0, rg_extra_factor_eval = 1\<rparr>"
    using ne by (simp add: reduction_group_new_def)
  have "k + length extra \<le> usize_max" using r by (simp add: usize_max_def)
  moreover have "(2::nat) ^ k * 2 ^ length extra mod 2 ^ 64 = 2 ^ (k + length extra)"
  proof -
    have "(2::nat) ^ (k + length extra) < 2 ^ 64" using r by (intro power_strict_increasing) simp_all
    then show ?thesis by (simp add: power_add)
  qed
  ultimately show ?thesis using ws new r pow [OF r] k2
    by (simp add: witness_eor_session_from_witnesses_def extend_cylindrically_def checked_add_if reduction_table_len_def pow2_eq
      witness_eor_session_def reduction_prover_new_def domain_len_def usize_checked_shl_def f(1) u32_max_def num_terms_def Let_def)
qed

text \<open>The claims the groups stand for: the products of their witness tables with their factor table.\<close>

definition group_products :: "('e::comm_ring_1, 'u) eor_group \<times> 'e list list \<times> 'e list \<Rightarrow> 'e list" where
  "group_products = (\<lambda>(g, ws, f). map (table_product f) ws)"

lemma begin_groups_total:
  fixes ds :: "(('e::comm_ring_1, 'u) eor_group \<times> 'e list list \<times> 'e list) list"
  assumes "groups_prepared claim_from_rows factor_at sb eta limit start ds" and "\<forall>d \<in> set ds. group_shape rounds sb d \<and> fst (snd d) \<noteq> []"
    and "start + (\<Sum>(g, ws, f)\<leftarrow>ds. length ws) \<le> length coefficients" and "rounds < 64"
  shows "\<exists>ss claims tails. begin_groups claim_from_rows sb rounds eta coefficients (map fst ds) = Ok (ss, claims, tails) \<and>
    sum_list claims = (\<Sum>(c, p)\<leftarrow>zip (drop start coefficients) (concat (map group_products ds)). c * p)"
  using assms
proof (induction ds arbitrary: start)
  case (Cons d ds)
  obtain g ws f where d: "d = (g, ws, f)" by (cases d)
  let ?cs = "take (length ws) (drop start coefficients)" and ?extra = "replicate (rounds - tail_len sb g) (0::'e)"
  let ?claim = "\<Sum>(c, w)\<leftarrow>zip ?cs ws. c * table_product f w"
  from Cons.prems(1) d have p: "group_prepared claim_from_rows factor_at sb eta limit start g ws f"
    "groups_prepared claim_from_rows factor_at sb eta limit (start + length ws) ds" by simp_all
  note pd = p(1) [unfolded group_prepared_def]
  from Cons.prems(2) d have sh: "sb \<le> length (eg_point g)" "tail_len sb g \<le> rounds" "length f = 2 ^ tail_len sb g"
    "\<forall>w \<in> set ws. length w = 2 ^ tail_len sb g" "ws \<noteq> []" by (auto simp: group_shape_def)
  have len: "start + length ws \<le> length coefficients" "start + length ws + (\<Sum>(g, ws, f)\<leftarrow>ds. length ws) \<le> length coefficients"
    using Cons.prems(3) d by auto
  have sl: "slice_range coefficients (start, start + length ws) = Some ?cs" using len by (simp add: slice_range_def drop_take)
  have wc: "weighted_claim (\<lambda>row. claim_from_rows row eta) (zip (eg_rows g) ?cs) 0 = Ok ?claim"
    using weighted_claim_eq [of "\<lambda>row. claim_from_rows row eta" "table_product f" "eg_rows g" ws ?cs 0] pd len by simp
  have "tail_len sb g + length ?extra < 64" "length ?cs = length ws" using sh(2) Cons.prems(4) len by simp_all
  from fresh_session_total [OF sh(3,4,5) this(2,1)] obtain s :: "('e, 'u) opening_session" where
    s: "witness_eor_session_from_witnesses (Ok f) ws ?cs ?extra ?claim = Ok s" "rp_num_rounds (os_prover s) = rounds" "os_num_terms s = length ws"
    using sh(2) by fastforce
  have "eg_begin g ?cs (drop sb (eg_point g)) eta ?extra ?claim = witness_eor_session_from_witnesses (Ok f) ws ?cs ?extra ?claim" using pd by simp
  then have bg: "eg_begin g ?cs (drop sb (eg_point g)) eta ?extra ?claim = Ok s" by (simp add: s(1))
  from Cons.IH [OF p(2) _ len(2) Cons.prems(4)] Cons.prems(2) obtain ss claims tails where
    ih: "begin_groups claim_from_rows sb rounds eta coefficients (map fst ds) = Ok (ss, claims, tails)"
      "sum_list claims = (\<Sum>(c, p)\<leftarrow>zip (drop (start + length ws) coefficients) (concat (map group_products ds)). c * p)" by auto
  have "(\<Sum>(c, p)\<leftarrow>zip (drop start coefficients) (concat (map group_products (d # ds))). c * p) = ?claim + sum_list claims"
    using ih(2) by (simp add: group_products_def d zip_append2 zip_map2 case_prod_unfold comp_def add.commute)
  moreover have "begin_groups claim_from_rows sb rounds eta coefficients (map fst (d # ds)) = Ok (s # ss, ?claim # claims, drop sb (eg_point g) # tails)"
    using pd sl wc sh bg s(2,3) ih(1) len(1) by (simp add: d checked_sub_def tail_len_def)
  ultimately show ?case by auto
qed simp

section \<open>Tables\<close>

text \<open>Every equality table of at most \<open>n\<close> variables fits the byte budget and is reserved.\<close>

definition tables_fit :: "eq_env \<Rightarrow> nat \<Rightarrow> bool" where
  "tables_fit env n \<longleftrightarrow> (\<forall>k \<le> n. table_fits env k \<and> can_reserve env (2 ^ k))"

lemma evals_mapped_total:
  assumes "tables_fit env n" "length r \<le> n"
  shows "\<exists>t. evals_mapped env r f = Ok t"
proof -
  have fits: "table_fits env k \<and> can_reserve env (2 ^ k)" if "k \<le> length r" for k using assms that by (auto simp: tables_fit_def)
  have "\<exists>t. evals_mapped_parallel_slabs env r f = Ok t"
    using fits by (auto simp: evals_mapped_parallel_slabs_def try_r_eq_Inr Let_def materialized_table_len_Ok evals_serial_Ok zero_vec_Ok)
  with fits show ?thesis by (auto simp: evals_mapped_def evals_serial_with_final_map_Ok eq_evals_Ok try_r_eq_Inr)
qed

lemma factor_evals_total:
  assumes "tables_fit env n" "length tail \<le> n" "length eta \<le> n" "tensor_opening_split fc = Ok (length eta, w)"
  shows "\<exists>f. tensor_equality_factor_evals env fc U X tail eta = Ok f"
proof -
  have "eq_evals env eta = Ok (eq_table 1 eta)" using assms(1,3) by (simp add: tables_fit_def eq_evals_Ok)
  moreover have "w = 2 ^ length eta" "ext_degree fc = w" using assms(4) by (simp_all add: tensor_opening_split_Ok)
  ultimately show ?thesis using evals_mapped_total [OF assms(1,2)] by (simp add: tensor_equality_factor_evals_def assms(4))
qed

section \<open>Prepared groups\<close>

lemma source_witness_session:
  assumes "collect_results (source_witness fc) polys = Ok ws" "tensor_equality_factor_evals env fc U X tail eta = Ok f"
  shows "owned_begin_eor env fc U X polys weights tail eta extra claim = witness_eor_session_from_witnesses (Ok f) ws weights extra claim"
  using assms by (simp add: owned_begin_eor_def source_witness_def [abs_def])

text \<open>The witness tables of one source, and the claims of its rows.\<close>

lemma source_tables:
  assumes laws: "ext_laws limit fc U X" "unreduced_laws limit U" "ext_degree fc \<le> limit" "2 ^ (length point - sb) \<le> 2 * limit"
    and split: "tensor_opening_split fc = Ok (sb, ext_degree fc)" and eta: "length eta = sb"
    and f: "tensor_equality_factor_evals env fc U X (drop sb point) eta = Ok f"
    and cols: "collect_results (source_columns env fc U X point) polys = Ok colss"
    and rows: "collect_results (tensor_row_partials_from_columns fc X) colss = Ok rows"
  shows "\<exists>ws. collect_results (source_witness fc) polys = Ok ws \<and> length ws = length polys \<and> (\<forall>w \<in> set ws. length w = 2 ^ (length point - sb)) \<and>
    list_all2 (\<lambda>row w. tensor_reduction_claim_from_rows env fc row eta = Ok (table_product f w)) rows ws"
  using cols rows
proof (induction polys arbitrary: colss rows)
  case (Cons poly polys)
  from Cons.prems obtain c cs r rs where c: "source_columns env fc U X point poly = Ok c" "collect_results (source_columns env fc U X point) polys = Ok cs"
    "colss = c # cs" and r: "tensor_row_partials_from_columns fc X c = Ok r" "collect_results (tensor_row_partials_from_columns fc X) cs = Ok rs" "rows = r # rs"
    by (auto simp: try_r_eq_Inr)
  from Cons.IH [OF c(2) r(2)] obtain ws where ih: "collect_results (source_witness fc) polys = Ok ws" "length ws = length polys"
    "\<forall>w \<in> set ws. length w = 2 ^ (length point - sb)" "list_all2 (\<lambda>row w. tensor_reduction_claim_from_rows env fc row eta = Ok (table_product f w)) rs ws" by blast
  from c(1) obtain base where base: "op_source_coefficients poly = Ok base" "tensor_column_partials_from_base_evals env fc U X (op_num_vars poly) base point = Ok c"
    by (auto simp: source_columns_def try_r_eq_Inr)
  from packed_of_columns [OF base(2), of sb] split obtain w where
    w: "tensor_packed_witness_evals fc (op_num_vars poly) base = Ok w" "length w = 2 ^ (length point - sb)" by auto
  have "length w \<le> 2 * limit" "tensor_equality_factor_evals env fc U X (drop (length eta) point) eta = Ok f" using w(2) laws(4) f eta by simp_all
  from tensor_claims [OF laws(1-3) this(1) base(2) w(1) this(2)] r(1)
  have "tensor_reduction_claim_from_rows env fc r eta = Ok (table_product f w)" by auto
  moreover have "source_witness fc poly = Ok w" using base(1) w(1) by (simp add: source_witness_def)
  ultimately show ?case using ih w(2) r(3) by (intro exI [of _ "w # ws"]) simp
qed simp

text \<open>The groups of a preparation, with the tables their sessions run on.\<close>

definition tables_of_request ::
  "eq_env \<Rightarrow> ('f::comm_ring_1, 'e::comm_ring_1) field_codec \<Rightarrow> ('e, 'w) unreduced_ops \<Rightarrow> ('f, 'e, 'w) ext_ops \<Rightarrow> nat \<Rightarrow> 'e list \<Rightarrow> ('f, 'e) eor_request \<Rightarrow>
   ('e, 'u) eor_group \<times> 'e list list \<times> 'e list \<Rightarrow> bool" where
  "tables_of_request env fc U X sb eta rq = (\<lambda>(g, ws, f). eg_point g = rq_point rq \<and> collect_results (source_witness fc) (rq_polynomials rq) = Ok ws \<and>
     tensor_equality_factor_evals env fc U X (drop sb (rq_point rq)) eta = Ok f)"

lemma range_of_group:
  assumes chk: "layout_check layout = Ok ()" and ls: "drop index layout = l # ls"
  shows "root_group_claim_range layout index =
    Ok (sum_list (map gl_num_polynomials (take index layout)), sum_list (map gl_num_polynomials (take index layout)) + gl_num_polynomials l)"
proof -
  have i: "index < length layout" "layout ! index = l" using ls by (metis drop_eq_Nil list.distinct(1) not_le, metis nth_via_drop)
  have "layout = take index layout @ l # ls" using ls by (metis append_take_drop_id)
  then have "sum_list (map gl_num_polynomials layout) = sum_list (map gl_num_polynomials (take index layout)) + gl_num_polynomials l + sum_list (map gl_num_polynomials ls)"
    by (metis (no_types, lifting) add.assoc list.simps(9) map_append sum_list.Cons sum_list_append)
  then have "sum_list (map gl_num_polynomials (take index layout)) + gl_num_polynomials l \<le> usize_max" using layout_total [OF chk] by simp
  then show ?thesis using chk i by (simp add: root_group_claim_range_def sum_checked_eq checked_add_if)
qed

lemma group_nonempty: "layout_check layout = Ok () \<Longrightarrow> l \<in> set layout \<Longrightarrow> 0 < gl_num_polynomials l"
proof -
  have "validate_groups ls = Ok () \<Longrightarrow> l \<in> set ls \<Longrightarrow> 0 < gl_num_polynomials l" for ls
    by (induction ls) (auto simp: try_r_eq_Inr group_validate_def split: if_splits)
  then show "layout_check layout = Ok () \<Longrightarrow> l \<in> set layout \<Longrightarrow> 0 < gl_num_polynomials l"
    by (auto simp: layout_check_def try_r_eq_Inr split: if_splits)
qed

lemma rows_products:
  "list_all2 (\<lambda>row w. claim row = Ok (table_product f w)) rows ws \<Longrightarrow> collect_results claim rows = Ok (group_products (g, ws, f))"
  by (auto simp: collect_results_Inr_iff group_products_def list_all2_conv_all_nth)

lemma prepared_groups:
  fixes gs :: "('e::comm_ring_1, 'u) eor_group list"
  assumes laws: "ext_laws limit fc U X" "unreduced_laws limit U" "ext_degree fc \<le> limit" "2 ^ rounds \<le> 2 * limit"
    and split: "tensor_opening_split fc = Ok (sb, ext_degree fc)" and eta: "length eta = sb"
    and fit: "tables_fit env (max rounds sb)" and chk: "layout_check layout = Ok ()" and arity: "\<forall>l \<in> set layout. gl_num_vars l - sb \<le> rounds"
    and prep: "prepare_groups env fc U X layout sb index rqs = Ok (os, ps, gs)" and "drop index layout = ls" "length rqs = length ls"
  shows "\<exists>ds. map fst ds = gs \<and> list_all2 (tables_of_request env fc U X sb eta) rqs ds \<and>
    groups_prepared (tensor_reduction_claim_from_rows env fc) (tensor_equality_factor_eval_at_point env fc X) sb eta limit
      (sum_list (map gl_num_polynomials (take index layout))) ds \<and>
    (\<forall>d \<in> set ds. group_shape rounds sb d \<and> fst (snd d) \<noteq> []) \<and> (\<Sum>(g, ws, f)\<leftarrow>ds. length ws) = sum_list (map gl_num_polynomials ls) \<and>
    collect_results (\<lambda>row. tensor_reduction_claim_from_rows env fc row eta) (concat (map eg_rows gs)) = Ok (concat (map group_products ds))"
  using prep assms(11,12)
proof (induction rqs arbitrary: index ls os ps gs)
  case (Cons rq rqs)
  let ?start = "sum_list (map gl_num_polynomials (take index layout))"
  from Cons.prems(1) show ?case
  proof (rule prepare_groups_Cons)
    fix l os1 colss rows os' ps' gs'
    assume l: "layout_of_group layout index = Ok l" and pt: "length (rq_point rq) = gl_num_vars l" "sb \<le> length (rq_point rq)"
      and cols: "collect_results (source_columns env fc U X (rq_point rq)) (rq_polynomials rq) = Ok colss"
      and rows: "collect_results (tensor_row_partials_from_columns fc X) colss = Ok rows" and n: "length colss = gl_num_polynomials l"
      and rest: "prepare_groups env fc U X layout sb (index + 1) rqs = Ok (os', ps', gs')"
      and gs: "gs = retained_group env fc U X layout index rq rows # gs'"
    from Cons.prems(2,3) obtain ls' where ls: "drop index layout = l # ls'" "ls = l # ls'" "drop (index + 1) layout = ls'" "length rqs = length ls'"
      using l by (cases ls) (auto simp: layout_of_group_def slice_nth_def ok_or_eq_Inr Cons_nth_drop_Suc [symmetric] split: if_splits)
    have l_in: "l \<in> set layout" using ls(1) by (metis in_set_dropD list.set_intros(1))
    have "index < length layout" "layout ! index = l" using ls(1) by (metis drop_eq_Nil list.distinct(1) not_le, metis nth_via_drop)
    then have "take (index + 1) layout = take index layout @ [l]" by (simp add: take_Suc_conv_app_nth)
    then have nxt: "sum_list (map gl_num_polynomials (take (index + 1) layout)) = ?start + gl_num_polynomials l" by simp
    let ?p = "rq_point rq" and ?g = "retained_group env fc U X layout index rq rows :: ('e, 'u) eor_group"
    have tail: "length ?p - sb \<le> rounds" using arity l_in pt(1) by auto
    have lim: "(2::nat) ^ (length ?p - sb) \<le> 2 * limit" using power_increasing [OF tail, of "2::nat"] laws(4) by (meson le_trans one_le_numeral)
    have "length (drop sb ?p) \<le> max rounds sb" "length eta \<le> max rounds sb" "tensor_opening_split fc = Ok (length eta, ext_degree fc)"
      using tail eta split by simp_all
    from factor_evals_total [OF fit this] obtain f where f: "tensor_equality_factor_evals env fc U X (drop sb ?p) eta = Ok f" by blast
    have c: "coordinates limit fc U X" by unfold_locales (rule laws(1))
    from source_tables [OF laws(1-3) lim split eta f cols rows] obtain ws where
      ws: "collect_results (source_witness fc) (rq_polynomials rq) = Ok ws" "length ws = length (rq_polynomials rq)"
        "\<forall>w \<in> set ws. length w = 2 ^ (length ?p - sb)"
        "list_all2 (\<lambda>row w. tensor_reduction_claim_from_rows env fc row eta = Ok (table_product f w)) rows ws" by blast
    have lw: "length ws = gl_num_polynomials l" using ws(2) n collect_results_length [OF cols] by simp
    have lf: "length f = 2 ^ (length ?p - sb)" using coordinates.factor_evals_Ok [OF c f laws(3)] by simp
    have bg: "(owned_begin_eor env fc U X (rq_polynomials rq) weights (drop sb ?p) eta extra claim :: ('e, 'u) opening_session result) =
        witness_eor_session_from_witnesses (Ok f) ws weights extra claim" for weights extra claim by (rule source_witness_session [OF ws(1) f])
    have p: "group_prepared (tensor_reduction_claim_from_rows env fc) (tensor_equality_factor_eval_at_point env fc X) sb eta limit ?start ?g ws f"
      using range_of_group [OF chk ls(1)] lw lf lim ws(4) bg coordinates.factor_at_point [OF c f laws(3)]
      by (simp add: group_prepared_def retained_group_def tail_len_def)
    have sh: "group_shape rounds sb (?g, ws, f)" using pt(2) tail lf ws(3) by (simp add: group_shape_def retained_group_def tail_len_def)
    have tables: "tables_of_request env fc U X sb eta rq (?g, ws, f)" using ws(1) f by (simp add: tables_of_request_def retained_group_def)
    have ne: "ws \<noteq> []" using group_nonempty [OF chk l_in] lw by auto
    from Cons.IH [OF rest ls(3,4)] obtain ds where
      ds: "map fst ds = gs'" "list_all2 (tables_of_request env fc U X sb eta) rqs ds" "groups_prepared (tensor_reduction_claim_from_rows env fc) (tensor_equality_factor_eval_at_point env fc X) sb eta limit
          (?start + length ws) ds" "\<forall>d \<in> set ds. group_shape rounds sb d \<and> fst (snd d) \<noteq> []"
        "(\<Sum>(g, ws, f)\<leftarrow>ds. length ws) = sum_list (map gl_num_polynomials ls')"
        "collect_results (\<lambda>row. tensor_reduction_claim_from_rows env fc row eta) (concat (map eg_rows gs')) = Ok (concat (map group_products ds))"
      unfolding nxt lw by blast
    show ?thesis
      using ds p sh ne lw ls(2) gs tables rows_products [OF ws(4), of ?g]
      by (intro exI [of _ "(?g, ws, f) # ds"]) (simp add: collect_results_append, simp add: retained_group_def)
  qed
qed auto

section \<open>The begun claim\<close>

lemma weighted_sum_zip: "weighted_sum cs ps = (\<Sum>(c, p)\<leftarrow>zip cs ps. c * p)"
proof -
  have "foldl (\<lambda>acc (c, p). acc + c * p) a zs = a + (\<Sum>(c, p)\<leftarrow>zs. c * p)" for a and zs :: "('a \<times> 'a) list"
    by (induction zs arbitrary: a) (auto simp: add.assoc)
  then show ?thesis by (simp add: weighted_sum_def)
qed

lemma begin_total:
  fixes ds :: "(('e::comm_ring_1, 'u) eor_group \<times> 'e list list \<times> 'e list) list"
  assumes prep: "groups_prepared claim_from_rows factor_at sb eta limit 0 ds" and sh: "\<forall>d \<in> set ds. group_shape (mv - sb) sb d \<and> fst (snd d) \<noteq> []"
    and len: "(\<Sum>(g, ws, f)\<leftarrow>ds. length ws) = n" "length coefficients = n" "length eta = sb" and mv: "sb \<le> mv" "mv - sb < 64"
  shows "\<exists>s. begin_eor claim_from_rows (Ok ()) sb n mv (map fst ds) eta coefficients =
    Ok (weighted_sum coefficients (concat (map group_products ds)), s :: ('e, 'u) eor_session)"
proof -
  have sum: "foldl (+) a xs = a + sum_list xs" for a and xs :: "'e list" by (induction xs arbitrary: a) (simp_all add: add.assoc)
  have "0 + (\<Sum>(g, ws, f)\<leftarrow>ds. length ws) \<le> length coefficients" using len by simp
  from begin_groups_total [OF prep sh this mv(2)] obtain ss claims tails where
    "begin_groups claim_from_rows sb (mv - sb) eta coefficients (map fst ds) = Ok (ss, claims, tails)"
    "sum_list claims = weighted_sum coefficients (concat (map group_products ds))" by (auto simp: weighted_sum_zip)
  then show ?thesis using len mv by (simp add: begin_eor_def checked_sub_def Let_def sum)
qed

lemma column_claims:
  assumes "collect_results (tensor_row_partials_from_columns fc X) colss = Ok rows"
    and "collect_results (\<lambda>row. tensor_reduction_claim_from_rows env fc row eta) rows = Ok ps"
  shows "collect_results (column_claim env fc X eta) colss = Ok ps"
  using assms by (auto simp: collect_results_Inr_iff column_claim_def)

lemma claim_from_partials_total:
  "collect_results (column_claim env fc X eta) colss = Ok ps \<Longrightarrow> length colss = length cs \<Longrightarrow>
    claim_from_partials env fc X eta (zip colss cs) acc = Ok (acc + weighted_sum cs ps)"
proof (induction colss arbitrary: cs ps acc)
  case (Cons col colss)
  then obtain p ps' c cs' where "column_claim env fc X eta col = Ok p" "collect_results (column_claim env fc X eta) colss = Ok ps'" "ps = p # ps'"
    "cs = c # cs'" by (cases cs) (auto simp: try_r_eq_Inr)
  with Cons show ?case by (auto simp: column_claim_def try_r_eq_Inr weighted_sum_zip add.assoc)
qed (simp add: weighted_sum_zip)

lemma chunks_concat: "0 < w \<Longrightarrow> \<forall>c \<in> set cs. length c = w \<Longrightarrow> chunks w (concat cs) = cs"
proof (induction cs)
  case (Cons c cs)
  then have "c @ concat cs \<noteq> []" by (cases c) auto
  with Cons show ?case by (subst chunks.simps) auto
qed (simp add: chunks.simps)

lemma columns_of_concat: "\<forall>c \<in> set cs. length c = w \<Longrightarrow> i < length cs \<Longrightarrow> claim_columns w (concat cs) i = cs ! i"
proof (induction cs arbitrary: i)
  case (Cons c cs)
  then show ?case by (cases i) (simp_all add: claim_columns_def)
qed simp

lemma prepared_openings_hold:
  assumes w: "\<forall>cols \<in> set colss. length cols = ext_degree fc" "length colss = sum_list (map gl_num_polynomials ls)"
    and op: "list_all2 (\<lambda>(point, cols) op. derive_tensor_extension_opening_claim_from_partials env fc point cols = Ok op)
      (zip (claim_points ls points) colss) os"
    and pts: "list_all2 (\<lambda>l point. length point = gl_num_vars l \<and> sb \<le> length point) ls points" and sb: "ext_degree fc = 2 ^ sb"
  shows "openings_hold env fc ls points os (concat colss) \<and> length os = length colss"
proof -
  have "length (claim_points ls points) = length colss" using length_claim_points [OF list_all2_lengthD [OF pts]] w(2) by simp
  with op have len: "length os = length colss" by (auto dest: list_all2_lengthD)
  with op \<open>length (claim_points ls points) = length colss\<close>
  have "derive_tensor_extension_opening_claim_from_partials env fc (claim_points ls points ! i) (claim_columns (ext_degree fc) (concat colss) i) = Ok (os ! i)"
    if "i < length os" for i using that by (auto simp: list_all2_conv_all_nth columns_of_concat [OF w(1)])
  moreover have "list_all2 (\<lambda>l point. length point = gl_num_vars l \<and> ext_degree fc \<le> 2 ^ length point) ls points"
    using pts unfolding sb by (auto elim!: list_all2_mono intro!: power_increasing)
  ultimately show ?thesis using len by (simp add: openings_hold_def)
qed

section \<open>The stream of an honest run\<close>

text \<open>The sites of the plan the reduction consumes, in order.\<close>

definition eor_work_sites :: "opening_layout \<Rightarrow> u32 \<Rightarrow> nat \<Rightarrow> grinding_site list" where
  "eor_work_sites layout lv rounds =
     [ExtensionOpeningPoint lv] @ (if requires_row_batch_challenge layout then [ExtensionOpeningClaimBatch lv] else []) @
     map (\<lambda>j. SumcheckRound ExtensionOpeningReduction lv 0 (of_nat j)) [0..<rounds]"

lemma group_record_total:
  assumes "k * ext_degree fc * num_bytes fc \<le> usize_max" "field_laws fc"
  shows "\<exists>r. group_record site kind (checked_mul k (ext_degree fc)) (num_bytes fc) = Ok r"
proof -
  have pos: "0 < num_bytes fc" using assms(2) by (simp add: field_laws_def)
  then have "k * ext_degree fc \<le> k * ext_degree fc * num_bytes fc" by simp
  then have "k * ext_degree fc \<le> usize_max" using assms(1) le_trans by blast
  with group_record_Ok [OF assms(1) pos] show ?thesis by (simp add: checked_mul_if)
qed

lemma layout_nonempty: "layout_check layout = Ok () \<Longrightarrow> 0 < num_total_polynomials layout"
  using layout_total [of layout]
  by (auto simp: layout_check_def checked_num_total_polynomials_def try_r_eq_Inr ok_or_eq_Inr sum_checked_eq gr0_conv_Suc simp del: sum_list_eq_0_iff
      split: if_splits dest: not0_implies_Suc)

context transcript_pair_memory
begin

lemma public_ends:
  assumes "length xs * ext_degree fc * num_bytes fc \<le> usize_max"
  shows "ends_in E (\<lambda>_ g'. work_scheduled sites g' = work_scheduled sites g) (on_side_unit (prover_side tr) (public_extensions (prover_channel tr fc) fc site xs) g)"
proof -
  obtain r where "group_record site PublicValue (checked_mul (length xs) (ext_degree fc)) (num_bytes fc) = Ok r"
    using group_record_total [OF assms field_side] by blast
  then show ?thesis by (simp add: on_side_unit_def prover_side_def on_prover_def public_extensions_def guard_def)
qed

lemma exchange_ends:
  assumes "length xs * ext_degree fc * num_bytes fc \<le> usize_max"
  shows "ends_in E (\<lambda>ys g'. ys = xs \<and> work_scheduled sites g' = work_scheduled sites g)
    (on_side (prover_side tr) (exchange_extension_group (prover_channel tr fc) fc site xs) g)"
proof -
  obtain r where "group_record site ProofAtoms (checked_mul (length xs) (ext_degree fc)) (num_bytes fc) = Ok r"
    using group_record_total [OF assms field_side] by blast
  then show ?thesis by (simp add: prover_side_def on_prover_def exchange_extension_group_def guard_def prover_channel_def prover_exchange_def)
qed

lemma batch_ends:
  assumes laws: "search_laws tr vw" and g: "work_scheduled (eor_work_sites layout lv rounds) g" and n: "0 < num_total_polynomials layout"
  shows "ends_in (search_errors vw) (\<lambda>(eta, cs) g'. length eta = sb \<and> length cs = num_total_polynomials layout \<and>
      work_scheduled (map (\<lambda>j. SumcheckRound ExtensionOpeningReduction lv 0 (of_nat j)) [0..<rounds]) g')
    (batch_challenges layout lv sb (grinded_ext_challenges tr (prover_channel tr fc) (prover_side tr)) g)"
proof -
  let ?rounds = "map (\<lambda>j. SumcheckRound ExtensionOpeningReduction lv 0 (of_nat j)) [0..<rounds]"
  let ?rest = "(if requires_row_batch_challenge layout then [ExtensionOpeningClaimBatch lv] else []) @ ?rounds"
  let ?draw = "grinded_ext_challenges tr (prover_channel tr fc) (prover_side tr)"
  from g have "work_scheduled (ExtensionOpeningPoint lv # ?rest) g" by (simp add: eor_work_sites_def)
  note point = draw_ends [OF laws this, of sb, simplified]
  have "ends_in (search_errors vw) (\<lambda>cs g'. length cs = num_total_polynomials layout \<and> work_scheduled ?rounds g')
      (if requires_row_batch_challenge layout then ?draw (ExtensionOpeningClaimBatch lv) (num_total_polynomials layout) g' else (Ok [1], g'))"
    if "work_scheduled ?rest g'" for g'
    using draw_ends [OF laws, of "ExtensionOpeningClaimBatch lv" ?rounds g' "num_total_polynomials layout"] that n
    by (auto simp: requires_row_batch_challenge_def)
  then show ?thesis unfolding batch_challenges_def
    by (intro ends_in_bind [OF point] ends_in_bind [where Q = "\<lambda>cs g'. length cs = num_total_polynomials layout \<and> work_scheduled ?rounds g'"]) auto
qed

lemma eor_prefix_ends:
  assumes laws: "search_laws tr vw" and g: "work_scheduled (eor_work_sites layout lv rounds) g" and chk: "layout_check layout = Ok ()"
    and split: "tensor_opening_split fc = Ok (sb, w)" and len: "length openings = num_total_polynomials layout" "length partials = w * length openings"
    and fits: "length partials * ext_degree fc * num_bytes fc \<le> usize_max"
  shows "ends_in (search_errors vw) (\<lambda>px g'. ep_partials px = partials \<and> length (ep_eta px) = sb \<and>
      length (ep_coefficients px) = num_total_polynomials layout \<and>
      work_scheduled (map (\<lambda>j. SumcheckRound ExtensionOpeningReduction lv 0 (of_nat j)) [0..<rounds]) g')
    (eor_prefix tr (prover_channel tr fc) (prover_side tr) fc layout openings partials lv g)"
proof -
  have w: "w = ext_degree fc" "w = 2 ^ sb" using split by (simp_all add: tensor_opening_split_Ok)
  have pos: "0 < num_bytes fc" "0 < ext_degree fc" using field_side by (simp_all add: field_laws_def)
  have "length openings * 1 \<le> w * length openings" using w(2) by simp
  then have le: "length openings \<le> length partials" using len(2) by simp
  then have o: "length openings * ext_degree fc * num_bytes fc \<le> usize_max" using fits by (meson le_trans mult_le_mono1)
  have "length partials * 1 \<le> length partials * (ext_degree fc * num_bytes fc)" using pos by (intro mult_le_mono2) simp
  then have max: "length partials \<le> usize_max" using fits unfolding mult.assoc mult_1_right by (rule le_trans)
  have "w * 1 \<le> w * num_total_polynomials layout" using layout_nonempty [OF chk] by (intro mult_le_mono2) simp
  then have "w \<le> usize_max" using max len unfolding mult_1_right by (metis le_trans)
  with max have "Checked_Arith.product [w, num_total_polynomials layout] = Some (length partials)" using len by (simp add: Checked_Arith.product_def checked_mul_if)
  with chk split len have shape: "validate_shape fc layout openings (length partials) = Ok (sb, num_total_polynomials layout)"
    by (simp add: validate_shape_def Let_def)
  show ?thesis unfolding eor_prefix_def shape st_bind_simps prod.case
    apply (rule ends_in_bind [OF public_ends [OF o, where sites = "eor_work_sites layout lv rounds"]])
    apply (rule ends_in_bind [OF exchange_ends [OF fits, where sites = "eor_work_sites layout lv rounds"]])
    apply (rule ends_in_bind [OF batch_ends [OF laws _ layout_nonempty [OF chk], where sb = sb and rounds = rounds]])
    using g by (auto split: prod.splits)
qed

end

section \<open>The outputs\<close>

text \<open>The ring dimension of a group is dispatched, and its point covers the packed inner coordinates.\<close>

definition dimension_fits :: "('f, 'e) field_codec \<Rightarrow> nat list \<Rightarrow> 'e list \<times> nat \<Rightarrow> bool" where
  "dimension_fits fc arms = (\<lambda>(point, d). d \<in> set arms \<and> is_power_of_two d \<and> ext_degree fc dvd d \<and> d \<le> 2 ^ length point)"

lemma protocol_point_total:
  assumes split: "tensor_opening_split fc = Ok (sb, w)" and d: "dimension_fits fc arms (point, d)" and n: "length rho = length point - sb" "1 < w"
  shows "\<exists>p. dispatch_ring_dim arms d (\<lambda>D. ring_subfield_packed_extension_opening_point fc D (length rho) rho) = Ok p"
proof -
  have w: "ext_degree fc = 2 ^ sb" "ext_degree fc \<noteq> 1" using split n(2) by (simp_all add: tensor_opening_split_Ok)
  from d obtain a where a: "d = 2 ^ a" "d \<in> set arms" "(2::nat) ^ sb dvd 2 ^ a" "(2::nat) ^ a \<le> 2 ^ length point" using w
    by (auto simp: dimension_fits_def is_power_of_two_iff)
  then have "sb \<le> a" "a \<le> length point" using power_dvd_imp_le [of "2::nat" sb a] by auto
  then show ?thesis using a w n
    by (simp add: dispatch_ring_dim_def ring_subfield_packed_extension_opening_point_def Let_def is_power_of_two_iff is_multiple_of_dvd
        trailing_zeros_power checked_sub_def le_imp_power_dvd)
qed

lemma prover_outputs_total:
  assumes laws: "ext_laws limit fc U X" "ext_degree fc \<le> limit" and split: "tensor_opening_split fc = Ok (sb, w)" and w: "1 < w"
    and eta: "length eta = sb" and fit: "tables_fit env (max (length rho) sb)"
  shows "\<forall>(point, d) \<in> set inputs. sb \<le> length point \<and> length point - sb \<le> length rho \<and> dimension_fits fc arms (point, d) \<Longrightarrow>
    \<exists>out. prover_outputs env fc X arms sb eta rho inputs = Ok out"
proof (induction inputs)
  case (Cons a inputs)
  obtain point d where a: "a = (point, d)" by (cases a)
  from Cons.prems a have p: "sb \<le> length point" "length point - sb \<le> length rho" "dimension_fits fc arms (point, d)" by auto
  let ?tail = "drop sb point" and ?local = "take (length point - sb) rho"
  have "length ?tail \<le> max (length rho) sb" "length eta \<le> max (length rho) sb" "tensor_opening_split fc = Ok (length eta, w)" using p(2) eta split by simp_all
  from factor_evals_total [OF fit this] obtain f where f: "tensor_equality_factor_evals env fc U X ?tail eta = Ok f" by blast
  have c: "coordinates limit fc U X" by unfold_locales (rule laws(1))
  have len: "length ?local = length ?tail" "length ?local = length point - sb" using p(2) by simp_all
  note at = coordinates.factor_at_point [OF c f laws(2) len(1)]
  from protocol_point_total [OF split p(3) len(2) w] obtain pp where
    pp: "dispatch_ring_dim arms d (\<lambda>D. ring_subfield_packed_extension_opening_point fc D (length ?local) ?local) = Ok pp" by blast
  from Cons obtain fs ps where rest: "prover_outputs env fc X arms sb eta rho inputs = Ok (fs, ps)" by fastforce
  from at p pp rest show ?case by (simp add: a group_factor_def Let_def)
qed simp

section \<open>The honest run\<close>

text \<open>
  The values a reduction opens: per claim, the multilinear extension of the packed witness at the
  group's challenges, times the factor of the group.
\<close>

definition opened_values :: "('f::comm_ring_1, 'e::comm_ring_1) field_codec \<Rightarrow> nat \<Rightarrow> ('f, 'e) eor_request list \<Rightarrow> 'e list \<Rightarrow> 'e list \<Rightarrow> 'e list" where
  "opened_values fc sb rqs rho factors = concat (map2 (\<lambda>rq factor.
     case collect_results (source_witness fc) (rq_polynomials rq) of
       Inl _ \<Rightarrow> []
     | Inr ws \<Rightarrow> map (\<lambda>w. mle_sum w (take (length (rq_point rq) - sb) rho) * factor) ws) rqs factors)"

lemma group_values_opened:
  assumes laws: "ext_laws limit fc U X" "ext_degree fc \<le> limit"
    and "list_all2 (tables_of_request env fc U X sb eta) rqs ds"
    and "collect_results (group_factor env fc X e1 e2 sb eta rho) (map rq_point rqs) = Ok factors"
  shows "concat (map (group_values sb rho) ds) = opened_values fc sb rqs rho factors"
  using assms(3,4)
proof (induction rqs ds arbitrary: factors rule: list_all2_induct)
  case (Cons rq rqs d ds)
  obtain g ws f where d: "d = (g, ws, f)" by (cases d)
  from Cons.hyps d have t: "eg_point g = rq_point rq" "collect_results (source_witness fc) (rq_polynomials rq) = Ok ws"
    "tensor_equality_factor_evals env fc U X (drop sb (rq_point rq)) eta = Ok f" by (auto simp: tables_of_request_def)
  from Cons.prems obtain x xs where x: "group_factor env fc X e1 e2 sb eta rho (rq_point rq) = Ok x"
    "collect_results (group_factor env fc X e1 e2 sb eta rho) (map rq_point rqs) = Ok xs" "factors = x # xs" by (auto simp: try_r_eq_Inr)
  let ?k = "length (rq_point rq) - sb"
  have c: "coordinates limit fc U X" by unfold_locales (rule laws(1))
  from x(1) have k: "?k \<le> length rho" by (auto simp: group_factor_def Let_def split: if_splits)
  then have "length (take ?k rho) = length (drop sb (rq_point rq))" by simp
  from coordinates.factor_at_point [OF c t(3) laws(2) this] x(1)
  have "x = mle_sum f (take ?k rho) * (\<Prod>r\<leftarrow>drop ?k rho. 1 - r)"
    by (auto simp: group_factor_def Let_def prod_extra eq_factor_zeros [symmetric] split: if_splits)
  then have "group_values sb rho d = map (\<lambda>w. mle_sum w (take ?k rho) * x) ws" by (simp add: group_values_def d tail_len_def t(1) Let_def)
  with Cons.IH [OF x(2)] x(3) t(2) show ?case by (simp add: opened_values_def)
qed (simp add: opened_values_def)

lemma eor_sumcheck_run:
  fixes P :: "('u, 'z, 'o, 'e::comm_ring_1) poly_ops" and tr :: "('p, 'v, 'r, 's, 'f::comm_ring_1, 'e) transcript"
  assumes t: "transcript_pair_memory tr vw fc" and laws: "search_laws tr vw" "poly_laws P" "univariate_laws P N" "unreduced_laws limit U"
    and prep: "groups_prepared (tensor_reduction_claim_from_rows env fc) (tensor_equality_factor_eval_at_point env fc X) sb eta limit 0 ds"
    and all: "(\<Sum>(g, ws, f)\<leftarrow>ds. length ws) = nc" "length cs = nc"
    and begun: "begin_eor (tensor_reduction_claim_from_rows env fc) (Ok ()) sb nc mv (map fst ds) eta cs = Ok (claim, s)"
    and mv: "mv - sb = mt" "mt < 64" and fits: "EXTENSION_OPENING_REDUCTION_DEGREE * ext_degree fc * num_bytes fc \<le> usize_max"
    and sched: "work_scheduled (map (\<lambda>j. SumcheckRound ExtensionOpeningReduction lv 0 (of_nat j)) [0..<mt]) g"
  shows "ends_in (search_errors vw) (\<lambda>(rho, vals) g'. length rho = mt \<and> vals = concat (map (group_values sb rho) ds) \<and> length vals = nc \<and>
      (\<exists>shape k c. shape_new mt EXTENSION_OPENING_REDUCTION_DEGREE = Ok shape \<and>
        prove_sumcheck P (eor_kernel P N U (Ok ())) (grinding_sumcheck_prover tr fc) (prover_channel tr fc) fc shape EOR_SUMCHECK_INVOCATION
          (\<lparr>ek_session = Some s, ek_claim = claim, ek_rounds = mt\<rparr>, eor_channel g lv) = (Ok (rho, weighted_sum cs vals), k, c) \<and> g' = sumcheck_grinding c))
    (prove_eor_sumcheck env P N U X (Ok ()) tr fc mt nc lv cs (claim, s) g)"
proof -
  let ?shape = "\<lparr>shape_rounds = mt, shape_degree = EXTENSION_OPENING_REDUCTION_DEGREE\<rparr>"
  have shape: "shape_new mt EXTENSION_OPENING_REDUCTION_DEGREE = Ok ?shape" using mv by (simp add: shape_new_def EXTENSION_OPENING_REDUCTION_DEGREE_def u32_max_def usize_max_def
      Checked_Arith.product_def checked_mul_if)
  have deg: "0 < EXTENSION_OPENING_REDUCTION_DEGREE" by (simp add: EXTENSION_OPENING_REDUCTION_DEGREE_def)
  have c: "rounds_scheduled mt 0 (eor_channel g lv)" using sched by (simp add: rounds_scheduled_def eor_channel_def round_site_def)
  have n: "mt \<le> u32_max" using mv by (simp add: u32_max_def)
  note serve = transcript_pair_memory.protocol_channel_serves [OF t laws(1) deg fits, of mt]
  have vals: "length (concat (map (group_values sb rho) ds)) = nc" for rho :: "'e list"
    unfolding all(1) [symmetric] by (induction ds) (auto simp: group_values_def Let_def)
  have out: "(\<Sum>(v, w)\<leftarrow>zip vs cs. v * w) = weighted_sum cs vs" for vs by (simp add: zip_weights [symmetric] foldl_zip_sum)
  show ?thesis
    using eor_sumcheck_ends [OF laws(2-4) prep all(1) begun mv(1) n serve c]
    by (cases rule: ends_in_cases)
      (auto simp: prove_eor_sumcheck_def shape EOR_SUMCHECK_INVOCATION_def cpu_finish_eor_def out vals zip_weights split: prod.splits)
qed

text \<open>The prepared claims of the CPU backend.\<close>

lemma prepared_claims:
  assumes prep: "cpu_prepare_eor env fc U X admitted layout rqs = Ok prepared" and split: "tensor_opening_split fc = Ok (sb, w)" and chk: "layout_check layout = Ok ()"
  shows "\<exists>colss. pe_partials prepared = concat colss \<and> (\<forall>cols \<in> set colss. length cols = w) \<and> length colss = num_total_polynomials layout \<and>
    length (pe_openings prepared) = num_total_polynomials layout \<and>
    openings_hold env fc layout (map rq_point rqs) (pe_openings prepared) (pe_partials prepared) \<and>
    collect_results (tensor_row_partials_from_columns fc X) colss = Ok (concat (map eg_rows (pe_groups prepared))) \<and>
    prepare_groups env fc U X layout sb 0 rqs = Ok (pe_openings prepared, pe_partials prepared, pe_groups prepared) \<and> length rqs = length layout \<and>
    (\<forall>rq \<in> set rqs. sb \<le> length (rq_point rq) \<and> (\<exists>l \<in> set layout. length (rq_point rq) = gl_num_vars l))"
proof -
  have w: "w = ext_degree fc" "ext_degree fc = 2 ^ sb" using split by (simp_all add: tensor_opening_split_Ok)
  from prep split have pg: "prepare_groups env fc U X layout sb 0 rqs = Ok (pe_openings prepared, pe_partials prepared, pe_groups prepared)"
    and len: "length rqs = length layout" by (auto simp: cpu_prepare_eor_def try_r_eq_Inr split: if_splits)
  from prepare_groups_claims [OF pg _ len] obtain colss where
    c: "pe_partials prepared = concat colss" "\<forall>cols \<in> set colss. length cols = ext_degree fc" "length colss = sum_list (map gl_num_polynomials layout)"
      "list_all2 (\<lambda>(point, cols) op. derive_tensor_extension_opening_claim_from_partials env fc point cols = Ok op)
        (zip (claim_points layout (map rq_point rqs)) colss) (pe_openings prepared)"
      "collect_results (tensor_row_partials_from_columns fc X) colss = Ok (concat (map eg_rows (pe_groups prepared)))"
      "list_all2 (\<lambda>l rq. length (rq_point rq) = gl_num_vars l \<and> sb \<le> length (rq_point rq)) layout rqs" by auto
  have "list_all2 (\<lambda>l point. length point = gl_num_vars l \<and> sb \<le> length point) layout (map rq_point rqs)" using c(6) by (simp add: list_all2_map2)
  note hold = prepared_openings_hold [OF c(2,3,4) this w(2)]
  have "\<forall>rq \<in> set rqs. sb \<le> length (rq_point rq) \<and> (\<exists>l \<in> set layout. length (rq_point rq) = gl_num_vars l)"
    using c(6) by (fastforce simp: list_all2_conv_all_nth in_set_conv_nth)
  with hold c w pg len layout_total [OF chk] show ?thesis by (intro exI [of _ colss]) auto
qed

lemma max_num_vars_ge: "l \<in> set layout \<Longrightarrow> gl_num_vars l \<le> max_num_vars layout"
proof -
  have "n = a \<or> n \<in> set ns \<Longrightarrow> n \<le> foldl max a ns" for a n :: nat and ns
  proof (induction ns arbitrary: a n)
    case (Cons m ns)
    have "max a m \<le> foldl max (max a m) ns" by (rule Cons.IH) simp
    with Cons.IH [of n "max a m"] Cons.prems show ?case by auto
  qed simp
  then show "l \<in> set layout \<Longrightarrow> gl_num_vars l \<le> max_num_vars layout" by (simp add: max_num_vars_def)
qed

lemma length_concat_same: "\<forall>c \<in> set cs. length c = w \<Longrightarrow> length (concat cs) = w * length cs"
  by (induction cs) simp_all

lemma count_fits: "n * d * b \<le> m \<Longrightarrow> 0 < d \<Longrightarrow> 0 < b \<Longrightarrow> n \<le> m" for n d b m :: nat
  by (metis mult.assoc mult_le_mono2 mult_1_right le_trans nat_0_less_mult_iff less_eq_Suc_le One_nat_def)

lemma final_claims_sent:
  assumes t: "transcript_pair_memory tr vw fc" and n: "length vals = num_total_polynomials layout" and fits: "length vals * ext_degree fc * num_bytes fc \<le> usize_max"
  shows "\<exists>g'. eor_final_claims (prover_channel tr fc) (prover_side tr) fc layout vals lv g = (Ok vals, g')"
  using transcript_pair_memory.exchange_ends [OF t fits, of "{}" "[]" g "eor_site lv STAGE_FINAL_CLAIMS"]
  by (cases rule: ends_in_cases) (simp_all add: eor_final_claims_def n)

text \<open>After the challenges, the backend begins with the claim that the public partials give.\<close>

lemma begun_claim:
  fixes prepared :: "('e::comm_ring_1, 'u) prepared_eor"
  assumes algebra: "unreduced_laws limit U" "ext_laws limit fc U X" and split: "tensor_opening_split fc = Ok (sb, w)" and chk: "layout_check layout = Ok ()"
    and prep: "cpu_prepare_eor env fc U X admitted layout rqs = Ok prepared" and mv: "sb \<le> max_num_vars layout" "max_num_vars layout - sb = mt"
    and tables: "tables_fit env (max mt sb)" "ext_degree fc \<le> limit" "2 ^ mt \<le> 2 * limit" "mt < 64"
    and len: "length eta = sb" "length cs = num_total_polynomials layout"
  shows "\<exists>ds claim s. map fst ds = pe_groups prepared \<and> list_all2 (tables_of_request env fc U X sb eta) rqs ds \<and>
    groups_prepared (tensor_reduction_claim_from_rows env fc) (tensor_equality_factor_eval_at_point env fc X) sb eta limit 0 ds \<and>
    (\<Sum>(g, ws, f)\<leftarrow>ds. length ws) = num_total_polynomials layout \<and>
    begin_eor (tensor_reduction_claim_from_rows env fc) (Ok ()) sb (num_total_polynomials layout) (max_num_vars layout) (pe_groups prepared) eta cs = Ok (claim, s) \<and>
    cpu_begin_eor env fc (Ok ()) layout (pe_groups prepared) eta cs = Ok (claim, s) \<and>
    claim_from_partials env fc X eta (zip (chunks w (pe_partials prepared)) cs) 0 = Ok claim"
proof -
  from prepared_claims [OF prep split chk] obtain colss where
    c: "pe_partials prepared = concat colss" "\<forall>cols \<in> set colss. length cols = w" "length colss = num_total_polynomials layout"
      "collect_results (tensor_row_partials_from_columns fc X) colss = Ok (concat (map eg_rows (pe_groups prepared)))"
      "prepare_groups env fc U X layout sb 0 rqs = Ok (pe_openings prepared, pe_partials prepared, pe_groups prepared)" "length rqs = length layout" by blast
  have w: "w = ext_degree fc" "w = 2 ^ sb" using split by (simp_all add: tensor_opening_split_Ok)
  have arity: "\<forall>l \<in> set layout. gl_num_vars l - sb \<le> mt" using max_num_vars_ge mv(2) by (metis diff_le_mono)
  from prepared_groups [OF algebra(2,1) tables(2,3) split [unfolded w(1)] len(1) tables(1) chk arity c(5) _ c(6)] layout_total [OF chk] obtain ds where
    ds: "map fst ds = pe_groups prepared" "list_all2 (tables_of_request env fc U X sb eta) rqs ds"
      "groups_prepared (tensor_reduction_claim_from_rows env fc) (tensor_equality_factor_eval_at_point env fc X) sb eta limit 0 ds"
      "\<forall>d \<in> set ds. group_shape mt sb d \<and> fst (snd d) \<noteq> []" "(\<Sum>(g, ws, f)\<leftarrow>ds. length ws) = num_total_polynomials layout"
      "collect_results (\<lambda>row. tensor_reduction_claim_from_rows env fc row eta) (concat (map eg_rows (pe_groups prepared))) = Ok (concat (map group_products ds))"
    by auto
  let ?claim = "weighted_sum cs (concat (map group_products ds))"
  from begin_total [OF ds(3) _ ds(5) len(2,1) mv(1)] ds(1,4) mv tables(4) obtain s where
    b: "begin_eor (tensor_reduction_claim_from_rows env fc) (Ok ()) sb (num_total_polynomials layout) (max_num_vars layout) (pe_groups prepared) eta cs =
      Ok (?claim, s)" by metis
  have "claim_from_partials env fc X eta (zip colss cs) 0 = Ok (0 + ?claim)"
    by (rule claim_from_partials_total [OF column_claims [OF c(4) ds(6)]]) (simp add: c(3) len(2))
  moreover have "chunks w (pe_partials prepared) = colss" using chunks_concat [of w colss] c(1,2) w(2) by simp
  moreover have "cpu_begin_eor env fc (Ok ()) layout (pe_groups prepared) eta cs = Ok (?claim, s)" using b split by (simp add: cpu_begin_eor_def)
  ultimately show ?thesis using ds b by (intro exI [of _ ds] exI [of _ ?claim] exI [of _ s]) simp
qed

text \<open>
  What the verifier does with a returned reduction: on any channel synchronised with the prover's that
  holds what the prover wrote, it accepts with the same final claims and factors, and the claims are
  the opened values.
\<close>

definition reduction_replayed ::
  "eq_env \<Rightarrow> ('u, 'z, 'o, 'e::comm_ring_1) poly_ops \<Rightarrow> ('f::comm_ring_1, 'e, 'w) ext_ops \<Rightarrow> ('p, 'v, 'r, 's, 'f, 'e) transcript \<Rightarrow> ('v, 'r, 's, 'e) transcript_view \<Rightarrow>
   ('f, 'e) field_codec \<Rightarrow> nat \<Rightarrow> opening_layout \<Rightarrow> ('f, 'e) eor_request list \<Rightarrow> 'e list \<Rightarrow> u32 \<Rightarrow> 'p prover_grinding \<Rightarrow>
   'e extension_opening_reduction \<Rightarrow> 'p prover_grinding \<Rightarrow> bool" where
  "reduction_replayed env P X tr vw fc sb layout rqs openings lv g proved g' \<longleftrightarrow>
     (\<forall>argument h. grinding_sync tr vw argument g h \<and> prefix (grinding_log tr g') argument \<longrightarrow>
        (\<exists>rho h'. verify_eor_sumcheck env P X tr fc (map rq_point rqs) openings layout True lv h =
            (Ok (Some \<lparr>sr_rho = rho, sr_final_claims = xr_final_claims proved, sr_final_factors = xr_final_factors proved\<rparr>), h') \<and>
          xr_final_claims proved = opened_values fc sb rqs rho (xr_final_factors proved) \<and> grinding_sync tr vw argument g' h'))"

lemma opening_finish:
  fixes tr :: "('p, 'v, 'r, 's, 'f::comm_ring_1, 'e::comm_ring_1) transcript" and P :: "('u, 'z, 'o, 'e) poly_ops" and prepared :: "('e, 'u) prepared_eor"
  assumes t: "transcript_pair_memory tr vw fc" and algebra: "ext_laws limit fc U X" "ext_degree fc \<le> limit"
    and split: "tensor_opening_split fc = Ok (sb, w)" "1 < w" and mt: "checked_sub (max_num_vars layout) sb = Some mt"
    and nc: "length (pe_openings prepared) = num_total_polynomials layout" "checked_mul w (num_total_polynomials layout) = Some (length (pe_partials prepared))"
    and pre: "eor_prefix tr (prover_channel tr fc) (prover_side tr) fc layout (pe_openings prepared) (pe_partials prepared) lv g = (Ok px, g1)"
    and len: "length (ep_eta px) = sb" "length (ep_coefficients px) = num_total_polynomials layout"
    and claim: "claim_from_partials env fc X (ep_eta px) (zip (chunks w (pe_partials prepared)) (ep_coefficients px)) 0 = Ok claim"
    and shape: "shape_new mt EXTENSION_OPENING_REDUCTION_DEGREE = Ok shape"
    and sc: "prove_sumcheck P (eor_kernel P N U (Ok ())) (grinding_sumcheck_prover tr fc) (prover_channel tr fc) fc shape EOR_SUMCHECK_INVOCATION
       (\<lparr>ek_session = Some s, ek_claim = claim, ek_rounds = mt\<rparr>, eor_channel g1 lv) = (Ok (rho, weighted_sum (ep_coefficients px) vals), k, d)"
    and vals: "vals = concat (map (group_values sb rho) ds)" "length vals = num_total_polynomials layout" "list_all2 (tables_of_request env fc U X sb (ep_eta px)) rqs ds"
    and hold: "openings_hold env fc layout (map rq_point rqs) (pe_openings prepared) (pe_partials prepared)" and fit: "tables_fit env (max (length rho) sb)"
    and dims: "\<forall>rq \<in> set rqs. sb \<le> length (rq_point rq) \<and> length (rq_point rq) - sb \<le> length rho \<and> dimension_fits fc arms (rq_point rq, rq_ring_dimension rq)"
    and fits: "length (pe_partials prepared) * ext_degree fc * num_bytes fc \<le> usize_max"
  shows "ends_in E (reduction_replayed env P X tr vw fc sb layout rqs (pe_openings prepared) lv g)
    (st_bind (prover_outputs env fc X arms sb (ep_eta px) rho (map (\<lambda>rq. (rq_point rq, rq_ring_dimension rq)) rqs), sumcheck_grinding d) (\<lambda>(factors, points) g.
     st_bind (eor_final_claims (prover_channel tr fc) (prover_side tr) fc layout vals lv g) (\<lambda>vals g.
       (Ok \<lparr>xr_final_claims = vals, xr_final_factors = factors, xr_protocol_points = points\<rparr>, g))))"
proof -
  let ?inputs = "map (\<lambda>rq. (rq_point rq, rq_ring_dimension rq)) rqs"
  have "\<forall>(point, n) \<in> set ?inputs. sb \<le> length point \<and> length point - sb \<le> length rho \<and> dimension_fits fc arms (point, n)" using dims by auto
  from prover_outputs_total [OF algebra split len(1) fit this] obtain factors points where
    outs: "prover_outputs env fc X arms sb (ep_eta px) rho ?inputs = Ok (factors, points)" by fastforce
  have "length vals \<le> length (pe_partials prepared)" using vals(2) nc(2) split(2) by (auto simp: checked_mul_eq_Some)
  then have "length vals * ext_degree fc * num_bytes fc \<le> usize_max" using fits by (meson le_trans mult_le_mono1)
  from final_claims_sent [OF t vals(2) this] obtain g3 where
    fin: "eor_final_claims (prover_channel tr fc) (prover_side tr) fc layout vals lv (sumcheck_grinding d) = (Ok vals, g3)" by blast
  have fst: "map fst ?inputs = map rq_point rqs" by (simp add: comp_def)
  have opened: "vals = opened_values fc sb rqs rho factors"
    using group_values_opened [OF algebra vals(3) prover_outputs_Ok [OF outs, unfolded fst]] vals(1) by simp
  note replay = opening_replay [OF t split(1) mt split(2) nc pre len claim shape sc vals(2) refl outs fin, unfolded fst, OF hold]
  have "reduction_replayed env P X tr vw fc sb layout rqs (pe_openings prepared) lv g
      \<lparr>xr_final_claims = vals, xr_final_factors = factors, xr_protocol_points = points\<rparr> g3"
    unfolding reduction_replayed_def extension_opening_reduction.simps
  proof (intro allI impI)
    fix argument h assume "grinding_sync tr vw argument g h \<and> prefix (grinding_log tr g3) argument"
    with replay [of argument h] opened show "\<exists>rho h'. verify_eor_sumcheck env P X tr fc (map rq_point rqs) (pe_openings prepared) layout True lv h =
        (Ok (Some \<lparr>sr_rho = rho, sr_final_claims = vals, sr_final_factors = factors\<rparr>), h') \<and>
      vals = opened_values fc sb rqs rho factors \<and> grinding_sync tr vw argument g3 h'" by (intro exI [of _ rho]) auto
  qed
  then show ?thesis by (simp add: outs fin)
qed

lemma opening_after_prefix:
  fixes tr :: "('p, 'v, 'r, 's, 'f::comm_ring_1, 'e::comm_ring_1) transcript" and P :: "('u, 'z, 'o, 'e) poly_ops" and prepared :: "('e, 'u) prepared_eor"
  assumes t: "transcript_pair_memory tr vw fc" and laws: "search_laws tr vw" "poly_laws P" "univariate_laws P N" "unreduced_laws limit U" "ext_laws limit fc U X"
    and split: "tensor_opening_split fc = Ok (sb, w)" "1 < w" and layout: "layout_check layout = Ok ()" and mv: "sb \<le> max_num_vars layout" "max_num_vars layout - sb = mt"
    and prep: "cpu_prepare_eor env fc U X admitted layout rqs = Ok prepared"
    and tables: "tables_fit env (max mt sb)" "ext_degree fc \<le> limit" "2 ^ mt \<le> 2 * limit" "mt < 64"
    and sizes: "EXTENSION_OPENING_REDUCTION_DEGREE * ext_degree fc * num_bytes fc \<le> usize_max" "length (pe_partials prepared) * ext_degree fc * num_bytes fc \<le> usize_max"
    and dims: "\<forall>rq \<in> set rqs. dimension_fits fc arms (rq_point rq, rq_ring_dimension rq)"
    and nc: "length (pe_openings prepared) = num_total_polynomials layout" "checked_mul w (num_total_polynomials layout) = Some (length (pe_partials prepared))"
    and pre: "eor_prefix tr (prover_channel tr fc) (prover_side tr) fc layout (pe_openings prepared) (pe_partials prepared) lv g = (Ok px, g1)"
    and len: "length (ep_eta px) = sb" "length (ep_coefficients px) = num_total_polynomials layout"
    and sched: "work_scheduled (map (\<lambda>j. SumcheckRound ExtensionOpeningReduction lv 0 (of_nat j)) [0..<mt]) g1"
  shows "ends_in (search_errors vw) (reduction_replayed env P X tr vw fc sb layout rqs (pe_openings prepared) lv g)
    (prove_extension_opening_reduction env P N U X arms (Ok ()) tr fc layout (Ok prepared)
      (map (\<lambda>rq. (rq_point rq, rq_ring_dimension rq)) rqs) lv (pe_openings prepared) g)"
proof -
  from prepared_claims [OF prep split(1) layout] have hold: "openings_hold env fc layout (map rq_point rqs) (pe_openings prepared) (pe_partials prepared)"
    and pts: "\<forall>rq \<in> set rqs. sb \<le> length (rq_point rq) \<and> (\<exists>l \<in> set layout. length (rq_point rq) = gl_num_vars l)" by blast+
  have sub: "checked_sub (max_num_vars layout) sb = Some mt" using mv by (simp add: checked_sub_def)
  from begun_claim [OF laws(4,5) split(1) layout prep mv tables len] obtain ds claim s where
    ds: "map fst ds = pe_groups prepared" "list_all2 (tables_of_request env fc U X sb (ep_eta px)) rqs ds"
      "groups_prepared (tensor_reduction_claim_from_rows env fc) (tensor_equality_factor_eval_at_point env fc X) sb (ep_eta px) limit 0 ds"
      "(\<Sum>(g, ws, f)\<leftarrow>ds. length ws) = num_total_polynomials layout"
    and b: "begin_eor (tensor_reduction_claim_from_rows env fc) (Ok ()) sb (num_total_polynomials layout) (max_num_vars layout) (map fst ds) (ep_eta px)
        (ep_coefficients px) = Ok (claim, s)"
      "cpu_begin_eor env fc (Ok ()) layout (pe_groups prepared) (ep_eta px) (ep_coefficients px) = Ok (claim, s)"
      "claim_from_partials env fc X (ep_eta px) (zip (chunks w (pe_partials prepared)) (ep_coefficients px)) 0 = Ok claim" by metis
  have start: "prove_extension_opening_reduction env P N U X arms (Ok ()) tr fc layout (Ok prepared) (map (\<lambda>rq. (rq_point rq, rq_ring_dimension rq)) rqs) lv
      (pe_openings prepared) g =
    st_bind (prove_eor_sumcheck env P N U X (Ok ()) tr fc mt (num_total_polynomials layout) lv (ep_coefficients px) (claim, s) g1) (\<lambda>(rho, vals) g.
      st_bind (prover_outputs env fc X arms sb (ep_eta px) rho (map (\<lambda>rq. (rq_point rq, rq_ring_dimension rq)) rqs), g) (\<lambda>(factors, points) g.
      st_bind (eor_final_claims (prover_channel tr fc) (prover_side tr) fc layout vals lv g) (\<lambda>vals g.
        (Ok \<lparr>xr_final_claims = vals, xr_final_factors = factors, xr_protocol_points = points\<rparr>, g))))"
    using pre b(2,3) by (simp add: sub nc split prove_extension_opening_reduction_def Let_def)
  have dims': "\<forall>rq \<in> set rqs. sb \<le> length (rq_point rq) \<and> length (rq_point rq) - sb \<le> mt \<and> dimension_fits fc arms (rq_point rq, rq_ring_dimension rq)"
    using pts dims max_num_vars_ge mv(2) by (fastforce intro: diff_le_mono)
  note run = eor_sumcheck_run [OF t laws(1-4) ds(3,4) len(2) b(1) mv(2) tables(4) sizes(1) sched]
  show ?thesis using run
  proof (cases rule: ends_in_cases)
    case (2 v g2)
    then obtain rho vals shape k d where v: "v = (rho, vals)" "g2 = sumcheck_grinding d" and rho: "length rho = mt"
      and vals: "vals = concat (map (group_values sb rho) ds)" "length vals = num_total_polynomials layout"
      and sc: "shape_new mt EXTENSION_OPENING_REDUCTION_DEGREE = Ok shape"
        "prove_sumcheck P (eor_kernel P N U (Ok ())) (grinding_sumcheck_prover tr fc) (prover_channel tr fc) fc shape EOR_SUMCHECK_INVOCATION
          (\<lparr>ek_session = Some s, ek_claim = claim, ek_rounds = mt\<rparr>, eor_channel g1 lv) = (Ok (rho, weighted_sum (ep_coefficients px) vals), k, d)"
      by (cases v) auto
    from opening_finish [OF t laws(5) tables(2) split sub nc pre len b(3) sc vals ds(2) hold tables(1) [folded rho] dims' [folded rho] sizes(2)]
    show ?thesis by (simp add: start 2(1) v)
  qed (simp add: start)
qed

text \<open>
  C1.  The extension-opening reduction of one fold level is complete.  Whenever the CPU backend has
  prepared the groups, the plan schedules the proofs of work the reduction performs, the tables and
  messages fit their sizes and the ring dimensions are dispatched, the prover either stops with the
  error of a search or a challenge draw that the transcript refuses, or returns; and when it returns,
  the verifier, on any channel synchronised with the prover's and holding what the prover wrote,
  accepts with the prover's final claims and factors.  Each final claim is the multilinear extension
  of the packed witness of its polynomial at the challenges, times the factor of its group.
\<close>

theorem extension_opening_complete:
  fixes tr :: "('p, 'v, 'r, 's, 'f::comm_ring_1, 'e::comm_ring_1) transcript" and P :: "('u, 'z, 'o, 'e) poly_ops"
    and prepared :: "('e, 'u) prepared_eor"
  defines "rounds layout sb \<equiv> max_num_vars layout - sb"
  assumes channel: "prover_laws tr vw" "reader_laws tr vw" "verifier_laws tr vw" "field_laws fc" "memory_suffices tr" "search_laws tr vw"
    and algebra: "poly_laws P" "univariate_laws P N" "unreduced_laws limit U" "ext_laws limit fc U X"
    and degree: "ext_degree fc = 2 ^ sb" "0 < sb" and layout: "layout_check layout = Ok ()"
    and prepared: "cpu_prepare_eor env fc U X admitted layout rqs = Ok prepared"
    and tables: "tables_fit env (max (rounds layout sb) sb)" "ext_degree fc \<le> limit" "2 ^ rounds layout sb \<le> 2 * limit" "rounds layout sb < 64"
    and sizes: "EXTENSION_OPENING_REDUCTION_DEGREE * ext_degree fc * num_bytes fc \<le> usize_max"
      "length (pe_partials prepared) * ext_degree fc * num_bytes fc \<le> usize_max"
    and dims: "\<forall>rq \<in> set rqs. dimension_fits fc arms (rq_point rq, rq_ring_dimension rq)"
    and scheduled: "work_scheduled (eor_work_sites layout lv (rounds layout sb)) g"
  shows "ends_in (search_errors vw) (\<lambda>proved g'. \<forall>argument h. grinding_sync tr vw argument g h \<and> prefix (grinding_log tr g') argument \<longrightarrow>
      (\<exists>rho h'. verify_eor_sumcheck env P X tr fc (map rq_point rqs) (pe_openings prepared) layout True lv h =
          (Ok (Some \<lparr>sr_rho = rho, sr_final_claims = xr_final_claims proved, sr_final_factors = xr_final_factors proved\<rparr>), h') \<and>
        xr_final_claims proved = opened_values fc sb rqs rho (xr_final_factors proved) \<and> grinding_sync tr vw argument g' h'))
    (prove_extension_opening_reduction env P N U X arms (Ok ()) tr fc layout (cpu_prepare_eor env fc U X admitted layout rqs)
      (map (\<lambda>rq. (rq_point rq, rq_ring_dimension rq)) rqs) lv (pe_openings prepared) g)"
proof -
  let ?mt = "max_num_vars layout - sb" and ?nc = "num_total_polynomials layout" and ?ps = "pe_partials prepared" and ?w = "2 ^ sb :: nat"
  note t = transcript_pair_memoryI [OF channel(1-5)]
  have split: "tensor_opening_split fc = Ok (sb, ?w)" by (simp add: tensor_opening_split_Ok degree)
  have w1: "1 < ?w" using degree(2) by (intro one_less_power) simp_all
  from prepared_claims [OF prepared split layout] obtain colss where
    c: "?ps = concat colss" "\<forall>cols \<in> set colss. length cols = ?w" "length colss = ?nc" "length (pe_openings prepared) = ?nc" "length rqs = length layout"
      "\<forall>rq \<in> set rqs. sb \<le> length (rq_point rq) \<and> (\<exists>l \<in> set layout. length (rq_point rq) = gl_num_vars l)" by blast
  have "rqs \<noteq> []" using layout c(5) by (auto simp: layout_check_def)
  then have mv: "sb \<le> max_num_vars layout" using c(6) max_num_vars_ge by (metis hd_in_set le_trans)
  have psl: "length ?ps = ?w * ?nc" using length_concat_same [OF c(2)] c(1,3) by simp
  have "0 < ext_degree fc" "0 < num_bytes fc" using channel(4) by (simp_all add: field_laws_def)
  from count_fits [OF sizes(2) this] have cnt: "checked_mul ?w ?nc = Some (length ?ps)" by (simp add: psl checked_mul_if)
  have sub: "checked_sub (max_num_vars layout) sb = Some ?mt" using mv by (simp add: checked_sub_def)
  have psl': "length ?ps = ?w * length (pe_openings prepared)" using psl c(4) by simp
  from transcript_pair_memory.eor_prefix_ends [OF t channel(6) scheduled [unfolded rounds_def] layout split c(4) psl' sizes(2)] show ?thesis
  proof (cases rule: ends_in_cases)
    case (1 e g1)
    then show ?thesis by (simp add: sub cnt split prepared c(4) prove_extension_opening_reduction_def Let_def)
  next
    case (2 px g1)
    then have px: "length (ep_eta px) = sb" "length (ep_coefficients px) = ?nc"
      "work_scheduled (map (\<lambda>j. SumcheckRound ExtensionOpeningReduction lv 0 (of_nat j)) [0..<?mt]) g1" by simp_all
    from opening_after_prefix [OF t channel(6) algebra split w1 layout mv refl prepared tables [unfolded rounds_def] sizes dims c(4) cnt 2(1) px]
    show ?thesis unfolding prepared by (simp only: reduction_replayed_def [abs_def])
  qed
qed

section \<open>A reduction over an extension of degree two\<close>

text \<open>
  A dense and a one-hot polynomial of six variables over the bytes, opened at one point of the
  extension, in the dispatched ring dimension 64.
\<close>

definition gauss_challenges :: "nat \<Rightarrow> u8 list \<Rightarrow> gauss list option \<times> u8 list" where
  "gauss_challenges n s = (Some (replicate n (Gauss (sum_list s) (of_nat (length s)))), s @ [1])"

definition sample_eor_layout :: opening_layout where
  "sample_eor_layout = [\<lparr>gl_num_vars = 6, gl_num_polynomials = 2\<rparr>]"

definition sample_point :: "gauss list" where
  "sample_point = map (\<lambda>i. Gauss (of_nat i) 1) [0..<6]"

definition sample_request :: "(u8, gauss) eor_request" where
  "sample_request = \<lparr>rq_point = sample_point, rq_ring_dimension = 64, rq_admitted = Ok (),
     rq_polynomials = [DensePoly 6 (map of_nat [0..<48]), OneHotPoly 6 16 [Some 3, None, Some 15, Some 0]]\<rparr>"

definition sample_eor_plan :: "unit grinding_plan" where
  "sample_eor_plan = \<lparr>plan_runs = map (\<lambda>site. \<lparr>run_site = site, loss_factor = 1, grind_bits = 2, nonce_bits = 9, multiplicity = 1, challenge_set_bits = 0\<rparr>)
     (eor_work_sites sample_eor_layout 0 5), plan_challenge_order = sample_order, total_nonce_bits = 63, plan_nonce_max_bytes = 14, expanded_query_count = 7\<rparr>"

lemma gauss_channel:
  "search_laws (list_transcript gauss_challenges) (list_view gauss_challenges)" "search_errors (list_view gauss_challenges) = {}"
  "verifier_laws (list_transcript gauss_challenges) (list_view gauss_challenges)"
proof -
  show "search_laws (list_transcript gauss_challenges) (list_view gauss_challenges)" "search_errors (list_view gauss_challenges) = {}"
    by (auto simp: search_laws_def search_errors_def list_transcript_def list_view_def gauss_challenges_def usize_max_def case_prod_unfold split: if_splits)
  show "verifier_laws (list_transcript gauss_challenges) (list_view gauss_challenges)" by (rule list_verifier_laws) (simp add: gauss_challenges_def)
qed

lemma gauss_field_laws: "field_laws gauss_codec"
  by (auto simp: field_laws_def gauss_codec_def length_Suc_conv)

lemma sample_layout_facts: "layout_check sample_eor_layout = Ok ()" "num_total_polynomials sample_eor_layout = 2" "max_num_vars sample_eor_layout = 6"
  by (simp_all add: sample_eor_layout_def layout_check_def checked_num_total_polynomials_def sum_checked_eq usize_max_def group_validate_def
      num_total_polynomials_def max_num_vars_def)

lemma small_tables_fit: "tables_fit small_env 5"
proof -
  have "(2::nat) ^ k \<le> 2 ^ 5" if "k \<le> 5" for k using that by (intro power_increasing) simp_all
  then show ?thesis by (force simp: tables_fit_def table_fits_def small_env_def usize_max_def MAX_MATERIALIZED_EQ_TABLE_BYTES_def)
qed

lemma sample_work_scheduled: "work_scheduled (eor_work_sites sample_eor_layout 0 5) (prover_grinding_new ([], []) sample_eor_plan)"
proof -
  let ?runs = "plan_runs sample_eor_plan"
  have each: "run_entries r = [run_entry r] \<and> work_within (run_entry r)" if "r \<in> set ?runs" for r
    using that by (auto simp: sample_eor_plan_def run_entries_def run_entry_def work_within_def pow_bits_def eor_work_sites_def
        MAX_GRINDING_BITS_def GRINDING_NONCE_SLACK_BITS_def u8_max_def split: if_splits)
  then have "concat (map run_entries rs) = map run_entry rs" if "set rs \<subseteq> set ?runs" for rs using that by (induction rs) auto
  then have es: "plan_entries ?runs = map run_entry ?runs" by (simp add: plan_entries_def)
  have "map entry_site (map run_entry ?runs) = eor_work_sites sample_eor_layout 0 5" by (simp add: sample_eor_plan_def run_entry_def comp_def)
  moreover have "length (eor_work_sites sample_eor_layout 0 5) \<le> 7" by (simp add: eor_work_sites_def)
  moreover have "cursor_wf (cursor_new sample_eor_plan)" "remaining (cursor_new sample_eor_plan) = plan_entries ?runs"
    by (auto simp: cursor_wf_def cursor_new_def sample_eor_plan_def remaining_def u32_max_def eor_work_sites_def)
  ultimately show ?thesis using each unfolding work_scheduled_def es
    by (intro conjI exI [of _ "map run_entry ?runs"] exI [of _ "[]"]) (auto simp: prover_grinding_new_def usize_max_def)
qed

lemma sample_columns:
  assumes "length base = 64"
  shows "\<exists>cols x rows. tensor_column_partials_from_base_evals small_env gauss_codec gauss_unreduced gauss_ext 6 base sample_point = Ok cols \<and> length cols = 2 \<and>
    derive_tensor_extension_opening_claim_from_partials small_env gauss_codec sample_point cols = Ok x \<and>
    tensor_row_partials_from_columns gauss_codec gauss_ext cols = Ok rows"
proof -
  have len: "reduction_table_len 6 = Ok 64" by (simp add: reduction_table_len_def pow2_eq usize_max_def)
  have fits: "table_fits small_env k \<and> can_reserve small_env (2 ^ k)" if "k \<le> 5" for k using small_tables_fit that by (simp add: tables_fit_def)
  have "split_new small_env (drop 1 sample_point) = Ok s" if "s = \<lparr>e_out = eq_table 1 (drop 2 (drop 1 sample_point)), e_in = eq_table 1 (take 2 (drop 1 sample_point))\<rparr>" for s
    using fits [of 2] fits [of 3] that by (simp add: split_new_def try_r_eq_Inr Let_def eq_evals_Ok sample_point_def)
  then obtain cols where cols: "tensor_column_partials_from_base_evals small_env gauss_codec gauss_unreduced gauss_ext 6 base sample_point = Ok cols"
    using assms by (simp add: tensor_column_partials_from_base_evals_def gauss_split len sample_point_def)
  from packed_of_columns [OF cols, of 1] obtain w where w: "tensor_packed_witness_evals gauss_codec 6 base = Ok w" "length w = 32" by (auto simp: gauss_split)
  have "length (drop 1 sample_point) \<le> 5" "length [0 :: gauss] \<le> 5" "tensor_opening_split gauss_codec = Ok (length [0 :: gauss], 2)"
    by (simp_all add: sample_point_def gauss_split)
  from factor_evals_total [OF small_tables_fit this] obtain f where
    "tensor_equality_factor_evals small_env gauss_codec gauss_unreduced gauss_ext (drop (length [0 :: gauss]) sample_point) [0] = Ok f" by auto
  from tensor_claims [OF gauss_laws [of 16] gauss_unreduced_laws _ _ cols w(1) this] w(2) obtain x rows where
    r: "derive_tensor_extension_opening_claim_from_partials small_env gauss_codec sample_point cols = Ok x"
      "tensor_row_partials_from_columns gauss_codec gauss_ext cols = Ok rows" by auto
  with cols columns_width [OF r(2)] show ?thesis by auto
qed

lemma sample_prepared:
  "\<exists>prepared. cpu_prepare_eor small_env gauss_codec gauss_unreduced gauss_ext (Ok ()) sample_eor_layout [sample_request] = Ok prepared \<and>
     length (pe_partials prepared) = 4"
proof -
  let ?dense = "DensePoly 6 (map of_nat [0..<48]) :: u8 owned_polynomial" and ?onehot = "OneHotPoly 6 16 [Some 3, None, Some 15, Some 0] :: u8 owned_polynomial"
  obtain b1 where b1: "op_source_coefficients ?dense = Ok b1" "length b1 = 64" by (simp add: pow2_eq usize_max_def resize_def)
  obtain b2 where b2: "op_source_coefficients ?onehot = Ok b2" "length b2 = 64"
    by (simp add: Checked_Arith.product_def checked_mul_if usize_max_def Let_def)
  from sample_columns [OF b1(2)] obtain c1 x1 r1 where
    1: "tensor_column_partials_from_base_evals small_env gauss_codec gauss_unreduced gauss_ext 6 b1 sample_point = Ok c1" "length c1 = 2"
      "derive_tensor_extension_opening_claim_from_partials small_env gauss_codec sample_point c1 = Ok x1" "tensor_row_partials_from_columns gauss_codec gauss_ext c1 = Ok r1" by auto
  from sample_columns [OF b2(2)] obtain c2 x2 r2 where
    2: "tensor_column_partials_from_base_evals small_env gauss_codec gauss_unreduced gauss_ext 6 b2 sample_point = Ok c2" "length c2 = 2"
      "derive_tensor_extension_opening_claim_from_partials small_env gauss_codec sample_point c2 = Ok x2" "tensor_row_partials_from_columns gauss_codec gauss_ext c2 = Ok r2" by auto
  have "owned_extension small_env gauss_codec gauss_unreduced gauss_ext sample_point (rq_polynomials sample_request) = Ok ([x1, x2], c1 @ c2, [r1, r2])"
    unfolding sample_request_def by (simp only: eor_request.simps owned_extension.simps op_num_vars.simps b1(1) b2(1) 1 2 try_r_simps prod.case append_Nil2)
  moreover have "length sample_point = 6" "rq_point sample_request = sample_point" "rq_admitted sample_request = Ok ()"
    by (simp_all add: sample_point_def sample_request_def)
  ultimately show ?thesis using 1(2) 2(2)
    by (simp add: cpu_prepare_eor_def sample_eor_layout_def gauss_split layout_of_group_def slice_nth_def)
qed

theorem extension_opening_complete_witness:
  "\<exists>(prepared :: (gauss, gauss list) prepared_eor) proved g' rho h'.
     cpu_prepare_eor small_env gauss_codec gauss_unreduced gauss_ext (Ok ()) sample_eor_layout [sample_request] = Ok prepared \<and>
     prove_extension_opening_reduction small_env list_poly_ops sample_univariate gauss_unreduced gauss_ext (inner_arms Fp64) (Ok ())
       (list_transcript gauss_challenges) gauss_codec sample_eor_layout
       (cpu_prepare_eor small_env gauss_codec gauss_unreduced gauss_ext (Ok ()) sample_eor_layout [sample_request])
       [(sample_point, 64)] 0 (pe_openings prepared) (prover_grinding_new ([], []) sample_eor_plan) = (Ok proved, g') \<and>
     verify_eor_sumcheck small_env list_poly_ops gauss_ext (list_transcript gauss_challenges) gauss_codec [sample_point] (pe_openings prepared)
       sample_eor_layout True 0 (verifier_grinding_new ([], grinding_log (list_transcript gauss_challenges) g', True) sample_eor_plan) =
       (Ok (Some \<lparr>sr_rho = rho, sr_final_claims = xr_final_claims proved, sr_final_factors = xr_final_factors proved\<rparr>), h')"
proof -
  let ?tr = "list_transcript gauss_challenges" and ?vw = "list_view gauss_challenges" and ?g = "prover_grinding_new ([], []) sample_eor_plan"
  obtain prepared :: "(gauss, gauss list) prepared_eor" where
    p: "cpu_prepare_eor small_env gauss_codec gauss_unreduced gauss_ext (Ok ()) sample_eor_layout [sample_request] = Ok prepared"
      "length (pe_partials prepared) = 4" using sample_prepared by blast
  have sizes: "EXTENSION_OPENING_REDUCTION_DEGREE * ext_degree gauss_codec * num_bytes gauss_codec \<le> usize_max"
    "length (pe_partials prepared) * ext_degree gauss_codec * num_bytes gauss_codec \<le> usize_max"
    by (simp_all add: p(2) gauss_codec_def EXTENSION_OPENING_REDUCTION_DEGREE_def usize_max_def)
  have dims: "\<forall>rq \<in> set [sample_request]. dimension_fits gauss_codec (inner_arms Fp64) (rq_point rq, rq_ring_dimension rq)"
    by (simp add: dimension_fits_def sample_request_def sample_point_def is_power_of_two.simps)
  have num: "ext_degree gauss_codec = 2 ^ 1" "(0::nat) < 1" by simp_all
  have fit: "tables_fit small_env (max (max_num_vars sample_eor_layout - 1) 1)" "ext_degree gauss_codec \<le> 16" "2 ^ (max_num_vars sample_eor_layout - 1) \<le> 2 * (16 :: nat)"
    "max_num_vars sample_eor_layout - 1 < 64" "work_scheduled (eor_work_sites sample_eor_layout 0 (max_num_vars sample_eor_layout - 1)) ?g"
    using small_tables_fit sample_work_scheduled by (simp_all add: sample_layout_facts)
  have sync: "grinding_sync ?tr ?vw argument ?g (verifier_grinding_new ([], argument, True) sample_eor_plan)" for argument
    by (simp add: grinding_sync_def channel_sync_def prover_grinding_new_def verifier_grinding_new_def list_transcript_def list_view_def)
  have rq: "map rq_point [sample_request] = [sample_point]" "map (\<lambda>rq. (rq_point rq, rq_ring_dimension rq)) [sample_request] = [(sample_point, 64)]"
    by (simp_all add: sample_request_def)
  from extension_opening_complete [OF list_prover_laws list_reader_laws gauss_channel(3) gauss_field_laws list_memory gauss_channel(1)
    list_poly_laws sample_univariate_laws gauss_unreduced_laws gauss_laws num sample_layout_facts(1) p(1) fit(1-4) sizes dims fit(5),
    unfolded rq gauss_channel(2)]
  show ?thesis
  proof (cases rule: ends_in_cases)
    case (2 proved g')
    from 2(2) [rule_format, OF conjI [OF sync prefix_order.order_refl]] obtain rho h' where
      "verify_eor_sumcheck small_env list_poly_ops gauss_ext ?tr gauss_codec [sample_point] (pe_openings prepared) sample_eor_layout True 0
        (verifier_grinding_new ([], grinding_log ?tr g', True) sample_eor_plan) =
        (Ok (Some \<lparr>sr_rho = rho, sr_final_claims = xr_final_claims proved, sr_final_factors = xr_final_factors proved\<rparr>), h')" by blast
    with p(1) 2(1) show ?thesis by blast
  qed simp
qed

end
