(* ===== verification/Spec2Isabelle.thy ===== *)
theory Spec2Isabelle
  imports Golomb_Rice_Correct Nonce_Codec Eq_Polynomial_Correct Ntt_Prime Cyclotomic_Ring_Correct Balanced_Decomposition_Correct
    Ntt_Production Crt_Capacity_Correct Crt_Garner_Correct Digit_Counts Compression_Digits_Correct Block_Partition_Correct
    Proof_Channel_Correct Sumcheck_Complete Eq_Instance Opening_Driver_Complete
begin

text \<open>
  Verification of the core of Akita, a lattice-based polynomial commitment scheme in Rust.  Paths
  below are relative to \<^verbatim>\<open>src/crates\<close>.

  \<^bold>\<open>The program.\<close>  A prover commits to polynomials through Ajtai commitments over cyclotomic rings
  \<open>Z\<^sub>q[X] / (X\<^sup>D + 1)\<close>, opens them by sumcheck over multilinear equality polynomials, and writes a
  proof whose tail is entropy coded; a verifier replays the transcript.  Prover and verifier walk the
  same public plan of scheduled queries, each guarded by a proof of work (grinding).  The development
  models the proof bytes and the channel that carries them, the sumcheck drivers, the opening
  reduction run on them, the grinding plan and its replay, and below these the algebra and the
  planning of digits, compression, partition and slicing that both sides must derive identically.

  \<^bold>\<open>Conventions.\<close>  A \<^verbatim>\<open>Result\<close> is \<open>error + 'a\<close> (\<open>Err\<close>, \<open>Ok\<close>, sequenced by \<open>try_r\<close>); an \<^verbatim>\<open>Option\<close> or a
  computation that may panic is an \<open>option\<close> with \<open>None\<close> the panic.  A fallible operation on mutable
  state returns its result together with the state it leaves, on errors too (sequenced by
  \<open>st_bind\<close>).  \<^verbatim>\<open>usize\<close> is 64 bits and is kept as
  \<open>nat\<close> with every checked operation written out; registers whose wrap-around matters are words, or
  integers with \<open>swrap\<close>.  Field elements are an arbitrary commutative ring; what a routine needs of
  the field (canonical representatives, inversion) is an argument with named hypotheses.  A trait is
  a record of operations.  A loop is a recursive function with a termination proof, or a fold over
  the indices the code iterates; no definition uses fuel.  The parallel reductions of the opening
  reduction are modelled for every way of splitting their range; elsewhere a parallel iterator is
  its sequential result.  Only the portable paths are modelled where the code dispatches on vector
  instructions.

  \<^bold>\<open>Other packages.\<close>  The sponge transcript (spongefish, \<^verbatim>\<open>jolt_transcript\<close>), the field encodings and
  delayed products (\<^verbatim>\<open>jolt_field\<close>) and the polynomial types (\<^verbatim>\<open>jolt_poly\<close>) are arguments: the records
  \<open>transcript\<close>, \<open>field_codec\<close>, \<open>unreduced_ops\<close>, \<open>poly_ops\<close> and \<open>jolt_pricing\<close>.  What they document is
  stated by the predicates \<open>prover_laws\<close>, \<open>reader_laws\<close>, \<open>verifier_laws\<close>, \<open>field_laws\<close> (the two ends
  of the channel and the atoms), \<open>poly_laws\<close>, \<open>univariate_laws\<close> (round polynomials), \<open>unreduced_laws\<close>
  (delayed sums are exact up to a stated number of products), \<open>ext_laws\<close> (coordinates of the extension),
  \<open>memory_suffices\<close> (reservations succeed) and \<open>search_laws\<close> (a found nonce takes at most ten bytes and
  a draw has the asked length).  A nonce search or a challenge draw may fail: \<open>search_errors\<close> are the
  errors of the searches and draws the transcript refuses, and the completeness of the opening
  reduction is stated up to them.  The witnesses show each predicate to hold of a concrete instance.

  \<^bold>\<open>Foundations.\<close>
  \<^item> \<open>Akita_Prelude\<close>: result combinators, checked \<^verbatim>\<open>usize\<close> arithmetic, powers of two, bit lengths.
  \<^item> \<open>Checked_Arith\<close>: \<^verbatim>\<open>akita-error\<close> (the error enumeration, \<^verbatim>\<open>checked.rs\<close>, \<^verbatim>\<open>narrowing.rs\<close>), each
    helper characterised as exact or the stated error.
  \<^item> \<open>Codec_Interfaces\<close>: bit strings of bytes and the locales of prefix codes and byte sources.

  \<^bold>\<open>Codecs.\<close>
  \<^item> \<open>Golomb_Rice\<close>, \<open>Golomb_Rice_Correct\<close>: \<^verbatim>\<open>akita-params/src/golomb_rice.rs\<close>.  The reader with its
    aligned-word fast path refines a reference decoder on bit lists; round trip, canonicity of
    accepted segments, exact length.
  \<^item> \<open>Nonce_Codec\<close>: \<^verbatim>\<open>akita-transcript/src/proof_stream\<close> (nonces and site identifiers): round trips and
    canonicity.

  \<^bold>\<open>Protocol.\<close>
  \<^item> \<open>Proof_Channel\<close>, \<open>Proof_Channel_Correct\<close>: \<^verbatim>\<open>akita-transcript/src/proof_stream.rs\<close> with \<^verbatim>\<open>channel.rs\<close>,
    \<^verbatim>\<open>nonce.rs\<close>, \<^verbatim>\<open>digest.rs\<close>; atoms, groups, bounded payloads, challenges, the preview of a fold's work.
    \<open>mirrors\<close> is the simulation of the prover's step by the verifier's, \<open>fail_closed\<close> the safety side;
    the locale \<open>mirrored_channels\<close> states the contract of the four primitives, interpreted on the
    two channels.
  \<^item> \<open>Sumcheck\<close>, \<open>Sumcheck_Algebra\<close>, \<open>Sumcheck_Correct\<close>, \<open>Sumcheck_Complete\<close>: the drivers of
    \<^verbatim>\<open>akita-sumcheck/src\<close> (\<^verbatim>\<open>proof_stream.rs\<close>, \<^verbatim>\<open>traits.rs\<close>, \<^verbatim>\<open>single.rs\<close>), standard and equality-factored.
    Soundness for every channel by counting agreement points; completeness from the contracts
    \<open>honest_kernel\<close>, \<open>honest_eq_kernel\<close> and \<open>mirrored_sumcheck\<close>.
  \<^item> \<open>Split_Eq\<close>, \<open>Eq_Instance\<close>: \<^verbatim>\<open>akita-algebra/src/split_eq.rs\<close>, an invariant over all bound prefixes and the
    recovery of round polynomials; a kernel over it that meets \<open>honest_eq_kernel\<close>.
  \<^item> \<open>Grinding_Plan\<close>, \<open>Grinding_Plan_Correct\<close>: \<^verbatim>\<open>akita-params/src/transcript_grinding.rs\<close> with
    \<^verbatim>\<open>challenge_order.rs\<close> and \<^verbatim>\<open>sink.rs\<close>; accepted plans and their exact totals, batch pricing against
    materialised rounds, canonical bytes that determine the plan.
  \<^item> \<open>Grinding_Replay\<close>, \<open>Grinding_Replay_Correct\<close>: \<^verbatim>\<open>akita-types/src/transcript_grinding/replay.rs\<close>; the cursor
    refines the list of entries, each scheduled operation of the prover is mirrored by the
    verifier's, an accepted proof covers the plan in order, and the production sumcheck channels
    meet \<open>mirrored_sumcheck\<close>.
  \<^item> \<open>Opening_Reduction\<close>, \<open>Opening_Reduction_Correct\<close>, \<open>Opening_Protocol\<close>: the extension-opening
    prover of \<^verbatim>\<open>akita-cpu-backend/src/opaque\<close> (\<^verbatim>\<open>recursive/opening\<close>, \<^verbatim>\<open>eor.rs\<close>,
    \<^verbatim>\<open>recursive/witness/stage_sessions.rs\<close>) and its kernel; fused folds against the multilinear sums,
    and the kernel over any serving channel.
  \<^item> \<open>Tensor_Opening\<close>, \<open>Tensor_Opening_Correct\<close>: \<^verbatim>\<open>akita-types/src/extension_opening_reduction.rs\<close> and
    \<^verbatim>\<open>akita-cpu-backend/src/arithmetic/extension_opening_reduction.rs\<close>; column partials give the opening of
    the base-field table and the claim that the reduction sums, and the factor evaluated at a point
    is the multilinear extension of the dense factor table.
  \<^item> \<open>Opening_Driver\<close>, \<open>Opening_Driver_Correct\<close>, \<open>Opening_Driver_Complete\<close>: one level of the reduction end to
    end.  Opening layouts (\<^verbatim>\<open>akita-params/src/layout/opening_layout.rs\<close>), the stream around the sumcheck
    (\<^verbatim>\<open>akita-types/src/eor_sites.rs\<close>), the CPU backend's preparation from retained polynomials
    (\<^verbatim>\<open>opaque/owned.rs\<close>, \<^verbatim>\<open>opaque/eor.rs\<close>), the prover's driver
    (\<^verbatim>\<open>akita-prover/src/protocol/prove/opening_reduction.rs\<close>) and the verifier's replay
    (\<^verbatim>\<open>akita-verifier/src/stages/opening_claims/extension_claim.rs\<close>).  The prover stops with a search error
    or returns, and what it returns the verifier accepts; the final claims are those of the packed
    witnesses.

  \<^bold>\<open>Algebra\<close> (\<^verbatim>\<open>akita-algebra/src\<close>).
  \<^item> \<open>Eq_Polynomial\<close>, \<open>Eq_Polynomial_Correct\<close>: \<^verbatim>\<open>eq_poly.rs\<close> and \<^verbatim>\<open>poly.rs\<close>; every builder of the equality
    table, prefix sums, cached layers, multilinear evaluation and folding against their definitions,
    with the exact error conditions of the table budgets.
  \<^item> \<open>Ntt_Prime\<close>: \<^verbatim>\<open>ntt/prime.rs\<close>; Montgomery constants and products, branchless reductions, powers,
    the primality test.
  \<^item> \<open>Ntt_Transform\<close>, \<open>Ntt_Transform_Correct\<close>, \<open>Ntt_Production\<close>: \<^verbatim>\<open>ntt/butterfly.rs\<close> and
    \<^verbatim>\<open>ntt/tables.rs\<close>; machine butterflies represent the stages of an ideal transform in Montgomery form
    without overflow, the transform evaluates at odd powers of a root in bit-reversed order, the
    inverse undoes it, and it turns the ring product into a pointwise product; every production
    prime is accepted and has tables for every degree of its profile.
  \<^item> \<open>Crt_Capacity\<close>, \<open>Crt_Capacity_Correct\<close>, \<open>Crt_Garner\<close>, \<open>Crt_Garner_Correct\<close>: \<^verbatim>\<open>ntt/crt.rs\<close>; the
    multi-limb product and the width search are exact, and Garner reconstruction from residues
    returns the field image of the integer.
  \<^item> \<open>Cyclotomic_Ring\<close>, \<open>Cyclotomic_Ring_Correct\<close>: \<^verbatim>\<open>ring/cyclotomic.rs\<close>, its \<^verbatim>\<open>traits.rs\<close> and
    \<^verbatim>\<open>inverse.rs\<close>, and \<^verbatim>\<open>ring/eval.rs\<close>; ring laws of the schoolbook product, fused and sparse products,
    shifts, conjugation, inversion through even subrings.
  \<^item> \<open>Balanced_Decomposition\<close>, \<open>Balanced_Decomposition_Correct\<close>: \<^verbatim>\<open>ring/cyclotomic/decomposition.rs\<close>;
    the add-bias kernels refine the balanced digit recurrence and recompose.

  \<^bold>\<open>Parameters\<close> (\<^verbatim>\<open>akita-params/src\<close>).
  \<^item> \<open>Digit_Counts\<close>: \<^verbatim>\<open>sis/decomposition_digits.rs\<close>, \<^verbatim>\<open>config.rs\<close>; exact reaches, least sufficient digit
    counts, totality of the selectors on validated parameters.
  \<^item> \<open>Compression\<close>, \<open>Compression_Correct\<close>, \<open>Compression_Digits\<close>, \<open>Compression_Digits_Correct\<close>:
    \<^verbatim>\<open>compression.rs\<close>, \<^verbatim>\<open>compression/chain.rs\<close>, \<^verbatim>\<open>sis/compression.rs\<close>; the compression ladder is total and
    exact, its cache coherent, payload modes follow a step relation, packed digits round-trip.
  \<^item> \<open>Block_Partition\<close>, \<open>Block_Partition_Correct\<close>: \<^verbatim>\<open>witness/chunk_partition.rs\<close>,
    \<^verbatim>\<open>commitment_slicing.rs\<close>; a locale of partitions interpreted on dyadic ranges, slices and owner
    ranges.

  \<^bold>\<open>Not modelled.\<close>  The vector-instruction kernels (\<^verbatim>\<open>avx\<close>, \<^verbatim>\<open>neon\<close>, \<^verbatim>\<open>ifma52\<close>), which are intrinsics; the
  extendable-output sampler of the challenges, which is outside the repository; the derivation of a
  grinding plan from the fold schedule (\<^verbatim>\<open>transcript_grinding/plan.rs\<close>), opening groups over a
  recursive witness, whose tables come from packed digits, the checks of leases and handles of the
  backend, whose outcome is an argument, and the rest of the prover, the CPU backend, the verifier's
  relation checks and the planner, which orchestrate the modelled routines over the schedule's
  parameter records; the floating-point security estimator; setup files and serialization over
  \<^verbatim>\<open>std::io\<close>.
\<close>

end
